(* ===== verification/Prelude.thy ===== *)
theory Prelude
  imports Complex_Main "HOL-Library.Word" "HOL-Library.Monad_Syntax" "HOL-Library.Multiset"
begin

text \<open>
  Shared vocabulary of the development.

  The modelled program is a kernel module, so an operation that would dereference an
  invalid pointer, index an array out of its bounds or hit a BUG_ON (the macro
  NVMEV\_ASSERT) takes the machine down.  Such an operation returns \<^term>\<open>None\<close>; every
  operation that completes returns \<^term>\<open>Some\<close>.  A theorem that an operation returns
  \<^term>\<open>Some\<close> is therefore a theorem that the code does not crash.
\<close>

named_theorems nvmev_simps \<open>simplification rules of the driver's data types\<close>
named_theorems inv_rules \<open>introduction rules for component invariants\<close>

definition nvmev_assert :: "bool \<Rightarrow> unit option" where
  "nvmev_assert b = (if b then Some () else None)"

definition array_read :: "'a list \<Rightarrow> nat \<Rightarrow> 'a option" where
  "array_read xs i = (if i < length xs then Some (xs ! i) else None)"

definition array_write :: "'a list \<Rightarrow> nat \<Rightarrow> 'a \<Rightarrow> 'a list option" where
  "array_write xs i v = (if i < length xs then Some (xs[i := v]) else None)"

lemma nvmev_assert_simps [simp]:
  "nvmev_assert True = Some ()"
  "nvmev_assert False = None"
  "nvmev_assert b = Some u \<longleftrightarrow> b"
  "nvmev_assert b = None \<longleftrightarrow> \<not> b"
  by (simp_all add: nvmev_assert_def)

lemma nvmev_assert_bind [simp]: "b \<Longrightarrow> nvmev_assert b \<bind> f = f ()"
  by (simp add: nvmev_assert_def)

lemma array_read_in [simp]: "i < length xs \<Longrightarrow> array_read xs i = Some (xs ! i)"
  by (simp add: array_read_def)

lemma array_read_SomeD: "array_read xs i = Some x \<Longrightarrow> i < length xs \<and> x = xs ! i"
  by (auto simp: array_read_def split: if_splits)

lemma array_write_in [simp]: "i < length xs \<Longrightarrow> array_write xs i v = Some (xs[i := v])"
  by (simp add: array_write_def)

lemma array_write_SomeD: "array_write xs i v = Some ys \<Longrightarrow> i < length xs \<and> ys = xs[i := v]"
  by (auto simp: array_write_def split: if_splits)

lemma bind_SomeE:
  assumes "m \<bind> f = Some y"
  obtains x where "m = Some x" "f x = Some y"
  using assms by (cases m) auto

text \<open>Exchanging two cells of an array, the elementary step of both heap loops.\<close>

definition swap_cells :: "'a list \<Rightarrow> nat \<Rightarrow> nat \<Rightarrow> 'a list" where
  "swap_cells xs i j = xs[i := xs ! j, j := xs ! i]"

lemma length_swap_cells [simp]: "length (swap_cells xs i j) = length xs"
  by (simp add: swap_cells_def)

lemma nth_swap_cells:
  "i < length xs \<Longrightarrow> j < length xs \<Longrightarrow>
    swap_cells xs i j ! k = (if k = j then xs ! i else if k = i then xs ! j else xs ! k)"
  by (simp add: swap_cells_def nth_list_update)

lemma swap_cells_image:
  assumes "i < length xs" "j < length xs" "i \<in> A" "j \<in> A"
  shows "(!) (swap_cells xs i j) ` A = (!) xs ` A"
proof
  show "(!) (swap_cells xs i j) ` A \<subseteq> (!) xs ` A"
    using assms by (auto simp: nth_swap_cells)
  show "(!) xs ` A \<subseteq> (!) (swap_cells xs i j) ` A"
  proof
    fix x assume "x \<in> (!) xs ` A"
    then obtain k where k: "k \<in> A" "x = xs ! k" by auto
    have "x = swap_cells xs i j ! (if k = i then j else if k = j then i else k)"
      using assms k by (simp add: nth_swap_cells)
    moreover have "(if k = i then j else if k = j then i else k) \<in> A"
      using assms k by simp
    ultimately show "x \<in> (!) (swap_cells xs i j) ` A" by blast
  qed
qed

lemma swap_cells_inj_on:
  assumes "i < length xs" "j < length xs" "i \<in> A" "j \<in> A" "inj_on ((!) xs) A"
  shows "inj_on ((!) (swap_cells xs i j)) A"
  using assms by (auto simp: inj_on_def nth_swap_cells)

text \<open>Stepping to the next slot of a ring.\<close>

lemma ring_step: "((if e + 1 = n then 0 else e + 1) + k) mod n = (e + Suc k) mod (n::nat)"
proof (cases "e + 1 = n")
  case True
  then have "(e + Suc k) mod n = (k + n) mod n" by (intro arg_cong2[where f = "(mod)"]) simp_all
  also have "\<dots> = k mod n" by (rule mod_add_self2)
  finally show ?thesis by (simp only: if_P[OF True] add_0)
qed simp

text \<open>Reading a word that was truncated or widened by a cast.\<close>

lemma unat_ucast_mod:
  "unat (ucast (w :: 'a::len word) :: 'b::len word) = unat w mod 2 ^ LENGTH('b)"
  by (simp add: unsigned_ucast_eq unsigned_take_bit_eq take_bit_eq_mod)

lemma unat_ucast_up:
  "LENGTH('a) \<le> LENGTH('b) \<Longrightarrow> unat (ucast (w :: 'a::len word) :: 'b::len word) = unat w"
proof -
  assume "LENGTH('a) \<le> LENGTH('b)"
  then have "(2::nat) ^ LENGTH('a) \<le> 2 ^ LENGTH('b)" by simp
  moreover have "unat w < 2 ^ LENGTH('a)" by simp
  ultimately have "unat w < 2 ^ LENGTH('b)" by linarith
  then show ?thesis by (simp add: unat_ucast_mod)
qed

lemma unat_add_le: "unat (x + y) \<le> unat x + unat y" for x y :: "'a::len word"
  by (simp add: unat_word_ariths)

lemma unat_mult_le: "unat (x * y) \<le> unat x * unat y" for x y :: "'a::len word"
  by (simp add: unat_word_ariths)

text \<open>Counters of type \<^verbatim>\<open>uint32_t\<close>, kept as natural numbers with their wrap-around.\<close>

definition add32 :: "nat \<Rightarrow> nat \<Rightarrow> nat" where
  "add32 n k = (n + k) mod 2 ^ 32"

definition dec32 :: "nat \<Rightarrow> nat" where
  "dec32 n = (n + (2 ^ 32 - 1)) mod 2 ^ 32"

lemma add32_small [simp]: "n + k < 4294967296 \<Longrightarrow> add32 n k = n + k"
  by (simp add: add32_def)

lemma dec32_small [simp]:
  assumes "0 < n" "n < 4294967296"
  shows "dec32 n = n - 1"
proof -
  obtain m where m: "n = Suc m" using assms(1) by (cases n) auto
  have "m + 4294967296 = n + 4294967295" using m by simp
  then have "(n + 4294967295) mod 4294967296 = m"
    using assms(2) m mod_add_self2[of m 4294967296] by simp
  then show ?thesis using m by (simp add: dec32_def)
qed

text \<open>A counted loop over a list of indices; the body may crash.\<close>

fun foldM :: "('a \<Rightarrow> 's \<Rightarrow> 's option) \<Rightarrow> 'a list \<Rightarrow> 's \<Rightarrow> 's option" where
  "foldM f [] s = Some s"
| "foldM f (x # xs) s = do { s' \<leftarrow> f x s; foldM f xs s' }"

lemma foldM_append: "foldM f (xs @ ys) s = do { s' \<leftarrow> foldM f xs s; foldM f ys s' }"
proof (induction xs arbitrary: s)
  case (Cons x xs)
  then show ?case by (cases "f x s") auto
qed simp

lemma foldM_invariant:
  assumes "P 0 s"
    and "\<And>i s. i < length xs \<Longrightarrow> P i s \<Longrightarrow> \<exists>s'. f (xs ! i) s = Some s' \<and> P (Suc i) s'"
  shows "\<exists>s'. foldM f xs s = Some s' \<and> P (length xs) s'"
  using assms
proof (induction xs arbitrary: P s)
  case (Cons x xs)
  obtain s1 where s1: "f x s = Some s1" "P (Suc 0) s1"
    using Cons.prems(2)[of 0 s] Cons.prems(1) by auto
  have "\<exists>s'. foldM f xs s1 = Some s' \<and> (\<lambda>i. P (Suc i)) (length xs) s'"
  proof (rule Cons.IH)
    show "P (Suc 0) s1" by (rule s1(2))
    show "\<exists>s'. f (xs ! i) s = Some s' \<and> P (Suc (Suc i)) s'" if "i < length xs" "P (Suc i) s" for i s
      using Cons.prems(2)[of "Suc i" s] that by simp
  qed
  then show ?case using s1 by simp
qed simp

end
