(* ===== verification/Channel_Model.thy ===== *)
theory Channel_Model
  imports Prelude
begin

text \<open>
  The bandwidth model of a NAND channel or of the PCIe link, src/channel_model.c: a circular
  array of credits, one cell per time interval of 4000 ns, from which each transfer
  takes the credits it needs.  Integers keep the widths of the C code: times are 64-bit words,
  offsets and credit sums 32-bit words, array cells 8-bit words.  The array itself is a
  function of the index, and every access is guarded by the array length.
\<close>

type_synonym u64 = "64 word"
type_synonym u32 = "32 word"
type_synonym u8 = "8 word"

section \<open>Data\<close>

abbreviation (input) NR_CREDIT_ENTRIES :: nat where "NR_CREDIT_ENTRIES \<equiv> 98304"
abbreviation (input) NR_CREDIT_ENTRIES32 :: u32 where "NR_CREDIT_ENTRIES32 \<equiv> 98304"
abbreviation (input) UNIT_TIME_INTERVAL :: u64 where "UNIT_TIME_INTERVAL \<equiv> 4000"
abbreviation (input) UNIT_XFER_SIZE :: u64 where "UNIT_XFER_SIZE \<equiv> 128"
abbreviation (input) UNIT_XFER_CREDITS :: u32 where "UNIT_XFER_CREDITS \<equiv> 1"

record channel_model =
  cm_cur_time :: u64
  cm_head :: u32
  cm_valid_len :: u32
  cm_max_credits :: u32
  cm_command_credits :: u32
  cm_xfer_lat :: u32
  cm_avail_credits :: "nat \<Rightarrow> u8"

definition div_round_up :: "u64 \<Rightarrow> u64 \<Rightarrow> u64" where
  "div_round_up n d = (n + d - 1) div d"

definition BANDWIDTH_TO_TX_TIME :: "u64 \<Rightarrow> u64" where
  "BANDWIDTH_TO_TX_TIME mb_s = (UNIT_XFER_SIZE * 1000000000) div (mb_s * 1048576)"

definition BANDWIDTH_TO_MAX_CREDITS :: "u64 \<Rightarrow> u64" where
  "BANDWIDTH_TO_MAX_CREDITS mb_s =
    mb_s * 1048576 * UNIT_TIME_INTERVAL div 1000000000 div UNIT_XFER_SIZE * ucast UNIT_XFER_CREDITS"

definition memset_credits :: "(nat \<Rightarrow> u8) \<Rightarrow> nat \<Rightarrow> u32 \<Rightarrow> nat \<Rightarrow> (nat \<Rightarrow> u8) option" where
  "memset_credits a from v len =
    (if from + len \<le> NR_CREDIT_ENTRIES
     then Some (\<lambda>i. if from \<le> i \<and> i < from + len then ucast v else a i)
     else None)"

section \<open>Operations\<close>

text \<open>The bandwidth macros divide by zero for a bandwidth of 0.\<close>

definition chmodel_init :: "u64 \<Rightarrow> channel_model option" where
  "chmodel_init bandwidth = do {
     nvmev_assert (bandwidth * 1048576 \<noteq> 0);
     let max_credits = ucast (BANDWIDTH_TO_MAX_CREDITS bandwidth);
     Some \<lparr>cm_cur_time = 0, cm_head = 0, cm_valid_len = 0, cm_max_credits = max_credits,
       cm_command_credits = 0, cm_xfer_lat = ucast (BANDWIDTH_TO_TX_TIME bandwidth),
       cm_avail_credits = (\<lambda>_. ucast max_credits)\<rparr>
   }"

text \<open>The first part of \<^verbatim>\<open>chmodel_request\<close>: move the head to the current time and hand the
  cells that have passed their full credits again.\<close>

definition chmodel_advance :: "channel_model \<Rightarrow> u64 \<Rightarrow> channel_model option" where
  "chmodel_advance ch cur_time = do {
     let offs = (ucast (cur_time div UNIT_TIME_INTERVAL - cm_cur_time ch div UNIT_TIME_INTERVAL) :: u32);
     let cur_time_offs = (if offs < cm_valid_len ch then offs else cm_valid_len ch);
     credits \<leftarrow>
       (if NR_CREDIT_ENTRIES32 \<le> cm_head ch + cur_time_offs then do {
          a \<leftarrow> memset_credits (cm_avail_credits ch) (unat (cm_head ch)) (cm_max_credits ch)
                 (unat (NR_CREDIT_ENTRIES32 - cm_head ch));
          memset_credits a 0 (cm_max_credits ch)
                 (unat (cur_time_offs - (NR_CREDIT_ENTRIES32 - cm_head ch)))
        }
        else memset_credits (cm_avail_credits ch) (unat (cm_head ch)) (cm_max_credits ch)
               (unat cur_time_offs));
     let ch' = ch\<lparr>cm_avail_credits := credits,
                  cm_head := (cm_head ch + cur_time_offs) mod NR_CREDIT_ENTRIES32,
                  cm_cur_time := cur_time,
                  cm_valid_len := cm_valid_len ch - cur_time_offs\<rparr>;
     nvmev_assert (\<not> NR_CREDIT_ENTRIES32 < cm_valid_len ch');
     Some ch'
   }"

text \<open>The loop that takes credits: it ends when nothing remains or when the array is used
  up.  Not ending is the result \<^term>\<open>None\<close>.\<close>

partial_function (option) chmodel_take ::
  "u32 \<Rightarrow> (nat \<Rightarrow> u8) \<Rightarrow> u32 \<Rightarrow> u32 \<Rightarrow> u32 \<Rightarrow> ((nat \<Rightarrow> u8) \<times> u32 \<times> u32) option" where
  "chmodel_take head a pos remaining delay = do {
     nvmev_assert (unat pos < NR_CREDIT_ENTRIES);
     let consumed = (if remaining \<le> ucast (a (unat pos)) then remaining else ucast (a (unat pos)));
     let a' = a(unat pos := a (unat pos) - ucast consumed);
     let remaining' = remaining - consumed;
     let next_pos = (pos + 1) mod NR_CREDIT_ENTRIES32;
     (if remaining' \<noteq> 0 \<and> next_pos \<noteq> head
      then chmodel_take head a' next_pos remaining' (delay + 1)
      else Some (a', pos, delay))
   }"

definition chmodel_request ::
  "channel_model \<Rightarrow> u64 \<Rightarrow> u64 \<Rightarrow> u64 \<Rightarrow> (channel_model \<times> u64) option" where
  "chmodel_request ch0 cur_time request_time len = do {
     let units_to_xfer = (ucast (div_round_up len UNIT_XFER_SIZE) :: u32);
     ch \<leftarrow> chmodel_advance ch0 cur_time;
     if request_time < cur_time then Some (ch, request_time)
     else do {
       let request_time_offs =
         (ucast (request_time div UNIT_TIME_INTERVAL - cur_time div UNIT_TIME_INTERVAL) :: u32);
       if NR_CREDIT_ENTRIES32 \<le> request_time_offs then Some (ch, request_time)
       else do {
         let pos = (cm_head ch + request_time_offs) mod NR_CREDIT_ENTRIES32;
         let remaining = units_to_xfer * UNIT_XFER_CREDITS + cm_command_credits ch;
         nvmev_assert (cm_max_credits ch \<noteq> 0);
         let default_delay = remaining div cm_max_credits ch;
         (a, pos', delay) \<leftarrow> chmodel_take (cm_head ch) (cm_avail_credits ch) pos remaining 0;
         let valid_length = (if cm_head ch \<le> pos' then pos' - cm_head ch + 1
                             else NR_CREDIT_ENTRIES32 - (cm_head ch - pos' - 1));
         let delay' = (if default_delay < delay then delay - default_delay else 0);
         let total_latency = ucast (cm_xfer_lat ch * units_to_xfer) + ucast delay' * UNIT_TIME_INTERVAL;
         Some (ch\<lparr>cm_avail_credits := a,
                  cm_valid_len := (if cm_valid_len ch < valid_length then valid_length
                                   else cm_valid_len ch)\<rparr>,
               request_time + total_latency)
       }
     }
   }"

partial_function (option) chmodel_copy_delay :: "u32 \<Rightarrow> u32 \<Rightarrow> u32 \<Rightarrow> u32 option" where
  "chmodel_copy_delay max_credits remaining delay =
    (let consumed = (if remaining \<le> max_credits then remaining else max_credits);
         remaining' = remaining - consumed
     in if remaining' \<noteq> 0 then chmodel_copy_delay max_credits remaining' (delay + 1)
        else Some delay)"

definition chmodel_request_copy :: "channel_model \<Rightarrow> u64 \<Rightarrow> u64 \<Rightarrow> u64 option" where
  "chmodel_request_copy ch request_time len = do {
     let units_to_xfer = (ucast (div_round_up len UNIT_XFER_SIZE) :: u32);
     let remaining = units_to_xfer * UNIT_XFER_CREDITS + cm_command_credits ch;
     nvmev_assert (cm_max_credits ch \<noteq> 0);
     let default_delay = remaining div cm_max_credits ch;
     delay \<leftarrow> chmodel_copy_delay (cm_max_credits ch) remaining 0;
     let delay' = (if default_delay < delay then delay - default_delay else 0);
     Some (request_time + (ucast (cm_xfer_lat ch * units_to_xfer) + ucast delay' * UNIT_TIME_INTERVAL))
   }"

section \<open>Invariant\<close>

definition chmodel_ok :: "channel_model \<Rightarrow> bool" where
  "chmodel_ok ch \<longleftrightarrow> unat (cm_head ch) < NR_CREDIT_ENTRIES \<and>
     unat (cm_valid_len ch) \<le> NR_CREDIT_ENTRIES \<and>
     0 < unat (cm_max_credits ch) \<and> unat (cm_max_credits ch) < 256 \<and>
     (\<forall>i. unat (cm_avail_credits ch i) \<le> unat (cm_max_credits ch))"

lemma memset_credits_le:
  assumes "memset_credits a k v n = Some a'" "unat v < 256" "\<forall>i. unat (a i) \<le> unat v"
  shows "\<forall>i. unat (a' i) \<le> unat v"
  using assms by (auto simp: memset_credits_def unat_ucast_mod split: if_splits)

lemma unat_NR [simp]: "unat (98304 :: u32) = 98304" by simp

lemma chmodel_advance_ok:
  assumes "chmodel_ok ch"
  shows "\<exists>ch'. chmodel_advance ch t = Some ch' \<and> chmodel_ok ch' \<and> cm_cur_time ch' = t \<and>
    cm_xfer_lat ch' = cm_xfer_lat ch \<and> cm_command_credits ch' = cm_command_credits ch \<and>
    cm_max_credits ch' = cm_max_credits ch"
proof -
  define offs where "offs = (ucast (t div 4000 - cm_cur_time ch div 4000) :: u32)"
  define k where "k = (if offs < cm_valid_len ch then offs else cm_valid_len ch)"
  have ch: "unat (cm_head ch) < 98304" "unat (cm_valid_len ch) \<le> 98304"
    "unat (cm_max_credits ch) < 256" "0 < unat (cm_max_credits ch)"
    "\<forall>i. unat (cm_avail_credits ch i) \<le> unat (cm_max_credits ch)"
    using assms by (auto simp: chmodel_ok_def)
  have k: "k \<le> cm_valid_len ch" by (auto simp: k_def)
  then have kn: "unat k \<le> 98304" using ch(2) by (simp add: word_le_nat_alt)
  have sum: "unat (cm_head ch + k) = unat (cm_head ch) + unat k"
    using ch kn by (intro unat_add_lem[THEN iffD1]) simp
  have rest: "unat (98304 - cm_head ch) = 98304 - unat (cm_head ch)"
    using ch by (subst unat_sub) (auto simp: word_le_nat_alt)
  have "\<exists>a. (if 98304 \<le> cm_head ch + k then
      memset_credits (cm_avail_credits ch) (unat (cm_head ch)) (cm_max_credits ch)
                 (unat (98304 - cm_head ch)) \<bind>
      (\<lambda>a. memset_credits a 0 (cm_max_credits ch) (unat (k - (98304 - cm_head ch))))
      else memset_credits (cm_avail_credits ch) (unat (cm_head ch)) (cm_max_credits ch)
               (unat k)) = Some a \<and> (\<forall>i. unat (a i) \<le> unat (cm_max_credits ch))"
  proof (cases "98304 \<le> cm_head ch + k")
    case True
    then have "98304 - unat (cm_head ch) \<le> unat k" using sum by (simp add: word_le_nat_alt)
    then have "unat (k - (98304 - cm_head ch)) = unat k - (98304 - unat (cm_head ch))"
      using rest by (subst unat_sub) (auto simp: word_le_nat_alt)
    then show ?thesis
      using True ch kn rest by (auto simp: memset_credits_def unat_ucast_mod)
  next
    case False
    then have "unat (cm_head ch) + unat k < 98304" using sum by (simp add: word_le_nat_alt)
    then show ?thesis
      using False ch by (auto simp: memset_credits_def unat_ucast_mod)
  qed
  then obtain a where a: "(if 98304 \<le> cm_head ch + k then
      memset_credits (cm_avail_credits ch) (unat (cm_head ch)) (cm_max_credits ch)
                 (unat (98304 - cm_head ch)) \<bind>
      (\<lambda>a. memset_credits a 0 (cm_max_credits ch) (unat (k - (98304 - cm_head ch))))
      else memset_credits (cm_avail_credits ch) (unat (cm_head ch)) (cm_max_credits ch)
               (unat k)) = Some a" "\<forall>i. unat (a i) \<le> unat (cm_max_credits ch)" by blast
  have v: "unat (cm_valid_len ch - k) \<le> 98304"
    using k ch(2) by (simp add: unat_sub word_le_nat_alt)
  then have "\<not> 98304 < cm_valid_len ch - k" by (simp add: word_less_nat_alt)
  moreover have "unat ((cm_head ch + k) mod 98304) < 98304" by (simp add: unat_mod)
  ultimately show ?thesis
    using a v ch unfolding chmodel_advance_def
    by (simp add: Let_def offs_def[symmetric] k_def[symmetric] chmodel_ok_def cong: if_cong)
qed

text \<open>How many more cells the taking loop can visit from \<open>pos\<close> before it meets the head.\<close>

definition cells_left :: "nat \<Rightarrow> nat \<Rightarrow> nat" where
  "cells_left head pos =
    (if pos < head then head - pos - 1 else head + NR_CREDIT_ENTRIES - pos - 1)"

lemma cells_left_next:
  assumes "head < NR_CREDIT_ENTRIES" "pos < NR_CREDIT_ENTRIES"
    "(pos + 1) mod NR_CREDIT_ENTRIES \<noteq> head"
  shows "Suc (cells_left head ((pos + 1) mod NR_CREDIT_ENTRIES)) = cells_left head pos"
proof (cases "pos + 1 = NR_CREDIT_ENTRIES")
  case False
  then have "(pos + 1) mod NR_CREDIT_ENTRIES = pos + 1" using assms by simp
  then show ?thesis using assms by (auto simp: cells_left_def)
qed (use assms in \<open>auto simp: cells_left_def\<close>)

definition credit_sum :: "(nat \<Rightarrow> u8) \<Rightarrow> nat" where
  "credit_sum a = (\<Sum>i<NR_CREDIT_ENTRIES. unat (a i))"

lemma credit_sum_update:
  assumes "k < NR_CREDIT_ENTRIES"
  shows "credit_sum (a(k := v)) + unat (a k) = credit_sum a + unat v"
proof -
  have "credit_sum b = (\<Sum>i\<in>{..<NR_CREDIT_ENTRIES} - {k}. unat (b i)) + unat (b k)" for b
    unfolding credit_sum_def using assms by (subst sum.remove[of _ k]) auto
  from this[of a] this[of "a(k := v)"] show ?thesis by simp
qed

definition taken ::
  "u32 \<Rightarrow> (nat \<Rightarrow> u8) \<Rightarrow> u32 \<Rightarrow> u32 \<Rightarrow> ((nat \<Rightarrow> u8) \<times> u32 \<times> u32) option \<Rightarrow> nat \<Rightarrow> bool" where
  "taken head a remaining delay r n \<longleftrightarrow> (\<exists>a' pos' delay' c. r = Some (a', pos', delay') \<and>
     unat pos' < NR_CREDIT_ENTRIES \<and> (\<forall>i. unat (a' i) \<le> unat (a i)) \<and>
     unat delay' \<le> unat delay + n \<and>
     credit_sum a = credit_sum a' + c \<and> c \<le> unat remaining \<and>
     (c < unat remaining \<longrightarrow> (pos' + 1) mod NR_CREDIT_ENTRIES32 = head))"

lemma unat_next_pos:
  assumes "unat pos < NR_CREDIT_ENTRIES"
  shows "unat ((pos + 1 :: u32) mod 98304) = (unat pos + 1) mod NR_CREDIT_ENTRIES"
proof -
  have "unat (pos + 1) = unat pos + unat (1 :: u32)"
    using assms by (intro unat_add_lem[THEN iffD1]) simp
  then show ?thesis by (simp add: unat_mod)
qed

lemma chmodel_take_ok:
  assumes head: "unat head < NR_CREDIT_ENTRIES"
  shows "unat pos < NR_CREDIT_ENTRIES \<Longrightarrow>
    unat delay + cells_left (unat head) (unat pos) < 2 ^ 32 \<Longrightarrow>
    taken head a remaining delay (chmodel_take head a pos remaining delay)
      (cells_left (unat head) (unat pos))"
proof (induction "cells_left (unat head) (unat pos)" arbitrary: a pos remaining delay
    rule: less_induct)
  case less
  let ?v = "a (unat pos)"
  define c where "c = (if remaining \<le> ucast ?v then remaining else ucast ?v)"
  define a' where "a' = a(unat pos := ?v - ucast c)"
  define nxt where "nxt = (pos + 1) mod 98304"
  have cv: "unat c \<le> unat ?v" "unat c \<le> unat remaining"
    by (auto simp: c_def word_le_nat_alt unat_ucast_up)
  have "unat ?v < 2 ^ LENGTH(8)" by (rule unsigned_less)
  then have uc: "unat (ucast c :: u8) = unat c"
    using cv(1) by (simp add: unat_ucast_mod)
  then have v': "unat (?v - ucast c) = unat ?v - unat c"
    using cv by (subst unat_sub) (auto simp: word_le_nat_alt)
  have sum: "credit_sum a = credit_sum a' + unat c"
    using credit_sum_update[OF less.prems(1), of a "?v - ucast c"] v' cv by (simp add: a'_def)
  have le: "\<forall>i. unat (a' i) \<le> unat (a i)" using v' by (simp add: a'_def)
  have rem: "unat (remaining - c) = unat remaining - unat c"
    using cv by (subst unat_sub) (auto simp: word_le_nat_alt)
  have unfold: "chmodel_take head a pos remaining delay =
      (if remaining - c \<noteq> 0 \<and> nxt \<noteq> head then chmodel_take head a' nxt (remaining - c) (delay + 1)
       else Some (a', pos, delay))"
    using less.prems(1)
    by (subst chmodel_take.simps) (simp add: Let_def c_def a'_def nxt_def)
  show ?case
  proof (cases "remaining - c \<noteq> 0 \<and> nxt \<noteq> head")
    case True
    have un: "unat nxt = (unat pos + 1) mod NR_CREDIT_ENTRIES"
      using unat_next_pos[OF less.prems(1)] by (simp add: nxt_def)
    then have ne: "(unat pos + 1) mod NR_CREDIT_ENTRIES \<noteq> unat head"
      using True by (metis unsigned_word_eqI)
    have left: "Suc (cells_left (unat head) (unat nxt)) = cells_left (unat head) (unat pos)"
      using cells_left_next[OF head less.prems(1) ne] un by simp
    have del: "unat (delay + 1) = unat delay + 1"
    proof -
      have "unat (delay + 1) = unat delay + unat (1 :: u32)"
        using less.prems(2) left by (intro unat_add_lem[THEN iffD1]) simp
      then show ?thesis by simp
    qed
    have "taken head a' (remaining - c) (delay + 1) (chmodel_take head a' nxt (remaining - c) (delay + 1))
        (cells_left (unat head) (unat nxt))"
      using less.hyps[of nxt "delay + 1" a' "remaining - c"] less.prems left del un by simp
    then obtain a'' pos' delay' k where r: "chmodel_take head a' nxt (remaining - c) (delay + 1) =
        Some (a'', pos', delay')" "unat pos' < NR_CREDIT_ENTRIES" "\<forall>i. unat (a'' i) \<le> unat (a' i)"
        "unat delay' \<le> unat (delay + 1) + cells_left (unat head) (unat nxt)"
        "credit_sum a' = credit_sum a'' + k" "k \<le> unat (remaining - c)"
        "k < unat (remaining - c) \<longrightarrow> (pos' + 1) mod NR_CREDIT_ENTRIES32 = head"
      unfolding taken_def by blast
    have "\<forall>i. unat (a'' i) \<le> unat (a i)" using r(3) le le_trans by blast
    then show ?thesis
      unfolding taken_def unfold using True r sum cv left del rem
      by (intro exI[of _ a''] exI[of _ pos'] exI[of _ delay'] exI[of _ "unat c + k"]) auto
  next
    case False
    have "unat remaining = unat c" if "remaining - c = 0" using rem that cv by simp
    then show ?thesis
      unfolding taken_def unfold using False less.prems(1) le sum cv
      by (intro exI[of _ a'] exI[of _ pos] exI[of _ delay] exI[of _ "unat c"])
         (auto simp: nxt_def)
  qed
qed

lemma cells_left_less: "head < NR_CREDIT_ENTRIES \<Longrightarrow> cells_left head pos < NR_CREDIT_ENTRIES"
  by (auto simp: cells_left_def)

lemma valid_length_le:
  assumes "unat head < NR_CREDIT_ENTRIES" "unat pos < NR_CREDIT_ENTRIES"
  shows "unat (if head \<le> pos then pos - head + 1 else 98304 - (head - pos - 1) :: u32)
    \<le> NR_CREDIT_ENTRIES"
proof (cases "head \<le> pos")
  case True
  then have d: "unat (pos - head) = unat pos - unat head" by (simp add: unat_sub)
  then have "unat (pos - head + 1) = unat (pos - head) + unat (1 :: u32)"
    using assms by (intro unat_add_lem[THEN iffD1]) simp
  then show ?thesis using True d assms by simp
next
  case False
  then have lt: "unat pos < unat head" by (simp add: word_le_nat_alt)
  have d: "unat (head - pos) = unat head - unat pos"
    using lt by (subst unat_sub) (auto simp: word_le_nat_alt)
  then have d1: "unat (head - pos - 1) = unat head - unat pos - 1"
    using lt by (subst unat_sub) (auto simp: word_le_nat_alt)
  then have "unat (98304 - (head - pos - 1)) = 98304 - (unat head - unat pos - 1)"
    using assms by (subst unat_sub) (auto simp: word_le_nat_alt)
  then show ?thesis using False by simp
qed

text \<open>A request never crashes the model and keeps its invariant; it does not complete before
  it was made unless the 64-bit clock overflows, and it never takes more credits than the
  transfer needs.\<close>

lemma chmodel_request_ok:
  assumes "chmodel_ok ch"
  shows "\<exists>ch' t. chmodel_request ch now req len = Some (ch', t) \<and> chmodel_ok ch' \<and>
    cm_max_credits ch' = cm_max_credits ch \<and>
    (unat req + 2 ^ 32 + 2 ^ 32 * 4000 < 2 ^ 64 \<longrightarrow> req \<le> t)"
proof -
  obtain c where c: "chmodel_advance ch now = Some c" "chmodel_ok c"
    "cm_max_credits c = cm_max_credits ch"
    using chmodel_advance_ok[OF assms] by blast
  define units where "units = (ucast (div_round_up len 128) :: u32)"
  define offs where "offs = (ucast (req div 4000 - now div 4000) :: u32)"
  define pos where "pos = (cm_head c + offs) mod 98304"
  define rem where "rem = units + cm_command_credits c"
  note defs = units_def[symmetric] offs_def[symmetric] pos_def[symmetric] rem_def[symmetric]
  show ?thesis
  proof (cases "req < now \<or> 98304 \<le> offs")
    case True
    then show ?thesis
      using c by (auto simp: chmodel_request_def Let_def offs_def)
  next
    case False
    have h: "unat (cm_head c) < NR_CREDIT_ENTRIES" using c by (simp add: chmodel_ok_def)
    have p: "unat pos < NR_CREDIT_ENTRIES" by (simp add: pos_def unat_mod)
    have "taken (cm_head c) (cm_avail_credits c) rem 0
        (chmodel_take (cm_head c) (cm_avail_credits c) pos rem 0)
        (cells_left (unat (cm_head c)) (unat pos))"
      using chmodel_take_ok[OF h p, of 0] cells_left_less[OF h, of "unat pos"] by simp
    then obtain a pos' delay where tk: "chmodel_take (cm_head c) (cm_avail_credits c) pos rem 0 =
        Some (a, pos', delay)" "unat pos' < NR_CREDIT_ENTRIES"
        "\<forall>i. unat (a i) \<le> unat (cm_avail_credits c i)"
      unfolding taken_def by blast
    define vl where "vl = (if cm_head c \<le> pos' then pos' - cm_head c + 1
        else 98304 - (cm_head c - pos' - 1))"
    define lat where "lat = (ucast (cm_xfer_lat c * units) :: u64) +
        ucast (if rem div cm_max_credits c < delay then delay - rem div cm_max_credits c else 0) * 4000"
    let ?c = "c\<lparr>cm_avail_credits := a,
        cm_valid_len := (if cm_valid_len c < vl then vl else cm_valid_len c)\<rparr>"
    have run: "chmodel_request ch now req len = Some (?c, req + lat)"
      using False c tk unfolding chmodel_request_def
      by (simp add: Let_def defs chmodel_ok_def vl_def lat_def unat_gt_0 split del: if_split cong: if_cong)
    have "unat vl \<le> NR_CREDIT_ENTRIES" using valid_length_le[OF h tk(2)] by (simp add: vl_def)
    moreover have "\<forall>i. unat (a i) \<le> unat (cm_max_credits c)"
      using tk(3) c(2) le_trans unfolding chmodel_ok_def by blast
    ultimately have "chmodel_ok ?c" using c(2) by (simp add: chmodel_ok_def)
    moreover have "req \<le> req + lat" if small: "unat req + 2 ^ 32 + 2 ^ 32 * 4000 < 2 ^ 64"
    proof -
      have w: "unat x < 2 ^ 32" for x :: u32
        using unsigned_less[where 'a = nat, of x] by simp
      have "unat lat \<le> unat (ucast (cm_xfer_lat c * units) :: u64) +
          unat (ucast (if rem div cm_max_credits c < delay then delay - rem div cm_max_credits c else 0) :: u64)
          * unat (4000 :: u64)"
        unfolding lat_def by (intro order_trans[OF unat_add_le] add_left_mono unat_mult_le)
      also have "\<dots> < 2 ^ 32 + 2 ^ 32 * 4000"
        using w by (intro add_strict_mono) (auto simp: unat_ucast_up)
      finally have "unat req + unat lat < 2 ^ 64" using small by simp
      then have "unat (req + lat) = unat req + unat lat"
        by (intro unat_add_lem[THEN iffD1]) simp
      then show ?thesis by (simp add: word_le_nat_alt)
    qed
    ultimately show ?thesis using run c(3) by auto
  qed
qed

lemma chmodel_copy_delay_le:
  assumes "0 < unat m"
  shows "unat d + unat r div unat m < 2 ^ 32 \<Longrightarrow> \<exists>d'. chmodel_copy_delay m r d = Some d' \<and>
    unat d' \<le> unat d + unat r div unat m"
proof (induction "unat r" arbitrary: r d rule: less_induct)
  case less
  show ?case
  proof (cases "r \<le> m")
    case True
    then show ?thesis by (subst chmodel_copy_delay.simps) simp
  next
    case False
    then have lt: "unat m < unat r" by (simp add: word_le_nat_alt)
    have sub: "unat (r - m) = unat r - unat m"
      using lt by (subst unat_sub) (auto simp: word_le_nat_alt)
    have q: "unat r div unat m = Suc (unat (r - m) div unat m)"
      using lt assms sub by (simp add: le_div_geq)
    have d1: "unat (d + 1) = unat d + 1"
    proof -
      have "unat (d + 1) = unat d + unat (1 :: u32)"
        using less.prems q by (intro unat_add_lem[THEN iffD1]) simp
      then show ?thesis by simp
    qed
    have "unat (r - m) < unat r" using sub lt assms by simp
    then obtain d' where "chmodel_copy_delay m (r - m) (d + 1) = Some d'"
      "unat d' \<le> unat (d + 1) + unat (r - m) div unat m"
      using less.hyps[of "r - m" "d + 1"] less.prems q d1 by auto
    moreover have "r - m \<noteq> 0" using False by auto
    ultimately show ?thesis
      using False q d1 by (subst chmodel_copy_delay.simps) (simp add: Let_def)
  qed
qed

lemma chmodel_request_copy_value:
  assumes "0 < unat (cm_max_credits ch)"
  shows "chmodel_request_copy ch req len =
    Some (req + ucast (cm_xfer_lat ch * ucast (div_round_up len 128)))"
proof -
  define r where "r = (ucast (div_round_up len 128) :: u32) + cm_command_credits ch"
  have "unat r div unat (cm_max_credits ch) \<le> unat r" by (rule div_le_dividend)
  also have "unat r < 2 ^ 32" using unsigned_less[where 'a = nat, of r] by simp
  finally have "unat r div unat (cm_max_credits ch) < 2 ^ 32" .
  then obtain d where d: "chmodel_copy_delay (cm_max_credits ch) r 0 = Some d"
    "unat d \<le> unat r div unat (cm_max_credits ch)"
    using chmodel_copy_delay_le[OF assms, of 0 r] by auto
  then have "\<not> r div cm_max_credits ch < d" by (simp add: word_less_nat_alt unat_div)
  then show ?thesis
    using d assms by (simp add: chmodel_request_copy_def Let_def r_def[symmetric] unat_gt_0)
qed

lemma chmodel_init_ok:
  assumes "32 \<le> unat bw" "unat bw \<le> 7812"
  shows "\<exists>ch. chmodel_init bw = Some ch \<and> chmodel_ok ch"
proof -
  have m1: "unat (bw * 1048576) = unat bw * 1048576"
    using assms by (subst unat_mult_lem[THEN iffD1]) simp_all
  have m2: "unat (bw * 1048576 * 4000) = unat bw * 1048576 * 4000"
    using assms m1 by (subst unat_mult_lem[THEN iffD1]) simp_all
  have m3: "unat (BANDWIDTH_TO_MAX_CREDITS bw) = unat bw * 4194304000 div 1000000000 div 128"
    using m2 by (simp add: BANDWIDTH_TO_MAX_CREDITS_def unat_div)
  have hi: "unat bw * 4194304000 div 1000000000 div 128 < 256"
  proof -
    have "unat bw * 4194304000 \<le> 7812 * 4194304000" using assms(2) by simp
    then have "unat bw * 4194304000 div 1000000000 div 128 \<le> 7812 * 4194304000 div 1000000000 div 128"
      by (intro div_le_mono)
    then show ?thesis by simp
  qed
  have lo: "0 < unat bw * 4194304000 div 1000000000 div 128"
  proof -
    have "32 * 4194304000 \<le> unat bw * 4194304000" using assms(1) by simp
    then have "32 * 4194304000 div 1000000000 div 128 \<le> unat bw * 4194304000 div 1000000000 div 128"
      by (intro div_le_mono)
    then show ?thesis by simp
  qed
  have "bw * 1048576 \<noteq> 0" using m1 assms(1) by (metis less_numeral_extra(3) mult_pos_pos
      order_less_le_trans unsigned_0 zero_less_numeral)
  moreover have "unat (ucast (BANDWIDTH_TO_MAX_CREDITS bw) :: u32) =
      unat bw * 4194304000 div 1000000000 div 128"
    using m3 hi by (simp add: unat_ucast_mod)
  ultimately show ?thesis
    using hi lo by (simp add: chmodel_init_def chmodel_ok_def unat_ucast_mod Let_def)
qed

end
