(* ===== verification/Ssd_Config.thy ===== *)
theory Ssd_Config
  imports Channel_Model
begin

text \<open>
  The device configurations of src/ssd\_config.c and src/ssd\_config.h.  The C structure has
  \<^verbatim>\<open>int\<close> fields that only ever hold non-negative constants; they are natural numbers here.
  The over-provisioning percentage is a C double, here a rational number.  Each loader
  overwrites the fields its C function overwrites and leaves the others as they are.
\<close>

datatype ssd_type = SSD_TYPE_NVM | SSD_TYPE_CONV | SSD_TYPE_ZNS | SSD_TYPE_KV

datatype allocator_type = ALLOCATOR_TYPE_BITMAP | ALLOCATOR_TYPE_APPEND_ONLY

abbreviation (input) KB :: "nat \<Rightarrow> nat" where "KB n \<equiv> n * 1024"
abbreviation (input) MB :: "nat \<Rightarrow> nat" where "MB n \<equiv> n * 1024 * 1024"
abbreviation (input) GB :: "nat \<Rightarrow> nat" where "GB n \<equiv> n * 1024 * 1024 * 1024"

abbreviation (input) CELL_MODE_UNKNOWN :: nat where "CELL_MODE_UNKNOWN \<equiv> 0"
abbreviation (input) CELL_MODE_MLC :: nat where "CELL_MODE_MLC \<equiv> 2"
abbreviation (input) CELL_MODE_TLC :: nat where "CELL_MODE_TLC \<equiv> 3"

record zns_configs =
  ZONE_SIZE :: nat
  DIES_PER_ZONE :: nat
  ZONE_WB_SIZE :: nat
  MAX_ZRWA_ZONES :: nat
  ZRWAFG_SIZE :: nat
  ZRWA_SIZE :: nat
  ZRWA_BUFFER_SIZE :: nat

record kv_configs =
  KV_MAPPING_TABLE_SIZE :: nat
  ALLOCATOR_TYPE :: allocator_type

datatype extra_configs = Extra_none | Extra_zns zns_configs | Extra_kv kv_configs

record ftl_configs =
  cfg_max_con :: nat
  NS_SSD_TYPE :: ssd_type
  MDTS :: nat
  CELL_MODE :: nat
  SSD_PARTITIONS :: nat
  NAND_CHANNELS :: nat
  LUNS_PER_NAND_CH :: nat
  PLNS_PER_LUN :: nat
  FLASH_PAGE_SIZE :: nat
  ONESHOT_PAGE_SIZE :: nat
  BLKS_PER_PLN :: nat
  BLK_SIZE :: nat
  MAX_CH_XFER_SIZE :: nat
  WRITE_UNIT_SIZE :: nat
  NAND_CHANNEL_BANDWIDTH :: nat
  PCIE_BANDWIDTH :: nat
  NAND_4KB_READ_LATENCY_LSB :: nat
  NAND_4KB_READ_LATENCY_MSB :: nat
  NAND_4KB_READ_LATENCY_CSB :: nat
  NAND_READ_LATENCY_LSB :: nat
  NAND_READ_LATENCY_MSB :: nat
  NAND_READ_LATENCY_CSB :: nat
  NAND_PROG_LATENCY :: nat
  NAND_ERASE_LATENCY :: nat
  FW_4KB_READ_LATENCY :: nat
  FW_READ_LATENCY :: nat
  FW_WBUF_LATENCY0 :: nat
  FW_WBUF_LATENCY1 :: nat
  FW_CH_XFER_LATENCY :: nat
  OP_AREA_PERCENT :: rat
  GLOBAL_WB_SIZE :: nat
  WRITE_EARLY_COMPLETION :: bool
  extra_cfgs :: extra_configs

definition load_simple_configs :: "ftl_configs \<Rightarrow> ftl_configs" where
  "load_simple_configs c = c\<lparr>NS_SSD_TYPE := SSD_TYPE_NVM, MDTS := 5, CELL_MODE := CELL_MODE_UNKNOWN\<rparr>"

definition load_conv_configs :: "ftl_configs \<Rightarrow> ftl_configs option" where
  "load_conv_configs c0 = do {
     let c = c0\<lparr>NS_SSD_TYPE := SSD_TYPE_CONV, MDTS := 6, CELL_MODE := CELL_MODE_MLC,
       SSD_PARTITIONS := 4, NAND_CHANNELS := 8, LUNS_PER_NAND_CH := 2, PLNS_PER_LUN := 1,
       FLASH_PAGE_SIZE := KB 32, ONESHOT_PAGE_SIZE := KB 32 * 1,
       BLKS_PER_PLN := 8192, BLK_SIZE := 0\<rparr>;
     nvmev_assert (ONESHOT_PAGE_SIZE c mod FLASH_PAGE_SIZE c = 0);
     Some (c\<lparr>MAX_CH_XFER_SIZE := KB 16, WRITE_UNIT_SIZE := 512,
       NAND_CHANNEL_BANDWIDTH := 800, PCIE_BANDWIDTH := 3360,
       NAND_4KB_READ_LATENCY_LSB := 35760 - 6000,
       NAND_4KB_READ_LATENCY_MSB := 35760 + 6000,
       NAND_4KB_READ_LATENCY_CSB := 0,
       NAND_READ_LATENCY_LSB := 36013 - 6000,
       NAND_READ_LATENCY_MSB := 36013 + 6000,
       NAND_READ_LATENCY_CSB := 0,
       NAND_PROG_LATENCY := 185000, NAND_ERASE_LATENCY := 0,
       FW_4KB_READ_LATENCY := 21500, FW_READ_LATENCY := 30490,
       FW_WBUF_LATENCY0 := 4000, FW_WBUF_LATENCY1 := 460, FW_CH_XFER_LATENCY := 0,
       GLOBAL_WB_SIZE := NAND_CHANNELS c * LUNS_PER_NAND_CH c * ONESHOT_PAGE_SIZE c * 2,
       WRITE_EARLY_COMPLETION := True\<rparr>)
   }"

definition load_zns_configs :: "ftl_configs \<Rightarrow> ftl_configs option" where
  "load_zns_configs c0 = do {
     let c = c0\<lparr>NS_SSD_TYPE := SSD_TYPE_ZNS, MDTS := 6, CELL_MODE := CELL_MODE_TLC,
       SSD_PARTITIONS := 1, NAND_CHANNELS := 8, LUNS_PER_NAND_CH := 4, PLNS_PER_LUN := 1,
       FLASH_PAGE_SIZE := KB 16, ONESHOT_PAGE_SIZE := KB 16 * 3\<rparr>;
     let z = \<lparr>ZONE_SIZE = MB 2, DIES_PER_ZONE = NAND_CHANNELS c * LUNS_PER_NAND_CH c,
       ZONE_WB_SIZE = 10 * ONESHOT_PAGE_SIZE c, MAX_ZRWA_ZONES = 0, ZRWAFG_SIZE = 0,
       ZRWA_SIZE = 0, ZRWA_BUFFER_SIZE = 0\<rparr>;
     nvmev_assert (ONESHOT_PAGE_SIZE c mod FLASH_PAGE_SIZE c = 0);
     nvmev_assert (ZONE_SIZE z mod DIES_PER_ZONE z = 0);
     Some (c\<lparr>MAX_CH_XFER_SIZE := FLASH_PAGE_SIZE c, WRITE_UNIT_SIZE := 512,
       NAND_CHANNEL_BANDWIDTH := 450, PCIE_BANDWIDTH := 3050,
       NAND_4KB_READ_LATENCY_LSB := 50000, NAND_4KB_READ_LATENCY_MSB := 50000,
       NAND_4KB_READ_LATENCY_CSB := 50000,
       NAND_READ_LATENCY_LSB := 58000, NAND_READ_LATENCY_MSB := 58000,
       NAND_READ_LATENCY_CSB := 58000,
       NAND_PROG_LATENCY := 561000, NAND_ERASE_LATENCY := 3500000,
       FW_4KB_READ_LATENCY := 20000, FW_READ_LATENCY := 13000,
       FW_WBUF_LATENCY0 := 5600, FW_WBUF_LATENCY1 := 600, FW_CH_XFER_LATENCY := 0,
       OP_AREA_PERCENT := 7 / 100, GLOBAL_WB_SIZE := 0, WRITE_EARLY_COMPLETION := True,
       BLKS_PER_PLN := 0, BLK_SIZE := ZONE_SIZE z div DIES_PER_ZONE z,
       extra_cfgs := Extra_zns z\<rparr>)
   }"

definition load_kv_configs :: "ftl_configs \<Rightarrow> ftl_configs" where
  "load_kv_configs c = c\<lparr>NS_SSD_TYPE := SSD_TYPE_KV, MDTS := 5, CELL_MODE := CELL_MODE_MLC,
     extra_cfgs := Extra_kv \<lparr>KV_MAPPING_TABLE_SIZE = GB 1,
                            ALLOCATOR_TYPE = ALLOCATOR_TYPE_APPEND_ONLY\<rparr>\<rparr>"

end
