(* ===== verification/Ssd.thy ===== *)
theory Ssd
  imports Ssd_Config
begin

text \<open>
  The NAND and bus model of src/ssd.c and src/ssd.h: geometry, page and block state, the
  write buffer, and the time a NAND command takes.  The arrays channel / LUN / plane / block
  are one function of the address; every access is guarded by the geometry that the
  C code allocated the arrays with.  The clock is an external input: the sequence of values
  that successive calls of \<^verbatim>\<open>cpu_clock\<close> return.
\<close>

section \<open>Data\<close>

datatype page_status = PG_FREE | PG_INVALID | PG_VALID

datatype nand_op = NAND_READ | NAND_WRITE | NAND_ERASE | NAND_NOP

datatype io_type = USER_IO | GC_IO

text \<open>A physical page address is a 64-bit union of bit fields.  Storing into a field
  truncates to its width.\<close>

record ppa =
  p_pg :: nat
  p_blk :: nat
  p_pl :: nat
  p_lun :: nat
  p_ch :: nat
  p_rsv :: nat

definition mk_ppa :: "nat \<Rightarrow> nat \<Rightarrow> nat \<Rightarrow> nat \<Rightarrow> nat \<Rightarrow> ppa" where
  "mk_ppa ch lun pl blk pg = \<lparr>p_pg = pg mod 65536, p_blk = blk mod 65536, p_pl = pl mod 256,
     p_lun = lun mod 256, p_ch = ch mod 256, p_rsv = 0\<rparr>"

definition UNMAPPED_PPA :: ppa where
  "UNMAPPED_PPA = \<lparr>p_pg = 65535, p_blk = 65535, p_pl = 255, p_lun = 255, p_ch = 255, p_rsv = 255\<rparr>"

text \<open>Equality of the bit field \<^verbatim>\<open>h.blk_in_ssd\<close>, which overlays block, plane, LUN and channel.\<close>

definition same_blk_in_ssd :: "ppa \<Rightarrow> ppa \<Rightarrow> bool" where
  "same_blk_in_ssd a b \<longleftrightarrow>
     p_blk a = p_blk b \<and> p_pl a = p_pl b \<and> p_lun a = p_lun b \<and> p_ch a = p_ch b"

record nand_page =
  pg_sec :: "page_status list"
  pg_nsecs :: nat
  pg_status :: page_status

record nand_block =
  b_pg :: "nand_page list"
  b_npgs :: nat
  b_ipc :: int
  b_vpc :: int
  b_erase_cnt :: int
  b_wp :: int

record nand_lun =
  l_npls :: nat
  l_next_avail :: u64
  l_busy :: bool
  l_gc_endtime :: u64
  l_first_io :: bool

record ssd_channel =
  c_nluns :: nat
  c_perf_model :: channel_model

record nand_cmd =
  nc_type :: io_type
  nc_cmd :: nand_op
  nc_xfer_size :: nat
  nc_stime :: u64
  nc_interleave_pci_dma :: bool
  nc_ppa :: ppa
  nc_arrive_time :: int

record buffer =
  buf_size :: nat
  buf_remaining :: nat

record ssdparams =
  secsz :: nat
  secs_per_pg :: nat
  pgsz :: nat
  pgs_per_flashpg :: nat
  flashpgs_per_blk :: nat
  pgs_per_oneshotpg :: nat
  oneshotpgs_per_blk :: nat
  pgs_per_blk :: nat
  blks_per_pl :: nat
  pls_per_lun :: nat
  luns_per_ch :: nat
  nchs :: nat
  cell_mode :: nat
  write_unit_size :: nat
  write_early_completion :: bool
  pg_4kb_rd_lat :: "nat list"
  pg_rd_lat :: "nat list"
  pg_wr_lat :: nat
  blk_er_lat :: nat
  max_ch_xfer_size :: nat
  fw_4kb_rd_lat :: nat
  fw_rd_lat :: nat
  fw_wbuf_lat0 :: nat
  fw_wbuf_lat1 :: nat
  fw_ch_xfer_lat :: nat
  ch_bandwidth :: nat
  pcie_bandwidth :: nat
  secs_per_blk :: nat
  secs_per_pl :: nat
  secs_per_lun :: nat
  secs_per_ch :: nat
  tt_secs :: nat
  pgs_per_pl :: nat
  pgs_per_lun :: nat
  pgs_per_ch :: nat
  tt_pgs :: nat
  blks_per_lun :: nat
  blks_per_ch :: nat
  tt_blks :: nat
  secs_per_line :: nat
  pgs_per_line :: nat
  blks_per_line :: nat
  tt_lines :: nat
  pls_per_ch :: nat
  tt_pls :: nat
  tt_luns :: nat
  write_buffer_size :: nat
  max_con :: nat

type_synonym blk_addr = "nat \<times> nat \<times> nat \<times> nat"

record ssd =
  ssd_sp :: ssdparams
  ssd_ch :: "nat \<Rightarrow> ssd_channel"
  ssd_lun :: "nat \<times> nat \<Rightarrow> nand_lun"
  ssd_blk :: "blk_addr \<Rightarrow> nand_block"
  ssd_pcie :: channel_model
  ssd_write_buffer :: buffer
  ssd_checking :: bool
  ssd_ch_die_counter :: u64
  ssd_ch_die_latency :: u64
  ssd_clock :: "nat \<Rightarrow> u64"
  ssd_tick :: nat

section \<open>The write buffer\<close>

definition buffer_init :: "nat \<Rightarrow> buffer" where
  "buffer_init n = \<lparr>buf_size = n, buf_remaining = n\<rparr>"

text \<open>The C function returns the size as a 32-bit number.\<close>

definition buffer_allocate :: "buffer \<Rightarrow> nat \<Rightarrow> buffer \<times> nat" where
  "buffer_allocate buf n =
    (let n' = (if buf_remaining buf < n then 0 else n)
     in (buf\<lparr>buf_remaining := buf_remaining buf - n'\<rparr>, n' mod 2 ^ 32))"

definition buffer_release :: "buffer \<Rightarrow> nat \<Rightarrow> buffer" where
  "buffer_release buf n = buf\<lparr>buf_remaining := buf_remaining buf + n\<rparr>"

definition buffer_refill :: "buffer \<Rightarrow> buffer" where
  "buffer_refill buf = buf\<lparr>buf_remaining := buf_size buf\<rparr>"

section \<open>Geometry\<close>

definition DIV_ROUND_UP :: "nat \<Rightarrow> nat \<Rightarrow> nat" where
  "DIV_ROUND_UP n d = (n + d - 1) div d"

definition ssd_init_params :: "nat \<Rightarrow> nat \<Rightarrow> ftl_configs \<Rightarrow> ssdparams option" where
  "ssd_init_params capacity0 nparts cfg = do {
     nvmev_assert (nparts \<noteq> 0 \<and> NAND_CHANNELS cfg mod nparts = 0);
     let chs = NAND_CHANNELS cfg div nparts;
     let capacity = capacity0 div nparts;
     let pls = PLNS_PER_LUN cfg;
     let luns = LUNS_PER_NAND_CH cfg;
     let page = 512 * 8;
     (blks, blk_size) \<leftarrow>
       (if BLKS_PER_PLN cfg > 0 then do {
          nvmev_assert (BLKS_PER_PLN cfg * pls * luns * chs \<noteq> 0);
          Some (BLKS_PER_PLN cfg, DIV_ROUND_UP capacity (BLKS_PER_PLN cfg * pls * luns * chs))
        }
        else do {
          nvmev_assert (BLK_SIZE cfg > 0);
          nvmev_assert (BLK_SIZE cfg * pls * luns * chs \<noteq> 0);
          Some (DIV_ROUND_UP capacity (BLK_SIZE cfg * pls * luns * chs), BLK_SIZE cfg)
        });
     nvmev_assert (ONESHOT_PAGE_SIZE cfg mod page = 0 \<and> FLASH_PAGE_SIZE cfg mod page = 0);
     nvmev_assert (FLASH_PAGE_SIZE cfg \<noteq> 0 \<and> ONESHOT_PAGE_SIZE cfg mod FLASH_PAGE_SIZE cfg = 0);
     nvmev_assert (ONESHOT_PAGE_SIZE cfg \<noteq> 0);
     let one_pgs = ONESHOT_PAGE_SIZE cfg div page;
     let ones_per_blk = DIV_ROUND_UP blk_size (ONESHOT_PAGE_SIZE cfg);
     let blk_pgs = one_pgs * ones_per_blk;
     let pl_pgs = blk_pgs * blks;
     let lun_blks = blks * pls;
     let luns_all = luns * chs;
     Some \<lparr>
       secsz = 512, secs_per_pg = 8, pgsz = page,
       pgs_per_flashpg = FLASH_PAGE_SIZE cfg div page,
       flashpgs_per_blk = (ONESHOT_PAGE_SIZE cfg div FLASH_PAGE_SIZE cfg) * ones_per_blk,
       pgs_per_oneshotpg = one_pgs, oneshotpgs_per_blk = ones_per_blk,
       pgs_per_blk = blk_pgs, blks_per_pl = blks, pls_per_lun = pls, luns_per_ch = luns,
       nchs = chs, cell_mode = CELL_MODE cfg,
       write_unit_size = WRITE_UNIT_SIZE cfg,
       write_early_completion = WRITE_EARLY_COMPLETION cfg,
       pg_4kb_rd_lat = [NAND_4KB_READ_LATENCY_LSB cfg, NAND_4KB_READ_LATENCY_MSB cfg,
                        NAND_4KB_READ_LATENCY_CSB cfg],
       pg_rd_lat = [NAND_READ_LATENCY_LSB cfg, NAND_READ_LATENCY_MSB cfg,
                    NAND_READ_LATENCY_CSB cfg],
       pg_wr_lat = NAND_PROG_LATENCY cfg, blk_er_lat = NAND_ERASE_LATENCY cfg,
       max_ch_xfer_size = MAX_CH_XFER_SIZE cfg,
       fw_4kb_rd_lat = FW_4KB_READ_LATENCY cfg, fw_rd_lat = FW_READ_LATENCY cfg,
       fw_wbuf_lat0 = FW_WBUF_LATENCY0 cfg, fw_wbuf_lat1 = FW_WBUF_LATENCY1 cfg,
       fw_ch_xfer_lat = FW_CH_XFER_LATENCY cfg,
       ch_bandwidth = NAND_CHANNEL_BANDWIDTH cfg, pcie_bandwidth = PCIE_BANDWIDTH cfg,
       secs_per_blk = 8 * blk_pgs, secs_per_pl = 8 * blk_pgs * blks,
       secs_per_lun = 8 * blk_pgs * blks * pls, secs_per_ch = 8 * blk_pgs * blks * pls * luns,
       tt_secs = 8 * blk_pgs * blks * pls * luns * chs,
       pgs_per_pl = pl_pgs, pgs_per_lun = pl_pgs * pls, pgs_per_ch = pl_pgs * pls * luns,
       tt_pgs = pl_pgs * pls * luns * chs,
       blks_per_lun = lun_blks, blks_per_ch = lun_blks * luns, tt_blks = lun_blks * luns * chs,
       secs_per_line = luns_all * blk_pgs * 8, pgs_per_line = luns_all * blk_pgs,
       blks_per_line = luns_all, tt_lines = lun_blks,
       pls_per_ch = pls * luns, tt_pls = pls * luns * chs, tt_luns = luns_all,
       write_buffer_size = GLOBAL_WB_SIZE cfg, max_con = cfg_max_con cfg\<rparr>
   }"

section \<open>Initialisation\<close>

definition ssd_init_nand_page :: "ssdparams \<Rightarrow> nand_page" where
  "ssd_init_nand_page spp =
    \<lparr>pg_sec = replicate (secs_per_pg spp) PG_FREE, pg_nsecs = secs_per_pg spp, pg_status = PG_FREE\<rparr>"

definition ssd_init_nand_blk :: "ssdparams \<Rightarrow> nand_block" where
  "ssd_init_nand_blk spp =
    \<lparr>b_pg = replicate (pgs_per_blk spp) (ssd_init_nand_page spp), b_npgs = pgs_per_blk spp,
     b_ipc = 0, b_vpc = 0, b_erase_cnt = 0, b_wp = 0\<rparr>"

text \<open>The C code leaves the field \<^verbatim>\<open>gc_endtime\<close> uninitialised; its value is an argument.\<close>

definition ssd_init_nand_lun :: "ssdparams \<Rightarrow> u64 \<Rightarrow> nand_lun" where
  "ssd_init_nand_lun spp junk =
    \<lparr>l_npls = pls_per_lun spp, l_next_avail = 0, l_busy = False, l_gc_endtime = junk, l_first_io = True\<rparr>"

definition ssd_init_ch :: "ssdparams \<Rightarrow> ssd_channel option" where
  "ssd_init_ch spp = do {
     m \<leftarrow> chmodel_init (of_nat (ch_bandwidth spp));
     Some \<lparr>c_nluns = luns_per_ch spp,
       c_perf_model = m\<lparr>cm_xfer_lat := cm_xfer_lat m + of_nat (fw_ch_xfer_lat spp * 128 div KB 4)\<rparr>\<rparr>
   }"

definition ssd_init_pcie :: "ssdparams \<Rightarrow> channel_model option" where
  "ssd_init_pcie spp = chmodel_init (of_nat (pcie_bandwidth spp))"

definition ssd_init :: "ssdparams \<Rightarrow> u64 \<Rightarrow> (nat \<Rightarrow> u64) \<Rightarrow> ssd option" where
  "ssd_init spp junk clock = do {
     ch \<leftarrow> ssd_init_ch spp;
     pcie \<leftarrow> ssd_init_pcie spp;
     Some \<lparr>ssd_sp = spp, ssd_ch = (\<lambda>_. ch), ssd_lun = (\<lambda>_. ssd_init_nand_lun spp junk),
       ssd_blk = (\<lambda>_. ssd_init_nand_blk spp), ssd_pcie = pcie,
       ssd_write_buffer = buffer_init (write_buffer_size spp), ssd_checking = False,
       ssd_ch_die_counter = 0, ssd_ch_die_latency = 0, ssd_clock = clock, ssd_tick = 0\<rparr>
   }"

section \<open>Addressing\<close>

definition lun_in :: "ssdparams \<Rightarrow> ppa \<Rightarrow> bool" where
  "lun_in spp a \<longleftrightarrow> p_ch a < nchs spp \<and> p_lun a < luns_per_ch spp"

definition blk_in :: "ssdparams \<Rightarrow> ppa \<Rightarrow> bool" where
  "blk_in spp a \<longleftrightarrow> lun_in spp a \<and> p_pl a < pls_per_lun spp \<and> p_blk a < blks_per_pl spp"

abbreviation blk_of :: "ppa \<Rightarrow> blk_addr" where
  "blk_of a \<equiv> (p_ch a, p_lun a, p_pl a, p_blk a)"

definition get_ch :: "ssd \<Rightarrow> ppa \<Rightarrow> ssd_channel option" where
  "get_ch s a = (if p_ch a < nchs (ssd_sp s) then Some (ssd_ch s (p_ch a)) else None)"

definition get_lun :: "ssd \<Rightarrow> ppa \<Rightarrow> nand_lun option" where
  "get_lun s a = (if lun_in (ssd_sp s) a then Some (ssd_lun s (p_ch a, p_lun a)) else None)"

definition set_lun :: "ssd \<Rightarrow> ppa \<Rightarrow> nand_lun \<Rightarrow> ssd" where
  "set_lun s a l = s\<lparr>ssd_lun := (ssd_lun s)((p_ch a, p_lun a) := l)\<rparr>"

definition get_blk :: "ssd \<Rightarrow> ppa \<Rightarrow> nand_block option" where
  "get_blk s a = (if blk_in (ssd_sp s) a then Some (ssd_blk s (blk_of a)) else None)"

definition set_blk :: "ssd \<Rightarrow> ppa \<Rightarrow> nand_block \<Rightarrow> ssd" where
  "set_blk s a b = s\<lparr>ssd_blk := (ssd_blk s)(blk_of a := b)\<rparr>"

definition get_pg :: "ssd \<Rightarrow> ppa \<Rightarrow> nand_page option" where
  "get_pg s a = do { b \<leftarrow> get_blk s a; array_read (b_pg b) (p_pg a) }"

definition get_cell :: "ssd \<Rightarrow> ppa \<Rightarrow> nat option" where
  "get_cell s a =
    (if pgs_per_flashpg (ssd_sp s) = 0 then None
     else Some ((p_pg a div pgs_per_flashpg (ssd_sp s)) mod (cell_mode (ssd_sp s) + 1)))"

section \<open>Timing\<close>

definition get_ioclock :: "ssd \<Rightarrow> ssd \<times> u64" where
  "get_ioclock s = (s\<lparr>ssd_tick := ssd_tick s + 1\<rparr>, ssd_clock s (ssd_tick s))"

definition ch_request :: "ssd \<Rightarrow> nat \<Rightarrow> u64 \<Rightarrow> nat \<Rightarrow> (ssd \<times> u64) option" where
  "ch_request s c req len = do {
     let (s1, now) = get_ioclock s;
     (m, t) \<leftarrow> chmodel_request (c_perf_model (ssd_ch s1 c)) now req (of_nat len);
     Some (s1\<lparr>ssd_ch := (ssd_ch s1)(c := (ssd_ch s1 c)\<lparr>c_perf_model := m\<rparr>)\<rparr>, t)
   }"

definition ssd_advance_pcie :: "ssd \<Rightarrow> u64 \<Rightarrow> nat \<Rightarrow> (ssd \<times> u64) option" where
  "ssd_advance_pcie s req len = do {
     let (s1, now) = get_ioclock s;
     (m, t) \<leftarrow> chmodel_request (ssd_pcie s1) now req (of_nat len);
     Some (s1\<lparr>ssd_pcie := m\<rparr>, t)
   }"

definition ssd_advance_pcie_copy :: "ssd \<Rightarrow> u64 \<Rightarrow> nat \<Rightarrow> (ssd \<times> u64) option" where
  "ssd_advance_pcie_copy s req len = do {
     let (s1, now) = get_ioclock s;
     t \<leftarrow> chmodel_request_copy (ssd_pcie s1) req (of_nat len);
     Some (s1, t)
   }"

definition ssd_advance_write_buffer :: "ssd \<Rightarrow> u64 \<Rightarrow> nat \<Rightarrow> nat \<Rightarrow> (ssd \<times> u64) option" where
  "ssd_advance_write_buffer s req len transfer_size_KB = do {
     nvmev_assert (KB transfer_size_KB \<noteq> 0);
     let t = req + of_nat (fw_wbuf_lat0 (ssd_sp s));
     let t' = t + of_nat (fw_wbuf_lat1 (ssd_sp s) * DIV_ROUND_UP len (KB transfer_size_KB));
     ssd_advance_pcie s t' len
   }"

text \<open>The transfer loop of a NAND read.  It returns the two times \<^verbatim>\<open>chnl_etime\<close> and
  \<^verbatim>\<open>completed_time\<close>, which the C code leaves uninitialised when nothing is transferred, and
  it does not end when the transfer unit is 0: both are \<^term>\<open>None\<close>.\<close>

function nand_read_xfer ::
  "nat \<Rightarrow> bool \<Rightarrow> nat \<Rightarrow> nat \<Rightarrow> ssd \<Rightarrow> u64 \<Rightarrow> (u64 \<times> u64) option \<Rightarrow> (ssd \<times> u64 \<times> u64) option" where
  "nand_read_xfer c dma unit remaining s stime res =
    (if remaining = 0 then map_option (\<lambda>(e, t). (s, e, t)) res
     else if unit = 0 then None
     else do {
       let xfer_size = min remaining unit;
       (s1, chnl_etime) \<leftarrow> ch_request s c stime xfer_size;
       (s2, completed) \<leftarrow>
         (if dma then ssd_advance_pcie s1 chnl_etime xfer_size else Some (s1, chnl_etime));
       nand_read_xfer c dma unit (remaining - xfer_size) s2 chnl_etime (Some (chnl_etime, completed))
     })"
  by pat_completeness auto
termination
  by (relation "measure (\<lambda>(c, dma, unit, remaining, s, stime, res). remaining)") auto

declare nand_read_xfer.simps [simp del]

text \<open>The bookkeeping a read does while \<^verbatim>\<open>ssd->checking\<close> is set.\<close>

definition nand_read_checking ::
  "ssd \<Rightarrow> nand_lun \<Rightarrow> nand_cmd \<Rightarrow> u64 \<Rightarrow> u64 \<Rightarrow> ssd \<times> nand_lun \<times> nand_cmd" where
  "nand_read_checking s lun ncmd nand_stime cmd_stime =
    (if ssd_checking s \<and> \<not> l_first_io lun then
       let delay = nand_stime - cmd_stime;
           s' = (if delay > 0 then s\<lparr>ssd_ch_die_counter := ssd_ch_die_counter s + 1,
                                     ssd_ch_die_latency := ssd_ch_die_latency s + delay\<rparr>
                 else s);
           ncmd' = (if nc_arrive_time ncmd < 0 \<or> delay < of_int (nc_arrive_time ncmd)
                    then ncmd\<lparr>nc_arrive_time := sint delay\<rparr> else ncmd)
       in (s', lun\<lparr>l_first_io := True\<rparr>, ncmd')
     else (s, lun, ncmd))"

definition ssd_advance_nand :: "ssd \<Rightarrow> nand_cmd \<Rightarrow> (ssd \<times> nand_cmd \<times> u64) option" where
  "ssd_advance_nand s0 ncmd = do {
     let (s, cmd_stime) = (if nc_stime ncmd = 0 then get_ioclock s0 else (s0, nc_stime ncmd));
     let a = nc_ppa ncmd;
     if a = UNMAPPED_PPA then Some (s, ncmd, cmd_stime)
     else do {
       let spp = ssd_sp s;
       lun \<leftarrow> get_lun s a;
       cell \<leftarrow> get_cell s a;
       let nand_stime = max (l_next_avail lun) cmd_stime;
       (case nc_cmd ncmd of
          NAND_READ \<Rightarrow> do {
            let (s1, lun1, ncmd1) = nand_read_checking s lun ncmd nand_stime cmd_stime;
            lat \<leftarrow> (if nc_xfer_size ncmd = 4096 then array_read (pg_4kb_rd_lat spp) cell
                    else array_read (pg_rd_lat spp) cell);
            let chnl_stime = nand_stime + of_nat lat;
            (s2, chnl_etime, completed) \<leftarrow> nand_read_xfer (p_ch a) (nc_interleave_pci_dma ncmd)
              (max_ch_xfer_size spp) (nc_xfer_size ncmd) s1 chnl_stime None;
            Some (set_lun s2 a (lun1\<lparr>l_next_avail := chnl_etime\<rparr>), ncmd1, completed)
          }
        | NAND_WRITE \<Rightarrow> do {
            (s1, chnl_etime) \<leftarrow> ch_request s (p_ch a) nand_stime (nc_xfer_size ncmd);
            let nand_etime = chnl_etime + of_nat (pg_wr_lat spp);
            Some (set_lun s1 a (lun\<lparr>l_next_avail := nand_etime\<rparr>), ncmd, nand_etime)
          }
        | NAND_ERASE \<Rightarrow>
            (let nand_etime = nand_stime + of_nat (blk_er_lat spp)
             in Some (set_lun s a (lun\<lparr>l_next_avail := nand_etime\<rparr>), ncmd, nand_etime))
        | NAND_NOP \<Rightarrow>
            Some (set_lun s a (lun\<lparr>l_next_avail := nand_stime\<rparr>), ncmd, nand_stime))
     }
   }"

definition ssd_next_idle_time :: "ssd \<Rightarrow> ssd \<times> u64" where
  "ssd_next_idle_time s0 =
    (let (s, now) = get_ioclock s0
     in (s, fold (\<lambda>i latest. fold (\<lambda>j latest. max latest (l_next_avail (ssd_lun s (i, j))))
              [0..<luns_per_ch (ssd_sp s)] latest) [0..<nchs (ssd_sp s)] now))"

definition max_cstime_vs_ioclock :: "u64 \<Rightarrow> ssd \<Rightarrow> ssd \<times> u64" where
  "max_cstime_vs_ioclock cmd_stime s =
    (if cmd_stime = 0 then get_ioclock s else (s, cmd_stime))"

section \<open>Invariant of the timing model\<close>

definition timing_params_ok :: "ssdparams \<Rightarrow> bool" where
  "timing_params_ok spp \<longleftrightarrow> pgs_per_flashpg spp \<noteq> 0 \<and> cell_mode spp < 3 \<and>
     length (pg_4kb_rd_lat spp) = 3 \<and> length (pg_rd_lat spp) = 3 \<and> max_ch_xfer_size spp \<noteq> 0"

definition ssd_ok :: "ssd \<Rightarrow> bool" where
  "ssd_ok s \<longleftrightarrow> timing_params_ok (ssd_sp s) \<and> chmodel_ok (ssd_pcie s) \<and>
     (\<forall>c<nchs (ssd_sp s). chmodel_ok (c_perf_model (ssd_ch s c)))"

text \<open>Advancing time leaves the parameters, the blocks and the write buffer alone.\<close>

definition same_nand :: "ssd \<Rightarrow> ssd \<Rightarrow> bool" where
  "same_nand s s' \<longleftrightarrow> ssd_sp s' = ssd_sp s \<and> ssd_blk s' = ssd_blk s \<and>
     ssd_write_buffer s' = ssd_write_buffer s \<and> ssd_checking s' = ssd_checking s"

lemma same_nand_refl [simp]: "same_nand s s"
  by (simp add: same_nand_def)

lemma same_nand_trans: "same_nand s s' \<Longrightarrow> same_nand s' s'' \<Longrightarrow> same_nand s s''"
  by (simp add: same_nand_def)

text \<open>What the timing model needs whatever the cell mode; a read in addition needs a cell number within the
  tables of latencies.\<close>

definition ssd_live :: "ssd \<Rightarrow> bool" where
  "ssd_live s \<longleftrightarrow> pgs_per_flashpg (ssd_sp s) \<noteq> 0 \<and> length (pg_4kb_rd_lat (ssd_sp s)) = 3 \<and>
     length (pg_rd_lat (ssd_sp s)) = 3 \<and> max_ch_xfer_size (ssd_sp s) \<noteq> 0 \<and> chmodel_ok (ssd_pcie s) \<and>
     (\<forall>c<nchs (ssd_sp s). chmodel_ok (c_perf_model (ssd_ch s c)))"

definition cell_ok :: "ssdparams \<Rightarrow> ppa \<Rightarrow> bool" where
  "cell_ok spp a \<longleftrightarrow> (p_pg a div pgs_per_flashpg spp) mod (cell_mode spp + 1) < 3"

lemma ssd_ok_live: "ssd_ok s \<longleftrightarrow> ssd_live s \<and> cell_mode (ssd_sp s) < 3"
  by (auto simp: ssd_ok_def ssd_live_def timing_params_ok_def)

lemma cell_ok_small: "cell_mode spp < 3 \<Longrightarrow> cell_ok spp a"
  unfolding cell_ok_def by (rule order.strict_trans2[OF mod_less_divisor]) auto

lemma get_ioclock_live: "get_ioclock s = (s', t) \<Longrightarrow> ssd_live s \<Longrightarrow> ssd_live s' \<and> same_nand s s'"
  by (auto simp: get_ioclock_def ssd_live_def same_nand_def)

lemma get_ioclock_luns: "get_ioclock s = (s', t) \<Longrightarrow> ssd_lun s' = ssd_lun s \<and> ssd_ch s' = ssd_ch s"
  by (auto simp: get_ioclock_def)

lemma ch_request_live:
  assumes "ssd_live s" "c < nchs (ssd_sp s)"
  shows "\<exists>s' t. ch_request s c req len = Some (s', t) \<and> ssd_live s' \<and> same_nand s s'"
proof -
  let ?s = "fst (get_ioclock s)" and ?now = "snd (get_ioclock s)"
  have "chmodel_ok (c_perf_model (ssd_ch ?s c))"
    using assms by (simp add: get_ioclock_def ssd_live_def)
  then obtain m t where "chmodel_request (c_perf_model (ssd_ch ?s c)) ?now req (of_nat len) = Some (m, t)"
    "chmodel_ok m"
    using chmodel_request_ok by blast
  then show ?thesis
    using assms by (auto simp: ch_request_def get_ioclock_def ssd_live_def same_nand_def)
qed

lemma ssd_advance_pcie_live:
  assumes "ssd_live s"
  shows "\<exists>s' t. ssd_advance_pcie s req len = Some (s', t) \<and> ssd_live s' \<and> same_nand s s'"
proof -
  let ?s = "fst (get_ioclock s)" and ?now = "snd (get_ioclock s)"
  have "chmodel_ok (ssd_pcie ?s)" using assms by (simp add: get_ioclock_def ssd_live_def)
  then obtain m t where "chmodel_request (ssd_pcie ?s) ?now req (of_nat len) = Some (m, t)" "chmodel_ok m"
    using chmodel_request_ok by blast
  then show ?thesis
    using assms by (auto simp: ssd_advance_pcie_def get_ioclock_def ssd_live_def same_nand_def)
qed

lemma ssd_advance_write_buffer_live:
  assumes "ssd_live s" "k \<noteq> 0"
  shows "\<exists>s' t. ssd_advance_write_buffer s req len k = Some (s', t) \<and> ssd_live s' \<and> same_nand s s'"
  using ssd_advance_pcie_live[OF assms(1)] assms(2)
  by (simp add: ssd_advance_write_buffer_def Let_def)

lemma nand_read_xfer_live:
  assumes "ssd_live s" "c < nchs (ssd_sp s)" "unit \<noteq> 0" "remaining \<noteq> 0 \<or> res \<noteq> None"
  shows "\<exists>s' e t. nand_read_xfer c dma unit remaining s stime res = Some (s', e, t) \<and>
    ssd_live s' \<and> same_nand s s'"
  using assms
proof (induction remaining arbitrary: s stime res rule: less_induct)
  case (less remaining)
  show ?case
  proof (cases "remaining = 0")
    case True
    then show ?thesis using less.prems by (subst nand_read_xfer.simps) auto
  next
    case False
    define x where "x = min remaining unit"
    have x: "0 < x" "x \<le> remaining" using False less.prems by (auto simp: x_def)
    obtain s1 e1 where s1: "ch_request s c stime x = Some (s1, e1)" "ssd_live s1" "same_nand s s1"
      using ch_request_live[OF less.prems(1,2)] by blast
    obtain s2 t2 where s2: "(if dma then ssd_advance_pcie s1 e1 x else Some (s1, e1)) = Some (s2, t2)"
      "ssd_live s2" "same_nand s1 s2"
      using ssd_advance_pcie_live[OF s1(2), of e1 x] s1(2) same_nand_refl by (cases dma) auto
    have sp: "ssd_sp s2 = ssd_sp s" using s1 s2 by (simp add: same_nand_def)
    obtain s3 e3 t3 where s3: "nand_read_xfer c dma unit (remaining - x) s2 e1 (Some (e1, t2)) =
        Some (s3, e3, t3)" "ssd_live s3" "same_nand s2 s3"
      using less.IH[of "remaining - x" s2 "Some (e1, t2)" e1] less.prems x s2(2) sp by auto
    have "nand_read_xfer c dma unit remaining s stime res = Some (s3, e3, t3)"
      using False less.prems(3) s1(1) s2(1) s3(1)
      by (subst nand_read_xfer.simps) (simp add: x_def[symmetric] Let_def)
    moreover have "same_nand s s3" using s1 s2 s3 same_nand_trans by blast
    ultimately show ?thesis using s3 by blast
  qed
qed

lemma set_lun_live: "ssd_live s \<Longrightarrow> ssd_live (set_lun s a l) \<and> same_nand s (set_lun s a l)"
  by (simp add: set_lun_def ssd_live_def same_nand_def)

lemma nand_read_checking_live:
  assumes "nand_read_checking s lun ncmd t t' = (s', lun', ncmd')" "ssd_live s"
  shows "ssd_live s' \<and> same_nand s s' \<and> nc_ppa ncmd' = nc_ppa ncmd"
  using assms by (auto simp: nand_read_checking_def ssd_live_def same_nand_def Let_def split: if_splits)

lemma ssd_advance_nand_live:
  assumes ok: "ssd_live s" and a: "lun_in (ssd_sp s) (nc_ppa ncmd)"
    and rd: "nc_cmd ncmd = NAND_READ \<Longrightarrow> nc_xfer_size ncmd \<noteq> 0 \<and> cell_ok (ssd_sp s) (nc_ppa ncmd)"
  shows "\<exists>s' ncmd' t. ssd_advance_nand s ncmd = Some (s', ncmd', t) \<and> ssd_live s' \<and> same_nand s s'"
proof -
  obtain s1 t1 where s1: "(if nc_stime ncmd = 0 then get_ioclock s else (s, nc_stime ncmd)) = (s1, t1)"
    "ssd_live s1" "same_nand s s1"
    using ok get_ioclock_live by (metis prod.exhaust same_nand_refl)
  have sp: "ssd_sp s1 = ssd_sp s" using s1(3) by (simp add: same_nand_def)
  obtain cell where cell: "get_cell s1 (nc_ppa ncmd) = Some cell"
    using s1(2) by (auto simp: get_cell_def ssd_live_def)
  define lun where "lun = ssd_lun s1 (p_ch (nc_ppa ncmd), p_lun (nc_ppa ncmd))"
  have lun: "get_lun s1 (nc_ppa ncmd) = Some lun" using a sp by (simp add: get_lun_def lun_def)
  have c: "p_ch (nc_ppa ncmd) < nchs (ssd_sp s1)" using a sp by (simp add: lun_in_def)
  have unit: "max_ch_xfer_size (ssd_sp s1) \<noteq> 0" using s1(2) by (simp add: ssd_live_def)
  note setl = set_lun_live
  show ?thesis
  proof (cases "nc_ppa ncmd = UNMAPPED_PPA")
    case True
    then show ?thesis using s1 by (simp add: ssd_advance_nand_def)
  next
    case False
    show ?thesis
    proof (cases "nc_cmd ncmd")
      case NAND_READ
      have "cell < 3" using rd[OF NAND_READ] cell sp s1(2) by (auto simp: get_cell_def cell_ok_def ssd_live_def)
      then have lens: "cell < length (pg_4kb_rd_lat (ssd_sp s1))" "cell < length (pg_rd_lat (ssd_sp s1))"
        using s1(2) by (auto simp: ssd_live_def)
      obtain s2 lun2 ncmd2 where s2:
        "nand_read_checking s1 lun ncmd (max (l_next_avail lun) t1) t1 = (s2, lun2, ncmd2)"
        by (metis prod_cases3)
      have ok2: "ssd_live s2" "same_nand s1 s2" using nand_read_checking_live[OF s2 s1(2)] by auto
      have sp2: "p_ch (nc_ppa ncmd) < nchs (ssd_sp s2)" using c ok2(2) by (simp add: same_nand_def)
      obtain lat where lat: "(if nc_xfer_size ncmd = 4096 then array_read (pg_4kb_rd_lat (ssd_sp s1)) cell
          else array_read (pg_rd_lat (ssd_sp s1)) cell) = Some lat"
        using lens by (cases "nc_xfer_size ncmd = 4096") auto
      obtain s3 e t where s3: "nand_read_xfer (p_ch (nc_ppa ncmd)) (nc_interleave_pci_dma ncmd)
          (max_ch_xfer_size (ssd_sp s1)) (nc_xfer_size ncmd) s2
          (max (l_next_avail lun) t1 + of_nat lat) None = Some (s3, e, t)" "ssd_live s3" "same_nand s2 s3"
        using nand_read_xfer_live[OF ok2(1) sp2 unit, of "nc_xfer_size ncmd" None] rd[OF NAND_READ]
        by fastforce
      have "ssd_advance_nand s ncmd =
          Some (set_lun s3 (nc_ppa ncmd) (lun2\<lparr>l_next_avail := e\<rparr>), ncmd2, t)"
        using s1(1) False lun cell NAND_READ s2 lat s3(1)
        by (simp add: ssd_advance_nand_def Let_def)
      then show ?thesis using setl[OF s3(2)] s3(3) ok2(2) s1(3) same_nand_trans by blast
    next
      case NAND_WRITE
      obtain s2 t where s2: "ch_request s1 (p_ch (nc_ppa ncmd)) (max (l_next_avail lun) t1)
          (nc_xfer_size ncmd) = Some (s2, t)" "ssd_live s2" "same_nand s1 s2"
        using ch_request_live[OF s1(2) c] by blast
      then show ?thesis
        using s1(1) False lun cell NAND_WRITE setl[OF s2(2)] same_nand_trans[OF s1(3)]
          same_nand_trans[OF s2(3)]
        by (simp add: ssd_advance_nand_def Let_def)
    qed (use s1 False lun cell setl[OF s1(2)] same_nand_trans[OF s1(3)]
         in \<open>simp_all add: ssd_advance_nand_def Let_def\<close>)
  qed
qed

lemma ssd_init_live:
  assumes t: "pgs_per_flashpg spp \<noteq> 0" "length (pg_4kb_rd_lat spp) = 3" "length (pg_rd_lat spp) = 3" "max_ch_xfer_size spp \<noteq> 0"
    and b: "32 \<le> ch_bandwidth spp" "ch_bandwidth spp \<le> 7812" "32 \<le> pcie_bandwidth spp" "pcie_bandwidth spp \<le> 7812"
  shows "\<exists>s. ssd_init spp junk clock = Some s \<and> ssd_live s \<and> ssd_sp s = spp \<and>
    ssd_blk s = (\<lambda>_. ssd_init_nand_blk spp) \<and> ssd_write_buffer s = buffer_init (write_buffer_size spp)"
proof -
  have u: "unat (of_nat k :: u64) = k" if "k \<le> 7812" for k :: nat
    using that by (simp add: unat_of_nat)
  obtain m p where mp: "chmodel_init (of_nat (ch_bandwidth spp)) = Some m" "chmodel_ok m"
    "chmodel_init (of_nat (pcie_bandwidth spp)) = Some p" "chmodel_ok p"
    using chmodel_init_ok[of "of_nat (ch_bandwidth spp)"] chmodel_init_ok[of "of_nat (pcie_bandwidth spp)"] u b
    by auto
  have "chmodel_ok (m\<lparr>cm_xfer_lat := x\<rparr>)" for x using mp(2) by (simp add: chmodel_ok_def)
  then show ?thesis
    using mp t by (simp add: ssd_init_def ssd_init_ch_def ssd_init_pcie_def ssd_live_def)
qed

text \<open>The same for drives with at most two bits per cell.\<close>

lemma ssd_ok_keep: "ssd_ok s \<Longrightarrow> ssd_live s' \<Longrightarrow> same_nand s s' \<Longrightarrow> ssd_ok s'"
  by (simp add: ssd_ok_live same_nand_def)

lemma get_ioclock_ok: "get_ioclock s = (s', t) \<Longrightarrow> ssd_ok s \<Longrightarrow> ssd_ok s' \<and> same_nand s s'"
  using get_ioclock_live ssd_ok_keep ssd_ok_live by metis

lemma ch_request_ok:
  assumes "ssd_ok s" "c < nchs (ssd_sp s)"
  shows "\<exists>s' t. ch_request s c req len = Some (s', t) \<and> ssd_ok s' \<and> same_nand s s'"
  using ch_request_live[of s c] assms ssd_ok_keep ssd_ok_live by metis

lemma ssd_advance_pcie_ok:
  assumes "ssd_ok s"
  shows "\<exists>s' t. ssd_advance_pcie s req len = Some (s', t) \<and> ssd_ok s' \<and> same_nand s s'"
  using ssd_advance_pcie_live[of s] assms ssd_ok_keep ssd_ok_live by metis

lemma ssd_advance_write_buffer_ok:
  assumes "ssd_ok s" "k \<noteq> 0"
  shows "\<exists>s' t. ssd_advance_write_buffer s req len k = Some (s', t) \<and> ssd_ok s' \<and> same_nand s s'"
  using ssd_advance_write_buffer_live[of s k] assms ssd_ok_keep ssd_ok_live by metis

lemma set_lun_ok: "ssd_ok s \<Longrightarrow> ssd_ok (set_lun s a l) \<and> same_nand s (set_lun s a l)"
  using set_lun_live ssd_ok_keep ssd_ok_live by metis

lemma ssd_advance_nand_ok:
  assumes "ssd_ok s" "lun_in (ssd_sp s) (nc_ppa ncmd)" "nc_cmd ncmd = NAND_READ \<Longrightarrow> nc_xfer_size ncmd \<noteq> 0"
  shows "\<exists>s' ncmd' t. ssd_advance_nand s ncmd = Some (s', ncmd', t) \<and> ssd_ok s' \<and> same_nand s s'"
proof -
  have "cell_ok (ssd_sp s) (nc_ppa ncmd)" using assms(1) by (simp add: ssd_ok_live cell_ok_small)
  then show ?thesis using ssd_advance_nand_live[of s ncmd] assms ssd_ok_keep ssd_ok_live by metis
qed

end
