(* ===== verification/Pqueue.thy ===== *)
theory Pqueue
  imports Prelude
begin

text \<open>
  The binary heap of src/pqueue/pqueue.c.  The heap stores pointers; the priority and the
  heap position of an element live in the element itself and are reached through the five
  callbacks given to \<^verbatim>\<open>pqueue_init\<close>.  The model keeps that shape: an element is a pointer
  of type \<^typ>\<open>'e\<close>, the memory the pointers refer to is a store of type \<^typ>\<open>'s\<close>, and every
  heap operation takes and returns that store.  The locale below states what the heap
  relies on in its callbacks; the conventional FTL interprets it on its lines.
\<close>

section \<open>Data\<close>

record ('s, 'e, 'p) pqueue_ops =
  cmppri :: "'p \<Rightarrow> 'p \<Rightarrow> bool"
  getpri :: "'s \<Rightarrow> 'e \<Rightarrow> 'p"
  setpri :: "'s \<Rightarrow> 'e \<Rightarrow> 'p \<Rightarrow> 's"
  getpos :: "'s \<Rightarrow> 'e \<Rightarrow> nat"
  setpos :: "'s \<Rightarrow> 'e \<Rightarrow> nat \<Rightarrow> 's"

record ('s, 'e, 'p) pqueue_t =
  pq_size :: nat
  pq_avail :: nat
  pq_step :: nat
  pq_ops :: "('s, 'e, 'p) pqueue_ops"
  pq_d :: "'e list"

abbreviation left :: "nat \<Rightarrow> nat" where
  "left i \<equiv> 2 * i"

abbreviation right :: "nat \<Rightarrow> nat" where
  "right i \<equiv> 2 * i + 1"

abbreviation parent :: "nat \<Rightarrow> nat" where
  "parent i \<equiv> i div 2"

section \<open>Operations\<close>

text \<open>The array comes from kmalloc, which may fail and does not initialise what it returns:
  its result is an argument, and only its length is fixed.\<close>

definition pqueue_init ::
  "nat \<Rightarrow> ('s, 'e, 'p) pqueue_ops \<Rightarrow> 'e list option \<Rightarrow> ('s, 'e, 'p) pqueue_t option" where
  "pqueue_init n ops kmalloc = (case kmalloc of
      None \<Rightarrow> None
    | Some mem \<Rightarrow>
        Some \<lparr>pq_size = 1, pq_avail = n + 1, pq_step = n + 1, pq_ops = ops, pq_d = mem\<rparr>)"

definition pqueue_size :: "('s, 'e, 'p) pqueue_t \<Rightarrow> nat" where
  "pqueue_size q = pq_size q - 1"

fun bubble_up_loop ::
  "('s, 'e, 'p) pqueue_ops \<Rightarrow> 'p \<Rightarrow> 's \<Rightarrow> 'e list \<Rightarrow> nat \<Rightarrow> 's \<times> 'e list \<times> nat" where
  "bubble_up_loop ops moving_pri s d i =
    (if i > 1 \<and> cmppri ops (getpri ops s (d ! parent i)) moving_pri then
       let d' = d[i := d ! parent i] in
       bubble_up_loop ops moving_pri (setpos ops s (d' ! i) i) d' (parent i)
     else (s, d, i))"

declare bubble_up_loop.simps [simp del]

definition bubble_up ::
  "'s \<Rightarrow> ('s, 'e, 'p) pqueue_t \<Rightarrow> nat \<Rightarrow> ('s \<times> ('s, 'e, 'p) pqueue_t) option" where
  "bubble_up s q i = do {
     moving_node \<leftarrow> array_read (pq_d q) i;
     let (s', d', i') =
       bubble_up_loop (pq_ops q) (getpri (pq_ops q) s moving_node) s (pq_d q) i;
     Some (setpos (pq_ops q) s' moving_node i', q\<lparr>pq_d := d'[i' := moving_node]\<rparr>)
   }"

definition maxchild ::
  "('s, 'e, 'p) pqueue_ops \<Rightarrow> nat \<Rightarrow> 's \<Rightarrow> 'e list \<Rightarrow> nat \<Rightarrow> nat" where
  "maxchild ops sz s d i =
    (if left i \<ge> sz then 0
     else if left i + 1 < sz \<and>
             cmppri ops (getpri ops s (d ! left i)) (getpri ops s (d ! (left i + 1)))
     then left i + 1
     else left i)"

lemma maxchild_bounds: "0 < maxchild ops sz s d i \<Longrightarrow>
    i < maxchild ops sz s d i \<and> maxchild ops sz s d i < sz \<and>
    (i > 0 \<longrightarrow> parent (maxchild ops sz s d i) = i)"
  by (auto simp: maxchild_def split: if_splits)

function percolate_down_loop ::
  "('s, 'e, 'p) pqueue_ops \<Rightarrow> nat \<Rightarrow> 'p \<Rightarrow> 's \<Rightarrow> 'e list \<Rightarrow> nat \<Rightarrow> 's \<times> 'e list \<times> nat" where
  "percolate_down_loop ops sz moving_pri s d i =
    (let child_node = maxchild ops sz s d i in
     if child_node \<noteq> 0 \<and> cmppri ops moving_pri (getpri ops s (d ! child_node)) then
       let d' = d[i := d ! child_node] in
       percolate_down_loop ops sz moving_pri (setpos ops s (d' ! i) i) d' child_node
     else (s, d, i))"
  by pat_completeness auto
termination
proof (relation "measure (\<lambda>(ops, sz, mp, s, d, i). sz - i)")
  fix ops :: "('a, 'b, 'c) pqueue_ops" and sz moving_pri s d i x d'
  assume "x = maxchild ops sz s d i"
    and "x \<noteq> 0 \<and> cmppri ops moving_pri (getpri ops s (d ! x))"
  then have "i < x" "x < sz" using maxchild_bounds[of ops sz s d i] by auto
  then show "((ops, sz, moving_pri, setpos ops s (d' ! i) i, d', x),
      (ops, sz, moving_pri, s, d, i)) \<in> measure (\<lambda>(ops, sz, mp, s, d, i). sz - i)"
    by simp
qed simp

declare percolate_down_loop.simps [simp del]

definition percolate_down ::
  "'s \<Rightarrow> ('s, 'e, 'p) pqueue_t \<Rightarrow> nat \<Rightarrow> ('s \<times> ('s, 'e, 'p) pqueue_t) option" where
  "percolate_down s q i = do {
     moving_node \<leftarrow> array_read (pq_d q) i;
     nvmev_assert (pq_size q \<le> length (pq_d q));
     let (s', d', i') =
       percolate_down_loop (pq_ops q) (pq_size q) (getpri (pq_ops q) s moving_node) s
         (pq_d q) i;
     Some (setpos (pq_ops q) s' moving_node i', q\<lparr>pq_d := d'[i' := moving_node]\<rparr>)
   }"

text \<open>When the array is full \<^verbatim>\<open>pqueue_insert\<close> only logs an error and still stores the
  element past the end of the array; \<^term>\<open>array_write\<close> makes that a crash.\<close>

definition pqueue_insert ::
  "'s \<Rightarrow> ('s, 'e, 'p) pqueue_t \<Rightarrow> 'e \<Rightarrow> ('s \<times> ('s, 'e, 'p) pqueue_t) option" where
  "pqueue_insert s q e = do {
     let i = pq_size q;
     d' \<leftarrow> array_write (pq_d q) i e;
     bubble_up s (q\<lparr>pq_size := pq_size q + 1, pq_d := d'\<rparr>) i
   }"

definition pqueue_change_data ::
  "('s, 'e, 'p) pqueue_t \<Rightarrow> nat \<Rightarrow> 'e \<Rightarrow> ('s, 'e, 'p) pqueue_t option" where
  "pqueue_change_data q index e = do {
     d' \<leftarrow> array_write (pq_d q) index e;
     Some (q\<lparr>pq_d := d'\<rparr>)
   }"

definition pqueue_change_priority ::
  "'s \<Rightarrow> ('s, 'e, 'p) pqueue_t \<Rightarrow> 'p \<Rightarrow> 'e \<Rightarrow> ('s \<times> ('s, 'e, 'p) pqueue_t) option" where
  "pqueue_change_priority s q new_pri e =
    (let old_pri = getpri (pq_ops q) s e;
         s' = setpri (pq_ops q) s e new_pri;
         posn = getpos (pq_ops q) s' e
     in if cmppri (pq_ops q) old_pri new_pri then bubble_up s' q posn
        else percolate_down s' q posn)"

text \<open>\<^verbatim>\<open>--q->size\<close> on an empty heap would wrap around; the guard makes it a crash.\<close>

definition pqueue_remove ::
  "'s \<Rightarrow> ('s, 'e, 'p) pqueue_t \<Rightarrow> 'e \<Rightarrow> ('s \<times> ('s, 'e, 'p) pqueue_t) option" where
  "pqueue_remove s q e = do {
     let posn = getpos (pq_ops q) s e;
     nvmev_assert (pq_size q > 0);
     let sz = pq_size q - 1;
     lst \<leftarrow> array_read (pq_d q) sz;
     d' \<leftarrow> array_write (pq_d q) posn lst;
     let q' = q\<lparr>pq_size := sz, pq_d := d'\<rparr>;
     (if cmppri (pq_ops q) (getpri (pq_ops q) s e) (getpri (pq_ops q) s (d' ! posn))
      then bubble_up s q' posn
      else percolate_down s q' posn)
   }"

definition pqueue_pop ::
  "'s \<Rightarrow> ('s, 'e, 'p) pqueue_t \<Rightarrow> ('e option \<times> 's \<times> ('s, 'e, 'p) pqueue_t) option" where
  "pqueue_pop s q =
    (if pq_size q = 1 then Some (None, s, q)
     else do {
       head \<leftarrow> array_read (pq_d q) 1;
       nvmev_assert (pq_size q > 0);
       let sz = pq_size q - 1;
       lst \<leftarrow> array_read (pq_d q) sz;
       (s', q') \<leftarrow> percolate_down s (q\<lparr>pq_size := sz, pq_d := (pq_d q)[1 := lst]\<rparr>) 1;
       Some (Some head, s', q')
     })"

definition pqueue_peek :: "('s, 'e, 'p) pqueue_t \<Rightarrow> 'e option option" where
  "pqueue_peek q =
    (if pq_size q = 1 then Some None
     else do { e \<leftarrow> array_read (pq_d q) 1; Some (Some e) })"

text \<open>The recursion of \<^verbatim>\<open>subtree_is_valid\<close> does not end at position 0, hence an option.\<close>

partial_function (option) subtree_is_valid ::
  "'s \<Rightarrow> ('s, 'e, 'p) pqueue_t \<Rightarrow> nat \<Rightarrow> bool option" where
  "subtree_is_valid s q pos = do {
     l \<leftarrow> (if left pos < pq_size q then
             (if cmppri (pq_ops q) (getpri (pq_ops q) s (pq_d q ! pos))
                   (getpri (pq_ops q) s (pq_d q ! left pos))
              then Some False
              else subtree_is_valid s q (left pos))
           else Some True);
     (if \<not> l then Some False
      else if right pos < pq_size q then
             (if cmppri (pq_ops q) (getpri (pq_ops q) s (pq_d q ! pos))
                   (getpri (pq_ops q) s (pq_d q ! right pos))
              then Some False
              else subtree_is_valid s q (right pos))
      else Some True)
   }"

definition pqueue_is_valid :: "'s \<Rightarrow> ('s, 'e, 'p) pqueue_t \<Rightarrow> bool option" where
  "pqueue_is_valid s q = subtree_is_valid s q 1"

section \<open>Heap order and the elements of a queue\<close>

text \<open>\<^term>\<open>pq_elems q\<close> is the set of queued elements: cells 1 up to the size.\<close>

definition pq_elems :: "('s, 'e, 'p) pqueue_t \<Rightarrow> 'e set" where
  "pq_elems q = (!) (pq_d q) ` {1..<pq_size q}"

definition heap_ordered :: "'s \<Rightarrow> ('s, 'e, 'p) pqueue_t \<Rightarrow> bool" where
  "heap_ordered s q \<longleftrightarrow> (\<forall>j\<in>{2..<pq_size q}.
     \<not> cmppri (pq_ops q) (getpri (pq_ops q) s (pq_d q ! parent j))
                        (getpri (pq_ops q) s (pq_d q ! j)))"

section \<open>The client interface\<close>

text \<open>
  What the heap relies on: the comparison is the negation of a total preorder
  (\<^term>\<open>cmppri a b\<close> means that \<open>b\<close> belongs above \<open>a\<close>), storing a position changes the
  position of that element only, and storing a priority changes the priority of that
  element only.  \<open>vld\<close> says which pointers are valid in a store, \<open>pri_ok\<close> which priorities an
  element can hold, and \<open>view\<close> is the part of the store that positions are not part of.
\<close>

locale pqueue_client =
  fixes ops :: "('s, 'e, 'p) pqueue_ops"
    and vld :: "'s \<Rightarrow> 'e \<Rightarrow> bool"
    and pri_ok :: "'p \<Rightarrow> bool"
    and view :: "'s \<Rightarrow> 'v"
  assumes cmp_trans: "\<not> cmppri ops a b \<Longrightarrow> \<not> cmppri ops b c \<Longrightarrow> \<not> cmppri ops a c"
    and cmp_total: "cmppri ops a b \<Longrightarrow> \<not> cmppri ops b a"
    and getpri_setpos: "getpri ops (setpos ops s e p) x = getpri ops s x"
    and getpos_setpos: "vld s e \<Longrightarrow>
      getpos ops (setpos ops s e p) x = (if x = e then p else getpos ops s x)"
    and vld_setpos: "vld (setpos ops s e p) x = vld s x"
    and view_setpos: "view (setpos ops s e p) = view s"
    and getpri_setpri: "vld s e \<Longrightarrow> pri_ok r \<Longrightarrow>
      getpri ops (setpri ops s e r) x = (if x = e then r else getpri ops s x)"
    and getpos_setpri: "getpos ops (setpri ops s e r) x = getpos ops s x"
    and vld_setpri: "vld (setpri ops s e r) x = vld s x"
begin

lemmas store_laws = getpri_setpos getpos_setpos vld_setpos view_setpos
  getpri_setpri getpos_setpri vld_setpri

definition above :: "'s \<Rightarrow> 'e \<Rightarrow> 'e \<Rightarrow> bool" where
  "above s x y \<longleftrightarrow> \<not> cmppri ops (getpri ops s x) (getpri ops s y)"

lemma above_refl [simp]: "above s x x"
  using cmp_total unfolding above_def by blast

lemma above_trans: "above s x y \<Longrightarrow> above s y z \<Longrightarrow> above s x z"
  using cmp_trans unfolding above_def by blast

lemma above_setpos [simp]: "above (setpos ops s e p) x y = above s x y"
  by (simp add: above_def getpri_setpos)

text \<open>The heap as the loops see it: the array \<open>D\<close> with the moving element put back into the
  hole \<open>i\<close>.  \<open>hole_ok\<close> says that positions are right everywhere but at the hole.\<close>

definition hole_ok :: "'s \<Rightarrow> 'e list \<Rightarrow> nat \<Rightarrow> nat \<Rightarrow> bool" where
  "hole_ok s D n i \<longleftrightarrow> 1 \<le> i \<and> i < n \<and> n \<le> length D \<and> inj_on ((!) D) {1..<n} \<and>
     (\<forall>j\<in>{1..<n}. vld s (D ! j) \<and> (j \<noteq> i \<longrightarrow> getpos ops s (D ! j) = j))"

definition up_ok :: "'s \<Rightarrow> 'e list \<Rightarrow> nat \<Rightarrow> nat \<Rightarrow> bool" where
  "up_ok s D n i \<longleftrightarrow>
     (\<forall>j\<in>{2..<n}. j \<noteq> i \<longrightarrow> above s (D ! parent j) (D ! j)) \<and>
     (\<forall>j\<in>{2..<n}. parent j = i \<longrightarrow> 2 \<le> i \<longrightarrow> above s (D ! parent i) (D ! j))"

definition down_ok :: "'s \<Rightarrow> 'e list \<Rightarrow> nat \<Rightarrow> nat \<Rightarrow> bool" where
  "down_ok s D n i \<longleftrightarrow>
     (\<forall>j\<in>{2..<n}. parent j \<noteq> i \<longrightarrow> above s (D ! parent j) (D ! j)) \<and>
     (\<forall>j\<in>{2..<n}. parent j = i \<longrightarrow> 2 \<le> i \<longrightarrow> above s (D ! parent i) (D ! j))"

definition ordered :: "'s \<Rightarrow> 'e list \<Rightarrow> nat \<Rightarrow> bool" where
  "ordered s D n \<longleftrightarrow> (\<forall>j\<in>{2..<n}. above s (D ! parent j) (D ! j))"

text \<open>One iteration of either loop exchanges the hole with a neighbour \<open>k\<close>.\<close>

lemma hole_swap:
  assumes "hole_ok s D n i" "1 \<le> k" "k < n" "k \<noteq> i"
  shows "hole_ok (setpos ops s (D ! k) i) (swap_cells D i k) n k"
proof -
  have inj: "inj_on ((!) D) {1..<n}" and len: "i < length D" "k < length D"
    and ik: "1 \<le> i" "i < n"
    using assms by (auto simp: hole_ok_def)
  have "inj_on ((!) (swap_cells D i k)) {1..<n}"
    using swap_cells_inj_on[OF len _ _ inj] assms ik by simp
  moreover have "j = k" if "j \<in> {1..<n}" "D ! j = D ! k" for j
    using inj_onD[OF inj that(2)] that assms by simp
  ultimately show ?thesis
    using assms ik len unfolding hole_ok_def
    by (auto simp: nth_swap_cells getpos_setpos vld_setpos)
qed

lemma up_swap:
  assumes "up_ok s D n i" "i < n" "n \<le> length D" "2 \<le> i" "\<not> above s (D ! parent i) (D ! i)"
  shows "up_ok s (swap_cells D i (parent i)) n (parent i)"
proof -
  let ?p = "parent i" and ?D = "swap_cells D i (parent i)"
  have p: "1 \<le> ?p" "?p < i" "?p < n" and len: "i < length D" "?p < length D"
    using assms by auto
  have mp: "above s (D ! i) (D ! ?p)"
    using assms(5) cmp_total unfolding above_def by blast
  have nth: "?D ! k = (if k = ?p then D ! i else if k = i then D ! ?p else D ! k)" for k
    using nth_swap_cells[OF len] by simp
  have e: "above s (D ! parent j) (D ! j)" if "2 \<le> j" "j < n" "j \<noteq> i" for j
    using assms(1) that by (auto simp: up_ok_def)
  have g: "above s (D ! ?p) (D ! j)" if "2 \<le> j" "j < n" "parent j = i" for j
    using assms(1,4) that by (auto simp: up_ok_def)
  have "above s (?D ! parent j) (?D ! j)" if j: "2 \<le> j" "j < n" "j \<noteq> ?p" for j
  proof (cases "j = i")
    case True then show ?thesis using mp p by (simp add: nth)
  next
    case ji: False
    consider "parent j = ?p" | "parent j = i" | "parent j \<noteq> ?p" "parent j \<noteq> i" by blast
    then show ?thesis
    proof cases
      case 1 then show ?thesis
        using above_trans[OF mp] e[of j] j ji by (simp add: nth)
    next
      case 2 then show ?thesis using g[of j] j ji p less_irrefl[of i] by (auto simp: nth)
    next
      case 3 then show ?thesis using e[of j] j ji by (simp add: nth)
    qed
  qed
  moreover have "above s (?D ! parent ?p) (?D ! j)"
    if j: "2 \<le> j" "j < n" "parent j = ?p" "2 \<le> ?p" for j
  proof -
    have pp: "parent ?p < ?p" "parent ?p \<noteq> i" using j(4) p by auto
    have up: "above s (D ! parent ?p) (D ! ?p)" using e[of ?p] j p by simp
    show ?thesis
      using above_trans[OF up] e[of j] up j pp p by (cases "j = i") (auto simp: nth)
  qed
  ultimately show ?thesis by (simp add: up_ok_def)
qed

lemma down_swap:
  assumes "down_ok s D n i" "i < n" "n \<le> length D" "1 \<le> i"
    and c: "parent c = i" "c < n" "i < c" "\<not> above s (D ! i) (D ! c)"
    and best: "\<forall>j\<in>{2..<n}. parent j = i \<longrightarrow> above s (D ! c) (D ! j)"
  shows "down_ok s (swap_cells D i c) n c"
proof -
  let ?D = "swap_cells D i c"
  have len: "i < length D" "c < length D" using assms by auto
  have nth: "?D ! k = (if k = c then D ! i else if k = i then D ! c else D ! k)" for k
    using nth_swap_cells[OF len] by simp
  have e: "above s (D ! parent j) (D ! j)" if "2 \<le> j" "j < n" "parent j \<noteq> i" for j
    using assms(1) that by (auto simp: down_ok_def)
  have g: "above s (D ! parent i) (D ! j)" if "2 \<le> j" "j < n" "parent j = i" "2 \<le> i" for j
    using assms(1) that by (auto simp: down_ok_def)
  have ci: "above s (D ! c) (D ! i)" using c(4) cmp_total unfolding above_def by blast
  have "above s (?D ! parent j) (?D ! j)" if j: "2 \<le> j" "j < n" "parent j \<noteq> c" for j
  proof (cases "parent j = i")
    case True
    then show ?thesis using ci best j c by (cases "j = c") (auto simp: nth)
  next
    case False
    have jc: "j \<noteq> c" using False c by auto
    show ?thesis
    proof (cases "j = i")
      case True
      then have "parent i \<noteq> i" "parent i \<noteq> c" using j c by auto
      then show ?thesis using g[of c] j c True by (simp add: nth)
    next
      case ji: False
      then show ?thesis using e[of j] False j jc by (simp add: nth)
    qed
  qed
  moreover have "above s (?D ! parent c) (?D ! j)"
    if j: "2 \<le> j" "j < n" "parent j = c" for j
  proof -
    have "j \<noteq> c" "j \<noteq> i" "c \<noteq> i" using j c by auto
    then show ?thesis using e[of j] j c by (simp add: nth)
  qed
  ultimately show ?thesis by (simp add: down_ok_def)
qed

text \<open>What a heap operation leaves alone: everything but the order of the cells and the
  positions of the elements in them.\<close>

definition reshuffled :: "nat \<Rightarrow> 's \<Rightarrow> 'e list \<Rightarrow> 's \<Rightarrow> 'e list \<Rightarrow> bool" where
  "reshuffled n s D s' D' \<longleftrightarrow> view s' = view s \<and> getpri ops s' = getpri ops s \<and>
     vld s' = vld s \<and> length D' = length D \<and> (!) D' ` {1..<n} = (!) D ` {1..<n} \<and>
     (\<forall>x. x \<notin> (!) D ` {1..<n} \<longrightarrow> getpos ops s' x = getpos ops s x)"

lemma reshuffled_refl [simp]: "reshuffled n s D s D"
  by (simp add: reshuffled_def)

lemma reshuffled_trans:
  "reshuffled n s D s' D' \<Longrightarrow> reshuffled n s' D' s'' D'' \<Longrightarrow> reshuffled n s D s'' D''"
  by (auto simp: reshuffled_def)

lemma reshuffled_setpos:
  assumes "1 \<le> k" "k < n" "vld s (D ! k)"
  shows "reshuffled n s D (setpos ops s (D ! k) i) D"
proof -
  have "D ! k \<in> (!) D ` {1..<n}" using assms by simp
  then show ?thesis
    using assms(3)
    by (auto simp: reshuffled_def fun_eq_iff getpri_setpos vld_setpos view_setpos getpos_setpos)
qed

lemma reshuffled_swap:
  assumes "hole_ok s D n i" "1 \<le> k" "k < n"
  shows "reshuffled n s D (setpos ops s (D ! k) i) (swap_cells D i k)"
proof -
  have "reshuffled n s D (setpos ops s (D ! k) i) D"
    using assms by (auto simp: hole_ok_def intro!: reshuffled_setpos)
  moreover have "(!) (swap_cells D i k) ` {1..<n} = (!) D ` {1..<n}"
    using assms by (intro swap_cells_image) (auto simp: hole_ok_def)
  ultimately show ?thesis by (simp add: reshuffled_def)
qed

lemma refill_swap:
  assumes "i < length d" "i \<noteq> k" "k < length d"
  shows "d[i := d ! k, k := m] = swap_cells (d[i := m]) i k"
  using assms by (simp add: swap_cells_def)

lemma ordered_cong: "reshuffled n s D s' D' \<Longrightarrow> ordered s' E k = ordered s E k"
  by (simp add: reshuffled_def ordered_def above_def)

lemma bubble_up_loop_correct:
  assumes "hole_ok s (d[i := m]) n i" "up_ok s (d[i := m]) n i" "mp = getpri ops s m"
    and "bubble_up_loop ops mp s d i = (s', d', i')"
  shows "hole_ok s' (d'[i' := m]) n i' \<and> ordered s' (d'[i' := m]) n \<and>
    reshuffled n s (d[i := m]) s' (d'[i' := m])"
  using assms
proof (induction i arbitrary: s d rule: less_induct)
  case (less i)
  let ?p = "parent i" and ?D = "d[i := m]"
  have i: "1 \<le> i" "i < n" "n \<le> length d" using less.prems by (auto simp: hole_ok_def)
  have Di: "?D ! i = m" using i by simp
  show ?case
  proof (cases "i > 1 \<and> cmppri ops (getpri ops s (d ! ?p)) mp")
    case True
    then have p: "1 \<le> ?p" "?p < i" "?p < n" "?p \<noteq> i" and dp: "?D ! ?p = d ! ?p"
      using i by auto
    let ?s = "setpos ops s (d ! ?p) i" and ?d = "d[i := d ! ?p]"
    have sw: "?d[?p := m] = swap_cells ?D i ?p"
      using i p by (intro refill_swap) auto
    have na: "\<not> above s (?D ! ?p) (?D ! i)"
      using True dp Di less.prems(3) by (simp add: above_def)
    have h: "hole_ok ?s (?d[?p := m]) n ?p"
      using hole_swap[OF less.prems(1) p(1) p(3) p(4)] sw dp by simp
    have "up_ok s (?d[?p := m]) n ?p"
      using up_swap[OF less.prems(2)] i True na sw dp by simp
    then have u: "up_ok ?s (?d[?p := m]) n ?p" by (simp add: up_ok_def)
    have run: "bubble_up_loop ops mp ?s ?d ?p = (s', d', i')"
      using less.prems(4) True i bubble_up_loop.simps[of ops mp s d i]
      by (simp add: Let_def)
    have "hole_ok s' (d'[i' := m]) n i' \<and> ordered s' (d'[i' := m]) n \<and>
        reshuffled n ?s (?d[?p := m]) s' (d'[i' := m])"
      using less.IH[OF p(2) h u _ run] less.prems(3) i by (simp add: getpri_setpos)
    moreover have "reshuffled n s ?D ?s (?d[?p := m])"
      using reshuffled_swap[OF less.prems(1) p(1) p(3)] sw dp by simp
    ultimately show ?thesis using reshuffled_trans by blast
  next
    case False
    then have eq: "s' = s" "d' = d" "i' = i"
      using less.prems(4) bubble_up_loop.simps[of ops mp s d i] by auto
    have "above s (?D ! ?p) (?D ! i)" if "2 \<le> i"
    proof -
      have "?p \<noteq> i" using that by simp
      then show ?thesis using False less.prems(3) Di that by (simp add: above_def)
    qed
    then have "ordered s ?D n"
      using less.prems(2) unfolding up_ok_def ordered_def by (metis atLeastLessThan_iff)
    then show ?thesis using eq less.prems(1) by simp
  qed
qed

lemma maxchild_best:
  assumes "1 \<le> i" "c = maxchild ops n s d i"
  shows "if c = 0 then \<forall>j\<in>{2..<n}. parent j \<noteq> i
    else parent c = i \<and> c < n \<and> i < c \<and> (\<forall>j\<in>{2..<n}. parent j = i \<longrightarrow> above s (d ! c) (d ! j))"
proof -
  have j: "parent j = i \<longleftrightarrow> j = left i \<or> j = right i" for j :: nat by auto
  have opp: "above s (d ! Suc (2 * i)) (d ! (2 * i))"
    if "cmppri ops (getpri ops s (d ! (2 * i))) (getpri ops s (d ! Suc (2 * i)))"
    using cmp_total[OF that] by (simp add: above_def)
  show ?thesis
    using assms opp by (auto simp: maxchild_def j) (auto simp: above_def)
qed

lemma percolate_down_loop_correct:
  assumes "hole_ok s (d[i := m]) n i" "down_ok s (d[i := m]) n i" "mp = getpri ops s m"
    and "percolate_down_loop ops n mp s d i = (s', d', i')"
  shows "hole_ok s' (d'[i' := m]) n i' \<and> ordered s' (d'[i' := m]) n \<and>
    reshuffled n s (d[i := m]) s' (d'[i' := m])"
  using assms
proof (induction "n - i" arbitrary: i s d rule: less_induct)
  case (less i)
  define c where "c = maxchild ops n s d i"
  let ?D = "d[i := m]"
  have i: "1 \<le> i" "i < n" "n \<le> length d" using less.prems by (auto simp: hole_ok_def)
  have Di: "?D ! i = m" using i by simp
  note mc = maxchild_best[OF i(1) c_def]
  show ?case
  proof (cases "c \<noteq> 0 \<and> cmppri ops mp (getpri ops s (d ! c))")
    case True
    then have c: "parent c = i" "c < n" "i < c" "1 \<le> c" "c \<noteq> i"
      and best: "\<forall>j\<in>{2..<n}. parent j = i \<longrightarrow> above s (d ! c) (d ! j)"
      using mc by auto
    have Dc: "?D ! c = d ! c" using c by simp
    have "\<forall>j\<in>{2..<n}. parent j = i \<longrightarrow> above s (?D ! c) (?D ! j)"
      using best Dc i by (auto simp: nth_list_update)
    moreover have "\<not> above s (?D ! i) (?D ! c)"
      using True Dc Di less.prems(3) by (simp add: above_def)
    moreover let ?s = "setpos ops s (d ! c) i" and ?d = "d[i := d ! c]"
    have sw: "?d[c := m] = swap_cells ?D i c" using i c by (intro refill_swap) auto
    ultimately have "down_ok s (?d[c := m]) n c"
      using down_swap[OF less.prems(2), of c] i c Dc by simp
    then have u: "down_ok ?s (?d[c := m]) n c" by (simp add: down_ok_def)
    have h: "hole_ok ?s (?d[c := m]) n c"
      using hole_swap[OF less.prems(1) c(4,2,5)] sw Dc by simp
    have run: "percolate_down_loop ops n mp ?s ?d c = (s', d', i')"
      using less.prems(4) True i percolate_down_loop.simps[of ops n mp s d i]
      by (simp add: Let_def c_def)
    have "hole_ok s' (d'[i' := m]) n i' \<and> ordered s' (d'[i' := m]) n \<and>
        reshuffled n ?s (?d[c := m]) s' (d'[i' := m])"
      using less.hyps[OF _ h u _ run] less.prems(3) c by (simp add: getpri_setpos)
    moreover have "reshuffled n s ?D ?s (?d[c := m])"
      using reshuffled_swap[OF less.prems(1) c(4,2)] sw Dc by simp
    ultimately show ?thesis using reshuffled_trans by blast
  next
    case False
    then have eq: "s' = s" "d' = d" "i' = i"
      using less.prems(4) percolate_down_loop.simps[of ops n mp s d i]
      by (auto simp: c_def[symmetric] Let_def)
    have "above s (?D ! i) (?D ! j)" if j: "2 \<le> j" "j < n" "parent j = i" for j
    proof -
      have "c \<noteq> 0" "above s (d ! c) (d ! j)" using mc j by (auto split: if_splits)
      moreover have "above s m (d ! c)"
        using False calculation(1) less.prems(3) by (simp add: above_def)
      moreover have "j \<noteq> i" using j by auto
      ultimately show ?thesis using above_trans Di j(3) by simp
    qed
    then have "ordered s ?D n"
      using less.prems(2) unfolding down_ok_def ordered_def by (metis atLeastLessThan_iff)
    then show ?thesis using eq less.prems(1) by simp
  qed
qed

text \<open>The invariant of a queue over a store: the callbacks are the client's, the array has
  its allocated length, every queued element is valid and records its own position, and
  the heap is ordered.\<close>

definition pq_inv :: "'s \<Rightarrow> ('s, 'e, 'p) pqueue_t \<Rightarrow> bool" where
  "pq_inv s q \<longleftrightarrow> pq_ops q = ops \<and> 1 \<le> pq_size q \<and> pq_size q \<le> pq_avail q \<and>
     length (pq_d q) = pq_avail q \<and>
     (\<forall>j\<in>{1..<pq_size q}. vld s (pq_d q ! j) \<and> getpos ops s (pq_d q ! j) = j) \<and>
     ordered s (pq_d q) (pq_size q)"

lemma pq_inv_inj: "pq_inv s q \<Longrightarrow> inj_on ((!) (pq_d q)) {1..<pq_size q}"
  unfolding pq_inv_def inj_on_def by metis

lemma hole_close:
  assumes "hole_ok s D n i" "ordered s D n" "pq_ops q = ops" "pq_size q = n"
    "pq_avail q = length D" "pq_d q = D"
  shows "pq_inv (setpos ops s (D ! i) i) q"
proof -
  have inj: "inj_on ((!) D) {1..<n}" and i: "i \<in> {1..<n}" using assms(1) by (auto simp: hole_ok_def)
  have pos: "getpos ops (setpos ops s (D ! i) i) (D ! j) = j" if "j \<in> {1..<n}" for j
    using assms(1) that i inj_onD[OF inj, of j i] by (auto simp: hole_ok_def getpos_setpos)
  then show ?thesis
    using assms unfolding pq_inv_def hole_ok_def
    by (auto simp: vld_setpos ordered_def)
qed

text \<open>Both loops, wrapped up as the operations use them.\<close>

definition settles ::
  "'s \<Rightarrow> ('s, 'e, 'p) pqueue_t \<Rightarrow> ('s \<times> ('s, 'e, 'p) pqueue_t) option \<Rightarrow> bool" where
  "settles s q r \<longleftrightarrow> (\<exists>s' q'. r = Some (s', q') \<and> pq_inv s' q' \<and>
     reshuffled (pq_size q) s (pq_d q) s' (pq_d q') \<and> pq_size q' = pq_size q \<and>
     pq_avail q' = pq_avail q)"

lemma loop_settles:
  assumes post: "hole_ok s' (d'[i' := m]) (pq_size q) i' \<and> ordered s' (d'[i' := m]) (pq_size q) \<and>
      reshuffled (pq_size q) s (pq_d q) s' (d'[i' := m])"
    and q: "pq_ops q = ops" "pq_avail q = length (pq_d q)"
  shows "settles s q (Some (setpos ops s' m i', q\<lparr>pq_d := d'[i' := m]\<rparr>))"
proof -
  have i': "i' < length d'" "1 \<le> i'" "i' < pq_size q"
    using post by (auto simp: hole_ok_def)
  have v: "vld s' (d'[i' := m] ! i')"
    using post i' unfolding hole_ok_def by (metis atLeastLessThan_iff)
  have len: "length d' = length (pq_d q)" using post by (auto simp: reshuffled_def)
  have "pq_inv (setpos ops s' m i') (q\<lparr>pq_d := d'[i' := m]\<rparr>)"
    using hole_close[of s' "d'[i' := m]" "pq_size q" i'] post i' q len by simp
  moreover have "reshuffled (pq_size q) s' (d'[i' := m]) (setpos ops s' m i') (d'[i' := m])"
    using reshuffled_setpos[OF i'(2,3) v, of i'] i' by simp
  then have "reshuffled (pq_size q) s (pq_d q) (setpos ops s' m i') (d'[i' := m])"
    using post reshuffled_trans by blast
  ultimately show ?thesis by (simp add: settles_def)
qed

lemma bubble_up_settles:
  assumes h: "hole_ok s (pq_d q) (pq_size q) i" and u: "up_ok s (pq_d q) (pq_size q) i"
    and q: "pq_ops q = ops" "pq_avail q = length (pq_d q)"
  shows "settles s q (bubble_up s q i)"
proof -
  define m where "m = pq_d q ! i"
  have i: "i < length (pq_d q)" using h by (auto simp: hole_ok_def)
  have same: "(pq_d q)[i := m] = pq_d q" by (simp add: m_def)
  obtain s' d' i' where run: "bubble_up_loop ops (getpri ops s m) s (pq_d q) i = (s', d', i')"
    by (metis prod_cases3)
  note post = bubble_up_loop_correct[OF _ _ refl run, unfolded same, OF h u]
  show ?thesis
    using loop_settles[OF post q] run i q by (simp add: bubble_up_def m_def[symmetric])
qed

lemma percolate_down_settles:
  assumes h: "hole_ok s (pq_d q) (pq_size q) i" and u: "down_ok s (pq_d q) (pq_size q) i"
    and q: "pq_ops q = ops" "pq_avail q = length (pq_d q)"
  shows "settles s q (percolate_down s q i)"
proof -
  define m where "m = pq_d q ! i"
  have i: "i < length (pq_d q)" "pq_size q \<le> length (pq_d q)"
    using h by (auto simp: hole_ok_def)
  have same: "(pq_d q)[i := m] = pq_d q" by (simp add: m_def)
  obtain s' d' i' where
    run: "percolate_down_loop ops (pq_size q) (getpri ops s m) s (pq_d q) i = (s', d', i')"
    by (metis prod_cases3)
  note post = percolate_down_loop_correct[OF _ _ refl run, unfolded same, OF h u]
  show ?thesis
    using loop_settles[OF post q] run i q by (simp add: percolate_down_def m_def[symmetric])
qed

text \<open>The operations.  A new element enters at the end and moves up.\<close>

lemma insert_correct:
  assumes inv: "pq_inv s q" and room: "pq_size q < pq_avail q"
    and e: "vld s e" "e \<notin> pq_elems q"
  shows "\<exists>s' q'. pqueue_insert s q e = Some (s', q') \<and> pq_inv s' q' \<and>
    pq_elems q' = insert e (pq_elems q) \<and> pq_size q' = pq_size q + 1 \<and>
    pq_avail q' = pq_avail q \<and> view s' = view s \<and> getpri ops s' = getpri ops s \<and>
    vld s' = vld s \<and> (\<forall>x. x \<notin> pq_elems q' \<longrightarrow> getpos ops s' x = getpos ops s x)"
proof -
  let ?n = "pq_size q" and ?D = "(pq_d q)[pq_size q := e]"
  let ?q = "q\<lparr>pq_size := ?n + 1, pq_d := ?D\<rparr>"
  have n: "1 \<le> ?n" "?n < length (pq_d q)" "pq_ops q = ops" "pq_avail q = length (pq_d q)"
    using inv room by (auto simp: pq_inv_def)
  have img: "(!) ?D ` {1..<?n + 1} = insert e (pq_elems q)"
    using n by (auto simp: pq_elems_def image_iff nth_list_update less_Suc_eq)
  have eq: "(!) ?D ` {1..<?n} = pq_elems q" "inj_on ((!) ?D) {1..<?n}"
    using pq_inv_inj[OF inv] by (auto simp: pq_elems_def inj_on_def)
  have split: "{1..<?n + 1} = insert ?n {1..<?n}" using n by auto
  have inj: "inj_on ((!) ?D) {1..<?n + 1}"
    using eq e(2) n unfolding split inj_on_insert by auto
  have h: "hole_ok s ?D (?n + 1) ?n"
    using inv e(1) n inj unfolding hole_ok_def pq_inv_def by (auto simp: less_Suc_eq)
  have "parent j \<noteq> ?n" if "j \<in> {2..<?n + 1}" for j using that by auto
  then have u: "up_ok s ?D (?n + 1) ?n"
    using inv n unfolding up_ok_def pq_inv_def ordered_def by (auto simp: less_Suc_eq)
  have "settles s ?q (bubble_up s ?q ?n)"
    using bubble_up_settles[of s ?q ?n] h u n by simp
  then show ?thesis
    using n img unfolding pqueue_insert_def settles_def reshuffled_def
    by (auto simp: pq_elems_def)
qed

lemma root_best:
  assumes "ordered s D n" "1 \<le> j" "j < n"
  shows "above s (D ! 1) (D ! j)"
  using assms(2,3)
proof (induction j rule: less_induct)
  case (less j)
  show ?case
  proof (cases "j = 1")
    case False
    then have "parent j < j" "1 \<le> parent j" "parent j < n" using less.prems by auto
    moreover have "above s (D ! parent j) (D ! j)"
      using assms(1) less.prems False by (auto simp: ordered_def)
    ultimately show ?thesis using less.IH above_trans by blast
  qed simp
qed

text \<open>Taking out the element at \<open>p\<close>: the last cell moves into the gap.\<close>

lemma gap_fill:
  assumes inv: "pq_inv s q" and p: "1 \<le> p" "Suc p < pq_size q"
  defines "n \<equiv> pq_size q - 1"
  defines "D \<equiv> (pq_d q)[p := pq_d q ! n]"
  shows gap_hole: "hole_ok s D n p"
    and gap_elems: "(!) D ` {1..<n} = pq_elems q - {pq_d q ! p}"
    and gap_up: "above s (pq_d q ! n) (pq_d q ! p) \<Longrightarrow> up_ok s D n p"
    and gap_down: "above s (pq_d q ! p) (pq_d q ! n) \<Longrightarrow> down_ok s D n p"
proof -
  let ?d = "pq_d q"
  have n: "p < n" "n < length ?d" "pq_size q = Suc n" "n \<noteq> p"
    using inv p by (auto simp: pq_inv_def n_def)
  have inj: "inj_on ((!) ?d) {1..<Suc n}" using pq_inv_inj[OF inv] n by simp
  have nth: "D ! j = (if j = p then ?d ! n else ?d ! j)" for j
    using n by (simp add: D_def nth_list_update)
  have "inj_on ((!) D) {1..<n}"
  proof (rule inj_onI)
    fix x y assume xy: "x \<in> {1..<n}" "y \<in> {1..<n}" "D ! x = D ! y"
    then have "?d ! (if x = p then n else x) = ?d ! (if y = p then n else y)"
      by (simp add: nth split: if_splits)
    then have "(if x = p then n else x) = (if y = p then n else y)"
      using inj_onD[OF inj] xy n p by simp
    then show "x = y" using xy by (simp split: if_splits)
  qed
  then show "hole_ok s D n p"
    using inv n p unfolding hole_ok_def pq_inv_def by (auto simp: nth) (simp add: D_def)
  have "{1..<Suc n} - {p} = insert n ({1..<n} - {p})" using n p by auto
  moreover have "pq_elems q - {?d ! p} = (!) ?d ` ({1..<Suc n} - {p})"
    using inj_on_image_set_diff[OF inj, of "{1..<Suc n}" "{p}"] n p by (simp add: pq_elems_def)
  moreover have "(!) D ` ({1..<n} - {p}) = (!) ?d ` ({1..<n} - {p})"
    by (intro image_cong) (auto simp: nth)
  moreover have "(!) D ` {1..<n} = insert (D ! p) ((!) D ` ({1..<n} - {p}))"
    using n p by (metis atLeastLessThan_iff image_insert insert_Diff)
  moreover have "D ! p = ?d ! n" by (simp add: nth)
  ultimately show "(!) D ` {1..<n} = pq_elems q - {?d ! p}" by simp
  have e: "above s (?d ! parent j) (?d ! j)" if "2 \<le> j" "j < n" for j
    using inv n that by (auto simp: pq_inv_def ordered_def)
  have g: "above s (D ! parent p) (D ! j)" if "2 \<le> j" "j < n" "parent j = p" "2 \<le> p" for j
    using above_trans[OF e[of p] ] e[of j] that p n by (auto simp: nth)
  show "up_ok s D n p" if up: "above s (?d ! n) (?d ! p)"
    using g e above_trans[OF up] unfolding up_ok_def by (auto simp: nth)
  show "down_ok s D n p" if dn: "above s (?d ! p) (?d ! n)"
    using g e above_trans[OF e[of p] dn] n unfolding down_ok_def by (auto simp: nth)
qed

lemma percolate_down_at_end:
  assumes "pq_ops q = ops" "pq_size q \<le> length (pq_d q)" "i < length (pq_d q)" "pq_size q \<le> left i"
  shows "percolate_down s q i = Some (setpos ops s (pq_d q ! i) i, q)"
  using assms by (simp add: percolate_down_def maxchild_def percolate_down_loop.simps[of ops _ _ s])

definition taken_out ::
  "'s \<Rightarrow> ('s, 'e, 'p) pqueue_t \<Rightarrow> 'e \<Rightarrow> ('s \<times> ('s, 'e, 'p) pqueue_t) option \<Rightarrow> bool" where
  "taken_out s q e r \<longleftrightarrow> (\<exists>s' q'. r = Some (s', q') \<and> pq_inv s' q' \<and>
     pq_elems q' = pq_elems q - {e} \<and> Suc (pq_size q') = pq_size q \<and>
     pq_avail q' = pq_avail q \<and> view s' = view s \<and> getpri ops s' = getpri ops s \<and>
     vld s' = vld s \<and> (\<forall>x. x \<notin> pq_elems q' \<longrightarrow> getpos ops s' x = getpos ops s x))"

lemma settles_taken_out:
  assumes inv: "pq_inv s q" and p: "1 \<le> p" "Suc p < pq_size q"
    and st: "settles s (q\<lparr>pq_size := pq_size q - 1, pq_d := (pq_d q)[p := pq_d q ! (pq_size q - 1)]\<rparr>) r"
  shows "taken_out s q (pq_d q ! p) r"
  using st gap_elems[OF inv p] p
  unfolding settles_def taken_out_def reshuffled_def pq_elems_def by auto

lemma last_taken_out:
  assumes inv: "pq_inv s q" and p: "1 \<le> p" "Suc p = pq_size q"
    and q': "q' = q\<lparr>pq_size := p, pq_d := (pq_d q)[p := pq_d q ! p]\<rparr>"
  shows "taken_out s q (pq_d q ! p) (percolate_down s q' p)"
proof -
  have pd: "percolate_down s q' p = Some (setpos ops s (pq_d q ! p) p, q')"
    using percolate_down_at_end[of q' p s] inv p q' by (auto simp: pq_inv_def)
  have el: "{1..<pq_size q} = insert p {1..<p}" using p by auto
  have ne: "pq_d q ! p \<notin> (!) (pq_d q) ` {1..<p}"
    using pq_inv_inj[OF inv] unfolding el inj_on_insert by simp
  have pos: "getpos ops (setpos ops s (pq_d q ! p) p) = getpos ops s"
    using inv p by (auto simp: pq_inv_def getpos_setpos fun_eq_iff)
  have "pq_inv (setpos ops s (pq_d q ! p) p) q'"
    using inv p q' pos unfolding pq_inv_def by (auto simp: vld_setpos ordered_def)
  moreover have "pq_elems q' = pq_elems q - {pq_d q ! p}"
    using ne q' unfolding pq_elems_def el by auto
  ultimately show ?thesis
    using pd pos p q' unfolding taken_out_def
    by (simp add: getpri_setpos vld_setpos view_setpos fun_eq_iff)
qed

lemma remove_correct:
  assumes inv: "pq_inv s q" and e: "e \<in> pq_elems q"
  shows "taken_out s q e (pqueue_remove s q e)"
proof -
  obtain p where p: "1 \<le> p" "p < pq_size q" "e = pq_d q ! p" using e by (auto simp: pq_elems_def)
  let ?n = "pq_size q - 1"
  let ?q = "q\<lparr>pq_size := ?n, pq_d := (pq_d q)[p := pq_d q ! ?n]\<rparr>"
  have q: "pq_ops q = ops" "getpos ops s e = p" "?n < length (pq_d q)" "p < length (pq_d q)"
    "pq_avail q = length (pq_d q)"
    using inv p by (auto simp: pq_inv_def)
  have run: "pqueue_remove s q e =
      (if above s e (pq_d q ! ?n) then percolate_down s ?q p else bubble_up s ?q p)"
    using q p by (simp add: pqueue_remove_def above_def Let_def)
  show ?thesis
  proof (cases "Suc p = pq_size q")
    case True
    then have "?n = p" by simp
    then show ?thesis using run last_taken_out[OF inv p(1) True refl] p(3) by simp
  next
    case False
    then have p': "Suc p < pq_size q" using p by simp
    note hole = gap_hole[OF inv p(1) p']
    have "settles s ?q (pqueue_remove s q e)"
    proof (cases "above s e (pq_d q ! ?n)")
      case True
      then show ?thesis
        using percolate_down_settles[of s ?q p] hole gap_down[OF inv p(1) p'] run q p(3) by simp
    next
      case False
      then have "above s (pq_d q ! ?n) e" using cmp_total by (auto simp: above_def)
      then show ?thesis
        using bubble_up_settles[of s ?q p] hole gap_up[OF inv p(1) p'] run q p(3) False by simp
    qed
    then show ?thesis using settles_taken_out[OF inv p(1) p'] p(3) by simp
  qed
qed

lemma pop_empty: "pq_inv s q \<Longrightarrow> pq_elems q = {} \<Longrightarrow> pqueue_pop s q = Some (None, s, q)"
  by (auto simp: pq_elems_def pqueue_pop_def pq_inv_def)

lemma pop_correct:
  assumes inv: "pq_inv s q" and ne: "pq_elems q \<noteq> {}"
  shows "\<exists>e s' q'. pqueue_pop s q = Some (Some e, s', q') \<and> e \<in> pq_elems q \<and>
    (\<forall>x\<in>pq_elems q. above s e x) \<and> taken_out s q e (Some (s', q'))"
proof -
  let ?n = "pq_size q - 1" and ?e = "pq_d q ! 1"
  let ?q = "q\<lparr>pq_size := ?n, pq_d := (pq_d q)[1 := pq_d q ! ?n]\<rparr>"
  have q: "pq_ops q = ops" "2 \<le> pq_size q" "pq_size q \<le> length (pq_d q)"
    "pq_avail q = length (pq_d q)" "ordered s (pq_d q) (pq_size q)"
    using inv ne by (auto simp: pq_inv_def pq_elems_def)
  have best: "\<forall>x\<in>pq_elems q. above s ?e x"
    using root_best[OF q(5)] by (auto simp: pq_elems_def)
  have out: "taken_out s q ?e (percolate_down s ?q 1)"
  proof (cases "pq_size q = 2")
    case True
    then show ?thesis using last_taken_out[OF inv, of 1 ?q] by simp
  next
    case False
    then have p': "Suc 1 < pq_size q" using q by simp
    have "above s ?e (pq_d q ! ?n)" using root_best[OF q(5)] p' by simp
    then have "settles s ?q (percolate_down s ?q 1)"
      using percolate_down_settles[of s ?q 1] gap_hole[OF inv _ p'] gap_down[OF inv _ p'] q by simp
    then show ?thesis using settles_taken_out[OF inv _ p'] by simp
  qed
  then obtain s' q' where r: "percolate_down s ?q 1 = Some (s', q')"
    by (auto simp: taken_out_def)
  have "pqueue_pop s q = Some (Some ?e, s', q')"
    using q r by (simp add: pqueue_pop_def)
  moreover have "?e \<in> pq_elems q" using q by (auto simp: pq_elems_def)
  ultimately show ?thesis using best out r by auto
qed

lemma peek_correct:
  assumes inv: "pq_inv s q" and ne: "pq_elems q \<noteq> {}"
  shows "\<exists>e. pqueue_peek q = Some (Some e) \<and> e \<in> pq_elems q \<and> (\<forall>x\<in>pq_elems q. above s e x)"
proof -
  have q: "2 \<le> pq_size q" "pq_size q \<le> length (pq_d q)" "ordered s (pq_d q) (pq_size q)"
    using inv ne by (auto simp: pq_inv_def pq_elems_def)
  have "\<forall>x\<in>pq_elems q. above s (pq_d q ! 1) x"
    using root_best[OF q(3)] by (auto simp: pq_elems_def)
  then show ?thesis using q by (auto simp: pqueue_peek_def pq_elems_def)
qed

lemma change_priority_correct:
  assumes inv: "pq_inv s q" and e: "e \<in> pq_elems q" and r: "pri_ok r"
  shows "\<exists>s' q'. pqueue_change_priority s q r e = Some (s', q') \<and> pq_inv s' q' \<and>
    pq_elems q' = pq_elems q \<and> pq_size q' = pq_size q \<and> pq_avail q' = pq_avail q \<and>
    view s' = view (setpri ops s e r) \<and> getpri ops s' = (getpri ops s)(e := r) \<and>
    vld s' = vld s \<and> (\<forall>x. x \<notin> pq_elems q \<longrightarrow> getpos ops s' x = getpos ops s x)"
proof -
  obtain p where p: "1 \<le> p" "p < pq_size q" "e = pq_d q ! p" using e by (auto simp: pq_elems_def)
  let ?s = "setpri ops s e r" and ?d = "pq_d q" and ?n = "pq_size q"
  have q: "pq_ops q = ops" "getpos ops ?s e = p" "vld s e" "pq_avail q = length ?d"
    using inv p by (auto simp: pq_inv_def getpos_setpri)
  have pri: "getpri ops ?s = (getpri ops s)(e := r)"
    using getpri_setpri[OF q(3) r] by (auto simp: fun_eq_iff)
  have h: "hole_ok ?s ?d ?n p"
    using inv p pq_inv_inj[OF inv] unfolding hole_ok_def pq_inv_def
    by (auto simp: getpos_setpri vld_setpri)
  have uniq: "?d ! j = e \<longleftrightarrow> j = p" if "1 \<le> j" "j < ?n" for j
    using inj_onD[OF pq_inv_inj[OF inv], of j p] that p by auto
  have e: "above s (?d ! parent j) (?d ! j)" if "2 \<le> j" "j < ?n" for j
    using inv that by (auto simp: pq_inv_def ordered_def)
  have keep: "above ?s (?d ! i) (?d ! j) = above s (?d ! i) (?d ! j)"
    if "1 \<le> i" "i < ?n" "1 \<le> j" "j < ?n" "i \<noteq> p" "j \<noteq> p" for i j
    using uniq that by (simp add: above_def pri)
  have g: "above ?s (?d ! parent p) (?d ! j)" if "2 \<le> j" "j < ?n" "parent j = p" "2 \<le> p" for j
    using above_trans[OF e[of p] ] e[of j] keep[of "parent p" j] that p by auto
  have "settles ?s q (pqueue_change_priority s q r e)"
  proof (cases "cmppri ops (getpri ops s e) r")
    case True
    have "above ?s (?d ! parent j) (?d ! j)" if j: "2 \<le> j" "j < ?n" "j \<noteq> p" for j
    proof (cases "parent j = p")
      case pj: True
      have "\<not> cmppri ops (getpri ops s e) (getpri ops s (?d ! j))"
        using e[OF j(1,2)] pj p by (simp add: above_def)
      then have "\<not> cmppri ops r (getpri ops s (?d ! j))"
        using cmp_trans[OF cmp_total[OF True]] by blast
      then show ?thesis using pj p(3)[symmetric] uniq[of j] j by (simp add: above_def pri)
    next
      case False then show ?thesis using keep[of "parent j" j] e[OF j(1,2)] j by auto
    qed
    then have "up_ok ?s ?d ?n p" using g by (auto simp: up_ok_def)
    then show ?thesis
      using bubble_up_settles[of ?s q p] h q True by (simp add: pqueue_change_priority_def)
  next
    case False
    have "above ?s (?d ! parent j) (?d ! j)" if j: "2 \<le> j" "j < ?n" "parent j \<noteq> p" for j
    proof (cases "j = p")
      case jp: True
      have "\<not> cmppri ops (getpri ops s (?d ! parent j)) (getpri ops s e)"
        using e[OF j(1,2)] jp p by (simp add: above_def)
      then have "\<not> cmppri ops (getpri ops s (?d ! parent j)) r"
        using cmp_trans[OF _ False] by blast
      then show ?thesis using jp p(3)[symmetric] uniq[of "parent j"] j by (simp add: above_def pri)
    next
      case False then show ?thesis using keep[of "parent j" j] e[OF j(1,2)] j by auto
    qed
    then have "down_ok ?s ?d ?n p" using g by (auto simp: down_ok_def)
    then show ?thesis
      using percolate_down_settles[of ?s q p] h q False by (simp add: pqueue_change_priority_def)
  qed
  then show ?thesis
    unfolding settles_def reshuffled_def
    by (auto simp: pq_elems_def pri vld_setpri getpos_setpri fun_eq_iff)
qed

lemma init_correct:
  assumes "length mem = n + 1" "pqueue_init n ops (Some mem) = Some q"
  shows "pq_inv s q \<and> pq_elems q = {} \<and> pq_avail q = n + 1"
  using assms by (auto simp: pqueue_init_def pq_inv_def pq_elems_def ordered_def)

lemma pqueue_size_correct:
  assumes "pq_inv s q"
  shows "pqueue_size q = card (pq_elems q)"
  using card_image[OF pq_inv_inj[OF assms]] by (simp add: pqueue_size_def pq_elems_def)

lemma pq_inv_cong:
  assumes "pq_inv s q"
    "\<And>x. x \<in> pq_elems q \<Longrightarrow> vld s' x \<and> getpos ops s' x = getpos ops s x \<and> getpri ops s' x = getpri ops s x"
  shows "pq_inv s' q"
proof -
  have e: "pq_d q ! j \<in> pq_elems q" if "1 \<le> j" "j < pq_size q" for j
    using that by (auto simp: pq_elems_def)
  have "above s' (pq_d q ! parent j) (pq_d q ! j)" if "2 \<le> j" "j < pq_size q" for j
    using assms e[of j] e[of "parent j"] that by (auto simp: pq_inv_def ordered_def above_def)
  then show ?thesis
    using assms e unfolding pq_inv_def ordered_def by auto
qed

end
section \<open>The validity check of the heap\<close>

text \<open>\<open>below pos j\<close>: cell \<open>j\<close> lies strictly below cell \<open>pos\<close> in the tree.\<close>

definition below :: "nat \<Rightarrow> nat \<Rightarrow> bool" where
  "below pos j \<longleftrightarrow> (\<exists>k>0. j div 2 ^ k = pos)"

lemma below_unfold:
  "below pos j \<longleftrightarrow> j = left pos \<or> j = right pos \<or> below (left pos) j \<or> below (right pos) j"
proof
  assume "below pos j"
  then obtain k where k: "j div 2 ^ Suc k = pos" unfolding below_def by (metis gr0_conv_Suc)
  then have h: "(j div 2 ^ k) div 2 = pos"
    by (metis div_mult2_eq power_Suc2)
  then have c: "j div 2 ^ k = left pos \<or> j div 2 ^ k = right pos" by auto
  show "j = left pos \<or> j = right pos \<or> below (left pos) j \<or> below (right pos) j"
    using c unfolding below_def by (cases "k = 0") auto
next
  assume *: "j = left pos \<or> j = right pos \<or> below (left pos) j \<or> below (right pos) j"
  have up: "below pos j" if "below c j" "c div 2 = pos" for c
  proof -
    obtain k where "j div 2 ^ k = c" using \<open>below c j\<close> by (auto simp: below_def)
    then have "j div 2 ^ Suc k = pos" using that(2) by (metis div_mult2_eq power_Suc2)
    then show ?thesis unfolding below_def by blast
  qed
  have "below pos j" if "j = left pos \<or> j = right pos"
    unfolding below_def using that by (intro exI[of _ 1]) auto
  then show "below pos j" using * up[of "left pos"] up[of "right pos"] by auto
qed

lemma below_ge: "below pos j \<Longrightarrow> left pos \<le> j"
proof -
  assume "below pos j"
  then obtain k where k: "k > 0" "j div 2 ^ k = pos" by (auto simp: below_def)
  have "pos * 2 ^ k \<le> j" using k(2) by (metis div_times_less_eq_dividend)
  moreover have "(2::nat) \<le> 2 ^ k" using k(1) by (cases k) auto
  ultimately show ?thesis by (metis le_trans mult.commute mult_le_mono1)
qed

lemma below_root: "below 1 j \<longleftrightarrow> 2 \<le> j"
proof
  show "2 \<le> j" if "below 1 j" using below_ge[OF that] by simp
  show "below 1 j" if "2 \<le> j"
    using that
  proof (induction j rule: less_induct)
    case (less j)
    have half: "j div 2 = 1 \<or> below 1 (j div 2)" using less by (cases "j div 2 < 2") auto
    show ?case
    proof (cases "j div 2 = 1")
      case True then show ?thesis unfolding below_def by (intro exI[of _ 1]) simp
    next
      case False
      then obtain k where "j div 2 div 2 ^ k = 1" using half by (auto simp: below_def)
      then have "j div 2 ^ Suc k = 1" by (simp add: div_mult2_eq)
      then show ?thesis unfolding below_def by blast
    qed
  qed
qed

abbreviation edge_ok :: "'s \<Rightarrow> ('s, 'e, 'p) pqueue_t \<Rightarrow> nat \<Rightarrow> bool" where
  "edge_ok s q j \<equiv> \<not> cmppri (pq_ops q) (getpri (pq_ops q) s (pq_d q ! parent j))
      (getpri (pq_ops q) s (pq_d q ! j))"

lemma subtree_is_valid_correct:
  assumes "1 \<le> pos"
  shows "subtree_is_valid s q pos = Some (\<forall>j<pq_size q. below pos j \<longrightarrow> edge_ok s q j)"
  using assms
proof (induction "pq_size q - pos" arbitrary: pos rule: less_induct)
  case less
  let ?n = "pq_size q"
  have L: "subtree_is_valid s q (left pos) = Some (\<forall>j<?n. below (left pos) j \<longrightarrow> edge_ok s q j)"
    if "left pos < ?n" using less.hyps[of "left pos"] less.prems that by simp
  have R: "subtree_is_valid s q (right pos) = Some (\<forall>j<?n. below (right pos) j \<longrightarrow> edge_ok s q j)"
    if "right pos < ?n" using less.hyps[of "right pos"] less.prems that by simp
  have out: "\<not> below c j" if "j < ?n" "?n \<le> c" for c j using below_ge[of c j] that by auto
  have split: "(\<forall>j<?n. below pos j \<longrightarrow> E j) \<longleftrightarrow>
      (left pos < ?n \<longrightarrow> E (left pos) \<and> (\<forall>j<?n. below (left pos) j \<longrightarrow> E j)) \<and>
      (right pos < ?n \<longrightarrow> E (right pos) \<and> (\<forall>j<?n. below (right pos) j \<longrightarrow> E j))" for E
    using out[of _ "left pos"] out[of _ "right pos"] unfolding below_unfold[of pos]
    by (metis not_less)
  show ?case
    unfolding subtree_is_valid.simps[of s q pos] split
    using L R by auto
qed

lemma pqueue_is_valid_heap_ordered: "pqueue_is_valid s q = Some (heap_ordered s q)"
  using subtree_is_valid_correct[of 1 s q] unfolding pqueue_is_valid_def below_root
  by (auto simp: heap_ordered_def)

end
