(* ===== verification/Conv_Ftl.thy ===== *)
theory Conv_Ftl
  imports Ssd Pqueue
begin

text \<open>
  The page-mapped translation layer of src/conv\_ftl.c: mapping tables, lines (super-blocks),
  the two write pointers, garbage collection and the read and write commands.  A pointer to
  a line is the index of the line; the intrusive lists of lines are lists of
  indices.  Counters of type \<^verbatim>\<open>uint32_t\<close> wrap around as in C.
\<close>

section \<open>Data\<close>

record convparams =
  gc_thres_lines :: nat
  gc_thres_lines_high :: nat
  enable_gc_delay :: bool
  op_area_pcent :: rat
  pba_pcent :: nat

record line =
  ln_id :: nat
  ln_ipc :: int
  ln_vpc :: int
  ln_pos :: nat

record write_pointer =
  wp_curline :: nat
  wp_ch :: nat
  wp_lun :: nat
  wp_pg :: nat
  wp_blk :: nat
  wp_pl :: nat

type_synonym line_pq = "(line list, nat, u64) pqueue_t"

record line_mgmt =
  lm_lines :: "line list"
  lm_free :: "nat list"
  lm_victim_pq :: line_pq
  lm_full :: "nat list"
  lm_tt_lines :: nat
  lm_free_cnt :: nat
  lm_victim_cnt :: nat
  lm_full_cnt :: nat

record write_flow_control =
  write_credits :: nat
  credits_to_refill :: nat

record conv_ftl =
  cf_ssd :: ssd
  cf_cp :: convparams
  cf_maptbl :: "ppa list"
  cf_rmap :: "nat list"
  cf_wp :: write_pointer
  cf_gc_wp :: write_pointer
  cf_lm :: line_mgmt
  cf_wfc :: write_flow_control
  cf_page_counter :: "nat list"

definition INVALID_LPN :: nat where
  "INVALID_LPN = 2 ^ 64 - 1"

abbreviation cf_sp :: "conv_ftl \<Rightarrow> ssdparams" where
  "cf_sp f \<equiv> ssd_sp (cf_ssd f)"

section \<open>Small helpers\<close>

definition last_pg_in_wordline :: "conv_ftl \<Rightarrow> ppa \<Rightarrow> bool" where
  "last_pg_in_wordline f a \<longleftrightarrow>
     int (p_pg a mod pgs_per_oneshotpg (cf_sp f)) = int (pgs_per_oneshotpg (cf_sp f)) - 1"

definition should_gc :: "conv_ftl \<Rightarrow> bool" where
  "should_gc f \<longleftrightarrow> lm_free_cnt (cf_lm f) \<le> gc_thres_lines (cf_cp f)"

definition should_gc_high :: "conv_ftl \<Rightarrow> bool" where
  "should_gc_high f \<longleftrightarrow> lm_free_cnt (cf_lm f) \<le> gc_thres_lines_high (cf_cp f)"

definition get_maptbl_ent :: "conv_ftl \<Rightarrow> nat \<Rightarrow> ppa option" where
  "get_maptbl_ent f lpn = array_read (cf_maptbl f) lpn"

definition set_maptbl_ent :: "conv_ftl \<Rightarrow> nat \<Rightarrow> ppa \<Rightarrow> conv_ftl option" where
  "set_maptbl_ent f lpn a = do {
     nvmev_assert (lpn < tt_pgs (cf_sp f));
     m \<leftarrow> array_write (cf_maptbl f) lpn a;
     Some (f\<lparr>cf_maptbl := m\<rparr>)
   }"

definition ppa2pgidx :: "conv_ftl \<Rightarrow> ppa \<Rightarrow> nat option" where
  "ppa2pgidx f a = do {
     let pgidx = p_ch a * pgs_per_ch (cf_sp f) + p_lun a * pgs_per_lun (cf_sp f) +
       p_pl a * pgs_per_pl (cf_sp f) + p_blk a * pgs_per_blk (cf_sp f) + p_pg a;
     nvmev_assert (pgidx < tt_pgs (cf_sp f));
     Some pgidx
   }"

definition get_rmap_ent :: "conv_ftl \<Rightarrow> ppa \<Rightarrow> nat option" where
  "get_rmap_ent f a = do { i \<leftarrow> ppa2pgidx f a; array_read (cf_rmap f) i }"

definition set_rmap_ent :: "conv_ftl \<Rightarrow> nat \<Rightarrow> ppa \<Rightarrow> conv_ftl option" where
  "set_rmap_ent f lpn a = do {
     i \<leftarrow> ppa2pgidx f a;
     r \<leftarrow> array_write (cf_rmap f) i lpn;
     Some (f\<lparr>cf_rmap := r\<rparr>)
   }"

section \<open>The callbacks of the victim queue\<close>

definition victim_line_cmp_pri :: "u64 \<Rightarrow> u64 \<Rightarrow> bool" where
  "victim_line_cmp_pri next_pri cur_pri \<longleftrightarrow> next_pri > cur_pri"

definition victim_line_get_pri :: "line list \<Rightarrow> nat \<Rightarrow> u64" where
  "victim_line_get_pri ls i = of_int (ln_vpc (ls ! i))"

definition victim_line_set_pri :: "line list \<Rightarrow> nat \<Rightarrow> u64 \<Rightarrow> line list" where
  "victim_line_set_pri ls i pri = ls[i := (ls ! i)\<lparr>ln_vpc := sint (ucast pri :: u32)\<rparr>]"

definition victim_line_get_pos :: "line list \<Rightarrow> nat \<Rightarrow> nat" where
  "victim_line_get_pos ls i = ln_pos (ls ! i)"

definition victim_line_set_pos :: "line list \<Rightarrow> nat \<Rightarrow> nat \<Rightarrow> line list" where
  "victim_line_set_pos ls i pos = ls[i := (ls ! i)\<lparr>ln_pos := pos\<rparr>]"

definition victim_ops :: "(line list, nat, u64) pqueue_ops" where
  "victim_ops = \<lparr>cmppri = victim_line_cmp_pri, getpri = victim_line_get_pri,
     setpri = victim_line_set_pri, getpos = victim_line_get_pos, setpos = victim_line_set_pos\<rparr>"

section \<open>Lines and write pointers\<close>

definition consume_write_credit :: "conv_ftl \<Rightarrow> conv_ftl" where
  "consume_write_credit f =
    f\<lparr>cf_wfc := (cf_wfc f)\<lparr>write_credits := dec32 (write_credits (cf_wfc f))\<rparr>\<rparr>"

text \<open>\<open>mem\<close> is what vmalloc returned for the victim queue, \<open>vmalloc\<close> itself being
  code outside this repository.\<close>

definition init_lines :: "nat list option \<Rightarrow> conv_ftl \<Rightarrow> conv_ftl option" where
  "init_lines mem f = do {
     let n = blks_per_pl (cf_sp f);
     nvmev_assert (n = tt_lines (cf_sp f));
     q \<leftarrow> pqueue_init (tt_lines (cf_sp f)) victim_ops mem;
     Some (f\<lparr>cf_lm := \<lparr>lm_lines = map (\<lambda>i. \<lparr>ln_id = i, ln_ipc = 0, ln_vpc = 0, ln_pos = 0\<rparr>) [0..<n],
       lm_free = [0..<n], lm_victim_pq = q, lm_full = [], lm_tt_lines = n,
       lm_free_cnt = n, lm_victim_cnt = 0, lm_full_cnt = 0\<rparr>\<rparr>)
   }"

definition init_write_flow_control :: "conv_ftl \<Rightarrow> conv_ftl" where
  "init_write_flow_control f =
    f\<lparr>cf_wfc := \<lparr>write_credits = pgs_per_line (cf_sp f) mod 2 ^ 32,
                 credits_to_refill = pgs_per_line (cf_sp f) mod 2 ^ 32\<rparr>\<rparr>"

definition check_addr :: "nat \<Rightarrow> nat \<Rightarrow> unit option" where
  "check_addr a mx = nvmev_assert (a < mx)"

text \<open>\<^term>\<open>None\<close> in the first component is the NULL the C function returns.\<close>

definition get_next_free_line :: "conv_ftl \<Rightarrow> nat option \<times> conv_ftl" where
  "get_next_free_line f = (case lm_free (cf_lm f) of
      [] \<Rightarrow> (None, f)
    | l # ls \<Rightarrow> (Some l, f\<lparr>cf_lm := (cf_lm f)\<lparr>lm_free := ls,
                                lm_free_cnt := dec32 (lm_free_cnt (cf_lm f))\<rparr>\<rparr>))"

definition get_wp :: "conv_ftl \<Rightarrow> io_type \<Rightarrow> write_pointer" where
  "get_wp f io = (case io of USER_IO \<Rightarrow> cf_wp f | GC_IO \<Rightarrow> cf_gc_wp f)"

definition set_wp :: "conv_ftl \<Rightarrow> io_type \<Rightarrow> write_pointer \<Rightarrow> conv_ftl" where
  "set_wp f io w = (case io of USER_IO \<Rightarrow> f\<lparr>cf_wp := w\<rparr> | GC_IO \<Rightarrow> f\<lparr>cf_gc_wp := w\<rparr>)"

definition prepare_write_pointer :: "conv_ftl \<Rightarrow> io_type \<Rightarrow> conv_ftl option" where
  "prepare_write_pointer f io = do {
     let (curline, f') = get_next_free_line f;
     l \<leftarrow> curline;
     lne \<leftarrow> array_read (lm_lines (cf_lm f')) l;
     Some (set_wp f' io \<lparr>wp_curline = l, wp_ch = 0, wp_lun = 0, wp_pg = 0, wp_blk = ln_id lne, wp_pl = 0\<rparr>)
   }"

text \<open>The end of a line, common to both branches of \<^verbatim>\<open>advance_write_pointer\<close>: the line goes to
  the full list or to the victim queue.\<close>

definition retire_line :: "conv_ftl \<Rightarrow> nat \<Rightarrow> conv_ftl option" where
  "retire_line f l = do {
     let lm = cf_lm f;
     lne \<leftarrow> array_read (lm_lines lm) l;
     if ln_vpc lne = int (pgs_per_line (cf_sp f)) then do {
       nvmev_assert (ln_ipc lne = 0);
       Some (f\<lparr>cf_lm := lm\<lparr>lm_full := lm_full lm @ [l], lm_full_cnt := add32 (lm_full_cnt lm) 1\<rparr>\<rparr>)
     }
     else do {
       nvmev_assert (ln_vpc lne \<ge> 0 \<and> ln_vpc lne < int (pgs_per_line (cf_sp f)));
       nvmev_assert (ln_ipc lne > 0);
       (ls, q) \<leftarrow> pqueue_insert (lm_lines lm) (lm_victim_pq lm) l;
       Some (f\<lparr>cf_lm := lm\<lparr>lm_lines := ls, lm_victim_pq := q,
                            lm_victim_cnt := add32 (lm_victim_cnt lm) 1\<rparr>\<rparr>)
     }
   }"

text \<open>The next die in the order of the search loop: channels first, then LUNs.\<close>

definition next_die :: "ssdparams \<Rightarrow> nat \<Rightarrow> nat \<Rightarrow> (nat \<times> nat) option" where
  "next_die spp ch lun = do {
     check_addr ch (nchs spp);
     if ch + 1 = nchs spp then do {
       check_addr lun (luns_per_ch spp);
       Some (0, if lun + 1 = luns_per_ch spp then 0 else lun + 1)
     }
     else Some (ch + 1, lun)
   }"

text \<open>The do-while loop that looks for a die whose block is not full.  It returns the die
  with \<^term>\<open>True\<close> when it found one, and with \<^term>\<open>False\<close> when it came back to the start.\<close>

partial_function (option) find_die ::
  "ssdparams \<Rightarrow> nat list \<Rightarrow> nat \<Rightarrow> nat \<Rightarrow> nat \<Rightarrow> nat \<Rightarrow> (bool \<times> nat \<times> nat) option" where
  "find_die spp counter start_ch start_lun ch lun = do {
     (ch', lun') \<leftarrow> next_die spp ch lun;
     c \<leftarrow> array_read counter (ch' * luns_per_ch spp + lun');
     if c < pgs_per_blk spp then Some (True, ch', lun')
     else if ch' \<noteq> start_ch \<or> lun' \<noteq> start_lun
     then find_die spp counter start_ch start_lun ch' lun'
     else Some (False, ch', lun')
   }"

definition die_indices :: "ssdparams \<Rightarrow> nat list" where
  "die_indices spp = concat (map (\<lambda>i. map (\<lambda>j. i * luns_per_ch spp + j) [0..<luns_per_ch spp]) [0..<nchs spp])"

definition reset_page_counter :: "ssdparams \<Rightarrow> nat list \<Rightarrow> nat list option" where
  "reset_page_counter spp counter =
     foldM (\<lambda>i counter. do {
       c \<leftarrow> array_read counter i;
       nvmev_assert (c = pgs_per_blk spp);
       array_write counter i 0 }) (die_indices spp) counter"

definition user_out :: "conv_ftl \<Rightarrow> write_pointer \<Rightarrow> conv_ftl option" where
  "user_out f w = do {
     c \<leftarrow> array_read (cf_page_counter f) (wp_ch w * luns_per_ch (cf_sp f) + wp_lun w);
     Some (f\<lparr>cf_wp := w\<lparr>wp_pg := c\<rparr>\<rparr>)
   }"

definition user_next_line :: "conv_ftl \<Rightarrow> write_pointer \<Rightarrow> conv_ftl option" where
  "user_next_line f w = do {
     let spp = cf_sp f;
     counter \<leftarrow> reset_page_counter spp (cf_page_counter f);
     f1 \<leftarrow> retire_line (f\<lparr>cf_page_counter := counter\<rparr>) (wp_curline w);
     check_addr (wp_blk w) (blks_per_pl spp);
     let (curline, f2) = get_next_free_line f1;
     l \<leftarrow> curline;
     lne \<leftarrow> array_read (lm_lines (cf_lm f2)) l;
     check_addr (ln_id lne) (blks_per_pl spp);
     c0 \<leftarrow> array_read (cf_page_counter f2) 0;
     nvmev_assert (c0 = 0);
     user_out f2 (w\<lparr>wp_curline := l, wp_blk := ln_id lne, wp_ch := 0, wp_lun := 0, wp_pl := 0\<rparr>)
   }"

definition user_next_die :: "conv_ftl \<Rightarrow> write_pointer \<Rightarrow> conv_ftl option" where
  "user_next_die f w = do {
     (found, ch, lun) \<leftarrow>
       find_die (cf_sp f) (cf_page_counter f) (wp_ch w) (wp_lun w) (wp_ch w) (wp_lun w);
     let w' = w\<lparr>wp_ch := ch, wp_lun := lun\<rparr>;
     (if found then user_out f w' else user_next_line f w')
   }"

definition advance_user_pointer :: "conv_ftl \<Rightarrow> conv_ftl option" where
  "advance_user_pointer f = do {
     let spp = cf_sp f;
     let w = cf_wp f;
     let idx = wp_ch w * luns_per_ch spp + wp_lun w;
     c \<leftarrow> array_read (cf_page_counter f) idx;
     check_addr c (pgs_per_blk spp);
     nvmev_assert (pgs_per_oneshotpg spp \<noteq> 0);
     let f1 = f\<lparr>cf_page_counter := (cf_page_counter f)[idx := c + 1]\<rparr>;
     (if (c + 1) mod pgs_per_oneshotpg spp \<noteq> 0 then user_out f1 w else user_next_die f1 w)
   }"

definition gc_next_line :: "conv_ftl \<Rightarrow> write_pointer \<Rightarrow> conv_ftl option" where
  "gc_next_line f w = do {
     f1 \<leftarrow> retire_line f (wp_curline w);
     check_addr (wp_blk w) (blks_per_pl (cf_sp f));
     let (curline, f2) = get_next_free_line f1;
     l \<leftarrow> curline;
     lne \<leftarrow> array_read (lm_lines (cf_lm f2)) l;
     check_addr (ln_id lne) (blks_per_pl (cf_sp f));
     nvmev_assert (wp_pg w = 0 \<and> wp_lun w = 0 \<and> wp_ch w = 0 \<and> wp_pl w = 0);
     Some (f2\<lparr>cf_gc_wp := w\<lparr>wp_curline := l, wp_blk := ln_id lne\<rparr>\<rparr>)
   }"

definition advance_gc_pointer :: "conv_ftl \<Rightarrow> conv_ftl option" where
  "advance_gc_pointer f = do {
     let spp = cf_sp f;
     let w = cf_gc_wp f;
     check_addr (wp_pg w) (pgs_per_blk spp);
     nvmev_assert (pgs_per_oneshotpg spp \<noteq> 0);
     let pg = wp_pg w + 1;
     if pg mod pgs_per_oneshotpg spp \<noteq> 0 then Some (f\<lparr>cf_gc_wp := w\<lparr>wp_pg := pg\<rparr>\<rparr>)
     else do {
       let pg = pg - pgs_per_oneshotpg spp;
       check_addr (wp_ch w) (nchs spp);
       let ch = wp_ch w + 1;
       if ch \<noteq> nchs spp then Some (f\<lparr>cf_gc_wp := w\<lparr>wp_pg := pg, wp_ch := ch\<rparr>\<rparr>)
       else do {
         check_addr (wp_lun w) (luns_per_ch spp);
         let lun = wp_lun w + 1;
         if lun \<noteq> luns_per_ch spp
         then Some (f\<lparr>cf_gc_wp := w\<lparr>wp_pg := pg, wp_ch := 0, wp_lun := lun\<rparr>\<rparr>)
         else do {
           let pg = pg + pgs_per_oneshotpg spp;
           if pg \<noteq> pgs_per_blk spp
           then Some (f\<lparr>cf_gc_wp := w\<lparr>wp_pg := pg, wp_ch := 0, wp_lun := 0\<rparr>\<rparr>)
           else gc_next_line f (w\<lparr>wp_pg := 0, wp_ch := 0, wp_lun := 0\<rparr>)
         }
       }
     }
   }"

definition advance_write_pointer :: "conv_ftl \<Rightarrow> io_type \<Rightarrow> conv_ftl option" where
  "advance_write_pointer f io =
    (case io of USER_IO \<Rightarrow> advance_user_pointer f | GC_IO \<Rightarrow> advance_gc_pointer f)"

definition get_new_page :: "conv_ftl \<Rightarrow> io_type \<Rightarrow> ppa option" where
  "get_new_page f io = do {
     let w = get_wp f io;
     let a = mk_ppa (wp_ch w) (wp_lun w) (wp_pl w) (wp_blk w) (wp_pg w);
     nvmev_assert (p_pl a = 0);
     Some a
   }"

section \<open>Initialisation\<close>

definition init_maptbl :: "conv_ftl \<Rightarrow> conv_ftl" where
  "init_maptbl f = f\<lparr>cf_maptbl := replicate (tt_pgs (cf_sp f)) UNMAPPED_PPA\<rparr>"

definition init_rmap :: "conv_ftl \<Rightarrow> conv_ftl" where
  "init_rmap f = f\<lparr>cf_rmap := replicate (tt_pgs (cf_sp f)) INVALID_LPN\<rparr>"

definition conv_init_ftl ::
  "nat list option \<Rightarrow> conv_ftl \<Rightarrow> convparams \<Rightarrow> ssd \<Rightarrow> conv_ftl option" where
  "conv_init_ftl mem f cpp s = do {
     let f1 = init_rmap (init_maptbl (f\<lparr>cf_cp := cpp, cf_ssd := s\<rparr>));
     f2 \<leftarrow> init_lines mem f1;
     f3 \<leftarrow> prepare_write_pointer f2 USER_IO;
     f4 \<leftarrow> prepare_write_pointer f3 GC_IO;
     Some (init_write_flow_control f4)
   }"

definition conv_init_params :: convparams where
  "conv_init_params = \<lparr>gc_thres_lines = 2, gc_thres_lines_high = 2, enable_gc_delay = True,
     op_area_pcent = 7 / 100, pba_pcent = nat \<lfloor>(1 + 7 / 100) * 100 :: rat\<rfloor>\<rparr>"

section \<open>Page state\<close>

definition valid_ppa :: "conv_ftl \<Rightarrow> ppa \<Rightarrow> bool" where
  "valid_ppa f a \<longleftrightarrow> p_ch a < nchs (cf_sp f) \<and> p_lun a < luns_per_ch (cf_sp f) \<and>
     p_pl a < pls_per_lun (cf_sp f) \<and> p_blk a < blks_per_pl (cf_sp f) \<and> p_pg a < pgs_per_blk (cf_sp f)"

definition valid_lpn :: "conv_ftl \<Rightarrow> nat \<Rightarrow> bool" where
  "valid_lpn f lpn \<longleftrightarrow> lpn < tt_pgs (cf_sp f)"

definition mapped_ppa :: "ppa \<Rightarrow> bool" where
  "mapped_ppa a \<longleftrightarrow> a \<noteq> UNMAPPED_PPA"

definition get_line :: "conv_ftl \<Rightarrow> ppa \<Rightarrow> line option" where
  "get_line f a = array_read (lm_lines (cf_lm f)) (p_blk a)"

definition set_line :: "conv_ftl \<Rightarrow> nat \<Rightarrow> line \<Rightarrow> conv_ftl" where
  "set_line f l lne = f\<lparr>cf_lm := (cf_lm f)\<lparr>lm_lines := (lm_lines (cf_lm f))[l := lne]\<rparr>\<rparr>"

definition set_page_status :: "nand_block \<Rightarrow> nat \<Rightarrow> page_status \<Rightarrow> nand_block" where
  "set_page_status b i st = b\<lparr>b_pg := (b_pg b)[i := (b_pg b ! i)\<lparr>pg_status := st\<rparr>]\<rparr>"

definition put_blk :: "conv_ftl \<Rightarrow> ppa \<Rightarrow> nand_block \<Rightarrow> conv_ftl" where
  "put_blk f a b = f\<lparr>cf_ssd := set_blk (cf_ssd f) a b\<rparr>"

definition mark_page_invalid :: "conv_ftl \<Rightarrow> ppa \<Rightarrow> conv_ftl option" where
  "mark_page_invalid f a = do {
     let spp = cf_sp f;
     pg \<leftarrow> get_pg (cf_ssd f) a;
     nvmev_assert (pg_status pg = PG_VALID);
     b \<leftarrow> get_blk (cf_ssd f) a;
     nvmev_assert (b_ipc b \<ge> 0 \<and> b_ipc b < int (pgs_per_blk spp));
     nvmev_assert (b_vpc b > 0 \<and> b_vpc b \<le> int (pgs_per_blk spp));
     let f1 = put_blk f a
       ((set_page_status b (p_pg a) PG_INVALID)\<lparr>b_ipc := b_ipc b + 1, b_vpc := b_vpc b - 1\<rparr>);
     lne \<leftarrow> get_line f1 a;
     nvmev_assert (ln_ipc lne \<ge> 0 \<and> ln_ipc lne < int (pgs_per_line spp));
     let was_full_line = (ln_vpc lne = int (pgs_per_line spp));
     nvmev_assert (was_full_line \<longrightarrow> ln_ipc lne = 0);
     let f2 = set_line f1 (p_blk a) (lne\<lparr>ln_ipc := ln_ipc lne + 1\<rparr>);
     nvmev_assert (ln_vpc lne > 0 \<and> ln_vpc lne \<le> int (pgs_per_line spp));
     f3 \<leftarrow> (if ln_pos lne \<noteq> 0 then do {
              (ls, q) \<leftarrow> pqueue_change_priority (lm_lines (cf_lm f2)) (lm_victim_pq (cf_lm f2))
                           (of_int (ln_vpc lne - 1)) (p_blk a);
              Some (f2\<lparr>cf_lm := (cf_lm f2)\<lparr>lm_lines := ls, lm_victim_pq := q\<rparr>\<rparr>)
            }
            else Some (set_line f2 (p_blk a) (lne\<lparr>ln_ipc := ln_ipc lne + 1, ln_vpc := ln_vpc lne - 1\<rparr>)));
     if was_full_line then do {
       let lm = (cf_lm f3)\<lparr>lm_full := remove1 (p_blk a) (lm_full (cf_lm f3)),
                          lm_full_cnt := dec32 (lm_full_cnt (cf_lm f3))\<rparr>;
       (ls, q) \<leftarrow> pqueue_insert (lm_lines lm) (lm_victim_pq lm) (p_blk a);
       Some (f3\<lparr>cf_lm := lm\<lparr>lm_lines := ls, lm_victim_pq := q,
                             lm_victim_cnt := add32 (lm_victim_cnt lm) 1\<rparr>\<rparr>)
     }
     else Some f3
   }"

definition mark_page_valid :: "conv_ftl \<Rightarrow> ppa \<Rightarrow> conv_ftl option" where
  "mark_page_valid f a = do {
     let spp = cf_sp f;
     pg \<leftarrow> get_pg (cf_ssd f) a;
     nvmev_assert (pg_status pg = PG_FREE);
     b \<leftarrow> get_blk (cf_ssd f) a;
     nvmev_assert (b_vpc b \<ge> 0 \<and> b_vpc b < int (pgs_per_blk spp));
     let f1 = put_blk f a ((set_page_status b (p_pg a) PG_VALID)\<lparr>b_vpc := b_vpc b + 1\<rparr>);
     lne \<leftarrow> get_line f1 a;
     nvmev_assert (ln_vpc lne \<ge> 0 \<and> ln_vpc lne < int (pgs_per_line spp));
     Some (set_line f1 (p_blk a) (lne\<lparr>ln_vpc := ln_vpc lne + 1\<rparr>))
   }"

definition mark_block_free :: "conv_ftl \<Rightarrow> ppa \<Rightarrow> conv_ftl option" where
  "mark_block_free f a = do {
     let spp = cf_sp f;
     b \<leftarrow> get_blk (cf_ssd f) a;
     pgs \<leftarrow> foldM (\<lambda>i pgs. do {
              pg \<leftarrow> array_read pgs i;
              nvmev_assert (pg_nsecs pg = secs_per_pg spp);
              array_write pgs i (pg\<lparr>pg_status := PG_FREE\<rparr>) }) [0..<pgs_per_blk spp] (b_pg b);
     nvmev_assert (b_npgs b = pgs_per_blk spp);
     Some (put_blk f a (b\<lparr>b_pg := pgs, b_ipc := 0, b_vpc := 0, b_erase_cnt := b_erase_cnt b + 1\<rparr>))
   }"

text \<open>Giving a logical page the page under a write pointer, common to host writes and to
  garbage collection.\<close>

definition place_lpn :: "conv_ftl \<Rightarrow> io_type \<Rightarrow> nat \<Rightarrow> (conv_ftl \<times> ppa) option" where
  "place_lpn f io lpn = do {
     a \<leftarrow> get_new_page f io;
     f1 \<leftarrow> set_maptbl_ent f lpn a;
     f2 \<leftarrow> set_rmap_ent f1 lpn a;
     f3 \<leftarrow> mark_page_valid f2 a;
     Some (f3, a)
   }"

section \<open>Garbage collection\<close>

definition nand_op_at :: "conv_ftl \<Rightarrow> nand_op \<Rightarrow> nat \<Rightarrow> ppa \<Rightarrow> conv_ftl option" where
  "nand_op_at f c xfer a = do {
     (s, _, _) \<leftarrow> ssd_advance_nand (cf_ssd f)
       \<lparr>nc_type = GC_IO, nc_cmd = c, nc_xfer_size = xfer, nc_stime = 0,
        nc_interleave_pci_dma = False, nc_ppa = a, nc_arrive_time = 0\<rparr>;
     Some (f\<lparr>cf_ssd := s\<rparr>)
   }"

definition gc_read_page :: "conv_ftl \<Rightarrow> ppa \<Rightarrow> conv_ftl option" where
  "gc_read_page f a =
    (if enable_gc_delay (cf_cp f) then nand_op_at f NAND_READ (pgsz (cf_sp f)) a else Some f)"

definition gc_write_page :: "conv_ftl \<Rightarrow> ppa \<Rightarrow> conv_ftl option" where
  "gc_write_page f old_ppa = do {
     let spp = cf_sp f;
     lpn \<leftarrow> get_rmap_ent f old_ppa;
     nvmev_assert (valid_lpn f lpn);
     (f3, new_ppa) \<leftarrow> place_lpn f GC_IO lpn;
     f4 \<leftarrow> advance_write_pointer f3 GC_IO;
     (if enable_gc_delay (cf_cp f) then
        (if last_pg_in_wordline f4 new_ppa
         then nand_op_at f4 NAND_WRITE (pgsz spp * pgs_per_oneshotpg spp) new_ppa
         else nand_op_at f4 NAND_NOP 0 new_ppa)
      else Some f4)
   }"

definition select_victim_line :: "conv_ftl \<Rightarrow> bool \<Rightarrow> (nat option \<times> conv_ftl) option" where
  "select_victim_line f force = do {
     let lm = cf_lm f;
     v \<leftarrow> pqueue_peek (lm_victim_pq lm);
     (case v of
        None \<Rightarrow> Some (None, f)
      | Some l \<Rightarrow> do {
          lne \<leftarrow> array_read (lm_lines lm) l;
          if \<not> force \<and> ln_vpc lne > int (pgs_per_line (cf_sp f) div 8) then Some (None, f)
          else do {
            (_, ls, q) \<leftarrow> pqueue_pop (lm_lines lm) (lm_victim_pq lm);
            Some (Some l, f\<lparr>cf_lm := lm\<lparr>lm_lines := victim_line_set_pos ls l 0, lm_victim_pq := q,
              lm_victim_cnt := dec32 (lm_victim_cnt lm)\<rparr>\<rparr>)
          }
        })
   }"

definition at_pg :: "ppa \<Rightarrow> nat \<Rightarrow> ppa" where
  "at_pg a pg = a\<lparr>p_pg := pg mod 65536\<rparr>"

definition clean_one_block :: "conv_ftl \<Rightarrow> ppa \<Rightarrow> conv_ftl option" where
  "clean_one_block f a = do {
     (f', cnt) \<leftarrow> foldM (\<lambda>pg (f, cnt). do {
        p \<leftarrow> get_pg (cf_ssd f) (at_pg a pg);
        nvmev_assert (pg_status p \<noteq> PG_FREE);
        if pg_status p = PG_VALID then do {
          f1 \<leftarrow> gc_read_page f (at_pg a pg);
          f2 \<leftarrow> gc_write_page f1 (at_pg a pg);
          Some (f2, cnt + 1)
        }
        else Some (f, cnt) }) [0..<pgs_per_blk (cf_sp f)] (f, 0 :: int);
     b \<leftarrow> get_blk (cf_ssd f') a;
     nvmev_assert (b_vpc b = cnt);
     Some f'
   }"

definition count_valid_in_flashpg :: "conv_ftl \<Rightarrow> ppa \<Rightarrow> nat option" where
  "count_valid_in_flashpg f a =
     foldM (\<lambda>i cnt. do {
       p \<leftarrow> get_pg (cf_ssd f) (at_pg a (p_pg a + i));
       nvmev_assert (pg_status p \<noteq> PG_FREE);
       Some (if pg_status p = PG_VALID then cnt + 1 else cnt) }) [0..<pgs_per_flashpg (cf_sp f)] 0"

definition clean_one_page :: "ppa \<Rightarrow> nat \<Rightarrow> conv_ftl \<Rightarrow> conv_ftl option" where
  "clean_one_page a i f = do {
     p \<leftarrow> get_pg (cf_ssd f) (at_pg a (p_pg a + i));
     (if pg_status p = PG_VALID then gc_write_page f (at_pg a (p_pg a + i)) else Some f)
   }"

definition clean_one_flashpg :: "conv_ftl \<Rightarrow> ppa \<Rightarrow> conv_ftl option" where
  "clean_one_flashpg f a = do {
     let spp = cf_sp f;
     cnt \<leftarrow> count_valid_in_flashpg f a;
     if cnt = 0 then Some f
     else do {
       f1 \<leftarrow> (if enable_gc_delay (cf_cp f) then nand_op_at f NAND_READ (pgsz spp * cnt) a else Some f);
       foldM (clean_one_page a) [0..<pgs_per_flashpg spp] f1
     }
   }"

definition mark_line_free :: "conv_ftl \<Rightarrow> ppa \<Rightarrow> conv_ftl option" where
  "mark_line_free f a = do {
     lne \<leftarrow> get_line f a;
     let f1 = set_line f (p_blk a) (lne\<lparr>ln_ipc := 0, ln_vpc := 0\<rparr>);
     let lm = cf_lm f1;
     Some (f1\<lparr>cf_lm := lm\<lparr>lm_free := lm_free lm @ [p_blk a], lm_free_cnt := add32 (lm_free_cnt lm) 1\<rparr>\<rparr>)
   }"

text \<open>One iteration of the innermost loop of \<^verbatim>\<open>do_gc\<close>: flash page \<open>flashpg\<close> of die \<open>(ch, lun)\<close>.\<close>

definition gc_one :: "nat \<Rightarrow> nat \<times> nat \<times> nat \<Rightarrow> conv_ftl \<Rightarrow> conv_ftl option" where
  "gc_one blk = (\<lambda>(flashpg, ch, lun) f. do {
     let spp = cf_sp f;
     let a = mk_ppa ch lun 0 blk (flashpg * pgs_per_flashpg spp);
     lunp \<leftarrow> get_lun (cf_ssd f) a;
     f1 \<leftarrow> clean_one_flashpg f a;
     if int flashpg = int (flashpgs_per_blk spp) - 1 then do {
       f2 \<leftarrow> mark_block_free f1 a;
       f3 \<leftarrow> (if enable_gc_delay (cf_cp f) then nand_op_at f2 NAND_ERASE 0 a else Some f2);
       l \<leftarrow> get_lun (cf_ssd f3) a;
       Some (f3\<lparr>cf_ssd := set_lun (cf_ssd f3) a (l\<lparr>l_gc_endtime := l_next_avail l\<rparr>)\<rparr>)
     }
     else Some f1 })"

definition gc_order :: "ssdparams \<Rightarrow> (nat \<times> nat \<times> nat) list" where
  "gc_order spp = List.product [0..<flashpgs_per_blk spp]
     (List.product [0..<nchs spp] [0..<luns_per_ch spp])"

text \<open>The loops leave in \<^verbatim>\<open>ppa\<close> the address of the last die; only its block is used after them.
  The result is the return value of the C function.\<close>

definition do_gc :: "conv_ftl \<Rightarrow> bool \<Rightarrow> (int \<times> conv_ftl) option" where
  "do_gc f force = do {
     (v, f1) \<leftarrow> select_victim_line f force;
     (case v of
        None \<Rightarrow> Some (-1, f1)
      | Some l \<Rightarrow> do {
          lne \<leftarrow> array_read (lm_lines (cf_lm f1)) l;
          let blk = ln_id lne mod 65536;
          let f2 = f1\<lparr>cf_wfc := (cf_wfc f1)\<lparr>credits_to_refill := nat (ln_ipc lne mod 2 ^ 32)\<rparr>\<rparr>;
          f3 \<leftarrow> foldM (gc_one blk) (gc_order (cf_sp f2)) f2;
          f4 \<leftarrow> mark_line_free f3 (mk_ppa 0 0 0 blk 0);
          Some (0, f4)
        })
   }"

definition forground_gc :: "conv_ftl \<Rightarrow> conv_ftl option" where
  "forground_gc f =
    (if should_gc_high f then do { (_, f') \<leftarrow> do_gc f True; Some f' } else Some f)"

definition check_and_refill_write_credit :: "conv_ftl \<Rightarrow> conv_ftl option" where
  "check_and_refill_write_credit f =
    (if write_credits (cf_wfc f) \<le> 0 then do {
       f' \<leftarrow> forground_gc f;
       let w = cf_wfc f';
       Some (f'\<lparr>cf_wfc := w\<lparr>write_credits := add32 (write_credits w) (credits_to_refill w)\<rparr>\<rparr>)
     }
     else Some f)"

section \<open>Writing one page\<close>

text \<open>The part of the write loop that concerns one logical page: the old page is
  invalidated, the page under the user write pointer becomes its new location.\<close>

definition invalidate_lpn :: "conv_ftl \<Rightarrow> nat \<Rightarrow> conv_ftl option" where
  "invalidate_lpn f lpn = do {
     a \<leftarrow> get_maptbl_ent f lpn;
     (if mapped_ppa a then do { f1 \<leftarrow> mark_page_invalid f a; set_rmap_ent f1 INVALID_LPN a }
      else Some f)
   }"

definition remap_lpn :: "conv_ftl \<Rightarrow> nat \<Rightarrow> (conv_ftl \<times> ppa) option" where
  "remap_lpn f lpn = do { f1 \<leftarrow> invalidate_lpn f lpn; place_lpn f1 USER_IO lpn }"

section \<open>The lines as clients of the victim queue\<close>

lemma victim_pri_roundtrip:
  fixes p :: u64
  assumes "p < 2 ^ 31"
  shows "(of_int (sint (ucast p :: u32)) :: u64) = p"
proof -
  have p: "uint p < 2 ^ 31" using assms unfolding word_less_iff_unsigned[where ?'a = int] by simp
  have "uint (ucast p :: u32) = take_bit 32 (uint p)"
    by (simp add: unsigned_ucast_eq unsigned_take_bit_eq)
  also have "\<dots> = uint p" using p by (intro take_bit_int_eq_self) auto
  finally have u: "uint (ucast p :: u32) = uint p" .
  have "sint (ucast p :: u32) = signed_take_bit 31 (uint p)" by (simp add: sint_uint u)
  also have "\<dots> = uint p" using p by (intro signed_take_bit_int_eq_self) (auto intro: order_trans[of _ 0])
  finally show ?thesis by simp
qed

interpretation vpq: pqueue_client victim_ops "\<lambda>ls i. i < length ls" "\<lambda>p. p < 2 ^ 31"
  "map (\<lambda>l. l\<lparr>ln_pos := 0\<rparr>)"
proof unfold_locales
  fix s :: "line list" and e p x
  show "getpri victim_ops (setpos victim_ops s e p) x = getpri victim_ops s x"
    by (cases "e < length s")
       (auto simp: victim_ops_def victim_line_get_pri_def victim_line_set_pos_def nth_list_update not_less list_update_beyond)
  show "map (\<lambda>l. l\<lparr>ln_pos := 0\<rparr>) (setpos victim_ops s e p) = map (\<lambda>l. l\<lparr>ln_pos := 0\<rparr>) s"
    by (cases "e < length s")
       (auto simp: victim_ops_def victim_line_set_pos_def list_eq_iff_nth_eq nth_list_update not_less list_update_beyond)
next
  fix s :: "line list" and e p x
  assume "e < length s"
  then show "getpos victim_ops (setpos victim_ops s e p) x = (if x = e then p else getpos victim_ops s x)"
    by (auto simp: victim_ops_def victim_line_get_pos_def victim_line_set_pos_def nth_list_update)
next
  fix s :: "line list" and e x and r :: u64
  assume "e < length s" "r < 2 ^ 31"
  then show "getpri victim_ops (setpri victim_ops s e r) x = (if x = e then r else getpri victim_ops s x)"
    using victim_pri_roundtrip[of r]
    by (simp add: victim_ops_def victim_line_get_pri_def victim_line_set_pri_def nth_list_update)
next
  fix s :: "line list" and e x and r :: u64
  show "getpos victim_ops (setpri victim_ops s e r) x = getpos victim_ops s x"
    by (cases "e < length s")
       (auto simp: victim_ops_def victim_line_get_pos_def victim_line_set_pri_def nth_list_update not_less list_update_beyond)
qed (auto simp: victim_ops_def victim_line_cmp_pri_def victim_line_set_pos_def victim_line_set_pri_def)

end
