(* ===== verification/Conv_Inv.thy ===== *)
theory Conv_Inv
  imports Conv_Ftl
begin

text \<open>
  The invariant of the page-mapped translation layer and the lemmas about its parts: page
  addresses and their index in the reverse map, page counts of blocks and lines,
  the two mapping tables, the partition of the lines, and the victim queue.
\<close>

section \<open>Arithmetic of mixed radix positions\<close>

lemma radix_inj:
  assumes "x * n + y = x' * n + y'" "y < n" "y' < (n :: nat)"
  shows "x = x'" "y = y'"
proof -
  have "(x * n + y) div n = x" using assms(2) by simp
  moreover have "(x' * n + y') div n = x'" using assms(3) by simp
  ultimately show "x = x'" using assms(1) by simp
  then show "y = y'" using assms(1) by simp
qed

lemma radix_less:
  assumes "x < m" "y < (n :: nat)"
  shows "x * n + y < m * n"
proof -
  have "x * n + y < Suc x * n" using assms(2) by simp
  also have "\<dots> \<le> m * n" using assms(1) by (intro mult_le_mono1) simp
  finally show ?thesis .
qed

section \<open>Geometry and addresses\<close>

definition geo_ok :: "ssdparams \<Rightarrow> bool" where
  "geo_ok spp \<longleftrightarrow> 0 < nchs spp \<and> nchs spp \<le> 256 \<and> 0 < luns_per_ch spp \<and> luns_per_ch spp \<le> 256 \<and>
     pls_per_lun spp = 1 \<and> 0 < blks_per_pl spp \<and> blks_per_pl spp \<le> 65536 \<and>
     0 < pgs_per_oneshotpg spp \<and> 0 < pgs_per_blk spp \<and> pgs_per_blk spp \<le> 65536 \<and>
     pgs_per_blk spp = pgs_per_oneshotpg spp * oneshotpgs_per_blk spp \<and>
     pgs_per_blk spp = flashpgs_per_blk spp * pgs_per_flashpg spp \<and> 0 < pgsz spp \<and>
     pgs_per_line spp = nchs spp * luns_per_ch spp * pgs_per_blk spp \<and>
     pgs_per_line spp < 2 ^ 31 \<and> tt_lines spp = blks_per_pl spp \<and>
     pgs_per_pl spp = pgs_per_blk spp * blks_per_pl spp \<and> pgs_per_lun spp = pgs_per_pl spp \<and>
     pgs_per_ch spp = pgs_per_lun spp * luns_per_ch spp \<and> tt_pgs spp = pgs_per_ch spp * nchs spp"

definition addr_ok :: "ssdparams \<Rightarrow> ppa \<Rightarrow> bool" where
  "addr_ok spp a \<longleftrightarrow> p_ch a < nchs spp \<and> p_lun a < luns_per_ch spp \<and> p_pl a = 0 \<and>
     p_blk a < blks_per_pl spp \<and> p_pg a < pgs_per_blk spp \<and> p_rsv a = 0"

definition pgidx :: "ssdparams \<Rightarrow> ppa \<Rightarrow> nat" where
  "pgidx spp a =
    ((p_ch a * luns_per_ch spp + p_lun a) * blks_per_pl spp + p_blk a) * pgs_per_blk spp + p_pg a"

lemma pgidx_less:
  assumes "geo_ok spp" "addr_ok spp a"
  shows "pgidx spp a < tt_pgs spp"
proof -
  have "pgidx spp a < nchs spp * luns_per_ch spp * blks_per_pl spp * pgs_per_blk spp"
    using assms(2) unfolding pgidx_def addr_ok_def by (intro radix_less) auto
  then show ?thesis using assms(1) by (simp add: geo_ok_def algebra_simps)
qed

lemma pgidx_inj:
  assumes "addr_ok spp a" "addr_ok spp b" "pgidx spp a = pgidx spp b"
  shows "a = b"
proof -
  note r1 = radix_inj[OF assms(3)[unfolded pgidx_def]]
  have pg: "p_pg a = p_pg b" and e1: "(p_ch a * luns_per_ch spp + p_lun a) * blks_per_pl spp + p_blk a =
      (p_ch b * luns_per_ch spp + p_lun b) * blks_per_pl spp + p_blk b"
    using r1 assms(1,2) by (auto simp: addr_ok_def)
  have blk: "p_blk a = p_blk b" and e2: "p_ch a * luns_per_ch spp + p_lun a = p_ch b * luns_per_ch spp + p_lun b"
    using radix_inj[OF e1] assms(1,2) by (auto simp: addr_ok_def)
  have "p_ch a = p_ch b" "p_lun a = p_lun b"
    using radix_inj[OF e2] assms(1,2) by (auto simp: addr_ok_def)
  then show ?thesis using pg blk assms(1,2) by (simp add: addr_ok_def)
qed

lemma ppa2pgidx_eq:
  assumes "geo_ok (cf_sp f)" "addr_ok (cf_sp f) a"
  shows "ppa2pgidx f a = Some (pgidx (cf_sp f) a)"
proof -
  have "p_ch a * pgs_per_ch (cf_sp f) + p_lun a * pgs_per_lun (cf_sp f) +
      p_pl a * pgs_per_pl (cf_sp f) + p_blk a * pgs_per_blk (cf_sp f) + p_pg a = pgidx (cf_sp f) a"
    using assms by (simp add: geo_ok_def addr_ok_def pgidx_def algebra_simps)
  then show ?thesis using pgidx_less[OF assms] by (simp add: ppa2pgidx_def)
qed

lemma addr_ok_mapped: "addr_ok spp a \<Longrightarrow> a \<noteq> UNMAPPED_PPA"
  by (auto simp: addr_ok_def UNMAPPED_PPA_def)

lemma addr_ok_blk_in: "geo_ok spp \<Longrightarrow> addr_ok spp a \<Longrightarrow> blk_in spp a \<and> lun_in spp a"
  by (auto simp: addr_ok_def blk_in_def lun_in_def geo_ok_def)

lemma mk_ppa_addr_ok:
  assumes "geo_ok spp" "ch < nchs spp" "lun < luns_per_ch spp" "blk < blks_per_pl spp" "pg < pgs_per_blk spp"
  shows "addr_ok spp (mk_ppa ch lun 0 blk pg)"
    and "mk_ppa ch lun 0 blk pg = \<lparr>p_pg = pg, p_blk = blk, p_pl = 0, p_lun = lun, p_ch = ch, p_rsv = 0\<rparr>"
  using assms by (auto simp: addr_ok_def mk_ppa_def geo_ok_def)

lemma addr_ok_eq_mk_ppa:
  assumes "geo_ok spp" "addr_ok spp a"
  shows "a = mk_ppa (p_ch a) (p_lun a) 0 (p_blk a) (p_pg a)"
proof -
  have "mk_ppa (p_ch a) (p_lun a) 0 (p_blk a) (p_pg a) =
      \<lparr>p_pg = p_pg a, p_blk = p_blk a, p_pl = 0, p_lun = p_lun a, p_ch = p_ch a, p_rsv = 0\<rparr>"
    using assms by (intro mk_ppa_addr_ok(2)) (auto simp: addr_ok_def)
  then show ?thesis using assms(2) by (simp add: addr_ok_def)
qed

definition line_pages :: "ssdparams \<Rightarrow> nat \<Rightarrow> ppa set" where
  "line_pages spp l = {a. addr_ok spp a \<and> p_blk a = l}"

definition block_pages :: "ssdparams \<Rightarrow> blk_addr \<Rightarrow> ppa set" where
  "block_pages spp k = {a. addr_ok spp a \<and> blk_of a = k}"

abbreviation all_pages :: "ssdparams \<Rightarrow> ppa set" where
  "all_pages spp \<equiv> {a. addr_ok spp a}"

lemma line_pages_card:
  assumes "geo_ok spp" "l < blks_per_pl spp"
  shows "finite (line_pages spp l) \<and> card (line_pages spp l) = pgs_per_line spp"
proof -
  let ?A = "{..<nchs spp} \<times> {..<luns_per_ch spp} \<times> {..<pgs_per_blk spp}"
  let ?g = "\<lambda>(ch, lun, pg). \<lparr>p_pg = pg, p_blk = l, p_pl = 0, p_lun = lun, p_ch = ch, p_rsv = 0\<rparr> :: ppa"
  have "line_pages spp l = ?g ` ?A"
  proof
    show "line_pages spp l \<subseteq> ?g ` ?A"
    proof
      fix a assume "a \<in> line_pages spp l"
      then show "a \<in> ?g ` ?A"
        by (intro image_eqI[of _ _ "(p_ch a, p_lun a, p_pg a)"]) (auto simp: line_pages_def addr_ok_def)
    qed
    show "?g ` ?A \<subseteq> line_pages spp l"
      using assms by (auto simp: line_pages_def addr_ok_def)
  qed
  moreover have "inj_on ?g ?A" by (auto simp: inj_on_def)
  ultimately show ?thesis using assms by (simp add: card_image geo_ok_def)
qed

lemma all_pages_finite: "geo_ok spp \<Longrightarrow> finite (all_pages spp)"
proof -
  assume g: "geo_ok spp"
  have "all_pages spp = (\<Union>l\<in>{..<blks_per_pl spp}. line_pages spp l)"
    by (auto simp: line_pages_def addr_ok_def)
  then show ?thesis using line_pages_card[OF g] by simp
qed

lemma block_pages_card:
  assumes "geo_ok spp" "ch < nchs spp" "lun < luns_per_ch spp" "l < blks_per_pl spp"
  shows "finite (block_pages spp (ch, lun, 0, l)) \<and>
    card (block_pages spp (ch, lun, 0, l)) = pgs_per_blk spp"
proof -
  let ?g = "\<lambda>pg. \<lparr>p_pg = pg, p_blk = l, p_pl = 0, p_lun = lun, p_ch = ch, p_rsv = 0\<rparr> :: ppa"
  have "block_pages spp (ch, lun, 0, l) = ?g ` {..<pgs_per_blk spp}"
  proof
    show "block_pages spp (ch, lun, 0, l) \<subseteq> ?g ` {..<pgs_per_blk spp}"
    proof
      fix a assume "a \<in> block_pages spp (ch, lun, 0, l)"
      then show "a \<in> ?g ` {..<pgs_per_blk spp}"
        by (intro image_eqI[of _ _ "p_pg a"]) (auto simp: block_pages_def addr_ok_def)
    qed
  qed (use assms in \<open>auto simp: block_pages_def addr_ok_def\<close>)
  moreover have "inj_on ?g {..<pgs_per_blk spp}" by (auto simp: inj_on_def)
  ultimately show ?thesis by (simp add: card_image)
qed

section \<open>Page status and counts\<close>

type_synonym blocks = "blk_addr \<Rightarrow> nand_block"

definition st :: "blocks \<Rightarrow> ppa \<Rightarrow> page_status" where
  "st B a = pg_status (b_pg (B (blk_of a)) ! p_pg a)"

definition count_in :: "blocks \<Rightarrow> page_status \<Rightarrow> ppa set \<Rightarrow> nat" where
  "count_in B s A = card {a\<in>A. st B a = s}"

definition block_shape :: "ssdparams \<Rightarrow> nand_block \<Rightarrow> bool" where
  "block_shape spp b \<longleftrightarrow> length (b_pg b) = pgs_per_blk spp \<and> b_npgs b = pgs_per_blk spp \<and>
     (\<forall>p\<in>set (b_pg b). pg_nsecs p = secs_per_pg spp)"

definition nand_ok :: "ssdparams \<Rightarrow> blocks \<Rightarrow> bool" where
  "nand_ok spp B \<longleftrightarrow> (\<forall>ch<nchs spp. \<forall>lun<luns_per_ch spp. \<forall>l<blks_per_pl spp.
     let k = (ch, lun, 0, l) in block_shape spp (B k) \<and>
       b_vpc (B k) = int (count_in B PG_VALID (block_pages spp k)) \<and>
       b_ipc (B k) = int (count_in B PG_INVALID (block_pages spp k)))"

lemma nand_okD:
  assumes "nand_ok spp B" "addr_ok spp a"
  shows "block_shape spp (B (blk_of a))"
    "b_vpc (B (blk_of a)) = int (count_in B PG_VALID (block_pages spp (blk_of a)))"
    "b_ipc (B (blk_of a)) = int (count_in B PG_INVALID (block_pages spp (blk_of a)))"
    "p_pg a < length (b_pg (B (blk_of a)))"
  using assms by (auto simp: nand_ok_def addr_ok_def Let_def block_shape_def)

lemma count_in_update:
  assumes "finite A" "\<forall>x\<in>A. st B' x = (if x = a then s1 else st B x)" "st B a = s0" "s0 \<noteq> s1"
  shows "a \<in> A \<Longrightarrow> count_in B' s1 A = Suc (count_in B s1 A)"
    and "a \<in> A \<Longrightarrow> Suc (count_in B' s0 A) = count_in B s0 A"
    and "a \<in> A \<Longrightarrow> s \<noteq> s0 \<Longrightarrow> s \<noteq> s1 \<Longrightarrow> count_in B' s A = count_in B s A"
    and "a \<notin> A \<Longrightarrow> count_in B' s A = count_in B s A"
proof -
  show "count_in B' s1 A = Suc (count_in B s1 A)" if "a \<in> A"
  proof -
    have "{x\<in>A. st B' x = s1} = insert a {x\<in>A. st B x = s1}" using assms(2) that by auto
    moreover have "a \<notin> {x\<in>A. st B x = s1}" using assms by auto
    ultimately show ?thesis using assms(1) by (simp add: count_in_def)
  qed
  show "Suc (count_in B' s0 A) = count_in B s0 A" if "a \<in> A"
  proof -
    have "{x\<in>A. st B x = s0} = insert a {x\<in>A. st B' x = s0}"
      using assms(2-4) that by (auto split: if_splits)
    moreover have "a \<notin> {x\<in>A. st B' x = s0}" using assms(2,4) that by auto
    ultimately show ?thesis using assms(1) by (simp add: count_in_def)
  qed
  show "count_in B' s A = count_in B s A" if "a \<in> A" "s \<noteq> s0" "s \<noteq> s1"
  proof -
    have "{x\<in>A. st B' x = s} = {x\<in>A. st B x = s}" using assms(2-4) that by auto
    then show ?thesis by (simp add: count_in_def)
  qed
  show "count_in B' s A = count_in B s A" if "a \<notin> A"
  proof -
    have "{x\<in>A. st B' x = s} = {x\<in>A. st B x = s}" using assms(2) that by auto
    then show ?thesis by (simp add: count_in_def)
  qed
qed

lemma count_in_cong:
  "(\<And>x. x \<in> A \<Longrightarrow> st B' x = st B x) \<Longrightarrow> count_in B' s A = count_in B s A"
  unfolding count_in_def by (rule arg_cong[where f = card]) auto

lemma count_in_le: "finite A \<Longrightarrow> count_in B s A \<le> card A"
  unfolding count_in_def by (intro card_mono) auto

lemma count_in_total:
  assumes "finite A"
  shows "count_in B PG_VALID A + count_in B PG_INVALID A + count_in B PG_FREE A = card A"
proof -
  let ?S = "\<lambda>s. {a\<in>A. st B a = s}"
  have "A = ?S PG_VALID \<union> ?S PG_INVALID \<union> ?S PG_FREE"
    using page_status.exhaust by auto
  moreover have "card (?S PG_VALID \<union> ?S PG_INVALID \<union> ?S PG_FREE) =
      card (?S PG_VALID) + card (?S PG_INVALID) + card (?S PG_FREE)"
    using assms by (subst card_Un_disjoint; (subst card_Un_disjoint)?) auto
  ultimately show ?thesis by (simp add: count_in_def)
qed

lemma count_in_pos: "finite A \<Longrightarrow> a \<in> A \<Longrightarrow> st B a = s \<Longrightarrow> 0 < count_in B s A"
  unfolding count_in_def by (subst card_gt_0_iff) auto

lemma count_in_zeroD: "finite A \<Longrightarrow> count_in B s A = 0 \<Longrightarrow> a \<in> A \<Longrightarrow> st B a \<noteq> s"
  using count_in_pos[of A a B s] by auto

text \<open>Changing the status of one page, as the two marking functions do.\<close>

definition restatus :: "blocks \<Rightarrow> ppa \<Rightarrow> page_status \<Rightarrow> int \<Rightarrow> int \<Rightarrow> blocks" where
  "restatus B a s di dv = B(blk_of a := (set_page_status (B (blk_of a)) (p_pg a) s)
     \<lparr>b_ipc := b_ipc (B (blk_of a)) + di, b_vpc := b_vpc (B (blk_of a)) + dv\<rparr>)"

lemma restatus_other: "k \<noteq> blk_of a \<Longrightarrow> restatus B a s di dv k = B k"
  unfolding restatus_def by (rule fun_upd_other)

lemma st_restatus:
  assumes "nand_ok spp B" "addr_ok spp a" "addr_ok spp x"
  shows "st (restatus B a s di dv) x = (if x = a then s else st B x)"
proof (cases "blk_of x = blk_of a")
  case True
  have "p_pg x = p_pg a \<longleftrightarrow> x = a"
    using assms True by (auto simp: addr_ok_def)
  then show ?thesis
    using True nand_okD(4)[OF assms(1,2)]
    by (auto simp: st_def restatus_def set_page_status_def nth_list_update)
next
  case False
  then have "x \<noteq> a" by auto
  then show ?thesis using False by (auto simp: st_def restatus_def)
qed

lemma nand_ok_restatus:
  assumes g: "geo_ok spp" and ok: "nand_ok spp B" and a: "addr_ok spp a" and s: "st B a = s0" "s0 \<noteq> s1"
    and d: "di = (if s1 = PG_INVALID then 1 else 0) - (if s0 = PG_INVALID then 1 else 0)"
      "dv = (if s1 = PG_VALID then 1 else 0) - (if s0 = PG_VALID then 1 else 0)"
  shows "nand_ok spp (restatus B a s1 di dv)"
  unfolding nand_ok_def Let_def
proof (intro allI impI)
  fix ch lun l assume i: "ch < nchs spp" "lun < luns_per_ch spp" "l < blks_per_pl spp"
  let ?k = "(ch, lun, 0, l)" and ?B = "restatus B a s1 di dv"
  let ?A = "block_pages spp ?k"
  have old: "block_shape spp (B ?k)" "b_vpc (B ?k) = int (count_in B PG_VALID ?A)"
    "b_ipc (B ?k) = int (count_in B PG_INVALID ?A)"
    using ok i by (auto simp: nand_ok_def Let_def)
  have fin: "finite ?A" using block_pages_card[OF g i] by simp
  have upd: "\<forall>x\<in>?A. st ?B x = (if x = a then s1 else st B x)"
    using st_restatus[OF ok a] by (simp add: block_pages_def)
  note cnt = count_in_update[OF fin upd s]
  have shape: "block_shape spp (?B ?k)"
  proof (cases "?k = blk_of a")
    case True
    have "p_pg a < length (b_pg (B ?k))" using nand_okD(4)[OF ok a] True by simp
    then have "set ((b_pg (B ?k))[p_pg a := (b_pg (B ?k) ! p_pg a)\<lparr>pg_status := s1\<rparr>]) \<subseteq>
        insert ((b_pg (B ?k) ! p_pg a)\<lparr>pg_status := s1\<rparr>) (set (b_pg (B ?k)))"
      by (intro set_update_subset_insert)
    then show ?thesis
      using old(1) True \<open>p_pg a < length _\<close>
      by (fastforce simp: restatus_def block_shape_def set_page_status_def)
  next
    case False
    then have "?B ?k = B ?k" by (rule restatus_other)
    then show ?thesis using old by simp
  qed
  have "b_vpc (?B ?k) = int (count_in ?B PG_VALID ?A) \<and> b_ipc (?B ?k) = int (count_in ?B PG_INVALID ?A)"
  proof (cases "a \<in> ?A")
    case True
    then have "blk_of a = ?k" by (simp add: block_pages_def)
    then have "b_vpc (?B ?k) = b_vpc (B ?k) + dv" "b_ipc (?B ?k) = b_ipc (B ?k) + di"
      by (auto simp: restatus_def)
    then show ?thesis
      using old cnt(1,2)[OF True] cnt(3)[OF True] d s(2)
      by (cases s0; cases s1) auto
  next
    case False
    then have "?k \<noteq> blk_of a" using a i by (auto simp: block_pages_def)
    then have "?B ?k = B ?k" by (rule restatus_other)
    then show ?thesis using old cnt(4)[OF False] by simp
  qed
  then show "block_shape spp (?B ?k) \<and> b_vpc (?B ?k) = int (count_in ?B PG_VALID ?A) \<and>
      b_ipc (?B ?k) = int (count_in ?B PG_INVALID ?A)" using shape by simp
qed

section \<open>The parts of the invariant\<close>

text \<open>The two tables agree.  \<open>dead\<close> holds pages that garbage collection has already copied
  and not yet erased, \<open>X\<close> logical pages that are being moved right now.\<close>

definition map_ok :: "ssdparams \<Rightarrow> blocks \<Rightarrow> ppa set \<Rightarrow> nat set \<Rightarrow> ppa list \<Rightarrow> nat list \<Rightarrow> bool" where
  "map_ok spp B dead X maptbl rmap \<longleftrightarrow> length maptbl = tt_pgs spp \<and> length rmap = tt_pgs spp \<and>
     (\<forall>lpn<tt_pgs spp. lpn \<notin> X \<longrightarrow> maptbl ! lpn \<noteq> UNMAPPED_PPA \<longrightarrow>
        addr_ok spp (maptbl ! lpn) \<and> st B (maptbl ! lpn) = PG_VALID \<and> maptbl ! lpn \<notin> dead \<and>
        rmap ! pgidx spp (maptbl ! lpn) = lpn) \<and>
     (\<forall>a. addr_ok spp a \<longrightarrow> st B a = PG_VALID \<longrightarrow> a \<notin> dead \<longrightarrow>
        rmap ! pgidx spp a < tt_pgs spp \<and> rmap ! pgidx spp a \<notin> X \<and> maptbl ! (rmap ! pgidx spp a) = a)"

text \<open>The counts of every line but the one in transit are the counts of its pages.\<close>

definition lines_ok :: "ssdparams \<Rightarrow> blocks \<Rightarrow> nat set \<Rightarrow> line list \<Rightarrow> bool" where
  "lines_ok spp B tr ls \<longleftrightarrow> length ls = tt_lines spp \<and>
     (\<forall>l<tt_lines spp. ln_id (ls ! l) = l \<and> (l \<notin> tr \<longrightarrow>
        ln_vpc (ls ! l) = int (count_in B PG_VALID (line_pages spp l)) \<and>
        ln_ipc (ls ! l) = int (count_in B PG_INVALID (line_pages spp l))))"

text \<open>Every line is free, full, a victim, under one of the write pointers, or in transit.\<close>

definition part_sets :: "nat \<Rightarrow> nat set \<Rightarrow> nat \<Rightarrow> nat \<Rightarrow> line_mgmt \<Rightarrow> bool" where
  "part_sets n tr wl gl lm \<longleftrightarrow>
     distinct (lm_free lm @ lm_full lm @ [wl, gl]) \<and>
     pq_elems (lm_victim_pq lm) \<inter> set (lm_free lm @ lm_full lm @ [wl, gl]) = {} \<and>
     tr \<inter> (pq_elems (lm_victim_pq lm) \<union> set (lm_free lm @ lm_full lm @ [wl, gl])) = {} \<and>
     pq_elems (lm_victim_pq lm) \<union> set (lm_free lm @ lm_full lm @ [wl, gl]) \<union> tr = {..<n}"

definition part_counts :: "nat \<Rightarrow> line_mgmt \<Rightarrow> bool" where
  "part_counts n lm \<longleftrightarrow> lm_tt_lines lm = n \<and> lm_free_cnt lm = length (lm_free lm) \<and>
     lm_full_cnt lm = length (lm_full lm) \<and> lm_victim_cnt lm = card (pq_elems (lm_victim_pq lm))"

definition part_status :: "ssdparams \<Rightarrow> blocks \<Rightarrow> line_mgmt \<Rightarrow> bool" where
  "part_status spp B lm \<longleftrightarrow>
     (\<forall>l\<in>set (lm_free lm). \<forall>a\<in>line_pages spp l. st B a = PG_FREE) \<and>
     (\<forall>l\<in>set (lm_full lm). \<forall>a\<in>line_pages spp l. st B a = PG_VALID) \<and>
     (\<forall>l\<in>pq_elems (lm_victim_pq lm). \<forall>a\<in>line_pages spp l. st B a \<noteq> PG_FREE) \<and>
     (\<forall>l\<in>pq_elems (lm_victim_pq lm). \<exists>a\<in>line_pages spp l. st B a = PG_INVALID)"

definition part_ok :: "ssdparams \<Rightarrow> blocks \<Rightarrow> nat set \<Rightarrow> nat \<Rightarrow> nat \<Rightarrow> line_mgmt \<Rightarrow> bool" where
  "part_ok spp B tr wl gl lm \<longleftrightarrow> part_sets (tt_lines spp) tr wl gl lm \<and>
     part_counts (tt_lines spp) lm \<and> part_status spp B lm"

definition queue_ok :: "ssdparams \<Rightarrow> line_mgmt \<Rightarrow> bool" where
  "queue_ok spp lm \<longleftrightarrow> vpq.pq_inv (lm_lines lm) (lm_victim_pq lm) \<and>
     pq_avail (lm_victim_pq lm) = tt_lines spp + 1 \<and>
     (\<forall>l<tt_lines spp. ln_pos (lm_lines lm ! l) \<noteq> 0 \<longleftrightarrow> l \<in> pq_elems (lm_victim_pq lm))"

abbreviation blks_of :: "conv_ftl \<Rightarrow> blocks" where
  "blks_of f \<equiv> ssd_blk (cf_ssd f)"

definition core :: "ppa set \<Rightarrow> nat set \<Rightarrow> nat set \<Rightarrow> conv_ftl \<Rightarrow> bool" where
  "core dead X tr f \<longleftrightarrow> geo_ok (cf_sp f) \<and> ssd_ok (cf_ssd f) \<and> nand_ok (cf_sp f) (blks_of f) \<and>
     map_ok (cf_sp f) (blks_of f) dead X (cf_maptbl f) (cf_rmap f) \<and>
     lines_ok (cf_sp f) (blks_of f) tr (lm_lines (cf_lm f)) \<and>
     part_ok (cf_sp f) (blks_of f) tr (wp_curline (cf_wp f)) (wp_curline (cf_gc_wp f)) (cf_lm f) \<and>
     queue_ok (cf_sp f) (cf_lm f) \<and> (\<forall>d\<in>dead. p_blk d \<in> tr)"

text \<open>The user write pointer: a page of the current line is free exactly when its die's
  counter has not passed it.\<close>

abbreviation die_idx :: "ssdparams \<Rightarrow> nat \<Rightarrow> nat \<Rightarrow> nat" where
  "die_idx spp ch lun \<equiv> ch * luns_per_ch spp + lun"

definition counters_ok :: "ssdparams \<Rightarrow> blocks \<Rightarrow> nat \<Rightarrow> nat list \<Rightarrow> bool" where
  "counters_ok spp B l counter \<longleftrightarrow> length counter = nchs spp * luns_per_ch spp \<and>
     (\<forall>c\<in>set counter. c \<le> pgs_per_blk spp) \<and>
     (\<forall>a\<in>line_pages spp l. st B a = PG_FREE \<longleftrightarrow> counter ! die_idx spp (p_ch a) (p_lun a) \<le> p_pg a)"

definition wp_place_ok :: "ssdparams \<Rightarrow> write_pointer \<Rightarrow> bool" where
  "wp_place_ok spp w \<longleftrightarrow> wp_pl w = 0 \<and> wp_blk w = wp_curline w \<and> wp_blk w < blks_per_pl spp \<and>
     wp_ch w < nchs spp \<and> wp_lun w < luns_per_ch spp \<and> wp_pg w < pgs_per_blk spp"

definition user_ok :: "conv_ftl \<Rightarrow> bool" where
  "user_ok f \<longleftrightarrow> wp_place_ok (cf_sp f) (cf_wp f) \<and>
     counters_ok (cf_sp f) (blks_of f) (wp_curline (cf_wp f)) (cf_page_counter f) \<and>
     wp_pg (cf_wp f) = cf_page_counter f ! die_idx (cf_sp f) (wp_ch (cf_wp f)) (wp_lun (cf_wp f))"

text \<open>The garbage collection pointer fills a line in a fixed order; the rank of a page is its
  place in that order.\<close>

definition gc_rank :: "ssdparams \<Rightarrow> nat \<Rightarrow> nat \<Rightarrow> nat \<Rightarrow> nat" where
  "gc_rank spp ch lun pg =
    (((pg div pgs_per_oneshotpg spp) * luns_per_ch spp + lun) * nchs spp + ch) * pgs_per_oneshotpg spp +
      pg mod pgs_per_oneshotpg spp"

definition gc_fill :: "ssdparams \<Rightarrow> blocks \<Rightarrow> nat \<Rightarrow> nat \<Rightarrow> bool" where
  "gc_fill spp B l r \<longleftrightarrow>
     (\<forall>a\<in>line_pages spp l. st B a = PG_FREE \<longleftrightarrow> r \<le> gc_rank spp (p_ch a) (p_lun a) (p_pg a))"

abbreviation gc_wp_rank :: "conv_ftl \<Rightarrow> nat" where
  "gc_wp_rank f \<equiv> gc_rank (cf_sp f) (wp_ch (cf_gc_wp f)) (wp_lun (cf_gc_wp f)) (wp_pg (cf_gc_wp f))"

definition gc_ok :: "conv_ftl \<Rightarrow> bool" where
  "gc_ok f \<longleftrightarrow> wp_place_ok (cf_sp f) (cf_gc_wp f) \<and>
     gc_fill (cf_sp f) (blks_of f) (wp_curline (cf_gc_wp f)) (gc_wp_rank f)"

definition conv_inv :: "conv_ftl \<Rightarrow> bool" where
  "conv_inv f \<longleftrightarrow> core {} {} {} f \<and> user_ok f \<and> gc_ok f"

end
