(* ===== verification/Conv_Ops.thy ===== *)
theory Conv_Ops
  imports Conv_Inv
begin

text \<open>
  What the operations of the page-mapped translation layer do to the parts of the invariant:
  placing a logical page under a write pointer, invalidating its old page, and advancing the
  two write pointers.
\<close>

lemma geo_small:
  assumes "geo_ok spp"
  shows "pgs_per_line spp < 2 ^ 31" "tt_lines spp = blks_per_pl spp" "tt_lines spp \<le> 65536"
    "0 < pgs_per_line spp"
  using assms by (auto simp: geo_ok_def)

section \<open>Victim queue and single lines\<close>

lemma victim_sel [nvmev_simps]:
  "getpos victim_ops ls k = ln_pos (ls ! k)"
  "getpri victim_ops ls k = of_int (ln_vpc (ls ! k))"
  "setpri victim_ops ls k r = ls[k := (ls ! k)\<lparr>ln_vpc := sint (ucast r :: u32)\<rparr>]"
  by (simp_all add: victim_ops_def victim_line_get_pos_def victim_line_get_pri_def victim_line_set_pri_def)

lemma queue_ok_set_line:
  assumes "queue_ok spp lm" "l \<notin> pq_elems (lm_victim_pq lm)" "ln_pos x = ln_pos (lm_lines lm ! l)"
  shows "queue_ok spp (lm\<lparr>lm_lines := (lm_lines lm)[l := x]\<rparr>)"
proof -
  have inv: "vpq.pq_inv (lm_lines lm) (lm_victim_pq lm)" using assms(1) by (simp add: queue_ok_def)
  have el: "e < length (lm_lines lm)" if "e \<in> pq_elems (lm_victim_pq lm)" for e
    using inv that by (auto simp: vpq.pq_inv_def pq_elems_def)
  have "vpq.pq_inv ((lm_lines lm)[l := x]) (lm_victim_pq lm)"
  proof (rule vpq.pq_inv_cong[OF inv])
    fix e assume e: "e \<in> pq_elems (lm_victim_pq lm)"
    then have "e \<noteq> l" using assms(2) by auto
    then show "e < length ((lm_lines lm)[l := x]) \<and>
        getpos victim_ops ((lm_lines lm)[l := x]) e = getpos victim_ops (lm_lines lm) e \<and>
        getpri victim_ops ((lm_lines lm)[l := x]) e = getpri victim_ops (lm_lines lm) e"
      using el[OF e] by (simp add: victim_sel)
  qed
  moreover have "ln_pos ((lm_lines lm)[l := x] ! k) = ln_pos (lm_lines lm ! k)" for k
    using assms(3) by (cases "l < length (lm_lines lm)")
      (auto simp: nth_list_update not_less list_update_beyond)
  ultimately show ?thesis using assms(1) by (simp add: queue_ok_def)
qed

lemma queue_ok_cong:
  assumes "queue_ok spp lm" "lm_lines lm' = lm_lines lm" "lm_victim_pq lm' = lm_victim_pq lm"
  shows "queue_ok spp lm'"
  using assms by (simp add: queue_ok_def)

text \<open>Only one line's pages change their status.\<close>

definition only_line :: "ssdparams \<Rightarrow> nat \<Rightarrow> blocks \<Rightarrow> blocks \<Rightarrow> bool" where
  "only_line spp l B B' \<longleftrightarrow> (\<forall>a. addr_ok spp a \<longrightarrow> p_blk a \<noteq> l \<longrightarrow> st B' a = st B a)"

lemma only_line_pages: "only_line spp l B B' \<Longrightarrow> l' \<noteq> l \<Longrightarrow> a \<in> line_pages spp l' \<Longrightarrow> st B' a = st B a"
  by (auto simp: only_line_def line_pages_def)

lemma only_line_count:
  "only_line spp l B B' \<Longrightarrow> l' \<noteq> l \<Longrightarrow> count_in B' s (line_pages spp l') = count_in B s (line_pages spp l')"
  by (rule count_in_cong) (rule only_line_pages)

abbreviation settled :: "line_mgmt \<Rightarrow> nat set" where
  "settled lm \<equiv> set (lm_free lm) \<union> set (lm_full lm) \<union> pq_elems (lm_victim_pq lm)"

lemma part_status_cong:
  assumes "part_status spp B lm" "\<And>l a. l \<in> settled lm \<Longrightarrow> a \<in> line_pages spp l \<Longrightarrow> st B' a = st B a"
  shows "part_status spp B' lm"
proof -
  have "\<exists>a\<in>line_pages spp l. st B' a = PG_INVALID" if l: "l \<in> pq_elems (lm_victim_pq lm)" for l
  proof -
    obtain a where "a \<in> line_pages spp l" "st B a = PG_INVALID"
      using assms(1) l unfolding part_status_def by blast
    then show ?thesis using assms(2)[of l a] l by auto
  qed
  moreover have "st B' a = PG_FREE" if "l \<in> set (lm_free lm)" "a \<in> line_pages spp l" for l a
    using assms(1) assms(2)[of l a] that by (auto simp: part_status_def)
  moreover have "st B' a = PG_VALID" if "l \<in> set (lm_full lm)" "a \<in> line_pages spp l" for l a
    using assms(1) assms(2)[of l a] that by (auto simp: part_status_def)
  moreover have "st B' a \<noteq> PG_FREE" if "l \<in> pq_elems (lm_victim_pq lm)" "a \<in> line_pages spp l" for l a
    using assms(1) assms(2)[of l a] that by (auto simp: part_status_def)
  ultimately show ?thesis unfolding part_status_def by blast
qed

lemma settled_other:
  "part_sets n tr wl gl lm \<Longrightarrow> l \<in> settled lm \<Longrightarrow> l \<noteq> wl \<and> l \<noteq> gl \<and> l \<notin> tr"
  unfolding part_sets_def by auto

lemma part_ok_status:
  assumes "part_ok spp B tr wl gl lm" "only_line spp l B B'" "l \<in> {wl, gl} \<union> tr"
  shows "part_ok spp B' tr wl gl lm"
proof -
  have "part_status spp B' lm"
  proof (rule part_status_cong)
    show "part_status spp B lm" using assms(1) by (simp add: part_ok_def)
    fix k a assume k: "k \<in> settled lm" and a: "a \<in> line_pages spp k"
    have "k \<noteq> l" using settled_other[OF _ k] assms(1,3) by (auto simp: part_ok_def)
    then show "st B' a = st B a" using only_line_pages[OF assms(2) _ a] by simp
  qed
  then show ?thesis using assms(1) by (simp add: part_ok_def)
qed

lemma part_ok_lines_irrelevant [simp]:
  "part_ok spp B tr wl gl (lm\<lparr>lm_lines := ls\<rparr>) = part_ok spp B tr wl gl lm"
  by (simp add: part_ok_def part_sets_def part_counts_def part_status_def)

section \<open>Marking a page valid\<close>

lemma line_lt: "geo_ok spp \<Longrightarrow> addr_ok spp a \<Longrightarrow> p_blk a < tt_lines spp"
  by (simp add: geo_ok_def addr_ok_def)

lemma page_in_sets:
  assumes "addr_ok spp a"
  shows "a \<in> line_pages spp (p_blk a)" "a \<in> block_pages spp (blk_of a)"
  using assms by (auto simp: line_pages_def block_pages_def)

lemma line_pages_fin:
  assumes "geo_ok spp" "addr_ok spp a"
  shows "finite (line_pages spp (p_blk a))" "card (line_pages spp (p_blk a)) = pgs_per_line spp"
  using line_pages_card[OF assms(1), of "p_blk a"] assms(2) by (auto simp: addr_ok_def)

lemma block_pages_fin:
  assumes "geo_ok spp" "addr_ok spp a"
  shows "finite (block_pages spp (blk_of a))" "card (block_pages spp (blk_of a)) = pgs_per_blk spp"
  using block_pages_card[OF assms(1), of "p_ch a" "p_lun a" "p_blk a"] assms(2) by (auto simp: addr_ok_def)

lemma count_less:
  assumes "finite A" "a \<in> A" "st B a \<noteq> s"
  shows "count_in B s A < card A"
  unfolding count_in_def using assms by (intro psubset_card_mono) auto

lemma get_pg_ok:
  assumes "geo_ok (ssd_sp s)" "nand_ok (ssd_sp s) (ssd_blk s)" "addr_ok (ssd_sp s) a"
  shows "get_blk s a = Some (ssd_blk s (blk_of a))"
    "\<exists>p. get_pg s a = Some p \<and> pg_status p = st (ssd_blk s) a"
  using assms nand_okD(4)[OF assms(2,3)] addr_ok_blk_in[OF assms(1,3)]
  by (auto simp: get_blk_def get_pg_def st_def)

definition bump_valid :: "conv_ftl \<Rightarrow> ppa \<Rightarrow> conv_ftl" where
  "bump_valid f a = f\<lparr>cf_ssd := (cf_ssd f)\<lparr>ssd_blk := restatus (blks_of f) a PG_VALID 0 1\<rparr>,
     cf_lm := (cf_lm f)\<lparr>lm_lines := (lm_lines (cf_lm f))[p_blk a :=
       (lm_lines (cf_lm f) ! p_blk a)\<lparr>ln_vpc := ln_vpc (lm_lines (cf_lm f) ! p_blk a) + 1\<rparr>]\<rparr>\<rparr>"

lemma mark_page_valid_eq:
  assumes g: "geo_ok (cf_sp f)" and n: "nand_ok (cf_sp f) (blks_of f)"
    and l: "lines_ok (cf_sp f) (blks_of f) tr (lm_lines (cf_lm f))"
    and a: "addr_ok (cf_sp f) a" "p_blk a \<notin> tr" "st (blks_of f) a = PG_FREE"
  shows "mark_page_valid f a = Some (bump_valid f a)"
proof -
  let ?b = "blks_of f (blk_of a)" and ?ln = "lm_lines (cf_lm f) ! p_blk a"
  obtain p where p: "get_pg (cf_ssd f) a = Some p" "pg_status p = PG_FREE"
    using get_pg_ok(2)[OF g n a(1)] a(3) by auto
  have gb: "get_blk (cf_ssd f) a = Some ?b" by (rule get_pg_ok(1)[OF g n a(1)])
  have "count_in (blks_of f) PG_VALID (block_pages (cf_sp f) (blk_of a)) < pgs_per_blk (cf_sp f)"
    using count_less[OF block_pages_fin(1)[OF g a(1)] page_in_sets(2)[OF a(1)]] a(3)
      block_pages_fin(2)[OF g a(1)] by simp
  then have bv: "0 \<le> b_vpc ?b" "b_vpc ?b < int (pgs_per_blk (cf_sp f))"
    using nand_okD(2)[OF n a(1)] by auto
  have len: "p_blk a < length (lm_lines (cf_lm f))"
    using l line_lt[OF g a(1)] by (simp add: lines_ok_def)
  have "count_in (blks_of f) PG_VALID (line_pages (cf_sp f) (p_blk a)) < pgs_per_line (cf_sp f)"
    using count_less[OF line_pages_fin(1)[OF g a(1)] page_in_sets(1)[OF a(1)]] a(3)
      line_pages_fin(2)[OF g a(1)] by simp
  then have lv: "0 \<le> ln_vpc ?ln" "ln_vpc ?ln < int (pgs_per_line (cf_sp f))"
    using l line_lt[OF g a(1)] a(2) by (auto simp: lines_ok_def)
  have upd: "(set_page_status ?b (p_pg a) PG_VALID)\<lparr>b_vpc := b_vpc ?b + 1\<rparr> =
      (set_page_status ?b (p_pg a) PG_VALID)\<lparr>b_ipc := b_ipc ?b + 0, b_vpc := b_vpc ?b + 1\<rparr>"
    by (simp add: set_page_status_def)
  show ?thesis
    unfolding mark_page_valid_def
    using p gb bv len lv upd
    by (simp add: put_blk_def set_blk_def get_line_def set_line_def bump_valid_def restatus_def)
qed

lemma bump_valid_simps [simp]:
  "cf_sp (bump_valid f a) = cf_sp f"
  "blks_of (bump_valid f a) = restatus (blks_of f) a PG_VALID 0 1"
  "cf_maptbl (bump_valid f a) = cf_maptbl f" "cf_rmap (bump_valid f a) = cf_rmap f"
  "cf_wp (bump_valid f a) = cf_wp f" "cf_gc_wp (bump_valid f a) = cf_gc_wp f"
  "cf_wfc (bump_valid f a) = cf_wfc f" "cf_page_counter (bump_valid f a) = cf_page_counter f"
  "cf_cp (bump_valid f a) = cf_cp f"
  "lm_free (cf_lm (bump_valid f a)) = lm_free (cf_lm f)"
  by (simp_all add: bump_valid_def)

lemma lines_ok_bump:
  assumes g: "geo_ok spp" and n: "nand_ok spp B" and l: "lines_ok spp B tr ls"
    and a: "addr_ok spp a" "st B a = PG_FREE"
  shows "lines_ok spp (restatus B a PG_VALID 0 1) tr
    (ls[p_blk a := (ls ! p_blk a)\<lparr>ln_vpc := ln_vpc (ls ! p_blk a) + 1\<rparr>])"
proof -
  let ?B = "restatus B a PG_VALID 0 1"
  have upd: "\<forall>x\<in>line_pages spp k. st ?B x = (if x = a then PG_VALID else st B x)" for k
    using st_restatus[OF n a(1)] by (simp add: line_pages_def)
  have fin: "finite (line_pages spp k)" if "k < tt_lines spp" for k
    using line_pages_card[OF g] that g by (simp add: geo_ok_def)
  have mem: "a \<in> line_pages spp k \<longleftrightarrow> k = p_blk a" for k using a by (auto simp: line_pages_def)
  have "count_in ?B PG_VALID (line_pages spp k) =
        count_in B PG_VALID (line_pages spp k) + (if k = p_blk a then 1 else 0) \<and>
      count_in ?B PG_INVALID (line_pages spp k) = count_in B PG_INVALID (line_pages spp k)"
    if "k < tt_lines spp" for k
    using count_in_update[OF fin[OF that] upd a(2)] mem[of k] by simp
  then show ?thesis
    using l line_lt[OF g a(1)] unfolding lines_ok_def by (simp add: nth_list_update)
qed

section \<open>Placing a logical page\<close>

definition placed :: "conv_ftl \<Rightarrow> nat \<Rightarrow> ppa \<Rightarrow> conv_ftl" where
  "placed f lpn a = bump_valid (f\<lparr>cf_maptbl := (cf_maptbl f)[lpn := a],
     cf_rmap := (cf_rmap f)[pgidx (cf_sp f) a := lpn]\<rparr>) a"

lemma placed_simps [simp]:
  "cf_sp (placed f lpn a) = cf_sp f"
  "blks_of (placed f lpn a) = restatus (blks_of f) a PG_VALID 0 1"
  "cf_maptbl (placed f lpn a) = (cf_maptbl f)[lpn := a]"
  "cf_rmap (placed f lpn a) = (cf_rmap f)[pgidx (cf_sp f) a := lpn]"
  "cf_wp (placed f lpn a) = cf_wp f" "cf_gc_wp (placed f lpn a) = cf_gc_wp f"
  "cf_wfc (placed f lpn a) = cf_wfc f" "cf_page_counter (placed f lpn a) = cf_page_counter f"
  "cf_cp (placed f lpn a) = cf_cp f"
  "lm_free (cf_lm (placed f lpn a)) = lm_free (cf_lm f)"
  by (simp_all add: placed_def)

lemma map_ok_place:
  assumes m: "map_ok spp B dead {lpn} maptbl rmap" and g: "geo_ok spp" and n: "nand_ok spp B"
    and a: "addr_ok spp a" "st B a = PG_FREE" "a \<notin> dead" and lpn: "lpn < tt_pgs spp"
  shows "map_ok spp (restatus B a PG_VALID 0 1) dead {} (maptbl[lpn := a]) (rmap[pgidx spp a := lpn])"
proof -
  let ?B = "restatus B a PG_VALID 0 1" and ?m = "maptbl[lpn := a]" and ?r = "rmap[pgidx spp a := lpn]"
  have len: "length maptbl = tt_pgs spp" "length rmap = tt_pgs spp" "pgidx spp a < tt_pgs spp"
    using m pgidx_less[OF g a(1)] by (auto simp: map_ok_def)
  have stB: "st ?B x = (if x = a then PG_VALID else st B x)" if "addr_ok spp x" for x
    using st_restatus[OF n a(1) that] .
  have rm: "?r ! pgidx spp x = (if x = a then lpn else rmap ! pgidx spp x)" if "addr_ok spp x" for x
    using pgidx_inj[OF that a(1)] len by (auto simp: nth_list_update)
  have "addr_ok spp (?m ! k) \<and> st ?B (?m ! k) = PG_VALID \<and> ?m ! k \<notin> dead \<and> ?r ! pgidx spp (?m ! k) = k"
    if k: "k < tt_pgs spp" "?m ! k \<noteq> UNMAPPED_PPA" for k
  proof (cases "k = lpn")
    case True
    then show ?thesis using a len stB[OF a(1)] k by simp
  next
    case False
    then have old: "addr_ok spp (maptbl ! k)" "st B (maptbl ! k) = PG_VALID" "maptbl ! k \<notin> dead"
      "rmap ! pgidx spp (maptbl ! k) = k"
      using m k by (auto simp: map_ok_def)
    moreover have "maptbl ! k \<noteq> a" using old(2) a(2) by auto
    ultimately show ?thesis using False stB[OF old(1)] rm[OF old(1)] by simp
  qed
  moreover have "?r ! pgidx spp x < tt_pgs spp \<and> ?m ! (?r ! pgidx spp x) = x"
    if x: "addr_ok spp x" "st ?B x = PG_VALID" "x \<notin> dead" for x
  proof (cases "x = a")
    case True
    then show ?thesis using rm[OF a(1)] lpn len by simp
  next
    case False
    then have "rmap ! pgidx spp x < tt_pgs spp" "rmap ! pgidx spp x \<noteq> lpn" "maptbl ! (rmap ! pgidx spp x) = x"
      using m x stB[OF x(1)] by (auto simp: map_ok_def)
    then show ?thesis using rm[OF x(1)] False by simp
  qed
  ultimately show ?thesis using len by (simp add: map_ok_def)
qed

lemma only_line_restatus:
  "nand_ok spp B \<Longrightarrow> addr_ok spp a \<Longrightarrow> only_line spp (p_blk a) B (restatus B a s di dv)"
  by (auto simp: only_line_def st_restatus)

lemma core_place:
  assumes c: "core dead {lpn} tr f" and lpn: "lpn < tt_pgs (cf_sp f)"
    and a: "addr_ok (cf_sp f) a" "st (blks_of f) a = PG_FREE"
      "p_blk a \<in> {wp_curline (cf_wp f), wp_curline (cf_gc_wp f)}"
  shows "core dead {} tr (placed f lpn a)"
proof -
  let ?spp = "cf_sp f" and ?B = "blks_of f"
  have g: "geo_ok ?spp" and n: "nand_ok ?spp ?B" and s: "ssd_ok (cf_ssd f)"
    and m: "map_ok ?spp ?B dead {lpn} (cf_maptbl f) (cf_rmap f)"
    and l: "lines_ok ?spp ?B tr (lm_lines (cf_lm f))"
    and p: "part_ok ?spp ?B tr (wp_curline (cf_wp f)) (wp_curline (cf_gc_wp f)) (cf_lm f)"
    and q: "queue_ok ?spp (cf_lm f)" and d: "\<forall>d\<in>dead. p_blk d \<in> tr"
    using c by (auto simp: core_def)
  have cur: "p_blk a \<notin> tr" "p_blk a \<notin> pq_elems (lm_victim_pq (cf_lm f))"
    using p a(3) by (auto simp: part_ok_def part_sets_def)
  then have "a \<notin> dead" using d by auto
  have part: "part_ok ?spp (restatus ?B a PG_VALID 0 1) tr (wp_curline (cf_wp f)) (wp_curline (cf_gc_wp f)) (cf_lm f)"
    using part_ok_status[OF p only_line_restatus[OF n a(1)]] a(3) by auto
  have nand: "nand_ok ?spp (restatus ?B a PG_VALID 0 1)"
    using nand_ok_restatus[OF g n a(1,2), of PG_VALID] by simp
  have queue: "queue_ok ?spp (cf_lm (placed f lpn a))"
    using queue_ok_set_line[OF q cur(2)] by (simp add: placed_def bump_valid_def)
  have "ssd_ok (cf_ssd (placed f lpn a))"
    using s by (simp add: placed_def bump_valid_def ssd_ok_def)
  then show ?thesis
    using g nand map_ok_place[OF m g n a(1,2) \<open>a \<notin> dead\<close> lpn] lines_ok_bump[OF g n l a(1,2)] part queue d
    by (simp add: core_def placed_def bump_valid_def)
qed

lemma place_lpn_eq:
  assumes c: "core dead X tr f" and lpn: "lpn < tt_pgs (cf_sp f)"
    and w: "wp_place_ok (cf_sp f) (get_wp f io)"
    and a: "a = mk_ppa (wp_ch (get_wp f io)) (wp_lun (get_wp f io)) 0 (wp_blk (get_wp f io)) (wp_pg (get_wp f io))"
    and fr: "st (blks_of f) a = PG_FREE"
    and cur: "p_blk a \<in> {wp_curline (cf_wp f), wp_curline (cf_gc_wp f)}"
  shows "place_lpn f io lpn = Some (placed f lpn a, a)" "addr_ok (cf_sp f) a"
proof -
  let ?spp = "cf_sp f"
  have g: "geo_ok ?spp" and n: "nand_ok ?spp (blks_of f)"
    and l: "lines_ok ?spp (blks_of f) tr (lm_lines (cf_lm f))"
    and len: "length (cf_maptbl f) = tt_pgs ?spp" "length (cf_rmap f) = tt_pgs ?spp"
    and p: "part_ok ?spp (blks_of f) tr (wp_curline (cf_wp f)) (wp_curline (cf_gc_wp f)) (cf_lm f)"
    using c by (auto simp: core_def map_ok_def)
  show ok: "addr_ok ?spp a"
    using mk_ppa_addr_ok(1)[OF g] w unfolding a wp_place_ok_def by simp
  have new: "get_new_page f io = Some a"
    using w unfolding get_new_page_def a wp_place_ok_def by (simp add: mk_ppa_def Let_def)
  let ?f1 = "f\<lparr>cf_maptbl := (cf_maptbl f)[lpn := a]\<rparr>"
  let ?f2 = "?f1\<lparr>cf_rmap := (cf_rmap f)[pgidx ?spp a := lpn]\<rparr>"
  have s1: "set_maptbl_ent f lpn a = Some ?f1"
    using lpn len by (simp add: set_maptbl_ent_def)
  have s2: "set_rmap_ent ?f1 lpn a = Some ?f2"
    using ppa2pgidx_eq[of ?f1 a] g ok pgidx_less[OF g ok] len by (simp add: set_rmap_ent_def)
  have "p_blk a \<notin> tr" using p cur by (auto simp: part_ok_def part_sets_def)
  then have s3: "mark_page_valid ?f2 a = Some (bump_valid ?f2 a)"
    using mark_page_valid_eq[of ?f2 tr a] g n l ok fr by simp
  show "place_lpn f io lpn = Some (placed f lpn a, a)"
    using new s1 s2 s3 by (simp add: place_lpn_def placed_def)
qed

section \<open>Invalidating a page\<close>

lemma pos_in_queue:
  assumes "vpq.pq_inv ls q" "l \<in> pq_elems q"
  shows "ln_pos (ls ! l) \<noteq> 0" "l < length ls"
  using assms by (auto simp: vpq.pq_inv_def pq_elems_def victim_sel)

lemma view_eqD:
  assumes "map (\<lambda>l. l\<lparr>ln_pos := 0\<rparr>) ls' = map (\<lambda>l. l\<lparr>ln_pos := 0\<rparr>) (ls :: line list)"
  shows "length ls' = length ls"
    "k < length ls \<Longrightarrow> ln_id (ls' ! k) = ln_id (ls ! k) \<and> ln_vpc (ls' ! k) = ln_vpc (ls ! k) \<and>
      ln_ipc (ls' ! k) = ln_ipc (ls ! k)"
proof -
  show len: "length ls' = length ls" using map_eq_imp_length_eq[OF assms] .
  assume k: "k < length ls"
  then have "(ls' ! k)\<lparr>ln_pos := 0\<rparr> = (ls ! k)\<lparr>ln_pos := 0\<rparr>"
    using arg_cong[OF assms, of "\<lambda>xs. xs ! k"] len by simp
  then show "ln_id (ls' ! k) = ln_id (ls ! k) \<and> ln_vpc (ls' ! k) = ln_vpc (ls ! k) \<and>
      ln_ipc (ls' ! k) = ln_ipc (ls ! k)"
    by (metis (no_types, lifting) line.select_convs(1,2,3) line.surjective line.update_convs(4))
qed

lemma queue_room:
  assumes "vpq.pq_inv ls q" "pq_elems q \<subseteq> {..<n}" "l < n" "l \<notin> pq_elems q" "pq_avail q = n + 1"
  shows "pq_size q < pq_avail q"
proof -
  have "pq_elems q \<subset> {..<n}" using assms by auto
  then have "card (pq_elems q) < n" using psubset_card_mono[of "{..<n}"] by simp
  moreover have "pq_size q - 1 = card (pq_elems q)" "1 \<le> pq_size q"
    using vpq.pqueue_size_correct[OF assms(1)] assms(1) by (auto simp: pqueue_size_def vpq.pq_inv_def)
  ultimately show ?thesis using assms(5) by simp
qed

text \<open>A line enters the victim queue.\<close>

lemma queue_insert:
  assumes inv: "vpq.pq_inv ls q" and el: "pq_elems q \<subseteq> {..<n}" and l: "l < n" "l \<notin> pq_elems q"
    and av: "pq_avail q = n + 1" and len: "length ls = n"
    and pos: "\<forall>k<n. k \<notin> pq_elems q \<longrightarrow> ln_pos (ls ! k) = 0"
  shows "\<exists>ls' q'. pqueue_insert ls q l = Some (ls', q') \<and> vpq.pq_inv ls' q' \<and>
    pq_elems q' = insert l (pq_elems q) \<and> pq_avail q' = n + 1 \<and> length ls' = n \<and>
    (\<forall>k<n. ln_id (ls' ! k) = ln_id (ls ! k) \<and> ln_vpc (ls' ! k) = ln_vpc (ls ! k) \<and>
      ln_ipc (ls' ! k) = ln_ipc (ls ! k)) \<and>
    (\<forall>k<n. ln_pos (ls' ! k) \<noteq> 0 \<longleftrightarrow> k \<in> pq_elems q')"
proof -
  obtain ls' q' where r: "pqueue_insert ls q l = Some (ls', q')" "vpq.pq_inv ls' q'"
    "pq_elems q' = insert l (pq_elems q)" "pq_avail q' = pq_avail q"
    "map (\<lambda>l. l\<lparr>ln_pos := 0\<rparr>) ls' = map (\<lambda>l. l\<lparr>ln_pos := 0\<rparr>) ls"
    "\<forall>x. x \<notin> pq_elems q' \<longrightarrow> getpos victim_ops ls' x = getpos victim_ops ls x"
    using vpq.insert_correct[OF inv queue_room[OF inv el l av], of l] l len by auto
  have "ln_pos (ls' ! k) \<noteq> 0 \<longleftrightarrow> k \<in> pq_elems q'" if "k < n" for k
  proof (cases "k \<in> pq_elems q'")
    case True
    then show ?thesis using pos_in_queue(1)[OF r(2) True] by simp
  next
    case False
    then show ?thesis
      using r(3,6) pos that by (simp add: victim_sel)
  qed
  then show ?thesis using r view_eqD[OF r(5)] len av by simp
qed

lemma lines_ok_inval:
  assumes g: "geo_ok spp" and n: "nand_ok spp B" and l: "lines_ok spp B {} ls"
    and a: "addr_ok spp a" "st B a = PG_VALID" and len: "length ls' = tt_lines spp"
    and chg: "\<forall>k<tt_lines spp. ln_id (ls' ! k) = ln_id (ls ! k) \<and>
      ln_vpc (ls' ! k) = ln_vpc (ls ! k) - (if k = p_blk a then 1 else 0) \<and>
      ln_ipc (ls' ! k) = ln_ipc (ls ! k) + (if k = p_blk a then 1 else 0)"
  shows "lines_ok spp (restatus B a PG_INVALID 1 (-1)) {} ls'"
proof -
  let ?B = "restatus B a PG_INVALID 1 (-1)"
  have upd: "\<forall>x\<in>line_pages spp k. st ?B x = (if x = a then PG_INVALID else st B x)" for k
    using st_restatus[OF n a(1)] by (simp add: line_pages_def)
  have fin: "finite (line_pages spp k)" if "k < tt_lines spp" for k
    using line_pages_card[OF g] that g by (simp add: geo_ok_def)
  have mem: "a \<in> line_pages spp k \<longleftrightarrow> k = p_blk a" for k using a by (auto simp: line_pages_def)
  have "int (count_in ?B PG_VALID (line_pages spp k)) =
        int (count_in B PG_VALID (line_pages spp k)) - (if k = p_blk a then 1 else 0) \<and>
      int (count_in ?B PG_INVALID (line_pages spp k)) =
        int (count_in B PG_INVALID (line_pages spp k)) + (if k = p_blk a then 1 else 0)"
    if "k < tt_lines spp" for k
  proof (cases "k = p_blk a")
    case True
    then show ?thesis
      using count_in_update(1,2)[OF fin[OF that] upd a(2)] mem[of k] by simp
  next
    case False
    then show ?thesis using count_in_update(4)[OF fin[OF that] upd a(2)] mem[of k] by simp
  qed
  then show ?thesis using l len chg unfolding lines_ok_def by simp
qed

lemma part_status_inval:
  assumes s: "part_status spp B lm" and n: "nand_ok spp B" and a: "addr_ok spp a" "st B a = PG_VALID"
    and l: "p_blk a \<notin> set (lm_free lm)"
      "lm_free lm' = lm_free lm" "set (lm_full lm') = set (lm_full lm) - {p_blk a}"
      "pq_elems (lm_victim_pq lm') \<subseteq> insert (p_blk a) (pq_elems (lm_victim_pq lm))"
      "p_blk a \<in> pq_elems (lm_victim_pq lm') \<Longrightarrow> \<forall>x\<in>line_pages spp (p_blk a). st B x \<noteq> PG_FREE"
  shows "part_status spp (restatus B a PG_INVALID 1 (-1)) lm'"
proof -
  let ?B = "restatus B a PG_INVALID 1 (-1)"
  have stB: "st ?B x = (if x = a then PG_INVALID else st B x)" if "x \<in> line_pages spp k" for x k
    using st_restatus[OF n a(1)] that by (simp add: line_pages_def)
  have other: "x \<noteq> a" if "x \<in> line_pages spp k" "k \<noteq> p_blk a" for x k
    using that by (auto simp: line_pages_def)
  have "\<forall>x\<in>line_pages spp k. st ?B x = PG_FREE" if "k \<in> set (lm_free lm')" for k
    using s that l stB other[of _ k] unfolding part_status_def by fastforce
  moreover have "\<forall>x\<in>line_pages spp k. st ?B x = PG_VALID" if "k \<in> set (lm_full lm')" for k
    using s that l stB other[of _ k] unfolding part_status_def by fastforce
  moreover have "\<forall>x\<in>line_pages spp k. st ?B x \<noteq> PG_FREE" if k: "k \<in> pq_elems (lm_victim_pq lm')" for k
  proof (cases "k = p_blk a")
    case True then show ?thesis using l(5) k stB[of _ k] by (auto split: if_splits)
  next
    case False
    then have "k \<in> pq_elems (lm_victim_pq lm)" using l(4) k by auto
    then show ?thesis using s stB[of _ k] unfolding part_status_def by (auto split: if_splits)
  qed
  moreover have "\<exists>x\<in>line_pages spp k. st ?B x = PG_INVALID" if k: "k \<in> pq_elems (lm_victim_pq lm')" for k
  proof (cases "k = p_blk a")
    case True then show ?thesis using page_in_sets(1)[OF a(1)] stB by auto
  next
    case False
    then have "k \<in> pq_elems (lm_victim_pq lm)" using l(4) k by auto
    then obtain x where "x \<in> line_pages spp k" "st B x = PG_INVALID"
      using s unfolding part_status_def by blast
    then show ?thesis using stB[of x k] by (intro bexI[of _ x]) auto
  qed
  ultimately show ?thesis unfolding part_status_def by blast
qed

lemma pri_of_int:
  assumes "0 \<le> k" "k < 2 ^ 31"
  shows "(of_int k :: u64) < 2 ^ 31" "sint (ucast (of_int k :: u64) :: u32) = k"
proof -
  have u: "uint (of_int k :: u64) = k" using assms by (simp add: unsigned_of_int take_bit_int_eq_self)
  then show "(of_int k :: u64) < 2 ^ 31" using assms by (simp add: word_less_def)
  have "uint (ucast (of_int k :: u64) :: u32) = take_bit 32 (uint (of_int k :: u64))"
    by (simp add: unsigned_ucast_eq unsigned_take_bit_eq)
  also have "\<dots> = k" using assms u by (simp add: take_bit_int_eq_self)
  finally have "uint (ucast (of_int k :: u64) :: u32) = k" .
  moreover have "sint w = signed_take_bit 31 (uint w)" for w :: u32 by (simp add: sint_uint)
  ultimately have "sint (ucast (of_int k :: u64) :: u32) = signed_take_bit 31 k" by metis
  also have "\<dots> = k" using assms by (intro signed_take_bit_int_eq_self) auto
  finally show "sint (ucast (of_int k :: u64) :: u32) = k" .
qed

definition inval_post :: "conv_ftl \<Rightarrow> ppa \<Rightarrow> conv_ftl \<Rightarrow> bool" where
  "inval_post f a f' \<longleftrightarrow> (\<exists>lm'. f' = f\<lparr>cf_ssd := (cf_ssd f)\<lparr>ssd_blk := restatus (blks_of f) a PG_INVALID 1 (-1)\<rparr>,
       cf_lm := lm'\<rparr> \<and> lm_free lm' = lm_free (cf_lm f) \<and>
     lines_ok (cf_sp f) (restatus (blks_of f) a PG_INVALID 1 (-1)) {} (lm_lines lm') \<and>
     part_ok (cf_sp f) (restatus (blks_of f) a PG_INVALID 1 (-1)) {}
       (wp_curline (cf_wp f)) (wp_curline (cf_gc_wp f)) lm' \<and>
     queue_ok (cf_sp f) lm')"

text \<open>The checks at the start of \<^verbatim>\<open>mark_page_invalid\<close> succeed; what remains depends on where the
  line of the page is.\<close>

lemma mark_page_invalid_start:
  assumes c: "core {} {} {} f" and a: "addr_ok (cf_sp f) a" "st (blks_of f) a = PG_VALID"
  defines "l \<equiv> p_blk a" and "ls \<equiv> lm_lines (cf_lm f)"
  defines "f1 \<equiv> f\<lparr>cf_ssd := (cf_ssd f)\<lparr>ssd_blk := restatus (blks_of f) a PG_INVALID 1 (-1)\<rparr>\<rparr>"
  defines "ls2 \<equiv> ls[l := (ls ! l)\<lparr>ln_ipc := ln_ipc (ls ! l) + 1\<rparr>]"
  shows "mark_page_invalid f a = do {
     f3 \<leftarrow> (if ln_pos (ls ! l) \<noteq> 0 then do {
              (ls', q) \<leftarrow> pqueue_change_priority ls2 (lm_victim_pq (cf_lm f)) (of_int (ln_vpc (ls ! l) - 1)) l;
              Some (f1\<lparr>cf_lm := (cf_lm f)\<lparr>lm_lines := ls', lm_victim_pq := q\<rparr>\<rparr>)
            }
            else Some (f1\<lparr>cf_lm := (cf_lm f)\<lparr>lm_lines :=
                   ls[l := (ls ! l)\<lparr>ln_ipc := ln_ipc (ls ! l) + 1, ln_vpc := ln_vpc (ls ! l) - 1\<rparr>]\<rparr>\<rparr>));
     if ln_vpc (ls ! l) = int (pgs_per_line (cf_sp f)) then do {
       let lm = (cf_lm f3)\<lparr>lm_full := remove1 l (lm_full (cf_lm f3)),
                          lm_full_cnt := dec32 (lm_full_cnt (cf_lm f3))\<rparr>;
       (ls', q) \<leftarrow> pqueue_insert (lm_lines lm) (lm_victim_pq lm) l;
       Some (f3\<lparr>cf_lm := lm\<lparr>lm_lines := ls', lm_victim_pq := q,
                             lm_victim_cnt := add32 (lm_victim_cnt lm) 1\<rparr>\<rparr>)
     }
     else Some f3
   }"
    and "l < length ls" "0 < ln_vpc (ls ! l)" "ln_vpc (ls ! l) \<le> int (pgs_per_line (cf_sp f))"
    "ln_vpc (ls ! l) < 2 ^ 31"
proof -
  let ?spp = "cf_sp f" and ?B = "blks_of f"
  let ?b = "?B (blk_of a)"
  have g: "geo_ok ?spp" and n: "nand_ok ?spp ?B" and lk: "lines_ok ?spp ?B {} ls"
    using c by (auto simp: core_def ls_def)
  note fb = block_pages_fin[OF g a(1)] and fl = line_pages_fin[OF g a(1)]
  have len: "l < length ls" using lk line_lt[OF g a(1)] by (simp add: lines_ok_def l_def)
  obtain p where p: "get_pg (cf_ssd f) a = Some p" "pg_status p = PG_VALID"
    using get_pg_ok(2)[OF g n a(1)] a(2) by auto
  have gb: "get_blk (cf_ssd f) a = Some ?b" by (rule get_pg_ok(1)[OF g n a(1)])
  have bc: "0 < count_in ?B PG_VALID (block_pages ?spp (blk_of a))"
    "count_in ?B PG_VALID (block_pages ?spp (blk_of a)) + count_in ?B PG_INVALID (block_pages ?spp (blk_of a))
      \<le> pgs_per_blk ?spp"
    using count_in_pos[OF fb(1) page_in_sets(2)[OF a(1)] a(2)] count_in_total[OF fb(1), of ?B] fb(2) by auto
  then have b: "0 < b_vpc ?b" "b_vpc ?b \<le> int (pgs_per_blk ?spp)" "0 \<le> b_ipc ?b"
    "b_ipc ?b < int (pgs_per_blk ?spp)"
    using nand_okD(2,3)[OF n a(1)] by auto
  have lc: "0 < count_in ?B PG_VALID (line_pages ?spp l)"
    "count_in ?B PG_VALID (line_pages ?spp l) + count_in ?B PG_INVALID (line_pages ?spp l) \<le> pgs_per_line ?spp"
    using count_in_pos[OF fl(1) page_in_sets(1)[OF a(1)] a(2)] count_in_total[OF fl(1), of ?B] fl(2)
    by (auto simp: l_def)
  have lv: "ln_vpc (ls ! l) = int (count_in ?B PG_VALID (line_pages ?spp l))"
    "ln_ipc (ls ! l) = int (count_in ?B PG_INVALID (line_pages ?spp l))"
    using lk line_lt[OF g a(1)] by (auto simp: lines_ok_def l_def)
  have L: "0 < ln_vpc (ls ! l)" "ln_vpc (ls ! l) \<le> int (pgs_per_line ?spp)" "0 \<le> ln_ipc (ls ! l)"
    "ln_ipc (ls ! l) < int (pgs_per_line ?spp)"
    "ln_vpc (ls ! l) = int (pgs_per_line ?spp) \<longrightarrow> ln_ipc (ls ! l) = 0"
    using lv lc by auto
  show "l < length ls" "0 < ln_vpc (ls ! l)" "ln_vpc (ls ! l) \<le> int (pgs_per_line ?spp)" by (rule len L)+
  show "ln_vpc (ls ! l) < 2 ^ 31" using L(2) geo_small(1)[OF g] by simp
  have blk: "put_blk f a ((set_page_status ?b (p_pg a) PG_INVALID)\<lparr>b_ipc := b_ipc ?b + 1, b_vpc := b_vpc ?b - 1\<rparr>) = f1"
    by (simp add: f1_def put_blk_def set_blk_def restatus_def)
  have f1: "lm_lines (cf_lm f1) = ls" "cf_lm f1 = cf_lm f" by (simp_all add: f1_def ls_def)
  show "mark_page_invalid f a = do {
     f3 \<leftarrow> (if ln_pos (ls ! l) \<noteq> 0 then do {
              (ls', q) \<leftarrow> pqueue_change_priority ls2 (lm_victim_pq (cf_lm f)) (of_int (ln_vpc (ls ! l) - 1)) l;
              Some (f1\<lparr>cf_lm := (cf_lm f)\<lparr>lm_lines := ls', lm_victim_pq := q\<rparr>\<rparr>)
            }
            else Some (f1\<lparr>cf_lm := (cf_lm f)\<lparr>lm_lines :=
                   ls[l := (ls ! l)\<lparr>ln_ipc := ln_ipc (ls ! l) + 1, ln_vpc := ln_vpc (ls ! l) - 1\<rparr>]\<rparr>\<rparr>));
     if ln_vpc (ls ! l) = int (pgs_per_line (cf_sp f)) then do {
       let lm = (cf_lm f3)\<lparr>lm_full := remove1 l (lm_full (cf_lm f3)),
                          lm_full_cnt := dec32 (lm_full_cnt (cf_lm f3))\<rparr>;
       (ls', q) \<leftarrow> pqueue_insert (lm_lines lm) (lm_victim_pq lm) l;
       Some (f3\<lparr>cf_lm := lm\<lparr>lm_lines := ls', lm_victim_pq := q,
                             lm_victim_cnt := add32 (lm_victim_cnt lm) 1\<rparr>\<rparr>)
     }
     else Some f3
   }"
    unfolding mark_page_invalid_def Let_def
    using p gb b len L blk f1
    by (simp add: get_line_def set_line_def l_def[symmetric] ls2_def split del: if_split cong: if_cong)
qed

lemma change_priority_line:
  assumes inv: "vpq.pq_inv ls q" and l: "l \<in> pq_elems q" and v: "0 \<le> v" "v < 2 ^ 31"
    and len: "length ls = n" and pos: "\<forall>k<n. ln_pos (ls ! k) \<noteq> 0 \<longleftrightarrow> k \<in> pq_elems q"
  shows "\<exists>ls' q'. pqueue_change_priority ls q (of_int v) l = Some (ls', q') \<and> vpq.pq_inv ls' q' \<and>
    pq_elems q' = pq_elems q \<and> pq_avail q' = pq_avail q \<and> length ls' = n \<and>
    (\<forall>k<n. ln_id (ls' ! k) = ln_id (ls ! k) \<and> ln_ipc (ls' ! k) = ln_ipc (ls ! k) \<and>
      ln_vpc (ls' ! k) = (if k = l then v else ln_vpc (ls ! k))) \<and>
    (\<forall>k<n. ln_pos (ls' ! k) \<noteq> 0 \<longleftrightarrow> k \<in> pq_elems q')"
proof -
  have ll: "l < length ls" using pos_in_queue(2)[OF inv l] .
  obtain ls' q' where r: "pqueue_change_priority ls q (of_int v) l = Some (ls', q')" "vpq.pq_inv ls' q'"
    "pq_elems q' = pq_elems q" "pq_avail q' = pq_avail q"
    "map (\<lambda>l. l\<lparr>ln_pos := 0\<rparr>) ls' = map (\<lambda>l. l\<lparr>ln_pos := 0\<rparr>) (setpri victim_ops ls l (of_int v))"
    "\<forall>x. x \<notin> pq_elems q \<longrightarrow> getpos victim_ops ls' x = getpos victim_ops ls x"
    using vpq.change_priority_correct[OF inv l pri_of_int(1)[OF v]] by blast
  have sp: "setpri victim_ops ls l (of_int v) = ls[l := (ls ! l)\<lparr>ln_vpc := v\<rparr>]"
    using pri_of_int(2)[OF v] by (simp add: victim_sel)
  have ln: "length ls' = n" using view_eqD(1)[OF r(5)] len by (simp add: sp)
  have fields: "ln_id (ls' ! k) = ln_id (ls ! k) \<and> ln_ipc (ls' ! k) = ln_ipc (ls ! k) \<and>
      ln_vpc (ls' ! k) = (if k = l then v else ln_vpc (ls ! k))" if "k < n" for k
    using view_eqD(2)[OF r(5), of k] that len ll by (simp add: sp nth_list_update)
  have "ln_pos (ls' ! k) \<noteq> 0 \<longleftrightarrow> k \<in> pq_elems q'" if "k < n" for k
  proof (cases "k \<in> pq_elems q'")
    case True then show ?thesis using pos_in_queue(1)[OF r(2) True] by simp
  next
    case False then show ?thesis using r(3,6) pos that by (simp add: victim_sel)
  qed
  then show ?thesis using r(1-4) ln fields by simp
qed

lemma part_cases:
  assumes "part_ok spp B {} wl gl lm" "l < tt_lines spp"
  obtains "l \<in> set (lm_free lm)" | "l \<in> set (lm_full lm)" | "l \<in> pq_elems (lm_victim_pq lm)" | "l \<in> {wl, gl}"
proof -
  have u: "pq_elems (lm_victim_pq lm) \<union> set (lm_free lm @ lm_full lm @ [wl, gl]) \<union> {} = {..<tt_lines spp}"
    using assms(1) unfolding part_ok_def part_sets_def by blast
  have "l \<in> {..<tt_lines spp}" using assms(2) by simp
  then have "l \<in> pq_elems (lm_victim_pq lm) \<union> set (lm_free lm @ lm_full lm @ [wl, gl])"
    unfolding u[symmetric] by simp
  then show ?thesis using that by auto
qed

lemma mark_page_invalid_victim:
  assumes c: "core {} {} {} f" and a: "addr_ok (cf_sp f) a" "st (blks_of f) a = PG_VALID"
    and V: "p_blk a \<in> pq_elems (lm_victim_pq (cf_lm f))"
  shows "\<exists>f'. mark_page_invalid f a = Some f' \<and> inval_post f a f'"
proof -
  let ?spp = "cf_sp f" and ?B = "blks_of f" and ?lm = "cf_lm f"
  let ?l = "p_blk a" and ?ls = "lm_lines ?lm" and ?q = "lm_victim_pq ?lm"
  note start = mark_page_invalid_start[OF c a]
  have g: "geo_ok ?spp" and n: "nand_ok ?spp ?B" and lk: "lines_ok ?spp ?B {} ?ls"
    and p: "part_ok ?spp ?B {} (wp_curline (cf_wp f)) (wp_curline (cf_gc_wp f)) ?lm"
    and qk: "queue_ok ?spp ?lm"
    using c by (auto simp: core_def)
  have len: "length ?ls = tt_lines ?spp" using lk by (simp add: lines_ok_def)
  let ?ls2 = "?ls[?l := (?ls ! ?l)\<lparr>ln_ipc := ln_ipc (?ls ! ?l) + 1\<rparr>]"
  have inv: "vpq.pq_inv ?ls ?q" and pos: "\<forall>k<tt_lines ?spp. ln_pos (?ls ! k) \<noteq> 0 \<longleftrightarrow> k \<in> pq_elems ?q"
    and av: "pq_avail ?q = tt_lines ?spp + 1" using qk by (auto simp: queue_ok_def)
  have inv2: "vpq.pq_inv ?ls2 ?q"
    using pos_in_queue(2)[OF inv] pos_in_queue(2)[OF inv V]
    by (intro vpq.pq_inv_cong[OF inv]) (auto simp: victim_sel nth_list_update)
  have pos2: "\<forall>k<tt_lines ?spp. ln_pos (?ls2 ! k) \<noteq> 0 \<longleftrightarrow> k \<in> pq_elems ?q"
    using pos len line_lt[OF g a(1)] by (simp add: nth_list_update)
  obtain ls' q' where r: "pqueue_change_priority ?ls2 ?q (of_int (ln_vpc (?ls ! ?l) - 1)) ?l = Some (ls', q')"
    "vpq.pq_inv ls' q'" "pq_elems q' = pq_elems ?q" "pq_avail q' = pq_avail ?q" "length ls' = tt_lines ?spp"
    "\<forall>k<tt_lines ?spp. ln_id (ls' ! k) = ln_id (?ls2 ! k) \<and> ln_ipc (ls' ! k) = ln_ipc (?ls2 ! k) \<and>
      ln_vpc (ls' ! k) = (if k = ?l then ln_vpc (?ls ! ?l) - 1 else ln_vpc (?ls2 ! k))"
    "\<forall>k<tt_lines ?spp. ln_pos (ls' ! k) \<noteq> 0 \<longleftrightarrow> k \<in> pq_elems q'"
    using change_priority_line[OF inv2 V, of "ln_vpc (?ls ! ?l) - 1" "tt_lines ?spp"] start(3,5) pos2 len
    by auto
  have notfull: "ln_vpc (?ls ! ?l) \<noteq> int (pgs_per_line ?spp)"
  proof -
    obtain x where x: "x \<in> line_pages ?spp ?l" "st ?B x = PG_INVALID"
      using p V unfolding part_ok_def part_status_def by blast
    then have "count_in ?B PG_VALID (line_pages ?spp ?l) < pgs_per_line ?spp"
      using count_less[OF line_pages_fin(1)[OF g a(1)] x(1), of ?B PG_VALID] line_pages_fin(2)[OF g a(1)] by simp
    then show ?thesis using lk line_lt[OF g a(1)] by (simp add: lines_ok_def)
  qed
  let ?lm' = "?lm\<lparr>lm_lines := ls', lm_victim_pq := q'\<rparr>"
  let ?B' = "restatus ?B a PG_INVALID 1 (-1)"
  have run: "mark_page_invalid f a = Some (f\<lparr>cf_ssd := (cf_ssd f)\<lparr>ssd_blk := ?B'\<rparr>, cf_lm := ?lm'\<rparr>)"
    unfolding start(1) using pos V line_lt[OF g a(1)] r(1) notfull by simp
  have "lines_ok ?spp ?B' {} ls'"
  proof (rule lines_ok_inval[OF g n lk a r(5)])
    show "\<forall>k<tt_lines ?spp. ln_id (ls' ! k) = ln_id (?ls ! k) \<and>
      ln_vpc (ls' ! k) = ln_vpc (?ls ! k) - (if k = p_blk a then 1 else 0) \<and>
      ln_ipc (ls' ! k) = ln_ipc (?ls ! k) + (if k = p_blk a then 1 else 0)"
      using r(6) len line_lt[OF g a(1)] by (auto simp: nth_list_update)
  qed
  moreover have "part_status ?spp ?B' ?lm'"
  proof (rule part_status_inval[OF _ n a])
    show "part_status ?spp ?B ?lm" using p by (simp add: part_ok_def)
    show "p_blk a \<notin> set (lm_free ?lm)" "set (lm_full ?lm') = set (lm_full ?lm) - {p_blk a}"
      using p V by (auto simp: part_ok_def part_sets_def)
    show "\<forall>x\<in>line_pages ?spp (p_blk a). st ?B x \<noteq> PG_FREE"
      using p V by (auto simp: part_ok_def part_status_def)
  qed (use r(3) in auto)
  moreover have "part_ok ?spp ?B' {} (wp_curline (cf_wp f)) (wp_curline (cf_gc_wp f)) ?lm'"
    using p calculation(2) r(3) by (simp add: part_ok_def part_sets_def part_counts_def)
  moreover have "queue_ok ?spp ?lm'" using r av by (simp add: queue_ok_def)
  ultimately show ?thesis using run unfolding inval_post_def by auto
qed

lemma mark_page_invalid_full:
  assumes c: "core {} {} {} f" and a: "addr_ok (cf_sp f) a" "st (blks_of f) a = PG_VALID"
    and full: "p_blk a \<in> set (lm_full (cf_lm f))"
  shows "\<exists>f'. mark_page_invalid f a = Some f' \<and> inval_post f a f'"
proof -
  let ?spp = "cf_sp f" and ?B = "blks_of f" and ?lm = "cf_lm f"
  let ?l = "p_blk a" and ?ls = "lm_lines ?lm" and ?q = "lm_victim_pq ?lm"
  note start = mark_page_invalid_start[OF c a]
  have g: "geo_ok ?spp" and n: "nand_ok ?spp ?B" and lk: "lines_ok ?spp ?B {} ?ls"
    and p: "part_ok ?spp ?B {} (wp_curline (cf_wp f)) (wp_curline (cf_gc_wp f)) ?lm"
    and qk: "queue_ok ?spp ?lm"
    using c by (auto simp: core_def)
  note lt = line_lt[OF g a(1)]
  have len: "length ?ls = tt_lines ?spp" using lk by (simp add: lines_ok_def)
  have nV: "?l \<notin> pq_elems ?q" and sub: "pq_elems ?q \<subseteq> {..<tt_lines ?spp}"
    and dis: "distinct (lm_full ?lm)" and sets: "part_sets (tt_lines ?spp) {} (wp_curline (cf_wp f)) (wp_curline (cf_gc_wp f)) ?lm"
    using p full by (auto simp: part_ok_def part_sets_def)
  have valid: "\<forall>x\<in>line_pages ?spp ?l. st ?B x = PG_VALID"
    using p full by (auto simp: part_ok_def part_status_def)
  have "{x \<in> line_pages ?spp ?l. st ?B x = PG_VALID} = line_pages ?spp ?l" using valid by auto
  then have isfull: "ln_vpc (?ls ! ?l) = int (pgs_per_line ?spp)"
    using lk lt line_pages_fin(2)[OF g a(1)] by (simp add: lines_ok_def count_in_def)
  have inv: "vpq.pq_inv ?ls ?q" and pos: "\<forall>k<tt_lines ?spp. ln_pos (?ls ! k) \<noteq> 0 \<longleftrightarrow> k \<in> pq_elems ?q"
    and av: "pq_avail ?q = tt_lines ?spp + 1" using qk by (auto simp: queue_ok_def)
  have p0: "ln_pos (?ls ! ?l) = 0" using pos nV lt by auto
  let ?ls3 = "?ls[?l := (?ls ! ?l)\<lparr>ln_ipc := ln_ipc (?ls ! ?l) + 1, ln_vpc := ln_vpc (?ls ! ?l) - 1\<rparr>]"
  have "queue_ok ?spp (?lm\<lparr>lm_lines := ?ls3\<rparr>)" using queue_ok_set_line[OF qk nV] by simp
  then have inv3: "vpq.pq_inv ?ls3 ?q" and pos3: "\<forall>k<tt_lines ?spp. ln_pos (?ls3 ! k) \<noteq> 0 \<longleftrightarrow> k \<in> pq_elems ?q"
    by (simp_all add: queue_ok_def)
  have len3: "length ?ls3 = tt_lines ?spp" using len by simp
  have pos3': "\<forall>k<tt_lines ?spp. k \<notin> pq_elems ?q \<longrightarrow> ln_pos (?ls3 ! k) = 0" using pos3 by blast
  obtain ls' q' where r: "pqueue_insert ?ls3 ?q ?l = Some (ls', q')" "vpq.pq_inv ls' q'"
    "pq_elems q' = insert ?l (pq_elems ?q)" "pq_avail q' = tt_lines ?spp + 1" "length ls' = tt_lines ?spp"
    "\<forall>k<tt_lines ?spp. ln_id (ls' ! k) = ln_id (?ls3 ! k) \<and> ln_vpc (ls' ! k) = ln_vpc (?ls3 ! k) \<and>
      ln_ipc (ls' ! k) = ln_ipc (?ls3 ! k)"
    "\<forall>k<tt_lines ?spp. ln_pos (ls' ! k) \<noteq> 0 \<longleftrightarrow> k \<in> pq_elems q'"
    using queue_insert[OF inv3 sub lt nV av len3 pos3'] by blast
  let ?lm' = "?lm\<lparr>lm_full := remove1 ?l (lm_full ?lm), lm_full_cnt := dec32 (lm_full_cnt ?lm),
      lm_lines := ls', lm_victim_pq := q', lm_victim_cnt := add32 (lm_victim_cnt ?lm) 1\<rparr>"
  let ?B' = "restatus ?B a PG_INVALID 1 (-1)"
  have run: "mark_page_invalid f a = Some (f\<lparr>cf_ssd := (cf_ssd f)\<lparr>ssd_blk := ?B'\<rparr>, cf_lm := ?lm'\<rparr>)"
    unfolding start(1) using p0 isfull r(1) by (simp add: Let_def)
  have lines: "lines_ok ?spp ?B' {} ls'"
  proof (rule lines_ok_inval[OF g n lk a r(5)])
    show "\<forall>k<tt_lines ?spp. ln_id (ls' ! k) = ln_id (?ls ! k) \<and>
      ln_vpc (ls' ! k) = ln_vpc (?ls ! k) - (if k = p_blk a then 1 else 0) \<and>
      ln_ipc (ls' ! k) = ln_ipc (?ls ! k) + (if k = p_blk a then 1 else 0)"
      using r(6) len lt by (auto simp: nth_list_update)
  qed
  have status: "part_status ?spp ?B' ?lm'"
  proof (rule part_status_inval[OF _ n a])
    show "part_status ?spp ?B ?lm" using p by (simp add: part_ok_def)
    show "p_blk a \<notin> set (lm_free ?lm)" using sets full by (auto simp: part_sets_def)
    show "set (lm_full ?lm') = set (lm_full ?lm) - {p_blk a}" using dis by simp
  qed (use r(3) valid in auto)
  have fulln: "0 < length (lm_full ?lm)" "length (lm_full ?lm) \<le> 65536" "card (pq_elems ?q) \<le> 65536"
  proof -
    show "0 < length (lm_full ?lm)" using full by (cases "lm_full ?lm") auto
    have "set (lm_full ?lm) \<subseteq> {..<tt_lines ?spp}" using sets by (auto simp: part_sets_def)
    then have "card (set (lm_full ?lm)) \<le> tt_lines ?spp" using card_mono[of "{..<tt_lines ?spp}"] by simp
    then show "length (lm_full ?lm) \<le> 65536" using distinct_card[OF dis] geo_small(3)[OF g] by simp
    show "card (pq_elems ?q) \<le> 65536"
      using card_mono[OF _ sub] geo_small(3)[OF g] by simp
  qed
  have "card (insert ?l (pq_elems ?q)) = Suc (card (pq_elems ?q))"
    using nV finite_subset[OF sub] by simp
  then have counts: "part_counts (tt_lines ?spp) ?lm'"
    using p fulln full r(3) by (simp add: part_ok_def part_counts_def length_remove1)
  have "part_sets (tt_lines ?spp) {} (wp_curline (cf_wp f)) (wp_curline (cf_gc_wp f)) ?lm'"
    using sets full r(3) dis nV unfolding part_sets_def by (auto simp: distinct_remove1)
  then show ?thesis
    using run lines status counts r av unfolding inval_post_def part_ok_def queue_ok_def by auto
qed

lemma mark_page_invalid_current:
  assumes c: "core {} {} {} f" and a: "addr_ok (cf_sp f) a" "st (blks_of f) a = PG_VALID"
    and cur: "p_blk a \<in> {wp_curline (cf_wp f), wp_curline (cf_gc_wp f)}"
    and free: "x \<in> line_pages (cf_sp f) (p_blk a)" "st (blks_of f) x = PG_FREE"
  shows "\<exists>f'. mark_page_invalid f a = Some f' \<and> inval_post f a f'"
proof -
  let ?spp = "cf_sp f" and ?B = "blks_of f" and ?lm = "cf_lm f"
  let ?l = "p_blk a" and ?ls = "lm_lines ?lm"
  note start = mark_page_invalid_start[OF c a]
  have g: "geo_ok ?spp" and n: "nand_ok ?spp ?B" and lk: "lines_ok ?spp ?B {} ?ls"
    and p: "part_ok ?spp ?B {} (wp_curline (cf_wp f)) (wp_curline (cf_gc_wp f)) ?lm"
    and qk: "queue_ok ?spp ?lm"
    using c by (auto simp: core_def)
  note lt = line_lt[OF g a(1)]
  have len: "length ?ls = tt_lines ?spp" using lk by (simp add: lines_ok_def)
  have nV: "?l \<notin> pq_elems (lm_victim_pq ?lm)" "?l \<notin> set (lm_free ?lm)" "?l \<notin> set (lm_full ?lm)"
    using p cur by (auto simp: part_ok_def part_sets_def)
  have p0: "ln_pos (?ls ! ?l) = 0" using qk nV lt by (auto simp: queue_ok_def)
  have "count_in ?B PG_VALID (line_pages ?spp ?l) < pgs_per_line ?spp"
    using count_less[OF line_pages_fin(1)[OF g a(1)] free(1), of ?B PG_VALID] free(2)
      line_pages_fin(2)[OF g a(1)] by simp
  then have notfull: "ln_vpc (?ls ! ?l) \<noteq> int (pgs_per_line ?spp)"
    using lk lt by (simp add: lines_ok_def)
  let ?ls3 = "?ls[?l := (?ls ! ?l)\<lparr>ln_ipc := ln_ipc (?ls ! ?l) + 1, ln_vpc := ln_vpc (?ls ! ?l) - 1\<rparr>]"
  let ?lm' = "?lm\<lparr>lm_lines := ?ls3\<rparr>" and ?B' = "restatus ?B a PG_INVALID 1 (-1)"
  have run: "mark_page_invalid f a = Some (f\<lparr>cf_ssd := (cf_ssd f)\<lparr>ssd_blk := ?B'\<rparr>, cf_lm := ?lm'\<rparr>)"
    unfolding start(1) using p0 notfull by simp
  have lines: "lines_ok ?spp ?B' {} ?ls3"
    by (rule lines_ok_inval[OF g n lk a]) (use len lt in \<open>auto simp: nth_list_update\<close>)
  have "part_ok ?spp ?B' {} (wp_curline (cf_wp f)) (wp_curline (cf_gc_wp f)) ?lm'"
    using part_ok_status[OF p only_line_restatus[OF n a(1)]] cur by auto
  moreover have "queue_ok ?spp ?lm'" using queue_ok_set_line[OF qk nV(1)] by simp
  ultimately show ?thesis using run lines unfolding inval_post_def by auto
qed

end
