(* ===== verification/Conv_Step.thy ===== *)
theory Conv_Step
  imports Conv_Ops
begin

text \<open>
  The steps of a host write and of garbage collection that keep the invariant: invalidating
  the old page of a logical page, switching to a fresh line, and advancing the two write
  pointers.
\<close>

lemma geo_pages:
  assumes "geo_ok spp"
  shows "0 < pgs_per_oneshotpg spp" "pgs_per_blk spp mod pgs_per_oneshotpg spp = 0"
    "pgs_per_blk spp = pgs_per_oneshotpg spp * oneshotpgs_per_blk spp"
    "pgs_per_blk spp = flashpgs_per_blk spp * pgs_per_flashpg spp"
proof -
  show "0 < pgs_per_oneshotpg spp" "pgs_per_blk spp = flashpgs_per_blk spp * pgs_per_flashpg spp"
    and e: "pgs_per_blk spp = pgs_per_oneshotpg spp * oneshotpgs_per_blk spp"
    using assms unfolding geo_ok_def by blast+
  show "pgs_per_blk spp mod pgs_per_oneshotpg spp = 0" unfolding e by simp
qed

lemma geo_dims:
  assumes "geo_ok spp"
  shows "0 < nchs spp" "0 < luns_per_ch spp" "0 < pgs_per_blk spp" "0 < pgsz spp" "0 < tt_lines spp"
    "pls_per_lun spp = 1" "pgs_per_blk spp \<le> 65536"
  using assms unfolding geo_ok_def by auto

section \<open>Free pages\<close>

definition free_set :: "conv_ftl \<Rightarrow> ppa set" where
  "free_set f = {a. addr_ok (cf_sp f) a \<and> st (blks_of f) a = PG_FREE}"

definition same_free :: "ssdparams \<Rightarrow> blocks \<Rightarrow> blocks \<Rightarrow> bool" where
  "same_free spp B B' \<longleftrightarrow> (\<forall>a. addr_ok spp a \<longrightarrow> (st B' a = PG_FREE \<longleftrightarrow> st B a = PG_FREE))"

lemma counters_ok_cong: "same_free spp B B' \<Longrightarrow> counters_ok spp B l c \<Longrightarrow> counters_ok spp B' l c"
  by (auto simp: counters_ok_def same_free_def line_pages_def)

lemma gc_fill_cong: "same_free spp B B' \<Longrightarrow> gc_fill spp B l r \<Longrightarrow> gc_fill spp B' l r"
  by (auto simp: gc_fill_def same_free_def line_pages_def)

abbreviation wp_page :: "write_pointer \<Rightarrow> ppa" where
  "wp_page w \<equiv> mk_ppa (wp_ch w) (wp_lun w) 0 (wp_blk w) (wp_pg w)"

lemma wp_page_fields:
  assumes "geo_ok spp" "wp_place_ok spp w"
  shows "addr_ok spp (wp_page w)" "p_ch (wp_page w) = wp_ch w" "p_lun (wp_page w) = wp_lun w"
    "p_pg (wp_page w) = wp_pg w" "p_blk (wp_page w) = wp_curline w"
    "wp_page w \<in> line_pages spp (wp_curline w)"
  using mk_ppa_addr_ok[OF assms(1), of "wp_ch w" "wp_lun w" "wp_blk w" "wp_pg w"] assms(2)
  by (auto simp: wp_place_ok_def line_pages_def)

lemma user_page_free:
  assumes "geo_ok (cf_sp f)" "user_ok f"
  shows "st (blks_of f) (wp_page (cf_wp f)) = PG_FREE"
  using assms wp_page_fields[OF assms(1), of "cf_wp f"] by (auto simp: user_ok_def counters_ok_def)

lemma gc_page_free:
  assumes "geo_ok (cf_sp f)" "gc_ok f"
  shows "st (blks_of f) (wp_page (cf_gc_wp f)) = PG_FREE"
  using assms wp_page_fields[OF assms(1), of "cf_gc_wp f"] by (auto simp: gc_ok_def gc_fill_def)

section \<open>Invalidating the old page of a logical page\<close>

lemma map_ok_forget:
  assumes m: "map_ok spp B {} {} maptbl rmap" and g: "geo_ok spp" and n: "nand_ok spp B"
    and lpn: "lpn < tt_pgs spp" and a: "a = maptbl ! lpn" "a \<noteq> UNMAPPED_PPA"
  shows "map_ok spp (restatus B a PG_INVALID 1 (-1)) {} {lpn} maptbl (rmap[pgidx spp a := r])"
proof -
  let ?B = "restatus B a PG_INVALID 1 (-1)" and ?r = "rmap[pgidx spp a := r]"
  have ok: "addr_ok spp a" "st B a = PG_VALID" "rmap ! pgidx spp a = lpn"
    using m lpn a by (auto simp: map_ok_def)
  have len: "length maptbl = tt_pgs spp" "length rmap = tt_pgs spp" using m by (auto simp: map_ok_def)
  have stB: "st ?B x = (if x = a then PG_INVALID else st B x)" if "addr_ok spp x" for x
    using st_restatus[OF n ok(1) that] .
  have rm: "?r ! pgidx spp x = rmap ! pgidx spp x" if "addr_ok spp x" "x \<noteq> a" for x
    using pgidx_inj[OF that(1) ok(1)] that(2) by (metis nth_list_update_neq)
  have "addr_ok spp (maptbl ! k) \<and> st ?B (maptbl ! k) = PG_VALID \<and> ?r ! pgidx spp (maptbl ! k) = k"
    if k: "k < tt_pgs spp" "k \<noteq> lpn" "maptbl ! k \<noteq> UNMAPPED_PPA" for k
  proof -
    have old: "addr_ok spp (maptbl ! k)" "st B (maptbl ! k) = PG_VALID" "rmap ! pgidx spp (maptbl ! k) = k"
      using m k by (auto simp: map_ok_def)
    then have "maptbl ! k \<noteq> a" using ok(3) k(2) by auto
    then show ?thesis using old stB[OF old(1)] rm[OF old(1)] by simp
  qed
  moreover have "?r ! pgidx spp x < tt_pgs spp \<and> ?r ! pgidx spp x \<noteq> lpn \<and> maptbl ! (?r ! pgidx spp x) = x"
    if x: "addr_ok spp x" "st ?B x = PG_VALID" for x
  proof -
    have xa: "x \<noteq> a" "st B x = PG_VALID" using x stB[OF x(1)] by (auto split: if_splits)
    then have "rmap ! pgidx spp x < tt_pgs spp" "maptbl ! (rmap ! pgidx spp x) = x"
      using m x(1) by (auto simp: map_ok_def)
    then show ?thesis using rm[OF x(1) xa(1)] xa(1) a(1) by auto
  qed
  ultimately show ?thesis using len by (simp add: map_ok_def)
qed

lemma map_ok_unmapped:
  assumes "map_ok spp B {} {} maptbl rmap" "maptbl ! lpn = UNMAPPED_PPA"
  shows "map_ok spp B {} {lpn} maptbl rmap"
  using assms addr_ok_mapped unfolding map_ok_def by (metis empty_iff singletonD)

text \<open>What a step leaves alone.\<close>

definition step_frame :: "conv_ftl \<Rightarrow> conv_ftl \<Rightarrow> bool" where
  "step_frame f f' \<longleftrightarrow> cf_sp f' = cf_sp f \<and> cf_cp f' = cf_cp f \<and> cf_wfc f' = cf_wfc f \<and>
     ssd_write_buffer (cf_ssd f') = ssd_write_buffer (cf_ssd f)"

lemma step_frame_refl [simp]: "step_frame f f"
  by (simp add: step_frame_def)

lemma step_frame_trans: "step_frame f f' \<Longrightarrow> step_frame f' f'' \<Longrightarrow> step_frame f f''"
  by (simp add: step_frame_def)

lemma mark_page_invalid_ok:
  assumes c: "core {} {} {} f" and w: "user_ok f" "gc_ok f"
    and a: "addr_ok (cf_sp f) a" "st (blks_of f) a = PG_VALID"
  shows "\<exists>f'. mark_page_invalid f a = Some f' \<and> inval_post f a f'"
proof -
  let ?spp = "cf_sp f"
  have g: "geo_ok ?spp"
    and p: "part_ok ?spp (blks_of f) {} (wp_curline (cf_wp f)) (wp_curline (cf_gc_wp f)) (cf_lm f)"
    using c by (auto simp: core_def)
  from p line_lt[OF g a(1)] show ?thesis
  proof (cases rule: part_cases)
    case 1
    then have "st (blks_of f) a = PG_FREE"
      using p page_in_sets(1)[OF a(1)] by (auto simp: part_ok_def part_status_def)
    then show ?thesis using a(2) by simp
  next
    case 2 then show ?thesis by (rule mark_page_invalid_full[OF c a])
  next
    case 3 then show ?thesis by (rule mark_page_invalid_victim[OF c a])
  next
    case 4
    have wu: "wp_place_ok ?spp (cf_wp f)" "wp_place_ok ?spp (cf_gc_wp f)"
      using w by (auto simp: user_ok_def gc_ok_def)
    have "\<exists>x\<in>line_pages ?spp (p_blk a). st (blks_of f) x = PG_FREE"
      using 4 wp_page_fields(6)[OF g wu(1)] wp_page_fields(6)[OF g wu(2)]
        user_page_free[OF g w(1)] gc_page_free[OF g w(2)] by auto
    then show ?thesis using mark_page_invalid_current[OF c a 4] by blast
  qed
qed

lemma invalidate_lpn_ok:
  assumes c: "core {} {} {} f" and w: "user_ok f" "gc_ok f" and lpn: "lpn < tt_pgs (cf_sp f)"
  shows "\<exists>f'. invalidate_lpn f lpn = Some f' \<and> core {} {lpn} {} f' \<and> user_ok f' \<and> gc_ok f' \<and>
    step_frame f f' \<and> cf_maptbl f' = cf_maptbl f \<and> free_set f' = free_set f \<and> cf_wp f' = cf_wp f"
proof -
  let ?spp = "cf_sp f" and ?B = "blks_of f" and ?a = "cf_maptbl f ! lpn"
  have g: "geo_ok ?spp" and n: "nand_ok ?spp ?B" and s: "ssd_ok (cf_ssd f)"
    and m: "map_ok ?spp ?B {} {} (cf_maptbl f) (cf_rmap f)" using c by (auto simp: core_def)
  have get: "get_maptbl_ent f lpn = Some ?a" using m lpn by (simp add: get_maptbl_ent_def map_ok_def)
  show ?thesis
  proof (cases "mapped_ppa ?a")
    case False
    then have "?a = UNMAPPED_PPA" by (simp add: mapped_ppa_def)
    then have "core {} {lpn} {} f" using c map_ok_unmapped[OF m] by (simp add: core_def)
    then show ?thesis using get False w by (simp add: invalidate_lpn_def)
  next
    case True
    then have un: "?a \<noteq> UNMAPPED_PPA" by (simp add: mapped_ppa_def)
    then have a: "addr_ok ?spp ?a" "st ?B ?a = PG_VALID" using m lpn by (auto simp: map_ok_def)
    let ?B' = "restatus ?B ?a PG_INVALID 1 (-1)"
    obtain f1 lm' where f1: "mark_page_invalid f ?a = Some f1"
      "f1 = f\<lparr>cf_ssd := (cf_ssd f)\<lparr>ssd_blk := ?B'\<rparr>, cf_lm := lm'\<rparr>" "lm_free lm' = lm_free (cf_lm f)"
      "lines_ok ?spp ?B' {} (lm_lines lm')"
      "part_ok ?spp ?B' {} (wp_curline (cf_wp f)) (wp_curline (cf_gc_wp f)) lm'" "queue_ok ?spp lm'"
      using mark_page_invalid_ok[OF c w a] unfolding inval_post_def by blast
    let ?f2 = "f1\<lparr>cf_rmap := (cf_rmap f)[pgidx ?spp ?a := INVALID_LPN]\<rparr>"
    have "set_rmap_ent f1 INVALID_LPN ?a = Some ?f2"
      using ppa2pgidx_eq[of f1 ?a] g a(1) pgidx_less[OF g a(1)] m f1(2)
      by (simp add: set_rmap_ent_def map_ok_def)
    then have run: "invalidate_lpn f lpn = Some ?f2"
      using get True f1(1) by (simp add: invalidate_lpn_def)
    have fr: "same_free ?spp ?B ?B'"
      using st_restatus[OF n a(1)] a(2) by (simp add: same_free_def)
    have "core {} {lpn} {} ?f2"
      using c f1 map_ok_forget[OF m g n lpn refl un] nand_ok_restatus[OF g n a, of PG_INVALID]
      by (simp add: core_def ssd_ok_def)
    moreover have "user_ok ?f2" using w(1) f1(2) counters_ok_cong[OF fr] by (simp add: user_ok_def)
    moreover have "gc_ok ?f2" using w(2) f1(2) gc_fill_cong[OF fr] by (simp add: gc_ok_def)
    moreover have "free_set ?f2 = free_set f" using fr f1(2) by (auto simp: free_set_def same_free_def)
    moreover have "step_frame f ?f2" "cf_maptbl ?f2 = cf_maptbl f" "cf_wp ?f2 = cf_wp f" using f1(2) by (simp_all add: step_frame_def)
    ultimately show ?thesis using run by blast
  qed
qed

section \<open>Switching to a fresh line\<close>

lemma part_ok_swap: "part_ok spp B tr wl gl lm \<Longrightarrow> part_ok spp B tr gl wl lm"
  unfolding part_ok_def part_sets_def by auto

lemma part_sets_iff:
  "part_sets n tr wl gl lm \<longleftrightarrow>
     distinct (lm_free lm) \<and> distinct (lm_full lm) \<and> wl \<noteq> gl \<and> wl \<notin> settled lm \<and> gl \<notin> settled lm \<and>
     set (lm_free lm) \<inter> set (lm_full lm) = {} \<and> pq_elems (lm_victim_pq lm) \<inter> set (lm_free lm) = {} \<and>
     pq_elems (lm_victim_pq lm) \<inter> set (lm_full lm) = {} \<and> wl \<notin> tr \<and> gl \<notin> tr \<and> tr \<inter> settled lm = {} \<and>
     (\<forall>k. k < n \<longleftrightarrow> k \<in> settled lm \<or> k = wl \<or> k = gl \<or> k \<in> tr)"
proof -
  have eq: "pq_elems (lm_victim_pq lm) \<union> set (lm_free lm @ lm_full lm @ [wl, gl]) \<union> tr = {..<n} \<longleftrightarrow>
      (\<forall>k. k < n \<longleftrightarrow> k \<in> settled lm \<or> k = wl \<or> k = gl \<or> k \<in> tr)"
    unfolding set_eq_iff by auto
  show ?thesis unfolding part_sets_def eq by auto
qed

lemma no_free_counts:
  assumes "geo_ok spp" "l < tt_lines spp" "lines_ok spp B tr ls" "l \<notin> tr"
    "\<forall>a\<in>line_pages spp l. st B a \<noteq> PG_FREE"
  shows "ln_vpc (ls ! l) + ln_ipc (ls ! l) = int (pgs_per_line spp)" "0 \<le> ln_vpc (ls ! l)" "0 \<le> ln_ipc (ls ! l)"
proof -
  have fin: "finite (line_pages spp l)" "card (line_pages spp l) = pgs_per_line spp"
    using line_pages_card[OF assms(1)] assms(2) geo_small(2)[OF assms(1)] by auto
  have "{a \<in> line_pages spp l. st B a = PG_FREE} = {}" using assms(5) by auto
  then have "count_in B PG_FREE (line_pages spp l) = 0" unfolding count_in_def by (simp only: card.empty)
  then have "count_in B PG_VALID (line_pages spp l) + count_in B PG_INVALID (line_pages spp l) = pgs_per_line spp"
    using count_in_total[OF fin(1), of B] fin(2) by simp
  then show "ln_vpc (ls ! l) + ln_ipc (ls ! l) = int (pgs_per_line spp)" "0 \<le> ln_vpc (ls ! l)" "0 \<le> ln_ipc (ls ! l)"
    using assms(2-4) by (auto simp: lines_ok_def)
qed

text \<open>The line under the pointer, now without free pages, goes to the full list or into the
  victim queue; the first free line takes its place.\<close>

lemma retire_line_ok:
  assumes g: "geo_ok (cf_sp f)" and lk: "lines_ok (cf_sp f) (blks_of f) tr (lm_lines (cf_lm f))"
    and p: "part_ok (cf_sp f) (blks_of f) tr wl gl (cf_lm f)" and q: "queue_ok (cf_sp f) (cf_lm f)"
    and nofree: "\<forall>a\<in>line_pages (cf_sp f) wl. st (blks_of f) a \<noteq> PG_FREE"
    and hd: "lm_free (cf_lm f) = l # rest"
  shows "\<exists>lm1. retire_line f wl = Some (f\<lparr>cf_lm := lm1\<rparr>) \<and> lm_free lm1 = l # rest \<and>
    lm_free_cnt lm1 = lm_free_cnt (cf_lm f) \<and>
    lines_ok (cf_sp f) (blks_of f) tr (lm_lines lm1) \<and> queue_ok (cf_sp f) lm1 \<and>
    part_ok (cf_sp f) (blks_of f) tr l gl (lm1\<lparr>lm_free := rest, lm_free_cnt := dec32 (lm_free_cnt lm1)\<rparr>)"
proof -
  let ?spp = "cf_sp f" and ?B = "blks_of f" and ?lm = "cf_lm f"
  let ?n = "tt_lines ?spp" and ?P = "int (pgs_per_line ?spp)" and ?ln = "lm_lines ?lm ! wl"
  let ?q = "lm_victim_pq ?lm"
  have sets: "part_sets ?n tr wl gl ?lm" and cnt: "part_counts ?n ?lm" and stat: "part_status ?spp ?B ?lm"
    using p by (auto simp: part_ok_def)
  have wl: "wl < ?n" "wl \<notin> tr" "wl \<notin> pq_elems ?q" using sets by (auto simp: part_sets_def)
  have sub: "pq_elems ?q \<subseteq> {..<?n}" using sets by (auto simp: part_sets_def)
  have len: "length (lm_lines ?lm) = ?n" using lk by (simp add: lines_ok_def)
  note nf = no_free_counts[OF g wl(1) lk wl(2) nofree]
  have subs: "set (lm_free ?lm) \<subseteq> {..<?n}" "set (lm_full ?lm) \<subseteq> {..<?n}"
    "distinct (lm_free ?lm)" "distinct (lm_full ?lm)" using sets by (auto simp: part_sets_def)
  have small: "length (lm_free ?lm) \<le> 65536" "length (lm_full ?lm) \<le> 65536" "card (pq_elems ?q) \<le> 65536"
    using card_mono[OF _ subs(1)] card_mono[OF _ subs(2)] card_mono[OF _ sub] distinct_card[OF subs(3)]
      distinct_card[OF subs(4)] geo_small(3)[OF g] by auto
  show ?thesis
  proof (cases "ln_vpc ?ln = ?P")
    case True
    then have i0: "ln_ipc ?ln = 0" using nf by simp
    let ?lm1 = "?lm\<lparr>lm_full := lm_full ?lm @ [wl], lm_full_cnt := add32 (lm_full_cnt ?lm) 1\<rparr>"
    have run: "retire_line f wl = Some (f\<lparr>cf_lm := ?lm1\<rparr>)"
      using True i0 wl(1) len by (simp add: retire_line_def Let_def)
    have fin: "finite (line_pages ?spp wl)" "card (line_pages ?spp wl) = pgs_per_line ?spp"
      using line_pages_card[OF g] wl(1) geo_small(2)[OF g] by auto
    have "card {a \<in> line_pages ?spp wl. st ?B a = PG_VALID} = card (line_pages ?spp wl)"
      using True lk wl fin(2) by (simp add: lines_ok_def count_in_def)
    then have "{a \<in> line_pages ?spp wl. st ?B a = PG_VALID} = line_pages ?spp wl"
      by (intro card_subset_eq[OF fin(1)]) auto
    then have allv: "\<forall>a\<in>line_pages ?spp wl. st ?B a = PG_VALID" by blast
    let ?lm2 = "?lm1\<lparr>lm_free := rest, lm_free_cnt := dec32 (lm_free_cnt ?lm1)\<rparr>"
    have "part_sets ?n tr l gl ?lm2" using sets hd unfolding part_sets_iff by auto
    moreover have "part_counts ?n ?lm2" using cnt hd small by (simp add: part_counts_def)
    moreover have "part_status ?spp ?B ?lm2" using stat hd allv unfolding part_status_def by auto
    ultimately have "part_ok ?spp ?B tr l gl ?lm2" by (simp add: part_ok_def)
    then show ?thesis using run hd lk queue_ok_cong[OF q, of ?lm1] by auto
  next
    case False
    then have v: "0 \<le> ln_vpc ?ln" "ln_vpc ?ln < ?P" "0 < ln_ipc ?ln" using nf by auto
    have inv: "vpq.pq_inv (lm_lines ?lm) ?q" "pq_avail ?q = ?n + 1"
      and pos: "\<forall>k<?n. k \<notin> pq_elems ?q \<longrightarrow> ln_pos (lm_lines ?lm ! k) = 0"
      using q by (auto simp: queue_ok_def)
    obtain ls' q' where r: "pqueue_insert (lm_lines ?lm) ?q wl = Some (ls', q')" "vpq.pq_inv ls' q'"
      "pq_elems q' = insert wl (pq_elems ?q)" "pq_avail q' = ?n + 1" "length ls' = ?n"
      "\<forall>k<?n. ln_id (ls' ! k) = ln_id (lm_lines ?lm ! k) \<and> ln_vpc (ls' ! k) = ln_vpc (lm_lines ?lm ! k) \<and>
        ln_ipc (ls' ! k) = ln_ipc (lm_lines ?lm ! k)"
      "\<forall>k<?n. ln_pos (ls' ! k) \<noteq> 0 \<longleftrightarrow> k \<in> pq_elems q'"
      using queue_insert[OF inv(1) sub wl(1,3) inv(2) len pos] by blast
    let ?lm1 = "?lm\<lparr>lm_lines := ls', lm_victim_pq := q', lm_victim_cnt := add32 (lm_victim_cnt ?lm) 1\<rparr>"
    have run: "retire_line f wl = Some (f\<lparr>cf_lm := ?lm1\<rparr>)"
      using False v wl(1) len r(1) by (simp add: retire_line_def Let_def)
    let ?lm2 = "?lm1\<lparr>lm_free := rest, lm_free_cnt := dec32 (lm_free_cnt ?lm1)\<rparr>"
    have "0 < count_in ?B PG_INVALID (line_pages ?spp wl)" using v(3) lk wl by (simp add: lines_ok_def)
    then have "{a \<in> line_pages ?spp wl. st ?B a = PG_INVALID} \<noteq> {}"
      unfolding count_in_def by (metis card.empty less_irrefl)
    then have inval: "\<exists>a\<in>line_pages ?spp wl. st ?B a = PG_INVALID" by blast
    have "part_sets ?n tr l gl ?lm2" using sets hd r(3) unfolding part_sets_iff by auto
    moreover have "card (insert wl (pq_elems ?q)) = Suc (card (pq_elems ?q))"
      using wl(3) finite_subset[OF sub] by simp
    then have "part_counts ?n ?lm2" using cnt hd small r(3) by (simp add: part_counts_def)
    moreover have "part_status ?spp ?B ?lm2" using stat hd inval nofree r(3) unfolding part_status_def by auto
    ultimately have "part_ok ?spp ?B tr l gl ?lm2" by (simp add: part_ok_def)
    moreover have "lines_ok ?spp ?B tr ls'" using lk r(5,6) by (simp add: lines_ok_def)
    moreover have "queue_ok ?spp ?lm1" using r by (simp add: queue_ok_def)
    ultimately show ?thesis using run hd by auto
  qed
qed

text \<open>There is a free line to switch to whenever more pages are free than one line holds: free
  pages are only found in free lines and under the write pointers.\<close>

lemma free_line_exists:
  assumes g: "geo_ok (cf_sp f)" and p: "part_ok (cf_sp f) (blks_of f) tr wl gl (cf_lm f)"
    and nofree: "\<forall>a\<in>line_pages (cf_sp f) wl. st (blks_of f) a \<noteq> PG_FREE"
    and room: "pgs_per_line (cf_sp f) < card {a \<in> free_set f. p_blk a \<notin> tr}"
  shows "\<exists>l rest. lm_free (cf_lm f) = l # rest"
proof (rule ccontr)
  assume "\<nexists>l rest. lm_free (cf_lm f) = l # rest"
  then have e: "lm_free (cf_lm f) = []" by (cases "lm_free (cf_lm f)") auto
  let ?spp = "cf_sp f"
  have sets: "part_sets (tt_lines ?spp) tr wl gl (cf_lm f)" and stat: "part_status ?spp (blks_of f) (cf_lm f)"
    using p by (auto simp: part_ok_def)
  have sub: "{a \<in> free_set f. p_blk a \<notin> tr} \<subseteq> line_pages ?spp gl"
  proof
    fix a assume "a \<in> {a \<in> free_set f. p_blk a \<notin> tr}"
    then have a: "addr_ok ?spp a" "st (blks_of f) a = PG_FREE" "p_blk a \<notin> tr" by (auto simp: free_set_def)
    have "p_blk a \<in> {..<tt_lines ?spp}" using line_lt[OF g a(1)] by simp
    then have "p_blk a \<in> pq_elems (lm_victim_pq (cf_lm f)) \<or> p_blk a \<in> set (lm_full (cf_lm f)) \<or> p_blk a = wl \<or> p_blk a = gl"
      using sets e a(3) unfolding part_sets_iff by auto
    moreover have "p_blk a \<notin> pq_elems (lm_victim_pq (cf_lm f))" "p_blk a \<notin> set (lm_full (cf_lm f))" "p_blk a \<noteq> wl"
      using stat nofree page_in_sets(1)[OF a(1)] a(2) unfolding part_status_def by fastforce+
    ultimately show "a \<in> line_pages ?spp gl" using a(1) by (auto simp: line_pages_def)
  qed
  have "gl < tt_lines ?spp" using sets unfolding part_sets_iff by simp
  then have "finite (line_pages ?spp gl)" "card (line_pages ?spp gl) = pgs_per_line ?spp"
    using line_pages_card[OF g] geo_small(2)[OF g] by auto
  then show False using card_mono[OF _ sub] room by simp
qed

section \<open>Searching the next die\<close>

text \<open>Dies in the order of the search, channels first.\<close>

definition die_of :: "ssdparams \<Rightarrow> nat \<Rightarrow> nat \<times> nat" where
  "die_of spp j = (j mod nchs spp, j div nchs spp)"

abbreviation die_ord :: "ssdparams \<Rightarrow> nat \<Rightarrow> nat \<Rightarrow> nat" where
  "die_ord spp ch lun \<equiv> lun * nchs spp + ch"

abbreviation ndies :: "ssdparams \<Rightarrow> nat" where
  "ndies spp \<equiv> luns_per_ch spp * nchs spp"

lemma die_of_ord: "ch < nchs spp \<Longrightarrow> die_of spp (die_ord spp ch lun) = (ch, lun)"
  by (simp add: die_of_def)

lemma die_of_range:
  assumes "j < ndies spp" "die_of spp j = (ch, lun)"
  shows "ch < nchs spp" "lun < luns_per_ch spp" "die_ord spp ch lun = j"
proof -
  have "0 < nchs spp" using assms(1) by (cases "nchs spp") auto
  then show "ch < nchs spp" "die_ord spp ch lun = j" using assms(2) by (auto simp: die_of_def)
  show "lun < luns_per_ch spp" using assms by (auto simp: die_of_def less_mult_imp_div_less)
qed

lemma next_die_eq:
  assumes "ch < nchs spp" "lun < luns_per_ch spp"
  shows "next_die spp ch lun = Some (die_of spp ((die_ord spp ch lun + 1) mod ndies spp))"
proof (cases "ch + 1 = nchs spp")
  case True
  then have o: "die_ord spp ch lun + 1 = (lun + 1) * nchs spp" by simp
  show ?thesis
  proof (cases "lun + 1 = luns_per_ch spp")
    case last: True
    then show ?thesis using True assms o by (simp add: next_die_def check_addr_def die_of_def)
  next
    case False
    then have "(lun + 1) * nchs spp < ndies spp" using assms by (intro mult_strict_right_mono) auto
    then show ?thesis using True False assms o
      by (simp add: next_die_def check_addr_def die_of_def del: mult_Suc)
  qed
next
  case False
  then have ch: "ch + 1 < nchs spp" using assms by simp
  then have "die_ord spp ch lun + 1 < ndies spp"
    using radix_less[OF assms(2) ch] by simp
  moreover have "die_of spp (die_ord spp ch lun + 1) = (ch + 1, lun)" using die_of_ord[OF ch, of lun] by simp
  ultimately show ?thesis using False assms by (simp add: next_die_def check_addr_def)
qed

definition die_full :: "ssdparams \<Rightarrow> nat list \<Rightarrow> nat \<Rightarrow> bool" where
  "die_full spp counter j \<longleftrightarrow> (case die_of spp j of (ch, lun) \<Rightarrow> pgs_per_blk spp \<le> counter ! die_idx spp ch lun)"

lemma die_idx_less:
  "ch < nchs spp \<Longrightarrow> lun < luns_per_ch spp \<Longrightarrow> die_idx spp ch lun < nchs spp * luns_per_ch spp"
  by (rule radix_less)

lemma find_die_ok:
  assumes len: "length counter = nchs spp * luns_per_ch spp" and s: "sc < nchs spp" "sl < luns_per_ch spp"
  shows "k < ndies spp \<Longrightarrow> die_of spp ((die_ord spp sc sl + k) mod ndies spp) = (ch, lun) \<Longrightarrow>
    (\<And>i. 1 \<le> i \<Longrightarrow> i \<le> k \<Longrightarrow> die_full spp counter ((die_ord spp sc sl + i) mod ndies spp)) \<Longrightarrow>
    \<exists>found ch' lun'. find_die spp counter sc sl ch lun = Some (found, ch', lun') \<and>
      ch' < nchs spp \<and> lun' < luns_per_ch spp \<and>
      (found \<longrightarrow> counter ! die_idx spp ch' lun' < pgs_per_blk spp) \<and>
      (\<not> found \<longrightarrow> (\<forall>j<ndies spp. die_full spp counter j))"
proof (induction "ndies spp - k" arbitrary: k ch lun rule: less_induct)
  case less
  let ?D = "ndies spp" and ?s = "die_ord spp sc sl"
  have D: "0 < ?D" using s by auto
  have sD: "?s < ?D" using radix_less[OF s(2,1)] by simp
  have r: "ch < nchs spp" "lun < luns_per_ch spp" "die_ord spp ch lun = (?s + k) mod ?D"
    using die_of_range[OF _ less.prems(2)] D by auto
  obtain ch' lun' where nx: "die_of spp ((?s + Suc k) mod ?D) = (ch', lun')" by fastforce
  have r': "ch' < nchs spp" "lun' < luns_per_ch spp" "die_ord spp ch' lun' = (?s + Suc k) mod ?D"
    using die_of_range[OF _ nx] D by auto
  have nd: "next_die spp ch lun = Some (ch', lun')"
    using next_die_eq[OF r(1,2)] r(3) nx by (simp add: mod_Suc_eq)
  let ?c = "counter ! die_idx spp ch' lun'"
  have rd: "array_read counter (die_idx spp ch' lun') = Some ?c"
    using die_idx_less[OF r'(1,2)] len by simp
  have unfold: "find_die spp counter sc sl ch lun =
      (if ?c < pgs_per_blk spp then Some (True, ch', lun')
       else if ch' \<noteq> sc \<or> lun' \<noteq> sl then find_die spp counter sc sl ch' lun' else Some (False, ch', lun'))"
    by (subst find_die.simps) (simp add: nd rd)
  show ?case
  proof (cases "?c < pgs_per_blk spp")
    case True then show ?thesis using unfold r' by auto
  next
    case full: False
    have fullk: "die_full spp counter ((?s + i) mod ?D)" if "1 \<le> i" "i \<le> Suc k" for i
      using less.prems(3)[of i] that nx full by (cases "i = Suc k") (auto simp: die_full_def)
    show ?thesis
    proof (cases "Suc k = ?D")
      case True
      have "(?s + Suc k) mod ?D = ?s" using True sD by simp
      then have same: "ch' = sc" "lun' = sl" using nx die_of_ord[OF s(1)] by auto
      have "die_full spp counter j" if j: "j < ?D" for j
      proof -
        have "\<exists>i. 1 \<le> i \<and> i \<le> ?D \<and> (?s + i) mod ?D = j"
        proof (cases "j \<le> ?s")
          case True
          have "(?s + (?D + j - ?s)) mod ?D = (j + ?D) mod ?D" using True sD by (simp add: add.commute)
          then show ?thesis using True sD j by (intro exI[of _ "?D + j - ?s"]) auto
        next
          case False then show ?thesis using j by (intro exI[of _ "j - ?s"]) auto
        qed
        then show ?thesis using fullk True by auto
      qed
      then show ?thesis using unfold full same s by auto
    next
      case False
      then have k: "Suc k < ?D" using less.prems(1) by simp
      have "ch' \<noteq> sc \<or> lun' \<noteq> sl"
      proof (rule ccontr)
        assume "\<not> (ch' \<noteq> sc \<or> lun' \<noteq> sl)"
        then have e: "(?s + Suc k) mod ?D = ?s" using r'(3) by simp
        have "(?s + Suc k) mod ?D \<noteq> ?s"
        proof (cases "?s + Suc k < ?D")
          case False
          then have "(?s + Suc k) mod ?D = ?s + Suc k - ?D"
            using k sD by (simp add: le_mod_geq)
          then show ?thesis using k False by simp
        qed simp
        then show False using e by simp
      qed
      then show ?thesis using unfold full less.hyps[OF _ k nx fullk] less.prems(1) by simp
    qed
  qed
qed

lemma find_die_start:
  assumes "length counter = nchs spp * luns_per_ch spp" "ch < nchs spp" "lun < luns_per_ch spp"
    "\<forall>c\<in>set counter. c \<le> pgs_per_blk spp"
  shows "\<exists>found ch' lun'. find_die spp counter ch lun ch lun = Some (found, ch', lun') \<and>
      ch' < nchs spp \<and> lun' < luns_per_ch spp \<and>
      (found \<longrightarrow> counter ! die_idx spp ch' lun' < pgs_per_blk spp) \<and>
      (\<not> found \<longrightarrow> (\<forall>c\<in>set counter. c = pgs_per_blk spp))"
proof -
  let ?D = "ndies spp"
  have "die_ord spp ch lun < ?D" using radix_less[OF assms(3,2)] by simp
  then have D: "0 < ?D" "die_of spp ((die_ord spp ch lun + 0) mod ?D) = (ch, lun)"
    using die_of_ord[OF assms(2)] assms(2,3) by auto
  have "c = pgs_per_blk spp" if all: "\<forall>j<?D. die_full spp counter j" and c: "c \<in> set counter" for c
  proof -
    obtain i where i: "i < length counter" "c = counter ! i" using c by (auto simp: in_set_conv_nth)
    have L: "0 < luns_per_ch spp" using assms(3) by simp
    have x: "i div luns_per_ch spp < nchs spp" "i mod luns_per_ch spp < luns_per_ch spp"
      using i(1) assms(1) L by (auto simp: less_mult_imp_div_less)
    have "die_ord spp (i div luns_per_ch spp) (i mod luns_per_ch spp) < ?D" using radix_less[OF x(2,1)] by simp
    then have "pgs_per_blk spp \<le> c"
      using all i(2) die_of_ord[OF x(1), of "i mod luns_per_ch spp"] by (auto simp: die_full_def)
    then show ?thesis using assms(4) c by (simp add: le_antisym)
  qed
  then show ?thesis using find_die_ok[OF assms(1-3) D] by fastforce
qed

lemma die_indices_eq: "die_indices spp = [0..<nchs spp * luns_per_ch spp]"
proof -
  have "concat (map (\<lambda>i. map (\<lambda>j. i * L + j) [0..<L]) [0..<N]) = [0..<N * L]" for N L :: nat
  proof (induction N)
    case (Suc N)
    have "map (\<lambda>j. N * L + j) [0..<L] = [N * L..<N * L + L]"
      using map_add_upt[of "N * L" L] by (simp add: add.commute)
    moreover have "[0..<N * L + L] = [0..<N * L] @ [N * L..<N * L + L]" by (rule upt_add_eq_append) simp
    ultimately show ?case using Suc by (simp add: add.commute)
  qed simp
  then show ?thesis by (simp add: die_indices_def)
qed

lemma reset_page_counter_ok:
  assumes "length counter = nchs spp * luns_per_ch spp" "\<forall>c\<in>set counter. c = pgs_per_blk spp"
  shows "reset_page_counter spp counter = Some (replicate (nchs spp * luns_per_ch spp) 0)"
proof -
  let ?n = "nchs spp * luns_per_ch spp"
  let ?P = "\<lambda>i c. length c = ?n \<and> (\<forall>k<?n. c ! k = (if k < i then 0 else pgs_per_blk spp))"
  have "\<exists>c. foldM (\<lambda>i counter. do { c \<leftarrow> array_read counter i; nvmev_assert (c = pgs_per_blk spp);
        array_write counter i 0 }) [0..<?n] counter = Some c \<and> ?P (length [0..<?n]) c"
    by (rule foldM_invariant) (use assms in \<open>auto simp: nth_list_update\<close>)
  then obtain c where c: "foldM (\<lambda>i counter. do { c \<leftarrow> array_read counter i; nvmev_assert (c = pgs_per_blk spp);
        array_write counter i 0 }) [0..<?n] counter = Some c" "?P ?n c" by auto
  then have "c = replicate ?n 0" by (auto simp: list_eq_iff_nth_eq)
  then show ?thesis using c(1) by (simp add: reset_page_counter_def die_indices_eq)
qed

section \<open>Advancing the user write pointer\<close>

text \<open>Between placing a page and advancing the pointer the counter of the current die lags
  one page behind.\<close>

abbreviation wp_die :: "conv_ftl \<Rightarrow> nat" where
  "wp_die f \<equiv> die_idx (cf_sp f) (wp_ch (cf_wp f)) (wp_lun (cf_wp f))"

definition user_mid :: "conv_ftl \<Rightarrow> bool" where
  "user_mid f \<longleftrightarrow> wp_place_ok (cf_sp f) (cf_wp f) \<and>
     wp_pg (cf_wp f) = cf_page_counter f ! wp_die f \<and>
     counters_ok (cf_sp f) (blks_of f) (wp_curline (cf_wp f))
       ((cf_page_counter f)[wp_die f := Suc (wp_pg (cf_wp f))])"

lemma counters_ok_place:
  assumes n: "nand_ok spp B" and c: "counters_ok spp B l counter" and a: "a \<in> line_pages spp l"
    "p_pg a = counter ! die_idx spp (p_ch a) (p_lun a)"
  shows "counters_ok spp (restatus B a PG_VALID 0 1) l (counter[die_idx spp (p_ch a) (p_lun a) := Suc (p_pg a)])"
proof -
  have ok: "addr_ok spp a" and al: "p_blk a = l" using a(1) by (auto simp: line_pages_def)
  have len: "length counter = nchs spp * luns_per_ch spp" using c by (simp add: counters_ok_def)
  have lt: "die_idx spp (p_ch a) (p_lun a) < length counter"
    using die_idx_less ok len by (simp add: addr_ok_def)
  have "st (restatus B a PG_VALID 0 1) x = PG_FREE \<longleftrightarrow>
      counter[die_idx spp (p_ch a) (p_lun a) := Suc (p_pg a)] ! die_idx spp (p_ch x) (p_lun x) \<le> p_pg x"
    if x: "x \<in> line_pages spp l" for x
  proof -
    have xok: "addr_ok spp x" "p_blk x = l" using x by (auto simp: line_pages_def)
    have old: "st B x = PG_FREE \<longleftrightarrow> counter ! die_idx spp (p_ch x) (p_lun x) \<le> p_pg x"
      using c x by (simp add: counters_ok_def)
    show ?thesis
    proof (cases "die_idx spp (p_ch x) (p_lun x) = die_idx spp (p_ch a) (p_lun a)")
      case True
      have "p_ch x = p_ch a" "p_lun x = p_lun a"
        using radix_inj[OF True] ok xok by (auto simp: addr_ok_def)
      then have "x = a \<longleftrightarrow> p_pg x = p_pg a" using ok xok al by (auto simp: addr_ok_def)
      then show ?thesis using st_restatus[OF n ok xok(1)] old True a(2) lt by auto
    next
      case False
      then have "x \<noteq> a" by auto
      then show ?thesis using st_restatus[OF n ok xok(1)] old False lt by simp
    qed
  qed
  moreover have "\<forall>k\<in>set (counter[die_idx spp (p_ch a) (p_lun a) := Suc (p_pg a)]). k \<le> pgs_per_blk spp"
    using c ok set_update_subset_insert[of counter "die_idx spp (p_ch a) (p_lun a)" "Suc (p_pg a)"]
    by (auto simp: counters_ok_def addr_ok_def)
  ultimately show ?thesis using len by (simp add: counters_ok_def)
qed

lemma gc_fill_other_line:
  assumes "gc_fill spp B l r" "only_line spp k B B'" "k \<noteq> l"
  shows "gc_fill spp B' l r"
  using assms(1) only_line_pages[OF assms(2), of l] assms(3) by (auto simp: gc_fill_def)

lemma counters_other_line:
  assumes "counters_ok spp B l c" "only_line spp k B B'" "k \<noteq> l"
  shows "counters_ok spp B' l c"
  using assms(1) only_line_pages[OF assms(2), of l] assms(3) by (auto simp: counters_ok_def)

lemma core_wl_gl:
  assumes "core dead X tr f"
  shows "wp_curline (cf_wp f) \<noteq> wp_curline (cf_gc_wp f)" "wp_curline (cf_wp f) \<notin> tr" "wp_curline (cf_gc_wp f) \<notin> tr"
  using assms unfolding core_def part_ok_def part_sets_iff by auto

text \<open>Placing a host page.\<close>

lemma place_user_ok:
  assumes c: "core dead {lpn} tr f" and w: "user_ok f" "gc_ok f" and lpn: "lpn < tt_pgs (cf_sp f)"
  shows "place_lpn f USER_IO lpn = Some (placed f lpn (wp_page (cf_wp f)), wp_page (cf_wp f))"
    "core dead {} tr (placed f lpn (wp_page (cf_wp f)))"
    "user_mid (placed f lpn (wp_page (cf_wp f)))" "gc_ok (placed f lpn (wp_page (cf_wp f)))"
proof -
  let ?a = "wp_page (cf_wp f)" and ?spp = "cf_sp f"
  have g: "geo_ok ?spp" and n: "nand_ok ?spp (blks_of f)" using c by (auto simp: core_def)
  have wu: "wp_place_ok ?spp (cf_wp f)" using w by (simp add: user_ok_def)
  note pf = wp_page_fields[OF g wu]
  have fr: "st (blks_of f) ?a = PG_FREE" by (rule user_page_free[OF g w(1)])
  show "place_lpn f USER_IO lpn = Some (placed f lpn ?a, ?a)"
    using place_lpn_eq(1)[OF c lpn, of USER_IO ?a] wu fr pf by (simp add: get_wp_def)
  show "core dead {} tr (placed f lpn ?a)"
    using core_place[OF c lpn pf(1) fr] pf(5) by simp
  have "counters_ok ?spp (restatus (blks_of f) ?a PG_VALID 0 1) (wp_curline (cf_wp f))
      ((cf_page_counter f)[die_idx ?spp (p_ch ?a) (p_lun ?a) := Suc (p_pg ?a)])"
    using w(1) pf by (intro counters_ok_place[OF n]) (auto simp: user_ok_def)
  then show "user_mid (placed f lpn ?a)"
    using w(1) pf by (simp add: user_mid_def user_ok_def)
  show "gc_ok (placed f lpn ?a)"
    using w(2) gc_fill_other_line[OF _ only_line_restatus[OF n pf(1)]] pf(5) core_wl_gl(1)[OF c]
    by (simp add: gc_ok_def)
qed

lemma user_out_ok:
  assumes c: "core {} {} {} f" and gc: "gc_ok f"
    and k: "counters_ok (cf_sp f) (blks_of f) (wp_curline w) (cf_page_counter f)"
    and w: "wp_pl w = 0" "wp_blk w = wp_curline w" "wp_blk w < blks_per_pl (cf_sp f)"
      "wp_ch w < nchs (cf_sp f)" "wp_lun w < luns_per_ch (cf_sp f)" "wp_curline w = wp_curline (cf_wp f)"
    and lt: "cf_page_counter f ! die_idx (cf_sp f) (wp_ch w) (wp_lun w) < pgs_per_blk (cf_sp f)"
  shows "\<exists>w'. user_out f w = Some (f\<lparr>cf_wp := w'\<rparr>) \<and> core {} {} {} (f\<lparr>cf_wp := w'\<rparr>) \<and>
    user_ok (f\<lparr>cf_wp := w'\<rparr>) \<and> gc_ok (f\<lparr>cf_wp := w'\<rparr>)"
proof -
  let ?i = "die_idx (cf_sp f) (wp_ch w) (wp_lun w)"
  let ?w = "w\<lparr>wp_pg := cf_page_counter f ! ?i\<rparr>"
  have "?i < length (cf_page_counter f)" using k die_idx_less[OF w(4,5)] by (simp add: counters_ok_def)
  then have "user_out f w = Some (f\<lparr>cf_wp := ?w\<rparr>)" by (simp add: user_out_def)
  moreover have "core {} {} {} (f\<lparr>cf_wp := ?w\<rparr>)" using c w(6) by (simp add: core_def)
  moreover have "user_ok (f\<lparr>cf_wp := ?w\<rparr>)" using k w lt by (simp add: user_ok_def wp_place_ok_def)
  moreover have "gc_ok (f\<lparr>cf_wp := ?w\<rparr>)" using gc by (simp add: gc_ok_def)
  ultimately show ?thesis by blast
qed

text \<open>Moving a pointer changes neither the tables nor any page.\<close>

definition moved :: "conv_ftl \<Rightarrow> conv_ftl \<Rightarrow> bool" where
  "moved f f' \<longleftrightarrow> step_frame f f' \<and> cf_ssd f' = cf_ssd f \<and> cf_maptbl f' = cf_maptbl f \<and> cf_rmap f' = cf_rmap f"

lemma core_parts:
  assumes "core dead X tr f"
  shows "geo_ok (cf_sp f)" "nand_ok (cf_sp f) (blks_of f)" "ssd_ok (cf_ssd f)"
    "map_ok (cf_sp f) (blks_of f) dead X (cf_maptbl f) (cf_rmap f)"
    "lines_ok (cf_sp f) (blks_of f) tr (lm_lines (cf_lm f))"
    "part_ok (cf_sp f) (blks_of f) tr (wp_curline (cf_wp f)) (wp_curline (cf_gc_wp f)) (cf_lm f)"
    "queue_ok (cf_sp f) (cf_lm f)" "\<forall>d\<in>dead. p_blk d \<in> tr"
  using assms by (auto simp: core_def)

lemma user_next_line_ok:
  assumes c: "core {} {} {} f" and gc: "gc_ok f"
    and k: "counters_ok (cf_sp f) (blks_of f) (wp_curline (cf_wp f)) (cf_page_counter f)"
    and all: "\<forall>c\<in>set (cf_page_counter f). c = pgs_per_blk (cf_sp f)"
    and w: "wp_curline w = wp_curline (cf_wp f)" "wp_blk w = wp_curline w" "wp_blk w < blks_per_pl (cf_sp f)"
    and room: "pgs_per_line (cf_sp f) < card (free_set f)"
  shows "\<exists>f'. user_next_line f w = Some f' \<and> core {} {} {} f' \<and> user_ok f' \<and> gc_ok f' \<and> moved f f'"
proof -
  let ?spp = "cf_sp f" and ?wl = "wp_curline (cf_wp f)" and ?gl = "wp_curline (cf_gc_wp f)"
  note parts = core_parts[OF c]
  have len: "length (cf_page_counter f) = nchs ?spp * luns_per_ch ?spp" using k by (simp add: counters_ok_def)
  let ?zero = "replicate (nchs ?spp * luns_per_ch ?spp) 0"
  have reset: "reset_page_counter ?spp (cf_page_counter f) = Some ?zero"
    by (rule reset_page_counter_ok[OF len all])
  have nofree: "\<forall>a\<in>line_pages ?spp ?wl. st (blks_of f) a \<noteq> PG_FREE"
  proof
    fix a assume a: "a \<in> line_pages ?spp ?wl"
    then have "die_idx ?spp (p_ch a) (p_lun a) < length (cf_page_counter f)" "p_pg a < pgs_per_blk ?spp"
      using die_idx_less len by (auto simp: line_pages_def addr_ok_def)
    moreover have "cf_page_counter f ! die_idx ?spp (p_ch a) (p_lun a) = pgs_per_blk ?spp"
      using all calculation(1) nth_mem by blast
    ultimately have "\<not> cf_page_counter f ! die_idx ?spp (p_ch a) (p_lun a) \<le> p_pg a" by simp
    then show "st (blks_of f) a \<noteq> PG_FREE" using k a by (simp add: counters_ok_def)
  qed
  obtain l rest where hd: "lm_free (cf_lm f) = l # rest"
    using free_line_exists[OF parts(1,6) nofree] room by auto
  let ?f0 = "f\<lparr>cf_page_counter := ?zero\<rparr>"
  obtain lm1 where lm1: "retire_line ?f0 ?wl = Some (?f0\<lparr>cf_lm := lm1\<rparr>)" "lm_free lm1 = l # rest"
    "lines_ok ?spp (blks_of f) {} (lm_lines lm1)" "queue_ok ?spp lm1"
    "part_ok ?spp (blks_of f) {} l ?gl (lm1\<lparr>lm_free := rest, lm_free_cnt := dec32 (lm_free_cnt lm1)\<rparr>)"
    using retire_line_ok[of ?f0 "{}" ?wl ?gl l rest] parts nofree hd by auto
  let ?lm2 = "lm1\<lparr>lm_free := rest, lm_free_cnt := dec32 (lm_free_cnt lm1)\<rparr>"
  let ?f2 = "?f0\<lparr>cf_lm := ?lm2\<rparr>"
  have nxt: "get_next_free_line (?f0\<lparr>cf_lm := lm1\<rparr>) = (Some l, ?f2)"
    using lm1(2) by (simp add: get_next_free_line_def)
  have lt: "l < tt_lines ?spp" using lm1(5) unfolding part_ok_def part_sets_iff by simp
  have id: "array_read (lm_lines lm1) l = Some (lm_lines lm1 ! l)" "ln_id (lm_lines lm1 ! l) = l"
    using lm1(3) lt by (auto simp: lines_ok_def)
  have dies: "0 < nchs ?spp" "0 < luns_per_ch ?spp" "0 < pgs_per_blk ?spp" using parts(1) by (auto simp: geo_ok_def)
  let ?w = "w\<lparr>wp_curline := l, wp_blk := l, wp_ch := 0, wp_lun := 0, wp_pl := 0\<rparr>"
  have run: "user_next_line f w = user_out ?f2 ?w"
    unfolding user_next_line_def
    using reset lm1(1) nxt id lt w geo_small(2)[OF parts(1)] dies by (simp add: check_addr_def Let_def)
  let ?f3 = "?f2\<lparr>cf_wp := ?w\<lparr>wp_pg := 0\<rparr>\<rparr>"
  have out: "user_out ?f2 ?w = Some ?f3" using dies by (simp add: user_out_def)
  have "core {} {} {} ?f3"
    using c lm1(3,5) queue_ok_cong[OF lm1(4), of ?lm2] by (simp add: core_def)
  moreover have "\<forall>a\<in>line_pages ?spp l. st (blks_of f) a = PG_FREE"
    using parts(6) hd by (auto simp: part_ok_def part_status_def)
  then have "counters_ok ?spp (blks_of f) l ?zero"
    using die_idx_less[of _ ?spp] by (auto simp: counters_ok_def line_pages_def addr_ok_def)
  then have "user_ok ?f3"
    using dies lt geo_small(2)[OF parts(1)] by (simp add: user_ok_def wp_place_ok_def)
  moreover have "gc_ok ?f3" using gc by (simp add: gc_ok_def)
  moreover have "moved f ?f3" by (simp add: moved_def step_frame_def)
  moreover have "user_next_line f w = Some ?f3" using run out by (rule trans)
  ultimately show ?thesis by metis
qed

lemma user_next_die_ok:
  assumes c: "core {} {} {} f" and gc: "gc_ok f"
    and k: "counters_ok (cf_sp f) (blks_of f) (wp_curline (cf_wp f)) (cf_page_counter f)"
    and w: "wp_place_ok (cf_sp f) (cf_wp f)"
    and room: "pgs_per_line (cf_sp f) < card (free_set f)"
  shows "\<exists>f'. user_next_die f (cf_wp f) = Some f' \<and> core {} {} {} f' \<and> user_ok f' \<and> gc_ok f' \<and> moved f f'"
proof -
  let ?spp = "cf_sp f" and ?w = "cf_wp f"
  have wf: "wp_ch ?w < nchs ?spp" "wp_lun ?w < luns_per_ch ?spp" "wp_pl ?w = 0" "wp_blk ?w = wp_curline ?w"
    "wp_blk ?w < blks_per_pl ?spp" using w by (auto simp: wp_place_ok_def)
  have cnt: "length (cf_page_counter f) = nchs ?spp * luns_per_ch ?spp"
    "\<forall>c\<in>set (cf_page_counter f). c \<le> pgs_per_blk ?spp" using k by (auto simp: counters_ok_def)
  obtain found ch lun where fd:
    "find_die ?spp (cf_page_counter f) (wp_ch ?w) (wp_lun ?w) (wp_ch ?w) (wp_lun ?w) = Some (found, ch, lun)"
    "ch < nchs ?spp" "lun < luns_per_ch ?spp"
    "found \<longrightarrow> cf_page_counter f ! die_idx ?spp ch lun < pgs_per_blk ?spp"
    "\<not> found \<longrightarrow> (\<forall>c\<in>set (cf_page_counter f). c = pgs_per_blk ?spp)"
    using find_die_start[OF cnt(1) wf(1,2) cnt(2)] by blast
  let ?w' = "?w\<lparr>wp_ch := ch, wp_lun := lun\<rparr>"
  have run: "user_next_die f ?w = (if found then user_out f ?w' else user_next_line f ?w')"
    using fd(1) by (simp add: user_next_die_def)
  show ?thesis
  proof (cases found)
    case True
    have "\<exists>w'. user_out f ?w' = Some (f\<lparr>cf_wp := w'\<rparr>) \<and> core {} {} {} (f\<lparr>cf_wp := w'\<rparr>) \<and>
      user_ok (f\<lparr>cf_wp := w'\<rparr>) \<and> gc_ok (f\<lparr>cf_wp := w'\<rparr>)"
      by (rule user_out_ok[OF c gc]) (use k wf fd True in simp_all)
    moreover have "moved f (f\<lparr>cf_wp := w'\<rparr>)" for w' by (simp add: moved_def step_frame_def)
    moreover have "user_next_die f ?w = user_out f ?w'" using run True by simp
    ultimately show ?thesis by metis
  next
    case False
    then show ?thesis
      using user_next_line_ok[OF c gc k _ _ _ _ room, of ?w'] run wf fd(5) by simp
  qed
qed

lemma advance_user_ok:
  assumes c: "core {} {} {} f" and gc: "gc_ok f" and mid: "user_mid f"
    and room: "pgs_per_line (cf_sp f) < card (free_set f)"
  shows "\<exists>f'. advance_write_pointer f USER_IO = Some f' \<and> core {} {} {} f' \<and> user_ok f' \<and> gc_ok f' \<and> moved f f'"
proof -
  let ?spp = "cf_sp f" and ?w = "cf_wp f"
  let ?c' = "(cf_page_counter f)[wp_die f := Suc (wp_pg ?w)]" and ?f1 = "f\<lparr>cf_page_counter := (cf_page_counter f)[wp_die f := Suc (wp_pg (cf_wp f))]\<rparr>"
  have w: "wp_place_ok ?spp ?w" and pg: "wp_pg ?w = cf_page_counter f ! wp_die f"
    and k: "counters_ok ?spp (blks_of f) (wp_curline ?w) ?c'"
    using mid by (auto simp: user_mid_def)
  have g: "geo_ok ?spp" using c by (simp add: core_def)
  have one: "0 < pgs_per_oneshotpg ?spp" "pgs_per_blk ?spp mod pgs_per_oneshotpg ?spp = 0"
    using geo_pages(1,2)[OF g] by auto
  have die: "wp_die f < length (cf_page_counter f)"
    using k w die_idx_less[of "wp_ch ?w" ?spp "wp_lun ?w"] by (simp add: counters_ok_def wp_place_ok_def)
  have c1: "core {} {} {} ?f1" and gc1: "gc_ok ?f1" using c gc by (simp_all add: core_def gc_ok_def)
  have m1: "moved f ?f1" by (simp add: moved_def step_frame_def)
  have run: "advance_write_pointer f USER_IO =
      (if Suc (wp_pg ?w) mod pgs_per_oneshotpg ?spp \<noteq> 0 then user_out ?f1 ?w else user_next_die ?f1 ?w)"
    using die pg w one(1)
    by (simp add: advance_write_pointer_def advance_user_pointer_def check_addr_def wp_place_ok_def Let_def)
  show ?thesis
  proof (cases "Suc (wp_pg ?w) mod pgs_per_oneshotpg ?spp \<noteq> 0")
    case True
    then have "Suc (wp_pg ?w) \<noteq> pgs_per_blk ?spp" using one(2) by auto
    then have lt: "?c' ! wp_die f < pgs_per_blk ?spp" using w die by (simp add: wp_place_ok_def)
    have "\<exists>w'. user_out ?f1 ?w = Some (?f1\<lparr>cf_wp := w'\<rparr>) \<and> core {} {} {} (?f1\<lparr>cf_wp := w'\<rparr>) \<and>
      user_ok (?f1\<lparr>cf_wp := w'\<rparr>) \<and> gc_ok (?f1\<lparr>cf_wp := w'\<rparr>)"
      by (rule user_out_ok[OF c1 gc1]) (use k w lt in \<open>simp_all add: wp_place_ok_def\<close>)
    moreover have "moved f (?f1\<lparr>cf_wp := w'\<rparr>)" for w' by (simp add: moved_def step_frame_def)
    moreover have "advance_write_pointer f USER_IO = user_out ?f1 ?w" using run True by simp
    ultimately show ?thesis by metis
  next
    case False
    have "free_set ?f1 = free_set f" by (simp add: free_set_def)
    then have "\<exists>f'. user_next_die ?f1 (cf_wp ?f1) = Some f' \<and> core {} {} {} f' \<and> user_ok f' \<and> gc_ok f' \<and> moved ?f1 f'"
      using user_next_die_ok[OF c1 gc1] k w room by simp
    then show ?thesis using run False by (auto simp: moved_def step_frame_def)
  qed
qed

section \<open>Advancing the garbage collection pointer\<close>

lemma gc_rank_inj:
  assumes g: "geo_ok spp" and "a \<in> line_pages spp l" "b \<in> line_pages spp l"
    "gc_rank spp (p_ch a) (p_lun a) (p_pg a) = gc_rank spp (p_ch b) (p_lun b) (p_pg b)"
  shows "a = b"
proof -
  let ?O = "pgs_per_oneshotpg spp"
  have O: "0 < ?O" by (rule geo_pages(1)[OF g])
  have r1: "((p_pg a div ?O) * luns_per_ch spp + p_lun a) * nchs spp + p_ch a =
      ((p_pg b div ?O) * luns_per_ch spp + p_lun b) * nchs spp + p_ch b" "p_pg a mod ?O = p_pg b mod ?O"
    using radix_inj[OF assms(4)[unfolded gc_rank_def]] O by simp_all
  have ab: "addr_ok spp a" "addr_ok spp b" "p_blk a = p_blk b" using assms(2,3) by (auto simp: line_pages_def)
  have r2: "(p_pg a div ?O) * luns_per_ch spp + p_lun a = (p_pg b div ?O) * luns_per_ch spp + p_lun b"
    "p_ch a = p_ch b" using radix_inj[OF r1(1)] ab by (auto simp: addr_ok_def)
  have r3: "p_pg a div ?O = p_pg b div ?O" "p_lun a = p_lun b"
    using radix_inj[OF r2(1)] ab by (auto simp: addr_ok_def)
  have "p_pg a = p_pg b" using r1(2) r3(1) by (metis div_mult_mod_eq)
  then show ?thesis using ab r2 r3 by (simp add: addr_ok_def)
qed

lemma gc_rank_less:
  assumes g: "geo_ok spp" and "ch < nchs spp" "lun < luns_per_ch spp" "pg < pgs_per_blk spp"
  shows "gc_rank spp ch lun pg < pgs_per_line spp"
proof -
  let ?O = "pgs_per_oneshotpg spp" and ?n = "oneshotpgs_per_blk spp"
  have O: "0 < ?O" and pgs: "pgs_per_blk spp = ?O * ?n" using geo_pages[OF g] by blast+
  have "pg div ?O < ?n" using assms(4) pgs by (simp add: less_mult_imp_div_less mult.commute)
  then have "gc_rank spp ch lun pg < ?n * luns_per_ch spp * nchs spp * ?O"
    unfolding gc_rank_def using assms O by (intro radix_less) auto
  moreover have "pgs_per_line spp = nchs spp * luns_per_ch spp * pgs_per_blk spp"
    using g unfolding geo_ok_def by blast
  ultimately show ?thesis using pgs by (simp add: mult.commute mult.left_commute)
qed

definition gc_mid :: "conv_ftl \<Rightarrow> bool" where
  "gc_mid f \<longleftrightarrow> wp_place_ok (cf_sp f) (cf_gc_wp f) \<and>
     gc_fill (cf_sp f) (blks_of f) (wp_curline (cf_gc_wp f)) (Suc (gc_wp_rank f))"

lemma place_gc_ok:
  assumes c: "core dead {lpn} tr f" and w: "user_ok f" "gc_ok f" and lpn: "lpn < tt_pgs (cf_sp f)"
  shows "place_lpn f GC_IO lpn = Some (placed f lpn (wp_page (cf_gc_wp f)), wp_page (cf_gc_wp f))"
    "core dead {} tr (placed f lpn (wp_page (cf_gc_wp f)))"
    "gc_mid (placed f lpn (wp_page (cf_gc_wp f)))" "user_ok (placed f lpn (wp_page (cf_gc_wp f)))"
proof -
  let ?a = "wp_page (cf_gc_wp f)" and ?spp = "cf_sp f" and ?gl = "wp_curline (cf_gc_wp f)"
  note parts = core_parts[OF c]
  note g = parts(1) and n = parts(2)
  have wu: "wp_place_ok ?spp (cf_gc_wp f)" using w by (simp add: gc_ok_def)
  note pf = wp_page_fields[OF g wu]
  have fr: "st (blks_of f) ?a = PG_FREE" by (rule gc_page_free[OF g w(2)])
  show "place_lpn f GC_IO lpn = Some (placed f lpn ?a, ?a)"
    using place_lpn_eq(1)[OF c lpn, of GC_IO ?a] wu fr pf by (simp add: get_wp_def)
  show "core dead {} tr (placed f lpn ?a)"
    using core_place[OF c lpn pf(1) fr] pf(5) by simp
  have "st (restatus (blks_of f) ?a PG_VALID 0 1) x = PG_FREE \<longleftrightarrow>
      Suc (gc_wp_rank f) \<le> gc_rank ?spp (p_ch x) (p_lun x) (p_pg x)" if x: "x \<in> line_pages ?spp ?gl" for x
  proof -
    have xok: "addr_ok ?spp x" using x by (simp add: line_pages_def)
    have "st (blks_of f) x = PG_FREE \<longleftrightarrow> gc_wp_rank f \<le> gc_rank ?spp (p_ch x) (p_lun x) (p_pg x)"
      using w(2) x by (simp add: gc_ok_def gc_fill_def)
    moreover have "gc_rank ?spp (p_ch x) (p_lun x) (p_pg x) = gc_wp_rank f \<longleftrightarrow> x = ?a"
      using gc_rank_inj[OF g x pf(6)] pf by auto
    ultimately show ?thesis using st_restatus[OF n pf(1) xok] by auto
  qed
  then show "gc_mid (placed f lpn ?a)" using wu by (simp add: gc_mid_def gc_fill_def)
  show "user_ok (placed f lpn ?a)"
    using w(1) counters_other_line[OF _ only_line_restatus[OF n pf(1)]] pf(5) core_wl_gl(1)[OF c]
    by (auto simp: user_ok_def)
qed

lemma gc_move_ok:
  assumes c: "core dead {} tr f" and u: "user_ok f"
    and m: "gc_fill (cf_sp f) (blks_of f) (wp_curline (cf_gc_wp f)) r"
    and w: "wp_curline w = wp_curline (cf_gc_wp f)" "wp_place_ok (cf_sp f) w"
      "gc_rank (cf_sp f) (wp_ch w) (wp_lun w) (wp_pg w) = r"
  shows "core dead {} tr (f\<lparr>cf_gc_wp := w\<rparr>)" "user_ok (f\<lparr>cf_gc_wp := w\<rparr>)" "gc_ok (f\<lparr>cf_gc_wp := w\<rparr>)"
    "moved f (f\<lparr>cf_gc_wp := w\<rparr>)"
  using c u m w by (simp_all add: core_def user_ok_def gc_ok_def moved_def step_frame_def)

lemma gc_next_line_ok:
  assumes c: "core dead {} tr f" and u: "user_ok f"
    and m: "gc_fill (cf_sp f) (blks_of f) (wp_curline (cf_gc_wp f)) (pgs_per_line (cf_sp f))"
    and w: "wp_curline w = wp_curline (cf_gc_wp f)" "wp_blk w = wp_curline w" "wp_blk w < blks_per_pl (cf_sp f)"
      "wp_pg w = 0" "wp_lun w = 0" "wp_ch w = 0" "wp_pl w = 0"
    and room: "pgs_per_line (cf_sp f) < card {a \<in> free_set f. p_blk a \<notin> tr}"
  shows "\<exists>f'. gc_next_line f w = Some f' \<and> core dead {} tr f' \<and> user_ok f' \<and> gc_ok f' \<and> moved f f'"
proof -
  let ?spp = "cf_sp f" and ?wl = "wp_curline (cf_wp f)" and ?gl = "wp_curline (cf_gc_wp f)"
  note parts = core_parts[OF c]
  note p = part_ok_swap[OF parts(6)]
  have nofree: "\<forall>a\<in>line_pages ?spp ?gl. st (blks_of f) a \<noteq> PG_FREE"
  proof
    fix a assume a: "a \<in> line_pages ?spp ?gl"
    then have "gc_rank ?spp (p_ch a) (p_lun a) (p_pg a) < pgs_per_line ?spp"
      by (intro gc_rank_less[OF parts(1)]) (auto simp: line_pages_def addr_ok_def)
    then show "st (blks_of f) a \<noteq> PG_FREE" using m a by (auto simp: gc_fill_def)
  qed
  obtain l rest where hd: "lm_free (cf_lm f) = l # rest"
    using free_line_exists[OF parts(1) p nofree room] by auto
  obtain lm1 where lm1: "retire_line f ?gl = Some (f\<lparr>cf_lm := lm1\<rparr>)" "lm_free lm1 = l # rest"
    "lines_ok ?spp (blks_of f) tr (lm_lines lm1)" "queue_ok ?spp lm1"
    "part_ok ?spp (blks_of f) tr l ?wl (lm1\<lparr>lm_free := rest, lm_free_cnt := dec32 (lm_free_cnt lm1)\<rparr>)"
    using retire_line_ok[OF parts(1,5) p parts(7) nofree hd] by blast
  let ?lm2 = "lm1\<lparr>lm_free := rest, lm_free_cnt := dec32 (lm_free_cnt lm1)\<rparr>"
  have nxt: "get_next_free_line (f\<lparr>cf_lm := lm1\<rparr>) = (Some l, f\<lparr>cf_lm := ?lm2\<rparr>)"
    using lm1(2) by (simp add: get_next_free_line_def)
  have lt: "l < tt_lines ?spp" using lm1(5) unfolding part_ok_def part_sets_iff by simp
  have id: "array_read (lm_lines lm1) l = Some (lm_lines lm1 ! l)" "ln_id (lm_lines lm1 ! l) = l"
    using lm1(3) lt by (auto simp: lines_ok_def)
  let ?w = "w\<lparr>wp_curline := l, wp_blk := l\<rparr>"
  let ?f3 = "f\<lparr>cf_lm := ?lm2, cf_gc_wp := ?w\<rparr>"
  have run: "gc_next_line f w = Some ?f3"
    unfolding gc_next_line_def
    using lm1(1) nxt id lt w geo_small(2)[OF parts(1)] by (simp add: check_addr_def Let_def)
  have "core dead {} tr ?f3"
    using c lm1(3) part_ok_swap[OF lm1(5)] queue_ok_cong[OF lm1(4), of ?lm2] by (simp add: core_def)
  moreover have "\<forall>a\<in>line_pages ?spp l. st (blks_of f) a = PG_FREE"
    using parts(6) hd by (auto simp: part_ok_def part_status_def)
  then have "gc_ok ?f3"
    using w lt geo_small(2)[OF parts(1)] geo_dims[OF parts(1)]
    by (simp add: gc_ok_def wp_place_ok_def gc_fill_def gc_rank_def)
  moreover have "user_ok ?f3" using u by (simp add: user_ok_def)
  moreover have "moved f ?f3" by (simp add: moved_def step_frame_def)
  ultimately show ?thesis using run by metis
qed

text \<open>Every branch of the pointer arithmetic moves to the next rank.\<close>

lemma gc_rank_next_pg:
  assumes "Suc pg mod pgs_per_oneshotpg spp \<noteq> 0"
  shows "gc_rank spp ch lun (Suc pg) = Suc (gc_rank spp ch lun pg)"
  using assms by (auto simp: gc_rank_def div_Suc mod_Suc split: if_splits)

lemma wordline_end:
  assumes "0 < pgs_per_oneshotpg spp" "Suc pg mod pgs_per_oneshotpg spp = 0"
  shows "pgs_per_oneshotpg spp \<le> Suc pg"
    "(Suc pg - pgs_per_oneshotpg spp) div pgs_per_oneshotpg spp = pg div pgs_per_oneshotpg spp"
    "(Suc pg - pgs_per_oneshotpg spp) mod pgs_per_oneshotpg spp = 0"
    "pg mod pgs_per_oneshotpg spp = pgs_per_oneshotpg spp - 1"
    "Suc pg div pgs_per_oneshotpg spp = Suc (pg div pgs_per_oneshotpg spp)"
proof -
  let ?O = "pgs_per_oneshotpg spp"
  have d: "?O dvd Suc pg" using assms(2) by auto
  then show le: "?O \<le> Suc pg" by (rule dvd_imp_le) simp
  show m: "pg mod ?O = ?O - 1" using assms by (auto simp: mod_Suc split: if_splits)
  show "Suc pg div ?O = Suc (pg div ?O)" using assms by (simp add: div_Suc)
  then show "(Suc pg - ?O) div ?O = pg div ?O" using le assms(1) by (simp add: le_div_geq)
  show "(Suc pg - ?O) mod ?O = 0" using assms(2) le by (simp add: le_mod_geq)
qed

lemma advance_gc_ok:
  assumes c: "core dead {} tr f" and u: "user_ok f" and mid: "gc_mid f"
    and room: "pgs_per_line (cf_sp f) < card {a \<in> free_set f. p_blk a \<notin> tr}"
  shows "\<exists>f'. advance_write_pointer f GC_IO = Some f' \<and> core dead {} tr f' \<and> user_ok f' \<and> gc_ok f' \<and> moved f f'"
proof -
  let ?spp = "cf_sp f" and ?w = "cf_gc_wp f"
  let ?O = "pgs_per_oneshotpg ?spp" and ?pg = "Suc (wp_pg ?w)"
  note parts = core_parts[OF c]
  note dims = geo_dims[OF parts(1)] and O = geo_pages(1,2)[OF parts(1)]
  have w: "wp_place_ok ?spp ?w" and fill: "gc_fill ?spp (blks_of f) (wp_curline ?w) (Suc (gc_wp_rank f))"
    using mid by (auto simp: gc_mid_def)
  have wf: "wp_ch ?w < nchs ?spp" "wp_lun ?w < luns_per_ch ?spp" "wp_pg ?w < pgs_per_blk ?spp" "wp_pl ?w = 0"
    "wp_blk ?w = wp_curline ?w" "wp_blk ?w < blks_per_pl ?spp" using w by (auto simp: wp_place_ok_def)
  have le: "?pg \<le> pgs_per_blk ?spp" using wf by simp
  note mv = gc_move_ok[OF c u fill]
  have run0: "advance_write_pointer f GC_IO = advance_gc_pointer f" by (simp add: advance_write_pointer_def)
  note step = advance_gc_pointer_def check_addr_def Let_def
  show ?thesis
  proof (cases "?pg mod ?O \<noteq> 0")
    case True
    let ?w' = "?w\<lparr>wp_pg := ?pg\<rparr>"
    have "advance_write_pointer f GC_IO = Some (f\<lparr>cf_gc_wp := ?w'\<rparr>)"
      unfolding run0 using True wf O by (simp add: step)
    moreover have "?pg \<noteq> pgs_per_blk ?spp" using True O(2) by auto
    then have "wp_place_ok ?spp ?w'" using wf by (simp add: wp_place_ok_def)
    ultimately show ?thesis using mv[of ?w'] gc_rank_next_pg[OF True] by auto
  next
    case wend: False
    then have m0: "?pg mod ?O = 0" by simp
    note we = wordline_end[OF O(1) m0]
    let ?pg' = "?pg - ?O"
    have pg': "?pg' < pgs_per_blk ?spp" using wf(3) O(1) we(1) by linarith
    show ?thesis
    proof (cases "Suc (wp_ch ?w) = nchs ?spp")
      case False
      let ?w' = "?w\<lparr>wp_pg := ?pg', wp_ch := Suc (wp_ch ?w)\<rparr>"
      have "advance_write_pointer f GC_IO = Some (f\<lparr>cf_gc_wp := ?w'\<rparr>)"
        unfolding run0 using m0 False wf O by (simp add: step)
      moreover have "wp_place_ok ?spp ?w'" using wf False pg' by (simp add: wp_place_ok_def)
      moreover have "gc_rank ?spp (wp_ch ?w') (wp_lun ?w') (wp_pg ?w') = Suc (gc_wp_rank f)"
        using we O by (simp add: gc_rank_def)
      ultimately show ?thesis using mv[of ?w'] by auto
    next
      case ch: True
      show ?thesis
      proof (cases "Suc (wp_lun ?w) = luns_per_ch ?spp")
        case False
        let ?w' = "?w\<lparr>wp_pg := ?pg', wp_ch := 0, wp_lun := Suc (wp_lun ?w)\<rparr>"
        have "advance_write_pointer f GC_IO = Some (f\<lparr>cf_gc_wp := ?w'\<rparr>)"
          unfolding run0 using m0 ch False wf O by (simp add: step)
        moreover have "wp_place_ok ?spp ?w'" using wf False pg' dims by (simp add: wp_place_ok_def)
        moreover have "gc_rank ?spp (wp_ch ?w') (wp_lun ?w') (wp_pg ?w') = Suc (gc_wp_rank f)"
          using we O ch[symmetric] by (simp add: gc_rank_def algebra_simps)
        ultimately show ?thesis using mv[of ?w'] by auto
      next
        case ln_last: True
        have restore: "?pg' + ?O = ?pg" using we(1) by simp
        have rank: "Suc (gc_wp_rank f) = gc_rank ?spp 0 0 ?pg"
          using we O m0 ch[symmetric] ln_last[symmetric] by (simp add: gc_rank_def algebra_simps)
        show ?thesis
        proof (cases "?pg = pgs_per_blk ?spp")
          case False
          let ?w' = "?w\<lparr>wp_pg := ?pg, wp_ch := 0, wp_lun := 0\<rparr>"
          have "advance_write_pointer f GC_IO = Some (f\<lparr>cf_gc_wp := ?w'\<rparr>)"
            unfolding run0 using m0 ch ln_last False wf O restore by (simp add: step)
          moreover have "wp_place_ok ?spp ?w'" using wf False dims by (simp add: wp_place_ok_def)
          ultimately show ?thesis using mv[of ?w'] rank by auto
        next
          case True
          let ?w' = "?w\<lparr>wp_pg := 0, wp_ch := 0, wp_lun := 0\<rparr>"
          have run: "advance_write_pointer f GC_IO = gc_next_line f ?w'"
            unfolding run0 using m0 ch ln_last True wf O restore by (simp add: step)
          have "pgs_per_blk ?spp div ?O * ?O = pgs_per_blk ?spp" using O(2) by auto
          then have "gc_rank ?spp 0 0 (pgs_per_blk ?spp) = nchs ?spp * luns_per_ch ?spp * pgs_per_blk ?spp"
            using O(2) by (simp add: gc_rank_def mult.commute mult.left_commute)
          moreover have "pgs_per_line ?spp = nchs ?spp * luns_per_ch ?spp * pgs_per_blk ?spp"
            using parts(1) unfolding geo_ok_def by blast
          ultimately have "gc_fill ?spp (blks_of f) (wp_curline ?w) (pgs_per_line ?spp)"
            using fill rank True by simp
          then show ?thesis
            unfolding run using gc_next_line_ok[OF c u, of ?w'] wf room by simp
        qed
      qed
    qed
  qed
qed

end
