(* ===== verification/Conv_Gc.thy ===== *)
theory Conv_Gc
  imports Conv_Step
begin

text \<open>
  Garbage collection of one line: the victim is taken out of the queue, every valid page of
  it is copied to the page under the garbage collection pointer, each block is erased once
  its last flash page is clean, and the line returns to the free list.  No mapped logical
  page is lost.
\<close>

section \<open>Flash operations leave the translation state alone\<close>

lemma core_ssd:
  assumes "core dead X tr f" "same_nand (cf_ssd f) s" "ssd_ok s"
  shows "core dead X tr (f\<lparr>cf_ssd := s\<rparr>)"
  using assms by (simp add: core_def same_nand_def)

lemma user_ok_ssd: "user_ok f \<Longrightarrow> same_nand (cf_ssd f) s \<Longrightarrow> user_ok (f\<lparr>cf_ssd := s\<rparr>)"
  by (simp add: user_ok_def same_nand_def)

lemma gc_ok_ssd: "gc_ok f \<Longrightarrow> same_nand (cf_ssd f) s \<Longrightarrow> gc_ok (f\<lparr>cf_ssd := s\<rparr>)"
  by (simp add: gc_ok_def same_nand_def)

lemma nand_op_at_ok:
  assumes "core dead X tr f" "addr_ok (cf_sp f) a" "c = NAND_READ \<Longrightarrow> xfer \<noteq> 0"
  shows "\<exists>s. nand_op_at f c xfer a = Some (f\<lparr>cf_ssd := s\<rparr>) \<and> ssd_ok s \<and> same_nand (cf_ssd f) s"
proof -
  have "lun_in (cf_sp f) a" using assms(1,2) addr_ok_blk_in by (auto simp: core_def)
  then show ?thesis
    using ssd_advance_nand_ok[of "cf_ssd f" "\<lparr>nc_type = GC_IO, nc_cmd = c, nc_xfer_size = xfer,
        nc_stime = 0, nc_interleave_pci_dma = False, nc_ppa = a, nc_arrive_time = 0\<rparr>"] assms
    by (auto simp: nand_op_at_def core_def)
qed

section \<open>The state in the middle of a collection\<close>

text \<open>\<open>f0\<close> is the state when the victim \<open>v\<close> has left the queue, \<open>M\<close> the pages of \<open>v\<close> that
  have been copied so far, \<open>E\<close> the dies whose block of \<open>v\<close> is erased.\<close>

definition outside :: "nat \<Rightarrow> conv_ftl \<Rightarrow> ppa set" where
  "outside v f = {a \<in> free_set f. p_blk a \<notin> {v}}"

definition kept :: "nat \<Rightarrow> conv_ftl \<Rightarrow> conv_ftl \<Rightarrow> bool" where
  "kept v f0 f \<longleftrightarrow> length (cf_maptbl f) = length (cf_maptbl f0) \<and> (\<forall>lpn<tt_pgs (cf_sp f0).
     (cf_maptbl f ! lpn = UNMAPPED_PPA \<longleftrightarrow> cf_maptbl f0 ! lpn = UNMAPPED_PPA) \<and>
     (p_blk (cf_maptbl f0 ! lpn) \<noteq> v \<longrightarrow> cf_maptbl f ! lpn = cf_maptbl f0 ! lpn))"

abbreviation die_at :: "ppa \<Rightarrow> nat \<times> nat" where
  "die_at a \<equiv> (p_ch a, p_lun a)"

definition to_copy :: "nat \<Rightarrow> conv_ftl \<Rightarrow> ppa set" where
  "to_copy v f0 = {a \<in> line_pages (cf_sp f0) v. st (blks_of f0) a = PG_VALID}"

definition gc_state ::
  "nat \<Rightarrow> conv_ftl \<Rightarrow> ppa set \<Rightarrow> (nat \<times> nat) set \<Rightarrow> conv_ftl \<Rightarrow> bool" where
  "gc_state v f0 M E f \<longleftrightarrow> core {a \<in> M. die_at a \<notin> E} {} {v} f \<and> user_ok f \<and> gc_ok f \<and>
     step_frame f0 f \<and> kept v f0 f \<and> M \<subseteq> to_copy v f0 \<and>
     (\<forall>a\<in>line_pages (cf_sp f0) v. st (blks_of f) a = (if die_at a \<in> E then PG_FREE else st (blks_of f0) a)) \<and>
     card (outside v f) + card M = card (outside v f0)"

lemma gc_state_ssd:
  assumes "gc_state v f0 M E f" "same_nand (cf_ssd f) s" "ssd_ok s"
  shows "gc_state v f0 M E (f\<lparr>cf_ssd := s\<rparr>)"
proof -
  have e: "ssd_sp s = cf_sp f" "ssd_blk s = blks_of f" "ssd_write_buffer s = ssd_write_buffer (cf_ssd f)"
    using assms(2) by (auto simp: same_nand_def)
  have "core {a \<in> M. die_at a \<notin> E} {} {v} (f\<lparr>cf_ssd := s\<rparr>)" "user_ok (f\<lparr>cf_ssd := s\<rparr>)" "gc_ok (f\<lparr>cf_ssd := s\<rparr>)"
    using assms core_ssd user_ok_ssd gc_ok_ssd unfolding gc_state_def by blast+
  moreover have "outside v (f\<lparr>cf_ssd := s\<rparr>) = outside v f"
    using e by (simp add: outside_def free_set_def)
  ultimately show ?thesis
    using assms(1) e unfolding gc_state_def by (simp add: step_frame_def kept_def)
qed

lemma gc_state_sp:
  assumes "gc_state v f0 M E f"
  shows "cf_sp f = cf_sp f0" "cf_cp f = cf_cp f0" "cf_wfc f = cf_wfc f0"
  using assms by (auto simp: gc_state_def step_frame_def)

section \<open>Copying one page\<close>

lemma map_ok_kill:
  assumes m: "map_ok spp B dead {} mt rm" and a: "addr_ok spp a" "st B a = PG_VALID" "a \<notin> dead"
  shows "map_ok spp B (insert a dead) {rm ! pgidx spp a} mt rm"
    and "rm ! pgidx spp a < tt_pgs spp" "mt ! (rm ! pgidx spp a) = a"
proof -
  let ?l = "rm ! pgidx spp a"
  show l: "?l < tt_pgs spp" "mt ! ?l = a" using m a by (auto simp: map_ok_def)
  have "rm ! pgidx spp x \<noteq> ?l" if "addr_ok spp x" "st B x = PG_VALID" "x \<notin> dead" "x \<noteq> a" for x
  proof -
    have "mt ! (rm ! pgidx spp x) = x" using m that(1-3) by (simp add: map_ok_def)
    then show ?thesis using l(2) that(4) by auto
  qed
  moreover have "mt ! k \<noteq> a" if "k < tt_pgs spp" "k \<noteq> ?l" "mt ! k \<noteq> UNMAPPED_PPA" for k
  proof
    assume "mt ! k = a"
    moreover have "rm ! pgidx spp (mt ! k) = k" using m that(1,3) by (simp add: map_ok_def)
    ultimately show False using that(2) by simp
  qed
  ultimately show "map_ok spp B (insert a dead) {?l} mt rm"
    using m by (simp add: map_ok_def)
qed

lemma core_kill:
  assumes c: "core dead {} tr f" and a: "addr_ok (cf_sp f) a" "st (blks_of f) a = PG_VALID" "a \<notin> dead" "p_blk a \<in> tr"
  shows "core (insert a dead) {cf_rmap f ! pgidx (cf_sp f) a} tr f"
    "get_rmap_ent f a = Some (cf_rmap f ! pgidx (cf_sp f) a)"
    "cf_rmap f ! pgidx (cf_sp f) a < tt_pgs (cf_sp f)"
    "cf_maptbl f ! (cf_rmap f ! pgidx (cf_sp f) a) = a"
proof -
  note parts = core_parts[OF c]
  note k = map_ok_kill[OF parts(4) a(1-3)]
  show "core (insert a dead) {cf_rmap f ! pgidx (cf_sp f) a} tr f"
    using c k(1) a(4) unfolding core_def by blast
  have "length (cf_rmap f) = tt_pgs (cf_sp f)" using parts(4) by (simp add: map_ok_def)
  then show "get_rmap_ent f a = Some (cf_rmap f ! pgidx (cf_sp f) a)"
    using ppa2pgidx_eq[OF parts(1) a(1)] pgidx_less[OF parts(1) a(1)] by (simp add: get_rmap_ent_def)
qed (use map_ok_kill(2,3)[OF core_parts(4)[OF c] a(1-3)] in auto)

lemma kept_place:
  assumes k: "kept v f0 f" and len: "length (cf_maptbl f) = tt_pgs (cf_sp f0)"
    and l: "lpn < tt_pgs (cf_sp f0)" "p_blk (cf_maptbl f ! lpn) = v" "cf_maptbl f ! lpn \<noteq> UNMAPPED_PPA"
    and n: "n \<noteq> UNMAPPED_PPA" and f': "cf_maptbl f' = (cf_maptbl f)[lpn := n]"
  shows "kept v f0 f'"
  using assms by (auto simp: kept_def nth_list_update)

lemma outside_place:
  assumes g: "geo_ok (cf_sp f)" and n: "nand_ok (cf_sp f) (blks_of f)" and a: "addr_ok (cf_sp f) a"
    "st (blks_of f) a = PG_FREE" "p_blk a \<noteq> v"
    and f': "cf_sp f' = cf_sp f" "blks_of f' = restatus (blks_of f) a PG_VALID di dv"
  shows "Suc (card (outside v f')) = card (outside v f)"
proof -
  have "outside v f = insert a (outside v f')"
    using st_restatus[OF n a(1), of _ PG_VALID di dv] a f'
    by (auto simp: outside_def free_set_def split: if_splits)
  moreover have "a \<notin> outside v f'"
    using st_restatus[OF n a(1) a(1), of PG_VALID di dv] f' by (auto simp: outside_def free_set_def)
  moreover have "finite (outside v f')"
    using all_pages_finite[OF g] f'(1) by (auto simp: outside_def free_set_def intro: rev_finite_subset)
  ultimately show ?thesis by simp
qed

lemma gc_write_page_ok:
  assumes s: "gc_state v f0 M E f" and a: "a \<in> to_copy v f0" "a \<notin> M" "die_at a \<notin> E"
    and room: "pgs_per_line (cf_sp f0) + card (to_copy v f0) < card (outside v f0)"
  shows "\<exists>f'. gc_write_page f a = Some f' \<and> gc_state v f0 (insert a M) E f'"
proof -
  let ?dead = "{a \<in> M. die_at a \<notin> E}" and ?spp = "cf_sp f"
  have c: "core ?dead {} {v} f" and w: "user_ok f" "gc_ok f" and fr: "step_frame f0 f" and k: "kept v f0 f"
    and M: "M \<subseteq> to_copy v f0" and sv: "\<forall>a\<in>line_pages (cf_sp f0) v. st (blks_of f) a =
      (if die_at a \<in> E then PG_FREE else st (blks_of f0) a)"
    and cnt: "card (outside v f) + card M = card (outside v f0)"
    using s by (auto simp: gc_state_def)
  have sp: "cf_sp f0 = ?spp" using fr by (simp add: step_frame_def)
  note parts = core_parts[OF c]
  have aa: "addr_ok ?spp a" "st (blks_of f) a = PG_VALID" "p_blk a = v"
    using a sv sp by (auto simp: to_copy_def line_pages_def)
  define lpn where "lpn = cf_rmap f ! pgidx ?spp a"
  note kill = core_kill[OF c aa(1,2), folded lpn_def]
  have kc: "core (insert a ?dead) {lpn} {v} f" "get_rmap_ent f a = Some lpn" "lpn < tt_pgs ?spp"
    "cf_maptbl f ! lpn = a" using kill a aa by auto
  let ?new = "wp_page (cf_gc_wp f)"
  let ?f3 = "placed f lpn ?new"
  note pl = place_gc_ok[OF kc(1) w kc(3)]
  have new: "addr_ok ?spp ?new" "p_blk ?new = wp_curline (cf_gc_wp f)"
    using wp_page_fields[OF parts(1)] w(2) by (auto simp: gc_ok_def)
  have newfree: "st (blks_of f) ?new = PG_FREE" using gc_page_free[OF parts(1) w(2)] .
  have nv: "p_blk ?new \<noteq> v" using core_wl_gl(3)[OF c] new by simp
  have out: "Suc (card (outside v ?f3)) = card (outside v f)"
    using outside_place[OF parts(1,2) new(1) newfree nv, of ?f3] by simp
  have finC: "finite (to_copy v f0)"
    using all_pages_finite[OF parts(1)] sp by (auto simp: to_copy_def line_pages_def intro: rev_finite_subset)
  have finM: "finite M" using M finC finite_subset by blast
  have Mlt: "card M < card (to_copy v f0)"
    using M a(1,2) finC by (intro psubset_card_mono) auto
  have rm: "pgs_per_line (cf_sp ?f3) < card {x \<in> free_set ?f3. p_blk x \<notin> {v}}"
    using room out cnt Mlt sp by (simp add: outside_def)
  obtain f4 where f4: "advance_write_pointer ?f3 GC_IO = Some f4" "core (insert a ?dead) {} {v} f4"
    "user_ok f4" "gc_ok f4" "moved ?f3 f4"
    using advance_gc_ok[OF pl(2,4,3) rm] by blast
  have blk4: "blks_of f4 = restatus (blks_of f) ?new PG_VALID 0 1" "cf_sp f4 = ?spp"
    "cf_maptbl f4 = (cf_maptbl f)[lpn := ?new]" "cf_cp f4 = cf_cp f" "cf_wfc f4 = cf_wfc f"
    "ssd_write_buffer (cf_ssd f4) = ssd_write_buffer (cf_ssd f)"
    using f4(5) by (auto simp: moved_def step_frame_def placed_def bump_valid_def)
  have "insert a ?dead = {x \<in> insert a M. die_at x \<notin> E}" using a(3) by auto
  moreover have "step_frame f0 f4" using fr blk4 by (simp add: step_frame_def)
  moreover have "kept v f0 f4"
  proof (rule kept_place[OF k])
    show "length (cf_maptbl f) = tt_pgs (cf_sp f0)" using parts(4) sp by (simp add: map_ok_def)
    show "cf_maptbl f ! lpn \<noteq> UNMAPPED_PPA" "?new \<noteq> UNMAPPED_PPA"
      using kc(4) addr_ok_mapped aa(1) new(1) by blast+
  qed (use kc aa sp blk4 in auto)
  moreover have "\<forall>x\<in>line_pages (cf_sp f0) v. st (blks_of f4) x = st (blks_of f) x"
    using only_line_pages[OF only_line_restatus[OF parts(2) new(1)], of v] nv sp blk4(1) by simp
  moreover have "outside v f4 = outside v ?f3"
    using blk4 by (simp add: outside_def free_set_def)
  ultimately have st4: "gc_state v f0 (insert a M) E f4"
    using f4(2-4) M a(1,2) sv out cnt finM unfolding gc_state_def by simp
  have run: "gc_write_page f a = (if enable_gc_delay (cf_cp f) then
        (if last_pg_in_wordline f4 ?new
         then nand_op_at f4 NAND_WRITE (pgsz ?spp * pgs_per_oneshotpg ?spp) ?new
         else nand_op_at f4 NAND_NOP 0 ?new) else Some f4)"
    using kc(2,3) pl(1) f4(1) by (simp add: gc_write_page_def valid_lpn_def Let_def)
  have op: "\<exists>f'. nand_op_at f4 c x ?new = Some f' \<and> gc_state v f0 (insert a M) E f'"
    if "c \<noteq> NAND_READ" for c x
    using nand_op_at_ok[OF f4(2), of ?new c x] gc_state_ssd[OF st4] that new(1) blk4(2) by auto
  show ?thesis unfolding run using op[of NAND_WRITE] op[of NAND_NOP] st4 by simp
qed

section \<open>Cleaning one flash page\<close>

abbreviation flash_ppa :: "ssdparams \<Rightarrow> nat \<Rightarrow> nat \<times> nat \<times> nat \<Rightarrow> ppa" where
  "flash_ppa spp v \<equiv> (\<lambda>(fp, ch, lun). mk_ppa ch lun 0 v (fp * pgs_per_flashpg spp))"

abbreviation flash_pos :: "ssdparams \<Rightarrow> nat \<times> nat \<times> nat \<Rightarrow> bool" where
  "flash_pos spp \<equiv> (\<lambda>(fp, ch, lun). fp < flashpgs_per_blk spp \<and> ch < nchs spp \<and> lun < luns_per_ch spp)"

definition first_pages :: "nat \<Rightarrow> conv_ftl \<Rightarrow> nat \<times> nat \<times> nat \<Rightarrow> nat \<Rightarrow> ppa set" where
  "first_pages v f0 = (\<lambda>(fp, ch, lun) i. {a \<in> to_copy v f0. die_at a = (ch, lun) \<and>
     fp * pgs_per_flashpg (cf_sp f0) \<le> p_pg a \<and> p_pg a < fp * pgs_per_flashpg (cf_sp f0) + i})"

lemma flash_page:
  assumes g: "geo_ok spp" and v: "v < tt_lines spp" and t: "flash_pos spp (fp, ch, lun)" and i: "i < pgs_per_flashpg spp"
  defines "a \<equiv> flash_ppa spp v (fp, ch, lun)"
  defines "x \<equiv> at_pg a (p_pg a + i)"
  shows "addr_ok spp a" "addr_ok spp x" "die_at x = (ch, lun)" "p_pg x = fp * pgs_per_flashpg spp + i" "p_blk x = v"
proof -
  have "fp * pgs_per_flashpg spp + i < flashpgs_per_blk spp * pgs_per_flashpg spp"
    using t i by (intro radix_less) auto
  then have lt: "fp * pgs_per_flashpg spp + i < pgs_per_blk spp" using geo_pages(4)[OF g] by simp
  have v': "v < blks_per_pl spp" using v geo_small(2)[OF g] by simp
  have mk: "addr_ok spp (mk_ppa ch lun 0 v (fp * pgs_per_flashpg spp))"
    "mk_ppa ch lun 0 v (fp * pgs_per_flashpg spp) =
      \<lparr>p_pg = fp * pgs_per_flashpg spp, p_blk = v, p_pl = 0, p_lun = lun, p_ch = ch, p_rsv = 0\<rparr>"
    using mk_ppa_addr_ok[OF g _ _ v', of ch lun "fp * pgs_per_flashpg spp"] t lt by auto
  then show "addr_ok spp a" by (simp add: a_def)
  show "addr_ok spp x" "die_at x = (ch, lun)" "p_pg x = fp * pgs_per_flashpg spp + i" "p_blk x = v"
    using mk lt geo_dims(7)[OF g] by (auto simp: x_def a_def at_pg_def addr_ok_def)
qed

lemma flash_page_t:
  assumes "geo_ok spp" "v < tt_lines spp" "flash_pos spp t" "i < pgs_per_flashpg spp"
  shows "addr_ok spp (flash_ppa spp v t)"
    "addr_ok spp (at_pg (flash_ppa spp v t) (p_pg (flash_ppa spp v t) + i))"
    "die_at (at_pg (flash_ppa spp v t) (p_pg (flash_ppa spp v t) + i)) = snd t"
    "p_pg (at_pg (flash_ppa spp v t) (p_pg (flash_ppa spp v t) + i)) = fst t * pgs_per_flashpg spp + i"
    "p_blk (at_pg (flash_ppa spp v t) (p_pg (flash_ppa spp v t) + i)) = v"
proof -
  obtain fp ch lun where t3: "t = (fp, ch, lun)" by (cases t) auto
  note x = flash_page[OF assms(1,2) assms(3)[unfolded t3] assms(4), folded t3]
  show "addr_ok spp (flash_ppa spp v t)"
    "addr_ok spp (at_pg (flash_ppa spp v t) (p_pg (flash_ppa spp v t) + i))"
    "die_at (at_pg (flash_ppa spp v t) (p_pg (flash_ppa spp v t) + i)) = snd t"
    "p_pg (at_pg (flash_ppa spp v t) (p_pg (flash_ppa spp v t) + i)) = fst t * pgs_per_flashpg spp + i"
    "p_blk (at_pg (flash_ppa spp v t) (p_pg (flash_ppa spp v t) + i)) = v"
    using x by (simp_all add: t3)
qed

lemma first_pages_0 [simp]: "first_pages v f0 t 0 = {}"
  by (auto simp: first_pages_def split: prod.splits)

lemma to_copy_page_eq:
  assumes "a \<in> to_copy v f0" "addr_ok (cf_sp f0) x" "p_blk x = v" "die_at a = die_at x" "p_pg a = p_pg x"
  shows "a = x"
  using assms by (auto simp: to_copy_def line_pages_def addr_ok_def)

lemma first_pages_Suc:
  assumes g: "geo_ok (cf_sp f0)" and v: "v < tt_lines (cf_sp f0)" and t: "flash_pos (cf_sp f0) t"
    and i: "i < pgs_per_flashpg (cf_sp f0)"
  defines "x \<equiv> at_pg (flash_ppa (cf_sp f0) v t) (p_pg (flash_ppa (cf_sp f0) v t) + i)"
  shows "first_pages v f0 t (Suc i) =
    (if st (blks_of f0) x = PG_VALID then insert x (first_pages v f0 t i) else first_pages v f0 t i)"
    "x \<notin> first_pages v f0 t i" "st (blks_of f0) x = PG_VALID \<Longrightarrow> x \<in> to_copy v f0"
proof -
  obtain fp ch lun where t3: "t = (fp, ch, lun)" by (cases t) auto
  note x = flash_page_t(2-)[OF g v t i, folded x_def]
  show inc: "st (blks_of f0) x = PG_VALID \<Longrightarrow> x \<in> to_copy v f0"
    using x by (simp add: to_copy_def line_pages_def)
  show "x \<notin> first_pages v f0 t i" using x t3 by (simp add: first_pages_def)
  have "a = x" if "a \<in> first_pages v f0 t (Suc i)" "a \<notin> first_pages v f0 t i" for a
    using that x by (intro to_copy_page_eq[of a v f0]) (auto simp: first_pages_def t3)
  moreover have "x \<notin> first_pages v f0 t (Suc i)" if "st (blks_of f0) x \<noteq> PG_VALID"
    using that by (simp add: first_pages_def t3 to_copy_def)
  moreover have "x \<in> first_pages v f0 t (Suc i)" if "st (blks_of f0) x = PG_VALID"
    using x inc[OF that] by (simp add: first_pages_def t3)
  moreover have "first_pages v f0 t i \<subseteq> first_pages v f0 t (Suc i)" by (auto simp: first_pages_def t3)
  ultimately show "first_pages v f0 t (Suc i) =
    (if st (blks_of f0) x = PG_VALID then insert x (first_pages v f0 t i) else first_pages v f0 t i)" by auto
qed

definition gc_start :: "nat \<Rightarrow> conv_ftl \<Rightarrow> bool" where
  "gc_start v f0 \<longleftrightarrow> geo_ok (cf_sp f0) \<and> v < tt_lines (cf_sp f0) \<and>
     (\<forall>a\<in>line_pages (cf_sp f0) v. st (blks_of f0) a \<noteq> PG_FREE) \<and>
     pgs_per_line (cf_sp f0) + card (to_copy v f0) < card (outside v f0)"

lemma gc_startD:
  assumes "gc_start v f0"
  shows "geo_ok (cf_sp f0)" "v < tt_lines (cf_sp f0)"
    "\<forall>a\<in>line_pages (cf_sp f0) v. st (blks_of f0) a \<noteq> PG_FREE"
    "pgs_per_line (cf_sp f0) + card (to_copy v f0) < card (outside v f0)"
  using assms by (auto simp: gc_start_def)

lemma page_status:
  assumes s: "gc_state v f0 M E f" and x: "addr_ok (cf_sp f0) x" "p_blk x = v" "die_at x \<notin> E"
  shows "\<exists>p. get_pg (cf_ssd f) x = Some p \<and> pg_status p = st (blks_of f0) x"
proof -
  have "geo_ok (cf_sp f)" "nand_ok (cf_sp f) (blks_of f)" using s by (auto simp: gc_state_def core_def)
  then show ?thesis
    using get_pg_ok(2)[of "cf_ssd f" x] s x gc_state_sp(1)[OF s] by (simp add: gc_state_def line_pages_def)
qed

lemma clean_page_step:
  assumes k: "gc_start v f0" and s: "gc_state v f0 (M \<union> first_pages v f0 t i) E f" and t: "flash_pos (cf_sp f0) t" "snd t \<notin> E"
    and i: "i < pgs_per_flashpg (cf_sp f0)" and new: "M \<inter> first_pages v f0 t (Suc i) = {}"
  shows "\<exists>f'. clean_one_page (flash_ppa (cf_sp f0) v t) i f = Some f' \<and>
    gc_state v f0 (M \<union> first_pages v f0 t (Suc i)) E f'"
proof -
  note geo = gc_startD(1)[OF k] and line = gc_startD(2)[OF k] and written = gc_startD(3)[OF k] and room = gc_startD(4)[OF k]
  let ?x = "at_pg (flash_ppa (cf_sp f0) v t) (p_pg (flash_ppa (cf_sp f0) v t) + i)"
  note x = flash_page_t(2-)[OF geo line t(1) i]
  note fs = first_pages_Suc[OF geo line t(1) i]
  have d: "die_at ?x \<notin> E" using x(2) t(2) by simp
  obtain p where p: "get_pg (cf_ssd f) ?x = Some p" "pg_status p = st (blks_of f0) ?x"
    using page_status[OF s x(1,4) d] by blast
  show ?thesis
  proof (cases "st (blks_of f0) ?x = PG_VALID")
    case True
    then have "?x \<notin> M" using new fs(1) by auto
    then have "\<exists>f'. gc_write_page f ?x = Some f' \<and> gc_state v f0 (insert ?x (M \<union> first_pages v f0 t i)) E f'"
      using gc_write_page_ok[OF s fs(3)[OF True] _ d room] fs(2) by simp
    then show ?thesis using p True fs(1) by (simp add: clean_one_page_def)
  next
    case False
    then show ?thesis using p s fs(1) by (simp add: clean_one_page_def)
  qed
qed

lemma count_flashpg:
  assumes k: "gc_start v f0" and s: "gc_state v f0 M E f" and t: "flash_pos (cf_sp f0) t" "snd t \<notin> E"
  shows "\<exists>n. count_valid_in_flashpg f (flash_ppa (cf_sp f0) v t) = Some n \<and>
    (n = 0 \<longrightarrow> first_pages v f0 t (pgs_per_flashpg (cf_sp f0)) = {})"
proof -
  note geo = gc_startD(1)[OF k] and line = gc_startD(2)[OF k] and written = gc_startD(3)[OF k] and room = gc_startD(4)[OF k]
  let ?a = "flash_ppa (cf_sp f0) v t" and ?F = "pgs_per_flashpg (cf_sp f0)"
  have "\<exists>n. count_valid_in_flashpg f ?a = Some n \<and>
    (n = 0 \<longrightarrow> first_pages v f0 t (length [0..<pgs_per_flashpg (cf_sp f)]) = {})"
    unfolding count_valid_in_flashpg_def
  proof (rule foldM_invariant)
    show "(0 :: nat) = 0 \<longrightarrow> first_pages v f0 t 0 = {}" by simp
    fix i and n :: nat assume i: "i < length [0..<pgs_per_flashpg (cf_sp f)]"
      and IH: "n = 0 \<longrightarrow> first_pages v f0 t i = {}"
    have iF: "i < ?F" using i gc_state_sp(1)[OF s] by simp
    let ?x = "at_pg ?a (p_pg ?a + i)"
    note x = flash_page_t(2-)[OF geo line t(1) iF]
    have d: "die_at ?x \<notin> E" using x(2) t(2) by simp
    obtain p where p: "get_pg (cf_ssd f) ?x = Some p" "pg_status p = st (blks_of f0) ?x"
      using page_status[OF s x(1,4) d] by blast
    have "st (blks_of f0) ?x \<noteq> PG_FREE" using written x(1,4) by (auto simp: line_pages_def)
    then show "\<exists>n'. (do { p \<leftarrow> get_pg (cf_ssd f) (at_pg ?a (p_pg ?a + [0..<pgs_per_flashpg (cf_sp f)] ! i));
        nvmev_assert (pg_status p \<noteq> PG_FREE);
        Some (if pg_status p = PG_VALID then n + 1 else n) }) = Some n' \<and>
        (n' = 0 \<longrightarrow> first_pages v f0 t (Suc i) = {})"
      using p IH i first_pages_Suc(1)[OF geo line t(1) iF] by simp
  qed
  then show ?thesis using gc_state_sp(1)[OF s] by simp
qed

lemma clean_flashpg:
  assumes k: "gc_start v f0" and s: "gc_state v f0 M E f" and t: "flash_pos (cf_sp f0) t" "snd t \<notin> E"
    and new: "M \<inter> first_pages v f0 t (pgs_per_flashpg (cf_sp f0)) = {}"
  shows "\<exists>f'. clean_one_flashpg f (flash_ppa (cf_sp f0) v t) = Some f' \<and>
    gc_state v f0 (M \<union> first_pages v f0 t (pgs_per_flashpg (cf_sp f0))) E f'"
proof -
  note geo = gc_startD(1)[OF k] and line = gc_startD(2)[OF k] and written = gc_startD(3)[OF k] and room = gc_startD(4)[OF k]
  let ?a = "flash_ppa (cf_sp f0) v t" and ?F = "pgs_per_flashpg (cf_sp f0)"
  note sp = gc_state_sp[OF s]
  obtain n where n: "count_valid_in_flashpg f ?a = Some n" "n = 0 \<longrightarrow> first_pages v f0 t ?F = {}"
    using count_flashpg[OF k s t] by blast
  show ?thesis
  proof (cases "n = 0")
    case True
    then show ?thesis using n s by (simp add: clean_one_flashpg_def Let_def)
  next
    case False
    have c: "core {a \<in> M. die_at a \<notin> E} {} {v} f" using s by (simp add: gc_state_def)
    have "ssd_ok (cf_ssd f)" using core_parts(3)[OF c] .
    then have F: "0 < ?F" using sp(1) by (auto simp: ssd_ok_def timing_params_ok_def)
    have "addr_ok (cf_sp f) ?a"
      using flash_page_t(1)[OF geo line t(1) F] sp(1) by simp
    then have "\<exists>s'. nand_op_at f NAND_READ (pgsz (cf_sp f) * n) ?a = Some (f\<lparr>cf_ssd := s'\<rparr>) \<and>
        ssd_ok s' \<and> same_nand (cf_ssd f) s'"
      using nand_op_at_ok[OF c, of ?a NAND_READ "pgsz (cf_sp f) * n"] False geo_dims(4)[OF geo] sp(1) by simp
    then obtain f1 where f1: "(if enable_gc_delay (cf_cp f) then nand_op_at f NAND_READ (pgsz (cf_sp f) * n) ?a
        else Some f) = Some f1" "gc_state v f0 M E f1"
      using gc_state_ssd[OF s] s by (cases "enable_gc_delay (cf_cp f)") auto
    have sub: "first_pages v f0 t j \<subseteq> first_pages v f0 t ?F" if "j \<le> ?F" for j
      using that by (auto simp: first_pages_def split: prod.splits)
    have "\<exists>f'. foldM (clean_one_page ?a) [0..<?F] f1 = Some f' \<and>
        gc_state v f0 (M \<union> first_pages v f0 t (length [0..<?F])) E f'"
    proof (rule foldM_invariant)
      show "gc_state v f0 (M \<union> first_pages v f0 t 0) E f1"
        using f1(2) by simp
      fix i g assume i: "i < length [0..<?F]" and g: "gc_state v f0 (M \<union> first_pages v f0 t i) E g"
      have "M \<inter> first_pages v f0 t (Suc i) = {}" using sub[of "Suc i"] new i by auto
      then show "\<exists>g'. clean_one_page ?a ([0..<?F] ! i) g = Some g' \<and>
          gc_state v f0 (M \<union> first_pages v f0 t (Suc i)) E g'"
        using clean_page_step[OF k g t] i by simp
    qed
    then show ?thesis using n(1) False f1(1) sp(1)
      by (simp add: clean_one_flashpg_def Let_def split: if_splits)
  qed
qed

section \<open>Erasing a block\<close>

definition erased :: "nand_block \<Rightarrow> nand_block" where
  "erased b = b\<lparr>b_pg := map (\<lambda>p. p\<lparr>pg_status := PG_FREE\<rparr>) (b_pg b), b_ipc := 0, b_vpc := 0,
     b_erase_cnt := b_erase_cnt b + 1\<rparr>"

lemma erase_loop:
  assumes "length pgs = n" "\<forall>p\<in>set pgs. pg_nsecs p = k"
  shows "foldM (\<lambda>i pgs. do { pg \<leftarrow> array_read pgs i; nvmev_assert (pg_nsecs pg = k);
      array_write pgs i (pg\<lparr>pg_status := PG_FREE\<rparr>) }) [0..<n] pgs =
    Some (map (\<lambda>p. p\<lparr>pg_status := PG_FREE\<rparr>) pgs)"
proof -
  let ?e = "\<lambda>p. p\<lparr>pg_status := PG_FREE\<rparr>"
  let ?P = "\<lambda>i qs. qs = map ?e (take i pgs) @ drop i pgs"
  have "\<exists>qs. foldM (\<lambda>i pgs. do { pg \<leftarrow> array_read pgs i; nvmev_assert (pg_nsecs pg = k);
      array_write pgs i (?e pg) }) [0..<n] pgs = Some qs \<and> ?P (length [0..<n]) qs"
  proof (rule foldM_invariant)
    fix i qs assume i: "i < length [0..<n]" and qs: "?P i qs"
    have "pg_nsecs (pgs ! i) = k" "qs ! i = pgs ! i" "i < length qs" "length (take i pgs) = i"
      using assms i qs by (auto simp: nth_append)
    moreover have "qs[i := ?e (pgs ! i)] = map ?e (take (Suc i) pgs) @ drop (Suc i) pgs"
      using assms i qs by (simp add: list_eq_iff_nth_eq nth_append nth_list_update min_def take_Suc_conv_app_nth)
    ultimately show "\<exists>qs'. (do { pg \<leftarrow> array_read qs ([0..<n] ! i); nvmev_assert (pg_nsecs pg = k);
        array_write qs ([0..<n] ! i) (?e pg) }) = Some qs' \<and> ?P (Suc i) qs'"
      using i by simp
  qed simp
  then show ?thesis using assms by simp
qed

lemma mark_block_free_eq:
  assumes g: "geo_ok (cf_sp f)" and n: "nand_ok (cf_sp f) (blks_of f)" and a: "addr_ok (cf_sp f) a"
  shows "mark_block_free f a = Some (put_blk f a (erased (blks_of f (blk_of a))))"
proof -
  have "block_shape (cf_sp f) (blks_of f (blk_of a))" using nand_okD(1)[OF n a] .
  then show ?thesis
    using erase_loop[of "b_pg (blks_of f (blk_of a))"] get_pg_ok(1)[OF g n a]
    by (simp add: mark_block_free_def erased_def block_shape_def Let_def)
qed

lemma st_erased:
  assumes "nand_ok spp B" "addr_ok spp a" "addr_ok spp x"
  shows "st (B(blk_of a := erased (B (blk_of a)))) x = (if blk_of x = blk_of a then PG_FREE else st B x)"
proof (cases "blk_of x = blk_of a")
  case True
  then have "p_pg x < length (b_pg (B (blk_of a)))"
    using nand_okD(4)[OF assms(1,3)] by simp
  then show ?thesis using True by (simp add: st_def erased_def)
qed (auto simp: st_def)

lemma count_in_none: "(\<And>x. x \<in> A \<Longrightarrow> st B x \<noteq> s) \<Longrightarrow> count_in B s A = 0"
  unfolding count_in_def by (metis (mono_tags, lifting) Collect_empty_eq card.empty)

lemma nand_ok_erased:
  assumes n: "nand_ok spp B" and a: "addr_ok spp a"
  shows "nand_ok spp (B(blk_of a := erased (B (blk_of a))))"
  unfolding nand_ok_def Let_def
proof (intro allI impI)
  let ?B = "B(blk_of a := erased (B (blk_of a)))"
  fix ch lun l assume i: "ch < nchs spp" "lun < luns_per_ch spp" "l < blks_per_pl spp"
  let ?k = "(ch, lun, 0, l)"
  have old: "block_shape spp (B ?k)" "b_vpc (B ?k) = int (count_in B PG_VALID (block_pages spp ?k))"
    "b_ipc (B ?k) = int (count_in B PG_INVALID (block_pages spp ?k))"
    using n i by (auto simp: nand_ok_def Let_def)
  show "block_shape spp (?B ?k) \<and> b_vpc (?B ?k) = int (count_in ?B PG_VALID (block_pages spp ?k)) \<and>
      b_ipc (?B ?k) = int (count_in ?B PG_INVALID (block_pages spp ?k))"
  proof (cases "?k = blk_of a")
    case True
    have "\<forall>x\<in>block_pages spp ?k. st ?B x = PG_FREE"
      using st_erased[OF n a] True by (simp add: block_pages_def)
    then have "count_in ?B s (block_pages spp ?k) = 0" if "s \<noteq> PG_FREE" for s
      using that by (intro count_in_none) simp
    moreover have "?B ?k = erased (B ?k)" using True by simp
    ultimately show ?thesis using old(1) by (simp add: block_shape_def erased_def del: fun_upd_apply)
  next
    case False
    have "st ?B x = st B x" if "x \<in> block_pages spp ?k" for x
      using st_erased[OF n a, of x] that False by (auto simp: block_pages_def)
    then have "count_in ?B s (block_pages spp ?k) = count_in B s (block_pages spp ?k)" for s
      by (rule count_in_cong)
    moreover have "?B ?k = B ?k" using False by (rule fun_upd_other)
    ultimately show ?thesis using old by simp
  qed
qed

lemma map_ok_erased:
  assumes m: "map_ok spp B dead {} mt rm" and n: "nand_ok spp B" and a: "addr_ok spp a"
    and all: "\<And>x. addr_ok spp x \<Longrightarrow> blk_of x = blk_of a \<Longrightarrow> st B x = PG_VALID \<Longrightarrow> x \<in> dead"
  shows "map_ok spp (B(blk_of a := erased (B (blk_of a)))) {x \<in> dead. blk_of x \<noteq> blk_of a} {} mt rm"
proof -
  let ?B = "B(blk_of a := erased (B (blk_of a)))"
  have e: "st ?B x = (if blk_of x = blk_of a then PG_FREE else st B x)" if "addr_ok spp x" for x
    using st_erased[OF n a that] .
  have 1: "addr_ok spp (mt ! k) \<and> st ?B (mt ! k) = PG_VALID \<and> mt ! k \<notin> {x \<in> dead. blk_of x \<noteq> blk_of a} \<and>
      rm ! pgidx spp (mt ! k) = k" if "k < tt_pgs spp" "mt ! k \<noteq> UNMAPPED_PPA" for k
  proof -
    have "addr_ok spp (mt ! k)" "st B (mt ! k) = PG_VALID" "mt ! k \<notin> dead" "rm ! pgidx spp (mt ! k) = k"
      using m that by (auto simp: map_ok_def)
    moreover from this have "blk_of (mt ! k) \<noteq> blk_of a" using all by blast
    ultimately show ?thesis using e[of "mt ! k"] by (simp only: if_False) blast
  qed
  have 2: "rm ! pgidx spp x < tt_pgs spp \<and> mt ! (rm ! pgidx spp x) = x"
    if "addr_ok spp x" "st ?B x = PG_VALID" "x \<notin> {x \<in> dead. blk_of x \<noteq> blk_of a}" for x
  proof -
    have "blk_of x \<noteq> blk_of a" "st B x = PG_VALID"
      using e[OF that(1)] that(2) page_status.distinct by (metis, metis)
    then show ?thesis using m that(1,3) by (simp add: map_ok_def)
  qed
  show ?thesis using m 1 2 unfolding map_ok_def by blast
qed

lemma erase_step:
  assumes s: "gc_state v f0 M E f" and a: "addr_ok (cf_sp f0) a" "p_blk a = v" "die_at a \<notin> E"
    and all: "\<And>x. x \<in> to_copy v f0 \<Longrightarrow> die_at x = die_at a \<Longrightarrow> x \<in> M"
  shows "\<exists>f'. mark_block_free f a = Some f' \<and> gc_state v f0 M (insert (die_at a) E) f'"
proof -
  let ?dead = "{x \<in> M. die_at x \<notin> E}" and ?spp = "cf_sp f" and ?B = "blks_of f"
  let ?B' = "?B(blk_of a := erased (?B (blk_of a)))"
  let ?f = "put_blk f a (erased (?B (blk_of a)))"
  have c: "core ?dead {} {v} f" and w: "user_ok f" "gc_ok f" and fr: "step_frame f0 f" and k: "kept v f0 f"
    and M: "M \<subseteq> to_copy v f0" and sv: "\<forall>a\<in>line_pages (cf_sp f0) v. st (blks_of f) a =
      (if die_at a \<in> E then PG_FREE else st (blks_of f0) a)"
    and cnt: "card (outside v f) + card M = card (outside v f0)"
    using s by (auto simp: gc_state_def)
  have sp: "cf_sp f0 = ?spp" using fr by (simp add: step_frame_def)
  note parts = core_parts[OF c]
  have aa: "addr_ok ?spp a" using a sp by simp
  have f': "cf_sp ?f = ?spp" "blks_of ?f = ?B'" "cf_lm ?f = cf_lm f" "cf_maptbl ?f = cf_maptbl f"
    "cf_rmap ?f = cf_rmap f" "cf_wp ?f = cf_wp f" "cf_gc_wp ?f = cf_gc_wp f" "cf_wfc ?f = cf_wfc f"
    "cf_page_counter ?f = cf_page_counter f" "cf_cp ?f = cf_cp f" "ssd_ok (cf_ssd ?f)"
    "ssd_write_buffer (cf_ssd ?f) = ssd_write_buffer (cf_ssd f)"
    using parts(3) by (auto simp: put_blk_def set_blk_def ssd_ok_def)
  have e: "st ?B' x = (if blk_of x = blk_of a then PG_FREE else st ?B x)" if "addr_ok ?spp x" for x
    using st_erased[OF parts(2) aa that] .
  have same: "blk_of x = blk_of a \<longleftrightarrow> p_blk x = v \<and> die_at x = die_at a" if "addr_ok ?spp x" for x
    using that aa a(2) by (auto simp: addr_ok_def)
  have only: "only_line ?spp v ?B ?B'" unfolding only_line_def using e same by metis
  have dead: "{x \<in> ?dead. blk_of x \<noteq> blk_of a} = {x \<in> M. die_at x \<notin> insert (die_at a) E}"
    using M same a(2) sp by (fastforce simp: to_copy_def line_pages_def)
  have tocopy: "x \<in> to_copy v f0" if "addr_ok ?spp x" "p_blk x = v" "die_at x = die_at a" "st ?B x = PG_VALID" for x
  proof -
    have x: "x \<in> line_pages (cf_sp f0) v" using that sp by (simp add: line_pages_def)
    then have "st ?B x = st (blks_of f0) x" using sv that(3) a(3) by auto
    then show ?thesis using x that(4) by (simp add: to_copy_def)
  qed
  have "x \<in> ?dead" if "addr_ok ?spp x" "blk_of x = blk_of a" "st ?B x = PG_VALID" for x
    using all[OF tocopy[OF that(1) _ _ that(3)]] same[OF that(1)] that(2) a(3) by auto
  note m = map_ok_erased[OF parts(4,2) aa this, unfolded dead]
  have "lines_ok ?spp ?B' {v} (lm_lines (cf_lm f))"
    using parts(5) only_line_count[OF only] unfolding lines_ok_def by auto
  moreover have "part_ok ?spp ?B' {v} (wp_curline (cf_wp f)) (wp_curline (cf_gc_wp f)) (cf_lm f)"
    using part_ok_status[OF parts(6) only] by simp
  moreover have "\<forall>d\<in>{x \<in> M. die_at x \<notin> insert (die_at a) E}. p_blk d \<in> {v}"
    using M by (auto simp: to_copy_def line_pages_def)
  ultimately have c': "core {x \<in> M. die_at x \<notin> insert (die_at a) E} {} {v} ?f"
    unfolding core_def f'(1-7) using m nand_ok_erased[OF parts(2) aa] parts(1,7) f'(11) by blast
  have "user_ok ?f"
    using w(1) counters_other_line[OF _ only] core_wl_gl(2)[OF c] f' unfolding user_ok_def by auto
  moreover have "gc_ok ?f"
    using w(2) gc_fill_other_line[OF _ only] core_wl_gl(3)[OF c] f' unfolding gc_ok_def by auto
  moreover have "step_frame f0 ?f" "kept v f0 ?f" using fr k f' by (auto simp: step_frame_def kept_def)
  moreover have "outside v ?f = outside v f"
    using only f'(1,2) by (auto simp: outside_def free_set_def only_line_def)
  moreover have "st ?B' x = (if die_at x \<in> insert (die_at a) E then PG_FREE else st (blks_of f0) x)"
    if "x \<in> line_pages (cf_sp f0) v" for x
    using e[of x] same[of x] sv that sp by (auto simp: line_pages_def)
  ultimately have "gc_state v f0 M (insert (die_at a) E) ?f"
    using c' M cnt f'(2) unfolding gc_state_def by simp
  then show ?thesis using mark_block_free_eq[OF parts(1,2) aa] by blast
qed

section \<open>The loop over the victim line\<close>

lemma product_upt_take:
  assumes i: "i < length (List.product [0..<n] ys)" and t: "List.product [0..<n] ys ! i = (k, y)"
  shows "(k', y') \<in> set (take i (List.product [0..<n] ys)) \<Longrightarrow> k' \<le> k"
    "k' < k \<Longrightarrow> y' \<in> set ys \<Longrightarrow> (k', y') \<in> set (take i (List.product [0..<n] ys))"
proof -
  let ?P = "List.product [0..<n] ys" and ?m = "length ys"
  have nth: "?P ! j = (j div ?m, ys ! (j mod ?m))" if "j < length ?P" for j
  proof -
    have "j div ?m < n" using that by (simp add: length_product less_mult_imp_div_less)
    then show ?thesis using that product_nth[of j "[0..<n]" ys] by (simp add: length_product)
  qed
  have k: "k = i div ?m" using nth[OF i] t by simp
  have take: "set (take i ?P) = (!) ?P ` {..<i}" using i by (simp add: nth_image lessThan_atLeast0)
  show "k' \<le> k" if mem: "(k', y') \<in> set (take i ?P)"
  proof -
    obtain j where "j < i" "?P ! j = (k', y')" using mem take by auto
    then show ?thesis using nth[of j] i k by (auto intro: div_le_mono)
  qed
  show "(k', y') \<in> set (take i ?P)" if lt: "k' < k" and mem: "y' \<in> set ys"
  proof -
    obtain r where r: "r < ?m" "y' = ys ! r" using mem by (auto simp: in_set_conv_nth)
    have "k' * ?m + r < k * ?m" using lt r(1) by (rule radix_less)
    also have "\<dots> \<le> i" using k by simp
    finally have j: "k' * ?m + r < i" .
    have "(k' * ?m + r) div ?m = k'" "(k' * ?m + r) mod ?m = r"
      using r(1) by (auto intro!: div_nat_eqI simp: mult.commute)
    then have "?P ! (k' * ?m + r) = (k', y')" using nth[of "k' * ?m + r"] i j r by simp
    then show ?thesis unfolding take using j by (metis imageI lessThan_iff)
  qed
qed

abbreviation chunk_of :: "ssdparams \<Rightarrow> ppa \<Rightarrow> nat \<times> nat \<times> nat" where
  "chunk_of spp a \<equiv> (p_pg a div pgs_per_flashpg spp, die_at a)"

definition done_pages :: "nat \<Rightarrow> conv_ftl \<Rightarrow> (nat \<times> nat \<times> nat) set \<Rightarrow> ppa set" where
  "done_pages v f0 T = {a \<in> to_copy v f0. chunk_of (cf_sp f0) a \<in> T}"

definition done_dies :: "conv_ftl \<Rightarrow> (nat \<times> nat \<times> nat) set \<Rightarrow> (nat \<times> nat) set" where
  "done_dies f0 T = {d. (flashpgs_per_blk (cf_sp f0) - 1, d) \<in> T}"

lemma first_pages_chunk:
  "0 < pgs_per_flashpg (cf_sp f0) \<Longrightarrow>
    first_pages v f0 t (pgs_per_flashpg (cf_sp f0)) = {a \<in> to_copy v f0. chunk_of (cf_sp f0) a = t}"
proof -
  assume F: "0 < pgs_per_flashpg (cf_sp f0)"
  have "k * pgs_per_flashpg (cf_sp f0) \<le> p \<and> p < k * pgs_per_flashpg (cf_sp f0) + pgs_per_flashpg (cf_sp f0) \<longleftrightarrow>
      p div pgs_per_flashpg (cf_sp f0) = k" for p k :: nat
    using F div_nat_eqI[of "pgs_per_flashpg (cf_sp f0)" k p] dividend_less_div_times[OF F, of p]
    by (auto simp: algebra_simps)
  then show ?thesis by (cases t) (auto simp: first_pages_def)
qed

lemma copy_chunk:
  assumes g: "geo_ok (cf_sp f0)" and F: "0 < pgs_per_flashpg (cf_sp f0)" and x: "x \<in> to_copy v f0"
  shows "fst (chunk_of (cf_sp f0) x) \<le> flashpgs_per_blk (cf_sp f0) - 1"
    "die_at x \<in> set (List.product [0..<nchs (cf_sp f0)] [0..<luns_per_ch (cf_sp f0)])"
proof -
  have a: "addr_ok (cf_sp f0) x" using x by (auto simp: to_copy_def line_pages_def)
  then have "p_pg x < flashpgs_per_blk (cf_sp f0) * pgs_per_flashpg (cf_sp f0)"
    using geo_pages(4)[OF g] by (simp add: addr_ok_def)
  then have "p_pg x div pgs_per_flashpg (cf_sp f0) < flashpgs_per_blk (cf_sp f0)"
    using F by (simp add: less_mult_imp_div_less)
  then show "fst (chunk_of (cf_sp f0) x) \<le> flashpgs_per_blk (cf_sp f0) - 1" by simp
  show "die_at x \<in> set (List.product [0..<nchs (cf_sp f0)] [0..<luns_per_ch (cf_sp f0)])"
    using a by (simp add: addr_ok_def)
qed

definition gc_at :: "nat \<Rightarrow> conv_ftl \<Rightarrow> nat \<Rightarrow> conv_ftl \<Rightarrow> bool" where
  "gc_at v f0 i f \<longleftrightarrow> gc_state v f0 (done_pages v f0 (set (take i (gc_order (cf_sp f0)))))
     (done_dies f0 (set (take i (gc_order (cf_sp f0))))) f"

lemma gc_one_finish:
  assumes k: "gc_start v f0" and s: "gc_state v f0 M E f" and t: "flash_pos (cf_sp f0) t" "snd t \<notin> E"
    and F: "0 < pgs_per_flashpg (cf_sp f0)"
    and all: "\<And>x. x \<in> to_copy v f0 \<Longrightarrow> die_at x = snd t \<Longrightarrow> x \<in> M"
  shows "\<exists>f'. (do {
       f2 \<leftarrow> mark_block_free f (flash_ppa (cf_sp f0) v t);
       f3 \<leftarrow> (if b then nand_op_at f2 NAND_ERASE 0 (flash_ppa (cf_sp f0) v t) else Some f2);
       l \<leftarrow> get_lun (cf_ssd f3) (flash_ppa (cf_sp f0) v t);
       Some (f3\<lparr>cf_ssd := set_lun (cf_ssd f3) (flash_ppa (cf_sp f0) v t) (l\<lparr>l_gc_endtime := l_next_avail l\<rparr>)\<rparr>)
     }) = Some f' \<and> gc_state v f0 M (insert (snd t) E) f'"
proof -
  let ?a = "flash_ppa (cf_sp f0) v t"
  note geo = gc_startD(1)[OF k] and line = gc_startD(2)[OF k]
  note fl = flash_page_t[OF geo line t(1) F]
  have a: "addr_ok (cf_sp f0) ?a" "p_blk ?a = v" "die_at ?a = snd t"
    using fl by (auto simp: at_pg_def)
  obtain f2 where f2: "mark_block_free f ?a = Some f2" "gc_state v f0 M (insert (snd t) E) f2"
    using erase_step[OF s a(1,2)] a(3) t(2) all by (metis (no_types, lifting))
  obtain f3 where f3: "(if b then nand_op_at f2 NAND_ERASE 0 ?a else Some f2) = Some f3"
    "gc_state v f0 M (insert (snd t) E) f3"
  proof (cases b)
    case True
    have "core {x \<in> M. die_at x \<notin> insert (snd t) E} {} {v} f2" using f2(2) by (simp add: gc_state_def)
    then obtain s' where "nand_op_at f2 NAND_ERASE 0 ?a = Some (f2\<lparr>cf_ssd := s'\<rparr>)" "ssd_ok s'" "same_nand (cf_ssd f2) s'"
      using nand_op_at_ok[of _ _ _ f2 ?a NAND_ERASE 0] a(1) gc_state_sp(1)[OF f2(2)] by fastforce
    then show ?thesis using that True gc_state_ssd[OF f2(2)] by simp
  qed (use f2 that in simp)
  have "lun_in (cf_sp f3) ?a" using addr_ok_blk_in[OF geo a(1)] gc_state_sp(1)[OF f3(2)] by simp
  then have l: "get_lun (cf_ssd f3) ?a = Some (ssd_lun (cf_ssd f3) (p_ch ?a, p_lun ?a))" by (simp add: get_lun_def)
  have "ssd_ok (cf_ssd f3)" using f3(2) by (simp add: gc_state_def core_def)
  note set = set_lun_ok[OF this, of ?a]
  show ?thesis
    using f2(1) f3(1) l gc_state_ssd[OF f3(2)] set by simp
qed

lemma gc_order_step:
  assumes g: "geo_ok (cf_sp f0)" and F: "0 < pgs_per_flashpg (cf_sp f0)" and i: "i < length (gc_order (cf_sp f0))"
  defines "t \<equiv> gc_order (cf_sp f0) ! i" and "T \<equiv> set (take i (gc_order (cf_sp f0)))"
  shows "flash_pos (cf_sp f0) t" "snd t \<notin> done_dies f0 T"
    "done_pages v f0 T \<inter> first_pages v f0 t (pgs_per_flashpg (cf_sp f0)) = {}"
    "done_pages v f0 (set (take (Suc i) (gc_order (cf_sp f0)))) =
      done_pages v f0 T \<union> first_pages v f0 t (pgs_per_flashpg (cf_sp f0))"
    "done_dies f0 (set (take (Suc i) (gc_order (cf_sp f0)))) =
      (if fst t = flashpgs_per_blk (cf_sp f0) - 1 then insert (snd t) (done_dies f0 T) else done_dies f0 T)"
    "fst t = flashpgs_per_blk (cf_sp f0) - 1 \<Longrightarrow> x \<in> to_copy v f0 \<Longrightarrow> die_at x = snd t \<Longrightarrow>
      x \<in> done_pages v f0 T \<union> first_pages v f0 t (pgs_per_flashpg (cf_sp f0))"
proof -
  let ?o = "gc_order (cf_sp f0)" and ?n = "flashpgs_per_blk (cf_sp f0)"
  have "t \<in> set ?o" using i by (simp add: t_def)
  then show pos: "flash_pos (cf_sp f0) t" by (auto simp: gc_order_def)
  have "distinct ?o" by (simp add: gc_order_def distinct_product)
  then have new: "t \<notin> T" using i by (auto simp: t_def T_def in_set_conv_nth nth_eq_iff_index_eq)
  have suc: "set (take (Suc i) ?o) = insert t T" using i by (simp add: t_def T_def take_Suc_conv_app_nth)
  note ord = product_upt_take[of i ?n "List.product [0..<nchs (cf_sp f0)] [0..<luns_per_ch (cf_sp f0)]" "fst t" "snd t",
      folded gc_order_def, OF i, folded T_def, simplified t_def[symmetric] prod.collapse, OF refl]
  show "snd t \<notin> done_dies f0 T"
  proof
    assume "snd t \<in> done_dies f0 T"
    then have m: "(?n - 1, snd t) \<in> T" by (simp add: done_dies_def)
    have "?n - 1 \<le> fst t" by (rule ord(1)[OF m])
    moreover have "fst t < ?n" using pos by auto
    ultimately have "t = (?n - 1, snd t)" by (intro prod_eqI) auto
    then show False using m new by simp
  qed
  note fp = first_pages_chunk[OF F]
  show "done_pages v f0 T \<inter> first_pages v f0 t (pgs_per_flashpg (cf_sp f0)) = {}"
    using new unfolding fp by (auto simp: done_pages_def)
  show "done_pages v f0 (set (take (Suc i) ?o)) = done_pages v f0 T \<union> first_pages v f0 t (pgs_per_flashpg (cf_sp f0))"
    unfolding fp suc by (auto simp: done_pages_def)
  show "done_dies f0 (set (take (Suc i) ?o)) =
      (if fst t = ?n - 1 then insert (snd t) (done_dies f0 T) else done_dies f0 T)"
    unfolding suc by (cases t) (auto simp: done_dies_def)
  show "x \<in> done_pages v f0 T \<union> first_pages v f0 t (pgs_per_flashpg (cf_sp f0))"
    if "fst t = ?n - 1" "x \<in> to_copy v f0" "die_at x = snd t"
    using copy_chunk[OF g F that(2)] ord(2)[of "fst (chunk_of (cf_sp f0) x)" "die_at x"] that
    unfolding fp by (cases t) (auto simp: done_pages_def le_less)
qed

lemma gc_one_ok:
  assumes k: "gc_start v f0" and F: "0 < pgs_per_flashpg (cf_sp f0)"
    and i: "i < length (gc_order (cf_sp f0))" and s: "gc_at v f0 i f"
  shows "\<exists>f'. gc_one v (gc_order (cf_sp f0) ! i) f = Some f' \<and> gc_at v f0 (Suc i) f'"
proof -
  let ?o = "gc_order (cf_sp f0)" and ?n = "flashpgs_per_blk (cf_sp f0)"
  let ?t = "?o ! i" and ?T = "set (take i ?o)"
  let ?M = "done_pages v f0 ?T" and ?E = "done_dies f0 ?T"
  let ?a = "flash_ppa (cf_sp f0) v ?t"
  note geo = gc_startD(1)[OF k] and line = gc_startD(2)[OF k]
  note o = gc_order_step[OF geo F i]
  have s': "gc_state v f0 ?M ?E f" using s by (simp add: gc_at_def)
  note sp = gc_state_sp[OF s']
  let ?M' = "done_pages v f0 (set (take (Suc i) ?o))"
  obtain f1 where f1: "clean_one_flashpg f ?a = Some f1" "gc_state v f0 ?M' ?E f1"
    using clean_flashpg[OF k s' o(1,2,3)] unfolding o(4) by blast
  have "addr_ok (cf_sp f0) ?a" using flash_page_t(1)[OF geo line o(1) F] .
  then have "lun_in (cf_sp f) ?a" using addr_ok_blk_in[OF geo] sp(1) by simp
  then have l: "get_lun (cf_ssd f) ?a = Some (ssd_lun (cf_ssd f) (p_ch ?a, p_lun ?a))" by (simp add: get_lun_def)
  have n: "int (fst ?t) = int ?n - 1 \<longleftrightarrow> fst ?t = ?n - 1" using o(1) by (cases ?t) auto
  have run: "gc_one v ?t f = (if fst ?t = ?n - 1 then do {
       f2 \<leftarrow> mark_block_free f1 ?a;
       f3 \<leftarrow> (if enable_gc_delay (cf_cp f) then nand_op_at f2 NAND_ERASE 0 ?a else Some f2);
       l \<leftarrow> get_lun (cf_ssd f3) ?a;
       Some (f3\<lparr>cf_ssd := set_lun (cf_ssd f3) ?a (l\<lparr>l_gc_endtime := l_next_avail l\<rparr>)\<rparr>) }
     else Some f1)"
  proof -
    obtain fp ch lun where t: "?t = (fp, ch, lun)" by (cases ?t) auto
    show ?thesis
      using l f1(1) n unfolding t gc_one_def Let_def prod.case sp(1) fst_conv by (simp split del: if_split)
  qed
  show ?thesis
  proof (cases "fst ?t = ?n - 1")
    case True
    have all: "x \<in> ?M'" if "x \<in> to_copy v f0" "die_at x = snd ?t" for x
      using o(6)[OF True that] unfolding o(4) .
    show ?thesis
      using gc_one_finish[OF k f1(2) o(1,2) F all, of "enable_gc_delay (cf_cp f)"] True
      unfolding run gc_at_def o(5) by simp
  next
    case False
    then show ?thesis using f1(2) unfolding run gc_at_def o(5) by simp
  qed
qed

lemma gc_loop_ok:
  assumes k: "gc_start v f0" and F: "0 < pgs_per_flashpg (cf_sp f0)" and s: "gc_state v f0 {} {} f0"
  shows "\<exists>f. foldM (gc_one v) (gc_order (cf_sp f0)) f0 = Some f \<and>
    gc_state v f0 (to_copy v f0) ({..<nchs (cf_sp f0)} \<times> {..<luns_per_ch (cf_sp f0)}) f"
proof -
  let ?o = "gc_order (cf_sp f0)"
  note geo = gc_startD(1)[OF k]
  have "\<exists>f. foldM (gc_one v) ?o f0 = Some f \<and> gc_at v f0 (length ?o) f"
  proof (rule foldM_invariant)
    show "gc_at v f0 0 f0" using s by (simp add: gc_at_def done_pages_def done_dies_def)
  qed (rule gc_one_ok[OF k F])
  moreover have "0 < flashpgs_per_blk (cf_sp f0)"
    using geo_pages(4)[OF geo] geo_dims(3)[OF geo] by (metis gr0I mult_0)
  then have "done_dies f0 (set ?o) = {..<nchs (cf_sp f0)} \<times> {..<luns_per_ch (cf_sp f0)}"
    by (auto simp: done_dies_def gc_order_def)
  moreover have "done_pages v f0 (set ?o) = to_copy v f0"
    using copy_chunk[OF geo F] \<open>0 < flashpgs_per_blk (cf_sp f0)\<close>
    by (fastforce simp: done_pages_def gc_order_def)
  ultimately show ?thesis by (simp add: gc_at_def)
qed

section \<open>Choosing the victim\<close>

lemma peek_pop_same:
  assumes "pqueue_peek q = Some (Some e)" "pqueue_pop s q = Some (Some e', s', q')"
  shows "e' = e"
  using assms by (auto simp: pqueue_peek_def pqueue_pop_def Let_def split: if_splits bind_splits)

lemma victim_le:
  assumes "vpq.above ls a b" "0 \<le> ln_vpc (ls ! a)" "ln_vpc (ls ! a) < 2 ^ 31"
    "0 \<le> ln_vpc (ls ! b)" "ln_vpc (ls ! b) < 2 ^ 31"
  shows "ln_vpc (ls ! a) \<le> ln_vpc (ls ! b)"
proof -
  have u: "uint (of_int k :: u64) = k" if "0 \<le> k" "k < 2 ^ 31" for k
    using that by (simp add: unsigned_of_int take_bit_int_eq_self)
  have "\<not> (of_int (ln_vpc (ls ! a)) :: u64) > of_int (ln_vpc (ls ! b))"
    using assms(1) unfolding vpq.above_def victim_sel
    by (simp add: victim_ops_def victim_line_cmp_pri_def)
  then have "uint (of_int (ln_vpc (ls ! a)) :: u64) \<le> uint (of_int (ln_vpc (ls ! b)) :: u64)"
    by (simp add: word_less_iff_unsigned[where ?'a = int] not_less)
  then show ?thesis using u assms(2-5) by simp
qed

lemma part_ok_take_victim:
  assumes p: "part_ok spp B {} wl gl lm" and v: "v \<in> pq_elems (lm_victim_pq lm)"
    and q: "pq_elems q = pq_elems (lm_victim_pq lm) - {v}" and fin: "finite (pq_elems (lm_victim_pq lm))"
    and n: "card (pq_elems (lm_victim_pq lm)) < 2 ^ 32"
  shows "part_ok spp B {v} wl gl (lm\<lparr>lm_lines := ls, lm_victim_pq := q, lm_victim_cnt := dec32 (lm_victim_cnt lm)\<rparr>)"
proof -
  let ?lm = "lm\<lparr>lm_lines := ls, lm_victim_pq := q, lm_victim_cnt := dec32 (lm_victim_cnt lm)\<rparr>"
  have ps: "part_sets (tt_lines spp) {} wl gl lm" and pc: "part_counts (tt_lines spp) lm"
    and pt: "part_status spp B lm" using p by (auto simp: part_ok_def)
  have "part_sets (tt_lines spp) {v} wl gl ?lm"
    using ps v q unfolding part_sets_iff by auto
  moreover have "0 < card (pq_elems (lm_victim_pq lm))" using v fin card_gt_0_iff by blast
  then have "part_counts (tt_lines spp) ?lm" using pc q v fin n by (simp add: part_counts_def)
  moreover have "part_status spp B ?lm" using pt q by (auto simp: part_status_def)
  ultimately show ?thesis by (simp add: part_ok_def)
qed

lemma victims_small:
  assumes "geo_ok spp" "part_ok spp B tr wl gl lm"
  shows "finite (pq_elems (lm_victim_pq lm))" "card (pq_elems (lm_victim_pq lm)) < 2 ^ 32"
    "pq_elems (lm_victim_pq lm) \<subseteq> {..<tt_lines spp}"
proof -
  show s: "pq_elems (lm_victim_pq lm) \<subseteq> {..<tt_lines spp}"
    using assms(2) by (auto simp: part_ok_def part_sets_def)
  then show "finite (pq_elems (lm_victim_pq lm))" by (rule finite_subset) simp
  have "card (pq_elems (lm_victim_pq lm)) \<le> tt_lines spp" using card_mono[OF _ s] by simp
  then show "card (pq_elems (lm_victim_pq lm)) < 2 ^ 32" using geo_small(3)[OF assms(1)] by simp
qed

lemma line_count_bounds:
  assumes "geo_ok spp" "lines_ok spp B tr ls" "l < tt_lines spp" "l \<notin> tr"
  shows "0 \<le> ln_vpc (ls ! l)" "ln_vpc (ls ! l) < 2 ^ 31" "0 \<le> ln_ipc (ls ! l)" "ln_ipc (ls ! l) < 2 ^ 31"
proof -
  have lp: "finite (line_pages spp l)" "card (line_pages spp l) = pgs_per_line spp"
    using line_pages_card[OF assms(1)] assms(3) geo_small(2)[OF assms(1)] by auto
  have "count_in B s (line_pages spp l) < 2 ^ 31" for s
    using count_in_le[OF lp(1), of B s] lp(2) geo_small(1)[OF assms(1)] by simp
  moreover have "ln_vpc (ls ! l) = int (count_in B PG_VALID (line_pages spp l))"
    "ln_ipc (ls ! l) = int (count_in B PG_INVALID (line_pages spp l))"
    using assms by (auto simp: lines_ok_def)
  ultimately show "0 \<le> ln_vpc (ls ! l)" "ln_vpc (ls ! l) < 2 ^ 31" "0 \<le> ln_ipc (ls ! l)" "ln_ipc (ls ! l) < 2 ^ 31"
    by auto
qed

definition best_victim :: "conv_ftl \<Rightarrow> nat \<Rightarrow> bool" where
  "best_victim f v \<longleftrightarrow> v \<in> pq_elems (lm_victim_pq (cf_lm f)) \<and>
     (\<forall>x\<in>pq_elems (lm_victim_pq (cf_lm f)). ln_vpc (lm_lines (cf_lm f) ! v) \<le> ln_vpc (lm_lines (cf_lm f) ! x))"

lemma select_victim_ok:
  assumes c: "core {} {} {} f" and ne: "pq_elems (lm_victim_pq (cf_lm f)) \<noteq> {}"
  shows "\<exists>v lm. select_victim_line f True = Some (Some v, f\<lparr>cf_lm := lm\<rparr>) \<and> best_victim f v \<and>
    core {} {} {v} (f\<lparr>cf_lm := lm\<rparr>) \<and> v < length (lm_lines lm) \<and> ln_id (lm_lines lm ! v) = v \<and>
    ln_ipc (lm_lines lm ! v) = ln_ipc (lm_lines (cf_lm f) ! v) \<and> lm_free lm = lm_free (cf_lm f)"
proof -
  let ?lm = "cf_lm f" and ?spp = "cf_sp f"
  let ?ls = "lm_lines ?lm" and ?q = "lm_victim_pq ?lm"
  note parts = core_parts[OF c]
  note vs = victims_small[OF parts(1,6)]
  have inv: "vpq.pq_inv ?ls ?q" and av: "pq_avail ?q = tt_lines ?spp + 1"
    and pos: "\<forall>l<tt_lines ?spp. ln_pos (?ls ! l) \<noteq> 0 \<longleftrightarrow> l \<in> pq_elems ?q"
    using parts(7) by (auto simp: queue_ok_def)
  have len: "length ?ls = tt_lines ?spp" and ids: "\<forall>l<tt_lines ?spp. ln_id (?ls ! l) = l"
    using parts(5) by (auto simp: lines_ok_def)
  obtain v where v: "pqueue_peek ?q = Some (Some v)" "v \<in> pq_elems ?q" "\<forall>x\<in>pq_elems ?q. vpq.above ?ls v x"
    using vpq.peek_correct[OF inv ne] by blast
  obtain ls q where pop: "pqueue_pop ?ls ?q = Some (Some v, ls, q)" "vpq.taken_out ?ls ?q v (Some (ls, q))"
    using vpq.pop_correct[OF inv ne] peek_pop_same[OF v(1)] by metis
  have t: "vpq.pq_inv ls q" "pq_elems q = pq_elems ?q - {v}" "pq_avail q = pq_avail ?q"
    "map (\<lambda>l. l\<lparr>ln_pos := 0\<rparr>) ls = map (\<lambda>l. l\<lparr>ln_pos := 0\<rparr>) ?ls"
    "\<forall>x. x \<notin> pq_elems q \<longrightarrow> ln_pos (ls ! x) = ln_pos (?ls ! x)"
    using pop(2) by (auto simp: vpq.taken_out_def victim_sel)
  note view = view_eqD[OF t(4)]
  have vlt: "v < length ls" using v(2) vs(3) view(1) len by auto
  let ?ls' = "victim_line_set_pos ls v 0"
  let ?lm' = "?lm\<lparr>lm_lines := ?ls', lm_victim_pq := q, lm_victim_cnt := dec32 (lm_victim_cnt ?lm)\<rparr>"
  have ls': "?ls' = ls[v := (ls ! v)\<lparr>ln_pos := 0\<rparr>]" by (simp add: victim_line_set_pos_def)
  have fields: "length ?ls' = tt_lines ?spp" "ln_id (?ls' ! l) = l" "ln_vpc (?ls' ! l) = ln_vpc (?ls ! l)"
    "ln_ipc (?ls' ! l) = ln_ipc (?ls ! l)" if "l < tt_lines ?spp" for l
    using view that vlt len ids unfolding ls' by (auto simp: nth_list_update)
  have "lines_ok ?spp (blks_of f) {v} ?ls'"
    using parts(5) fields vlt len view(1) unfolding lines_ok_def by auto
  moreover have "part_ok ?spp (blks_of f) {v} (wp_curline (cf_wp f)) (wp_curline (cf_gc_wp f)) ?lm'"
    by (rule part_ok_take_victim[OF parts(6) v(2) t(2) vs(1,2)])
  moreover have "vpq.pq_inv ?ls' q"
    using t(2) vlt by (intro vpq.pq_inv_cong[OF t(1)])
      (auto simp: ls' victim_sel nth_list_update pos_in_queue(2)[OF t(1)])
  moreover have "ln_pos (?ls' ! l) \<noteq> 0 \<longleftrightarrow> l \<in> pq_elems q" if "l < tt_lines ?spp" for l
    using pos that t(2,5) vlt pos_in_queue(1)[OF t(1), of l] unfolding ls' by (auto simp: nth_list_update)
  ultimately have "core {} {} {v} (f\<lparr>cf_lm := ?lm'\<rparr>)"
    using parts(1-4) av t(3) by (simp add: core_def queue_ok_def)
  moreover have "select_victim_line f True = Some (Some v, f\<lparr>cf_lm := ?lm'\<rparr>)"
    using v(1) pop(1) vlt view(1) by (simp add: select_victim_line_def Let_def)
  moreover have "best_victim f v"
    unfolding best_victim_def
  proof (intro conjI ballI)
    fix x assume x: "x \<in> pq_elems ?q"
    then have "v < tt_lines ?spp" "x < tt_lines ?spp" "vpq.above ?ls v x" using v(2,3) vs(3) by auto
    then show "ln_vpc (?ls ! v) \<le> ln_vpc (?ls ! x)"
      using victim_le[of ?ls v x] line_count_bounds[OF parts(1,5)] by simp
  qed (rule v(2))
  ultimately show ?thesis
    using fields[of v] vlt len view(1) by (intro exI[of _ v] exI[of _ ?lm']) simp
qed

section \<open>Returning the line\<close>

lemma queue_ok_frame:
  assumes q: "queue_ok spp lm" and l: "l \<notin> pq_elems (lm_victim_pq lm)" "ln_pos x = ln_pos (lm_lines lm ! l)"
    and lm': "lm_lines lm' = (lm_lines lm)[l := x]" "lm_victim_pq lm' = lm_victim_pq lm"
  shows "queue_ok spp lm'"
  using queue_ok_cong[OF queue_ok_set_line[OF q l], of lm'] lm' by simp

lemma part_ok_give_back:
  assumes g: "geo_ok spp" and p: "part_ok spp B {v} wl gl lm" and v: "v < tt_lines spp"
    and free: "\<forall>a\<in>line_pages spp v. st B a = PG_FREE"
  shows "part_ok spp B {} wl gl (lm\<lparr>lm_lines := ls, lm_free := lm_free lm @ [v], lm_free_cnt := add32 (lm_free_cnt lm) 1\<rparr>)"
proof -
  let ?lm = "lm\<lparr>lm_lines := ls, lm_free := lm_free lm @ [v], lm_free_cnt := add32 (lm_free_cnt lm) 1\<rparr>"
  have ps: "part_sets (tt_lines spp) {v} wl gl lm" and pc: "part_counts (tt_lines spp) lm"
    and pt: "part_status spp B lm" using p by (auto simp: part_ok_def)
  have "set (lm_free lm) \<subseteq> {..<tt_lines spp}" "distinct (lm_free lm)" using ps by (auto simp: part_sets_def)
  then have "length (lm_free lm) \<le> tt_lines spp"
    using card_mono[of "{..<tt_lines spp}" "set (lm_free lm)"] distinct_card[of "lm_free lm"] by simp
  then have "part_counts (tt_lines spp) ?lm" using pc geo_small(3)[OF g] by (simp add: part_counts_def)
  moreover have "part_sets (tt_lines spp) {} wl gl ?lm"
    using ps v unfolding part_sets_iff by auto
  moreover have "part_status spp B ?lm" using pt free by (auto simp: part_status_def)
  ultimately show ?thesis by (simp add: part_ok_def)
qed

lemma mark_line_free_ok:
  assumes k: "gc_start v f0"
    and s: "gc_state v f0 (to_copy v f0) ({..<nchs (cf_sp f0)} \<times> {..<luns_per_ch (cf_sp f0)}) f"
  shows "\<exists>f'. mark_line_free f (mk_ppa 0 0 0 v 0) = Some f' \<and> conv_inv f' \<and> step_frame f0 f' \<and> kept v f0 f' \<and>
    card (free_set f') + card (to_copy v f0) = card (outside v f0) + pgs_per_line (cf_sp f0)"
proof -
  let ?dead = "{a \<in> to_copy v f0. die_at a \<notin> {..<nchs (cf_sp f0)} \<times> {..<luns_per_ch (cf_sp f0)}}"
  let ?lm = "cf_lm f" and ?spp = "cf_sp f"
  have v: "v < tt_lines (cf_sp f0)" using gc_startD(2)[OF k] .
  have c: "core ?dead {} {v} f" and w: "user_ok f" "gc_ok f" and fr: "step_frame f0 f" and kp: "kept v f0 f"
    and sv: "\<forall>a\<in>line_pages (cf_sp f0) v. st (blks_of f) a =
      (if die_at a \<in> {..<nchs (cf_sp f0)} \<times> {..<luns_per_ch (cf_sp f0)} then PG_FREE else st (blks_of f0) a)"
    and cnt: "card (outside v f) + card (to_copy v f0) = card (outside v f0)"
    using s by (auto simp: gc_state_def)
  have sp: "cf_sp f0 = ?spp" using fr by (simp add: step_frame_def)
  note parts = core_parts[OF c]
  have dead: "?dead = {}" by (auto simp: to_copy_def line_pages_def addr_ok_def)
  have free: "\<forall>a\<in>line_pages ?spp v. st (blks_of f) a = PG_FREE"
    using sv sp by (auto simp: line_pages_def addr_ok_def)
  have len: "length (lm_lines ?lm) = tt_lines ?spp" using parts(5) by (simp add: lines_ok_def)
  have nq: "v \<notin> pq_elems (lm_victim_pq ?lm)" using parts(6) by (auto simp: part_ok_def part_sets_def)
  let ?x = "(lm_lines ?lm ! v)\<lparr>ln_ipc := 0, ln_vpc := 0\<rparr>"
  let ?lm' = "?lm\<lparr>lm_lines := (lm_lines ?lm)[v := ?x], lm_free := lm_free ?lm @ [v],
    lm_free_cnt := add32 (lm_free_cnt ?lm) 1\<rparr>"
  let ?f = "f\<lparr>cf_lm := ?lm'\<rparr>"
  have run: "mark_line_free f (mk_ppa 0 0 0 v 0) = Some ?f"
    using v sp len geo_small(3)[OF parts(1)]
    by (simp add: mark_line_free_def get_line_def set_line_def mk_ppa_def Let_def)
  have zero: "count_in (blks_of f) s' (line_pages ?spp v) = 0" if "s' \<noteq> PG_FREE" for s'
    using that free by (intro count_in_none) simp
  have lines: "lines_ok ?spp (blks_of f) {} (lm_lines ?lm')"
    using parts(5) zero v sp unfolding lines_ok_def by (auto simp: nth_list_update)
  have part: "part_ok ?spp (blks_of f) {} (wp_curline (cf_wp f)) (wp_curline (cf_gc_wp f)) ?lm'"
    using part_ok_give_back[OF parts(1,6) _ free] v sp by simp
  have queue: "queue_ok ?spp ?lm'" by (rule queue_ok_frame[OF parts(7) nq]) simp_all
  have "core {} {} {} ?f"
    using parts(1-4) lines part queue unfolding dead by (simp add: core_def)
  then have "conv_inv ?f" using w by (simp add: conv_inv_def user_ok_def gc_ok_def)
  moreover have "step_frame f0 ?f" "kept v f0 ?f" using fr kp by (auto simp: step_frame_def kept_def)
  moreover have "free_set ?f = outside v f \<union> line_pages ?spp v"
    using free by (auto simp: free_set_def outside_def line_pages_def)
  then have "card (free_set ?f) = card (outside v f) + pgs_per_line ?spp"
    using line_pages_card[OF parts(1), of v] v sp geo_small(2)[OF parts(1)] all_pages_finite[OF parts(1)]
    by (subst \<open>free_set ?f = _\<close>, subst card_Un_disjoint)
       (auto simp: outside_def free_set_def line_pages_def intro: rev_finite_subset)
  ultimately show ?thesis using run cnt sp by auto
qed

section \<open>One run of the collector\<close>

lemma victim_counts:
  assumes c: "core {} {} {} f" and v: "v \<in> pq_elems (lm_victim_pq (cf_lm f))"
  shows "v < tt_lines (cf_sp f)" "\<forall>a\<in>line_pages (cf_sp f) v. st (blks_of f) a \<noteq> PG_FREE"
    "0 < ln_ipc (lm_lines (cf_lm f) ! v)" "ln_ipc (lm_lines (cf_lm f) ! v) \<le> int (pgs_per_line (cf_sp f))"
    "int (card (to_copy v f)) + ln_ipc (lm_lines (cf_lm f) ! v) = int (pgs_per_line (cf_sp f))"
    "outside v f = free_set f"
proof -
  note parts = core_parts[OF c]
  show lt: "v < tt_lines (cf_sp f)" using victims_small(3)[OF parts(1,6)] v by auto
  show nofree: "\<forall>a\<in>line_pages (cf_sp f) v. st (blks_of f) a \<noteq> PG_FREE"
    using parts(6) v by (auto simp: part_ok_def part_status_def)
  note cnt = no_free_counts[OF parts(1) lt parts(5) _ nofree, simplified]
  have vp: "ln_vpc (lm_lines (cf_lm f) ! v) = int (card (to_copy v f))"
    using parts(5) lt by (simp add: lines_ok_def count_in_def to_copy_def)
  obtain x where x: "x \<in> line_pages (cf_sp f) v" "st (blks_of f) x = PG_INVALID"
    using parts(6) v by (auto simp: part_ok_def part_status_def)
  have "finite (line_pages (cf_sp f) v)" using line_pages_card[OF parts(1)] lt geo_small(2)[OF parts(1)] by simp
  then have "0 < count_in (blks_of f) PG_INVALID (line_pages (cf_sp f) v)" using x by (intro count_in_pos)
  then show "0 < ln_ipc (lm_lines (cf_lm f) ! v)" using parts(5) lt by (simp add: lines_ok_def)
  show "ln_ipc (lm_lines (cf_lm f) ! v) \<le> int (pgs_per_line (cf_sp f))" using cnt by simp
  show "int (card (to_copy v f)) + ln_ipc (lm_lines (cf_lm f) ! v) = int (pgs_per_line (cf_sp f))" using cnt(1) vp by simp
  show "outside v f = free_set f" using nofree by (auto simp: outside_def free_set_def line_pages_def)
qed

definition gc_done :: "conv_ftl \<Rightarrow> nat \<Rightarrow> conv_ftl \<Rightarrow> bool" where
  "gc_done f v f' \<longleftrightarrow> best_victim f v \<and> conv_inv f' \<and> kept v f f' \<and> cf_sp f' = cf_sp f \<and> cf_cp f' = cf_cp f \<and>
     ssd_write_buffer (cf_ssd f') = ssd_write_buffer (cf_ssd f) \<and>
     write_credits (cf_wfc f') = write_credits (cf_wfc f) \<and>
     int (credits_to_refill (cf_wfc f')) = ln_ipc (lm_lines (cf_lm f) ! v) \<and>
     card (free_set f') = card (free_set f) + credits_to_refill (cf_wfc f')"

lemma do_gc_ok:
  assumes inv: "conv_inv f" and ne: "pq_elems (lm_victim_pq (cf_lm f)) \<noteq> {}"
    and room: "2 * pgs_per_line (cf_sp f) \<le> card (free_set f)"
  shows "\<exists>v f'. do_gc f True = Some (0, f') \<and> gc_done f v f'"
proof -
  let ?spp = "cf_sp f" and ?P = "pgs_per_line (cf_sp f)"
  have c: "core {} {} {} f" and w: "user_ok f" "gc_ok f" using inv by (auto simp: conv_inv_def)
  note parts = core_parts[OF c]
  obtain v lm where sel: "select_victim_line f True = Some (Some v, f\<lparr>cf_lm := lm\<rparr>)" and best: "best_victim f v"
    and c1: "core {} {} {v} (f\<lparr>cf_lm := lm\<rparr>)" and lm: "v < length (lm_lines lm)" "ln_id (lm_lines lm ! v) = v"
      "ln_ipc (lm_lines lm ! v) = ln_ipc (lm_lines (cf_lm f) ! v)"
    using select_victim_ok[OF c ne] by blast
  note vc = victim_counts[OF c, of v]
  have v: "v \<in> pq_elems (lm_victim_pq (cf_lm f))" using best by (simp add: best_victim_def)
  note vc = victim_counts[OF c v]
  let ?i = "nat (ln_ipc (lm_lines (cf_lm f) ! v))"
  let ?f0 = "f\<lparr>cf_lm := lm, cf_wfc := (cf_wfc f)\<lparr>credits_to_refill := ?i\<rparr>\<rparr>"
  have out: "outside v ?f0 = free_set f" "to_copy v ?f0 = to_copy v f"
    using vc(6) by (auto simp: outside_def free_set_def to_copy_def)
  have k: "gc_start v ?f0"
    using parts(1) vc(1-3,5) room unfolding gc_start_def out by simp
  have s: "gc_state v ?f0 {} {} ?f0"
    using c1 w by (simp add: gc_state_def core_def user_ok_def gc_ok_def kept_def)
  have F: "0 < pgs_per_flashpg (cf_sp ?f0)" using parts(3) by (simp add: ssd_ok_def timing_params_ok_def)
  obtain f3 where f3: "foldM (gc_one v) (gc_order ?spp) ?f0 = Some f3"
    "gc_state v ?f0 (to_copy v ?f0) ({..<nchs (cf_sp ?f0)} \<times> {..<luns_per_ch (cf_sp ?f0)}) f3"
    using gc_loop_ok[OF k F s] by auto
  obtain f4 where f4: "mark_line_free f3 (mk_ppa 0 0 0 v 0) = Some f4" "conv_inv f4" "step_frame ?f0 f4" "kept v ?f0 f4"
    "card (free_set f4) + card (to_copy v f) = card (free_set f) + ?P"
    using mark_line_free_ok[OF k f3(2)] unfolding out by auto
  have vm: "v mod 65536 = v" using vc(1) geo_small(3)[OF parts(1)] by simp
  have im: "nat (ln_ipc (lm_lines (cf_lm f) ! v) mod 2 ^ 32) = ?i"
    using vc(3,4) geo_small(1)[OF parts(1)] by simp
  have "do_gc f True = Some (0, f4)"
    using sel lm f3(1) f4(1) vm im by (simp add: do_gc_def Let_def)
  moreover have "gc_done f v f4"
    using best f4 vc(3,5) by (simp add: gc_done_def step_frame_def kept_def)
  ultimately show ?thesis by blast
qed

end
