(* ===== verification/Conv_Write.thy ===== *)
theory Conv_Write
  imports Conv_Gc
begin

text \<open>
  Writing one logical page of a partition, as the body of the loop of \<^verbatim>\<open>conv_write\<close> does it, and
  the write credits that trigger garbage collection.  The main result is that a partition
  whose logical space leaves enough spare lines accepts any sequence of page writes: no
  assertion fails, the free list never runs dry, and the mapped logical pages are exactly
  those that have been written.
\<close>

section \<open>The body of the write loop\<close>

text \<open>The result carries the command structure and the completion time of the flash
  program, when the page was the last one of its wordline.\<close>

definition program_wordline :: "conv_ftl \<Rightarrow> nand_cmd \<Rightarrow> ppa \<Rightarrow> (conv_ftl \<times> nand_cmd \<times> u64 option) option" where
  "program_wordline f swr a =
    (if last_pg_in_wordline f a then do {
       (s, swr', t) \<leftarrow> ssd_advance_nand (cf_ssd f) (swr\<lparr>nc_ppa := a\<rparr>);
       Some (f\<lparr>cf_ssd := s\<rparr>, swr', Some t)
     }
     else Some (f, swr, None))"

definition write_page :: "conv_ftl \<Rightarrow> nand_cmd \<Rightarrow> nat \<Rightarrow> (conv_ftl \<times> nand_cmd \<times> u64 option) option" where
  "write_page f swr lpn = do {
     (f1, a) \<leftarrow> remap_lpn f lpn;
     f2 \<leftarrow> advance_write_pointer f1 USER_IO;
     (f3, swr', t) \<leftarrow> program_wordline f2 swr a;
     f4 \<leftarrow> check_and_refill_write_credit (consume_write_credit f3);
     Some (f4, swr', t)
   }"

section \<open>Mapped logical pages\<close>

definition mapped :: "conv_ftl \<Rightarrow> nat set" where
  "mapped f = {lpn. lpn < tt_pgs (cf_sp f) \<and> cf_maptbl f ! lpn \<noteq> UNMAPPED_PPA}"

definition valid_set :: "conv_ftl \<Rightarrow> ppa set" where
  "valid_set f = {a. addr_ok (cf_sp f) a \<and> st (blks_of f) a = PG_VALID}"

lemma mapped_bij:
  assumes "core {} {} {} f"
  shows "bij_betw (\<lambda>lpn. cf_maptbl f ! lpn) (mapped f) (valid_set f)"
proof -
  have m: "map_ok (cf_sp f) (blks_of f) {} {} (cf_maptbl f) (cf_rmap f)" using core_parts(4)[OF assms] .
  show ?thesis
    unfolding bij_betw_def
  proof
    show "inj_on (\<lambda>lpn. cf_maptbl f ! lpn) (mapped f)"
    proof (rule inj_onI)
      fix x y assume "x \<in> mapped f" "y \<in> mapped f" "cf_maptbl f ! x = cf_maptbl f ! y"
      moreover have "cf_rmap f ! pgidx (cf_sp f) (cf_maptbl f ! k) = k" if "k \<in> mapped f" for k
        using m that by (simp add: map_ok_def mapped_def)
      ultimately show "x = y" by metis
    qed
    show "(\<lambda>lpn. cf_maptbl f ! lpn) ` mapped f = valid_set f"
    proof
      show "(\<lambda>lpn. cf_maptbl f ! lpn) ` mapped f \<subseteq> valid_set f"
        using m by (auto simp: map_ok_def mapped_def valid_set_def)
      show "valid_set f \<subseteq> (\<lambda>lpn. cf_maptbl f ! lpn) ` mapped f"
      proof
        fix a assume a: "a \<in> valid_set f"
        then have "addr_ok (cf_sp f) a" by (simp add: valid_set_def)
        then have "a \<noteq> UNMAPPED_PPA" by (rule addr_ok_mapped)
        moreover have "cf_rmap f ! pgidx (cf_sp f) a < tt_pgs (cf_sp f)"
          "cf_maptbl f ! (cf_rmap f ! pgidx (cf_sp f) a) = a"
          using m a by (auto simp: map_ok_def valid_set_def)
        ultimately show "a \<in> (\<lambda>lpn. cf_maptbl f ! lpn) ` mapped f"
          by (intro image_eqI[of _ _ "cf_rmap f ! pgidx (cf_sp f) a"]) (auto simp: mapped_def)
      qed
    qed
  qed
qed

lemma kept_mapped: "kept v f f' \<Longrightarrow> cf_sp f' = cf_sp f \<Longrightarrow> mapped f' = mapped f"
  by (auto simp: kept_def mapped_def)

section \<open>Write credits\<close>

text \<open>\<open>N\<close> is the number of logical pages the host may use.  Each credit stands for a free page
  beyond two whole lines.\<close>

definition flow_ok :: "nat \<Rightarrow> conv_ftl \<Rightarrow> bool" where
  "flow_ok N f \<longleftrightarrow> gc_thres_lines_high (cf_cp f) = 2 \<and> N + 4 * pgs_per_line (cf_sp f) < tt_pgs (cf_sp f) \<and>
     mapped f \<subseteq> {..<N} \<and> 0 < write_credits (cf_wfc f) \<and> write_credits (cf_wfc f) \<le> pgs_per_line (cf_sp f) \<and>
     2 * pgs_per_line (cf_sp f) + write_credits (cf_wfc f) \<le> card (free_set f) \<and>
     0 < credits_to_refill (cf_wfc f) \<and> credits_to_refill (cf_wfc f) \<le> pgs_per_line (cf_sp f)"

lemma tt_pgs_lines: "geo_ok spp \<Longrightarrow> tt_pgs spp = tt_lines spp * pgs_per_line spp"
proof -
  assume g: "geo_ok spp"
  have "tt_pgs spp = pgs_per_blk spp * blks_per_pl spp * luns_per_ch spp * nchs spp"
    using g unfolding geo_ok_def by metis
  moreover have "pgs_per_line spp = nchs spp * luns_per_ch spp * pgs_per_blk spp"
    using g unfolding geo_ok_def by blast
  ultimately show ?thesis using geo_small(2)[OF g] by (simp add: algebra_simps)
qed

lemma lines_disjoint: "l \<noteq> l' \<Longrightarrow> line_pages spp l \<inter> line_pages spp l' = {}"
  by (auto simp: line_pages_def)

lemma card_lines:
  assumes g: "geo_ok spp" and L: "L \<subseteq> {..<tt_lines spp}"
  shows "card (\<Union>l\<in>L. line_pages spp l) = card L * pgs_per_line spp"
proof -
  have fin: "finite L" using L finite_subset by blast
  have lp: "finite (line_pages spp l) \<and> card (line_pages spp l) = pgs_per_line spp" if "l \<in> L" for l
    using line_pages_card[OF g, of l] geo_small(2)[OF g] L that by auto
  have "card (\<Union>l\<in>L. line_pages spp l) = (\<Sum>l\<in>L. card (line_pages spp l))"
    using fin lp lines_disjoint by (intro card_UN_disjoint) auto
  also have "\<dots> = card L * pgs_per_line spp" using lp by simp
  finally show ?thesis .
qed

lemma free_lines_card:
  assumes c: "core {} {} {} f"
  shows "length (lm_free (cf_lm f)) * pgs_per_line (cf_sp f) \<le> card (free_set f)"
proof -
  note parts = core_parts[OF c]
  have d: "distinct (lm_free (cf_lm f))" "set (lm_free (cf_lm f)) \<subseteq> {..<tt_lines (cf_sp f)}"
    using parts(6) by (auto simp: part_ok_def part_sets_def)
  have "(\<Union>l\<in>set (lm_free (cf_lm f)). line_pages (cf_sp f) l) \<subseteq> free_set f"
    using parts(6) by (auto simp: part_ok_def part_status_def free_set_def line_pages_def)
  moreover have "finite (free_set f)"
    using all_pages_finite[OF parts(1)] by (auto simp: free_set_def intro: rev_finite_subset)
  ultimately have "card (\<Union>l\<in>set (lm_free (cf_lm f)). line_pages (cf_sp f) l) \<le> card (free_set f)"
    by (intro card_mono)
  then show ?thesis using card_lines[OF parts(1) d(2)] distinct_card[OF d(1)] by simp
qed

text \<open>With at most two free lines and spare space, some line must hold an invalid page.\<close>

lemma victim_exists:
  assumes c: "core {} {} {} f" and N: "N + 4 * pgs_per_line (cf_sp f) < tt_pgs (cf_sp f)" "mapped f \<subseteq> {..<N}"
    and low: "length (lm_free (cf_lm f)) \<le> 2"
  shows "pq_elems (lm_victim_pq (cf_lm f)) \<noteq> {}"
proof
  assume none: "pq_elems (lm_victim_pq (cf_lm f)) = {}"
  note parts = core_parts[OF c]
  let ?lm = "cf_lm f" and ?spp = "cf_sp f" and ?P = "pgs_per_line (cf_sp f)"
  have ps: "distinct (lm_free ?lm @ lm_full ?lm @ [wp_curline (cf_wp f), wp_curline (cf_gc_wp f)])"
    "set (lm_free ?lm @ lm_full ?lm @ [wp_curline (cf_wp f), wp_curline (cf_gc_wp f)]) = {..<tt_lines ?spp}"
    using parts(6) none by (auto simp: part_ok_def part_sets_def)
  have "length (lm_free ?lm) + length (lm_full ?lm) + 2 = tt_lines ?spp"
    using distinct_card[OF ps(1)] unfolding ps(2) by simp
  then have full: "tt_lines ?spp \<le> length (lm_full ?lm) + 4" using low by simp
  have d: "distinct (lm_full ?lm)" "set (lm_full ?lm) \<subseteq> {..<tt_lines ?spp}"
    using ps(1) parts(6) by (auto simp: part_ok_def part_sets_def)
  have "(\<Union>l\<in>set (lm_full ?lm). line_pages ?spp l) \<subseteq> valid_set f"
    using parts(6) by (auto simp: part_ok_def part_status_def valid_set_def line_pages_def)
  moreover have "finite (valid_set f)"
    using all_pages_finite[OF parts(1)] by (auto simp: valid_set_def intro: rev_finite_subset)
  ultimately have "card (\<Union>l\<in>set (lm_full ?lm). line_pages ?spp l) \<le> card (valid_set f)"
    by (intro card_mono)
  also have "\<dots> = card (mapped f)" using bij_betw_same_card[OF mapped_bij[OF c]] by simp
  also have "\<dots> \<le> N" using card_mono[OF _ N(2)] by simp
  finally have "length (lm_full ?lm) * ?P \<le> N"
    using card_lines[OF parts(1) d(2)] distinct_card[OF d(1)] by simp
  moreover have "tt_lines ?spp * ?P \<le> (length (lm_full ?lm) + 4) * ?P" using full by (rule mult_le_mono1)
  ultimately show False using N(1) tt_pgs_lines[OF parts(1)] by (simp add: algebra_simps)
qed

lemma set_wfc_inv: "conv_inv (f\<lparr>cf_wfc := w\<rparr>) = conv_inv f"
  by (simp add: conv_inv_def core_def user_ok_def gc_ok_def)

lemma set_wfc_sets [simp]:
  "mapped (f\<lparr>cf_wfc := w\<rparr>) = mapped f" "free_set (f\<lparr>cf_wfc := w\<rparr>) = free_set f"
  by (simp_all add: mapped_def free_set_def)

text \<open>The situation after a page was written and its credit consumed.\<close>

definition spent :: "nat \<Rightarrow> conv_ftl \<Rightarrow> bool" where
  "spent N f \<longleftrightarrow> gc_thres_lines_high (cf_cp f) = 2 \<and> N + 4 * pgs_per_line (cf_sp f) < tt_pgs (cf_sp f) \<and>
     mapped f \<subseteq> {..<N} \<and> write_credits (cf_wfc f) < pgs_per_line (cf_sp f) \<and>
     2 * pgs_per_line (cf_sp f) + write_credits (cf_wfc f) \<le> card (free_set f) \<and>
     0 < credits_to_refill (cf_wfc f) \<and> credits_to_refill (cf_wfc f) \<le> pgs_per_line (cf_sp f)"

lemma refill_ok:
  assumes inv: "conv_inv f" and sp: "spent N f"
  shows "\<exists>f'. check_and_refill_write_credit f = Some f' \<and> conv_inv f' \<and> flow_ok N f' \<and>
    mapped f' = mapped f \<and> cf_sp f' = cf_sp f \<and> ssd_write_buffer (cf_ssd f') = ssd_write_buffer (cf_ssd f)"
proof (cases "write_credits (cf_wfc f) = 0")
  case False
  then show ?thesis using assms by (simp add: check_and_refill_write_credit_def spent_def flow_ok_def)
next
  case zero: True
  let ?P = "pgs_per_line (cf_sp f)"
  have c: "core {} {} {} f" using inv by (simp add: conv_inv_def)
  note parts = core_parts[OF c]
  have P: "?P < 2 ^ 31" using geo_small(1)[OF parts(1)] .
  have cnt: "lm_free_cnt (cf_lm f) = length (lm_free (cf_lm f))"
    using parts(6) by (simp add: part_ok_def part_counts_def)
  have s: "gc_thres_lines_high (cf_cp f) = 2" "N + 4 * ?P < tt_pgs (cf_sp f)" "mapped f \<subseteq> {..<N}"
    "2 * ?P \<le> card (free_set f)" "0 < credits_to_refill (cf_wfc f)" "credits_to_refill (cf_wfc f) \<le> ?P"
    using sp zero by (auto simp: spent_def)
  show ?thesis
  proof (cases "should_gc_high f")
    case True
    then have "length (lm_free (cf_lm f)) \<le> 2" using cnt s(1) by (simp add: should_gc_high_def)
    then have ne: "pq_elems (lm_victim_pq (cf_lm f)) \<noteq> {}" using victim_exists[OF c s(2,3)] by simp
    obtain v f1 where g: "do_gc f True = Some (0, f1)" "gc_done f v f1" using do_gc_ok[OF inv ne s(4)] by blast
    have v: "v \<in> pq_elems (lm_victim_pq (cf_lm f))" using g(2) by (simp add: gc_done_def best_victim_def)
    let ?R = "credits_to_refill (cf_wfc f1)"
    have R: "0 < ?R" "?R \<le> ?P" using g(2) victim_counts(3,4)[OF c v] by (auto simp: gc_done_def)
    let ?f = "f1\<lparr>cf_wfc := (cf_wfc f1)\<lparr>write_credits := ?R\<rparr>\<rparr>"
    have "check_and_refill_write_credit f = Some ?f"
      using zero True g R P by (simp add: check_and_refill_write_credit_def forground_gc_def gc_done_def Let_def)
    moreover have "conv_inv ?f" using g(2) by (simp add: gc_done_def set_wfc_inv)
    moreover have "mapped f1 = mapped f" using g(2) kept_mapped by (auto simp: gc_done_def)
    moreover from this have "flow_ok N ?f"
      using g(2) s R unfolding flow_ok_def gc_done_def by simp
    ultimately show ?thesis using g(2) by (simp add: gc_done_def)
  next
    case False
    let ?R = "credits_to_refill (cf_wfc f)"
    let ?f = "f\<lparr>cf_wfc := (cf_wfc f)\<lparr>write_credits := ?R\<rparr>\<rparr>"
    have "check_and_refill_write_credit f = Some ?f"
      using zero False s(5,6) P by (simp add: check_and_refill_write_credit_def forground_gc_def Let_def)
    moreover have "3 * ?P \<le> card (free_set f)"
    proof -
      have "3 \<le> length (lm_free (cf_lm f))" using False cnt s(1) by (simp add: should_gc_high_def)
      then have "3 * ?P \<le> length (lm_free (cf_lm f)) * ?P" by (rule mult_le_mono1)
      also have "\<dots> \<le> card (free_set f)" by (rule free_lines_card[OF c])
      finally show ?thesis .
    qed
    then have "flow_ok N ?f" using s unfolding flow_ok_def by simp
    ultimately show ?thesis using inv by (simp add: set_wfc_inv)
  qed
qed

section \<open>Writing one page\<close>

lemma advance_nand_cmd:
  assumes "ssd_advance_nand s ncmd = Some (s', ncmd', t)" "nc_cmd ncmd \<noteq> NAND_READ"
  shows "ncmd' = ncmd"
  using assms
  by (cases "nc_cmd ncmd") (auto simp: ssd_advance_nand_def Let_def split: if_splits prod.splits bind_splits)

lemma program_wordline_ok:
  assumes c: "core {} {} {} f" and w: "user_ok f" "gc_ok f" and a: "addr_ok (cf_sp f) a" and n: "nc_cmd swr = NAND_WRITE"
  shows "\<exists>s swr' t. program_wordline f swr a = Some (f\<lparr>cf_ssd := s\<rparr>, swr', t) \<and> same_nand (cf_ssd f) s \<and>
    ssd_ok s \<and> nc_cmd swr' = NAND_WRITE \<and> conv_inv (f\<lparr>cf_ssd := s\<rparr>)"
proof (cases "last_pg_in_wordline f a")
  case True
  note parts = core_parts[OF c]
  have "lun_in (cf_sp f) a" using addr_ok_blk_in[OF parts(1) a] by simp
  then obtain s swr' t where r: "ssd_advance_nand (cf_ssd f) (swr\<lparr>nc_ppa := a\<rparr>) = Some (s, swr', t)"
    "ssd_ok s" "same_nand (cf_ssd f) s"
    using ssd_advance_nand_ok[OF parts(3), of "swr\<lparr>nc_ppa := a\<rparr>"] n by auto
  have "swr' = swr\<lparr>nc_ppa := a\<rparr>" using advance_nand_cmd[OF r(1)] n by simp
  moreover have "conv_inv (f\<lparr>cf_ssd := s\<rparr>)"
    using core_ssd[OF c r(3,2)] user_ok_ssd[OF w(1) r(3)] gc_ok_ssd[OF w(2) r(3)] by (simp add: conv_inv_def)
  ultimately show ?thesis
    using True r n by (intro exI[of _ s] exI[of _ swr'] exI[of _ "Some t"]) (simp add: program_wordline_def)
next
  case False
  have "f\<lparr>cf_ssd := cf_ssd f\<rparr> = f" by simp
  then show ?thesis
    using False assms core_parts(3)[OF c]
    by (intro exI[of _ "cf_ssd f"]) (simp add: program_wordline_def conv_inv_def)
qed

lemma remap_lpn_ok:
  assumes inv: "conv_inv f" and lpn: "lpn < tt_pgs (cf_sp f)"
  shows "\<exists>f'. remap_lpn f lpn = Some (f', wp_page (cf_wp f)) \<and> core {} {} {} f' \<and> user_mid f' \<and> gc_ok f' \<and>
    step_frame f f' \<and> cf_maptbl f' = (cf_maptbl f)[lpn := wp_page (cf_wp f)] \<and>
    insert (wp_page (cf_wp f)) (free_set f') = free_set f \<and> wp_page (cf_wp f) \<notin> free_set f'"
proof -
  have c: "core {} {} {} f" "user_ok f" "gc_ok f" using inv by (auto simp: conv_inv_def)
  obtain f1 where f1: "invalidate_lpn f lpn = Some f1" "core {} {lpn} {} f1" "user_ok f1" "gc_ok f1"
    "step_frame f f1" "cf_maptbl f1 = cf_maptbl f" "free_set f1 = free_set f" "cf_wp f1 = cf_wp f"
    using invalidate_lpn_ok[OF c lpn] by blast
  have sp: "cf_sp f1 = cf_sp f" using f1(5) by (simp add: step_frame_def)
  note parts = core_parts[OF f1(2)]
  let ?a = "wp_page (cf_wp f)"
  note pl = place_user_ok[OF f1(2-4), unfolded f1(8) sp, OF lpn]
  have "wp_place_ok (cf_sp f1) (cf_wp f)" using f1(3,8) by (simp add: user_ok_def)
  note a = wp_page_fields(1)[OF parts(1) this, unfolded sp]
  have fr: "st (blks_of f1) ?a = PG_FREE" using user_page_free[OF parts(1) f1(3)] f1(8) by simp
  have e: "st (restatus (blks_of f1) ?a PG_VALID 0 1) x = (if x = ?a then PG_VALID else st (blks_of f1) x)"
    if "addr_ok (cf_sp f) x" for x
    using st_restatus[OF parts(2), of ?a x] a that sp by simp
  have "insert ?a (free_set (placed f1 lpn ?a)) = free_set f1"
    using e a fr sp by (auto simp: free_set_def split: if_splits)
  moreover have "?a \<notin> free_set (placed f1 lpn ?a)" using e[OF a] by (simp add: free_set_def)
  moreover have "step_frame f (placed f1 lpn ?a)"
    using f1(5) by (simp add: step_frame_def placed_def bump_valid_def)
  ultimately show ?thesis using f1(1,6,7) pl by (simp add: remap_lpn_def)
qed

text \<open>What \<open>remap\_lpn\<close> leaves for the pointer to be moved, and the rest of a page write once it has moved.\<close>

definition remapped :: "conv_ftl \<Rightarrow> nat \<Rightarrow> conv_ftl \<Rightarrow> bool" where
  "remapped f lpn f1 \<longleftrightarrow> core {} {} {} f1 \<and> user_mid f1 \<and> gc_ok f1 \<and> step_frame f f1 \<and>
     cf_maptbl f1 = (cf_maptbl f)[lpn := wp_page (cf_wp f)] \<and> card (free_set f) = Suc (card (free_set f1))"

lemma remap_room:
  assumes inv: "conv_inv f" and fl: "flow_ok N f" and lpn: "lpn < N"
  shows "\<exists>f1. remap_lpn f lpn = Some (f1, wp_page (cf_wp f)) \<and> remapped f lpn f1 \<and> pgs_per_line (cf_sp f1) < card (free_set f1)"
proof -
  let ?P = "pgs_per_line (cf_sp f)" and ?a = "wp_page (cf_wp f)"
  have g: "geo_ok (cf_sp f)" using inv by (simp add: conv_inv_def core_def)
  have lt: "lpn < tt_pgs (cf_sp f)" using lpn fl by (simp add: flow_ok_def)
  obtain f1 where f1: "remap_lpn f lpn = Some (f1, ?a)" "core {} {} {} f1" "user_mid f1" "gc_ok f1" "step_frame f f1"
    "cf_maptbl f1 = (cf_maptbl f)[lpn := ?a]" "insert ?a (free_set f1) = free_set f" "?a \<notin> free_set f1"
    using remap_lpn_ok[OF inv lt] by blast
  have sp1: "cf_sp f1 = cf_sp f" using f1(5) by (simp add: step_frame_def)
  have "finite (free_set f1)"
    using all_pages_finite[OF core_parts(1)[OF f1(2)]] by (auto simp: free_set_def intro: rev_finite_subset)
  then have cf: "card (free_set f) = Suc (card (free_set f1))"
    using f1(7,8) by (metis card_insert_disjoint)
  have "2 * ?P + 1 \<le> card (free_set f)" using fl by (simp add: flow_ok_def)
  then have "pgs_per_line (cf_sp f1) < card (free_set f1)" using cf sp1 geo_small(4)[OF g] by simp
  then show ?thesis using f1 cf by (simp add: remapped_def)
qed

lemma finish_page_ok:
  assumes inv: "conv_inv f" and fl: "flow_ok N f" and lpn: "lpn < N" and f1: "remapped f lpn f1" and f2: "moved f1 f2"
    and s: "same_nand (cf_ssd f2) s" "conv_inv (f2\<lparr>cf_ssd := s\<rparr>)"
  shows "\<exists>f'. check_and_refill_write_credit (consume_write_credit (f2\<lparr>cf_ssd := s\<rparr>)) = Some f' \<and> conv_inv f' \<and> flow_ok N f' \<and>
    mapped f' = insert lpn (mapped f) \<and> cf_sp f' = cf_sp f \<and> ssd_write_buffer (cf_ssd f') = ssd_write_buffer (cf_ssd f)"
proof -
  let ?P = "pgs_per_line (cf_sp f)" and ?a = "wp_page (cf_wp f)" and ?f3 = "f2\<lparr>cf_ssd := s\<rparr>"
  have g: "geo_ok (cf_sp f)" "user_ok f" using inv by (auto simp: conv_inv_def core_def)
  have lt: "lpn < tt_pgs (cf_sp f)" using lpn fl by (simp add: flow_ok_def)
  have cf: "card (free_set f) = Suc (card (free_set f1))" and sp1: "cf_sp f1 = cf_sp f"
    using f1 by (simp_all add: remapped_def step_frame_def)
  have "wp_place_ok (cf_sp f) (cf_wp f)" using g(2) by (simp add: user_ok_def)
  note a = wp_page_fields(1)[OF g(1) this]
  have fr: "cf_sp ?f3 = cf_sp f" "cf_cp ?f3 = cf_cp f" "cf_wfc ?f3 = cf_wfc f"
    "ssd_write_buffer (cf_ssd ?f3) = ssd_write_buffer (cf_ssd f)" "blks_of ?f3 = blks_of f1"
    "cf_maptbl ?f3 = (cf_maptbl f)[lpn := ?a]"
    using f1 f2 s(1) by (auto simp: remapped_def step_frame_def moved_def same_nand_def)
  have free3: "free_set ?f3 = free_set f1" using fr sp1 by (simp add: free_set_def)
  have "length (cf_maptbl f) = tt_pgs (cf_sp f)" using inv by (simp add: conv_inv_def core_def map_ok_def)
  then have m3: "mapped ?f3 = insert lpn (mapped f)"
    using fr(1,6) lt addr_ok_mapped[OF a] by (auto simp: mapped_def nth_list_update split: if_splits)
  let ?f4 = "consume_write_credit ?f3"
  have W: "0 < write_credits (cf_wfc f)" "write_credits (cf_wfc f) \<le> ?P" "?P < 2 ^ 31"
    using fl geo_small(1)[OF g(1)] by (auto simp: flow_ok_def)
  have f4: "?f4 = ?f3\<lparr>cf_wfc := (cf_wfc ?f3)\<lparr>write_credits := write_credits (cf_wfc f) - 1\<rparr>\<rparr>"
    using W fr(3) by (simp add: consume_write_credit_def)
  have sp4: "cf_sp ?f4 = cf_sp f" "mapped ?f4 = mapped ?f3" "free_set ?f4 = free_set ?f3" "cf_cp ?f4 = cf_cp ?f3"
    "ssd_write_buffer (cf_ssd ?f4) = ssd_write_buffer (cf_ssd ?f3)" "write_credits (cf_wfc ?f4) = write_credits (cf_wfc f) - 1"
    "credits_to_refill (cf_wfc ?f4) = credits_to_refill (cf_wfc f)"
    unfolding f4 using fr by simp_all
  have "conv_inv ?f4" using s(2) by (simp only: f4 set_wfc_inv)
  moreover have "spent N ?f4"
    using fl W lpn cf m3 fr(2) free3 unfolding flow_ok_def spent_def sp4 by auto
  ultimately obtain f' where f': "check_and_refill_write_credit ?f4 = Some f'" "conv_inv f'" "flow_ok N f'"
    "mapped f' = mapped ?f4" "cf_sp f' = cf_sp ?f4"
    "ssd_write_buffer (cf_ssd f') = ssd_write_buffer (cf_ssd ?f4)"
    using refill_ok[of ?f4 N] by blast
  then show ?thesis using m3 fr(4) unfolding sp4 by auto
qed

lemma write_page_ok:
  assumes inv: "conv_inv f" and fl: "flow_ok N f" and lpn: "lpn < N" and n: "nc_cmd swr = NAND_WRITE"
  shows "\<exists>f' swr' t. write_page f swr lpn = Some (f', swr', t) \<and> conv_inv f' \<and> flow_ok N f' \<and>
    mapped f' = insert lpn (mapped f) \<and> nc_cmd swr' = NAND_WRITE \<and> cf_sp f' = cf_sp f \<and>
    ssd_write_buffer (cf_ssd f') = ssd_write_buffer (cf_ssd f)"
proof -
  let ?a = "wp_page (cf_wp f)"
  have g: "geo_ok (cf_sp f)" "user_ok f" using inv by (auto simp: conv_inv_def core_def)
  obtain f1 where f1: "remap_lpn f lpn = Some (f1, ?a)" "remapped f lpn f1" "pgs_per_line (cf_sp f1) < card (free_set f1)"
    using remap_room[OF inv fl lpn] by blast
  then have c1: "core {} {} {} f1" "gc_ok f1" "user_mid f1" "cf_sp f1 = cf_sp f" by (simp_all add: remapped_def step_frame_def)
  obtain f2 where f2: "advance_write_pointer f1 USER_IO = Some f2" "core {} {} {} f2" "user_ok f2" "gc_ok f2" "moved f1 f2"
    using advance_user_ok[OF c1(1-3) f1(3)] by blast
  have sp2: "cf_sp f2 = cf_sp f" using f2(5) c1(4) by (simp add: moved_def)
  have "wp_place_ok (cf_sp f) (cf_wp f)" using g(2) by (simp add: user_ok_def)
  note a = wp_page_fields(1)[OF g(1) this]
  obtain s swr' t where f3: "program_wordline f2 swr ?a = Some (f2\<lparr>cf_ssd := s\<rparr>, swr', t)" "same_nand (cf_ssd f2) s"
    "ssd_ok s" "nc_cmd swr' = NAND_WRITE" "conv_inv (f2\<lparr>cf_ssd := s\<rparr>)"
    using program_wordline_ok[OF f2(2-4) a[folded sp2] n] by blast
  obtain f' where f': "check_and_refill_write_credit (consume_write_credit (f2\<lparr>cf_ssd := s\<rparr>)) = Some f'" "conv_inv f'" "flow_ok N f'"
    "mapped f' = insert lpn (mapped f)" "cf_sp f' = cf_sp f" "ssd_write_buffer (cf_ssd f') = ssd_write_buffer (cf_ssd f)"
    using finish_page_ok[OF inv fl lpn f1(2) f2(5) f3(2,5)] by blast
  have "write_page f swr lpn = Some (f', swr', t)"
    using f1(1) f2(1) f3(1) f'(1) by (simp add: write_page_def)
  then show ?thesis using f' f3(4) by simp
qed

section \<open>Sequences of page writes\<close>

text \<open>The loop of the write command over the logical pages of one partition; the completion times are
  collected in order.\<close>

fun write_pages :: "nat list \<Rightarrow> conv_ftl \<Rightarrow> nand_cmd \<Rightarrow> (conv_ftl \<times> u64 option list) option" where
  "write_pages [] f swr = Some (f, [])"
| "write_pages (lpn # lpns) f swr = do {
     (f1, swr1, t) \<leftarrow> write_page f swr lpn;
     (f2, ts) \<leftarrow> write_pages lpns f1 swr1;
     Some (f2, t # ts)
   }"

lemma write_pages_ok:
  assumes "conv_inv f" "flow_ok N f" "set lpns \<subseteq> {..<N}" "nc_cmd swr = NAND_WRITE"
  shows "\<exists>f' ts. write_pages lpns f swr = Some (f', ts) \<and> conv_inv f' \<and> flow_ok N f' \<and>
    mapped f' = set lpns \<union> mapped f \<and> length ts = length lpns"
  using assms
proof (induction lpns arbitrary: f swr)
  case (Cons lpn lpns)
  obtain f1 swr1 t where 1: "write_page f swr lpn = Some (f1, swr1, t)" "conv_inv f1" "flow_ok N f1"
    "mapped f1 = insert lpn (mapped f)" "nc_cmd swr1 = NAND_WRITE"
    using write_page_ok[OF Cons.prems(1,2) _ Cons.prems(4), of lpn] Cons.prems(3) by auto
  obtain f2 ts where 2: "write_pages lpns f1 swr1 = Some (f2, ts)" "conv_inv f2" "flow_ok N f2"
    "mapped f2 = set lpns \<union> mapped f1" "length ts = length lpns"
    using Cons.IH[OF 1(2,3) _ 1(5)] Cons.prems(3) by auto
  then show ?case using 1 by auto
qed auto

section \<open>A fresh partition\<close>

lemma fresh_pages:
  assumes "geo_ok spp" "addr_ok spp a"
  shows "st (\<lambda>_. ssd_init_nand_blk spp) a = PG_FREE"
  using assms by (simp add: st_def ssd_init_nand_blk_def ssd_init_nand_page_def addr_ok_def)

lemma fresh_nand: "geo_ok spp \<Longrightarrow> nand_ok spp (\<lambda>_. ssd_init_nand_blk spp)"
proof -
  assume g: "geo_ok spp"
  have "count_in (\<lambda>_. ssd_init_nand_blk spp) s (block_pages spp k) = 0" if "s \<noteq> PG_FREE" for s k
    using fresh_pages[OF g] that by (intro count_in_none) (auto simp: block_pages_def)
  then show ?thesis
    by (simp add: nand_ok_def block_shape_def ssd_init_nand_blk_def ssd_init_nand_page_def Let_def)
qed

lemma fresh_lines:
  assumes "geo_ok spp"
  shows "lines_ok spp (\<lambda>_. ssd_init_nand_blk spp) {}
    (map (\<lambda>i. \<lparr>ln_id = i, ln_ipc = 0, ln_vpc = 0, ln_pos = 0\<rparr>) [0..<tt_lines spp])"
proof -
  have "count_in (\<lambda>_. ssd_init_nand_blk spp) s (line_pages spp l) = 0" if "s \<noteq> PG_FREE" for s l
    using fresh_pages[OF assms] that by (intro count_in_none) (auto simp: line_pages_def)
  then show ?thesis by (simp add: lines_ok_def)
qed

lemma fresh_map:
  assumes "geo_ok spp"
  shows "map_ok spp (\<lambda>_. ssd_init_nand_blk spp) {} {} (replicate (tt_pgs spp) UNMAPPED_PPA) (replicate (tt_pgs spp) r)"
  using fresh_pages[OF assms] by (simp add: map_ok_def)

lemma fresh_parts:
  assumes g: "geo_ok spp" and n: "n = tt_lines spp" "2 \<le> n" and q: "pq_elems q = {}"
  shows "part_ok spp (\<lambda>_. ssd_init_nand_blk spp) {} 0 1
    \<lparr>lm_lines = ls, lm_free = [2..<n], lm_victim_pq = q, lm_full = [], lm_tt_lines = n,
     lm_free_cnt = n - 2, lm_victim_cnt = 0, lm_full_cnt = 0\<rparr>"
proof -
  have "part_status spp (\<lambda>_. ssd_init_nand_blk spp)
    \<lparr>lm_lines = ls, lm_free = [2..<n], lm_victim_pq = q, lm_full = [], lm_tt_lines = n,
     lm_free_cnt = n - 2, lm_victim_cnt = 0, lm_full_cnt = 0\<rparr>"
    using fresh_pages[OF g] q by (auto simp: part_status_def line_pages_def)
  then show ?thesis using n q by (auto simp: part_ok_def part_sets_iff part_counts_def)
qed

lemma conv_init_ftl_eq:
  assumes g: "geo_ok (ssd_sp s)" and n: "2 \<le> tt_lines (ssd_sp s)"
  shows "conv_init_ftl (Some mem) f cpp s = Some (f\<lparr>cf_cp := cpp, cf_ssd := s,
     cf_maptbl := replicate (tt_pgs (ssd_sp s)) UNMAPPED_PPA, cf_rmap := replicate (tt_pgs (ssd_sp s)) INVALID_LPN,
     cf_lm := \<lparr>lm_lines = map (\<lambda>i. \<lparr>ln_id = i, ln_ipc = 0, ln_vpc = 0, ln_pos = 0\<rparr>) [0..<tt_lines (ssd_sp s)],
       lm_free = [2..<tt_lines (ssd_sp s)],
       lm_victim_pq = \<lparr>pq_size = 1, pq_avail = tt_lines (ssd_sp s) + 1, pq_step = tt_lines (ssd_sp s) + 1,
         pq_ops = victim_ops, pq_d = mem\<rparr>,
       lm_full = [], lm_tt_lines = tt_lines (ssd_sp s), lm_free_cnt = tt_lines (ssd_sp s) - 2,
       lm_victim_cnt = 0, lm_full_cnt = 0\<rparr>,
     cf_wp := \<lparr>wp_curline = 0, wp_ch = 0, wp_lun = 0, wp_pg = 0, wp_blk = 0, wp_pl = 0\<rparr>,
     cf_gc_wp := \<lparr>wp_curline = 1, wp_ch = 0, wp_lun = 0, wp_pg = 0, wp_blk = 1, wp_pl = 0\<rparr>,
     cf_wfc := \<lparr>write_credits = pgs_per_line (ssd_sp s), credits_to_refill = pgs_per_line (ssd_sp s)\<rparr>\<rparr>)"
proof -
  let ?n = "tt_lines (ssd_sp s)"
  have "[0..<?n] = 0 # 1 # [2..<?n]" using n by (simp add: upt_conv_Cons numeral_2_eq_2)
  then have hd: "[0..<?n] = 0 # Suc 0 # [2..<?n]" by simp
  have b: "blks_per_pl (ssd_sp s) = ?n" "?n \<le> 65536" "pgs_per_line (ssd_sp s) < 2 ^ 31"
    using geo_small[OF g] by auto
  have d: "dec32 ?n = ?n - 1" "dec32 (?n - 1) = ?n - 2" using n b(2) by auto
  have l0: "array_read (map h [0..<?n]) 0 = Some (h 0)" "array_read (map h [0..<?n]) (Suc 0) = Some (h (Suc 0))"
    for h :: "nat \<Rightarrow> line" using n by auto
  show ?thesis
    using b d l0 hd
    by (simp add: conv_init_ftl_def init_maptbl_def init_rmap_def init_lines_def pqueue_init_def
        prepare_write_pointer_def get_next_free_line_def set_wp_def init_write_flow_control_def Let_def
        del: upt_Suc)
qed

text \<open>\<^verbatim>\<open>conv_init_namespace\<close> gives the new partition zeroed page counters.\<close>

lemma conv_init_ftl_ok:
  assumes g: "geo_ok (ssd_sp s)" and s: "ssd_ok s" "ssd_blk s = (\<lambda>_. ssd_init_nand_blk (ssd_sp s))"
    and n: "2 \<le> tt_lines (ssd_sp s)" and mem: "length mem = tt_lines (ssd_sp s) + 1"
  shows "\<exists>f'. conv_init_ftl (Some mem) f cpp s = Some f' \<and> cf_ssd f' = s \<and> cf_cp f' = cpp \<and>
    write_credits (cf_wfc f') = pgs_per_line (ssd_sp s) \<and> credits_to_refill (cf_wfc f') = pgs_per_line (ssd_sp s) \<and>
    mapped f' = {} \<and> free_set f' = all_pages (ssd_sp s) \<and>
    conv_inv (f'\<lparr>cf_page_counter := replicate (nchs (ssd_sp s) * luns_per_ch (ssd_sp s)) 0\<rparr>)"
proof -
  let ?spp = "ssd_sp s" and ?B = "\<lambda>_. ssd_init_nand_blk (ssd_sp s)"
  let ?q = "\<lparr>pq_size = 1, pq_avail = tt_lines ?spp + 1, pq_step = tt_lines ?spp + 1, pq_ops = victim_ops, pq_d = mem\<rparr>"
  obtain f' where f': "conv_init_ftl (Some mem) f cpp s = Some f'"
    "cf_ssd f' = s" "cf_cp f' = cpp" "cf_maptbl f' = replicate (tt_pgs ?spp) UNMAPPED_PPA"
    "cf_rmap f' = replicate (tt_pgs ?spp) INVALID_LPN"
    "cf_lm f' = \<lparr>lm_lines = map (\<lambda>i. \<lparr>ln_id = i, ln_ipc = 0, ln_vpc = 0, ln_pos = 0\<rparr>) [0..<tt_lines ?spp],
       lm_free = [2..<tt_lines ?spp], lm_victim_pq = ?q, lm_full = [], lm_tt_lines = tt_lines ?spp,
       lm_free_cnt = tt_lines ?spp - 2, lm_victim_cnt = 0, lm_full_cnt = 0\<rparr>"
    "cf_wp f' = \<lparr>wp_curline = 0, wp_ch = 0, wp_lun = 0, wp_pg = 0, wp_blk = 0, wp_pl = 0\<rparr>"
    "cf_gc_wp f' = \<lparr>wp_curline = 1, wp_ch = 0, wp_lun = 0, wp_pg = 0, wp_blk = 1, wp_pl = 0\<rparr>"
    "cf_wfc f' = \<lparr>write_credits = pgs_per_line ?spp, credits_to_refill = pgs_per_line ?spp\<rparr>"
    using conv_init_ftl_eq[OF g n, of mem f cpp] by simp
  let ?f = "f'\<lparr>cf_page_counter := replicate (nchs ?spp * luns_per_ch ?spp) 0\<rparr>"
  have free: "\<forall>a. addr_ok ?spp a \<longrightarrow> st ?B a = PG_FREE" using fresh_pages[OF g] by simp
  have "pqueue_init (tt_lines ?spp) victim_ops (Some mem) = Some ?q" by (simp add: pqueue_init_def)
  then have q: "vpq.pq_inv (lm_lines (cf_lm f')) ?q" "pq_elems ?q = {}"
    using vpq.init_correct[OF mem, of ?q] by auto
  have "queue_ok ?spp (cf_lm f')"
    using q f'(6) unfolding queue_ok_def by simp
  then have "core {} {} {} ?f"
    using g s fresh_nand[OF g] fresh_map[OF g] fresh_lines[OF g] fresh_parts[OF g refl n q(2)] f'(2-8)
    by (simp add: core_def)
  moreover have "user_ok ?f"
    using f' s(2) free geo_dims[OF g] geo_small(2)[OF g] n die_idx_less[of _ ?spp]
    by (auto simp: user_ok_def wp_place_ok_def counters_ok_def line_pages_def addr_ok_def)
  moreover have "gc_ok ?f"
    using f' s(2) free geo_dims[OF g] geo_small(2)[OF g] n
    by (simp add: gc_ok_def wp_place_ok_def gc_fill_def gc_rank_def line_pages_def)
  ultimately have "conv_inv ?f" by (simp add: conv_inv_def)
  moreover have "mapped f' = {}" using f'(2,4) by (auto simp: mapped_def)
  moreover have "free_set f' = all_pages ?spp" using f'(2) s(2) free by (auto simp: free_set_def)
  ultimately show ?thesis using f' by simp
qed

lemma fresh_flow_ok:
  assumes g: "geo_ok (cf_sp f)" and m: "mapped f = {}" and fr: "free_set f = all_pages (cf_sp f)"
    and w: "write_credits (cf_wfc f) = pgs_per_line (cf_sp f)" "credits_to_refill (cf_wfc f) = pgs_per_line (cf_sp f)"
    and cp: "gc_thres_lines_high (cf_cp f) = 2" and N: "N + 4 * pgs_per_line (cf_sp f) < tt_pgs (cf_sp f)"
  shows "flow_ok N f"
proof -
  have "all_pages (cf_sp f) = (\<Union>l\<in>{..<tt_lines (cf_sp f)}. line_pages (cf_sp f) l)"
    using geo_small(2)[OF g] by (auto simp: line_pages_def addr_ok_def)
  then have "card (free_set f) = tt_pgs (cf_sp f)"
    using card_lines[OF g, of "{..<tt_lines (cf_sp f)}"] tt_pgs_lines[OF g] fr by simp
  then show ?thesis using assms geo_small(4)[OF g] by (simp add: flow_ok_def)
qed

lemma ssd_init_ok:
  assumes t: "timing_params_ok spp" and b: "32 \<le> ch_bandwidth spp" "ch_bandwidth spp \<le> 7812"
    "32 \<le> pcie_bandwidth spp" "pcie_bandwidth spp \<le> 7812"
  shows "\<exists>s. ssd_init spp junk clock = Some s \<and> ssd_ok s \<and> ssd_sp s = spp \<and>
    ssd_blk s = (\<lambda>_. ssd_init_nand_blk spp) \<and> ssd_write_buffer s = buffer_init (write_buffer_size spp)"
  using ssd_init_live[of spp junk clock] assms by (auto simp: timing_params_ok_def ssd_ok_live)

end
