(* ===== verification/Nvmev.thy ===== *)
theory Nvmev
  imports Ssd
begin

text \<open>
  The request interface shared by the command sets (src/nvmev.h, src/nvme.h): the fields of a
  read or write command that the drive looks at, the request and its result, the statistics
  of write patterns, and the messages a command handler sends to the I/O workers.
\<close>

type_synonym lba_t = u64

record nvme_command =
  c_opcode :: nat
  c_command_id :: nat
  c_nsid :: nat
  c_prp1 :: nat
  c_prp2 :: nat
  c_slba :: lba_t
  c_length :: nat
  c_control :: nat
  c_dsmgmt :: nat

record nvmev_request =
  rq_cmd :: nvme_command
  rq_sq_id :: nat
  rq_nsecs_start :: u64

record nvmev_result =
  rs_status :: nat
  rs_nsecs_target :: u64

definition nvme_cmd_flush :: nat where "nvme_cmd_flush = 0"
definition nvme_cmd_write :: nat where "nvme_cmd_write = 1"
definition nvme_cmd_read :: nat where "nvme_cmd_read = 2"

definition NVME_SC_SUCCESS :: nat where "NVME_SC_SUCCESS = 0"

definition NVME_RW_FUA :: nat where "NVME_RW_FUA = 2 ^ 14"

definition LBA_TO_BYTE :: "nat \<Rightarrow> nat" where
  "LBA_TO_BYTE n = n * 512"

text \<open>The field \<^verbatim>\<open>length\<close> of a command is zero based.\<close>

definition nr_lba :: "nvme_command \<Rightarrow> nat" where
  "nr_lba c = c_length c + 1"

definition fua :: "nvme_command \<Rightarrow> bool" where
  "fua c \<longleftrightarrow> (c_control c div NVME_RW_FUA) mod 2 = 1"

text \<open>First and last logical page a command touches; the address arithmetic is that of
  64-bit words.\<close>

definition start_lpn :: "nat \<Rightarrow> nvme_command \<Rightarrow> nat" where
  "start_lpn secs c = unat (c_slba c) div secs"

definition end_lpn :: "nat \<Rightarrow> nvme_command \<Rightarrow> nat" where
  "end_lpn secs c = unat (c_slba c + of_nat (nr_lba c) - 1) div secs"

section \<open>Write pattern statistics\<close>

record write_pattern_stats =
  ws_prev_lpn :: u64
  ws_total_writes :: u64
  ws_sequential_writes :: u64
  ws_large_jump_writes :: u64
  ws_lpn_delta_sum :: u64
  ws_start :: int

definition track_write :: "write_pattern_stats \<Rightarrow> u64 \<Rightarrow> write_pattern_stats" where
  "track_write st0 lpn =
    (let st1 = (if ws_total_writes st0 > 0 then
          let delta = lpn - ws_prev_lpn st0;
              abs_delta = (if sint delta < 0 then - delta else delta);
              sa = (if abs_delta \<le> 8 then st0\<lparr>ws_sequential_writes := ws_sequential_writes st0 + 1\<rparr> else st0);
              sb = (if abs_delta > 1024 then sa\<lparr>ws_large_jump_writes := ws_large_jump_writes sa + 1\<rparr> else sa)
          in sb\<lparr>ws_lpn_delta_sum := ws_lpn_delta_sum sb + abs_delta\<rparr>
        else st0)
     in st1\<lparr>ws_prev_lpn := lpn, ws_total_writes := ws_total_writes st1 + 1\<rparr>)"

section \<open>Messages to the I/O workers\<close>

text \<open>A call of \<^verbatim>\<open>schedule_internal_operation\<close>: at the given time, the given number of bytes of
  the write buffer is released.\<close>

record internal_op =
  io_sq_id :: nat
  io_nsecs :: u64
  io_bytes :: nat

section \<open>Commands and their ranges\<close>

lemma end_lpn_ge:
  assumes "unat (c_slba c) + nr_lba c < 2 ^ 64"
  shows "start_lpn secs c \<le> end_lpn secs c"
    and "end_lpn secs c = (unat (c_slba c) + c_length c) div secs"
proof -
  have n: "unat (of_nat (c_length c) :: u64) = c_length c"
    using assms by (simp add: unat_of_nat nr_lba_def)
  have "c_slba c + of_nat (nr_lba c) - 1 = c_slba c + of_nat (c_length c)" by (simp add: nr_lba_def)
  moreover have "unat (c_slba c + of_nat (c_length c)) = unat (c_slba c) + c_length c"
    using assms n unat_add_lem[of "c_slba c" "of_nat (c_length c)"] by (simp add: nr_lba_def)
  ultimately show e: "end_lpn secs c = (unat (c_slba c) + c_length c) div secs"
    by (simp only: end_lpn_def)
  show "start_lpn secs c \<le> end_lpn secs c"
    unfolding e start_lpn_def by (rule div_le_mono) simp
qed

end
