(* ===== verification/Conv_Ns.thy ===== *)
theory Conv_Ns
  imports Conv_Write Nvmev
begin

text \<open>
  A namespace of the page-mapped drive: several partitions (translation layers), of which
  each owns its flash, while the PCIe link, the write buffer and the clock are shared.  The
  logical pages are dealt out to the partitions in turn.  The theory models
  \<^verbatim>\<open>conv_init_namespace\<close>, \<^verbatim>\<open>conv_read\<close>, \<^verbatim>\<open>conv_write\<close>, \<^verbatim>\<open>conv_flush\<close> and the dispatcher
  \<^verbatim>\<open>conv_proc_nvme_io_cmd\<close>.
\<close>

section \<open>Sharing\<close>

record conv_ns =
  cn_nr_parts :: nat
  cn_ftls :: "conv_ftl list"
  cn_size :: nat
  cn_stats :: write_pattern_stats
  cn_queueing_wait :: u64

text \<open>The pointers \<^verbatim>\<open>pcie\<close> and \<^verbatim>\<open>write_buffer\<close> of every partition are those of partition 0.  Reading a
  partition takes the shared objects from partition 0, writing it back stores them there.\<close>

definition share :: "ssd \<Rightarrow> ssd \<Rightarrow> ssd" where
  "share s0 s = s\<lparr>ssd_pcie := ssd_pcie s0, ssd_write_buffer := ssd_write_buffer s0,
     ssd_clock := ssd_clock s0, ssd_tick := ssd_tick s0\<rparr>"

definition get_ftl :: "conv_ns \<Rightarrow> nat \<Rightarrow> conv_ftl option" where
  "get_ftl ns i = do {
     f \<leftarrow> array_read (cn_ftls ns) i;
     f0 \<leftarrow> array_read (cn_ftls ns) 0;
     Some (f\<lparr>cf_ssd := share (cf_ssd f0) (cf_ssd f)\<rparr>)
   }"

definition put_ftl :: "conv_ns \<Rightarrow> nat \<Rightarrow> conv_ftl \<Rightarrow> conv_ns" where
  "put_ftl ns i f =
    (let fs = (cn_ftls ns)[i := f]
     in ns\<lparr>cn_ftls := fs[0 := (fs ! 0)\<lparr>cf_ssd := share (cf_ssd f) (cf_ssd (fs ! 0))\<rparr>]\<rparr>)"

section \<open>Initialisation\<close>

text \<open>\<open>mems\<close> and \<open>raw\<close> are the memory the allocator returned for the queues and for the array of
  translation layers, \<open>clock\<close> the successive readings of the CPU clock.\<close>

definition conv_new_part ::
  "ssdparams \<Rightarrow> u64 \<Rightarrow> (nat \<Rightarrow> u64) \<Rightarrow> nat list option \<times> conv_ftl \<Rightarrow> conv_ftl option" where
  "conv_new_part spp junk clock = (\<lambda>(mem, f). do {
     s \<leftarrow> ssd_init spp junk clock;
     f' \<leftarrow> conv_init_ftl mem f conv_init_params s;
     Some (f'\<lparr>cf_page_counter := replicate (nchs spp * luns_per_ch spp) 0,
              cf_ssd := s\<lparr>ssd_checking := False\<rparr>\<rparr>)
   })"

definition conv_init_namespace ::
  "ftl_configs \<Rightarrow> nat \<Rightarrow> u64 \<Rightarrow> (nat \<Rightarrow> u64) \<Rightarrow> (nat list option \<times> conv_ftl) list \<Rightarrow>
    write_pattern_stats \<Rightarrow> u64 \<Rightarrow> conv_ns option" where
  "conv_init_namespace cfg cap junk clock raw stats wait = do {
     spp \<leftarrow> ssd_init_params cap (SSD_PARTITIONS cfg) cfg;
     nvmev_assert (length raw = SSD_PARTITIONS cfg);
     fs \<leftarrow> those (map (conv_new_part spp junk clock) raw);
     Some \<lparr>cn_nr_parts = SSD_PARTITIONS cfg, cn_ftls = fs, cn_size = cap * 100 div pba_pcent conv_init_params,
           cn_stats = stats, cn_queueing_wait = wait\<rparr>
   }"

section \<open>Reads\<close>

definition is_same_flash_page :: "conv_ftl \<Rightarrow> ppa \<Rightarrow> ppa \<Rightarrow> bool" where
  "is_same_flash_page f a b \<longleftrightarrow> same_blk_in_ssd a b \<and>
     p_pg a div pgs_per_flashpg (cf_sp f) = p_pg b div pgs_per_flashpg (cf_sp f)"

definition clear_first_io :: "conv_ftl \<Rightarrow> conv_ftl" where
  "clear_first_io f = f\<lparr>cf_ssd := (cf_ssd f)\<lparr>ssd_lun := (\<lambda>(c, l).
     if c < nchs (cf_sp f) \<and> l < c_nluns (ssd_ch (cf_ssd f) c)
     then (ssd_lun (cf_ssd f) (c, l))\<lparr>l_first_io := False\<rparr> else ssd_lun (cf_ssd f) (c, l))\<rparr>\<rparr>"

record read_state =
  r_ftl :: conv_ftl
  r_srd :: nand_cmd
  r_xfer :: nat
  r_prev :: ppa
  r_latest :: u64

definition issue_read :: "read_state \<Rightarrow> read_state option" where
  "issue_read r =
    (if r_xfer r > 0 then do {
       (s, srd, t) \<leftarrow> ssd_advance_nand (cf_ssd (r_ftl r)) ((r_srd r)\<lparr>nc_xfer_size := r_xfer r, nc_ppa := r_prev r\<rparr>);
       Some (r\<lparr>r_ftl := (r_ftl r)\<lparr>cf_ssd := s\<rparr>, r_srd := srd, r_latest := max t (r_latest r)\<rparr>)
     }
     else Some r)"

definition read_lpn :: "nat \<Rightarrow> nat \<Rightarrow> read_state \<Rightarrow> read_state option" where
  "read_lpn nr_parts lpn r = do {
     let f = r_ftl r;
     cur \<leftarrow> get_maptbl_ent f (lpn div nr_parts);
     if \<not> mapped_ppa cur \<or> \<not> valid_ppa f cur then Some r
     else if mapped_ppa (r_prev r) \<and> is_same_flash_page f cur (r_prev r)
     then Some (r\<lparr>r_xfer := add32 (r_xfer r) (pgsz (cf_sp f))\<rparr>)
     else do {
       r' \<leftarrow> issue_read r;
       Some (r'\<lparr>r_xfer := pgsz (cf_sp f), r_prev := cur\<rparr>)
     }
   }"

definition lpns_from :: "nat \<Rightarrow> nat \<Rightarrow> nat \<Rightarrow> nat list" where
  "lpns_from first step lst = map (\<lambda>k. first + k * step) [0..<Suc ((lst - first) div step)]"

text \<open>One iteration of the outer loop of \<^verbatim>\<open>conv_read\<close>: all pages of the range that lie in the
  partition of \<open>lpn\<close>.\<close>

definition read_part :: "nat \<Rightarrow> nat \<Rightarrow> conv_ns \<times> nand_cmd \<times> u64 \<Rightarrow> (conv_ns \<times> nand_cmd \<times> u64) option" where
  "read_part lst lpn = (\<lambda>(ns, srd, latest). do {
     let np = cn_nr_parts ns;
     f \<leftarrow> get_ftl ns (lpn mod np);
     prev \<leftarrow> get_maptbl_ent f (lpn div np);
     r1 \<leftarrow> foldM (read_lpn np) (lpns_from lpn np lst)
             \<lparr>r_ftl = f, r_srd = srd, r_xfer = 0, r_prev = prev, r_latest = latest\<rparr>;
     r2 \<leftarrow> issue_read r1;
     Some (put_ftl ns (lpn mod np) (r_ftl r2), r_srd r2, r_latest r2)
   })"

definition read_cmd :: "ssdparams \<Rightarrow> nat \<Rightarrow> nvmev_request \<Rightarrow> nand_cmd" where
  "read_cmd spp np rq = \<lparr>nc_type = USER_IO, nc_cmd = NAND_READ, nc_xfer_size = 0,
     nc_stime = rq_nsecs_start rq + of_nat (if LBA_TO_BYTE (nr_lba (rq_cmd rq)) \<le> KB 4 * np
                                            then fw_4kb_rd_lat spp else fw_rd_lat spp),
     nc_interleave_pci_dma = True, nc_ppa = UNMAPPED_PPA, nc_arrive_time = -1\<rparr>"

definition conv_read :: "conv_ns \<Rightarrow> nvmev_request \<Rightarrow> (conv_ns \<times> nvmev_result option) option" where
  "conv_read ns0 rq = do {
     f0 \<leftarrow> get_ftl ns0 0;
     let spp = cf_sp f0;
     let np = cn_nr_parts ns0;
     nvmev_assert (secs_per_pg spp \<noteq> 0 \<and> np \<noteq> 0);
     let ns = ns0\<lparr>cn_ftls := map clear_first_io (cn_ftls ns0)\<rparr>;
     let first = start_lpn (secs_per_pg spp) (rq_cmd rq);
     let lst = end_lpn (secs_per_pg spp) (rq_cmd rq);
     if lst div np \<ge> tt_pgs spp then Some (ns, None)
     else do {
       (ns1, srd, latest) \<leftarrow> foldM (read_part lst) [first..<min (first + np) (Suc lst)]
         (ns, read_cmd spp np rq, rq_nsecs_start rq);
       Some (ns1\<lparr>cn_queueing_wait := cn_queueing_wait ns1 + of_int (nc_arrive_time srd)\<rparr>,
             Some \<lparr>rs_status = NVME_SC_SUCCESS, rs_nsecs_target = latest\<rparr>)
     }
   }"

section \<open>Writes\<close>

definition write_cmd :: "ssdparams \<Rightarrow> u64 \<Rightarrow> nand_cmd" where
  "write_cmd spp stime = \<lparr>nc_type = USER_IO, nc_cmd = NAND_WRITE, nc_xfer_size = pgsz spp * pgs_per_oneshotpg spp,
     nc_stime = stime, nc_interleave_pci_dma = False, nc_ppa = UNMAPPED_PPA, nc_arrive_time = 0\<rparr>"

record write_state =
  w_ns :: conv_ns
  w_swr :: nand_cmd
  w_latest :: u64
  w_ops :: "internal_op list"

definition write_lpn :: "nvmev_request \<Rightarrow> nat \<Rightarrow> nat \<Rightarrow> write_state \<Rightarrow> write_state option" where
  "write_lpn rq release lpn w = do {
     let np = cn_nr_parts (w_ns w);
     f \<leftarrow> get_ftl (w_ns w) (lpn mod np);
     (f', swr, t) \<leftarrow> write_page f (w_swr w) (lpn div np);
     let w' = w\<lparr>w_ns := put_ftl (w_ns w) (lpn mod np) f', w_swr := swr\<rparr>;
     (case t of
        None \<Rightarrow> Some w'
      | Some nsecs \<Rightarrow> Some (w'\<lparr>w_latest := max nsecs (w_latest w),
          w_ops := w_ops w @ [\<lparr>io_sq_id = rq_sq_id rq, io_nsecs = nsecs, io_bytes = release\<rparr>]\<rparr>))
   }"

definition conv_write ::
  "conv_ns \<Rightarrow> nvmev_request \<Rightarrow> (conv_ns \<times> nvmev_result option \<times> internal_op list) option" where
  "conv_write ns0 rq = do {
     f0 \<leftarrow> get_ftl ns0 0;
     let spp = cf_sp f0;
     let np = cn_nr_parts ns0;
     nvmev_assert (secs_per_pg spp \<noteq> 0 \<and> np \<noteq> 0);
     let first = start_lpn (secs_per_pg spp) (rq_cmd rq);
     let lst = end_lpn (secs_per_pg spp) (rq_cmd rq);
     let bytes = LBA_TO_BYTE (nr_lba (rq_cmd rq));
     let ns = (if ws_start (cn_stats ns0) = 1
               then ns0\<lparr>cn_stats := track_write (cn_stats ns0) (of_nat first)\<rparr> else ns0);
     if lst div np \<ge> tt_pgs spp then Some (ns, None, [])
     else do {
       let (wbuf, got) = buffer_allocate (ssd_write_buffer (cf_ssd f0)) bytes;
       let ns1 = put_ftl ns 0 (f0\<lparr>cf_ssd := (cf_ssd f0)\<lparr>ssd_write_buffer := wbuf\<rparr>\<rparr>);
       if got < bytes then Some (ns1, None, [])
       else do {
         f1 \<leftarrow> get_ftl ns1 0;
         (s, t0) \<leftarrow> ssd_advance_write_buffer (cf_ssd f1) (rq_nsecs_start rq) bytes 4;
         w \<leftarrow> foldM (write_lpn rq (pgs_per_oneshotpg spp * pgsz spp)) [first..<Suc lst]
                \<lparr>w_ns = put_ftl ns1 0 (f1\<lparr>cf_ssd := s\<rparr>), w_swr = write_cmd spp t0, w_latest = t0, w_ops = []\<rparr>;
         Some (w_ns w,
               Some \<lparr>rs_status = NVME_SC_SUCCESS,
                     rs_nsecs_target = (if fua (rq_cmd rq) \<or> \<not> write_early_completion spp
                                        then w_latest w else t0)\<rparr>,
               w_ops w)
       }
     }
   }"

section \<open>Flush and dispatch\<close>

text \<open>\<open>local_clock\<close> is the reading of the kernel clock.\<close>

definition conv_flush :: "u64 \<Rightarrow> conv_ns \<Rightarrow> (conv_ns \<times> nvmev_result) option" where
  "conv_flush local_clock ns0 = do {
     (ns, latest) \<leftarrow> foldM (\<lambda>i (ns, latest). do {
        f \<leftarrow> get_ftl ns i;
        let (s, t) = ssd_next_idle_time (cf_ssd f);
        Some (put_ftl ns i (f\<lparr>cf_ssd := s\<rparr>), max latest t) }) [0..<cn_nr_parts ns0] (ns0, local_clock);
     Some (ns, \<lparr>rs_status = NVME_SC_SUCCESS, rs_nsecs_target = latest\<rparr>)
   }"

text \<open>The result is the boolean the handler returns, the result structure it leaves, and the messages;
  an unknown command leaves the result structure \<open>ret\<close> as it was.\<close>

definition conv_proc_nvme_io_cmd ::
  "u64 \<Rightarrow> conv_ns \<Rightarrow> nvmev_request \<Rightarrow> nvmev_result \<Rightarrow> (conv_ns \<times> bool \<times> nvmev_result \<times> internal_op list) option" where
  "conv_proc_nvme_io_cmd local_clock ns rq ret =
    (let opc = c_opcode (rq_cmd rq)
     in if opc = nvme_cmd_write then do {
          (ns', r, ops) \<leftarrow> conv_write ns rq;
          Some (case r of None \<Rightarrow> (ns', False, ret, ops) | Some x \<Rightarrow> (ns', True, x, ops))
        }
        else if opc = nvme_cmd_read then do {
          (ns', r) \<leftarrow> conv_read ns rq;
          Some (case r of None \<Rightarrow> (ns', False, ret, []) | Some x \<Rightarrow> (ns', True, x, []))
        }
        else if opc = nvme_cmd_flush then do {
          (ns', r) \<leftarrow> conv_flush local_clock ns;
          Some (ns', True, r, [])
        }
        else Some (ns, True, ret, []))"

end
