(* ===== verification/Conv_Ns_Proof.thy ===== *)
theory Conv_Ns_Proof
  imports Conv_Ns
begin

text \<open>
  Correctness of the namespace operations: the invariant of a namespace is that of each of its
  partitions, a write maps exactly the pages of its range, a read and a flush leave the
  translation state untouched, and none of them crashes.
\<close>

section \<open>The invariant of a namespace\<close>

definition ns_spp :: "conv_ns \<Rightarrow> ssdparams" where
  "ns_spp ns = cf_sp (cn_ftls ns ! 0)"

definition ns_inv :: "nat \<Rightarrow> conv_ns \<Rightarrow> bool" where
  "ns_inv N ns \<longleftrightarrow> 0 < cn_nr_parts ns \<and> length (cn_ftls ns) = cn_nr_parts ns \<and> secs_per_pg (ns_spp ns) \<noteq> 0 \<and>
     (\<forall>f\<in>set (cn_ftls ns). conv_inv f \<and> flow_ok N f \<and> cf_sp f = ns_spp ns)"

definition ns_mapped :: "conv_ns \<Rightarrow> nat set" where
  "ns_mapped ns = {lpn. lpn div cn_nr_parts ns \<in> mapped (cn_ftls ns ! (lpn mod cn_nr_parts ns))}"

definition ns_wbuf :: "conv_ns \<Rightarrow> buffer" where
  "ns_wbuf ns = ssd_write_buffer (cf_ssd (cn_ftls ns ! 0))"

lemma set_ssd_inv:
  assumes "conv_inv f" "ssd_ok s" "ssd_sp s = cf_sp f" "ssd_blk s = blks_of f"
  shows "conv_inv (f\<lparr>cf_ssd := s\<rparr>)" "mapped (f\<lparr>cf_ssd := s\<rparr>) = mapped f"
    "flow_ok N (f\<lparr>cf_ssd := s\<rparr>) = flow_ok N f"
  using assms
  by (auto simp: conv_inv_def core_def user_ok_def gc_ok_def mapped_def flow_ok_def free_set_def)

lemma share_ok: "ssd_ok s0 \<Longrightarrow> ssd_ok s \<Longrightarrow> ssd_ok (share s0 s)"
  by (simp add: share_def ssd_ok_def)

lemma share_simps [simp]:
  "ssd_sp (share s0 s) = ssd_sp s" "ssd_blk (share s0 s) = ssd_blk s"
  "ssd_write_buffer (share s0 s) = ssd_write_buffer s0"
  by (simp_all add: share_def)

lemma conv_inv_ssd: "conv_inv f \<Longrightarrow> ssd_ok (cf_ssd f)"
  by (simp add: conv_inv_def core_def)

lemma ns_inv_nth: "ns_inv N ns \<Longrightarrow> i < cn_nr_parts ns \<Longrightarrow>
    conv_inv (cn_ftls ns ! i) \<and> flow_ok N (cn_ftls ns ! i) \<and> cf_sp (cn_ftls ns ! i) = ns_spp ns"
  by (simp add: ns_inv_def)

lemma get_ftl_ok:
  assumes ns: "ns_inv N ns" and i: "i < cn_nr_parts ns"
  shows "\<exists>f. get_ftl ns i = Some f \<and> f = (cn_ftls ns ! i)\<lparr>cf_ssd := cf_ssd f\<rparr> \<and> blks_of f = blks_of (cn_ftls ns ! i) \<and>
    conv_inv f \<and> flow_ok N f \<and> mapped f = mapped (cn_ftls ns ! i) \<and> cf_sp f = ns_spp ns \<and>
    ssd_write_buffer (cf_ssd f) = ns_wbuf ns"
proof -
  let ?f = "cn_ftls ns ! i" and ?fst = "cn_ftls ns ! 0"
  let ?s = "share (cf_ssd ?fst) (cf_ssd ?f)"
  have len: "length (cn_ftls ns) = cn_nr_parts ns" "0 < cn_nr_parts ns" using ns by (auto simp: ns_inv_def)
  have inv: "conv_inv ?f" "flow_ok N ?f" "cf_sp ?f = ns_spp ns" "conv_inv ?fst"
    using ns_inv_nth[OF ns i] ns_inv_nth[OF ns len(2)] by auto
  have "ssd_ok ?s" using share_ok conv_inv_ssd inv by blast
  then have "conv_inv (?f\<lparr>cf_ssd := ?s\<rparr>)" "mapped (?f\<lparr>cf_ssd := ?s\<rparr>) = mapped ?f" "flow_ok N (?f\<lparr>cf_ssd := ?s\<rparr>)"
    using set_ssd_inv[OF inv(1), of ?s] inv(2) by auto
  moreover have "get_ftl ns i = Some (?f\<lparr>cf_ssd := ?s\<rparr>)" using len i by (simp add: get_ftl_def)
  ultimately show ?thesis using inv(3) by (simp add: ns_wbuf_def)
qed

lemma put_ftl_nth:
  assumes "0 < cn_nr_parts ns" "length (cn_ftls ns) = cn_nr_parts ns" "i < cn_nr_parts ns" "j < cn_nr_parts ns"
  shows "cn_ftls (put_ftl ns i f) ! j =
    (let g = (if j = i then f else cn_ftls ns ! j)
     in if j = 0 then g\<lparr>cf_ssd := share (cf_ssd f) (cf_ssd g)\<rparr> else g)"
  using assms by (auto simp: put_ftl_def Let_def nth_list_update)

lemma put_ftl_simps [simp]:
  "cn_nr_parts (put_ftl ns i f) = cn_nr_parts ns" "length (cn_ftls (put_ftl ns i f)) = length (cn_ftls ns)"
  "cn_size (put_ftl ns i f) = cn_size ns" "cn_stats (put_ftl ns i f) = cn_stats ns"
  "cn_queueing_wait (put_ftl ns i f) = cn_queueing_wait ns"
  by (simp_all add: put_ftl_def Let_def)

lemma put_ftl_ok:
  assumes ns: "ns_inv N ns" and i: "i < cn_nr_parts ns" and f: "conv_inv f" "flow_ok N f" "cf_sp f = ns_spp ns"
  shows "ns_inv N (put_ftl ns i f)" "ns_spp (put_ftl ns i f) = ns_spp ns"
    "ns_wbuf (put_ftl ns i f) = ssd_write_buffer (cf_ssd f)"
    "\<And>j. j < cn_nr_parts ns \<Longrightarrow> mapped (cn_ftls (put_ftl ns i f) ! j) = (if j = i then mapped f else mapped (cn_ftls ns ! j))"
proof -
  have len: "length (cn_ftls ns) = cn_nr_parts ns" "0 < cn_nr_parts ns" using ns by (auto simp: ns_inv_def)
  note nth = put_ftl_nth[OF len(2,1) i]
  let ?g = "\<lambda>j. if j = i then f else cn_ftls ns ! j"
  have g: "conv_inv (?g j)" "flow_ok N (?g j)" "cf_sp (?g j) = ns_spp ns" if "j < cn_nr_parts ns" for j
    using ns_inv_nth[OF ns that] f by auto
  have sh: "ssd_ok (share (cf_ssd f) (cf_ssd (?g j)))" if "j < cn_nr_parts ns" for j
    using share_ok conv_inv_ssd g(1)[OF that] f(1) by blast
  let ?h = "\<lambda>j. (?g j)\<lparr>cf_ssd := share (cf_ssd f) (cf_ssd (?g j))\<rparr>"
  have set: "conv_inv (?h j)" "mapped (?h j) = mapped (?g j)" "flow_ok N (?h j)" "cf_sp (?h j) = ns_spp ns"
    if "j < cn_nr_parts ns" for j
    using set_ssd_inv[OF g(1)[OF that] sh[OF that]] g(2,3)[OF that] by simp_all
  have each: "conv_inv (cn_ftls (put_ftl ns i f) ! j) \<and> flow_ok N (cn_ftls (put_ftl ns i f) ! j) \<and>
      cf_sp (cn_ftls (put_ftl ns i f) ! j) = ns_spp ns" if "j < cn_nr_parts ns" for j
    using nth[OF that] set[OF that] g[OF that] by (cases "j = 0") (simp_all add: Let_def)
  show sp: "ns_spp (put_ftl ns i f) = ns_spp ns" using each[OF len(2)] by (simp add: ns_spp_def)
  show "ns_inv N (put_ftl ns i f)"
  proof -
    have "conv_inv x \<and> flow_ok N x \<and> cf_sp x = ns_spp ns" if "x \<in> set (cn_ftls (put_ftl ns i f))" for x
      using that each len(1) by (metis in_set_conv_nth put_ftl_simps(2))
    then show ?thesis using len ns sp by (simp add: ns_inv_def)
  qed
  show "ns_wbuf (put_ftl ns i f) = ssd_write_buffer (cf_ssd f)"
    using nth[OF len(2)] by (auto simp: ns_wbuf_def Let_def)
  show "mapped (cn_ftls (put_ftl ns i f) ! j) = (if j = i then mapped f else mapped (cn_ftls ns ! j))"
    if "j < cn_nr_parts ns" for j
    using nth[OF that] set(2)[OF that] by (cases "j = 0") (simp_all add: Let_def)
qed

section \<open>Writes\<close>

lemma div_mod_eqI: "a div n = b div n \<Longrightarrow> a mod n = b mod n \<Longrightarrow> a = (b :: nat)"
  by (metis div_mult_mod_eq)

lemma write_lpn_ok:
  assumes ns: "ns_inv N (w_ns w)" and lpn: "lpn div cn_nr_parts (w_ns w) < N" and n: "nc_cmd (w_swr w) = NAND_WRITE"
  shows "\<exists>w'. write_lpn rq rel lpn w = Some w' \<and> ns_inv N (w_ns w') \<and> nc_cmd (w_swr w') = NAND_WRITE \<and>
    cn_nr_parts (w_ns w') = cn_nr_parts (w_ns w) \<and> ns_mapped (w_ns w') = insert lpn (ns_mapped (w_ns w)) \<and>
    ns_wbuf (w_ns w') = ns_wbuf (w_ns w) \<and> w_latest w \<le> w_latest w' \<and> cn_size (w_ns w') = cn_size (w_ns w) \<and> ns_spp (w_ns w') = ns_spp (w_ns w)"
proof -
  let ?ns = "w_ns w" and ?np = "cn_nr_parts (w_ns w)"
  have np: "0 < ?np" using ns by (simp add: ns_inv_def)
  then have i: "lpn mod ?np < ?np" by simp
  obtain f where f: "get_ftl ?ns (lpn mod ?np) = Some f" "conv_inv f" "flow_ok N f"
    "mapped f = mapped (cn_ftls ?ns ! (lpn mod ?np))" "cf_sp f = ns_spp ?ns" "ssd_write_buffer (cf_ssd f) = ns_wbuf ?ns"
    using get_ftl_ok[OF ns i] by blast
  obtain f' swr t where f': "write_page f (w_swr w) (lpn div ?np) = Some (f', swr, t)" "conv_inv f'" "flow_ok N f'"
    "mapped f' = insert (lpn div ?np) (mapped f)" "nc_cmd swr = NAND_WRITE" "cf_sp f' = cf_sp f"
    "ssd_write_buffer (cf_ssd f') = ssd_write_buffer (cf_ssd f)"
    using write_page_ok[OF f(2,3) lpn n] by blast
  let ?ns' = "put_ftl ?ns (lpn mod ?np) f'"
  have sp: "cf_sp f' = ns_spp ?ns" using f'(6) f(5) by simp
  note p = put_ftl_ok[OF ns i f'(2,3) sp]
  have "ns_mapped ?ns' = insert lpn (ns_mapped ?ns)"
  proof (rule set_eqI)
    fix x
    have "x mod ?np < ?np" using np by simp
    then show "x \<in> ns_mapped ?ns' \<longleftrightarrow> x \<in> insert lpn (ns_mapped ?ns)"
      using p(4)[of "x mod ?np"] f'(4) f(4) div_mod_eqI[of x ?np lpn] by (auto simp: ns_mapped_def)
  qed
  moreover have "\<exists>w'. write_lpn rq rel lpn w = Some w' \<and> w_ns w' = ?ns' \<and> w_swr w' = swr \<and> w_latest w \<le> w_latest w'"
    using f(1) f'(1) by (cases t) (auto simp: write_lpn_def Let_def)
  ultimately show ?thesis using p f'(5,7) f(6) by auto
qed

lemma write_loop_ok:
  assumes "ns_inv N (w_ns w)" "\<forall>lpn\<in>set lpns. lpn div cn_nr_parts (w_ns w) < N" "nc_cmd (w_swr w) = NAND_WRITE"
  shows "\<exists>w'. foldM (write_lpn rq rel) lpns w = Some w' \<and> ns_inv N (w_ns w') \<and>
    cn_nr_parts (w_ns w') = cn_nr_parts (w_ns w) \<and> ns_mapped (w_ns w') = set lpns \<union> ns_mapped (w_ns w) \<and>
    ns_wbuf (w_ns w') = ns_wbuf (w_ns w) \<and> w_latest w \<le> w_latest w' \<and> cn_size (w_ns w') = cn_size (w_ns w) \<and> ns_spp (w_ns w') = ns_spp (w_ns w)"
  using assms
proof (induction lpns arbitrary: w)
  case (Cons lpn lpns)
  obtain w1 where 1: "write_lpn rq rel lpn w = Some w1" "ns_inv N (w_ns w1)" "nc_cmd (w_swr w1) = NAND_WRITE"
    "cn_nr_parts (w_ns w1) = cn_nr_parts (w_ns w)" "ns_mapped (w_ns w1) = insert lpn (ns_mapped (w_ns w))"
    "ns_wbuf (w_ns w1) = ns_wbuf (w_ns w)" "w_latest w \<le> w_latest w1" "cn_size (w_ns w1) = cn_size (w_ns w)" "ns_spp (w_ns w1) = ns_spp (w_ns w)"
    using write_lpn_ok[OF Cons.prems(1) _ Cons.prems(3), of lpn rq rel] Cons.prems(2) by auto
  obtain w2 where 2: "foldM (write_lpn rq rel) lpns w1 = Some w2" "ns_inv N (w_ns w2)"
    "cn_nr_parts (w_ns w2) = cn_nr_parts (w_ns w1)" "ns_mapped (w_ns w2) = set lpns \<union> ns_mapped (w_ns w1)"
    "ns_wbuf (w_ns w2) = ns_wbuf (w_ns w1)" "w_latest w1 \<le> w_latest w2" "cn_size (w_ns w2) = cn_size (w_ns w1)" "ns_spp (w_ns w2) = ns_spp (w_ns w1)"
    using Cons.IH[OF 1(2) _ 1(3)] Cons.prems(2) 1(4) by auto
  then show ?case using 1 by auto
qed auto

text \<open>What a write command does, by cases: out of range, no room in the write buffer, or success.\<close>

definition in_range :: "conv_ns \<Rightarrow> nat \<Rightarrow> nvme_command \<Rightarrow> bool" where
  "in_range ns N c \<longleftrightarrow> (\<forall>lpn. start_lpn (secs_per_pg (ns_spp ns)) c \<le> lpn \<longrightarrow>
     lpn \<le> end_lpn (secs_per_pg (ns_spp ns)) c \<longrightarrow> lpn div cn_nr_parts ns < N)"

abbreviation cmd_lpns :: "conv_ns \<Rightarrow> nvme_command \<Rightarrow> nat set" where
  "cmd_lpns ns c \<equiv> {start_lpn (secs_per_pg (ns_spp ns)) c..end_lpn (secs_per_pg (ns_spp ns)) c}"

abbreviation cmd_bytes :: "nvme_command \<Rightarrow> nat" where
  "cmd_bytes c \<equiv> LBA_TO_BYTE (nr_lba c)"

lemma stats_inv [simp]:
  "ns_inv N (ns\<lparr>cn_stats := x\<rparr>) = ns_inv N ns" "ns_spp (ns\<lparr>cn_stats := x\<rparr>) = ns_spp ns"
  "ns_wbuf (ns\<lparr>cn_stats := x\<rparr>) = ns_wbuf ns" "ns_mapped (ns\<lparr>cn_stats := x\<rparr>) = ns_mapped ns"
  "get_ftl (ns\<lparr>cn_stats := x\<rparr>) i = get_ftl ns i"
  by (simp_all add: ns_inv_def ns_spp_def ns_wbuf_def ns_mapped_def get_ftl_def)

lemma put_same_mapped:
  assumes "ns_inv N ns" "i < cn_nr_parts ns" "conv_inv f" "flow_ok N f" "cf_sp f = ns_spp ns"
    "mapped f = mapped (cn_ftls ns ! i)"
  shows "ns_mapped (put_ftl ns i f) = ns_mapped ns"
proof (rule set_eqI)
  fix x
  have "x mod cn_nr_parts ns < cn_nr_parts ns" using assms(2) by simp
  then show "x \<in> ns_mapped (put_ftl ns i f) \<longleftrightarrow> x \<in> ns_mapped ns"
    using put_ftl_ok(4)[OF assms(1-5)] assms(6) by (simp add: ns_mapped_def)
qed

lemma write_start_ok:
  assumes ns: "ns_inv N ns" and f0: "get_ftl ns 0 = Some f0"
    and b: "b = ssd_write_buffer (cf_ssd f0)"
  shows "ns_inv N (put_ftl ns 0 (f0\<lparr>cf_ssd := (cf_ssd f0)\<lparr>ssd_write_buffer := b'\<rparr>\<rparr>))"
    "ns_wbuf (put_ftl ns 0 (f0\<lparr>cf_ssd := (cf_ssd f0)\<lparr>ssd_write_buffer := b'\<rparr>\<rparr>)) = b'"
    "ns_mapped (put_ftl ns 0 (f0\<lparr>cf_ssd := (cf_ssd f0)\<lparr>ssd_write_buffer := b'\<rparr>\<rparr>)) = ns_mapped ns"
    "ns_spp (put_ftl ns 0 (f0\<lparr>cf_ssd := (cf_ssd f0)\<lparr>ssd_write_buffer := b'\<rparr>\<rparr>)) = ns_spp ns"
proof -
  let ?s = "(cf_ssd f0)\<lparr>ssd_write_buffer := b'\<rparr>"
  have np: "0 < cn_nr_parts ns" using ns by (simp add: ns_inv_def)
  have f: "conv_inv f0" "flow_ok N f0" "mapped f0 = mapped (cn_ftls ns ! 0)" "cf_sp f0 = ns_spp ns"
    using get_ftl_ok[OF ns np] f0 by auto
  have "ssd_ok ?s" using conv_inv_ssd[OF f(1)] by (simp add: ssd_ok_def)
  note s = set_ssd_inv[OF f(1) this]
  note p = put_ftl_ok[OF ns np, of "f0\<lparr>cf_ssd := ?s\<rparr>"]
  show "ns_inv N (put_ftl ns 0 (f0\<lparr>cf_ssd := ?s\<rparr>))" "ns_wbuf (put_ftl ns 0 (f0\<lparr>cf_ssd := ?s\<rparr>)) = b'"
    "ns_spp (put_ftl ns 0 (f0\<lparr>cf_ssd := ?s\<rparr>)) = ns_spp ns"
    using s p(1-3) f by simp_all
  show "ns_mapped (put_ftl ns 0 (f0\<lparr>cf_ssd := ?s\<rparr>)) = ns_mapped ns"
    using s f by (intro put_same_mapped[OF ns np]) simp_all
qed

lemma conv_write_ok:
  assumes ns: "ns_inv N ns" and rng: "in_range ns N (rq_cmd rq)" and N: "N \<le> tt_pgs (ns_spp ns)"
    and ord: "start_lpn (secs_per_pg (ns_spp ns)) (rq_cmd rq) \<le> end_lpn (secs_per_pg (ns_spp ns)) (rq_cmd rq)"
    and small: "cmd_bytes (rq_cmd rq) < 2 ^ 32"
  shows "\<exists>ns' r ops. conv_write ns rq = Some (ns', r, ops) \<and> ns_inv N ns' \<and>
    cn_nr_parts ns' = cn_nr_parts ns \<and> cn_size ns' = cn_size ns \<and> ns_spp ns' = ns_spp ns \<and>
    (if buf_remaining (ns_wbuf ns) < cmd_bytes (rq_cmd rq)
     then r = None \<and> ops = [] \<and> ns_mapped ns' = ns_mapped ns \<and> ns_wbuf ns' = ns_wbuf ns
     else (\<exists>t. r = Some \<lparr>rs_status = NVME_SC_SUCCESS, rs_nsecs_target = t\<rparr>) \<and>
       ns_mapped ns' = cmd_lpns ns (rq_cmd rq) \<union> ns_mapped ns \<and>
       buf_remaining (ns_wbuf ns') + cmd_bytes (rq_cmd rq) = buf_remaining (ns_wbuf ns))"
proof -
  let ?c = "rq_cmd rq" and ?np = "cn_nr_parts ns" and ?spp = "ns_spp ns"
  let ?first = "start_lpn (secs_per_pg ?spp) ?c" and ?last = "end_lpn (secs_per_pg ?spp) ?c"
  let ?b = "ns_wbuf ns" and ?n = "cmd_bytes ?c"
  define ns1 where "ns1 = (if ws_start (cn_stats ns) = 1
    then ns\<lparr>cn_stats := track_write (cn_stats ns) (of_nat ?first)\<rparr> else ns)"
  have np: "0 < ?np" "secs_per_pg ?spp \<noteq> 0" using ns by (auto simp: ns_inv_def)
  have same: "ns_inv N ns1" "ns_spp ns1 = ?spp" "ns_wbuf ns1 = ?b" "ns_mapped ns1 = ns_mapped ns"
    "cn_nr_parts ns1 = ?np" "cn_size ns1 = cn_size ns" "get_ftl ns1 0 = get_ftl ns 0"
    using ns by (auto simp: ns1_def)
  obtain f0 where f0: "get_ftl ns 0 = Some f0" "cf_sp f0 = ?spp" "ssd_write_buffer (cf_ssd f0) = ?b"
    using get_ftl_ok[OF ns np(1)] by blast
  have lst: "?last div ?np < tt_pgs ?spp" using rng ord N by (fastforce simp: in_range_def)
  let ?b' = "fst (buffer_allocate ?b ?n)"
  define ns2 where "ns2 = put_ftl ns1 0 (f0\<lparr>cf_ssd := (cf_ssd f0)\<lparr>ssd_write_buffer := ?b'\<rparr>\<rparr>)"
  note ws = write_start_ok[OF same(1), of f0 ?b ?b', unfolded same(7), OF f0(1) f0(3)[symmetric], folded ns2_def]
  have got: "snd (buffer_allocate ?b ?n) < ?n \<longleftrightarrow> buf_remaining ?b < ?n"
    using small by (auto simp: buffer_allocate_def Let_def LBA_TO_BYTE_def nr_lba_def)
  have run: "conv_write ns rq = (if buf_remaining ?b < ?n then Some (ns2, None, []) else do {
       f1 \<leftarrow> get_ftl ns2 0;
       (s, t0) \<leftarrow> ssd_advance_write_buffer (cf_ssd f1) (rq_nsecs_start rq) ?n 4;
       w \<leftarrow> foldM (write_lpn rq (pgs_per_oneshotpg ?spp * pgsz ?spp)) [?first..<Suc ?last]
              \<lparr>w_ns = put_ftl ns2 0 (f1\<lparr>cf_ssd := s\<rparr>), w_swr = write_cmd ?spp t0, w_latest = t0, w_ops = []\<rparr>;
       Some (w_ns w, Some \<lparr>rs_status = NVME_SC_SUCCESS,
          rs_nsecs_target = (if fua ?c \<or> \<not> write_early_completion ?spp then w_latest w else t0)\<rparr>, w_ops w) })"
    using f0 np lst got unfolding conv_write_def ns2_def ns1_def
    by (simp add: Let_def case_prod_unfold not_le split del: if_split cong: if_cong)
  show ?thesis
  proof (cases "buf_remaining ?b < ?n")
    case True
    then have "?b' = ?b" by (simp add: buffer_allocate_def)
    then show ?thesis using run True ws same by (simp add: ns2_def)
  next
    case False
    then have b': "buf_remaining ?b' + ?n = buf_remaining ?b" by (simp add: buffer_allocate_def Let_def)
    have np2: "cn_nr_parts ns2 = ?np" using same(5) by (simp add: ns2_def)
    obtain f1 where f1: "get_ftl ns2 0 = Some f1" "conv_inv f1" "flow_ok N f1" "mapped f1 = mapped (cn_ftls ns2 ! 0)"
      "cf_sp f1 = ns_spp ns2" "ssd_write_buffer (cf_ssd f1) = ns_wbuf ns2"
      using get_ftl_ok[OF ws(1), of 0] np(1) np2 by auto
    obtain s t0 where s: "ssd_advance_write_buffer (cf_ssd f1) (rq_nsecs_start rq) ?n 4 = Some (s, t0)"
      "ssd_ok s" "same_nand (cf_ssd f1) s"
      using ssd_advance_write_buffer_ok[OF conv_inv_ssd[OF f1(2)], of 4] by fastforce
    have f1': "conv_inv (f1\<lparr>cf_ssd := s\<rparr>)" "flow_ok N (f1\<lparr>cf_ssd := s\<rparr>)" "mapped (f1\<lparr>cf_ssd := s\<rparr>) = mapped f1"
      "cf_sp (f1\<lparr>cf_ssd := s\<rparr>) = ns_spp ns2" "ssd_write_buffer (cf_ssd (f1\<lparr>cf_ssd := s\<rparr>)) = ns_wbuf ns2"
      using set_ssd_inv[OF f1(2) s(2)] s(3) f1(3,5,6) by (simp_all add: same_nand_def)
    let ?ns3 = "put_ftl ns2 0 (f1\<lparr>cf_ssd := s\<rparr>)"
    have np3: "0 < cn_nr_parts ns2" using np(1) np2 by simp
    note p = put_ftl_ok[OF ws(1) np3 f1'(1,2,4)]
    have m3: "ns_mapped ?ns3 = ns_mapped ns2"
      using put_same_mapped[OF ws(1) np3 f1'(1,2,4)] f1'(3) f1(4) by simp
    let ?w = "\<lparr>w_ns = ?ns3, w_swr = write_cmd ?spp t0, w_latest = t0, w_ops = []\<rparr>"
    have "\<forall>lpn\<in>set [?first..<Suc ?last]. lpn div cn_nr_parts (w_ns ?w) < N"
      using rng np2 by (auto simp: in_range_def)
    then obtain w where w: "foldM (write_lpn rq (pgs_per_oneshotpg ?spp * pgsz ?spp)) [?first..<Suc ?last] ?w = Some w"
      "ns_inv N (w_ns w)" "cn_nr_parts (w_ns w) = cn_nr_parts ?ns3" "ns_mapped (w_ns w) = set [?first..<Suc ?last] \<union> ns_mapped ?ns3"
      "ns_wbuf (w_ns w) = ns_wbuf ?ns3" "cn_size (w_ns w) = cn_size ?ns3" "ns_spp (w_ns w) = ns_spp ?ns3"
      using write_loop_ok[of N ?w "[?first..<Suc ?last]" rq "pgs_per_oneshotpg ?spp * pgsz ?spp"] p(1)
      by (auto simp: write_cmd_def)
    have "set [?first..<Suc ?last] = cmd_lpns ns ?c" by auto
    then show ?thesis
      using run False f1(1) s(1) w p(2,3) m3 ws(2-4) same(2,4,6) np2 b' f1'(5)
      by (simp add: ns2_def del: set_upt)
  qed
qed

section \<open>Reads and flushes\<close>

text \<open>Two states of a partition that differ in timing only.\<close>

definition same_tr :: "conv_ftl \<Rightarrow> conv_ftl \<Rightarrow> bool" where
  "same_tr f f' \<longleftrightarrow> f' = f\<lparr>cf_ssd := cf_ssd f'\<rparr> \<and> cf_sp f' = cf_sp f \<and> blks_of f' = blks_of f"

definition same_ns :: "conv_ns \<Rightarrow> conv_ns \<Rightarrow> bool" where
  "same_ns ns ns' \<longleftrightarrow> cn_nr_parts ns' = cn_nr_parts ns \<and> cn_size ns' = cn_size ns \<and> cn_stats ns' = cn_stats ns \<and>
     length (cn_ftls ns') = length (cn_ftls ns) \<and> ns_wbuf ns' = ns_wbuf ns \<and>
     (\<forall>i<length (cn_ftls ns). same_tr (cn_ftls ns ! i) (cn_ftls ns' ! i))"

lemma same_tr_refl [simp]: "same_tr f f"
  by (simp add: same_tr_def)

lemma same_tr_trans: "same_tr f g \<Longrightarrow> same_tr g h \<Longrightarrow> same_tr f h"
  unfolding same_tr_def by (metis conv_ftl.update_convs(1) conv_ftl.surjective)

lemma same_tr_ssd: "ssd_sp s = cf_sp f \<Longrightarrow> ssd_blk s = blks_of f \<Longrightarrow> same_tr f (f\<lparr>cf_ssd := s\<rparr>)"
  by (simp add: same_tr_def)

lemma same_tr_inv:
  assumes "same_tr f f'" "conv_inv f" "ssd_ok (cf_ssd f')"
  shows "conv_inv f'" "mapped f' = mapped f" "flow_ok N f' = flow_ok N f" "cf_sp f' = cf_sp f"
proof -
  have e: "f' = f\<lparr>cf_ssd := cf_ssd f'\<rparr>" "cf_sp f' = cf_sp f" "blks_of f' = blks_of f"
    using assms(1) by (auto simp: same_tr_def)
  note s = set_ssd_inv[OF assms(2,3) e(2,3)]
  show "conv_inv f'" by (subst e(1)) (rule s(1))
  show "mapped f' = mapped f" by (subst e(1)) (rule s(2))
  show "flow_ok N f' = flow_ok N f" by (subst e(1)) (rule s(3))
qed (use assms in \<open>simp add: same_tr_def\<close>)

lemma same_ns_refl [simp]: "same_ns ns ns"
  by (simp add: same_ns_def)

lemma same_ns_trans: "same_ns a b \<Longrightarrow> same_ns b c \<Longrightarrow> same_ns a c"
  unfolding same_ns_def using same_tr_trans by fastforce

lemma same_ns_mapped:
  assumes "same_ns ns ns'" "ns_inv N ns" "ns_inv N ns'"
  shows "ns_mapped ns' = ns_mapped ns" "ns_spp ns' = ns_spp ns"
proof -
  have np: "cn_nr_parts ns' = cn_nr_parts ns" "length (cn_ftls ns) = cn_nr_parts ns" "0 < cn_nr_parts ns"
    using assms by (auto simp: same_ns_def ns_inv_def)
  have m: "mapped (cn_ftls ns' ! i) = mapped (cn_ftls ns ! i)" if "i < cn_nr_parts ns" for i
  proof -
    have "same_tr (cn_ftls ns ! i) (cn_ftls ns' ! i)" using assms(1) that np by (simp add: same_ns_def)
    then show ?thesis
      using same_tr_inv(2) ns_inv_nth[OF assms(2) that] ns_inv_nth[OF assms(3), of i] that np(1) conv_inv_ssd by metis
  qed
  have "x mod cn_nr_parts ns < cn_nr_parts ns" for x using np(3) by simp
  then show "ns_mapped ns' = ns_mapped ns" using m np(1) by (auto simp: ns_mapped_def)
  show "ns_spp ns' = ns_spp ns" using assms(1) np by (simp add: same_ns_def same_tr_def ns_spp_def)
qed

lemma wait_inv [simp]:
  "ns_inv N (ns\<lparr>cn_queueing_wait := x\<rparr>) = ns_inv N ns"
  "same_ns a (ns\<lparr>cn_queueing_wait := x\<rparr>) = same_ns a ns"
  by (simp_all add: ns_inv_def ns_spp_def same_ns_def ns_wbuf_def)

lemma put_same:
  assumes ns: "ns_inv N ns" and i: "i < cn_nr_parts ns" and g: "get_ftl ns i = Some f"
    and f': "same_tr f f'" "ssd_ok (cf_ssd f')" "ssd_write_buffer (cf_ssd f') = ssd_write_buffer (cf_ssd f)"
  shows "ns_inv N (put_ftl ns i f')" "same_ns ns (put_ftl ns i f')"
proof -
  have len: "length (cn_ftls ns) = cn_nr_parts ns" "0 < cn_nr_parts ns" using ns by (auto simp: ns_inv_def)
  have f: "conv_inv f" "flow_ok N f" "cf_sp f = ns_spp ns" "ssd_write_buffer (cf_ssd f) = ns_wbuf ns"
    and tr: "same_tr (cn_ftls ns ! i) f"
    using get_ftl_ok[OF ns i] g ns_inv_nth[OF ns i] by (auto simp: same_tr_def)
  note s = same_tr_inv[OF f'(1) f(1) f'(2)]
  note p = put_ftl_ok[OF ns i, of f']
  show "ns_inv N (put_ftl ns i f')" using p(1) s f by simp
  have w: "ns_wbuf (put_ftl ns i f') = ns_wbuf ns" using p(3) s f f'(3) by simp
  have "same_tr (cn_ftls ns ! j) (cn_ftls (put_ftl ns i f') ! j)" if "j < cn_nr_parts ns" for j
  proof -
    let ?g = "if j = i then f' else cn_ftls ns ! j"
    have g: "same_tr (cn_ftls ns ! j) ?g" using same_tr_trans[OF tr f'(1)] by simp
    moreover have "same_tr ?g (?g\<lparr>cf_ssd := share (cf_ssd f') (cf_ssd ?g)\<rparr>)" by (rule same_tr_ssd) simp_all
    ultimately have "same_tr (cn_ftls ns ! j) (?g\<lparr>cf_ssd := share (cf_ssd f') (cf_ssd ?g)\<rparr>)" by (rule same_tr_trans)
    then show ?thesis
      unfolding put_ftl_nth[OF len(2,1) i that] Let_def using g by (cases "j = 0") (simp_all split del: if_split)
  qed
  then show "same_ns ns (put_ftl ns i f')" using len w by (simp add: same_ns_def)
qed

lemma advance_nand_keeps_cmd:
  "ssd_advance_nand s n = Some (s', n', t) \<Longrightarrow> nc_cmd n' = nc_cmd n"
  by (auto simp: ssd_advance_nand_def nand_read_checking_def Let_def split: if_splits prod.splits bind_splits nand_op.splits)

definition read_inv :: "conv_ftl \<Rightarrow> u64 \<Rightarrow> read_state \<Rightarrow> bool" where
  "read_inv f t r \<longleftrightarrow> same_tr f (r_ftl r) \<and> ssd_ok (cf_ssd (r_ftl r)) \<and>
     ssd_write_buffer (cf_ssd (r_ftl r)) = ssd_write_buffer (cf_ssd f) \<and> nc_cmd (r_srd r) = NAND_READ \<and>
     t \<le> r_latest r \<and> (0 < r_xfer r \<longrightarrow> lun_in (cf_sp f) (r_prev r))"

lemma issue_read_ok:
  assumes "read_inv f t r"
  shows "\<exists>r'. issue_read r = Some r' \<and> read_inv f t r' \<and> r_prev r' = r_prev r \<and> r_xfer r' = r_xfer r"
proof (cases "0 < r_xfer r")
  case True
  let ?n = "(r_srd r)\<lparr>nc_xfer_size := r_xfer r, nc_ppa := r_prev r\<rparr>"
  have sp: "cf_sp (r_ftl r) = cf_sp f" using assms by (simp add: read_inv_def same_tr_def)
  obtain s n t' where a: "ssd_advance_nand (cf_ssd (r_ftl r)) ?n = Some (s, n, t')" "ssd_ok s"
    "same_nand (cf_ssd (r_ftl r)) s"
    using ssd_advance_nand_ok[of "cf_ssd (r_ftl r)" ?n] assms True sp by (auto simp: read_inv_def)
  have "same_tr (r_ftl r) ((r_ftl r)\<lparr>cf_ssd := s\<rparr>)" using a(3) by (intro same_tr_ssd) (simp_all add: same_nand_def)
  then have "same_tr f ((r_ftl r)\<lparr>cf_ssd := s\<rparr>)" using assms same_tr_trans by (auto simp: read_inv_def)
  moreover have "nc_cmd n = NAND_READ" using advance_nand_keeps_cmd[OF a(1)] assms by (simp add: read_inv_def)
  moreover have "t \<le> max t' (r_latest r)" using assms by (simp add: read_inv_def le_max_iff_disj)
  ultimately show ?thesis
    using True a assms by (simp add: issue_read_def read_inv_def same_nand_def)
qed (use assms in \<open>simp add: issue_read_def\<close>)

lemma same_flash_page_lun: "is_same_flash_page f a b \<Longrightarrow> valid_ppa f a \<Longrightarrow> lun_in (cf_sp f) b"
  by (simp add: is_same_flash_page_def same_blk_in_ssd_def valid_ppa_def lun_in_def)

lemma read_lpn_ok:
  assumes r: "read_inv f t r" and len: "length (cf_maptbl f) = tt_pgs (cf_sp f)" and l: "lpn div np < tt_pgs (cf_sp f)"
  shows "\<exists>r'. read_lpn np lpn r = Some r' \<and> read_inv f t r'"
proof -
  have tr: "same_tr f (r_ftl r)" using r by (simp add: read_inv_def)
  then have sp: "cf_sp (r_ftl r) = cf_sp f" "cf_maptbl (r_ftl r) = cf_maptbl f"
    by (auto simp: same_tr_def) (metis conv_ftl.simps(12) conv_ftl.select_convs(3) conv_ftl.surjective conv_ftl.update_convs(1))
  let ?cur = "cf_maptbl f ! (lpn div np)"
  have get: "get_maptbl_ent (r_ftl r) (lpn div np) = Some ?cur" using sp len l by (simp add: get_maptbl_ent_def)
  consider (skip) "\<not> mapped_ppa ?cur \<or> \<not> valid_ppa (r_ftl r) ?cur"
    | (more) "mapped_ppa ?cur" "valid_ppa (r_ftl r) ?cur" "mapped_ppa (r_prev r) \<and> is_same_flash_page (r_ftl r) ?cur (r_prev r)"
    | (fresh) "mapped_ppa ?cur" "valid_ppa (r_ftl r) ?cur" "\<not> (mapped_ppa (r_prev r) \<and> is_same_flash_page (r_ftl r) ?cur (r_prev r))"
    by blast
  then show ?thesis
  proof cases
    case skip
    then show ?thesis using get r by (auto simp: read_lpn_def Let_def)
  next
    case more
    then have "lun_in (cf_sp f) (r_prev r)" using same_flash_page_lun sp by metis
    then show ?thesis using more get r by (simp add: read_lpn_def Let_def read_inv_def)
  next
    case fresh
    obtain r' where "issue_read r = Some r'" "read_inv f t r'" using issue_read_ok[OF r] by blast
    moreover have "lun_in (cf_sp f) ?cur" using fresh(2) sp by (simp add: valid_ppa_def lun_in_def)
    ultimately show ?thesis using fresh get by (auto simp: read_lpn_def Let_def read_inv_def)
  qed
qed

lemma lpns_from_le: "first \<le> lst \<Longrightarrow> lpn \<in> set (lpns_from first step lst) \<Longrightarrow> lpn \<le> lst"
proof -
  assume a: "first \<le> lst" "lpn \<in> set (lpns_from first step lst)"
  have "set (lpns_from first step lst) = (\<lambda>k. first + k * step) ` {..(lst - first) div step}"
    by (simp add: lpns_from_def atLeast0LessThan lessThan_Suc_atMost del: upt_Suc)
  then obtain k where k: "lpn = first + k * step" "k \<le> (lst - first) div step" using a(2) by blast
  have "k * step \<le> (lst - first) div step * step" using k(2) by (rule mult_le_mono1)
  also have "\<dots> \<le> lst - first" by simp
  finally show "lpn \<le> lst" using k(1) a(1) by simp
qed

lemma read_part_ok:
  assumes ns: "ns_inv N ns" and c: "nc_cmd srd = NAND_READ" and l: "lpn \<le> lst"
    and rng: "lst div cn_nr_parts ns < tt_pgs (ns_spp ns)"
  shows "\<exists>ns' srd' t'. read_part lst lpn (ns, srd, t) = Some (ns', srd', t') \<and> ns_inv N ns' \<and> same_ns ns ns' \<and>
    nc_cmd srd' = NAND_READ \<and> t \<le> t' \<and> cn_queueing_wait ns' = cn_queueing_wait ns"
proof -
  let ?np = "cn_nr_parts ns"
  have np: "0 < ?np" using ns by (simp add: ns_inv_def)
  then have i: "lpn mod ?np < ?np" by simp
  obtain f where f: "get_ftl ns (lpn mod ?np) = Some f" "conv_inv f" "cf_sp f = ns_spp ns"
    using get_ftl_ok[OF ns i] by blast
  have len: "length (cf_maptbl f) = tt_pgs (cf_sp f)" using f(2) by (simp add: conv_inv_def core_def map_ok_def)
  have in_tbl: "x div ?np < tt_pgs (cf_sp f)" if "x \<le> lst" for x
    using div_le_mono[OF that, of ?np] rng f(3) by simp
  have get: "get_maptbl_ent f (lpn div ?np) = Some (cf_maptbl f ! (lpn div ?np))"
    using in_tbl[OF l] len by (simp add: get_maptbl_ent_def)
  let ?r = "\<lparr>r_ftl = f, r_srd = srd, r_xfer = 0, r_prev = cf_maptbl f ! (lpn div ?np), r_latest = t\<rparr>"
  have "\<exists>r1. foldM (read_lpn ?np) (lpns_from lpn ?np lst) ?r = Some r1 \<and> read_inv f t r1"
  proof (rule foldM_invariant[where P = "\<lambda>_. read_inv f t"])
    show "read_inv f t ?r" using c conv_inv_ssd[OF f(2)] by (simp add: read_inv_def)
    fix k r assume "k < length (lpns_from lpn ?np lst)" and r: "read_inv f t r"
    then have "lpns_from lpn ?np lst ! k \<le> lst" using lpns_from_le[OF l] nth_mem by blast
    then show "\<exists>r'. read_lpn ?np (lpns_from lpn ?np lst ! k) r = Some r' \<and> read_inv f t r'"
      using read_lpn_ok[OF r len in_tbl] by simp
  qed
  then obtain r1 where r1: "foldM (read_lpn ?np) (lpns_from lpn ?np lst) ?r = Some r1" "read_inv f t r1" by blast
  obtain r2 where r2: "issue_read r1 = Some r2" "read_inv f t r2" using issue_read_ok[OF r1(2)] by blast
  have r2': "same_tr f (r_ftl r2)" "ssd_ok (cf_ssd (r_ftl r2))" "nc_cmd (r_srd r2) = NAND_READ" "t \<le> r_latest r2"
    "ssd_write_buffer (cf_ssd (r_ftl r2)) = ssd_write_buffer (cf_ssd f)"
    using r2(2) by (auto simp: read_inv_def)
  note p = put_same[OF ns i f(1) r2'(1,2,5)]
  show ?thesis using f(1) get r1(1) r2(1) r2'(3,4) p by (simp add: read_part_def)
qed

lemma same_ns_range:
  assumes "same_ns ns ns'" "ns_inv N ns" "ns_inv N ns'"
  shows "cn_nr_parts ns' = cn_nr_parts ns" "tt_pgs (ns_spp ns') = tt_pgs (ns_spp ns)"
  using same_ns_mapped(2)[OF assms] assms(1) by (auto simp: same_ns_def)

lemma read_loop_ok:
  assumes "ns_inv N ns" "nc_cmd srd = NAND_READ" "\<forall>lpn\<in>set lpns. lpn \<le> lst"
    "lst div cn_nr_parts ns < tt_pgs (ns_spp ns)"
  shows "\<exists>ns' srd' t'. foldM (read_part lst) lpns (ns, srd, t) = Some (ns', srd', t') \<and> ns_inv N ns' \<and> same_ns ns ns' \<and>
    t \<le> t' \<and> cn_queueing_wait ns' = cn_queueing_wait ns"
  using assms
proof (induction lpns arbitrary: ns srd t)
  case (Cons lpn lpns)
  obtain ns1 srd1 t1 where 1: "read_part lst lpn (ns, srd, t) = Some (ns1, srd1, t1)" "ns_inv N ns1" "same_ns ns ns1"
    "nc_cmd srd1 = NAND_READ" "t \<le> t1" "cn_queueing_wait ns1 = cn_queueing_wait ns"
    using read_part_ok[OF Cons.prems(1,2) _ Cons.prems(4), of lpn t] Cons.prems(3) by auto
  obtain ns2 srd2 t2 where 2: "foldM (read_part lst) lpns (ns1, srd1, t1) = Some (ns2, srd2, t2)" "ns_inv N ns2"
    "same_ns ns1 ns2" "t1 \<le> t2" "cn_queueing_wait ns2 = cn_queueing_wait ns1"
    using Cons.IH[OF 1(2,4), of t1] Cons.prems(3,4) same_ns_range[OF 1(3) Cons.prems(1) 1(2)] by auto
  then show ?case using 1 same_ns_trans[OF 1(3) 2(3)] by (auto intro: order_trans)
qed simp

lemma clear_first_io_ok:
  assumes "ns_inv N ns"
  shows "ns_inv N (ns\<lparr>cn_ftls := map clear_first_io (cn_ftls ns)\<rparr>)"
    "same_ns ns (ns\<lparr>cn_ftls := map clear_first_io (cn_ftls ns)\<rparr>)"
proof -
  let ?ns = "ns\<lparr>cn_ftls := map clear_first_io (cn_ftls ns)\<rparr>"
  have len: "length (cn_ftls ns) = cn_nr_parts ns" "0 < cn_nr_parts ns" "secs_per_pg (ns_spp ns) \<noteq> 0"
    using assms by (auto simp: ns_inv_def)
  have tr: "same_tr f (clear_first_io f)" for f by (simp add: clear_first_io_def same_tr_def)
  have ok: "ssd_ok (cf_ssd (clear_first_io f))" if "conv_inv f" for f
    using conv_inv_ssd[OF that] by (simp add: clear_first_io_def ssd_ok_def)
  have "cn_ftls ns \<noteq> []" using len by auto
  then have zero: "map clear_first_io (cn_ftls ns) ! 0 = clear_first_io (cn_ftls ns ! 0)" by simp
  have sp: "ns_spp ?ns = ns_spp ns" using tr zero by (simp add: ns_spp_def same_tr_def)
  have "conv_inv (clear_first_io f) \<and> flow_ok N (clear_first_io f) \<and> cf_sp (clear_first_io f) = ns_spp ns"
    if "f \<in> set (cn_ftls ns)" for f
  proof -
    have f: "conv_inv f" "flow_ok N f" "cf_sp f = ns_spp ns" using assms that by (auto simp: ns_inv_def)
    then show ?thesis using same_tr_inv[OF tr f(1) ok[OF f(1)]] by simp
  qed
  then show "ns_inv N ?ns" using len sp by (simp add: ns_inv_def)
  show "same_ns ns ?ns" using tr zero by (simp add: same_ns_def ns_wbuf_def) (simp add: clear_first_io_def)
qed

lemma conv_read_ok:
  assumes ns: "ns_inv N ns"
  shows "\<exists>ns' r. conv_read ns rq = Some (ns', r) \<and> ns_inv N ns' \<and> same_ns ns ns' \<and>
    (if end_lpn (secs_per_pg (ns_spp ns)) (rq_cmd rq) div cn_nr_parts ns \<ge> tt_pgs (ns_spp ns) then r = None
     else (\<exists>t. r = Some \<lparr>rs_status = NVME_SC_SUCCESS, rs_nsecs_target = t\<rparr> \<and> rq_nsecs_start rq \<le> t))"
proof -
  let ?c = "rq_cmd rq" and ?np = "cn_nr_parts ns" and ?spp = "ns_spp ns"
  let ?first = "start_lpn (secs_per_pg ?spp) ?c" and ?last = "end_lpn (secs_per_pg ?spp) ?c"
  let ?ns = "ns\<lparr>cn_ftls := map clear_first_io (cn_ftls ns)\<rparr>"
  have np: "0 < ?np" "secs_per_pg ?spp \<noteq> 0" using ns by (auto simp: ns_inv_def)
  obtain f0 where f0: "get_ftl ns 0 = Some f0" "cf_sp f0 = ?spp" using get_ftl_ok[OF ns np(1)] by blast
  note c = clear_first_io_ok[OF ns]
  show ?thesis
  proof (cases "?last div ?np \<ge> tt_pgs ?spp")
    case True
    then show ?thesis using f0 np c by (simp add: conv_read_def Let_def)
  next
    case False
    then have rng: "?last div cn_nr_parts ?ns < tt_pgs (ns_spp ?ns)" using same_ns_mapped(2)[OF c(2) ns c(1)] by simp
    obtain ns1 srd t where 1: "foldM (read_part ?last) [?first..<min (?first + ?np) (Suc ?last)]
        (?ns, read_cmd ?spp ?np rq, rq_nsecs_start rq) = Some (ns1, srd, t)" "ns_inv N ns1" "same_ns ?ns ns1"
      "rq_nsecs_start rq \<le> t"
      using read_loop_ok[OF c(1) _ _ rng, of "read_cmd ?spp ?np rq" "[?first..<min (?first + ?np) (Suc ?last)]" "rq_nsecs_start rq"]
      by (auto simp: read_cmd_def)
    let ?ns2 = "ns1\<lparr>cn_queueing_wait := cn_queueing_wait ns1 + of_int (nc_arrive_time srd)\<rparr>"
    have "conv_read ns rq = Some (?ns2, Some \<lparr>rs_status = NVME_SC_SUCCESS, rs_nsecs_target = t\<rparr>)"
      using f0 np False 1(1) by (simp add: conv_read_def Let_def)
    moreover have "ns_inv N ?ns2" "same_ns ns ?ns2" using 1(2) same_ns_trans[OF c(2) 1(3)] by simp_all
    ultimately show ?thesis using False 1(4) by auto
  qed
qed

lemma conv_flush_ok:
  assumes ns: "ns_inv N ns"
  shows "\<exists>ns' t. conv_flush now ns = Some (ns', \<lparr>rs_status = NVME_SC_SUCCESS, rs_nsecs_target = t\<rparr>) \<and>
    ns_inv N ns' \<and> same_ns ns ns' \<and> now \<le> t"
proof -
  let ?step = "\<lambda>i (ns, latest). do { f \<leftarrow> get_ftl ns i; let (s, t) = ssd_next_idle_time (cf_ssd f);
    Some (put_ftl ns i (f\<lparr>cf_ssd := s\<rparr>), max latest t) }"
  have "\<exists>r. foldM ?step [0..<cn_nr_parts ns] (ns, now) = Some r \<and>
    (ns_inv N (fst r) \<and> same_ns ns (fst r) \<and> now \<le> snd r)"
  proof (rule foldM_invariant[where P = "\<lambda>_ r. ns_inv N (fst r) \<and> same_ns ns (fst r) \<and> now \<le> snd r"])
    fix k r assume k: "k < length [0..<cn_nr_parts ns]" and r: "ns_inv N (fst r) \<and> same_ns ns (fst r) \<and> now \<le> snd r"
    obtain m t where rr: "r = (m, t)" by (cases r)
    have km: "k < cn_nr_parts m" using k r rr by (simp add: same_ns_def)
    obtain f where f: "get_ftl m k = Some f" "conv_inv f" using get_ftl_ok[OF _ km] r rr by auto
    obtain s u where s: "ssd_next_idle_time (cf_ssd f) = (s, u)" by (cases "ssd_next_idle_time (cf_ssd f)")
    have s': "s = fst (get_ioclock (cf_ssd f))" using s by (simp add: ssd_next_idle_time_def case_prod_unfold Let_def)
    have "ssd_ok s \<and> same_nand (cf_ssd f) s"
      using conv_inv_ssd[OF f(2)] unfolding s' by (simp add: get_ioclock_def ssd_ok_def same_nand_def)
    then have "ns_inv N (put_ftl m k (f\<lparr>cf_ssd := s\<rparr>))" "same_ns m (put_ftl m k (f\<lparr>cf_ssd := s\<rparr>))"
      using put_same[OF _ km f(1), of N "f\<lparr>cf_ssd := s\<rparr>"] r rr same_tr_ssd[of s f] by (auto simp: same_nand_def)
    then show "\<exists>r'. ?step ([0..<cn_nr_parts ns] ! k) r = Some r' \<and>
        ns_inv N (fst r') \<and> same_ns ns (fst r') \<and> now \<le> snd r'"
      using f s k r same_ns_trans[of ns m] unfolding rr by (simp add: le_max_iff_disj)
  qed (use ns in simp)
  then show ?thesis by (auto simp: conv_flush_def)
qed

end
