(* ===== verification/Conv_Device.thy ===== *)
theory Conv_Device
  imports Conv_Ns_Proof
begin

text \<open>
  The page-mapped drive as it is configured: the geometry that \<^verbatim>\<open>ssd_init_params\<close> computes from
  \<^verbatim>\<open>load_conv_configs\<close> satisfies what the translation layer needs, the spare area is large enough
  for garbage collection, and a drive fresh from \<^verbatim>\<open>conv_init_namespace\<close> serves every sequence of
  commands within its advertised size.
\<close>

section \<open>Geometry\<close>

lemma div_round_up_bounds:
  assumes "0 < d"
  shows "n \<le> DIV_ROUND_UP n d * d" "DIV_ROUND_UP n d * d < n + d" "0 < n \<Longrightarrow> 0 < DIV_ROUND_UP n d"
proof -
  have e: "(n + d - 1) div d * d + (n + d - 1) mod d = n + d - 1" by (rule div_mult_mod_eq)
  have m: "(n + d - 1) mod d < d" using assms by simp
  show "n \<le> DIV_ROUND_UP n d * d" "DIV_ROUND_UP n d * d < n + d"
    using e m assms unfolding DIV_ROUND_UP_def by linarith+
  assume "0 < n"
  then show "0 < DIV_ROUND_UP n d" using assms unfolding DIV_ROUND_UP_def by (simp add: div_greater_zero_iff)
qed

lemma conv_cfg_fields:
  assumes "load_conv_configs c = Some cfg"
  shows "SSD_PARTITIONS cfg = 4" "NAND_CHANNELS cfg = 8" "LUNS_PER_NAND_CH cfg = 2" "PLNS_PER_LUN cfg = 1"
    "FLASH_PAGE_SIZE cfg = 32768" "ONESHOT_PAGE_SIZE cfg = 32768" "BLKS_PER_PLN cfg = 8192"
    "CELL_MODE cfg = CELL_MODE_MLC" "MAX_CH_XFER_SIZE cfg = 16384" "NAND_CHANNEL_BANDWIDTH cfg = 800"
    "PCIE_BANDWIDTH cfg = 3360"
  using assms by (auto simp: load_conv_configs_def Let_def)

lemma conv_params_fields:
  assumes "load_conv_configs c = Some cfg"
  shows "\<exists>spp. ssd_init_params cap (SSD_PARTITIONS cfg) cfg = Some spp \<and>
    (let n = DIV_ROUND_UP (DIV_ROUND_UP (cap div 4) 32768) 32768 in
     nchs spp = 2 \<and> luns_per_ch spp = 2 \<and> pls_per_lun spp = 1 \<and> blks_per_pl spp = 8192 \<and>
     pgs_per_oneshotpg spp = 8 \<and> pgs_per_flashpg spp = 8 \<and> pgs_per_blk spp = 8 * n \<and>
     oneshotpgs_per_blk spp = n \<and> flashpgs_per_blk spp = n \<and> pgsz spp = 4096 \<and> secs_per_pg spp = 8 \<and>
     pgs_per_line spp = 4 * (8 * n) \<and> tt_lines spp = 8192 \<and> pgs_per_pl spp = 8 * n * 8192 \<and>
     pgs_per_lun spp = 8 * n * 8192 \<and> pgs_per_ch spp = 8 * n * 8192 * 2 \<and> tt_pgs spp = 8 * n * 8192 * 2 * 2 \<and>
     cell_mode spp = CELL_MODE_MLC \<and> ch_bandwidth spp = 800 \<and> pcie_bandwidth spp = 3360 \<and>
     length (pg_4kb_rd_lat spp) = 3 \<and> length (pg_rd_lat spp) = 3 \<and> max_ch_xfer_size spp = 16384)"
  by (simp add: ssd_init_params_def conv_cfg_fields[OF assms] Let_def)

text \<open>Capacities up to 32 TiB fit the 16-bit page field of a physical address.\<close>

lemma conv_params_ok:
  assumes cfg: "load_conv_configs c = Some cfg" and cap: "4 \<le> cap" "cap \<le> 2 ^ 45"
  shows "\<exists>spp. ssd_init_params cap (SSD_PARTITIONS cfg) cfg = Some spp \<and> geo_ok spp \<and> timing_params_ok spp \<and>
    ch_bandwidth spp = 800 \<and> pcie_bandwidth spp = 3360 \<and> secs_per_pg spp = 8 \<and> tt_lines spp = 8192 \<and>
    tt_pgs spp = 8192 * pgs_per_line spp \<and> cap \<le> 16384 * tt_pgs spp + 3 \<and> 32 \<le> pgs_per_line spp"
proof -
  let ?cap = "cap div 4"
  let ?bs = "DIV_ROUND_UP ?cap 32768"
  define n where "n = DIV_ROUND_UP ?bs 32768"
  have cp: "0 < ?cap" "?cap \<le> 2 ^ 43" using cap by auto
  have bs: "0 < ?bs" "?cap \<le> ?bs * 32768" "?bs \<le> 2 ^ 28"
    using div_round_up_bounds[of 32768 ?cap] cp by auto
  have n: "0 < n" "?bs \<le> n * 32768" "n \<le> 8192"
    using div_round_up_bounds[of 32768 ?bs] bs by (auto simp: n_def)
  have "cap \<le> 4 * ?cap + 3" by simp
  also have "\<dots> \<le> 4 * (n * 32768 * 32768) + 3" using bs(2) n(2) by linarith
  finally have room: "cap \<le> 4 * (n * 32768 * 32768) + 3" .
  obtain spp where spp: "ssd_init_params cap (SSD_PARTITIONS cfg) cfg = Some spp"
    and f: "nchs spp = 2" "luns_per_ch spp = 2" "pls_per_lun spp = 1" "blks_per_pl spp = 8192"
    "pgs_per_oneshotpg spp = 8" "pgs_per_flashpg spp = 8" "pgs_per_blk spp = 8 * n"
    "oneshotpgs_per_blk spp = n" "flashpgs_per_blk spp = n" "pgsz spp = 4096" "secs_per_pg spp = 8"
    "pgs_per_line spp = 4 * (8 * n)" "tt_lines spp = 8192" "pgs_per_pl spp = 8 * n * 8192" "pgs_per_lun spp = 8 * n * 8192"
    "pgs_per_ch spp = 8 * n * 8192 * 2" "tt_pgs spp = 8 * n * 8192 * 2 * 2" "cell_mode spp = CELL_MODE_MLC"
    "ch_bandwidth spp = 800" "pcie_bandwidth spp = 3360" "length (pg_4kb_rd_lat spp) = 3" "length (pg_rd_lat spp) = 3"
    "max_ch_xfer_size spp = 16384"
    using conv_params_fields[OF cfg, of cap, folded n_def, unfolded Let_def] by blast
  have "geo_ok spp" unfolding geo_ok_def using f n by simp
  moreover have "timing_params_ok spp" using f by (simp add: timing_params_ok_def)
  moreover have "cap \<le> 16384 * tt_pgs spp + 3" using room f(17) by simp
  ultimately show ?thesis using spp f n by simp
qed

section \<open>A fresh namespace\<close>

definition host_pages :: "conv_ns \<Rightarrow> nat" where
  "host_pages ns = cn_size ns div (4096 * cn_nr_parts ns) + 1"

lemma spare_area:
  fixes T P cap :: nat
  assumes "T = 8192 * P" "32 \<le> P" "cap \<le> 16384 * T + 3"
  shows "cap * 100 div 107 div 16384 + 1 + 4 * P < T"
proof -
  define q where "q = cap * 100 div 107"
  define m where "m = q div 16384"
  have "107 * q \<le> cap * 100" unfolding q_def by (rule times_div_less_eq_dividend)
  moreover have "16384 * m \<le> q" unfolding m_def by (rule times_div_less_eq_dividend)
  ultimately have "m + 1 + 4 * P < T" using assms by linarith
  then show ?thesis by (simp add: m_def q_def)
qed

lemma conv_new_part_ok:
  assumes g: "geo_ok spp" and t: "timing_params_ok spp" and b: "ch_bandwidth spp = 800" "pcie_bandwidth spp = 3360"
    and n: "2 \<le> tt_lines spp" and mem: "length mem = tt_lines spp + 1" and N: "N + 4 * pgs_per_line spp < tt_pgs spp"
  shows "\<exists>f'. conv_new_part spp junk clock (Some mem, f) = Some f' \<and> conv_inv f' \<and> flow_ok N f' \<and> cf_sp f' = spp \<and>
    mapped f' = {} \<and> ssd_write_buffer (cf_ssd f') = buffer_init (write_buffer_size spp)"
proof -
  obtain s where s: "ssd_init spp junk clock = Some s" "ssd_ok s" "ssd_sp s = spp"
    "ssd_blk s = (\<lambda>_. ssd_init_nand_blk spp)" "ssd_write_buffer s = buffer_init (write_buffer_size spp)"
    using ssd_init_ok[OF t, of junk clock] b by auto
  let ?c = "replicate (nchs spp * luns_per_ch spp) 0" and ?s = "s\<lparr>ssd_checking := False\<rparr>"
  obtain f1 where f1: "conv_init_ftl (Some mem) f conv_init_params s = Some f1" "cf_ssd f1 = s" "cf_cp f1 = conv_init_params"
    "write_credits (cf_wfc f1) = pgs_per_line spp" "credits_to_refill (cf_wfc f1) = pgs_per_line spp"
    "mapped f1 = {}" "free_set f1 = all_pages spp" "conv_inv (f1\<lparr>cf_page_counter := ?c\<rparr>)"
    using conv_init_ftl_ok[of s mem f conv_init_params] g s n mem by auto
  let ?f = "f1\<lparr>cf_page_counter := ?c, cf_ssd := ?s\<rparr>"
  have run: "conv_new_part spp junk clock (Some mem, f) = Some ?f" using s(1) f1(1) by (simp add: conv_new_part_def)
  have "ssd_ok ?s" using s(2) by (simp add: ssd_ok_def)
  then have inv: "conv_inv ?f" using set_ssd_inv(1)[OF f1(8), of ?s] f1(2) by simp
  have sets: "mapped ?f = {}" "free_set ?f = all_pages (cf_sp ?f)" "cf_sp ?f = spp"
    using f1(2,6,7) s(3) by (simp_all add: mapped_def free_set_def)
  have "flow_ok N ?f"
    using g N f1(3-5) sets by (intro fresh_flow_ok) (simp_all add: conv_init_params_def)
  then show ?thesis using run inv sets s(5) by simp
qed

lemma those_map:
  assumes "\<And>x. x \<in> set xs \<Longrightarrow> \<exists>y. g x = Some y \<and> P y"
  shows "\<exists>ys. those (map g xs) = Some ys \<and> length ys = length xs \<and> (\<forall>y\<in>set ys. P y)"
  using assms
proof (induction xs)
  case (Cons x xs)
  obtain y where "g x = Some y" "P y" using Cons.prems[of x] by auto
  moreover obtain ys where "those (map g xs) = Some ys" "length ys = length xs" "\<forall>y\<in>set ys. P y"
    using Cons.IH Cons.prems by (auto simp del: those.simps)
  ultimately show ?case by simp
qed simp

text \<open>What the allocator owes: one queue array per partition, of the size asked for.\<close>

definition allocated :: "(nat list option \<times> conv_ftl) list \<Rightarrow> bool" where
  "allocated raw \<longleftrightarrow> length raw = 4 \<and> (\<forall>r\<in>set raw. \<exists>mem f. r = (Some mem, f) \<and> length mem = 8193)"

lemma conv_init_namespace_ok:
  assumes cfg: "load_conv_configs c = Some cfg" and cap: "4 \<le> cap" "cap \<le> 2 ^ 45" and raw: "allocated raw"
  shows "\<exists>ns. conv_init_namespace cfg cap junk clock raw stats wait = Some ns \<and> ns_inv (host_pages ns) ns \<and>
    ns_mapped ns = {} \<and> cn_nr_parts ns = 4 \<and> cn_size ns = cap * 100 div 107 \<and> secs_per_pg (ns_spp ns) = 8 \<and>
    host_pages ns \<le> tt_pgs (ns_spp ns)"
proof -
  obtain spp where spp: "ssd_init_params cap (SSD_PARTITIONS cfg) cfg = Some spp" "geo_ok spp" "timing_params_ok spp"
    "ch_bandwidth spp = 800" "pcie_bandwidth spp = 3360" "secs_per_pg spp = 8" "tt_lines spp = 8192"
    "tt_pgs spp = 8192 * pgs_per_line spp" "cap \<le> 16384 * tt_pgs spp + 3" "32 \<le> pgs_per_line spp"
    using conv_params_ok[OF cfg cap] by blast
  define N where "N = cap * 100 div 107 div 16384 + 1"
  have N: "N + 4 * pgs_per_line spp < tt_pgs spp" unfolding N_def by (rule spare_area[OF spp(8,10,9)])
  let ?P = "\<lambda>f'. conv_inv f' \<and> flow_ok N f' \<and> cf_sp f' = spp \<and> mapped f' = {}"
  have "\<exists>f'. conv_new_part spp junk clock r = Some f' \<and> ?P f'" if "r \<in> set raw" for r
    using conv_new_part_ok[OF spp(2-5) _ _ N] raw that spp(7) unfolding allocated_def by fastforce
  then obtain fs where fs: "those (map (conv_new_part spp junk clock) raw) = Some fs" "length fs = 4" "\<forall>f\<in>set fs. ?P f"
    using those_map[of raw "conv_new_part spp junk clock" ?P] raw by (auto simp: allocated_def)
  have pba: "pba_pcent conv_init_params = 107" by (simp add: conv_init_params_def)
  let ?ns = "\<lparr>cn_nr_parts = 4, cn_ftls = fs, cn_size = cap * 100 div 107, cn_stats = stats, cn_queueing_wait = wait\<rparr>"
  have run: "conv_init_namespace cfg cap junk clock raw stats wait = Some ?ns"
    using spp(1) fs(1) raw pba conv_cfg_fields(1)[OF cfg] by (simp add: conv_init_namespace_def allocated_def)
  have hp: "host_pages ?ns = N" by (simp add: host_pages_def N_def)
  have each: "?P (fs ! i)" if "i < 4" for i using fs(2,3) that by simp
  have "fs ! 0 \<in> set fs" using fs(2) by (intro nth_mem) simp
  then have sp: "ns_spp ?ns = spp" using fs(3) by (simp add: ns_spp_def)
  have "ns_inv N ?ns" using fs(2,3) sp spp(6) by (simp add: ns_inv_def)
  moreover have "ns_mapped ?ns = {}" using each by (simp add: ns_mapped_def)
  ultimately show ?thesis using run hp sp spp(6) N by simp
qed

section \<open>Commands a host may send\<close>

definition legal :: "conv_ns \<Rightarrow> nvme_command \<Rightarrow> bool" where
  "legal ns c \<longleftrightarrow> (unat (c_slba c) + nr_lba c) * 512 \<le> cn_size ns \<and> c_length c < 65536"

lemma legal_range:
  assumes l: "legal ns c" and sz: "cn_size ns < 2 ^ 64" and spp: "secs_per_pg (ns_spp ns) = 8" "cn_nr_parts ns = 4"
  shows "in_range ns (host_pages ns) c" "start_lpn 8 c \<le> end_lpn 8 c" "cmd_bytes c < 2 ^ 32"
proof -
  have s: "(unat (c_slba c) + (c_length c + 1)) * 512 \<le> cn_size ns" using l by (simp add: legal_def nr_lba_def)
  then have "unat (c_slba c) + nr_lba c < 2 ^ 64" using sz by (simp add: nr_lba_def)
  note e = end_lpn_ge[OF this, of 8]
  show "start_lpn 8 c \<le> end_lpn 8 c" by (rule e(1))
  show "cmd_bytes c < 2 ^ 32" using l by (simp add: legal_def LBA_TO_BYTE_def nr_lba_def)
  have "lpn div 4 < cn_size ns div 16384 + 1" if "lpn \<le> (unat (c_slba c) + c_length c) div 8" for lpn
  proof -
    define k where "k = unat (c_slba c) + c_length c"
    have "lpn div 4 \<le> k div 8 div 4" using that by (intro div_le_mono) (simp add: k_def)
    moreover have "k div 8 div 4 = k * 512 div 16384" by (simp add: div_mult2_eq[symmetric])
    moreover have "k * 512 div 16384 \<le> cn_size ns div 16384" using s by (intro div_le_mono) (simp add: k_def)
    ultimately show ?thesis by simp
  qed
  then show "in_range ns (host_pages ns) c"
    using spp e(2) by (simp add: in_range_def host_pages_def)
qed

text \<open>The drive as the dispatcher and the I/O workers drive it: commands, and releases of write buffer space
  by \<^verbatim>\<open>io_worker\<close>.\<close>

datatype drive_event = Host_command u64 nvmev_request nvmev_result | Buffer_released nat

definition release_wbuf :: "nat \<Rightarrow> conv_ns \<Rightarrow> conv_ns option" where
  "release_wbuf n ns = do {
     f \<leftarrow> get_ftl ns 0;
     Some (put_ftl ns 0 (f\<lparr>cf_ssd := (cf_ssd f)\<lparr>ssd_write_buffer := buffer_release (ssd_write_buffer (cf_ssd f)) n\<rparr>\<rparr>))
   }"

fun on_event :: "drive_event \<Rightarrow> conv_ns \<Rightarrow> conv_ns option" where
  "on_event (Host_command now rq ret) ns =
    (case conv_proc_nvme_io_cmd now ns rq ret of None \<Rightarrow> None | Some (ns', _) \<Rightarrow> Some ns')"
| "on_event (Buffer_released n) ns = release_wbuf n ns"

fun event_legal :: "conv_ns \<Rightarrow> drive_event \<Rightarrow> bool" where
  "event_legal ns (Host_command now rq ret) = legal ns (rq_cmd rq)"
| "event_legal ns (Buffer_released n) = True"

definition drive_ok :: "conv_ns \<Rightarrow> bool" where
  "drive_ok ns \<longleftrightarrow> ns_inv (host_pages ns) ns \<and> cn_nr_parts ns = 4 \<and> cn_size ns < 2 ^ 64 \<and>
     secs_per_pg (ns_spp ns) = 8 \<and> host_pages ns \<le> tt_pgs (ns_spp ns)"

definition mapped_by :: "conv_ns \<Rightarrow> drive_event \<Rightarrow> nat set" where
  "mapped_by ns e = (case e of Host_command now rq ret \<Rightarrow>
     if c_opcode (rq_cmd rq) = nvme_cmd_write then cmd_lpns ns (rq_cmd rq) else {} | Buffer_released n \<Rightarrow> {})"

lemma on_event_ok:
  assumes ok: "drive_ok ns" and e: "event_legal ns e"
  shows "\<exists>ns'. on_event e ns = Some ns' \<and> drive_ok ns' \<and> cn_size ns' = cn_size ns \<and>
    ns_mapped ns \<subseteq> ns_mapped ns' \<and> ns_mapped ns' \<subseteq> ns_mapped ns \<union> mapped_by ns e"
proof -
  let ?N = "host_pages ns"
  have ns: "ns_inv ?N ns" "cn_nr_parts ns = 4" "cn_size ns < 2 ^ 64" "secs_per_pg (ns_spp ns) = 8"
    "?N \<le> tt_pgs (ns_spp ns)" using ok by (auto simp: drive_ok_def)
  have keep: "drive_ok ns'" if "ns_inv ?N ns'" "cn_nr_parts ns' = cn_nr_parts ns" "cn_size ns' = cn_size ns"
    "ns_spp ns' = ns_spp ns" for ns'
    using that ns by (simp add: drive_ok_def host_pages_def)
  have same: "\<exists>ns''. Some ns' = Some ns'' \<and> drive_ok ns'' \<and> cn_size ns'' = cn_size ns \<and> ns_mapped ns \<subseteq> ns_mapped ns'' \<and>
      ns_mapped ns'' \<subseteq> ns_mapped ns \<union> mapped_by ns e" if "ns_inv ?N ns'" "same_ns ns ns'" for ns'
    using keep[OF that(1)] same_ns_mapped[OF that(2) ns(1) that(1)] that(2) by (auto simp: same_ns_def)
  show ?thesis
  proof (cases e)
    case (Host_command now rq ret)
    note r = legal_range[OF _ ns(3,4,2), of "rq_cmd rq"]
    have r: "in_range ns ?N (rq_cmd rq)" "start_lpn 8 (rq_cmd rq) \<le> end_lpn 8 (rq_cmd rq)" "cmd_bytes (rq_cmd rq) < 2 ^ 32"
      using r e Host_command by auto
    obtain nw rw ow where w: "conv_write ns rq = Some (nw, rw, ow)" "ns_inv ?N nw" "cn_nr_parts nw = cn_nr_parts ns"
      "cn_size nw = cn_size ns" "ns_spp nw = ns_spp ns"
      "ns_mapped nw = ns_mapped ns \<or> ns_mapped nw = cmd_lpns ns (rq_cmd rq) \<union> ns_mapped ns"
      using conv_write_ok[OF ns(1) r(1) ns(5)] r(2,3) ns(4) by (auto split: if_splits)
    obtain nr rr where rd: "conv_read ns rq = Some (nr, rr)" "ns_inv ?N nr" "same_ns ns nr"
      using conv_read_ok[OF ns(1)] by blast
    obtain nf tf where fl: "conv_flush now ns = Some (nf, \<lparr>rs_status = NVME_SC_SUCCESS, rs_nsecs_target = tf\<rparr>)"
      "ns_inv ?N nf" "same_ns ns nf" using conv_flush_ok[OF ns(1)] by blast
    consider (is_write) "c_opcode (rq_cmd rq) = nvme_cmd_write" | (is_read) "c_opcode (rq_cmd rq) = nvme_cmd_read"
      | (is_flush) "c_opcode (rq_cmd rq) = nvme_cmd_flush"
      | (other) "c_opcode (rq_cmd rq) \<notin> {nvme_cmd_write, nvme_cmd_read, nvme_cmd_flush}" by blast
    then show ?thesis
    proof cases
      case is_write
      have "on_event e ns = Some nw" using Host_command is_write w(1) by (simp add: conv_proc_nvme_io_cmd_def split: option.split)
      then show ?thesis using keep[OF w(2-5)] w(4,6) Host_command is_write by (auto simp: mapped_by_def)
    next
      case is_read
      have "on_event e ns = Some nr"
        using Host_command is_read rd(1)
        by (simp add: conv_proc_nvme_io_cmd_def nvme_cmd_read_def nvme_cmd_write_def split: option.split)
      then show ?thesis using same[OF rd(2,3)] by simp
    next
      case is_flush
      have "on_event e ns = Some nf"
        using Host_command is_flush fl(1) by (simp add: conv_proc_nvme_io_cmd_def nvme_cmd_read_def nvme_cmd_write_def nvme_cmd_flush_def)
      then show ?thesis using same[OF fl(2,3)] by simp
    next
      case other
      have "on_event e ns = Some ns" using Host_command other by (simp add: conv_proc_nvme_io_cmd_def)
      then show ?thesis using same[OF ns(1) same_ns_refl] by simp
    qed
  next
    case (Buffer_released n)
    obtain f where f: "get_ftl ns 0 = Some f" using get_ftl_ok[OF ns(1), of 0] ns(2) by auto
    note ws = write_start_ok[OF ns(1) f refl, of "buffer_release (ssd_write_buffer (cf_ssd f)) n"]
    show ?thesis using Buffer_released f ws keep[OF ws(1)] by (simp add: release_wbuf_def)
  qed
qed

end
