(* ===== verification/Samples.thy ===== *)
theory Samples
  imports Nvmev
begin

text \<open>
  Concrete inputs that the examples of several components share: a configuration before it is loaded, and requests.
\<close>

definition blank_cfg :: ftl_configs where
  "blank_cfg = \<lparr>cfg_max_con = 0, NS_SSD_TYPE = SSD_TYPE_CONV, MDTS = 0, CELL_MODE = 0, SSD_PARTITIONS = 0,
     NAND_CHANNELS = 0, LUNS_PER_NAND_CH = 0, PLNS_PER_LUN = 0, FLASH_PAGE_SIZE = 0, ONESHOT_PAGE_SIZE = 0,
     BLKS_PER_PLN = 0, BLK_SIZE = 0, MAX_CH_XFER_SIZE = 0, WRITE_UNIT_SIZE = 0, NAND_CHANNEL_BANDWIDTH = 0,
     PCIE_BANDWIDTH = 0, NAND_4KB_READ_LATENCY_LSB = 0, NAND_4KB_READ_LATENCY_MSB = 0,
     NAND_4KB_READ_LATENCY_CSB = 0, NAND_READ_LATENCY_LSB = 0, NAND_READ_LATENCY_MSB = 0,
     NAND_READ_LATENCY_CSB = 0, NAND_PROG_LATENCY = 0, NAND_ERASE_LATENCY = 0, FW_4KB_READ_LATENCY = 0,
     FW_READ_LATENCY = 0, FW_WBUF_LATENCY0 = 0, FW_WBUF_LATENCY1 = 0, FW_CH_XFER_LATENCY = 0,
     OP_AREA_PERCENT = 0, GLOBAL_WB_SIZE = 0, WRITE_EARLY_COMPLETION = False, extra_cfgs = Extra_none\<rparr>"

definition rw_request :: "nat \<Rightarrow> u64 \<Rightarrow> nat \<Rightarrow> nvmev_request" where
  "rw_request opc lba len = \<lparr>rq_cmd = \<lparr>c_opcode = opc, c_command_id = 1, c_nsid = 1, c_prp1 = 0, c_prp2 = 0, c_slba = lba, c_length = len,
     c_control = 0, c_dsmgmt = 0\<rparr>,
     rq_sq_id = 1, rq_nsecs_start = 5000\<rparr>"

definition no_result :: nvmev_result where
  "no_result = \<lparr>rs_status = 0, rs_nsecs_target = 0\<rparr>"

text \<open>A zone management command: the action and its flags are in double word 13.\<close>

definition zone_request :: "nat \<Rightarrow> u64 \<Rightarrow> nat \<Rightarrow> nvmev_request" where
  "zone_request opc lba dw13 = \<lparr>rq_cmd = (rq_cmd (rw_request opc lba 0))\<lparr>c_dsmgmt := dw13\<rparr>, rq_sq_id = 1, rq_nsecs_start = 5000\<rparr>"

end
