(* ===== verification/Conv_Props.thy ===== *)
theory Conv_Props
  imports Conv_Device Samples
begin

text \<open>
  The properties of the page-mapped drive, with concrete inputs at which their hypotheses hold.  The
  blank values below stand for memory before initialisation.
\<close>

section \<open>Concrete inputs\<close>

definition conv_cfg :: ftl_configs where
  "conv_cfg = the (load_conv_configs blank_cfg)"

lemma conv_cfg_loaded: "load_conv_configs blank_cfg = Some conv_cfg"
  by (simp add: conv_cfg_def load_conv_configs_def Let_def blank_cfg_def)

definition blank_stats :: write_pattern_stats where
  "blank_stats = \<lparr>ws_prev_lpn = 0, ws_total_writes = 0, ws_sequential_writes = 0, ws_large_jump_writes = 0,
     ws_lpn_delta_sum = 0, ws_start = 1\<rparr>"

definition gib_spp :: ssdparams where
  "gib_spp = the (ssd_init_params (2 ^ 30) 4 conv_cfg)"

definition gib_ssd :: ssd where
  "gib_ssd = the (ssd_init gib_spp 0 (\<lambda>n. of_nat n * 1000))"

definition blank_ftl :: conv_ftl where
  "blank_ftl = \<lparr>cf_ssd = gib_ssd, cf_cp = conv_init_params, cf_maptbl = [], cf_rmap = [],
     cf_wp = \<lparr>wp_curline = 0, wp_ch = 0, wp_lun = 0, wp_pg = 0, wp_blk = 0, wp_pl = 0\<rparr>,
     cf_gc_wp = \<lparr>wp_curline = 0, wp_ch = 0, wp_lun = 0, wp_pg = 0, wp_blk = 0, wp_pl = 0\<rparr>,
     cf_lm = \<lparr>lm_lines = [], lm_free = [], lm_victim_pq = \<lparr>pq_size = 0, pq_avail = 0, pq_step = 0,
       pq_ops = victim_ops, pq_d = []\<rparr>, lm_full = [], lm_tt_lines = 0, lm_free_cnt = 0, lm_victim_cnt = 0,
       lm_full_cnt = 0\<rparr>,
     cf_wfc = \<lparr>write_credits = 0, credits_to_refill = 0\<rparr>, cf_page_counter = []\<rparr>"

definition gib_raw :: "(nat list option \<times> conv_ftl) list" where
  "gib_raw = replicate 4 (Some (replicate 8193 0), blank_ftl)"

definition gib_ns :: conv_ns where
  "gib_ns = the (conv_init_namespace conv_cfg (2 ^ 30) 0 (\<lambda>n. of_nat n * 1000) gib_raw blank_stats 0)"

definition gib_ftl :: conv_ftl where
  "gib_ftl = the (conv_new_part gib_spp 0 (\<lambda>n. of_nat n * 1000) (Some (replicate 8193 0), blank_ftl))"

lemma gib_allocated: "allocated gib_raw"
  by (auto simp: allocated_def gib_raw_def)

lemma gib_ns_ok:
  "conv_init_namespace conv_cfg (2 ^ 30) 0 (\<lambda>n. of_nat n * 1000) gib_raw blank_stats 0 = Some gib_ns"
  "drive_ok gib_ns" "ns_mapped gib_ns = {}" "cn_size gib_ns = 1003497031"
  using conv_init_namespace_ok[OF conv_cfg_loaded _ _ gib_allocated, of "2 ^ 30" 0 "\<lambda>n. of_nat n * 1000" blank_stats 0]
  by (auto simp: gib_ns_def drive_ok_def)

lemma gib_spp_ok:
  "ssd_init_params (2 ^ 30) (SSD_PARTITIONS conv_cfg) conv_cfg = Some gib_spp" "geo_ok gib_spp" "timing_params_ok gib_spp"
  "ch_bandwidth gib_spp = 800" "pcie_bandwidth gib_spp = 3360" "tt_lines gib_spp = 8192"
  "tt_pgs gib_spp = 8192 * pgs_per_line gib_spp" "32 \<le> pgs_per_line gib_spp"
  using conv_params_ok[OF conv_cfg_loaded, of "2 ^ 30"] conv_cfg_fields(1)[OF conv_cfg_loaded]
  by (auto simp: gib_spp_def)

lemma gib_ftl_ok: "conv_inv gib_ftl" "flow_ok 1000 gib_ftl" "mapped gib_ftl = {}" "cf_sp gib_ftl = gib_spp"
proof -
  have "1000 + 4 * pgs_per_line gib_spp < tt_pgs gib_spp" using gib_spp_ok(7,8) by simp
  then have "\<exists>f'. conv_new_part gib_spp 0 (\<lambda>n. of_nat n * 1000) (Some (replicate 8193 0), blank_ftl) = Some f' \<and>
      conv_inv f' \<and> flow_ok 1000 f' \<and> cf_sp f' = gib_spp \<and> mapped f' = {} \<and>
      ssd_write_buffer (cf_ssd f') = buffer_init (write_buffer_size gib_spp)"
    using gib_spp_ok(2-6) by (intro conv_new_part_ok) auto
  then show "conv_inv gib_ftl" "flow_ok 1000 gib_ftl" "mapped gib_ftl = {}" "cf_sp gib_ftl = gib_spp"
    by (auto simp: gib_ftl_def)
qed

section \<open>Properties\<close>

lemma run_events_ok:
  assumes "drive_ok ns" "\<forall>e\<in>set evs. event_legal ns e"
  shows "\<exists>ns'. foldM on_event evs ns = Some ns' \<and> drive_ok ns' \<and> cn_size ns' = cn_size ns \<and>
    ns_mapped ns \<subseteq> ns_mapped ns' \<and> ns_mapped ns' \<subseteq> ns_mapped ns \<union> (\<Union>e\<in>set evs. mapped_by ns e)"
  using assms
proof (induction evs arbitrary: ns)
  case (Cons e evs)
  obtain n1 where 1: "on_event e ns = Some n1" "drive_ok n1" "cn_size n1 = cn_size ns" "ns_mapped ns \<subseteq> ns_mapped n1"
    "ns_mapped n1 \<subseteq> ns_mapped ns \<union> mapped_by ns e"
    using on_event_ok[OF Cons.prems(1), of e] Cons.prems(2) by auto
  have "event_legal n1 x = event_legal ns x" for x using 1(3) by (cases x) (auto simp: legal_def)
  then obtain n2 where 2: "foldM on_event evs n1 = Some n2" "drive_ok n2" "cn_size n2 = cn_size n1" "ns_mapped n1 \<subseteq> ns_mapped n2"
    "ns_mapped n2 \<subseteq> ns_mapped n1 \<union> (\<Union>e\<in>set evs. mapped_by n1 e)"
    using Cons.IH[OF 1(2)] Cons.prems(2) by auto
  have "mapped_by n1 x = mapped_by ns x" for x
    using 1(2) Cons.prems(1) by (simp add: mapped_by_def drive_ok_def split: drive_event.split)
  then show ?case using 1 2 by auto
qed simp

text \<open>C1: A drive set up by \<^verbatim>\<open>conv_init_namespace\<close> with the configuration of \<^verbatim>\<open>load_conv_configs\<close>, on any capacity
  from 4 bytes to 32 TiB, serves every sequence of read, write, flush and unknown commands within its advertised size,
  interleaved with releases of write buffer space: no assertion fails, no array is left, garbage collection always
  finds room, and only pages that were written are mapped.\<close>

theorem conv_drive_never_crashes:
  assumes "load_conv_configs c = Some cfg" "4 \<le> cap" "cap \<le> 2 ^ 45" "allocated raw"
  shows "\<exists>ns. conv_init_namespace cfg cap junk clock raw stats wait = Some ns \<and>
    (\<forall>evs. (\<forall>e\<in>set evs. event_legal ns e) \<longrightarrow>
      (\<exists>ns'. foldM on_event evs ns = Some ns' \<and> drive_ok ns' \<and> ns_mapped ns' \<subseteq> (\<Union>e\<in>set evs. mapped_by ns e)))"
proof -
  obtain ns where ns: "conv_init_namespace cfg cap junk clock raw stats wait = Some ns" "ns_inv (host_pages ns) ns"
    "ns_mapped ns = {}" "cn_nr_parts ns = 4" "cn_size ns = cap * 100 div 107" "secs_per_pg (ns_spp ns) = 8"
    "host_pages ns \<le> tt_pgs (ns_spp ns)"
    using conv_init_namespace_ok[OF assms] by blast
  have "cap * 100 div 107 \<le> cap" by simp
  then have "drive_ok ns" using ns assms(3) by (simp add: drive_ok_def)
  then show ?thesis using run_events_ok[of ns] ns(1,3) by fastforce
qed

theorem conv_drive_never_crashes_witness:
  "\<exists>ns ns'. conv_init_namespace conv_cfg (2 ^ 30) 0 (\<lambda>n. of_nat n * 1000) gib_raw blank_stats 0 = Some ns \<and>
    foldM on_event [Host_command 9 (rw_request nvme_cmd_write 16 15) no_result, Buffer_released 4096,
      Host_command 9 (rw_request nvme_cmd_read 0 100) no_result, Host_command 9 (rw_request nvme_cmd_flush 0 0) no_result] ns = Some ns' \<and>
    drive_ok ns' \<and> ns_mapped ns' \<subseteq> {2..3}"
proof -
  let ?evs = "[Host_command 9 (rw_request nvme_cmd_write 16 15) no_result, Buffer_released 4096,
      Host_command 9 (rw_request nvme_cmd_read 0 100) no_result, Host_command 9 (rw_request nvme_cmd_flush 0 0) no_result]"
  have legal: "\<forall>e\<in>set ?evs. event_legal gib_ns e"
    by (simp add: legal_def rw_request_def nr_lba_def gib_ns_ok(4))
  have s8: "secs_per_pg (ns_spp gib_ns) = 8" using gib_ns_ok(2) by (simp add: drive_ok_def)
  have m: "(\<Union>e\<in>set ?evs. mapped_by gib_ns e) = {2..3}"
    by (simp add: mapped_by_def s8 rw_request_def start_lpn_def end_lpn_def nr_lba_def nvme_cmd_write_def
        nvme_cmd_read_def nvme_cmd_flush_def)
  have all: "\<forall>evs. (\<forall>e\<in>set evs. event_legal gib_ns e) \<longrightarrow> (\<exists>ns'. foldM on_event evs gib_ns = Some ns' \<and> drive_ok ns' \<and>
      ns_mapped ns' \<subseteq> (\<Union>e\<in>set evs. mapped_by gib_ns e))"
    using conv_drive_never_crashes[OF conv_cfg_loaded _ _ gib_allocated, of "2 ^ 30" 0 "\<lambda>n. of_nat n * 1000" blank_stats 0]
      gib_ns_ok(1) by auto
  obtain ns' where "foldM on_event ?evs gib_ns = Some ns'" "drive_ok ns'" "ns_mapped ns' \<subseteq> {2..3}"
    using mp[OF spec[OF all, of ?evs] legal] unfolding m by (elim exE conjE)
  then show ?thesis using gib_ns_ok(1) by (intro exI[of _ gib_ns] exI[of _ ns'] conjI)
qed

text \<open>C2: A write command of a legal range either finds too little space in the write buffer, and then returns false and
  changes neither the mapping nor the buffer, or succeeds, takes its bytes from the buffer and maps exactly the
  logical pages of its range in addition to those mapped before.\<close>

theorem conv_write_refines:
  assumes "drive_ok ns" "legal ns (rq_cmd rq)"
  shows "\<exists>ns' r ops. conv_write ns rq = Some (ns', r, ops) \<and> drive_ok ns' \<and>
    (if buf_remaining (ns_wbuf ns) < cmd_bytes (rq_cmd rq)
     then r = None \<and> ops = [] \<and> ns_mapped ns' = ns_mapped ns \<and> ns_wbuf ns' = ns_wbuf ns
     else (\<exists>t. r = Some \<lparr>rs_status = NVME_SC_SUCCESS, rs_nsecs_target = t\<rparr>) \<and>
       ns_mapped ns' = cmd_lpns ns (rq_cmd rq) \<union> ns_mapped ns \<and>
       buf_remaining (ns_wbuf ns') + cmd_bytes (rq_cmd rq) = buf_remaining (ns_wbuf ns))"
proof -
  have ns: "ns_inv (host_pages ns) ns" "cn_nr_parts ns = 4" "cn_size ns < 2 ^ 64" "secs_per_pg (ns_spp ns) = 8"
    "host_pages ns \<le> tt_pgs (ns_spp ns)" using assms(1) by (auto simp: drive_ok_def)
  note r = legal_range[OF assms(2) ns(3,4,2)]
  obtain ns' r ops where w: "conv_write ns rq = Some (ns', r, ops)" "ns_inv (host_pages ns) ns'"
    "cn_nr_parts ns' = cn_nr_parts ns" "cn_size ns' = cn_size ns" "ns_spp ns' = ns_spp ns"
    "if buf_remaining (ns_wbuf ns) < cmd_bytes (rq_cmd rq)
     then r = None \<and> ops = [] \<and> ns_mapped ns' = ns_mapped ns \<and> ns_wbuf ns' = ns_wbuf ns
     else (\<exists>t. r = Some \<lparr>rs_status = NVME_SC_SUCCESS, rs_nsecs_target = t\<rparr>) \<and>
       ns_mapped ns' = cmd_lpns ns (rq_cmd rq) \<union> ns_mapped ns \<and>
       buf_remaining (ns_wbuf ns') + cmd_bytes (rq_cmd rq) = buf_remaining (ns_wbuf ns)"
    using conv_write_ok[OF ns(1) r(1) ns(5) _ r(3)] r(2) ns(4) by fastforce
  have "drive_ok ns'" using w(2-5) ns by (simp add: drive_ok_def host_pages_def)
  then show ?thesis using w(1,6) by blast
qed

theorem conv_write_refines_witness:
  "\<exists>ns' r ops. conv_write gib_ns (rw_request nvme_cmd_write 16 15) = Some (ns', r, ops) \<and> drive_ok ns' \<and>
    (if buf_remaining (ns_wbuf gib_ns) < 8192 then ns_mapped ns' = {} else ns_mapped ns' = {2..3})"
proof -
  have s8: "secs_per_pg (ns_spp gib_ns) = 8" using gib_ns_ok(2) by (simp add: drive_ok_def)
  have l: "legal gib_ns (rq_cmd (rw_request nvme_cmd_write 16 15))"
    by (simp add: legal_def rw_request_def nr_lba_def gib_ns_ok(4))
  have m: "cmd_lpns gib_ns (rq_cmd (rw_request nvme_cmd_write 16 15)) = {2..3}"
    "cmd_bytes (rq_cmd (rw_request nvme_cmd_write 16 15)) = 8192"
    by (simp_all add: s8 rw_request_def start_lpn_def end_lpn_def nr_lba_def LBA_TO_BYTE_def)
  show ?thesis
    using conv_write_refines[OF gib_ns_ok(2) l] unfolding m gib_ns_ok(3) by (fastforce split: if_splits)
qed

text \<open>C3: Garbage collection of a partition.  When the victim queue is empty, \<^verbatim>\<open>do_gc\<close> returns -1 and changes nothing.
  Otherwise it collects a line with the fewest valid pages: every logical page stays mapped or unmapped as it was, pages
  outside the victim keep their place, the number of free pages grows by the number of invalid pages of the victim, this
  number becomes the refill, and the invariant of the partition holds again.\<close>

theorem do_gc_correct:
  assumes "conv_inv f" "2 * pgs_per_line (cf_sp f) \<le> card (free_set f)"
  shows "if pq_elems (lm_victim_pq (cf_lm f)) = {} then do_gc f True = Some (-1, f)
    else \<exists>v f'. do_gc f True = Some (0, f') \<and> best_victim f v \<and> conv_inv f' \<and> kept v f f' \<and>
      int (credits_to_refill (cf_wfc f')) = ln_ipc (lm_lines (cf_lm f) ! v) \<and>
      card (free_set f') = card (free_set f) + credits_to_refill (cf_wfc f')"
proof (cases "pq_elems (lm_victim_pq (cf_lm f)) = {}")
  case True
  have "vpq.pq_inv (lm_lines (cf_lm f)) (lm_victim_pq (cf_lm f))"
    using assms(1) by (simp add: conv_inv_def core_def queue_ok_def)
  then have "pq_size (lm_victim_pq (cf_lm f)) = 1" using True by (auto simp: vpq.pq_inv_def pq_elems_def)
  then show ?thesis using True by (simp add: do_gc_def select_victim_line_def pqueue_peek_def Let_def)
next
  case False
  then show ?thesis using do_gc_ok[OF assms(1) False assms(2)] by (auto simp: gc_done_def)
qed

theorem do_gc_correct_witness:
  "if pq_elems (lm_victim_pq (cf_lm gib_ftl)) = {} then do_gc gib_ftl True = Some (-1, gib_ftl)
    else \<exists>v f'. do_gc gib_ftl True = Some (0, f') \<and> best_victim gib_ftl v \<and> conv_inv f' \<and> kept v gib_ftl f' \<and>
      int (credits_to_refill (cf_wfc f')) = ln_ipc (lm_lines (cf_lm gib_ftl) ! v) \<and>
      card (free_set f') = card (free_set gib_ftl) + credits_to_refill (cf_wfc f')"
  using do_gc_correct[OF gib_ftl_ok(1)] gib_ftl_ok(2) by (simp add: flow_ok_def)

text \<open>C4: Writing any list of logical pages of a partition, in any order and with repetitions, returns; the
  collector runs whenever the credits are used up and never fails for want of a victim or of free pages; the mapped pages
  afterwards are the old ones and the written ones, and at least two free lines and the credits left are in reserve.\<close>

theorem write_pages_total:
  assumes "conv_inv f" "flow_ok N f" "set lpns \<subseteq> {..<N}" "nc_cmd swr = NAND_WRITE"
  shows "\<exists>f' ts. write_pages lpns f swr = Some (f', ts) \<and> conv_inv f' \<and> mapped f' = set lpns \<union> mapped f \<and>
    length ts = length lpns \<and> 0 < write_credits (cf_wfc f') \<and>
    2 * pgs_per_line (cf_sp f') + write_credits (cf_wfc f') \<le> card (free_set f')"
  using write_pages_ok[OF assms] by (auto simp: flow_ok_def)

theorem write_pages_total_witness:
  "\<exists>f' ts. write_pages [7, 3, 7, 999] gib_ftl (write_cmd gib_spp 5) = Some (f', ts) \<and> conv_inv f' \<and> mapped f' = {3, 7, 999} \<and>
    length ts = length [7, 3, 7, 999 :: nat] \<and> 0 < write_credits (cf_wfc f') \<and>
    2 * pgs_per_line (cf_sp f') + write_credits (cf_wfc f') \<le> card (free_set f')"
  using write_pages_total[OF gib_ftl_ok(1,2), of "[7, 3, 7, 999]" "write_cmd gib_spp 5"] gib_ftl_ok(3)
  by (simp add: write_cmd_def insert_commute del: write_pages.simps)

text \<open>Writing one logical page: afterwards its table entry is the page that was under the write pointer, that page is
  valid, the reverse map leads back from it to the logical page, and every other logical page keeps its entry.\<close>

theorem remap_lpn_roundtrip:
  assumes "conv_inv f" "lpn < tt_pgs (cf_sp f)"
  shows "\<exists>f' a. remap_lpn f lpn = Some (f', a) \<and> get_new_page f USER_IO = Some a \<and>
    get_maptbl_ent f' lpn = Some a \<and> get_rmap_ent f' a = Some lpn \<and> st (blks_of f') a = PG_VALID \<and>
    (\<forall>k. k \<noteq> lpn \<longrightarrow> get_maptbl_ent f' k = get_maptbl_ent f k)"
proof -
  let ?a = "wp_page (cf_wp f)"
  obtain f' where f': "remap_lpn f lpn = Some (f', ?a)" "core {} {} {} f'" "cf_maptbl f' = (cf_maptbl f)[lpn := ?a]"
    "step_frame f f'" using remap_lpn_ok[OF assms] by blast
  have g: "geo_ok (cf_sp f)" "user_ok f" "length (cf_maptbl f) = tt_pgs (cf_sp f)"
    using assms(1) by (auto simp: conv_inv_def core_def map_ok_def)
  have w: "wp_place_ok (cf_sp f) (cf_wp f)" using g(2) by (simp add: user_ok_def)
  note a = wp_page_fields(1)[OF g(1) w]
  have sp: "cf_sp f' = cf_sp f" using f'(4) by (simp add: step_frame_def)
  have m: "map_ok (cf_sp f) (blks_of f') {} {} (cf_maptbl f') (cf_rmap f')" using core_parts(4)[OF f'(2)] sp by simp
  have ent: "cf_maptbl f' ! lpn = ?a" using f'(3) g(3) assms(2) by simp
  have there: "st (blks_of f') ?a = PG_VALID" "cf_rmap f' ! pgidx (cf_sp f) ?a = lpn" "length (cf_rmap f') = tt_pgs (cf_sp f)"
    using m assms(2) addr_ok_mapped[OF a] unfolding map_ok_def ent[symmetric] by blast+
  have "get_rmap_ent f' ?a = Some lpn"
    using there(2,3) ppa2pgidx_eq[of f' ?a] g(1) a sp pgidx_less[OF g(1) a] by (simp add: get_rmap_ent_def)
  moreover have "get_new_page f USER_IO = Some ?a"
    using w by (simp add: get_new_page_def get_wp_def wp_place_ok_def mk_ppa_def Let_def)
  moreover have "get_maptbl_ent f' k = get_maptbl_ent f k" if "k \<noteq> lpn" for k
    using f'(3) that by (simp add: get_maptbl_ent_def array_read_def)
  ultimately show ?thesis
    using f'(1,3) there(1) ent g(3) assms(2) by (auto simp: get_maptbl_ent_def array_read_def)
qed

theorem remap_lpn_roundtrip_witness:
  "\<exists>f' a. remap_lpn gib_ftl 42 = Some (f', a) \<and> get_new_page gib_ftl USER_IO = Some a \<and>
    get_maptbl_ent f' 42 = Some a \<and> get_rmap_ent f' a = Some 42 \<and> st (blks_of f') a = PG_VALID \<and>
    (\<forall>k. k \<noteq> 42 \<longrightarrow> get_maptbl_ent f' k = get_maptbl_ent gib_ftl k)"
proof -
  have "42 < tt_pgs (cf_sp gib_ftl)" using gib_spp_ok(7,8) gib_ftl_ok(4) by simp
  then show ?thesis by (rule remap_lpn_roundtrip[OF gib_ftl_ok(1)])
qed

text \<open>The logical pages of the writes among some events that the drive accepted.\<close>

fun stored_by :: "conv_ns \<Rightarrow> drive_event \<Rightarrow> nat set" where
  "stored_by ns (Host_command now rq ret) = (case conv_proc_nvme_io_cmd now ns rq ret of
     Some (_, accepted, _) \<Rightarrow> if accepted \<and> c_opcode (rq_cmd rq) = nvme_cmd_write then cmd_lpns ns (rq_cmd rq) else {}
   | None \<Rightarrow> {})"
| "stored_by ns (Buffer_released n) = {}"

fun stored :: "drive_event list \<Rightarrow> conv_ns \<Rightarrow> nat set" where
  "stored [] ns = {}"
| "stored (e # evs) ns = stored_by ns e \<union> (case on_event e ns of None \<Rightarrow> {} | Some ns' \<Rightarrow> stored evs ns')"

lemma on_event_stored:
  assumes ok: "drive_ok ns" and e: "event_legal ns e" and run: "on_event e ns = Some ns'"
  shows "ns_mapped ns' = ns_mapped ns \<union> stored_by ns e"
proof (cases "\<exists>now rq ret. e = Host_command now rq ret \<and> c_opcode (rq_cmd rq) = nvme_cmd_write")
  case True
  then obtain now rq ret where h: "e = Host_command now rq ret" "c_opcode (rq_cmd rq) = nvme_cmd_write" by blast
  have ns: "ns_inv (host_pages ns) ns" "cn_nr_parts ns = 4" "cn_size ns < 2 ^ 64" "secs_per_pg (ns_spp ns) = 8"
    "host_pages ns \<le> tt_pgs (ns_spp ns)" using ok by (auto simp: drive_ok_def)
  have leg: "legal ns (rq_cmd rq)" using e h by simp
  note r = legal_range[OF leg ns(3,4,2)]
  obtain nw rw ow where w: "conv_write ns rq = Some (nw, rw, ow)"
    "if buf_remaining (ns_wbuf ns) < cmd_bytes (rq_cmd rq) then rw = None \<and> ns_mapped nw = ns_mapped ns
     else (\<exists>t. rw = Some \<lparr>rs_status = NVME_SC_SUCCESS, rs_nsecs_target = t\<rparr>) \<and> ns_mapped nw = cmd_lpns ns (rq_cmd rq) \<union> ns_mapped ns"
    using conv_write_ok[OF ns(1) r(1) ns(5) _ r(3)] r(2) ns(4) by (auto split: if_splits)
  then show ?thesis using run h by (auto simp: conv_proc_nvme_io_cmd_def split: if_splits)
next
  case False
  have "mapped_by ns e = {}" "stored_by ns e = {}"
    using False by (cases e; auto simp: mapped_by_def split: option.split)+
  then show ?thesis using on_event_ok[OF ok e] run by auto
qed

lemma run_events_stored:
  assumes "drive_ok ns" "\<forall>e\<in>set evs. event_legal ns e"
  shows "\<exists>ns'. foldM on_event evs ns = Some ns' \<and> drive_ok ns' \<and> ns_mapped ns' = ns_mapped ns \<union> stored evs ns"
  using assms
proof (induction evs arbitrary: ns)
  case (Cons e evs)
  obtain n1 where 1: "on_event e ns = Some n1" "drive_ok n1" "cn_size n1 = cn_size ns" "ns_mapped n1 = ns_mapped ns \<union> stored_by ns e"
    using on_event_ok[OF Cons.prems(1), of e] on_event_stored[OF Cons.prems(1), of e] Cons.prems(2) by auto
  have "event_legal n1 x = event_legal ns x" for x using 1(3) by (cases x) (auto simp: legal_def)
  then obtain n2 where "foldM on_event evs n1 = Some n2" "drive_ok n2" "ns_mapped n2 = ns_mapped n1 \<union> stored evs n1"
    using Cons.IH[OF 1(2)] Cons.prems(2) by auto
  then show ?case using 1 by (intro exI[of _ n2]) auto
qed simp

text \<open>The pages of the host that partition \<open>q\<close> of four holds.\<close>

definition share_of :: "nat \<Rightarrow> nat set \<Rightarrow> nat set" where
  "share_of q pages = {lpn. lpn * 4 + q \<in> pages}"

text \<open>C5: A drive set up by \<^verbatim>\<open>conv_init_namespace\<close>, after any legal commands with the garbage collection they cause: in each of
  the four partitions the mapping table takes exactly the logical pages that accepted writes have stored (every fourth page
  is a partition's) to the valid physical pages, one to one and onto, and the reverse map leads back.  No stored page is
  lost or shared, no other page is mapped, and no valid physical page is without an owner.\<close>

theorem mapping_bijective:
  assumes "load_conv_configs c = Some cfg" "4 \<le> cap" "cap \<le> 2 ^ 45" "allocated raw"
    "conv_init_namespace cfg cap junk clock raw stats wait = Some ns" "\<forall>e\<in>set evs. event_legal ns e" "q < 4"
  shows "\<exists>ns'. foldM on_event evs ns = Some ns' \<and> (let f = cn_ftls ns' ! q; pages = share_of q (stored evs ns) in
    bij_betw (\<lambda>lpn. cf_maptbl f ! lpn) pages {a. addr_ok (cf_sp f) a \<and> st (blks_of f) a = PG_VALID} \<and>
    (\<forall>lpn\<in>pages. get_maptbl_ent f lpn = Some (cf_maptbl f ! lpn) \<and> get_rmap_ent f (cf_maptbl f ! lpn) = Some lpn) \<and>
    (\<forall>lpn<tt_pgs (cf_sp f). lpn \<notin> pages \<longrightarrow> get_maptbl_ent f lpn = Some UNMAPPED_PPA))"
proof -
  obtain ns0 where ns0: "conv_init_namespace cfg cap junk clock raw stats wait = Some ns0" "ns_inv (host_pages ns0) ns0"
    "ns_mapped ns0 = {}" "cn_nr_parts ns0 = 4" "cn_size ns0 = cap * 100 div 107" "secs_per_pg (ns_spp ns0) = 8"
    "host_pages ns0 \<le> tt_pgs (ns_spp ns0)"
    using conv_init_namespace_ok[OF assms(1-4)] by blast
  have eq: "ns0 = ns" using ns0(1) assms(5) by simp
  have "cap * 100 div 107 \<le> cap" by simp
  then have ok: "drive_ok ns" using ns0 assms(3) unfolding eq by (simp add: drive_ok_def)
  then obtain ns' where r: "foldM on_event evs ns = Some ns'" "drive_ok ns'" "ns_mapped ns' = stored evs ns"
    using run_events_stored[OF ok assms(6)] ns0(3) unfolding eq by auto
  let ?f = "cn_ftls ns' ! q"
  have "?f \<in> set (cn_ftls ns')" "cn_nr_parts ns' = 4" using r(2) assms(7) by (auto simp: drive_ok_def ns_inv_def)
  then have inv: "conv_inv ?f" "cn_nr_parts ns' = 4" using r(2) by (auto simp: drive_ok_def ns_inv_def)
  have c: "core {} {} {} ?f" using inv(1) by (simp add: conv_inv_def)
  have m: "map_ok (cf_sp ?f) (blks_of ?f) {} {} (cf_maptbl ?f) (cf_rmap ?f)" and g: "geo_ok (cf_sp ?f)"
    using core_parts(1,4)[OF c] by blast+
  have p: "mapped ?f = share_of q (stored evs ns)"
    using assms(7) inv(2) unfolding r(3)[symmetric] share_of_def ns_mapped_def by simp
  have bij: "bij_betw (\<lambda>lpn. cf_maptbl ?f ! lpn) (mapped ?f) {a. addr_ok (cf_sp ?f) a \<and> st (blks_of ?f) a = PG_VALID}"
    using mapped_bij[OF c] unfolding valid_set_def .
  have len: "length (cf_maptbl ?f) = tt_pgs (cf_sp ?f)" "length (cf_rmap ?f) = tt_pgs (cf_sp ?f)" using m by (simp_all add: map_ok_def)
  have inverse: "get_maptbl_ent ?f lpn = Some (cf_maptbl ?f ! lpn) \<and> get_rmap_ent ?f (cf_maptbl ?f ! lpn) = Some lpn" if l: "lpn \<in> mapped ?f" for lpn
  proof -
    have t: "lpn < tt_pgs (cf_sp ?f)" "addr_ok (cf_sp ?f) (cf_maptbl ?f ! lpn)" "cf_rmap ?f ! pgidx (cf_sp ?f) (cf_maptbl ?f ! lpn) = lpn"
      using l m by (auto simp: mapped_def map_ok_def)
    then show ?thesis using len ppa2pgidx_eq[of ?f "cf_maptbl ?f ! lpn"] pgidx_less[OF g t(2)] g
      by (simp add: get_maptbl_ent_def get_rmap_ent_def)
  qed
  have rest: "get_maptbl_ent ?f lpn = Some UNMAPPED_PPA" if "lpn < tt_pgs (cf_sp ?f)" "lpn \<notin> mapped ?f" for lpn
    using that len(1) by (simp add: get_maptbl_ent_def mapped_def)
  show ?thesis using r(1) bij inverse rest unfolding p Let_def by blast
qed

theorem mapping_bijective_witness:
  "\<exists>ns'. foldM on_event [Host_command 9 (rw_request nvme_cmd_write 16 15) no_result, Buffer_released 4096,
      Host_command 9 (rw_request nvme_cmd_write 16 7) no_result] gib_ns = Some ns' \<and>
    bij_betw (\<lambda>lpn. cf_maptbl (cn_ftls ns' ! 2) ! lpn)
      (share_of 2 (stored [Host_command 9 (rw_request nvme_cmd_write 16 15) no_result, Buffer_released 4096,
        Host_command 9 (rw_request nvme_cmd_write 16 7) no_result] gib_ns))
      {a. addr_ok (cf_sp (cn_ftls ns' ! 2)) a \<and> st (blks_of (cn_ftls ns' ! 2)) a = PG_VALID}"
proof -
  let ?evs = "[Host_command 9 (rw_request nvme_cmd_write 16 15) no_result, Buffer_released 4096,
      Host_command 9 (rw_request nvme_cmd_write 16 7) no_result]"
  have legal: "\<forall>e\<in>set ?evs. event_legal gib_ns e"
    by (simp add: legal_def rw_request_def nr_lba_def gib_ns_ok(4))
  have "\<exists>ns'. foldM on_event ?evs gib_ns = Some ns' \<and> (let f = cn_ftls ns' ! 2; pages = share_of 2 (stored ?evs gib_ns) in
    bij_betw (\<lambda>lpn. cf_maptbl f ! lpn) pages {a. addr_ok (cf_sp f) a \<and> st (blks_of f) a = PG_VALID} \<and>
    (\<forall>lpn\<in>pages. get_maptbl_ent f lpn = Some (cf_maptbl f ! lpn) \<and> get_rmap_ent f (cf_maptbl f ! lpn) = Some lpn) \<and>
    (\<forall>lpn<tt_pgs (cf_sp f). lpn \<notin> pages \<longrightarrow> get_maptbl_ent f lpn = Some UNMAPPED_PPA))"
    by (rule mapping_bijective[OF conv_cfg_loaded _ _ gib_allocated gib_ns_ok(1) legal]) simp_all
  then show ?thesis unfolding Let_def by blast
qed

end
