(* ===== verification/Zns_Ftl.thy ===== *)
theory Zns_Ftl
  imports Nvmev
begin

text \<open>
  The state of a drive with zones (src/zns\_ftl.h, src/zns\_ftl.c, src/nvme\_zns.h): zone descriptors, resource counts, one
  write buffer per zone, and the address arithmetic between logical blocks, pages, zones and dies.  Logical block numbers
  are natural numbers below \<open>2 ^ 64\<close>; where the C code computes in 32 or 64 bits the wrap-around is written out.
\<close>

section \<open>Status codes and commands\<close>

definition NVME_SC_INVALID_FIELD :: nat where "NVME_SC_INVALID_FIELD = 2"

definition NVME_SC_ZNS_INVALID_ZONE_OPERATION :: nat where "NVME_SC_ZNS_INVALID_ZONE_OPERATION = 438"
definition NVME_SC_ZNS_ZRWA_RSRC_UNAVAIL :: nat where "NVME_SC_ZNS_ZRWA_RSRC_UNAVAIL = 439"
definition NVME_SC_ZNS_ERR_BOUNDARY :: nat where "NVME_SC_ZNS_ERR_BOUNDARY = 440"
definition NVME_SC_ZNS_ERR_FULL :: nat where "NVME_SC_ZNS_ERR_FULL = 441"
definition NVME_SC_ZNS_ERR_READ_ONLY :: nat where "NVME_SC_ZNS_ERR_READ_ONLY = 442"
definition NVME_SC_ZNS_ERR_OFFLINE :: nat where "NVME_SC_ZNS_ERR_OFFLINE = 443"
definition NVME_SC_ZNS_INVALID_WRITE :: nat where "NVME_SC_ZNS_INVALID_WRITE = 444"
definition NVME_SC_ZNS_NO_ACTIVE_ZONE :: nat where "NVME_SC_ZNS_NO_ACTIVE_ZONE = 445"
definition NVME_SC_ZNS_NO_OPEN_ZONE :: nat where "NVME_SC_ZNS_NO_OPEN_ZONE = 446"
definition NVME_SC_ZNS_INVALID_TRANSITION :: nat where "NVME_SC_ZNS_INVALID_TRANSITION = 447"

lemmas zns_status_defs = NVME_SC_SUCCESS_def NVME_SC_INVALID_FIELD_def NVME_SC_ZNS_INVALID_ZONE_OPERATION_def
  NVME_SC_ZNS_ZRWA_RSRC_UNAVAIL_def NVME_SC_ZNS_ERR_BOUNDARY_def NVME_SC_ZNS_ERR_FULL_def NVME_SC_ZNS_ERR_READ_ONLY_def
  NVME_SC_ZNS_ERR_OFFLINE_def NVME_SC_ZNS_INVALID_WRITE_def NVME_SC_ZNS_NO_ACTIVE_ZONE_def NVME_SC_ZNS_NO_OPEN_ZONE_def
  NVME_SC_ZNS_INVALID_TRANSITION_def

definition nvme_cmd_zone_mgmt_send :: nat where "nvme_cmd_zone_mgmt_send = 121"
definition nvme_cmd_zone_mgmt_recv :: nat where "nvme_cmd_zone_mgmt_recv = 122"
definition nvme_cmd_zone_append :: nat where "nvme_cmd_zone_append = 125"

text \<open>The zone management commands overlay double words 12 and 13 of a read or write command, which there hold length,
  control and \<^verbatim>\<open>dsmgmt\<close>.\<close>

definition cmd_zsa :: "nvme_command \<Rightarrow> nat" where "cmd_zsa c = c_dsmgmt c mod 256"
definition cmd_select_all :: "nvme_command \<Rightarrow> bool" where "cmd_select_all c \<longleftrightarrow> (c_dsmgmt c div 256) mod 2 = 1"
definition cmd_zsaso :: "nvme_command \<Rightarrow> bool" where "cmd_zsaso c \<longleftrightarrow> (c_dsmgmt c div 512) mod 2 = 1"
definition cmd_nr_dw :: "nvme_command \<Rightarrow> nat" where "cmd_nr_dw c = c_length c + 65536 * c_control c"
definition cmd_zra :: "nvme_command \<Rightarrow> nat" where "cmd_zra c = c_dsmgmt c mod 256"
definition cmd_zra_field :: "nvme_command \<Rightarrow> nat" where "cmd_zra_field c = (c_dsmgmt c div 256) mod 256"
definition cmd_zra_features :: "nvme_command \<Rightarrow> nat" where "cmd_zra_features c = (c_dsmgmt c div 65536) mod 2"

section \<open>State\<close>

datatype zone_state = ZONE_STATE_EMPTY | ZONE_STATE_OPENED_IMPL | ZONE_STATE_OPENED_EXPL | ZONE_STATE_CLOSED
  | ZONE_STATE_READ_ONLY | ZONE_STATE_FULL | ZONE_STATE_OFFLINE

datatype zone_resource_type = ACTIVE_ZONE | OPEN_ZONE | ZRWA_ZONE

record zone_descriptor =
  zd_state :: zone_state
  zd_type :: nat
  zd_zrwav :: bool
  zd_capacity :: nat
  zd_zslba :: nat
  zd_wp :: nat

record znsparams =
  zp_nr_zones :: nat
  zp_nr_active_zones :: nat
  zp_nr_open_zones :: nat
  zp_dies_per_zone :: nat
  zp_zone_size :: nat
  zp_zone_wb_size :: nat
  zp_nr_zrwa_zones :: nat
  zp_zrwafg_size :: nat
  zp_zrwa_size :: nat
  zp_zrwa_buffer_size :: nat
  zp_lbas_per_zrwafg :: nat
  zp_lbas_per_zrwa :: nat

record zone_resource_info =
  acquired_cnt :: nat
  total_cnt :: nat

text \<open>An array of buffers that was not allocated is empty; the storage behind the namespace is addressed from its
  base.\<close>

record zns_ftl =
  zf_ssd :: ssd
  zf_zp :: znsparams
  zf_res :: "zone_resource_type \<Rightarrow> zone_resource_info"
  zf_descs :: "zone_descriptor list"
  zf_wbufs :: "buffer list"
  zf_zwra_bufs :: "buffer list"
  zf_storage :: "nat \<Rightarrow> u8"

abbreviation zf_sp :: "zns_ftl \<Rightarrow> ssdparams" where
  "zf_sp zf \<equiv> ssd_sp (zf_ssd zf)"

text \<open>The buffer a message to the I/O workers refers to.\<close>

datatype wbuf_ref = Global_wb | Zone_wb nat | Zrwa_wb nat

record zns_op = internal_op +
  io_wbuf :: wbuf_ref

section \<open>Resources and states\<close>

definition is_zone_resource_avail :: "zns_ftl \<Rightarrow> zone_resource_type \<Rightarrow> bool" where
  "is_zone_resource_avail zf t \<longleftrightarrow> acquired_cnt (zf_res zf t) < total_cnt (zf_res zf t)"

definition is_zone_resource_full :: "zns_ftl \<Rightarrow> zone_resource_type \<Rightarrow> bool" where
  "is_zone_resource_full zf t \<longleftrightarrow> acquired_cnt (zf_res zf t) = total_cnt (zf_res zf t)"

definition set_acquired :: "zns_ftl \<Rightarrow> zone_resource_type \<Rightarrow> nat \<Rightarrow> zns_ftl" where
  "set_acquired zf t n = zf\<lparr>zf_res := (zf_res zf)(t := (zf_res zf t)\<lparr>acquired_cnt := n\<rparr>)\<rparr>"

definition acquire_zone_resource :: "zns_ftl \<Rightarrow> zone_resource_type \<Rightarrow> zns_ftl \<times> bool" where
  "acquire_zone_resource zf t =
    (if is_zone_resource_avail zf t then (set_acquired zf t (add32 (acquired_cnt (zf_res zf t)) 1), True)
     else (zf, False))"

text \<open>The check \<^verbatim>\<open>ASSERT\<close> in this function expands to nothing.\<close>

definition release_zone_resource :: "zns_ftl \<Rightarrow> zone_resource_type \<Rightarrow> zns_ftl" where
  "release_zone_resource zf t = set_acquired zf t (dec32 (acquired_cnt (zf_res zf t)))"

definition set_desc :: "zns_ftl \<Rightarrow> nat \<Rightarrow> (zone_descriptor \<Rightarrow> zone_descriptor) \<Rightarrow> zns_ftl" where
  "set_desc zf zid g = zf\<lparr>zf_descs := (zf_descs zf)[zid := g (zf_descs zf ! zid)]\<rparr>"

definition change_zone_state :: "zns_ftl \<Rightarrow> nat \<Rightarrow> zone_state \<Rightarrow> zns_ftl" where
  "change_zone_state zf zid s = set_desc zf zid (\<lambda>d. d\<lparr>zd_state := s\<rparr>)"

section \<open>Addresses\<close>

text \<open>Products with a zone number are computed in 32 bits.  The divisors are those of \<open>zns_geo\<close> below; dividing by zero
  traps.\<close>

definition lpn_to_zone :: "zns_ftl \<Rightarrow> nat \<Rightarrow> nat" where
  "lpn_to_zone zf lpn = lpn div (zp_zone_size (zf_zp zf) div pgsz (zf_sp zf)) mod 2 ^ 32"

definition zone_to_slpn :: "zns_ftl \<Rightarrow> nat \<Rightarrow> nat" where
  "zone_to_slpn zf zid = zid * (zp_zone_size (zf_zp zf) div pgsz (zf_sp zf)) mod 2 ^ 32"

definition lba_to_zone :: "zns_ftl \<Rightarrow> nat \<Rightarrow> nat" where
  "lba_to_zone zf lba = lba div (zp_zone_size (zf_zp zf) div secsz (zf_sp zf)) mod 2 ^ 32"

definition zone_to_slba :: "zns_ftl \<Rightarrow> nat \<Rightarrow> nat" where
  "zone_to_slba zf zid = zid * (zp_zone_size (zf_zp zf) div secsz (zf_sp zf)) mod 2 ^ 32"

definition dec64 :: "nat \<Rightarrow> nat" where
  "dec64 n = (n + (2 ^ 64 - 1)) mod 2 ^ 64"

definition zone_to_elba :: "zns_ftl \<Rightarrow> nat \<Rightarrow> nat" where
  "zone_to_elba zf zid = dec64 (zone_to_slba zf ((zid + 1) mod 2 ^ 32))"

definition zone_to_elpn :: "zns_ftl \<Rightarrow> nat \<Rightarrow> nat" where
  "zone_to_elpn zf zid = zone_to_elba zf zid div secs_per_pg (zf_sp zf)"

definition die_to_channel :: "zns_ftl \<Rightarrow> nat \<Rightarrow> nat" where
  "die_to_channel zf die = die mod nchs (zf_sp zf)"

definition die_to_lun :: "zns_ftl \<Rightarrow> nat \<Rightarrow> nat" where
  "die_to_lun zf die = die div nchs (zf_sp zf)"

definition lba_to_lpn :: "zns_ftl \<Rightarrow> nat \<Rightarrow> nat" where
  "lba_to_lpn zf lba = lba div secs_per_pg (zf_sp zf)"

text \<open>The divisors of the functions above and of \<open>lpn_to_ppa\<close>.\<close>

definition zns_geo :: "zns_ftl \<Rightarrow> bool" where
  "zns_geo zf \<longleftrightarrow> pgsz (zf_sp zf) \<noteq> 0 \<and> secsz (zf_sp zf) \<noteq> 0 \<and> secs_per_pg (zf_sp zf) \<noteq> 0 \<and>
     zp_zone_size (zf_zp zf) div pgsz (zf_sp zf) \<noteq> 0 \<and> zp_zone_size (zf_zp zf) div secsz (zf_sp zf) \<noteq> 0 \<and>
     tt_luns (zf_sp zf) \<noteq> 0 \<and> pgs_per_oneshotpg (zf_sp zf) \<noteq> 0 \<and> zp_dies_per_zone (zf_zp zf) \<noteq> 0 \<and> nchs (zf_sp zf) \<noteq> 0"

definition lpn_to_ppa :: "zns_ftl \<Rightarrow> nat \<Rightarrow> ppa" where
  "lpn_to_ppa zf lpn =
    (let spp = zf_sp zf; zp = zf_zp zf;
         zone = lpn_to_zone zf lpn;
         off = (lpn + (2 ^ 64 - zone_to_slpn zf zone)) mod 2 ^ 64;
         sdie = (zone * zp_dies_per_zone zp) mod tt_luns spp mod 2 ^ 32;
         die = (sdie + (off div pgs_per_oneshotpg spp) mod zp_dies_per_zone zp) mod 2 ^ 32
     in mk_ppa (die_to_channel zf die) (die_to_lun zf die) 0 0 (off mod pgs_per_oneshotpg spp))"

section \<open>Initialisation\<close>

definition init_zone :: "znsparams \<Rightarrow> nat \<Rightarrow> zone_descriptor" where
  "init_zone zp i = \<lparr>zd_state = ZONE_STATE_EMPTY, zd_type = 2, zd_zrwav = False,
     zd_capacity = zp_zone_size zp div 512, zd_zslba = i * (zp_zone_size zp div 512) mod 2 ^ 64,
     zd_wp = i * (zp_zone_size zp div 512) mod 2 ^ 64\<rparr>"

definition init_descriptor :: "zns_ftl \<Rightarrow> zns_ftl" where
  "init_descriptor zf =
    (let zp = zf_zp zf; n = zp_nr_zones zp
     in zf\<lparr>zf_descs := map (init_zone zp) [0..<n],
           zf_zwra_bufs := (if zp_zrwa_buffer_size zp \<noteq> 0 then replicate n (buffer_init (zp_zrwa_buffer_size zp)) else []),
           zf_wbufs := (if zp_zone_wb_size zp \<noteq> 0 then replicate n (buffer_init (zp_zone_wb_size zp)) else [])\<rparr>)"

definition init_resource :: "zns_ftl \<Rightarrow> zns_ftl" where
  "init_resource zf = zf\<lparr>zf_res := (\<lambda>_. \<lparr>acquired_cnt = 0, total_cnt = zp_nr_zones (zf_zp zf)\<rparr>)\<rparr>"

text \<open>The initialiser of the parameters reads fields of the structure it initialises: \<open>old\<close> is what the memory held
  before.\<close>

definition zns_init_params :: "znsparams \<Rightarrow> ssdparams \<Rightarrow> nat \<Rightarrow> zns_configs \<Rightarrow> znsparams option" where
  "zns_init_params old spp capacity cfg = do {
     nvmev_assert (ZONE_SIZE cfg \<noteq> 0 \<and> secsz spp \<noteq> 0 \<and> pgsz spp \<noteq> 0);
     let zp = \<lparr>zp_nr_zones = capacity div ZONE_SIZE cfg mod 2 ^ 32, zp_nr_active_zones = zp_nr_zones old,
               zp_nr_open_zones = zp_nr_zones old, zp_dies_per_zone = DIES_PER_ZONE cfg,
               zp_zone_size = ZONE_SIZE cfg mod 2 ^ 32, zp_zone_wb_size = ZONE_WB_SIZE cfg,
               zp_nr_zrwa_zones = MAX_ZRWA_ZONES cfg, zp_zrwafg_size = ZRWAFG_SIZE cfg, zp_zrwa_size = ZRWA_SIZE cfg,
               zp_zrwa_buffer_size = ZRWA_BUFFER_SIZE cfg, zp_lbas_per_zrwafg = zp_zrwafg_size old div secsz spp,
               zp_lbas_per_zrwa = zp_zrwa_size old div secsz spp\<rparr>;
     nvmev_assert (zp_zone_size zp \<noteq> 0 \<and> capacity mod zp_zone_size zp = 0);
     nvmev_assert (zp_zone_size zp mod pgsz spp = 0);
     Some zp
   }"

definition zns_init_ftl :: "znsparams \<Rightarrow> ssd \<Rightarrow> (nat \<Rightarrow> u8) \<Rightarrow> zns_ftl" where
  "zns_init_ftl zp s storage = init_resource (init_descriptor
     \<lparr>zf_ssd = s, zf_zp = zp, zf_res = (\<lambda>_. \<lparr>acquired_cnt = 0, total_cnt = 0\<rparr>), zf_descs = [], zf_wbufs = [],
      zf_zwra_bufs = [], zf_storage = storage\<rparr>)"

text \<open>The flag \<^verbatim>\<open>checking\<close> of the drive is not initialised for a zoned namespace: \<open>chk\<close> is its value.\<close>

definition zns_init_namespace ::
  "ftl_configs \<Rightarrow> nat \<Rightarrow> znsparams \<Rightarrow> u64 \<Rightarrow> bool \<Rightarrow> (nat \<Rightarrow> u64) \<Rightarrow> (nat \<Rightarrow> u8) \<Rightarrow> (zns_ftl \<times> nat) option" where
  "zns_init_namespace cfg cap old junk chk clock storage = do {
     spp \<leftarrow> ssd_init_params cap 1 cfg;
     s \<leftarrow> ssd_init spp junk clock;
     z \<leftarrow> (case extra_cfgs cfg of Extra_zns z \<Rightarrow> Some z | _ \<Rightarrow> None);
     zp \<leftarrow> zns_init_params old spp cap z;
     Some (zns_init_ftl zp (s\<lparr>ssd_checking := chk\<rparr>) storage, cap)
   }"

end
