(* ===== verification/Prp.thy ===== *)
theory Prp
  imports Prelude
begin

text \<open>
  The walk over the physical region pages of a command.  Four places of the program run this loop, to move data between
  host memory and the storage (src/io.c), a buffer (src/zns\_mgmt\_recv.c) or the store of values (src/kv\_ftl.c); they
  differ in what they do with each piece.  The loop is defined once over that action, and the locale below states what
  an action has to do for the loop to move exactly the bytes the command describes.
\<close>

type_synonym memory = "nat \<Rightarrow> 8 word"

abbreviation PAGE_SIZE :: nat where "PAGE_SIZE \<equiv> 4096"

definition memcpy :: "memory \<Rightarrow> nat \<Rightarrow> nat \<Rightarrow> nat \<Rightarrow> memory" where
  "memcpy m dst src n = (\<lambda>a. if dst \<le> a \<and> a < dst + n then m (src + (a - dst)) else m a)"

type_synonym bytes = "8 word list"

definition write_bytes :: "memory \<Rightarrow> nat \<Rightarrow> bytes \<Rightarrow> memory" where
  "write_bytes m a bs = (\<lambda>x. if a \<le> x \<and> x < a + length bs then bs ! (x - a) else m x)"

definition le_number :: "bytes \<Rightarrow> nat" where
  "le_number bs = foldr (\<lambda>b n. unat b + 256 * n) bs 0"

definition le_bytes :: "nat \<Rightarrow> nat \<Rightarrow> bytes" where
  "le_bytes n v = map (\<lambda>i. of_nat (v div 256 ^ i)) [0..<n]"

definition read_bytes :: "memory \<Rightarrow> nat \<Rightarrow> nat \<Rightarrow> bytes" where
  "read_bytes m a n = map (\<lambda>i. m (a + i)) [0..<n]"

lemma length_le_bytes [simp]: "length (le_bytes n v) = n"
  by (simp add: le_bytes_def)

lemma le_number_le_bytes: "le_number (le_bytes n v) = v mod 256 ^ n"
proof (induction n arbitrary: v)
  case 0
  then show ?case by (simp add: le_number_def le_bytes_def)
next
  case (Suc n)
  have "le_bytes (Suc n) v = of_nat v # le_bytes n (v div 256)"
    by (simp add: le_bytes_def upt_conv_Cons map_Suc_upt[symmetric] div_mult2_eq del: upt_Suc map_Suc_upt)
  then have "le_number (le_bytes (Suc n) v) = v mod 256 + 256 * le_number (le_bytes n (v div 256))"
    by (simp add: le_number_def unat_of_nat)
  then show ?case using Suc.IH by (simp add: mod_mult2_eq)
qed

definition read64 :: "memory \<Rightarrow> nat \<Rightarrow> nat" where
  "read64 m a = (\<Sum>i<8. unat (m (a + i)) * 256 ^ i)"

section \<open>The loop\<close>

text \<open>The address of the next piece.  The first two come from the command; when more than a page is left at the second
  one, it is the address of a list instead, from which this and all later ones are read.  \<open>lst\<close> is the pointer to that
  list, which starts out as NULL.\<close>

definition prp_fetch :: "memory \<Rightarrow> nat \<Rightarrow> nat \<Rightarrow> nat \<Rightarrow> nat \<Rightarrow> nat option \<Rightarrow> nat \<Rightarrow> (nat \<times> nat \<times> nat option) option" where
  "prp_fetch m prp1 prp2 prp_offs prp2_offs lst remaining =
    (if prp_offs = 1 then Some (prp1, prp2_offs, lst)
     else if prp_offs = 2 then
       (if remaining > PAGE_SIZE then Some (read64 m (prp2 + 8 * prp2_offs), prp2_offs + 1, Some prp2)
        else Some (prp2, prp2_offs, lst))
     else (case lst of None \<Rightarrow> None
           | Some l \<Rightarrow> Some (read64 m (l + 8 * prp2_offs), prp2_offs + 1, lst)))"

definition piece_size :: "nat \<Rightarrow> nat \<Rightarrow> nat" where
  "piece_size remaining paddr =
    (let io_size = min remaining PAGE_SIZE; mem_offs = paddr mod PAGE_SIZE
     in if mem_offs \<noteq> 0 \<and> io_size + mem_offs > PAGE_SIZE then PAGE_SIZE - mem_offs else io_size)"

lemma piece_size_pos: "0 < remaining \<Longrightarrow> 0 < piece_size remaining paddr"
  by (auto simp: piece_size_def Let_def)

lemma piece_size_le: "piece_size remaining paddr \<le> remaining"
  by (auto simp: piece_size_def Let_def)

function prp_walk ::
  "('s \<Rightarrow> memory) \<Rightarrow> (nat option \<Rightarrow> nat \<Rightarrow> nat \<Rightarrow> nat \<Rightarrow> 's \<Rightarrow> 's) \<Rightarrow> nat \<Rightarrow> nat \<Rightarrow> nat \<Rightarrow> nat \<Rightarrow> nat option \<Rightarrow> nat option \<Rightarrow>
   nat \<Rightarrow> nat \<Rightarrow> 's \<Rightarrow> 's option" where
  "prp_walk mem act prp1 prp2 prp_offs prp2_offs lst prev offset remaining s =
    (if remaining = 0 then Some s
     else do {
       (paddr, prp2_offs', lst') \<leftarrow> prp_fetch (mem s) prp1 prp2 (prp_offs + 1) prp2_offs lst remaining;
       let io_size = piece_size remaining paddr;
       prp_walk mem act prp1 prp2 (prp_offs + 1) prp2_offs' lst' (Some paddr) (offset + io_size) (remaining - io_size)
         (act prev paddr offset io_size s)
     })"
  by pat_completeness auto
termination by (relation "measure (\<lambda>(_, _, _, _, _, _, _, _, _, remaining, _). remaining)") (auto intro!: diff_less piece_size_pos)

declare prp_walk.simps [simp del]

section \<open>What the addresses mean\<close>

text \<open>Host address of byte \<open>k\<close> of a transfer of \<open>len\<close> bytes: the first page may start anywhere, the others are whole.\<close>

definition prp_byte :: "memory \<Rightarrow> nat \<Rightarrow> nat \<Rightarrow> nat \<Rightarrow> nat \<Rightarrow> nat" where
  "prp_byte m prp1 prp2 len k =
    (let o1 = prp1 mod PAGE_SIZE; j = (o1 + k) div PAGE_SIZE; r = (o1 + k) mod PAGE_SIZE
     in if j = 0 then prp1 + k else if o1 + len \<le> 2 * PAGE_SIZE then prp2 + r else read64 m (prp2 + 8 * (j - 1)) + r)"

definition prp_entries :: "nat \<Rightarrow> nat \<Rightarrow> nat" where
  "prp_entries prp1 len = (if prp1 mod PAGE_SIZE + len \<le> 2 * PAGE_SIZE then 0 else (prp1 mod PAGE_SIZE + len - 1) div PAGE_SIZE)"

text \<open>All pages but the first are aligned.\<close>

definition prp_valid :: "memory \<Rightarrow> nat \<Rightarrow> nat \<Rightarrow> nat \<Rightarrow> bool" where
  "prp_valid m prp1 prp2 len \<longleftrightarrow>
    (if prp1 mod PAGE_SIZE + len \<le> PAGE_SIZE then True
     else if prp1 mod PAGE_SIZE + len \<le> 2 * PAGE_SIZE then prp2 mod PAGE_SIZE = 0
     else (\<forall>j<prp_entries prp1 len. read64 m (prp2 + 8 * j) mod PAGE_SIZE = 0))"

definition prp_list_area :: "nat \<Rightarrow> nat \<Rightarrow> nat \<Rightarrow> nat set" where
  "prp_list_area prp1 prp2 len = {prp2..<prp2 + 8 * prp_entries prp1 len}"

definition copied :: "(nat \<Rightarrow> nat) \<Rightarrow> (nat \<Rightarrow> nat) \<Rightarrow> nat \<Rightarrow> memory \<Rightarrow> memory \<Rightarrow> bool" where
  "copied src dst n m m' \<longleftrightarrow> (\<forall>k<n. m' (dst k) = m (src k)) \<and> (\<forall>a. a \<notin> dst ` {..<n} \<longrightarrow> m' a = m a)"

lemma copied_unique: "copied src dst n m m1 \<Longrightarrow> copied src dst n m m2 \<Longrightarrow> m1 = m2"
  unfolding copied_def by (rule ext) (metis imageE lessThan_iff)

lemma copied_step:
  assumes c: "copied src dst k m m'" and n: "k + n \<le> len"
    and run: "\<And>i. i < n \<Longrightarrow> src (k + i) = src k + i \<and> dst (k + i) = dst k + i"
    and inj: "inj_on dst {..<len}" and sep: "src ` {..<len} \<inter> dst ` {..<len} = {}"
  shows "copied src dst (k + n) m (memcpy m' (dst k) (src k) n)"
proof -
  have hit: "dst k \<le> dst j \<and> dst j < dst k + n \<longleftrightarrow> k \<le> j" if "j < k + n" for j
  proof
    assume "k \<le> j"
    then show "dst k \<le> dst j \<and> dst j < dst k + n" using run[of "j - k"] that by auto
  next
    assume d: "dst k \<le> dst j \<and> dst j < dst k + n"
    then have "dst j = dst (k + (dst j - dst k))" using run[of "dst j - dst k"] by auto
    then have "j = k + (dst j - dst k)" using inj_onD[OF inj, of j "k + (dst j - dst k)"] that n d by auto
    then show "k \<le> j" by simp
  qed
  have mem: "memcpy m' (dst k) (src k) n (dst j) = m (src j)" if j: "j < k + n" for j
  proof (cases "k \<le> j")
    case True
    then have "src k + (dst j - dst k) = src j" using run[of "j - k"] j by auto
    moreover have "src j \<notin> dst ` {..<k}"
    proof
      assume "src j \<in> dst ` {..<k}"
      then have "src j \<in> src ` {..<len} \<inter> dst ` {..<len}" using j n by auto
      then show False using sep by simp
    qed
    ultimately show ?thesis using c hit[OF j] True by (simp add: memcpy_def copied_def)
  next
    case False
    then show ?thesis using c hit[OF j] by (auto simp: memcpy_def copied_def)
  qed
  have "memcpy m' (dst k) (src k) n a = m a" if a: "a \<notin> dst ` {..<k + n}" for a
  proof -
    have "\<not> (dst k \<le> a \<and> a < dst k + n)"
    proof
      assume "dst k \<le> a \<and> a < dst k + n"
      then have "a = dst (k + (a - dst k))" "k + (a - dst k) < k + n" using run[of "a - dst k"] by auto
      then show False using a by blast
    qed
    moreover have "a \<notin> dst ` {..<k}" using a by auto
    ultimately show ?thesis using c unfolding memcpy_def copied_def by auto
  qed
  then show ?thesis using mem unfolding copied_def by blast
qed

lemma read64_cong: "(\<And>i. i < 8 \<Longrightarrow> m' (a + i) = m (a + i)) \<Longrightarrow> read64 m' a = read64 m a"
  by (simp add: read64_def)

section \<open>One round of the loop\<close>

text \<open>The loop is always at the start of a page, or of the transfer.\<close>

definition page_start :: "nat \<Rightarrow> nat \<Rightarrow> bool" where
  "page_start prp1 k \<longleftrightarrow> k = 0 \<or> (prp1 mod PAGE_SIZE + k) mod PAGE_SIZE = 0"

abbreviation page_no :: "nat \<Rightarrow> nat \<Rightarrow> nat" where
  "page_no prp1 k \<equiv> (prp1 mod PAGE_SIZE + k) div PAGE_SIZE"

lemma page_no_less:
  assumes "k < len" "2 * PAGE_SIZE < prp1 mod PAGE_SIZE + len" "0 < page_no prp1 k"
  shows "page_no prp1 k - 1 < prp_entries prp1 len"
proof -
  have "page_no prp1 k \<le> (prp1 mod PAGE_SIZE + len - 1) div PAGE_SIZE" using assms(1) by (intro div_le_mono) simp
  then have "page_no prp1 k - 1 < (prp1 mod PAGE_SIZE + len - 1) div PAGE_SIZE" using assms(3) by linarith
  then show ?thesis using assms(2) by (simp add: prp_entries_def)
qed

lemma prp_byte_page:
  assumes "prp_valid m prp1 prp2 len" "page_start prp1 k" "k < len"
  shows "prp_byte m prp1 prp2 len k mod PAGE_SIZE = (if k = 0 then prp1 mod PAGE_SIZE else 0)"
proof (cases "k = 0")
  case False
  have al: "(prp1 mod PAGE_SIZE + k) mod PAGE_SIZE = 0" using assms(2) False by (simp add: page_start_def)
  have ge: "PAGE_SIZE \<le> prp1 mod PAGE_SIZE + k"
  proof (rule ccontr)
    assume "\<not> PAGE_SIZE \<le> prp1 mod PAGE_SIZE + k"
    then show False using al False by (simp add: mod_less)
  qed
  then have j: "0 < page_no prp1 k" by (simp add: div_greater_zero_iff)
  show ?thesis
    using assms(1,3) ge j al False page_no_less[OF assms(3) _ j]
    by (auto simp: prp_byte_def Let_def prp_valid_def)
qed (simp add: prp_byte_def)

text \<open>A piece ends with its page or with the transfer, and is a run of consecutive host addresses.\<close>

lemma piece_run:
  assumes v: "prp_valid m prp1 prp2 len" and k: "page_start prp1 k" "k < len"
  defines "n \<equiv> piece_size (len - k) (prp_byte m prp1 prp2 len k)"
  shows "k + n = len \<or> page_start prp1 (k + n) \<and> page_no prp1 (k + n) = Suc (page_no prp1 k)"
    and "\<And>i. i < n \<Longrightarrow> prp_byte m prp1 prp2 len (k + i) = prp_byte m prp1 prp2 len k + i"
proof -
  define o1 where "o1 = prp1 mod PAGE_SIZE"
  define r where "r = (o1 + k) mod PAGE_SIZE"
  have lt: "o1 < PAGE_SIZE" "r < PAGE_SIZE" by (simp_all add: o1_def r_def)
  have r: "prp_byte m prp1 prp2 len k mod PAGE_SIZE = r"
    using prp_byte_page[OF v k] k(1) by (auto simp: r_def o1_def page_start_def)
  have n: "n = min (len - k) (PAGE_SIZE - r)"
    using lt unfolding n_def piece_size_def Let_def r by (auto simp: min_def)
  have same: "page_no prp1 (k + i) = page_no prp1 k \<and> (o1 + (k + i)) mod PAGE_SIZE = r + i" if "i < n" for i
  proof -
    have e: "o1 + (k + i) = (r + i) + PAGE_SIZE * ((o1 + k) div PAGE_SIZE)"
      using mult_div_mod_eq[of PAGE_SIZE "o1 + k"] by (simp add: r_def)
    have "r + i < PAGE_SIZE" using that n by auto
    then show ?thesis unfolding o1_def[symmetric] e by simp
  qed
  show "prp_byte m prp1 prp2 len (k + i) = prp_byte m prp1 prp2 len k + i" if "i < n" for i
    using same[OF that] same[of 0] that unfolding prp_byte_def Let_def o1_def[symmetric] r_def[symmetric] by simp
  show "k + n = len \<or> page_start prp1 (k + n) \<and> page_no prp1 (k + n) = Suc (page_no prp1 k)"
  proof (cases "len - k \<le> PAGE_SIZE - r")
    case True
    then show ?thesis using n k(2) by simp
  next
    case False
    then have nn: "n = PAGE_SIZE - r" using n by simp
    define q where "q = (o1 + k) div PAGE_SIZE"
    have "PAGE_SIZE * q + r = o1 + k" unfolding q_def r_def by simp
    then have "o1 + (k + n) = PAGE_SIZE * Suc q" using nn lt(2) by simp
    then have "o1 + (k + n) = PAGE_SIZE * Suc ((o1 + k) div PAGE_SIZE)" by (simp only: q_def)
    then have "(o1 + (k + n)) mod PAGE_SIZE = 0" "(o1 + (k + n)) div PAGE_SIZE = Suc ((o1 + k) div PAGE_SIZE)" by simp_all
    then show ?thesis by (simp add: page_start_def o1_def)
  qed
qed

definition list_ptr :: "nat \<Rightarrow> nat \<Rightarrow> nat option" where
  "list_ptr prp2 j = (if 2 \<le> j then Some prp2 else None)"

lemma prp_fetch_ok:
  assumes v: "prp_valid m prp1 prp2 len" and k: "page_start prp1 k" "k < len"
    and same: "\<And>a. a \<in> prp_list_area prp1 prp2 len \<Longrightarrow> m' a = m a"
  shows "\<exists>p2 l. prp_fetch m' prp1 prp2 (page_no prp1 k + 1) (page_no prp1 k - 1) (list_ptr prp2 (page_no prp1 k)) (len - k) =
      Some (prp_byte m prp1 prp2 len k, p2, l) \<and>
    (page_start prp1 len' \<and> len' < len \<and> page_no prp1 len' = Suc (page_no prp1 k) \<longrightarrow>
      p2 = page_no prp1 k \<and> l = list_ptr prp2 (Suc (page_no prp1 k)))"
proof -
  define o1 where "o1 = prp1 mod PAGE_SIZE"
  define j where "j = page_no prp1 k"
  have lt: "o1 < PAGE_SIZE" by (simp add: o1_def)
  have jj: "j = (o1 + k) div PAGE_SIZE" by (simp add: j_def o1_def)
  have al: "0 < j \<Longrightarrow> o1 + k = PAGE_SIZE * j"
  proof -
    assume "0 < j"
    then have "k \<noteq> 0" using lt by (auto simp: jj)
    then have "(o1 + k) mod PAGE_SIZE = 0" using k(1) by (simp add: page_start_def o1_def)
    then show "o1 + k = PAGE_SIZE * j" unfolding jj by (simp add: mult.commute div_mult_mod_eq mod_0_imp_dvd)
  qed
  have z: "j = 0 \<Longrightarrow> k = 0"
  proof -
    assume "j = 0"
    then have "o1 + k < PAGE_SIZE" by (simp add: jj div_eq_0_iff)
    then show "k = 0" using k(1) by (auto simp: page_start_def o1_def[symmetric])
  qed
  have rd: "read64 m' (prp2 + 8 * (j - 1)) = read64 m (prp2 + 8 * (j - 1))" if "0 < j" "2 * PAGE_SIZE < o1 + len"
  proof (rule read64_cong)
    fix i :: nat assume "i < 8"
    moreover have "j - 1 < prp_entries prp1 len" using page_no_less[OF k(2)] that unfolding j_def o1_def by blast
    ultimately show "m' (prp2 + 8 * (j - 1) + i) = m (prp2 + 8 * (j - 1) + i)"
      by (intro same) (auto simp: prp_list_area_def)
  qed
  have byte: "prp_byte m prp1 prp2 len k =
      (if j = 0 then prp1 else if o1 + len \<le> 2 * PAGE_SIZE then prp2 else read64 m (prp2 + 8 * (j - 1)))"
    using z al unfolding prp_byte_def Let_def o1_def[symmetric] jj[symmetric] by auto
  consider (first) "j = 0" | (second) "j = 1" | (later) "2 \<le> j" by linarith
  then show ?thesis
  proof cases
    case first
    then show ?thesis unfolding j_def[symmetric] byte by (simp add: prp_fetch_def list_ptr_def)
  next
    case second
    then have ok: "o1 + k = PAGE_SIZE" using al by simp
    show ?thesis
    proof (cases "o1 + len \<le> 2 * PAGE_SIZE")
      case True
      have "\<not> (len' < len \<and> page_no prp1 len' = 2)"
      proof
        assume a: "len' < len \<and> page_no prp1 len' = 2"
        then have "2 * PAGE_SIZE \<le> o1 + len'" using times_div_less_eq_dividend[of PAGE_SIZE "o1 + len'"] unfolding o1_def[symmetric] by simp
        then show False using a True by simp
      qed
      then show ?thesis using second True ok k(2) unfolding j_def[symmetric] byte
        by (auto simp: prp_fetch_def list_ptr_def)
    next
      case False
      then have "PAGE_SIZE < len - k" using ok by linarith
      then show ?thesis using False second rd ok unfolding j_def[symmetric] byte
        by (simp add: prp_fetch_def list_ptr_def)
    qed
  next
    case later
    have "2 * PAGE_SIZE \<le> o1 + k" using al later by simp
    then have "2 * PAGE_SIZE < o1 + len" using k(2) by simp
    then show ?thesis using later rd unfolding j_def[symmetric] byte by (simp add: prp_fetch_def list_ptr_def)
  qed
qed

section \<open>The contract of an action\<close>

text \<open>An action moves the piece between the host page and the same bytes of a linear area that starts at \<open>base\<close>.\<close>

locale prp_copy =
  fixes mem :: "'s \<Rightarrow> memory" and act :: "nat option \<Rightarrow> nat \<Rightarrow> nat \<Rightarrow> nat \<Rightarrow> 's \<Rightarrow> 's" and base :: nat and to_host :: bool
  assumes act_mem: "mem (act prev paddr offset n s) =
    (if to_host then memcpy (mem s) paddr (base + offset) n else memcpy (mem s) (base + offset) paddr n)"
begin

definition src_byte :: "memory \<Rightarrow> nat \<Rightarrow> nat \<Rightarrow> nat \<Rightarrow> nat \<Rightarrow> nat \<Rightarrow> nat" where
  "src_byte m prp1 prp2 offset len k = (if to_host then base + offset + k else prp_byte m prp1 prp2 len k)"

definition dst_byte :: "memory \<Rightarrow> nat \<Rightarrow> nat \<Rightarrow> nat \<Rightarrow> nat \<Rightarrow> nat \<Rightarrow> nat" where
  "dst_byte m prp1 prp2 offset len k = (if to_host then prp_byte m prp1 prp2 len k else base + offset + k)"

lemma walk_from:
  assumes v: "prp_valid (mem s0) prp1 prp2 len"
    and inj: "inj_on (dst_byte (mem s0) prp1 prp2 offset len) {..<len}"
    and sep: "src_byte (mem s0) prp1 prp2 offset len ` {..<len} \<inter> dst_byte (mem s0) prp1 prp2 offset len ` {..<len} = {}"
    and lst: "prp_list_area prp1 prp2 len \<inter> dst_byte (mem s0) prp1 prp2 offset len ` {..<len} = {}"
  shows "page_start prp1 k \<Longrightarrow> k < len \<Longrightarrow>
    copied (src_byte (mem s0) prp1 prp2 offset len) (dst_byte (mem s0) prp1 prp2 offset len) k (mem s0) (mem s) \<Longrightarrow>
    \<exists>s'. prp_walk mem act prp1 prp2 (page_no prp1 k) (page_no prp1 k - 1) (list_ptr prp2 (page_no prp1 k)) prev
      (offset + k) (len - k) s = Some s' \<and>
    copied (src_byte (mem s0) prp1 prp2 offset len) (dst_byte (mem s0) prp1 prp2 offset len) len (mem s0) (mem s')"
proof (induction "len - k" arbitrary: k s prev rule: less_induct)
  case less
  let ?src = "src_byte (mem s0) prp1 prp2 offset len" and ?dst = "dst_byte (mem s0) prp1 prp2 offset len"
  let ?p = "prp_byte (mem s0) prp1 prp2 len"
  define n where "n = piece_size (len - k) (?p k)"
  have n: "0 < n" "k + n \<le> len" using piece_size_pos[of "len - k" "?p k"] piece_size_le[of "len - k" "?p k"] less.prems(2) by (auto simp: n_def)
  note run = piece_run[OF v less.prems(1,2), folded n_def]
  have "mem s a = mem s0 a" if "a \<in> prp_list_area prp1 prp2 len" for a
  proof -
    have "a \<notin> ?dst ` {..<k}" using lst that less.prems(2) by fastforce
    then show ?thesis using less.prems(3) by (simp add: copied_def)
  qed
  then obtain p2 l where f: "prp_fetch (mem s) prp1 prp2 (page_no prp1 k + 1) (page_no prp1 k - 1)
      (list_ptr prp2 (page_no prp1 k)) (len - k) = Some (?p k, p2, l)"
    "page_start prp1 (k + n) \<and> k + n < len \<and> page_no prp1 (k + n) = Suc (page_no prp1 k) \<longrightarrow>
      p2 = page_no prp1 k \<and> l = list_ptr prp2 (Suc (page_no prp1 k))"
    using prp_fetch_ok[OF v less.prems(1,2), of "mem s" "k + n"] by blast
  let ?s = "act prev (?p k) (offset + k) n s"
  have "copied ?src ?dst (k + n) (mem s0) (memcpy (mem s) (?dst k) (?src k) n)"
    using run(2) by (intro copied_step[OF less.prems(3) n(2) _ inj sep]) (auto simp: src_byte_def dst_byte_def)
  then have c: "copied ?src ?dst (k + n) (mem s0) (mem ?s)"
    by (simp add: act_mem src_byte_def dst_byte_def add.assoc split: if_splits)
  have w: "prp_walk mem act prp1 prp2 (page_no prp1 k) (page_no prp1 k - 1) (list_ptr prp2 (page_no prp1 k)) prev
      (offset + k) (len - k) s =
    prp_walk mem act prp1 prp2 (page_no prp1 k + 1) p2 l (Some (?p k)) (offset + (k + n)) (len - (k + n)) ?s"
    using less.prems(2) f(1) by (subst prp_walk.simps) (simp add: n_def[symmetric] add.assoc)
  show ?case
  proof (cases "k + n = len")
    case True
    then show ?thesis using w c by (simp add: prp_walk.simps)
  next
    case False
    then have nx: "page_start prp1 (k + n)" "page_no prp1 (k + n) = Suc (page_no prp1 k)" "k + n < len"
      using run(1) n(2) by auto
    then have "p2 = page_no prp1 k" "l = list_ptr prp2 (Suc (page_no prp1 k))" using f(2) by auto
    then show ?thesis using less.hyps[OF _ nx(1,3) c, of "Some (?p k)"] w nx(2,3) n(1) by simp
  qed
qed

lemma walk_copies:
  assumes "prp_valid (mem s) prp1 prp2 len"
    "inj_on (dst_byte (mem s) prp1 prp2 offset len) {..<len}"
    "src_byte (mem s) prp1 prp2 offset len ` {..<len} \<inter> dst_byte (mem s) prp1 prp2 offset len ` {..<len} = {}"
    "prp_list_area prp1 prp2 len \<inter> dst_byte (mem s) prp1 prp2 offset len ` {..<len} = {}"
  shows "\<exists>s'. prp_walk mem act prp1 prp2 0 0 None prev offset len s = Some s' \<and>
    copied (src_byte (mem s) prp1 prp2 offset len) (dst_byte (mem s) prp1 prp2 offset len) len (mem s) (mem s')"
proof (cases "len = 0")
  case False
  then show ?thesis
    using walk_from[OF assms, of 0 s prev] by (auto simp: page_start_def list_ptr_def copied_def)
qed (simp add: prp_walk.simps copied_def)

end

section \<open>Between a buffer and the host\<close>

text \<open>\<^verbatim>\<open>__prp_transfer_data\<close> of src/zns\_mgmt\_recv.c moves a buffer at address \<open>buffer\<close> to the host, or from it.\<close>

definition prp_act :: "nat \<Rightarrow> nat \<Rightarrow> nat option \<Rightarrow> nat \<Rightarrow> nat \<Rightarrow> nat \<Rightarrow> memory \<Rightarrow> memory" where
  "prp_act io buffer prev paddr offset n m =
    (if io = 0 then memcpy m paddr (buffer + offset) n else memcpy m (buffer + offset) paddr n)"

definition prp_transfer_data :: "nat \<Rightarrow> nat \<Rightarrow> nat \<Rightarrow> nat \<Rightarrow> nat \<Rightarrow> memory \<Rightarrow> (memory \<times> nat) option" where
  "prp_transfer_data prp1 prp2 buffer len io m = do {
     m' \<leftarrow> prp_walk id (prp_act io buffer) prp1 prp2 0 0 None None 0 len m;
     Some (m', len)
   }"

interpretation report: prp_copy id "prp_act 0 buffer" buffer True for buffer
  by unfold_locales (simp add: prp_act_def)

text \<open>The loop needs a list it was not given only when the data ends in the second page and that page does not start at
  its beginning.  In every other case it ends, whatever the memory and the list in it hold.\<close>

definition prp_walkable :: "nat \<Rightarrow> nat \<Rightarrow> nat \<Rightarrow> bool" where
  "prp_walkable prp1 prp2 len \<longleftrightarrow> (PAGE_SIZE < prp1 mod PAGE_SIZE + len \<and> prp1 mod PAGE_SIZE + len \<le> 2 * PAGE_SIZE \<longrightarrow> prp2 mod PAGE_SIZE = 0)"

lemma prp_walk_list: "2 \<le> offs \<Longrightarrow> \<exists>s'. prp_walk mem act prp1 prp2 offs p2 (Some l) prev offset remaining s = Some s'"
proof (induction remaining arbitrary: offs p2 prev offset s rule: less_induct)
  case (less remaining)
  show ?case
  proof (cases "remaining = 0")
    case True
    then show ?thesis by (simp add: prp_walk.simps)
  next
    case False
    define a where "a = read64 (mem s) (l + 8 * p2)"
    have "prp_fetch (mem s) prp1 prp2 (offs + 1) p2 (Some l) remaining = Some (a, p2 + 1, Some l)"
      using less.prems by (simp add: prp_fetch_def a_def)
    moreover have "remaining - piece_size remaining a < remaining" using False piece_size_pos[of remaining a] by simp
    ultimately show ?thesis using less.IH[of "remaining - piece_size remaining a" "offs + 1"] less.prems False
      by (subst prp_walk.simps) (simp add: Let_def)
  qed
qed

lemma prp_walk_total:
  assumes "prp_walkable prp1 prp2 len"
  shows "\<exists>s'. prp_walk mem act prp1 prp2 0 0 None prev offset len s = Some s'"
proof (cases "len = 0")
  case True
  then show ?thesis by (simp add: prp_walk.simps)
next
  case False
  let ?n = "piece_size len prp1"
  have one: "prp_walk mem act prp1 prp2 0 0 None prev offset len s =
      prp_walk mem act prp1 prp2 1 0 None (Some prp1) (offset + ?n) (len - ?n) (act prev prp1 offset ?n s)"
    using False by (subst prp_walk.simps) (simp add: prp_fetch_def Let_def)
  define t where "t = act prev prp1 offset ?n s"
  define r where "r = len - ?n"
  have one: "prp_walk mem act prp1 prp2 0 0 None prev offset len s = prp_walk mem act prp1 prp2 1 0 None (Some prp1) (offset + ?n) r t"
    using one by (simp add: t_def r_def)
  consider (over) "r = 0" | (more) "r > PAGE_SIZE" | (two) "0 < r" "r \<le> PAGE_SIZE" by linarith
  then show ?thesis
  proof cases
    case over
    then show ?thesis using one by (simp add: prp_walk.simps)
  next
    case more
    define a where "a = read64 (mem t) prp2"
    have "prp_walk mem act prp1 prp2 1 0 None (Some prp1) (offset + ?n) r t =
        prp_walk mem act prp1 prp2 2 1 (Some prp2) (Some a) (offset + ?n + piece_size r a) (r - piece_size r a)
          (act (Some prp1) a (offset + ?n) (piece_size r a) t)"
      using more by (subst prp_walk.simps) (auto simp: prp_fetch_def Let_def numeral_2_eq_2 a_def)
    then show ?thesis using one prp_walk_list[of 2] by simp
  next
    case two
    have "?n = PAGE_SIZE - prp1 mod PAGE_SIZE" using two by (auto simp: r_def piece_size_def Let_def min_def split: if_splits)
    then have "PAGE_SIZE < prp1 mod PAGE_SIZE + len" "prp1 mod PAGE_SIZE + len \<le> 2 * PAGE_SIZE"
      using two mod_less_divisor[of PAGE_SIZE prp1] unfolding r_def by linarith+
    then have "piece_size r prp2 = r" using assms two(2) by (simp add: prp_walkable_def piece_size_def Let_def)
    then have "prp_walk mem act prp1 prp2 1 0 None (Some prp1) (offset + ?n) r t =
        prp_walk mem act prp1 prp2 2 0 None (Some prp2) (offset + ?n + r) 0 (act (Some prp1) prp2 (offset + ?n) r t)"
      using two by (subst prp_walk.simps) (auto simp: prp_fetch_def Let_def numeral_2_eq_2)
    then show ?thesis using one by (simp add: prp_walk.simps)
  qed
qed

lemma prp_transfer_total: "prp_walkable prp1 prp2 len \<Longrightarrow> \<exists>m'. prp_transfer_data prp1 prp2 buffer len io m = Some (m', len)"
  using prp_walk_total[of prp1 prp2 len id "prp_act io buffer" None 0 m] by (auto simp: prp_transfer_data_def)

end
