(* ===== verification/Zns_Mgmt.thy ===== *)
theory Zns_Mgmt
  imports Zns_Ftl Prp
begin

text \<open>
  Zone management (src/zns\_mgmt\_send.c, src/zns\_mgmt\_recv.c).  Every operation returns the new state and the status code;
  None stands for an access outside the array of descriptors or the report buffer, or a division by zero.
\<close>

section \<open>State transitions\<close>

definition zmgmt_send_close_zone :: "zns_ftl \<Rightarrow> nat \<Rightarrow> (zns_ftl \<times> nat) option" where
  "zmgmt_send_close_zone zf zid = do {
     d \<leftarrow> array_read (zf_descs zf) zid;
     Some (case zd_state d of
       ZONE_STATE_OPENED_IMPL \<Rightarrow> (release_zone_resource (change_zone_state zf zid ZONE_STATE_CLOSED) OPEN_ZONE, NVME_SC_SUCCESS)
     | ZONE_STATE_OPENED_EXPL \<Rightarrow> (release_zone_resource (change_zone_state zf zid ZONE_STATE_CLOSED) OPEN_ZONE, NVME_SC_SUCCESS)
     | ZONE_STATE_CLOSED \<Rightarrow> (zf, NVME_SC_SUCCESS)
     | _ \<Rightarrow> (zf, NVME_SC_ZNS_INVALID_TRANSITION))
   }"

text \<open>What finishing and resetting a zone do first: an open zone gives its open resource back, an open or closed zone its
  active and its random write area resource.\<close>

definition release_active :: "zns_ftl \<Rightarrow> zone_descriptor \<Rightarrow> zns_ftl" where
  "release_active zf d =
    (let zf1 = (if zd_state d = ZONE_STATE_CLOSED then zf else release_zone_resource zf OPEN_ZONE);
         zf2 = release_zone_resource zf1 ACTIVE_ZONE
     in if zd_zrwav d then release_zone_resource zf2 ZRWA_ZONE else zf2)"

definition zmgmt_send_finish_zone :: "zns_ftl \<Rightarrow> nat \<Rightarrow> (zns_ftl \<times> nat) option" where
  "zmgmt_send_finish_zone zf zid = do {
     d \<leftarrow> array_read (zf_descs zf) zid;
     Some (case zd_state d of
       ZONE_STATE_OPENED_IMPL \<Rightarrow> (change_zone_state (release_active zf d) zid ZONE_STATE_FULL, NVME_SC_SUCCESS)
     | ZONE_STATE_OPENED_EXPL \<Rightarrow> (change_zone_state (release_active zf d) zid ZONE_STATE_FULL, NVME_SC_SUCCESS)
     | ZONE_STATE_CLOSED \<Rightarrow> (change_zone_state (release_active zf d) zid ZONE_STATE_FULL, NVME_SC_SUCCESS)
     | ZONE_STATE_EMPTY \<Rightarrow> (change_zone_state zf zid ZONE_STATE_FULL, NVME_SC_SUCCESS)
     | ZONE_STATE_FULL \<Rightarrow> (zf, NVME_SC_SUCCESS)
     | _ \<Rightarrow> (zf, NVME_SC_ZNS_INVALID_TRANSITION))
   }"

text \<open>The cases of the switch fall through: from a closed zone the open resource is acquired, then the state changes.\<close>

definition open_closed :: "zns_ftl \<Rightarrow> nat \<Rightarrow> zns_ftl \<times> nat" where
  "open_closed zf zid =
    (let (zf1, ok) = acquire_zone_resource zf OPEN_ZONE
     in if ok then (change_zone_state zf1 zid ZONE_STATE_OPENED_EXPL, NVME_SC_SUCCESS)
        else (zf1, NVME_SC_ZNS_NO_OPEN_ZONE))"

definition open_empty :: "zns_ftl \<Rightarrow> nat \<Rightarrow> bool \<Rightarrow> zns_ftl \<times> nat" where
  "open_empty zf zid zrwa =
    (if is_zone_resource_full zf ACTIVE_ZONE then (zf, NVME_SC_ZNS_NO_ACTIVE_ZONE)
     else if is_zone_resource_full zf OPEN_ZONE then (zf, NVME_SC_ZNS_NO_OPEN_ZONE)
     else if zrwa \<and> is_zone_resource_full zf ZRWA_ZONE then (zf, NVME_SC_ZNS_ZRWA_RSRC_UNAVAIL)
     else
       let zf1 = (if zrwa then set_desc (fst (acquire_zone_resource zf ZRWA_ZONE)) zid (\<lambda>d. d\<lparr>zd_zrwav := True\<rparr>) else zf)
       in open_closed (fst (acquire_zone_resource zf1 ACTIVE_ZONE)) zid)"

definition zmgmt_send_open_zone :: "zns_ftl \<Rightarrow> nat \<Rightarrow> bool \<Rightarrow> (zns_ftl \<times> nat) option" where
  "zmgmt_send_open_zone zf zid zrwa = do {
     d \<leftarrow> array_read (zf_descs zf) zid;
     Some (case zd_state d of
       ZONE_STATE_EMPTY \<Rightarrow> open_empty zf zid zrwa
     | ZONE_STATE_CLOSED \<Rightarrow> open_closed zf zid
     | ZONE_STATE_OPENED_IMPL \<Rightarrow> (change_zone_state zf zid ZONE_STATE_OPENED_EXPL, NVME_SC_SUCCESS)
     | ZONE_STATE_OPENED_EXPL \<Rightarrow> (zf, NVME_SC_SUCCESS)
     | _ \<Rightarrow> (zf, NVME_SC_ZNS_INVALID_TRANSITION))
   }"

definition zero_range :: "(nat \<Rightarrow> u8) \<Rightarrow> nat \<Rightarrow> nat \<Rightarrow> nat \<Rightarrow> u8" where
  "zero_range m start n = (\<lambda>a. if start \<le> a \<and> a < start + n then 0 else m a)"

definition reset_zone :: "zns_ftl \<Rightarrow> nat \<Rightarrow> zns_ftl option" where
  "reset_zone zf zid = do {
     let zp = zf_zp zf;
     let zf1 = (set_desc zf zid (\<lambda>d. d\<lparr>zd_wp := zd_zslba d, zd_zrwav := False\<rparr>))
                 \<lparr>zf_storage := zero_range (zf_storage zf) (zid * zp_zone_size zp) (zp_zone_size zp)\<rparr>;
     (if zp_zrwa_buffer_size zp \<noteq> 0 then do {
        b \<leftarrow> array_read (zf_zwra_bufs zf1) zid;
        Some (zf1\<lparr>zf_zwra_bufs := (zf_zwra_bufs zf1)[zid := buffer_refill b]\<rparr>)
      }
      else Some zf1)
   }"

definition zmgmt_send_reset_zone :: "zns_ftl \<Rightarrow> nat \<Rightarrow> (zns_ftl \<times> nat) option" where
  "zmgmt_send_reset_zone zf zid = do {
     d \<leftarrow> array_read (zf_descs zf) zid;
     let go = (\<lambda>z. do { z' \<leftarrow> reset_zone (change_zone_state z zid ZONE_STATE_EMPTY) zid; Some (z', NVME_SC_SUCCESS) });
     (case zd_state d of
       ZONE_STATE_OPENED_IMPL \<Rightarrow> go (release_active zf d)
     | ZONE_STATE_OPENED_EXPL \<Rightarrow> go (release_active zf d)
     | ZONE_STATE_CLOSED \<Rightarrow> go (release_active zf d)
     | ZONE_STATE_FULL \<Rightarrow> go zf
     | ZONE_STATE_EMPTY \<Rightarrow> go zf
     | _ \<Rightarrow> Some (zf, NVME_SC_ZNS_INVALID_TRANSITION))
   }"

definition zmgmt_send_offline_zone :: "zns_ftl \<Rightarrow> nat \<Rightarrow> (zns_ftl \<times> nat) option" where
  "zmgmt_send_offline_zone zf zid = do {
     d \<leftarrow> array_read (zf_descs zf) zid;
     Some (case zd_state d of
       ZONE_STATE_READ_ONLY \<Rightarrow> (change_zone_state zf zid ZONE_STATE_OFFLINE, NVME_SC_SUCCESS)
     | ZONE_STATE_OFFLINE \<Rightarrow> (zf, NVME_SC_SUCCESS)
     | _ \<Rightarrow> (zf, NVME_SC_ZNS_INVALID_TRANSITION))
   }"

text \<open>The end of the random write area is computed in 64 bits, from the write pointer; with an area of no blocks and the
  write pointer at 0 it wraps.\<close>

definition zrwa_flush :: "zns_ftl \<Rightarrow> nat \<Rightarrow> zone_descriptor \<Rightarrow> nat \<Rightarrow> zns_ftl" where
  "zrwa_flush zf zid d slba =
    (let zf1 = set_desc zf zid (\<lambda>d. d\<lparr>zd_wp := (slba + 1) mod 2 ^ 64\<rparr>)
     in if (slba + 1) mod 2 ^ 64 = (zone_to_slba zf zid + zd_capacity d) mod 2 ^ 64
        then let zf2 = (if zd_state d = ZONE_STATE_CLOSED then zf1 else release_zone_resource zf1 OPEN_ZONE);
                 zf3 = release_zone_resource (release_zone_resource zf2 ACTIVE_ZONE) ZRWA_ZONE
             in change_zone_state zf3 zid ZONE_STATE_FULL
        else zf1)"

definition zmgmt_send_flush_explicit_zrwa :: "zns_ftl \<Rightarrow> nat \<Rightarrow> (zns_ftl \<times> nat) option" where
  "zmgmt_send_flush_explicit_zrwa zf slba = do {
     let zid = lba_to_zone zf slba;
     d \<leftarrow> array_read (zf_descs zf) zid;
     let zrwa_end = min (dec64 ((zd_wp d + zp_lbas_per_zrwa (zf_zp zf)) mod 2 ^ 64))
                        (dec64 ((zone_to_slba zf zid + zd_capacity d) mod 2 ^ 64));
     let nr_lbas_flush = (slba + (2 ^ 64 - zd_wp d) + 1) mod 2 ^ 64;
     if \<not> zd_zrwav d then Some (zf, NVME_SC_ZNS_INVALID_ZONE_OPERATION)
     else if \<not> (zd_wp d \<le> slba \<and> slba \<le> zrwa_end) then Some (zf, NVME_SC_ZNS_INVALID_ZONE_OPERATION)
     else if zp_lbas_per_zrwafg (zf_zp zf) = 0 then None
     else if nr_lbas_flush mod zp_lbas_per_zrwafg (zf_zp zf) \<noteq> 0 then Some (zf, NVME_SC_INVALID_FIELD)
     else Some (case zd_state d of
       ZONE_STATE_OPENED_EXPL \<Rightarrow> (zrwa_flush zf zid d slba, NVME_SC_SUCCESS)
     | ZONE_STATE_OPENED_IMPL \<Rightarrow> (zrwa_flush zf zid d slba, NVME_SC_SUCCESS)
     | ZONE_STATE_CLOSED \<Rightarrow> (zrwa_flush zf zid d slba, NVME_SC_SUCCESS)
     | _ \<Rightarrow> (zf, NVME_SC_ZNS_INVALID_ZONE_OPERATION))
   }"

section \<open>The send command\<close>

definition RESET_LATENCY :: u64 where "RESET_LATENCY = 2000000"

text \<open>Last logical block of a command; the sum wraps at 64 bits.\<close>

definition end_lba :: "nat \<Rightarrow> nat \<Rightarrow> nat" where
  "end_lba slba n = dec64 ((slba + n) mod 2 ^ 64)"

text \<open>How many pages of a wordline a loop over pages handles at once.\<close>

definition chunk_pgs :: "zns_ftl \<Rightarrow> nat \<Rightarrow> nat \<Rightarrow> nat \<Rightarrow> nat" where
  "chunk_pgs zf per elpn lpn = min (elpn - lpn + 1) (per - p_pg (lpn_to_ppa zf lpn) mod per)"

lemma chunk_pgs_pos [simp]: "per \<noteq> 0 \<Longrightarrow> 0 < chunk_pgs zf per elpn lpn"
  by (simp add: chunk_pgs_def)

text \<open>A wordline is programmed (or, on a reset, erased) when the chunk reaches its end or the end of the zone.\<close>

definition chunk_ends :: "zns_ftl \<Rightarrow> nat \<Rightarrow> nat \<Rightarrow> nat \<Rightarrow> nat \<Rightarrow> bool" where
  "chunk_ends zf per zone_elpn elpn lpn \<longleftrightarrow>
     p_pg (lpn_to_ppa zf lpn) mod per + chunk_pgs zf per elpn lpn = per \<or> lpn + chunk_pgs zf per elpn lpn - 1 = zone_elpn"

definition reset_lun :: "zns_ftl \<Rightarrow> nat \<Rightarrow> ssd \<times> u64 \<times> u64 \<Rightarrow> (ssd \<times> u64 \<times> u64) option" where
  "reset_lun zf lpn = (\<lambda>(s, stime, maxlat). do {
     let (s1, stime1) = max_cstime_vs_ioclock stime s;
     let a = lpn_to_ppa zf lpn;
     lun \<leftarrow> get_lun s1 a;
     let avail = max (l_next_avail lun) stime1 + RESET_LATENCY;
     Some (set_lun s1 a (lun\<lparr>l_next_avail := avail\<rparr>), stime1, max (avail - stime1) maxlat)
   })"

function reset_luns :: "zns_ftl \<Rightarrow> nat \<Rightarrow> nat \<Rightarrow> nat \<Rightarrow> ssd \<times> u64 \<times> u64 \<Rightarrow> (ssd \<times> u64 \<times> u64) option" where
  "reset_luns zf zone_elpn elpn lpn st =
    (if elpn < lpn then Some st
     else if pgs_per_oneshotpg (zf_sp zf) = 0 then None
     else do {
       let per = pgs_per_oneshotpg (zf_sp zf);
       st' \<leftarrow> (if chunk_ends zf per zone_elpn elpn lpn then reset_lun zf lpn st else Some st);
       reset_luns zf zone_elpn elpn (lpn + chunk_pgs zf per elpn lpn) st'
     })"
  by pat_completeness auto
termination
  by (relation "measure (\<lambda>(zf, zone_elpn, elpn, lpn, st). Suc elpn - lpn)") (auto intro: diff_less_mono2)

declare reset_luns.simps [simp del]

text \<open>An unknown action leaves the status variable uninitialised: its value is the argument \<open>garbage\<close>.  The result has the
  delay that is added to the completion time.\<close>

definition zmgmt_send :: "nat \<Rightarrow> zns_ftl \<Rightarrow> nat \<Rightarrow> nat \<Rightarrow> bool \<Rightarrow> nvmev_request \<Rightarrow> (zns_ftl \<times> nat \<times> u64) option" where
  "zmgmt_send garbage zf slba action opt rq = do {
     nvmev_assert (zns_geo zf);
     let zid = lba_to_zone zf slba;
     let slpn = lba_to_lpn zf slba;
     let elpn = lba_to_lpn zf (end_lba slba (nr_lba (rq_cmd rq)));
     let no_delay = (\<lambda>(z, st). (z, st, 0));
     if action = 1 then map_option no_delay (zmgmt_send_close_zone zf zid)
     else if action = 2 then map_option no_delay (zmgmt_send_finish_zone zf zid)
     else if action = 3 then map_option no_delay (zmgmt_send_open_zone zf zid opt)
     else if action = 4 then do {
       (zf1, st) \<leftarrow> zmgmt_send_reset_zone zf zid;
       (s, _, maxlat) \<leftarrow> reset_luns zf1 (zone_to_elpn zf zid) elpn slpn (zf_ssd zf1, rq_nsecs_start rq, 0);
       Some (zf1\<lparr>zf_ssd := s\<rparr>, st, maxlat)
     }
     else if action = 5 then map_option no_delay (zmgmt_send_offline_zone zf zid)
     else if action = 17 then map_option no_delay (zmgmt_send_flush_explicit_zrwa zf slba)
     else Some (zf, garbage, 0)
   }"

definition zns_zmgmt_send :: "nat \<Rightarrow> zns_ftl \<Rightarrow> nvmev_request \<Rightarrow> (zns_ftl \<times> nvmev_result) option" where
  "zns_zmgmt_send garbage zf rq = do {
     nvmev_assert (zns_geo zf);
     let c = rq_cmd rq;
     if cmd_select_all c then do {
       (zf', t) \<leftarrow> foldM (\<lambda>zid (z, t). do {
            (z', _, lat) \<leftarrow> zmgmt_send garbage z (zone_to_slba z zid) (cmd_zsa c) (cmd_zsaso c) rq;
            Some (z', t + lat) }) [0..<zp_nr_zones (zf_zp zf)] (zf, rq_nsecs_start rq);
       Some (zf', \<lparr>rs_status = NVME_SC_SUCCESS, rs_nsecs_target = t\<rparr>)
     }
     else do {
       (zf', st, lat) \<leftarrow> zmgmt_send garbage zf (unat (c_slba c)) (cmd_zsa c) (cmd_zsaso c) rq;
       Some (zf', \<lparr>rs_status = st, rs_nsecs_target = rq_nsecs_start rq + lat\<rparr>)
     }
   }"

section \<open>The receive command\<close>

record zone_report =
  zr_nr_zones :: nat
  zr_zd :: "zone_descriptor list"

text \<open>A descriptor has 64 bytes.  Copying descriptors past the end of the array is an access out of bounds.\<close>

definition fill_zone_report :: "zns_ftl \<Rightarrow> nvme_command \<Rightarrow> zone_report option" where
  "fill_zone_report zf c = do {
     let start = lba_to_zone zf (unat (c_slba c));
     let bytes = ((cmd_nr_dw c + 1) mod 2 ^ 32) * 4;
     let n = (if cmd_zra_features c = 0 then (zp_nr_zones (zf_zp zf) + (2 ^ 64 - start)) mod 2 ^ 64
              else (bytes div 64 + (2 ^ 64 - 1)) mod 2 ^ 64);
     nvmev_assert (start + n \<le> length (zf_descs zf));
     Some \<lparr>zr_nr_zones = n, zr_zd = take n (drop start (zf_descs zf))\<rparr>
   }"

definition check_zmgmt_rcv_option_supported :: "nvme_command \<Rightarrow> bool" where
  "check_zmgmt_rcv_option_supported c \<longleftrightarrow> cmd_zra c = 0 \<and> cmd_zra_field c = 0"

text \<open>The report as it lies in memory: a header of 64 bytes, of which the first eight are set, and the descriptors.  The bits
  of a descriptor that the program never sets are zero.\<close>

fun zone_state_code :: "zone_state \<Rightarrow> nat" where
  "zone_state_code ZONE_STATE_EMPTY = 1"
| "zone_state_code ZONE_STATE_OPENED_IMPL = 2"
| "zone_state_code ZONE_STATE_OPENED_EXPL = 3"
| "zone_state_code ZONE_STATE_CLOSED = 4"
| "zone_state_code ZONE_STATE_READ_ONLY = 13"
| "zone_state_code ZONE_STATE_FULL = 14"
| "zone_state_code ZONE_STATE_OFFLINE = 15"

definition zd_bytes :: "zone_descriptor \<Rightarrow> bytes" where
  "zd_bytes d = [of_nat (zd_type d), of_nat (16 * zone_state_code (zd_state d)), (if zd_zrwav d then 8 else 0), 0, 0, 0, 0, 0] @
     le_bytes 8 (zd_capacity d) @ le_bytes 8 (zd_zslba d) @ le_bytes 8 (zd_wp d) @ replicate 32 0"

definition put_report :: "nat \<Rightarrow> zone_report \<Rightarrow> memory \<Rightarrow> memory" where
  "put_report buffer r m = write_bytes (write_bytes m buffer (le_bytes 8 (zr_nr_zones r))) (buffer + 64) (concat (map zd_bytes (zr_zd r)))"

text \<open>The buffer \<^verbatim>\<open>report_buffer\<close> has room for the header, one descriptor and one for every zone.\<close>

definition report_size :: "zns_ftl \<Rightarrow> nat" where
  "report_size zf = 128 + 64 * zp_nr_zones (zf_zp zf)"

definition recv_length :: "nvme_command \<Rightarrow> nat" where
  "recv_length c = ((cmd_nr_dw c + 1) mod 2 ^ 32) * 4"

text \<open>The report is put together in the buffer at address \<open>buffer\<close>, and as many bytes as the host asks for are copied to its
  pages, whether they are in the buffer or not.  To read behind the buffer is None.\<close>

definition zns_zmgmt_recv :: "nat \<Rightarrow> zns_ftl \<Rightarrow> nvmev_request \<Rightarrow> memory \<Rightarrow> (memory \<times> nvmev_result) option" where
  "zns_zmgmt_recv buffer zf rq m = do {
     nvmev_assert (zns_geo zf);
     if check_zmgmt_rcv_option_supported (rq_cmd rq) then do {
       rep \<leftarrow> fill_zone_report zf (rq_cmd rq);
       nvmev_assert (recv_length (rq_cmd rq) \<le> report_size zf);
       (m', _) \<leftarrow> prp_transfer_data (c_prp1 (rq_cmd rq)) (c_prp2 (rq_cmd rq)) buffer (recv_length (rq_cmd rq)) 0 (put_report buffer rep m);
       Some (m', \<lparr>rs_status = NVME_SC_SUCCESS, rs_nsecs_target = rq_nsecs_start rq\<rparr>)
     }
     else Some (m, \<lparr>rs_status = NVME_SC_INVALID_FIELD, rs_nsecs_target = rq_nsecs_start rq\<rparr>)
   }"

end
