(* ===== verification/Zns_Rw.thy ===== *)
theory Zns_Rw
  imports Zns_Mgmt
begin

text \<open>
  Reads and writes of a drive with zones (src/zns\_read\_write.c, src/zns\_read\_write.h) and the dispatch of its commands
  (\<^verbatim>\<open>zns_proc_nvme_io_cmd\<close> of src/zns\_ftl.c).  A write returns the command, whose start address an append
  overwrites with the write pointer, the result structure, or None where the C function returns false, and the messages for
  the I/O workers.
\<close>

definition check_boundary_error :: "zns_ftl \<Rightarrow> nat \<Rightarrow> nat \<Rightarrow> bool" where
  "check_boundary_error zf slba n \<longleftrightarrow> lba_to_zone zf slba = lba_to_zone zf (end_lba slba n)"

definition increase_write_ptr :: "zns_ftl \<Rightarrow> nat \<Rightarrow> nat \<Rightarrow> zns_ftl" where
  "increase_write_ptr zf zid n =
    (let d = zf_descs zf ! zid;
         wp = (zd_wp d + n mod 2 ^ 32) mod 2 ^ 64;
         zf1 = set_desc zf zid (\<lambda>d. d\<lparr>zd_wp := wp\<rparr>)
     in if wp = (zone_to_slba zf zid + zd_capacity d) mod 2 ^ 64
        then change_zone_state (release_zone_resource (release_zone_resource zf1 OPEN_ZONE) ACTIVE_ZONE) zid ZONE_STATE_FULL
        else zf1)"

section \<open>Buffers\<close>

definition zone_wbuf :: "zns_ftl \<Rightarrow> nat \<Rightarrow> wbuf_ref" where
  "zone_wbuf zf zid = (if zp_zone_wb_size (zf_zp zf) \<noteq> 0 then Zone_wb zid else Global_wb)"

fun get_wbuf :: "zns_ftl \<Rightarrow> wbuf_ref \<Rightarrow> buffer option" where
  "get_wbuf zf Global_wb = Some (ssd_write_buffer (zf_ssd zf))"
| "get_wbuf zf (Zone_wb i) = array_read (zf_wbufs zf) i"
| "get_wbuf zf (Zrwa_wb i) = array_read (zf_zwra_bufs zf) i"

fun put_wbuf :: "zns_ftl \<Rightarrow> wbuf_ref \<Rightarrow> buffer \<Rightarrow> zns_ftl" where
  "put_wbuf zf Global_wb b = zf\<lparr>zf_ssd := (zf_ssd zf)\<lparr>ssd_write_buffer := b\<rparr>\<rparr>"
| "put_wbuf zf (Zone_wb i) b = zf\<lparr>zf_wbufs := (zf_wbufs zf)[i := b]\<rparr>"
| "put_wbuf zf (Zrwa_wb i) b = zf\<lparr>zf_zwra_bufs := (zf_zwra_bufs zf)[i := b]\<rparr>"

section \<open>Writes\<close>

type_synonym prog_state = "ssd \<times> u64 \<times> zns_op list"

text \<open>Programming one wordline and scheduling the release of buffer space.\<close>

definition program_page :: "zns_ftl \<Rightarrow> nvmev_request \<Rightarrow> wbuf_ref \<Rightarrow> u64 \<Rightarrow> nat \<Rightarrow> nat \<Rightarrow> prog_state \<Rightarrow> prog_state option" where
  "program_page zf rq buf stime release lpn = (\<lambda>(s, latest, ops). do {
     let spp = zf_sp zf;
     (s', _, t) \<leftarrow> ssd_advance_nand s \<lparr>nc_type = USER_IO, nc_cmd = NAND_WRITE,
        nc_xfer_size = pgs_per_oneshotpg spp * pgsz spp, nc_stime = stime, nc_interleave_pci_dma = False,
        nc_ppa = lpn_to_ppa zf lpn, nc_arrive_time = 0\<rparr>;
     Some (s', max t latest, ops @ [\<lparr>io_sq_id = rq_sq_id rq, io_nsecs = t, io_bytes = release, io_wbuf = buf\<rparr>])
   })"

definition release_size :: "zns_ftl \<Rightarrow> nat \<Rightarrow> nat \<Rightarrow> nat" where
  "release_size zf zone_elpn last_lpn =
    (let one = pgs_per_oneshotpg (zf_sp zf) * pgsz (zf_sp zf); unaligned = zp_zone_size (zf_zp zf) mod one
     in if last_lpn = zone_elpn \<and> unaligned > 0 then unaligned else one)"

function program_loop ::
  "zns_ftl \<Rightarrow> nvmev_request \<Rightarrow> wbuf_ref \<Rightarrow> u64 \<Rightarrow> nat \<Rightarrow> nat \<Rightarrow> nat \<Rightarrow> prog_state \<Rightarrow> prog_state option" where
  "program_loop zf rq buf stime zone_elpn elpn lpn st =
    (if elpn < lpn then Some st
     else if pgs_per_oneshotpg (zf_sp zf) = 0 then None
     else do {
       let per = pgs_per_oneshotpg (zf_sp zf);
       let pgs = chunk_pgs zf per elpn lpn;
       st' \<leftarrow> (if chunk_ends zf per zone_elpn elpn lpn
               then program_page zf rq buf stime (release_size zf zone_elpn (lpn + pgs - 1)) lpn st else Some st);
       program_loop zf rq buf stime zone_elpn elpn (lpn + pgs) st'
     })"
  by pat_completeness auto
termination
  by (relation "measure (\<lambda>(zf, rq, buf, stime, zone_elpn, elpn, lpn, st). Suc elpn - lpn)") (auto intro: diff_less_mono2)

declare program_loop.simps [simp del]

definition write_result :: "zns_ftl \<Rightarrow> nvmev_request \<Rightarrow> nat \<Rightarrow> u64 \<Rightarrow> u64 \<Rightarrow> nvmev_result" where
  "write_result zf rq status latest xfer = \<lparr>rs_status = status,
     rs_nsecs_target = (if fua (rq_cmd rq) \<or> \<not> write_early_completion (zf_sp zf) then latest else xfer)\<rparr>"

text \<open>The checks of a plain write, in their order, with the resources it acquires: the new state, or the status of the
  error.  The cases for a full and a read-only zone have no break, so their status is overwritten.\<close>

definition write_admit :: "zns_ftl \<Rightarrow> nat \<Rightarrow> zone_descriptor \<Rightarrow> nat \<Rightarrow> nat \<Rightarrow> (nat + zns_ftl) option" where
  "write_admit zf zid d slba n = do {
     nvmev_assert (write_unit_size (zf_sp zf) \<noteq> 0);
     let open_it = (\<lambda>z. let (z1, ok) = acquire_zone_resource z OPEN_ZONE
                        in if ok then Inr (change_zone_state z1 zid ZONE_STATE_OPENED_IMPL) else Inl NVME_SC_ZNS_NO_OPEN_ZONE);
     Some (if LBA_TO_BYTE n mod write_unit_size (zf_sp zf) \<noteq> 0 then Inl NVME_SC_ZNS_INVALID_WRITE
       else if \<not> check_boundary_error zf slba n then Inl NVME_SC_ZNS_ERR_BOUNDARY
       else if slba \<noteq> zd_wp d then Inl NVME_SC_ZNS_INVALID_WRITE
       else case zd_state d of
         ZONE_STATE_EMPTY \<Rightarrow>
           if slba \<noteq> zd_zslba d then Inl NVME_SC_ZNS_INVALID_WRITE
           else if is_zone_resource_full zf ACTIVE_ZONE then Inl NVME_SC_ZNS_NO_ACTIVE_ZONE
           else if is_zone_resource_full zf OPEN_ZONE then Inl NVME_SC_ZNS_NO_OPEN_ZONE
           else open_it (fst (acquire_zone_resource zf ACTIVE_ZONE))
       | ZONE_STATE_CLOSED \<Rightarrow> open_it zf
       | ZONE_STATE_OPENED_IMPL \<Rightarrow> Inr zf
       | ZONE_STATE_OPENED_EXPL \<Rightarrow> Inr zf
       | _ \<Rightarrow> Inl NVME_SC_ZNS_ERR_OFFLINE)
   }"

definition zns_write_plain :: "zns_ftl \<Rightarrow> nvmev_request \<Rightarrow> (zns_ftl \<times> nvme_command \<times> nvmev_result option \<times> zns_op list) option" where
  "zns_write_plain zf rq = do {
     let c = rq_cmd rq;
     let n = nr_lba c;
     let zid = lba_to_zone zf (unat (c_slba c));
     d \<leftarrow> array_read (zf_descs zf) zid;
     let slba = (if c_opcode c = nvme_cmd_zone_append then zd_wp d else unat (c_slba c));
     let c' = c\<lparr>c_slba := of_nat slba\<rparr>;
     let buf = zone_wbuf zf zid;
     b \<leftarrow> get_wbuf zf buf;
     let (b', got) = buffer_allocate b (LBA_TO_BYTE n);
     let zf0 = put_wbuf zf buf b';
     if got < LBA_TO_BYTE n then Some (zf0, c', None, [])
     else do {
       adm \<leftarrow> write_admit zf0 zid d slba n;
       (case adm of
          Inl status \<Rightarrow> Some (zf0, c', Some (write_result zf0 rq status (rq_nsecs_start rq) (rq_nsecs_start rq)), [])
        | Inr zf1 \<Rightarrow> do {
            let zf2 = increase_write_ptr zf1 zid n;
            (s, t) \<leftarrow> ssd_advance_write_buffer (zf_ssd zf2) (rq_nsecs_start rq) (LBA_TO_BYTE n) 4;
            (s', latest, ops) \<leftarrow> program_loop zf2 rq buf t (zone_to_elpn zf zid) (lba_to_lpn zf (end_lba slba n))
              (lba_to_lpn zf slba) (s, t, []);
            Some (zf2\<lparr>zf_ssd := s'\<rparr>, c', Some (write_result zf2 rq NVME_SC_SUCCESS latest t), ops)
          })
     }
   }"

section \<open>Writes to a random write area\<close>

function zrwa_loop ::
  "zns_ftl \<Rightarrow> nvmev_request \<Rightarrow> nat \<Rightarrow> u64 \<Rightarrow> nat \<Rightarrow> nat \<Rightarrow> prog_state \<Rightarrow> prog_state option" where
  "zrwa_loop zf rq zid stime remaining lpn st =
    (if remaining = 0 then Some st
     else if pgs_per_oneshotpg (zf_sp zf) = 0 then None
     else do {
       let per = pgs_per_oneshotpg (zf_sp zf);
       let pg_off = p_pg (lpn_to_ppa zf lpn) mod per;
       let pgs = min remaining (per - pg_off);
       st' \<leftarrow> (if pg_off + pgs = per
               then program_page zf rq (Zrwa_wb zid) stime (per * pgsz (zf_sp zf)) lpn st else Some st);
       zrwa_loop zf rq zid stime (remaining - pgs) (lpn + pgs) st'
     })"
  by pat_completeness auto
termination
  by (relation "measure (\<lambda>(zf, rq, zid, stime, remaining, lpn, st). remaining)") auto

declare zrwa_loop.simps [simp del]

definition zrwa_admit :: "zns_ftl \<Rightarrow> nat \<Rightarrow> zone_descriptor \<Rightarrow> nat \<Rightarrow> nat \<Rightarrow> (nat + zns_ftl) option" where
  "zrwa_admit zf zid d slba n = do {
     nvmev_assert (write_unit_size (zf_sp zf) \<noteq> 0);
     let elba = end_lba slba n;
     let impl_end = dec64 ((zd_wp d + 2 * zp_lbas_per_zrwa (zf_zp zf) mod 2 ^ 32) mod 2 ^ 64);
     if LBA_TO_BYTE n mod write_unit_size (zf_sp zf) \<noteq> 0 then Some (Inl NVME_SC_ZNS_INVALID_WRITE)
     else if \<not> check_boundary_error zf slba n then Some (Inl NVME_SC_ZNS_ERR_BOUNDARY)
     else if slba < zd_wp d \<or> impl_end < elba then Some (Inl NVME_SC_ZNS_INVALID_WRITE)
     else if zd_state d = ZONE_STATE_CLOSED \<or> zd_state d = ZONE_STATE_EMPTY then do {
       let (zf1, ok) = acquire_zone_resource zf OPEN_ZONE;
       if \<not> ok then Some (Inl NVME_SC_ZNS_NO_OPEN_ZONE)
       else do {
         b \<leftarrow> array_read (zf_zwra_bufs zf1) zid;
         let (b', got) = buffer_allocate b (zp_zrwa_size (zf_zp zf));
         nvmev_assert (got \<noteq> 0);
         Some (Inr (change_zone_state (put_wbuf zf1 (Zrwa_wb zid) b') zid ZONE_STATE_OPENED_IMPL))
       }
     }
     else Some (case zd_state d of
       ZONE_STATE_FULL \<Rightarrow> Inl NVME_SC_ZNS_ERR_FULL
     | ZONE_STATE_READ_ONLY \<Rightarrow> Inl NVME_SC_ZNS_ERR_READ_ONLY
     | ZONE_STATE_OFFLINE \<Rightarrow> Inl NVME_SC_ZNS_ERR_OFFLINE
     | _ \<Rightarrow> Inr zf)
   }"

text \<open>How many blocks a write flushes implicitly; the second case is the end of the zone.\<close>

definition zrwa_flush_lbas :: "zns_ftl \<Rightarrow> nat \<Rightarrow> nat \<Rightarrow> nat \<Rightarrow> nat option" where
  "zrwa_flush_lbas zf zid wp elba =
    (let fg = zp_lbas_per_zrwafg (zf_zp zf); start = (wp + zp_lbas_per_zrwa (zf_zp zf)) mod 2 ^ 64
     in if start \<le> elba then (if fg = 0 then None else Some (DIV_ROUND_UP ((elba - start + 1) mod 2 ^ 64) fg * fg mod 2 ^ 64))
        else if elba = zone_to_elba zf zid then Some ((elba + (2 ^ 64 - wp) + 1) mod 2 ^ 64)
        else Some 0)"

definition zns_write_zrwa :: "zns_ftl \<Rightarrow> nvmev_request \<Rightarrow> (zns_ftl \<times> nvme_command \<times> nvmev_result option \<times> zns_op list) option" where
  "zns_write_zrwa zf rq = do {
     let c = rq_cmd rq;
     let n = nr_lba c;
     let slba = unat (c_slba c);
     let zid = lba_to_zone zf slba;
     d \<leftarrow> array_read (zf_descs zf) zid;
     adm \<leftarrow> zrwa_admit zf zid d slba n;
     (case adm of
        Inl status \<Rightarrow> Some (zf, c, Some (write_result zf rq status (rq_nsecs_start rq) (rq_nsecs_start rq)), [])
      | Inr zf1 \<Rightarrow> do {
          flush \<leftarrow> zrwa_flush_lbas zf1 zid (zd_wp d) (end_lba slba n);
          (zf2, enough) \<leftarrow> (if flush > 0 then do {
               b \<leftarrow> array_read (zf_zwra_bufs zf1) zid;
               let (b', got) = buffer_allocate b (LBA_TO_BYTE flush);
               let z = put_wbuf zf1 (Zrwa_wb zid) b';
               Some (if got = 0 then (z, False) else (increase_write_ptr z zid flush, True))
             }
             else Some (zf1, True));
          if \<not> enough then Some (zf2, c, None, [])
          else do {
            (s, t) \<leftarrow> ssd_advance_write_buffer (zf_ssd zf2) (rq_nsecs_start rq) (LBA_TO_BYTE n) 4;
            (s', latest, ops) \<leftarrow> zrwa_loop zf2 rq zid t (flush div secs_per_pg (zf_sp zf)) (lba_to_lpn zf (zd_wp d)) (s, t, []);
            Some (zf2\<lparr>zf_ssd := s'\<rparr>, c, Some (write_result zf2 rq NVME_SC_SUCCESS latest t), ops)
          }
        })
   }"

definition zns_write :: "zns_ftl \<Rightarrow> nvmev_request \<Rightarrow> (zns_ftl \<times> nvme_command \<times> nvmev_result option \<times> zns_op list) option" where
  "zns_write zf rq = do {
     nvmev_assert (zns_geo zf);
     d \<leftarrow> array_read (zf_descs zf) (lpn_to_zone zf (lba_to_lpn zf (unat (c_slba (rq_cmd rq)))));
     if zd_zrwav d then zns_write_zrwa zf rq else zns_write_plain zf rq
   }"

section \<open>Reads\<close>

text \<open>The command structure of a read keeps no arrival time: the flag \<^verbatim>\<open>first_io\<close> of a die stays set in a drive with zones,
  so the uninitialised field is never looked at.\<close>

function zns_read_loop :: "zns_ftl \<Rightarrow> u64 \<Rightarrow> nat \<Rightarrow> nat \<Rightarrow> ssd \<times> u64 \<Rightarrow> (ssd \<times> u64) option" where
  "zns_read_loop zf stime elpn lpn st =
    (if elpn < lpn then Some st
     else if pgs_per_flashpg (zf_sp zf) = 0 then None
     else do {
       let pgs = chunk_pgs zf (pgs_per_flashpg (zf_sp zf)) elpn lpn;
       (s', _, t) \<leftarrow> ssd_advance_nand (fst st) \<lparr>nc_type = USER_IO, nc_cmd = NAND_READ,
          nc_xfer_size = pgs * pgsz (zf_sp zf), nc_stime = stime, nc_interleave_pci_dma = False,
          nc_ppa = lpn_to_ppa zf lpn, nc_arrive_time = 0\<rparr>;
       zns_read_loop zf stime elpn (lpn + pgs) (s', max t (snd st))
     })"
  by pat_completeness auto
termination
  by (relation "measure (\<lambda>(zf, stime, elpn, lpn, st). Suc elpn - lpn)") (auto intro: diff_less_mono2)

declare zns_read_loop.simps [simp del]

definition zns_read :: "zns_ftl \<Rightarrow> nvmev_request \<Rightarrow> (zns_ftl \<times> nvmev_result) option" where
  "zns_read zf rq = do {
     nvmev_assert (zns_geo zf);
     let c = rq_cmd rq;
     let spp = zf_sp zf;
     let slba = unat (c_slba c);
     d \<leftarrow> array_read (zf_descs zf) (lpn_to_zone zf (lba_to_lpn zf slba));
     let status = (if zd_state d = ZONE_STATE_OFFLINE then NVME_SC_ZNS_ERR_OFFLINE
                   else if \<not> check_boundary_error zf slba (nr_lba c) then NVME_SC_ZNS_ERR_BOUNDARY
                   else NVME_SC_SUCCESS);
     let start = rq_nsecs_start rq + of_nat (if LBA_TO_BYTE (nr_lba c) \<le> KB 4 then fw_4kb_rd_lat spp else fw_rd_lat spp);
     (s, latest) \<leftarrow> zns_read_loop zf start (lba_to_lpn zf (end_lba slba (nr_lba c))) (lba_to_lpn zf slba) (zf_ssd zf, start);
     (s', t) \<leftarrow> ssd_advance_pcie s latest (nr_lba c * secsz spp);
     Some (zf\<lparr>zf_ssd := s'\<rparr>, \<lparr>rs_status = status, rs_nsecs_target = max t latest\<rparr>)
   }"

section \<open>Flush and dispatch\<close>

definition zns_flush :: "u64 \<Rightarrow> zns_ftl \<Rightarrow> zns_ftl \<times> nvmev_result" where
  "zns_flush local_clock zf =
    (let (s, t) = ssd_next_idle_time (zf_ssd zf)
     in (zf\<lparr>zf_ssd := s\<rparr>, \<lparr>rs_status = NVME_SC_SUCCESS, rs_nsecs_target = max local_clock t\<rparr>))"

text \<open>An unknown command leaves the result structure \<open>ret\<close> as it was.  \<open>m\<close> is the memory, which a report changes, and
  \<open>buffer\<close> the address of the buffer for reports.\<close>

definition zns_proc_nvme_io_cmd ::
  "nat \<Rightarrow> nat \<Rightarrow> u64 \<Rightarrow> zns_ftl \<Rightarrow> nvmev_request \<Rightarrow> nvmev_result \<Rightarrow> memory \<Rightarrow>
   (zns_ftl \<times> nvme_command \<times> bool \<times> nvmev_result \<times> zns_op list \<times> memory) option" where
  "zns_proc_nvme_io_cmd garbage buffer local_clock zf rq ret m =
    (let opc = c_opcode (rq_cmd rq)
     in if opc = nvme_cmd_write \<or> opc = nvme_cmd_zone_append then do {
          (zf', c, r, ops) \<leftarrow> zns_write zf rq;
          Some (case r of None \<Rightarrow> (zf', c, False, ret, ops, m) | Some x \<Rightarrow> (zf', c, True, x, ops, m))
        }
        else if opc = nvme_cmd_read then do { (zf', r) \<leftarrow> zns_read zf rq; Some (zf', rq_cmd rq, True, r, [], m) }
        else if opc = nvme_cmd_flush then (let (zf', r) = zns_flush local_clock zf in Some (zf', rq_cmd rq, True, r, [], m))
        else if opc = nvme_cmd_zone_mgmt_send then do { (zf', r) \<leftarrow> zns_zmgmt_send garbage zf rq; Some (zf', rq_cmd rq, True, r, [], m) }
        else if opc = nvme_cmd_zone_mgmt_recv then do { (m', r) \<leftarrow> zns_zmgmt_recv buffer zf rq m; Some (zf, rq_cmd rq, True, r, [], m') }
        else Some (zf, rq_cmd rq, True, ret, [], m))"

end
