(* ===== verification/Zns_Inv.thy ===== *)
theory Zns_Inv
  imports Zns_Rw
begin

text \<open>
  The invariant of a drive with zones that has no random write areas: its geometry, what the state of a zone says about its
  write pointer, and that the resource counts are the numbers of open and of active zones.
\<close>

section \<open>Geometry\<close>

abbreviation zone_lbas :: "zns_ftl \<Rightarrow> nat" where
  "zone_lbas zf \<equiv> zp_zone_size (zf_zp zf) div 512"

abbreviation nr_zones :: "zns_ftl \<Rightarrow> nat" where
  "nr_zones zf \<equiv> zp_nr_zones (zf_zp zf)"

definition zspp_ok :: "ssdparams \<Rightarrow> bool" where
  "zspp_ok spp \<longleftrightarrow> secsz spp = 512 \<and> pgsz spp = 4096 \<and> secs_per_pg spp = 8 \<and> write_unit_size spp \<noteq> 0 \<and>
     pgs_per_oneshotpg spp \<noteq> 0 \<and> pgs_per_oneshotpg spp \<le> 3 * pgs_per_flashpg spp \<and>
     tt_luns spp = nchs spp * luns_per_ch spp \<and> 0 < nchs spp \<and> nchs spp \<le> 256 \<and> 0 < luns_per_ch spp \<and> luns_per_ch spp \<le> 256"

definition zgeo_ok :: "znsparams \<Rightarrow> ssdparams \<Rightarrow> bool" where
  "zgeo_ok zp spp \<longleftrightarrow> zspp_ok spp \<and> 4096 \<le> zp_zone_size zp \<and> zp_zone_size zp mod 4096 = 0 \<and>
     zp_nr_zones zp * (zp_zone_size zp div 512) < 2 ^ 32 \<and> zp_dies_per_zone zp \<noteq> 0 \<and> zp_dies_per_zone zp dvd tt_luns spp \<and>
     zp_zrwa_buffer_size zp = 0"

lemma zgeo_divisors:
  assumes "zgeo_ok (zf_zp zf) (zf_sp zf)"
  shows "zns_geo zf" "8 \<le> zone_lbas zf" "zone_lbas zf = 8 * (zp_zone_size (zf_zp zf) div 4096)"
proof -
  have m: "zp_zone_size (zf_zp zf) = 4096 * (zp_zone_size (zf_zp zf) div 4096)" "4096 \<le> zp_zone_size (zf_zp zf)"
    using assms by (auto simp: zgeo_ok_def)
  then show 8: "zone_lbas zf = 8 * (zp_zone_size (zf_zp zf) div 4096)" by linarith
  show "8 \<le> zone_lbas zf" using m(2) by linarith
  then show "zns_geo zf" using assms 8 by (auto simp: zns_geo_def zgeo_ok_def zspp_ok_def)
qed

lemma die_bound:
  fixes k l d t :: nat
  assumes "d dvd t" "0 < t" "x < d"
  shows "(k * d) mod t + x < t"
proof -
  obtain q where t: "t = d * q" using assms(1) by blast
  have "(k * d) mod t = d * (k mod q)" by (simp add: t mult.commute[of k])
  moreover have "k mod q < q" using assms(2) t by (intro mod_less_divisor) auto
  then have "d * (k mod q) + d \<le> d * q" by (metis Suc_leI mult_Suc_right add.commute mult_le_mono2)
  ultimately show ?thesis using assms(3) t by linarith
qed

lemma lpn_to_ppa_lun:
  assumes "zgeo_ok (zf_zp zf) (zf_sp zf)"
  shows "lun_in (zf_sp zf) (lpn_to_ppa zf lpn)" "cell_ok (zf_sp zf) (lpn_to_ppa zf lpn)"
    "p_pg (lpn_to_ppa zf lpn) < pgs_per_oneshotpg (zf_sp zf)"
proof -
  let ?spp = "zf_sp zf" and ?zp = "zf_zp zf"
  have g: "tt_luns ?spp = nchs ?spp * luns_per_ch ?spp" "0 < nchs ?spp" "nchs ?spp \<le> 256" "0 < luns_per_ch ?spp"
    "luns_per_ch ?spp \<le> 256" "pgs_per_oneshotpg ?spp \<noteq> 0" "pgs_per_oneshotpg ?spp \<le> 3 * pgs_per_flashpg ?spp"
    "zp_dies_per_zone ?zp dvd tt_luns ?spp" "zp_dies_per_zone ?zp \<noteq> 0"
    using assms by (auto simp: zgeo_ok_def zspp_ok_def)
  have t: "0 < tt_luns ?spp" using g by simp
  have "tt_luns ?spp \<le> 256 * 256" unfolding g(1) by (rule mult_le_mono[OF g(3,5)])
  then have t32: "tt_luns ?spp < 2 ^ 32" by simp
  define off where "off = (lpn + (2 ^ 64 - zone_to_slpn zf (lpn_to_zone zf lpn))) mod 2 ^ 64"
  define die where "die = ((lpn_to_zone zf lpn * zp_dies_per_zone ?zp) mod tt_luns ?spp mod 2 ^ 32 +
      (off div pgs_per_oneshotpg ?spp) mod zp_dies_per_zone ?zp) mod 2 ^ 32"
  have "(lpn_to_zone zf lpn * zp_dies_per_zone ?zp) mod tt_luns ?spp mod 2 ^ 32 +
      (off div pgs_per_oneshotpg ?spp) mod zp_dies_per_zone ?zp < tt_luns ?spp"
  proof (rule order.strict_trans1[OF add_le_mono1[OF mod_less_eq_dividend]])
    show "(lpn_to_zone zf lpn * zp_dies_per_zone ?zp) mod tt_luns ?spp + (off div pgs_per_oneshotpg ?spp) mod zp_dies_per_zone ?zp
        < tt_luns ?spp" using g(9) by (intro die_bound[OF g(8) t]) simp
  qed
  then have die: "die < tt_luns ?spp" unfolding die_def by (meson mod_less_eq_dividend order.strict_trans1)
  have ch: "die mod nchs ?spp < nchs ?spp" using g(2) by simp
  have lun: "die div nchs ?spp < luns_per_ch ?spp" using die g(1) by (simp add: less_mult_imp_div_less mult.commute)
  have a: "lpn_to_ppa zf lpn = mk_ppa (die mod nchs ?spp) (die div nchs ?spp) 0 0 (off mod pgs_per_oneshotpg ?spp)"
    by (simp add: lpn_to_ppa_def Let_def die_to_channel_def die_to_lun_def die_def off_def)
  have "die mod nchs ?spp < 256" "die div nchs ?spp < 256" using ch lun g(3,5) by linarith+
  then show "lun_in ?spp (lpn_to_ppa zf lpn)" using ch lun by (simp add: a mk_ppa_def lun_in_def)
  have "off mod pgs_per_oneshotpg ?spp < pgs_per_oneshotpg ?spp" using g(6) by simp
  then show pg: "p_pg (lpn_to_ppa zf lpn) < pgs_per_oneshotpg ?spp"
    unfolding a mk_ppa_def by simp
  then have "p_pg (lpn_to_ppa zf lpn) div pgs_per_flashpg ?spp < 3"
    using g(6,7) by (intro less_mult_imp_div_less) linarith
  then show "cell_ok ?spp (lpn_to_ppa zf lpn)"
    unfolding cell_ok_def by (meson mod_less_eq_dividend order.strict_trans1)
qed

lemma zone_of_lba:
  assumes "zgeo_ok (zf_zp zf) (zf_sp zf)"
  shows "zid < nr_zones zf \<Longrightarrow> zone_to_slba zf zid = zid * zone_lbas zf"
    "lba < nr_zones zf * zone_lbas zf \<Longrightarrow> lba_to_zone zf lba = lba div zone_lbas zf \<and> lba_to_zone zf lba < nr_zones zf"
    "lba < nr_zones zf * zone_lbas zf \<Longrightarrow> lpn_to_zone zf (lba_to_lpn zf lba) = lba_to_zone zf lba"
proof -
  have s: "secsz (zf_sp zf) = 512" "pgsz (zf_sp zf) = 4096" "secs_per_pg (zf_sp zf) = 8" "nr_zones zf * zone_lbas zf < 2 ^ 32"
    using assms by (auto simp: zgeo_ok_def zspp_ok_def)
  note d = zgeo_divisors[OF assms]
  show "zone_to_slba zf zid = zid * zone_lbas zf" if "zid < nr_zones zf"
  proof -
    have "zid * zone_lbas zf \<le> nr_zones zf * zone_lbas zf" using that by (intro mult_le_mono1) simp
    then have "zid * zone_lbas zf < 2 ^ 32" using s(4) by (rule order.strict_trans1)
    then show ?thesis unfolding zone_to_slba_def s(1) by (rule mod_less)
  qed
  assume l: "lba < nr_zones zf * zone_lbas zf"
  have "lba div zone_lbas zf \<le> lba" by simp
  then have "lba div zone_lbas zf < 2 ^ 32" using l s(4) by linarith
  then show z: "lba_to_zone zf lba = lba div zone_lbas zf \<and> lba_to_zone zf lba < nr_zones zf"
    using s(1) l by (simp add: lba_to_zone_def less_mult_imp_div_less)
  show "lpn_to_zone zf (lba_to_lpn zf lba) = lba_to_zone zf lba"
    using s d(3) by (simp add: lpn_to_zone_def lba_to_zone_def lba_to_lpn_def div_mult2_eq)
qed

section \<open>The timing loops return\<close>

lemma reset_lun_ok:
  assumes "zgeo_ok (zf_zp zf) (zf_sp zf)" "ssd_live s" "ssd_sp s = zf_sp zf"
  shows "\<exists>s' t m. reset_lun zf lpn (s, stime, maxlat) = Some (s', t, m) \<and> ssd_live s' \<and> same_nand s s'"
proof -
  obtain s1 t1 where e: "max_cstime_vs_ioclock stime s = (s1, t1)" by fastforce
  then have "ssd_live s1 \<and> same_nand s s1"
    using get_ioclock_live assms(2) by (auto simp: max_cstime_vs_ioclock_def split: if_splits)
  note s1 = e conjunct1[OF this] conjunct2[OF this]
  have "lun_in (ssd_sp s1) (lpn_to_ppa zf lpn)" using lpn_to_ppa_lun(1)[OF assms(1)] s1(3) assms(3) by (simp add: same_nand_def)
  then show ?thesis
    using s1 set_lun_live[OF s1(2)] same_nand_trans[OF s1(3)] by (simp add: reset_lun_def Let_def get_lun_def)
qed

lemma reset_luns_ok:
  assumes "zgeo_ok (zf_zp zf) (zf_sp zf)" "ssd_live s" "ssd_sp s = zf_sp zf"
  shows "\<exists>s' t m. reset_luns zf ze elpn lpn (s, stime, maxlat) = Some (s', t, m) \<and> ssd_live s' \<and> same_nand s s'"
  using assms(2,3)
proof (induction "Suc elpn - lpn" arbitrary: lpn s stime maxlat rule: less_induct)
  case less
  let ?per = "pgs_per_oneshotpg (zf_sp zf)"
  have per: "?per \<noteq> 0" using assms(1) by (simp add: zgeo_ok_def zspp_ok_def)
  show ?case
  proof (cases "elpn < lpn")
    case True
    then show ?thesis using less.prems by (subst reset_luns.simps) simp
  next
    case False
    obtain s1 t1 m1 where s1: "(if chunk_ends zf ?per ze elpn lpn then reset_lun zf lpn (s, stime, maxlat)
        else Some (s, stime, maxlat)) = Some (s1, t1, m1)" "ssd_live s1" "same_nand s s1"
      using reset_lun_ok[OF assms(1) less.prems, of lpn stime maxlat] less.prems same_nand_refl by (cases "chunk_ends zf ?per ze elpn lpn") auto
    have "Suc elpn - (lpn + chunk_pgs zf ?per elpn lpn) < Suc elpn - lpn"
      using False chunk_pgs_pos[OF per, of zf elpn lpn] by linarith
    note lt = this
    have sp1: "ssd_sp s1 = zf_sp zf" using s1(3) less.prems(2) by (simp add: same_nand_def)
    obtain s2 t2 m2 where s2: "reset_luns zf ze elpn (lpn + chunk_pgs zf ?per elpn lpn) (s1, t1, m1) = Some (s2, t2, m2)"
      "ssd_live s2" "same_nand s1 s2"
      using less.hyps[OF lt s1(2) sp1] by blast
    have "reset_luns zf ze elpn lpn (s, stime, maxlat) = Some (s2, t2, m2)"
      using False per s1(1) s2(1) by (subst reset_luns.simps) (simp add: Let_def)
    then show ?thesis using s2 same_nand_trans[OF s1(3)] by blast
  qed
qed

lemma program_page_ok:
  assumes "zgeo_ok (zf_zp zf) (zf_sp zf)" "ssd_live s" "ssd_sp s = zf_sp zf"
  shows "\<exists>s' l' ops'. program_page zf rq buf stime n lpn (s, l, ops) = Some (s', l', ops') \<and> ssd_live s' \<and> same_nand s s'"
  using ssd_advance_nand_live[of s "\<lparr>nc_type = USER_IO, nc_cmd = NAND_WRITE,
        nc_xfer_size = pgs_per_oneshotpg (zf_sp zf) * pgsz (zf_sp zf), nc_stime = stime, nc_interleave_pci_dma = False,
        nc_ppa = lpn_to_ppa zf lpn, nc_arrive_time = 0\<rparr>"] assms lpn_to_ppa_lun(1)[OF assms(1), of lpn]
  by (auto simp: program_page_def Let_def)

lemma program_loop_ok:
  assumes "zgeo_ok (zf_zp zf) (zf_sp zf)" "ssd_live s" "ssd_sp s = zf_sp zf"
  shows "\<exists>s' l' ops'. program_loop zf rq buf stime ze elpn lpn (s, l, ops) = Some (s', l', ops') \<and> ssd_live s' \<and> same_nand s s'"
  using assms(2,3)
proof (induction "Suc elpn - lpn" arbitrary: lpn s l ops rule: less_induct)
  case less
  let ?per = "pgs_per_oneshotpg (zf_sp zf)"
  let ?pgs = "chunk_pgs zf ?per elpn lpn"
  have per: "?per \<noteq> 0" using assms(1) by (simp add: zgeo_ok_def zspp_ok_def)
  show ?case
  proof (cases "elpn < lpn")
    case True
    then show ?thesis using less.prems by (subst program_loop.simps) simp
  next
    case False
    obtain s1 l1 o1 where s1: "(if chunk_ends zf ?per ze elpn lpn
        then program_page zf rq buf stime (release_size zf ze (lpn + ?pgs - 1)) lpn (s, l, ops)
        else Some (s, l, ops)) = Some (s1, l1, o1)" "ssd_live s1" "same_nand s s1"
      using program_page_ok[OF assms(1) less.prems, of rq buf stime "release_size zf ze (lpn + ?pgs - 1)" lpn l ops] less.prems same_nand_refl by (cases "chunk_ends zf ?per ze elpn lpn") auto
    have "Suc elpn - (lpn + ?pgs) < Suc elpn - lpn"
      using False chunk_pgs_pos[OF per, of zf elpn lpn] by linarith
    note lt = this
    have sp1: "ssd_sp s1 = zf_sp zf" using s1(3) less.prems(2) by (simp add: same_nand_def)
    obtain s2 l2 o2 where s2: "program_loop zf rq buf stime ze elpn (lpn + ?pgs) (s1, l1, o1) = Some (s2, l2, o2)"
      "ssd_live s2" "same_nand s1 s2"
      using less.hyps[OF lt s1(2) sp1] by blast
    have "program_loop zf rq buf stime ze elpn lpn (s, l, ops) = Some (s2, l2, o2)"
      using False per s1(1) s2(1) by (subst program_loop.simps) (simp add: Let_def)
    then show ?thesis using s2 same_nand_trans[OF s1(3)] by blast
  qed
qed

lemma zns_read_loop_ok:
  assumes "zgeo_ok (zf_zp zf) (zf_sp zf)" "ssd_live s" "ssd_sp s = zf_sp zf"
  shows "\<exists>s' l'. zns_read_loop zf stime elpn lpn (s, l) = Some (s', l') \<and> ssd_live s' \<and> same_nand s s' \<and> l \<le> l'"
  using assms(2,3)
proof (induction "Suc elpn - lpn" arbitrary: lpn s l rule: less_induct)
  case less
  let ?per = "pgs_per_flashpg (zf_sp zf)"
  let ?pgs = "chunk_pgs zf ?per elpn lpn"
  have per: "?per \<noteq> 0" "pgsz (zf_sp zf) = 4096" using assms(1) by (auto simp: zgeo_ok_def zspp_ok_def)
  show ?case
  proof (cases "elpn < lpn")
    case True
    then show ?thesis using less.prems by (subst zns_read_loop.simps) simp
  next
    case False
    let ?c = "\<lparr>nc_type = USER_IO, nc_cmd = NAND_READ, nc_xfer_size = ?pgs * pgsz (zf_sp zf), nc_stime = stime,
      nc_interleave_pci_dma = False, nc_ppa = lpn_to_ppa zf lpn, nc_arrive_time = 0\<rparr>"
    have pgs: "0 < ?pgs" using per(1) by simp
    obtain s1 c1 t1 where s1: "ssd_advance_nand s ?c = Some (s1, c1, t1)" "ssd_live s1" "same_nand s s1"
      using ssd_advance_nand_live[OF less.prems(1), of ?c] less.prems(2) lpn_to_ppa_lun(1,2)[OF assms(1), of lpn] pgs per(2)
      by auto
    have lt: "Suc elpn - (lpn + ?pgs) < Suc elpn - lpn" using False pgs by linarith
    have sp1: "ssd_sp s1 = zf_sp zf" using s1(3) less.prems(2) by (simp add: same_nand_def)
    obtain s2 l2 where s2: "zns_read_loop zf stime elpn (lpn + ?pgs) (s1, max t1 l) = Some (s2, l2)"
      "ssd_live s2" "same_nand s1 s2" "max t1 l \<le> l2"
      using less.hyps[OF lt s1(2) sp1] by blast
    have "zns_read_loop zf stime elpn lpn (s, l) = Some (s2, l2)"
      using False per s1(1) s2(1) by (subst zns_read_loop.simps) (simp add: Let_def)
    then show ?thesis using s2 same_nand_trans[OF s1(3)] by force
  qed
qed

section \<open>Zones and resources\<close>

definition is_opened :: "zone_descriptor \<Rightarrow> bool" where
  "is_opened d \<longleftrightarrow> zd_state d = ZONE_STATE_OPENED_IMPL \<or> zd_state d = ZONE_STATE_OPENED_EXPL"

definition is_active :: "zone_descriptor \<Rightarrow> bool" where
  "is_active d \<longleftrightarrow> is_opened d \<or> zd_state d = ZONE_STATE_CLOSED"

definition zone_ok :: "nat \<Rightarrow> nat \<Rightarrow> zone_descriptor \<Rightarrow> bool" where
  "zone_ok n i d \<longleftrightarrow> zd_capacity d = n \<and> zd_zslba d = i * n \<and> \<not> zd_zrwav d \<and> i * n \<le> zd_wp d \<and>
     (case zd_state d of
        ZONE_STATE_EMPTY \<Rightarrow> zd_wp d = i * n
      | ZONE_STATE_FULL \<Rightarrow> zd_wp d \<le> i * n + n
      | ZONE_STATE_READ_ONLY \<Rightarrow> False
      | ZONE_STATE_OFFLINE \<Rightarrow> False
      | _ \<Rightarrow> zd_wp d < i * n + n)"

definition count_zones :: "(zone_descriptor \<Rightarrow> bool) \<Rightarrow> zone_descriptor list \<Rightarrow> nat" where
  "count_zones P ds = length (filter P ds)"

lemma count_zones_update:
  assumes "i < length ds"
  shows "count_zones P (ds[i := d]) + of_bool (P (ds ! i)) = count_zones P ds + of_bool (P d)"
  using assms
proof (induction ds arbitrary: i)
  case (Cons x ds)
  then show ?case by (cases i) (auto simp: count_zones_def)
qed simp

lemma count_zones_less:
  assumes "i < length ds" "\<not> P (ds ! i)"
  shows "count_zones P ds < length ds"
  using assms unfolding count_zones_def by (intro length_filter_less[of "ds ! i"]) auto

lemma count_zones_pos:
  assumes "i < length ds" "P (ds ! i)"
  shows "0 < count_zones P ds"
  using assms unfolding count_zones_def by (auto simp: filter_empty_conv)

definition res_ok :: "zns_ftl \<Rightarrow> bool" where
  "res_ok zf \<longleftrightarrow> (\<forall>t. total_cnt (zf_res zf t) = nr_zones zf) \<and>
     acquired_cnt (zf_res zf OPEN_ZONE) = count_zones is_opened (zf_descs zf) \<and>
     acquired_cnt (zf_res zf ACTIVE_ZONE) = count_zones is_active (zf_descs zf) \<and>
     acquired_cnt (zf_res zf ZRWA_ZONE) = 0"

definition zns_inv :: "zns_ftl \<Rightarrow> bool" where
  "zns_inv zf \<longleftrightarrow> zgeo_ok (zf_zp zf) (zf_sp zf) \<and> ssd_live (zf_ssd zf) \<and> length (zf_descs zf) = nr_zones zf \<and>
     (\<forall>i<nr_zones zf. zone_ok (zone_lbas zf) i (zf_descs zf ! i)) \<and> res_ok zf \<and>
     (zp_zone_wb_size (zf_zp zf) \<noteq> 0 \<longrightarrow> length (zf_wbufs zf) = nr_zones zf)"

end
