(* ===== verification/Zns_Ops.thy ===== *)
theory Zns_Ops
  imports Zns_Inv
begin

text \<open>
  Zone management against an abstract zone machine.  The machine sees of a zone its state and the number of blocks
  written; each command of the drive is a step of the machine on one zone, or is refused and changes no zone.
\<close>

section \<open>The abstract zone machine\<close>

type_synonym zone_view = "zone_state \<times> nat"

datatype zone_event = Zone_open | Zone_close | Zone_finish | Zone_reset | Zone_write nat

fun zone_spec :: "nat \<Rightarrow> zone_event \<Rightarrow> zone_view \<Rightarrow> zone_view option" where
  "zone_spec cap Zone_open (s, w) =
    (if s \<in> {ZONE_STATE_EMPTY, ZONE_STATE_CLOSED, ZONE_STATE_OPENED_IMPL, ZONE_STATE_OPENED_EXPL}
     then Some (ZONE_STATE_OPENED_EXPL, w) else None)"
| "zone_spec cap Zone_close (s, w) =
    (if s \<in> {ZONE_STATE_CLOSED, ZONE_STATE_OPENED_IMPL, ZONE_STATE_OPENED_EXPL} then Some (ZONE_STATE_CLOSED, w) else None)"
| "zone_spec cap Zone_finish (s, w) =
    (if s \<in> {ZONE_STATE_READ_ONLY, ZONE_STATE_OFFLINE} then None else Some (ZONE_STATE_FULL, w))"
| "zone_spec cap Zone_reset (s, w) =
    (if s \<in> {ZONE_STATE_READ_ONLY, ZONE_STATE_OFFLINE} then None else Some (ZONE_STATE_EMPTY, 0))"
| "zone_spec cap (Zone_write n) (s, w) =
    (if s \<in> {ZONE_STATE_EMPTY, ZONE_STATE_CLOSED, ZONE_STATE_OPENED_IMPL, ZONE_STATE_OPENED_EXPL} \<and> w + n \<le> cap
     then Some (if w + n = cap then ZONE_STATE_FULL
                else if s = ZONE_STATE_OPENED_EXPL then ZONE_STATE_OPENED_EXPL else ZONE_STATE_OPENED_IMPL, w + n)
     else None)"

definition zview :: "zone_descriptor \<Rightarrow> zone_view" where
  "zview d = (zd_state d, zd_wp d - zd_zslba d)"

definition zviews :: "zns_ftl \<Rightarrow> zone_view list" where
  "zviews zf = map zview (zf_descs zf)"

text \<open>The drive went from \<open>zf\<close> to \<open>zf'\<close> with status \<open>st\<close>, and this is what the machine allows.\<close>

definition spec_step :: "zone_event \<Rightarrow> nat \<Rightarrow> zns_ftl \<Rightarrow> zns_ftl \<Rightarrow> nat \<Rightarrow> bool" where
  "spec_step ev zid zf zf' st \<longleftrightarrow>
    (case zone_spec (zone_lbas zf) ev (zviews zf ! zid) of
       None \<Rightarrow> st \<noteq> NVME_SC_SUCCESS \<and> zviews zf' = zviews zf
     | Some v \<Rightarrow> st = NVME_SC_SUCCESS \<and> zviews zf' = (zviews zf)[zid := v])"

section \<open>Changing one zone\<close>

lemma zone_update_inv:
  assumes inv: "zns_inv zf" and i: "zid < nr_zones zf"
    and d: "zf_descs zf' = (zf_descs zf)[zid := d']" "zone_ok (zone_lbas zf) zid d'"
    and same: "zf_zp zf' = zf_zp zf" "zf_sp zf' = zf_sp zf" "ssd_live (zf_ssd zf')" "length (zf_wbufs zf') = length (zf_wbufs zf)"
    and tot: "\<And>t. total_cnt (zf_res zf' t) = total_cnt (zf_res zf t)"
    and opn: "acquired_cnt (zf_res zf' OPEN_ZONE) + of_bool (is_opened (zf_descs zf ! zid)) =
      acquired_cnt (zf_res zf OPEN_ZONE) + of_bool (is_opened d')"
    and act: "acquired_cnt (zf_res zf' ACTIVE_ZONE) + of_bool (is_active (zf_descs zf ! zid)) =
      acquired_cnt (zf_res zf ACTIVE_ZONE) + of_bool (is_active d')"
    and zrwa: "acquired_cnt (zf_res zf' ZRWA_ZONE) = 0"
  shows "zns_inv zf'" "zviews zf' = (zviews zf)[zid := zview d']"
proof -
  have l: "zid < length (zf_descs zf)" using inv i by (simp add: zns_inv_def)
  have "acquired_cnt (zf_res zf' OPEN_ZONE) = count_zones is_opened (zf_descs zf')"
    "acquired_cnt (zf_res zf' ACTIVE_ZONE) = count_zones is_active (zf_descs zf')"
    using count_zones_update[OF l, of is_opened d'] count_zones_update[OF l, of is_active d'] opn act inv d(1)
    by (auto simp: zns_inv_def res_ok_def)
  moreover have "\<forall>k<nr_zones zf. zone_ok (zone_lbas zf) k (zf_descs zf' ! k)"
  proof (intro allI impI)
    fix k assume "k < nr_zones zf"
    then show "zone_ok (zone_lbas zf) k (zf_descs zf' ! k)"
      using inv d l by (cases "k = zid") (auto simp: zns_inv_def)
  qed
  ultimately show "zns_inv zf'" using inv same tot zrwa d(1) by (simp add: zns_inv_def res_ok_def)
  show "zviews zf' = (zviews zf)[zid := zview d']" by (simp add: zviews_def d(1) map_update)
qed

lemma res_facts:
  assumes "zns_inv zf" "zid < nr_zones zf"
  shows "array_read (zf_descs zf) zid = Some (zf_descs zf ! zid)" "zone_ok (zone_lbas zf) zid (zf_descs zf ! zid)"
    "total_cnt (zf_res zf t) = nr_zones zf" "acquired_cnt (zf_res zf ZRWA_ZONE) = 0" "nr_zones zf < 4294967296"
    "acquired_cnt (zf_res zf OPEN_ZONE) \<le> nr_zones zf" "acquired_cnt (zf_res zf ACTIVE_ZONE) \<le> nr_zones zf"
    "is_opened (zf_descs zf ! zid) \<Longrightarrow> 0 < acquired_cnt (zf_res zf OPEN_ZONE)"
    "is_active (zf_descs zf ! zid) \<Longrightarrow> 0 < acquired_cnt (zf_res zf ACTIVE_ZONE)"
    "\<not> is_opened (zf_descs zf ! zid) \<Longrightarrow> acquired_cnt (zf_res zf OPEN_ZONE) < nr_zones zf"
    "\<not> is_active (zf_descs zf ! zid) \<Longrightarrow> acquired_cnt (zf_res zf ACTIVE_ZONE) < nr_zones zf"
proof -
  have g: "zgeo_ok (zf_zp zf) (zf_sp zf)" and l: "length (zf_descs zf) = nr_zones zf" and r: "res_ok zf"
    using assms(1) by (auto simp: zns_inv_def)
  have "nr_zones zf * 1 \<le> nr_zones zf * zone_lbas zf" using zgeo_divisors(2)[OF g] by (intro mult_le_mono2) simp
  moreover have "nr_zones zf * zone_lbas zf < 4294967296" using g by (simp add: zgeo_ok_def)
  ultimately show "nr_zones zf < 4294967296" by linarith
  show "array_read (zf_descs zf) zid = Some (zf_descs zf ! zid)" "zone_ok (zone_lbas zf) zid (zf_descs zf ! zid)"
    using assms l by (auto simp: zns_inv_def array_read_def)
  show "total_cnt (zf_res zf t) = nr_zones zf" "acquired_cnt (zf_res zf ZRWA_ZONE) = 0"
    "acquired_cnt (zf_res zf OPEN_ZONE) \<le> nr_zones zf" "acquired_cnt (zf_res zf ACTIVE_ZONE) \<le> nr_zones zf"
    using r l length_filter_le[of is_opened "zf_descs zf"] length_filter_le[of is_active "zf_descs zf"]
    by (auto simp: res_ok_def count_zones_def)
  show "is_opened (zf_descs zf ! zid) \<Longrightarrow> 0 < acquired_cnt (zf_res zf OPEN_ZONE)"
    "is_active (zf_descs zf ! zid) \<Longrightarrow> 0 < acquired_cnt (zf_res zf ACTIVE_ZONE)"
    using r assms(2) l by (auto simp: res_ok_def intro!: count_zones_pos[of zid])
  show "\<not> is_opened (zf_descs zf ! zid) \<Longrightarrow> acquired_cnt (zf_res zf OPEN_ZONE) < nr_zones zf"
    "\<not> is_active (zf_descs zf ! zid) \<Longrightarrow> acquired_cnt (zf_res zf ACTIVE_ZONE) < nr_zones zf"
    using r assms(2) l count_zones_less[of zid "zf_descs zf"] by (auto simp: res_ok_def)
qed

lemmas zstate_defs = change_zone_state_def set_desc_def release_zone_resource_def acquire_zone_resource_def
  set_acquired_def is_zone_resource_avail_def is_zone_resource_full_def release_active_def

text \<open>What the management operations leave alone.\<close>

definition zkeep :: "zns_ftl \<Rightarrow> zns_ftl \<Rightarrow> bool" where
  "zkeep zf zf' \<longleftrightarrow> zf_zp zf' = zf_zp zf \<and> zf_sp zf' = zf_sp zf \<and> ssd_write_buffer (zf_ssd zf') = ssd_write_buffer (zf_ssd zf) \<and>
     zf_wbufs zf' = zf_wbufs zf"

lemma zkeep_refl [simp]: "zkeep zf zf"
  by (simp add: zkeep_def)

lemma zkeep_trans: "zkeep a b \<Longrightarrow> zkeep b c \<Longrightarrow> zkeep a c"
  by (simp add: zkeep_def)

lemma zkeep_params: "zkeep zf zf' \<Longrightarrow> zf_zp zf' = zf_zp zf \<and> zf_sp zf' = zf_sp zf"
  by (simp add: zkeep_def)

section \<open>Transitions\<close>

text \<open>An operation that writes descriptor \<open>d'\<close> and adjusts the counts accordingly is the step of the machine that leads to
  \<open>d'\<close>.\<close>

lemma zone_set_inv:
  assumes "zns_inv zf" "zid < nr_zones zf" "zf_descs zf' = (zf_descs zf)[zid := d']" "zone_ok (zone_lbas zf) zid d'"
    "zf_zp zf' = zf_zp zf" "zf_ssd zf' = zf_ssd zf" "length (zf_wbufs zf') = length (zf_wbufs zf)" "\<And>t. total_cnt (zf_res zf' t) = nr_zones zf"
    "acquired_cnt (zf_res zf' OPEN_ZONE) + of_bool (is_opened (zf_descs zf ! zid)) =
      acquired_cnt (zf_res zf OPEN_ZONE) + of_bool (is_opened d')"
    "acquired_cnt (zf_res zf' ACTIVE_ZONE) + of_bool (is_active (zf_descs zf ! zid)) =
      acquired_cnt (zf_res zf ACTIVE_ZONE) + of_bool (is_active d')"
    "acquired_cnt (zf_res zf' ZRWA_ZONE) = 0"
  shows "zns_inv zf' \<and> zviews zf' = (zviews zf)[zid := zview d']"
proof -
  have live: "ssd_live (zf_ssd zf')" using assms(1,6) by (simp add: zns_inv_def)
  have tot: "total_cnt (zf_res zf' t) = total_cnt (zf_res zf t)" for t using assms(8) res_facts(3)[OF assms(1,2)] by simp
  have sp: "zf_sp zf' = zf_sp zf" using assms(6) by simp
  show ?thesis using zone_update_inv[OF assms(1-5) sp live assms(7) tot assms(9-11)] by (rule conjI)
qed

lemma spec_step_some:
  assumes "zns_inv zf" "zid < nr_zones zf" "zf_descs zf' = (zf_descs zf)[zid := d']" "zone_ok (zone_lbas zf) zid d'"
    "zf_zp zf' = zf_zp zf" "zf_ssd zf' = zf_ssd zf" "length (zf_wbufs zf') = length (zf_wbufs zf)" "\<And>t. total_cnt (zf_res zf' t) = nr_zones zf"
    "acquired_cnt (zf_res zf' OPEN_ZONE) + of_bool (is_opened (zf_descs zf ! zid)) =
      acquired_cnt (zf_res zf OPEN_ZONE) + of_bool (is_opened d')"
    "acquired_cnt (zf_res zf' ACTIVE_ZONE) + of_bool (is_active (zf_descs zf ! zid)) =
      acquired_cnt (zf_res zf ACTIVE_ZONE) + of_bool (is_active d')"
    "acquired_cnt (zf_res zf' ZRWA_ZONE) = 0"
    and spec: "zone_spec (zone_lbas zf) ev (zview (zf_descs zf ! zid)) = Some (zview d')"
  shows "zns_inv zf' \<and> spec_step ev zid zf zf' NVME_SC_SUCCESS"
proof -
  have "zviews zf ! zid = zview (zf_descs zf ! zid)" using assms(1,2) by (simp add: zviews_def zns_inv_def)
  then show ?thesis using zone_set_inv[OF assms(1-11)] spec by (simp add: spec_step_def)
qed

lemma spec_step_none:
  assumes "zns_inv zf" "zid < nr_zones zf" "zone_spec (zone_lbas zf) ev (zview (zf_descs zf ! zid)) = None" "st \<noteq> NVME_SC_SUCCESS"
  shows "spec_step ev zid zf zf st"
proof -
  have "zviews zf ! zid = zview (zf_descs zf ! zid)" using assms(1,2) by (simp add: zviews_def zns_inv_def)
  then show ?thesis using assms(3,4) by (simp add: spec_step_def)
qed

lemma spec_step_idle:
  assumes "zns_inv zf" "zid < nr_zones zf" "zone_spec (zone_lbas zf) ev (zview (zf_descs zf ! zid)) = Some (zview (zf_descs zf ! zid))"
  shows "spec_step ev zid zf zf NVME_SC_SUCCESS"
proof -
  have e: "zviews zf ! zid = zview (zf_descs zf ! zid)" using assms(1,2) by (simp add: zviews_def zns_inv_def)
  then show ?thesis using assms(3) by (simp add: spec_step_def list_update_same_conv flip: e)
qed

text \<open>The fields of the state after the elementary operations.\<close>

lemma set_acquired_fields [simp]:
  "zf_descs (set_acquired zf t n) = zf_descs zf" "zf_zp (set_acquired zf t n) = zf_zp zf"
  "zf_ssd (set_acquired zf t n) = zf_ssd zf" "zf_wbufs (set_acquired zf t n) = zf_wbufs zf"
  "zf_storage (set_acquired zf t n) = zf_storage zf" "zf_zwra_bufs (set_acquired zf t n) = zf_zwra_bufs zf"
  "acquired_cnt (zf_res (set_acquired zf t n) t') = (if t' = t then n else acquired_cnt (zf_res zf t'))"
  "total_cnt (zf_res (set_acquired zf t n) t') = total_cnt (zf_res zf t')"
  by (auto simp: set_acquired_def)

lemma set_desc_fields [simp]:
  "zf_descs (set_desc zf i g) = (zf_descs zf)[i := g (zf_descs zf ! i)]" "zf_zp (set_desc zf i g) = zf_zp zf"
  "zf_ssd (set_desc zf i g) = zf_ssd zf" "zf_wbufs (set_desc zf i g) = zf_wbufs zf" "zf_res (set_desc zf i g) = zf_res zf"
  "zf_storage (set_desc zf i g) = zf_storage zf" "zf_zwra_bufs (set_desc zf i g) = zf_zwra_bufs zf"
  by (auto simp: set_desc_def)

lemma zone_ok_cases:
  "is_active d \<Longrightarrow> zone_ok n i d \<longleftrightarrow> zd_capacity d = n \<and> zd_zslba d = i * n \<and> \<not> zd_zrwav d \<and> i * n \<le> zd_wp d \<and> zd_wp d < i * n + n"
  "zd_state d = ZONE_STATE_EMPTY \<Longrightarrow> zone_ok n i d \<longleftrightarrow> zd_capacity d = n \<and> zd_zslba d = i * n \<and> \<not> zd_zrwav d \<and> zd_wp d = i * n"
  "zd_state d = ZONE_STATE_FULL \<Longrightarrow>
    zone_ok n i d \<longleftrightarrow> zd_capacity d = n \<and> zd_zslba d = i * n \<and> \<not> zd_zrwav d \<and> i * n \<le> zd_wp d \<and> zd_wp d \<le> i * n + n"
  by (auto simp: zone_ok_def is_active_def is_opened_def)

lemma zone_ok_states:
  assumes "zone_ok n i d"
  obtains "is_opened d" | "zd_state d = ZONE_STATE_CLOSED" | "zd_state d = ZONE_STATE_EMPTY" | "zd_state d = ZONE_STATE_FULL"
  using assms by (cases "zd_state d") (auto simp: zone_ok_def is_opened_def)

lemma opened_flags [simp]:
  "is_opened (d\<lparr>zd_state := s\<rparr>) \<longleftrightarrow> s = ZONE_STATE_OPENED_IMPL \<or> s = ZONE_STATE_OPENED_EXPL"
  "is_active (d\<lparr>zd_state := s\<rparr>) \<longleftrightarrow> s = ZONE_STATE_OPENED_IMPL \<or> s = ZONE_STATE_OPENED_EXPL \<or> s = ZONE_STATE_CLOSED"
  "is_opened (d\<lparr>zd_wp := w\<rparr>) = is_opened d" "is_active (d\<lparr>zd_wp := w\<rparr>) = is_active d"
  "is_opened d \<Longrightarrow> is_active d" "zd_state d = ZONE_STATE_CLOSED \<Longrightarrow> is_active d" "zd_state d = ZONE_STATE_CLOSED \<Longrightarrow> \<not> is_opened d"
  "zd_state d = ZONE_STATE_EMPTY \<Longrightarrow> \<not> is_active d" "zd_state d = ZONE_STATE_EMPTY \<Longrightarrow> \<not> is_opened d"
  "zd_state d = ZONE_STATE_FULL \<Longrightarrow> \<not> is_active d" "zd_state d = ZONE_STATE_FULL \<Longrightarrow> \<not> is_opened d"
  by (auto simp: is_opened_def is_active_def)

lemmas zone_defs = change_zone_state_def release_zone_resource_def release_active_def zview_def Let_def

lemma close_zone_ok:
  assumes "zns_inv zf" "zid < nr_zones zf"
  shows "\<exists>zf' st. zmgmt_send_close_zone zf zid = Some (zf', st) \<and> (zns_inv zf' \<and> spec_step Zone_close zid zf zf' st) \<and> zkeep zf zf'"
proof -
  let ?d = "zf_descs zf ! zid"
  note f = res_facts[OF assms]
  show ?thesis
    using f(2)
  proof (cases rule: zone_ok_states)
    case 1
    let ?zf = "release_zone_resource (change_zone_state zf zid ZONE_STATE_CLOSED) OPEN_ZONE"
    have "zmgmt_send_close_zone zf zid = Some (?zf, NVME_SC_SUCCESS)"
      using 1 f(1) by (auto simp: zmgmt_send_close_zone_def is_opened_def)
    moreover have "zns_inv ?zf \<and> spec_step Zone_close zid zf ?zf NVME_SC_SUCCESS"
      by (rule spec_step_some[OF assms, where d' = "?d\<lparr>zd_state := ZONE_STATE_CLOSED\<rparr>"])
        (use 1 1[unfolded is_opened_def] f(2-6) f(8)[OF 1] in \<open>simp_all add: zone_defs zone_ok_cases\<close>)
    moreover have "zkeep zf ?zf" by (simp add: zkeep_def zone_defs)
    ultimately show ?thesis by blast
  next
    case 2
    then show ?thesis using f(1) assms
      by (auto simp: zmgmt_send_close_zone_def zview_def intro!: spec_step_idle)
  qed (use f(1) assms in \<open>auto simp: zmgmt_send_close_zone_def zview_def zns_status_defs intro!: spec_step_none\<close>)
qed

lemma finish_zone_ok:
  assumes "zns_inv zf" "zid < nr_zones zf"
  shows "\<exists>zf' st. zmgmt_send_finish_zone zf zid = Some (zf', st) \<and> (zns_inv zf' \<and> spec_step Zone_finish zid zf zf' st) \<and> zkeep zf zf'"
proof -
  let ?d = "zf_descs zf ! zid"
  note f = res_facts[OF assms]
  let ?zf = "change_zone_state (release_active zf ?d) zid ZONE_STATE_FULL"
  let ?ze = "change_zone_state zf zid ZONE_STATE_FULL"
  have keep: "zkeep zf ?zf" "zkeep zf ?ze" by (simp_all add: zkeep_def zone_defs)
  show ?thesis
    using f(2)
  proof (cases rule: zone_ok_states)
    case 1
    have "zmgmt_send_finish_zone zf zid = Some (?zf, NVME_SC_SUCCESS)"
      using 1 f(1) by (auto simp: zmgmt_send_finish_zone_def is_opened_def)
    moreover have "zns_inv ?zf \<and> spec_step Zone_finish zid zf ?zf NVME_SC_SUCCESS"
      by (rule spec_step_some[OF assms, where d' = "?d\<lparr>zd_state := ZONE_STATE_FULL\<rparr>"])
        (use 1 1[unfolded is_opened_def] f(2-7) f(8)[OF 1] f(9) in \<open>auto simp: zone_defs zone_ok_cases\<close>)
    ultimately show ?thesis using keep by blast
  next
    case 2
    have "zmgmt_send_finish_zone zf zid = Some (?zf, NVME_SC_SUCCESS)"
      using 2 f(1) by (auto simp: zmgmt_send_finish_zone_def)
    moreover have "zns_inv ?zf \<and> spec_step Zone_finish zid zf ?zf NVME_SC_SUCCESS"
      by (rule spec_step_some[OF assms, where d' = "?d\<lparr>zd_state := ZONE_STATE_FULL\<rparr>"])
        (use 2 f(2-7) f(9) in \<open>auto simp: zone_defs zone_ok_cases\<close>)
    ultimately show ?thesis using keep by blast
  next
    case 3
    have "zmgmt_send_finish_zone zf zid = Some (?ze, NVME_SC_SUCCESS)"
      using 3 f(1) by (auto simp: zmgmt_send_finish_zone_def)
    moreover have "zns_inv ?ze \<and> spec_step Zone_finish zid zf ?ze NVME_SC_SUCCESS"
      by (rule spec_step_some[OF assms, where d' = "?d\<lparr>zd_state := ZONE_STATE_FULL\<rparr>"])
        (use 3 f(2-7) in \<open>auto simp: zone_defs zone_ok_cases\<close>)
    ultimately show ?thesis using keep by blast
  next
    case 4
    then show ?thesis using f(1) assms
      by (auto simp: zmgmt_send_finish_zone_def zview_def intro!: spec_step_idle)
  qed
qed

lemma zone_lbas_pos: "zns_inv zf \<Longrightarrow> 8 \<le> zone_lbas zf"
  using zgeo_divisors(2) by (auto simp: zns_inv_def)

lemma open_zone_ok:
  assumes "zns_inv zf" "zid < nr_zones zf"
  shows "\<exists>zf' st. zmgmt_send_open_zone zf zid False = Some (zf', st) \<and> (zns_inv zf' \<and> spec_step Zone_open zid zf zf' st) \<and> zkeep zf zf'"
proof -
  let ?d = "zf_descs zf ! zid"
  let ?d' = "?d\<lparr>zd_state := ZONE_STATE_OPENED_EXPL\<rparr>"
  note f = res_facts[OF assms] and pos = zone_lbas_pos[OF assms(1)]
  let ?acq = "\<lambda>z t. set_acquired z t (add32 (acquired_cnt (zf_res z t)) 1)"
  let ?c = "\<lambda>z. change_zone_state z zid ZONE_STATE_OPENED_EXPL"
  have keep: "zkeep zf (?c (?acq (?acq zf ACTIVE_ZONE) OPEN_ZONE))" "zkeep zf (?c (?acq zf OPEN_ZONE))" "zkeep zf (?c zf)"
    by (simp_all add: zkeep_def zone_defs)
  show ?thesis
    using f(2)
  proof (cases rule: zone_ok_states)
    case 1
    then show ?thesis
    proof (cases "zd_state ?d = ZONE_STATE_OPENED_IMPL")
      case True
      have "zns_inv (?c zf) \<and> spec_step Zone_open zid zf (?c zf) NVME_SC_SUCCESS"
        by (rule spec_step_some[OF assms, where d' = ?d']) (use 1 True f(2-7) in \<open>auto simp: zone_defs zone_ok_cases\<close>)
      then show ?thesis using True f(1) keep(3) by (simp add: zmgmt_send_open_zone_def)
    next
      case False
      then have "zd_state ?d = ZONE_STATE_OPENED_EXPL" using 1 by (simp add: is_opened_def)
      then show ?thesis using f(1) assms
        by (auto simp: zmgmt_send_open_zone_def zview_def intro!: spec_step_idle)
    qed
  next
    case 2
    have "open_closed zf zid = (?c (?acq zf OPEN_ZONE), NVME_SC_SUCCESS)"
      using 2 f(3,10) by (simp add: open_closed_def acquire_zone_resource_def is_zone_resource_avail_def)
    moreover have "zns_inv (?c (?acq zf OPEN_ZONE)) \<and> spec_step Zone_open zid zf (?c (?acq zf OPEN_ZONE)) NVME_SC_SUCCESS"
      by (rule spec_step_some[OF assms, where d' = ?d']) (use 2 f(2-7) f(10) in \<open>auto simp: zone_defs zone_ok_cases\<close>)
    ultimately show ?thesis using 2 f(1) keep(2) by (simp add: zmgmt_send_open_zone_def)
  next
    case 3
    have "open_empty zf zid False = (?c (?acq (?acq zf ACTIVE_ZONE) OPEN_ZONE), NVME_SC_SUCCESS)"
      using 3 f(3) f(10,11)
      by (simp add: open_empty_def open_closed_def acquire_zone_resource_def is_zone_resource_avail_def is_zone_resource_full_def)
    moreover have "zns_inv (?c (?acq (?acq zf ACTIVE_ZONE) OPEN_ZONE)) \<and>
        spec_step Zone_open zid zf (?c (?acq (?acq zf ACTIVE_ZONE) OPEN_ZONE)) NVME_SC_SUCCESS"
      by (rule spec_step_some[OF assms, where d' = ?d']) (use 3 f(2-7) f(10,11) pos in \<open>auto simp: zone_defs zone_ok_cases\<close>)
    ultimately show ?thesis using 3 f(1) keep(1) by (simp add: zmgmt_send_open_zone_def)
  qed (use f(1) assms in \<open>auto simp: zmgmt_send_open_zone_def zview_def zns_status_defs intro!: spec_step_none\<close>)
qed

lemma reset_zone_ok:
  assumes "zns_inv zf" "zid < nr_zones zf"
  shows "\<exists>zf' st. zmgmt_send_reset_zone zf zid = Some (zf', st) \<and> (zns_inv zf' \<and> spec_step Zone_reset zid zf zf' st) \<and> zkeep zf zf' \<and>
    zf_ssd zf' = zf_ssd zf \<and> zf_storage zf' = zero_range (zf_storage zf) (zid * zp_zone_size (zf_zp zf)) (zp_zone_size (zf_zp zf))"
proof -
  let ?d = "zf_descs zf ! zid"
  let ?d' = "?d\<lparr>zd_state := ZONE_STATE_EMPTY, zd_wp := zd_zslba ?d, zd_zrwav := False\<rparr>"
  note f = res_facts[OF assms]
  have l: "zid < length (zf_descs zf)" "zp_zrwa_buffer_size (zf_zp zf) = 0" using assms by (auto simp: zns_inv_def zgeo_ok_def)
  define go where "go z = (set_desc (change_zone_state z zid ZONE_STATE_EMPTY) zid (\<lambda>d. d\<lparr>zd_wp := zd_zslba d, zd_zrwav := False\<rparr>))
    \<lparr>zf_storage := zero_range (zf_storage z) (zid * zp_zone_size (zf_zp z)) (zp_zone_size (zf_zp z))\<rparr>" for z
  have rz: "reset_zone (change_zone_state z zid ZONE_STATE_EMPTY) zid = Some (go z)" if "zf_zp z = zf_zp zf" for z
    using that l(2) by (simp add: reset_zone_def go_def Let_def change_zone_state_def)
  have zp: "zf_zp (release_active zf ?d) = zf_zp zf" by (simp add: zone_defs)
  have keep: "zkeep zf (go zf)" "zkeep zf (go (release_active zf ?d))" "zf_ssd (go (release_active zf ?d)) = zf_ssd zf"
    "zf_ssd (go zf) = zf_ssd zf"
    "zf_storage (go zf) = zero_range (zf_storage zf) (zid * zp_zone_size (zf_zp zf)) (zp_zone_size (zf_zp zf))"
    "zf_storage (go (release_active zf ?d)) = zero_range (zf_storage zf) (zid * zp_zone_size (zf_zp zf)) (zp_zone_size (zf_zp zf))"
    by (simp_all add: zkeep_def zone_defs go_def)
  have flags: "\<not> is_opened ?d'" "\<not> is_active ?d'" by (simp_all add: is_opened_def is_active_def)
  have step: "zns_inv (go z) \<and> spec_step Zone_reset zid zf (go z) NVME_SC_SUCCESS"
    if "z = (if is_active ?d then release_active zf ?d else zf)" for z
    by (rule spec_step_some[OF assms, where d' = ?d'])
      (use that f(2-7) f(8,9) l flags zone_ok_states[OF f(2), of "zd_state ?d \<notin> {ZONE_STATE_READ_ONLY, ZONE_STATE_OFFLINE}"]
        in \<open>auto simp: zone_defs go_def zone_ok_cases is_opened_def is_active_def zone_ok_def\<close>)
  show ?thesis
    using f(2)
  proof (cases rule: zone_ok_states)
    case 1
    then show ?thesis using f(1) rz[OF zp] step[of "release_active zf ?d"] keep
      by (auto simp: zmgmt_send_reset_zone_def is_opened_def)
  next
    case 2
    then show ?thesis using f(1) rz[OF zp] step[of "release_active zf ?d"] keep by (auto simp: zmgmt_send_reset_zone_def)
  qed (use f(1) rz[of zf] step[of zf] keep in \<open>auto simp: zmgmt_send_reset_zone_def\<close>)
qed

end
