(* ===== verification/Zns_Write.thy ===== *)
theory Zns_Write
  imports Zns_Ops
begin

text \<open>
  Writes, appends and reads of a drive with zones: what they do to the zones is a step of the abstract zone machine.
\<close>

section \<open>Boundaries\<close>

lemma boundary_in_zone:
  assumes inv: "zns_inv zf" and z: "zid < nr_zones zf"
    and wp: "zid * zone_lbas zf \<le> wp" "wp < zid * zone_lbas zf + zone_lbas zf" and n: "0 < n" "n \<le> 65536"
  shows "check_boundary_error zf wp n \<longleftrightarrow> wp + n \<le> zid * zone_lbas zf + zone_lbas zf" "end_lba wp n = wp + n - 1"
    "lba_to_zone zf wp = zid"
proof -
  let ?L = "zone_lbas zf"
  have g: "zgeo_ok (zf_zp zf) (zf_sp zf)" using inv by (simp add: zns_inv_def)
  have total: "nr_zones zf * ?L < 4294967296" and s: "secsz (zf_sp zf) = 512" using g by (auto simp: zgeo_ok_def zspp_ok_def)
  have L: "8 \<le> ?L" by (rule zgeo_divisors(2)[OF g])
  have "Suc zid * ?L \<le> nr_zones zf * ?L" using z by (intro mult_le_mono1) simp
  then have top: "zid * ?L + ?L \<le> nr_zones zf * ?L" by (simp add: add.commute)
  have in_zone: "x div ?L = zid \<longleftrightarrow> x < zid * ?L + ?L" if "zid * ?L \<le> x" for x
  proof
    assume "x div ?L = zid"
    moreover have "x mod ?L < ?L" using L by simp
    ultimately show "x < zid * ?L + ?L" using div_mult_mod_eq[of x ?L] by simp
  next
    assume "x < zid * ?L + ?L"
    then show "x div ?L = zid" using that L by (intro div_nat_eqI) (simp_all add: mult.commute)
  qed
  show e: "end_lba wp n = wp + n - 1"
  proof -
    have b: "wp + n < 18446744073709551616" using wp(2) top total n by linarith
    obtain k where k: "wp + n = Suc k" using n(1) by (cases "wp + n") auto
    have "(Suc k + 18446744073709551615) mod 18446744073709551616 = k"
      using b k mod_add_self2[of k "18446744073709551616"] by simp
    then show ?thesis using b k by (simp add: end_lba_def dec64_def)
  qed
  have zone: "lba_to_zone zf x = x div ?L" if "x < 4294967296 + 65536" for x
  proof -
    have "x div ?L \<le> x div 8" using L by (intro div_le_mono2) simp_all
    then have "x div ?L < 4294967296" using that by simp
    then show ?thesis unfolding lba_to_zone_def s by simp
  qed
  have b: "wp < 4294967296 + 65536" "wp + n - 1 < 4294967296 + 65536" using wp(2) top total n by linarith+
  show w: "lba_to_zone zf wp = zid" using zone[OF b(1)] in_zone[OF wp(1)] wp(2) by simp
  have "zid * ?L \<le> wp + n - 1" using wp(1) n(1) by linarith
  then have "lba_to_zone zf (wp + n - 1) = zid \<longleftrightarrow> wp + n - 1 < zid * ?L + ?L" unfolding zone[OF b(2)] by (rule in_zone)
  moreover have "wp + n - 1 < zid * ?L + ?L \<longleftrightarrow> wp + n \<le> zid * ?L + ?L" using n(1) by linarith
  ultimately show "check_boundary_error zf wp n \<longleftrightarrow> wp + n \<le> zid * ?L + ?L"
    unfolding check_boundary_error_def e w by (simp only: eq_commute)
qed

section \<open>Admission and the write pointer\<close>

lemma increase_write_ptr_ok:
  assumes inv: "zns_inv zf" and z: "zid < nr_zones zf" and op: "is_opened (zf_descs zf ! zid)"
    and n: "0 < n" "n \<le> 65536" "zd_wp (zf_descs zf ! zid) + n \<le> zid * zone_lbas zf + zone_lbas zf"
  defines "d \<equiv> zf_descs zf ! zid"
  shows "zns_inv (increase_write_ptr zf zid n)" "zkeep zf (increase_write_ptr zf zid n)" "zf_ssd (increase_write_ptr zf zid n) = zf_ssd zf"
    "zviews (increase_write_ptr zf zid n) = (zviews zf)[zid :=
      (if zd_wp d - zd_zslba d + n = zone_lbas zf then ZONE_STATE_FULL else zd_state d, zd_wp d - zd_zslba d + n)]"
proof -
  note f = res_facts[OF inv z]
  have l: "zid < length (zf_descs zf)" using inv z by (simp add: zns_inv_def)
  have g: "zgeo_ok (zf_zp zf) (zf_sp zf)" using inv by (simp add: zns_inv_def)
  have d: "zd_capacity d = zone_lbas zf" "zd_zslba d = zid * zone_lbas zf" "zid * zone_lbas zf \<le> zd_wp d"
    using f(2) op by (auto simp: zone_ok_cases d_def)
  have total: "nr_zones zf * zone_lbas zf < 4294967296" using g by (simp add: zgeo_ok_def)
  have "Suc zid * zone_lbas zf \<le> nr_zones zf * zone_lbas zf" using z by (intro mult_le_mono1) simp
  then have top: "zid * zone_lbas zf + zone_lbas zf < 4294967296" using total by (simp add: add.commute)
  have wn: "zd_wp d + n < 4294967296" using n(3) top by (simp add: d_def)
  have wp: "(zd_wp d + n mod 2 ^ 32) mod 2 ^ 64 = zd_wp d + n" using n(2) wn by simp
  have en: "(zone_to_slba zf zid + zd_capacity d) mod 2 ^ 64 = zid * zone_lbas zf + zone_lbas zf"
    unfolding zone_of_lba(1)[OF g z] d(1) using top by simp
  let ?zf = "increase_write_ptr zf zid n"
  let ?full = "zd_wp d + n = zid * zone_lbas zf + zone_lbas zf"
  let ?moved = "set_desc zf zid (\<lambda>d. d\<lparr>zd_wp := zd_wp (zf_descs zf ! zid) + n\<rparr>)"
  have eq: "?zf = (if ?full then change_zone_state (release_zone_resource (release_zone_resource ?moved OPEN_ZONE) ACTIVE_ZONE) zid
      ZONE_STATE_FULL else ?moved)"
    unfolding increase_write_ptr_def Let_def d_def[symmetric] wp en by (rule refl)
  define d' where "d' = (if ?full then d\<lparr>zd_wp := zd_wp d + n, zd_state := ZONE_STATE_FULL\<rparr> else d\<lparr>zd_wp := zd_wp d + n\<rparr>)"
  have act: "is_active d" "is_opened d" using op by (simp_all add: d_def)
  have cnt: "0 < acquired_cnt (zf_res zf OPEN_ZONE)" "0 < acquired_cnt (zf_res zf ACTIVE_ZONE)" using f(8,9) act by (simp_all add: d_def)
  have "zns_inv ?zf \<and> zviews ?zf = (zviews zf)[zid := zview d']"
  proof (cases ?full)
    case True
    show ?thesis
      by (rule zone_set_inv[OF inv z, where d' = d'], unfold eq d'_def d_def[symmetric])
        (use True f(2-7)[folded d_def] cnt act l d in \<open>simp_all add: d_def change_zone_state_def release_zone_resource_def zone_ok_cases\<close>)
  next
    case False
    then have "zd_wp d + n < zid * zone_lbas zf + zone_lbas zf" using n(3) by (simp add: d_def)
    then show ?thesis
      by (intro zone_set_inv[OF inv z, where d' = d'], unfold eq d'_def d_def[symmetric])
        (use False f(2-7)[folded d_def] act l d in \<open>simp_all add: d_def zone_ok_cases\<close>)
  qed
  moreover have "zview d' = (if zd_wp d - zd_zslba d + n = zone_lbas zf then ZONE_STATE_FULL else zd_state d, zd_wp d - zd_zslba d + n)"
  proof -
    have "zd_wp d - zd_zslba d + n = zone_lbas zf \<longleftrightarrow> ?full" "zd_wp d + n - zd_zslba d = zd_wp d - zd_zslba d + n"
      using d(2,3) by linarith+
    moreover have "zview d' = (if ?full then ZONE_STATE_FULL else zd_state d, zd_wp d + n - zd_zslba d)"
      by (auto simp: d'_def zview_def)
    ultimately show ?thesis by (simp only:)
  qed
  ultimately show "zns_inv ?zf" "zviews ?zf = (zviews zf)[zid :=
      (if zd_wp d - zd_zslba d + n = zone_lbas zf then ZONE_STATE_FULL else zd_state d, zd_wp d - zd_zslba d + n)]" by simp_all
  show "zkeep zf ?zf" "zf_ssd ?zf = zf_ssd zf" by (simp_all add: increase_write_ptr_def zkeep_def zone_defs)
qed

text \<open>What a write does before it programs pages: it is refused, or the zone is open and has room.\<close>

definition admitted :: "zns_ftl \<Rightarrow> nat \<Rightarrow> nat \<Rightarrow> zns_ftl \<Rightarrow> bool" where
  "admitted zf zid n zf1 \<longleftrightarrow> zns_inv zf1 \<and> zkeep zf zf1 \<and> zf_ssd zf1 = zf_ssd zf \<and> is_opened (zf_descs zf1 ! zid) \<and>
     zd_wp (zf_descs zf1 ! zid) = zd_wp (zf_descs zf ! zid) \<and> zd_zslba (zf_descs zf1 ! zid) = zd_zslba (zf_descs zf ! zid) \<and>
     zd_wp (zf_descs zf ! zid) + n \<le> zid * zone_lbas zf + zone_lbas zf \<and>
     zviews zf1 = (zviews zf)[zid := (if zd_state (zf_descs zf ! zid) = ZONE_STATE_OPENED_EXPL then ZONE_STATE_OPENED_EXPL
       else ZONE_STATE_OPENED_IMPL, zd_wp (zf_descs zf ! zid) - zd_zslba (zf_descs zf ! zid))]"

lemma admit_opened:
  assumes "zns_inv zf" "zid < nr_zones zf" "is_opened (zf_descs zf ! zid)"
    "zd_wp (zf_descs zf ! zid) + n \<le> zid * zone_lbas zf + zone_lbas zf"
  shows "admitted zf zid n zf"
proof -
  have "zid < length (zf_descs zf)" using assms(1,2) by (simp add: zns_inv_def)
  then have v: "zviews zf ! zid = zview (zf_descs zf ! zid)" by (simp add: zviews_def)
  have "(if zd_state (zf_descs zf ! zid) = ZONE_STATE_OPENED_EXPL then ZONE_STATE_OPENED_EXPL else ZONE_STATE_OPENED_IMPL,
      zd_wp (zf_descs zf ! zid) - zd_zslba (zf_descs zf ! zid)) = zviews zf ! zid"
    using assms(3) unfolding v by (auto simp: zview_def is_opened_def)
  then show ?thesis using assms by (simp add: admitted_def)
qed

lemma admit_open:
  assumes inv: "zns_inv zf" and z: "zid < nr_zones zf"
    and st: "zd_state (zf_descs zf ! zid) = ZONE_STATE_CLOSED \<and> zf1 = zf \<or>
      zd_state (zf_descs zf ! zid) = ZONE_STATE_EMPTY \<and> zf1 = fst (acquire_zone_resource zf ACTIVE_ZONE)"
    and n: "zd_wp (zf_descs zf ! zid) + n \<le> zid * zone_lbas zf + zone_lbas zf"
  shows "\<exists>zf2. acquire_zone_resource zf1 OPEN_ZONE = (zf2, True) \<and> admitted zf zid n (change_zone_state zf2 zid ZONE_STATE_OPENED_IMPL)"
proof -
  let ?d = "zf_descs zf ! zid"
  let ?d' = "?d\<lparr>zd_state := ZONE_STATE_OPENED_IMPL\<rparr>"
  note f = res_facts[OF inv z] and pos = zone_lbas_pos[OF inv]
  have l: "zid < length (zf_descs zf)" using inv z by (simp add: zns_inv_def)
  let ?acq = "\<lambda>z t. set_acquired z t (add32 (acquired_cnt (zf_res z t)) 1)"
  have no: "\<not> is_opened ?d" using st by auto
  have e1: "zf1 = (if zd_state ?d = ZONE_STATE_CLOSED then zf else ?acq zf ACTIVE_ZONE)"
    using st f(3) f(11) by (auto simp: acquire_zone_resource_def is_zone_resource_avail_def)
  have "acquire_zone_resource zf1 OPEN_ZONE = (?acq zf1 OPEN_ZONE, True)"
    using e1 f(3) f(10)[OF no] by (auto simp: acquire_zone_resource_def is_zone_resource_avail_def)
  moreover have "admitted zf zid n (change_zone_state (?acq zf1 OPEN_ZONE) zid ZONE_STATE_OPENED_IMPL)"
  proof -
    let ?z = "change_zone_state (?acq zf1 OPEN_ZONE) zid ZONE_STATE_OPENED_IMPL"
    have "zns_inv ?z \<and> zviews ?z = (zviews zf)[zid := zview ?d']"
    proof (cases "zd_state ?d = ZONE_STATE_CLOSED")
      case True
      show ?thesis
        by (rule zone_set_inv[OF inv z, where d' = ?d'])
          (use True e1 f(2-7) f(10)[OF no] in \<open>auto simp: change_zone_state_def zone_ok_cases\<close>)
    next
      case False
      then have "zd_state ?d = ZONE_STATE_EMPTY" using st by simp
      then show ?thesis
        by (intro zone_set_inv[OF inv z, where d' = ?d'])
          (use e1 f(2-7) f(10)[OF no] f(11) pos in \<open>auto simp: change_zone_state_def zone_ok_cases\<close>)
    qed
    then show ?thesis
      using st n l unfolding admitted_def by (auto simp: zkeep_def change_zone_state_def zview_def e1 is_opened_def)
  qed
  ultimately show ?thesis by blast
qed

lemma write_admit_ok:
  assumes inv: "zns_inv zf" and z: "zid < nr_zones zf" and n: "0 < n" "n \<le> 65536"
  defines "d \<equiv> zf_descs zf ! zid"
  shows "\<exists>r. write_admit zf zid d slba n = Some r \<and>
    (case r of
       Inl st \<Rightarrow> st \<noteq> NVME_SC_SUCCESS \<and>
         (slba = zd_wp d \<and> LBA_TO_BYTE n mod write_unit_size (zf_sp zf) = 0 \<longrightarrow> zone_spec (zone_lbas zf) (Zone_write n) (zview d) = None)
     | Inr zf1 \<Rightarrow> slba = zd_wp d \<and> LBA_TO_BYTE n mod write_unit_size (zf_sp zf) = 0 \<and> admitted zf zid n zf1 \<and> zd_state d \<noteq> ZONE_STATE_FULL)"
proof -
  let ?L = "zone_lbas zf"
  note f = res_facts[OF inv z]
  have wu: "write_unit_size (zf_sp zf) \<noteq> 0" using inv by (simp add: zns_inv_def zgeo_ok_def zspp_ok_def)
  have full: "zone_spec ?L (Zone_write n) (zview d) = None" if "zd_state d = ZONE_STATE_FULL" using that by (simp add: zview_def)
  consider (unit) "LBA_TO_BYTE n mod write_unit_size (zf_sp zf) \<noteq> 0" | (off) "LBA_TO_BYTE n mod write_unit_size (zf_sp zf) = 0" "slba \<noteq> zd_wp d"
    | (full) "LBA_TO_BYTE n mod write_unit_size (zf_sp zf) = 0" "slba = zd_wp d" "zd_state d = ZONE_STATE_FULL"
    | (at) "LBA_TO_BYTE n mod write_unit_size (zf_sp zf) = 0" "slba = zd_wp d" "zd_state d \<noteq> ZONE_STATE_FULL" by blast
  then show ?thesis
  proof cases
    case at
    have d: "zd_zslba d = zid * ?L" "zid * ?L \<le> zd_wp d" "zd_wp d < zid * ?L + ?L"
      using f(2) at(3) zone_lbas_pos[OF inv] unfolding d_def[symmetric]
      by (auto simp: zone_ok_def split: zone_state.splits)
    note b = boundary_in_zone(1)[OF inv z d(2,3) n]
    show ?thesis
    proof (cases "zd_wp d + n \<le> zid * ?L + ?L")
      case True
      note room = True[unfolded d_def]
      show ?thesis
        using f(2)
      proof (cases rule: zone_ok_states)
        case 1
        then have "write_admit zf zid d slba n = Some (Inr zf)"
          using at True b wu by (auto simp: write_admit_def d_def is_opened_def)
        then show ?thesis using admit_opened[OF inv z 1 room] at by simp
      next
        case 2
        obtain zf2 where zf2: "acquire_zone_resource zf OPEN_ZONE = (zf2, True)" "admitted zf zid n (change_zone_state zf2 zid ZONE_STATE_OPENED_IMPL)"
          using admit_open[OF inv z _ room, of zf] 2 by blast
        then have "write_admit zf zid d slba n = Some (Inr (change_zone_state zf2 zid ZONE_STATE_OPENED_IMPL))"
          using at True b wu 2 by (simp add: write_admit_def d_def)
        then show ?thesis using zf2 at by simp
      next
        case 3
        have w: "zd_wp d = zd_zslba d" using 3 f(2) by (simp add: zone_ok_cases d_def)
        have nf: "\<not> is_zone_resource_full zf ACTIVE_ZONE" "\<not> is_zone_resource_full zf OPEN_ZONE"
          using 3 f(3) f(10,11) by (auto simp: is_zone_resource_full_def)
        obtain zf2 where zf2: "acquire_zone_resource (fst (acquire_zone_resource zf ACTIVE_ZONE)) OPEN_ZONE = (zf2, True)"
          "admitted zf zid n (change_zone_state zf2 zid ZONE_STATE_OPENED_IMPL)"
          using admit_open[OF inv z _ room, of "fst (acquire_zone_resource zf ACTIVE_ZONE)"] 3 by blast
        then have "write_admit zf zid d slba n = Some (Inr (change_zone_state zf2 zid ZONE_STATE_OPENED_IMPL))"
          using at True b wu 3 nf w by (simp add: write_admit_def d_def)
        then show ?thesis using zf2 at by simp
      qed (use at in \<open>simp add: d_def\<close>)
    next
      case False
      then have "write_admit zf zid d slba n = Some (Inl NVME_SC_ZNS_ERR_BOUNDARY)"
        using at b wu by (simp add: write_admit_def)
      moreover have "\<not> zd_wp d - zd_zslba d + n \<le> ?L" using False d by linarith
      then have "zone_spec ?L (Zone_write n) (zview d) = None" by (simp add: zview_def)
      ultimately show ?thesis by (simp add: zns_status_defs)
    qed
  qed (use wu full in \<open>auto simp: write_admit_def zns_status_defs\<close>)
qed

section \<open>Plain writes\<close>

lemma zns_inv_ssd: "zns_inv zf \<Longrightarrow> ssd_live s \<Longrightarrow> ssd_sp s = zf_sp zf \<Longrightarrow> zns_inv (zf\<lparr>zf_ssd := s\<rparr>)"
  by (simp add: zns_inv_def res_ok_def)

lemma put_wbuf_ok:
  "zns_inv zf \<Longrightarrow> zns_inv (put_wbuf zf ref b)" "zviews (put_wbuf zf ref b) = zviews zf" "zf_descs (put_wbuf zf ref b) = zf_descs zf"
  "zf_zp (put_wbuf zf ref b) = zf_zp zf" "zf_sp (put_wbuf zf ref b) = zf_sp zf"
  by (cases ref; simp add: zns_inv_def res_ok_def ssd_live_def zviews_def)+

lemma zone_wbuf_there:
  assumes "zns_inv zf" "zid < nr_zones zf"
  shows "\<exists>b. get_wbuf zf (zone_wbuf zf zid) = Some b"
  using assms by (auto simp: zone_wbuf_def zns_inv_def array_read_def)

text \<open>An admitted write, with the write pointer moved, is a step of the zone machine.\<close>

lemma admitted_step:
  assumes inv: "zns_inv zf" and z: "zid < nr_zones zf" and n: "0 < n" "n \<le> 65536"
    and adm: "admitted zf zid n zf1" and nf: "zd_state (zf_descs zf ! zid) \<noteq> ZONE_STATE_FULL"
  defines "zf2 \<equiv> increase_write_ptr zf1 zid n"
  shows "zns_inv zf2" "zkeep zf zf2" "zf_ssd zf2 = zf_ssd zf"
    "\<exists>v. zone_spec (zone_lbas zf) (Zone_write n) (zviews zf ! zid) = Some v \<and> zviews zf2 = (zviews zf)[zid := v]"
proof -
  let ?d = "zf_descs zf ! zid" and ?e = "zf_descs zf1 ! zid"
  have a: "zns_inv zf1" "zkeep zf zf1" "zf_ssd zf1 = zf_ssd zf" "is_opened ?e" "zd_wp ?e = zd_wp ?d" "zd_zslba ?e = zd_zslba ?d"
    "zd_wp ?d + n \<le> zid * zone_lbas zf + zone_lbas zf"
    "zviews zf1 = (zviews zf)[zid := (if zd_state ?d = ZONE_STATE_OPENED_EXPL then ZONE_STATE_OPENED_EXPL
       else ZONE_STATE_OPENED_IMPL, zd_wp ?d - zd_zslba ?d)]" using adm unfolding admitted_def by blast+
  have zp: "zf_zp zf1 = zf_zp zf" using a(2) by (simp add: zkeep_def)
  have z1: "zid < nr_zones zf1" "zd_wp ?e + n \<le> zid * zone_lbas zf1 + zone_lbas zf1" using z a(5,7) zp by simp_all
  note inc = increase_write_ptr_ok[OF a(1) z1(1) a(4) n z1(2), folded zf2_def]
  show "zns_inv zf2" "zkeep zf zf2" "zf_ssd zf2 = zf_ssd zf" using inc(1-3) a(2,3) zkeep_trans by auto
  have l: "zid < length (zviews zf)" "zid < length (zf_descs zf1)" using inv a(1) z z1 by (auto simp: zns_inv_def zviews_def)
  have "zviews zf1 ! zid = zview ?e" using l(2) by (simp add: zviews_def)
  then have st: "zd_state ?e = (if zd_state ?d = ZONE_STATE_OPENED_EXPL then ZONE_STATE_OPENED_EXPL else ZONE_STATE_OPENED_IMPL)"
    using a(8) l(1) by (simp add: zview_def)
  have zok: "zone_ok (zone_lbas zf) zid ?d" by (rule res_facts(2)[OF inv z])
  then have d: "zd_zslba ?d = zid * zone_lbas zf" "zid * zone_lbas zf \<le> zd_wp ?d" by (auto simp: zone_ok_def)
  have "zd_state ?d \<in> {ZONE_STATE_EMPTY, ZONE_STATE_CLOSED, ZONE_STATE_OPENED_IMPL, ZONE_STATE_OPENED_EXPL}"
    using zok nf by (cases "zd_state ?d") (auto simp: zone_ok_def)
  moreover have "zd_wp ?d - zd_zslba ?d + n \<le> zone_lbas zf" using d a(7) by linarith
  ultimately have "zone_spec (zone_lbas zf) (Zone_write n) (zview ?d) = Some (if zd_wp ?d - zd_zslba ?d + n = zone_lbas zf
      then ZONE_STATE_FULL else zd_state ?e, zd_wp ?d - zd_zslba ?d + n)" by (simp add: zview_def st)
  moreover have "zviews zf ! zid = zview ?d" using l(1) by (simp add: zviews_def)
  ultimately show "\<exists>v. zone_spec (zone_lbas zf) (Zone_write n) (zviews zf ! zid) = Some v \<and> zviews zf2 = (zviews zf)[zid := v]"
    using inc(4) a(5,6,8) zp by simp
qed

text \<open>What a write at block \<open>slba\<close> of zone \<open>zid\<close> does: refused for want of buffer space, refused because it is not at the
  write pointer or not a multiple of the write unit, or a step of the zone machine.  But for the first case it takes its
  bytes from the write buffer, and when it is refused no message gives them back.\<close>

definition wbuf_left :: "zns_ftl \<Rightarrow> wbuf_ref \<Rightarrow> nat" where
  "wbuf_left zf ref = buf_remaining (the (get_wbuf zf ref))"

definition write_step :: "nat \<Rightarrow> nat \<Rightarrow> nat \<Rightarrow> zns_ftl \<Rightarrow> zns_ftl \<Rightarrow> nvmev_result option \<Rightarrow> zns_op list \<Rightarrow> bool" where
  "write_step zid slba n zf zf' r ops \<longleftrightarrow>
    (case r of
       None \<Rightarrow> zviews zf' = zviews zf \<and> wbuf_left zf (zone_wbuf zf zid) < LBA_TO_BYTE n \<and>
         wbuf_left zf' (zone_wbuf zf zid) = wbuf_left zf (zone_wbuf zf zid) \<and> ops = []
     | Some res \<Rightarrow> wbuf_left zf' (zone_wbuf zf zid) + LBA_TO_BYTE n = wbuf_left zf (zone_wbuf zf zid) \<and>
         (rs_status res \<noteq> NVME_SC_SUCCESS \<longrightarrow> ops = []) \<and>
         (if slba = zd_wp (zf_descs zf ! zid) \<and> LBA_TO_BYTE n mod write_unit_size (zf_sp zf) = 0
          then spec_step (Zone_write n) zid zf zf' (rs_status res)
          else rs_status res \<noteq> NVME_SC_SUCCESS \<and> zviews zf' = zviews zf))"

lemma put_wbuf_left:
  assumes "get_wbuf zf ref = Some b"
  shows "wbuf_left (put_wbuf zf ref b') ref = buf_remaining b'"
  using assms by (cases ref) (auto simp: wbuf_left_def array_read_def split: if_splits)

lemma zkeep_left:
  assumes "zkeep zf zf'" "zf_ssd zf' = zf_ssd zf" "\<And>k. ref \<noteq> Zrwa_wb k"
  shows "wbuf_left zf' ref = wbuf_left zf ref"
  using assms by (cases ref) (auto simp: wbuf_left_def zkeep_def)

lemma ssd_left: "ssd_write_buffer s = ssd_write_buffer (zf_ssd zf) \<Longrightarrow> wbuf_left (zf\<lparr>zf_ssd := s\<rparr>) ref = wbuf_left zf ref"
  by (cases ref) (auto simp: wbuf_left_def)

lemma zns_write_plain_ok:
  assumes inv: "zns_inv zf" and lba: "unat (c_slba c) < nr_zones zf * zone_lbas zf" and len: "c_length c < 65536"
  defines "zid \<equiv> lba_to_zone zf (unat (c_slba c))"
  defines "slba \<equiv> if c_opcode c = nvme_cmd_zone_append then zd_wp (zf_descs zf ! zid) else unat (c_slba c)"
  assumes c: "rq_cmd rq = c"
  shows "\<exists>zf' r ops. zns_write_plain zf rq = Some (zf', c\<lparr>c_slba := of_nat slba\<rparr>, r, ops) \<and> zns_inv zf' \<and>
    zf_zp zf' = zf_zp zf \<and> zf_sp zf' = zf_sp zf \<and> write_step zid slba (nr_lba c) zf zf' r ops"
proof -
  let ?n = "nr_lba c" and ?d = "zf_descs zf ! zid" and ?buf = "zone_wbuf zf zid"
  let ?c' = "c\<lparr>c_slba := of_nat slba\<rparr>"
  have n: "0 < ?n" "?n \<le> 65536" using len by (auto simp: nr_lba_def)
  have g: "zgeo_ok (zf_zp zf) (zf_sp zf)" using inv by (simp add: zns_inv_def)
  have z: "zid < nr_zones zf" using zone_of_lba(2)[OF g lba] by (simp add: zid_def)
  note f = res_facts[OF inv z]
  obtain b where b: "get_wbuf zf ?buf = Some b" using zone_wbuf_there[OF inv z] by blast
  obtain b' got where got: "buffer_allocate b (LBA_TO_BYTE ?n) = (b', got)" by fastforce
  have lt: "got < LBA_TO_BYTE ?n \<longleftrightarrow> buf_remaining b < LBA_TO_BYTE ?n"
    using got n by (auto simp: buffer_allocate_def Let_def LBA_TO_BYTE_def split: if_splits)
  have left: "wbuf_left zf ?buf = buf_remaining b" using b by (simp add: wbuf_left_def)
  have b'': "buf_remaining b' = (if got < LBA_TO_BYTE ?n then buf_remaining b else buf_remaining b - LBA_TO_BYTE ?n)"
    using got n by (auto simp: buffer_allocate_def Let_def LBA_TO_BYTE_def split: if_splits)
  define za where "za = put_wbuf zf ?buf b'"
  have za: "zns_inv za" "zviews za = zviews zf" "zf_descs za = zf_descs zf" "zf_zp za = zf_zp zf" "zf_sp za = zf_sp zf"
    using inv by (auto simp: za_def put_wbuf_ok)
  have za_left: "wbuf_left za ?buf = buf_remaining b'" unfolding za_def by (rule put_wbuf_left[OF b])
  have unfold: "zns_write_plain zf rq = (if got < LBA_TO_BYTE ?n then Some (za, ?c', None, [])
      else do {
       adm \<leftarrow> write_admit za zid ?d slba ?n;
       (case adm of
          Inl status \<Rightarrow> Some (za, ?c', Some (write_result za rq status (rq_nsecs_start rq) (rq_nsecs_start rq)), [])
        | Inr zf1 \<Rightarrow> do {
            let zf2 = increase_write_ptr zf1 zid ?n;
            (s, t) \<leftarrow> ssd_advance_write_buffer (zf_ssd zf2) (rq_nsecs_start rq) (LBA_TO_BYTE ?n) 4;
            (s', latest, ops) \<leftarrow> program_loop zf2 rq ?buf t (zone_to_elpn zf zid) (lba_to_lpn zf (end_lba slba ?n))
              (lba_to_lpn zf slba) (s, t, []);
            Some (zf2\<lparr>zf_ssd := s'\<rparr>, ?c', Some (write_result zf2 rq NVME_SC_SUCCESS latest t), ops)
          })
     })"
    unfolding zns_write_plain_def c Let_def zid_def[symmetric] f(1) bind.bind_lunit slba_def[symmetric] b got prod.case za_def
    by (rule refl)
  show ?thesis
  proof (cases "got < LBA_TO_BYTE ?n")
    case True
    then show ?thesis using unfold za lt left za_left b'' by (simp add: write_step_def)
  next
    case False
    then have taken: "wbuf_left za ?buf + LBA_TO_BYTE ?n = wbuf_left zf ?buf" using lt left za_left b'' by simp
    have za_z: "zid < nr_zones za" using z za(4) by simp
    obtain r where r: "write_admit za zid ?d slba ?n = Some r" and
      rr: "case r of Inl st \<Rightarrow> st \<noteq> NVME_SC_SUCCESS \<and>
         (slba = zd_wp ?d \<and> LBA_TO_BYTE ?n mod write_unit_size (zf_sp za) = 0 \<longrightarrow> zone_spec (zone_lbas za) (Zone_write ?n) (zview ?d) = None)
       | Inr zf1 \<Rightarrow> slba = zd_wp ?d \<and> LBA_TO_BYTE ?n mod write_unit_size (zf_sp za) = 0 \<and> admitted za zid ?n zf1 \<and> zd_state ?d \<noteq> ZONE_STATE_FULL"
      using write_admit_ok[OF za(1) za_z n, of slba] unfolding za(3) by blast
    have v: "zviews zf ! zid = zview ?d" using inv z by (simp add: zviews_def zns_inv_def)
    show ?thesis
    proof (cases r)
      case (Inl st)
      then have "write_step zid slba ?n zf za (Some (write_result za rq st (rq_nsecs_start rq) (rq_nsecs_start rq))) []"
        using rr za v taken by (auto simp: write_step_def write_result_def spec_step_def)
      then show ?thesis using unfold False r Inl za by simp
    next
      case (Inr zf1)
      let ?zf2 = "increase_write_ptr zf1 zid ?n"
      have adm: "slba = zd_wp ?d" "LBA_TO_BYTE ?n mod write_unit_size (zf_sp zf) = 0" "admitted za zid ?n zf1"
        "zd_state (zf_descs za ! zid) \<noteq> ZONE_STATE_FULL" using rr Inr za by auto
      note st = admitted_step[OF za(1) za_z n adm(3,4)]
      have live: "ssd_live (zf_ssd ?zf2)" "zgeo_ok (zf_zp ?zf2) (zf_sp ?zf2)" using st(1) by (auto simp: zns_inv_def)
      obtain s t where s: "ssd_advance_write_buffer (zf_ssd ?zf2) (rq_nsecs_start rq) (LBA_TO_BYTE ?n) 4 = Some (s, t)"
        "ssd_live s" "same_nand (zf_ssd ?zf2) s" using ssd_advance_write_buffer_live[OF live(1), of 4] by fastforce
      have sp: "ssd_sp s = zf_sp ?zf2" using s(3) by (simp add: same_nand_def)
      obtain s' l' ops' where p: "program_loop ?zf2 rq ?buf t (zone_to_elpn zf zid) (lba_to_lpn zf (end_lba slba ?n)) (lba_to_lpn zf slba) (s, t, []) =
          Some (s', l', ops')" "ssd_live s'" "same_nand s s'" using program_loop_ok[OF live(2) s(2) sp] by blast
      have sp': "ssd_sp s' = zf_sp ?zf2" using p(3) sp by (simp add: same_nand_def)
      have k: "zf_zp ?zf2 = zf_zp zf" "zf_sp ?zf2 = zf_sp zf" using zkeep_params[OF st(2)] za by auto
      have "ssd_write_buffer s' = ssd_write_buffer (zf_ssd ?zf2)" using s(3) p(3) by (simp add: same_nand_def)
      then have "wbuf_left (?zf2\<lparr>zf_ssd := s'\<rparr>) ?buf = wbuf_left za ?buf"
        using ssd_left[of s' ?zf2 ?buf] zkeep_left[OF st(2,3), of ?buf] by (simp add: zone_wbuf_def)
      then have left2: "wbuf_left (?zf2\<lparr>zf_ssd := s'\<rparr>) ?buf + LBA_TO_BYTE ?n = wbuf_left zf ?buf" using taken by simp
      have "zviews (?zf2\<lparr>zf_ssd := s'\<rparr>) = zviews ?zf2" by (simp add: zviews_def)
      then have "write_step zid slba ?n zf (?zf2\<lparr>zf_ssd := s'\<rparr>) (Some (write_result ?zf2 rq NVME_SC_SUCCESS l' t)) ops'"
        using st(4) adm(1,2) za left2 by (auto simp: write_step_def write_result_def spec_step_def)
      moreover have "zns_write_plain zf rq = Some (?zf2\<lparr>zf_ssd := s'\<rparr>, ?c', Some (write_result ?zf2 rq NVME_SC_SUCCESS l' t), ops')"
        using unfold False r Inr s(1) p(1) by (simp add: Let_def)
      ultimately show ?thesis using zns_inv_ssd[OF st(1) p(2) sp'] k sp' by auto
    qed
  qed
qed

end
