(* ===== verification/Zns_Device.thy ===== *)
theory Zns_Device
  imports Zns_Write
begin

text \<open>
  The drive with zones as it is configured: management commands, reads and the dispatch keep the invariant, and a drive
  fresh from \<^verbatim>\<open>zns_init_namespace\<close> with the configuration of \<^verbatim>\<open>load_zns_configs\<close> satisfies it.
\<close>

section \<open>Management commands\<close>

definition action_event :: "nat \<Rightarrow> zone_event option" where
  "action_event a = (if a = 1 then Some Zone_close else if a = 2 then Some Zone_finish else if a = 3 then Some Zone_open
     else if a = 4 then Some Zone_reset else None)"

text \<open>What a management command for one zone does, with its status.\<close>

definition mgmt_step :: "nat \<Rightarrow> nat \<Rightarrow> zns_ftl \<Rightarrow> zns_ftl \<Rightarrow> nat \<Rightarrow> bool" where
  "mgmt_step a zid zf zf' st \<longleftrightarrow>
    (case action_event a of
       Some ev \<Rightarrow> spec_step ev zid zf zf' st
     | None \<Rightarrow> zviews zf' = zviews zf \<and> (a = 5 \<or> a = 17 \<longrightarrow> st \<noteq> NVME_SC_SUCCESS))"

lemma zspec_step_ssd: "spec_step ev zid zf (zf'\<lparr>zf_ssd := s\<rparr>) st = spec_step ev zid zf zf' st"
  by (simp add: spec_step_def zviews_def split: option.split)

lemma zmgmt_send_ok:
  assumes inv: "zns_inv zf" and lba: "slba < nr_zones zf * zone_lbas zf" and opt: "\<not> opt"
  shows "\<exists>zf' st lat. zmgmt_send garbage zf slba a opt rq = Some (zf', st, lat) \<and> zns_inv zf' \<and> zkeep zf zf' \<and>
    mgmt_step a (slba div zone_lbas zf) zf zf' st"
proof -
  have g: "zgeo_ok (zf_zp zf) (zf_sp zf)" using inv by (simp add: zns_inv_def)
  note geo = zgeo_divisors(1)[OF g]
  define zid where "zid = slba div zone_lbas zf"
  have z: "lba_to_zone zf slba = zid" "zid < nr_zones zf" using zone_of_lba(2)[OF g lba] by (auto simp: zid_def)
  note f = res_facts[OF inv z(2)]
  have zok: "\<not> zd_zrwav (zf_descs zf ! zid)" using f(2) by (simp add: zone_ok_def)
  consider "a = 1" | "a = 2" | "a = 3" | (reset) "a = 4" | (off) "a = 5" | (flush) "a = 17" | (other) "a \<notin> {1, 2, 3, 4, 5, 17}" by auto
  then have "\<exists>zf' st lat. zmgmt_send garbage zf slba a opt rq = Some (zf', st, lat) \<and> zns_inv zf' \<and> zkeep zf zf' \<and> mgmt_step a zid zf zf' st"
  proof cases
    case 1
    then show ?thesis using close_zone_ok[OF inv z(2)] z(1) geo by (auto simp: zmgmt_send_def mgmt_step_def action_event_def)
  next
    case 2
    then show ?thesis using finish_zone_ok[OF inv z(2)] z(1) geo by (auto simp: zmgmt_send_def mgmt_step_def action_event_def)
  next
    case 3
    then show ?thesis using open_zone_ok[OF inv z(2)] z(1) geo opt by (auto simp: zmgmt_send_def mgmt_step_def action_event_def)
  next
    case reset
    obtain zf1 st where r: "zmgmt_send_reset_zone zf zid = Some (zf1, st)" "zns_inv zf1" "spec_step Zone_reset zid zf zf1 st" "zkeep zf zf1"
      using reset_zone_ok[OF inv z(2)] by blast
    have l: "zgeo_ok (zf_zp zf1) (zf_sp zf1)" "ssd_live (zf_ssd zf1)" using r(2) by (auto simp: zns_inv_def)
    let ?e = "lba_to_lpn zf (end_lba slba (nr_lba (rq_cmd rq)))"
    obtain s t m where s: "reset_luns zf1 (zone_to_elpn zf zid) ?e (lba_to_lpn zf slba) (zf_ssd zf1, rq_nsecs_start rq, 0) = Some (s, t, m)"
      "ssd_live s" "same_nand (zf_ssd zf1) s" using reset_luns_ok[OF l refl] by blast
    have sp: "ssd_sp s = zf_sp zf1" "ssd_write_buffer s = ssd_write_buffer (zf_ssd zf1)" using s(3) by (auto simp: same_nand_def)
    have "zmgmt_send garbage zf slba a opt rq = Some (zf1\<lparr>zf_ssd := s\<rparr>, st, m)"
      using reset geo z(1) r(1) s(1) by (simp add: zmgmt_send_def Let_def)
    moreover have "zkeep zf (zf1\<lparr>zf_ssd := s\<rparr>)" using r(4) sp by (simp add: zkeep_def)
    ultimately show ?thesis using zns_inv_ssd[OF r(2) s(2) sp(1)] r(3) reset
      by (simp add: mgmt_step_def action_event_def zspec_step_ssd)
  next
    case off
    have "zmgmt_send_offline_zone zf zid = Some (zf, NVME_SC_ZNS_INVALID_TRANSITION)"
      using f(1,2) by (auto simp: zmgmt_send_offline_zone_def zone_ok_def split: zone_state.splits)
    then show ?thesis using off geo z(1) inv by (simp add: zmgmt_send_def mgmt_step_def action_event_def zns_status_defs)
  next
    case flush
    have "zmgmt_send_flush_explicit_zrwa zf slba = Some (zf, NVME_SC_ZNS_INVALID_ZONE_OPERATION)"
      using f(1) zok z(1) by (simp add: zmgmt_send_flush_explicit_zrwa_def Let_def)
    then show ?thesis using flush geo z(1) inv by (simp add: zmgmt_send_def mgmt_step_def action_event_def zns_status_defs)
  next
    case other
    then show ?thesis using geo inv by (simp add: zmgmt_send_def mgmt_step_def action_event_def)
  qed
  then show ?thesis by (simp only: zid_def)
qed

text \<open>A command for all zones.\<close>

lemma zmgmt_send_all_ok:
  assumes inv: "zns_inv zf" and c: "cmd_select_all (rq_cmd rq)" "\<not> cmd_zsaso (rq_cmd rq)"
  shows "\<exists>zf' t. zns_zmgmt_send garbage zf rq = Some (zf', \<lparr>rs_status = NVME_SC_SUCCESS, rs_nsecs_target = t\<rparr>) \<and> zns_inv zf' \<and> zkeep zf zf' \<and>
    length (zviews zf') = nr_zones zf \<and> (cmd_zsa (rq_cmd rq) = 4 \<longrightarrow> (\<forall>k<nr_zones zf. zviews zf' ! k = (ZONE_STATE_EMPTY, 0)))"
proof -
  let ?a = "cmd_zsa (rq_cmd rq)" and ?N = "nr_zones zf"
  have g: "zgeo_ok (zf_zp zf) (zf_sp zf)" using inv by (simp add: zns_inv_def)
  define P where "P i st \<longleftrightarrow> (case st of (z, t :: u64) \<Rightarrow> zns_inv z \<and> zkeep zf z \<and>
      (?a = 4 \<longrightarrow> (\<forall>k<i. zviews z ! k = (ZONE_STATE_EMPTY, 0))))" for i and st :: "zns_ftl \<times> u64"
  let ?step = "\<lambda>zid (z, t). do {
            (z', _, lat) \<leftarrow> zmgmt_send garbage z (zone_to_slba z zid) ?a (cmd_zsaso (rq_cmd rq)) rq;
            Some (z', t + lat) }"
  have "\<exists>st'. foldM ?step [0..<?N] (zf, rq_nsecs_start rq) = Some st' \<and> P (length [0..<?N]) st'"
  proof (rule foldM_invariant)
    show "P 0 (zf, rq_nsecs_start rq)" using inv by (simp add: P_def)
    fix i st assume i: "i < length [0..<?N]" and p: "P i st"
    obtain z t where st: "st = (z, t)" by fastforce
    have z: "zns_inv z" "zkeep zf z" "?a = 4 \<Longrightarrow> \<forall>k<i. zviews z ! k = (ZONE_STATE_EMPTY, 0)" using p by (auto simp: P_def st)
    have k: "zf_zp z = zf_zp zf" "zf_sp z = zf_sp zf" using zkeep_params[OF z(2)] by auto
    have gz: "zgeo_ok (zf_zp z) (zf_sp z)" "8 \<le> zone_lbas z" using g k zgeo_divisors(2)[of z] by auto
    have iz: "i < nr_zones z" using i k by simp
    have slba: "zone_to_slba z i = i * zone_lbas z" by (rule zone_of_lba(1)[OF gz(1) iz])
    have lt: "i * zone_lbas z < nr_zones z * zone_lbas z" using iz gz(2) by simp
    obtain z' s' lat where s: "zmgmt_send garbage z (i * zone_lbas z) ?a (cmd_zsaso (rq_cmd rq)) rq = Some (z', s', lat)"
      "zns_inv z'" "zkeep z z'" "mgmt_step ?a (i * zone_lbas z div zone_lbas z) z z' s'"
      using zmgmt_send_ok[OF z(1) lt c(2)] by blast
    have div: "i * zone_lbas z div zone_lbas z = i" using gz(2) by simp
    have lv: "i < length (zviews z)" using z(1) iz by (simp add: zviews_def zns_inv_def)
    have ok: "zd_state (zf_descs z ! i) \<notin> {ZONE_STATE_READ_ONLY, ZONE_STATE_OFFLINE}"
      using res_facts(2)[OF z(1) iz] by (auto simp: zone_ok_def)
    have "zviews z' ! k = (ZONE_STATE_EMPTY, 0)" if "?a = 4" "k < Suc i" for k
    proof -
      have "zviews z' = (zviews z)[i := (ZONE_STATE_EMPTY, 0)]"
        using s(4) that(1) ok lv by (auto simp: div mgmt_step_def action_event_def spec_step_def zviews_def zview_def)
      then show ?thesis using z(3)[OF that(1)] that(2) lv by (auto simp: nth_list_update less_Suc_eq)
    qed
    then show "\<exists>st'. ?step ([0..<?N] ! i) st = Some st' \<and> P (Suc i) st'"
      using s(1-3) slba i zkeep_trans[OF z(2) s(3)] by (simp add: st P_def)
  qed
  then obtain zf' t where r: "foldM ?step [0..<?N] (zf, rq_nsecs_start rq) = Some (zf', t)" "P ?N (zf', t)" by auto
  have "zns_zmgmt_send garbage zf rq = Some (zf', \<lparr>rs_status = NVME_SC_SUCCESS, rs_nsecs_target = t\<rparr>)"
    using r(1) c(1) zgeo_divisors(1)[OF g] unfolding zns_zmgmt_send_def Let_def by simp
  moreover have "length (zviews zf') = ?N" using r(2) zkeep_params[of zf zf'] by (auto simp: P_def zns_inv_def zviews_def)
  ultimately show ?thesis using r(2) by (auto simp: P_def)
qed

lemma zmgmt_send_one_ok:
  assumes inv: "zns_inv zf" and c: "\<not> cmd_select_all (rq_cmd rq)" "\<not> cmd_zsaso (rq_cmd rq)"
    and lba: "unat (c_slba (rq_cmd rq)) < nr_zones zf * zone_lbas zf"
  shows "\<exists>zf' st t. zns_zmgmt_send garbage zf rq = Some (zf', \<lparr>rs_status = st, rs_nsecs_target = t\<rparr>) \<and> zns_inv zf' \<and> zkeep zf zf' \<and>
    mgmt_step (cmd_zsa (rq_cmd rq)) (unat (c_slba (rq_cmd rq)) div zone_lbas zf) zf zf' st"
proof -
  have g: "zgeo_ok (zf_zp zf) (zf_sp zf)" using inv by (simp add: zns_inv_def)
  show ?thesis
    using zmgmt_send_ok[OF inv lba c(2), of garbage "cmd_zsa (rq_cmd rq)" rq] c(1) zgeo_divisors(1)[OF g]
    by (auto simp: zns_zmgmt_send_def Let_def)
qed

section \<open>Reads and reports\<close>

lemma zns_read_ok:
  assumes inv: "zns_inv zf" and lba: "unat (c_slba (rq_cmd rq)) < nr_zones zf * zone_lbas zf"
  shows "\<exists>zf' r. zns_read zf rq = Some (zf', r) \<and> zns_inv zf' \<and> zkeep zf zf' \<and> zf_descs zf' = zf_descs zf \<and>
    rs_status r = (if check_boundary_error zf (unat (c_slba (rq_cmd rq))) (nr_lba (rq_cmd rq)) then NVME_SC_SUCCESS else NVME_SC_ZNS_ERR_BOUNDARY)"
proof -
  let ?c = "rq_cmd rq"
  let ?slba = "unat (c_slba ?c)" and ?spp = "zf_sp zf"
  have g: "zgeo_ok (zf_zp zf) (zf_sp zf)" and live: "ssd_live (zf_ssd zf)" using inv by (auto simp: zns_inv_def)
  define zid where "zid = lpn_to_zone zf (lba_to_lpn zf ?slba)"
  have z: "zid < nr_zones zf" using zone_of_lba(2,3)[OF g lba] by (simp add: zid_def)
  note f = res_facts[OF inv z]
  have on: "zd_state (zf_descs zf ! zid) \<noteq> ZONE_STATE_OFFLINE" using f(2) by (auto simp: zone_ok_def)
  define start where "start = rq_nsecs_start rq + of_nat (if LBA_TO_BYTE (nr_lba ?c) \<le> KB 4 then fw_4kb_rd_lat ?spp else fw_rd_lat ?spp)"
  obtain s l where s: "zns_read_loop zf start (lba_to_lpn zf (end_lba ?slba (nr_lba ?c))) (lba_to_lpn zf ?slba) (zf_ssd zf, start) = Some (s, l)"
    "ssd_live s" "same_nand (zf_ssd zf) s" using zns_read_loop_ok[OF g live refl] by blast
  obtain s' t where p: "ssd_advance_pcie s l (nr_lba ?c * secsz ?spp) = Some (s', t)" "ssd_live s'" "same_nand s s'"
    using ssd_advance_pcie_live[OF s(2)] by blast
  have sp: "ssd_sp s' = zf_sp zf" "ssd_write_buffer s' = ssd_write_buffer (zf_ssd zf)" using s(3) p(3) by (auto simp: same_nand_def)
  have "zns_read zf rq = Some (zf\<lparr>zf_ssd := s'\<rparr>, \<lparr>rs_status =
      (if check_boundary_error zf ?slba (nr_lba ?c) then NVME_SC_SUCCESS else NVME_SC_ZNS_ERR_BOUNDARY), rs_nsecs_target = max t l\<rparr>)"
    unfolding zns_read_def Let_def zid_def[symmetric] start_def[symmetric] f(1)
    using on s(1) p(1) zgeo_divisors(1)[OF g] by simp
  then show ?thesis using zns_inv_ssd[OF inv p(2) sp(1)] sp by (simp add: zkeep_def)
qed

text \<open>A report of all zones from the start zone on, or of as many as fit the transfer when the host asks for a partial
  report.  The host asks for no more bytes than the buffer of the drive has, and when they end in its second page, this
  page starts at its beginning.\<close>

definition report_legal :: "zns_ftl \<Rightarrow> nvme_command \<Rightarrow> bool" where
  "report_legal zf c \<longleftrightarrow> recv_length c \<le> report_size zf \<and> prp_walkable (c_prp1 c) (c_prp2 c) (recv_length c) \<and> (cmd_zra_features c = 0 \<or>
     (let n = ((cmd_nr_dw c + 1) mod 2 ^ 32) * 4 div 64 in 0 < n \<and> unat (c_slba c) div zone_lbas zf + n \<le> nr_zones zf + 1))"

lemma fill_zone_report_ok:
  assumes inv: "zns_inv zf" and lba: "unat (c_slba c) < nr_zones zf * zone_lbas zf" and leg: "report_legal zf c"
  shows "\<exists>r. fill_zone_report zf c = Some r \<and> zr_nr_zones r = length (zr_zd r) \<and>
    (cmd_zra_features c = 0 \<longrightarrow> zr_zd r = drop (unat (c_slba c) div zone_lbas zf) (zf_descs zf)) \<and>
    (\<forall>k<length (zr_zd r). zr_zd r ! k = zf_descs zf ! (unat (c_slba c) div zone_lbas zf + k))"
proof -
  have g: "zgeo_ok (zf_zp zf) (zf_sp zf)" and l: "length (zf_descs zf) = nr_zones zf" using inv by (auto simp: zns_inv_def)
  define zid where "zid = unat (c_slba c) div zone_lbas zf"
  have z: "lba_to_zone zf (unat (c_slba c)) = zid" "zid < nr_zones zf" using zone_of_lba(2)[OF g lba] by (auto simp: zid_def)
  have N: "nr_zones zf < 4294967296" by (rule res_facts(5)[OF inv z(2)])
  define n where "n = (if cmd_zra_features c = 0 then (nr_zones zf + (2 ^ 64 - zid)) mod 2 ^ 64
    else (((cmd_nr_dw c + 1) mod 2 ^ 32) * 4 div 64 + (2 ^ 64 - 1)) mod 2 ^ 64)"
  have all: "n = nr_zones zf - zid" if "cmd_zra_features c = 0"
  proof -
    have e: "nr_zones zf + (2 ^ 64 - zid) = (nr_zones zf - zid) + 2 ^ 64" using z(2) N by simp
    show ?thesis unfolding n_def if_P[OF that] e using N by simp
  qed
  have part: "n = ((cmd_nr_dw c + 1) mod 2 ^ 32) * 4 div 64 - 1 \<and> zid + n \<le> nr_zones zf" if "cmd_zra_features c \<noteq> 0"
  proof -
    define m where "m = ((cmd_nr_dw c + 1) mod 2 ^ 32) * 4 div 64"
    have m: "0 < m" "zid + m \<le> nr_zones zf + 1" using leg that by (auto simp: report_legal_def Let_def m_def zid_def)
    obtain k where k: "m = Suc k" using m(1) by (cases m) auto
    have e: "m + (2 ^ 64 - 1) = k + 2 ^ 64" using k by simp
    have "(m + (2 ^ 64 - 1)) mod 2 ^ 64 = k" unfolding e using k m(2) N by simp
    then show ?thesis unfolding n_def if_not_P[OF that] m_def[symmetric] using k m(2) by (simp only: diff_Suc_1) simp
  qed
  have fit: "zid + n \<le> length (zf_descs zf)" using all part z(2) l by (cases "cmd_zra_features c = 0") auto
  have "fill_zone_report zf c = Some \<lparr>zr_nr_zones = n, zr_zd = take n (drop zid (zf_descs zf))\<rparr>"
    unfolding fill_zone_report_def Let_def z(1) n_def[symmetric] using fit by simp
  then show ?thesis using fit all l by (auto simp: zid_def[symmetric])
qed

section \<open>Commands\<close>

definition zcmd_legal :: "zns_ftl \<Rightarrow> nvme_command \<Rightarrow> bool" where
  "zcmd_legal zf c \<longleftrightarrow> unat (c_slba c) < nr_zones zf * zone_lbas zf \<and> c_length c < 65536 \<and>
     (c_opcode c = nvme_cmd_zone_mgmt_send \<longrightarrow> \<not> cmd_zsaso c) \<and> (c_opcode c = nvme_cmd_zone_mgmt_recv \<longrightarrow> report_legal zf c)"

lemma zns_write_ok:
  assumes inv: "zns_inv zf" and leg: "zcmd_legal zf (rq_cmd rq)"
  defines "zid \<equiv> unat (c_slba (rq_cmd rq)) div zone_lbas zf"
  defines "slba \<equiv> if c_opcode (rq_cmd rq) = nvme_cmd_zone_append then zd_wp (zf_descs zf ! zid) else unat (c_slba (rq_cmd rq))"
  shows "\<exists>zf' r ops. zns_write zf rq = Some (zf', (rq_cmd rq)\<lparr>c_slba := of_nat slba\<rparr>, r, ops) \<and> zns_inv zf' \<and>
    zf_zp zf' = zf_zp zf \<and> zf_sp zf' = zf_sp zf \<and> write_step zid slba (nr_lba (rq_cmd rq)) zf zf' r ops"
proof -
  let ?c = "rq_cmd rq"
  have g: "zgeo_ok (zf_zp zf) (zf_sp zf)" using inv by (simp add: zns_inv_def)
  have lba: "unat (c_slba ?c) < nr_zones zf * zone_lbas zf" "c_length ?c < 65536" using leg by (auto simp: zcmd_legal_def)
  have z: "lba_to_zone zf (unat (c_slba ?c)) = zid" "zid < nr_zones zf" "lpn_to_zone zf (lba_to_lpn zf (unat (c_slba ?c))) = zid"
    using zone_of_lba(2,3)[OF g lba(1)] by (auto simp: zid_def)
  note f = res_facts[OF inv z(2)]
  have "zns_write zf rq = zns_write_plain zf rq"
    using zgeo_divisors(1)[OF g] f(1,2) by (simp add: zns_write_def z(3) zone_ok_def)
  then show ?thesis using zns_write_plain_ok[OF inv lba refl] unfolding z(1) slba_def[symmetric] by simp
qed

lemma zns_proc_ok:
  assumes inv: "zns_inv zf" and leg: "zcmd_legal zf (rq_cmd rq)"
  shows "\<exists>zf' c ok r ops m'. zns_proc_nvme_io_cmd garbage buffer local_clock zf rq ret m = Some (zf', c, ok, r, ops, m') \<and> zns_inv zf' \<and>
    zf_zp zf' = zf_zp zf \<and> zf_sp zf' = zf_sp zf"
proof -
  let ?c = "rq_cmd rq" and ?o = "c_opcode (rq_cmd rq)"
  have lba: "unat (c_slba ?c) < nr_zones zf * zone_lbas zf" using leg by (simp add: zcmd_legal_def)
  have g: "zgeo_ok (zf_zp zf) (zf_sp zf)" and live: "ssd_live (zf_ssd zf)" using inv by (auto simp: zns_inv_def)
  note codes = nvme_cmd_write_def nvme_cmd_zone_append_def nvme_cmd_read_def nvme_cmd_flush_def nvme_cmd_zone_mgmt_send_def nvme_cmd_zone_mgmt_recv_def
  consider (w) "?o = nvme_cmd_write \<or> ?o = nvme_cmd_zone_append" | (r) "?o = nvme_cmd_read" | (f) "?o = nvme_cmd_flush"
    | (s) "?o = nvme_cmd_zone_mgmt_send" | (v) "?o = nvme_cmd_zone_mgmt_recv"
    | (n) "?o \<notin> {nvme_cmd_write, nvme_cmd_zone_append, nvme_cmd_read, nvme_cmd_flush, nvme_cmd_zone_mgmt_send, nvme_cmd_zone_mgmt_recv}"
    by blast
  then show ?thesis
  proof cases
    case w
    obtain zf' c' r ops where "zns_write zf rq = Some (zf', c', r, ops)" "zns_inv zf'" "zf_zp zf' = zf_zp zf" "zf_sp zf' = zf_sp zf"
      using zns_write_ok[OF inv leg] by blast
    then show ?thesis using w by (cases r) (auto simp: zns_proc_nvme_io_cmd_def Let_def)
  next
    case r
    obtain zf' x where "zns_read zf rq = Some (zf', x)" "zns_inv zf'" "zkeep zf zf'" using zns_read_ok[OF inv lba] by blast
    then show ?thesis using r zkeep_params[of zf zf'] by (auto simp: zns_proc_nvme_io_cmd_def Let_def codes)
  next
    case f
    obtain s t where s: "ssd_next_idle_time (zf_ssd zf) = (s, t)" by fastforce
    then have "ssd_live s" "ssd_sp s = zf_sp zf"
      using get_ioclock_live[of "zf_ssd zf"] live by (auto simp: ssd_next_idle_time_def same_nand_def Let_def split: prod.splits)
    then show ?thesis using f s zns_inv_ssd[OF inv, of s] by (auto simp: zns_proc_nvme_io_cmd_def zns_flush_def Let_def codes)
  next
    case s
    have o: "\<not> cmd_zsaso ?c" using leg s by (simp add: zcmd_legal_def)
    obtain zf' r where "zns_zmgmt_send garbage zf rq = Some (zf', r)" "zns_inv zf'" "zkeep zf zf'"
      using zmgmt_send_all_ok[OF inv _ o, of garbage] zmgmt_send_one_ok[OF inv _ o lba, of garbage] by blast
    then show ?thesis using s zkeep_params[of zf zf'] by (auto simp: zns_proc_nvme_io_cmd_def Let_def codes)
  next
    case v
    have "report_legal zf ?c" using leg v by (simp add: zcmd_legal_def)
    then obtain r where "fill_zone_report zf ?c = Some r" using fill_zone_report_ok[OF inv lba] by blast
    moreover obtain m' where "prp_transfer_data (c_prp1 ?c) (c_prp2 ?c) buffer (recv_length ?c) 0 (put_report buffer r m) = Some (m', recv_length ?c)"
      using prp_transfer_total leg v by (fastforce simp: zcmd_legal_def report_legal_def)
    ultimately show ?thesis using v inv zgeo_divisors(1)[OF g] leg
      by (auto simp: zns_proc_nvme_io_cmd_def zns_zmgmt_recv_def zcmd_legal_def report_legal_def Let_def codes)
  next
    case n
    then show ?thesis using inv by (auto simp: zns_proc_nvme_io_cmd_def Let_def)
  qed
qed

section \<open>A fresh drive\<close>

lemma zns_cfg_fields:
  assumes "load_zns_configs c = Some cfg"
  shows "NAND_CHANNELS cfg = 8" "LUNS_PER_NAND_CH cfg = 4" "PLNS_PER_LUN cfg = 1" "BLKS_PER_PLN cfg = 0" "BLK_SIZE cfg = 65536"
    "FLASH_PAGE_SIZE cfg = 16384" "ONESHOT_PAGE_SIZE cfg = 49152" "MAX_CH_XFER_SIZE cfg = 16384" "WRITE_UNIT_SIZE cfg = 512"
    "NAND_CHANNEL_BANDWIDTH cfg = 450" "PCIE_BANDWIDTH cfg = 3050"
    "extra_cfgs cfg = Extra_zns \<lparr>ZONE_SIZE = 2097152, DIES_PER_ZONE = 32, ZONE_WB_SIZE = 491520, MAX_ZRWA_ZONES = 0, ZRWAFG_SIZE = 0,
      ZRWA_SIZE = 0, ZRWA_BUFFER_SIZE = 0\<rparr>"
  using assms by (auto simp: load_zns_configs_def Let_def)

lemma zns_params_fields:
  assumes "load_zns_configs c = Some cfg"
  shows "\<exists>spp. ssd_init_params cap 1 cfg = Some spp \<and> zspp_ok spp \<and> nchs spp = 8 \<and> tt_luns spp = 32 \<and>
    length (pg_4kb_rd_lat spp) = 3 \<and> length (pg_rd_lat spp) = 3 \<and> max_ch_xfer_size spp = 16384 \<and> pgs_per_flashpg spp = 4 \<and>
    ch_bandwidth spp = 450 \<and> pcie_bandwidth spp = 3050 \<and> write_unit_size spp = 512 \<and> secsz spp = 512 \<and> pgsz spp = 4096"
  by (simp add: ssd_init_params_def zns_cfg_fields[OF assms] Let_def zspp_ok_def)

lemma count_zones_none: "(\<And>d. d \<in> set ds \<Longrightarrow> \<not> P d) \<Longrightarrow> count_zones P ds = 0"
  by (simp add: count_zones_def filter_empty_conv)

lemma zns_init_ftl_ok:
  assumes g: "zgeo_ok zp (ssd_sp s)" and live: "ssd_live s"
  shows "zns_inv (zns_init_ftl zp s storage)" "zviews (zns_init_ftl zp s storage) = replicate (zp_nr_zones zp) (ZONE_STATE_EMPTY, 0)"
    "zf_zp (zns_init_ftl zp s storage) = zp" "zf_ssd (zns_init_ftl zp s storage) = s"
    "zp_zone_wb_size zp \<noteq> 0 \<Longrightarrow> zf_wbufs (zns_init_ftl zp s storage) = replicate (zp_nr_zones zp) (buffer_init (zp_zone_wb_size zp))"
proof -
  let ?zf = "zns_init_ftl zp s storage"
  show zp: "zf_zp ?zf = zp" and ssd: "zf_ssd ?zf = s" by (simp_all add: zns_init_ftl_def init_resource_def init_descriptor_def Let_def)
  show "zp_zone_wb_size zp \<noteq> 0 \<Longrightarrow> zf_wbufs ?zf = replicate (zp_nr_zones zp) (buffer_init (zp_zone_wb_size zp))"
    by (simp add: zns_init_ftl_def init_resource_def init_descriptor_def Let_def)
  have ds: "zf_descs ?zf = map (init_zone zp) [0..<zp_nr_zones zp]"
    by (simp add: zns_init_ftl_def init_resource_def init_descriptor_def Let_def)
  show "zviews ?zf = replicate (zp_nr_zones zp) (ZONE_STATE_EMPTY, 0)"
    unfolding zviews_def ds by (rule nth_equalityI) (simp_all add: init_zone_def zview_def)
  have "zone_ok (zp_zone_size zp div 512) i (init_zone zp i)" if "i < zp_nr_zones zp" for i
  proof -
    have "i * (zp_zone_size zp div 512) \<le> zp_nr_zones zp * (zp_zone_size zp div 512)" using that by (intro mult_le_mono1) simp
    moreover have "zp_nr_zones zp * (zp_zone_size zp div 512) < 4294967296" using g by (simp add: zgeo_ok_def)
    ultimately have "i * (zp_zone_size zp div 512) < 4294967296" by (rule order.strict_trans1)
    then have "i * (zp_zone_size zp div 512) mod 2 ^ 64 = i * (zp_zone_size zp div 512)" by simp
    then show ?thesis unfolding zone_ok_def init_zone_def by simp
  qed
  moreover have "res_ok ?zf"
    unfolding res_ok_def ds zp
    by (auto simp: zns_init_ftl_def init_resource_def init_descriptor_def Let_def init_zone_def is_opened_def is_active_def
        intro!: count_zones_none)
  moreover have "zp_zone_wb_size zp \<noteq> 0 \<longrightarrow> length (zf_wbufs ?zf) = zp_nr_zones zp"
    by (simp add: zns_init_ftl_def init_resource_def init_descriptor_def Let_def)
  ultimately show "zns_inv ?zf" using g live by (simp add: zns_inv_def zp ssd ds)
qed

text \<open>Below 2 TiB the 32-bit products of the address arithmetic do not wrap.\<close>

lemma zns_init_namespace_ok:
  assumes cfg: "load_zns_configs c = Some cfg" and cap: "cap mod 2097152 = 0" "cap < 2 ^ 41"
  shows "\<exists>zf. zns_init_namespace cfg cap old junk chk clock storage = Some (zf, cap) \<and> zns_inv zf \<and>
    zviews zf = replicate (cap div 2097152) (ZONE_STATE_EMPTY, 0) \<and> nr_zones zf = cap div 2097152 \<and> zone_lbas zf = 4096 \<and>
    zf_wbufs zf = replicate (cap div 2097152) (buffer_init 491520) \<and> zp_zone_wb_size (zf_zp zf) = 491520 \<and> write_unit_size (zf_sp zf) = 512 \<and>
    zp_lbas_per_zrwa (zf_zp zf) = zp_zrwa_size old div 512 \<and> zp_lbas_per_zrwafg (zf_zp zf) = zp_zrwafg_size old div 512"
proof -
  obtain spp where spp: "ssd_init_params cap 1 cfg = Some spp" "zspp_ok spp" "nchs spp = 8" "tt_luns spp = 32"
    "length (pg_4kb_rd_lat spp) = 3" "length (pg_rd_lat spp) = 3" "max_ch_xfer_size spp = 16384" "pgs_per_flashpg spp = 4"
    "ch_bandwidth spp = 450" "pcie_bandwidth spp = 3050" "write_unit_size spp = 512" "secsz spp = 512" "pgsz spp = 4096"
    using zns_params_fields[OF cfg] by blast
  obtain s where s: "ssd_init spp junk clock = Some s" "ssd_live s" "ssd_sp s = spp"
    using ssd_init_live[of spp junk clock] spp by auto
  define zp where "zp = \<lparr>zp_nr_zones = cap div 2097152 mod 2 ^ 32, zp_nr_active_zones = zp_nr_zones old,
      zp_nr_open_zones = zp_nr_zones old, zp_dies_per_zone = 32, zp_zone_size = 2097152, zp_zone_wb_size = 491520,
      zp_nr_zrwa_zones = 0, zp_zrwafg_size = 0, zp_zrwa_size = 0, zp_zrwa_buffer_size = 0,
      zp_lbas_per_zrwafg = zp_zrwafg_size old div 512, zp_lbas_per_zrwa = zp_zrwa_size old div 512\<rparr>"
  have n: "cap div 2097152 < 1048576" using cap(2) by (simp add: less_mult_imp_div_less)
  have z: "zns_init_params old spp cap \<lparr>ZONE_SIZE = 2097152, DIES_PER_ZONE = 32, ZONE_WB_SIZE = 491520, MAX_ZRWA_ZONES = 0, ZRWAFG_SIZE = 0,
      ZRWA_SIZE = 0, ZRWA_BUFFER_SIZE = 0\<rparr> = Some zp"
    using cap(1) spp by (simp add: zns_init_params_def zp_def Let_def)
  have g: "zgeo_ok zp spp" using spp(2,4) n by (simp add: zgeo_ok_def zp_def)
  let ?s = "s\<lparr>ssd_checking := chk\<rparr>"
  have live: "ssd_live ?s" "zgeo_ok zp (ssd_sp ?s)" using s g by (simp_all add: ssd_live_def)
  note i = zns_init_ftl_ok[OF live(2,1), of storage]
  have "zns_init_namespace cfg cap old junk chk clock storage = Some (zns_init_ftl zp ?s storage, cap)"
    using spp(1) s(1) z by (simp add: zns_init_namespace_def zns_cfg_fields(12)[OF cfg])
  moreover have "zp_nr_zones zp = cap div 2097152" using n by (simp add: zp_def)
  ultimately show ?thesis using i s(3) spp(11) by (simp add: zp_def)
qed

section \<open>Reachable states\<close>

text \<open>A command comes with what the memory holds when it is processed, which the host and the workers may have changed since
  the last one.\<close>

datatype zns_event = Zns_command nat nat u64 nvmev_request nvmev_result memory | Zns_release wbuf_ref nat

fun on_zevent :: "zns_event \<Rightarrow> zns_ftl \<Rightarrow> zns_ftl option" where
  "on_zevent (Zns_command garbage buffer local_clock rq ret m) zf = do {
     (zf', _) \<leftarrow> zns_proc_nvme_io_cmd garbage buffer local_clock zf rq ret m; Some zf' }"
| "on_zevent (Zns_release ref n) zf = do { b \<leftarrow> get_wbuf zf ref; Some (put_wbuf zf ref (buffer_release b n)) }"

fun zevent_legal :: "zns_ftl \<Rightarrow> zns_event \<Rightarrow> bool" where
  "zevent_legal zf (Zns_command garbage buffer local_clock rq ret m) = zcmd_legal zf (rq_cmd rq)"
| "zevent_legal zf (Zns_release ref n) = (\<exists>zid<nr_zones zf. ref = zone_wbuf zf zid)"

inductive zns_reach :: "zns_ftl \<Rightarrow> zns_ftl \<Rightarrow> bool" for start where
  zns_reach_start: "zns_reach start start"
| zns_reach_step: "zns_reach start zf \<Longrightarrow> zevent_legal zf e \<Longrightarrow> on_zevent e zf = Some zf' \<Longrightarrow> zns_reach start zf'"

lemma on_zevent_ok:
  assumes inv: "zns_inv zf" and leg: "zevent_legal zf e"
  shows "\<exists>zf'. on_zevent e zf = Some zf' \<and> zns_inv zf' \<and> zf_zp zf' = zf_zp zf"
proof (cases e)
  case (Zns_command garbage buffer local_clock rq ret m)
  then show ?thesis using zns_proc_ok[OF inv, of rq garbage buffer local_clock ret m] leg by auto
next
  case (Zns_release ref n)
  then obtain b where "get_wbuf zf ref = Some b" using leg zone_wbuf_there[OF inv] by auto
  then show ?thesis using Zns_release put_wbuf_ok(1)[OF inv] put_wbuf_ok(4) by simp
qed

lemma zns_reach_inv:
  assumes "zns_reach start zf" "zns_inv start"
  shows "zns_inv zf \<and> zf_zp zf = zf_zp start"
  using assms
proof (induction rule: zns_reach.induct)
  case (zns_reach_step zf e zf')
  then show ?case using on_zevent_ok[of zf e] by auto
qed simp

end
