(* ===== verification/Zns_Props.thy ===== *)
theory Zns_Props
  imports Zns_Device Samples
begin

text \<open>
  The properties of the drive with zones, with a drive of four zones at which their hypotheses hold.
\<close>

section \<open>Concrete inputs\<close>

definition zns_cfg :: ftl_configs where
  "zns_cfg = the (load_zns_configs blank_cfg)"

lemma zns_cfg_loaded: "load_zns_configs blank_cfg = Some zns_cfg"
  by (simp add: zns_cfg_def load_zns_configs_def Let_def)

definition zero_zp :: znsparams where
  "zero_zp = \<lparr>zp_nr_zones = 0, zp_nr_active_zones = 0, zp_nr_open_zones = 0, zp_dies_per_zone = 0, zp_zone_size = 0,
     zp_zone_wb_size = 0, zp_nr_zrwa_zones = 0, zp_zrwafg_size = 0, zp_zrwa_size = 0, zp_zrwa_buffer_size = 0,
     zp_lbas_per_zrwafg = 0, zp_lbas_per_zrwa = 0\<rparr>"

definition four_zones :: zns_ftl where
  "four_zones = fst (the (zns_init_namespace zns_cfg 8388608 zero_zp 0 False (\<lambda>n. of_nat n * 1000) (\<lambda>_. 7)))"

lemma four_zones_ok:
  "zns_init_namespace zns_cfg 8388608 zero_zp 0 False (\<lambda>n. of_nat n * 1000) (\<lambda>_. 7) = Some (four_zones, 8388608)"
  "zns_inv four_zones" "zviews four_zones = replicate 4 (ZONE_STATE_EMPTY, 0)" "nr_zones four_zones = 4" "zone_lbas four_zones = 4096"
  "zp_zone_wb_size (zf_zp four_zones) = 491520" "write_unit_size (zf_sp four_zones) = 512"
  "zp_lbas_per_zrwa (zf_zp four_zones) = 0" "zp_lbas_per_zrwafg (zf_zp four_zones) = 0"
  "zf_wbufs four_zones = replicate 4 (buffer_init 491520)"
  using zns_init_namespace_ok[OF zns_cfg_loaded, of 8388608 zero_zp 0 False "\<lambda>n. of_nat n * 1000" "\<lambda>_. 7"]
  by (auto simp: four_zones_def zero_zp_def)

lemma four_zones_empty: "i < 4 \<Longrightarrow> zd_state (zf_descs four_zones ! i) = ZONE_STATE_EMPTY \<and> zd_wp (zf_descs four_zones ! i) = i * 4096"
proof -
  assume i: "i < 4"
  have l: "length (zf_descs four_zones) = 4" using four_zones_ok(2,4) by (simp add: zns_inv_def)
  have "zviews four_zones ! i = (ZONE_STATE_EMPTY, 0)" using i four_zones_ok(3) by simp
  then have e: "zd_state (zf_descs four_zones ! i) = ZONE_STATE_EMPTY" using i l by (simp add: zviews_def zview_def)
  then show ?thesis using res_facts(2)[OF four_zones_ok(2), of i] i four_zones_ok(4,5) by (simp add: zone_ok_cases)
qed

text \<open>A state in which the first zone is written to its end and its write buffer is used up.\<close>

definition full_zone :: zns_ftl where
  "full_zone = four_zones\<lparr>
     zf_descs := (zf_descs four_zones)[0 := (zf_descs four_zones ! 0)\<lparr>zd_state := ZONE_STATE_FULL, zd_wp := 4096\<rparr>],
     zf_wbufs := (zf_wbufs four_zones)[0 := \<lparr>buf_size = 491520, buf_remaining = 0\<rparr>]\<rparr>"

lemma full_zone_ok:
  "zns_inv full_zone" "nr_zones full_zone = 4" "zone_lbas full_zone = 4096" "zd_wp (zf_descs full_zone ! 0) = 4096"
  "zd_zslba (zf_descs full_zone ! 0) = 0" "wbuf_left full_zone (zone_wbuf full_zone 0) = 0"
proof -
  have z: "0 < nr_zones four_zones" by (simp add: four_zones_ok(4))
  note f = res_facts[OF four_zones_ok(2) z]
  have d: "zd_zslba (zf_descs four_zones ! 0) = 0" "zd_capacity (zf_descs four_zones ! 0) = 4096" "\<not> zd_zrwav (zf_descs four_zones ! 0)"
    using f(2) four_zones_ok(5) by (auto simp: zone_ok_def)
  have e: "\<not> is_opened (zf_descs four_zones ! 0)" "\<not> is_active (zf_descs four_zones ! 0)" using four_zones_empty[of 0] by auto
  have l: "length (zf_descs four_zones) = 4" "length (zf_wbufs four_zones) = 4"
    using four_zones_ok(2,4,10) by (auto simp: zns_inv_def)
  show "zns_inv full_zone"
    by (rule conjunct1[OF zone_set_inv[OF four_zones_ok(2) z,
          where d' = "(zf_descs four_zones ! 0)\<lparr>zd_state := ZONE_STATE_FULL, zd_wp := 4096\<rparr>"]])
      (use d e f(3,4) four_zones_ok(5) in \<open>simp_all add: full_zone_def zone_ok_cases is_opened_def is_active_def\<close>)
  show "nr_zones full_zone = 4" "zone_lbas full_zone = 4096" using four_zones_ok(4,5) by (simp_all add: full_zone_def)
  show "zd_wp (zf_descs full_zone ! 0) = 4096" "zd_zslba (zf_descs full_zone ! 0) = 0" using d l by (simp_all add: full_zone_def)
  show "wbuf_left full_zone (zone_wbuf full_zone 0) = 0"
    using four_zones_ok(6) l by (simp add: full_zone_def zone_wbuf_def wbuf_left_def array_read_def)
qed

section \<open>Properties\<close>

text \<open>C6: A drive with zones set up by \<^verbatim>\<open>zns_init_namespace\<close> with the configuration of \<^verbatim>\<open>load_zns_configs\<close>, of any capacity
  below 2 TiB that is a multiple of the zone size of 2 MiB, serves from every reachable state, whatever the memory holds,
  every legal command and every release of buffer space: no array is left, nothing is divided by zero and all loops end.
  Legal are reads, writes and appends within the drive, flushes, zone management without a random write area, and reports
  of which the host asks for no more bytes than the buffer of the drive has, partial ones for no more zones than are left,
  with pages that start where pages start.  A report that asks for more reads behind the buffer
  (\<open>report_overread\<close>).\<close>

theorem zns_drive_never_crashes:
  assumes "load_zns_configs c = Some cfg" "cap mod 2097152 = 0" "cap < 2 ^ 41"
  shows "\<exists>zf. zns_init_namespace cfg cap old junk chk clock storage = Some (zf, cap) \<and>
    (\<forall>zf' e. zns_reach zf zf' \<and> zevent_legal zf' e \<longrightarrow> (\<exists>zf''. on_zevent e zf' = Some zf''))"
proof -
  obtain zf where zf: "zns_init_namespace cfg cap old junk chk clock storage = Some (zf, cap)" "zns_inv zf"
    using zns_init_namespace_ok[OF assms] by blast
  then show ?thesis using zns_reach_inv on_zevent_ok by blast
qed

theorem zns_drive_never_crashes_witness:
  "\<exists>zf1 zf2. on_zevent (Zns_command 0 8192 9 (rw_request nvme_cmd_write 4096 7) no_result (\<lambda>_. 0)) four_zones = Some zf1 \<and>
    on_zevent (Zns_command 0 8192 9 (zone_request nvme_cmd_zone_mgmt_send 4096 4) no_result (\<lambda>_. 0)) zf1 = Some zf2"
proof -
  let ?w = "Zns_command 0 8192 9 (rw_request nvme_cmd_write 4096 7) no_result (\<lambda>_. 0)"
  let ?r = "Zns_command 0 8192 9 (zone_request nvme_cmd_zone_mgmt_send 4096 4) no_result (\<lambda>_. 0)"
  have all: "\<forall>zf' e. zns_reach four_zones zf' \<and> zevent_legal zf' e \<longrightarrow> (\<exists>zf''. on_zevent e zf' = Some zf'')"
    using zns_drive_never_crashes[OF zns_cfg_loaded, of 8388608 zero_zp 0 False "\<lambda>n. of_nat n * 1000" "\<lambda>_. 7"] four_zones_ok(1) by auto
  have wl: "zevent_legal four_zones ?w"
    using four_zones_ok(4,5) by (simp add: zcmd_legal_def rw_request_def nvme_cmd_write_def nvme_cmd_zone_mgmt_send_def nvme_cmd_zone_mgmt_recv_def)
  then obtain zf1 where w: "on_zevent ?w four_zones = Some zf1" using all zns_reach_start by blast
  have reach: "zns_reach four_zones zf1" by (rule zns_reach_step[OF zns_reach_start wl w])
  have "zf_zp zf1 = zf_zp four_zones" using zns_reach_inv[OF reach four_zones_ok(2)] by blast
  then have "zevent_legal zf1 ?r"
    using four_zones_ok(4,5) by (simp add: zcmd_legal_def zone_request_def rw_request_def cmd_zsaso_def nvme_cmd_zone_mgmt_send_def nvme_cmd_zone_mgmt_recv_def)
  then show ?thesis using w reach all by blast
qed

text \<open>A host that asks for more bytes of a report than 128 and 64 for every zone gets what lies behind the buffer, although
  the length it names is only the room it has for the report.\<close>

theorem report_overread:
  assumes "check_zmgmt_rcv_option_supported (rq_cmd rq)" "report_size zf < recv_length (rq_cmd rq)"
  shows "zns_zmgmt_recv buffer zf rq m = None"
  using assms by (auto simp: zns_zmgmt_recv_def nvmev_assert_def bind_eq_None_conv)

theorem report_overread_witness:
  "zns_zmgmt_recv buffer four_zones (rw_request nvme_cmd_zone_mgmt_recv 0 1023) m = None"
  by (rule report_overread)
    (simp_all add: check_zmgmt_rcv_option_supported_def rw_request_def cmd_zra_def cmd_zra_field_def recv_length_def cmd_nr_dw_def
      report_size_def four_zones_ok(4))

text \<open>C9: In every reachable state of such a drive the resource counts are the numbers of open and of active zones, no zone
  is read-only or offline, and the write pointer of a zone is at its start when it is empty, within it when it is open or
  closed, and at most at its end when it is full.\<close>

theorem zns_reach_wellformed:
  assumes "load_zns_configs c = Some cfg" "cap mod 2097152 = 0" "cap < 2 ^ 41"
    "zns_init_namespace cfg cap old junk chk clock storage = Some (start, cap)" "zns_reach start zf"
  shows "acquired_cnt (zf_res zf OPEN_ZONE) = length (filter is_opened (zf_descs zf)) \<and>
    acquired_cnt (zf_res zf ACTIVE_ZONE) = length (filter is_active (zf_descs zf)) \<and>
    length (zf_descs zf) = cap div 2097152 \<and>
    (\<forall>i<cap div 2097152. let d = zf_descs zf ! i in zd_zslba d = i * 4096 \<and> zd_zslba d \<le> zd_wp d \<and>
      (zd_state d = ZONE_STATE_EMPTY \<and> zd_wp d = zd_zslba d \<or> is_active d \<and> zd_wp d < zd_zslba d + 4096 \<or>
       zd_state d = ZONE_STATE_FULL \<and> zd_wp d \<le> zd_zslba d + 4096))"
proof -
  have st: "zns_inv start" "nr_zones start = cap div 2097152" "zone_lbas start = 4096"
    using zns_init_namespace_ok[OF assms(1-3), of old junk chk clock storage] assms(4) by auto
  have inv: "zns_inv zf" "nr_zones zf = cap div 2097152" "zone_lbas zf = 4096"
    using zns_reach_inv[OF assms(5) st(1)] st(2,3) by auto
  have "let d = zf_descs zf ! i in zd_zslba d = i * 4096 \<and> zd_zslba d \<le> zd_wp d \<and>
      (zd_state d = ZONE_STATE_EMPTY \<and> zd_wp d = zd_zslba d \<or> is_active d \<and> zd_wp d < zd_zslba d + 4096 \<or>
       zd_state d = ZONE_STATE_FULL \<and> zd_wp d \<le> zd_zslba d + 4096)" if "i < cap div 2097152" for i
    using res_facts(2)[OF inv(1), of i] that inv(2,3)
    by (auto simp: Let_def zone_ok_def is_active_def is_opened_def split: zone_state.splits)
  then show ?thesis using inv by (auto simp: zns_inv_def res_ok_def count_zones_def)
qed

theorem zns_reach_wellformed_witness:
  "acquired_cnt (zf_res four_zones OPEN_ZONE) = length (filter is_opened (zf_descs four_zones)) \<and>
    acquired_cnt (zf_res four_zones ACTIVE_ZONE) = length (filter is_active (zf_descs four_zones)) \<and> length (zf_descs four_zones) = 4"
  using zns_reach_wellformed[OF zns_cfg_loaded _ _ four_zones_ok(1) zns_reach_start] by simp

text \<open>C7: A write or append of a legal range refines the abstract zone machine.  It returns false exactly when the write
  buffer of the zone has too little space.  Otherwise, at the write pointer and with a multiple of the write unit, it
  succeeds if and only if the machine accepts the write, and then moves this zone as the machine does (implicitly opening
  it, or filling it); in every other case it fails and no zone changes.  An append also stores the block it was given in the
  command.\<close>

theorem zns_write_refines:
  assumes "zns_inv zf" "zcmd_legal zf (rq_cmd rq)"
  shows "let c = rq_cmd rq; zid = unat (c_slba c) div zone_lbas zf; d = zf_descs zf ! zid; n = nr_lba c;
      slba = (if c_opcode c = nvme_cmd_zone_append then zd_wp d else unat (c_slba c))
    in \<exists>zf' r ops. zns_write zf rq = Some (zf', c\<lparr>c_slba := of_nat slba\<rparr>, r, ops) \<and> zns_inv zf' \<and>
      (r = None \<longleftrightarrow> wbuf_left zf (zone_wbuf zf zid) < LBA_TO_BYTE n) \<and>
      (case r of
         None \<Rightarrow> zviews zf' = zviews zf
       | Some res \<Rightarrow>
           if slba = zd_wp d \<and> LBA_TO_BYTE n mod write_unit_size (zf_sp zf) = 0
           then (case zone_spec (zone_lbas zf) (Zone_write n) (zviews zf ! zid) of
                   None \<Rightarrow> rs_status res \<noteq> NVME_SC_SUCCESS \<and> zviews zf' = zviews zf
                 | Some v \<Rightarrow> rs_status res = NVME_SC_SUCCESS \<and> zviews zf' = (zviews zf)[zid := v])
           else rs_status res \<noteq> NVME_SC_SUCCESS \<and> zviews zf' = zviews zf)"
proof -
  define zid where "zid = unat (c_slba (rq_cmd rq)) div zone_lbas zf"
  define slba where "slba = (if c_opcode (rq_cmd rq) = nvme_cmd_zone_append then zd_wp (zf_descs zf ! zid) else unat (c_slba (rq_cmd rq)))"
  obtain zf' r ops where w: "zns_write zf rq = Some (zf', (rq_cmd rq)\<lparr>c_slba := of_nat slba\<rparr>, r, ops)" "zns_inv zf'"
    "write_step zid slba (nr_lba (rq_cmd rq)) zf zf' r ops"
    using zns_write_ok[OF assms, folded zid_def, folded slba_def] by blast
  show ?thesis unfolding Let_def zid_def[symmetric] slba_def[symmetric]
    using w by (intro exI[of _ zf'] exI[of _ r] exI[of _ ops]) (cases r; auto simp: write_step_def spec_step_def split: if_splits)
qed

theorem zns_write_refines_witness:
  "\<exists>zf' r ops. zns_write four_zones (rw_request nvme_cmd_write 4096 7) = Some (zf', (rq_cmd (rw_request nvme_cmd_write 4096 7))\<lparr>c_slba := of_nat 4096\<rparr>, r, ops) \<and>
    zns_inv zf' \<and> (case r of None \<Rightarrow> zviews zf' = zviews four_zones
      | Some res \<Rightarrow> rs_status res = NVME_SC_SUCCESS \<and> zviews zf' = (zviews four_zones)[1 := (ZONE_STATE_OPENED_IMPL, 8)])"
proof -
  let ?rq = "rw_request nvme_cmd_write 4096 7"
  have leg: "zcmd_legal four_zones (rq_cmd ?rq)"
    using four_zones_ok(4,5) by (simp add: zcmd_legal_def rw_request_def nvme_cmd_write_def nvme_cmd_zone_mgmt_send_def nvme_cmd_zone_mgmt_recv_def)
  have c: "unat (c_slba (rq_cmd ?rq)) = 4096" "nr_lba (rq_cmd ?rq) = 8" "c_opcode (rq_cmd ?rq) \<noteq> nvme_cmd_zone_append"
    by (simp_all add: rw_request_def nr_lba_def nvme_cmd_write_def nvme_cmd_zone_append_def)
  have z: "zd_wp (zf_descs four_zones ! 1) = 4096" using four_zones_empty[of 1] by simp
  have v: "zviews four_zones ! 1 = (ZONE_STATE_EMPTY, 0)" using four_zones_ok(3) by simp
  have div: "(4096 :: nat) div 4096 = 1" by simp
  obtain zf' r ops where w: "zns_write four_zones ?rq = Some (zf', (rq_cmd ?rq)\<lparr>c_slba := of_nat 4096\<rparr>, r, ops)" "zns_inv zf'"
    "case r of None \<Rightarrow> zviews zf' = zviews four_zones | Some res \<Rightarrow>
       if 4096 = (4096 :: nat) \<and> LBA_TO_BYTE 8 mod 512 = 0
       then (case zone_spec 4096 (Zone_write 8) (ZONE_STATE_EMPTY, 0) of
               None \<Rightarrow> rs_status res \<noteq> NVME_SC_SUCCESS \<and> zviews zf' = zviews four_zones
             | Some v \<Rightarrow> rs_status res = NVME_SC_SUCCESS \<and> zviews zf' = (zviews four_zones)[1 := v])
       else rs_status res \<noteq> NVME_SC_SUCCESS \<and> zviews zf' = zviews four_zones"
    using zns_write_refines[OF four_zones_ok(2) leg] unfolding Let_def c(1,2) if_not_P[OF c(3)] four_zones_ok(5,7) div z v
    by blast
  then show ?thesis by (intro exI[of _ zf'] exI[of _ r] exI[of _ ops] conjI) (cases r; simp add: LBA_TO_BYTE_def)+
qed

text \<open>C8: Zone management refines the abstract zone machine: close, finish, open and reset of a zone succeed exactly in the
  states in which the machine has the transition, in particular no open is refused for want of resources; then the zone
  moves as the machine says, and otherwise no zone changes.  Taking a zone offline and flushing a random write area always
  fail.\<close>

theorem zns_mgmt_refines:
  assumes "zns_inv zf" "\<not> cmd_select_all (rq_cmd rq)" "\<not> cmd_zsaso (rq_cmd rq)"
    "unat (c_slba (rq_cmd rq)) < nr_zones zf * zone_lbas zf"
  shows "let a = cmd_zsa (rq_cmd rq); zid = unat (c_slba (rq_cmd rq)) div zone_lbas zf
    in \<exists>zf' st t. zns_zmgmt_send garbage zf rq = Some (zf', \<lparr>rs_status = st, rs_nsecs_target = t\<rparr>) \<and> zns_inv zf' \<and>
      (case action_event a of
         Some ev \<Rightarrow>
           (case zone_spec (zone_lbas zf) ev (zviews zf ! zid) of
              None \<Rightarrow> st \<noteq> NVME_SC_SUCCESS \<and> zviews zf' = zviews zf
            | Some v \<Rightarrow> st = NVME_SC_SUCCESS \<and> zviews zf' = (zviews zf)[zid := v])
       | None \<Rightarrow> zviews zf' = zviews zf \<and> (a = 5 \<or> a = 17 \<longrightarrow> st \<noteq> NVME_SC_SUCCESS))"
  using zmgmt_send_one_ok[OF assms] unfolding Let_def mgmt_step_def spec_step_def by blast

theorem zns_mgmt_refines_witness:
  "\<exists>zf' t. zns_zmgmt_send 0 four_zones (zone_request nvme_cmd_zone_mgmt_send 8192 3) =
      Some (zf', \<lparr>rs_status = NVME_SC_SUCCESS, rs_nsecs_target = t\<rparr>) \<and>
    zviews zf' = (zviews four_zones)[2 := (ZONE_STATE_OPENED_EXPL, 0)]"
proof -
  let ?rq = "zone_request nvme_cmd_zone_mgmt_send 8192 3"
  have c: "\<not> cmd_select_all (rq_cmd ?rq)" "\<not> cmd_zsaso (rq_cmd ?rq)" "unat (c_slba (rq_cmd ?rq)) = 8192" "cmd_zsa (rq_cmd ?rq) = 3"
    by (simp_all add: zone_request_def rw_request_def cmd_select_all_def cmd_zsaso_def cmd_zsa_def)
  have lba: "unat (c_slba (rq_cmd ?rq)) < nr_zones four_zones * zone_lbas four_zones" using c(3) four_zones_ok(4,5) by simp
  have v: "zviews four_zones ! 2 = (ZONE_STATE_EMPTY, 0)" using four_zones_ok(3) by simp
  have div: "(8192 :: nat) div 4096 = 2" by simp
  show ?thesis
    using zns_mgmt_refines[OF four_zones_ok(2) c(1,2) lba, of 0] unfolding Let_def c(3,4) four_zones_ok(5) div v
    by (fastforce simp: action_event_def)
qed

text \<open>A reset of all zones succeeds and leaves every zone empty, with its write pointer at its start.\<close>

theorem zns_reset_all_empties:
  assumes "zns_inv zf" "cmd_select_all (rq_cmd rq)" "\<not> cmd_zsaso (rq_cmd rq)" "cmd_zsa (rq_cmd rq) = 4"
  shows "\<exists>zf' t. zns_zmgmt_send garbage zf rq = Some (zf', \<lparr>rs_status = NVME_SC_SUCCESS, rs_nsecs_target = t\<rparr>) \<and> zns_inv zf' \<and>
    zviews zf' = replicate (nr_zones zf) (ZONE_STATE_EMPTY, 0)"
proof -
  obtain zf' t where r: "zns_zmgmt_send garbage zf rq = Some (zf', \<lparr>rs_status = NVME_SC_SUCCESS, rs_nsecs_target = t\<rparr>)" "zns_inv zf'"
    "length (zviews zf') = nr_zones zf" "\<forall>k<nr_zones zf. zviews zf' ! k = (ZONE_STATE_EMPTY, 0)"
    using zmgmt_send_all_ok[OF assms(1-3), of garbage] assms(4) by blast
  then have "zviews zf' = replicate (nr_zones zf) (ZONE_STATE_EMPTY, 0)" by (intro nth_equalityI) simp_all
  then show ?thesis using r by blast
qed

theorem zns_reset_all_empties_witness:
  "\<exists>zf' t. zns_zmgmt_send 0 four_zones (zone_request nvme_cmd_zone_mgmt_send 0 260) =
      Some (zf', \<lparr>rs_status = NVME_SC_SUCCESS, rs_nsecs_target = t\<rparr>) \<and> zns_inv zf' \<and>
    zviews zf' = replicate (nr_zones four_zones) (ZONE_STATE_EMPTY, 0)"
  by (rule zns_reset_all_empties[OF four_zones_ok(2)])
    (simp_all add: zone_request_def rw_request_def cmd_select_all_def cmd_zsaso_def cmd_zsa_def)

text \<open>C10: Resetting a zone clears exactly the bytes of this zone in the storage behind the namespace.\<close>

theorem zns_reset_clears_zone:
  assumes "zns_inv zf" "zid < nr_zones zf"
  shows "\<exists>zf'. zmgmt_send_reset_zone zf zid = Some (zf', NVME_SC_SUCCESS) \<and>
    (\<forall>a. zf_storage zf' a = (if a div zp_zone_size (zf_zp zf) = zid then 0 else zf_storage zf a))"
proof -
  obtain zf' st where r: "zmgmt_send_reset_zone zf zid = Some (zf', st)" "spec_step Zone_reset zid zf zf' st"
    "zf_storage zf' = zero_range (zf_storage zf) (zid * zp_zone_size (zf_zp zf)) (zp_zone_size (zf_zp zf))"
    using reset_zone_ok[OF assms] by blast
  have st: "st = NVME_SC_SUCCESS"
    using r(2) res_facts(2)[OF assms] assms by (auto simp: spec_step_def zviews_def zview_def zone_ok_def zns_inv_def split: if_splits)
  have pos: "0 < zp_zone_size (zf_zp zf)" using assms(1) by (auto simp: zns_inv_def zgeo_ok_def)
  have "a div zp_zone_size (zf_zp zf) = zid \<longleftrightarrow>
      zid * zp_zone_size (zf_zp zf) \<le> a \<and> a < zid * zp_zone_size (zf_zp zf) + zp_zone_size (zf_zp zf)" for a
  proof -
    have "a = a div zp_zone_size (zf_zp zf) * zp_zone_size (zf_zp zf) + a mod zp_zone_size (zf_zp zf)" by simp
    moreover have "a mod zp_zone_size (zf_zp zf) < zp_zone_size (zf_zp zf)" using pos by simp
    ultimately show ?thesis by (metis div_nat_eqI le_add1 mult.commute mult_Suc add.commute nat_add_left_cancel_less)
  qed
  then show ?thesis using r(1,3) st by (simp add: zero_range_def)
qed

theorem zns_reset_clears_zone_witness:
  "\<exists>zf'. zmgmt_send_reset_zone four_zones 1 = Some (zf', NVME_SC_SUCCESS) \<and>
    (\<forall>a. zf_storage zf' a = (if a div zp_zone_size (zf_zp four_zones) = 1 then 0 else zf_storage four_zones a))"
  by (rule zns_reset_clears_zone[OF four_zones_ok(2)]) (simp add: four_zones_ok(4))

text \<open>The die and cell of every logical page are within the drive: the placement of zones on dies never leaves the
  arrays of channels and dies, nor the table of read latencies, although the cell number of a three-bit drive can in general
  be one too large.\<close>

theorem lpn_to_ppa_in_bounds:
  assumes "zns_inv zf"
  shows "\<exists>lun cell. get_lun (zf_ssd zf) (lpn_to_ppa zf lpn) = Some lun \<and> get_cell (zf_ssd zf) (lpn_to_ppa zf lpn) = Some cell \<and>
    cell < length (pg_rd_lat (zf_sp zf)) \<and> p_pg (lpn_to_ppa zf lpn) < pgs_per_oneshotpg (zf_sp zf)"
proof -
  have g: "zgeo_ok (zf_zp zf) (zf_sp zf)" and l: "ssd_live (zf_ssd zf)" using assms by (auto simp: zns_inv_def)
  show ?thesis using lpn_to_ppa_lun[OF g, of lpn] l by (auto simp: get_lun_def get_cell_def ssd_live_def cell_ok_def)
qed

theorem lpn_to_ppa_in_bounds_witness:
  "\<exists>lun cell. get_lun (zf_ssd four_zones) (lpn_to_ppa four_zones 700) = Some lun \<and>
    get_cell (zf_ssd four_zones) (lpn_to_ppa four_zones 700) = Some cell \<and> cell < length (pg_rd_lat (zf_sp four_zones)) \<and>
    p_pg (lpn_to_ppa four_zones 700) < pgs_per_oneshotpg (zf_sp four_zones)"
  by (rule lpn_to_ppa_in_bounds[OF four_zones_ok(2)])

text \<open>A write that is refused with an error status has already taken its bytes from the write buffer of the zone, and it
  schedules no operation that would give them back.\<close>

theorem zns_refused_write_keeps_buffer:
  assumes "zns_inv zf" "zcmd_legal zf (rq_cmd rq)" "zns_write zf rq = Some (zf', c', Some res, ops)" "rs_status res \<noteq> NVME_SC_SUCCESS"
  shows "let buf = zone_wbuf zf (unat (c_slba (rq_cmd rq)) div zone_lbas zf)
    in ops = [] \<and> wbuf_left zf' buf + LBA_TO_BYTE (nr_lba (rq_cmd rq)) = wbuf_left zf buf \<and> zviews zf' = zviews zf"
proof -
  obtain zid slba where w: "zid = unat (c_slba (rq_cmd rq)) div zone_lbas zf" "write_step zid slba (nr_lba (rq_cmd rq)) zf zf' (Some res) ops"
    using zns_write_ok[OF assms(1,2)] assms(3) by auto
  then show ?thesis using assms(4) by (auto simp: write_step_def spec_step_def Let_def split: if_splits option.splits)
qed

theorem zns_refused_write_keeps_buffer_witness:
  "\<exists>zf' c' res. zns_write four_zones (rw_request nvme_cmd_write 8 7) = Some (zf', c', Some res, []) \<and>
    wbuf_left zf' (Zone_wb 0) = 487424"
proof -
  let ?rq = "rw_request nvme_cmd_write 8 7"
  have leg: "zcmd_legal four_zones (rq_cmd ?rq)"
    using four_zones_ok(4,5) by (simp add: zcmd_legal_def rw_request_def nvme_cmd_write_def nvme_cmd_zone_mgmt_send_def nvme_cmd_zone_mgmt_recv_def)
  have c: "unat (c_slba (rq_cmd ?rq)) = 8" "nr_lba (rq_cmd ?rq) = 8" "c_opcode (rq_cmd ?rq) \<noteq> nvme_cmd_zone_append"
    by (simp_all add: rw_request_def nr_lba_def nvme_cmd_write_def nvme_cmd_zone_append_def)
  have buf: "zone_wbuf four_zones 0 = Zone_wb 0" "wbuf_left four_zones (Zone_wb 0) = 491520"
    using four_zones_ok(6,10) by (simp_all add: zone_wbuf_def wbuf_left_def array_read_def buffer_init_def)
  have wp: "zd_wp (zf_descs four_zones ! 0) = 0" using four_zones_empty[of 0] by simp
  have z0: "(8 :: nat) div 4096 = 0" by simp
  obtain zf' r ops where w: "zns_write four_zones ?rq = Some (zf', (rq_cmd ?rq)\<lparr>c_slba := of_nat 8\<rparr>, r, ops)" "write_step 0 8 8 four_zones zf' r ops"
    using zns_write_ok[OF four_zones_ok(2) leg] unfolding c(1,2) if_not_P[OF c(3)] four_zones_ok(5) z0 by blast
  obtain res where r: "r = Some res" "rs_status res \<noteq> NVME_SC_SUCCESS"
    using w(2) buf wp by (auto simp: write_step_def LBA_TO_BYTE_def split: option.splits)
  then show ?thesis
    using zns_refused_write_keeps_buffer[OF four_zones_ok(2) leg w(1)[unfolded r(1)] r(2)] w(1) r(1)
    unfolding Let_def c(1,2) four_zones_ok(5) z0 buf by (auto simp: LBA_TO_BYTE_def)
qed

text \<open>An append to a full zone whose buffer has too little space returns false, to be tried again, but has replaced the
  address in the command by the write pointer, the first block of the next zone: the second try addresses that zone.\<close>

theorem zns_append_retry_moves_on:
  assumes "zns_inv zf" "zcmd_legal zf (rq_cmd rq)" "c_opcode (rq_cmd rq) = nvme_cmd_zone_append"
    "zid = unat (c_slba (rq_cmd rq)) div zone_lbas zf" "zd_wp (zf_descs zf ! zid) = zd_zslba (zf_descs zf ! zid) + zone_lbas zf"
    "wbuf_left zf (zone_wbuf zf zid) < LBA_TO_BYTE (nr_lba (rq_cmd rq))"
  shows "\<exists>zf' c'. zns_write zf rq = Some (zf', c', None, []) \<and> unat (c_slba c') div zone_lbas zf = zid + 1"
proof -
  have g: "zgeo_ok (zf_zp zf) (zf_sp zf)" using assms(1) by (simp add: zns_inv_def)
  have z: "zid < nr_zones zf" using zone_of_lba(2)[OF g, of "unat (c_slba (rq_cmd rq))"] assms(2,4) by (auto simp: zcmd_legal_def)
  have d: "zd_zslba (zf_descs zf ! zid) = zid * zone_lbas zf" using res_facts(2)[OF assms(1) z] by (simp add: zone_ok_def)
  have "Suc zid * zone_lbas zf \<le> nr_zones zf * zone_lbas zf" using z by (intro mult_le_mono1) simp
  moreover have "nr_zones zf * zone_lbas zf < 4294967296" using g by (simp add: zgeo_ok_def)
  ultimately have wp: "zd_wp (zf_descs zf ! zid) = Suc zid * zone_lbas zf" "Suc zid * zone_lbas zf < 4294967296" using assms(5) d by simp_all
  obtain zf' r ops where w: "zns_write zf rq = Some (zf', (rq_cmd rq)\<lparr>c_slba := of_nat (zd_wp (zf_descs zf ! zid))\<rparr>, r, ops)"
    "write_step zid (zd_wp (zf_descs zf ! zid)) (nr_lba (rq_cmd rq)) zf zf' r ops"
    using zns_write_ok[OF assms(1,2)] unfolding assms(4)[symmetric] if_P[OF assms(3)] by blast
  have r: "r = None" "ops = []" using w(2) assms(6) by (auto simp: write_step_def split: option.splits)
  have u: "unat (of_nat k :: u64) = k" if "k < 4294967296" for k :: nat using that by (simp add: unat_of_nat)
  have "unat (of_nat (Suc zid * zone_lbas zf) :: u64) = Suc zid * zone_lbas zf" by (rule u[OF wp(2)])
  moreover have "Suc zid * zone_lbas zf div zone_lbas zf = zid + 1" using zgeo_divisors(2)[OF g] by (simp del: mult_Suc)
  ultimately show ?thesis using w(1) r unfolding wp(1) by auto
qed

theorem zns_append_retry_moves_on_witness:
  "\<exists>zf' c'. zns_write full_zone (rw_request nvme_cmd_zone_append 0 7) = Some (zf', c', None, []) \<and> unat (c_slba c') div zone_lbas full_zone = 0 + 1"
proof (rule zns_append_retry_moves_on[OF full_zone_ok(1)])
  show "zcmd_legal full_zone (rq_cmd (rw_request nvme_cmd_zone_append 0 7))"
    using full_zone_ok(2,3) by (simp add: zcmd_legal_def rw_request_def nvme_cmd_zone_append_def nvme_cmd_zone_mgmt_send_def nvme_cmd_zone_mgmt_recv_def)
qed (use full_zone_ok in \<open>simp_all add: rw_request_def nr_lba_def LBA_TO_BYTE_def\<close>)

text \<open>Opening the first zone with a random write area on a drive without such areas succeeds, and an explicit flush of it
  then divides by the flush granularity, which is zero.\<close>

theorem zrwa_flush_divides_by_zero:
  assumes "zns_inv zf" "0 < nr_zones zf" "zd_state (zf_descs zf ! 0) = ZONE_STATE_EMPTY"
    "zp_lbas_per_zrwa (zf_zp zf) = 0" "zp_lbas_per_zrwafg (zf_zp zf) = 0"
  shows "\<exists>zf'. zmgmt_send_open_zone zf 0 True = Some (zf', NVME_SC_SUCCESS) \<and> zmgmt_send_flush_explicit_zrwa zf' 0 = None"
proof -
  let ?d = "zf_descs zf ! 0"
  note f = res_facts[OF assms(1,2)]
  have g: "zgeo_ok (zf_zp zf) (zf_sp zf)" and l: "length (zf_descs zf) = nr_zones zf" using assms(1) by (auto simp: zns_inv_def)
  have cnt: "acquired_cnt (zf_res zf OPEN_ZONE) < nr_zones zf" "acquired_cnt (zf_res zf ACTIVE_ZONE) < nr_zones zf"
    using f(10,11) assms(3) by auto
  have d: "zd_wp ?d = 0" "zd_capacity ?d = zone_lbas zf" using f(2) assms(3) by (simp_all add: zone_ok_cases)
  obtain zf' where zf': "zmgmt_send_open_zone zf 0 True = Some (zf', NVME_SC_SUCCESS)" "zf_zp zf' = zf_zp zf" "zf_ssd zf' = zf_ssd zf"
    "zf_descs zf' = (zf_descs zf)[0 := ?d\<lparr>zd_zrwav := True, zd_state := ZONE_STATE_OPENED_EXPL\<rparr>]"
    using f(1,3,4) cnt assms(2,3) l
    by (simp add: zmgmt_send_open_zone_def open_empty_def open_closed_def acquire_zone_resource_def is_zone_resource_avail_def
        is_zone_resource_full_def change_zone_state_def Let_def)
  have z: "lba_to_zone zf' 0 = 0" "zone_to_slba zf' 0 = 0" by (simp_all add: lba_to_zone_def zone_to_slba_def)
  have "array_read (zf_descs zf') 0 = Some (?d\<lparr>zd_zrwav := True, zd_state := ZONE_STATE_OPENED_EXPL\<rparr>)"
    using zf'(4) l assms(2) by (simp add: array_read_def)
  then have "zmgmt_send_flush_explicit_zrwa zf' 0 = None"
    using d assms(4,5) zf'(2) z by (simp add: zmgmt_send_flush_explicit_zrwa_def Let_def)
  then show ?thesis using zf'(1) by blast
qed

theorem zrwa_flush_divides_by_zero_witness:
  "\<exists>zf'. zmgmt_send_open_zone four_zones 0 True = Some (zf', NVME_SC_SUCCESS) \<and> zmgmt_send_flush_explicit_zrwa zf' 0 = None"
  using zrwa_flush_divides_by_zero[OF four_zones_ok(2)] four_zones_ok(4,8,9) four_zones_empty[of 0] by simp

text \<open>On a drive of more than 2 TiB the start address of a zone is computed in 32 bits: the zone that begins at block
  \<open>2 ^ 32\<close> has this start in its descriptor, but \<^verbatim>\<open>zone_to_slba\<close> gives 0.\<close>

theorem zone_to_slba_wraps:
  assumes "zp_zone_size (zf_zp zf) = 2097152" "secsz (zf_sp zf) = 512" "1048576 < nr_zones zf"
  shows "zd_zslba (zf_descs (zns_init_ftl (zf_zp zf) (zf_ssd zf) storage) ! 1048576) = 2 ^ 32 \<and> zone_to_slba zf 1048576 = 0"
  using assms by (simp add: zns_init_ftl_def init_resource_def init_descriptor_def Let_def init_zone_def zone_to_slba_def)

theorem zone_to_slba_wraps_witness:
  "let zf = four_zones\<lparr>zf_zp := (zf_zp four_zones)\<lparr>zp_nr_zones := 1048577, zp_zone_size := 2097152\<rparr>\<rparr>
   in zd_zslba (zf_descs (zns_init_ftl (zf_zp zf) (zf_ssd zf) (\<lambda>_. 0)) ! 1048576) = 2 ^ 32 \<and> zone_to_slba zf 1048576 = 0"
  unfolding Let_def by (rule zone_to_slba_wraps) (use four_zones_ok(2) in \<open>simp_all add: zns_inv_def zgeo_ok_def zspp_ok_def\<close>)

end
