(* ===== verification/Core_Props.thy ===== *)
theory Core_Props
  imports Conv_Props
begin

text \<open>
  Properties of the parts that both kinds of drive share: the priority queue, the bandwidth model of a channel, the
  geometry of a drive, and reads of the page-mapped namespace.
\<close>

section \<open>Filling and emptying a queue\<close>

fun pqueue_insert_all ::
  "'s \<Rightarrow> ('s, 'e, 'p) pqueue_t \<Rightarrow> 'e list \<Rightarrow> ('s \<times> ('s, 'e, 'p) pqueue_t) option" where
  "pqueue_insert_all s q [] = Some (s, q)"
| "pqueue_insert_all s q (e # es) = do { (s', q') \<leftarrow> pqueue_insert s q e; pqueue_insert_all s' q' es }"

text \<open>Elements are popped until the queue answers that it is empty, at most \<open>n\<close> of them.\<close>

fun pqueue_drain :: "nat \<Rightarrow> 's \<Rightarrow> ('s, 'e, 'p) pqueue_t \<Rightarrow> 'e list option" where
  "pqueue_drain 0 s q = Some []"
| "pqueue_drain (Suc n) s q = do {
     (r, s', q') \<leftarrow> pqueue_pop s q;
     (case r of None \<Rightarrow> Some []
      | Some e \<Rightarrow> do { es \<leftarrow> pqueue_drain n s' q'; Some (e # es) })
   }"

context pqueue_client
begin

lemma insert_all_correct:
  assumes "pq_inv s q" "pq_size q + length es \<le> pq_avail q" "distinct es" "set es \<inter> pq_elems q = {}"
    "\<forall>e\<in>set es. vld s e"
  shows "\<exists>s' q'. pqueue_insert_all s q es = Some (s', q') \<and> pq_inv s' q' \<and>
    pq_elems q' = set es \<union> pq_elems q \<and> getpri ops s' = getpri ops s"
  using assms
proof (induction es arbitrary: s q)
  case (Cons e es)
  obtain s1 q1 where i: "pqueue_insert s q e = Some (s1, q1)" "pq_inv s1 q1" "pq_elems q1 = insert e (pq_elems q)"
    "pq_size q1 = pq_size q + 1" "pq_avail q1 = pq_avail q" "getpri ops s1 = getpri ops s" "vld s1 = vld s"
    using insert_correct[OF Cons.prems(1), of e] Cons.prems by auto
  then show ?case using Cons.IH[OF i(2)] Cons.prems by auto
qed auto

lemma above_getpri: "getpri ops s' = getpri ops s \<Longrightarrow> above s' = above s"
  by (auto simp: above_def fun_eq_iff)

lemma drain_sorted:
  assumes "pq_inv s q" "pqueue_size q < n"
  shows "\<exists>es. pqueue_drain n s q = Some es \<and> set es = pq_elems q \<and> distinct es \<and> sorted_wrt (above s) es"
  using assms
proof (induction n arbitrary: s q)
  case (Suc n)
  show ?case
  proof (cases "pq_elems q = {}")
    case True
    then show ?thesis using pop_empty[OF Suc.prems(1)] by simp
  next
    case False
    obtain e s' q' where p: "pqueue_pop s q = Some (Some e, s', q')" "e \<in> pq_elems q"
      "\<forall>x\<in>pq_elems q. above s e x" "taken_out s q e (Some (s', q'))"
      using pop_correct[OF Suc.prems(1) False] by blast
    then have t: "pq_inv s' q'" "pq_elems q' = pq_elems q - {e}" "Suc (pq_size q') = pq_size q"
      "getpri ops s' = getpri ops s"
      by (auto simp: taken_out_def)
    have "pqueue_size q' < n" using t(1,3) Suc.prems(2) by (auto simp: pqueue_size_def pq_inv_def)
    then obtain es where "pqueue_drain n s' q' = Some es" "set es = pq_elems q'" "distinct es"
      "sorted_wrt (above s') es"
      using Suc.IH[OF t(1)] by blast
    then show ?thesis using p t(2) above_getpri[OF t(4)] by auto
  qed
qed simp

lemma heapsort:
  assumes "length mem = length es + 1" "distinct es" "\<forall>e\<in>set es. vld s e"
    "pqueue_init (length es) ops (Some mem) = Some q"
  shows "\<exists>s' q' out. pqueue_insert_all s q es = Some (s', q') \<and> pqueue_is_valid s' q' = Some True \<and>
    pqueue_drain (length es + 1) s' q' = Some out \<and> set out = set es \<and> distinct out \<and> sorted_wrt (above s) out"
proof -
  have i: "pq_inv s q" "pq_elems q = {}" "pq_avail q = length es + 1"
    using init_correct[OF assms(1,4), of s] by auto
  have sz: "pq_size q = 1" using assms(4) by (auto simp: pqueue_init_def)
  obtain s' q' where f: "pqueue_insert_all s q es = Some (s', q')" "pq_inv s' q'" "pq_elems q' = set es"
    "getpri ops s' = getpri ops s"
    using insert_all_correct[OF i(1), of es] i sz assms by auto
  have "pqueue_size q' < length es + 1"
    using pqueue_size_correct[OF f(2)] f(3) assms(2) by (simp add: distinct_card)
  then obtain out where "pqueue_drain (length es + 1) s' q' = Some out" "set out = set es" "distinct out"
      "sorted_wrt (above s') out"
    using drain_sorted[OF f(2)] f(3) by blast
  moreover have "heap_ordered s' q'" using f(2) by (auto simp: pq_inv_def heap_ordered_def ordered_def above_def)
  ultimately show ?thesis
    using f(1) above_getpri[OF f(4)] by (simp add: pqueue_is_valid_heap_ordered)
qed

end

section \<open>Properties\<close>

text \<open>The validity check of the queue, a recursion over the whole tree, ends and answers exactly whether no element
  is above its parent, whatever call-backs the queue was made with.\<close>

theorem pqueue_is_valid_decides:
  "pqueue_is_valid s q = Some (\<forall>j\<in>{2..<pq_size q}.
     \<not> cmppri (pq_ops q) (getpri (pq_ops q) s (pq_d q ! parent j)) (getpri (pq_ops q) s (pq_d q ! j)))"
  unfolding pqueue_is_valid_heap_ordered heap_ordered_def by simp

theorem pqueue_is_valid_decides_witness:
  "pqueue_is_valid [] \<lparr>pq_size = 1, pq_avail = 1, pq_step = 1, pq_ops = victim_ops, pq_d = [0]\<rparr> = Some True"
  unfolding pqueue_is_valid_decides by simp

text \<open>C11: Inserting any distinct lines into a new victim queue of sufficient size never fails and leaves a valid heap,
  and popping until the queue is empty yields each line once, in the order of their numbers of valid pages.\<close>

theorem victim_queue_sorts:
  assumes "length mem = length es + 1" "distinct es" "\<forall>e\<in>set es. e < length ls \<and> 0 \<le> ln_vpc (ls ! e) \<and> ln_vpc (ls ! e) < 2 ^ 31"
    "pqueue_init (length es) victim_ops (Some mem) = Some q"
  shows "\<exists>ls' q' out. pqueue_insert_all ls q es = Some (ls', q') \<and> pqueue_is_valid ls' q' = Some True \<and>
    pqueue_drain (length es + 1) ls' q' = Some out \<and> mset out = mset es \<and> sorted (map (\<lambda>l. ln_vpc (ls ! l)) out)"
proof -
  obtain ls' q' out where o: "pqueue_insert_all ls q es = Some (ls', q')" "pqueue_is_valid ls' q' = Some True"
    "pqueue_drain (length es + 1) ls' q' = Some out" "set out = set es" "distinct out" "sorted_wrt (vpq.above ls) out"
    using vpq.heapsort[OF assms(1,2) _ assms(4), of ls] assms(3) by auto
  have "sorted_wrt (\<lambda>a b. ln_vpc (ls ! a) \<le> ln_vpc (ls ! b)) out"
    by (rule sorted_wrt_mono_rel[OF _ o(6)]) (use o(4) assms(3) in \<open>auto intro!: victim_le\<close>)
  then have "sorted (map (\<lambda>l. ln_vpc (ls ! l)) out)" by (simp add: sorted_wrt_map)
  moreover have "mset out = mset es" using o(4,5) assms(2) by (simp add: set_eq_iff_mset_eq_distinct)
  ultimately show ?thesis using o(1-3) by blast
qed

definition three_lines :: "line list" where
  "three_lines = map (\<lambda>v. \<lparr>ln_id = 0, ln_ipc = 0, ln_vpc = v, ln_pos = 0\<rparr>) [7, 3, 5]"

theorem victim_queue_sorts_witness:
  "\<exists>ls' q' out. pqueue_insert_all three_lines
      \<lparr>pq_size = 1, pq_avail = 4, pq_step = 4, pq_ops = victim_ops, pq_d = [0, 0, 0, 0]\<rparr> [0, 1, 2] = Some (ls', q') \<and>
    pqueue_is_valid ls' q' = Some True \<and> pqueue_drain 4 ls' q' = Some out \<and>
    mset out = mset [0, 1, 2] \<and> sorted (map (\<lambda>l. ln_vpc (three_lines ! l)) out)"
  using victim_queue_sorts[of "[0, 0, 0, 0]" "[0, 1, 2]" three_lines
      "\<lparr>pq_size = 1, pq_avail = 4, pq_step = 4, pq_ops = victim_ops, pq_d = [0, 0, 0, 0]\<rparr>"]
  by (simp add: pqueue_init_def three_lines_def eval_nat_numeral)

text \<open>A transfer request to a channel whose bandwidth is set up always returns, at every clock value and length:
  it keeps the window of credits within its bounds and does not complete before it was made, unless the 64-bit clock
  overflows.\<close>

theorem chmodel_request_total:
  assumes "32 \<le> unat bw" "unat bw \<le> 7812"
  shows "\<exists>ch. chmodel_init bw = Some ch \<and> (\<forall>trs. \<exists>ch' ts.
    foldM (\<lambda>(now, req, len) (ch, ts). do { (ch', t) \<leftarrow> chmodel_request ch now req len; Some (ch', ts @ [t]) }) trs (ch, [])
      = Some (ch', ts) \<and> chmodel_ok ch' \<and>
    list_all2 (\<lambda>(now, req, len) t. unat req + 2 ^ 32 + 2 ^ 32 * 4000 < 2 ^ 64 \<longrightarrow> req \<le> t) trs ts)"
proof -
  let ?step = "\<lambda>(now, req, len) (ch, ts). do { (ch', t) \<leftarrow> chmodel_request ch now req len; Some (ch', ts @ [t]) }"
  let ?ok = "\<lambda>(now, req, len) t. unat req + 2 ^ 32 + 2 ^ 32 * 4000 < 2 ^ 64 \<longrightarrow> req \<le> t"
  obtain ch where ch: "chmodel_init bw = Some ch" "chmodel_ok ch" using chmodel_init_ok[OF assms] by blast
  have "\<exists>ch' ts'. foldM ?step trs (c, ts) = Some (ch', ts @ ts') \<and> chmodel_ok ch' \<and> list_all2 ?ok trs ts'"
    if "chmodel_ok c" for c ts trs
    using that
  proof (induction trs arbitrary: c ts)
    case (Cons tr trs)
    obtain now req len where tr: "tr = (now, req, len)" by (cases tr)
    obtain c1 t where 1: "chmodel_request c now req len = Some (c1, t)" "chmodel_ok c1" "?ok (now, req, len) t"
      using chmodel_request_ok[OF Cons.prems, of now req len] by auto
    then obtain c2 ts2 where 2: "foldM ?step trs (c1, ts @ [t]) = Some (c2, (ts @ [t]) @ ts2)" "chmodel_ok c2" "list_all2 ?ok trs ts2"
      using Cons.IH[OF 1(2)] by blast
    have "foldM ?step (tr # trs) (c, ts) = Some (c2, ts @ (t # ts2))" using tr 1(1) 2(1) by simp
    then show ?case using 2(2,3) 1(3) tr by (intro exI[of _ c2] exI[of _ "t # ts2"]) simp
  qed auto
  from this[OF ch(2), of _ "[]"] show ?thesis using ch(1) by auto
qed

theorem chmodel_request_total_witness:
  "\<exists>ch ch' t1 t2. chmodel_init 800 = Some ch \<and>
    foldM (\<lambda>(now, req, len) (ch, ts). do { (ch', t) \<leftarrow> chmodel_request ch now req len; Some (ch', ts @ [t]) })
      [(0, 5000, 4096), (6000, 7000, 131072)] (ch, []) = Some (ch', [t1, t2]) \<and> chmodel_ok ch' \<and> 5000 \<le> t1 \<and> 7000 \<le> t2"
proof -
  let ?step = "\<lambda>(now, req, len) (ch, ts). do { (ch', t) \<leftarrow> chmodel_request ch now req len; Some (ch', ts @ [t]) }"
  let ?trs = "[(0, 5000, 4096), (6000, 7000, 131072)]"
  obtain ch where ch: "chmodel_init 800 = Some ch" and all: "\<forall>trs. \<exists>ch' ts. foldM ?step trs (ch, []) = Some (ch', ts) \<and>
      chmodel_ok ch' \<and> list_all2 (\<lambda>(now, req, len) t. unat req + 2 ^ 32 + 2 ^ 32 * 4000 < 2 ^ 64 \<longrightarrow> req \<le> t) trs ts"
    using chmodel_request_total[of 800] by auto
  obtain ch' ts where r: "foldM ?step ?trs (ch, []) = Some (ch', ts)" "chmodel_ok ch'"
    "list_all2 (\<lambda>(now :: u64, req, len :: u64) t. unat req + 2 ^ 32 + 2 ^ 32 * 4000 < 2 ^ 64 \<longrightarrow> req \<le> t) ?trs ts"
    using spec[OF all, of ?trs] by blast
  from r(3) obtain t1 t2 where "ts = [t1, t2]" "5000 \<le> t1" "7000 \<le> t2" by (auto simp: list_all2_Cons1)
  then show ?thesis using ch r(1,2) by blast
qed

text \<open>The loop that takes credits from the window of a channel ends whatever the window holds.  It takes no more
  than the request needs, what the window loses is what the request gets, no interval gains credits, and the request is
  served in full unless the window is used up to its end.\<close>

theorem chmodel_take_conserves:
  assumes "unat head < NR_CREDIT_ENTRIES" "unat pos < NR_CREDIT_ENTRIES"
  shows "\<exists>a' pos' delay c. chmodel_take head a pos remaining 0 = Some (a', pos', delay) \<and>
    credit_sum a = credit_sum a' + c \<and> c \<le> unat remaining \<and> (\<forall>i. a' i \<le> a i) \<and> unat delay < NR_CREDIT_ENTRIES \<and>
    (c = unat remaining \<or> (pos' + 1) mod NR_CREDIT_ENTRIES32 = head)"
proof -
  have lt: "cells_left (unat head) (unat pos) < NR_CREDIT_ENTRIES" by (rule cells_left_less[OF assms(1)])
  then have "taken head a remaining 0 (chmodel_take head a pos remaining 0) (cells_left (unat head) (unat pos))"
    by (intro chmodel_take_ok[OF assms]) simp
  then obtain a' pos' delay c where r: "chmodel_take head a pos remaining 0 = Some (a', pos', delay)"
    "credit_sum a = credit_sum a' + c" "c \<le> unat remaining" "\<forall>i. unat (a' i) \<le> unat (a i)"
    "unat delay \<le> cells_left (unat head) (unat pos)" "c < unat remaining \<longrightarrow> (pos' + 1) mod NR_CREDIT_ENTRIES32 = head"
    unfolding taken_def by auto
  have "\<forall>i. a' i \<le> a i" using r(4) by (simp add: word_le_nat_alt)
  moreover have "unat delay < NR_CREDIT_ENTRIES" using r(5) lt by simp
  moreover have "c = unat remaining \<or> (pos' + 1) mod NR_CREDIT_ENTRIES32 = head" using r(3,6) by linarith
  ultimately show ?thesis using r(1-3) by blast
qed

theorem chmodel_take_conserves_witness:
  "\<exists>a' pos' delay c. chmodel_take 3 (\<lambda>_. 26) 3 100 0 = Some (a', pos', delay) \<and>
    credit_sum (\<lambda>_. 26) = credit_sum a' + c \<and> c \<le> 100 \<and> (\<forall>i. a' i \<le> 26) \<and> unat delay < NR_CREDIT_ENTRIES \<and>
    (c = 100 \<or> (pos' + 1) mod NR_CREDIT_ENTRIES32 = 3)"
  using chmodel_take_conserves[of 3 3 "\<lambda>_. 26" 100] by simp

text \<open>A copy request, which does not draw on the window, takes the transfer latency of its 128-byte units and
  nothing more: its delay loop always cancels against the default delay.\<close>

theorem chmodel_request_copy_exact:
  assumes "cm_max_credits ch \<noteq> 0"
  shows "chmodel_request_copy ch req len = Some (req + ucast (cm_xfer_lat ch * ucast (div_round_up len 128)))"
  using assms by (intro chmodel_request_copy_value) (simp add: unat_gt_0)

theorem chmodel_request_copy_exact_witness:
  "chmodel_request_copy \<lparr>cm_cur_time = 0, cm_head = 0, cm_valid_len = 0, cm_max_credits = 26, cm_command_credits = 0,
     cm_xfer_lat = 152, cm_avail_credits = (\<lambda>_. 0)\<rparr> 1000 4096 = Some (1000 + 152 * 32)"
  using chmodel_request_copy_exact[of "\<lparr>cm_cur_time = 0, cm_head = 0, cm_valid_len = 0, cm_max_credits = 26, cm_command_credits = 0,
     cm_xfer_lat = 152, cm_avail_credits = (\<lambda>_. 0)\<rparr>" 1000 4096] by (simp add: div_round_up_def)

text \<open>A read of a page-mapped drive changes no table, no mapping and no buffer.  It returns false exactly when its
  last page is beyond the pages of a partition; otherwise it succeeds, at a time not before the request.\<close>

theorem conv_read_correct:
  assumes "drive_ok ns"
  shows "\<exists>ns' r. conv_read ns rq = Some (ns', r) \<and> drive_ok ns' \<and> ns_mapped ns' = ns_mapped ns \<and> ns_wbuf ns' = ns_wbuf ns \<and>
    (case r of
       None \<Rightarrow> tt_pgs (ns_spp ns) \<le> end_lpn (secs_per_pg (ns_spp ns)) (rq_cmd rq) div cn_nr_parts ns
     | Some res \<Rightarrow> end_lpn (secs_per_pg (ns_spp ns)) (rq_cmd rq) div cn_nr_parts ns < tt_pgs (ns_spp ns) \<and>
         rs_status res = NVME_SC_SUCCESS \<and> rq_nsecs_start rq \<le> rs_nsecs_target res)"
proof -
  have inv: "ns_inv (host_pages ns) ns" using assms by (simp add: drive_ok_def)
  obtain ns' r where r: "conv_read ns rq = Some (ns', r)" "ns_inv (host_pages ns) ns'" "same_ns ns ns'"
    "if end_lpn (secs_per_pg (ns_spp ns)) (rq_cmd rq) div cn_nr_parts ns \<ge> tt_pgs (ns_spp ns) then r = None
     else (\<exists>t. r = Some \<lparr>rs_status = NVME_SC_SUCCESS, rs_nsecs_target = t\<rparr> \<and> rq_nsecs_start rq \<le> t)"
    using conv_read_ok[OF inv] by blast
  have "drive_ok ns'" "ns_mapped ns' = ns_mapped ns" "ns_wbuf ns' = ns_wbuf ns"
    using assms r(2,3) same_ns_mapped[OF r(3) inv r(2)] by (auto simp: drive_ok_def same_ns_def host_pages_def)
  then show ?thesis using r(1,4) by (auto split: if_splits)
qed

theorem conv_read_correct_witness:
  "\<exists>ns' r. conv_read gib_ns (rw_request nvme_cmd_read 0 7) = Some (ns', r) \<and> drive_ok ns' \<and> ns_mapped ns' = {}"
  using conv_read_correct[OF gib_ns_ok(2), of "rw_request nvme_cmd_read 0 7"] gib_ns_ok(3) by auto

text \<open>C12: For every capacity from 4 bytes to 32 TiB the page-mapped configuration yields a geometry in which every
  product that sizes an array agrees with the counts it is made of, every index fits its bit field, and the flash holds
  the capacity up to the three bytes that division by the partitions leaves out.\<close>

theorem conv_geometry_fits:
  assumes "load_conv_configs c = Some cfg" "4 \<le> cap" "cap \<le> 2 ^ 45"
  shows "\<exists>spp. ssd_init_params cap (SSD_PARTITIONS cfg) cfg = Some spp \<and> geo_ok spp \<and>
    tt_pgs spp = tt_lines spp * pgs_per_line spp \<and> SSD_PARTITIONS cfg * pgsz spp * tt_pgs spp + 3 \<ge> cap"
proof -
  obtain spp where "ssd_init_params cap (SSD_PARTITIONS cfg) cfg = Some spp" "geo_ok spp" "tt_lines spp = 8192"
    "tt_pgs spp = 8192 * pgs_per_line spp" "cap \<le> 16384 * tt_pgs spp + 3"
    using conv_params_ok[OF assms] by blast
  moreover from this have "pgsz spp = 4096" "SSD_PARTITIONS cfg = 4"
    using conv_cfg_fields[OF assms(1)] by (auto simp: geo_ok_def ssd_init_params_def Let_def split: bind_splits if_splits)
  ultimately show ?thesis by auto
qed

theorem conv_geometry_fits_witness:
  "\<exists>spp. ssd_init_params (2 ^ 30) (SSD_PARTITIONS conv_cfg) conv_cfg = Some spp \<and> geo_ok spp \<and>
    tt_pgs spp = tt_lines spp * pgs_per_line spp \<and> SSD_PARTITIONS conv_cfg * pgsz spp * tt_pgs spp + 3 \<ge> 2 ^ 30"
  using conv_geometry_fits[OF conv_cfg_loaded, of "2 ^ 30"] by simp

end
