(* ===== verification/Simple_Ftl.thy ===== *)
theory Simple_Ftl
  imports Nvmev
begin

text \<open>
  The simple command processor (src/simple\_ftl.c): no translation layer, only parallel units that each are busy until
  a recorded time.  A command occupies consecutive units, one after the other; a flush waits for all of them.
\<close>

section \<open>Configuration and state\<close>

record simple_config =
  sc_nr_io_units :: nat
  sc_io_unit_shift :: nat
  sc_read_delay :: u64
  sc_read_time :: u64
  sc_read_trailing :: u64
  sc_write_delay :: u64
  sc_write_time :: u64
  sc_write_trailing :: u64

text \<open>The part of \<^verbatim>\<open>struct nvmev_dev\<close> the processor uses: its configuration and the time each unit is busy until.\<close>

record simple_dev =
  sd_config :: simple_config
  sd_io_unit_stat :: "u64 list"

record simple_ns =
  sn_id :: nat
  sn_csi :: nat
  sn_size :: nat

definition NVME_CSI_NVM :: nat where "NVME_CSI_NVM = 0"
definition INTEL_OPTANE :: nat where "INTEL_OPTANE = 0"
definition MI :: nat where "MI = 5"

section \<open>Operations\<close>

definition cmd_io_size :: "nvme_command \<Rightarrow> nat" where
  "cmd_io_size c = (c_length c + 1) * 512"

text \<open>The loop over the units.  The size of a unit is a power of two, so it is never zero and the remaining length
  shrinks; lengths stay below \<open>2 ^ 26\<close>, so that 32-bit arithmetic on them is exact.\<close>

function schedule_loop ::
  "simple_config \<Rightarrow> u64 \<Rightarrow> u64 \<Rightarrow> u64 list \<Rightarrow> nat \<Rightarrow> int \<Rightarrow> nat \<Rightarrow> u64 \<Rightarrow> (u64 list \<times> u64) option" where
  "schedule_loop cfg latency trailing stat io_unit nr_io_units len latest0 = do {
     let latest = latest0 + latency;
     stat1 \<leftarrow> array_write stat io_unit latest;
     let stat2 = (if nr_io_units > 0 then stat1[io_unit := stat1 ! io_unit + trailing] else stat1);
     let len' = len - min len (2 ^ sc_io_unit_shift cfg);
     let io_unit' = (if io_unit + 1 \<ge> sc_nr_io_units cfg then 0 else io_unit + 1);
     (if len' > 0 then schedule_loop cfg latency trailing stat2 io_unit' (nr_io_units - 1) len' latest
      else Some (stat2, latest))
   }"
  by pat_completeness auto
termination by (relation "measure (\<lambda>(_, _, _, _, _, _, len, _). len)") (auto simp: min_def split: if_splits)

declare schedule_loop.simps [simp del]

text \<open>Shifting by \<^verbatim>\<open>io_unit_shift - 9\<close> needs a shift of at least 9, and the number of units is a divisor.\<close>

definition schedule_io_units :: "nat \<Rightarrow> u64 \<Rightarrow> nat \<Rightarrow> u64 \<Rightarrow> simple_dev \<Rightarrow> (simple_dev \<times> u64) option" where
  "schedule_io_units opcode lba len nsecs_start dev = do {
     let cfg = sd_config dev;
     nvmev_assert (9 \<le> sc_io_unit_shift cfg \<and> sc_io_unit_shift cfg < 32);
     let io_unit_size = 2 ^ sc_io_unit_shift cfg;
     nvmev_assert (sc_nr_io_units cfg \<noteq> 0);
     let io_unit = (unat lba div 2 ^ (sc_io_unit_shift cfg - 9)) mod sc_nr_io_units cfg;
     let nr_io_units = int (min (sc_nr_io_units cfg) (DIV_ROUND_UP len io_unit_size));
     let (delay, latency, trailing) =
       (if opcode = nvme_cmd_write then (sc_write_delay cfg, sc_write_time cfg, sc_write_trailing cfg)
        else if opcode = nvme_cmd_read then (sc_read_delay cfg, sc_read_time cfg, sc_read_trailing cfg)
        else (0, 0, 0));
     busy \<leftarrow> array_read (sd_io_unit_stat dev) io_unit;
     (stat, latest) \<leftarrow> schedule_loop cfg latency trailing (sd_io_unit_stat dev) io_unit nr_io_units len
       (max nsecs_start busy + delay);
     Some (dev\<lparr>sd_io_unit_stat := stat\<rparr>, latest)
   }"

fun flush_loop :: "u64 list \<Rightarrow> nat \<Rightarrow> nat \<Rightarrow> u64 \<Rightarrow> u64 option" where
  "flush_loop stat i 0 latest = Some latest"
| "flush_loop stat i (Suc n) latest = do { t \<leftarrow> array_read stat i; flush_loop stat (i + 1) n (max latest t) }"

definition schedule_flush :: "simple_dev \<Rightarrow> u64 option" where
  "schedule_flush dev = flush_loop (sd_io_unit_stat dev) 0 (sc_nr_io_units (sd_config dev)) 0"

text \<open>\<open>base_ssd\<close> is the drive the module was built for, \<open>wallclock\<close> what the dispatcher's clock reads.\<close>

definition simple_proc_nvme_io_cmd ::
  "nat \<Rightarrow> u64 \<Rightarrow> simple_ns \<Rightarrow> nvmev_request \<Rightarrow> nvmev_result \<Rightarrow> simple_dev \<Rightarrow> (simple_dev \<times> nvmev_result) option" where
  "simple_proc_nvme_io_cmd base_ssd wallclock ns rq ret dev = do {
     let c = rq_cmd rq;
     nvmev_assert (sn_csi ns = NVME_CSI_NVM);
     nvmev_assert (base_ssd = INTEL_OPTANE \<or> base_ssd = MI);
     (if c_opcode c = nvme_cmd_write \<or> c_opcode c = nvme_cmd_read then do {
        (dev', t) \<leftarrow> schedule_io_units (c_opcode c) (c_slba c) (cmd_io_size c) wallclock dev;
        Some (dev', ret\<lparr>rs_nsecs_target := t\<rparr>)
      } else if c_opcode c = nvme_cmd_flush then do {
        t \<leftarrow> schedule_flush dev;
        Some (dev, ret\<lparr>rs_nsecs_target := t\<rparr>)
      } else Some (dev, ret))
   }"

definition simple_init_namespace :: "nat \<Rightarrow> nat \<Rightarrow> simple_ns" where
  "simple_init_namespace i bytes = \<lparr>sn_id = i, sn_csi = NVME_CSI_NVM, sn_size = bytes\<rparr>"

section \<open>Timing\<close>

definition units_ok :: "simple_dev \<Rightarrow> bool" where
  "units_ok dev \<longleftrightarrow> 9 \<le> sc_io_unit_shift (sd_config dev) \<and> sc_io_unit_shift (sd_config dev) < 32 \<and>
     0 < sc_nr_io_units (sd_config dev) \<and> length (sd_io_unit_stat dev) = sc_nr_io_units (sd_config dev)"

lemma DIV_ROUND_UP_step:
  assumes "0 < d" "d < (n :: nat)"
  shows "DIV_ROUND_UP n d = Suc (DIV_ROUND_UP (n - d) d)"
  using assms by (simp add: DIV_ROUND_UP_def le_div_geq)

lemma DIV_ROUND_UP_one: "0 < n \<Longrightarrow> n \<le> d \<Longrightarrow> DIV_ROUND_UP n d = 1"
  by (simp add: DIV_ROUND_UP_def div_nat_eqI)

text \<open>The loop runs once per unit-sized piece, adds the latency each time, touches at least the last unit, and records
  there the completion time, with or without the trailing time.\<close>

lemma schedule_loop_ok:
  assumes "length stat = sc_nr_io_units cfg" "u < length stat" "0 < len"
  shows "\<exists>stat' v. schedule_loop cfg latency trailing stat u n len latest = Some (stat', latest + of_nat (DIV_ROUND_UP len (2 ^ sc_io_unit_shift cfg)) * latency) \<and>
    length stat' = length stat \<and> v < length stat' \<and>
    stat' ! v \<in> {latest + of_nat (DIV_ROUND_UP len (2 ^ sc_io_unit_shift cfg)) * latency,
      latest + of_nat (DIV_ROUND_UP len (2 ^ sc_io_unit_shift cfg)) * latency + trailing}"
  using assms
proof (induction cfg latency trailing stat u n len latest rule: schedule_loop.induct)
  case (1 cfg latency trailing stat u n len latest)
  let ?d = "2 ^ sc_io_unit_shift cfg :: nat"
  let ?s1 = "stat[u := latest + latency]"
  let ?s2 = "if n > 0 then ?s1[u := ?s1 ! u + trailing] else ?s1"
  let ?u = "if u + 1 \<ge> sc_nr_io_units cfg then 0 else u + 1"
  show ?case
  proof (cases "?d < len")
    case True
    then have len: "len - min len ?d = len - ?d" "0 < len - ?d" by auto
    have lens: "length ?s2 = sc_nr_io_units cfg" "?u < length ?s2" "length ?s2 = length stat" using "1.prems" by auto
    have "\<exists>stat' v. schedule_loop cfg latency trailing ?s2 ?u (n - 1) (len - ?d) (latest + latency) =
        Some (stat', (latest + latency) + of_nat (DIV_ROUND_UP (len - ?d) ?d) * latency) \<and>
      length stat' = length ?s2 \<and> v < length stat' \<and>
      stat' ! v \<in> {(latest + latency) + of_nat (DIV_ROUND_UP (len - ?d) ?d) * latency,
        (latest + latency) + of_nat (DIV_ROUND_UP (len - ?d) ?d) * latency + trailing}"
      by (rule "1.IH"[OF refl array_write_in[OF "1.prems"(2)] refl refl refl, unfolded len(1), OF len(2) lens(1,2) len(2)])
    moreover have "(latest + latency) + of_nat (DIV_ROUND_UP (len - ?d) ?d) * latency =
        latest + of_nat (DIV_ROUND_UP len ?d) * latency"
      using True by (simp add: DIV_ROUND_UP_step algebra_simps)
    moreover have "schedule_loop cfg latency trailing stat u n len latest =
        schedule_loop cfg latency trailing ?s2 ?u (n - 1) (len - ?d) (latest + latency)"
      using "1.prems"(2) len by (subst schedule_loop.simps) (simp add: Let_def)
    ultimately show ?thesis unfolding lens(3) by simp
  next
    case False
    then have d: "DIV_ROUND_UP len ?d = 1" using "1.prems"(3) by (intro DIV_ROUND_UP_one) auto
    have "schedule_loop cfg latency trailing stat u n len latest = Some (?s2, latest + latency)"
      using "1.prems"(2) False by (subst schedule_loop.simps) (simp add: Let_def min_absorb1)
    then show ?thesis using "1.prems"(2) d by (intro exI[of _ ?s2] exI[of _ u]) simp
  qed
qed

lemma flush_loop_ok:
  "i + n \<le> length stat \<Longrightarrow> \<exists>t. flush_loop stat i n latest = Some t \<and> latest \<le> t \<and> (\<forall>k. i \<le> k \<and> k < i + n \<longrightarrow> stat ! k \<le> t) \<and>
    (t = latest \<or> t \<in> set stat)"
proof (induction stat i n latest rule: flush_loop.induct)
  case (2 stat i n latest)
  obtain t where t: "flush_loop stat (i + 1) n (max latest (stat ! i)) = Some t" "max latest (stat ! i) \<le> t"
    "\<forall>k. i + 1 \<le> k \<and> k < i + 1 + n \<longrightarrow> stat ! k \<le> t" "t = max latest (stat ! i) \<or> t \<in> set stat"
    using "2.IH"[of "stat ! i"] "2.prems" by auto
  have "stat ! k \<le> t" if "i \<le> k" "k < i + Suc n" for k using t(2,3) that by (cases "k = i") auto
  moreover have "t = latest \<or> t \<in> set stat" using t(4) "2.prems" by (auto simp: max_def split: if_splits)
  ultimately show ?case using t "2.prems" by simp
qed auto

lemma schedule_io_units_ok:
  fixes lba start :: u64
  assumes "units_ok dev" "0 < len" "opcode = nvme_cmd_write \<or> opcode = nvme_cmd_read"
  defines "cfg \<equiv> sd_config dev"
  defines "busy \<equiv> sd_io_unit_stat dev ! ((unat lba div 2 ^ (sc_io_unit_shift cfg - 9)) mod sc_nr_io_units cfg)"
  defines "t \<equiv> max start busy + (if opcode = nvme_cmd_write then sc_write_delay cfg else sc_read_delay cfg) +
    of_nat (DIV_ROUND_UP len (2 ^ sc_io_unit_shift cfg)) * (if opcode = nvme_cmd_write then sc_write_time cfg else sc_read_time cfg)"
  shows "\<exists>dev' v. schedule_io_units opcode lba len start dev = Some (dev', t) \<and> units_ok dev' \<and> sd_config dev' = cfg \<and>
    v < length (sd_io_unit_stat dev') \<and>
    sd_io_unit_stat dev' ! v \<in> {t, t + (if opcode = nvme_cmd_write then sc_write_trailing cfg else sc_read_trailing cfg)}"
proof -
  let ?u = "(unat lba div 2 ^ (sc_io_unit_shift cfg - 9)) mod sc_nr_io_units cfg"
  let ?n = "int (min (sc_nr_io_units cfg) (DIV_ROUND_UP len (2 ^ sc_io_unit_shift cfg)))"
  have ok: "9 \<le> sc_io_unit_shift cfg" "sc_io_unit_shift cfg < 32" "0 < sc_nr_io_units cfg"
    "length (sd_io_unit_stat dev) = sc_nr_io_units cfg" "?u < length (sd_io_unit_stat dev)"
    using assms(1) by (auto simp: units_ok_def cfg_def)
  obtain stat v where l: "schedule_loop cfg (if opcode = nvme_cmd_write then sc_write_time cfg else sc_read_time cfg)
      (if opcode = nvme_cmd_write then sc_write_trailing cfg else sc_read_trailing cfg) (sd_io_unit_stat dev) ?u ?n len
      (max start busy + (if opcode = nvme_cmd_write then sc_write_delay cfg else sc_read_delay cfg)) = Some (stat, t)"
    "length stat = length (sd_io_unit_stat dev)" "v < length stat"
    "stat ! v \<in> {t, t + (if opcode = nvme_cmd_write then sc_write_trailing cfg else sc_read_trailing cfg)}"
    using schedule_loop_ok[OF ok(4,5) assms(2)] unfolding t_def by blast
  have "schedule_io_units opcode lba len start dev = Some (dev\<lparr>sd_io_unit_stat := stat\<rparr>, t)"
    using l(1) ok assms(3) unfolding busy_def cfg_def
    by (cases "opcode = nvme_cmd_write") (auto simp: schedule_io_units_def Let_def nvme_cmd_read_def nvme_cmd_write_def)
  then show ?thesis using l ok by (intro exI[of _ "dev\<lparr>sd_io_unit_stat := stat\<rparr>"] exI[of _ v]) (simp add: units_ok_def cfg_def)
qed

section \<open>Properties\<close>

text \<open>The time a read or write of the simple processor completes.\<close>

definition simple_rw_time :: "u64 \<Rightarrow> nvme_command \<Rightarrow> simple_dev \<Rightarrow> u64" where
  "simple_rw_time now c dev =
    (let cfg = sd_config dev; wr = (c_opcode c = nvme_cmd_write);
         first = (unat (c_slba c) div 2 ^ (sc_io_unit_shift cfg - 9)) mod sc_nr_io_units cfg;
         pieces = DIV_ROUND_UP ((c_length c + 1) * 512) (2 ^ sc_io_unit_shift cfg)
     in max now (sd_io_unit_stat dev ! first) + (if wr then sc_write_delay cfg else sc_read_delay cfg) +
        of_nat pieces * (if wr then sc_write_time cfg else sc_read_time cfg))"

definition trailing_time :: "nvme_command \<Rightarrow> simple_dev \<Rightarrow> u64" where
  "trailing_time c dev = (if c_opcode c = nvme_cmd_write then sc_write_trailing (sd_config dev) else sc_read_trailing (sd_config dev))"

lemma word_le_add_no_wrap: "unat x + unat y < 2 ^ LENGTH('a) \<Longrightarrow> x \<le> x + (y :: 'a::len word)"
  by (simp add: word_le_nat_alt unat_word_ariths)

text \<open>C13: A read or write of the simple processor completes at the time its first unit is free, or now if later, plus the
  delay and one latency per piece of the size of a unit.  A flush issued next completes no earlier, unless the clock
  overflows.\<close>

theorem simple_flush_waits:
  assumes "units_ok dev" "base_ssd = MI" "c_opcode (rq_cmd rq) = nvme_cmd_write \<or> c_opcode (rq_cmd rq) = nvme_cmd_read"
    "c_opcode (rq_cmd fl) = nvme_cmd_flush"
    "unat (simple_rw_time now (rq_cmd rq) dev) + unat (trailing_time (rq_cmd rq) dev) < 2 ^ 64"
  shows "\<exists>dev' t. simple_proc_nvme_io_cmd base_ssd now (simple_init_namespace i bytes) rq ret dev =
      Some (dev', ret\<lparr>rs_nsecs_target := simple_rw_time now (rq_cmd rq) dev\<rparr>) \<and> units_ok dev' \<and>
    simple_proc_nvme_io_cmd base_ssd later (simple_init_namespace i bytes) fl ret' dev' = Some (dev', ret'\<lparr>rs_nsecs_target := t\<rparr>) \<and>
    simple_rw_time now (rq_cmd rq) dev \<le> t"
proof -
  let ?c = "rq_cmd rq" and ?t = "simple_rw_time now (rq_cmd rq) dev" and ?tr = "trailing_time (rq_cmd rq) dev"
  obtain dev' v where d: "schedule_io_units (c_opcode ?c) (c_slba ?c) (cmd_io_size ?c) now dev = Some (dev', ?t)"
    "units_ok dev'" "v < length (sd_io_unit_stat dev')" "sd_io_unit_stat dev' ! v \<in> {?t, ?t + ?tr}"
    using schedule_io_units_ok[OF assms(1) _ assms(3), of "cmd_io_size ?c" "c_slba ?c" now]
    unfolding simple_rw_time_def trailing_time_def by (auto simp: cmd_io_size_def Let_def)
  have n: "0 + sc_nr_io_units (sd_config dev') \<le> length (sd_io_unit_stat dev')" "v < sc_nr_io_units (sd_config dev')"
    using d(2,3) by (auto simp: units_ok_def)
  obtain t where t: "schedule_flush dev' = Some t" "sd_io_unit_stat dev' ! v \<le> t"
    using flush_loop_ok[OF n(1), of 0] n(2) by (auto simp: schedule_flush_def)
  have "?t \<le> ?t + ?tr" using assms(5) by (intro word_le_add_no_wrap) simp
  then have "?t \<le> t" using t(2) d(4) by auto
  then show ?thesis
    using d t assms(2-4) unfolding simple_proc_nvme_io_cmd_def
    by (intro exI[of _ dev'] exI[of _ t])
       (auto simp: simple_init_namespace_def nvme_cmd_flush_def nvme_cmd_read_def nvme_cmd_write_def)
qed

definition two_units :: simple_dev where
  "two_units = \<lparr>sd_config = \<lparr>sc_nr_io_units = 2, sc_io_unit_shift = 12, sc_read_delay = 10, sc_read_time = 5, sc_read_trailing = 1,
     sc_write_delay = 20, sc_write_time = 7, sc_write_trailing = 2\<rparr>, sd_io_unit_stat = [100, 300]\<rparr>"

definition simple_request :: "nat \<Rightarrow> u64 \<Rightarrow> nat \<Rightarrow> nvmev_request" where
  "simple_request opcode slba len = \<lparr>rq_cmd = \<lparr>c_opcode = opcode, c_command_id = 0, c_nsid = 1, c_prp1 = 0, c_prp2 = 0,
     c_slba = slba, c_length = len, c_control = 0, c_dsmgmt = 0\<rparr>, rq_sq_id = 1, rq_nsecs_start = 0\<rparr>"

theorem simple_flush_waits_witness:
  "\<exists>dev' t. simple_proc_nvme_io_cmd MI 200 (simple_init_namespace 0 1048576) (simple_request nvme_cmd_write 8 15) 
      \<lparr>rs_status = 0, rs_nsecs_target = 0\<rparr> two_units = Some (dev', \<lparr>rs_status = 0, rs_nsecs_target = 334\<rparr>) \<and> units_ok dev' \<and>
    simple_proc_nvme_io_cmd MI 201 (simple_init_namespace 0 1048576) (simple_request nvme_cmd_flush 0 0)
      \<lparr>rs_status = 0, rs_nsecs_target = 0\<rparr> dev' = Some (dev', \<lparr>rs_status = 0, rs_nsecs_target = t\<rparr>) \<and> 334 \<le> t"
proof -
  have t: "simple_rw_time 200 (rq_cmd (simple_request nvme_cmd_write 8 15)) two_units = 334"
    by (simp add: simple_rw_time_def simple_request_def two_units_def nvme_cmd_write_def DIV_ROUND_UP_def Let_def max_def)
  show ?thesis
    using simple_flush_waits[of two_units MI "simple_request nvme_cmd_write 8 15" "simple_request nvme_cmd_flush 0 0" 200 0 1048576
        "\<lparr>rs_status = 0, rs_nsecs_target = 0\<rparr>" 201 "\<lparr>rs_status = 0, rs_nsecs_target = 0\<rparr>", unfolded t]
    by (simp add: units_ok_def two_units_def trailing_time_def simple_request_def)
qed

end
