(* ===== verification/Io_Copy.thy ===== *)
theory Io_Copy
  imports Prp Zns_Ftl
begin

text \<open>
  The data transfer of a command (src/io.c): the loop over the pages with memory copies, and the variant that collects the
  pages first and hands runs of adjacent pages to a copy engine.
  All host and storage memory is one physical memory; a page is addressed by its physical address.
\<close>

section \<open>State and operations\<close>

record io_mem =
  im_mem :: memory
  im_hugemap_checker :: int
  im_conti_counter :: int
  im_count_page :: int

text \<open>While huge page checking is on, pages after the first are counted, and those that do not follow their predecessor.\<close>

definition count_pages :: "nat option \<Rightarrow> nat \<Rightarrow> io_mem \<Rightarrow> io_mem" where
  "count_pages prev paddr s =
    (case prev of None \<Rightarrow> s
     | Some old \<Rightarrow>
        if im_hugemap_checker s = 1 then
          (let s1 = (if (old + PAGE_SIZE) mod 2 ^ 64 \<noteq> paddr then s\<lparr>im_conti_counter := im_conti_counter s + 1\<rparr> else s)
           in s1\<lparr>im_count_page := im_count_page s1 + 1\<rparr>)
        else s)"

definition moves_in :: "nat \<Rightarrow> bool" where
  "moves_in opcode \<longleftrightarrow> opcode = nvme_cmd_write \<or> opcode = nvme_cmd_zone_append"

definition io_act :: "nat \<Rightarrow> nat \<Rightarrow> nat option \<Rightarrow> nat \<Rightarrow> nat \<Rightarrow> nat \<Rightarrow> io_mem \<Rightarrow> io_mem" where
  "io_act opcode base prev paddr offset n s =
    (let s1 = count_pages prev paddr s
     in if moves_in opcode then s1\<lparr>im_mem := memcpy (im_mem s1) (base + offset) paddr n\<rparr>
        else if opcode = nvme_cmd_read then s1\<lparr>im_mem := memcpy (im_mem s1) paddr (base + offset) n\<rparr>
        else s1)"

definition io_offset :: "nvme_command \<Rightarrow> nat" where
  "io_offset c = (unat (c_slba c) * 512) mod 2 ^ 64"

definition io_length :: "nvme_command \<Rightarrow> nat" where
  "io_length c = (c_length c + 1) * 512"

text \<open>\<open>ns_mapped\<close> holds where the storage of each namespace starts; it is looked at only by commands that move data.\<close>

definition do_perform_io :: "nat list \<Rightarrow> nvme_command \<Rightarrow> io_mem \<Rightarrow> (io_mem \<times> nat) option" where
  "do_perform_io ns_mapped c s = do {
     base \<leftarrow> (if moves_in (c_opcode c) \<or> c_opcode c = nvme_cmd_read then array_read ns_mapped ((c_nsid c + (2 ^ 32 - 1)) mod 2 ^ 32)
             else Some 0);
     s' \<leftarrow> prp_walk im_mem (io_act (c_opcode c) base) (c_prp1 c) (c_prp2 c) 0 0 None None (io_offset c) (io_length c) s;
     Some (s', io_length c)
   }"

text \<open>The variant for the copy engine first collects the addresses in an array of 513 entries, of which entry 0 is
  not used.\<close>

function dma_collect ::
  "nat \<Rightarrow> nat \<Rightarrow> nat list \<Rightarrow> nat \<Rightarrow> nat \<Rightarrow> nat option \<Rightarrow> nat option \<Rightarrow> nat \<Rightarrow> io_mem \<Rightarrow> (nat list \<times> nat \<times> io_mem) option" where
  "dma_collect prp1 prp2 paddr_list prp_offs prp2_offs lst prev remaining s =
    (if remaining = 0 then Some (paddr_list, prp_offs, s)
     else do {
       (paddr, prp2_offs', lst') \<leftarrow> prp_fetch (im_mem s) prp1 prp2 (prp_offs + 1) prp2_offs lst remaining;
       paddr_list' \<leftarrow> array_write paddr_list (prp_offs + 1) paddr;
       dma_collect prp1 prp2 paddr_list' (prp_offs + 1) prp2_offs' lst' (Some paddr) (remaining - piece_size remaining paddr)
         (count_pages prev paddr s)
     })"
  by pat_completeness auto
termination by (relation "measure (\<lambda>(_, _, _, _, _, _, _, remaining, _). remaining)") (auto intro!: diff_less piece_size_pos)

declare dma_collect.simps [simp del]

text \<open>\<^verbatim>\<open>for (prp_offs++; prp_offs <= num_prps; prp_offs++)\<close>: extend the piece by whole pages while addresses follow on.\<close>

function dma_merge :: "nat list \<Rightarrow> nat \<Rightarrow> nat \<Rightarrow> nat \<Rightarrow> (nat \<times> nat) option" where
  "dma_merge paddr_list num_prps prp_offs page_size =
    (if prp_offs \<le> num_prps then do {
       p \<leftarrow> array_read paddr_list prp_offs;
       q \<leftarrow> array_read paddr_list (prp_offs - 1);
       (if p = (q + PAGE_SIZE) mod 2 ^ 64 then dma_merge paddr_list num_prps (prp_offs + 1) (page_size + PAGE_SIZE)
        else Some (prp_offs, page_size))
     }
     else Some (prp_offs, page_size))"
  by pat_completeness auto
termination by (relation "measure (\<lambda>(_, num, i, _). Suc num - i)") auto

declare dma_merge.simps [simp del]

lemma dma_merge_ge: "dma_merge ps num i n = Some (i', n') \<Longrightarrow> n \<le> n'"
proof (induction ps num i n rule: dma_merge.induct)
  case (1 ps num i n)
  from "1.prems" consider "n' = n"
    | p q where "i \<le> num" "array_read ps i = Some p" "array_read ps (i - 1) = Some q" "p = (q + PAGE_SIZE) mod 2 ^ 64"
      "dma_merge ps num (i + 1) (n + PAGE_SIZE) = Some (i', n')"
    by (subst (asm) dma_merge.simps) (auto split: if_splits bind_splits)
  then show ?case
  proof cases
    case 2
    then show ?thesis using "1.IH"[of p q] by simp
  qed simp
qed

lemma piece_left_less: "0 < remaining \<Longrightarrow> piece_size remaining p \<le> n \<Longrightarrow> remaining - min remaining n < remaining"
  using piece_size_pos[of remaining p] by (simp add: min_def)

text \<open>\<open>submit\<close> is the copy engine: memory, source, destination and number of bytes.\<close>

function dma_move ::
  "(memory \<Rightarrow> nat \<Rightarrow> nat \<Rightarrow> nat \<Rightarrow> memory) \<Rightarrow> nat \<Rightarrow> nat \<Rightarrow> nat list \<Rightarrow> nat \<Rightarrow> nat \<Rightarrow> nat \<Rightarrow> nat \<Rightarrow> memory \<Rightarrow> memory option" where
  "dma_move submit opcode storage_start paddr_list num_prps prp_offs offset remaining m =
    (if remaining = 0 then Some m
     else case array_read paddr_list prp_offs of None \<Rightarrow> None
     | Some paddr \<Rightarrow>
       (case dma_merge paddr_list num_prps (prp_offs + 1) (piece_size remaining paddr) of None \<Rightarrow> None
        | Some (prp_offs', page_size) \<Rightarrow>
           let io_size = min remaining page_size;
               m' = (if moves_in opcode then submit m paddr (storage_start + offset) io_size
                     else if opcode = nvme_cmd_read then submit m (storage_start + offset) paddr io_size
                     else m)
           in dma_move submit opcode storage_start paddr_list num_prps prp_offs' (offset + io_size) (remaining - io_size) m'))"
  by pat_completeness auto
termination
  by (relation "measure (\<lambda>(_, _, _, _, _, _, _, remaining, _). remaining)")
     (auto dest!: dma_merge_ge intro: piece_left_less)

declare dma_move.simps [simp del]

text \<open>The engine works on the storage of the device, not on that of the namespace.\<close>

definition do_perform_io_using_dma ::
  "(memory \<Rightarrow> nat \<Rightarrow> nat \<Rightarrow> nat \<Rightarrow> memory) \<Rightarrow> nat \<Rightarrow> nvme_command \<Rightarrow> io_mem \<Rightarrow> (io_mem \<times> nat) option" where
  "do_perform_io_using_dma submit storage_start c s = do {
     (paddr_list, num_prps, s1) \<leftarrow> dma_collect (c_prp1 c) (c_prp2 c) (replicate 513 0) 0 0 None None (io_length c) s;
     m \<leftarrow> dma_move submit (c_opcode c) storage_start paddr_list num_prps 1 (io_offset c) (io_length c) (im_mem s1);
     Some (s1\<lparr>im_mem := m\<rparr>, io_length c)
   }"

section \<open>The actions keep the contract\<close>

lemma count_pages_mem [simp]: "im_mem (count_pages prev paddr s) = im_mem s"
  by (simp add: count_pages_def Let_def split: option.split)

interpretation io_in: prp_copy im_mem "io_act nvme_cmd_write base" base False for base
  by unfold_locales (simp add: io_act_def Let_def moves_in_def)

interpretation io_append: prp_copy im_mem "io_act nvme_cmd_zone_append base" base False for base
  by unfold_locales (simp add: io_act_def Let_def moves_in_def)

interpretation io_out: prp_copy im_mem "io_act nvme_cmd_read base" base True for base
  by unfold_locales (simp add: io_act_def Let_def moves_in_def nvme_cmd_read_def nvme_cmd_write_def nvme_cmd_zone_append_def)

section \<open>Correctness of the copy loop\<close>

text \<open>The addresses of a command: byte \<open>k\<close> of its host buffer and of its place in the storage at \<open>base\<close>.\<close>

abbreviation host_byte :: "memory \<Rightarrow> nvme_command \<Rightarrow> nat \<Rightarrow> nat" where
  "host_byte m c \<equiv> prp_byte m (c_prp1 c) (c_prp2 c) (io_length c)"

abbreviation disk_byte :: "nat \<Rightarrow> nvme_command \<Rightarrow> nat \<Rightarrow> nat" where
  "disk_byte base c k \<equiv> base + io_offset c + k"

text \<open>A command whose pages are aligned and apart from each other, from the list that names them and from the storage.\<close>

definition transfer_ok :: "memory \<Rightarrow> nat \<Rightarrow> nvme_command \<Rightarrow> bool" where
  "transfer_ok m base c \<longleftrightarrow> prp_valid m (c_prp1 c) (c_prp2 c) (io_length c) \<and>
     inj_on (host_byte m c) {..<io_length c} \<and>
     host_byte m c ` {..<io_length c} \<inter> disk_byte base c ` {..<io_length c} = {} \<and>
     prp_list_area (c_prp1 c) (c_prp2 c) (io_length c) \<inter> (host_byte m c ` {..<io_length c} \<union> disk_byte base c ` {..<io_length c}) = {}"

lemma inj_disk_byte: "inj_on (disk_byte base c) A"
  by (simp add: inj_on_def)

lemma do_perform_write:
  assumes "transfer_ok (im_mem s) base c" "moves_in (c_opcode c)" "c_nsid c = Suc i" "i < length ns_mapped" "ns_mapped ! i = base" "Suc i < 2 ^ 32"
  shows "\<exists>s'. do_perform_io ns_mapped c s = Some (s', io_length c) \<and>
    copied (host_byte (im_mem s) c) (disk_byte base c) (io_length c) (im_mem s) (im_mem s')"
proof -
  have nsid: "(c_nsid c + (2 ^ 32 - 1)) mod 2 ^ 32 = i" using assms(3,6) by simp
  have t: "prp_valid (im_mem s) (c_prp1 c) (c_prp2 c) (io_length c)"
    "host_byte (im_mem s) c ` {..<io_length c} \<inter> disk_byte base c ` {..<io_length c} = {}"
    "prp_list_area (c_prp1 c) (c_prp2 c) (io_length c) \<inter> disk_byte base c ` {..<io_length c} = {}"
    using assms(1) by (auto simp: transfer_ok_def)
  have "\<exists>s'. prp_walk im_mem (io_act (c_opcode c) base) (c_prp1 c) (c_prp2 c) 0 0 None None (io_offset c) (io_length c) s = Some s' \<and>
      copied (host_byte (im_mem s) c) (disk_byte base c) (io_length c) (im_mem s) (im_mem s')"
    using assms(2) io_in.walk_copies[of s "c_prp1 c" "c_prp2 c" "io_length c" base "io_offset c" None]
      io_append.walk_copies[of s "c_prp1 c" "c_prp2 c" "io_length c" base "io_offset c" None] t inj_disk_byte
    by (auto simp: moves_in_def io_in.src_byte_def[abs_def] io_in.dst_byte_def[abs_def] io_append.src_byte_def[abs_def] io_append.dst_byte_def[abs_def])
  then show ?thesis using nsid assms(2,4,5) by (auto simp: do_perform_io_def)
qed

lemma do_perform_read:
  assumes "transfer_ok (im_mem s) base c" "c_opcode c = nvme_cmd_read" "c_nsid c = Suc i" "i < length ns_mapped" "ns_mapped ! i = base" "Suc i < 2 ^ 32"
  shows "\<exists>s'. do_perform_io ns_mapped c s = Some (s', io_length c) \<and>
    copied (disk_byte base c) (host_byte (im_mem s) c) (io_length c) (im_mem s) (im_mem s')"
proof -
  have nsid: "(c_nsid c + (2 ^ 32 - 1)) mod 2 ^ 32 = i" using assms(3,6) by simp
  have t: "prp_valid (im_mem s) (c_prp1 c) (c_prp2 c) (io_length c)" "inj_on (host_byte (im_mem s) c) {..<io_length c}"
    "disk_byte base c ` {..<io_length c} \<inter> host_byte (im_mem s) c ` {..<io_length c} = {}"
    "prp_list_area (c_prp1 c) (c_prp2 c) (io_length c) \<inter> host_byte (im_mem s) c ` {..<io_length c} = {}"
    using assms(1) by (auto simp: transfer_ok_def)
  have "\<exists>s'. prp_walk im_mem (io_act (c_opcode c) base) (c_prp1 c) (c_prp2 c) 0 0 None None (io_offset c) (io_length c) s = Some s' \<and>
      copied (disk_byte base c) (host_byte (im_mem s) c) (io_length c) (im_mem s) (im_mem s')"
    using assms(2) io_out.walk_copies[of s "c_prp1 c" "c_prp2 c" "io_length c" base "io_offset c" None] t
    by (simp add: io_out.src_byte_def[abs_def] io_out.dst_byte_def[abs_def])
  then show ?thesis using nsid assms(2,4,5) by (auto simp: do_perform_io_def)
qed

section \<open>Correctness of the variant for the copy engine\<close>

lemma piece_in_page: "paddr mod PAGE_SIZE + piece_size remaining paddr \<le> PAGE_SIZE"
proof -
  have "paddr mod PAGE_SIZE < PAGE_SIZE" by simp
  then show ?thesis unfolding piece_size_def Let_def by (auto simp del: mod_less_divisor)
qed

lemma div_within:
  assumes "(a :: nat) mod p + d < p"
  shows "(a + d) div p = a div p"
proof -
  have e: "a + d = (a mod p + d) + p * (a div p)" using mod_mult_div_eq[of a p] by simp
  have "((a mod p + d) + p * (a div p)) div p = a div p + (a mod p + d) div p"
    using assms by (intro div_mult_self2) simp
  then show ?thesis unfolding e using assms by simp
qed

lemma dma_collect_ok:
  assumes v: "prp_valid m prp1 prp2 len" and P: "page_no prp1 (len - 1) < 512"
  shows "page_start prp1 k \<Longrightarrow> k < len \<Longrightarrow> length ps = 513 \<Longrightarrow> im_mem s = m \<Longrightarrow>
    \<exists>ps' s'. dma_collect prp1 prp2 ps (page_no prp1 k) (page_no prp1 k - 1) (list_ptr prp2 (page_no prp1 k)) prev (len - k) s =
      Some (ps', Suc (page_no prp1 (len - 1)), s') \<and> im_mem s' = m \<and> length ps' = 513 \<and>
    (\<forall>j\<le>page_no prp1 k. ps' ! j = ps ! j) \<and>
    (\<forall>i. k \<le> i \<and> i < len \<and> page_start prp1 i \<longrightarrow> ps' ! Suc (page_no prp1 i) = prp_byte m prp1 prp2 len i)"
proof (induction "len - k" arbitrary: k s prev ps rule: less_induct)
  case less
  let ?p = "prp_byte m prp1 prp2 len" and ?j = "page_no prp1 k"
  define n where "n = piece_size (len - k) (?p k)"
  have n: "0 < n" "k + n \<le> len" using piece_size_pos[of "len - k" "?p k"] piece_size_le[of "len - k" "?p k"] less.prems(2) by (auto simp: n_def)
  note run = piece_run[OF v less.prems(1,2), folded n_def]
  have j: "?j \<le> page_no prp1 (len - 1)" using less.prems(2) by (intro div_le_mono) simp
  then have jl: "Suc ?j < length ps" using P less.prems(3) by simp
  obtain p2 l where f: "prp_fetch (im_mem s) prp1 prp2 (?j + 1) (?j - 1) (list_ptr prp2 ?j) (len - k) = Some (?p k, p2, l)"
    "page_start prp1 (k + n) \<and> k + n < len \<and> page_no prp1 (k + n) = Suc ?j \<longrightarrow> p2 = ?j \<and> l = list_ptr prp2 (Suc ?j)"
    using prp_fetch_ok[OF v less.prems(1,2), of "im_mem s" "k + n"] less.prems(4) by blast
  let ?ps = "ps[Suc ?j := ?p k]" and ?s = "count_pages prev (?p k) s"
  have w: "dma_collect prp1 prp2 ps ?j (?j - 1) (list_ptr prp2 ?j) prev (len - k) s =
      dma_collect prp1 prp2 ?ps (Suc ?j) p2 l (Some (?p k)) (len - (k + n)) ?s"
    using less.prems(2) f(1) jl by (subst dma_collect.simps) (simp add: n_def)
  have only: "i = k" if "k \<le> i" "i < len" "page_start prp1 i" "i < k + n" for i
  proof (rule ccontr)
    assume "i \<noteq> k"
    then have i: "i - k < n" "0 < i - k" "i \<noteq> 0" using that by auto
    have "?p i = ?p k + (i - k)" using run(2)[OF i(1)] that(1) by simp
    moreover have "?p i mod PAGE_SIZE = 0" using prp_byte_page[OF v that(3,2)] i(3) by simp
    moreover have "?p k mod PAGE_SIZE + (i - k) < PAGE_SIZE"
      using i(1) piece_in_page[of "?p k" "len - k"] unfolding n_def by linarith
    ultimately have "?p k mod PAGE_SIZE + (i - k) = 0" by (metis mod_add_left_eq mod_less)
    then show False using i(2) by simp
  qed
  show ?case
  proof (cases "k + n = len")
    case True
    have "page_no prp1 (k + (n - 1)) = ?j"
    proof -
      have "(prp1 mod PAGE_SIZE + k) mod PAGE_SIZE = ?p k mod PAGE_SIZE"
        using prp_byte_page[OF v less.prems(1,2)] less.prems(1) by (auto simp: page_start_def)
      moreover have "?p k mod PAGE_SIZE + n \<le> PAGE_SIZE"
        unfolding n_def by (rule piece_in_page)
      ultimately show ?thesis using div_within[of "prp1 mod PAGE_SIZE + k" PAGE_SIZE "n - 1"] n(1) by (simp add: add.assoc)
    qed
    moreover have "k + (n - 1) = len - 1" using True n(1) by simp
    ultimately have last: "page_no prp1 (len - 1) = ?j" by simp
    have at: "?ps ! Suc (page_no prp1 i) = ?p i" if "k \<le> i" "i < len" "page_start prp1 i" for i
      using only[OF that] that True jl by simp
    have "dma_collect prp1 prp2 ?ps (Suc ?j) p2 l (Some (?p k)) (len - (k + n)) ?s = Some (?ps, Suc ?j, ?s)"
      unfolding True by (subst dma_collect.simps) simp
    then show ?thesis unfolding w last using at less.prems(3,4) by (intro exI[of _ ?ps] exI[of _ ?s]) auto
  next
    case False
    then have nx: "page_start prp1 (k + n)" "page_no prp1 (k + n) = Suc ?j" "k + n < len" using run(1) n(2) by auto
    then have pl: "p2 = ?j" "l = list_ptr prp2 (Suc ?j)" using f(2) by auto
    have m: "im_mem ?s = m" "length ?ps = 513" using less.prems(3,4) by simp_all
    have "len - (k + n) < len - k" using nx(3) n(1) by simp
    from less.hyps[OF this nx(1,3) m(2,1), of "Some (?p k)"]
    obtain ps' s' where r: "dma_collect prp1 prp2 ?ps (Suc ?j) ?j (list_ptr prp2 (Suc ?j)) (Some (?p k)) (len - (k + n)) ?s =
        Some (ps', Suc (page_no prp1 (len - 1)), s')" "im_mem s' = m" "length ps' = 513"
      "\<forall>j\<le>Suc ?j. ps' ! j = ?ps ! j"
      "\<forall>i. k + n \<le> i \<and> i < len \<and> page_start prp1 i \<longrightarrow> ps' ! Suc (page_no prp1 i) = ?p i"
      unfolding nx(2) by auto
    have "ps' ! Suc (page_no prp1 i) = ?p i" if "k \<le> i" "i < len" "page_start prp1 i" for i
      using r(4,5) only[OF that] that jl by (cases "k + n \<le> i") auto
    moreover have "\<forall>j\<le>?j. ps' ! j = ps ! j" using r(4) by simp
    ultimately show ?thesis using w pl r(1-3) by auto
  qed
qed

text \<open>The addresses collected for a transfer: entry \<open>j + 1\<close> is where page \<open>j\<close> starts, and none is near the end of the
  64-bit address space.\<close>

definition collected :: "memory \<Rightarrow> nat \<Rightarrow> nat \<Rightarrow> nat \<Rightarrow> nat list \<Rightarrow> bool" where
  "collected m prp1 prp2 len ps \<longleftrightarrow> Suc (page_no prp1 (len - 1)) < length ps \<and>
     (\<forall>i<len. page_start prp1 i \<longrightarrow> ps ! Suc (page_no prp1 i) = prp_byte m prp1 prp2 len i \<and> prp_byte m prp1 prp2 len i + PAGE_SIZE < 2 ^ 64)"

text \<open>What merging keeps: the piece that starts at byte \<open>k\<close> and has \<open>n\<close> bytes so far is one run of host addresses and
  ends with the page that starts at byte \<open>k'\<close>.\<close>

definition merged :: "memory \<Rightarrow> nat \<Rightarrow> nat \<Rightarrow> nat \<Rightarrow> nat \<Rightarrow> nat \<Rightarrow> nat \<Rightarrow> bool" where
  "merged m prp1 prp2 len k k' n \<longleftrightarrow> page_start prp1 k' \<and> k \<le> k' \<and> k' < len \<and> k' - k < n \<and>
     (\<forall>i<n. k + i < len \<longrightarrow> prp_byte m prp1 prp2 len (k + i) = prp_byte m prp1 prp2 len k + i) \<and>
     (let e = k' + piece_size (len - k') (prp_byte m prp1 prp2 len k') in
        if e = len then len \<le> k + n else k + n = e)"

lemma merged_next:
  assumes v: "prp_valid m prp1 prp2 len" and M: "merged m prp1 prp2 len k k' n"
    and e: "k + n < len" and adj: "prp_byte m prp1 prp2 len (k + n) = prp_byte m prp1 prp2 len k' + PAGE_SIZE"
  shows "merged m prp1 prp2 len k (k + n) (n + PAGE_SIZE)"
proof -
  let ?p = "prp_byte m prp1 prp2 len"
  define d where "d = piece_size (len - k') (?p k')"
  have k': "page_start prp1 k'" "k \<le> k'" "k' < len" "k' - k < n" using M by (auto simp: merged_def)
  have kn: "k + n = k' + d" "k' + d \<noteq> len" using M e unfolding merged_def Let_def d_def[symmetric] by (auto split: if_splits)
  note run = piece_run[OF v k'(1,3), folded d_def]
  have ps: "page_start prp1 (k + n)" using run(1) kn by auto
  have nz: "k + n \<noteq> 0" using k'(4) by simp
  have "?p (k + n) mod PAGE_SIZE = 0" using prp_byte_page[OF v ps e] unfolding if_not_P[OF nz] .
  then have al: "?p k' mod PAGE_SIZE = 0" using adj by simp
  have "d = min (len - k') PAGE_SIZE" unfolding d_def piece_size_def Let_def al by simp
  moreover have "d \<noteq> len - k'" using kn(2) k'(3) by (metis le_add_diff_inverse less_imp_le)
  ultimately have d: "d = PAGE_SIZE" by linarith
  have seq: "?p (k + i) = ?p k + i" if "i < n" "k + i < len" for i using M that unfolding merged_def by simp
  have "?p (k + (k' - k)) = ?p k + (k' - k)" using k' by (intro seq) auto
  then have pk': "?p k' = ?p k + (k' - k)" using k'(2) by simp
  have pn: "?p (k + n) = ?p k + n" using adj pk' kn(1) d k'(2) by linarith
  define d2 where "d2 = piece_size (len - (k + n)) (?p (k + n))"
  note run2 = piece_run[OF v ps e, folded d2_def]
  have d2: "d2 = min (len - (k + n)) PAGE_SIZE"
    using \<open>?p (k + n) mod PAGE_SIZE = 0\<close> unfolding d2_def piece_size_def Let_def by simp
  have "?p (k + i) = ?p k + i" if i: "i < n + PAGE_SIZE" "k + i < len" for i
  proof (cases "i < n")
    case True
    then show ?thesis using seq i(2) by blast
  next
    case False
    then have "i - n < d2" using i d2 by auto
    then have "?p (k + n + (i - n)) = ?p (k + n) + (i - n)" by (rule run2(2))
    then show ?thesis using False pn by simp
  qed
  moreover have "if k + n + d2 = len then len \<le> k + (n + PAGE_SIZE) else k + (n + PAGE_SIZE) = k + n + d2"
    using d2 e by (auto simp: min_def split: if_splits)
  ultimately show ?thesis unfolding merged_def Let_def d2_def[symmetric] using ps e k'(2,4) by auto
qed

lemma dma_merge_ok:
  assumes v: "prp_valid m prp1 prp2 len" and c: "collected m prp1 prp2 len ps"
  shows "merged m prp1 prp2 len k k' n \<Longrightarrow> i = Suc (Suc (page_no prp1 k')) \<Longrightarrow>
    \<exists>i' k'' n'. dma_merge ps (Suc (page_no prp1 (len - 1))) i n = Some (i', n') \<and> merged m prp1 prp2 len k k'' n' \<and>
      i' = Suc (Suc (page_no prp1 k''))"
proof (induction "Suc (Suc (page_no prp1 (len - 1))) - i" arbitrary: i n k' rule: less_induct)
  case less
  let ?p = "prp_byte m prp1 prp2 len" and ?P = "Suc (page_no prp1 (len - 1))"
  have k': "page_start prp1 k'" "k \<le> k'" "k' < len" using less.prems(1) by (auto simp: merged_def)
  show ?case
  proof (cases "i \<le> ?P")
    case False
    then have "dma_merge ps ?P i n = Some (i, n)" by (subst dma_merge.simps) simp
    then show ?thesis using less.prems by blast
  next
    case True
    define d where "d = piece_size (len - k') (?p k')"
    note run = piece_run[OF v k'(1,3), folded d_def]
    have "k' + d \<noteq> len"
    proof
      assume a: "k' + d = len"
      have "(prp1 mod PAGE_SIZE + k') mod PAGE_SIZE = ?p k' mod PAGE_SIZE"
        using prp_byte_page[OF v k'(1,3)] k'(1) by (auto simp: page_start_def)
      moreover have "?p k' mod PAGE_SIZE + d \<le> PAGE_SIZE" unfolding d_def by (rule piece_in_page)
      moreover have "0 < d" using piece_size_pos[of "len - k'"] k'(3) by (simp add: d_def)
      ultimately have "page_no prp1 (k' + (d - 1)) = page_no prp1 k'"
        using div_within[of "prp1 mod PAGE_SIZE + k'" PAGE_SIZE "d - 1"] by (simp add: add.assoc)
      moreover have ke: "k' + (d - 1) = len - 1" using a \<open>0 < d\<close> by simp
      ultimately show False using True less.prems(2) unfolding ke by linarith
    qed
    then have e: "k + n = k' + d" "k + n < len" "page_start prp1 (k + n)" "page_no prp1 (k + n) = Suc (page_no prp1 k')"
      using less.prems(1) run(1) piece_size_le[of "len - k'" "?p k'"] k'(3)
      unfolding merged_def Let_def d_def[symmetric] by (auto split: if_splits)
    have at: "ps ! i = ?p (k + n)" "ps ! (i - 1) = ?p k'" "?p k' + PAGE_SIZE < 2 ^ 64"
      using c e k' less.prems(2) unfolding collected_def by auto
    have len: "i < length ps" using c True by (auto simp: collected_def)
    show ?thesis
    proof (cases "?p (k + n) = ?p k' + PAGE_SIZE")
      case adj: True
      have M: "merged m prp1 prp2 len k (k + n) (n + PAGE_SIZE)" by (rule merged_next[OF v less.prems(1) e(2) adj])
      have "dma_merge ps ?P i n = dma_merge ps ?P (i + 1) (n + PAGE_SIZE)"
        using True len at adj by (subst dma_merge.simps) (simp del: One_nat_def)
      moreover have "Suc ?P - (i + 1) < Suc ?P - i" using True by linarith
      ultimately show ?thesis using less.hyps[OF _ M, of "i + 1"] e(4) less.prems(2) by simp
    next
      case False
      then have "dma_merge ps ?P i n = Some (i, n)"
        using True len at by (subst dma_merge.simps) (simp del: One_nat_def)
      then show ?thesis using less.prems by blast
    qed
  qed
qed

lemma dma_move_ok:
  assumes v: "prp_valid m prp1 prp2 len" and c: "collected m prp1 prp2 len ps"
    and submit: "\<And>x from to n. submit x from to n = memcpy x to from n"
    and dir: "moves_in opcode \<and> src = prp_byte m prp1 prp2 len \<and> dst = (\<lambda>k. base + offset + k) \<or>
      opcode = nvme_cmd_read \<and> dst = prp_byte m prp1 prp2 len \<and> src = (\<lambda>k. base + offset + k)"
    and inj: "inj_on dst {..<len}" and sep: "src ` {..<len} \<inter> dst ` {..<len} = {}"
  shows "page_start prp1 k \<Longrightarrow> k < len \<Longrightarrow> copied src dst k m m' \<Longrightarrow>
    \<exists>m''. dma_move submit opcode base ps (Suc (page_no prp1 (len - 1))) (Suc (page_no prp1 k)) (offset + k) (len - k) m' = Some m'' \<and>
      copied src dst len m m''"
proof (induction "len - k" arbitrary: k m' rule: less_induct)
  case less
  let ?p = "prp_byte m prp1 prp2 len" and ?P = "Suc (page_no prp1 (len - 1))"
  define d where "d = piece_size (len - k) (?p k)"
  have dpos: "0 < d" using piece_size_pos[of "len - k"] less.prems(2) by (simp add: d_def)
  have "merged m prp1 prp2 len k k d"
    using piece_run(2)[OF v less.prems(1,2)] dpos less.prems(1,2) unfolding merged_def Let_def d_def[symmetric] by auto
  from dma_merge_ok[OF v c this refl]
  obtain i' k'' n' where mg: "dma_merge ps ?P (Suc (Suc (page_no prp1 k))) d = Some (i', n')"
    and M: "merged m prp1 prp2 len k k'' n'" and i': "i' = Suc (Suc (page_no prp1 k''))" by blast
  define n where "n = min (len - k) n'"
  have n: "0 < n" "k + n \<le> len" using less.prems(2) dpos dma_merge_ge[OF mg] by (auto simp: n_def)
  have run: "?p (k + i) = ?p k + i" if "i < n" for i using M that unfolding merged_def n_def by auto
  have at: "array_read ps (Suc (page_no prp1 k)) = Some (?p k)"
  proof -
    have "page_no prp1 k \<le> page_no prp1 (len - 1)" using less.prems(2) by (intro div_le_mono) simp
    then have "Suc (page_no prp1 k) < length ps" using c by (simp add: collected_def)
    then show ?thesis using c less.prems(1,2) by (simp add: collected_def)
  qed
  let ?m = "memcpy m' (dst k) (src k) n"
  have cp: "copied src dst (k + n) m ?m"
    using dir run by (intro copied_step[OF less.prems(3) n(2) _ inj sep]) auto
  have m: "(if moves_in opcode then submit m' (?p k) (base + (offset + k)) n
      else if opcode = nvme_cmd_read then submit m' (base + (offset + k)) (?p k) n else m') = ?m"
    using dir by (auto simp: submit add.assoc moves_in_def nvme_cmd_read_def nvme_cmd_write_def nvme_cmd_zone_append_def)
  have w: "dma_move submit opcode base ps ?P (Suc (page_no prp1 k)) (offset + k) (len - k) m' =
      dma_move submit opcode base ps ?P i' (offset + (k + n)) (len - (k + n)) ?m"
    using less.prems(2) at mg
    by (subst dma_move.simps) (simp add: d_def[symmetric] Let_def add.assoc m[symmetric, unfolded n_def] n_def split del: if_split)
  show ?case
  proof (cases "k + n = len")
    case True
    then show ?thesis using w cp by (simp add: dma_move.simps)
  next
    case False
    define d' where "d' = piece_size (len - k'') (?p k'')"
    have k'': "page_start prp1 k''" "k'' < len" using M by (auto simp: merged_def)
    have "n = n'" "k + n' = k'' + d'" "k'' + d' \<noteq> len"
      using False n(2) M unfolding n_def merged_def Let_def d'_def[symmetric] by (auto simp: min_def split: if_splits)
    then have nx: "page_start prp1 (k + n)" "i' = Suc (page_no prp1 (k + n))" "k + n < len"
      using piece_run(1)[OF v k'', folded d'_def] i' False n(2) by auto
    have "len - (k + n) < len - k" using nx(3) n(1) by simp
    from less.hyps[OF this nx(1,3) cp] show ?thesis using w nx(2) by simp
  qed
qed

section \<open>Properties\<close>

lemma prp_same_list:
  assumes "\<And>a. a \<in> prp_list_area prp1 prp2 len \<Longrightarrow> m' a = m a"
  shows "prp_valid m' prp1 prp2 len = prp_valid m prp1 prp2 len" "k < len \<Longrightarrow> prp_byte m' prp1 prp2 len k = prp_byte m prp1 prp2 len k"
proof -
  have r: "read64 m' (prp2 + 8 * j) = read64 m (prp2 + 8 * j)" if "j < prp_entries prp1 len" for j
    using that by (intro read64_cong assms) (auto simp: prp_list_area_def)
  then show "prp_valid m' prp1 prp2 len = prp_valid m prp1 prp2 len" by (simp add: prp_valid_def)
  show "prp_byte m' prp1 prp2 len k = prp_byte m prp1 prp2 len k" if "k < len"
    using r[of "page_no prp1 k - 1"] page_no_less[OF that, of prp1] unfolding prp_byte_def Let_def
    by (cases "prp1 mod PAGE_SIZE + len \<le> 2 * PAGE_SIZE"; cases "page_no prp1 k = 0") auto
qed

lemma copied_transfer_ok:
  assumes "copied src (disk_byte base c) (io_length c) m m'" "transfer_ok m base c"
  shows "transfer_ok m' base c" "k < io_length c \<Longrightarrow> host_byte m' c k = host_byte m c k"
proof -
  have "m' a = m a" if "a \<in> prp_list_area (c_prp1 c) (c_prp2 c) (io_length c)" for a
    using assms that by (auto simp: copied_def transfer_ok_def)
  note sl = prp_same_list[of "c_prp1 c" "c_prp2 c" "io_length c" m' m, OF this]
  show h: "host_byte m' c k = host_byte m c k" if "k < io_length c" for k using sl(2)[OF _ that] by blast
  have "host_byte m' c ` {..<io_length c} = host_byte m c ` {..<io_length c}"
    "inj_on (host_byte m' c) {..<io_length c} = inj_on (host_byte m c) {..<io_length c}"
    using h by (auto simp: inj_on_def image_def)
  then show "transfer_ok m' base c" using assms(2) sl(1) unfolding transfer_ok_def by auto
qed

text \<open>C14: Data written to the storage by one command and read back by another of the same range arrives in the second
  command's buffer, byte for byte, whatever pages and page lists the two commands use, and no memory outside the storage
  range and the second buffer changes.\<close>

theorem io_roundtrip:
  assumes "moves_in (c_opcode cw)" "c_opcode cr = nvme_cmd_read" "c_slba cr = c_slba cw" "c_length cr = c_length cw"
    "c_nsid cw = 1" "c_nsid cr = 1" "transfer_ok (im_mem s) base cw" "transfer_ok (im_mem s) base cr"
  shows "\<exists>s1 s2. do_perform_io [base] cw s = Some (s1, io_length cw) \<and> do_perform_io [base] cr s1 = Some (s2, io_length cr) \<and>
    (\<forall>k<io_length cw. im_mem s2 (host_byte (im_mem s) cr k) = im_mem s (host_byte (im_mem s) cw k)) \<and>
    (\<forall>a. a \<notin> disk_byte base cw ` {..<io_length cw} \<and> a \<notin> host_byte (im_mem s) cr ` {..<io_length cr} \<longrightarrow> im_mem s2 a = im_mem s a)"
proof -
  have eq: "io_length cr = io_length cw" "disk_byte base cr = disk_byte base cw" using assms(3,4) by (auto simp: io_length_def io_offset_def)
  obtain s1 where 1: "do_perform_io [base] cw s = Some (s1, io_length cw)"
    "copied (host_byte (im_mem s) cw) (disk_byte base cw) (io_length cw) (im_mem s) (im_mem s1)"
    using do_perform_write[OF assms(7,1), of 0 "[base]"] assms(5) by auto
  note t = copied_transfer_ok[OF 1(2)[folded eq] assms(8)]
  obtain s2 where 2: "do_perform_io [base] cr s1 = Some (s2, io_length cr)"
    "copied (disk_byte base cr) (host_byte (im_mem s1) cr) (io_length cr) (im_mem s1) (im_mem s2)"
    using do_perform_read[OF t(1) assms(2), of 0 "[base]"] assms(6) by auto
  have img: "host_byte (im_mem s1) cr ` {..<io_length cr} = host_byte (im_mem s) cr ` {..<io_length cr}"
    using t(2) by (auto simp: image_def)
  have "im_mem s2 (host_byte (im_mem s) cr k) = im_mem s (host_byte (im_mem s) cw k)" if "k < io_length cw" for k
    using 1(2) 2(2) t(2)[of k] that eq by (auto simp: copied_def)
  moreover have "im_mem s2 a = im_mem s a"
    if "a \<notin> disk_byte base cw ` {..<io_length cw}" "a \<notin> host_byte (im_mem s) cr ` {..<io_length cr}" for a
    using 1(2) 2(2) that img by (auto simp: copied_def)
  ultimately show ?thesis using 1(1) 2(1) by blast
qed

text \<open>Samples: commands whose buffer is one page.\<close>

definition page_command :: "nat \<Rightarrow> nat \<Rightarrow> nvme_command" where
  "page_command opcode page = \<lparr>c_opcode = opcode, c_command_id = 0, c_nsid = 1, c_prp1 = page * PAGE_SIZE, c_prp2 = 0,
     c_slba = 8, c_length = 7, c_control = 0, c_dsmgmt = 0\<rparr>"

definition blank_mem :: io_mem where
  "blank_mem = \<lparr>im_mem = (\<lambda>a. of_nat a), im_hugemap_checker = 1, im_conti_counter = 0, im_count_page = 0\<rparr>"

lemma page_command_host: "k < 4096 \<Longrightarrow> host_byte m (page_command opcode page) k = page * 4096 + k"
  by (simp add: prp_byte_def page_command_def io_length_def Let_def)

lemma page_command_ok: "page \<le> 255 \<Longrightarrow> transfer_ok m 1048576 (page_command opcode page)"
proof -
  assume p: "page \<le> 255"
  let ?c = "page_command opcode page"
  have len: "io_length ?c = 4096" by (simp add: page_command_def io_length_def)
  have off: "io_offset ?c = 4096" by (simp add: page_command_def io_offset_def)
  have img: "host_byte m ?c ` {..<4096} = {page * 4096..<page * 4096 + 4096}"
  proof -
    have "host_byte m ?c ` {..<4096} = (\<lambda>k. k + page * 4096) ` {0..<4096}"
      by (rule image_cong) (auto simp: page_command_host)
    then show ?thesis unfolding image_add_atLeastLessThan' by (simp add: add.commute)
  qed
  have "prp_entries (c_prp1 ?c) 4096 = 0" by (simp add: prp_entries_def page_command_def)
  then have "prp_list_area (c_prp1 ?c) (c_prp2 ?c) 4096 = {}" by (simp add: prp_list_area_def)
  moreover have "prp_valid m (c_prp1 ?c) (c_prp2 ?c) 4096" by (simp add: prp_valid_def page_command_def)
  moreover have "inj_on (host_byte m ?c) {..<4096}" by (rule inj_onI) (simp add: page_command_host)
  moreover have "{page * 4096..<page * 4096 + 4096} \<inter> disk_byte 1048576 ?c ` {..<4096} = {}" using p off by auto
  ultimately show ?thesis using img unfolding transfer_ok_def len by simp
qed

theorem io_roundtrip_witness:
  "\<exists>s1 s2. do_perform_io [1048576] (page_command nvme_cmd_write 3) blank_mem = Some (s1, 4096) \<and>
    do_perform_io [1048576] (page_command nvme_cmd_read 5) s1 = Some (s2, 4096) \<and> im_mem s2 20485 = im_mem blank_mem 12293"
proof -
  have len: "io_length (page_command opc pg) = 4096" for opc pg by (simp add: page_command_def io_length_def)
  obtain s1 s2 where r: "do_perform_io [1048576] (page_command nvme_cmd_write 3) blank_mem = Some (s1, 4096)"
    "do_perform_io [1048576] (page_command nvme_cmd_read 5) s1 = Some (s2, 4096)"
    "\<forall>k<4096. im_mem s2 (host_byte (im_mem blank_mem) (page_command nvme_cmd_read 5) k) =
      im_mem blank_mem (host_byte (im_mem blank_mem) (page_command nvme_cmd_write 3) k)"
    using io_roundtrip[of "page_command nvme_cmd_write 3" "page_command nvme_cmd_read 5" blank_mem 1048576]
      page_command_ok[of 3] page_command_ok[of 5] unfolding len by (auto simp: page_command_def moves_in_def)
  then show ?thesis using r(3)[rule_format, of 5] by (auto simp: page_command_host)
qed

text \<open>C15: The variant for the copy engine, which merges adjacent pages, leaves memory exactly as the copy loop does,
  for every transfer of at most 512 pages, when the engine copies what it is told to.\<close>

theorem dma_equals_memcpy:
  assumes engine: "\<And>m from to n. submit m from to n = memcpy m to from n"
    and c: "moves_in (c_opcode c) \<or> c_opcode c = nvme_cmd_read" "c_nsid c = 1" "transfer_ok (im_mem s) base c"
    and fits: "page_no (c_prp1 c) (io_length c - 1) < 512" "\<And>k. k < io_length c \<Longrightarrow> host_byte (im_mem s) c k + PAGE_SIZE < 2 ^ 64"
  shows "\<exists>s1 s2. do_perform_io_using_dma submit base c s = Some (s1, io_length c) \<and>
    do_perform_io [base] c s = Some (s2, io_length c) \<and> im_mem s1 = im_mem s2"
proof -
  let ?len = "io_length c" and ?m = "im_mem s" and ?p = "host_byte (im_mem s) c" and ?d = "disk_byte base c"
  have len: "0 < ?len" by (simp add: io_length_def)
  have v: "prp_valid ?m (c_prp1 c) (c_prp2 c) ?len" "inj_on ?p {..<?len}" "?p ` {..<?len} \<inter> ?d ` {..<?len} = {}"
    using c(3) by (auto simp: transfer_ok_def)
  obtain ps s1 where ps: "dma_collect (c_prp1 c) (c_prp2 c) (replicate 513 0) 0 0 None None ?len s =
      Some (ps, Suc (page_no (c_prp1 c) (?len - 1)), s1)" "im_mem s1 = ?m" "length ps = 513"
    "\<forall>i. i < ?len \<and> page_start (c_prp1 c) i \<longrightarrow> ps ! Suc (page_no (c_prp1 c) i) = ?p i"
    using dma_collect_ok[OF v(1) fits(1), of 0 "replicate 513 0" s None] len by (auto simp: page_start_def list_ptr_def)
  have col: "collected ?m (c_prp1 c) (c_prp2 c) ?len ps" using ps(3,4) fits by (simp add: collected_def)
  define src dst where "src = (if moves_in (c_opcode c) then ?p else ?d)" and "dst = (if moves_in (c_opcode c) then ?d else ?p)"
  have dir: "moves_in (c_opcode c) \<and> src = ?p \<and> dst = ?d \<or> c_opcode c = nvme_cmd_read \<and> dst = ?p \<and> src = ?d"
    using c(1) by (auto simp: src_def dst_def)
  have "inj_on dst {..<?len}" "src ` {..<?len} \<inter> dst ` {..<?len} = {}"
    using v(2,3) inj_disk_byte by (auto simp: src_def dst_def)
  from dma_move_ok[OF v(1) col engine dir this, of 0 ?m] obtain m' where m': "dma_move submit (c_opcode c) base ps
      (Suc (page_no (c_prp1 c) (?len - 1))) 1 (io_offset c) ?len ?m = Some m'" "copied src dst ?len ?m m'"
    using len by (auto simp: page_start_def copied_def)
  obtain s2 where "do_perform_io [base] c s = Some (s2, ?len)" "copied src dst ?len ?m (im_mem s2)"
    using do_perform_write[OF c(3), of 0 "[base]"] do_perform_read[OF c(3), of 0 "[base]"] c(1,2)
    by (auto simp: src_def dst_def)
  moreover have "do_perform_io_using_dma submit base c s = Some (s1\<lparr>im_mem := m'\<rparr>, ?len)"
    using ps(1,2) m'(1) by (simp add: do_perform_io_using_dma_def)
  ultimately show ?thesis using copied_unique[OF m'(2)] by auto
qed

theorem dma_equals_memcpy_witness:
  "\<exists>s1 s2. do_perform_io_using_dma (\<lambda>m from to n. memcpy m to from n) 1048576 (page_command nvme_cmd_write 3) blank_mem = Some (s1, 4096) \<and>
    do_perform_io [1048576] (page_command nvme_cmd_write 3) blank_mem = Some (s2, 4096) \<and> im_mem s1 = im_mem s2"
proof -
  have len: "io_length (page_command opc pg) = 4096" for opc pg by (simp add: page_command_def io_length_def)
  show ?thesis
  proof (rule dma_equals_memcpy[of "\<lambda>m from to n. memcpy m to from n" "page_command nvme_cmd_write 3" blank_mem 1048576, unfolded len])
    show "prp_byte (im_mem blank_mem) (c_prp1 (page_command nvme_cmd_write 3)) (c_prp2 (page_command nvme_cmd_write 3)) 4096 k + 4096 < 2 ^ 64"
      if "k < 4096" for k
      using page_command_host[OF that, of "im_mem blank_mem" nvme_cmd_write 3] that unfolding len by simp
  qed (simp_all add: page_command_ok, simp_all add: page_command_def moves_in_def)
qed

text \<open>A transfer of more than one and at most two pages, whose second page address is not aligned and leaves less
  room than is needed, makes the loop follow the pointer to the list, which is NULL: the machine crashes.\<close>

theorem unaligned_second_page_crashes:
  assumes "c_prp1 c mod PAGE_SIZE = 0" "io_length c \<le> 2 * PAGE_SIZE"
    "c_prp2 c mod PAGE_SIZE \<noteq> 0" "2 * PAGE_SIZE < io_length c + c_prp2 c mod PAGE_SIZE"
  shows "do_perform_io ns_mapped c s = None"
proof -
  let ?len = "io_length c" and ?o = "c_prp2 c mod PAGE_SIZE"
  have o: "?o < PAGE_SIZE" by simp
  then have len: "PAGE_SIZE < ?len" using assms(4) by linarith
  have p1: "piece_size ?len (c_prp1 c) = PAGE_SIZE" using assms(1) len by (simp add: piece_size_def)
  have "min (?len - PAGE_SIZE) PAGE_SIZE = ?len - PAGE_SIZE" using assms(2) by simp
  moreover have "?len - PAGE_SIZE + ?o > PAGE_SIZE" using assms(4) len by linarith
  ultimately have p2: "piece_size (?len - PAGE_SIZE) (c_prp2 c) = PAGE_SIZE - ?o"
    using assms(3) unfolding piece_size_def Let_def by presburger
  have left: "?len - PAGE_SIZE - (PAGE_SIZE - ?o) \<noteq> 0" "?len - PAGE_SIZE \<noteq> 0" "?len \<noteq> 0" "\<not> PAGE_SIZE < ?len - PAGE_SIZE"
    using assms(2,4) len o by linarith+
  have "prp_walk im_mem act (c_prp1 c) (c_prp2 c) 2 0 None prev off (?len - PAGE_SIZE - (PAGE_SIZE - ?o)) s' = None" for act prev off s'
    using left(1) by (subst prp_walk.simps) (simp add: prp_fetch_def)
  then have "prp_walk im_mem act (c_prp1 c) (c_prp2 c) 1 0 None prev off (?len - PAGE_SIZE) s' = None" for act prev off s'
    using left p2 by (subst prp_walk.simps) (simp add: prp_fetch_def numeral_2_eq_2)
  then have w: "prp_walk im_mem act (c_prp1 c) (c_prp2 c) 0 0 None prev off ?len s' = None" for act prev off s'
    using left p1 by (subst prp_walk.simps) (simp add: prp_fetch_def)
  show ?thesis unfolding do_perform_io_def w by (cases "array_read ns_mapped ((c_nsid c + (2 ^ 32 - 1)) mod 2 ^ 32)") auto
qed

theorem unaligned_second_page_crashes_witness:
  "do_perform_io [1048576] ((page_command nvme_cmd_read 3)\<lparr>c_length := 15, c_prp2 := 20992\<rparr>) blank_mem = None"
  by (rule unaligned_second_page_crashes) (simp_all add: page_command_def io_length_def)

end
