(* ===== verification/Io_Worker.thy ===== *)
theory Io_Worker
  imports Io_Copy
begin

text \<open>
  The I/O queues and workers (src/io.c).  A worker owns an array of work items threaded by two lists: the items in use,
  ordered by the time they are due, and the free items.  The dispatcher takes items from the free list, files them, and
  returns completed ones; the worker walks the list in use, moves data, and posts completions that are due.
\<close>

section \<open>State\<close>

record io_work =
  w_sqid :: nat
  w_cqid :: nat
  w_sq_entry :: nat
  w_command_id :: nat
  w_nsecs_start :: u64
  w_nsecs_target :: u64
  w_nsecs_enqueue :: u64
  w_is_copied :: bool
  w_is_completed :: bool
  w_status :: nat
  w_result0 :: nat
  w_result1 :: nat
  w_is_internal :: bool
  w_write_buffer :: nat
  w_buffs_to_release :: nat
  w_next :: nat
  w_prev :: nat

record io_worker =
  iw_work_queue :: "io_work list"
  iw_free_seq :: nat
  iw_free_seq_end :: nat
  iw_io_seq :: nat
  iw_io_seq_end :: nat
  iw_latest_nsecs :: u64
  iw_id :: nat

text \<open>Indexes are unsigned 32-bit numbers; -1 marks the end of a list.\<close>

definition NR_MAX_PARALLEL_IO :: nat where "NR_MAX_PARALLEL_IO = 16384"
definition NO_ENTRY :: nat where "NO_ENTRY = 2 ^ 32 - 1"

record sq_stat =
  ss_nr_dispatched :: u32
  ss_nr_dispatch :: u32
  ss_nr_in_flight :: u32
  ss_max_nr_in_flight :: u32
  ss_total_io :: u64

record submission_queue =
  sq_cqid :: nat
  sq_queue_size :: nat
  sq_stat :: sq_stat
  sq_sq :: "nvme_command list"

record nvme_completion =
  ce_result0 :: nat
  ce_result1 :: nat
  ce_sq_head :: nat
  ce_sq_id :: nat
  ce_command_id :: nat
  ce_status :: nat

record completion_queue =
  cq_irq_vector :: nat
  cq_irq_enabled :: bool
  cq_interrupt_ready :: bool
  cq_queue_size :: nat
  cq_phase :: nat
  cq_cq_head :: nat
  cq_cq_tail :: int
  cq_cq :: "nvme_completion list"

text \<open>The part of the device the queues use.  Releases of write buffer space and interrupts are recorded in the order
  they happen; \<open>'n\<close> is the state of the namespace.\<close>

record 'n io_dev =
  dv_workers :: "io_worker list"
  dv_nr_io_workers :: nat
  dv_io_worker_turn :: nat
  dv_sqes :: "submission_queue option list"
  dv_cqes :: "completion_queue option list"
  dv_nr_cq :: nat
  dv_mem :: io_mem
  dv_ns_mapped :: "nat list"
  dv_released :: "(nat \<times> nat) list"
  dv_irqs :: "nat list"
  dv_ns :: 'n

section \<open>The lists of a worker\<close>

definition upd_work :: "io_work list \<Rightarrow> nat \<Rightarrow> (io_work \<Rightarrow> io_work) \<Rightarrow> io_work list option" where
  "upd_work q i f = do { w \<leftarrow> array_read q i; Some (q[i := f w]) }"

text \<open>The search from the end of the list for the item to file a new one after.  It stops at items that are due.\<close>

partial_function (option) find_place :: "io_work list \<Rightarrow> u64 \<Rightarrow> u64 \<Rightarrow> nat \<Rightarrow> nat option" where
  "find_place q latest t cur =
    (if cur = NO_ENTRY then Some cur
     else do {
       w \<leftarrow> array_read q cur;
       (if w_nsecs_target w \<le> latest \<or> w_nsecs_target w \<le> t then Some cur else find_place q latest t (w_prev w))
     })"

definition insert_req_sorted :: "nat \<Rightarrow> io_worker \<Rightarrow> u64 \<Rightarrow> io_worker option" where
  "insert_req_sorted entry wk t =
    (if iw_io_seq wk = NO_ENTRY then Some (wk\<lparr>iw_io_seq := entry, iw_io_seq_end := entry\<rparr>)
     else do {
       let q = iw_work_queue wk;
       cur \<leftarrow> find_place q (iw_latest_nsecs wk) t (iw_io_seq_end wk);
       (if cur = NO_ENTRY then do {
          q1 \<leftarrow> upd_work q (iw_io_seq wk) (w_prev_update (\<lambda>_. entry));
          q2 \<leftarrow> upd_work q1 entry (w_next_update (\<lambda>_. iw_io_seq wk));
          Some (wk\<lparr>iw_work_queue := q2, iw_io_seq := entry\<rparr>)
        } else do {
          c \<leftarrow> array_read q cur;
          (if w_next c = NO_ENTRY then do {
             q1 \<leftarrow> upd_work q entry (w_prev_update (\<lambda>_. cur));
             q2 \<leftarrow> upd_work q1 cur (w_next_update (\<lambda>_. entry));
             Some (wk\<lparr>iw_work_queue := q2, iw_io_seq_end := entry\<rparr>)
           } else do {
             q1 \<leftarrow> upd_work q entry (\<lambda>w. w\<lparr>w_prev := cur, w_next := w_next c\<rparr>);
             q2 \<leftarrow> upd_work q1 (w_next c) (w_prev_update (\<lambda>_. entry));
             q3 \<leftarrow> upd_work q2 cur (w_next_update (\<lambda>_. entry));
             Some (wk\<lparr>iw_work_queue := q3\<rparr>)
           })
        })
     })"

text \<open>Taking a free item.  The last one is never taken.\<close>

definition take_free :: "io_worker \<Rightarrow> (nat option \<times> io_worker) option" where
  "take_free wk = do {
     let e = iw_free_seq wk;
     w \<leftarrow> array_read (iw_work_queue wk) e;
     (if w_next w \<ge> NR_MAX_PARALLEL_IO then Some (None, wk)
      else Some (Some e, wk\<lparr>iw_free_seq := w_next w\<rparr>))
   }"

definition get_io_worker :: "nat \<Rightarrow> 'n io_dev \<Rightarrow> nat option" where
  "get_io_worker sqid dev = do {
     nvmev_assert (dv_nr_io_workers dev \<noteq> 0);
     Some (((sqid + (2 ^ 32 - 1)) mod 2 ^ 32) mod dv_nr_io_workers dev)
   }"

definition put_worker :: "'n io_dev \<Rightarrow> nat \<Rightarrow> io_worker \<Rightarrow> 'n io_dev" where
  "put_worker dev i wk = dev\<lparr>dv_workers := (dv_workers dev)[i := wk]\<rparr>"

definition allocate_work_queue_entry :: "nat \<Rightarrow> 'n io_dev \<Rightarrow> ((nat \<times> nat) option \<times> 'n io_dev) option" where
  "allocate_work_queue_entry sqid dev = do {
     turn \<leftarrow> get_io_worker sqid dev;
     wk \<leftarrow> array_read (dv_workers dev) turn;
     (e, wk') \<leftarrow> take_free wk;
     (case e of None \<Rightarrow> Some (None, dev)
      | Some entry \<Rightarrow>
         Some (Some (turn, entry),
           (put_worker dev turn wk')\<lparr>dv_io_worker_turn := (if turn + 1 = dv_nr_io_workers dev then 0 else turn + 1)\<rparr>))
   }"

text \<open>A request of the host and a release of buffer space, as they are written into the item.\<close>

definition host_work :: "nat \<Rightarrow> nat \<Rightarrow> nat \<Rightarrow> nat \<Rightarrow> u64 \<Rightarrow> u64 \<Rightarrow> nvmev_result \<Rightarrow> io_work \<Rightarrow> io_work" where
  "host_work sqid cqid sq_entry command_id nsecs_start local ret w = w\<lparr>w_sqid := sqid, w_cqid := cqid, w_sq_entry := sq_entry,
     w_command_id := command_id, w_nsecs_start := nsecs_start, w_nsecs_enqueue := local, w_nsecs_target := rs_nsecs_target ret,
     w_status := rs_status ret, w_is_completed := False, w_is_copied := False, w_prev := NO_ENTRY, w_next := NO_ENTRY,
     w_is_internal := False\<rparr>"

definition internal_work :: "nat \<Rightarrow> u64 \<Rightarrow> u64 \<Rightarrow> nat \<Rightarrow> nat \<Rightarrow> io_work \<Rightarrow> io_work" where
  "internal_work sqid local target buf bytes w = w\<lparr>w_sqid := sqid, w_nsecs_start := local, w_nsecs_enqueue := local,
     w_nsecs_target := target, w_is_completed := False, w_is_copied := True, w_prev := NO_ENTRY, w_next := NO_ENTRY,
     w_is_internal := True, w_write_buffer := buf, w_buffs_to_release := bytes\<rparr>"

text \<open>Filling the item and filing it.\<close>

definition file_work :: "nat \<Rightarrow> (io_work \<Rightarrow> io_work) \<Rightarrow> u64 \<Rightarrow> io_worker \<Rightarrow> io_worker option" where
  "file_work entry f t wk = do {
     q \<leftarrow> upd_work (iw_work_queue wk) entry f;
     insert_req_sorted entry (wk\<lparr>iw_work_queue := q\<rparr>) t
   }"

definition get_sq :: "'n io_dev \<Rightarrow> nat \<Rightarrow> submission_queue option" where
  "get_sq dev i = do { s \<leftarrow> array_read (dv_sqes dev) i; s }"

definition get_cq :: "'n io_dev \<Rightarrow> nat \<Rightarrow> completion_queue option" where
  "get_cq dev i = do { c \<leftarrow> array_read (dv_cqes dev) i; c }"

text \<open>When no item is free the request is dropped without a trace.\<close>

definition enqueue_io_req :: "nat \<Rightarrow> nat \<Rightarrow> nat \<Rightarrow> u64 \<Rightarrow> u64 \<Rightarrow> nvmev_result \<Rightarrow> 'n io_dev \<Rightarrow> 'n io_dev option" where
  "enqueue_io_req sqid cqid sq_entry nsecs_start local ret dev = do {
     (place, dev1) \<leftarrow> allocate_work_queue_entry sqid dev;
     (case place of None \<Rightarrow> Some dev1
      | Some (i, entry) \<Rightarrow> do {
          sq \<leftarrow> get_sq dev sqid;
          c \<leftarrow> array_read (sq_sq sq) sq_entry;
          wk \<leftarrow> array_read (dv_workers dev1) i;
          wk' \<leftarrow> file_work entry (host_work sqid cqid sq_entry (c_command_id c) nsecs_start local ret) (rs_nsecs_target ret) wk;
          Some (put_worker dev1 i wk')
        })
   }"

definition schedule_internal_operation :: "nat \<Rightarrow> u64 \<Rightarrow> nat \<Rightarrow> nat \<Rightarrow> u64 \<Rightarrow> 'n io_dev \<Rightarrow> 'n io_dev option" where
  "schedule_internal_operation sqid nsecs_target write_buffer buffs_to_release local dev = do {
     (place, dev1) \<leftarrow> allocate_work_queue_entry sqid dev;
     (case place of None \<Rightarrow> Some dev1
      | Some (i, entry) \<Rightarrow> do {
          wk \<leftarrow> array_read (dv_workers dev1) i;
          wk' \<leftarrow> file_work entry (internal_work sqid local nsecs_target write_buffer buffs_to_release) nsecs_target wk;
          Some (put_worker dev1 i wk')
        })
   }"

section \<open>Returning completed items\<close>

definition reclaimable :: "u64 \<Rightarrow> io_work \<Rightarrow> bool" where
  "reclaimable latest w \<longleftrightarrow> w_is_completed w \<and> w_is_copied w \<and> w_nsecs_target w \<le> latest"

partial_function (option) scan_completed :: "io_work list \<Rightarrow> u64 \<Rightarrow> nat \<Rightarrow> nat \<Rightarrow> nat option" where
  "scan_completed q latest cur last_entry =
    (if cur = NO_ENTRY then Some last_entry
     else do {
       w \<leftarrow> array_read q cur;
       (if reclaimable latest w then scan_completed q latest (w_next w) cur else Some last_entry)
     })"

definition reclaim_worker :: "io_worker \<Rightarrow> io_worker option" where
  "reclaim_worker wk = do {
     let first_entry = iw_io_seq wk;
     let q = iw_work_queue wk;
     last_entry \<leftarrow> scan_completed q (iw_latest_nsecs wk) first_entry NO_ENTRY;
     (if last_entry = NO_ENTRY then Some wk
      else do {
        w \<leftarrow> array_read q last_entry;
        q1 \<leftarrow> (if w_next w \<noteq> NO_ENTRY then upd_work q (w_next w) (w_prev_update (\<lambda>_. NO_ENTRY)) else Some q);
        q2 \<leftarrow> upd_work q1 last_entry (w_next_update (\<lambda>_. NO_ENTRY));
        q3 \<leftarrow> upd_work q2 first_entry (w_prev_update (\<lambda>_. iw_free_seq_end wk));
        q4 \<leftarrow> upd_work q3 (iw_free_seq_end wk) (w_next_update (\<lambda>_. first_entry));
        Some (wk\<lparr>iw_work_queue := q4, iw_io_seq := w_next w, iw_free_seq_end := last_entry\<rparr>)
      })
   }"

fun reclaim_from :: "nat \<Rightarrow> nat \<Rightarrow> 'n io_dev \<Rightarrow> 'n io_dev option" where
  "reclaim_from turn 0 dev = Some dev"
| "reclaim_from turn (Suc n) dev = do {
     wk \<leftarrow> array_read (dv_workers dev) turn;
     wk' \<leftarrow> reclaim_worker wk;
     reclaim_from (turn + 1) n (put_worker dev turn wk')
   }"

definition reclaim_completed_reqs :: "'n io_dev \<Rightarrow> 'n io_dev option" where
  "reclaim_completed_reqs dev = reclaim_from 0 (dv_nr_io_workers dev) dev"

section \<open>Posting completions\<close>

definition put_cq :: "'n io_dev \<Rightarrow> nat \<Rightarrow> completion_queue \<Rightarrow> 'n io_dev" where
  "put_cq dev i cq = dev\<lparr>dv_cqes := (dv_cqes dev)[i := Some cq]\<rparr>"

text \<open>The status field holds the phase in its lowest bit.\<close>

definition post_completion :: "io_work \<Rightarrow> completion_queue \<Rightarrow> completion_queue option" where
  "post_completion w cq = do {
     cqes \<leftarrow> array_write (cq_cq cq) (cq_cq_head cq) \<lparr>ce_result0 = w_result0 w, ce_result1 = w_result1 w, ce_sq_head = w_sq_entry w,
       ce_sq_id = w_sqid w, ce_command_id = w_command_id w, ce_status = (cq_phase cq + 2 * w_status w) mod 2 ^ 16\<rparr>;
     let cq_head = cq_cq_head cq + 1;
     Some (if cq_head = cq_queue_size cq
           then cq\<lparr>cq_cq := cqes, cq_phase := (if cq_phase cq = 0 then 1 else 0), cq_cq_head := 0, cq_interrupt_ready := True\<rparr>
           else cq\<lparr>cq_cq := cqes, cq_cq_head := cq_head, cq_interrupt_ready := True\<rparr>)
   }"

definition fill_cq_result :: "io_work \<Rightarrow> 'n io_dev \<Rightarrow> 'n io_dev option" where
  "fill_cq_result w dev = do {
     cq \<leftarrow> get_cq dev (w_cqid w);
     cq' \<leftarrow> post_completion w cq;
     Some (put_cq dev (w_cqid w) cq')
   }"

section \<open>The worker\<close>

text \<open>One round of the worker's inner loop, as far as it concerns its lists: the item to copy data for, the item that is
  due, and the next item.\<close>

definition visit_work :: "u64 \<Rightarrow> nat \<Rightarrow> io_worker \<Rightarrow> (io_worker \<times> io_work option \<times> io_work option \<times> nat) option" where
  "visit_work now cur wk = do {
     w \<leftarrow> array_read (iw_work_queue wk) cur;
     let wk1 = wk\<lparr>iw_latest_nsecs := now\<rparr>;
     (if w_is_completed w then Some (wk1, None, None, w_next w)
      else let due = (w_nsecs_target w \<le> now);
               w' = w\<lparr>w_is_copied := True, w_is_completed := due\<rparr>
           in Some (wk1\<lparr>iw_work_queue := (iw_work_queue wk)[cur := w']\<rparr>,
                (if w_is_copied w \<or> w_is_internal w then None else Some w), (if due then Some w' else None), w_next w))
   }"

text \<open>\<open>copy\<close> is the data transfer, either \<^verbatim>\<open>__do_perform_io\<close> or the variant for the copy engine.\<close>

definition worker_visit ::
  "(nvme_command \<Rightarrow> io_mem \<Rightarrow> io_mem option) \<Rightarrow> u64 \<Rightarrow> nat \<Rightarrow> nat \<Rightarrow> 'n io_dev \<Rightarrow> ('n io_dev \<times> nat) option" where
  "worker_visit copy now i cur dev = do {
     wk \<leftarrow> array_read (dv_workers dev) i;
     (wk', to_copy, finished, nxt) \<leftarrow> visit_work now cur wk;
     mem \<leftarrow> (case to_copy of None \<Rightarrow> Some (dv_mem dev)
       | Some w \<Rightarrow> do { sq \<leftarrow> get_sq dev (w_sqid w); c \<leftarrow> array_read (sq_sq sq) (w_sq_entry w); copy c (dv_mem dev) });
     let dev1 = (put_worker dev i wk')\<lparr>dv_mem := mem\<rparr>;
     dev2 \<leftarrow> (case finished of None \<Rightarrow> Some dev1
       | Some w \<Rightarrow> if w_is_internal w then Some (dev1\<lparr>dv_released := dv_released dev1 @ [(w_write_buffer w, w_buffs_to_release w)]\<rparr>)
                   else fill_cq_result w dev1);
     Some (dev2, nxt)
   }"

definition copy_data ::
  "bool \<Rightarrow> (memory \<Rightarrow> nat \<Rightarrow> nat \<Rightarrow> nat \<Rightarrow> memory) \<Rightarrow> nat \<Rightarrow> nat list \<Rightarrow> nvme_command \<Rightarrow> io_mem \<Rightarrow> io_mem option" where
  "copy_data io_using_dma submit storage_start ns_mapped c s =
    (if io_using_dma then do { (s', _) \<leftarrow> do_perform_io_using_dma submit storage_start c s; Some s' }
     else do { (s', _) \<leftarrow> do_perform_io ns_mapped c s; Some s' })"

text \<open>\<open>now k\<close> is the clock at round \<open>k\<close> of the inner loop.\<close>

partial_function (option) worker_pass ::
  "(nvme_command \<Rightarrow> io_mem \<Rightarrow> io_mem option) \<Rightarrow> (nat \<Rightarrow> u64) \<Rightarrow> nat \<Rightarrow> nat \<Rightarrow> nat \<Rightarrow> 'n io_dev \<Rightarrow> 'n io_dev option" where
  "worker_pass copy now i cur k dev =
    (if cur = NO_ENTRY then Some dev
     else do {
       (dev', nxt) \<leftarrow> worker_visit copy (now k) i cur dev;
       worker_pass copy now i nxt (k + 1) dev'
     })"

text \<open>The interrupts: a worker serves the queues assigned to it; the lock of a queue is free when it tries it.\<close>

fun irq_loop :: "nat \<Rightarrow> nat \<Rightarrow> nat \<Rightarrow> 'n io_dev \<Rightarrow> 'n io_dev option" where
  "irq_loop wid qidx 0 dev = Some dev"
| "irq_loop wid qidx (Suc n) dev = do {
     cq \<leftarrow> array_read (dv_cqes dev) qidx;
     owner \<leftarrow> get_io_worker qidx dev;
     irq_loop wid (qidx + 1) n
       (if wid \<noteq> owner then dev
        else case cq of None \<Rightarrow> dev
        | Some c \<Rightarrow> if \<not> cq_irq_enabled c \<or> \<not> cq_interrupt_ready c then dev
            else (put_cq dev qidx (c\<lparr>cq_interrupt_ready := False\<rparr>))\<lparr>dv_irqs := dv_irqs dev @ [cq_irq_vector c]\<rparr>)
   }"

definition io_worker_iteration ::
  "(nvme_command \<Rightarrow> io_mem \<Rightarrow> io_mem option) \<Rightarrow> (nat \<Rightarrow> u64) \<Rightarrow> nat \<Rightarrow> 'n io_dev \<Rightarrow> 'n io_dev option" where
  "io_worker_iteration copy now i dev = do {
     wk \<leftarrow> array_read (dv_workers dev) i;
     dev1 \<leftarrow> worker_pass copy now i (iw_io_seq wk) 0 dev;
     irq_loop (iw_id wk) 1 (dv_nr_cq dev) dev1
   }"

section \<open>The dispatcher\<close>

text \<open>The command processor of the namespaces: it may rewrite the command, answers with a result or refuses the command
  for now (false), and asks for releases of buffer space; the first argument is the local clock.\<close>

type_synonym 'n io_handler =
  "u64 \<Rightarrow> 'n \<Rightarrow> nvmev_request \<Rightarrow> nvmev_result \<Rightarrow> ('n \<times> nvme_command \<times> nvmev_result option \<times> (nat \<times> u64 \<times> nat \<times> nat) list) option"

definition put_sq :: "'n io_dev \<Rightarrow> nat \<Rightarrow> submission_queue \<Rightarrow> 'n io_dev" where
  "put_sq dev i sq = dev\<lparr>dv_sqes := (dv_sqes dev)[i := Some sq]\<rparr>"

definition nvmev_proc_io :: "'n io_handler \<Rightarrow> nat \<Rightarrow> nat \<Rightarrow> u64 \<Rightarrow> u64 \<Rightarrow> 'n io_dev \<Rightarrow> ('n io_dev \<times> nat option) option" where
  "nvmev_proc_io proc sqid sq_entry wall local dev = do {
     sq \<leftarrow> get_sq dev sqid;
     c \<leftarrow> array_read (sq_sq sq) sq_entry;
     nvmev_assert ((c_nsid c + (2 ^ 32 - 1)) mod 2 ^ 32 < length (dv_ns_mapped dev));
     (ns, c', r, ops) \<leftarrow> proc local (dv_ns dev) \<lparr>rq_cmd = c, rq_sq_id = sqid, rq_nsecs_start = wall\<rparr>
       \<lparr>rs_status = NVME_SC_SUCCESS, rs_nsecs_target = wall\<rparr>;
     let dev1 = put_sq (dev\<lparr>dv_ns := ns\<rparr>) sqid (sq\<lparr>sq_sq := (sq_sq sq)[sq_entry := c']\<rparr>);
     dev2 \<leftarrow> foldM (\<lambda>(q, t, b, n). schedule_internal_operation q t b n local) ops dev1;
     (case r of None \<Rightarrow> Some (dev2, None)
      | Some ret \<Rightarrow> do {
          dev3 \<leftarrow> enqueue_io_req sqid (sq_cqid sq) sq_entry wall local ret dev2;
          dev4 \<leftarrow> reclaim_completed_reqs dev3;
          Some (dev4, Some (io_length c'))
        })
   }"

definition count_dispatched :: "nat \<Rightarrow> submission_queue \<Rightarrow> submission_queue" where
  "count_dispatched io_size sq = sq\<lparr>sq_stat := (sq_stat sq)\<lparr>ss_nr_dispatched := ss_nr_dispatched (sq_stat sq) + 1,
     ss_nr_in_flight := ss_nr_in_flight (sq_stat sq) + 1, ss_total_io := ss_total_io (sq_stat sq) + of_nat io_size\<rparr>\<rparr>"

fun sq_loop :: "'n io_handler \<Rightarrow> (nat \<Rightarrow> u64) \<Rightarrow> (nat \<Rightarrow> u64) \<Rightarrow> nat \<Rightarrow> nat \<Rightarrow> nat \<Rightarrow> nat \<Rightarrow> 'n io_dev \<Rightarrow> ('n io_dev \<times> nat) option" where
  "sq_loop proc wall local sqid 0 seq sq_entry dev = Some (dev, seq)"
| "sq_loop proc wall local sqid (Suc n) seq sq_entry dev = do {
     (dev1, io_size) \<leftarrow> nvmev_proc_io proc sqid sq_entry (wall seq) (local seq) dev;
     (case io_size of None \<Rightarrow> Some (dev1, seq)
      | Some k \<Rightarrow> do {
          sq \<leftarrow> get_sq dev1 sqid;
          sq_loop proc wall local sqid n (seq + 1) (if sq_entry + 1 = sq_queue_size sq then 0 else sq_entry + 1)
            (put_sq dev1 sqid (count_dispatched k sq))
        })
   }"

definition nvmev_proc_io_sq :: "'n io_handler \<Rightarrow> (nat \<Rightarrow> u64) \<Rightarrow> (nat \<Rightarrow> u64) \<Rightarrow> nat \<Rightarrow> nat \<Rightarrow> nat \<Rightarrow> 'n io_dev \<Rightarrow> ('n io_dev \<times> nat) option" where
  "nvmev_proc_io_sq proc wall local sqid new_db old_db dev = do {
     s \<leftarrow> array_read (dv_sqes dev) sqid;
     (case s of None \<Rightarrow> Some (dev, old_db)
      | Some sq \<Rightarrow> do {
          let num_proc = int new_db - int old_db;
          let num_proc' = (if num_proc < 0 then num_proc + int (sq_queue_size sq) else num_proc);
          (dev1, seq) \<leftarrow> sq_loop proc wall local sqid (nat num_proc') 0 old_db dev;
          sq1 \<leftarrow> get_sq dev1 sqid;
          let st = (sq_stat sq1)\<lparr>ss_nr_dispatch := ss_nr_dispatch (sq_stat sq1) + 1\<rparr>;
          let dev2 = put_sq dev1 sqid (sq1\<lparr>sq_stat := st\<lparr>ss_max_nr_in_flight :=
            (if sint (ss_max_nr_in_flight st) < sint (ss_nr_in_flight st) then ss_nr_in_flight st else ss_max_nr_in_flight st)\<rparr>\<rparr>);
          nvmev_assert (sq_queue_size sq1 \<noteq> 0);
          Some (dev2, (old_db + seq) mod sq_queue_size sq1)
        })
   }"

text \<open>The host has consumed completions.  The entry is read before the index is compared with the size of the queue.\<close>

partial_function (option) cq_loop :: "nat \<Rightarrow> int \<Rightarrow> int \<Rightarrow> 'n io_dev \<Rightarrow> 'n io_dev option" where
  "cq_loop cqid new_db i dev =
    (if i = new_db then Some dev
     else do {
       cq \<leftarrow> get_cq dev cqid;
       nvmev_assert (0 \<le> i);
       e \<leftarrow> array_read (cq_cq cq) (nat i);
       (if i \<ge> int (cq_queue_size cq) then cq_loop cqid new_db 0 dev
        else do {
          s \<leftarrow> array_read (dv_sqes dev) (ce_sq_id e);
          cq_loop cqid new_db (i + 1)
            (case s of None \<Rightarrow> dev
             | Some sq \<Rightarrow> put_sq dev (ce_sq_id e) (sq\<lparr>sq_stat := (sq_stat sq)\<lparr>ss_nr_in_flight := ss_nr_in_flight (sq_stat sq) - 1\<rparr>\<rparr>))
        })
     })"

definition nvmev_proc_io_cq :: "nat \<Rightarrow> int \<Rightarrow> int \<Rightarrow> 'n io_dev \<Rightarrow> 'n io_dev option" where
  "nvmev_proc_io_cq cqid new_db old_db dev = do {
     dev1 \<leftarrow> cq_loop cqid new_db old_db dev;
     cq \<leftarrow> get_cq dev1 cqid;
     Some (put_cq dev1 cqid (cq\<lparr>cq_cq_tail := (if new_db = -1 then int (cq_queue_size cq) - 1 else new_db - 1)\<rparr>))
   }"

section \<open>Initialisation\<close>

definition zero_work :: io_work where
  "zero_work = \<lparr>w_sqid = 0, w_cqid = 0, w_sq_entry = 0, w_command_id = 0, w_nsecs_start = 0, w_nsecs_target = 0,
     w_nsecs_enqueue = 0, w_is_copied = False, w_is_completed = False, w_status = 0, w_result0 = 0, w_result1 = 0,
     w_is_internal = False, w_write_buffer = 0, w_buffs_to_release = 0, w_next = 0, w_prev = 0\<rparr>"

definition init_worker :: "nat \<Rightarrow> io_worker" where
  "init_worker worker_id = \<lparr>iw_work_queue = map (\<lambda>i. zero_work\<lparr>
       w_next := (if i = NR_MAX_PARALLEL_IO - 1 then NO_ENTRY else i + 1), w_prev := (if i = 0 then NO_ENTRY else i - 1)\<rparr>)
       [0..<NR_MAX_PARALLEL_IO],
     iw_free_seq = 0, iw_free_seq_end = NR_MAX_PARALLEL_IO - 1, iw_io_seq = NO_ENTRY, iw_io_seq_end = NO_ENTRY,
     iw_latest_nsecs = 0, iw_id = worker_id\<rparr>"

definition new_workers :: "nat \<Rightarrow> io_worker list" where
  "new_workers n = map init_worker [0..<n]"

definition NVMEV_IO_WORKER_INIT :: "'n io_dev \<Rightarrow> 'n io_dev" where
  "NVMEV_IO_WORKER_INIT dev = dev\<lparr>dv_workers := new_workers (dv_nr_io_workers dev), dv_io_worker_turn := 0\<rparr>"

end
