(* ===== verification/Io_Queue.thy ===== *)
theory Io_Queue
  imports Io_Worker
begin

text \<open>
  The lists of a worker are what they stand for: the array of work items holds two disjoint chains that together use
  every item, and the operations on the array are the expected operations on lists of item numbers.
\<close>

section \<open>Chains in the array\<close>

primrec path :: "(io_work \<Rightarrow> nat) \<Rightarrow> io_work list \<Rightarrow> nat \<Rightarrow> nat list \<Rightarrow> nat \<Rightarrow> bool" where
  "path f q p [] r \<longleftrightarrow> p = r"
| "path f q p (x # xs) r \<longleftrightarrow> p = x \<and> x < length q \<and> path f q (f (q ! x)) xs r"

abbreviation chain :: "(io_work \<Rightarrow> nat) \<Rightarrow> io_work list \<Rightarrow> nat \<Rightarrow> nat list \<Rightarrow> bool" where
  "chain f q p xs \<equiv> path f q p xs NO_ENTRY"

definition head :: "nat list \<Rightarrow> nat" where
  "head xs = (if xs = [] then NO_ENTRY else hd xs)"

lemma path_append: "path f q p (xs @ ys) r \<longleftrightarrow> (\<exists>m. path f q p xs m \<and> path f q m ys r)"
  by (induction xs arbitrary: p) auto

lemma path_head: "chain f q p xs \<Longrightarrow> p = head xs"
  by (cases xs) (auto simp: head_def)

lemma path_bound: "path f q p xs r \<Longrightarrow> x \<in> set xs \<Longrightarrow> x < length q"
  by (induction xs arbitrary: p) auto

lemma path_cong:
  "length q' = length q \<Longrightarrow> (\<And>x. x \<in> set xs \<Longrightarrow> f (q' ! x) = f (q ! x)) \<Longrightarrow> path f q' p xs r = path f q p xs r"
  by (induction xs arbitrary: p) auto

text \<open>A new item between two parts of a chain.\<close>

lemma path_splice:
  assumes p: "chain f q p (xs @ ys)" and d: "distinct (xs @ ys)" "e \<notin> set (xs @ ys)" "e < length q"
    and len: "length q' = length q"
    and last: "xs \<noteq> [] \<Longrightarrow> f (q' ! last xs) = e" and new: "f (q' ! e) = head ys"
    and rest: "\<And>x. x \<in> set (xs @ ys) \<Longrightarrow> xs = [] \<or> x \<noteq> last xs \<Longrightarrow> f (q' ! x) = f (q ! x)"
  shows "chain f q' (head (xs @ [e])) (xs @ e # ys)"
proof -
  obtain m where m: "path f q p xs m" "chain f q m ys" using p by (auto simp: path_append)
  have "xs = [] \<or> x \<noteq> last xs" if "x \<in> set ys" for x using d(1) that last_in_set[of xs] by (auto simp: disjoint_iff)
  then have ys: "chain f q' m ys" using m(2) rest by (subst path_cong[OF len]) auto
  have e: "chain f q' e (e # ys)" using ys new path_head[OF m(2)] d(3) len by simp
  show ?thesis
  proof (cases xs rule: rev_cases)
    case Nil
    then show ?thesis using e by (simp add: head_def)
  next
    case (snoc xs' l)
    then have l: "path f q p xs' l" "l < length q" using m(1) by (auto simp: path_append)
    have "path f q' p xs' l" using l(1) rest d snoc by (subst path_cong[OF len]) auto
    moreover have "f (q' ! l) = e" using last snoc by simp
    moreover have "p = head (xs @ [e])" using l(1) snoc by (cases xs') (auto simp: head_def)
    ultimately show ?thesis using e snoc l(2) len by (auto simp: path_append)
  qed
qed

section \<open>The state of a worker's lists\<close>

definition wq_ok :: "io_worker \<Rightarrow> nat list \<Rightarrow> nat list \<Rightarrow> bool" where
  "wq_ok wk used free \<longleftrightarrow> length (iw_work_queue wk) = NR_MAX_PARALLEL_IO \<and>
     distinct (used @ free) \<and> set (used @ free) = {..<NR_MAX_PARALLEL_IO} \<and> free \<noteq> [] \<and>
     chain w_next (iw_work_queue wk) (iw_io_seq wk) used \<and>
     chain w_prev (iw_work_queue wk) (head (rev used)) (rev used) \<and> (used \<noteq> [] \<longrightarrow> iw_io_seq_end wk = last used) \<and>
     chain w_next (iw_work_queue wk) (iw_free_seq wk) free \<and> iw_free_seq_end wk = last free"

text \<open>An item without its links.\<close>

definition content :: "io_work \<Rightarrow> io_work" where
  "content w = w\<lparr>w_next := 0, w_prev := 0\<rparr>"

lemma content_links [simp]:
  "content (w\<lparr>w_next := a\<rparr>) = content w" "content (w\<lparr>w_prev := a\<rparr>) = content w"
  "content (w_next_update g w) = content w" "content (w_prev_update g w) = content w"
  by (simp_all add: content_def)

lemma content_sel:
  assumes "content w = content v"
  shows "w_sqid w = w_sqid v" "w_cqid w = w_cqid v" "w_sq_entry w = w_sq_entry v" "w_command_id w = w_command_id v"
    "w_nsecs_target w = w_nsecs_target v" "w_is_copied w = w_is_copied v" "w_is_completed w = w_is_completed v"
    "w_is_internal w = w_is_internal v" "w_status w = w_status v" "w_write_buffer w = w_write_buffer v"
    "w_buffs_to_release w = w_buffs_to_release v"
  using assms by (cases w; cases v; simp add: content_def)+

definition same_content :: "io_work list \<Rightarrow> io_work list \<Rightarrow> bool" where
  "same_content q q' \<longleftrightarrow> length q' = length q \<and> (\<forall>i<length q. content (q' ! i) = content (q ! i))"

lemma same_content_trans: "same_content q q' \<Longrightarrow> same_content q' q'' \<Longrightarrow> same_content q q''"
  by (auto simp: same_content_def)

lemma same_content_upd: "same_content q q' \<Longrightarrow> i < length q \<Longrightarrow> content v = content (q' ! i) \<Longrightarrow> same_content q (q'[i := v])"
  by (auto simp: same_content_def nth_list_update)

lemma NR_less_NO: "x < NR_MAX_PARALLEL_IO \<Longrightarrow> x \<noteq> NO_ENTRY" "NR_MAX_PARALLEL_IO \<le> NO_ENTRY"
  by (auto simp: NR_MAX_PARALLEL_IO_def NO_ENTRY_def)

lemma upd_work_in [simp]: "i < length q \<Longrightarrow> upd_work q i f = Some (q[i := f (q ! i)])"
  by (simp add: upd_work_def)

section \<open>Filing an item\<close>

definition later :: "io_work list \<Rightarrow> u64 \<Rightarrow> u64 \<Rightarrow> nat \<Rightarrow> bool" where
  "later q latest t x \<longleftrightarrow> latest < w_nsecs_target (q ! x) \<and> t < w_nsecs_target (q ! x)"

text \<open>The item goes before the longest final run of items that are due later and are not yet due.\<close>

definition insert_place :: "(nat \<Rightarrow> bool) \<Rightarrow> nat list \<Rightarrow> nat list \<times> nat list" where
  "insert_place P used = (rev (dropWhile P (rev used)), rev (takeWhile P (rev used)))"

definition insert_used :: "(nat \<Rightarrow> bool) \<Rightarrow> nat \<Rightarrow> nat list \<Rightarrow> nat list" where
  "insert_used P e used = (case insert_place P used of (pre, post) \<Rightarrow> pre @ e # post)"

lemma insert_place_append: "insert_place P used = (pre, post) \<Longrightarrow> used = pre @ post"
  by (auto simp: insert_place_def simp flip: rev_append)

lemma find_place_ok:
  assumes "chain w_prev q p zs" "length q = NR_MAX_PARALLEL_IO"
  shows "find_place q latest t p = Some (head (dropWhile (later q latest t) zs))"
  using assms
proof (induction zs arbitrary: p)
  case Nil
  then show ?case by (subst find_place.simps) (simp add: head_def)
next
  case (Cons z zs)
  then have "p = z" "z < length q" "z \<noteq> NO_ENTRY" using NR_less_NO(1)[of z] by auto
  then show ?case using Cons
    by (cases "later q latest t z"; subst find_place.simps) (auto simp: head_def later_def[of q latest t z] not_less not_le)
qed

lemma insert_req_sorted_ok:
  fixes t :: u64
  assumes ch: "chain w_next (iw_work_queue wk) (iw_io_seq wk) used" "chain w_prev (iw_work_queue wk) (head (rev used)) (rev used)"
    and fin: "used \<noteq> [] \<longrightarrow> iw_io_seq_end wk = last used"
    and d: "distinct used" "e \<notin> set used" "e < length (iw_work_queue wk)" "length (iw_work_queue wk) = NR_MAX_PARALLEL_IO"
    and e: "w_next (iw_work_queue wk ! e) = NO_ENTRY" "w_prev (iw_work_queue wk ! e) = NO_ENTRY"
  defines "used' \<equiv> insert_used (later (iw_work_queue wk) (iw_latest_nsecs wk) t) e used"
  shows "\<exists>q' s' n'. insert_req_sorted e wk t = Some (wk\<lparr>iw_work_queue := q', iw_io_seq := s', iw_io_seq_end := n'\<rparr>) \<and>
    same_content (iw_work_queue wk) q' \<and> (\<forall>x. x \<notin> set (e # used) \<longrightarrow> q' ! x = iw_work_queue wk ! x) \<and>
    chain w_next q' s' used' \<and> chain w_prev q' (head (rev used')) (rev used') \<and> n' = last used'"
proof -
  let ?q = "iw_work_queue wk"
  obtain pre post where pp: "insert_place (later ?q (iw_latest_nsecs wk) t) used = (pre, post)" by fastforce
  note used = insert_place_append[OF pp]
  have used': "used' = pre @ e # post" by (simp add: used'_def insert_used_def pp)
  have pr: "pre = rev (dropWhile (later ?q (iw_latest_nsecs wk) t) (rev used))" using pp by (simp add: insert_place_def)
  have bound: "x < length ?q" if "x \<in> set used" for x using path_bound[OF ch(1) that] .
  show ?thesis
  proof (cases "used = []")
    case True
    then have "iw_io_seq wk = NO_ENTRY" using ch(1) by simp
    then have "insert_req_sorted e wk t = Some (wk\<lparr>iw_work_queue := ?q, iw_io_seq := e, iw_io_seq_end := e\<rparr>)"
      by (simp add: insert_req_sorted_def)
    moreover have "used' = [e]" using used True by (simp add: used')
    ultimately show ?thesis using e d(3) unfolding same_content_def by (intro exI) (auto simp: head_def)
  next
    case ne: False
    have seq: "iw_io_seq wk = hd used" using path_head[OF ch(1)] ne by (simp add: head_def)
    then have sn: "iw_io_seq wk \<noteq> NO_ENTRY" using bound[of "hd used"] ne d(4) NR_less_NO(1) by simp
    have "iw_io_seq_end wk = head (rev used)" using fin ne by (simp add: head_def hd_rev)
    then have fp: "find_place ?q (iw_latest_nsecs wk) t (iw_io_seq_end wk) = Some (head (rev pre))"
      using find_place_ok[OF ch(2) d(4)] by (simp add: pr)
    have splice: "chain w_next q' (head (pre @ [e])) used' \<and> chain w_prev q' (head (rev used')) (rev used')"
      if len: "length q' = length ?q"
        and nx: "pre \<noteq> [] \<Longrightarrow> w_next (q' ! last pre) = e" "w_next (q' ! e) = head post"
          "\<And>x. x \<in> set used \<Longrightarrow> pre = [] \<or> x \<noteq> last pre \<Longrightarrow> w_next (q' ! x) = w_next (?q ! x)"
        and pv: "post \<noteq> [] \<Longrightarrow> w_prev (q' ! hd post) = e" "w_prev (q' ! e) = head (rev pre)"
          "\<And>x. x \<in> set used \<Longrightarrow> post = [] \<or> x \<noteq> hd post \<Longrightarrow> w_prev (q' ! x) = w_prev (?q ! x)" for q'
    proof
      show "chain w_next q' (head (pre @ [e])) used'"
        unfolding used' using ch(1) d nx unfolding used by (intro path_splice[OF _ _ _ _ len]) auto
      have "chain w_prev q' (head (rev post @ [e])) (rev post @ e # rev pre)"
        using ch(2) d pv unfolding used by (intro path_splice[OF _ _ _ _ len]) (auto simp: last_rev)
      moreover have "head (rev used') = head (rev post @ [e])" unfolding used' by (cases "rev post") (auto simp: head_def)
      ultimately show "chain w_prev q' (head (rev used')) (rev used')" by (simp add: used')
    qed
    show ?thesis
    proof (cases "pre = []")
      case True
      then have post: "post = used" using used by simp
      define q' where "q' = ?q[hd used := (?q ! hd used)\<lparr>w_prev := e\<rparr>, e := (?q ! e)\<lparr>w_next := hd used\<rparr>]"
      have hd: "hd used \<in> set used" "hd used \<noteq> e" "hd used < length ?q" using ne d(2) bound[of "hd used"] by auto
      have "insert_req_sorted e wk t = Some (wk\<lparr>iw_work_queue := q', iw_io_seq := e, iw_io_seq_end := iw_io_seq_end wk\<rparr>)"
        using fp True sn seq hd d(3) by (simp add: insert_req_sorted_def head_def q'_def Let_def)
      moreover have "chain w_next q' (head (pre @ [e])) used' \<and> chain w_prev q' (head (rev used')) (rev used')"
        using hd d e True ne post by (intro splice) (auto simp: q'_def nth_list_update head_def)
      moreover have "same_content ?q q'" unfolding q'_def
        using hd d(3) by (intro same_content_upd) (auto simp: same_content_def nth_list_update)
      moreover have "\<forall>x. x \<notin> set (e # used) \<longrightarrow> q' ! x = ?q ! x" using hd by (auto simp: q'_def nth_list_update)
      moreover have "last used' = iw_io_seq_end wk" using fin ne by (simp add: used' True post)
      ultimately show ?thesis using True by (metis append_Nil head_def list.distinct(1) list.sel(1))
    next
      case pne: False
      let ?c = "last pre"
      have c: "?c \<in> set used" "?c \<noteq> e" "?c < length ?q" "?c \<noteq> NO_ENTRY" "head (rev pre) = ?c" "head (pre @ [e]) = hd used"
        using pne d(2,4) used bound[of ?c] NR_less_NO(1)[of ?c] by (auto simp: head_def hd_rev)
      have nc: "w_next (?q ! ?c) = head post"
      proof -
        have "chain w_next ?q (iw_io_seq wk) (butlast pre @ ?c # post)" using ch(1) used append_butlast_last_id[OF pne] by (metis append.assoc append_Cons append_Nil)
        then show ?thesis by (auto simp: path_append dest: path_head)
      qed
      show ?thesis
      proof (cases "post = []")
        case True
        define q' where "q' = ?q[e := (?q ! e)\<lparr>w_prev := ?c\<rparr>, ?c := (?q ! ?c)\<lparr>w_next := e\<rparr>]"
        have "insert_req_sorted e wk t = Some (wk\<lparr>iw_work_queue := q', iw_io_seq := iw_io_seq wk, iw_io_seq_end := e\<rparr>)"
          using fp sn c nc True d(3) by (simp add: insert_req_sorted_def head_def q'_def Let_def)
        moreover have "chain w_next q' (head (pre @ [e])) used' \<and> chain w_prev q' (head (rev used')) (rev used')"
          using c d e True pne by (intro splice) (auto simp: q'_def nth_list_update head_def)
        moreover have "same_content ?q q'" unfolding q'_def
          using c d(3) by (intro same_content_upd) (auto simp: same_content_def nth_list_update)
        moreover have "\<forall>x. x \<notin> set (e # used) \<longrightarrow> q' ! x = ?q ! x" using c by (auto simp: q'_def nth_list_update)
        moreover have "last used' = e" by (simp add: used' True)
        ultimately show ?thesis using c(6) seq by metis
      next
        case qne: False
        let ?h = "hd post"
        have h: "?h \<in> set used" "?h \<noteq> e" "?h < length ?q" "?h \<noteq> NO_ENTRY" "?h \<noteq> ?c" "head post = ?h"
          using qne d pne used bound[of ?h] NR_less_NO(1)[of ?h] by (auto simp: head_def)
             (metis disjoint_iff distinct_append hd_in_set last_in_set)
        define q' where "q' = ?q[e := (?q ! e)\<lparr>w_prev := ?c, w_next := ?h\<rparr>, ?h := (?q ! ?h)\<lparr>w_prev := e\<rparr>,
          ?c := (?q ! ?c)\<lparr>w_next := e\<rparr>]"
        have other: "x \<noteq> e" if "x \<in> set used" for x using that d(2) by blast
        have v: "q' ! ?c = (?q ! ?c)\<lparr>w_next := e\<rparr>" "q' ! ?h = (?q ! ?h)\<lparr>w_prev := e\<rparr>"
          "q' ! e = (?q ! e)\<lparr>w_prev := ?c, w_next := ?h\<rparr>" "\<And>x. x \<noteq> ?c \<Longrightarrow> x \<noteq> ?h \<Longrightarrow> x \<noteq> e \<Longrightarrow> q' ! x = ?q ! x"
          using c h d(3) by (simp_all add: q'_def)
        have "insert_req_sorted e wk t = Some (wk\<lparr>iw_work_queue := q', iw_io_seq := iw_io_seq wk, iw_io_seq_end := iw_io_seq_end wk\<rparr>)"
          using fp sn c nc h d(3) by (simp add: insert_req_sorted_def q'_def Let_def)
        moreover have "chain w_next q' (head (pre @ [e])) used' \<and> chain w_prev q' (head (rev used')) (rev used')"
        proof (rule splice)
          show "length q' = length ?q" by (simp add: q'_def)
          show "w_next (q' ! ?c) = e" "w_next (q' ! e) = head post" "w_prev (q' ! ?h) = e" "w_prev (q' ! e) = head (rev pre)"
            using v c h by simp_all
          show "w_next (q' ! x) = w_next (?q ! x)" if "x \<in> set used" "pre = [] \<or> x \<noteq> ?c" for x
            using v that pne other[OF that(1)] by (cases "x = ?h") auto
          show "w_prev (q' ! x) = w_prev (?q ! x)" if "x \<in> set used" "post = [] \<or> x \<noteq> ?h" for x
            using v that qne other[OF that(1)] by (cases "x = ?c") auto
        qed
        moreover have "same_content ?q q'" unfolding q'_def
          using c h d(3) by (intro same_content_upd) (auto simp: same_content_def nth_list_update)
        moreover have "\<forall>x. x \<notin> set (e # used) \<longrightarrow> q' ! x = ?q ! x" 
        proof (intro allI impI)
          fix x assume "x \<notin> set (e # used)"
          then have "x \<noteq> ?c" "x \<noteq> ?h" "x \<noteq> e" using c(1) h(1) by auto
          then show "q' ! x = ?q ! x" by (rule v(4))
        qed
        moreover have "last used' = iw_io_seq_end wk" using fin ne used qne by (simp add: used')
        ultimately show ?thesis using c(6) seq by metis
      qed
    qed
  qed
qed

lemma set_insert_used [simp]: "set (insert_used P e used) = insert e (set used)"
  by (cases "insert_place P used") (auto simp: insert_used_def dest: insert_place_append)

lemma distinct_insert_used: "distinct used \<Longrightarrow> e \<notin> set used \<Longrightarrow> distinct (insert_used P e used)"
  by (cases "insert_place P used") (auto simp: insert_used_def dest!: insert_place_append)

lemma insert_used_cong: "(\<And>x. x \<in> set used \<Longrightarrow> P x = Q x) \<Longrightarrow> insert_used P e used = insert_used Q e used"
  using dropWhile_cong[of "rev used" "rev used" P Q] takeWhile_cong[of "rev used" "rev used" P Q]
  unfolding insert_used_def insert_place_def by simp

lemma insert_used_nonempty [simp]: "insert_used P e used \<noteq> []"
  by (simp add: insert_used_def split: prod.splits)

section \<open>The operations on the lists\<close>

lemma take_free_full: "wq_ok wk used [e] \<Longrightarrow> take_free wk = Some (None, wk)"
  using NR_less_NO(2) by (auto simp: wq_ok_def take_free_def)

lemma take_free_ok:
  assumes "wq_ok wk used (e # free)" "free \<noteq> []"
  shows "take_free wk = Some (Some e, wk\<lparr>iw_free_seq := hd free\<rparr>)" "chain w_next (iw_work_queue wk) (hd free) free"
    "w_next (iw_work_queue wk ! e) = hd free"
proof -
  have c: "chain w_next (iw_work_queue wk) (iw_free_seq wk) (e # free)" using assms(1) by (simp add: wq_ok_def)
  then have n: "w_next (iw_work_queue wk ! e) = hd free" using path_head[of w_next "iw_work_queue wk" _ free] assms(2) by (auto simp: head_def)
  have "hd free \<in> set (used @ e # free)" using assms(2) by simp
  then have "hd free < NR_MAX_PARALLEL_IO" using assms(1) unfolding wq_ok_def by (metis lessThan_iff)
  then show "take_free wk = Some (Some e, wk\<lparr>iw_free_seq := hd free\<rparr>)" "chain w_next (iw_work_queue wk) (hd free) free"
    "w_next (iw_work_queue wk ! e) = hd free"
    using c n by (auto simp: take_free_def)
qed

text \<open>Taking a free item and filing it, the two halves of both enqueueing operations.\<close>

definition links_cleared :: "(io_work \<Rightarrow> io_work) \<Rightarrow> bool" where
  "links_cleared f \<longleftrightarrow> (\<forall>w. w_next (f w) = NO_ENTRY \<and> w_prev (f w) = NO_ENTRY)"

lemma file_work_ok:
  assumes wq: "wq_ok wk used (e # free)" "free \<noteq> []" and f: "links_cleared f"
  shows "\<exists>wk'. file_work e f t (wk\<lparr>iw_free_seq := hd free\<rparr>) = Some wk' \<and>
    wq_ok wk' (insert_used (later (iw_work_queue wk) (iw_latest_nsecs wk) t) e used) free \<and>
    iw_latest_nsecs wk' = iw_latest_nsecs wk \<and> iw_id wk' = iw_id wk \<and>
    content (iw_work_queue wk' ! e) = content (f (iw_work_queue wk ! e)) \<and>
    (\<forall>x<NR_MAX_PARALLEL_IO. x \<noteq> e \<longrightarrow> content (iw_work_queue wk' ! x) = content (iw_work_queue wk ! x)) \<and>
    (\<forall>x\<in>set free. iw_work_queue wk' ! x = iw_work_queue wk ! x)"
proof -
  let ?q = "iw_work_queue wk" and ?l = "iw_latest_nsecs wk"
  let ?q1 = "?q[e := f (?q ! e)]" and ?w = "wk\<lparr>iw_free_seq := hd free\<rparr>"
  have l: "length ?q = NR_MAX_PARALLEL_IO" "distinct used" "e \<notin> set used" "e \<notin> set free" "set used \<inter> set free = {}"
    "distinct free" "insert e (set used \<union> set free) = {..<NR_MAX_PARALLEL_IO}"
    and c: "chain w_next ?q (iw_io_seq wk) used" "chain w_prev ?q (head (rev used)) (rev used)"
    "used \<noteq> [] \<longrightarrow> iw_io_seq_end wk = last used" and fe: "iw_free_seq_end wk = last free"
    using wq by (auto simp: wq_ok_def)
  have e: "e < NR_MAX_PARALLEL_IO" using l(7) by blast
  let ?w1 = "?w\<lparr>iw_work_queue := ?q1\<rparr>"
  have c1: "chain w_next ?q1 (iw_io_seq wk) used" "chain w_prev ?q1 (head (rev used)) (rev used)"
  proof -
    have "?q1 ! x = ?q ! x" if "x \<in> set used" for x using l(3) that by (intro nth_list_update_neq) auto
    then show "chain w_next ?q1 (iw_io_seq wk) used" "chain w_prev ?q1 (head (rev used)) (rev used)"
      using c(1,2) path_cong[of ?q1 ?q used w_next] path_cong[of ?q1 ?q "rev used" w_prev] by simp_all
  qed
  have le: "insert_used (later ?q1 ?l t) e used = insert_used (later ?q ?l t) e used"
  proof (rule insert_used_cong)
    fix x assume "x \<in> set used"
    then have "x \<noteq> e" using l(3) by blast
    then show "later ?q1 ?l t x = later ?q ?l t x" by (simp add: later_def)
  qed
  obtain q' s' n' where r: "insert_req_sorted e ?w1 t = Some (?w1\<lparr>iw_work_queue := q', iw_io_seq := s', iw_io_seq_end := n'\<rparr>)"
    "same_content ?q1 q'" "\<forall>x. x \<notin> set (e # used) \<longrightarrow> q' ! x = ?q1 ! x"
    "chain w_next q' s' (insert_used (later ?q ?l t) e used)"
    "chain w_prev q' (head (rev (insert_used (later ?q ?l t) e used))) (rev (insert_used (later ?q ?l t) e used))"
    "n' = last (insert_used (later ?q ?l t) e used)"
    using insert_req_sorted_ok[of ?w1 used e t] c1 c(3) l e f le by (auto simp: links_cleared_def)
  have free: "q' ! x = ?q ! x" if "x \<in> set free" for x using r(3) that l(4,5) by auto
  have len: "length q' = NR_MAX_PARALLEL_IO" using r(2) l(1) by (simp add: same_content_def)
  have "chain w_next q' (hd free) free"
    using take_free_ok(2)[OF wq] free l(1) len by (subst path_cong[of _ ?q]) auto
  moreover have "set (insert_used (later ?q ?l t) e used @ free) = {..<NR_MAX_PARALLEL_IO}" using l(7) by auto
  moreover have "distinct (insert_used (later ?q ?l t) e used @ free)" using l distinct_insert_used by auto
  ultimately have "wq_ok (?w1\<lparr>iw_work_queue := q', iw_io_seq := s', iw_io_seq_end := n'\<rparr>) (insert_used (later ?q ?l t) e used) free"
    using r(4-6) len wq(2) fe by (simp add: wq_ok_def)
  moreover have "content (q' ! e) = content (f (?q ! e))"
    "\<forall>x<NR_MAX_PARALLEL_IO. x \<noteq> e \<longrightarrow> content (q' ! x) = content (?q ! x)"
    using r(2) e l(1) by (auto simp: same_content_def)
  moreover have "file_work e f t ?w = Some (?w1\<lparr>iw_work_queue := q', iw_io_seq := s', iw_io_seq_end := n'\<rparr>)"
    using r(1) e l(1) by (simp add: file_work_def)
  ultimately show ?thesis
    using free by (intro exI[of _ "?w1\<lparr>iw_work_queue := q', iw_io_seq := s', iw_io_seq_end := n'\<rparr>"]) simp
qed

section \<open>Reclaiming\<close>

lemma scan_completed_ok:
  assumes "chain w_next q p xs" "length q = NR_MAX_PARALLEL_IO"
  shows "scan_completed q latest p l = Some (last (l # takeWhile (\<lambda>x. reclaimable latest (q ! x)) xs))"
  using assms
proof (induction xs arbitrary: p l)
  case Nil
  then show ?case by (subst scan_completed.simps) simp
next
  case (Cons x xs)
  then have "p = x" "x < length q" "x \<noteq> NO_ENTRY" using NR_less_NO(1)[of x] by auto
  then show ?case using Cons by (subst scan_completed.simps) auto
qed

text \<open>Moving a first part of the list in use to the end of the free list.\<close>

lemma move_front:
  assumes wq: "wq_ok wk (ds @ us) free" and ds: "ds \<noteq> []"
  defines "q \<equiv> iw_work_queue wk"
  defines "q1 \<equiv> if us = [] then q else q[hd us := (q ! hd us)\<lparr>w_prev := NO_ENTRY\<rparr>]"
  defines "q2 \<equiv> q1[last ds := (q1 ! last ds)\<lparr>w_next := NO_ENTRY\<rparr>]"
  defines "q3 \<equiv> q2[hd ds := (q2 ! hd ds)\<lparr>w_prev := last free\<rparr>]"
  defines "q4 \<equiv> q3[last free := (q3 ! last free)\<lparr>w_next := hd ds\<rparr>]"
  shows "wq_ok (wk\<lparr>iw_work_queue := q4, iw_io_seq := head us, iw_free_seq_end := last ds\<rparr>) us (free @ ds)" "same_content q q4"
proof -
  have l: "length q = NR_MAX_PARALLEL_IO" "distinct (ds @ us @ free)" "set (ds @ us @ free) = {..<NR_MAX_PARALLEL_IO}" "free \<noteq> []"
    and c: "chain w_next q (iw_io_seq wk) (ds @ us)" "chain w_prev q (head (rev us @ rev ds)) (rev us @ rev ds)"
    "iw_io_seq_end wk = last (ds @ us)" "chain w_next q (iw_free_seq wk) free"
    using wq ds by (auto simp: wq_ok_def q_def)
  have len: "length q1 = NR_MAX_PARALLEL_IO" "length q2 = NR_MAX_PARALLEL_IO" "length q3 = NR_MAX_PARALLEL_IO" "length q4 = NR_MAX_PARALLEL_IO"
    using l(1) by (auto simp: q1_def q2_def q3_def q4_def)
  have mem: "hd ds \<in> set ds" "last ds \<in> set ds" "last free \<in> set free" "us \<noteq> [] \<Longrightarrow> hd us \<in> set us" using ds l(4) by auto
  have all: "x < NR_MAX_PARALLEL_IO" if "x \<in> set ds \<union> set us \<union> set free" for x
  proof -
    have "x \<in> set (ds @ us @ free)" using that by simp
    then show ?thesis unfolding l(3) by simp
  qed
  have lt: "hd ds < NR_MAX_PARALLEL_IO" "last ds < NR_MAX_PARALLEL_IO" "last free < NR_MAX_PARALLEL_IO" "us \<noteq> [] \<Longrightarrow> hd us < NR_MAX_PARALLEL_IO"
    using mem by (simp_all add: all)
  show "same_content q q4"
  proof -
    have "same_content q q" by (simp add: same_content_def)
    then have "same_content q q1" unfolding q1_def using lt l(1) by (cases "us = []") (auto intro: same_content_upd)
    then have "same_content q q2" unfolding q2_def using lt l(1) by (intro same_content_upd) auto
    then have "same_content q q3" unfolding q3_def using lt l(1) by (intro same_content_upd) auto
    then show ?thesis unfolding q4_def using lt l(1) by (intro same_content_upd) auto
  qed
  have nx: "w_next (q4 ! x) = (if x = last free then hd ds else if x = last ds then NO_ENTRY else w_next (q ! x))"
    if "x < NR_MAX_PARALLEL_IO" for x
  proof -
    have "w_next (q1 ! x) = w_next (q ! x)" using lt(4) l(1) by (cases "us = []") (auto simp: q1_def nth_list_update)
    then have "w_next (q2 ! x) = (if x = last ds then NO_ENTRY else w_next (q ! x))"
      using lt len(1) by (simp add: q2_def nth_list_update)
    moreover have "w_next (q3 ! x) = w_next (q2 ! x)" using lt len(2) by (simp add: q3_def nth_list_update)
    ultimately have "w_next (q3 ! x) = (if x = last ds then NO_ENTRY else w_next (q ! x))" by simp
    then show ?thesis using lt len(3) by (simp add: q4_def nth_list_update)
  qed
  have prev: "w_prev (q4 ! x) = (if x = hd ds then last free else if us \<noteq> [] \<and> x = hd us then NO_ENTRY else w_prev (q ! x))"
    if "x < NR_MAX_PARALLEL_IO" for x
  proof -
    have "w_prev (q1 ! x) = (if us \<noteq> [] \<and> x = hd us then NO_ENTRY else w_prev (q ! x))"
      using lt(4) l(1) by (cases "us = []") (auto simp: q1_def nth_list_update)
    moreover have "w_prev (q2 ! x) = w_prev (q1 ! x)" using lt len(1) by (simp add: q2_def nth_list_update)
    ultimately have "w_prev (q2 ! x) = (if us \<noteq> [] \<and> x = hd us then NO_ENTRY else w_prev (q ! x))" by simp
    with mem l(2) have "w_prev (q3 ! x) = (if x = hd ds then last free else if us \<noteq> [] \<and> x = hd us then NO_ENTRY else w_prev (q ! x))"
      using lt len(2) by (simp add: q3_def nth_list_update)
    moreover have "w_prev (q4 ! x) = w_prev (q3 ! x)" using lt len(3) by (simp add: q4_def nth_list_update)
    ultimately show ?thesis by simp
  qed
  have "chain w_next q (head us) us" using c(1) by (auto simp: path_append dest: path_head)
  then have 1: "chain w_next q4 (head us) us"
    using nx all mem l(2) len l(1) by (subst path_cong[of _ q]) auto
  have 2: "chain w_prev q4 (head (rev us)) (rev us)"
  proof (cases us)
    case (Cons u us')
    then obtain m where m: "path w_prev q (head (rev us @ rev ds)) (rev us') u" "u < length q"
      using c(2) by (auto simp: path_append)
    have h: "head (rev us @ rev ds) = head (rev us)" using Cons by (simp add: head_def hd_append)
    have "path w_prev q4 (head (rev us)) (rev us') u"
      using m(1) prev all mem l(2) len l(1) Cons unfolding h by (subst path_cong[of _ q]) auto
    moreover have "w_prev (q4 ! u) = NO_ENTRY" using prev[of u] all[of u] Cons mem(1) l(2) by auto
    ultimately show ?thesis using Cons m(2) len l(1) by (auto simp: path_append)
  qed (simp add: head_def)
  obtain fs where fs: "free = fs @ [last free]" using l(4) by (metis append_butlast_last_id)
  obtain ds' where ds': "ds = ds' @ [last ds]" using ds by (metis append_butlast_last_id)
  have 3: "chain w_next q4 (iw_free_seq wk) (free @ ds)"
  proof -
    have "path w_next q (iw_free_seq wk) fs (last free)" using c(4) by (subst (asm) fs) (auto simp: path_append)
    moreover have "x \<noteq> last free \<and> x \<in> set free" if "x \<in> set fs" for x
      using l(2) that fs by (metis distinct_append not_distinct_conv_prefix in_set_conv_decomp Un_iff set_append distinct.simps(2) list.set_intros(1) disjoint_iff)
    ultimately have a: "path w_next q4 (iw_free_seq wk) fs (last free)"
      using nx all mem l(2) len l(1) by (subst path_cong[of _ q]) auto
    obtain n where "path w_next q (iw_io_seq wk) ds n" using c(1) by (auto simp: path_append)
    then have "path w_next q (hd ds) ds' (last ds)"
      using ds by (subst (asm) ds', cases ds) (auto simp: path_append)
    moreover have "x \<noteq> last ds \<and> x \<in> set ds" if "x \<in> set ds'" for x
      using l(2) that ds' by (metis distinct_append disjoint_iff Un_iff set_append list.set_intros(1))
    moreover have "last free \<notin> set ds" using mem(3) l(2) by auto
    ultimately have b: "path w_next q4 (hd ds) ds' (last ds)"
      using nx all mem l(2) len l(1) by (subst path_cong[of _ q]) auto
    have "chain w_next q4 (hd ds) ds"
      using b nx[OF lt(2)] lt(2) len(4) mem(2,3) l(2) by (subst ds') (auto simp: path_append)
    moreover have "path w_next q4 (iw_free_seq wk) free (hd ds)"
      using a nx[OF lt(3)] lt(3) len(4) by (subst fs) (auto simp: path_append)
    ultimately show ?thesis by (auto simp: path_append)
  qed
  show "wq_ok (wk\<lparr>iw_work_queue := q4, iw_io_seq := head us, iw_free_seq_end := last ds\<rparr>) us (free @ ds)"
    using 1 2 3 len(4) l ds c(3) by (auto simp: wq_ok_def)
qed

definition done_part :: "io_worker \<Rightarrow> nat list \<Rightarrow> nat list" where
  "done_part wk used = takeWhile (\<lambda>x. reclaimable (iw_latest_nsecs wk) (iw_work_queue wk ! x)) used"

definition kept_part :: "io_worker \<Rightarrow> nat list \<Rightarrow> nat list" where
  "kept_part wk used = dropWhile (\<lambda>x. reclaimable (iw_latest_nsecs wk) (iw_work_queue wk ! x)) used"

lemma done_kept: "done_part wk used @ kept_part wk used = used"
  by (simp add: done_part_def kept_part_def)

lemma reclaim_worker_ok:
  assumes wq: "wq_ok wk used free"
  shows "\<exists>wk'. reclaim_worker wk = Some wk' \<and> wq_ok wk' (kept_part wk used) (free @ done_part wk used) \<and>
    same_content (iw_work_queue wk) (iw_work_queue wk') \<and> iw_latest_nsecs wk' = iw_latest_nsecs wk \<and> iw_id wk' = iw_id wk"
proof -
  let ?q = "iw_work_queue wk" and ?ds = "done_part wk used" and ?us = "kept_part wk used"
  have c: "chain w_next ?q (iw_io_seq wk) used" "length ?q = NR_MAX_PARALLEL_IO" using wq by (auto simp: wq_ok_def)
  have scan: "scan_completed ?q (iw_latest_nsecs wk) (iw_io_seq wk) NO_ENTRY = Some (last (NO_ENTRY # ?ds))"
    using scan_completed_ok[OF c] by (simp add: done_part_def)
  show ?thesis
  proof (cases "?ds = []")
    case True
    then have "?us = used" using done_kept[of wk used] by simp
    then show ?thesis using True wq scan by (simp add: reclaim_worker_def Let_def same_content_def)
  next
    case False
    have wq': "wq_ok wk (?ds @ ?us) free" using wq by (simp add: done_kept)
    note mf = move_front[OF wq' False]
    have mem: "hd ?ds \<in> set used" "last ?ds \<in> set used" "last free \<in> set free" "?us \<noteq> [] \<Longrightarrow> hd ?us \<in> set used"
    proof -
      have "set ?ds \<subseteq> set used" "set ?us \<subseteq> set used" by (auto simp: done_part_def kept_part_def dest: set_takeWhileD set_dropWhileD)
      then show "hd ?ds \<in> set used" "last ?ds \<in> set used" "?us \<noteq> [] \<Longrightarrow> hd ?us \<in> set used" using False by auto
      show "last free \<in> set free" using wq by (simp add: wq_ok_def)
    qed
    have lt: "x < length ?q" "x \<noteq> NO_ENTRY" if "x \<in> set used \<union> set free" for x
    proof -
      have "x \<in> set (used @ free)" using that by simp
      then show "x < length ?q" "x \<noteq> NO_ENTRY" using wq NR_less_NO(1) unfolding wq_ok_def by auto
    qed
    have seq: "iw_io_seq wk = hd ?ds" using path_head[OF c(1)] False done_kept[of wk used] by (metis append_is_Nil_conv hd_append2 head_def)
    have nx: "w_next (?q ! last ?ds) = head ?us"
    proof -
      have "chain w_next ?q (iw_io_seq wk) (butlast ?ds @ last ?ds # ?us)"
        using c(1) done_kept[of wk used] append_butlast_last_id[OF False] by (metis append.assoc append_Cons append_Nil)
      then show ?thesis by (auto simp: path_append dest: path_head)
    qed
    have fe: "iw_free_seq_end wk = last free" using wq by (simp add: wq_ok_def)
    show ?thesis
      using mf scan mem seq nx fe False lt by (cases "?us = []") (simp_all add: reclaim_worker_def Let_def head_def)
  qed
qed

section \<open>The worker's round and the initial state\<close>

text \<open>A round changes flags only.\<close>

lemma visit_work_ok:
  assumes wq: "wq_ok wk used free" and cur: "cur < NR_MAX_PARALLEL_IO"
  defines "w \<equiv> iw_work_queue wk ! cur"
  shows "\<exists>wk'. visit_work now cur wk =
      Some (wk', if w_is_completed w \<or> w_is_copied w \<or> w_is_internal w then None else Some w,
        if w_is_completed w \<or> now < w_nsecs_target w then None else Some (w\<lparr>w_is_copied := True, w_is_completed := True\<rparr>), w_next w) \<and>
    wq_ok wk' used free \<and> iw_latest_nsecs wk' = now \<and> iw_id wk' = iw_id wk \<and> iw_io_seq wk' = iw_io_seq wk \<and>
    iw_work_queue wk' = (if w_is_completed w then iw_work_queue wk
      else (iw_work_queue wk)[cur := w\<lparr>w_is_copied := True, w_is_completed := (w_nsecs_target w \<le> now)\<rparr>])"
proof -
  have len: "length (iw_work_queue wk) = NR_MAX_PARALLEL_IO" using wq by (simp add: wq_ok_def)
  let ?w = "w\<lparr>w_is_copied := True, w_is_completed := (w_nsecs_target w \<le> now)\<rparr>"
  let ?q = "(iw_work_queue wk)[cur := ?w]"
  have p: "path f ?q p xs r = path f (iw_work_queue wk) p xs r" if "f ?w = f w" for f p xs r
    using that cur len by (intro path_cong) (auto simp: nth_list_update w_def)
  have "wq_ok (wk\<lparr>iw_latest_nsecs := now, iw_work_queue := ?q\<rparr>) used free" "wq_ok (wk\<lparr>iw_latest_nsecs := now\<rparr>) used free"
    using wq by (simp_all add: wq_ok_def p)
  then show ?thesis
    using len cur by (cases "w_is_completed w") (auto simp: visit_work_def Let_def w_def[symmetric] not_le)
qed

lemma init_worker_cells:
  "length (iw_work_queue (init_worker i)) = NR_MAX_PARALLEL_IO"
  "k < NR_MAX_PARALLEL_IO \<Longrightarrow> w_next (iw_work_queue (init_worker i) ! k) = (if Suc k = NR_MAX_PARALLEL_IO then NO_ENTRY else Suc k)"
  by (auto simp: init_worker_def)

lemma init_worker_ok: "wq_ok (init_worker i) [] [0..<NR_MAX_PARALLEL_IO]"
proof -
  let ?q = "iw_work_queue (init_worker i)" and ?n = NR_MAX_PARALLEL_IO
  have n: "0 < ?n" by (simp add: NR_MAX_PARALLEL_IO_def)
  have len: "length ?q = ?n" and q: "\<And>k. k < ?n \<Longrightarrow> w_next (?q ! k) = (if Suc k = ?n then NO_ENTRY else Suc k)"
    by (simp_all add: init_worker_cells)
  have "chain w_next ?q k [k..<?n]" if "k < ?n" for k
    using that
  proof (induction "?n - k" arbitrary: k rule: less_induct)
    case less
    show ?case
    proof (cases "Suc k = ?n")
      case True
      then show ?thesis using q[OF less.prems] less.prems len by (simp add: upt_conv_Cons)
    next
      case False
      then have "chain w_next ?q (Suc k) [Suc k..<?n]" using less by simp
      then show ?thesis using q[OF less.prems] less.prems len False by (simp add: upt_conv_Cons)
    qed
  qed
  then have "chain w_next ?q 0 [0..<?n]" using n by blast
  then show ?thesis using n len by (auto simp: wq_ok_def init_worker_def head_def)
qed

section \<open>The order of the items in use\<close>

text \<open>Items are in the order they are due, those that are due already in any order.\<close>

definition due :: "io_worker \<Rightarrow> nat \<Rightarrow> u64" where
  "due wk x = max (iw_latest_nsecs wk) (w_nsecs_target (iw_work_queue wk ! x))"

definition due_sorted :: "io_worker \<Rightarrow> nat list \<Rightarrow> bool" where
  "due_sorted wk used \<longleftrightarrow> sorted (map (due wk) used)"

lemma insert_used_sorted:
  assumes "sorted (map g used)" "\<And>x. x \<in> set used \<Longrightarrow> P x \<longleftrightarrow> g e < (g x :: u64)"
  shows "sorted (map g (insert_used P e used))"
proof -
  define pre post where "pre = rev (dropWhile P (rev used))" and "post = rev (takeWhile P (rev used))"
  have u: "used = pre @ post" by (simp add: pre_def post_def flip: rev_append)
  have "\<forall>x\<in>set post. P x" by (auto simp: post_def dest: set_takeWhileD)
  then have po: "\<forall>x\<in>set post. g e \<le> g x" using assms(2) u by fastforce
  have pr: "\<forall>x\<in>set pre. g x \<le> g e"
  proof (cases "pre = []")
    case False
    then have "\<not> P (last pre)" unfolding pre_def by (metis hd_dropWhile last_rev rev_is_Nil_conv)
    moreover have "last pre \<in> set used" using False u by simp
    ultimately have "g (last pre) \<le> g e" using assms(2) by (simp add: not_less)
    moreover have "\<forall>x\<in>set pre. g x \<le> g (last pre)"
      using assms(1) False unfolding u by (cases pre rule: rev_cases) (auto simp: sorted_append)
    ultimately show ?thesis by (meson order_trans)
  qed simp
  have "insert_used P e used = pre @ e # post" by (simp add: insert_used_def insert_place_def pre_def post_def)
  then show ?thesis using assms(1) pr po unfolding u by (auto simp: sorted_append)
qed

lemma file_work_sorted:
  assumes wq: "wq_ok wk used (e # free)" "free \<noteq> []" and f: "links_cleared f" "\<And>w. w_nsecs_target (f w) = t"
    and so: "due_sorted wk used" and r: "file_work e f t (wk\<lparr>iw_free_seq := hd free\<rparr>) = Some wk'"
  shows "due_sorted wk' (insert_used (later (iw_work_queue wk) (iw_latest_nsecs wk) t) e used)"
proof -
  obtain l: "iw_latest_nsecs wk' = iw_latest_nsecs wk" and ce: "content (iw_work_queue wk' ! e) = content (f (iw_work_queue wk ! e))"
    and cx: "\<forall>x<NR_MAX_PARALLEL_IO. x \<noteq> e \<longrightarrow> content (iw_work_queue wk' ! x) = content (iw_work_queue wk ! x)"
    using file_work_ok[OF wq f(1), of t] r by auto
  have e: "e \<notin> set used" using wq(1) by (auto simp: wq_ok_def)
  have ne: "due wk' e = max (iw_latest_nsecs wk) t" using l content_sel(5)[OF ce] f(2) by (simp add: due_def)
  have same: "due wk' x = due wk x" if "x \<in> set used" for x
  proof -
    have "x \<in> set (used @ e # free)" using that by simp
    then have "x < NR_MAX_PARALLEL_IO" using wq(1) unfolding wq_ok_def by (metis lessThan_iff)
    then show ?thesis using cx e that l content_sel(5) by (metis due_def)
  qed
  have "sorted (map (due wk') used)" using so same by (simp add: due_sorted_def cong: map_cong)
  moreover have "later (iw_work_queue wk) (iw_latest_nsecs wk) t x \<longleftrightarrow> due wk' e < due wk' x" if "x \<in> set used" for x
    using same[OF that] ne by (auto simp: later_def due_def max_def)
  ultimately show ?thesis unfolding due_sorted_def by (intro insert_used_sorted) auto
qed

lemma reclaim_sorted:
  assumes "wq_ok wk used free" "due_sorted wk used" "reclaim_worker wk = Some wk'"
  shows "due_sorted wk' (kept_part wk used)"
proof -
  have s: "same_content (iw_work_queue wk) (iw_work_queue wk')" "iw_latest_nsecs wk' = iw_latest_nsecs wk"
    using reclaim_worker_ok[OF assms(1)] assms(3) by auto
  have same: "due wk' x = due wk x" if "x \<in> set used" for x
  proof -
    have "x \<in> set (used @ free)" using that by simp
    then have "x < length (iw_work_queue wk)" using assms(1) unfolding wq_ok_def by (metis lessThan_iff)
    then show ?thesis using s content_sel(5) unfolding same_content_def due_def by metis
  qed
  have "sorted (map (due wk) (kept_part wk used))"
    using assms(2) done_kept[of wk used] unfolding due_sorted_def by (metis map_append sorted_append)
  moreover have "map (due wk') (kept_part wk used) = map (due wk) (kept_part wk used)"
    using same by (intro map_cong refl) (auto simp: kept_part_def dest: set_dropWhileD)
  ultimately show ?thesis unfolding due_sorted_def by (simp only:)
qed

lemma visit_sorted:
  assumes "wq_ok wk used free" "due_sorted wk used" "cur < NR_MAX_PARALLEL_IO" "iw_latest_nsecs wk \<le> now"
    "visit_work now cur wk = Some (wk', c, d, n)"
  shows "due_sorted wk' used"
proof -
  have v: "iw_latest_nsecs wk' = now" "iw_work_queue wk' = (if w_is_completed (iw_work_queue wk ! cur) then iw_work_queue wk
      else (iw_work_queue wk)[cur := (iw_work_queue wk ! cur)\<lparr>w_is_copied := True, w_is_completed := (w_nsecs_target (iw_work_queue wk ! cur) \<le> now)\<rparr>])"
    using visit_work_ok[OF assms(1,3), of now] assms(5) by auto
  have "w_nsecs_target (iw_work_queue wk' ! x) = w_nsecs_target (iw_work_queue wk ! x)" for x
    using v(2) assms(1,3) by (auto simp: nth_list_update wq_ok_def)
  then have d: "due wk' x = max now (due wk x)" for x using v(1) assms(4) by (simp add: due_def max.assoc[symmetric] max_absorb1)
  show ?thesis
    using assms(2) unfolding due_sorted_def sorted_wrt_map d
    by (auto elim!: sorted_wrt_mono_rel[rotated] simp: max.coboundedI2 intro: max.mono)
qed

end
