(* ===== verification/Io_Proto.thy ===== *)
theory Io_Proto
  imports Io_Queue
begin

text \<open>
  The dispatcher and a worker, interleaved.  The dispatcher files requests and reclaims items; the worker, at its own
  pace, visits one item after the other.  The worker holds on to an item number between two visits, while the dispatcher
  may reclaim that very item and give it to another request.
\<close>

section \<open>The system\<close>

datatype filing =
    Host_request nat nat nat nat u64 u64 nvmev_result
  | Buffer_request nat u64 u64 nat nat

fun filing_work :: "filing \<Rightarrow> io_work \<Rightarrow> io_work" where
  "filing_work (Host_request sqid cqid sq_entry command_id start local ret) = host_work sqid cqid sq_entry command_id start local ret"
| "filing_work (Buffer_request sqid local target buf bytes) = internal_work sqid local target buf bytes"

fun filing_target :: "filing \<Rightarrow> u64" where
  "filing_target (Host_request sqid cqid sq_entry command_id start local ret) = rs_nsecs_target ret"
| "filing_target (Buffer_request sqid local target buf bytes) = target"

definition file_request :: "filing \<Rightarrow> io_worker \<Rightarrow> (io_worker \<times> bool) option" where
  "file_request r wk = do {
     (e, wk1) \<leftarrow> take_free wk;
     (case e of None \<Rightarrow> Some (wk1, False)
      | Some entry \<Rightarrow> do { wk2 \<leftarrow> file_work entry (filing_work r) (filing_target r) wk1; Some (wk2, True) })
   }"

text \<open>What identifies a request, as it is filed and as it is in an item.\<close>

datatype ticket =
    Host_ticket nat nat nat nat nat u64
  | Buffer_ticket nat nat u64

fun filing_ticket :: "filing \<Rightarrow> ticket" where
  "filing_ticket (Host_request sqid cqid sq_entry command_id start local ret) =
     Host_ticket sqid cqid sq_entry command_id (rs_status ret) (rs_nsecs_target ret)"
| "filing_ticket (Buffer_request sqid local target buf bytes) = Buffer_ticket buf bytes target"

definition ticket :: "io_work \<Rightarrow> ticket" where
  "ticket w = (if w_is_internal w then Buffer_ticket (w_write_buffer w) (w_buffs_to_release w) (w_nsecs_target w)
     else Host_ticket (w_sqid w) (w_cqid w) (w_sq_entry w) (w_command_id w) (w_status w) (w_nsecs_target w))"

fun ticket_time :: "ticket \<Rightarrow> u64" where
  "ticket_time (Host_ticket sqid cqid sq_entry command_id status target) = target"
| "ticket_time (Buffer_ticket buf bytes target) = target"

text \<open>The worker, where it stands in its list, the requests that were accepted, and those that were finished, each with
  the time of the clock when it was.\<close>

record wsys =
  ws_wk :: io_worker
  ws_cur :: nat
  ws_accepted :: "ticket list"
  ws_finished :: "(ticket \<times> u64) list"

datatype wevent = File filing | Reclaim | Start_pass | Visit u64

fun wstep :: "wevent \<Rightarrow> wsys \<Rightarrow> wsys option" where
  "wstep (File r) s = do {
     (wk, ok) \<leftarrow> file_request r (ws_wk s);
     Some (s\<lparr>ws_wk := wk, ws_accepted := ws_accepted s @ (if ok then [filing_ticket r] else [])\<rparr>)
   }"
| "wstep Reclaim s = do { wk \<leftarrow> reclaim_worker (ws_wk s); Some (s\<lparr>ws_wk := wk\<rparr>) }"
| "wstep Start_pass s = Some (if ws_cur s = NO_ENTRY then s\<lparr>ws_cur := iw_io_seq (ws_wk s)\<rparr> else s)"
| "wstep (Visit now) s =
    (if ws_cur s = NO_ENTRY then Some s
     else do {
       (wk, _, finished, nxt) \<leftarrow> visit_work now (ws_cur s) (ws_wk s);
       Some (s\<lparr>ws_wk := wk, ws_cur := nxt,
         ws_finished := ws_finished s @ (case finished of None \<Rightarrow> [] | Some w \<Rightarrow> [(ticket w, now)])\<rparr>)
     })"

fun clock_forward :: "wevent \<Rightarrow> wsys \<Rightarrow> bool" where
  "clock_forward (Visit now) s = (iw_latest_nsecs (ws_wk s) \<le> now)"
| "clock_forward _ s = True"

definition start_wsys :: "nat \<Rightarrow> wsys" where
  "start_wsys i = \<lparr>ws_wk = init_worker i, ws_cur = NO_ENTRY, ws_accepted = [], ws_finished = []\<rparr>"

text \<open>Reachable states; \<open>fwd\<close> says whether the worker's clock only moves forward.\<close>

inductive worker_reach :: "bool \<Rightarrow> nat \<Rightarrow> wsys \<Rightarrow> bool" for fwd i where
  start: "worker_reach fwd i (start_wsys i)"
| step: "worker_reach fwd i s \<Longrightarrow> fwd \<longrightarrow> clock_forward e s \<Longrightarrow> wstep e s = Some s' \<Longrightarrow> worker_reach fwd i s'"

section \<open>The invariant\<close>

text \<open>The free list is a part of items that were never used and a part of items that were reclaimed.  The latter are all
  completed, so that a worker that walks into them does nothing, and it never walks out of them into the former.\<close>

definition live :: "io_worker \<Rightarrow> nat list \<Rightarrow> ticket multiset" where
  "live wk used = {#ticket (iw_work_queue wk ! x). x \<in># {#x \<in># mset used. \<not> w_is_completed (iw_work_queue wk ! x)#}#}"

definition lists_ok :: "io_worker \<Rightarrow> nat \<Rightarrow> nat list \<Rightarrow> nat list \<Rightarrow> nat list \<Rightarrow> bool" where
  "lists_ok wk cur used fresh old \<longleftrightarrow> wq_ok wk used (fresh @ old) \<and> (cur = NO_ENTRY \<or> cur \<in> set used \<union> set old) \<and>
     (\<forall>x\<in>set old. w_is_completed (iw_work_queue wk ! x))"

definition wsys_ok :: "bool \<Rightarrow> wsys \<Rightarrow> bool" where
  "wsys_ok fwd s \<longleftrightarrow> (\<exists>used fresh old. lists_ok (ws_wk s) (ws_cur s) used fresh old \<and>
     mset (ws_accepted s) = mset (map fst (ws_finished s)) + live (ws_wk s) used \<and>
     (fwd \<longrightarrow> due_sorted (ws_wk s) used)) \<and>
     (\<forall>(k, now)\<in>set (ws_finished s). ticket_time k \<le> now)"

lemma ticket_content: "content w = content v \<Longrightarrow> ticket w = ticket v"
  by (simp add: ticket_def content_sel[of w v])

lemma filing_work_facts [simp]:
  "links_cleared (filing_work r)" "w_nsecs_target (filing_work r w) = filing_target r" "\<not> w_is_completed (filing_work r w)"
  "ticket (filing_work r w) = filing_ticket r"
  by (cases r; simp add: links_cleared_def host_work_def internal_work_def ticket_def)+

lemma mset_insert_used [simp]: "mset (insert_used P e used) = add_mset e (mset used)"
  by (cases "insert_place P used") (auto simp: insert_used_def dest!: insert_place_append)

lemma image_filter_cong:
  assumes "\<And>x. x \<in># M \<Longrightarrow> t x = t' x \<and> P x = P' x"
  shows "image_mset t (filter_mset P M) = image_mset t' (filter_mset P' M)"
proof -
  have "filter_mset P M = filter_mset P' M" using assms by (intro filter_mset_cong) auto
  then show ?thesis using assms by (auto intro: image_mset_cong)
qed

lemma live_cong:
  assumes "\<And>x. x \<in> set used \<Longrightarrow> content (iw_work_queue wk' ! x) = content (iw_work_queue wk ! x)"
  shows "live wk' used = live wk used"
  unfolding live_def
proof (rule image_filter_cong)
  fix x assume "x \<in># mset used"
  then have c: "content (iw_work_queue wk' ! x) = content (iw_work_queue wk ! x)" using assms by simp
  show "ticket (iw_work_queue wk' ! x) = ticket (iw_work_queue wk ! x) \<and>
      (\<not> w_is_completed (iw_work_queue wk' ! x)) = (\<not> w_is_completed (iw_work_queue wk ! x))"
    using ticket_content[OF c] content_sel(7)[OF c] by simp
qed

lemma wq_mem: "wq_ok wk used free \<Longrightarrow> x \<in> set used \<union> set free \<Longrightarrow> x < NR_MAX_PARALLEL_IO"
  unfolding wq_ok_def by (metis set_append lessThan_iff)

section \<open>Every step keeps it\<close>

lemma file_step_ok:
  assumes ok: "lists_ok wk cur used fresh old"
  shows "\<exists>wk' b used' fresh' old'. file_request r wk = Some (wk', b) \<and> lists_ok wk' cur used' fresh' old' \<and>
    live wk' used' = (if b then add_mset (filing_ticket r) (live wk used) else live wk used) \<and>
    (due_sorted wk used \<longrightarrow> due_sorted wk' used')"
proof -
  have wq: "wq_ok wk used (fresh @ old)" using ok by (simp add: lists_ok_def)
  then have "fresh @ old \<noteq> []" by (simp add: wq_ok_def)
  then obtain e free where f: "fresh @ old = e # free" by (cases "fresh @ old") auto
  show ?thesis
  proof (cases "free = []")
    case True
    then have "file_request r wk = Some (wk, False)" using take_free_full[of wk used e] wq f by (simp add: file_request_def)
    then show ?thesis using ok
      by (intro exI[of _ wk] exI[of _ False] exI[of _ used] exI[of _ fresh] exI[of _ old]) simp
  next
    case False
    note wq' = wq[unfolded f]
    let ?t = "filing_target r" and ?used = "insert_used (later (iw_work_queue wk) (iw_latest_nsecs wk) (filing_target r)) e used"
    obtain wk' where w: "file_work e (filing_work r) ?t (wk\<lparr>iw_free_seq := hd free\<rparr>) = Some wk'" "wq_ok wk' ?used free"
      "content (iw_work_queue wk' ! e) = content (filing_work r (iw_work_queue wk ! e))"
      "\<forall>x<NR_MAX_PARALLEL_IO. x \<noteq> e \<longrightarrow> content (iw_work_queue wk' ! x) = content (iw_work_queue wk ! x)"
      using file_work_ok[OF wq' False, of "filing_work r" ?t] by auto
    have run: "file_request r wk = Some (wk', True)"
      using take_free_ok(1)[OF wq' False] w(1) by (simp add: file_request_def)
    define fresh' old' where "fresh' = (if fresh = [] then [] else tl fresh)" and "old' = (if fresh = [] then tl old else old)"
    have fo: "free = fresh' @ old'" "set old' \<subseteq> set old" "set old \<subseteq> insert e (set old')"
      using f by (cases fresh; cases old; auto simp: fresh'_def old'_def)+
    have ne: "x \<noteq> e" "x < NR_MAX_PARALLEL_IO" if "x \<in> set used \<union> set free" for x
    proof -
      have "e \<notin> set used" "e \<notin> set free" using wq' by (simp_all add: wq_ok_def)
      then show "x \<noteq> e" using that by blast
      show "x < NR_MAX_PARALLEL_IO" using wq_mem[OF wq', of x] that by auto
    qed
    have "w_is_completed (iw_work_queue wk' ! x)" if "x \<in> set old'" for x
    proof -
      have "x \<in> set used \<union> set free" using that fo(1) by simp
      then have "content (iw_work_queue wk' ! x) = content (iw_work_queue wk ! x)" using w(4) ne by blast
      moreover have "w_is_completed (iw_work_queue wk ! x)" using that fo(2) ok by (auto simp: lists_ok_def)
      ultimately show ?thesis using content_sel(7) by blast
    qed
    then have ok': "lists_ok wk' cur ?used fresh' old'"
      using w(2) fo ok unfolding lists_ok_def by auto
    have cong: "live wk' used = live wk used" using w(4) ne by (intro live_cong) auto
    have "ticket (iw_work_queue wk' ! e) = filing_ticket r" "\<not> w_is_completed (iw_work_queue wk' ! e)"
      using ticket_content[OF w(3)] content_sel(7)[OF w(3)] by auto
    then have "live wk' ?used = add_mset (filing_ticket r) (live wk used)"
      using cong by (simp add: live_def)
    moreover have "due_sorted wk used \<longrightarrow> due_sorted wk' ?used"
      using file_work_sorted[OF wq' False _ _ _ w(1)] by simp
    ultimately show ?thesis using run ok' by (metis (full_types))
  qed
qed

lemma reclaim_step_ok:
  assumes ok: "lists_ok wk cur used fresh old"
  shows "\<exists>wk' used' old'. reclaim_worker wk = Some wk' \<and> lists_ok wk' cur used' fresh old' \<and> live wk' used' = live wk used \<and>
    (due_sorted wk used \<longrightarrow> due_sorted wk' used')"
proof -
  have wq: "wq_ok wk used (fresh @ old)" using ok by (simp add: lists_ok_def)
  obtain wk' where w: "reclaim_worker wk = Some wk'" "wq_ok wk' (kept_part wk used) ((fresh @ old) @ done_part wk used)"
    "same_content (iw_work_queue wk) (iw_work_queue wk')"
    using reclaim_worker_ok[OF wq] by blast
  have len: "length (iw_work_queue wk) = NR_MAX_PARALLEL_IO" using wq by (simp add: wq_ok_def)
  have same: "content (iw_work_queue wk' ! x) = content (iw_work_queue wk ! x)" if "x \<in> set used \<union> set (fresh @ old)" for x
    using wq_mem[OF wq that] w(3) len by (simp add: same_content_def)
  have dn: "w_is_completed (iw_work_queue wk ! x)" "x \<in> set used" if "x \<in> set (done_part wk used)" for x
    using that by (auto simp: done_part_def reclaimable_def dest: set_takeWhileD)
  have "w_is_completed (iw_work_queue wk' ! x)" if "x \<in> set (old @ done_part wk used)" for x
    using that dn[of x] same[of x] ok content_sel(7)[of "iw_work_queue wk' ! x" "iw_work_queue wk ! x"]
    by (auto simp: lists_ok_def)
  moreover have "set used = set (done_part wk used) \<union> set (kept_part wk used)"
    using done_kept[of wk used] by (metis set_append)
  ultimately have "lists_ok wk' cur (kept_part wk used) fresh (old @ done_part wk used)"
    using w(2) ok unfolding lists_ok_def by auto
  moreover have "live wk' (kept_part wk used) = live wk used"
  proof -
    have "set (kept_part wk used) \<subseteq> set used" by (auto simp: kept_part_def dest: set_dropWhileD)
    then have "live wk' (kept_part wk used) = live wk (kept_part wk used)" using same by (intro live_cong) auto
    moreover have "{#x \<in># mset used. \<not> w_is_completed (iw_work_queue wk ! x)#} =
        {#x \<in># mset (kept_part wk used). \<not> w_is_completed (iw_work_queue wk ! x)#}"
    proof -
      have "mset used = mset (done_part wk used) + mset (kept_part wk used)"
        using done_kept[of wk used] by (metis mset_append)
      moreover have "{#x \<in># mset (done_part wk used). \<not> w_is_completed (iw_work_queue wk ! x)#} = {#}"
        using filter_mset_cong[of "mset (done_part wk used)" "mset (done_part wk used)"
            "\<lambda>x. \<not> w_is_completed (iw_work_queue wk ! x)" "\<lambda>_. False"] dn(1) by simp
      ultimately show ?thesis by simp
    qed
    ultimately show ?thesis by (simp add: live_def)
  qed
  ultimately show ?thesis using w(1) reclaim_sorted[OF wq _ w(1)] by blast
qed

lemma chain_next: "chain f q p xs \<Longrightarrow> x \<in> set xs \<Longrightarrow> f (q ! x) = NO_ENTRY \<or> f (q ! x) \<in> set xs"
proof (induction xs arbitrary: p)
  case (Cons y ys)
  then show ?case by (cases ys) auto
qed simp

lemma visit_step_ok:
  assumes ok: "lists_ok wk cur used fresh old" and cur: "cur \<noteq> NO_ENTRY"
  shows "\<exists>wk' c d nxt. visit_work now cur wk = Some (wk', c, d, nxt) \<and> lists_ok wk' nxt used fresh old \<and>
    live wk used = live wk' used + (case d of None \<Rightarrow> {#} | Some w \<Rightarrow> {#ticket w#}) \<and>
    (\<forall>w. d = Some w \<longrightarrow> w_nsecs_target w \<le> now) \<and>
    (due_sorted wk used \<longrightarrow> iw_latest_nsecs wk \<le> now \<longrightarrow> due_sorted wk' used)"
proof -
  let ?q = "iw_work_queue wk"
  let ?w = "?q ! cur"
  have wq: "wq_ok wk used (fresh @ old)" using ok by (simp add: lists_ok_def)
  have mem: "cur \<in> set used \<union> set old" using ok cur by (simp add: lists_ok_def)
  then have lt: "cur < NR_MAX_PARALLEL_IO" using wq_mem[OF wq] by auto
  have len: "length ?q = NR_MAX_PARALLEL_IO" using wq by (simp add: wq_ok_def)
  obtain wk' where v: "visit_work now cur wk =
      Some (wk', if w_is_completed ?w \<or> w_is_copied ?w \<or> w_is_internal ?w then None else Some ?w,
        if w_is_completed ?w \<or> now < w_nsecs_target ?w then None else Some (?w\<lparr>w_is_copied := True, w_is_completed := True\<rparr>), w_next ?w)"
    "wq_ok wk' used (fresh @ old)"
    "iw_work_queue wk' = (if w_is_completed ?w then ?q
      else ?q[cur := ?w\<lparr>w_is_copied := True, w_is_completed := (w_nsecs_target ?w \<le> now)\<rparr>])"
    using visit_work_ok[OF wq lt, of now] by blast
  have nxt: "w_next ?w = NO_ENTRY \<or> w_next ?w \<in> set used \<union> set old"
  proof (cases "cur \<in> set used")
    case True
    then show ?thesis using wq chain_next[of w_next ?q "iw_io_seq wk" used cur] by (auto simp: wq_ok_def)
  next
    case False
    obtain m where "chain w_next ?q m old" using wq by (auto simp: wq_ok_def path_append)
    then show ?thesis using False mem chain_next by fastforce
  qed
  have comp: "w_is_completed (iw_work_queue wk' ! x)" if "x \<in> set old" for x
    using that v(3) ok lt len by (auto simp: lists_ok_def nth_list_update)
  have "lists_ok wk' (w_next ?w) used fresh old" using v(2) nxt comp by (auto simp: lists_ok_def)
  moreover have "live wk used = live wk' used +
      (if w_is_completed ?w \<or> now < w_nsecs_target ?w then {#} else {#ticket ?w#})"
  proof (cases "w_is_completed ?w")
    case True
    then show ?thesis using v(3) by (simp add: live_def)
  next
    case False
    then have "cur \<in> set used" using mem ok by (auto simp: lists_ok_def)
    then obtain us where us: "mset used = add_mset cur us" by (metis in_multiset_in_set multi_member_split)
    have "distinct used" using wq by (simp add: wq_ok_def)
    then have "count (mset used) cur \<le> 1" unfolding distinct_count_atmost_1 by simp
    then have n: "cur \<notin># us" using us by (simp add: not_in_iff)
    have q': "iw_work_queue wk' = ?q[cur := ?w\<lparr>w_is_copied := True, w_is_completed := (w_nsecs_target ?w \<le> now)\<rparr>]"
      using v(3) False by simp
    have "iw_work_queue wk' ! x = ?q ! x" if "x \<in># us" for x using n that unfolding q' by (metis nth_list_update_neq)
    then have "{#ticket (iw_work_queue wk' ! x). x \<in># {#x \<in># us. \<not> w_is_completed (iw_work_queue wk' ! x)#}#} =
        {#ticket (?q ! x). x \<in># {#x \<in># us. \<not> w_is_completed (?q ! x)#}#}"
      by (intro image_filter_cong) auto
    moreover have "iw_work_queue wk' ! cur = ?w\<lparr>w_is_copied := True, w_is_completed := (w_nsecs_target ?w \<le> now)\<rparr>"
      unfolding q' using lt len by simp
    ultimately show ?thesis using False by (simp add: live_def us ticket_def not_le)
  qed
  moreover have "due_sorted wk used \<longrightarrow> iw_latest_nsecs wk \<le> now \<longrightarrow> due_sorted wk' used"
    using visit_sorted[OF wq _ lt _ v(1)] by blast
  ultimately show ?thesis using v(1) by (auto simp: ticket_def not_le)
qed

lemma wsys_okI:
  assumes "lists_ok (ws_wk s) (ws_cur s) used fresh old"
    "mset (ws_accepted s) = mset (map fst (ws_finished s)) + live (ws_wk s) used" "fwd \<longrightarrow> due_sorted (ws_wk s) used"
    "\<forall>(k, now)\<in>set (ws_finished s). ticket_time k \<le> now"
  shows "wsys_ok fwd s"
  unfolding wsys_ok_def using assms by blast

lemma wsys_ok_start: "wsys_ok fwd (start_wsys i)"
proof -
  have "lists_ok (init_worker i) NO_ENTRY [] [0..<NR_MAX_PARALLEL_IO] []"
    using init_worker_ok[of i] by (simp add: lists_ok_def)
  then show ?thesis unfolding wsys_ok_def
    by (intro conjI exI[of _ "[]"] exI[of _ "[0..<NR_MAX_PARALLEL_IO]"]) (simp_all add: start_wsys_def live_def due_sorted_def)
qed

lemma wstep_ok:
  assumes ok: "wsys_ok fwd s" and f: "fwd \<longrightarrow> clock_forward e s"
  shows "\<exists>s'. wstep e s = Some s' \<and> wsys_ok fwd s'"
proof -
  obtain used fresh old where l: "lists_ok (ws_wk s) (ws_cur s) used fresh old"
    and m: "mset (ws_accepted s) = mset (map fst (ws_finished s)) + live (ws_wk s) used"
    and so: "fwd \<longrightarrow> due_sorted (ws_wk s) used"
    and t: "\<forall>(k, now)\<in>set (ws_finished s). ticket_time k \<le> now"
    using ok by (auto simp: wsys_ok_def)
  show ?thesis
  proof (cases e)
    case (File r)
    obtain wk' b used' fresh' old' where "file_request r (ws_wk s) = Some (wk', b)" "lists_ok wk' (ws_cur s) used' fresh' old'"
      "live wk' used' = (if b then add_mset (filing_ticket r) (live (ws_wk s) used) else live (ws_wk s) used)"
      "due_sorted (ws_wk s) used \<longrightarrow> due_sorted wk' used'"
      using file_step_ok[OF l, of r] by blast
    then show ?thesis using File m so t by (auto intro!: wsys_okI[of _ used' fresh' old'])
  next
    case Reclaim
    obtain wk' used' old' where "reclaim_worker (ws_wk s) = Some wk'" "lists_ok wk' (ws_cur s) used' fresh old'"
      "live wk' used' = live (ws_wk s) used" "due_sorted (ws_wk s) used \<longrightarrow> due_sorted wk' used'"
      using reclaim_step_ok[OF l] by blast
    then show ?thesis using Reclaim m so t by (auto intro!: wsys_okI[of _ used' fresh old'])
  next
    case Start_pass
    have "iw_io_seq (ws_wk s) = NO_ENTRY \<or> iw_io_seq (ws_wk s) \<in> set used"
    proof -
      have "chain w_next (iw_work_queue (ws_wk s)) (iw_io_seq (ws_wk s)) used" using l by (simp add: lists_ok_def wq_ok_def)
      then show ?thesis using path_head[of w_next] by (cases used) (auto simp: head_def)
    qed
    then have "lists_ok (ws_wk s) (iw_io_seq (ws_wk s)) used fresh old" using l by (auto simp: lists_ok_def)
    then show ?thesis using Start_pass l m so t by (auto intro!: wsys_okI[of _ used fresh old])
  next
    case (Visit now)
    show ?thesis
    proof (cases "ws_cur s = NO_ENTRY")
      case True
      then show ?thesis using Visit ok by simp
    next
      case False
      obtain wk' c d nxt where v: "visit_work now (ws_cur s) (ws_wk s) = Some (wk', c, d, nxt)" "lists_ok wk' nxt used fresh old"
        "live (ws_wk s) used = live wk' used + (case d of None \<Rightarrow> {#} | Some w \<Rightarrow> {#ticket w#})"
        "\<forall>w. d = Some w \<longrightarrow> w_nsecs_target w \<le> now"
        "due_sorted (ws_wk s) used \<longrightarrow> iw_latest_nsecs (ws_wk s) \<le> now \<longrightarrow> due_sorted wk' used"
        using visit_step_ok[OF l False, of now] by blast
      have "ticket_time (ticket w) = w_nsecs_target w" for w by (simp add: ticket_def)
      then show ?thesis using Visit False v m so t f by (cases d) (auto intro!: wsys_okI[of _ used fresh old])
    qed
  qed
qed

lemma worker_reach_ok: "worker_reach fwd i s \<Longrightarrow> wsys_ok fwd s"
proof (induction rule: worker_reach.induct)
  case (step s e s')
  then show ?case using wstep_ok[of fwd s e] by auto
qed (rule wsys_ok_start)

section \<open>A pass of the worker on the device\<close>

definition cq_ok :: "completion_queue \<Rightarrow> bool" where
  "cq_ok cq \<longleftrightarrow> cq_cq_head cq < cq_queue_size cq \<and> cq_queue_size cq \<le> length (cq_cq cq)"

text \<open>An item whose command can be copied and whose completion queue exists.\<close>

definition servable :: "(nvme_command \<Rightarrow> io_mem \<Rightarrow> io_mem option) \<Rightarrow> 'n io_dev \<Rightarrow> io_work \<Rightarrow> bool" where
  "servable copy dev w \<longleftrightarrow> w_is_completed w \<or> w_is_internal w \<or>
     (\<exists>sq cq. get_sq dev (w_sqid w) = Some sq \<and> w_sq_entry w < length (sq_sq sq) \<and> get_cq dev (w_cqid w) = Some cq \<and>
       (\<forall>m. copy (sq_sq sq ! w_sq_entry w) m \<noteq> None))"

definition cqs_ok :: "'n io_dev \<Rightarrow> bool" where
  "cqs_ok dev \<longleftrightarrow> (\<forall>i cq. get_cq dev i = Some cq \<longrightarrow> cq_ok cq)"

lemma post_completion_ok:
  assumes "cq_ok cq"
  shows "\<exists>cq'. post_completion w cq = Some cq' \<and> cq_ok cq' \<and> cq_cq_head cq' = (cq_cq_head cq + 1) mod cq_queue_size cq \<and>
    cq_queue_size cq' = cq_queue_size cq \<and> cq_interrupt_ready cq' \<and> cq_irq_vector cq' = cq_irq_vector cq \<and>
    cq_phase cq' = (if cq_cq_head cq + 1 = cq_queue_size cq then (if cq_phase cq = 0 then 1 else 0) else cq_phase cq) \<and>
    cq_cq cq' = (cq_cq cq)[cq_cq_head cq := \<lparr>ce_result0 = w_result0 w, ce_result1 = w_result1 w, ce_sq_head = w_sq_entry w,
       ce_sq_id = w_sqid w, ce_command_id = w_command_id w, ce_status = (cq_phase cq + 2 * w_status w) mod 2 ^ 16\<rparr>]"
proof -
  have "cq_cq_head cq + 1 = cq_queue_size cq \<or> cq_cq_head cq + 1 < cq_queue_size cq" "cq_cq_head cq < length (cq_cq cq)"
    using assms by (auto simp: cq_ok_def)
  then show ?thesis using assms by (auto simp: post_completion_def Let_def cq_ok_def)
qed

lemma fill_cq_result_ok:
  assumes "cqs_ok dev" "get_cq dev (w_cqid w) = Some cq"
  shows "\<exists>cq'. fill_cq_result w dev = Some (put_cq dev (w_cqid w) cq') \<and> cqs_ok (put_cq dev (w_cqid w) cq')"
proof -
  obtain cq' where "post_completion w cq = Some cq'" "cq_ok cq'"
    using post_completion_ok[of cq w] assms by (auto simp: cqs_ok_def)
  then show ?thesis using assms
    by (auto simp: fill_cq_result_def cqs_ok_def get_cq_def put_cq_def array_read_def nth_list_update split: if_splits)
qed

text \<open>The releases that a pass over \<open>xs\<close> makes, in order; the clock at the \<open>j\<close>-th item is \<open>now j\<close>.\<close>

definition releases :: "io_work list \<Rightarrow> (nat \<Rightarrow> u64) \<Rightarrow> nat \<Rightarrow> nat list \<Rightarrow> (nat \<times> nat) list" where
  "releases q now k xs = concat (map (\<lambda>(j, x). if \<not> w_is_completed (q ! x) \<and> w_nsecs_target (q ! x) \<le> now j \<and> w_is_internal (q ! x)
     then [(w_write_buffer (q ! x), w_buffs_to_release (q ! x))] else []) (enumerate k xs))"

lemma worker_visit_ok:
  fixes dev :: "'n io_dev"
  assumes wq: "wq_ok wk used free" and x: "x \<in> set used" and i: "i < length (dv_workers dev)" "dv_workers dev ! i = wk"
    and sv: "servable copy dev (iw_work_queue wk ! x)" and cq: "cqs_ok dev"
  defines "w \<equiv> iw_work_queue wk ! x"
  shows "\<exists>dev' wk'. worker_visit copy now i x dev = Some (dev', w_next w) \<and> wq_ok wk' used free \<and>
    dv_workers dev' = (dv_workers dev)[i := wk'] \<and> dv_sqes dev' = dv_sqes dev \<and> cqs_ok dev' \<and>
    (\<forall>j. get_cq dev' j = None \<longleftrightarrow> get_cq dev j = None) \<and> iw_io_seq wk' = iw_io_seq wk \<and>
    dv_released dev' = dv_released dev @ (if \<not> w_is_completed w \<and> w_nsecs_target w \<le> now \<and> w_is_internal w
      then [(w_write_buffer w, w_buffs_to_release w)] else []) \<and>
    (\<forall>y. y \<noteq> x \<longrightarrow> iw_work_queue wk' ! y = iw_work_queue wk ! y) \<and>
    (w_is_completed (iw_work_queue wk' ! x) \<longleftrightarrow> w_is_completed w \<or> w_nsecs_target w \<le> now) \<and>
    w_next (iw_work_queue wk' ! x) = w_next w"
proof -
  have lt: "x < NR_MAX_PARALLEL_IO" using wq_mem[OF wq, of x] x by auto
  have len: "length (iw_work_queue wk) = NR_MAX_PARALLEL_IO" using wq by (simp add: wq_ok_def)
  let ?cp = "if w_is_completed w \<or> w_is_copied w \<or> w_is_internal w then None else Some w"
  let ?fin = "if w_is_completed w \<or> now < w_nsecs_target w then None else Some (w\<lparr>w_is_copied := True, w_is_completed := True\<rparr>)"
  obtain wk' where v: "visit_work now x wk = Some (wk', ?cp, ?fin, w_next w)" "wq_ok wk' used free" "iw_io_seq wk' = iw_io_seq wk"
    "iw_work_queue wk' = (if w_is_completed w then iw_work_queue wk
      else (iw_work_queue wk)[x := w\<lparr>w_is_copied := True, w_is_completed := (w_nsecs_target w \<le> now)\<rparr>])"
    using visit_work_ok[OF wq lt, of now] unfolding w_def by blast
  have q: "\<forall>y. y \<noteq> x \<longrightarrow> iw_work_queue wk' ! y = iw_work_queue wk ! y"
    "w_is_completed (iw_work_queue wk' ! x) \<longleftrightarrow> w_is_completed w \<or> w_nsecs_target w \<le> now" "w_next (iw_work_queue wk' ! x) = w_next w"
    using v(4) lt len by (auto simp: w_def)
  have sv': "w_is_completed w \<or> w_is_internal w \<or> (\<exists>sq cq. get_sq dev (w_sqid w) = Some sq \<and> w_sq_entry w < length (sq_sq sq) \<and>
      get_cq dev (w_cqid w) = Some cq \<and> (\<forall>m. copy (sq_sq sq ! w_sq_entry w) m \<noteq> None))"
    using sv by (simp add: servable_def w_def)
  obtain mem where mem: "(case ?cp of None \<Rightarrow> Some (dv_mem dev) | Some w \<Rightarrow> do { sq \<leftarrow> get_sq dev (w_sqid w);
      c \<leftarrow> array_read (sq_sq sq) (w_sq_entry w); copy c (dv_mem dev) }) = Some mem"
    using sv' by (cases "?cp") (fastforce split: if_splits)+
  let ?dev1 = "(put_worker dev i wk')\<lparr>dv_mem := mem\<rparr>"
  have g: "get_cq ?dev1 = get_cq dev" by (simp add: fun_eq_iff get_cq_def put_worker_def)
  have c1: "cqs_ok ?dev1" using cq by (simp add: cqs_ok_def g)
  obtain dev2 where d: "(case ?fin of None \<Rightarrow> Some ?dev1
       | Some w \<Rightarrow> if w_is_internal w then Some (?dev1\<lparr>dv_released := dv_released ?dev1 @ [(w_write_buffer w, w_buffs_to_release w)]\<rparr>)
                   else fill_cq_result w ?dev1) = Some dev2"
    "dv_workers dev2 = (dv_workers dev)[i := wk']" "dv_sqes dev2 = dv_sqes dev" "cqs_ok dev2"
    "\<forall>j. get_cq dev2 j = None \<longleftrightarrow> get_cq dev j = None"
    "dv_released dev2 = dv_released dev @ (if \<not> w_is_completed w \<and> w_nsecs_target w \<le> now \<and> w_is_internal w
      then [(w_write_buffer w, w_buffs_to_release w)] else [])"
  proof (cases "w_is_completed w \<or> now < w_nsecs_target w")
    case True
    then show ?thesis using c1 g by (intro that[of ?dev1]) (auto simp: put_worker_def)
  next
    case False
    show ?thesis
    proof (cases "w_is_internal w")
      case True
      let ?d = "?dev1\<lparr>dv_released := dv_released ?dev1 @ [(w_write_buffer w, w_buffs_to_release w)]\<rparr>"
      have "get_cq ?d = get_cq dev" by (simp add: fun_eq_iff get_cq_def put_worker_def)
      then show ?thesis using False True cq by (intro that[of ?d]) (auto simp: put_worker_def cqs_ok_def)
    next
      case ext: False
      let ?w = "w\<lparr>w_is_copied := True, w_is_completed := True\<rparr>"
      obtain cq0 where "get_cq ?dev1 (w_cqid ?w) = Some cq0" using sv' False ext g by auto
      from fill_cq_result_ok[OF c1 this] obtain cq' where f: "fill_cq_result ?w ?dev1 = Some (put_cq ?dev1 (w_cqid w) cq')"
        "cqs_ok (put_cq ?dev1 (w_cqid w) cq')" by auto
      have "get_cq (put_cq ?dev1 (w_cqid w) cq') j = None \<longleftrightarrow> get_cq dev j = None" for j
        using \<open>get_cq ?dev1 (w_cqid ?w) = Some cq0\<close>
        by (auto simp: get_cq_def put_cq_def put_worker_def array_read_def nth_list_update split: if_splits)
      then show ?thesis using False ext f by (intro that[of "put_cq ?dev1 (w_cqid w) cq'"]) (auto simp: put_cq_def put_worker_def)
    qed
  qed
  have "worker_visit copy now i x dev = Some (dev2, w_next w)"
    using i v(1) mem d(1) by (simp add: worker_visit_def Let_def)
  then show ?thesis using d v(2,3) q by (intro exI[of _ dev2] exI[of _ wk']) simp
qed

lemma worker_pass_from:
  fixes dev :: "'n io_dev"
  assumes "wq_ok wk used free" "set xs \<subseteq> set used" "distinct xs" "chain w_next (iw_work_queue wk) cur xs"
    "i < length (dv_workers dev)" "dv_workers dev ! i = wk" "\<forall>x\<in>set xs. servable copy dev (iw_work_queue wk ! x)" "cqs_ok dev"
  shows "\<exists>dev' wk'. worker_pass copy now i cur k dev = Some dev' \<and> wq_ok wk' used free \<and>
    dv_workers dev' = (dv_workers dev)[i := wk'] \<and> dv_sqes dev' = dv_sqes dev \<and> cqs_ok dev' \<and>
    dv_released dev' = dv_released dev @ releases (iw_work_queue wk) now k xs \<and>
    (\<forall>j<length xs. w_is_completed (iw_work_queue wk' ! (xs ! j)) \<longleftrightarrow>
      w_is_completed (iw_work_queue wk ! (xs ! j)) \<or> w_nsecs_target (iw_work_queue wk ! (xs ! j)) \<le> now (k + j)) \<and>
    (\<forall>y. y \<notin> set xs \<longrightarrow> iw_work_queue wk' ! y = iw_work_queue wk ! y)"
  using assms
proof (induction xs arbitrary: cur k dev wk)
  case Nil
  then show ?case by (subst worker_pass.simps) (auto simp: releases_def intro!: exI[of _ wk])
next
  case (Cons x xs)
  let ?q = "iw_work_queue wk"
  have cx: "cur = x" "x \<in> set used" "chain w_next ?q (w_next (?q ! x)) xs" using Cons.prems(2,4) by auto
  have "x < NR_MAX_PARALLEL_IO" using wq_mem[OF Cons.prems(1), of x] cx(2) by auto
  then have nz: "cur \<noteq> NO_ENTRY" using NR_less_NO(1) cx(1) by simp
  obtain d1 w1 where v: "worker_visit copy (now k) i x dev = Some (d1, w_next (?q ! x))" "wq_ok w1 used free"
    "dv_workers d1 = (dv_workers dev)[i := w1]" "dv_sqes d1 = dv_sqes dev" "cqs_ok d1" "\<forall>j. get_cq d1 j = None \<longleftrightarrow> get_cq dev j = None"
    "dv_released d1 = dv_released dev @ (if \<not> w_is_completed (?q ! x) \<and> w_nsecs_target (?q ! x) \<le> now k \<and> w_is_internal (?q ! x)
      then [(w_write_buffer (?q ! x), w_buffs_to_release (?q ! x))] else [])"
    "\<forall>y. y \<noteq> x \<longrightarrow> iw_work_queue w1 ! y = ?q ! y"
    "w_is_completed (iw_work_queue w1 ! x) \<longleftrightarrow> w_is_completed (?q ! x) \<or> w_nsecs_target (?q ! x) \<le> now k"
    using worker_visit_ok[OF Cons.prems(1) cx(2) Cons.prems(5,6) _ Cons.prems(8), of copy "now k"] Cons.prems(7) by auto
  have ys: "y \<noteq> x" "iw_work_queue w1 ! y = ?q ! y" if "y \<in> set xs" for y using that Cons.prems(3) v(8) by auto
  have len: "length (iw_work_queue w1) = length ?q" using v(2) Cons.prems(1) by (simp add: wq_ok_def)
  have "chain w_next (iw_work_queue w1) (w_next (?q ! x)) xs" using cx(3) ys by (subst path_cong[OF len]) auto
  moreover have "\<forall>y\<in>set xs. servable copy d1 (iw_work_queue w1 ! y)"
  proof
    fix y assume y: "y \<in> set xs"
    then have "servable copy dev (?q ! y)" using Cons.prems(7) by simp
    moreover have "get_sq d1 = get_sq dev" using v(4) by (simp add: fun_eq_iff get_sq_def)
    ultimately show "servable copy d1 (iw_work_queue w1 ! y)" using ys(2)[OF y] v(6)
      unfolding servable_def by (metis not_None_eq)
  qed
  ultimately obtain d2 w2 where r: "worker_pass copy now i (w_next (?q ! x)) (k + 1) d1 = Some d2" "wq_ok w2 used free"
    "dv_workers d2 = (dv_workers d1)[i := w2]" "dv_sqes d2 = dv_sqes d1" "cqs_ok d2"
    "dv_released d2 = dv_released d1 @ releases (iw_work_queue w1) now (k + 1) xs"
    "\<forall>j<length xs. w_is_completed (iw_work_queue w2 ! (xs ! j)) \<longleftrightarrow>
      w_is_completed (iw_work_queue w1 ! (xs ! j)) \<or> w_nsecs_target (iw_work_queue w1 ! (xs ! j)) \<le> now (k + 1 + j)"
    "\<forall>y. y \<notin> set xs \<longrightarrow> iw_work_queue w2 ! y = iw_work_queue w1 ! y"
    using Cons.IH[OF v(2), of "w_next (?q ! x)" d1 "k + 1"] Cons.prems v(3,5) by auto
  have "worker_pass copy now i cur k dev = Some d2"
    using nz v(1) r(1) cx(1) by (subst worker_pass.simps) simp
  moreover have "releases (iw_work_queue w1) now (k + 1) xs = releases ?q now (k + 1) xs"
    unfolding releases_def using ys(2) by (intro arg_cong[of _ _ concat] map_cong refl) (auto simp: in_set_enumerate_eq)
  moreover have "w_is_completed (iw_work_queue w2 ! ((x # xs) ! j)) \<longleftrightarrow> w_is_completed (?q ! ((x # xs) ! j)) \<or>
      w_nsecs_target (?q ! ((x # xs) ! j)) \<le> now (k + j)" if "j < length (x # xs)" for j
  proof (cases j)
    case 0
    then show ?thesis using r(8) v(9) Cons.prems(3) by simp
  next
    case (Suc n)
    then show ?thesis using r(7) that ys(2) by simp
  qed
  ultimately show ?case using r v(3,4,7,8)
    by (intro exI[of _ d2] exI[of _ w2]) (auto simp: releases_def)
qed

section \<open>Properties\<close>

text \<open>C16: The dispatcher and a worker, interleaved in any order and with any readings of the clock, never crash: no step
  of either leaves an array or follows a wrong index, although the worker holds item numbers across reclaims.  At every
  moment the requests accepted so far are exactly those finished and those in items not yet completed, so that none is
  lost and none is finished twice, and none was finished before it was due.\<close>

theorem worker_exactly_once:
  assumes "worker_reach fwd i s"
  shows "(\<forall>e. (fwd \<longrightarrow> clock_forward e s) \<longrightarrow> (\<exists>s'. wstep e s = Some s')) \<and>
    (\<exists>used free. wq_ok (ws_wk s) used free \<and>
      mset (ws_accepted s) = mset (map fst (ws_finished s)) +
        {#ticket (iw_work_queue (ws_wk s) ! x). x \<in># {#x \<in># mset used. \<not> w_is_completed (iw_work_queue (ws_wk s) ! x)#}#}) \<and>
    (\<forall>(k, now)\<in>set (ws_finished s). ticket_time k \<le> now)"
proof -
  have ok: "wsys_ok fwd s" by (rule worker_reach_ok[OF assms])
  then show ?thesis using wstep_ok[OF ok] unfolding wsys_ok_def lists_ok_def live_def by blast
qed

definition write_result :: nvmev_result where
  "write_result = \<lparr>rs_status = 0, rs_nsecs_target = 500\<rparr>"

theorem worker_exactly_once_witness:
  "\<exists>s1 s2. wstep (File (Host_request 1 1 0 7 400 401 write_result)) (start_wsys 0) = Some s1 \<and> wstep Start_pass s1 = Some s2 \<and>
    (\<exists>s3. wstep (Visit 450) s2 = Some s3)"
proof -
  have r0: "worker_reach False 0 (start_wsys 0)" by (rule worker_reach.start)
  obtain s1 where 1: "wstep (File (Host_request 1 1 0 7 400 401 write_result)) (start_wsys 0) = Some s1"
    using worker_exactly_once[OF r0] by blast
  have r1: "worker_reach False 0 s1" by (rule worker_reach.step[OF r0 _ 1]) simp
  obtain s2 where 2: "wstep Start_pass s1 = Some s2" using worker_exactly_once[OF r1] by blast
  have "worker_reach False 0 s2" by (rule worker_reach.step[OF r1 _ 2]) simp
  then show ?thesis using 1 2 worker_exactly_once by blast
qed

text \<open>The times in the list: those up to the worker's last reading of the clock come first.\<close>

lemma sorted_max_split:
  fixes t :: "'a \<Rightarrow> 'b :: linorder"
  assumes "sorted (map (\<lambda>x. max l (t x)) xs)"
  shows "\<exists>n\<le>length xs. (\<forall>x\<in>set (take n xs). t x \<le> l) \<and> (\<forall>x\<in>set (drop n xs). l < t x) \<and> sorted (map t (drop n xs))"
  using assms
proof (induction xs)
  case Nil
  then show ?case by simp
next
  case (Cons x xs)
  show ?case
  proof (cases "t x \<le> l")
    case True
    obtain n where "n \<le> length xs" "\<forall>x\<in>set (take n xs). t x \<le> l" "\<forall>x\<in>set (drop n xs). l < t x" "sorted (map t (drop n xs))"
      using Cons by auto
    then show ?thesis using True by (intro exI[of _ "Suc n"]) simp
  next
    case False
    then have m: "max l (t x) = t x" by (simp add: max_absorb2 not_le)
    have x: "t x \<le> max l (t y)" if "y \<in> set xs" for y using Cons.prems that by (simp add: m)
    have so: "sorted (map (\<lambda>x. max l (t x)) xs)" using Cons.prems by simp
    have all: "\<forall>y\<in>set (x # xs). l < t y"
    proof
      fix y assume "y \<in> set (x # xs)"
      then have "t x \<le> max l (t y)" using x by auto
      then show "l < t y" using False by (auto simp: max_def not_le split: if_splits)
    qed
    then have e: "max l (t y) = t y" if "y \<in> set xs" for y using that by (simp add: max_absorb2 less_imp_le)
    then have me: "map (\<lambda>x. max l (t x)) xs = map t xs" by (intro map_cong) simp_all
    have "sorted (map t xs)" using so unfolding me .
    then have "sorted (map t (x # xs))" using x e by simp
    then show ?thesis using all by (intro exI[of _ 0]) simp
  qed
qed

text \<open>C17: If the worker's clock only moves forward, its list of items is at every moment in two parts.  The items of the
  first part are due, at the clock's last reading, in any order; those of the second part are not yet due then, and are in
  the order of their times.  The unfinished items of both parts are, with the finished requests, the accepted requests.\<close>

theorem worker_items_sorted:
  assumes "worker_reach True i s"
  shows "\<exists>used free n. wq_ok (ws_wk s) used free \<and> n \<le> length used \<and>
    (\<forall>x\<in>set (take n used). w_nsecs_target (iw_work_queue (ws_wk s) ! x) \<le> iw_latest_nsecs (ws_wk s)) \<and>
    (\<forall>x\<in>set (drop n used). iw_latest_nsecs (ws_wk s) < w_nsecs_target (iw_work_queue (ws_wk s) ! x)) \<and>
    sorted (map (\<lambda>x. w_nsecs_target (iw_work_queue (ws_wk s) ! x)) (drop n used)) \<and>
    mset (map (\<lambda>x. ticket (iw_work_queue (ws_wk s) ! x)) (filter (\<lambda>x. \<not> w_is_completed (iw_work_queue (ws_wk s) ! x)) used)) +
      mset (map fst (ws_finished s)) = mset (ws_accepted s)"
proof -
  obtain used fresh old where l: "lists_ok (ws_wk s) (ws_cur s) used fresh old" and so: "due_sorted (ws_wk s) used"
    and m: "mset (ws_accepted s) = mset (map fst (ws_finished s)) + live (ws_wk s) used"
    using worker_reach_ok[OF assms] by (auto simp: wsys_ok_def)
  show ?thesis
    using sorted_max_split[OF so[unfolded due_sorted_def due_def[abs_def]]] l m
    by (auto simp: lists_ok_def live_def mset_filter add.commute)
qed

lemma file_request_accepts:
  assumes wq: "wq_ok wk used (e # free)" and free: "free \<noteq> []"
  shows "\<exists>wk' used'. file_request r wk = Some (wk', True) \<and> wq_ok wk' used' free \<and> iw_latest_nsecs wk' = iw_latest_nsecs wk"
proof -
  obtain wk' used' where "file_work e (filing_work r) (filing_target r) (wk\<lparr>iw_free_seq := hd free\<rparr>) = Some wk'"
    "wq_ok wk' used' free" "iw_latest_nsecs wk' = iw_latest_nsecs wk"
    using file_work_ok[OF wq free, of "filing_work r" "filing_target r"] by auto
  then show ?thesis using take_free_ok(1)[OF wq free] by (auto simp: file_request_def)
qed

text \<open>Two requests, the later one filed first.\<close>

definition two_filed :: "wsys \<Rightarrow> bool" where
  "two_filed s \<longleftrightarrow> worker_reach True 0 s \<and> iw_latest_nsecs (ws_wk s) = 0 \<and> ws_finished s = [] \<and>
     ws_accepted s = [Buffer_ticket 2 4096 700, Buffer_ticket 1 8192 500]"

lemma two_filed_reached: "\<exists>s. two_filed s"
proof -
  let ?n = NR_MAX_PARALLEL_IO
  have "2 < ?n" by (simp add: NR_MAX_PARALLEL_IO_def)
  then have n: "[0..<?n] = 0 # 1 # [2..<?n]" "[2..<?n] \<noteq> []"
    using upt_conv_Cons[of 0 ?n] upt_conv_Cons[of 1 ?n] by (auto simp: numeral_2_eq_2)
  let ?a = "Buffer_request 1 0 700 2 4096" and ?b = "Buffer_request 1 0 500 1 8192"
  obtain wk1 used1 where 1: "file_request ?a (init_worker 0) = Some (wk1, True)" "wq_ok wk1 used1 (1 # [2..<?n])"
    "iw_latest_nsecs wk1 = iw_latest_nsecs (init_worker 0)"
    using file_request_accepts[OF init_worker_ok[of 0, unfolded n(1)], of ?a] by blast
  obtain wk2 where 2: "file_request ?b wk1 = Some (wk2, True)" "iw_latest_nsecs wk2 = iw_latest_nsecs wk1"
    using file_request_accepts[OF 1(2) n(2), of ?b] by blast
  define s1 where "s1 = (start_wsys 0)\<lparr>ws_wk := wk1, ws_accepted := [filing_ticket ?a]\<rparr>"
  have r1: "worker_reach True 0 s1"
    using 1(1) by (intro worker_reach.step[OF worker_reach.start, where e = "File ?a"]) (simp_all add: s1_def start_wsys_def)
  have "worker_reach True 0 (s1\<lparr>ws_wk := wk2, ws_accepted := [filing_ticket ?a, filing_ticket ?b]\<rparr>)"
    using 2(1) by (intro worker_reach.step[OF r1, where e = "File ?b"]) (simp_all add: s1_def start_wsys_def)
  then show ?thesis using 1(3) 2(2)
    by (intro exI[of _ "s1\<lparr>ws_wk := wk2, ws_accepted := [filing_ticket ?a, filing_ticket ?b]\<rparr>"])
      (simp add: two_filed_def s1_def start_wsys_def init_worker_def)
qed

theorem worker_items_sorted_witness:
  "\<exists>s used. two_filed s \<and> map (\<lambda>x. w_nsecs_target (iw_work_queue (ws_wk s) ! x))
    (filter (\<lambda>x. \<not> w_is_completed (iw_work_queue (ws_wk s) ! x)) used) = [500, 700]"
proof -
  obtain s where s: "two_filed s" using two_filed_reached by blast
  let ?q = "iw_work_queue (ws_wk s)"
  let ?t = "\<lambda>x. w_nsecs_target (?q ! x)" and ?live = "filter (\<lambda>x. \<not> w_is_completed (?q ! x))"
  from s have r: "worker_reach True 0 s" and l: "iw_latest_nsecs (ws_wk s) = 0" and f: "ws_finished s = []"
    and a: "ws_accepted s = [Buffer_ticket 2 4096 700, Buffer_ticket 1 8192 500]" by (simp_all add: two_filed_def)
  obtain used n where u: "\<forall>x\<in>set (take n used). ?t x \<le> 0" "sorted (map ?t (drop n used))"
    "mset (map (\<lambda>x. ticket (?q ! x)) (?live used)) = {#Buffer_ticket 2 4096 700, Buffer_ticket 1 8192 500#}"
    using worker_items_sorted[OF r] l f a by auto
  have tt: "ticket_time \<circ> (\<lambda>x. ticket (?q ! x)) = ?t" by (auto simp: ticket_def)
  have m: "mset (map ?t (?live used)) = mset [500, 700]"
    using arg_cong[OF u(3), of "image_mset ticket_time"] by (simp add: tt multiset.map_comp add_mset_commute)
  have "?live (take n used) = []"
  proof -
    have "?t x \<noteq> 0" if "x \<in> set (?live used)" for x
    proof -
      have "?t x \<in># mset (map ?t (?live used))" using that by simp
      then show ?thesis unfolding m by auto
    qed
    moreover have "?t x = 0" if "x \<in> set (take n used)" for x using u(1) that by simp
    ultimately show ?thesis by (auto simp: filter_empty_conv dest: in_set_takeD)
  qed
  then have "?live used = ?live (drop n used)" by (metis append_take_drop_id filter_append append_Nil)
  then have "sorted (map ?t (?live used))" using u(2) by (simp add: sorted_filter)
  then have "map ?t (?live used) = [500, 700]" using m properties_for_sort[of "map ?t (?live used)" "[500, 700]"] by simp
  then show ?thesis using s by (intro exI[of _ s] exI[of _ used]) simp
qed

text \<open>C18: A pass of the worker over its items ends.  It leaves the lists as they are, completes exactly the items that are
  due when it comes to them, and releases exactly the buffer space of the due internal items, in their order.\<close>

theorem worker_pass_completes:
  assumes "wq_ok wk used free" "i < length (dv_workers dev)" "dv_workers dev ! i = wk"
    "\<forall>x\<in>set used. servable copy dev (iw_work_queue wk ! x)" "cqs_ok dev"
  shows "\<exists>dev' wk'. worker_pass copy now i (iw_io_seq wk) 0 dev = Some dev' \<and> dv_workers dev' = (dv_workers dev)[i := wk'] \<and>
    wq_ok wk' used free \<and> cqs_ok dev' \<and>
    (\<forall>j<length used. w_is_completed (iw_work_queue wk' ! (used ! j)) \<longleftrightarrow>
      w_is_completed (iw_work_queue wk ! (used ! j)) \<or> w_nsecs_target (iw_work_queue wk ! (used ! j)) \<le> now j) \<and>
    dv_released dev' = dv_released dev @ concat (map (\<lambda>(j, x). let w = iw_work_queue wk ! x in
      if \<not> w_is_completed w \<and> w_nsecs_target w \<le> now j \<and> w_is_internal w then [(w_write_buffer w, w_buffs_to_release w)] else [])
      (enumerate 0 used))"
proof -
  have "distinct used" "chain w_next (iw_work_queue wk) (iw_io_seq wk) used" using assms(1) by (auto simp: wq_ok_def)
  from worker_pass_from[OF assms(1) subset_refl this assms(2-5), of now 0] show ?thesis
    unfolding releases_def Let_def by auto
qed

definition one_worker :: "unit io_dev" where
  "one_worker = \<lparr>dv_workers = [init_worker 0], dv_nr_io_workers = 1, dv_io_worker_turn = 0,
     dv_sqes = [None, Some \<lparr>sq_cqid = 1, sq_queue_size = 4, sq_stat = \<lparr>ss_nr_dispatched = 0, ss_nr_dispatch = 0, ss_nr_in_flight = 0,
       ss_max_nr_in_flight = 0, ss_total_io = 0\<rparr>, sq_sq = replicate 64 (page_command nvme_cmd_write 3)\<rparr>],
     dv_cqes = [None, Some \<lparr>cq_irq_vector = 1, cq_irq_enabled = True, cq_interrupt_ready = False, cq_queue_size = 4, cq_phase = 1,
       cq_cq_head = 0, cq_cq_tail = -1, cq_cq = replicate 256 \<lparr>ce_result0 = 0, ce_result1 = 0, ce_sq_head = 0, ce_sq_id = 0,
         ce_command_id = 0, ce_status = 0\<rparr>\<rparr>], dv_nr_cq = 1, dv_mem = blank_mem, dv_ns_mapped = [1048576], dv_released = [],
     dv_irqs = [], dv_ns = ()\<rparr>"

text \<open>One item in use: a release of 4096 bytes of buffer 2 that is due at 500.\<close>

lemma one_item:
  "\<exists>wk' used' free'. file_request (Buffer_request 1 0 500 2 4096) (init_worker 0) = Some (wk', True) \<and> wq_ok wk' used' free' \<and>
    used' \<noteq> [] \<and> (\<forall>x\<in>set used'. w_is_internal (iw_work_queue wk' ! x))"
proof -
  let ?f = "filing_work (Buffer_request 1 0 500 2 4096)" and ?n = NR_MAX_PARALLEL_IO
  have pos: "1 < ?n" by (simp add: NR_MAX_PARALLEL_IO_def)
  then have n: "[0..<?n] = 0 # [1..<?n]" "[1..<?n] \<noteq> []" using upt_conv_Cons[of 0 ?n] by auto
  note wq = init_worker_ok[of 0, unfolded n(1)]
  obtain wk' where w: "file_work 0 ?f 500 ((init_worker 0)\<lparr>iw_free_seq := hd [1..<?n]\<rparr>) = Some wk'"
    "wq_ok wk' (insert_used (later (iw_work_queue (init_worker 0)) (iw_latest_nsecs (init_worker 0)) 500) 0 []) [1..<?n]"
    "content (iw_work_queue wk' ! 0) = content (?f (iw_work_queue (init_worker 0) ! 0))"
    using file_work_ok[OF wq n(2) filing_work_facts(1)[of "Buffer_request 1 0 500 2 4096"], of 500] by blast
  have "w_is_internal (iw_work_queue wk' ! 0)" using content_sel(8)[OF w(3)] by (simp add: internal_work_def)
  moreover have "file_request (Buffer_request 1 0 500 2 4096) (init_worker 0) = Some (wk', True)"
    using w(1) take_free_ok(1)[OF wq n(2)] by (simp add: file_request_def)
  ultimately show ?thesis using w(2)
    by (intro exI[of _ wk'] exI[of _ "insert_used (later (iw_work_queue (init_worker 0)) (iw_latest_nsecs (init_worker 0)) 500) 0 []"]
        exI[of _ "[1..<?n]"]) auto
qed

theorem worker_pass_completes_witness:
  "\<exists>wk dev'. file_request (Buffer_request 1 0 500 2 4096) (init_worker 0) = Some (wk, True) \<and>
    worker_pass (\<lambda>c m. None) (\<lambda>_. 600) 0 (iw_io_seq wk) 0 (one_worker\<lparr>dv_workers := [wk]\<rparr>) = Some dev'"
proof -
  obtain wk used free where w: "file_request (Buffer_request 1 0 500 2 4096) (init_worker 0) = Some (wk, True)" "wq_ok wk used free"
    "\<forall>x\<in>set used. w_is_internal (iw_work_queue wk ! x)" using one_item by blast
  have "cqs_ok (one_worker\<lparr>dv_workers := [wk]\<rparr>)"
    by (auto simp: cqs_ok_def get_cq_def one_worker_def array_read_def cq_ok_def nth_Cons' split: if_splits)
  then show ?thesis
    using worker_pass_completes[OF w(2), of 0 "one_worker\<lparr>dv_workers := [wk]\<rparr>" "\<lambda>c m. None" "\<lambda>_. 600"] w(1,3)
    by (auto simp: servable_def)
qed

text \<open>Completions are posted round the queue: after \<open>n\<close> of them from an empty queue the head is at \<open>n\<close> modulo the size,
  and the phase, which tells the host which entries are new, has turned once per round.\<close>

fun post_all :: "io_work list \<Rightarrow> completion_queue \<Rightarrow> completion_queue option" where
  "post_all [] cq = Some cq"
| "post_all (w # ws) cq = do { cq' \<leftarrow> post_completion w cq; post_all ws cq' }"

lemma post_all_from:
  assumes "cq_ok cq" "cq_cq_head cq = n mod cq_queue_size cq" "cq_phase cq = (if even (n div cq_queue_size cq) then 1 else 0)"
  shows "\<exists>cq'. post_all ws cq = Some cq' \<and> cq_ok cq' \<and> cq_queue_size cq' = cq_queue_size cq \<and>
    cq_cq_head cq' = (n + length ws) mod cq_queue_size cq \<and>
    cq_phase cq' = (if even ((n + length ws) div cq_queue_size cq) then 1 else 0)"
  using assms
proof (induction ws arbitrary: cq n)
  case (Cons w ws)
  let ?s = "cq_queue_size cq"
  obtain cq1 where c: "post_completion w cq = Some cq1" "cq_ok cq1" "cq_cq_head cq1 = (cq_cq_head cq + 1) mod ?s" "cq_queue_size cq1 = ?s"
    "cq_phase cq1 = (if cq_cq_head cq + 1 = ?s then (if cq_phase cq = 0 then 1 else 0) else cq_phase cq)"
    using post_completion_ok[OF Cons.prems(1)] by blast
  have h: "cq_cq_head cq1 = (n + 1) mod ?s" using c(3) Cons.prems(2) by (simp add: mod_Suc_eq)
  have d: "(n + 1) div ?s = (if n mod ?s + 1 = ?s then Suc (n div ?s) else n div ?s)"
    using div_Suc[of n ?s] mod_Suc[of n ?s] by (auto split: if_splits)
  have p: "cq_phase cq1 = (if even ((n + 1) div ?s) then 1 else 0)"
    unfolding c(5) d using Cons.prems(2,3) by simp
  show ?case using Cons.IH[OF c(2), of "n + 1"] h p c(1,4) by auto
qed auto

text \<open>C19: Posting any number of completions on a fresh queue never leaves its memory; the head is their number modulo the size of
  the queue, and the phase turns once in every round, so that the host can tell new entries from old ones.\<close>

theorem completion_phase:
  assumes "cq_cq_head cq = 0" "cq_phase cq = 1" "0 < cq_queue_size cq" "cq_queue_size cq \<le> length (cq_cq cq)"
  shows "\<exists>cq'. post_all ws cq = Some cq' \<and> cq_cq_head cq' = length ws mod cq_queue_size cq \<and>
    cq_phase cq' = (if even (length ws div cq_queue_size cq) then 1 else 0)"
  using post_all_from[of cq 0 ws] assms by (auto simp: cq_ok_def)

theorem completion_phase_witness:
  "\<exists>cq'. post_all (replicate 6 zero_work) (the (dv_cqes one_worker ! 1)) = Some cq' \<and> cq_cq_head cq' = 2 \<and> cq_phase cq' = 0"
  using completion_phase[of "the (dv_cqes one_worker ! 1)" "replicate 6 zero_work"] by (simp add: one_worker_def)

text \<open>When only one item is free, a request that the command processor has accepted is dropped: enqueueing it returns
  normally and changes nothing, so that it is never completed.\<close>

theorem enqueue_drops_when_full:
  assumes "get_io_worker sqid dev = Some i" "i < length (dv_workers dev)" "dv_workers dev ! i = wk"
    "iw_free_seq wk < length (iw_work_queue wk)" "w_next (iw_work_queue wk ! iw_free_seq wk) = NO_ENTRY"
  shows "enqueue_io_req sqid cqid sq_entry start local ret dev = Some dev"
  using assms NR_less_NO(2) by (simp add: enqueue_io_req_def allocate_work_queue_entry_def take_free_def)

theorem enqueue_drops_when_full_witness:
  "enqueue_io_req 1 1 0 400 401 write_result (one_worker\<lparr>dv_workers := [(init_worker 0)\<lparr>iw_free_seq := 16383\<rparr>]\<rparr>) =
    Some (one_worker\<lparr>dv_workers := [(init_worker 0)\<lparr>iw_free_seq := 16383\<rparr>]\<rparr>)"
proof (rule enqueue_drops_when_full[where i = 0 and wk = "(init_worker 0)\<lparr>iw_free_seq := 16383\<rparr>"])
  have "length (iw_work_queue (init_worker 0)) = 16384" "w_next (iw_work_queue (init_worker 0) ! 16383) = NO_ENTRY"
    using init_worker_cells(1)[of 0] init_worker_cells(2)[of 16383 0] by (simp_all add: NR_MAX_PARALLEL_IO_def)
  then show "iw_free_seq ((init_worker 0)\<lparr>iw_free_seq := 16383\<rparr>) < length (iw_work_queue ((init_worker 0)\<lparr>iw_free_seq := 16383\<rparr>))"
    "w_next (iw_work_queue ((init_worker 0)\<lparr>iw_free_seq := 16383\<rparr>) ! iw_free_seq ((init_worker 0)\<lparr>iw_free_seq := 16383\<rparr>)) = NO_ENTRY"
    by simp_all
qed (simp_all add: get_io_worker_def one_worker_def)

end
