(* ===== verification/Io_Dispatch.thy ===== *)
theory Io_Dispatch
  imports Io_Proto Conv_Props Zns_Props
begin

text \<open>
  The dispatcher on top of a namespace: what it relies on is stated as a locale of laws for the command processor, and
  the processors of the page-mapped and of the zoned drive are shown to keep them.
\<close>

section \<open>The dispatcher keeps the workers' lists\<close>

definition workers_ok :: "'n io_dev \<Rightarrow> bool" where
  "workers_ok dev \<longleftrightarrow> 0 < dv_nr_io_workers dev \<and> length (dv_workers dev) = dv_nr_io_workers dev \<and>
     (\<forall>wk\<in>set (dv_workers dev). \<exists>used free. wq_ok wk used free)"

text \<open>An operation that touches the workers only.\<close>

definition only_workers :: "'n io_dev \<Rightarrow> 'n io_dev \<Rightarrow> bool" where
  "only_workers dev dev' \<longleftrightarrow> dv_nr_io_workers dev' = dv_nr_io_workers dev \<and> dv_sqes dev' = dv_sqes dev \<and> dv_cqes dev' = dv_cqes dev \<and>
     dv_nr_cq dev' = dv_nr_cq dev \<and> dv_mem dev' = dv_mem dev \<and> dv_ns_mapped dev' = dv_ns_mapped dev \<and>
     dv_released dev' = dv_released dev \<and> dv_irqs dev' = dv_irqs dev \<and> dv_ns dev' = dv_ns dev"

lemma only_workers_refl [simp]: "only_workers dev dev"
  by (simp add: only_workers_def)

lemma only_workers_trans: "only_workers a b \<Longrightarrow> only_workers b c \<Longrightarrow> only_workers a c"
  by (simp add: only_workers_def)

lemma only_workers_sel:
  assumes "only_workers dev dev'"
  shows "dv_ns dev' = dv_ns dev" "dv_sqes dev' = dv_sqes dev" "dv_cqes dev' = dv_cqes dev" "dv_ns_mapped dev' = dv_ns_mapped dev"
    "dv_nr_io_workers dev' = dv_nr_io_workers dev" "get_sq dev' = get_sq dev"
  using assms by (auto simp: only_workers_def get_sq_def fun_eq_iff)

lemma workers_ok_nth:
  assumes "workers_ok dev" "i < length (dv_workers dev)"
  obtains used free where "wq_ok (dv_workers dev ! i) used free"
  using assms(1) nth_mem[OF assms(2)] unfolding workers_ok_def by blast

lemma put_worker_ok:
  assumes "workers_ok dev" "wq_ok wk used free"
  shows "workers_ok (put_worker dev i wk)" "only_workers dev (put_worker dev i wk)"
proof -
  show "workers_ok (put_worker dev i wk)"
    using assms set_update_subset_insert[of "dv_workers dev" i wk] by (auto simp: workers_ok_def put_worker_def)
  show "only_workers dev (put_worker dev i wk)"
    by (simp add: only_workers_def put_worker_def)
qed

lemma take_and_file_ok:
  assumes "wq_ok wk used free"
  shows "take_free wk = Some (None, wk) \<or> (\<exists>e wk1. take_free wk = Some (Some e, wk1) \<and>
    (\<forall>f t. links_cleared f \<longrightarrow> (\<exists>wk2 used' free'. file_work e f t wk1 = Some wk2 \<and> wq_ok wk2 used' free')))"
proof -
  obtain e free' where f: "free = e # free'" using assms by (cases free) (auto simp: wq_ok_def)
  show ?thesis
  proof (cases "free' = []")
    case True
    then show ?thesis using take_free_full[of wk used e] assms f by simp
  next
    case False
    note wq = assms[unfolded f]
    show ?thesis using take_free_ok(1)[OF wq False] file_work_ok[OF wq False] by blast
  qed
qed

lemma enqueue_any_ok:
  assumes ok: "workers_ok dev"
  shows "\<exists>place dev1. allocate_work_queue_entry sqid dev = Some (place, dev1) \<and> only_workers dev dev1 \<and>
    (case place of None \<Rightarrow> dev1 = dev
     | Some (i, e) \<Rightarrow> i < length (dv_workers dev1) \<and>
         (\<forall>f t. links_cleared f \<longrightarrow> (\<exists>wk'. file_work e f t (dv_workers dev1 ! i) = Some wk' \<and>
            workers_ok (put_worker dev1 i wk') \<and> only_workers dev (put_worker dev1 i wk'))))"
proof -
  let ?i = "((sqid + (2 ^ 32 - 1)) mod 2 ^ 32) mod dv_nr_io_workers dev"
  have i: "get_io_worker sqid dev = Some ?i" "?i < length (dv_workers dev)" using ok by (auto simp: get_io_worker_def workers_ok_def)
  let ?wk = "dv_workers dev ! ?i"
  obtain used free where wq: "wq_ok ?wk used free" using workers_ok_nth[OF ok i(2)] .
  from take_and_file_ok[OF wq] consider (full) "take_free ?wk = Some (None, ?wk)"
    | (taken) e wk1 where "take_free ?wk = Some (Some e, wk1)"
      "\<And>f t. links_cleared f \<Longrightarrow> \<exists>wk2 used' free'. file_work e f t wk1 = Some wk2 \<and> wq_ok wk2 used' free'" by blast
  then show ?thesis
  proof cases
    case full
    then have "allocate_work_queue_entry sqid dev = Some (None, dev)" using i by (simp add: allocate_work_queue_entry_def)
    then show ?thesis by auto
  next
    case taken
    define t where "t = (if ?i + 1 = dv_nr_io_workers dev then 0 else ?i + 1)"
    let ?d = "(put_worker dev ?i wk1)\<lparr>dv_io_worker_turn := t\<rparr>"
    have "allocate_work_queue_entry sqid dev = Some (Some (?i, e), ?d)"
      using i taken(1) by (simp add: allocate_work_queue_entry_def t_def)
    moreover have "only_workers dev ?d" by (auto simp: only_workers_def put_worker_def)
    moreover have "?i < length (dv_workers ?d)" "dv_workers ?d ! ?i = wk1" using i(2) by (simp_all add: put_worker_def)
    moreover have "workers_ok (put_worker ?d ?i wk2) \<and> only_workers dev (put_worker ?d ?i wk2)" if "wq_ok wk2 used' free'" for wk2 used' free'
    proof -
      have e: "put_worker ?d ?i wk2 = (put_worker dev ?i wk2)\<lparr>dv_io_worker_turn := t\<rparr>" by (simp add: put_worker_def)
      have "workers_ok ((put_worker dev ?i wk2)\<lparr>dv_io_worker_turn := t\<rparr>)"
        using put_worker_ok(1)[OF ok that] by (simp add: workers_ok_def)
      then show ?thesis unfolding e by (auto simp: only_workers_def put_worker_def)
    qed
    ultimately show ?thesis using taken(2) by (intro exI[of _ "Some (?i, e)"] exI[of _ ?d]) (simp, metis)
  qed
qed

lemma internal_cleared: "links_cleared (internal_work sqid local t buf n)"
  by (simp add: links_cleared_def internal_work_def)

lemma host_cleared: "links_cleared (host_work sqid cqid sq_entry cid start local ret)"
  by (simp add: links_cleared_def host_work_def)

lemma schedule_internal_ok:
  assumes "workers_ok dev"
  shows "\<exists>dev'. schedule_internal_operation sqid t buf n local dev = Some dev' \<and> workers_ok dev' \<and> only_workers dev dev'"
proof -
  obtain place dev1 where a: "allocate_work_queue_entry sqid dev = Some (place, dev1)" "only_workers dev dev1"
    "case place of None \<Rightarrow> dev1 = dev | Some (i, e) \<Rightarrow> i < length (dv_workers dev1) \<and>
         (\<forall>f t. links_cleared f \<longrightarrow> (\<exists>wk'. file_work e f t (dv_workers dev1 ! i) = Some wk' \<and>
            workers_ok (put_worker dev1 i wk') \<and> only_workers dev (put_worker dev1 i wk')))"
    using enqueue_any_ok[OF assms, of sqid] by blast
  show ?thesis
  proof (cases place)
    case None
    then show ?thesis using a assms by (simp add: schedule_internal_operation_def)
  next
    case (Some p)
    obtain i e where p: "p = (i, e)" by (cases p)
    have lt: "i < length (dv_workers dev1)" using a(3) Some p by simp
    obtain wk' where "file_work e (internal_work sqid local t buf n) t (dv_workers dev1 ! i) = Some wk'"
      "workers_ok (put_worker dev1 i wk')" "only_workers dev (put_worker dev1 i wk')"
      using a(3) Some p internal_cleared by fastforce
    then show ?thesis using a(1) lt Some p by (simp add: schedule_internal_operation_def)
  qed
qed

lemma enqueue_io_req_ok:
  assumes "workers_ok dev" "get_sq dev sqid = Some sq" "sq_entry < length (sq_sq sq)"
  shows "\<exists>dev'. enqueue_io_req sqid cqid sq_entry start local ret dev = Some dev' \<and> workers_ok dev' \<and> only_workers dev dev'"
proof -
  obtain place dev1 where a: "allocate_work_queue_entry sqid dev = Some (place, dev1)" "only_workers dev dev1"
    "case place of None \<Rightarrow> dev1 = dev | Some (i, e) \<Rightarrow> i < length (dv_workers dev1) \<and>
         (\<forall>f t. links_cleared f \<longrightarrow> (\<exists>wk'. file_work e f t (dv_workers dev1 ! i) = Some wk' \<and>
            workers_ok (put_worker dev1 i wk') \<and> only_workers dev (put_worker dev1 i wk')))"
    using enqueue_any_ok[OF assms(1), of sqid] by blast
  show ?thesis
  proof (cases place)
    case None
    then show ?thesis using a assms(1) by (simp add: enqueue_io_req_def)
  next
    case (Some p)
    obtain i e where p: "p = (i, e)" by (cases p)
    have lt: "i < length (dv_workers dev1)" using a(3) Some p by simp
    let ?f = "host_work sqid cqid sq_entry (c_command_id (sq_sq sq ! sq_entry)) start local ret"
    obtain wk' where "file_work e ?f (rs_nsecs_target ret) (dv_workers dev1 ! i) = Some wk'"
      "workers_ok (put_worker dev1 i wk')" "only_workers dev (put_worker dev1 i wk')"
      using a(3) Some p host_cleared by fastforce
    then show ?thesis using a(1) lt Some p assms(2,3) by (simp add: enqueue_io_req_def)
  qed
qed

lemma reclaim_from_ok:
  "workers_ok dev \<Longrightarrow> turn + n \<le> length (dv_workers dev) \<Longrightarrow>
    \<exists>dev'. reclaim_from turn n dev = Some dev' \<and> workers_ok dev' \<and> only_workers dev dev'"
proof (induction turn n dev rule: reclaim_from.induct)
  case (1 turn dev)
  then show ?case by simp
next
  case (2 turn n dev)
  have lt: "turn < length (dv_workers dev)" using "2.prems" by simp
  obtain used free where wq: "wq_ok (dv_workers dev ! turn) used free" using workers_ok_nth[OF "2.prems"(1) lt] .
  obtain wk' used' free' where r: "reclaim_worker (dv_workers dev ! turn) = Some wk'" "wq_ok wk' used' free'"
    using reclaim_worker_ok[OF wq] by blast
  note p = put_worker_ok[OF "2.prems"(1) r(2), of turn]
  have "turn + 1 + n \<le> length (dv_workers (put_worker dev turn wk'))" using "2.prems"(2) by (simp add: put_worker_def)
  then obtain dev' where "reclaim_from (turn + 1) n (put_worker dev turn wk') = Some dev'" "workers_ok dev'"
    "only_workers (put_worker dev turn wk') dev'"
    using "2.IH"[OF array_read_in[OF lt] r(1) p(1)] by blast
  then show ?case using lt r(1) only_workers_trans[OF p(2)] by auto
qed

lemma schedule_ops_ok:
  "workers_ok dev \<Longrightarrow> \<exists>dev'. foldM (\<lambda>(q, t, b, n). schedule_internal_operation q t b n local) ops dev = Some dev' \<and>
    workers_ok dev' \<and> only_workers dev dev'"
proof (induction ops arbitrary: dev)
  case Nil
  then show ?case by simp
next
  case (Cons op ops)
  obtain q t b n where op: "op = (q, t, b, n)" by (cases op)
  obtain d1 where d1: "schedule_internal_operation q t b n local dev = Some d1" "workers_ok d1" "only_workers dev d1"
    using schedule_internal_ok[OF Cons.prems] by blast
  obtain d2 where "foldM (\<lambda>(q, t, b, n). schedule_internal_operation q t b n local) ops d1 = Some d2" "workers_ok d2" "only_workers d1 d2"
    using Cons.IH[OF d1(2)] by blast
  then show ?case using d1 op only_workers_trans by auto
qed

text \<open>A submission queue whose entries from \<open>e\<close> on, \<open>n\<close> of them and going round, hold allowed commands for the first
  namespace.\<close>

definition entries_ok :: "('n \<Rightarrow> nvme_command \<Rightarrow> bool) \<Rightarrow> 'n io_dev \<Rightarrow> nat \<Rightarrow> nat \<Rightarrow> nat \<Rightarrow> bool" where
  "entries_ok allowed dev sqid e n \<longleftrightarrow> (\<exists>sq. get_sq dev sqid = Some sq \<and> e < sq_queue_size sq \<and> sq_queue_size sq \<le> length (sq_sq sq) \<and>
     n \<le> sq_queue_size sq \<and>
     (\<forall>k<n. let c = sq_sq sq ! ((e + k) mod sq_queue_size sq) in c_nsid c = 1 \<and> allowed (dv_ns dev) c))"

definition state_ok :: "('n \<Rightarrow> bool) \<Rightarrow> 'n io_dev \<Rightarrow> bool" where
  "state_ok good dev \<longleftrightarrow> workers_ok dev \<and> good (dv_ns dev) \<and> dv_ns_mapped dev \<noteq> []"

text \<open>What the dispatcher leaves alone while it serves one queue.\<close>

definition other_queues :: "nat \<Rightarrow> 'n io_dev \<Rightarrow> 'n io_dev \<Rightarrow> bool" where
  "other_queues sqid dev dev' \<longleftrightarrow> (\<forall>j. j \<noteq> sqid \<longrightarrow> get_sq dev' j = get_sq dev j) \<and> length (dv_sqes dev') = length (dv_sqes dev) \<and>
     dv_cqes dev' = dv_cqes dev \<and> dv_nr_cq dev' = dv_nr_cq dev"

lemma other_queues_refl [simp]: "other_queues sqid dev dev"
  by (simp add: other_queues_def)

lemma other_queues_trans: "other_queues q a b \<Longrightarrow> other_queues q b c \<Longrightarrow> other_queues q a c"
  by (simp add: other_queues_def)

lemma other_queues_workers: "only_workers a b \<Longrightarrow> other_queues q a b"
  by (simp add: only_workers_def other_queues_def get_sq_def)

lemma other_queues_put [simp]: "other_queues q dev (put_sq dev q sq)" "other_queues q dev (put_sq (dev\<lparr>dv_ns := ns\<rparr>) q sq)"
  by (simp_all add: other_queues_def put_sq_def get_sq_def array_read_def)

section \<open>The laws of a command processor\<close>

locale command_processor =
  fixes proc :: "'n io_handler" and good :: "'n \<Rightarrow> bool" and allowed :: "'n \<Rightarrow> nvme_command \<Rightarrow> bool"
    and may_refuse :: "nvme_command \<Rightarrow> bool"
  assumes proc_total: "good ns \<Longrightarrow> allowed ns (rq_cmd rq) \<Longrightarrow>
      \<exists>ns' c r ops. proc local ns rq ret = Some (ns', c, r, ops) \<and> good ns' \<and> allowed ns' = allowed ns \<and>
        (r = None \<longrightarrow> may_refuse (rq_cmd rq))"
begin

lemma proc_io_ok:
  assumes st: "state_ok good dev" and en: "entries_ok allowed dev sqid e (Suc n)"
  shows "\<exists>dev' r. nvmev_proc_io proc sqid e wall local dev = Some (dev', r) \<and> state_ok good dev' \<and>
    other_queues sqid dev dev' \<and> allowed (dv_ns dev') = allowed (dv_ns dev) \<and>
    (\<exists>sq sq'. get_sq dev sqid = Some sq \<and> get_sq dev' sqid = Some sq' \<and> sq_queue_size sq' = sq_queue_size sq \<and>
      sq_stat sq' = sq_stat sq \<and> (r = None \<longrightarrow> may_refuse (sq_sq sq ! e)) \<and>
      (\<forall>k<n. sq_sq sq' ! (((if e + 1 = sq_queue_size sq then 0 else e + 1) + k) mod sq_queue_size sq) =
        sq_sq sq ! ((e + Suc k) mod sq_queue_size sq)) \<and>
      entries_ok allowed dev' sqid (if e + 1 = sq_queue_size sq then 0 else e + 1) n)"
proof -
  obtain sq where sq: "get_sq dev sqid = Some sq" "e < sq_queue_size sq" "sq_queue_size sq \<le> length (sq_sq sq)"
    "Suc n \<le> sq_queue_size sq"
    "\<And>k. k < Suc n \<Longrightarrow> c_nsid (sq_sq sq ! ((e + k) mod sq_queue_size sq)) = 1 \<and> allowed (dv_ns dev) (sq_sq sq ! ((e + k) mod sq_queue_size sq))"
    using en unfolding entries_ok_def Let_def by blast
  let ?c = "sq_sq sq ! e"
  have c: "c_nsid ?c = 1" "allowed (dv_ns dev) ?c" using sq(5)[of 0] sq(2) by auto
  have lt: "sqid < length (dv_sqes dev)" using sq(1) by (auto simp: get_sq_def array_read_def split: if_splits)
  obtain ns c' r ops where p: "proc local (dv_ns dev) \<lparr>rq_cmd = ?c, rq_sq_id = sqid, rq_nsecs_start = wall\<rparr>
      \<lparr>rs_status = NVME_SC_SUCCESS, rs_nsecs_target = wall\<rparr> = Some (ns, c', r, ops)" "good ns" "allowed ns = allowed (dv_ns dev)"
      "r = None \<longrightarrow> may_refuse ?c"
    using proc_total[of "dv_ns dev" "\<lparr>rq_cmd = ?c, rq_sq_id = sqid, rq_nsecs_start = wall\<rparr>" local
        "\<lparr>rs_status = NVME_SC_SUCCESS, rs_nsecs_target = wall\<rparr>"] st c(2) by (auto simp: state_ok_def)
  let ?sq = "sq\<lparr>sq_sq := (sq_sq sq)[e := c']\<rparr>"
  let ?d1 = "put_sq (dev\<lparr>dv_ns := ns\<rparr>) sqid ?sq"
  have w1: "workers_ok ?d1" using st by (simp add: state_ok_def workers_ok_def put_sq_def)
  have g1: "get_sq ?d1 sqid = Some ?sq" using lt by (simp add: get_sq_def put_sq_def)
  obtain d2 where d2: "foldM (\<lambda>(q, t, b, n). schedule_internal_operation q t b n local) ops ?d1 = Some d2" "workers_ok d2" "only_workers ?d1 d2"
    using schedule_ops_ok[OF w1] by blast
  note s2 = only_workers_sel[OF d2(3)]
  have fin: "state_ok good d' \<and> other_queues sqid dev d' \<and> allowed (dv_ns d') = allowed (dv_ns dev) \<and> (\<exists>sq0 sq'. get_sq dev sqid = Some sq0 \<and> get_sq d' sqid = Some sq' \<and> sq_queue_size sq' = sq_queue_size sq0 \<and>
      sq_stat sq' = sq_stat sq0 \<and> (r = None \<longrightarrow> may_refuse (sq_sq sq0 ! e)) \<and>
      (\<forall>k<n. sq_sq sq' ! (((if e + 1 = sq_queue_size sq0 then 0 else e + 1) + k) mod sq_queue_size sq0) =
        sq_sq sq0 ! ((e + Suc k) mod sq_queue_size sq0)) \<and> entries_ok allowed d' sqid (if e + 1 = sq_queue_size sq0 then 0 else e + 1) n)"
    if d': "workers_ok d'" "only_workers ?d1 d'" for d'
  proof -
    note s = only_workers_sel[OF d'(2)]
    have gs: "get_sq d' sqid = Some ?sq" using s(6) g1 by simp
    have ns: "dv_ns d' = ns" using s(1) by (simp add: put_sq_def)
    let ?e = "if e + 1 = sq_queue_size sq then 0 else e + 1"
    have e: "(?e + k) mod sq_queue_size sq = (e + Suc k) mod sq_queue_size sq" for k by (rule ring_step)
    have later: "(sq_sq sq)[e := c'] ! ((?e + k) mod sq_queue_size sq) = sq_sq sq ! ((e + Suc k) mod sq_queue_size sq)" if k: "k < n" for k
    proof -
      have "(e + Suc k) mod sq_queue_size sq \<noteq> e"
      proof
        assume a: "(e + Suc k) mod sq_queue_size sq = e"
        show False
        proof (cases "e + Suc k < sq_queue_size sq")
          case True
          then show False using a by simp
        next
          case False
          then have "(e + Suc k) mod sq_queue_size sq = e + Suc k - sq_queue_size sq"
            using sq(2,4) k by (simp add: le_mod_geq)
          then show False using a sq(2,4) k False by linarith
        qed
      qed
      then show ?thesis unfolding e by simp
    qed
    have "c_nsid ((sq_sq sq)[e := c'] ! ((?e + k) mod sq_queue_size sq)) = 1 \<and>
        allowed ns ((sq_sq sq)[e := c'] ! ((?e + k) mod sq_queue_size sq))" if "k < n" for k
      unfolding later[OF that] using sq(5)[of "Suc k"] that p(3) by simp
    then have "entries_ok allowed d' sqid ?e n"
      unfolding entries_ok_def Let_def gs ns using sq(2-4) by (intro exI[of _ ?sq]) auto
    moreover have "state_ok good d'" using st d'(1) ns s(4) p(2) by (simp add: state_ok_def put_sq_def)
    moreover have "other_queues sqid dev d'" by (rule other_queues_trans[OF other_queues_put(2) other_queues_workers[OF d'(2)]])
    ultimately show ?thesis using sq(1) gs later p(3,4) ns by auto
  qed
  have ent: "(c_nsid ?c + (2 ^ 32 - 1)) mod 2 ^ 32 < length (dv_ns_mapped dev)" using c(1) st by (simp add: state_ok_def)
  have run: "nvmev_proc_io proc sqid e wall local dev = (case r of None \<Rightarrow> Some (d2, None)
      | Some ret \<Rightarrow> do { dev3 \<leftarrow> enqueue_io_req sqid (sq_cqid sq) e wall local ret d2; dev4 \<leftarrow> reclaim_completed_reqs dev3;
          Some (dev4, Some (io_length c')) })"
    using sq(1-3) p(1) d2(1) ent by (simp add: nvmev_proc_io_def Let_def del: One_nat_def)
  show ?thesis
  proof (cases r)
    case None
    then show ?thesis using run fin[OF d2(2,3)] by auto
  next
    case (Some ret)
    have g2: "get_sq d2 sqid = Some ?sq" using s2(6) g1 by simp
    have e2: "e < length (sq_sq ?sq)" using sq(2,3) by simp
    obtain d3 where d3: "enqueue_io_req sqid (sq_cqid sq) e wall local ret d2 = Some d3" "workers_ok d3" "only_workers d2 d3"
      using enqueue_io_req_ok[OF d2(2) g2 e2] by blast
    obtain d4 where d4: "reclaim_completed_reqs d3 = Some d4" "workers_ok d4" "only_workers d3 d4"
      using reclaim_from_ok[OF d3(2), of 0 "dv_nr_io_workers d3"] d3(2) by (auto simp: reclaim_completed_reqs_def workers_ok_def)
    have "only_workers ?d1 d4" using d2(3) d3(3) d4(3) only_workers_trans by blast
    then show ?thesis using run Some d3(1) d4(1) fin[OF d4(2)] by auto
  qed
qed

text \<open>How far the loop came: either through all entries, or up to one that the processor may refuse.\<close>

lemma sq_loop_ok:
  "state_ok good dev \<Longrightarrow> entries_ok allowed dev sqid e n \<Longrightarrow> get_sq dev sqid = Some sq \<Longrightarrow>
    \<exists>dev' m sq'. sq_loop proc wall local sqid n seq e dev = Some (dev', seq + m) \<and> m \<le> n \<and> state_ok good dev' \<and>
      other_queues sqid dev dev' \<and> allowed (dv_ns dev') = allowed (dv_ns dev) \<and> get_sq dev' sqid = Some sq' \<and> sq_queue_size sq' = sq_queue_size sq \<and>
      ss_nr_dispatched (sq_stat sq') = ss_nr_dispatched (sq_stat sq) + of_nat m \<and>
      ss_nr_in_flight (sq_stat sq') = ss_nr_in_flight (sq_stat sq) + of_nat m \<and>
      (m < n \<longrightarrow> may_refuse (sq_sq sq ! ((e + m) mod sq_queue_size sq)))"
proof (induction n arbitrary: seq e dev sq)
  case 0
  then show ?case by auto
next
  case (Suc n)
  let ?e = "if e + 1 = sq_queue_size sq then 0 else e + 1"
  have e: "e < sq_queue_size sq" using Suc.prems(2,3) by (auto simp: entries_ok_def)
  obtain d1 r sq1 where p: "nvmev_proc_io proc sqid e (wall seq) (local seq) dev = Some (d1, r)" "state_ok good d1"
    "get_sq d1 sqid = Some sq1" "sq_queue_size sq1 = sq_queue_size sq" "sq_stat sq1 = sq_stat sq" "r = None \<longrightarrow> may_refuse (sq_sq sq ! e)"
    "\<forall>k<n. sq_sq sq1 ! ((?e + k) mod sq_queue_size sq) = sq_sq sq ! ((e + Suc k) mod sq_queue_size sq)"
    "entries_ok allowed d1 sqid ?e n" "other_queues sqid dev d1" "allowed (dv_ns d1) = allowed (dv_ns dev)"
    using proc_io_ok[OF Suc.prems(1,2), of "wall seq" "local seq"] Suc.prems(3) by fastforce
  show ?case
  proof (cases r)
    case None
    then show ?thesis using p(1-6,9,10) e by (intro exI[of _ d1] exI[of _ 0] exI[of _ sq1]) simp
  next
    case (Some k)
    let ?d = "put_sq d1 sqid (count_dispatched k sq1)"
    have lt: "sqid < length (dv_sqes d1)" using p(3) by (auto simp: get_sq_def array_read_def split: if_splits)
    have g: "get_sq ?d sqid = Some (count_dispatched k sq1)" using lt by (simp add: get_sq_def put_sq_def)
    have f: "sq_queue_size (count_dispatched k sq1) = sq_queue_size sq1" "sq_sq (count_dispatched k sq1) = sq_sq sq1"
      "ss_nr_dispatched (sq_stat (count_dispatched k sq1)) = ss_nr_dispatched (sq_stat sq1) + 1"
      "ss_nr_in_flight (sq_stat (count_dispatched k sq1)) = ss_nr_in_flight (sq_stat sq1) + 1"
      by (simp_all add: count_dispatched_def)
    have "state_ok good ?d" using p(2) by (simp add: state_ok_def workers_ok_def put_sq_def)
    moreover have "entries_ok allowed ?d sqid ?e n"
      using p(3,8) g f unfolding entries_ok_def by (simp add: put_sq_def)
    ultimately obtain d2 m sq2 where l: "sq_loop proc wall local sqid n (seq + 1) ?e ?d = Some (d2, seq + 1 + m)" "m \<le> n" "state_ok good d2"
      "other_queues sqid ?d d2" "allowed (dv_ns d2) = allowed (dv_ns ?d)" "get_sq d2 sqid = Some sq2" "sq_queue_size sq2 = sq_queue_size sq"
      "ss_nr_dispatched (sq_stat sq2) = ss_nr_dispatched (sq_stat sq) + 1 + of_nat m"
      "ss_nr_in_flight (sq_stat sq2) = ss_nr_in_flight (sq_stat sq) + 1 + of_nat m"
      "m < n \<longrightarrow> may_refuse (sq_sq sq1 ! ((?e + m) mod sq_queue_size sq))"
      using Suc.IH[of ?d ?e "count_dispatched k sq1" "seq + 1"] g unfolding f p(4,5) by blast
    have "Suc m < Suc n \<longrightarrow> may_refuse (sq_sq sq ! ((e + Suc m) mod sq_queue_size sq))" using l(10) p(7) by simp
    moreover have "other_queues sqid dev d2" "allowed (dv_ns d2) = allowed (dv_ns dev)"
      using other_queues_trans[OF p(9) other_queues_trans[OF other_queues_put(1) l(4)]] l(5) p(10) by (simp_all add: put_sq_def)
    ultimately show ?thesis using p(1,3,4) Some l(1-3,6-9) by (intro exI[of _ d2] exI[of _ "Suc m"] exI[of _ sq2]) (simp add: add.commute add.left_commute)
  qed
qed

lemma proc_io_sq_full:
  assumes st: "state_ok good dev" and sq: "get_sq dev sqid = Some sq" and db: "new_db < sq_queue_size sq" "old_db < sq_queue_size sq"
  defines "n \<equiv> (if old_db \<le> new_db then new_db - old_db else new_db + sq_queue_size sq - old_db)"
  assumes en: "entries_ok allowed dev sqid old_db n"
  shows "\<exists>dev' m sq'. nvmev_proc_io_sq proc wall local sqid new_db old_db dev = Some (dev', (old_db + m) mod sq_queue_size sq) \<and>
    m \<le> n \<and> state_ok good dev' \<and> other_queues sqid dev dev' \<and> allowed (dv_ns dev') = allowed (dv_ns dev) \<and>
    get_sq dev' sqid = Some sq' \<and> sq_queue_size sq' = sq_queue_size sq \<and>
    ss_nr_dispatched (sq_stat sq') = ss_nr_dispatched (sq_stat sq) + of_nat m \<and>
    ss_nr_in_flight (sq_stat sq') = ss_nr_in_flight (sq_stat sq) + of_nat m \<and>
    (m < n \<longrightarrow> may_refuse (sq_sq sq ! ((old_db + m) mod sq_queue_size sq)))"
proof -
  have n: "nat (let k = int new_db - int old_db in if k < 0 then k + int (sq_queue_size sq) else k) = n"
    using db by (auto simp: n_def Let_def nat_diff_distrib)
  obtain d1 m sq1 where l: "sq_loop proc wall local sqid n 0 old_db dev = Some (d1, 0 + m)" "m \<le> n" "state_ok good d1"
    "other_queues sqid dev d1" "allowed (dv_ns d1) = allowed (dv_ns dev)" "get_sq d1 sqid = Some sq1" "sq_queue_size sq1 = sq_queue_size sq"
    "ss_nr_dispatched (sq_stat sq1) = ss_nr_dispatched (sq_stat sq) + of_nat m"
    "ss_nr_in_flight (sq_stat sq1) = ss_nr_in_flight (sq_stat sq) + of_nat m"
    "m < n \<longrightarrow> may_refuse (sq_sq sq ! ((old_db + m) mod sq_queue_size sq))"
    using sq_loop_ok[OF st en sq, of wall local 0] by blast
  let ?st = "(sq_stat sq1)\<lparr>ss_nr_dispatch := ss_nr_dispatch (sq_stat sq1) + 1\<rparr>"
  let ?sq = "sq1\<lparr>sq_stat := ?st\<lparr>ss_max_nr_in_flight := (if sint (ss_max_nr_in_flight ?st) < sint (ss_nr_in_flight ?st)
    then ss_nr_in_flight ?st else ss_max_nr_in_flight ?st)\<rparr>\<rparr>"
  have lt: "sqid < length (dv_sqes d1)" using l(6) by (auto simp: get_sq_def array_read_def split: if_splits)
  have "array_read (dv_sqes dev) sqid = Some (Some sq)"
    using sq by (cases "array_read (dv_sqes dev) sqid") (auto simp: get_sq_def)
  then have "nvmev_proc_io_sq proc wall local sqid new_db old_db dev = Some (put_sq d1 sqid ?sq, (old_db + m) mod sq_queue_size sq)"
    using l(1,6,7) n db by (simp add: nvmev_proc_io_sq_def Let_def)
  moreover have "get_sq (put_sq d1 sqid ?sq) sqid = Some ?sq" using lt by (simp add: get_sq_def put_sq_def)
  moreover have "state_ok good (put_sq d1 sqid ?sq)" "allowed (dv_ns (put_sq d1 sqid ?sq)) = allowed (dv_ns dev)"
    using l(3,5) by (simp_all add: state_ok_def workers_ok_def put_sq_def)
  moreover have "other_queues sqid dev (put_sq d1 sqid ?sq)" by (rule other_queues_trans[OF l(4) other_queues_put(1)])
  ultimately show ?thesis using l(2,7-10) by (intro exI[of _ "put_sq d1 sqid ?sq"] exI[of _ m] exI[of _ ?sq]) simp
qed

lemma proc_io_sq_ok:
  assumes "state_ok good dev" "get_sq dev sqid = Some sq" "new_db < sq_queue_size sq" "old_db < sq_queue_size sq"
    "entries_ok allowed dev sqid old_db (if old_db \<le> new_db then new_db - old_db else new_db + sq_queue_size sq - old_db)"
  shows "\<exists>dev' m sq'. nvmev_proc_io_sq proc wall local sqid new_db old_db dev = Some (dev', (old_db + m) mod sq_queue_size sq) \<and>
    m \<le> (if old_db \<le> new_db then new_db - old_db else new_db + sq_queue_size sq - old_db) \<and> workers_ok dev' \<and> good (dv_ns dev') \<and>
    get_sq dev' sqid = Some sq' \<and> ss_nr_dispatched (sq_stat sq') = ss_nr_dispatched (sq_stat sq) + of_nat m \<and>
    (m < (if old_db \<le> new_db then new_db - old_db else new_db + sq_queue_size sq - old_db) \<longrightarrow>
      may_refuse (sq_sq sq ! ((old_db + m) mod sq_queue_size sq)))"
  using proc_io_sq_full[OF assms, of wall local] unfolding state_ok_def by blast

text \<open>Without workers the choice of a worker divides by zero.\<close>

lemma proc_io_no_workers:
  assumes dev: "good (dv_ns dev)" "dv_ns_mapped dev \<noteq> []" "dv_nr_io_workers dev = 0"
    and en: "entries_ok allowed dev sqid e (Suc n)" and sq: "get_sq dev sqid = Some sq" and c: "\<not> may_refuse (sq_sq sq ! e)"
  shows "nvmev_proc_io proc sqid e wall local dev = None"
proof -
  let ?c = "sq_sq sq ! e"
  have e: "e < length (sq_sq sq)" "c_nsid ?c = 1" "allowed (dv_ns dev) ?c" using en sq by (force simp: entries_ok_def Let_def)+
  obtain ns c' r ops where p: "proc local (dv_ns dev) \<lparr>rq_cmd = ?c, rq_sq_id = sqid, rq_nsecs_start = wall\<rparr>
      \<lparr>rs_status = NVME_SC_SUCCESS, rs_nsecs_target = wall\<rparr> = Some (ns, c', r, ops)" "r = None \<longrightarrow> may_refuse ?c"
    using proc_total[of "dv_ns dev" "\<lparr>rq_cmd = ?c, rq_sq_id = sqid, rq_nsecs_start = wall\<rparr>" local
        "\<lparr>rs_status = NVME_SC_SUCCESS, rs_nsecs_target = wall\<rparr>"] dev(1) e(3) by auto
  let ?d1 = "put_sq (dev\<lparr>dv_ns := ns\<rparr>) sqid (sq\<lparr>sq_sq := (sq_sq sq)[e := c']\<rparr>)"
  have none: "get_io_worker q d = None" if "dv_nr_io_workers d = 0" for q and d :: "'n io_dev" using that by (simp add: get_io_worker_def nvmev_assert_def)
  have d1: "dv_nr_io_workers ?d1 = 0" using dev(3) by (simp add: put_sq_def)
  have "enqueue_io_req sqid (sq_cqid sq) e wall local ret ?d1 = None" for ret
    using none[OF d1] by (simp add: enqueue_io_req_def allocate_work_queue_entry_def)
  moreover have "foldM (\<lambda>(q, t, b, n). schedule_internal_operation q t b n local) ops ?d1 = (if ops = [] then Some ?d1 else None)"
    using none[OF d1] by (cases ops) (auto simp: schedule_internal_operation_def allocate_work_queue_entry_def)
  ultimately show ?thesis using sq e dev(2) p c by (cases r) (simp_all add: nvmev_proc_io_def Let_def)
qed

end

section \<open>The two drives as command processors\<close>

definition conv_handler :: "conv_ns io_handler" where
  "conv_handler local_clock ns rq ret = do {
     (ns', ok, r, ops) \<leftarrow> conv_proc_nvme_io_cmd local_clock ns rq ret;
     Some (ns', rq_cmd rq, if ok then Some r else None, map (\<lambda>p. (io_sq_id p, io_nsecs p, 0, io_bytes p)) ops)
   }"

text \<open>The pointer to a buffer that a work item carries, as a number.\<close>

fun wbuf_number :: "wbuf_ref \<Rightarrow> nat" where
  "wbuf_number Global_wb = 0"
| "wbuf_number (Zone_wb i) = 2 * i + 1"
| "wbuf_number (Zrwa_wb i) = 2 * i + 2"

text \<open>A report changes the memory of the host at once; for the drive with zones the dispatcher's state holds it, too.\<close>

definition zns_handler :: "nat \<Rightarrow> nat \<Rightarrow> (zns_ftl \<times> memory) io_handler" where
  "zns_handler garbage buffer local_clock ns rq ret = do {
     (zf', c, ok, r, ops, m') \<leftarrow> zns_proc_nvme_io_cmd garbage buffer local_clock (fst ns) rq ret (snd ns);
     Some ((zf', m'), c, if ok then Some r else None, map (\<lambda>p. (io_sq_id p, io_nsecs p, wbuf_number (io_wbuf p), io_bytes p)) ops)
   }"

lemma legal_read_answered:
  assumes ok: "drive_ok ns" and leg: "legal ns (rq_cmd rq)"
  shows "\<exists>ns' r. conv_read ns rq = Some (ns', Some r)"
proof -
  have ns: "ns_inv (host_pages ns) ns" "cn_nr_parts ns = 4" "cn_size ns < 2 ^ 64" "secs_per_pg (ns_spp ns) = 8"
    "host_pages ns \<le> tt_pgs (ns_spp ns)" using ok by (auto simp: drive_ok_def)
  note r = legal_range(1,2)[OF leg ns(3,4,2)]
  have "end_lpn 8 (rq_cmd rq) div 4 < host_pages ns" using r ns(2,4) by (auto simp: in_range_def)
  then show ?thesis using conv_read_ok[OF ns(1), of rq] ns(2,4,5) by auto
qed

interpretation conv_drive: command_processor conv_handler drive_ok legal "\<lambda>c. c_opcode c = nvme_cmd_write"
proof
  fix ns :: conv_ns and rq :: nvmev_request and local_clock :: u64 and ret :: nvmev_result
  assume ok: "drive_ok ns" and leg: "legal ns (rq_cmd rq)"
  obtain ns' where "on_event (Host_command local_clock rq ret) ns = Some ns'" "drive_ok ns'" "cn_size ns' = cn_size ns"
    using on_event_ok[OF ok, of "Host_command local_clock rq ret"] leg by auto
  then obtain b r ops where run: "conv_proc_nvme_io_cmd local_clock ns rq ret = Some (ns', b, r, ops)" and ns': "drive_ok ns'" "cn_size ns' = cn_size ns"
    by (auto split: option.splits)
  have "c_opcode (rq_cmd rq) = nvme_cmd_write" if "\<not> b"
    using run that legal_read_answered[OF ok leg]
    by (auto simp: conv_proc_nvme_io_cmd_def Let_def nvme_cmd_read_def nvme_cmd_write_def nvme_cmd_flush_def split: if_splits bind_splits)
  then show "\<exists>ns' c r ops. conv_handler local_clock ns rq ret = Some (ns', c, r, ops) \<and> drive_ok ns' \<and> legal ns' = legal ns \<and>
      (r = None \<longrightarrow> c_opcode (rq_cmd rq) = nvme_cmd_write)"
    using run ns' by (auto simp: conv_handler_def legal_def fun_eq_iff)
qed

interpretation zns_drive: command_processor "zns_handler garbage buffer" "\<lambda>ns. zns_inv (fst ns)" "\<lambda>ns. zcmd_legal (fst ns)"
  "\<lambda>c. c_opcode c = nvme_cmd_write \<or> c_opcode c = nvme_cmd_zone_append"
proof
  fix ns :: "zns_ftl \<times> memory" and rq :: nvmev_request and local_clock :: u64 and ret :: nvmev_result
  let ?zf = "fst ns"
  assume "zns_inv ?zf" "zcmd_legal ?zf (rq_cmd rq)"
  then obtain zf' c b r ops m' where run: "zns_proc_nvme_io_cmd garbage buffer local_clock ?zf rq ret (snd ns) = Some (zf', c, b, r, ops, m')"
    and zf': "zns_inv zf'" "zf_zp zf' = zf_zp ?zf" "zf_sp zf' = zf_sp ?zf"
    using zns_proc_ok by blast
  have "c_opcode (rq_cmd rq) = nvme_cmd_write \<or> c_opcode (rq_cmd rq) = nvme_cmd_zone_append" if "\<not> b"
    using run that by (auto simp: zns_proc_nvme_io_cmd_def Let_def split: if_splits bind_splits prod.splits)
  moreover have "zcmd_legal zf' = zcmd_legal ?zf"
    using zf'(2,3) by (auto simp: zcmd_legal_def report_legal_def report_size_def Let_def fun_eq_iff)
  ultimately show "\<exists>ns' c r ops. zns_handler garbage buffer local_clock ns rq ret = Some (ns', c, r, ops) \<and> zns_inv (fst ns') \<and>
      zcmd_legal (fst ns') = zcmd_legal ?zf \<and> (r = None \<longrightarrow> c_opcode (rq_cmd rq) = nvme_cmd_write \<or> c_opcode (rq_cmd rq) = nvme_cmd_zone_append)"
    using run zf'(1) by (auto simp: zns_handler_def)
qed

section \<open>Properties\<close>

lemma enum_entries:
  assumes "get_sq dev sqid = Some sq" "sq_queue_size sq \<le> length (sq_sq sq)" "e < sq_queue_size sq" "n \<le> sq_queue_size sq"
    "\<And>c. c \<in> set (sq_sq sq) \<Longrightarrow> c_nsid c = 1 \<and> allowed (dv_ns dev) c"
  shows "entries_ok allowed dev sqid e n"
proof -
  have "sq_sq sq ! ((e + k) mod sq_queue_size sq) \<in> set (sq_sq sq)" for k
  proof (rule nth_mem)
    have "(e + k) mod sq_queue_size sq < sq_queue_size sq" using assms(3) by (intro mod_less_divisor) simp
    then show "(e + k) mod sq_queue_size sq < length (sq_sq sq)" using assms(2) by (rule order_less_le_trans)
  qed
  then show ?thesis using assms unfolding entries_ok_def Let_def by blast
qed

text \<open>A device with one worker and one submission queue of four entries, as an example.\<close>

definition ring :: "nvme_command list \<Rightarrow> submission_queue" where
  "ring cs = \<lparr>sq_cqid = 1, sq_queue_size = 4, sq_stat = \<lparr>ss_nr_dispatched = 0, ss_nr_dispatch = 0, ss_nr_in_flight = 0,
     ss_max_nr_in_flight = 0, ss_total_io = 0\<rparr>, sq_sq = cs\<rparr>"

definition ring_dev :: "nvme_command list \<Rightarrow> 'n \<Rightarrow> 'n io_dev" where
  "ring_dev cs ns = \<lparr>dv_workers = [init_worker 0], dv_nr_io_workers = 1, dv_io_worker_turn = 0, dv_sqes = [None, Some (ring cs)],
     dv_cqes = dv_cqes one_worker, dv_nr_cq = 1, dv_mem = dv_mem one_worker, dv_ns_mapped = [1000000], dv_released = [], dv_irqs = [],
     dv_ns = ns\<rparr>"

lemma ring_dev_ok:
  shows "workers_ok (ring_dev cs ns)" "dv_ns (ring_dev cs ns) = ns" "dv_ns_mapped (ring_dev cs ns) \<noteq> []"
    "get_sq (ring_dev cs ns) 1 = Some (ring cs)" "sq_queue_size (ring cs) = 4" "sq_sq (ring cs) = cs"
  using init_worker_ok[of 0] by (auto simp: ring_dev_def workers_ok_def get_sq_def ring_def)

text \<open>C20: The dispatcher in front of a page-mapped drive: when the doorbell of a submission queue moves, over the end of
  the ring or not, and the new entries are legal commands for the first namespace, then it processes them without leaving
  an array and without a failed assertion, counts and hands on a prefix of them, answers the doorbell value after this
  prefix, and keeps the workers' lists and the drive in order.  The prefix is all of them unless it ends at a write.\<close>

theorem dispatch_conv_total:
  fixes dev :: "conv_ns io_dev"
  assumes "workers_ok dev" "drive_ok (dv_ns dev)" "dv_ns_mapped dev \<noteq> []" "get_sq dev sqid = Some sq"
    "new_db < sq_queue_size sq" "old_db < sq_queue_size sq"
    "entries_ok legal dev sqid old_db (if old_db \<le> new_db then new_db - old_db else new_db + sq_queue_size sq - old_db)"
  shows "\<exists>dev' m sq'. nvmev_proc_io_sq conv_handler wall local_clock sqid new_db old_db dev = Some (dev', (old_db + m) mod sq_queue_size sq) \<and>
    m \<le> (if old_db \<le> new_db then new_db - old_db else new_db + sq_queue_size sq - old_db) \<and> workers_ok dev' \<and> drive_ok (dv_ns dev') \<and>
    get_sq dev' sqid = Some sq' \<and> ss_nr_dispatched (sq_stat sq') = ss_nr_dispatched (sq_stat sq) + of_nat m \<and>
    (m < (if old_db \<le> new_db then new_db - old_db else new_db + sq_queue_size sq - old_db) \<longrightarrow>
      c_opcode (sq_sq sq ! ((old_db + m) mod sq_queue_size sq)) = nvme_cmd_write)"
proof -
  have "state_ok drive_ok dev" using assms(1-3) by (simp add: state_ok_def)
  from conv_drive.proc_io_sq_ok[OF this assms(4-7)] show ?thesis by simp
qed

theorem dispatch_conv_total_witness:
  "\<exists>dev' m. nvmev_proc_io_sq conv_handler (\<lambda>_. 5000) (\<lambda>_. 6000) 1 1 3 (ring_dev (replicate 4 (rq_cmd (rw_request nvme_cmd_write 16 15))) gib_ns) =
    Some (dev', (3 + m) mod 4) \<and> m \<le> 2"
proof -
  let ?cs = "replicate 4 (rq_cmd (rw_request nvme_cmd_write 16 15))"
  note r = ring_dev_ok(1-4)[where cs = ?cs and ns = gib_ns] ring_dev_ok(5,6)[of ?cs]
  have "legal gib_ns (rq_cmd (rw_request nvme_cmd_write 16 15))" by (simp add: legal_def rw_request_def nr_lba_def gib_ns_ok(4))
  then have "entries_ok legal (ring_dev ?cs gib_ns) 1 3 2"
    using r by (intro enum_entries) (auto simp: rw_request_def)
  then show ?thesis
    using dispatch_conv_total[OF r(1) _ r(3,4), of 1 3 "\<lambda>_. 5000" "\<lambda>_. 6000"] r(2,5) gib_ns_ok(2) by auto
qed

text \<open>The same for a drive with zones, where a write or an append may end the prefix.\<close>

theorem dispatch_zns_total:
  fixes dev :: "(zns_ftl \<times> memory) io_dev"
  assumes "workers_ok dev" "zns_inv (fst (dv_ns dev))" "dv_ns_mapped dev \<noteq> []" "get_sq dev sqid = Some sq"
    "new_db < sq_queue_size sq" "old_db < sq_queue_size sq"
    "entries_ok (\<lambda>ns. zcmd_legal (fst ns)) dev sqid old_db (if old_db \<le> new_db then new_db - old_db else new_db + sq_queue_size sq - old_db)"
  shows "\<exists>dev' m sq'. nvmev_proc_io_sq (zns_handler garbage buffer) wall local_clock sqid new_db old_db dev = Some (dev', (old_db + m) mod sq_queue_size sq) \<and>
    m \<le> (if old_db \<le> new_db then new_db - old_db else new_db + sq_queue_size sq - old_db) \<and> workers_ok dev' \<and> zns_inv (fst (dv_ns dev')) \<and>
    get_sq dev' sqid = Some sq' \<and> ss_nr_dispatched (sq_stat sq') = ss_nr_dispatched (sq_stat sq) + of_nat m \<and>
    (m < (if old_db \<le> new_db then new_db - old_db else new_db + sq_queue_size sq - old_db) \<longrightarrow>
      c_opcode (sq_sq sq ! ((old_db + m) mod sq_queue_size sq)) \<in> {nvme_cmd_write, nvme_cmd_zone_append})"
proof -
  have "state_ok (\<lambda>ns. zns_inv (fst ns)) dev" using assms(1-3) by (simp add: state_ok_def)
  from zns_drive.proc_io_sq_ok[OF this assms(4-7)] show ?thesis by simp
qed

definition zns_start :: "zns_ftl \<times> memory" where
  "zns_start = (four_zones, \<lambda>_. 0)"

theorem dispatch_zns_total_witness:
  "\<exists>dev' m. nvmev_proc_io_sq (zns_handler 0 8192) (\<lambda>_. 5000) (\<lambda>_. 6000) 1 2 0 (ring_dev (replicate 4 (rq_cmd (rw_request nvme_cmd_write 4096 7))) zns_start) =
    Some (dev', m mod 4) \<and> m \<le> 2"
proof -
  let ?cs = "replicate 4 (rq_cmd (rw_request nvme_cmd_write 4096 7))"
  note r = ring_dev_ok(1-4)[where cs = ?cs and ns = zns_start] ring_dev_ok(5,6)[of ?cs]
  have leg: "zcmd_legal four_zones (rq_cmd (rw_request nvme_cmd_write 4096 7))"
    using four_zones_ok(4,5) by (simp add: zcmd_legal_def rw_request_def nvme_cmd_write_def nvme_cmd_zone_mgmt_send_def nvme_cmd_zone_mgmt_recv_def)
  have "entries_ok (\<lambda>ns. zcmd_legal (fst ns)) (ring_dev ?cs zns_start) 1 0 2"
    by (rule enum_entries[OF r(4)]) (use leg r(2,5,6) in \<open>auto simp: rw_request_def zns_start_def\<close>)
  then show ?thesis
    using dispatch_zns_total[OF r(1) _ r(3,4), of 2 0 0 8192 "\<lambda>_. 5000" "\<lambda>_. 6000"] r(2,5) four_zones_ok(2) by (auto simp: zns_start_def)
qed

text \<open>C21: A command for namespace 0 or for all namespaces (identifier 0xFFFFFFFF), which a host may use with a flush, makes
  the dispatcher index the array of namespaces outside its bounds, whatever the command processor would answer.\<close>

theorem broadcast_nsid_out_of_bounds:
  assumes "get_sq dev sqid = Some sq" "array_read (sq_sq sq) e = Some c" "c_nsid c = 0 \<or> c_nsid c = 2 ^ 32 - 1"
    "length (dv_ns_mapped dev) < 2 ^ 32 - 1"
  shows "nvmev_proc_io proc sqid e wall local_clock dev = None"
proof -
  have "\<not> (c_nsid c + (2 ^ 32 - 1)) mod 2 ^ 32 < length (dv_ns_mapped dev)" using assms(3,4) by auto
  then show ?thesis using assms(1,2) by (simp add: nvmev_proc_io_def)
qed

theorem broadcast_nsid_out_of_bounds_witness:
  "nvmev_proc_io conv_handler 1 0 5000 6000 (ring_dev [(rq_cmd (rw_request nvme_cmd_flush 0 0))\<lparr>c_nsid := 2 ^ 32 - 1\<rparr>] gib_ns) = None"
  by (rule broadcast_nsid_out_of_bounds[OF ring_dev_ok(4), where c = "(rq_cmd (rw_request nvme_cmd_flush 0 0))\<lparr>c_nsid := 2 ^ 32 - 1\<rparr>"])
    (simp_all add: ring_dev_ok(6), simp add: ring_dev_def)

lemma cq_loop_past_end:
  assumes "get_cq dev cqid = Some cq" "length (cq_cq cq) = cq_queue_size cq" "\<forall>e\<in>set (cq_cq cq). ce_sq_id e < length (dv_sqes dev)"
    "i + n = cq_queue_size cq" "new_db < int i"
  shows "cq_loop cqid new_db (int i) dev = None"
  using assms
proof (induction n arbitrary: i dev)
  case 0
  then show ?case by (subst cq_loop.simps) (simp add: array_read_def)
next
  case (Suc n)
  have lt: "i < length (cq_cq cq)" and ne: "int i \<noteq> new_db" "\<not> int (cq_queue_size cq) \<le> int i" using Suc.prems(2,4,5) by auto
  let ?e = "cq_cq cq ! i"
  have e: "ce_sq_id ?e < length (dv_sqes dev)" using Suc.prems(3) nth_mem[OF lt] by blast
  define d where "d = (case dv_sqes dev ! ce_sq_id ?e of None \<Rightarrow> dev
    | Some sq \<Rightarrow> put_sq dev (ce_sq_id ?e) (sq\<lparr>sq_stat := (sq_stat sq)\<lparr>ss_nr_in_flight := ss_nr_in_flight (sq_stat sq) - 1\<rparr>\<rparr>))"
  have d: "get_cq d cqid = Some cq" "length (dv_sqes d) = length (dv_sqes dev)"
    using Suc.prems(1) by (simp_all add: d_def get_cq_def put_sq_def split: option.split)
  have "cq_loop cqid new_db (int i) dev = cq_loop cqid new_db (int (Suc i)) d"
    using Suc.prems(1) lt ne e by (subst cq_loop.simps) (simp add: d_def add.commute)
  also have "\<dots> = None" using Suc.prems(2-5) d by (intro Suc.IH) auto
  finally show ?case .
qed

text \<open>When the host's completion doorbell wraps, the loop over the new completions reads the entry behind the end of the
  queue before it notices that the index is out of range.  (The pages of a queue hold a multiple of 256 entries; the last
  entry of a queue whose size is such a multiple is the last one of its last page.)\<close>

theorem cq_wrap_reads_past_end:
  assumes "get_cq dev cqid = Some cq" "length (cq_cq cq) = cq_queue_size cq" "\<forall>e\<in>set (cq_cq cq). ce_sq_id e < length (dv_sqes dev)"
    "new_db < old_db" "old_db \<le> int (cq_queue_size cq)" "0 \<le> new_db"
  shows "nvmev_proc_io_cq cqid new_db old_db dev = None"
proof -
  have "cq_loop cqid new_db old_db dev = None"
    using cq_loop_past_end[OF assms(1-3), of "nat old_db" "cq_queue_size cq - nat old_db" new_db] assms(4-6) by simp
  then show ?thesis by (simp add: nvmev_proc_io_cq_def)
qed

definition wrap_dev :: "unit io_dev" where
  "wrap_dev = one_worker\<lparr>dv_cqes := [None, Some ((the (dv_cqes one_worker ! 1))\<lparr>cq_queue_size := 256\<rparr>)]\<rparr>"

theorem cq_wrap_reads_past_end_witness: "nvmev_proc_io_cq 1 3 250 wrap_dev = None"
proof (rule cq_wrap_reads_past_end)
  show "get_cq wrap_dev 1 = Some ((the (dv_cqes one_worker ! 1))\<lparr>cq_queue_size := 256\<rparr>)" by (simp add: wrap_dev_def get_cq_def array_read_def)
qed (simp_all add: wrap_dev_def one_worker_def)

end
