(* ===== verification/Admin.thy ===== *)
theory Admin
  imports Io_Dispatch
begin

unbundle bit_operations_syntax

text \<open>
  The administration queue (src/admin.c) and the registers that set it up (src/pci.c): creation and deletion of I/O
  queues, log pages, the identify structures, features, and the dispatch of administration commands.  The structures the
  host reads are written to its memory byte by byte, as their C layouts place the fields.
\<close>

section \<open>State\<close>

text \<open>An administration command by its fields; \<open>ad_dword10\<close> and \<open>ad_dword11\<close> hold the parameters of all of them.\<close>

record admin_command =
  ad_opcode :: nat
  ad_command_id :: nat
  ad_nsid :: nat
  ad_prp1 :: nat
  ad_dword10 :: nat
  ad_dword11 :: nat

record admin_queue =
  aq_phase :: nat
  aq_sq_depth :: nat
  aq_cq_depth :: nat
  aq_cq_head :: nat
  aq_nvme_sq :: "admin_command list option"
  aq_nvme_cq :: "nvme_completion list option"

record admin_ns =
  an_size :: nat
  an_csi :: nat
  an_zp :: znsparams

text \<open>The controller around the I/O queues.  The last field is the module's counter of answers to the identify command
  (\<^verbatim>\<open>\_\_cntlid\<close>) as this controller finds it; all controllers of the module share it, so that with several drives it may grow
  between two commands of one of them.\<close>

record 'n ctrl =
  ct_io :: "'n io_dev"
  ct_admin :: "admin_queue option"
  ct_nr_sq :: nat
  ct_ns :: "admin_ns list"
  ct_dbs :: "nat list"
  ct_old_dbs :: "nat list"
  ct_mdts :: nat
  ct_cntlid :: nat

text \<open>The queue entries found in a page of host memory.\<close>

record host_view =
  hp_commands :: "nat \<Rightarrow> nvme_command list"
  hp_completions :: "nat \<Rightarrow> nvme_completion list"
  hp_admin :: "nat \<Rightarrow> admin_command list"

definition NR_MAX_IO_QUEUE :: nat where "NR_MAX_IO_QUEUE = 72"
definition NVME_SC_INVALID_OPCODE :: nat where "NVME_SC_INVALID_OPCODE = 1"
definition NVME_CSI_ZNS :: nat where "NVME_CSI_ZNS = 2"

abbreviation ct_mem :: "'n ctrl \<Rightarrow> memory" where
  "ct_mem ct \<equiv> im_mem (dv_mem (ct_io ct))"

definition set_mem :: "'n ctrl \<Rightarrow> memory \<Rightarrow> 'n ctrl" where
  "set_mem ct m = ct\<lparr>ct_io := (ct_io ct)\<lparr>dv_mem := (dv_mem (ct_io ct))\<lparr>im_mem := m\<rparr>\<rparr>\<rparr>"

definition admin_entry :: "'n ctrl \<Rightarrow> nat \<Rightarrow> admin_command option" where
  "admin_entry ct eid = do { q \<leftarrow> ct_admin ct; sq \<leftarrow> aq_nvme_sq q; array_read sq eid }"

section \<open>Completions\<close>

definition make_cq_entry_results :: "nat \<Rightarrow> nat \<Rightarrow> nat \<Rightarrow> nat \<Rightarrow> 'n ctrl \<Rightarrow> 'n ctrl option" where
  "make_cq_entry_results eid ret result0 result1 ct = do {
     q \<leftarrow> ct_admin ct;
     c \<leftarrow> admin_entry ct eid;
     cq \<leftarrow> aq_nvme_cq q;
     cq' \<leftarrow> array_write cq (aq_cq_head q) \<lparr>ce_result0 = result0, ce_result1 = result1, ce_sq_head = eid, ce_sq_id = 0,
       ce_command_id = ad_command_id c, ce_status = (aq_phase q + 2 * ret) mod 2 ^ 16\<rparr>;
     let cq_head = aq_cq_head q + 1;
     Some (ct\<lparr>ct_admin := Some (if cq_head = aq_cq_depth q
       then q\<lparr>aq_nvme_cq := Some cq', aq_cq_head := 0, aq_phase := (if aq_phase q = 0 then 1 else 0)\<rparr>
       else q\<lparr>aq_nvme_cq := Some cq', aq_cq_head := cq_head\<rparr>)\<rparr>)
   }"

definition make_cq_entry :: "nat \<Rightarrow> nat \<Rightarrow> 'n ctrl \<Rightarrow> 'n ctrl option" where
  "make_cq_entry eid ret ct = make_cq_entry_results eid ret 0 0 ct"

section \<open>I/O queues\<close>

text \<open>Page \<open>i\<close> of a queue that starts at the given address.\<close>

definition queue_page :: "nat \<Rightarrow> nat \<Rightarrow> nat" where
  "queue_page prp i = (prp div PAGE_SIZE + i) * PAGE_SIZE + prp mod PAGE_SIZE"

definition queue_entries :: "(nat \<Rightarrow> 'e list) \<Rightarrow> nat \<Rightarrow> nat \<Rightarrow> nat \<Rightarrow> 'e list" where
  "queue_entries page prp queue_size entry_size =
    concat (map (\<lambda>i. page (queue_page prp i)) [0..<(queue_size * entry_size + PAGE_SIZE - 1) div PAGE_SIZE])"

definition set_dbs :: "nat \<Rightarrow> 'n ctrl \<Rightarrow> 'n ctrl option" where
  "set_dbs i ct = do {
     dbs \<leftarrow> array_write (ct_dbs ct) i 0;
     old \<leftarrow> array_write (ct_old_dbs ct) i 0;
     Some (ct\<lparr>ct_dbs := dbs, ct_old_dbs := old\<rparr>)
   }"

definition admin_create_cq :: "host_view \<Rightarrow> nat \<Rightarrow> 'n ctrl \<Rightarrow> 'n ctrl option" where
  "admin_create_cq hp eid ct = do {
     c \<leftarrow> admin_entry ct eid;
     let qid = ad_dword10 c mod 2 ^ 16;
     let queue_size = ad_dword10 c div 2 ^ 16 mod 2 ^ 16 + 1;
     let enabled = (ad_dword11 c mod 2 ^ 16 div 2 mod 2 = 1);
     let cq = \<lparr>cq_irq_vector = (if enabled then ad_dword11 c div 2 ^ 16 mod 2 ^ 16 else 0), cq_irq_enabled = enabled, cq_interrupt_ready = False,
       cq_queue_size = queue_size, cq_phase = 1, cq_cq_head = 0, cq_cq_tail = -1,
       cq_cq = queue_entries (hp_completions hp) (ad_prp1 c) queue_size 16\<rparr>;
     cqes \<leftarrow> array_write (dv_cqes (ct_io ct)) qid (Some cq);
     ct1 \<leftarrow> set_dbs (qid * 2 + 1) (ct\<lparr>ct_io := (ct_io ct)\<lparr>dv_cqes := cqes\<rparr>\<rparr>);
     make_cq_entry eid NVME_SC_SUCCESS ct1
   }"

definition admin_delete_cq :: "nat \<Rightarrow> 'n ctrl \<Rightarrow> 'n ctrl option" where
  "admin_delete_cq eid ct = do {
     c \<leftarrow> admin_entry ct eid;
     cqes \<leftarrow> array_write (dv_cqes (ct_io ct)) (ad_dword10 c mod 2 ^ 16) None;
     make_cq_entry eid NVME_SC_SUCCESS (ct\<lparr>ct_io := (ct_io ct)\<lparr>dv_cqes := cqes\<rparr>\<rparr>)
   }"

definition admin_create_sq :: "host_view \<Rightarrow> nat \<Rightarrow> 'n ctrl \<Rightarrow> 'n ctrl option" where
  "admin_create_sq hp eid ct = do {
     c \<leftarrow> admin_entry ct eid;
     let qid = ad_dword10 c mod 2 ^ 16;
     let queue_size = ad_dword10 c div 2 ^ 16 mod 2 ^ 16 + 1;
     let sq = \<lparr>sq_cqid = ad_dword11 c div 2 ^ 16 mod 2 ^ 16, sq_queue_size = queue_size,
       sq_stat = \<lparr>ss_nr_dispatched = 0, ss_nr_dispatch = 0, ss_nr_in_flight = 0, ss_max_nr_in_flight = 0, ss_total_io = 0\<rparr>,
       sq_sq = queue_entries (hp_commands hp) (ad_prp1 c) queue_size 64\<rparr>;
     sqes \<leftarrow> array_write (dv_sqes (ct_io ct)) qid (Some sq);
     ct1 \<leftarrow> set_dbs (qid * 2) (ct\<lparr>ct_io := (ct_io ct)\<lparr>dv_sqes := sqes\<rparr>\<rparr>);
     make_cq_entry eid NVME_SC_SUCCESS ct1
   }"

definition admin_delete_sq :: "nat \<Rightarrow> 'n ctrl \<Rightarrow> 'n ctrl option" where
  "admin_delete_sq eid ct = do {
     c \<leftarrow> admin_entry ct eid;
     sqes \<leftarrow> array_write (dv_sqes (ct_io ct)) (ad_dword10 c mod 2 ^ 16) None;
     make_cq_entry eid NVME_SC_SUCCESS (ct\<lparr>ct_io := (ct_io ct)\<lparr>dv_sqes := sqes\<rparr>\<rparr>)
   }"

section \<open>Log pages\<close>

definition smart_log :: bytes where
  "smart_log = (replicate 512 0)[4 := 20]"

text \<open>The supported commands; four bytes each, administration commands first.\<close>

definition effects_log :: bytes where
  "effects_log = foldl (\<lambda>l (i, v). l[4 * i := v]) (replicate 4096 0)
     [(0x02, 1), (0x06, 1), (0x09, 1), (0x0a, 1), (0x0c, 1), (256 + 0x7d, 1), (256 + 0x79, 3), (256 + 0x7a, 1)]"

text \<open>The host chooses how many bytes it gets; they are read from a structure of fixed size.\<close>

definition admin_get_log_page :: "nat \<Rightarrow> 'n ctrl \<Rightarrow> 'n ctrl option" where
  "admin_get_log_page eid ct = do {
     c \<leftarrow> admin_entry ct eid;
     let len = ((ad_dword11 c mod 2 ^ 16 * 2 ^ 16 + ad_dword10 c div 2 ^ 16 mod 2 ^ 16 + 1) * 4) mod 2 ^ 32;
     let lid = ad_dword10 c mod 2 ^ 8;
     let page = (if lid = 2 then Some smart_log else if lid = 5 then Some effects_log else None);
     m \<leftarrow> (case page of
        Some lp \<Rightarrow> do { nvmev_assert (len \<le> length lp); Some (write_bytes (ct_mem ct) (ad_prp1 c) (take len lp)) }
      | None \<Rightarrow> Some (write_bytes (ct_mem ct) (ad_prp1 c) (replicate len 0)));
     make_cq_entry eid NVME_SC_SUCCESS (set_mem ct m)
   }"

section \<open>Identify structures\<close>

text \<open>Writing fields, given by their offset and bytes, to a cleared area.\<close>

definition fill_struct :: "memory \<Rightarrow> nat \<Rightarrow> nat \<Rightarrow> (nat \<times> bytes) list \<Rightarrow> memory" where
  "fill_struct m addr len parts = foldl (\<lambda>m (off, bs). write_bytes m (addr + off) bs) (write_bytes m addr (replicate len 0)) parts"

definition lbaf_field :: "nat \<Rightarrow> nat \<Rightarrow> nat \<Rightarrow> nat \<Rightarrow> nat \<times> bytes" where
  "lbaf_field i ms ds rp = (128 + 4 * i, le_bytes 2 ms @ le_bytes 1 ds @ le_bytes 1 rp)"

definition id_ns_fields :: "nat \<Rightarrow> (nat \<times> bytes) list" where
  "id_ns_fields bytes =
    [lbaf_field 0 0 9 2, lbaf_field 1 8 9 2, lbaf_field 2 16 9 2, lbaf_field 3 0 12 0, lbaf_field 4 8 12 0, lbaf_field 5 64 12 0,
     lbaf_field 6 128 12 0,
     (0, le_bytes 8 (bytes div 2 ^ 9)), (8, le_bytes 8 (bytes div 2 ^ 9)), (16, le_bytes 8 (bytes div 2 ^ 9)), (25, [6]), (26, [0]), (29, [0])]"

definition nsid_index :: "admin_command \<Rightarrow> nat" where
  "nsid_index c = (ad_nsid c + (2 ^ 32 - 1)) mod 2 ^ 32"

definition admin_identify_namespace :: "nat \<Rightarrow> 'n ctrl \<Rightarrow> 'n ctrl option" where
  "admin_identify_namespace eid ct = do {
     c \<leftarrow> admin_entry ct eid;
     ns \<leftarrow> array_read (ct_ns ct) (nsid_index c);
     make_cq_entry eid NVME_SC_SUCCESS (set_mem ct (fill_struct (ct_mem ct) (ad_prp1 c) PAGE_SIZE (id_ns_fields (an_size ns))))
   }"

text \<open>The list of namespaces clears two pages.\<close>

definition admin_identify_namespaces :: "nat \<Rightarrow> 'n ctrl \<Rightarrow> 'n ctrl option" where
  "admin_identify_namespaces eid ct = do {
     c \<leftarrow> admin_entry ct eid;
     let ids = filter (\<lambda>i. i > ad_nsid c) [1..<Suc (length (ct_ns ct))];
     let m = write_bytes (write_bytes (ct_mem ct) (ad_prp1 c) (replicate (PAGE_SIZE * 2) 0)) (ad_prp1 c) (concat (map (le_bytes 4) ids));
     make_cq_entry eid NVME_SC_SUCCESS (set_mem ct m)
   }"

definition admin_identify_namespace_desc :: "nat \<Rightarrow> 'n ctrl \<Rightarrow> 'n ctrl option" where
  "admin_identify_namespace_desc eid ct = do {
     c \<leftarrow> admin_entry ct eid;
     ns \<leftarrow> array_read (ct_ns ct) (nsid_index c);
     make_cq_entry eid NVME_SC_SUCCESS
       (set_mem ct (fill_struct (ct_mem ct) (ad_prp1 c) 4096 [(0, [4]), (1, [1]), (4, le_bytes 1 (an_csi ns))]))
   }"

definition zns_ns_fields :: "znsparams \<Rightarrow> (nat \<times> bytes) list" where
  "zns_ns_fields zp =
    [(4, le_bytes 4 (dec32 (zp_nr_active_zones zp))), (8, le_bytes 4 (dec32 (zp_nr_open_zones zp)))] @
    (if zp_nr_zrwa_zones zp > 0 then
       [(2, le_bytes 2 2), (44, le_bytes 4 (zp_nr_zrwa_zones zp - 1)), (48, le_bytes 2 (zp_zrwafg_size zp)), (50, le_bytes 2 (zp_zrwa_size zp)), (52, [1])]
     else []) @
    [(2816, le_bytes 8 (zp_zone_size zp div 512)), (2824, [0])]"

definition admin_identify_zns_namespace :: "nat \<Rightarrow> 'n ctrl \<Rightarrow> 'n ctrl option" where
  "admin_identify_zns_namespace eid ct = do {
     c \<leftarrow> admin_entry ct eid;
     ns \<leftarrow> array_read (ct_ns ct) (nsid_index c);
     nvmev_assert (an_csi ns = NVME_CSI_ZNS);
     make_cq_entry eid NVME_SC_SUCCESS (set_mem ct (fill_struct (ct_mem ct) (ad_prp1 c) 4096 (zns_ns_fields (an_zp ns))))
   }"

definition admin_identify_zns_ctrl :: "nat \<Rightarrow> 'n ctrl \<Rightarrow> 'n ctrl option" where
  "admin_identify_zns_ctrl eid ct = do {
     c \<leftarrow> admin_entry ct eid;
     make_cq_entry eid NVME_SC_SUCCESS (set_mem ct (write_bytes (ct_mem ct) (ad_prp1 c) [0]))
   }"

definition text_field :: "string \<Rightarrow> bytes" where
  "text_field s = map (\<lambda>ch. of_nat (of_char ch)) s"

definition id_ctrl_fields :: "'n ctrl \<Rightarrow> (nat \<times> bytes) list" where
  "id_ctrl_fields ct =
    [(516, le_bytes 4 (length (ct_ns ct))), (520, le_bytes 2 0), (258, [3]), (525, [0]), (78, le_bytes 2 (ct_cntlid ct)), (76, [2]),
     (4, text_field ''CSL_Virt_SN_01''), (24, text_field ''CSL_Virt_MN_01''), (64, text_field ''CSL_002''),
     (77, le_bytes 1 (ct_mdts ct)), (512, [0x66]), (513, [0x44])]"

definition admin_identify_ctrl :: "nat \<Rightarrow> 'n ctrl \<Rightarrow> 'n ctrl option" where
  "admin_identify_ctrl eid ct = do {
     c \<leftarrow> admin_entry ct eid;
     make_cq_entry eid NVME_SC_SUCCESS ((set_mem ct (fill_struct (ct_mem ct) (ad_prp1 c) 4096 (id_ctrl_fields ct)))\<lparr>ct_cntlid := ct_cntlid ct + 1\<rparr>)
   }"

definition admin_identify :: "nat \<Rightarrow> 'n ctrl \<Rightarrow> 'n ctrl option" where
  "admin_identify eid ct = do {
     c \<leftarrow> admin_entry ct eid;
     let cns = ad_dword10 c;
     (if cns = 0 then admin_identify_namespace eid ct
      else if cns = 1 then admin_identify_ctrl eid ct
      else if cns = 2 then admin_identify_namespaces eid ct
      else if cns = 3 then admin_identify_namespace_desc eid ct
      else if cns = 5 then admin_identify_zns_namespace eid ct
      else if cns = 6 then admin_identify_zns_ctrl eid ct
      else make_cq_entry eid NVME_SC_INVALID_OPCODE ct)
   }"

section \<open>Features\<close>

definition queue_counts :: "'n ctrl \<Rightarrow> nat" where
  "queue_counts ct = ((dv_nr_cq (ct_io ct) + (2 ^ 32 - 1)) * 2 ^ 16) mod 2 ^ 32 OR (ct_nr_sq ct + (2 ^ 32 - 1)) mod 2 ^ 32"

definition admin_set_features :: "nat \<Rightarrow> 'n ctrl \<Rightarrow> 'n ctrl option" where
  "admin_set_features eid ct = do {
     c \<leftarrow> admin_entry ct eid;
     (if ad_dword10 c = 7 then do {
        let nr_sq = min (ad_dword11 c mod 2 ^ 16 + 1) NR_MAX_IO_QUEUE;
        let nr_cq = min (ad_dword11 c div 2 ^ 16 mod 2 ^ 16 + 1) NR_MAX_IO_QUEUE;
        let ct1 = ct\<lparr>ct_nr_sq := nr_sq, ct_io := (ct_io ct)\<lparr>dv_nr_cq := nr_cq\<rparr>\<rparr>;
        make_cq_entry_results eid NVME_SC_SUCCESS (queue_counts ct1) 0 ct1
      } else make_cq_entry_results eid NVME_SC_SUCCESS 0 0 ct)
   }"

definition admin_get_features :: "nat \<Rightarrow> 'n ctrl \<Rightarrow> 'n ctrl option" where
  "admin_get_features eid ct = do {
     c \<leftarrow> admin_entry ct eid;
     make_cq_entry_results eid NVME_SC_SUCCESS (if ad_dword10 c = 7 then queue_counts ct else 0) 0 ct
   }"

section \<open>Dispatch\<close>

text \<open>The case of identify runs on into that of abort, which does nothing.\<close>

definition proc_admin_req :: "host_view \<Rightarrow> nat \<Rightarrow> 'n ctrl \<Rightarrow> 'n ctrl option" where
  "proc_admin_req hp entry_id ct = do {
     c \<leftarrow> admin_entry ct entry_id;
     let opc = ad_opcode c;
     (if opc = 0x00 then admin_delete_sq entry_id ct
      else if opc = 0x01 then admin_create_sq hp entry_id ct
      else if opc = 0x02 then admin_get_log_page entry_id ct
      else if opc = 0x04 then admin_delete_cq entry_id ct
      else if opc = 0x05 then admin_create_cq hp entry_id ct
      else if opc = 0x06 then admin_identify entry_id ct
      else if opc = 0x08 then Some ct
      else if opc = 0x09 then admin_set_features entry_id ct
      else if opc = 0x0a then admin_get_features entry_id ct
      else if opc = 0x0c then make_cq_entry entry_id NVME_SC_SUCCESS ct
      else make_cq_entry entry_id NVME_SC_INVALID_OPCODE ct)
   }"

fun admin_sq_loop :: "host_view \<Rightarrow> nat \<Rightarrow> nat \<Rightarrow> 'n ctrl \<Rightarrow> 'n ctrl option" where
  "admin_sq_loop hp cur 0 ct = Some ct"
| "admin_sq_loop hp cur (Suc n) ct = do {
     ct1 \<leftarrow> proc_admin_req hp cur ct;
     q \<leftarrow> ct_admin ct1;
     admin_sq_loop hp (if cur + 1 = aq_sq_depth q then 0 else cur + 1) n ct1
   }"

text \<open>Interrupt vector 0 belongs to the administration queue.\<close>

definition nvmev_proc_admin_sq :: "host_view \<Rightarrow> nat \<Rightarrow> nat \<Rightarrow> 'n ctrl \<Rightarrow> 'n ctrl option" where
  "nvmev_proc_admin_sq hp new_db old_db ct = do {
     n \<leftarrow> (if old_db \<le> new_db then Some (int new_db - int old_db)
           else do { q \<leftarrow> ct_admin ct; Some (int new_db - int old_db + int (aq_sq_depth q)) });
     ct1 \<leftarrow> admin_sq_loop hp old_db (nat n) ct;
     Some (ct1\<lparr>ct_io := (ct_io ct1)\<lparr>dv_irqs := dv_irqs (ct_io ct1) @ [0]\<rparr>\<rparr>)
   }"

section \<open>Every command is one completion\<close>

definition admin_ok :: "admin_queue \<Rightarrow> bool" where
  "admin_ok q \<longleftrightarrow> (\<exists>sq cq. aq_nvme_sq q = Some sq \<and> aq_nvme_cq q = Some cq \<and> aq_sq_depth q \<le> length sq \<and>
     aq_cq_head q < aq_cq_depth q \<and> aq_cq_depth q \<le> length cq \<and> aq_phase q \<le> 1)"

definition ctrl_ok :: "'n ctrl \<Rightarrow> bool" where
  "ctrl_ok ct \<longleftrightarrow> length (dv_sqes (ct_io ct)) = NR_MAX_IO_QUEUE + 1 \<and> length (dv_cqes (ct_io ct)) = NR_MAX_IO_QUEUE + 1 \<and>
     length (ct_dbs ct) = 1024 \<and> length (ct_old_dbs ct) = 1024"

text \<open>The commands the handlers can take: they check neither queue numbers nor namespace numbers nor lengths.\<close>

definition log_length :: "admin_command \<Rightarrow> nat" where
  "log_length c = ((ad_dword11 c mod 2 ^ 16 * 2 ^ 16 + ad_dword10 c div 2 ^ 16 mod 2 ^ 16 + 1) * 4) mod 2 ^ 32"

definition admin_legal :: "admin_ns list \<Rightarrow> admin_command \<Rightarrow> bool" where
  "admin_legal nss c \<longleftrightarrow>
     (ad_opcode c \<in> {0, 1, 4, 5} \<longrightarrow> ad_dword10 c mod 2 ^ 16 \<le> NR_MAX_IO_QUEUE) \<and>
     (ad_opcode c = 2 \<longrightarrow> (ad_dword10 c mod 2 ^ 8 = 2 \<longrightarrow> log_length c \<le> 512) \<and> (ad_dword10 c mod 2 ^ 8 = 5 \<longrightarrow> log_length c \<le> 4096)) \<and>
     (ad_opcode c = 6 \<longrightarrow> ad_dword10 c \<in> {0, 3, 5} \<longrightarrow> nsid_index c < length nss \<and> (ad_dword10 c = 5 \<longrightarrow> an_csi (nss ! nsid_index c) = NVME_CSI_ZNS))"

text \<open>What a handler leaves alone before it posts the completion.\<close>

definition admin_frame :: "'n ctrl \<Rightarrow> 'n ctrl \<Rightarrow> bool" where
  "admin_frame ct ct' \<longleftrightarrow> ct_admin ct' = ct_admin ct \<and> ct_ns ct' = ct_ns ct \<and> (ctrl_ok ct \<longrightarrow> ctrl_ok ct') \<and>
     dv_ns (ct_io ct') = dv_ns (ct_io ct) \<and> dv_workers (ct_io ct') = dv_workers (ct_io ct)"

definition answers :: "nat \<Rightarrow> 'n ctrl \<Rightarrow> 'n ctrl option \<Rightarrow> bool" where
  "answers eid ct r \<longleftrightarrow> (\<exists>ct1 ret r0 r1. r = make_cq_entry_results eid ret r0 r1 ct1 \<and> admin_frame ct ct1)"

lemma answers_I: "admin_frame ct ct1 \<Longrightarrow> answers eid ct (make_cq_entry_results eid ret r0 r1 ct1)"
  by (auto simp: answers_def)

lemma answers_entry: "admin_frame ct ct1 \<Longrightarrow> answers eid ct (make_cq_entry eid ret ct1)"
  unfolding make_cq_entry_def by (rule answers_I)

lemma frame_simps [simp]:
  "admin_frame ct ct" "admin_frame ct (set_mem ct m)" "admin_frame ct ((set_mem ct m)\<lparr>ct_cntlid := k\<rparr>)"
  "admin_frame ct (ct\<lparr>ct_nr_sq := a, ct_io := (ct_io ct)\<lparr>dv_nr_cq := b\<rparr>\<rparr>)"
  by (simp_all add: admin_frame_def set_mem_def ctrl_ok_def)

lemma effects_log_length [simp]: "length effects_log = 4096"
  by (simp add: effects_log_def)

lemma smart_log_length [simp]: "length smart_log = 512"
  by (simp add: smart_log_def)

text \<open>The handlers, each for the commands it is given.\<close>

lemma queues_answered:
  assumes c: "admin_entry ct eid = Some c" and ok: "ctrl_ok ct" and q: "ad_dword10 c mod 2 ^ 16 \<le> NR_MAX_IO_QUEUE"
  shows "answers eid ct (admin_create_sq hp eid ct)" "answers eid ct (admin_delete_sq eid ct)"
    "answers eid ct (admin_create_cq hp eid ct)" "answers eid ct (admin_delete_cq eid ct)"
proof -
  note len = ok[unfolded ctrl_ok_def NR_MAX_IO_QUEUE_def] q[unfolded NR_MAX_IO_QUEUE_def]
  show "answers eid ct (admin_create_sq hp eid ct)"
    using c len unfolding admin_create_sq_def Let_def
    by (auto simp: set_dbs_def admin_frame_def ctrl_ok_def NR_MAX_IO_QUEUE_def intro!: answers_entry)
  show "answers eid ct (admin_delete_sq eid ct)"
    using c len unfolding admin_delete_sq_def Let_def
    by (auto simp: admin_frame_def ctrl_ok_def NR_MAX_IO_QUEUE_def intro!: answers_entry)
  show "answers eid ct (admin_create_cq hp eid ct)"
    using c len unfolding admin_create_cq_def Let_def
    by (auto simp: set_dbs_def admin_frame_def ctrl_ok_def NR_MAX_IO_QUEUE_def intro!: answers_entry)
  show "answers eid ct (admin_delete_cq eid ct)"
    using c len unfolding admin_delete_cq_def Let_def
    by (auto simp: admin_frame_def ctrl_ok_def NR_MAX_IO_QUEUE_def intro!: answers_entry)
qed

lemma log_page_answered:
  assumes "admin_entry ct eid = Some c" "ad_dword10 c mod 2 ^ 8 = 2 \<longrightarrow> log_length c \<le> 512" "ad_dword10 c mod 2 ^ 8 = 5 \<longrightarrow> log_length c \<le> 4096"
  shows "answers eid ct (admin_get_log_page eid ct)"
  using assms unfolding admin_get_log_page_def Let_def log_length_def[symmetric]
  by (auto intro!: answers_entry)

lemma identify_answered:
  assumes c: "admin_entry ct eid = Some c"
    and n: "ad_dword10 c \<in> {0, 3, 5} \<longrightarrow> nsid_index c < length (ct_ns ct) \<and> (ad_dword10 c = 5 \<longrightarrow> an_csi (ct_ns ct ! nsid_index c) = NVME_CSI_ZNS)"
  shows "answers eid ct (admin_identify eid ct)"
proof -
  have ns: "array_read (ct_ns ct) (nsid_index c) = Some (ct_ns ct ! nsid_index c)" if "ad_dword10 c \<in> {0, 3, 5}" using n that by auto
  consider "ad_dword10 c = 0" | "ad_dword10 c = 1" | "ad_dword10 c = 2" | "ad_dword10 c = 3" | "ad_dword10 c = 5" | "ad_dword10 c = 6"
    | "ad_dword10 c \<notin> {0, 1, 2, 3, 5, 6}" by auto
  then show ?thesis
    by cases (insert c ns n, simp_all add: admin_identify_def admin_identify_namespace_def admin_identify_ctrl_def admin_identify_namespaces_def
      admin_identify_namespace_desc_def admin_identify_zns_namespace_def admin_identify_zns_ctrl_def Let_def answers_entry)
qed

lemma features_answered:
  assumes "admin_entry ct eid = Some c"
  shows "answers eid ct (admin_set_features eid ct)" "answers eid ct (admin_get_features eid ct)"
  using assms by (simp_all add: admin_set_features_def admin_get_features_def Let_def answers_I)

lemma proc_admin_req_answers:
  assumes c: "admin_entry ct eid = Some c" and ok: "ctrl_ok ct" and leg: "admin_legal (ct_ns ct) c"
  shows "if ad_opcode c = 8 then proc_admin_req hp eid ct = Some ct else answers eid ct (proc_admin_req hp eid ct)"
proof (cases "ad_opcode c = 8")
  case True
  then show ?thesis using c by (simp add: proc_admin_req_def)
next
  case False
  note q = queues_answered[OF c ok]
  have "ad_opcode c \<in> {0, 1, 4, 5} \<or> ad_opcode c = 2 \<or> ad_opcode c = 6 \<or> ad_opcode c \<notin> {0, 1, 2, 4, 5, 6}" by blast
  then have "answers eid ct (proc_admin_req hp eid ct)"
  proof (elim disjE)
    assume o: "ad_opcode c \<in> {0, 1, 4, 5}"
    have "ad_dword10 c mod 2 ^ 16 \<le> NR_MAX_IO_QUEUE" using leg o by (auto simp: admin_legal_def)
    from q[OF this] show ?thesis using o c by (auto simp: proc_admin_req_def)
  next
    assume "ad_opcode c = 2"
    then show ?thesis using log_page_answered[OF c] leg c by (simp add: proc_admin_req_def admin_legal_def)
  next
    assume "ad_opcode c = 6"
    then show ?thesis using identify_answered[OF c] leg c by (simp add: proc_admin_req_def admin_legal_def)
  next
    assume "ad_opcode c \<notin> {0, 1, 2, 4, 5, 6}"
    then show ?thesis using False c features_answered[OF c] by (auto simp: proc_admin_req_def Let_def intro: answers_entry)
  qed
  then show ?thesis using False by simp
qed

section \<open>A batch of commands\<close>

lemma make_results_ok:
  assumes q: "ct_admin ct = Some q" "admin_ok q" "aq_nvme_sq q = Some sq" "aq_nvme_cq q = Some cq" and e: "eid < length sq"
  shows "\<exists>q' e. make_cq_entry_results eid ret r0 r1 ct = Some (ct\<lparr>ct_admin := Some q'\<rparr>) \<and> admin_ok q' \<and> aq_nvme_sq q' = Some sq \<and>
    aq_sq_depth q' = aq_sq_depth q \<and> aq_cq_depth q' = aq_cq_depth q \<and> aq_nvme_cq q' = Some (cq[aq_cq_head q := e]) \<and>
    aq_cq_head q' = (aq_cq_head q + 1) mod aq_cq_depth q \<and> aq_phase q' = (aq_phase q + (aq_cq_head q + 1) div aq_cq_depth q) mod 2 \<and>
    ce_command_id e = ad_command_id (sq ! eid) \<and> ce_status e mod 2 = aq_phase q"
proof -
  let ?e = "\<lparr>ce_result0 = r0, ce_result1 = r1, ce_sq_head = eid, ce_sq_id = 0,
       ce_command_id = ad_command_id (sq ! eid), ce_status = (aq_phase q + 2 * ret) mod 2 ^ 16\<rparr>"
  let ?q = "if aq_cq_head q + 1 = aq_cq_depth q
       then q\<lparr>aq_nvme_cq := Some (cq[aq_cq_head q := ?e]), aq_cq_head := 0, aq_phase := (if aq_phase q = 0 then 1 else 0)\<rparr>
       else q\<lparr>aq_nvme_cq := Some (cq[aq_cq_head q := ?e]), aq_cq_head := aq_cq_head q + 1\<rparr>"
  have h: "aq_cq_head q < aq_cq_depth q" "aq_cq_depth q \<le> length cq" "aq_phase q \<le> 1" "aq_sq_depth q \<le> length sq"
    using q(2-4) by (auto simp: admin_ok_def)
  have c: "admin_entry ct eid = Some (sq ! eid)" using q e by (simp add: admin_entry_def)
  have "make_cq_entry_results eid ret r0 r1 ct = Some (ct\<lparr>ct_admin := Some ?q\<rparr>)"
    using q c h by (simp add: make_cq_entry_results_def Let_def)
  moreover have "admin_ok ?q" using q h by (auto simp: admin_ok_def)
  moreover have "ce_status ?e mod 2 = aq_phase q" using h(3) by (simp add: mod_mod_cancel)
  moreover have "aq_phase ?q = (aq_phase q + (aq_cq_head q + 1) div aq_cq_depth q) mod 2"
  proof (cases "aq_phase q = 0")
    case False
    then have "aq_phase q = 1" using h(3) by simp
    then show ?thesis using h(1) by auto
  qed (use h in auto)
  ultimately show ?thesis using q h by (intro exI[of _ ?q] exI[of _ ?e]) auto
qed

text \<open>The commands answered in the ring of \<open>D\<close> completions from slot \<open>h\<close> and phase \<open>p\<close> on; all other slots are as before.\<close>

definition posted :: "nat \<Rightarrow> nat \<Rightarrow> nat \<Rightarrow> admin_command list \<Rightarrow> nvme_completion list \<Rightarrow> nvme_completion list \<Rightarrow> bool" where
  "posted D h p cmds cq cq' \<longleftrightarrow> length cq' = length cq \<and>
     (\<forall>j<length cmds. ce_command_id (cq' ! ((h + j) mod D)) = ad_command_id (cmds ! j) \<and>
        ce_status (cq' ! ((h + j) mod D)) mod 2 = (p + (h + j) div D) mod 2) \<and>
     (\<forall>i. (\<forall>j<length cmds. i \<noteq> (h + j) mod D) \<longrightarrow> cq' ! i = cq ! i)"

lemma posted_Nil [simp]: "posted D h p [] cq cq"
  by (simp add: posted_def)

lemma mod_add_ne:
  assumes "0 < k" "k < D" "h < D"
  shows "(h + k) mod D \<noteq> (h :: nat)"
proof (cases "h + k < D")
  case False
  then have "(h + k) mod D = h + k - D" using assms by (simp add: le_mod_geq)
  then show ?thesis using assms False by linarith
qed (use assms in simp)

lemma posted_Cons:
  assumes p: "posted D ((h + 1) mod D) ((p + (h + 1) div D) mod 2) cmds (cq[h := e]) cq'"
    and h: "h < D" "D \<le> length cq" "length cmds < D" "p \<le> 1"
    and e: "ce_command_id e = ad_command_id c" "ce_status e mod 2 = p"
  shows "posted D h p (c # cmds) cq cq'"
proof -
  let ?h = "(h + 1) mod D"
  have slot: "(?h + j) mod D = (h + Suc j) mod D" for j by (simp add: mod_add_left_eq)
  have "h + 1 + j = ?h + j + (h + 1) div D * D" for j using div_mult_mod_eq[of "h + 1" D] by linarith
  then have dv: "(h + 1 + j) div D = (?h + j) div D + (h + 1) div D" for j
    using h(1) by (metis add.commute div_mult_self1 gr_implies_not0)
  have rnd: "((p + (h + 1) div D) mod 2 + (?h + j) div D) mod 2 = (p + (h + Suc j) div D) mod 2" for j
  proof -
    have e: "h + Suc j = h + 1 + j" by simp
    show ?thesis unfolding mod_add_left_eq e dv by (simp only: ac_simps)
  qed
  have out: "h \<noteq> (?h + j) mod D" if "j < length cmds" for j
    unfolding slot using mod_add_ne[of "Suc j" D h] that h by simp
  have first: "cq' ! h = e" using p out h by (simp add: posted_def)
  have "ce_command_id (cq' ! ((h + j) mod D)) = ad_command_id ((c # cmds) ! j) \<and>
        ce_status (cq' ! ((h + j) mod D)) mod 2 = (p + (h + j) div D) mod 2" if "j < length (c # cmds)" for j
  proof (cases j)
    case 0
    then show ?thesis using first e h by simp
  next
    case (Suc k)
    then have "ce_command_id (cq' ! ((?h + k) mod D)) = ad_command_id (cmds ! k) \<and>
        ce_status (cq' ! ((?h + k) mod D)) mod 2 = ((p + (h + 1) div D) mod 2 + (?h + k) div D) mod 2"
      using p that unfolding posted_def by simp
    then show ?thesis unfolding slot rnd using Suc by simp
  qed
  moreover have "cq' ! i = cq ! i" if "\<forall>j<length (c # cmds). i \<noteq> (h + j) mod D" for i
  proof -
    have "i \<noteq> h" using that h(1) by force
    moreover have "\<forall>j<length cmds. i \<noteq> (?h + j) mod D" unfolding slot using that by auto
    ultimately show ?thesis using p by (simp add: posted_def)
  qed
  ultimately show ?thesis using p by (simp add: posted_def)
qed

text \<open>The commands of a batch that are answered: all but aborts.\<close>

definition batch :: "admin_queue \<Rightarrow> nat \<Rightarrow> nat \<Rightarrow> admin_command list" where
  "batch q e n = map (\<lambda>k. the (aq_nvme_sq q) ! ((e + k) mod aq_sq_depth q)) [0..<n]"

definition answered :: "admin_command list \<Rightarrow> admin_command list" where
  "answered cs = filter (\<lambda>c. ad_opcode c \<noteq> 8) cs"

lemma batch_Suc:
  assumes "e < aq_sq_depth q"
  shows "batch q e (Suc n) = the (aq_nvme_sq q) ! e # batch q (if e + 1 = aq_sq_depth q then 0 else e + 1) n"
proof -
  show ?thesis unfolding batch_def ring_step using assms by (simp add: upt_conv_Cons map_Suc_upt[symmetric] del: upt_Suc map_Suc_upt)
qed

lemma admin_loop_ok:
  assumes "ct_admin ct = Some q" "admin_ok q" "ctrl_ok ct" "e < aq_sq_depth q" "n \<le> aq_cq_depth q"
    "\<forall>c\<in>set (batch q e n). admin_legal (ct_ns ct) c"
  shows "\<exists>ct' q'. admin_sq_loop hp e n ct = Some ct' \<and> ct_admin ct' = Some q' \<and> admin_ok q' \<and> ctrl_ok ct' \<and>
    aq_nvme_sq q' = aq_nvme_sq q \<and> aq_sq_depth q' = aq_sq_depth q \<and> aq_cq_depth q' = aq_cq_depth q \<and> ct_ns ct' = ct_ns ct \<and>
    aq_cq_head q' = (aq_cq_head q + length (answered (batch q e n))) mod aq_cq_depth q \<and>
    posted (aq_cq_depth q) (aq_cq_head q) (aq_phase q) (answered (batch q e n)) (the (aq_nvme_cq q)) (the (aq_nvme_cq q'))"
  using assms
proof (induction n arbitrary: e ct q)
  case 0
  then show ?case by (auto simp: admin_ok_def batch_def answered_def)
next
  case (Suc n)
  let ?e = "if e + 1 = aq_sq_depth q then 0 else e + 1"
  obtain sq cq where sq: "aq_nvme_sq q = Some sq" "aq_nvme_cq q = Some cq" "aq_sq_depth q \<le> length sq" "aq_cq_head q < aq_cq_depth q"
    "aq_cq_depth q \<le> length cq" "aq_phase q \<le> 1" using Suc.prems(2) by (auto simp: admin_ok_def)
  have e: "e < length sq" "?e < aq_sq_depth q" using Suc.prems(4) sq(3) by auto
  let ?c = "sq ! e"
  have b: "batch q e (Suc n) = ?c # batch q ?e n" using batch_Suc[OF Suc.prems(4)] sq(1) by simp
  have c: "admin_entry ct e = Some ?c" using Suc.prems(1) sq(1) e(1) by (simp add: admin_entry_def)
  have leg: "admin_legal (ct_ns ct) ?c" "\<forall>c\<in>set (batch q ?e n). admin_legal (ct_ns ct) c" using Suc.prems(6) b by auto
  note pr = proc_admin_req_answers[OF c Suc.prems(3) leg(1), of hp]
  show ?case
  proof (cases "ad_opcode ?c = 8")
    case True
    then have "proc_admin_req hp e ct = Some ct" using pr by simp
    moreover have "answered (batch q e (Suc n)) = answered (batch q ?e n)" unfolding b using True by (simp add: answered_def)
    ultimately show ?thesis using Suc.IH[OF Suc.prems(1-3) e(2) _ leg(2)] Suc.prems(1,5) by simp
  next
    case False
    then obtain ct1 ret r0 r1 where a: "proc_admin_req hp e ct = make_cq_entry_results e ret r0 r1 ct1" "admin_frame ct ct1"
      using pr by (auto simp: answers_def)
    have q1: "ct_admin ct1 = Some q" using a(2) Suc.prems(1) by (simp add: admin_frame_def)
    obtain q2 x where m: "make_cq_entry_results e ret r0 r1 ct1 = Some (ct1\<lparr>ct_admin := Some q2\<rparr>)" "admin_ok q2" "aq_nvme_sq q2 = Some sq"
      "aq_sq_depth q2 = aq_sq_depth q" "aq_cq_depth q2 = aq_cq_depth q" "aq_nvme_cq q2 = Some (cq[aq_cq_head q := x])"
      "aq_cq_head q2 = (aq_cq_head q + 1) mod aq_cq_depth q" "aq_phase q2 = (aq_phase q + (aq_cq_head q + 1) div aq_cq_depth q) mod 2"
      "ce_command_id x = ad_command_id ?c" "ce_status x mod 2 = aq_phase q"
      using make_results_ok[OF q1 Suc.prems(2) sq(1,2) e(1)] by blast
    let ?ct = "ct1\<lparr>ct_admin := Some q2\<rparr>"
    have b2: "batch q2 ?e n = batch q ?e n" using m(3,4) sq(1) by (simp add: batch_def)
    have an: "answered (batch q e (Suc n)) = ?c # answered (batch q ?e n)" unfolding b using False by (simp add: answered_def)
    have len: "length (answered (batch q ?e n)) \<le> n" using length_filter_le[of _ "batch q ?e n"] by (simp add: answered_def batch_def)
    have "ctrl_ok ?ct" "ct_ns ?ct = ct_ns ct" using a(2) Suc.prems(3) by (simp_all add: admin_frame_def ctrl_ok_def)
    then obtain ct' q' where r: "admin_sq_loop hp ?e n ?ct = Some ct'" "ct_admin ct' = Some q'" "admin_ok q'" "ctrl_ok ct'"
      "aq_nvme_sq q' = aq_nvme_sq q2" "aq_sq_depth q' = aq_sq_depth q2" "aq_cq_depth q' = aq_cq_depth q2" "ct_ns ct' = ct_ns ct"
      "aq_cq_head q' = (aq_cq_head q2 + length (answered (batch q2 ?e n))) mod aq_cq_depth q2"
      "posted (aq_cq_depth q2) (aq_cq_head q2) (aq_phase q2) (answered (batch q2 ?e n)) (the (aq_nvme_cq q2)) (the (aq_nvme_cq q'))"
      using Suc.IH[of ?ct q2 ?e] m(2-5) e(2) Suc.prems(5) leg(2) b2 by auto
    have "posted (aq_cq_depth q) (aq_cq_head q) (aq_phase q) (?c # answered (batch q ?e n)) cq (the (aq_nvme_cq q'))"
      using r(10) len Suc.prems(5) sq(4-6) m(9,10) unfolding b2 m(5-8) option.sel by (intro posted_Cons[where e = x]) auto
    moreover have "aq_cq_head q' = (aq_cq_head q + length (?c # answered (batch q ?e n))) mod aq_cq_depth q"
      using r(9) unfolding b2 m(5,7) by (simp add: mod_add_left_eq)
    ultimately show ?thesis using a(1) m(1,3-5) r(1-8) sq(1,2) unfolding an by simp
  qed
qed

end
