(* ===== verification/Controller.thy ===== *)
theory Controller
  imports Admin
begin

text \<open>
  The registers of the controller (\<^verbatim>\<open>nvmev_proc_bars\<close> in src/pci.c) and the dispatcher of src/main.c, which looks at the
  registers and at the doorbells of all queues in turn.
\<close>

section \<open>Registers\<close>

text \<open>The fields the driver uses: configuration, the attributes and addresses of the administration queues, and the ready
  and shutdown fields of the status.\<close>

record bar_regs =
  br_cc :: nat
  br_aqa :: nat
  br_asq :: nat
  br_acq :: nat
  br_rdy :: nat
  br_shst :: nat

record 'n nvmev =
  nv_ctrl :: "'n ctrl"
  nv_bar :: bar_regs
  nv_old :: bar_regs

definition cc_en :: "nat \<Rightarrow> nat" where "cc_en cc = cc mod 2"
definition cc_shn :: "nat \<Rightarrow> nat" where "cc_shn cc = cc div 2 ^ 14 mod 4"
definition aqa_asqs :: "nat \<Rightarrow> nat" where "aqa_asqs aqa = aqa mod 2 ^ 12"
definition aqa_acqs :: "nat \<Rightarrow> nat" where "aqa_acqs aqa = aqa div 2 ^ 16 mod 2 ^ 12"

definition zero_admin_queue :: admin_queue where
  "zero_admin_queue = \<lparr>aq_phase = 0, aq_sq_depth = 0, aq_cq_depth = 0, aq_cq_head = 0, aq_nvme_sq = None, aq_nvme_cq = None\<rparr>"

definition set_admin_dbs :: "'n ctrl \<Rightarrow> 'n ctrl option" where
  "set_admin_dbs ct = do { ct1 \<leftarrow> set_dbs 0 ct; set_dbs 1 ct1 }"

text \<open>One change is handled per pass.  The addresses of the queues count in pages.\<close>

definition nvmev_proc_bars :: "host_view \<Rightarrow> 'n nvmev \<Rightarrow> 'n nvmev option" where
  "nvmev_proc_bars hp nv = (
     let bar = nv_bar nv; old_bar = nv_old nv; ct = nv_ctrl nv in
     if br_aqa old_bar \<noteq> br_aqa bar then do {
       let queue = (case ct_admin ct of None \<Rightarrow> zero_admin_queue | Some q \<Rightarrow> q);
       let queue' = queue\<lparr>aq_cq_head := 0, aq_phase := 1, aq_sq_depth := aqa_asqs (br_aqa bar) + 1, aq_cq_depth := aqa_acqs (br_aqa bar) + 1\<rparr>;
       ct1 \<leftarrow> set_admin_dbs (ct\<lparr>ct_admin := Some queue'\<rparr>);
       Some (nv\<lparr>nv_old := old_bar\<lparr>br_aqa := br_aqa bar\<rparr>, nv_ctrl := ct1\<rparr>)
     }
     else if br_asq old_bar \<noteq> br_asq bar then
       (case ct_admin ct of None \<Rightarrow> Some nv
        | Some queue \<Rightarrow> do {
            let depth = aqa_asqs (br_aqa bar) + 1;
            ct1 \<leftarrow> set_dbs 0 (ct\<lparr>ct_admin := Some (queue\<lparr>aq_sq_depth := depth,
              aq_nvme_sq := Some (queue_entries (hp_admin hp) (br_asq bar div PAGE_SIZE * PAGE_SIZE) depth 64)\<rparr>)\<rparr>);
            Some (nv\<lparr>nv_old := old_bar\<lparr>br_asq := br_asq bar\<rparr>, nv_ctrl := ct1\<rparr>)
          })
     else if br_acq old_bar \<noteq> br_acq bar then
       (case ct_admin ct of None \<Rightarrow> Some nv
        | Some queue \<Rightarrow> do {
            let depth = aqa_acqs (br_aqa bar) + 1;
            ct1 \<leftarrow> set_dbs 1 (ct\<lparr>ct_admin := Some (queue\<lparr>aq_cq_depth := depth,
              aq_nvme_cq := Some (queue_entries (hp_completions hp) (br_acq bar div PAGE_SIZE * PAGE_SIZE) depth 16), aq_cq_head := 0\<rparr>)\<rparr>);
            Some (nv\<lparr>nv_old := old_bar\<lparr>br_acq := br_acq bar\<rparr>, nv_ctrl := ct1\<rparr>)
          })
     else if br_cc old_bar \<noteq> br_cc bar then do {
       let bar1 = (if cc_en (br_cc bar) = 1 then (if ct_admin ct \<noteq> None then bar\<lparr>br_rdy := 1\<rparr> else bar) else bar\<lparr>br_rdy := 0\<rparr>);
       let old1 = old_bar\<lparr>br_cc := br_cc bar\<rparr>;
       (if cc_shn (br_cc bar) = 1 then do {
          ct1 \<leftarrow> set_admin_dbs ct;
          queue \<leftarrow> ct_admin ct1;
          Some (nv\<lparr>nv_bar := bar1\<lparr>br_shst := 2\<rparr>, nv_old := old1, nv_ctrl := ct1\<lparr>ct_admin := Some (queue\<lparr>aq_cq_head := 0\<rparr>)\<rparr>\<rparr>)
        } else Some (nv\<lparr>nv_bar := bar1, nv_old := old1\<rparr>))
     }
     else Some nv)"

section \<open>Doorbells\<close>

text \<open>\<open>wall qid k\<close> and \<open>local qid k\<close> are the clocks when the \<open>k\<close>-th entry of queue \<open>qid\<close> is processed.  The counts of queues
  do not change during the loops.\<close>

fun sq_doorbells :: "'n io_handler \<Rightarrow> (nat \<Rightarrow> nat \<Rightarrow> u64) \<Rightarrow> (nat \<Rightarrow> nat \<Rightarrow> u64) \<Rightarrow> nat \<Rightarrow> nat \<Rightarrow> 'n ctrl \<Rightarrow> 'n ctrl option" where
  "sq_doorbells proc wall local qid 0 ct = Some ct"
| "sq_doorbells proc wall local qid (Suc n) ct = do {
     s \<leftarrow> array_read (dv_sqes (ct_io ct)) qid;
     ct1 \<leftarrow> (case s of None \<Rightarrow> Some ct
       | Some _ \<Rightarrow> do {
           new_db \<leftarrow> array_read (ct_dbs ct) (qid * 2);
           old_db \<leftarrow> array_read (ct_old_dbs ct) (qid * 2);
           (if new_db \<noteq> old_db then do {
              (io, db) \<leftarrow> nvmev_proc_io_sq proc (wall qid) (local qid) qid new_db old_db (ct_io ct);
              old \<leftarrow> array_write (ct_old_dbs ct) (qid * 2) db;
              Some (ct\<lparr>ct_io := io, ct_old_dbs := old\<rparr>)
            } else Some ct)
         });
     sq_doorbells proc wall local (qid + 1) n ct1
   }"

fun cq_doorbells :: "nat \<Rightarrow> nat \<Rightarrow> 'n ctrl \<Rightarrow> 'n ctrl option" where
  "cq_doorbells qid 0 ct = Some ct"
| "cq_doorbells qid (Suc n) ct = do {
     s \<leftarrow> array_read (dv_cqes (ct_io ct)) qid;
     ct1 \<leftarrow> (case s of None \<Rightarrow> Some ct
       | Some _ \<Rightarrow> do {
           new_db \<leftarrow> array_read (ct_dbs ct) (qid * 2 + 1);
           old_db \<leftarrow> array_read (ct_old_dbs ct) (qid * 2 + 1);
           (if new_db \<noteq> old_db then do {
              io \<leftarrow> nvmev_proc_io_cq qid (int new_db) (int old_db) (ct_io ct);
              old \<leftarrow> array_write (ct_old_dbs ct) (qid * 2 + 1) new_db;
              Some (ct\<lparr>ct_io := io, ct_old_dbs := old\<rparr>)
            } else Some ct)
         });
     cq_doorbells (qid + 1) n ct1
   }"

text \<open>Consumed completions of the administration queue need no work.\<close>

definition nvmev_proc_dbs :: "host_view \<Rightarrow> 'n io_handler \<Rightarrow> (nat \<Rightarrow> nat \<Rightarrow> u64) \<Rightarrow> (nat \<Rightarrow> nat \<Rightarrow> u64) \<Rightarrow> 'n ctrl \<Rightarrow> 'n ctrl option" where
  "nvmev_proc_dbs hp proc wall local ct = do {
     new_db \<leftarrow> array_read (ct_dbs ct) 0;
     old_db \<leftarrow> array_read (ct_old_dbs ct) 0;
     ct1 \<leftarrow> (if new_db \<noteq> old_db then do {
         ct' \<leftarrow> nvmev_proc_admin_sq hp new_db old_db ct;
         old \<leftarrow> array_write (ct_old_dbs ct') 0 new_db;
         Some (ct'\<lparr>ct_old_dbs := old\<rparr>)
       } else Some ct);
     new_db \<leftarrow> array_read (ct_dbs ct1) 1;
     old_db \<leftarrow> array_read (ct_old_dbs ct1) 1;
     ct2 \<leftarrow> (if new_db \<noteq> old_db then do {
         old \<leftarrow> array_write (ct_old_dbs ct1) 1 new_db;
         Some (ct1\<lparr>ct_old_dbs := old\<rparr>)
       } else Some ct1);
     ct3 \<leftarrow> sq_doorbells proc wall local 1 (ct_nr_sq ct2) ct2;
     cq_doorbells 1 (dv_nr_cq (ct_io ct3)) ct3
   }"

text \<open>One turn of the dispatcher.\<close>

definition dispatcher_turn :: "host_view \<Rightarrow> 'n io_handler \<Rightarrow> (nat \<Rightarrow> nat \<Rightarrow> u64) \<Rightarrow> (nat \<Rightarrow> nat \<Rightarrow> u64) \<Rightarrow> 'n nvmev \<Rightarrow> 'n nvmev option" where
  "dispatcher_turn hp proc wall local nv = do {
     nv1 \<leftarrow> nvmev_proc_bars hp nv;
     ct \<leftarrow> nvmev_proc_dbs hp proc wall local (nv_ctrl nv1);
     Some (nv1\<lparr>nv_ctrl := ct\<rparr>)
   }"

section \<open>The registers settle\<close>

text \<open>The registers the host writes, and how many of them still differ from what the driver has seen.\<close>

definition host_regs :: "bar_regs \<Rightarrow> nat \<times> nat \<times> nat \<times> nat" where
  "host_regs b = (br_aqa b, br_asq b, br_acq b, br_cc b)"

definition unseen :: "'n nvmev \<Rightarrow> nat" where
  "unseen nv = of_bool (br_aqa (nv_old nv) \<noteq> br_aqa (nv_bar nv)) + of_bool (br_asq (nv_old nv) \<noteq> br_asq (nv_bar nv)) +
     of_bool (br_acq (nv_old nv) \<noteq> br_acq (nv_bar nv)) + of_bool (br_cc (nv_old nv) \<noteq> br_cc (nv_bar nv))"

definition doorbells_ok :: "'n ctrl \<Rightarrow> bool" where
  "doorbells_ok ct \<longleftrightarrow> 2 \<le> length (ct_dbs ct) \<and> 2 \<le> length (ct_old_dbs ct)"

text \<open>What holds of the registers seen so far, for a queue set up since the registers \<open>r0\<close> were seen.\<close>

definition seen_ok :: "host_view \<Rightarrow> bar_regs \<Rightarrow> 'n nvmev \<Rightarrow> bool" where
  "seen_ok hp r0 nv \<longleftrightarrow> (let b = nv_bar nv; old = nv_old nv in
     (br_aqa r0 \<noteq> br_aqa b \<longrightarrow> br_aqa old = br_aqa b \<longrightarrow> (\<exists>q. ct_admin (nv_ctrl nv) = Some q \<and> aq_cq_head q = 0 \<and> aq_phase q = 1 \<and>
        aq_sq_depth q = aqa_asqs (br_aqa b) + 1 \<and> aq_cq_depth q = aqa_acqs (br_aqa b) + 1 \<and>
        ct_dbs (nv_ctrl nv) ! 0 = 0 \<and> ct_old_dbs (nv_ctrl nv) ! 0 = 0 \<and> ct_dbs (nv_ctrl nv) ! 1 = 0 \<and> ct_old_dbs (nv_ctrl nv) ! 1 = 0)) \<and>
     (br_asq r0 \<noteq> br_asq b \<longrightarrow> br_asq old = br_asq b \<longrightarrow> (\<exists>q. ct_admin (nv_ctrl nv) = Some q \<and>
        aq_nvme_sq q = Some (queue_entries (hp_admin hp) (br_asq b div PAGE_SIZE * PAGE_SIZE) (aqa_asqs (br_aqa b) + 1) 64))) \<and>
     (br_acq r0 \<noteq> br_acq b \<longrightarrow> br_acq old = br_acq b \<longrightarrow> (\<exists>q. ct_admin (nv_ctrl nv) = Some q \<and>
        aq_nvme_cq q = Some (queue_entries (hp_completions hp) (br_acq b div PAGE_SIZE * PAGE_SIZE) (aqa_acqs (br_aqa b) + 1) 16))) \<and>
     (br_cc r0 \<noteq> br_cc b \<longrightarrow> br_cc old = br_cc b \<longrightarrow> br_rdy b = cc_en (br_cc b) \<and> (cc_shn (br_cc b) = 1 \<longrightarrow> br_shst b = 2)) \<and>
     (br_cc old = br_cc b \<longrightarrow> br_cc r0 \<noteq> br_cc b \<longrightarrow> unseen nv = 0))"

definition queue_there :: "'n nvmev \<Rightarrow> bool" where
  "queue_there nv \<longleftrightarrow> ct_admin (nv_ctrl nv) \<noteq> None \<or> br_aqa (nv_old nv) \<noteq> br_aqa (nv_bar nv)"

lemma set_admin_dbs_ok:
  assumes "doorbells_ok ct"
  obtains ct' where "set_admin_dbs ct = Some ct'" "doorbells_ok ct'" "ct_admin ct' = ct_admin ct"
    "ct_dbs ct' ! 0 = 0" "ct_dbs ct' ! 1 = 0" "ct_old_dbs ct' ! 0 = 0" "ct_old_dbs ct' ! 1 = 0"
proof -
  have "0 < length (ct_dbs ct)" "0 < length (ct_old_dbs ct)" "1 < length (ct_dbs ct)" "1 < length (ct_old_dbs ct)"
    using assms by (auto simp: doorbells_ok_def)
  then show thesis
    using assms by (intro that[of "ct\<lparr>ct_dbs := (ct_dbs ct)[0 := 0, 1 := 0], ct_old_dbs := (ct_old_dbs ct)[0 := 0, 1 := 0]\<rparr>"])
      (simp_all add: set_admin_dbs_def set_dbs_def doorbells_ok_def del: One_nat_def)
qed

lemma cc_en_le: "cc_en cc = 0 \<or> cc_en cc = 1"
  by (auto simp: cc_en_def)

lemma proc_bars_quiet: "unseen nv = 0 \<Longrightarrow> nvmev_proc_bars hp nv = Some nv"
  by (simp add: nvmev_proc_bars_def unseen_def Let_def)

text \<open>A pass takes in one register.\<close>

definition takes_in :: "'n nvmev \<Rightarrow> 'n nvmev \<Rightarrow> bool" where
  "takes_in nv nv' \<longleftrightarrow> host_regs (nv_bar nv') = host_regs (nv_bar nv) \<and> unseen nv' < unseen nv \<and> queue_there nv' \<and> doorbells_ok (nv_ctrl nv')"

lemma proc_bars_step:
  assumes th: "queue_there nv" and db: "doorbells_ok (nv_ctrl nv)" and seen: "seen_ok hp r0 nv" and un: "unseen nv \<noteq> 0"
  shows "\<exists>nv'. nvmev_proc_bars hp nv = Some nv' \<and> takes_in nv nv' \<and> seen_ok hp r0 nv'"
proof -
  let ?b = "nv_bar nv" and ?o = "nv_old nv" and ?ct = "nv_ctrl nv"
  have len: "0 < length (ct_dbs ?ct)" "0 < length (ct_old_dbs ?ct)" "Suc 0 < length (ct_dbs ?ct)" "Suc 0 < length (ct_old_dbs ?ct)"
    using db by (auto simp: doorbells_ok_def)
  consider (aqa) "br_aqa ?o \<noteq> br_aqa ?b" | (asq) "br_aqa ?o = br_aqa ?b" "br_asq ?o \<noteq> br_asq ?b"
    | (acq) "br_aqa ?o = br_aqa ?b" "br_asq ?o = br_asq ?b" "br_acq ?o \<noteq> br_acq ?b"
    | (cc) "br_aqa ?o = br_aqa ?b" "br_asq ?o = br_asq ?b" "br_acq ?o = br_acq ?b" "br_cc ?o \<noteq> br_cc ?b"
    using un by (auto simp: unseen_def)
  then show ?thesis
  proof cases
    case aqa
    let ?q = "(case ct_admin ?ct of None \<Rightarrow> zero_admin_queue | Some q \<Rightarrow> q)\<lparr>aq_cq_head := 0, aq_phase := 1,
      aq_sq_depth := aqa_asqs (br_aqa ?b) + 1, aq_cq_depth := aqa_acqs (br_aqa ?b) + 1\<rparr>"
    obtain ct1 where c: "set_admin_dbs (?ct\<lparr>ct_admin := Some ?q\<rparr>) = Some ct1" "doorbells_ok ct1" "ct_admin ct1 = Some ?q"
      "ct_dbs ct1 ! 0 = 0" "ct_dbs ct1 ! 1 = 0" "ct_old_dbs ct1 ! 0 = 0" "ct_old_dbs ct1 ! 1 = 0"
      using set_admin_dbs_ok[of "?ct\<lparr>ct_admin := Some ?q\<rparr>"] db by (auto simp: doorbells_ok_def)
    let ?n = "nv\<lparr>nv_old := ?o\<lparr>br_aqa := br_aqa ?b\<rparr>, nv_ctrl := ct1\<rparr>"
    have "nvmev_proc_bars hp nv = Some ?n" using aqa c(1) by (simp add: nvmev_proc_bars_def Let_def)
    moreover have "takes_in nv ?n" using aqa c(2,3) by (simp add: takes_in_def unseen_def queue_there_def)
    moreover have "seen_ok hp r0 ?n" using seen aqa c by (auto simp: seen_ok_def Let_def unseen_def split: option.splits)
    ultimately show ?thesis by blast
  next
    case asq
    then obtain q where q: "ct_admin ?ct = Some q" using th by (auto simp: queue_there_def)
    let ?q = "q\<lparr>aq_sq_depth := aqa_asqs (br_aqa ?b) + 1,
      aq_nvme_sq := Some (queue_entries (hp_admin hp) (br_asq ?b div PAGE_SIZE * PAGE_SIZE) (aqa_asqs (br_aqa ?b) + 1) 64)\<rparr>"
    let ?n = "nv\<lparr>nv_old := ?o\<lparr>br_asq := br_asq ?b\<rparr>,
      nv_ctrl := ?ct\<lparr>ct_admin := Some ?q, ct_dbs := (ct_dbs ?ct)[0 := 0], ct_old_dbs := (ct_old_dbs ?ct)[0 := 0]\<rparr>\<rparr>"
    have "nvmev_proc_bars hp nv = Some ?n" using asq q len by (simp add: nvmev_proc_bars_def Let_def set_dbs_def)
    moreover have "takes_in nv ?n" using asq db by (simp add: takes_in_def unseen_def queue_there_def host_regs_def doorbells_ok_def)
    moreover have "seen_ok hp r0 ?n" using seen asq q len by (auto simp: seen_ok_def Let_def unseen_def nth_list_update)
    ultimately show ?thesis by blast
  next
    case acq
    then obtain q where q: "ct_admin ?ct = Some q" using th by (auto simp: queue_there_def)
    let ?q = "q\<lparr>aq_cq_depth := aqa_acqs (br_aqa ?b) + 1,
      aq_nvme_cq := Some (queue_entries (hp_completions hp) (br_acq ?b div PAGE_SIZE * PAGE_SIZE) (aqa_acqs (br_aqa ?b) + 1) 16), aq_cq_head := 0\<rparr>"
    let ?n = "nv\<lparr>nv_old := ?o\<lparr>br_acq := br_acq ?b\<rparr>,
      nv_ctrl := ?ct\<lparr>ct_admin := Some ?q, ct_dbs := (ct_dbs ?ct)[1 := 0], ct_old_dbs := (ct_old_dbs ?ct)[1 := 0]\<rparr>\<rparr>"
    have "nvmev_proc_bars hp nv = Some ?n" using acq q len by (simp add: nvmev_proc_bars_def Let_def set_dbs_def)
    moreover have "takes_in nv ?n" using acq db by (simp add: takes_in_def unseen_def queue_there_def host_regs_def doorbells_ok_def)
    moreover have "seen_ok hp r0 ?n" using seen acq q len by (auto simp: seen_ok_def Let_def unseen_def nth_list_update)
    ultimately show ?thesis by blast
  next
    case cc
    then obtain q where q: "ct_admin ?ct = Some q" using th by (auto simp: queue_there_def)
    let ?b1 = "?b\<lparr>br_rdy := cc_en (br_cc ?b)\<rparr>" and ?o1 = "?o\<lparr>br_cc := br_cc ?b\<rparr>"
    have b1: "(if cc_en (br_cc ?b) = 1 then (if ct_admin ?ct \<noteq> None then ?b\<lparr>br_rdy := 1\<rparr> else ?b) else ?b\<lparr>br_rdy := 0\<rparr>) = ?b1"
      using q cc_en_le[of "br_cc ?b"] by auto
    show ?thesis
    proof (cases "cc_shn (br_cc ?b) = 1")
      case True
      obtain ct1 where c: "set_admin_dbs ?ct = Some ct1" "doorbells_ok ct1" "ct_admin ct1 = Some q"
        "ct_dbs ct1 ! 0 = 0" "ct_dbs ct1 ! 1 = 0" "ct_old_dbs ct1 ! 0 = 0" "ct_old_dbs ct1 ! 1 = 0"
        using set_admin_dbs_ok[OF db] q by auto
      let ?n = "nv\<lparr>nv_bar := ?b1\<lparr>br_shst := 2\<rparr>, nv_old := ?o1, nv_ctrl := ct1\<lparr>ct_admin := Some (q\<lparr>aq_cq_head := 0\<rparr>)\<rparr>\<rparr>"
      have "nvmev_proc_bars hp nv = Some ?n" using cc True c(1,3) b1 by (simp add: nvmev_proc_bars_def Let_def)
      moreover have "takes_in nv ?n" using cc c(2) by (simp add: takes_in_def unseen_def queue_there_def host_regs_def doorbells_ok_def)
      moreover have "seen_ok hp r0 ?n" using seen cc q c by (auto simp: seen_ok_def Let_def unseen_def)
      ultimately show ?thesis by blast
    next
      case False
      let ?n = "nv\<lparr>nv_bar := ?b1, nv_old := ?o1\<rparr>"
      have "nvmev_proc_bars hp nv = Some ?n" using cc False b1 by (simp add: nvmev_proc_bars_def Let_def)
      moreover have "takes_in nv ?n" using cc q db by (simp add: takes_in_def unseen_def queue_there_def host_regs_def)
      moreover have "seen_ok hp r0 ?n" using seen cc False by (auto simp: seen_ok_def Let_def unseen_def)
      ultimately show ?thesis by blast
    qed
  qed
qed

fun bars_passes :: "host_view \<Rightarrow> nat \<Rightarrow> 'n nvmev \<Rightarrow> 'n nvmev option" where
  "bars_passes hp 0 nv = Some nv"
| "bars_passes hp (Suc n) nv = do { nv1 \<leftarrow> nvmev_proc_bars hp nv; bars_passes hp n nv1 }"

lemma bars_passes_settle:
  "queue_there nv \<Longrightarrow> doorbells_ok (nv_ctrl nv) \<Longrightarrow> seen_ok hp r0 nv \<Longrightarrow> unseen nv \<le> n \<Longrightarrow>
    \<exists>nv'. bars_passes hp n nv = Some nv' \<and> host_regs (nv_bar nv') = host_regs (nv_bar nv) \<and> unseen nv' = 0 \<and> seen_ok hp r0 nv'"
proof (induction n arbitrary: nv)
  case (Suc n)
  show ?case
  proof (cases "unseen nv = 0")
    case True
    then show ?thesis using Suc.IH[OF Suc.prems(1-3)] by (simp add: proc_bars_quiet)
  next
    case False
    obtain nv1 where s: "nvmev_proc_bars hp nv = Some nv1" "takes_in nv nv1" "seen_ok hp r0 nv1"
      using proc_bars_step[OF Suc.prems(1-3) False] by blast
    then show ?thesis using Suc.IH[of nv1] Suc.prems(4) by (auto simp: takes_in_def)
  qed
qed simp

section \<open>Completion doorbells\<close>

text \<open>Completions the host may report as consumed: the doorbell is in the queue and the entries name existing queues.\<close>

definition consumable :: "'n io_dev \<Rightarrow> completion_queue \<Rightarrow> nat \<Rightarrow> nat \<Rightarrow> bool" where
  "consumable dev cq new_db old_db \<longleftrightarrow> new_db < cq_queue_size cq \<and> old_db < cq_queue_size cq \<and> cq_queue_size cq \<le> length (cq_cq cq) \<and>
     (\<forall>e\<in>set (cq_cq cq). ce_sq_id e < length (dv_sqes dev))"

text \<open>When the doorbell wraps, the entry behind the end of the queue is read before the index is reset: the memory mapped
  for the queue must hold one more entry.\<close>

definition room_behind :: "completion_queue \<Rightarrow> nat \<Rightarrow> nat \<Rightarrow> bool" where
  "room_behind cq new_db old_db \<longleftrightarrow> old_db \<le> new_db \<or> cq_queue_size cq < length (cq_cq cq)"

text \<open>The entries between two values of the doorbell, how many of some entries belong to a submission queue, and what
  remains of the queue's count of commands in flight.\<close>

definition consumed :: "completion_queue \<Rightarrow> nat \<Rightarrow> nat \<Rightarrow> nvme_completion list" where
  "consumed cq new_db old_db = (if old_db \<le> new_db then take (new_db - old_db) (drop old_db (cq_cq cq))
     else take (cq_queue_size cq - old_db) (drop old_db (cq_cq cq)) @ take new_db (cq_cq cq))"

definition of_queue :: "nat \<Rightarrow> nvme_completion list \<Rightarrow> nat" where
  "of_queue q es = length (filter (\<lambda>e. ce_sq_id e = q) es)"

definition settled :: "nat \<Rightarrow> submission_queue \<Rightarrow> submission_queue" where
  "settled k sq = sq\<lparr>sq_stat := (sq_stat sq)\<lparr>ss_nr_in_flight := ss_nr_in_flight (sq_stat sq) - of_nat k\<rparr>\<rparr>"

lemma settled_0: "settled 0 sq = sq"
  by (simp add: settled_def)

lemma settled_settled: "settled a (settled b sq) = settled (b + a) sq"
  by (simp add: settled_def)

lemma settled_twice: "map_option (settled a) (map_option (settled b) s) = map_option (settled (b + a)) s"
  by (cases s) (simp_all add: settled_settled)

lemma settled_none [simp]: "map_option (settled 0) s = s"
  by (cases s) (simp_all add: settled_0)

lemma of_queue_simps [simp]:
  "of_queue q [] = 0" "of_queue q (e # es) = (if ce_sq_id e = q then 1 else 0) + of_queue q es"
  "of_queue q (xs @ es) = of_queue q xs + of_queue q es"
  by (simp_all add: of_queue_def)

text \<open>The completion queue after its doorbell was looked at.\<close>

definition noted :: "nat \<Rightarrow> nat \<Rightarrow> completion_queue \<Rightarrow> completion_queue" where
  "noted new_db old_db cq = (if new_db = old_db then cq else cq\<lparr>cq_cq_tail := int new_db - 1\<rparr>)"

definition cq_frame :: "'n io_dev \<Rightarrow> 'n io_dev \<Rightarrow> bool" where
  "cq_frame dev dev' \<longleftrightarrow> dv_workers dev' = dv_workers dev \<and> dv_nr_io_workers dev' = dv_nr_io_workers dev \<and> dv_ns dev' = dv_ns dev \<and>
     dv_ns_mapped dev' = dv_ns_mapped dev \<and> dv_nr_cq dev' = dv_nr_cq dev \<and> length (dv_sqes dev') = length (dv_sqes dev) \<and>
     length (dv_cqes dev') = length (dv_cqes dev)"

lemma cq_frame_trans: "cq_frame a b \<Longrightarrow> cq_frame b c \<Longrightarrow> cq_frame a c"
  by (simp add: cq_frame_def)

lemma cq_frame_refl [simp]: "cq_frame dev dev"
  by (simp add: cq_frame_def)

lemma cq_frame_put [simp]: "cq_frame dev (put_sq dev q sq)" "cq_frame dev (put_cq dev q cq)"
  by (simp_all add: cq_frame_def put_sq_def put_cq_def)

text \<open>The loop advances over entries that are not the new one.\<close>

lemma cq_loop_advance:
  assumes "get_cq dev cqid = Some cq" "cq_queue_size cq \<le> length (cq_cq cq)" "\<forall>e\<in>set (cq_cq cq). ce_sq_id e < length (dv_sqes dev)"
    "i + n \<le> cq_queue_size cq" "\<forall>k<n. new_db \<noteq> int (i + k)"
  shows "\<exists>dev'. cq_loop cqid new_db (int i) dev = cq_loop cqid new_db (int (i + n)) dev' \<and> cq_frame dev dev' \<and> dv_cqes dev' = dv_cqes dev \<and>
    (\<forall>q. get_sq dev' q = map_option (settled (of_queue q (take n (drop i (cq_cq cq))))) (get_sq dev q))"
  using assms
proof (induction n arbitrary: i dev)
  case 0
  then show ?case by (intro exI[of _ dev]) simp
next
  case (Suc n)
  have lt: "i < length (cq_cq cq)" using Suc.prems(2,4) by simp
  have ne: "int i \<noteq> new_db" "\<not> int (cq_queue_size cq) \<le> int i" using Suc.prems(4,5) by force+
  let ?e = "cq_cq cq ! i"
  have e: "ce_sq_id ?e < length (dv_sqes dev)" using Suc.prems(3) nth_mem[OF lt] by blast
  define d where "d = (case dv_sqes dev ! ce_sq_id ?e of None \<Rightarrow> dev
    | Some sq \<Rightarrow> put_sq dev (ce_sq_id ?e) (sq\<lparr>sq_stat := (sq_stat sq)\<lparr>ss_nr_in_flight := ss_nr_in_flight (sq_stat sq) - 1\<rparr>\<rparr>))"
  have d: "get_cq d cqid = Some cq" "cq_frame dev d" "dv_cqes d = dv_cqes dev"
    using Suc.prems(1) by (auto simp: d_def get_cq_def put_sq_def cq_frame_def split: option.split)
  have sd: "get_sq d q = map_option (settled (if ce_sq_id ?e = q then 1 else 0)) (get_sq dev q)" for q
    using e by (auto simp: d_def settled_def get_sq_def put_sq_def array_read_def nth_list_update split: option.split)
  have "cq_loop cqid new_db (int i) dev = cq_loop cqid new_db (int (Suc i)) d"
    using Suc.prems(1) lt ne e by (subst cq_loop.simps) (simp add: d_def add.commute)
  moreover have "\<forall>k<n. new_db \<noteq> int (Suc i + k)" using Suc.prems(5) by (metis Suc_less_eq add_Suc_shift)
  moreover have "\<forall>e\<in>set (cq_cq cq). ce_sq_id e < length (dv_sqes d)" "Suc i + n \<le> cq_queue_size cq"
    using Suc.prems(3,4) d(2) by (simp_all add: cq_frame_def)
  ultimately obtain dev' where "cq_loop cqid new_db (int i) dev = cq_loop cqid new_db (int (Suc i + n)) dev'" "cq_frame d dev'" "dv_cqes dev' = dv_cqes d"
    "\<forall>q. get_sq dev' q = map_option (settled (of_queue q (take n (drop (Suc i) (cq_cq cq))))) (get_sq d q)"
    using Suc.IH[OF d(1) Suc.prems(2)] by metis
  moreover have "take (Suc n) (drop i (cq_cq cq)) = ?e # take n (drop (Suc i) (cq_cq cq))" using lt by (metis Cons_nth_drop_Suc take_Suc_Cons)
  ultimately show ?case using cq_frame_trans[OF d(2)] d(3) by (intro exI[of _ dev']) (simp add: sd settled_twice)
qed

lemma proc_io_cq_ok:
  assumes cq: "get_cq dev cqid = Some cq" and con: "consumable dev cq new_db old_db" and room: "room_behind cq new_db old_db"
  shows "\<exists>dev'. nvmev_proc_io_cq cqid (int new_db) (int old_db) dev = Some dev' \<and> cq_frame dev dev' \<and>
    (\<forall>j. get_cq dev' j = (if j = cqid then Some (cq\<lparr>cq_cq_tail := int new_db - 1\<rparr>) else get_cq dev j)) \<and>
    (\<forall>q. get_sq dev' q = map_option (settled (of_queue q (consumed cq new_db old_db))) (get_sq dev q))"
proof -
  let ?s = "cq_queue_size cq"
  have c: "new_db < ?s" "old_db < ?s" "?s \<le> length (cq_cq cq)" "\<forall>e\<in>set (cq_cq cq). ce_sq_id e < length (dv_sqes dev)"
    "old_db \<le> new_db \<or> ?s < length (cq_cq cq)" using con room by (auto simp: consumable_def room_behind_def)
  have stop: "cq_loop cqid (int new_db) (int new_db) d = Some d" for d :: "'a io_dev" by (subst cq_loop.simps) simp
  have "\<exists>d. cq_loop cqid (int new_db) (int old_db) dev = Some d \<and> cq_frame dev d \<and> dv_cqes d = dv_cqes dev \<and>
    (\<forall>q. get_sq d q = map_option (settled (of_queue q (consumed cq new_db old_db))) (get_sq dev q))"
  proof (cases "old_db \<le> new_db")
    case True
    have "\<forall>k<new_db - old_db. int new_db \<noteq> int (old_db + k)" "old_db + (new_db - old_db) \<le> ?s" using c(1) True by auto
    then obtain d where "cq_loop cqid (int new_db) (int old_db) dev = cq_loop cqid (int new_db) (int (old_db + (new_db - old_db))) d"
      "cq_frame dev d" "dv_cqes d = dv_cqes dev"
      "\<forall>q. get_sq d q = map_option (settled (of_queue q (take (new_db - old_db) (drop old_db (cq_cq cq))))) (get_sq dev q)"
      using cq_loop_advance[OF cq c(3,4), of old_db "new_db - old_db" "int new_db"] by metis
    then show ?thesis using True stop by (auto simp: consumed_def)
  next
    case False
    obtain d where d: "cq_loop cqid (int new_db) (int old_db) dev = cq_loop cqid (int new_db) (int (old_db + (?s - old_db))) d"
      "cq_frame dev d" "dv_cqes d = dv_cqes dev"
      "\<forall>q. get_sq d q = map_option (settled (of_queue q (take (?s - old_db) (drop old_db (cq_cq cq))))) (get_sq dev q)"
      using cq_loop_advance[OF cq c(3,4), of old_db "?s - old_db" "int new_db"] c(2) False by auto
    have cd: "get_cq d cqid = Some cq" "\<forall>e\<in>set (cq_cq cq). ce_sq_id e < length (dv_sqes d)"
      using cq c(4) d(2,3) by (simp_all add: get_cq_def cq_frame_def)
    have wrap: "cq_loop cqid (int new_db) (int ?s) d = cq_loop cqid (int new_db) (int 0) d"
      using cd(1) c(1,5) False by (subst cq_loop.simps) simp
    obtain d' where d': "cq_loop cqid (int new_db) (int 0) d = cq_loop cqid (int new_db) (int (0 + new_db)) d'" "cq_frame d d'" "dv_cqes d' = dv_cqes d"
      "\<forall>q. get_sq d' q = map_option (settled (of_queue q (take new_db (drop 0 (cq_cq cq))))) (get_sq d q)"
      using cq_loop_advance[OF cd(1) c(3) cd(2), of 0 new_db "int new_db"] c(1) by auto
    have "old_db + (?s - old_db) = ?s" using c(2) by simp
    then have "cq_loop cqid (int new_db) (int old_db) dev = Some d'" using d(1) wrap d'(1) stop by simp
    then show ?thesis using cq_frame_trans[OF d(2) d'(2)] d(3,4) d'(3,4) False by (auto simp: consumed_def settled_twice)
  qed
  then obtain d where d: "cq_loop cqid (int new_db) (int old_db) dev = Some d" "cq_frame dev d" "dv_cqes d = dv_cqes dev"
    "\<forall>q. get_sq d q = map_option (settled (of_queue q (consumed cq new_db old_db))) (get_sq dev q)" by blast
  let ?cq = "cq\<lparr>cq_cq_tail := int new_db - 1\<rparr>"
  have "get_cq d cqid = Some cq" using cq d(3) by (simp add: get_cq_def)
  moreover have "cqid < length (dv_cqes d)" using cq d(3) by (auto simp: get_cq_def array_read_def split: if_splits)
  ultimately have "nvmev_proc_io_cq cqid (int new_db) (int old_db) dev = Some (put_cq d cqid ?cq)"
    "\<forall>j. get_cq (put_cq d cqid ?cq) j = (if j = cqid then Some ?cq else get_cq dev j)"
    using d(1,3) by (simp_all add: nvmev_proc_io_cq_def get_cq_def put_cq_def array_read_def)
  moreover have "get_sq (put_cq d cqid ?cq) q = get_sq d q" for q by (simp add: get_sq_def put_cq_def)
  ultimately show ?thesis using d(4) cq_frame_trans[OF d(2) cq_frame_put(2)[of d cqid ?cq]] by auto
qed

text \<open>The doorbells of the completion queues are the odd ones.\<close>

definition cqs_ready :: "'n ctrl \<Rightarrow> nat \<Rightarrow> nat \<Rightarrow> bool" where
  "cqs_ready ct qid n \<longleftrightarrow> (\<forall>j cq. qid \<le> j \<longrightarrow> j < qid + n \<longrightarrow> get_cq (ct_io ct) j = Some cq \<longrightarrow>
     ct_dbs ct ! (j * 2 + 1) \<noteq> ct_old_dbs ct ! (j * 2 + 1) \<longrightarrow>
     consumable (ct_io ct) cq (ct_dbs ct ! (j * 2 + 1)) (ct_old_dbs ct ! (j * 2 + 1)) \<and>
     room_behind cq (ct_dbs ct ! (j * 2 + 1)) (ct_old_dbs ct ! (j * 2 + 1)))"

lemma cqs_readyD:
  assumes "cqs_ready ct qid n" "qid \<le> j" "j < qid + n" "get_cq (ct_io ct) j = Some cq" "ct_dbs ct ! (j * 2 + 1) \<noteq> ct_old_dbs ct ! (j * 2 + 1)"
  shows "consumable (ct_io ct) cq (ct_dbs ct ! (j * 2 + 1)) (ct_old_dbs ct ! (j * 2 + 1))"
    "room_behind cq (ct_dbs ct ! (j * 2 + 1)) (ct_old_dbs ct ! (j * 2 + 1))"
  using assms unfolding cqs_ready_def by blast+

text \<open>How many consumed completions of the completion queues from \<open>qid\<close> on, \<open>n\<close> of them, belong to submission queue \<open>q\<close>.\<close>

definition completions_for :: "'n ctrl \<Rightarrow> nat \<Rightarrow> nat \<Rightarrow> nat \<Rightarrow> nat" where
  "completions_for ct qid n q = (\<Sum>j\<leftarrow>[qid..<qid + n]. case get_cq (ct_io ct) j of None \<Rightarrow> 0
     | Some cq \<Rightarrow> of_queue q (consumed cq (ct_dbs ct ! (j * 2 + 1)) (ct_old_dbs ct ! (j * 2 + 1))))"

lemma completions_for_0 [simp]: "completions_for ct qid 0 q = 0"
  by (simp add: completions_for_def)

lemma completions_for_Suc: "completions_for ct qid (Suc n) q = (case get_cq (ct_io ct) qid of None \<Rightarrow> 0
     | Some cq \<Rightarrow> of_queue q (consumed cq (ct_dbs ct ! (qid * 2 + 1)) (ct_old_dbs ct ! (qid * 2 + 1)))) + completions_for ct (qid + 1) n q"
proof -
  have "[qid..<qid + Suc n] = qid # [qid + 1..<qid + 1 + n]" by (simp add: upt_conv_Cons)
  then show ?thesis unfolding completions_for_def by simp
qed

lemma completions_for_cong:
  assumes "\<And>j. qid \<le> j \<Longrightarrow> j < qid + n \<Longrightarrow> get_cq (ct_io ct') j = get_cq (ct_io ct) j \<and>
    ct_dbs ct' ! (j * 2 + 1) = ct_dbs ct ! (j * 2 + 1) \<and> ct_old_dbs ct' ! (j * 2 + 1) = ct_old_dbs ct ! (j * 2 + 1)"
  shows "completions_for ct' qid n q = completions_for ct qid n q"
  unfolding completions_for_def
proof (intro arg_cong[where f = sum_list] map_cong refl)
  fix j assume "j \<in> set [qid..<qid + n]"
  then have "get_cq (ct_io ct') j = get_cq (ct_io ct) j" "ct_dbs ct' ! (j * 2 + 1) = ct_dbs ct ! (j * 2 + 1)"
    "ct_old_dbs ct' ! (j * 2 + 1) = ct_old_dbs ct ! (j * 2 + 1)" using assms[of j] by simp_all
  then show "(case get_cq (ct_io ct') j of None \<Rightarrow> 0
     | Some cq \<Rightarrow> of_queue q (consumed cq (ct_dbs ct' ! (j * 2 + 1)) (ct_old_dbs ct' ! (j * 2 + 1)))) =
    (case get_cq (ct_io ct) j of None \<Rightarrow> 0
     | Some cq \<Rightarrow> of_queue q (consumed cq (ct_dbs ct ! (j * 2 + 1)) (ct_old_dbs ct ! (j * 2 + 1))))" by (simp only:)
qed

definition db_frame :: "(nat \<Rightarrow> bool) \<Rightarrow> 'n ctrl \<Rightarrow> 'n ctrl \<Rightarrow> bool" where
  "db_frame P ct ct' \<longleftrightarrow> ct_dbs ct' = ct_dbs ct \<and> length (ct_old_dbs ct') = length (ct_old_dbs ct) \<and> ct_nr_sq ct' = ct_nr_sq ct \<and>
     (\<forall>i. P i \<longrightarrow> ct_old_dbs ct' ! i = ct_old_dbs ct ! i)"

lemma db_frame_trans: "db_frame P a b \<Longrightarrow> db_frame Q b c \<Longrightarrow> (\<And>i. R i \<Longrightarrow> P i \<and> Q i) \<Longrightarrow> db_frame R a c"
  by (simp add: db_frame_def)

lemma get_cq_array: "j < length (dv_cqes dev) \<Longrightarrow> array_read (dv_cqes dev) j = Some (get_cq dev j)"
  by (cases "dv_cqes dev ! j") (simp_all add: get_cq_def)

lemma get_sq_array: "j < length (dv_sqes dev) \<Longrightarrow> array_read (dv_sqes dev) j = Some (get_sq dev j)"
  by (cases "dv_sqes dev ! j") (simp_all add: get_sq_def)

lemma cq_doorbells_ok:
  assumes "ctrl_ok ct" "cqs_ready ct qid n" "qid + n \<le> NR_MAX_IO_QUEUE + 1"
  shows "\<exists>ct'. cq_doorbells qid n ct = Some ct' \<and> cq_frame (ct_io ct) (ct_io ct') \<and>
    db_frame (\<lambda>i. i < qid * 2 + 1 \<or> even i) ct ct' \<and>
    (\<forall>j cq. qid \<le> j \<longrightarrow> j < qid + n \<longrightarrow> get_cq (ct_io ct) j = Some cq \<longrightarrow> ct_old_dbs ct' ! (j * 2 + 1) = ct_dbs ct ! (j * 2 + 1)) \<and>
    (\<forall>j. get_cq (ct_io ct') j = (if qid \<le> j \<and> j < qid + n
      then map_option (noted (ct_dbs ct ! (j * 2 + 1)) (ct_old_dbs ct ! (j * 2 + 1))) (get_cq (ct_io ct) j) else get_cq (ct_io ct) j)) \<and>
    (\<forall>q. get_sq (ct_io ct') q = map_option (settled (completions_for ct qid n q)) (get_sq (ct_io ct) q))"
  using assms
proof (induction n arbitrary: qid ct)
  case 0
  then show ?case by (auto simp: db_frame_def)
next
  case (Suc n)
  have len: "length (dv_cqes (ct_io ct)) = 73" "length (ct_dbs ct) = 1024" "length (ct_old_dbs ct) = 1024" "qid < 73"
    using Suc.prems(1,3) by (auto simp: ctrl_ok_def NR_MAX_IO_QUEUE_def)
  have ar: "array_read (dv_cqes (ct_io ct)) qid = Some (get_cq (ct_io ct) qid)" using len by (intro get_cq_array) simp
  have go: "\<exists>ct'. cq_doorbells qid (Suc n) ct = Some ct' \<and> cq_frame (ct_io ct) (ct_io ct') \<and>
      db_frame (\<lambda>i. i < qid * 2 + 1 \<or> even i) ct ct' \<and>
      (\<forall>j cq. qid \<le> j \<longrightarrow> j < qid + Suc n \<longrightarrow> get_cq (ct_io ct) j = Some cq \<longrightarrow> ct_old_dbs ct' ! (j * 2 + 1) = ct_dbs ct ! (j * 2 + 1)) \<and>
    (\<forall>j. get_cq (ct_io ct') j = (if qid \<le> j \<and> j < qid + Suc n
      then map_option (noted (ct_dbs ct ! (j * 2 + 1)) (ct_old_dbs ct ! (j * 2 + 1))) (get_cq (ct_io ct) j) else get_cq (ct_io ct) j)) \<and>
    (\<forall>q. get_sq (ct_io ct') q = map_option (settled (completions_for ct qid (Suc n) q)) (get_sq (ct_io ct) q))"
    if run: "cq_doorbells qid (Suc n) ct = cq_doorbells (qid + 1) n ct1" and ok1: "ctrl_ok ct1" and fr: "cq_frame (ct_io ct) (ct_io ct1)"
      "db_frame (\<lambda>i. i \<noteq> qid * 2 + 1) ct ct1" "\<forall>j. j \<noteq> qid \<longrightarrow> get_cq (ct_io ct1) j = get_cq (ct_io ct) j"
      and sqs: "\<forall>q. get_sq (ct_io ct1) q = map_option (settled (case get_cq (ct_io ct) qid of None \<Rightarrow> 0
         | Some cq \<Rightarrow> of_queue q (consumed cq (ct_dbs ct ! (qid * 2 + 1)) (ct_old_dbs ct ! (qid * 2 + 1))))) (get_sq (ct_io ct) q)"
      and cqq: "get_cq (ct_io ct1) qid = map_option (noted (ct_dbs ct ! (qid * 2 + 1)) (ct_old_dbs ct ! (qid * 2 + 1))) (get_cq (ct_io ct) qid)"
      and here: "\<forall>cq. get_cq (ct_io ct) qid = Some cq \<longrightarrow> ct_old_dbs ct1 ! (qid * 2 + 1) = ct_dbs ct ! (qid * 2 + 1)" for ct1
  proof -
    have ready: "cqs_ready ct1 (qid + 1) n"
      unfolding cqs_ready_def
    proof (intro allI impI)
      fix j cq assume j: "qid + 1 \<le> j" "j < qid + 1 + n" "get_cq (ct_io ct1) j = Some cq" "ct_dbs ct1 ! (j * 2 + 1) \<noteq> ct_old_dbs ct1 ! (j * 2 + 1)"
      have same: "ct_dbs ct1 = ct_dbs ct" "ct_old_dbs ct1 ! (j * 2 + 1) = ct_old_dbs ct ! (j * 2 + 1)" using fr(2) j(1) by (auto simp: db_frame_def)
      have "get_cq (ct_io ct) j = Some cq" using j(1,3) fr(3) by simp
      then have "consumable (ct_io ct) cq (ct_dbs ct ! (j * 2 + 1)) (ct_old_dbs ct ! (j * 2 + 1))"
        "room_behind cq (ct_dbs ct ! (j * 2 + 1)) (ct_old_dbs ct ! (j * 2 + 1))"
        using cqs_readyD[OF Suc.prems(2), of j cq] j same by simp_all
      then show "consumable (ct_io ct1) cq (ct_dbs ct1 ! (j * 2 + 1)) (ct_old_dbs ct1 ! (j * 2 + 1)) \<and>
        room_behind cq (ct_dbs ct1 ! (j * 2 + 1)) (ct_old_dbs ct1 ! (j * 2 + 1))"
        unfolding same using fr(1) by (simp add: consumable_def cq_frame_def)
    qed
    have le: "qid + 1 + n \<le> NR_MAX_IO_QUEUE + 1" using Suc.prems(3) by simp
    obtain ct' where ct': "cq_doorbells (qid + 1) n ct1 = Some ct'" "cq_frame (ct_io ct1) (ct_io ct')"
      "db_frame (\<lambda>i. i < (qid + 1) * 2 + 1 \<or> even i) ct1 ct'"
      "\<forall>j cq. qid + 1 \<le> j \<longrightarrow> j < qid + 1 + n \<longrightarrow> get_cq (ct_io ct1) j = Some cq \<longrightarrow> ct_old_dbs ct' ! (j * 2 + 1) = ct_dbs ct1 ! (j * 2 + 1)"
      "\<forall>j. get_cq (ct_io ct') j = (if qid + 1 \<le> j \<and> j < qid + 1 + n
        then map_option (noted (ct_dbs ct1 ! (j * 2 + 1)) (ct_old_dbs ct1 ! (j * 2 + 1))) (get_cq (ct_io ct1) j) else get_cq (ct_io ct1) j)"
      "\<forall>q. get_sq (ct_io ct') q = map_option (settled (completions_for ct1 (qid + 1) n q)) (get_sq (ct_io ct1) q)"
      using Suc.IH[OF ok1 ready le] by blast
    have same: "get_cq (ct_io ct1) j = get_cq (ct_io ct) j" "ct_old_dbs ct1 ! (j * 2 + 1) = ct_old_dbs ct ! (j * 2 + 1)"
      if "j \<noteq> qid" for j using fr(2,3) that by (simp_all add: db_frame_def)
    have dbs: "ct_dbs ct1 = ct_dbs ct" using fr(2) by (simp add: db_frame_def)
    have "completions_for ct1 (qid + 1) n q = completions_for ct (qid + 1) n q" for q using same dbs by (intro completions_for_cong) auto
    then have "get_sq (ct_io ct') q = map_option (settled (completions_for ct qid (Suc n) q)) (get_sq (ct_io ct) q)" for q
      using ct'(6) sqs by (simp add: completions_for_Suc settled_twice)
    moreover have "get_cq (ct_io ct') j = (if qid \<le> j \<and> j < qid + Suc n
        then map_option (noted (ct_dbs ct ! (j * 2 + 1)) (ct_old_dbs ct ! (j * 2 + 1))) (get_cq (ct_io ct) j) else get_cq (ct_io ct) j)" for j
      using ct'(5) same[of j] dbs cqq by (cases "j = qid") auto
    moreover have "db_frame (\<lambda>i. i < qid * 2 + 1 \<or> even i) ct ct'" by (rule db_frame_trans[OF fr(2) ct'(3)]) auto
    moreover have "ct_old_dbs ct' ! (j * 2 + 1) = ct_dbs ct ! (j * 2 + 1)"
      if "qid \<le> j" "j < qid + Suc n" "get_cq (ct_io ct) j = Some cq" for j cq
    proof (cases "j = qid")
      case True
      then show ?thesis using ct'(3) here that(3) by (simp add: db_frame_def)
    next
      case False
      then show ?thesis using ct'(4) fr(2,3) that by (simp add: db_frame_def)
    qed
    ultimately show ?thesis using run ct'(1) cq_frame_trans[OF fr(1) ct'(2)] by auto
  qed
  show ?case
  proof (cases "get_cq (ct_io ct) qid")
    case None
    then show ?thesis using ar Suc.prems(1) by (intro go[of ct]) (simp_all add: db_frame_def)
  next
    case (Some cq)
    have none: "consumed cq db db = []" for db by (simp add: consumed_def)
    let ?new = "ct_dbs ct ! (qid * 2 + 1)" and ?old = "ct_old_dbs ct ! (qid * 2 + 1)"
    have rd: "array_read (ct_dbs ct) (qid * 2 + 1) = Some ?new" "array_read (ct_old_dbs ct) (qid * 2 + 1) = Some ?old" using len by simp_all
    show ?thesis
    proof (cases "?new = ?old")
      case True
      then show ?thesis using ar Some rd Suc.prems(1) none by (intro go[of ct]) (simp_all add: db_frame_def noted_def)
    next
      case False
      have "consumable (ct_io ct) cq ?new ?old" "room_behind cq ?new ?old" using cqs_readyD[OF Suc.prems(2) _ _ Some False] by simp_all
      then obtain io where io: "nvmev_proc_io_cq qid (int ?new) (int ?old) (ct_io ct) = Some io" "cq_frame (ct_io ct) io"
        "\<forall>j. get_cq io j = (if j = qid then Some (cq\<lparr>cq_cq_tail := int ?new - 1\<rparr>) else get_cq (ct_io ct) j)"
        "\<forall>q. get_sq io q = map_option (settled (of_queue q (consumed cq ?new ?old))) (get_sq (ct_io ct) q)"
        using proc_io_cq_ok[OF Some] by blast
      let ?ct = "ct\<lparr>ct_io := io, ct_old_dbs := (ct_old_dbs ct)[qid * 2 + 1 := ?new]\<rparr>"
      have "cq_doorbells qid (Suc n) ct = cq_doorbells (qid + 1) n ?ct" using ar Some rd False io(1) len by simp
      moreover have "ctrl_ok ?ct" using Suc.prems(1) io(2) by (simp add: ctrl_ok_def cq_frame_def)
      moreover have "db_frame (\<lambda>i. i \<noteq> qid * 2 + 1) ct ?ct" by (simp add: db_frame_def)
      ultimately show ?thesis using io(2-4) len Some False by (intro go[of ?ct]) (simp_all add: noted_def)
    qed
  qed
qed

section \<open>Submission doorbells\<close>

text \<open>The new entries between two values of a doorbell.\<close>

definition new_entries :: "submission_queue \<Rightarrow> nat \<Rightarrow> nat \<Rightarrow> nat" where
  "new_entries sq new_db old_db = (if old_db \<le> new_db then new_db - old_db else new_db + sq_queue_size sq - old_db)"

definition sqs_ready :: "('n \<Rightarrow> nvme_command \<Rightarrow> bool) \<Rightarrow> 'n ctrl \<Rightarrow> nat \<Rightarrow> nat \<Rightarrow> bool" where
  "sqs_ready allowed ct qid n \<longleftrightarrow> (\<forall>j sq. qid \<le> j \<longrightarrow> j < qid + n \<longrightarrow> get_sq (ct_io ct) j = Some sq \<longrightarrow>
     ct_dbs ct ! (j * 2) < sq_queue_size sq \<and> ct_old_dbs ct ! (j * 2) < sq_queue_size sq \<and>
     entries_ok allowed (ct_io ct) j (ct_old_dbs ct ! (j * 2)) (new_entries sq (ct_dbs ct ! (j * 2)) (ct_old_dbs ct ! (j * 2))))"

text \<open>What the dispatcher answers to the doorbell of a queue: a prefix of the new entries, all of them unless it ends at a
  command the processor may refuse.\<close>

definition served :: "(nvme_command \<Rightarrow> bool) \<Rightarrow> submission_queue \<Rightarrow> nat \<Rightarrow> nat \<Rightarrow> nat \<Rightarrow> bool" where
  "served may_refuse sq new_db old_db db \<longleftrightarrow> (\<exists>m. db = (old_db + m) mod sq_queue_size sq \<and> m \<le> new_entries sq new_db old_db \<and>
     (m < new_entries sq new_db old_db \<longrightarrow> may_refuse (sq_sq sq ! ((old_db + m) mod sq_queue_size sq))))"

lemma sqs_readyD:
  assumes "sqs_ready allowed ct qid n" "qid \<le> j" "j < qid + n" "get_sq (ct_io ct) j = Some sq"
  shows "ct_dbs ct ! (j * 2) < sq_queue_size sq" "ct_old_dbs ct ! (j * 2) < sq_queue_size sq"
    "entries_ok allowed (ct_io ct) j (ct_old_dbs ct ! (j * 2)) (new_entries sq (ct_dbs ct ! (j * 2)) (ct_old_dbs ct ! (j * 2)))"
  using assms unfolding sqs_ready_def by blast+

lemma entries_ok_other:
  assumes "entries_ok allowed dev j e n" "get_sq dev' j = get_sq dev j" "allowed (dv_ns dev') = allowed (dv_ns dev)"
  shows "entries_ok allowed dev' j e n"
  using assms by (simp add: entries_ok_def)

lemma new_entries_move:
  assumes "old_db < sq_queue_size sq" "m < sq_queue_size sq"
  shows "new_entries sq ((old_db + m) mod sq_queue_size sq) old_db = m"
  using assms by (cases "old_db + m < sq_queue_size sq") (simp_all add: new_entries_def le_mod_geq not_less)

lemma served_none: "db < sq_queue_size sq \<Longrightarrow> served may_refuse sq db db db"
  by (auto simp: served_def new_entries_def intro!: exI[of _ 0])

text \<open>A submission queue of the range that is looked at has one command more in flight for each entry it was served; the
  other queues are untouched.\<close>

definition sq_moved :: "bool \<Rightarrow> nat \<Rightarrow> nat \<Rightarrow> submission_queue option \<Rightarrow> submission_queue option \<Rightarrow> bool" where
  "sq_moved inside db old_db s s' \<longleftrightarrow> (if inside then (case s of None \<Rightarrow> s' = None
     | Some sq \<Rightarrow> \<exists>sq'. s' = Some sq' \<and> ss_nr_in_flight (sq_stat sq') = ss_nr_in_flight (sq_stat sq) + of_nat (new_entries sq db old_db))
     else s' = s)"

lemma sq_moved_same: "sq_moved inside db db s s"
  by (cases s) (simp_all add: sq_moved_def new_entries_def)

context command_processor
begin

text \<open>Serving queue \<open>qid\<close> and going on with the next.\<close>

lemma sq_doorbells_ok:
  assumes "state_ok good (ct_io ct)" "ctrl_ok ct" "sqs_ready allowed ct qid n" "qid + n \<le> NR_MAX_IO_QUEUE + 1"
  shows "\<exists>ct'. sq_doorbells proc wall local qid n ct = Some ct' \<and> state_ok good (ct_io ct') \<and> ctrl_ok ct' \<and>
    dv_cqes (ct_io ct') = dv_cqes (ct_io ct) \<and> dv_nr_cq (ct_io ct') = dv_nr_cq (ct_io ct) \<and>
    db_frame (\<lambda>i. i < qid * 2 \<or> odd i) ct ct' \<and>
    (\<forall>j sq. qid \<le> j \<longrightarrow> j < qid + n \<longrightarrow> get_sq (ct_io ct) j = Some sq \<longrightarrow>
      served may_refuse sq (ct_dbs ct ! (j * 2)) (ct_old_dbs ct ! (j * 2)) (ct_old_dbs ct' ! (j * 2))) \<and>
    (\<forall>j. sq_moved (qid \<le> j \<and> j < qid + n) (ct_old_dbs ct' ! (j * 2)) (ct_old_dbs ct ! (j * 2)) (get_sq (ct_io ct) j) (get_sq (ct_io ct') j))"
  using assms
proof (induction n arbitrary: qid ct)
  case 0
  then show ?case by (auto simp: db_frame_def sq_moved_def)
next
  case (Suc n)
  have len: "length (dv_sqes (ct_io ct)) = 73" "length (ct_dbs ct) = 1024" "length (ct_old_dbs ct) = 1024" "qid < 73"
    using Suc.prems(2,4) by (auto simp: ctrl_ok_def NR_MAX_IO_QUEUE_def)
  have ar: "array_read (dv_sqes (ct_io ct)) qid = Some (get_sq (ct_io ct) qid)" using len by (intro get_sq_array) simp
  have le: "qid + 1 + n \<le> NR_MAX_IO_QUEUE + 1" using Suc.prems(4) by simp
  have go: "?case"
    if run: "sq_doorbells proc wall local qid (Suc n) ct = sq_doorbells proc wall local (qid + 1) n ct1"
      and ok1: "state_ok good (ct_io ct1)" "ctrl_ok ct1"
      and oq: "other_queues qid (ct_io ct) (ct_io ct1)" "allowed (dv_ns (ct_io ct1)) = allowed (dv_ns (ct_io ct))"
      and fr: "db_frame (\<lambda>i. i \<noteq> qid * 2) ct ct1"
      and mv: "sq_moved True (ct_old_dbs ct1 ! (qid * 2)) (ct_old_dbs ct ! (qid * 2)) (get_sq (ct_io ct) qid) (get_sq (ct_io ct1) qid)"
      and here: "\<forall>sq. get_sq (ct_io ct) qid = Some sq \<longrightarrow>
        served may_refuse sq (ct_dbs ct ! (qid * 2)) (ct_old_dbs ct ! (qid * 2)) (ct_old_dbs ct1 ! (qid * 2))" for ct1
  proof -
    have gs: "get_sq (ct_io ct1) j = get_sq (ct_io ct) j" "ct_dbs ct1 = ct_dbs ct" "ct_old_dbs ct1 ! (j * 2) = ct_old_dbs ct ! (j * 2)"
      if "qid + 1 \<le> j" for j using oq(1) fr that by (auto simp: other_queues_def db_frame_def)
    have ready: "sqs_ready allowed ct1 (qid + 1) n"
      unfolding sqs_ready_def
    proof (intro allI impI)
      fix j sq assume j: "qid + 1 \<le> j" "j < qid + 1 + n" "get_sq (ct_io ct1) j = Some sq"
      have "get_sq (ct_io ct) j = Some sq" using j(1,3) gs(1) by simp
      then show "ct_dbs ct1 ! (j * 2) < sq_queue_size sq \<and> ct_old_dbs ct1 ! (j * 2) < sq_queue_size sq \<and>
        entries_ok allowed (ct_io ct1) j (ct_old_dbs ct1 ! (j * 2)) (new_entries sq (ct_dbs ct1 ! (j * 2)) (ct_old_dbs ct1 ! (j * 2)))"
        using sqs_readyD[OF Suc.prems(3), of j sq] j(1,2) entries_ok_other[OF _ gs(1)[OF j(1)] oq(2)] unfolding gs(2,3)[OF j(1)] by simp
    qed
    obtain ct' where ct': "sq_doorbells proc wall local (qid + 1) n ct1 = Some ct'" "state_ok good (ct_io ct')" "ctrl_ok ct'"
      "dv_cqes (ct_io ct') = dv_cqes (ct_io ct1)" "dv_nr_cq (ct_io ct') = dv_nr_cq (ct_io ct1)"
      "db_frame (\<lambda>i. i < (qid + 1) * 2 \<or> odd i) ct1 ct'"
      "\<forall>j sq. qid + 1 \<le> j \<longrightarrow> j < qid + 1 + n \<longrightarrow> get_sq (ct_io ct1) j = Some sq \<longrightarrow>
        served may_refuse sq (ct_dbs ct1 ! (j * 2)) (ct_old_dbs ct1 ! (j * 2)) (ct_old_dbs ct' ! (j * 2))"
      "\<forall>j. sq_moved (qid + 1 \<le> j \<and> j < qid + 1 + n) (ct_old_dbs ct' ! (j * 2)) (ct_old_dbs ct1 ! (j * 2)) (get_sq (ct_io ct1) j) (get_sq (ct_io ct') j)"
      using Suc.IH[OF ok1 ready le] by blast
    have "sq_moved (qid \<le> j \<and> j < qid + Suc n) (ct_old_dbs ct' ! (j * 2)) (ct_old_dbs ct ! (j * 2)) (get_sq (ct_io ct) j) (get_sq (ct_io ct') j)" for j
    proof (cases "j = qid")
      case True
      then have "get_sq (ct_io ct') qid = get_sq (ct_io ct1) qid" "ct_old_dbs ct' ! (qid * 2) = ct_old_dbs ct1 ! (qid * 2)"
        using ct'(8)[rule_format, of qid] ct'(6) by (simp_all add: sq_moved_def db_frame_def)
      then show ?thesis using mv True by simp
    next
      case False
      then have "get_sq (ct_io ct1) j = get_sq (ct_io ct) j" "ct_old_dbs ct1 ! (j * 2) = ct_old_dbs ct ! (j * 2)"
        using oq(1) fr by (simp_all add: other_queues_def db_frame_def)
      moreover have "(qid + 1 \<le> j \<and> j < qid + 1 + n) = (qid \<le> j \<and> j < qid + Suc n)" using False by auto
      ultimately show ?thesis using ct'(8)[rule_format, of j] by simp
    qed
    moreover have "db_frame (\<lambda>i. i < qid * 2 \<or> odd i) ct ct'" by (rule db_frame_trans[OF fr ct'(6)]) auto
    moreover have "served may_refuse sq (ct_dbs ct ! (j * 2)) (ct_old_dbs ct ! (j * 2)) (ct_old_dbs ct' ! (j * 2))"
      if "qid \<le> j" "j < qid + Suc n" "get_sq (ct_io ct) j = Some sq" for j sq
    proof (cases "j = qid")
      case True
      then show ?thesis using ct'(6) here that(3) by (simp add: db_frame_def)
    next
      case False
      then have j: "qid + 1 \<le> j" using that(1) by simp
      show ?thesis using ct'(7) j that(2,3) unfolding gs[OF j, symmetric] by simp
    qed
    ultimately show ?thesis using run ct'(1-5) oq(1) by (auto simp: other_queues_def)
  qed
  show ?case
  proof (cases "get_sq (ct_io ct) qid")
    case None
    then show ?thesis using ar Suc.prems(1,2) by (intro go[of ct]) (simp_all add: db_frame_def sq_moved_same)
  next
    case (Some sq)
    let ?new = "ct_dbs ct ! (qid * 2)" and ?old = "ct_old_dbs ct ! (qid * 2)"
    have rd: "array_read (ct_dbs ct) (qid * 2) = Some ?new" "array_read (ct_old_dbs ct) (qid * 2) = Some ?old" using len by simp_all
    have q: "?new < sq_queue_size sq" "?old < sq_queue_size sq" "entries_ok allowed (ct_io ct) qid ?old (new_entries sq ?new ?old)"
      using sqs_readyD[OF Suc.prems(3) _ _ Some] by simp_all
    show ?thesis
    proof (cases "?new = ?old")
      case True
      then show ?thesis using ar Some rd Suc.prems(1,2) served_none[OF q(2)] by (intro go[of ct]) (simp_all add: db_frame_def sq_moved_same)
    next
      case False
      obtain io m sq' where io: "nvmev_proc_io_sq proc (wall qid) (local qid) qid ?new ?old (ct_io ct) = Some (io, (?old + m) mod sq_queue_size sq)"
        "m \<le> new_entries sq ?new ?old" "state_ok good io" "other_queues qid (ct_io ct) io" "allowed (dv_ns io) = allowed (dv_ns (ct_io ct))"
        "m < new_entries sq ?new ?old \<longrightarrow> may_refuse (sq_sq sq ! ((?old + m) mod sq_queue_size sq))"
        "get_sq io qid = Some sq'" "ss_nr_in_flight (sq_stat sq') = ss_nr_in_flight (sq_stat sq) + of_nat m"
        using proc_io_sq_full[OF Suc.prems(1) Some q(1,2), of "wall qid" "local qid"] q(3) unfolding new_entries_def by blast
      let ?ct = "ct\<lparr>ct_io := io, ct_old_dbs := (ct_old_dbs ct)[qid * 2 := (?old + m) mod sq_queue_size sq]\<rparr>"
      have "sq_doorbells proc wall local qid (Suc n) ct = sq_doorbells proc wall local (qid + 1) n ?ct"
        using ar Some rd False io(1) len by simp
      moreover have "ctrl_ok ?ct" using Suc.prems(2) io(4) by (simp add: ctrl_ok_def other_queues_def)
      moreover have "db_frame (\<lambda>i. i \<noteq> qid * 2) ct ?ct" by (simp add: db_frame_def)
      moreover have "served may_refuse sq ?new ?old ((?old + m) mod sq_queue_size sq)" using io(2,6) by (auto simp: served_def)
      moreover have "m < sq_queue_size sq" using io(2) q(1,2) by (auto simp: new_entries_def split: if_splits)
      then have "sq_moved True ((?old + m) mod sq_queue_size sq) ?old (get_sq (ct_io ct) qid) (get_sq io qid)"
        using io(7,8) Some new_entries_move[OF q(2)] by (simp add: sq_moved_def)
      ultimately show ?thesis using io(3-5) len Some by (intro go[of ?ct]) simp_all
    qed
  qed
qed

end

section \<open>A round over all doorbells\<close>

text \<open>A controller whose I/O queues are ready: the submission queues hold allowed commands, and the completions that
  changed doorbells report are there.\<close>

definition round_ready :: "('n \<Rightarrow> nvme_command \<Rightarrow> bool) \<Rightarrow> 'n ctrl \<Rightarrow> bool" where
  "round_ready allowed ct \<longleftrightarrow> ctrl_ok ct \<and> ct_nr_sq ct \<le> NR_MAX_IO_QUEUE \<and>
     dv_nr_cq (ct_io ct) \<le> NR_MAX_IO_QUEUE \<and> sqs_ready allowed ct 1 (ct_nr_sq ct) \<and>
     (\<forall>j cq. 1 \<le> j \<longrightarrow> j \<le> dv_nr_cq (ct_io ct) \<longrightarrow> get_cq (ct_io ct) j = Some cq \<longrightarrow>
       ct_dbs ct ! (j * 2 + 1) \<noteq> ct_old_dbs ct ! (j * 2 + 1) \<longrightarrow>
       consumable (ct_io ct) cq (ct_dbs ct ! (j * 2 + 1)) (ct_old_dbs ct ! (j * 2 + 1)))"

text \<open>A round: every submission queue gets its answer, every completion queue the new position of the host, and the count of
  commands in flight of a queue grows by the entries served and shrinks by the completions consumed.\<close>

definition round_done :: "(nvme_command \<Rightarrow> bool) \<Rightarrow> 'n ctrl \<Rightarrow> 'n ctrl \<Rightarrow> bool" where
  "round_done may_refuse ct ct' \<longleftrightarrow> ctrl_ok ct' \<and> ct_dbs ct' = ct_dbs ct \<and> ct_old_dbs ct' ! 0 = ct_dbs ct ! 0 \<and> ct_old_dbs ct' ! 1 = ct_dbs ct ! 1 \<and>
     (\<forall>j sq. 1 \<le> j \<longrightarrow> j \<le> ct_nr_sq ct \<longrightarrow> get_sq (ct_io ct) j = Some sq \<longrightarrow>
       served may_refuse sq (ct_dbs ct ! (j * 2)) (ct_old_dbs ct ! (j * 2)) (ct_old_dbs ct' ! (j * 2)) \<and>
       (\<exists>sq'. get_sq (ct_io ct') j = Some sq' \<and> ss_nr_in_flight (sq_stat sq') = ss_nr_in_flight (sq_stat sq) +
         of_nat (new_entries sq (ct_old_dbs ct' ! (j * 2)) (ct_old_dbs ct ! (j * 2))) - of_nat (completions_for ct 1 (dv_nr_cq (ct_io ct)) j))) \<and>
     (\<forall>j cq. 1 \<le> j \<longrightarrow> j \<le> dv_nr_cq (ct_io ct) \<longrightarrow> get_cq (ct_io ct) j = Some cq \<longrightarrow>
       ct_old_dbs ct' ! (j * 2 + 1) = ct_dbs ct ! (j * 2 + 1) \<and>
       get_cq (ct_io ct') j = Some (noted (ct_dbs ct ! (j * 2 + 1)) (ct_old_dbs ct ! (j * 2 + 1)) cq))"

lemma cqs_ready_after:
  assumes "cqs_ready ct qid n" "dv_cqes (ct_io ct') = dv_cqes (ct_io ct)" "length (dv_sqes (ct_io ct')) = length (dv_sqes (ct_io ct))"
    "db_frame (\<lambda>i. odd i \<and> 1 < i) ct ct'" "1 \<le> qid"
  shows "cqs_ready ct' qid n"
  unfolding cqs_ready_def
proof (intro allI impI)
  fix j cq assume j: "qid \<le> j" "j < qid + n" "get_cq (ct_io ct') j = Some cq" "ct_dbs ct' ! (j * 2 + 1) \<noteq> ct_old_dbs ct' ! (j * 2 + 1)"
  have e: "ct_dbs ct' = ct_dbs ct" "ct_old_dbs ct' ! (j * 2 + 1) = ct_old_dbs ct ! (j * 2 + 1)" using assms(4,5) j(1) by (auto simp: db_frame_def)
  have "get_cq (ct_io ct) j = Some cq" using j(3) assms(2) by (simp add: get_cq_def)
  then have "consumable (ct_io ct) cq (ct_dbs ct ! (j * 2 + 1)) (ct_old_dbs ct ! (j * 2 + 1))"
    "room_behind cq (ct_dbs ct ! (j * 2 + 1)) (ct_old_dbs ct ! (j * 2 + 1))"
    using cqs_readyD[OF assms(1) j(1,2)] j(4) unfolding e by simp_all
  then show "consumable (ct_io ct') cq (ct_dbs ct' ! (j * 2 + 1)) (ct_old_dbs ct' ! (j * 2 + 1)) \<and>
    room_behind cq (ct_dbs ct' ! (j * 2 + 1)) (ct_old_dbs ct' ! (j * 2 + 1))"
    unfolding e using assms(3) by (simp add: consumable_def)
qed

context command_processor
begin

lemma proc_dbs_ok:
  assumes st: "state_ok good (ct_io ct)" and rd: "round_ready allowed ct" and quiet: "ct_dbs ct ! 0 = ct_old_dbs ct ! 0"
    and room: "\<forall>j cq. 1 \<le> j \<longrightarrow> j \<le> dv_nr_cq (ct_io ct) \<longrightarrow> get_cq (ct_io ct) j = Some cq \<longrightarrow>
      room_behind cq (ct_dbs ct ! (j * 2 + 1)) (ct_old_dbs ct ! (j * 2 + 1))"
  shows "\<exists>ct'. nvmev_proc_dbs hp proc wall local ct = Some ct' \<and> state_ok good (ct_io ct') \<and> round_done may_refuse ct ct'"
proof -
  note r = rd[unfolded round_ready_def]
  have cr: "cqs_ready ct 1 (dv_nr_cq (ct_io ct))"
    using r room by (simp add: cqs_ready_def less_Suc_eq_le)
  have len: "length (ct_dbs ct) = 1024" "length (ct_old_dbs ct) = 1024" using r by (simp_all add: ctrl_ok_def)
  let ?ct = "ct\<lparr>ct_old_dbs := (ct_old_dbs ct)[1 := ct_dbs ct ! 1]\<rparr>"
  have same: "(if ct_dbs ct ! 1 \<noteq> ct_old_dbs ct ! 1 then do { old \<leftarrow> array_write (ct_old_dbs ct) 1 (ct_dbs ct ! 1); Some (ct\<lparr>ct_old_dbs := old\<rparr>) }
      else Some ct) = Some ?ct"
    using len list_update_id[of "ct_old_dbs ct" 1] by (auto simp del: One_nat_def list_update_id)
  have fr0: "db_frame (\<lambda>i. i \<noteq> 1) ct ?ct" by (simp add: db_frame_def)
  have "sqs_ready allowed ?ct 1 (ct_nr_sq ct)" using r by (simp add: sqs_ready_def nth_list_update)
  moreover have "ctrl_ok ?ct" using r by (simp add: ctrl_ok_def)
  moreover have "1 + ct_nr_sq ct \<le> NR_MAX_IO_QUEUE + 1" using r by simp
  ultimately obtain ct3 where c3: "sq_doorbells proc wall local 1 (ct_nr_sq ct) ?ct = Some ct3" "state_ok good (ct_io ct3)" "ctrl_ok ct3"
    "dv_cqes (ct_io ct3) = dv_cqes (ct_io ct)" "dv_nr_cq (ct_io ct3) = dv_nr_cq (ct_io ct)" "db_frame (\<lambda>i. i < 1 * 2 \<or> odd i) ?ct ct3"
    "\<forall>j sq. 1 \<le> j \<longrightarrow> j < 1 + ct_nr_sq ct \<longrightarrow> get_sq (ct_io ?ct) j = Some sq \<longrightarrow>
      served may_refuse sq (ct_dbs ?ct ! (j * 2)) (ct_old_dbs ?ct ! (j * 2)) (ct_old_dbs ct3 ! (j * 2))"
    "\<forall>j. sq_moved (1 \<le> j \<and> j < 1 + ct_nr_sq ct) (ct_old_dbs ct3 ! (j * 2)) (ct_old_dbs ?ct ! (j * 2)) (get_sq (ct_io ?ct) j) (get_sq (ct_io ct3) j)"
    using sq_doorbells_ok[of ?ct 1 "ct_nr_sq ct" wall local] st by auto
  have fr1: "db_frame (\<lambda>i. odd i \<and> 1 < i) ct ct3" by (rule db_frame_trans[OF fr0 c3(6)]) auto
  have "cqs_ready ct3 1 (dv_nr_cq (ct_io ct))"
    using cqs_ready_after[OF cr c3(4) _ fr1] r c3(3) by (simp add: ctrl_ok_def)
  moreover have le: "1 + dv_nr_cq (ct_io ct) \<le> NR_MAX_IO_QUEUE + 1" using r by simp
  ultimately obtain ct4 where c4: "cq_doorbells 1 (dv_nr_cq (ct_io ct)) ct3 = Some ct4" "cq_frame (ct_io ct3) (ct_io ct4)"
    "db_frame (\<lambda>i. i < 1 * 2 + 1 \<or> even i) ct3 ct4"
    "\<forall>j cq. 1 \<le> j \<longrightarrow> j < 1 + dv_nr_cq (ct_io ct) \<longrightarrow> get_cq (ct_io ct3) j = Some cq \<longrightarrow> ct_old_dbs ct4 ! (j * 2 + 1) = ct_dbs ct3 ! (j * 2 + 1)"
    "\<forall>j. get_cq (ct_io ct4) j = (if 1 \<le> j \<and> j < 1 + dv_nr_cq (ct_io ct)
      then map_option (noted (ct_dbs ct3 ! (j * 2 + 1)) (ct_old_dbs ct3 ! (j * 2 + 1))) (get_cq (ct_io ct3) j) else get_cq (ct_io ct3) j)"
    "\<forall>q. get_sq (ct_io ct4) q = map_option (settled (completions_for ct3 1 (dv_nr_cq (ct_io ct)) q)) (get_sq (ct_io ct3) q)"
    using cq_doorbells_ok[OF c3(3)] by blast
  have ans: "completions_for ct3 1 (dv_nr_cq (ct_io ct)) q = completions_for ct 1 (dv_nr_cq (ct_io ct)) q" for q
    using c3(4) fr1 by (intro completions_for_cong) (simp add: get_cq_def db_frame_def)
  have "nvmev_proc_dbs hp proc wall local ct = Some ct4"
    using r quiet len same c3(1,5) c4(1) unfolding nvmev_proc_dbs_def by (simp del: One_nat_def)
  moreover have "state_ok good (ct_io ct4)" using c3(2) c4(2) by (simp add: state_ok_def workers_ok_def cq_frame_def)
  moreover have "ctrl_ok ct4" using c3(3) c4(2,3) by (simp add: ctrl_ok_def cq_frame_def db_frame_def)
  moreover have "ct_dbs ct4 = ct_dbs ct" "ct_old_dbs ct4 ! 0 = ct_dbs ct ! 0" "ct_old_dbs ct4 ! 1 = ct_dbs ct ! 1"
    using fr0 c3(6) c4(3) r quiet len by (simp_all add: db_frame_def)
  moreover have "served may_refuse sq (ct_dbs ct ! (j * 2)) (ct_old_dbs ct ! (j * 2)) (ct_old_dbs ct4 ! (j * 2))"
    if "1 \<le> j" "j \<le> ct_nr_sq ct" "get_sq (ct_io ct) j = Some sq" for j sq
  proof -
    have "ct_old_dbs ct4 ! (j * 2) = ct_old_dbs ct3 ! (j * 2)" using c4(3) by (simp add: db_frame_def)
    then show ?thesis using c3(7) that by (simp add: nth_list_update)
  qed
  moreover have "\<exists>sq'. get_sq (ct_io ct4) j = Some sq' \<and> ss_nr_in_flight (sq_stat sq') = ss_nr_in_flight (sq_stat sq) +
      of_nat (new_entries sq (ct_old_dbs ct4 ! (j * 2)) (ct_old_dbs ct ! (j * 2))) - of_nat (completions_for ct 1 (dv_nr_cq (ct_io ct)) j)"
    if "1 \<le> j" "j \<le> ct_nr_sq ct" "get_sq (ct_io ct) j = Some sq" for j sq
  proof -
    have "ct_old_dbs ct4 ! (j * 2) = ct_old_dbs ct3 ! (j * 2)" using c4(3) by (simp add: db_frame_def)
    moreover have "sq_moved True (ct_old_dbs ct3 ! (j * 2)) (ct_old_dbs ct ! (j * 2)) (Some sq) (get_sq (ct_io ct3) j)"
      using c3(8)[rule_format, of j] that by (simp add: nth_list_update)
    then obtain sq3 where "get_sq (ct_io ct3) j = Some sq3"
      "ss_nr_in_flight (sq_stat sq3) = ss_nr_in_flight (sq_stat sq) + of_nat (new_entries sq (ct_old_dbs ct3 ! (j * 2)) (ct_old_dbs ct ! (j * 2)))"
      by (auto simp: sq_moved_def)
    ultimately show ?thesis using c4(6)[rule_format, of j] ans by (simp add: settled_def)
  qed
  moreover have "ct_old_dbs ct4 ! (j * 2 + 1) = ct_dbs ct ! (j * 2 + 1)"
    if "1 \<le> j" "j \<le> dv_nr_cq (ct_io ct)" "get_cq (ct_io ct) j = Some cq" for j cq
  proof -
    have "get_cq (ct_io ct3) j = Some cq" using that(3) c3(4) by (simp add: get_cq_def)
    then show ?thesis using c4(4) that(1,2) fr1 by (simp add: db_frame_def)
  qed
  moreover have "get_cq (ct_io ct4) j = Some (noted (ct_dbs ct ! (j * 2 + 1)) (ct_old_dbs ct ! (j * 2 + 1)) cq)"
    if "1 \<le> j" "j \<le> dv_nr_cq (ct_io ct)" "get_cq (ct_io ct) j = Some cq" for j cq
  proof -
    have "get_cq (ct_io ct3) j = Some cq" using that(3) c3(4) by (simp add: get_cq_def)
    then show ?thesis using c4(5)[rule_format, of j] that(1,2) fr1 by (simp add: db_frame_def)
  qed
  ultimately show ?thesis unfolding round_done_def by blast
qed

end

end
