(* ===== verification/Controller_Props.thy ===== *)
theory Controller_Props
  imports Controller
begin

text \<open>
  Properties of the administration queue, the registers and the dispatcher's round over all I/O doorbells.
\<close>

section \<open>Numbers in memory\<close>

text \<open>Reading back what was written.\<close>

lemma read_write_same: "length bs = n \<Longrightarrow> read_bytes (write_bytes m a bs) a n = bs"
  by (auto simp: read_bytes_def write_bytes_def intro!: nth_equalityI)

lemma read_write_other: "b + n \<le> a \<or> a + length bs \<le> b \<Longrightarrow> read_bytes (write_bytes m a bs) b n = read_bytes m b n"
  by (auto simp: read_bytes_def write_bytes_def)

text \<open>The fields of a structure stay inside it.\<close>

lemma fill_outside:
  assumes "\<forall>(off, bs)\<in>set parts. off + length bs \<le> len" "x < a \<or> a + len \<le> x"
  shows "fill_struct m a len parts x = m x"
proof -
  have "foldl (\<lambda>m (off, bs). write_bytes m (a + off) bs) m1 parts x = m1 x" for m1
    using assms(1)
  proof (induction parts arbitrary: m1)
    case (Cons p ps)
    obtain off bs where p: "p = (off, bs)" by (cases p)
    then have "write_bytes m1 (a + off) bs x = m1 x" using Cons.prems assms(2) by (auto simp: write_bytes_def)
    then show ?case using Cons p by simp
  qed simp
  then show ?thesis using assms(2) by (auto simp: fill_struct_def write_bytes_def)
qed

section \<open>Administration commands\<close>

text \<open>C24: A batch of administration commands between two values of the doorbell, over the end of the ring or not, each of
  them one its handler can take, is processed without leaving an array: every command but an abort gets exactly one
  completion, in order, in the next slots of the completion ring, with the phase of the round in which the slot is
  filled; all other slots stay as they are; the interrupt of the queue is raised.\<close>

theorem admin_batch_answered:
  assumes "ct_admin ct = Some q" "admin_ok q" "ctrl_ok ct" "new_db < aq_sq_depth q" "old_db < aq_sq_depth q"
    "n = (if old_db \<le> new_db then new_db - old_db else new_db + aq_sq_depth q - old_db)" "n \<le> aq_cq_depth q"
    "\<forall>c\<in>set (batch q old_db n). admin_legal (ct_ns ct) c"
  shows "\<exists>ct' q'. nvmev_proc_admin_sq hp new_db old_db ct = Some ct' \<and> ct_admin ct' = Some q' \<and> admin_ok q' \<and> ctrl_ok ct' \<and>
    aq_cq_head q' = (aq_cq_head q + length (answered (batch q old_db n))) mod aq_cq_depth q \<and>
    posted (aq_cq_depth q) (aq_cq_head q) (aq_phase q) (answered (batch q old_db n)) (the (aq_nvme_cq q)) (the (aq_nvme_cq q')) \<and>
    dv_irqs (ct_io ct') \<noteq> [] \<and> last (dv_irqs (ct_io ct')) = 0"
proof -
  obtain ct1 q1 where l: "admin_sq_loop hp old_db n ct = Some ct1" "ct_admin ct1 = Some q1" "admin_ok q1" "ctrl_ok ct1"
    "aq_cq_head q1 = (aq_cq_head q + length (answered (batch q old_db n))) mod aq_cq_depth q"
    "posted (aq_cq_depth q) (aq_cq_head q) (aq_phase q) (answered (batch q old_db n)) (the (aq_nvme_cq q)) (the (aq_nvme_cq q1))"
    using admin_loop_ok[OF assms(1-3,5,7,8), of hp] by blast
  have "nat (int new_db - int old_db) = n" if "old_db \<le> new_db" using that assms(6) by (simp add: nat_diff_distrib)
  moreover have "nat (int new_db - int old_db + int (aq_sq_depth q)) = n" if "\<not> old_db \<le> new_db" using that assms(5,6) by simp
  ultimately have "nvmev_proc_admin_sq hp new_db old_db ct = Some (ct1\<lparr>ct_io := (ct_io ct1)\<lparr>dv_irqs := dv_irqs (ct_io ct1) @ [0]\<rparr>\<rparr>)"
    using l(1) assms(1) by (cases "old_db \<le> new_db") (simp_all add: nvmev_proc_admin_sq_def)
  then show ?thesis using l(2-6) by (simp add: ctrl_ok_def)
qed

text \<open>Four commands, of which the last, the first and the second are new; the second is an abort.\<close>

definition example_queue :: admin_queue where
  "example_queue = \<lparr>aq_phase = 1, aq_sq_depth = 4, aq_cq_depth = 4, aq_cq_head = 3,
     aq_nvme_sq = Some [\<lparr>ad_opcode = 9, ad_command_id = 20, ad_nsid = 0, ad_prp1 = 0, ad_dword10 = 7, ad_dword11 = 131073\<rparr>,
       \<lparr>ad_opcode = 8, ad_command_id = 21, ad_nsid = 0, ad_prp1 = 0, ad_dword10 = 0, ad_dword11 = 0\<rparr>,
       \<lparr>ad_opcode = 5, ad_command_id = 22, ad_nsid = 0, ad_prp1 = 8192, ad_dword10 = 65537, ad_dword11 = 3\<rparr>,
       \<lparr>ad_opcode = 6, ad_command_id = 19, ad_nsid = 1, ad_prp1 = 4096, ad_dword10 = 0, ad_dword11 = 0\<rparr>],
     aq_nvme_cq = Some (replicate 4 \<lparr>ce_result0 = 0, ce_result1 = 0, ce_sq_head = 0, ce_sq_id = 0, ce_command_id = 0, ce_status = 0\<rparr>)\<rparr>"

definition example_host :: host_view where
  "example_host = \<lparr>hp_commands = (\<lambda>_. []), hp_completions = (\<lambda>_. []), hp_admin = (\<lambda>_. [])\<rparr>"

definition example_ctrl :: "znsparams \<Rightarrow> unit ctrl" where
  "example_ctrl zp = \<lparr>ct_io = one_worker\<lparr>dv_sqes := replicate 73 None, dv_cqes := replicate 73 None\<rparr>, ct_admin = Some example_queue,
     ct_nr_sq = 0, ct_ns = [\<lparr>an_size = 1048576, an_csi = 0, an_zp = zp\<rparr>], ct_dbs = replicate 1024 0, ct_old_dbs = replicate 1024 0,
     ct_mdts = 5, ct_cntlid = 0\<rparr>"

lemma example_ctrl_ok:
  "ct_admin (example_ctrl zp) = Some example_queue" "admin_ok example_queue" "ctrl_ok (example_ctrl zp)"
  "ct_ns (example_ctrl zp) = [\<lparr>an_size = 1048576, an_csi = 0, an_zp = zp\<rparr>]"
  by (simp_all add: example_ctrl_def example_queue_def admin_ok_def ctrl_ok_def NR_MAX_IO_QUEUE_def)

theorem admin_batch_answered_witness:
  "\<exists>ct' q'. nvmev_proc_admin_sq example_host 2 3 (example_ctrl (zf_zp four_zones)) = Some ct' \<and> ct_admin ct' = Some q' \<and> aq_cq_head q' = 1 \<and>
    map ad_command_id (answered (batch example_queue 3 3)) = [19, 20]"
proof -
  have b: "batch example_queue 3 3 = [the (aq_nvme_sq example_queue) ! 3, the (aq_nvme_sq example_queue) ! 0, the (aq_nvme_sq example_queue) ! 1]"
    by (simp add: batch_def example_queue_def upt_rec)
  have leg: "\<forall>c\<in>set (batch example_queue 3 3). admin_legal (ct_ns (example_ctrl (zf_zp four_zones))) c"
    unfolding b example_ctrl_ok(4) by (simp add: example_queue_def admin_legal_def nsid_index_def NR_MAX_IO_QUEUE_def)
  have an: "map ad_command_id (answered (batch example_queue 3 3)) = [19, 20]" unfolding b by (simp add: example_queue_def answered_def)
  then have len: "length (answered (batch example_queue 3 3)) = 2" by (metis length_map length_Cons list.size(3) numeral_2_eq_2)
  have d: "aq_sq_depth example_queue = 4" "aq_cq_depth example_queue = 4" "aq_cq_head example_queue = 3" by (simp_all add: example_queue_def)
  show ?thesis
    using admin_batch_answered[OF example_ctrl_ok(1-3), of 2 3 3 "zf_zp four_zones" example_host] leg an by (auto simp: d len)
qed

text \<open>What a host learns from the identify structure of a namespace: the three capacities it reads are the size of the
  namespace in units of 512 bytes, the unit is the one of the format in use, so that the capacity it computes falls short
  of the size by less than a unit; nothing outside the page it gave is touched.\<close>

theorem identify_capacity_roundtrip:
  assumes "admin_entry ct eid = Some c" "ad_opcode c = 6" "ad_dword10 c = 0" "nsid_index c < length (ct_ns ct)"
    "an_size (ct_ns ct ! nsid_index c) < 2 ^ 64" "proc_admin_req hp eid ct = Some ct'"
  shows "le_number (read_bytes (ct_mem ct') (ad_prp1 c) 8) = an_size (ct_ns ct ! nsid_index c) div 512 \<and>
    le_number (read_bytes (ct_mem ct') (ad_prp1 c + 8) 8) = an_size (ct_ns ct ! nsid_index c) div 512 \<and>
    le_number (read_bytes (ct_mem ct') (ad_prp1 c + 16) 8) = an_size (ct_ns ct ! nsid_index c) div 512 \<and>
    2 ^ unat (ct_mem ct' (ad_prp1 c + 128 + 4 * unat (ct_mem ct' (ad_prp1 c + 26)) + 2)) = (512::nat) \<and>
    (\<forall>a. a < ad_prp1 c \<or> ad_prp1 c + PAGE_SIZE \<le> a \<longrightarrow> ct_mem ct' a = ct_mem ct a)"
proof -
  let ?b = "an_size (ct_ns ct ! nsid_index c)" and ?m = "fill_struct (ct_mem ct) (ad_prp1 c) PAGE_SIZE (id_ns_fields (an_size (ct_ns ct ! nsid_index c)))"
  have "make_cq_entry eid NVME_SC_SUCCESS (set_mem ct ?m) = Some ct'"
    using assms(1-4,6) by (simp add: proc_admin_req_def admin_identify_def admin_identify_namespace_def Let_def)
  then have m: "ct_mem ct' = ?m"
    by (auto simp: make_cq_entry_def make_cq_entry_results_def set_mem_def Let_def elim!: bind_SomeE)
  let ?w = "\<lambda>m off bs. write_bytes m (ad_prp1 c + off) bs"
  have n: "le_number (le_bytes 8 (?b div 2 ^ 9)) = ?b div 512"
    unfolding le_number_le_bytes using assms(5) by simp
  have cap: "read_bytes ?m (ad_prp1 c + 8 * i) 8 = le_bytes 8 (?b div 2 ^ 9)" if "i < 3" for i
  proof -
    have "i = 0 \<or> i = 1 \<or> i = 2" using that by auto
    then show ?thesis
      by (elim disjE) (simp_all add: fill_struct_def id_ns_fields_def lbaf_field_def read_write_same read_write_other)
  qed
  have "?m (ad_prp1 c + 26) = 0" "?m (130 + ad_prp1 c) = 9"
    by (simp_all add: fill_struct_def id_ns_fields_def lbaf_field_def write_bytes_def le_bytes_def upt_rec nth_append)
  moreover have "\<forall>(off, bs)\<in>set (id_ns_fields ?b). off + length bs \<le> PAGE_SIZE"
    by (simp add: id_ns_fields_def lbaf_field_def)
  ultimately show ?thesis
    unfolding m using cap[of 0] cap[of 1] cap[of 2] n fill_outside[of "id_ns_fields ?b" PAGE_SIZE _ "ad_prp1 c"] by simp
qed

theorem identify_capacity_roundtrip_witness:
  "\<exists>ct'. proc_admin_req example_host 3 (example_ctrl (zf_zp four_zones)) = Some ct' \<and> le_number (read_bytes (ct_mem ct') 4096 8) = 2048"
proof -
  let ?ct = "example_ctrl (zf_zp four_zones)"
  let ?c = "\<lparr>ad_opcode = 6, ad_command_id = 19, ad_nsid = 1, ad_prp1 = 4096, ad_dword10 = 0, ad_dword11 = 0\<rparr>"
  have c: "admin_entry ?ct 3 = Some ?c" by (simp add: admin_entry_def example_ctrl_def example_queue_def)
  have leg: "admin_legal (ct_ns ?ct) ?c" by (simp add: admin_legal_def nsid_index_def example_ctrl_ok(4))
  obtain ct1 ret r0 r1 where a: "proc_admin_req example_host 3 ?ct = make_cq_entry_results 3 ret r0 r1 ct1" "admin_frame ?ct ct1"
    using proc_admin_req_answers[OF c example_ctrl_ok(3) leg, of example_host] by (auto simp: answers_def)
  have "ct_admin ct1 = Some example_queue" using a(2) example_ctrl_ok(1) by (simp add: admin_frame_def)
  moreover obtain sq cq where "aq_nvme_sq example_queue = Some sq" "aq_nvme_cq example_queue = Some cq" "3 < length sq"
    by (simp add: example_queue_def)
  ultimately obtain ct' where r: "proc_admin_req example_host 3 ?ct = Some ct'"
    unfolding a(1) using make_results_ok[OF _ example_ctrl_ok(2)] by blast
  then show ?thesis using identify_capacity_roundtrip[OF c _ _ _ _ r] by (simp add: nsid_index_def example_ctrl_ok(4))
qed

text \<open>The list of namespaces fits in the page the host gave for it, but the driver clears the page behind it as well.\<close>

theorem identify_list_clears_second_page:
  assumes "admin_entry ct eid = Some c" "ad_opcode c = 6" "ad_dword10 c = 2" "length (ct_ns ct) \<le> 1024"
    "proc_admin_req hp eid ct = Some ct'" "ad_prp1 c + PAGE_SIZE \<le> a" "a < ad_prp1 c + 2 * PAGE_SIZE"
  shows "ct_mem ct' a = 0"
proof -
  let ?ids = "filter (\<lambda>i. i > ad_nsid c) [1..<Suc (length (ct_ns ct))]"
  let ?m = "write_bytes (write_bytes (ct_mem ct) (ad_prp1 c) (replicate (PAGE_SIZE * 2) 0)) (ad_prp1 c) (concat (map (le_bytes 4) ?ids))"
  have "make_cq_entry eid NVME_SC_SUCCESS (set_mem ct ?m) = Some ct'"
    using assms(1-3,5) by (simp add: proc_admin_req_def admin_identify_def admin_identify_namespaces_def Let_def)
  then have m: "ct_mem ct' = ?m"
    by (auto simp: make_cq_entry_def make_cq_entry_results_def set_mem_def Let_def elim!: bind_SomeE)
  have "length ?ids \<le> length [1..<Suc (length (ct_ns ct))]" by (rule length_filter_le)
  then have "length ?ids \<le> 1024" using assms(4) unfolding length_upt by linarith
  moreover have "length (concat (map (le_bytes 4) is)) = 4 * length is" for "is" by (induction "is") simp_all
  ultimately have "length (concat (map (le_bytes 4) ?ids)) \<le> PAGE_SIZE" by simp
  then show ?thesis unfolding m using assms(6,7) by (auto simp: write_bytes_def)
qed

definition list_queue :: admin_queue where
  "list_queue = example_queue\<lparr>aq_nvme_sq := Some (replicate 4 \<lparr>ad_opcode = 6, ad_command_id = 30, ad_nsid = 0, ad_prp1 = 4096, ad_dword10 = 2, ad_dword11 = 0\<rparr>)\<rparr>"

theorem identify_list_clears_second_page_witness:
  "\<exists>ct'. proc_admin_req example_host 0 ((example_ctrl (zf_zp four_zones))\<lparr>ct_admin := Some list_queue\<rparr>) = Some ct' \<and> ct_mem ct' 9000 = 0"
proof -
  let ?ct = "(example_ctrl (zf_zp four_zones))\<lparr>ct_admin := Some list_queue\<rparr>"
  let ?c = "\<lparr>ad_opcode = 6, ad_command_id = 30, ad_nsid = 0, ad_prp1 = 4096, ad_dword10 = 2, ad_dword11 = 0\<rparr>"
  have c: "admin_entry ?ct 0 = Some ?c" by (simp add: admin_entry_def list_queue_def example_queue_def)
  obtain ct' where r: "proc_admin_req example_host 0 ?ct = Some ct'"
    using c by (simp add: proc_admin_req_def admin_identify_def admin_identify_namespaces_def make_cq_entry_def make_cq_entry_results_def
      admin_entry_def Let_def list_queue_def example_queue_def set_mem_def)
  then show ?thesis using identify_list_clears_second_page[OF c _ _ _ r, of 9000] example_ctrl_ok(4) by simp
qed

section \<open>Registers\<close>

text \<open>C23: However the host has written the registers, four passes of the driver take all of them in, as long as it has set
  the attributes of the administration queues before; then nothing is left to do.  A queue set up on the way is empty,
  at phase 1, has the depths and the pages the registers name and cleared doorbells; the status says ready when the
  configuration says enabled, and shutdown complete when it asked for one.\<close>

theorem bars_settle:
  assumes "queue_there nv" "doorbells_ok (nv_ctrl nv)" "nv_bar nv = b" "nv_old nv = r"
  shows "\<exists>nv'. bars_passes hp 4 nv = Some nv' \<and> host_regs (nv_old nv') = host_regs b \<and> host_regs (nv_bar nv') = host_regs b \<and>
    nvmev_proc_bars hp nv' = Some nv' \<and>
    (br_aqa r \<noteq> br_aqa b \<longrightarrow> (\<exists>q. ct_admin (nv_ctrl nv') = Some q \<and> aq_cq_head q = 0 \<and> aq_phase q = 1 \<and>
      aq_sq_depth q = aqa_asqs (br_aqa b) + 1 \<and> aq_cq_depth q = aqa_acqs (br_aqa b) + 1 \<and>
      ct_dbs (nv_ctrl nv') ! 0 = 0 \<and> ct_old_dbs (nv_ctrl nv') ! 0 = 0 \<and> ct_dbs (nv_ctrl nv') ! 1 = 0 \<and> ct_old_dbs (nv_ctrl nv') ! 1 = 0)) \<and>
    (br_asq r \<noteq> br_asq b \<longrightarrow> (\<exists>q. ct_admin (nv_ctrl nv') = Some q \<and>
      aq_nvme_sq q = Some (queue_entries (hp_admin hp) (br_asq b div PAGE_SIZE * PAGE_SIZE) (aqa_asqs (br_aqa b) + 1) 64))) \<and>
    (br_acq r \<noteq> br_acq b \<longrightarrow> (\<exists>q. ct_admin (nv_ctrl nv') = Some q \<and>
      aq_nvme_cq q = Some (queue_entries (hp_completions hp) (br_acq b div PAGE_SIZE * PAGE_SIZE) (aqa_acqs (br_aqa b) + 1) 16))) \<and>
    (br_cc r \<noteq> br_cc b \<longrightarrow> br_rdy (nv_bar nv') = cc_en (br_cc b) \<and> (cc_shn (br_cc b) = 1 \<longrightarrow> br_shst (nv_bar nv') = 2))"
proof -
  have "seen_ok hp r nv" using assms(4) by (auto simp: seen_ok_def Let_def)
  moreover have "unseen nv \<le> 4" by (simp add: unseen_def of_bool_def)
  ultimately obtain nv' where n: "bars_passes hp 4 nv = Some nv'" "host_regs (nv_bar nv') = host_regs b" "unseen nv' = 0" "seen_ok hp r nv'"
    using bars_passes_settle[OF assms(1,2)] assms(3) by blast
  have e: "br_aqa (nv_bar nv') = br_aqa b" "br_asq (nv_bar nv') = br_asq b" "br_acq (nv_bar nv') = br_acq b" "br_cc (nv_bar nv') = br_cc b"
    using n(2) by (simp_all add: host_regs_def)
  have o: "br_aqa (nv_old nv') = br_aqa b" "br_asq (nv_old nv') = br_asq b" "br_acq (nv_old nv') = br_acq b" "br_cc (nv_old nv') = br_cc b"
    using n(3) e by (simp_all add: unseen_def of_bool_def split: if_splits)
  have old: "host_regs (nv_old nv') = host_regs b" using o by (simp add: host_regs_def)
  show ?thesis using n(1,2) old proc_bars_quiet[OF n(3)] n(4) unfolding seen_ok_def Let_def e o by blast
qed

text \<open>A controller that was just plugged in, and the registers of a host that enables it with 32 entries per queue.\<close>

definition fresh_regs :: bar_regs where
  "fresh_regs = \<lparr>br_cc = 0, br_aqa = 0, br_asq = 0, br_acq = 0, br_rdy = 0, br_shst = 0\<rparr>"

definition enabling :: bar_regs where
  "enabling = \<lparr>br_cc = 1, br_aqa = 31 * 65536 + 31, br_asq = 8192, br_acq = 12288, br_rdy = 0, br_shst = 0\<rparr>"

definition plugged_in :: "unit nvmev" where
  "plugged_in = \<lparr>nv_ctrl = (example_ctrl (zf_zp four_zones))\<lparr>ct_admin := None\<rparr>, nv_bar = enabling, nv_old = fresh_regs\<rparr>"

theorem bars_settle_witness:
  "\<exists>nv' q. bars_passes example_host 4 plugged_in = Some nv' \<and> br_rdy (nv_bar nv') = 1 \<and> ct_admin (nv_ctrl nv') = Some q \<and>
    aq_sq_depth q = 32 \<and> aq_cq_depth q = 32 \<and> aq_phase q = 1 \<and> aq_cq_head q = 0"
proof -
  have "queue_there plugged_in" "doorbells_ok (nv_ctrl plugged_in)" "nv_bar plugged_in = enabling" "nv_old plugged_in = fresh_regs"
    by (simp_all add: plugged_in_def queue_there_def fresh_regs_def enabling_def doorbells_ok_def example_ctrl_def)
  from bars_settle[OF this, of example_host] show ?thesis
    by (auto simp: fresh_regs_def enabling_def aqa_asqs_def aqa_acqs_def cc_en_def)
qed

text \<open>The host writes the configuration register.\<close>

definition write_cc :: "nat \<Rightarrow> 'n nvmev \<Rightarrow> 'n nvmev" where
  "write_cc cc nv = nv\<lparr>nv_bar := (nv_bar nv)\<lparr>br_cc := cc\<rparr>\<rparr>"

lemma post_first_slot:
  assumes q: "ct_admin ct = Some q" "aq_cq_head q = 0" "aq_phase q = 0"
    and m: "make_cq_entry_results eid ret r0 r1 ct = Some ct'" "ct_admin ct' = Some q'" "aq_nvme_cq q' = Some cq'"
  shows "even (ce_status (cq' ! 0))"
proof -
  obtain c where c: "admin_entry ct eid = Some c"
    using m(1) q(1) by (cases "admin_entry ct eid") (simp_all add: make_cq_entry_results_def)
  obtain cq where cq: "aq_nvme_cq q = Some cq"
    using m(1) q(1) c by (cases "aq_nvme_cq q") (simp_all add: make_cq_entry_results_def)
  have ne: "0 < length cq"
    using m(1) q c cq by (cases "0 < length cq") (simp_all add: make_cq_entry_results_def array_write_def)
  have "ce_status (cq' ! 0) = (2 * ret) mod 2 ^ 16"
    using m q c cq ne by (auto simp: make_cq_entry_results_def Let_def split: if_splits)
  then show ?thesis by (simp add: dvd_mod)
qed

text \<open>A host that shuts the controller down, disables it and enables it again with the same queues finds it ready with
  the head of the completion queue at its start; but the phase is that of the round in which the shutdown came.  When
  it was 0, the first completion is posted to the first slot with phase 0, the value a cleared slot has, and the host
  does not see it.\<close>

theorem restart_keeps_phase:
  assumes "unseen nv = 0" "doorbells_ok (nv_ctrl nv)" "br_cc (nv_bar nv) = 1" "ct_admin (nv_ctrl nv) = Some q" "aq_phase q = 0"
  shows "\<exists>nv1 nv2 nv3 q3. nvmev_proc_bars hp (write_cc (2 ^ 14 + 1) nv) = Some nv1 \<and> br_shst (nv_bar nv1) = 2 \<and>
    nvmev_proc_bars hp (write_cc 0 nv1) = Some nv2 \<and> br_rdy (nv_bar nv2) = 0 \<and>
    nvmev_proc_bars hp (write_cc 1 nv2) = Some nv3 \<and> br_rdy (nv_bar nv3) = 1 \<and>
    ct_admin (nv_ctrl nv3) = Some q3 \<and> aq_cq_head q3 = 0 \<and> aq_phase q3 = 0 \<and>
    (\<forall>eid ret r0 r1 ct' q' cq'. make_cq_entry_results eid ret r0 r1 (nv_ctrl nv3) = Some ct' \<longrightarrow> ct_admin ct' = Some q' \<longrightarrow> aq_nvme_cq q' = Some cq' \<longrightarrow>
      even (ce_status (cq' ! 0)))"
proof -
  have same: "br_aqa (nv_old nv) = br_aqa (nv_bar nv)" "br_asq (nv_old nv) = br_asq (nv_bar nv)" "br_acq (nv_old nv) = br_acq (nv_bar nv)"
    "br_cc (nv_old nv) = 1" using assms(1,3) by (simp_all add: unseen_def of_bool_def split: if_splits)
  obtain ct1 where c: "set_admin_dbs (nv_ctrl nv) = Some ct1" "doorbells_ok ct1" "ct_admin ct1 = Some q"
    using set_admin_dbs_ok[OF assms(2)] assms(4) by metis
  define q3 where "q3 = q\<lparr>aq_cq_head := 0\<rparr>"
  define nv1 where "nv1 = nv\<lparr>nv_bar := (nv_bar nv)\<lparr>br_cc := 2 ^ 14 + 1, br_rdy := 1, br_shst := 2\<rparr>, nv_old := (nv_old nv)\<lparr>br_cc := 2 ^ 14 + 1\<rparr>,
    nv_ctrl := ct1\<lparr>ct_admin := Some q3\<rparr>\<rparr>"
  define nv2 where "nv2 = nv1\<lparr>nv_bar := (nv_bar nv1)\<lparr>br_cc := 0, br_rdy := 0\<rparr>, nv_old := (nv_old nv1)\<lparr>br_cc := 0\<rparr>\<rparr>"
  define nv3 where "nv3 = nv2\<lparr>nv_bar := (nv_bar nv2)\<lparr>br_cc := 1, br_rdy := 1\<rparr>, nv_old := (nv_old nv2)\<lparr>br_cc := 1\<rparr>\<rparr>"
  have "nvmev_proc_bars hp (write_cc (2 ^ 14 + 1) nv) = Some nv1"
    using same c(1,3) assms(4) by (simp add: nvmev_proc_bars_def write_cc_def Let_def cc_en_def cc_shn_def nv1_def q3_def)
  moreover have "nvmev_proc_bars hp (write_cc 0 nv1) = Some nv2"
    using same by (simp add: nvmev_proc_bars_def write_cc_def Let_def cc_en_def cc_shn_def nv1_def nv2_def)
  moreover have "nvmev_proc_bars hp (write_cc 1 nv2) = Some nv3"
    using same by (simp add: nvmev_proc_bars_def write_cc_def Let_def cc_en_def cc_shn_def nv1_def nv2_def nv3_def)
  moreover have "br_shst (nv_bar nv1) = 2" "br_rdy (nv_bar nv2) = 0" "br_rdy (nv_bar nv3) = 1" "ct_admin (nv_ctrl nv3) = Some q3"
    "aq_cq_head q3 = 0" "aq_phase q3 = 0" using assms(5) by (simp_all add: nv1_def nv2_def nv3_def q3_def)
  moreover have "even (ce_status (cq' ! 0))"
    if m: "make_cq_entry_results eid ret r0 r1 (nv_ctrl nv3) = Some ct'" "ct_admin ct' = Some q'" "aq_nvme_cq q' = Some cq'" for eid ret r0 r1 ct' q' cq'
  proof -
    have "ct_admin (nv_ctrl nv3) = Some q3" "aq_cq_head q3 = 0" "aq_phase q3 = 0" using assms(5) by (simp_all add: nv1_def nv2_def nv3_def q3_def)
    then show ?thesis using post_first_slot m by blast
  qed
  ultimately show ?thesis by blast
qed

theorem restart_keeps_phase_witness:
  "\<exists>nv1 nv2 nv3 q3. let nv = plugged_in\<lparr>nv_old := enabling, nv_ctrl := example_ctrl (zf_zp four_zones)\<lparr>ct_admin := Some (example_queue\<lparr>aq_phase := 0\<rparr>)\<rparr>\<rparr> in
    nvmev_proc_bars example_host (write_cc (2 ^ 14 + 1) nv) = Some nv1 \<and> nvmev_proc_bars example_host (write_cc 0 nv1) = Some nv2 \<and>
    nvmev_proc_bars example_host (write_cc 1 nv2) = Some nv3 \<and> ct_admin (nv_ctrl nv3) = Some q3 \<and> aq_cq_head q3 = 0 \<and> aq_phase q3 = 0"
proof -
  let ?nv = "plugged_in\<lparr>nv_old := enabling, nv_ctrl := (example_ctrl (zf_zp four_zones))\<lparr>ct_admin := Some (example_queue\<lparr>aq_phase := 0\<rparr>)\<rparr>\<rparr>"
  have "unseen ?nv = 0" "doorbells_ok (nv_ctrl ?nv)" "br_cc (nv_bar ?nv) = 1" "ct_admin (nv_ctrl ?nv) = Some (example_queue\<lparr>aq_phase := 0\<rparr>)"
    "aq_phase (example_queue\<lparr>aq_phase := 0\<rparr>) = 0"
    by (simp_all add: plugged_in_def unseen_def enabling_def doorbells_ok_def example_ctrl_def)
  from restart_keeps_phase[OF this, of example_host] show ?thesis unfolding Let_def by blast
qed

section \<open>The dispatcher\<close>

text \<open>C22: One look at all I/O doorbells of a controller with a page-mapped drive.  Conditions: the administration doorbell
  is where it was; the I/O queues hold legal commands for the first namespace; the host consumed completions that were
  there; and the memory mapped for a completion queue whose doorbell wraps holds an entry behind the queue, since the code
  reads that entry before it resets its index.  Then no assertion fails and no array is left; every submission queue is
  served up to a write that found no space and gets its own answer; every completion queue notes where the host is; the
  commands in flight of each queue are those from before, plus the entries served, minus the completions consumed that
  name the queue; and drive and workers are in order for the next round.\<close>

theorem dispatcher_round_total:
  fixes ct :: "conv_ns ctrl"
  assumes "workers_ok (ct_io ct)" "drive_ok (dv_ns (ct_io ct))" "dv_ns_mapped (ct_io ct) \<noteq> []" "round_ready legal ct"
    and "ct_dbs ct ! 0 = ct_old_dbs ct ! 0"
    and "\<forall>j cq. 1 \<le> j \<longrightarrow> j \<le> dv_nr_cq (ct_io ct) \<longrightarrow> get_cq (ct_io ct) j = Some cq \<longrightarrow>
      room_behind cq (ct_dbs ct ! (j * 2 + 1)) (ct_old_dbs ct ! (j * 2 + 1))"
  shows "\<exists>ct'. nvmev_proc_dbs hp conv_handler wall local_clock ct = Some ct' \<and> workers_ok (ct_io ct') \<and> drive_ok (dv_ns (ct_io ct')) \<and>
    round_done (\<lambda>c. c_opcode c = nvme_cmd_write) ct ct'"
proof -
  have "state_ok drive_ok (ct_io ct)" using assms(1-3) by (simp add: state_ok_def)
  from conv_drive.proc_dbs_ok[OF this assms(4-6), of hp wall local_clock] show ?thesis unfolding state_ok_def by blast
qed

definition round_ctrl :: "nvme_command list \<Rightarrow> conv_ns ctrl" where
  "round_ctrl cs = \<lparr>ct_io = (ring_dev cs gib_ns)\<lparr>dv_sqes := None # Some (ring cs) # replicate 71 None,
       dv_cqes := None # dv_cqes one_worker ! 1 # replicate 71 None\<rparr>,
     ct_admin = None, ct_nr_sq = 1, ct_ns = [], ct_dbs = (replicate 1024 0)[2 := 1, 3 := 2], ct_old_dbs = (replicate 1024 0)[2 := 3, 3 := 1],
     ct_mdts = 5, ct_cntlid = 0\<rparr>"

text \<open>This controller on any drive that finds its commands legal.\<close>

definition round_on :: "nvme_command \<Rightarrow> io_worker list \<Rightarrow> conv_ns \<Rightarrow> nat list \<Rightarrow> conv_ns ctrl" where
  "round_on c ws ns addrs = (round_ctrl (replicate 4 c))\<lparr>ct_io := (ct_io (round_ctrl (replicate 4 c)))
     \<lparr>dv_workers := ws, dv_nr_io_workers := length ws, dv_ns := ns, dv_ns_mapped := addrs\<rparr>\<rparr>"

lemma round_on_ready:
  assumes "legal ns c" "c_nsid c = 1"
  shows "round_ready legal (round_on c ws ns addrs)" "ct_dbs (round_on c ws ns addrs) ! 0 = ct_old_dbs (round_on c ws ns addrs) ! 0"
    "\<forall>j cq. 1 \<le> j \<longrightarrow> j \<le> dv_nr_cq (ct_io (round_on c ws ns addrs)) \<longrightarrow> get_cq (ct_io (round_on c ws ns addrs)) j = Some cq \<longrightarrow>
      room_behind cq (ct_dbs (round_on c ws ns addrs) ! (j * 2 + 1)) (ct_old_dbs (round_on c ws ns addrs) ! (j * 2 + 1))"
    "dv_nr_cq (ct_io (round_on c ws ns addrs)) = 1" "get_cq (ct_io (round_on c ws ns addrs)) 1 = dv_cqes one_worker ! 1"
    "ct_dbs (round_on c ws ns addrs) ! 3 = 2" "ct_old_dbs (round_on c ws ns addrs) ! 3 = 1"
proof -
  let ?ct = "round_on c ws ns addrs"
  have sq: "get_sq (ct_io ?ct) 1 = Some (ring (replicate 4 c))" by (simp add: round_on_def round_ctrl_def get_sq_def array_read_def)
  have "dv_ns (ct_io ?ct) = ns" by (simp add: round_on_def)
  then have "entries_ok legal (ct_io ?ct) 1 3 2"
    using sq assms by (intro enum_entries[OF sq]) (auto simp: ring_def)
  then have sqs: "sqs_ready legal ?ct 1 1"
    using sq by (auto simp: sqs_ready_def round_on_def round_ctrl_def new_entries_def ring_def le_Suc_eq less_Suc_eq)
  show cq: "dv_nr_cq (ct_io ?ct) = 1" "get_cq (ct_io ?ct) 1 = dv_cqes one_worker ! 1"
    by (simp_all add: round_on_def round_ctrl_def get_cq_def array_read_def ring_dev_def)
  show "round_ready legal ?ct" using sqs cq
    by (auto simp: round_ready_def ctrl_ok_def round_on_def round_ctrl_def NR_MAX_IO_QUEUE_def ring_dev_def consumable_def one_worker_def le_Suc_eq)
  show "\<forall>j cq. 1 \<le> j \<longrightarrow> j \<le> dv_nr_cq (ct_io ?ct) \<longrightarrow> get_cq (ct_io ?ct) j = Some cq \<longrightarrow>
      room_behind cq (ct_dbs ?ct ! (j * 2 + 1)) (ct_old_dbs ?ct ! (j * 2 + 1))"
    using cq by (auto simp: room_behind_def one_worker_def)
  show "ct_dbs ?ct ! 0 = ct_old_dbs ?ct ! 0" "ct_dbs ?ct ! 3 = 2" "ct_old_dbs ?ct ! 3 = 1" by (simp_all add: round_on_def round_ctrl_def)
qed

text \<open>In the witness the submission queue wraps from its last entry to the second one with writes, and the host consumed
  one completion of that queue.\<close>

theorem dispatcher_round_total_witness:
  "\<exists>ct' sq' m. nvmev_proc_dbs example_host conv_handler (\<lambda>_ _. 5000) (\<lambda>_ _. 6000)
    (round_ctrl (replicate 4 (rq_cmd (rw_request nvme_cmd_write 16 15)))) = Some ct' \<and> ct_old_dbs ct' ! 3 = 2 \<and>
    m \<le> 2 \<and> ct_old_dbs ct' ! 2 = (3 + m) mod 4 \<and> get_sq (ct_io ct') 1 = Some sq' \<and>
    map_option cq_cq_tail (get_cq (ct_io ct') 1) = Some 1"
proof -
  let ?cs = "replicate 4 (rq_cmd (rw_request nvme_cmd_write 16 15))" and ?ct = "round_ctrl (replicate 4 (rq_cmd (rw_request nvme_cmd_write 16 15)))"
  have io: "workers_ok (ct_io ?ct)" "dv_ns (ct_io ?ct) = gib_ns" "dv_ns_mapped (ct_io ?ct) \<noteq> []"
    using ring_dev_ok(1-3)[where cs = ?cs and ns = gib_ns] by (simp_all add: round_ctrl_def workers_ok_def ring_dev_def)
  have leg: "legal gib_ns (rq_cmd (rw_request nvme_cmd_write 16 15))" by (simp add: legal_def rw_request_def nr_lba_def gib_ns_ok(4))
  have sq: "get_sq (ct_io ?ct) 1 = Some (ring ?cs)" by (simp add: round_ctrl_def get_sq_def array_read_def)
  have "entries_ok legal (ct_io ?ct) 1 3 2"
    using sq leg io(2) by (intro enum_entries[OF sq]) (auto simp: ring_def rw_request_def)
  then have sqs: "sqs_ready legal ?ct 1 1"
    using sq by (auto simp: sqs_ready_def round_ctrl_def new_entries_def ring_def le_Suc_eq less_Suc_eq)
  have cq: "get_cq (ct_io ?ct) 1 = dv_cqes one_worker ! 1" "dv_nr_cq (ct_io ?ct) = 1"
    by (simp_all add: round_ctrl_def get_cq_def array_read_def ring_dev_def)
  have ready: "round_ready legal ?ct" using sqs cq
    by (auto simp: round_ready_def ctrl_ok_def round_ctrl_def NR_MAX_IO_QUEUE_def ring_dev_def consumable_def one_worker_def le_Suc_eq)
  have room: "\<forall>j cq. 1 \<le> j \<longrightarrow> j \<le> dv_nr_cq (ct_io ?ct) \<longrightarrow> get_cq (ct_io ?ct) j = Some cq \<longrightarrow>
      room_behind cq (ct_dbs ?ct ! (j * 2 + 1)) (ct_old_dbs ?ct ! (j * 2 + 1))"
    using cq by (auto simp: room_behind_def one_worker_def)
  have quiet: "ct_dbs ?ct ! 0 = ct_old_dbs ?ct ! 0" by (simp add: round_ctrl_def)
  from dispatcher_round_total[OF io(1) _ io(3) ready quiet room, of example_host "\<lambda>_ _. 5000" "\<lambda>_ _. 6000"] obtain ct'
    where r: "nvmev_proc_dbs example_host conv_handler (\<lambda>_ _. 5000) (\<lambda>_ _. 6000) ?ct = Some ct'"
      "round_done (\<lambda>c. c_opcode c = nvme_cmd_write) ?ct ct'"
    using io(2) gib_ns_ok(2) by auto
  have dbs: "ct_dbs ?ct ! 2 = 1" "ct_dbs ?ct ! 3 = 2" "ct_old_dbs ?ct ! 2 = 3" "ct_old_dbs ?ct ! 3 = 1" "ct_nr_sq ?ct = 1"
    by (simp_all add: round_ctrl_def)
  obtain c where c: "get_cq (ct_io ?ct) 1 = Some c" using cq by (simp add: one_worker_def)
  have "ct_old_dbs ct' ! 3 = 2" "get_cq (ct_io ct') 1 = Some (c\<lparr>cq_cq_tail := 1\<rparr>)"
    using r(2) c cq(2) dbs unfolding round_done_def by (force simp: noted_def)+
  moreover have "\<exists>m sq'. m \<le> 2 \<and> ct_old_dbs ct' ! 2 = (3 + m) mod 4 \<and> get_sq (ct_io ct') 1 = Some sq'"
  proof -
    have "served (\<lambda>c. c_opcode c = nvme_cmd_write) (ring ?cs) 1 3 (ct_old_dbs ct' ! 2)" "\<exists>sq'. get_sq (ct_io ct') 1 = Some sq'"
      using r(2) sq dbs unfolding round_done_def by force+
    then show ?thesis by (auto simp: served_def new_entries_def ring_def)
  qed
  ultimately show ?thesis using r(1) by auto
qed

end
