(* ===== verification/Kv_Table.thy ===== *)
theory Kv_Table
  imports Simple_Ftl Io_Copy
begin

text \<open>
  The store of keys and values, first part (src/kv\_ftl.c, src/append\_only.c, src/bitmap.c): the allocators of value
  space and the hash table that maps a key to the place of its value.  A slot of the table is free when its offset is
  -1; keys that collide take the next free slot and are linked from the slot they collided at.
\<close>

unbundle bit_operations_syntax

section \<open>Allocators\<close>

definition SMALL_LENGTH :: nat where "SMALL_LENGTH = 1024"
definition LARGE_LENGTH :: nat where "LARGE_LENGTH = 4096"

record append_pool =
  ap_latest :: u64
  ap_dev_size :: u64
  ap_total_written :: u64

record bitmap_pool =
  bm_small_nbits :: nat
  bm_large_nbits :: nat
  bm_small :: "nat \<Rightarrow> bool"
  bm_large :: "nat \<Rightarrow> bool"
  bm_small_capacity :: nat
  bm_large_capacity :: nat
  bm_small_last_pos :: nat
  bm_large_last_pos :: nat
  bm_dev_size :: nat
  bm_total_written :: nat

definition append_only_allocator_init :: "nat \<Rightarrow> append_pool" where
  "append_only_allocator_init bytes = \<lparr>ap_latest = 0, ap_dev_size = of_nat bytes, ap_total_written = 0\<rparr>"

definition append_only_allocate :: "nat \<Rightarrow> append_pool \<Rightarrow> append_pool \<times> nat" where
  "append_only_allocate len p =
    (p\<lparr>ap_latest := ap_latest p + of_nat len, ap_total_written := ap_total_written p + of_nat len\<rparr>, unat (ap_latest p))"

text \<open>The bitmaps are static arrays of 600000 and 300000 words; positions and fill counts keep their values from an earlier use.\<close>

definition SMALL_BITS :: nat where "SMALL_BITS = 600000 * 64"
definition LARGE_BITS :: nat where "LARGE_BITS = 300000 * 64"

definition bitmap_allocator_init :: "nat \<Rightarrow> bitmap_pool \<Rightarrow> bitmap_pool option" where
  "bitmap_allocator_init bytes p = do {
     let small = bytes div 2 div SMALL_LENGTH;
     let large = bytes div 2 div LARGE_LENGTH;
     nvmev_assert (small \<le> SMALL_BITS \<and> large \<le> LARGE_BITS);
     Some (p\<lparr>bm_dev_size := bytes, bm_small_nbits := small, bm_large_nbits := large,
       bm_small := (\<lambda>i. if i < small then False else bm_small p i), bm_large := (\<lambda>i. if i < large then False else bm_large p i)\<rparr>)
   }"

text \<open>\<open>find_zero bits n start\<close> is the kernel's \<^verbatim>\<open>bitmap_find_next_zero_area\<close> for an area of one bit.\<close>

definition bitmap_allocate :: "((nat \<Rightarrow> bool) \<Rightarrow> nat \<Rightarrow> nat \<Rightarrow> nat) \<Rightarrow> nat \<Rightarrow> bitmap_pool \<Rightarrow> (bitmap_pool \<times> nat) option" where
  "bitmap_allocate find_zero len p0 =
    (let p = p0\<lparr>bm_total_written := bm_total_written p0 + len\<rparr>
     in if len > SMALL_LENGTH then do {
          let off = find_zero (bm_large p) (bm_large_nbits p) (bm_large_last_pos p);
          nvmev_assert (off < LARGE_BITS);
          Some (p\<lparr>bm_large := (bm_large p)(off := True), bm_large_last_pos := (if off + 1 > bm_large_nbits p then 0 else off + 1),
                  bm_large_capacity := bm_large_capacity p + 1\<rparr>,
                bm_dev_size p div 2 + off * LARGE_LENGTH)
        } else do {
          let off = find_zero (bm_small p) (bm_small_nbits p) (bm_small_last_pos p);
          nvmev_assert (off < SMALL_BITS);
          Some (p\<lparr>bm_small := (bm_small p)(off := True), bm_small_last_pos := (if off + 1 > bm_small_nbits p then 0 else off + 1),
                  bm_small_capacity := bm_small_capacity p + 1\<rparr>,
                off * SMALL_LENGTH)
        })"

section \<open>State\<close>

record mapping_entry =
  me_key :: bytes
  me_mem_offset :: nat
  me_length :: nat
  me_next_slot :: nat

text \<open>The value -1 of a 64-bit offset and of a 32-bit slot.\<close>

definition NO_OFFSET :: nat where "NO_OFFSET = 2 ^ 64 - 1"
definition NO_SLOT :: nat where "NO_SLOT = 2 ^ 32 - 1"

text \<open>An iterator; its buffer is 32768 bytes at the given address.\<close>

record kv_iter_context =
  it_prefix :: u32
  it_bitmask :: u32
  it_buf :: nat
  it_byteswritten :: nat
  it_bufoffset :: nat
  it_end :: bool
  it_current_pos :: nat

record kv_ftl =
  kv_mapping_table :: "mapping_entry list"
  kv_hash_slots :: nat
  kv_allocator :: allocator_type
  kv_append :: append_pool
  kv_bitmap :: bitmap_pool
  kv_iter_handle :: "kv_iter_context option list"

record kv_command =
  kc_opcode :: nat
  kc_prp1 :: nat
  kc_prp2 :: nat
  kc_value_len :: nat
  kc_key_len :: nat
  kc_option :: nat
  kc_rsvd4 :: nat
  kc_key :: bytes

definition nvme_cmd_kv_store :: nat where "nvme_cmd_kv_store = 0x81"
definition nvme_cmd_kv_append :: nat where "nvme_cmd_kv_append = 0x83"
definition nvme_cmd_kv_batch :: nat where "nvme_cmd_kv_batch = 0x85"
definition nvme_cmd_kv_retrieve :: nat where "nvme_cmd_kv_retrieve = 0x90"
definition nvme_cmd_kv_delete :: nat where "nvme_cmd_kv_delete = 0xA1"
definition nvme_cmd_kv_iter_req :: nat where "nvme_cmd_kv_iter_req = 0xB1"
definition nvme_cmd_kv_iter_read :: nat where "nvme_cmd_kv_iter_read = 0xB2"
definition nvme_cmd_kv_exist :: nat where "nvme_cmd_kv_exist = 0xB3"

lemmas kv_opcodes = nvme_cmd_kv_store_def nvme_cmd_kv_append_def nvme_cmd_kv_batch_def nvme_cmd_kv_retrieve_def nvme_cmd_kv_delete_def
  nvme_cmd_kv_iter_req_def nvme_cmd_kv_iter_read_def nvme_cmd_kv_exist_def

definition KV_ERR_KEY_NOT_EXIST :: nat where "KV_ERR_KEY_NOT_EXIST = 0x310"

text \<open>The lengths are at the same place in the layouts of all commands.\<close>

definition cmd_key_length :: "kv_command \<Rightarrow> nat" where
  "cmd_key_length c = kc_key_len c + 1"

definition cmd_value_length :: "kv_command \<Rightarrow> nat" where
  "cmd_value_length c = (kc_value_len c * 4) mod 2 ^ 32"

section \<open>The hash table\<close>

definition hash_function :: "bytes \<Rightarrow> u32" where
  "hash_function = foldl (\<lambda>h p. (h * 16777619) XOR ucast p) 2166136261"

text \<open>Reading more bytes than the array that holds the key is an access outside it.\<close>

definition get_hash_slot :: "kv_ftl \<Rightarrow> bytes \<Rightarrow> nat \<Rightarrow> nat option" where
  "get_hash_slot kv key kl = do {
     nvmev_assert (kl \<le> length key \<and> kv_hash_slots kv \<noteq> 0);
     Some (unat (hash_function (take kl key)) mod kv_hash_slots kv)
   }"

definition chain_mapping :: "mapping_entry list \<Rightarrow> nat \<Rightarrow> nat \<Rightarrow> mapping_entry list option" where
  "chain_mapping t prev slot = do { e \<leftarrow> array_read t prev; array_write t prev (e\<lparr>me_next_slot := slot\<rparr>) }"

partial_function (option) find_next_slot :: "kv_ftl \<Rightarrow> nat \<Rightarrow> nat option" where
  "find_next_slot kv slot = do {
     e \<leftarrow> array_read (kv_mapping_table kv) slot;
     (if me_mem_offset e = NO_OFFSET then Some slot
      else find_next_slot kv (if slot + 1 \<ge> kv_hash_slots kv then 0 else slot + 1))
   }"

text \<open>The loop that the lookups, the update and the deletion share: from the slot of the hash along the links, until a
  free slot, the end of the chain, or an entry that agrees with the key in as many bytes as the command's key has.\<close>

partial_function (option) find_slot :: "mapping_entry list \<Rightarrow> bytes \<Rightarrow> nat \<Rightarrow> nat \<Rightarrow> nat option option" where
  "find_slot t key kl slot = do {
     e \<leftarrow> array_read t slot;
     (if me_mem_offset e = NO_OFFSET then Some None
      else do {
        nvmev_assert (kl \<le> length (me_key e));
        (if take kl key = take kl (me_key e) then Some (Some slot)
         else if me_next_slot e = NO_SLOT then Some None
         else find_slot t key kl (me_next_slot e))
      })
   }"

definition erased_entry :: mapping_entry where
  "erased_entry = \<lparr>me_key = replicate 18 (-1), me_mem_offset = NO_OFFSET, me_length = 2 ^ 64 - 1, me_next_slot = NO_SLOT\<rparr>"

definition get_mapping_entry_by_key :: "kv_ftl \<Rightarrow> bytes \<Rightarrow> nat \<Rightarrow> mapping_entry option" where
  "get_mapping_entry_by_key kv key kl = do {
     slot \<leftarrow> get_hash_slot kv key kl;
     found \<leftarrow> find_slot (kv_mapping_table kv) key kl slot;
     (case found of None \<Rightarrow> Some erased_entry
      | Some s \<Rightarrow> do {
          e \<leftarrow> array_read (kv_mapping_table kv) s;
          Some (e\<lparr>me_key := take kl (me_key e) @ drop kl (me_key erased_entry)\<rparr>)
        })
   }"

definition get_mapping_entry :: "kv_ftl \<Rightarrow> kv_command \<Rightarrow> mapping_entry option" where
  "get_mapping_entry kv c = get_mapping_entry_by_key kv (kc_key c) (cmd_key_length c)"

definition new_mapping_entry_by_key :: "nat \<Rightarrow> bytes \<Rightarrow> nat \<Rightarrow> nat \<Rightarrow> nat \<Rightarrow> kv_ftl \<Rightarrow> kv_ftl option" where
  "new_mapping_entry_by_key storage_size key kl val_len val_offset kv = do {
     nvmev_assert (val_offset < storage_size);
     home \<leftarrow> get_hash_slot kv key kl;
     h \<leftarrow> array_read (kv_mapping_table kv) home;
     (slot, prev) \<leftarrow> (if me_mem_offset h \<noteq> NO_OFFSET then do { s \<leftarrow> find_next_slot kv home; Some (s, Some home) }
                      else Some (home, None));
     e \<leftarrow> array_read (kv_mapping_table kv) slot;
     nvmev_assert (kl \<le> length (me_key e));
     let t1 = (kv_mapping_table kv)[slot := e\<lparr>me_key := take kl key @ drop kl (me_key e), me_mem_offset := val_offset, me_length := val_len\<rparr>];
     t2 \<leftarrow> (case prev of None \<Rightarrow> Some t1 | Some p \<Rightarrow> chain_mapping t1 p slot);
     Some (kv\<lparr>kv_mapping_table := t2\<rparr>)
   }"

definition new_mapping_entry :: "nat \<Rightarrow> kv_command \<Rightarrow> nat \<Rightarrow> kv_ftl \<Rightarrow> kv_ftl option" where
  "new_mapping_entry storage_size c val_offset kv =
    new_mapping_entry_by_key storage_size (kc_key c) (cmd_key_length c) (cmd_value_length c) val_offset kv"

text \<open>The flag is 1 when there was no entry to update.\<close>

definition update_mapping_entry :: "kv_command \<Rightarrow> kv_ftl \<Rightarrow> (kv_ftl \<times> nat) option" where
  "update_mapping_entry c kv = do {
     slot \<leftarrow> get_hash_slot kv (kc_key c) (cmd_key_length c);
     found \<leftarrow> find_slot (kv_mapping_table kv) (kc_key c) (cmd_key_length c) slot;
     (case found of None \<Rightarrow> Some (kv, 1)
      | Some s \<Rightarrow> do {
          e \<leftarrow> array_read (kv_mapping_table kv) s;
          Some (kv\<lparr>kv_mapping_table := (kv_mapping_table kv)[s := e\<lparr>me_length := cmd_value_length c\<rparr>]\<rparr>, 0)
        })
   }"

definition delete_mapping_entry :: "kv_command \<Rightarrow> kv_ftl \<Rightarrow> kv_ftl option" where
  "delete_mapping_entry c kv = do {
     slot \<leftarrow> get_hash_slot kv (kc_key c) (cmd_key_length c);
     found \<leftarrow> find_slot (kv_mapping_table kv) (kc_key c) (cmd_key_length c) slot;
     (case found of None \<Rightarrow> Some kv
      | Some s \<Rightarrow> Some (kv\<lparr>kv_mapping_table := (kv_mapping_table kv)[s := erased_entry]\<rparr>))
   }"

section \<open>Space for values\<close>

definition kv_allocate :: "((nat \<Rightarrow> bool) \<Rightarrow> nat \<Rightarrow> nat \<Rightarrow> nat) \<Rightarrow> nat \<Rightarrow> kv_ftl \<Rightarrow> (kv_ftl \<times> nat) option" where
  "kv_allocate find_zero len kv =
    (case kv_allocator kv of
       ALLOCATOR_TYPE_APPEND_ONLY \<Rightarrow> (let (p, off) = append_only_allocate len (kv_append kv) in Some (kv\<lparr>kv_append := p\<rparr>, off))
     | ALLOCATOR_TYPE_BITMAP \<Rightarrow> do { (p, off) \<leftarrow> bitmap_allocate find_zero len (kv_bitmap kv); Some (kv\<lparr>kv_bitmap := p\<rparr>, off) })"

definition allocate_mem_offset_by_length :: "((nat \<Rightarrow> bool) \<Rightarrow> nat \<Rightarrow> nat \<Rightarrow> nat) \<Rightarrow> nat \<Rightarrow> kv_ftl \<Rightarrow> (kv_ftl \<times> nat) option" where
  "allocate_mem_offset_by_length find_zero len kv = do {
     (kv', off) \<leftarrow> kv_allocate find_zero len kv;
     Some (kv', if off = NO_OFFSET then 0 else off)
   }"

definition allocate_mem_offset :: "((nat \<Rightarrow> bool) \<Rightarrow> nat \<Rightarrow> nat \<Rightarrow> nat) \<Rightarrow> kv_command \<Rightarrow> kv_ftl \<Rightarrow> (kv_ftl \<times> nat) option" where
  "allocate_mem_offset find_zero c kv =
    (if kc_opcode c = nvme_cmd_kv_store then allocate_mem_offset_by_length find_zero (cmd_value_length c) kv else Some (kv, 0))"

end
