(* ===== verification/Kv_Ftl.thy ===== *)
theory Kv_Ftl
  imports Kv_Table
begin

text \<open>
  The store of keys and values, second part (src/kv\_ftl.c): the commands.  Storing, retrieving, deleting and looking up
  a key; batches of stores; iterators over the keys with a given prefix; the time a command takes; initialisation.
  Values live in the storage, which is part of physical memory and starts at \<open>storage\<close>.
\<close>

section \<open>Single commands\<close>

definition kv_act :: "nat \<Rightarrow> nat \<Rightarrow> nat option \<Rightarrow> nat \<Rightarrow> nat \<Rightarrow> nat \<Rightarrow> memory \<Rightarrow> memory" where
  "kv_act opcode storage prev paddr offset n m =
    (if opcode = nvme_cmd_kv_store then memcpy m (storage + offset) paddr n
     else if opcode = nvme_cmd_kv_retrieve then memcpy m paddr (storage + offset) n
     else m)"

text \<open>The environment of a command: where the storage starts, its size, and the kernel's bitmap search.\<close>

record kv_env =
  ke_storage :: nat
  ke_storage_size :: nat
  ke_find_zero :: "(nat \<Rightarrow> bool) \<Rightarrow> nat \<Rightarrow> nat \<Rightarrow> nat"

text \<open>What to do with the table after the transfer: nothing, a new entry, or a new length.\<close>

datatype table_change = No_change | New_entry | New_length

text \<open>The place of the value of a store command: that of the entry, or a new one.\<close>

definition store_place :: "kv_env \<Rightarrow> kv_command \<Rightarrow> mapping_entry \<Rightarrow> kv_ftl \<Rightarrow> (kv_ftl \<times> nat \<times> table_change) option" where
  "store_place env c e kv =
    (if me_mem_offset e = NO_OFFSET then do {
       (kv', off) \<leftarrow> allocate_mem_offset (ke_find_zero env) c kv;
       Some (kv', off, New_entry)
     }
     else Some (kv, me_mem_offset e,
       if cmd_value_length c \<noteq> me_length e \<and> cmd_value_length c \<le> SMALL_LENGTH \<and> me_length e \<le> SMALL_LENGTH
       then New_length else No_change))"

text \<open>The result is the state, the memory, the value returned, and the status word of the completion, which is left alone
  unless a key is missing.\<close>

definition do_perform_kv_io ::
  "kv_env \<Rightarrow> kv_command \<Rightarrow> nat \<Rightarrow> kv_ftl \<Rightarrow> memory \<Rightarrow> (kv_ftl \<times> memory \<times> nat \<times> nat) option" where
  "do_perform_kv_io env c status kv m = do {
     e \<leftarrow> get_mapping_entry kv c;
     let missing = (me_mem_offset e = NO_OFFSET);
     let walk = (\<lambda>offset len. prp_walk id (kv_act (kc_opcode c) (ke_storage env)) (kc_prp1 c) (kc_prp2 c) 0 0 None None offset len m);
     (if kc_opcode c = nvme_cmd_kv_store then do {
        (kv1, offset, change) \<leftarrow> store_place env c e kv;
        m' \<leftarrow> walk offset (cmd_value_length c);
        kv2 \<leftarrow> (case change of No_change \<Rightarrow> Some kv1
          | New_entry \<Rightarrow> new_mapping_entry (ke_storage_size env) c offset kv1
          | New_length \<Rightarrow> do { (k, _) \<leftarrow> update_mapping_entry c kv1; Some k });
        Some (kv2, m', 0, status)
      }
      else if kc_opcode c = nvme_cmd_kv_retrieve then
        (if missing then Some (kv, m, 0, KV_ERR_KEY_NOT_EXIST)
         else do {
           let len = min (me_length e) (cmd_value_length c);
           m' \<leftarrow> walk (me_mem_offset e) len;
           Some (kv, m', len mod 2 ^ 32, status)
         })
      else if kc_opcode c = nvme_cmd_kv_exist then Some (kv, m, 0, if missing then KV_ERR_KEY_NOT_EXIST else status)
      else if kc_opcode c = nvme_cmd_kv_delete then
        (if missing then Some (kv, m, 0, KV_ERR_KEY_NOT_EXIST)
         else do { kv' \<leftarrow> delete_mapping_entry c kv; Some (kv', m, 0, status) })
      else Some (kv, m, 0, status))
   }"

section \<open>Batches\<close>

definition ALIGN_LEN :: nat where "ALIGN_LEN = 64"
definition BATCH_HEAD :: nat where "BATCH_HEAD = 8 * 16 + 384"

text \<open>Reading from a buffer of the given length.\<close>

definition buffer_bytes :: "memory \<Rightarrow> nat \<Rightarrow> nat \<Rightarrow> nat \<Rightarrow> nat \<Rightarrow> bytes option" where
  "buffer_bytes m buf len off n = (if off + n \<le> len then Some (map (\<lambda>i. m (buf + off + i)) [0..<n]) else None)"

text \<open>\<open>key\<close> and \<open>val\<close> are the arrays of 20 and 4097 bytes the caller prepared.\<close>

definition do_perform_kv_batched_io ::
  "kv_env \<Rightarrow> nat \<Rightarrow> bytes \<Rightarrow> nat \<Rightarrow> bytes \<Rightarrow> nat \<Rightarrow> kv_ftl \<times> memory \<Rightarrow> (kv_ftl \<times> memory) option" where
  "do_perform_kv_batched_io env opcode key key_len val val_len = (\<lambda>(kv, m). do {
     e \<leftarrow> get_mapping_entry_by_key kv key key_len;
     (if opcode = nvme_cmd_kv_store then do {
        (kv1, offset, new) \<leftarrow>
          (if me_mem_offset e = NO_OFFSET then do {
             (k, off) \<leftarrow> allocate_mem_offset_by_length (ke_find_zero env) val_len kv;
             Some (k, off, True)
           } else Some (kv, me_mem_offset e, False));
        nvmev_assert (val_len \<le> length val);
        let m' = write_bytes m (ke_storage env + offset) (take val_len val);
        (if new then do {
           kv2 \<leftarrow> new_mapping_entry_by_key (ke_storage_size env) key key_len val_len offset kv1;
           Some (kv2, m')
         } else Some (kv1, m'))
      } else Some (kv, m))
   })"

definition align_up :: "nat \<Rightarrow> nat" where
  "align_up n = ((n - 1) div ALIGN_LEN + 1) * ALIGN_LEN"

fun kv_batch_loop :: "kv_env \<Rightarrow> nat \<Rightarrow> nat \<Rightarrow> nat \<Rightarrow> nat \<Rightarrow> nat \<Rightarrow> kv_ftl \<times> memory \<Rightarrow> (kv_ftl \<times> memory) option" where
  "kv_batch_loop env buf len i 0 payload_offset st = Some st"
| "kv_batch_loop env buf len i (Suc n) payload_offset st = do {
     op \<leftarrow> buffer_bytes (snd st) buf len (16 * i) 1;
     kl \<leftarrow> buffer_bytes (snd st) buf len (16 * i + 1) 1;
     vl \<leftarrow> buffer_bytes (snd st) buf len (16 * i + 4) 4;
     let key_len = le_number kl;
     let val_len = le_number vl;
     nvmev_assert (key_len \<le> 20 \<and> val_len \<le> 4097);
     key \<leftarrow> buffer_bytes (snd st) buf len (BATCH_HEAD + payload_offset) key_len;
     val \<leftarrow> buffer_bytes (snd st) buf len (BATCH_HEAD + payload_offset + align_up key_len) val_len;
     st' \<leftarrow> do_perform_kv_batched_io env (le_number op) (key @ replicate (20 - key_len) 0) key_len (val @ replicate (4097 - val_len) 0) val_len st;
     kv_batch_loop env buf len (i + 1) n (payload_offset + align_up key_len + align_up val_len + ALIGN_LEN) st'
   }"

text \<open>The payload is first copied to a new buffer, at \<open>buf\<close>.\<close>

definition do_perform_kv_batch :: "kv_env \<Rightarrow> nat \<Rightarrow> kv_command \<Rightarrow> kv_ftl \<Rightarrow> memory \<Rightarrow> (kv_ftl \<times> memory \<times> nat) option" where
  "do_perform_kv_batch env buf c kv m = do {
     m1 \<leftarrow> prp_walk id (prp_act 1 buf) (kc_prp1 c) (kc_prp2 c) 0 0 None None 0 (cmd_value_length c) m;
     (kv', m2) \<leftarrow> kv_batch_loop env buf (cmd_value_length c) 0 (kc_rsvd4 c) ALIGN_LEN (kv, m1);
     Some (kv', m2, 0)
   }"

section \<open>Iterators\<close>

text \<open>The bytes a request for an iterator calls handle, value and mask are those of the key length and of the key.\<close>

definition kc_iter_handle :: "kv_command \<Rightarrow> nat" where "kc_iter_handle c = kc_key_len c"
definition kc_iter_val :: "kv_command \<Rightarrow> u32" where "kc_iter_val c = of_nat (le_number (take 4 (kc_key c)))"
definition kc_iter_bitmask :: "kv_command \<Rightarrow> u32" where "kc_iter_bitmask c = of_nat (le_number (take 4 (drop 4 (kc_key c))))"

definition ITER_OPTION_OPEN :: nat where "ITER_OPTION_OPEN = 1"
definition ITER_OPTION_CLOSE :: nat where "ITER_OPTION_CLOSE = 2"

text \<open>Handle 0 is not used.  When none is free, 1 is returned, which is also the handle of the first iterator.\<close>

definition kv_iter_open :: "nat \<Rightarrow> kv_command \<Rightarrow> nat \<Rightarrow> kv_ftl \<Rightarrow> kv_ftl \<times> nat \<times> nat" where
  "kv_iter_open buf c status kv =
    (case List.find (\<lambda>i. kv_iter_handle kv ! i = None) [1..<17] of
       None \<Rightarrow> (kv, 1, status)
     | Some i \<Rightarrow>
         (kv\<lparr>kv_iter_handle := (kv_iter_handle kv)[i := Some \<lparr>it_prefix = kc_iter_val c, it_bitmask = kc_iter_bitmask c, it_buf = buf,
            it_byteswritten = 0, it_bufoffset = 0, it_end = False, it_current_pos = 0\<rparr>]\<rparr>, i, 0))"

definition kv_iter_close :: "kv_command \<Rightarrow> kv_ftl \<Rightarrow> (kv_ftl \<times> nat \<times> nat) option" where
  "kv_iter_close c kv = do {
     _ \<leftarrow> array_read (kv_iter_handle kv) (kc_iter_handle c);
     Some (kv\<lparr>kv_iter_handle := (kv_iter_handle kv)[kc_iter_handle c := None]\<rparr>, 0, 0)
   }"

definition iter_match :: "kv_iter_context \<Rightarrow> mapping_entry \<Rightarrow> bool" where
  "iter_match h e \<longleftrightarrow> me_mem_offset e \<noteq> NO_OFFSET \<and>
    (of_nat (le_number (take 4 (me_key e))) AND it_bitmask h) = (it_prefix h AND it_bitmask h)"

text \<open>The scan of the table from position \<open>pos\<close> on, \<open>n\<close> slots to go; a key takes 20 bytes of the buffer, of which only 1024
  are used.  The result says whether the end of the table was reached.\<close>

fun kv_iter_scan :: "mapping_entry list \<Rightarrow> kv_iter_context \<Rightarrow> nat \<Rightarrow> nat \<Rightarrow> bytes list \<Rightarrow> (nat \<times> bytes list \<times> bool) option" where
  "kv_iter_scan t h 0 pos keys = Some (pos, keys, False)"
| "kv_iter_scan t h (Suc n) pos keys = do {
     e \<leftarrow> array_read t pos;
     (if iter_match h e \<and> 4 + 20 * length keys + 20 > 1024 then Some (pos, keys, False)
      else let keys' = (if iter_match h e then keys @ [take 16 (me_key e)] else keys)
           in if n = 0 then Some (pos + 1, keys', True) else kv_iter_scan t h n (pos + 1) keys')
   }"

abbreviation le32 :: "nat \<Rightarrow> bytes" where
  "le32 \<equiv> le_bytes 4"

definition kv_iter_read :: "kv_command \<Rightarrow> nat \<Rightarrow> kv_ftl \<Rightarrow> memory \<Rightarrow> (kv_ftl \<times> memory \<times> nat \<times> nat) option" where
  "kv_iter_read c status kv m = do {
     handle \<leftarrow> array_read (kv_iter_handle kv) (kc_iter_handle c);
     (case handle of None \<Rightarrow> Some (kv, m, 0, status)
      | Some h \<Rightarrow> do {
          (pos, keys, fin) \<leftarrow> kv_iter_scan (kv_mapping_table kv) h (kv_hash_slots kv - it_current_pos h) (it_current_pos h) [];
          let m1 = write_bytes m (it_buf h) (le32 (length keys) @ concat (map (\<lambda>k. le32 16 @ k) keys));
          m2 \<leftarrow> prp_walk id (prp_act 0 (it_buf h)) (kc_prp1 c) (kc_prp2 c) 0 0 None None 0 (4 + 20 * length keys) m1;
          Some (kv\<lparr>kv_iter_handle := (kv_iter_handle kv)[kc_iter_handle c := Some (h\<lparr>it_current_pos := pos\<rparr>)]\<rparr>,
            m2, 4 + 20 * length keys, if fin then 0x393 else 0)
        })
   }"

definition do_perform_kv_iter_io :: "nat \<Rightarrow> kv_command \<Rightarrow> nat \<Rightarrow> kv_ftl \<Rightarrow> memory \<Rightarrow> (kv_ftl \<times> memory \<times> nat \<times> nat) option" where
  "do_perform_kv_iter_io buf c status kv m =
    (if kc_opcode c = nvme_cmd_kv_iter_req then
       (if kc_option c div ITER_OPTION_OPEN mod 2 = 1 then (case kv_iter_open buf c status kv of (kv', r, st) \<Rightarrow> Some (kv', m, r, st))
        else if kc_option c div ITER_OPTION_CLOSE mod 2 = 1 then do { (kv', r, st) \<leftarrow> kv_iter_close c kv; Some (kv', m, r, st) }
        else Some (kv, m, 0, status))
     else if kc_opcode c = nvme_cmd_kv_iter_read then kv_iter_read c status kv m
     else Some (kv, m, 0, status))"

section \<open>The namespace\<close>

text \<open>\<open>buf\<close> is the memory the kernel hands out when the command needs a buffer.\<close>

definition kv_perform_nvme_io_cmd :: "kv_env \<Rightarrow> nat \<Rightarrow> kv_command \<Rightarrow> nat \<Rightarrow> kv_ftl \<Rightarrow> memory \<Rightarrow> (kv_ftl \<times> memory \<times> nat \<times> nat) option" where
  "kv_perform_nvme_io_cmd env buf c status kv m =
    (if kc_opcode c = nvme_cmd_kv_batch then do { (kv', m', r) \<leftarrow> do_perform_kv_batch env buf c kv m; Some (kv', m', r, status) }
     else if kc_opcode c = nvme_cmd_kv_iter_req \<or> kc_opcode c = nvme_cmd_kv_iter_read then do_perform_kv_iter_io buf c status kv m
     else do_perform_kv_io env c status kv m)"

definition kv_identify_nvme_io_cmd :: "nat \<Rightarrow> bool" where
  "kv_identify_nvme_io_cmd opcode \<longleftrightarrow> opcode \<in> {nvme_cmd_kv_append, nvme_cmd_kv_store, nvme_cmd_kv_retrieve, nvme_cmd_kv_delete,
     nvme_cmd_kv_iter_req, nvme_cmd_kv_iter_read, nvme_cmd_kv_exist, nvme_cmd_kv_batch}"

definition kv_schedule_io_units :: "nat \<Rightarrow> u64 \<Rightarrow> nat \<Rightarrow> u64 \<Rightarrow> simple_dev \<Rightarrow> (simple_dev \<times> u64) option" where
  "kv_schedule_io_units opcode lba len nsecs_start dev = do {
     let cfg = sd_config dev;
     nvmev_assert (9 \<le> sc_io_unit_shift cfg \<and> sc_io_unit_shift cfg < 32);
     let io_unit_size = 2 ^ sc_io_unit_shift cfg;
     nvmev_assert (sc_nr_io_units cfg \<noteq> 0);
     let io_unit = (unat lba div 2 ^ (sc_io_unit_shift cfg - 9)) mod sc_nr_io_units cfg;
     let nr_io_units = int (min (sc_nr_io_units cfg) ((len + io_unit_size - 1) mod 2 ^ 32 div io_unit_size));
     let (delay, latency, trailing) =
       (if opcode = nvme_cmd_write \<or> opcode = nvme_cmd_kv_store \<or> opcode = nvme_cmd_kv_batch
        then (sc_write_delay cfg, sc_write_time cfg, sc_write_trailing cfg)
        else if opcode = nvme_cmd_read \<or> opcode = nvme_cmd_kv_retrieve then (sc_read_delay cfg, sc_read_time cfg, sc_read_trailing cfg)
        else (0, 0, 0));
     busy \<leftarrow> array_read (sd_io_unit_stat dev) io_unit;
     (stat, latest) \<leftarrow> schedule_loop cfg latency trailing (sd_io_unit_stat dev) io_unit nr_io_units len (max nsecs_start busy + delay);
     Some (dev\<lparr>sd_io_unit_stat := stat\<rparr>, latest)
   }"

text \<open>The command is given in both of its layouts: as a read or write, and as a command on keys.\<close>

definition kv_proc_nvme_io_cmd :: "u64 \<Rightarrow> nvme_command \<Rightarrow> kv_command \<Rightarrow> nvmev_result \<Rightarrow> simple_dev \<Rightarrow> (simple_dev \<times> nvmev_result) option" where
  "kv_proc_nvme_io_cmd wallclock c kc ret dev =
    (let opc = c_opcode c
     in if opc = nvme_cmd_write \<or> opc = nvme_cmd_read then do {
          (dev', t) \<leftarrow> kv_schedule_io_units opc (c_slba c) (cmd_io_size c) wallclock dev;
          Some (dev', ret\<lparr>rs_nsecs_target := t\<rparr>)
        }
        else if opc = nvme_cmd_flush then do { t \<leftarrow> schedule_flush dev; Some (dev, ret\<lparr>rs_nsecs_target := t\<rparr>) }
        else if opc = nvme_cmd_kv_store \<or> opc = nvme_cmd_kv_retrieve \<or> opc = nvme_cmd_kv_batch then do {
          (dev', t) \<leftarrow> kv_schedule_io_units opc 0 (cmd_value_length kc) wallclock dev;
          Some (dev', ret\<lparr>rs_nsecs_target := t\<rparr>)
        }
        else Some (dev, ret))"

definition KV_MAPPING_ENTRY_SIZE :: nat where "KV_MAPPING_ENTRY_SIZE = 48"

text \<open>The table is cleared and then marked free.  Of the 17 pointers to iterators the last is left as the allocation of
  the structure found it (\<open>junk\<close>); \<open>pool\<close> is the static state of the bitmap allocator.\<close>

definition kv_init_namespace :: "kv_configs \<Rightarrow> nat \<Rightarrow> kv_iter_context option \<Rightarrow> bitmap_pool \<Rightarrow> kv_ftl option" where
  "kv_init_namespace cfg storage_size junk pool = do {
     let slots = KV_MAPPING_TABLE_SIZE cfg div KV_MAPPING_ENTRY_SIZE;
     bm \<leftarrow> (if ALLOCATOR_TYPE cfg = ALLOCATOR_TYPE_BITMAP then bitmap_allocator_init storage_size pool else Some pool);
     Some \<lparr>kv_mapping_table = replicate slots \<lparr>me_key = replicate 18 0, me_mem_offset = NO_OFFSET, me_length = 2 ^ 64 - 1, me_next_slot = NO_SLOT\<rparr>,
       kv_hash_slots = slots, kv_allocator = ALLOCATOR_TYPE cfg, kv_append = append_only_allocator_init storage_size, kv_bitmap = bm,
       kv_iter_handle = replicate 16 None @ [junk]\<rparr>
   }"

end
