(* ===== verification/Kv_Inv.thy ===== *)
theory Kv_Inv
  imports Kv_Ftl
begin

text \<open>
  The invariant of the hash table: links stay inside the table and never form a cycle, and free slots have no link.  All
  commands keep it, so that every lookup ends.
\<close>

section \<open>Chains\<close>

definition chain_ok :: "mapping_entry list \<Rightarrow> (nat \<Rightarrow> nat) \<Rightarrow> bool" where
  "chain_ok t rank \<longleftrightarrow> length t \<le> NO_SLOT \<and> (\<forall>i<length t. length (me_key (t ! i)) = 18 \<and>
     (me_mem_offset (t ! i) = NO_OFFSET \<longrightarrow> me_next_slot (t ! i) = NO_SLOT) \<and>
     (me_next_slot (t ! i) \<noteq> NO_SLOT \<longrightarrow> me_next_slot (t ! i) < length t \<and> rank (me_next_slot (t ! i)) < rank i))"

definition kv_ok :: "kv_ftl \<Rightarrow> bool" where
  "kv_ok kv \<longleftrightarrow> length (kv_mapping_table kv) = kv_hash_slots kv \<and> 0 < kv_hash_slots kv \<and> (\<exists>rank. chain_ok (kv_mapping_table kv) rank)"

lemma chain_okD:
  assumes "chain_ok t rank" "i < length t"
  shows "length (me_key (t ! i)) = 18" "me_mem_offset (t ! i) = NO_OFFSET \<Longrightarrow> me_next_slot (t ! i) = NO_SLOT"
    "me_next_slot (t ! i) \<noteq> NO_SLOT \<Longrightarrow> me_next_slot (t ! i) < length t \<and> rank (me_next_slot (t ! i)) < rank i"
  using assms by (auto simp: chain_ok_def)

text \<open>What a lookup finds.\<close>

definition holds_key :: "mapping_entry \<Rightarrow> bytes \<Rightarrow> nat \<Rightarrow> bool" where
  "holds_key e key kl \<longleftrightarrow> me_mem_offset e \<noteq> NO_OFFSET \<and> take kl key = take kl (me_key e)"

lemma find_slot_total:
  assumes ok: "chain_ok t rank" and kl: "kl \<le> 18"
  shows "i < length t \<Longrightarrow> \<exists>r. find_slot t key kl i = Some r \<and> (\<forall>s. r = Some s \<longrightarrow> s < length t \<and> holds_key (t ! s) key kl)"
proof (induction "rank i" arbitrary: i rule: less_induct)
  case less
  note e = chain_okD[OF ok less.prems]
  show ?case
  proof (cases "me_mem_offset (t ! i) = NO_OFFSET \<or> take kl key = take kl (me_key (t ! i)) \<or> me_next_slot (t ! i) = NO_SLOT")
    case True
    then show ?thesis using less.prems e(1) kl by (subst find_slot.simps) (auto simp: holds_key_def)
  next
    case False
    then have n: "me_next_slot (t ! i) < length t" "rank (me_next_slot (t ! i)) < rank i" using e(3) by auto
    have "find_slot t key kl i = find_slot t key kl (me_next_slot (t ! i))"
      using False less.prems e(1) kl by (subst find_slot.simps) simp
    then show ?thesis using less.hyps[OF n(2,1)] by simp
  qed
qed

text \<open>Slots whose lengths alone differ are the same to a lookup.\<close>

lemma find_slot_length:
  assumes ok: "chain_ok t rank" and kl: "kl \<le> 18" and s: "s < length t"
  shows "i < length t \<Longrightarrow> find_slot (t[s := (t ! s)\<lparr>me_length := n\<rparr>]) key kl i = find_slot t key kl i"
proof (induction "rank i" arbitrary: i rule: less_induct)
  case less
  let ?t = "t[s := (t ! s)\<lparr>me_length := n\<rparr>]"
  note e = chain_okD[OF ok less.prems]
  have f: "me_key (?t ! i) = me_key (t ! i)" "me_mem_offset (?t ! i) = me_mem_offset (t ! i)" "me_next_slot (?t ! i) = me_next_slot (t ! i)"
    using less.prems s by (auto simp: nth_list_update)
  have "find_slot ?t key kl (me_next_slot (t ! i)) = find_slot t key kl (me_next_slot (t ! i))" if "me_next_slot (t ! i) \<noteq> NO_SLOT"
    using less.hyps e(3)[OF that] by blast
  then show ?case using less.prems e(1) kl f by (subst (1 2) find_slot.simps) simp
qed

text \<open>The search for a free slot: what it returns is free, and it returns when there is one.\<close>

lemma find_next_slot_free:
  assumes "find_next_slot kv i = Some s"
  shows "s < length (kv_mapping_table kv) \<and> me_mem_offset (kv_mapping_table kv ! s) = NO_OFFSET"
  using assms
proof (induction rule: find_next_slot.raw_induct[rotated 1, consumes 1])
  case (1 f kv i s)
  from 1(2) obtain e where e: "array_read (kv_mapping_table kv) i = Some e"
    "(if me_mem_offset e = NO_OFFSET then Some i else f kv (if i + 1 \<ge> kv_hash_slots kv then 0 else i + 1)) = Some s"
    by (elim bind_SomeE)
  show ?case
  proof (cases "me_mem_offset e = NO_OFFSET")
    case True
    then show ?thesis using e array_read_SomeD[OF e(1)] by simp
  next
    case False
    then show ?thesis using e(2) 1(1) by simp
  qed
qed

lemma find_next_slot_total:
  assumes len: "length (kv_mapping_table kv) = kv_hash_slots kv"
    and free: "me_mem_offset (kv_mapping_table kv ! j) = NO_OFFSET" "j < kv_hash_slots kv"
  shows "i < kv_hash_slots kv \<Longrightarrow> (i + d) mod kv_hash_slots kv = j \<Longrightarrow> \<exists>s. find_next_slot kv i = Some s"
proof (induction d arbitrary: i)
  case 0
  then show ?case using len free by (subst find_next_slot.simps) simp
next
  case (Suc d)
  let ?i = "if i + 1 \<ge> kv_hash_slots kv then 0 else i + 1"
  have i: "?i = (i + 1) mod kv_hash_slots kv" using Suc.prems(1) by (cases "i + 1 = kv_hash_slots kv") auto
  have "(?i + d) mod kv_hash_slots kv = j" using Suc.prems(2) unfolding i by (simp add: mod_add_left_eq)
  moreover have "?i < kv_hash_slots kv" using Suc.prems(1) by simp
  ultimately obtain s where "find_next_slot kv ?i = Some s" using Suc.IH[of ?i] by blast
  then show ?case using Suc.prems(1) len by (subst find_next_slot.simps) simp
qed

lemma find_next_slot_exists:
  assumes "length (kv_mapping_table kv) = kv_hash_slots kv" "j < kv_hash_slots kv" "me_mem_offset (kv_mapping_table kv ! j) = NO_OFFSET"
    "i < kv_hash_slots kv"
  obtains s where "find_next_slot kv i = Some s"
proof -
  have "(i + (j + (kv_hash_slots kv - i))) mod kv_hash_slots kv = j" using assms(2,4) by simp
  then show ?thesis using find_next_slot_total[OF assms(1,3,2,4)] that by blast
qed

section \<open>Changes of the table\<close>

lemma get_hash_slot_ok:
  assumes "kv_ok kv" "kl \<le> length key"
  shows "\<exists>h. get_hash_slot kv key kl = Some h \<and> h < length (kv_mapping_table kv)"
  using assms by (simp add: kv_ok_def get_hash_slot_def)

lemma get_hash_slot_cong: "kv_hash_slots kv' = kv_hash_slots kv \<Longrightarrow> get_hash_slot kv' key kl = get_hash_slot kv key kl"
  by (simp add: get_hash_slot_def)

text \<open>Filling a free slot, and linking it from an occupied one.\<close>

lemma chain_ok_fill:
  assumes ok: "chain_ok t rank" and s: "s < length t" "me_mem_offset (t ! s) = NO_OFFSET" and k: "length k = 18" and v: "v \<noteq> NO_OFFSET"
  shows "chain_ok (t[s := (t ! s)\<lparr>me_key := k, me_mem_offset := v, me_length := n\<rparr>]) rank"
  using ok s k v by (auto simp: chain_ok_def nth_list_update)

lemma chain_ok_link:
  assumes ok: "chain_ok t rank" and s: "s < length t" "me_next_slot (t ! s) = NO_SLOT"
    and p: "p < length t" "p \<noteq> s" "me_mem_offset (t ! p) \<noteq> NO_OFFSET"
  shows "chain_ok (t[p := (t ! p)\<lparr>me_next_slot := s\<rparr>]) (\<lambda>x. if x = s then 0 else Suc (rank x))"
proof -
  have "s < NO_SLOT" using s(1) ok by (simp add: chain_ok_def)
  then show ?thesis using ok s p unfolding chain_ok_def by (auto simp: nth_list_update)
qed

lemma new_mapping_cases:
  assumes "new_mapping_entry_by_key cap key kl vl off kv = Some kv'" "kv_ok kv"
  obtains home s where "get_hash_slot kv key kl = Some home" "home < length (kv_mapping_table kv)" "s < length (kv_mapping_table kv)"
    "me_mem_offset (kv_mapping_table kv ! s) = NO_OFFSET" "off < cap" "kl \<le> 18"
    "me_mem_offset (kv_mapping_table kv ! home) = NO_OFFSET \<and> s = home \<or> me_mem_offset (kv_mapping_table kv ! home) \<noteq> NO_OFFSET \<and> s \<noteq> home"
    "kv' = kv\<lparr>kv_mapping_table := (let t1 = (kv_mapping_table kv)[s := (kv_mapping_table kv ! s)\<lparr>
        me_key := take kl key @ drop kl (me_key (kv_mapping_table kv ! s)), me_mem_offset := off, me_length := vl\<rparr>]
      in if s = home then t1 else t1[home := (t1 ! home)\<lparr>me_next_slot := s\<rparr>])\<rparr>"
proof -
  let ?t = "kv_mapping_table kv"
  obtain rank where ok: "chain_ok ?t rank" using assms(2) by (auto simp: kv_ok_def)
  from assms(1) obtain home h where a: "off < cap" "get_hash_slot kv key kl = Some home" "array_read ?t home = Some h"
    by (auto simp: new_mapping_entry_by_key_def elim!: bind_SomeE)
  note h = array_read_SomeD[OF a(3)]
  show ?thesis
  proof (cases "me_mem_offset h = NO_OFFSET")
    case True
    have kl: "kl \<le> length (me_key h)" and kv': "kv' = kv\<lparr>kv_mapping_table := ?t[home := h\<lparr>me_key := take kl key @ drop kl (me_key h), me_mem_offset := off, me_length := vl\<rparr>]\<rparr>"
      using assms(1) a True by (auto simp: new_mapping_entry_by_key_def Let_def elim!: bind_SomeE)
    show ?thesis by (rule that[of home home]) (use a h True kl kv' chain_okD(1)[OF ok] in auto)
  next
    case False
    then obtain s where s: "find_next_slot kv home = Some s" using assms(1) a by (auto simp: new_mapping_entry_by_key_def Let_def elim!: bind_SomeE)
    note f = find_next_slot_free[OF s]
    have ne: "s \<noteq> home" using f h False by auto
    have kl: "kl \<le> length (me_key (?t ! s))" and kv': "kv' = kv\<lparr>kv_mapping_table := (?t[s := (?t ! s)\<lparr>me_key := take kl key @ drop kl (me_key (?t ! s)), me_mem_offset := off, me_length := vl\<rparr>])
        [home := h\<lparr>me_next_slot := s\<rparr>]\<rparr>"
      using assms(1) a False s f h ne by (auto simp: new_mapping_entry_by_key_def Let_def chain_mapping_def elim!: bind_SomeE)
    show ?thesis by (rule that[of home s]) (use a h f False ne kl kv' chain_okD(1)[OF ok] in auto)
  qed
qed

lemma new_mapping_ok:
  assumes new: "new_mapping_entry_by_key cap key kl vl off kv = Some kv'" and ok: "kv_ok kv" and kl: "kl \<le> length key" and sz: "cap \<le> NO_OFFSET"
  shows "kv_ok kv'"
proof -
  let ?t = "kv_mapping_table kv"
  obtain rank where chain: "chain_ok ?t rank" using ok by (auto simp: kv_ok_def)
  from new ok obtain home s where a: "home < length ?t" "s < length ?t" "me_mem_offset (?t ! s) = NO_OFFSET" "off < cap" "kl \<le> 18"
    "me_mem_offset (?t ! home) = NO_OFFSET \<and> s = home \<or> me_mem_offset (?t ! home) \<noteq> NO_OFFSET \<and> s \<noteq> home"
    "kv' = kv\<lparr>kv_mapping_table := (let t1 = ?t[s := (?t ! s)\<lparr>me_key := take kl key @ drop kl (me_key (?t ! s)), me_mem_offset := off, me_length := vl\<rparr>]
      in if s = home then t1 else t1[home := (t1 ! home)\<lparr>me_next_slot := s\<rparr>])\<rparr>"
    by (rule new_mapping_cases) blast
  define t1 where "t1 = ?t[s := (?t ! s)\<lparr>me_key := take kl key @ drop kl (me_key (?t ! s)), me_mem_offset := off, me_length := vl\<rparr>]"
  have c1: "chain_ok t1 rank"
    unfolding t1_def by (rule chain_ok_fill[OF chain a(2,3)]) (use a(4,5) sz kl chain_okD(1)[OF chain a(2)] in auto)
  have nx: "me_next_slot (t1 ! s) = NO_SLOT" "length t1 = length ?t" using a(2) chain_okD(2)[OF chain a(2,3)] by (simp_all add: t1_def)
  show ?thesis
  proof (cases "s = home")
    case True
    then show ?thesis using a(7) c1 ok nx(2) unfolding kv_ok_def t1_def by (auto simp: Let_def)
  next
    case False
    have "me_mem_offset (t1 ! home) \<noteq> NO_OFFSET" using a(6) False by (auto simp: t1_def)
    then have "chain_ok (t1[home := (t1 ! home)\<lparr>me_next_slot := s\<rparr>]) (\<lambda>x. if x = s then 0 else Suc (rank x))"
      by (intro chain_ok_link[OF c1]) (use a(1,2) nx False in auto)
    then show ?thesis using a(7) ok nx(2) False unfolding kv_ok_def t1_def[symmetric] by (auto simp: Let_def)
  qed
qed

lemma set_length_ok:
  assumes "kv_ok kv" "s < length (kv_mapping_table kv)"
  shows "kv_ok (kv\<lparr>kv_mapping_table := (kv_mapping_table kv)[s := (kv_mapping_table kv ! s)\<lparr>me_length := n\<rparr>]\<rparr>)"
proof -
  obtain rank where "chain_ok (kv_mapping_table kv) rank" using assms(1) by (auto simp: kv_ok_def)
  then have "chain_ok ((kv_mapping_table kv)[s := (kv_mapping_table kv ! s)\<lparr>me_length := n\<rparr>]) rank"
    using assms(2) by (auto simp: chain_ok_def nth_list_update)
  then show ?thesis using assms by (auto simp: kv_ok_def)
qed

lemma erase_ok:
  assumes "kv_ok kv" "s < length (kv_mapping_table kv)"
  shows "kv_ok (kv\<lparr>kv_mapping_table := (kv_mapping_table kv)[s := erased_entry]\<rparr>)"
proof -
  obtain rank where "chain_ok (kv_mapping_table kv) rank" using assms(1) by (auto simp: kv_ok_def)
  then have "chain_ok ((kv_mapping_table kv)[s := erased_entry]) rank"
    using assms(2) by (auto simp: chain_ok_def nth_list_update erased_entry_def)
  then show ?thesis using assms by (auto simp: kv_ok_def)
qed

section \<open>All commands keep the table in order\<close>

lemma kv_ok_cong: "kv_mapping_table kv' = kv_mapping_table kv \<Longrightarrow> kv_hash_slots kv' = kv_hash_slots kv \<Longrightarrow> kv_ok kv' = kv_ok kv"
  by (simp add: kv_ok_def)

lemma kv_allocate_table:
  "kv_allocate find_zero len kv = Some (kv', off) \<Longrightarrow> kv_mapping_table kv' = kv_mapping_table kv \<and> kv_hash_slots kv' = kv_hash_slots kv"
  by (auto simp: kv_allocate_def split: allocator_type.splits prod.splits elim!: bind_SomeE)

lemma allocate_table:
  "allocate_mem_offset_by_length find_zero len kv = Some (kv', off) \<Longrightarrow> kv_mapping_table kv' = kv_mapping_table kv \<and> kv_hash_slots kv' = kv_hash_slots kv"
  by (auto simp: allocate_mem_offset_by_length_def dest: kv_allocate_table elim!: bind_SomeE)

lemma allocate_cmd_table:
  "allocate_mem_offset find_zero c kv = Some (kv', off) \<Longrightarrow> kv_mapping_table kv' = kv_mapping_table kv \<and> kv_hash_slots kv' = kv_hash_slots kv"
  by (auto simp: allocate_mem_offset_def dest: allocate_table split: if_splits)

lemma get_hash_slot_len: "get_hash_slot kv key kl = Some h \<Longrightarrow> kl \<le> length key"
  by (auto simp: get_hash_slot_def elim!: bind_SomeE)

lemma new_mapping_keeps:
  assumes "new_mapping_entry_by_key cap key kl vl off kv = Some kv'" "kv_ok kv" "cap \<le> NO_OFFSET"
  shows "kv_ok kv'"
proof -
  have "kl \<le> length key" using assms(1,2) by (rule new_mapping_cases) (rule get_hash_slot_len)
  then show ?thesis using new_mapping_ok[OF assms(1,2) _ assms(3)] by blast
qed

lemma find_slot_in:
  assumes "find_slot t key kl i = Some (Some s)"
  shows "s < length t"
proof -
  have "\<forall>s. r = Some s \<longrightarrow> s < length t" if "find_slot t key kl i = Some r" for r
    using that
  proof (induction rule: find_slot.raw_induct[rotated 1, consumes 1])
    case (1 f t key kl i r)
    from 1(2) show ?case
      by (auto elim!: bind_SomeE split: if_splits dest: array_read_SomeD intro: 1(1)[rule_format])
  qed
  then show ?thesis using assms by blast
qed

lemma update_mapping_keeps:
  assumes "update_mapping_entry c kv = Some (kv', b)" "kv_ok kv"
  shows "kv_ok kv'"
  using assms set_length_ok[OF assms(2)]
  by (auto simp: update_mapping_entry_def dest!: array_read_SomeD elim!: bind_SomeE split: option.splits)

lemma delete_mapping_keeps:
  assumes "delete_mapping_entry c kv = Some kv'" "kv_ok kv"
  shows "kv_ok kv'"
  using assms erase_ok[OF assms(2)] find_slot_in
  by (auto simp: delete_mapping_entry_def elim!: bind_SomeE split: option.splits)

lemma store_place_table:
  "store_place env c e kv = Some (kv', off, ch) \<Longrightarrow> kv_mapping_table kv' = kv_mapping_table kv \<and> kv_hash_slots kv' = kv_hash_slots kv"
  by (auto simp: store_place_def dest: allocate_cmd_table elim!: bind_SomeE split: if_splits)

lemma do_perform_kv_io_keeps:
  assumes run: "do_perform_kv_io env c st kv m = Some (kv', m', r, st')" and ok: "kv_ok kv" and cap: "ke_storage_size env \<le> NO_OFFSET"
  shows "kv_ok kv'"
proof (cases "kc_opcode c = nvme_cmd_kv_store")
  case True
  from run True obtain kv1 off ch where s: "store_place env c (the (get_mapping_entry kv c)) kv = Some (kv1, off, ch)"
    and t: "(case ch of No_change \<Rightarrow> Some kv1 | New_entry \<Rightarrow> new_mapping_entry (ke_storage_size env) c off kv1
          | New_length \<Rightarrow> do { (k, _) \<leftarrow> update_mapping_entry c kv1; Some k }) = Some kv'"
    by (auto simp: do_perform_kv_io_def Let_def elim!: bind_SomeE)
  have ok1: "kv_ok kv1" using kv_ok_cong store_place_table[OF s] ok by blast
  show ?thesis
  proof (cases ch)
    case No_change
    then show ?thesis using t ok1 by simp
  next
    case New_entry
    then show ?thesis using t new_mapping_keeps[OF _ ok1 cap] by (simp add: new_mapping_entry_def)
  next
    case New_length
    then show ?thesis using t update_mapping_keeps[OF _ ok1] by (auto elim!: bind_SomeE)
  qed
next
  case False
  then show ?thesis using run ok delete_mapping_keeps[OF _ ok]
    by (auto simp: do_perform_kv_io_def Let_def elim!: bind_SomeE split: if_splits)
qed

lemma batched_io_keeps:
  assumes run: "do_perform_kv_batched_io env opc key kl val vl (kv, m) = Some (kv', m')" and ok: "kv_ok kv" and cap: "ke_storage_size env \<le> NO_OFFSET"
  shows "kv_ok kv'"
proof -
  have keep: "kv_ok k" if "allocate_mem_offset_by_length fz vl kv = Some (k, off)" for fz k off
    using kv_ok_cong allocate_table[OF that] ok by blast
  show ?thesis
    using run ok by (auto simp: do_perform_kv_batched_io_def Let_def elim!: bind_SomeE split: if_splits
      dest!: keep new_mapping_keeps[OF _ _ cap])
qed

lemma batch_loop_keeps:
  "kv_batch_loop env buf len i n po st = Some st' \<Longrightarrow> kv_ok (fst st) \<Longrightarrow> ke_storage_size env \<le> NO_OFFSET \<Longrightarrow> kv_ok (fst st')"
proof (induction n arbitrary: i po st)
  case 0
  then show ?case by simp
next
  case (Suc n)
  from Suc.prems(1) obtain op key kl val vl po' st1 where s: "do_perform_kv_batched_io env op key kl val vl st = Some st1"
    "kv_batch_loop env buf len (i + 1) n po' st1 = Some st'"
    by (auto simp: Let_def elim!: bind_SomeE)
  have "kv_ok (fst st1)"
    using batched_io_keeps[of env op key kl val vl "fst st" "snd st" "fst st1" "snd st1"] s(1) Suc.prems(2,3) by simp
  then show ?case using Suc.IH[OF s(2)] Suc.prems(3) by blast
qed

lemma kv_iter_io_table:
  assumes "do_perform_kv_iter_io buf c st kv m = Some (kv', m', r, st')"
  shows "kv_mapping_table kv' = kv_mapping_table kv \<and> kv_hash_slots kv' = kv_hash_slots kv"
proof -
  have "kv_mapping_table k = kv_mapping_table kv \<and> kv_hash_slots k = kv_hash_slots kv" if "kv_iter_open buf c st kv = (k, x)" for k x
    using that by (auto simp: kv_iter_open_def split: option.splits)
  then show ?thesis using assms
    by (auto simp: do_perform_kv_iter_io_def kv_iter_close_def kv_iter_read_def Let_def elim!: bind_SomeE split: if_splits option.splits prod.splits)
qed

lemma kv_perform_keeps:
  assumes run: "kv_perform_nvme_io_cmd env buf c st kv m = Some (kv', m', r, st')" and ok: "kv_ok kv" and cap: "ke_storage_size env \<le> NO_OFFSET"
  shows "kv_ok kv'"
proof -
  consider (batch) "kc_opcode c = nvme_cmd_kv_batch" | (iter) "do_perform_kv_iter_io buf c st kv m = Some (kv', m', r, st')"
    | (io) "do_perform_kv_io env c st kv m = Some (kv', m', r, st')"
    using run by (auto simp: kv_perform_nvme_io_cmd_def split: if_splits)
  then show ?thesis
  proof cases
    case batch
    then obtain m1 po where "kv_batch_loop env buf (cmd_value_length c) 0 (kc_rsvd4 c) po (kv, m1) = Some (kv', m')"
      using run by (auto simp: kv_perform_nvme_io_cmd_def do_perform_kv_batch_def elim!: bind_SomeE)
    then show ?thesis using batch_loop_keeps[of env buf _ 0 _ po "(kv, m1)" "(kv', m')"] ok cap by simp
  next
    case iter
    then show ?thesis using kv_iter_io_table kv_ok_cong ok by blast
  next
    case io
    then show ?thesis using do_perform_kv_io_keeps[OF io ok cap] by blast
  qed
qed

text \<open>The states the device can be in: a fresh one, and what its commands make of it.\<close>

inductive kv_reach :: "kv_env \<Rightarrow> kv_ftl \<Rightarrow> kv_ftl \<Rightarrow> bool" for env start where
  kv_start: "kv_reach env start start"
| kv_step: "kv_reach env start kv \<Longrightarrow> kv_perform_nvme_io_cmd env buf c st kv m = Some (kv', m', r, st') \<Longrightarrow> kv_reach env start kv'"

lemma kv_reach_ok: "kv_reach env start kv \<Longrightarrow> kv_ok start \<Longrightarrow> ke_storage_size env \<le> NO_OFFSET \<Longrightarrow> kv_ok kv"
  by (induction rule: kv_reach.induct) (auto dest: kv_perform_keeps)

lemma kv_init_ok:
  assumes "kv_init_namespace cfg bytes junk pool = Some kv" "48 \<le> KV_MAPPING_TABLE_SIZE cfg" "KV_MAPPING_TABLE_SIZE cfg \<le> 48 * NO_SLOT"
  shows "kv_ok kv" "kv_hash_slots kv = KV_MAPPING_TABLE_SIZE cfg div 48" "\<forall>e\<in>set (kv_mapping_table kv). me_mem_offset e = NO_OFFSET"
proof -
  let ?n = "KV_MAPPING_TABLE_SIZE cfg div 48"
  have n: "0 < ?n" "?n \<le> NO_SLOT" using assms(2,3) div_le_mono[OF assms(3), of 48] by (simp_all add: div_greater_zero_iff)
  have kv: "kv_hash_slots kv = ?n" "kv_mapping_table kv =
      replicate ?n \<lparr>me_key = replicate 18 0, me_mem_offset = NO_OFFSET, me_length = 2 ^ 64 - 1, me_next_slot = NO_SLOT\<rparr>"
    using assms(1) by (auto simp: kv_init_namespace_def KV_MAPPING_ENTRY_SIZE_def Let_def elim!: bind_SomeE)
  have "chain_ok (kv_mapping_table kv) (\<lambda>_. 0)" using n(2) unfolding kv(2) by (simp add: chain_ok_def)
  then show "kv_ok kv" unfolding kv_ok_def using kv n(1) by auto
  show "kv_hash_slots kv = ?n" "\<forall>e\<in>set (kv_mapping_table kv). me_mem_offset e = NO_OFFSET" using kv by auto
qed

section \<open>Lookups\<close>

lemma get_mapping_total:
  assumes ok: "kv_ok kv" and kl: "kl \<le> length key" "kl \<le> 18"
  shows "\<exists>e. get_mapping_entry_by_key kv key kl = Some e"
proof -
  obtain h rank where h: "get_hash_slot kv key kl = Some h" "h < length (kv_mapping_table kv)" and c: "chain_ok (kv_mapping_table kv) rank"
    using get_hash_slot_ok[OF ok kl(1)] ok by (auto simp: kv_ok_def)
  then show ?thesis using find_slot_total[OF c kl(2) h(2), of key]
    by (auto simp: get_mapping_entry_by_key_def split: option.split)
qed

text \<open>A lookup that fails finds no entry, and one that succeeds an occupied one.\<close>

lemma get_mapping_cases:
  assumes get: "get_mapping_entry_by_key kv key kl = Some e" and ok: "kv_ok kv" and kl: "kl \<le> 18"
  obtains h where "get_hash_slot kv key kl = Some h" "h < length (kv_mapping_table kv)" "find_slot (kv_mapping_table kv) key kl h = Some None" "e = erased_entry"
  | h s where "get_hash_slot kv key kl = Some h" "h < length (kv_mapping_table kv)" "find_slot (kv_mapping_table kv) key kl h = Some (Some s)"
    "s < length (kv_mapping_table kv)" "me_mem_offset (kv_mapping_table kv ! s) \<noteq> NO_OFFSET" "me_mem_offset e = me_mem_offset (kv_mapping_table kv ! s)"
    "me_length e = me_length (kv_mapping_table kv ! s)"
proof -
  from get obtain h where h: "get_hash_slot kv key kl = Some h" by (auto simp: get_mapping_entry_by_key_def elim!: bind_SomeE)
  obtain rank where c: "chain_ok (kv_mapping_table kv) rank" using ok by (auto simp: kv_ok_def)
  have lt: "h < length (kv_mapping_table kv)" using h ok get_hash_slot_ok[OF ok get_hash_slot_len[OF h]] by auto
  obtain r where r: "find_slot (kv_mapping_table kv) key kl h = Some r"
    "\<forall>s. r = Some s \<longrightarrow> s < length (kv_mapping_table kv) \<and> holds_key (kv_mapping_table kv ! s) key kl"
    using find_slot_total[OF c kl lt] by blast
  show ?thesis
  proof (cases r)
    case None
    then show ?thesis using that(1)[OF h lt] r get h by (simp add: get_mapping_entry_by_key_def)
  next
    case (Some s)
    then show ?thesis using that(2)[OF h lt] r get h by (auto simp: get_mapping_entry_by_key_def holds_key_def)
  qed
qed

end
