(* ===== verification/Kv_Props.thy ===== *)
theory Kv_Props
  imports Kv_Inv
begin

text \<open>
  Properties of the store of keys and values: lookups always end, a stored value is what the next retrieval delivers, and
  three ways in which the code loses or damages values of other keys.
\<close>

section \<open>The transfer of values\<close>

interpretation kv_in: prp_copy id "kv_act nvme_cmd_kv_store storage" storage False for storage
  by unfold_locales (simp add: kv_act_def)

interpretation kv_out: prp_copy id "kv_act nvme_cmd_kv_retrieve storage" storage True for storage
  by unfold_locales (simp add: kv_act_def kv_opcodes)

text \<open>Host address of byte \<open>k\<close> of a command's buffer, for a transfer of \<open>len\<close> bytes.\<close>

abbreviation value_byte :: "memory \<Rightarrow> kv_command \<Rightarrow> nat \<Rightarrow> nat \<Rightarrow> nat" where
  "value_byte m c len \<equiv> prp_byte m (kc_prp1 c) (kc_prp2 c) len"

text \<open>The pages of a buffer are distinct, and neither they nor the page list overlap the place of the value.\<close>

definition value_area_ok :: "memory \<Rightarrow> nat \<Rightarrow> kv_command \<Rightarrow> nat \<Rightarrow> bool" where
  "value_area_ok m start c len \<longleftrightarrow> prp_valid m (kc_prp1 c) (kc_prp2 c) len \<and> inj_on (value_byte m c len) {..<len} \<and>
     value_byte m c len ` {..<len} \<inter> (\<lambda>k. start + k) ` {..<len} = {} \<and>
     prp_list_area (kc_prp1 c) (kc_prp2 c) len \<inter> (value_byte m c len ` {..<len} \<union> (\<lambda>k. start + k) ` {..<len}) = {}"

lemma value_area_okD:
  assumes "value_area_ok m start c len"
  shows "prp_valid m (kc_prp1 c) (kc_prp2 c) len" "inj_on (value_byte m c len) {..<len}"
    "value_byte m c len ` {..<len} \<inter> (\<lambda>k. start + k) ` {..<len} = {}" "(\<lambda>k. start + k) ` {..<len} \<inter> value_byte m c len ` {..<len} = {}"
    "prp_list_area (kc_prp1 c) (kc_prp2 c) len \<inter> value_byte m c len ` {..<len} = {}"
    "prp_list_area (kc_prp1 c) (kc_prp2 c) len \<inter> (\<lambda>k. start + k) ` {..<len} = {}"
  using assms unfolding value_area_ok_def by blast+

lemma inj_shift: "inj_on (\<lambda>k. (a :: nat) + k) A"
  by (simp add: inj_on_def)

lemma value_in:
  assumes "value_area_ok m (storage + offset) c len"
  shows "\<exists>m'. prp_walk id (kv_act nvme_cmd_kv_store storage) (kc_prp1 c) (kc_prp2 c) 0 0 None None offset len m = Some m' \<and>
    copied (value_byte m c len) (\<lambda>k. storage + offset + k) len m m'"
proof -
  have e: "kv_in.src_byte storage m (kc_prp1 c) (kc_prp2 c) offset len = value_byte m c len"
    "kv_in.dst_byte storage m (kc_prp1 c) (kc_prp2 c) offset len = (\<lambda>k. storage + offset + k)"
    by (auto simp: fun_eq_iff kv_in.src_byte_def kv_in.dst_byte_def)
  note v = value_area_okD[OF assms]
  from kv_in.walk_copies[of m "kc_prp1 c" "kc_prp2 c" len storage offset None, unfolded id_apply e, OF v(1) inj_shift v(3,6)]
  show ?thesis unfolding id_def .
qed

lemma value_out:
  assumes "value_area_ok m (storage + offset) c len"
  shows "\<exists>m'. prp_walk id (kv_act nvme_cmd_kv_retrieve storage) (kc_prp1 c) (kc_prp2 c) 0 0 None None offset len m = Some m' \<and>
    copied (\<lambda>k. storage + offset + k) (value_byte m c len) len m m'"
proof -
  have e: "kv_out.dst_byte storage m (kc_prp1 c) (kc_prp2 c) offset len = value_byte m c len"
    "kv_out.src_byte storage m (kc_prp1 c) (kc_prp2 c) offset len = (\<lambda>k. storage + offset + k)"
    by (auto simp: fun_eq_iff kv_out.src_byte_def kv_out.dst_byte_def)
  note v = value_area_okD[OF assms]
  from kv_out.walk_copies[of m "kc_prp1 c" "kc_prp2 c" len storage offset None, unfolded id_apply e, OF v(1,2,4,5)]
  show ?thesis unfolding id_def .
qed

lemma read64_outside:
  assumes "copied src dst n m m'" "\<And>i. i < 8 \<Longrightarrow> a + i \<notin> dst ` {..<n}"
  shows "read64 m' a = read64 m a"
  using assms by (intro read64_cong) (simp add: copied_def)

text \<open>A change of memory outside the page list leaves a buffer what it was.\<close>

lemma value_area_same:
  assumes c: "copied src dst n m m'" and ok: "value_area_ok m start c len"
    and out: "prp_list_area (kc_prp1 c) (kc_prp2 c) len \<inter> dst ` {..<n} = {}"
  shows "value_area_ok m' start c len" "\<And>k. k < len \<Longrightarrow> value_byte m' c len k = value_byte m c len k"
proof -
  have same: "\<And>a. a \<in> prp_list_area (kc_prp1 c) (kc_prp2 c) len \<Longrightarrow> m' a = m a" using c out unfolding copied_def by blast
  note sl = prp_same_list[of "kc_prp1 c" "kc_prp2 c" len m' m, OF same]
  show h: "value_byte m' c len k = value_byte m c len k" if "k < len" for k using sl(2)[OF _ that] by blast
  have "value_byte m' c len ` {..<len} = value_byte m c len ` {..<len}" "inj_on (value_byte m' c len) {..<len} = inj_on (value_byte m c len) {..<len}"
    using h by (auto simp: inj_on_def image_def)
  then show "value_area_ok m' start c len" using ok sl(1) unfolding value_area_ok_def by auto
qed

section \<open>Lookups after changes\<close>

lemma find_slot_here: "i < length t \<Longrightarrow> holds_key (t ! i) key kl \<Longrightarrow> kl \<le> length (me_key (t ! i)) \<Longrightarrow> find_slot t key kl i = Some (Some i)"
  by (subst find_slot.simps) (simp add: holds_key_def)

lemma find_slot_next:
  assumes "i < length t" "me_mem_offset (t ! i) \<noteq> NO_OFFSET" "\<not> holds_key (t ! i) key kl" "kl \<le> length (me_key (t ! i))" "me_next_slot (t ! i) \<noteq> NO_SLOT"
  shows "find_slot t key kl i = find_slot t key kl (me_next_slot (t ! i))"
  using assms by (subst find_slot.simps) (simp add: holds_key_def)

lemma find_slot_end:
  assumes "i < length t" "me_mem_offset (t ! i) \<noteq> NO_OFFSET" "\<not> holds_key (t ! i) key kl" "kl \<le> length (me_key (t ! i))" "me_next_slot (t ! i) = NO_SLOT"
  shows "find_slot t key kl i = Some None"
  using assms by (subst find_slot.simps) (simp add: holds_key_def)

text \<open>After a new entry was made for a key that was not found, a lookup finds it.\<close>

lemma lookup_new_entry:
  assumes new: "new_mapping_entry_by_key cap key kl vl off kv = Some kv'" and ok: "kv_ok kv" and cap: "cap \<le> NO_OFFSET"
    and miss: "get_mapping_entry_by_key kv key kl = Some erased_entry"
  shows "\<exists>e. get_mapping_entry_by_key kv' key kl = Some e \<and> me_mem_offset e = off \<and> me_length e = vl"
proof -
  let ?t = "kv_mapping_table kv" and ?t' = "kv_mapping_table kv'"
  from new ok obtain home s where a: "get_hash_slot kv key kl = Some home" "home < length ?t" "s < length ?t"
    "me_mem_offset (?t ! s) = NO_OFFSET" "off < cap" "kl \<le> 18"
    "me_mem_offset (?t ! home) = NO_OFFSET \<and> s = home \<or> me_mem_offset (?t ! home) \<noteq> NO_OFFSET \<and> s \<noteq> home"
    "kv' = kv\<lparr>kv_mapping_table := (let t1 = ?t[s := (?t ! s)\<lparr>me_key := take kl key @ drop kl (me_key (?t ! s)), me_mem_offset := off, me_length := vl\<rparr>]
      in if s = home then t1 else t1[home := (t1 ! home)\<lparr>me_next_slot := s\<rparr>])\<rparr>"
    by (rule new_mapping_cases) blast
  obtain rank where chain: "chain_ok ?t rank" using ok by (auto simp: kv_ok_def)
  have kl: "kl \<le> length key" by (rule get_hash_slot_len[OF a(1)])
  have fs: "me_key (?t' ! s) = take kl key @ drop kl (me_key (?t ! s))" "me_mem_offset (?t' ! s) = off" "me_length (?t' ! s) = vl" "length ?t' = length ?t"
    using a(2,3,8) by (auto simp: Let_def nth_list_update)
  have hit: "holds_key (?t' ! s) key kl" using fs(1,2) a(5) cap kl by (auto simp: holds_key_def)
  have at_s: "find_slot ?t' key kl s = Some (Some s)" using find_slot_here[of s ?t' key kl] hit fs a(3) kl by simp
  have "find_slot ?t' key kl home = Some (Some s)"
  proof (cases "s = home")
    case False
    then have occ: "me_mem_offset (?t ! home) \<noteq> NO_OFFSET" using a(7) by blast
    have miss': "find_slot ?t key kl home = Some None"
      using get_mapping_cases[OF miss ok a(6)] a(1) by (auto simp: erased_entry_def)
    have nh: "\<not> holds_key (?t ! home) key kl"
      using find_slot_here[OF a(2)] miss' chain_okD(1)[OF chain a(2)] a(6) by fastforce
    have h': "?t' ! home = (?t ! home)\<lparr>me_next_slot := s\<rparr>" using a(2,3,8) False by (auto simp: Let_def nth_list_update)
    have "s < NO_SLOT" using a(3) chain by (simp add: chain_ok_def)
    then show ?thesis
      using find_slot_next[of home ?t' key kl] a(2) fs(4) h' occ nh chain_okD(1)[OF chain a(2)] a(6) at_s by (simp add: holds_key_def)
  qed (use at_s in simp)
  moreover have "get_hash_slot kv' key kl = Some home" using a(1,8) by (simp add: get_hash_slot_def)
  ultimately show ?thesis using fs a(3) by (simp add: get_mapping_entry_by_key_def)
qed

text \<open>After a new length was set for a key that was found, a lookup finds the same entry with that length.\<close>

lemma lookup_new_length:
  assumes ok: "kv_ok kv" and e: "get_mapping_entry kv c = Some e" "me_mem_offset e \<noteq> NO_OFFSET" and kl: "cmd_key_length c \<le> 18"
  shows "\<exists>kv' e'. update_mapping_entry c kv = Some (kv', 0) \<and> kv_ok kv' \<and> get_mapping_entry kv' c = Some e' \<and>
    me_mem_offset e' = me_mem_offset e \<and> me_length e' = cmd_value_length c"
proof -
  let ?t = "kv_mapping_table kv" and ?kl = "cmd_key_length c"
  obtain h s where f: "get_hash_slot kv (kc_key c) ?kl = Some h" "h < length ?t" "find_slot ?t (kc_key c) ?kl h = Some (Some s)"
    "s < length ?t" "me_mem_offset e = me_mem_offset (?t ! s)"
    by (rule get_mapping_cases[OF e(1)[unfolded get_mapping_entry_def] ok kl]) (use e(2) in \<open>auto simp: erased_entry_def\<close>)
  obtain rank where chain: "chain_ok ?t rank" using ok by (auto simp: kv_ok_def)
  let ?kv = "kv\<lparr>kv_mapping_table := ?t[s := (?t ! s)\<lparr>me_length := cmd_value_length c\<rparr>]\<rparr>"
  have "update_mapping_entry c kv = Some (?kv, 0)" using f by (simp add: update_mapping_entry_def)
  moreover have "find_slot (kv_mapping_table ?kv) (kc_key c) ?kl h = Some (Some s)"
    using find_slot_length[OF chain kl f(4,2)] f(3) by simp
  then have "\<exists>e'. get_mapping_entry ?kv c = Some e' \<and> me_mem_offset e' = me_mem_offset e \<and> me_length e' = cmd_value_length c"
    using f by (simp add: get_mapping_entry_def get_mapping_entry_by_key_def get_hash_slot_def)
  ultimately show ?thesis using set_length_ok[OF ok f(4)] by blast
qed

lemma new_mapping_total:
  assumes ok: "kv_ok kv" and key: "kl \<le> length key" "kl \<le> 18" and off: "off < cap"
    and free: "j < kv_hash_slots kv" "me_mem_offset (kv_mapping_table kv ! j) = NO_OFFSET"
  shows "\<exists>kv'. new_mapping_entry_by_key cap key kl vl off kv = Some kv'"
proof -
  let ?t = "kv_mapping_table kv"
  obtain home rank where h: "get_hash_slot kv key kl = Some home" "home < length ?t" and chain: "chain_ok ?t rank"
    using get_hash_slot_ok[OF ok key(1)] ok by (auto simp: kv_ok_def)
  have len: "length ?t = kv_hash_slots kv" using ok by (simp add: kv_ok_def)
  obtain s where s: "find_next_slot kv home = Some s" using find_next_slot_exists[OF len free] h(2) len by auto
  have "s < length ?t" using find_next_slot_free[OF s] by blast
  then show ?thesis using h s off key(2) chain_okD(1)[OF chain] by (auto simp: new_mapping_entry_by_key_def chain_mapping_def Let_def)
qed

section \<open>A small device\<close>

text \<open>Four slots; the keys of one byte 3, 7 and 11 have the same slot.\<close>

definition first_zero :: "(nat \<Rightarrow> bool) \<Rightarrow> nat \<Rightarrow> nat \<Rightarrow> nat" where
  "first_zero bits n start = (case List.find (\<lambda>i. \<not> bits i) [start..<n] of Some i \<Rightarrow> i | None \<Rightarrow> n + 1)"

definition small_env :: kv_env where
  "small_env = \<lparr>ke_storage = 1048576, ke_storage_size = 65536, ke_find_zero = first_zero\<rparr>"

definition small_pool :: bitmap_pool where
  "small_pool = \<lparr>bm_small_nbits = 4, bm_large_nbits = 1, bm_small = (\<lambda>i. i = 1 \<or> i = 2), bm_large = (\<lambda>_. False), bm_small_capacity = 2,
     bm_large_capacity = 0, bm_small_last_pos = 3, bm_large_last_pos = 0, bm_dev_size = 8192, bm_total_written = 2048\<rparr>"

definition small_cfg :: kv_configs where
  "small_cfg = \<lparr>KV_MAPPING_TABLE_SIZE = 192, ALLOCATOR_TYPE = ALLOCATOR_TYPE_APPEND_ONLY\<rparr>"

definition free_slot :: mapping_entry where
  "free_slot = \<lparr>me_key = replicate 18 0, me_mem_offset = NO_OFFSET, me_length = 2 ^ 64 - 1, me_next_slot = NO_SLOT\<rparr>"

definition small_kv :: kv_ftl where
  "small_kv = \<lparr>kv_mapping_table = replicate 4 free_slot, kv_hash_slots = 4, kv_allocator = ALLOCATOR_TYPE_APPEND_ONLY,
     kv_append = append_only_allocator_init 65536, kv_bitmap = small_pool, kv_iter_handle = replicate 16 None @ [None]\<rparr>"

lemma small_kv_init: "kv_init_namespace small_cfg 65536 None small_pool = Some small_kv"
  by (simp add: kv_init_namespace_def small_cfg_def small_kv_def free_slot_def KV_MAPPING_ENTRY_SIZE_def Let_def)

lemma small_kv_ok: "kv_ok small_kv"
  by (rule kv_init_ok(1)[OF small_kv_init]) (simp_all add: small_cfg_def NO_SLOT_def)

definition key_command :: "nat \<Rightarrow> 8 word \<Rightarrow> nat \<Rightarrow> kv_command" where
  "key_command opcode b page = \<lparr>kc_opcode = opcode, kc_prp1 = page * 4096, kc_prp2 = 0, kc_value_len = 16, kc_key_len = 0,
     kc_option = 0, kc_rsvd4 = 0, kc_key = b # replicate 15 0\<rparr>"

lemma key_command_lengths: "cmd_key_length (key_command opc b pg) = 1" "cmd_value_length (key_command opc b pg) = 64"
  by (simp_all add: key_command_def cmd_key_length_def cmd_value_length_def)

lemma key_command_key: "kc_key (key_command opc b pg) = b # replicate 15 0" "kc_opcode (key_command opc b pg) = opc"
  by (simp_all add: key_command_def)

lemma small_hash: "unat (hash_function [3]) mod 4 = 0" "unat (hash_function [7]) mod 4 = 0" "unat (hash_function [11]) mod 4 = 0"
  by (simp_all add: hash_function_def)

lemma key_command_area: "page \<le> 255 \<Longrightarrow> value_area_ok m 1048576 (key_command opc b page) 64"
proof -
  assume p: "page \<le> 255"
  let ?c = "key_command opc b page"
  have b: "value_byte m ?c 64 k = page * 4096 + k" if "k < 64" for k using that by (simp add: prp_byte_def key_command_def Let_def)
  then have img: "value_byte m ?c 64 ` {..<64} \<subseteq> {..<1048576}" using p by auto
  have "prp_list_area (kc_prp1 ?c) (kc_prp2 ?c) 64 = {}" by (simp add: prp_list_area_def prp_entries_def key_command_def)
  moreover have "prp_valid m (kc_prp1 ?c) (kc_prp2 ?c) 64" by (simp add: prp_valid_def key_command_def)
  moreover have "inj_on (value_byte m ?c 64) {..<64}" by (rule inj_onI) (simp add: b)
  moreover have "{..<1048576} \<inter> (\<lambda>k. 1048576 + k) ` {..<64::nat} = {}" by auto
  ultimately show ?thesis using img unfolding value_area_ok_def by blast
qed

text \<open>The state after the keys 3 and 7 were stored.\<close>

definition two_keys :: kv_ftl where
  "two_keys = small_kv\<lparr>kv_mapping_table :=
     [\<lparr>me_key = 3 # replicate 17 0, me_mem_offset = 0, me_length = 64, me_next_slot = 1\<rparr>,
      \<lparr>me_key = 7 # replicate 17 0, me_mem_offset = 64, me_length = 64, me_next_slot = NO_SLOT\<rparr>, free_slot, free_slot]\<rparr>"

lemma two_keys_ok: "kv_ok two_keys"
proof -
  have "chain_ok (kv_mapping_table two_keys) (\<lambda>i. if i = 0 then 1 else 0)"
    by (auto simp: chain_ok_def two_keys_def free_slot_def NO_SLOT_def NO_OFFSET_def nth_Cons' split: if_splits)
  then show ?thesis by (auto simp: kv_ok_def two_keys_def small_kv_def)
qed

section \<open>Properties\<close>

text \<open>C26: From a fresh device, whatever commands are processed, the links of the hash table stay free of cycles, so that
  every later lookup of a key of at most 16 bytes ends.\<close>

theorem kv_lookup_ends:
  assumes "kv_init_namespace cfg bytes junk pool = Some start" "48 \<le> KV_MAPPING_TABLE_SIZE cfg" "KV_MAPPING_TABLE_SIZE cfg \<le> 48 * NO_SLOT"
    "ke_storage_size env \<le> NO_OFFSET" "kv_reach env start kv" "length (kc_key c) = 16" "cmd_key_length c \<le> 16"
  shows "\<exists>e. get_mapping_entry kv c = Some e"
  using get_mapping_total[OF kv_reach_ok[OF assms(5) kv_init_ok(1)[OF assms(1-3)] assms(4)], of "cmd_key_length c" "kc_key c"] assms(6,7)
  by (simp add: get_mapping_entry_def)

theorem kv_lookup_ends_witness: "\<exists>e. get_mapping_entry small_kv (key_command nvme_cmd_kv_retrieve 3 5) = Some e"
  by (rule kv_lookup_ends[OF small_kv_init _ _ _ kv_start[of small_env]])
    (simp_all add: small_cfg_def small_env_def NO_SLOT_def NO_OFFSET_def key_command_lengths, simp add: key_command_def)

text \<open>C25: What a store command writes is what a retrieval of the same key and length delivers, whether the key is new, has a
  value of the same length, or changes between small lengths.  A new key needs a free slot and space in the storage.\<close>

theorem kv_store_retrieve:
  assumes len: "len = cmd_value_length cs" and ok: "kv_ok kv" and cap: "ke_storage_size env \<le> NO_OFFSET"
    and cmds: "kc_opcode cs = nvme_cmd_kv_store" "kc_opcode cr = nvme_cmd_kv_retrieve" "kc_key cr = kc_key cs" "kc_key_len cr = kc_key_len cs"
      "kc_value_len cr = kc_value_len cs"
    and key: "length (kc_key cs) = 16" "cmd_key_length cs \<le> 16"
    and place: "get_mapping_entry kv cs = Some e" "store_place env cs e kv = Some (kv1, off, change)"
    and fits: "change = New_entry \<longrightarrow> off < ke_storage_size env \<and> (\<exists>j<kv_hash_slots kv. me_mem_offset (kv_mapping_table kv ! j) = NO_OFFSET)"
      "change = No_change \<longrightarrow> me_length e = len"
    and areas: "value_area_ok m (ke_storage env + off) cs len" "value_area_ok m (ke_storage env + off) cr len"
  shows "\<exists>kv2 m1 m2. do_perform_kv_io env cs st kv m = Some (kv2, m1, 0, st) \<and>
    do_perform_kv_io env cr st' kv2 m1 = Some (kv2, m2, len, st') \<and>
    (\<forall>k<len. m2 (value_byte m cr len k) = m (value_byte m cs len k))"
proof -
  have same: "cmd_key_length cr = cmd_key_length cs" "cmd_value_length cr = len" using cmds by (simp_all add: cmd_key_length_def cmd_value_length_def len)
  have kl: "cmd_key_length cs \<le> 18" "cmd_key_length cs \<le> length (kc_key cs)" using key by simp_all
  have t: "kv_mapping_table kv1 = kv_mapping_table kv" "kv_hash_slots kv1 = kv_hash_slots kv" using store_place_table[OF place(2)] by auto
  have ok1: "kv_ok kv1" using kv_ok_cong[OF t] ok by simp
  have e1: "get_mapping_entry kv1 cs = Some e"
    using place(1) t by (simp add: get_mapping_entry_def get_mapping_entry_by_key_def get_hash_slot_def)
  obtain m1 where m1: "prp_walk id (kv_act nvme_cmd_kv_store (ke_storage env)) (kc_prp1 cs) (kc_prp2 cs) 0 0 None None off len m = Some m1"
    "copied (value_byte m cs len) (\<lambda>k. ke_storage env + off + k) len m m1" using value_in[OF areas(1)] by blast
  note a = value_area_same[OF m1(2) areas(2) value_area_okD(6)[OF areas(2)]]
  obtain m2 where m2: "prp_walk id (kv_act nvme_cmd_kv_retrieve (ke_storage env)) (kc_prp1 cr) (kc_prp2 cr) 0 0 None None off len m1 = Some m2"
    "copied (\<lambda>k. ke_storage env + off + k) (value_byte m1 cr len) len m1 m2" using value_out[OF a(1)] by blast
  have data: "\<forall>k<len. m2 (value_byte m cr len k) = m (value_byte m cs len k)"
    using m1(2) m2(2) a(2) by (auto simp: copied_def)
  have "\<exists>kv2 e2. (case change of No_change \<Rightarrow> Some kv1 | New_entry \<Rightarrow> new_mapping_entry (ke_storage_size env) cs off kv1
          | New_length \<Rightarrow> do { (k, _) \<leftarrow> update_mapping_entry cs kv1; Some k }) = Some kv2 \<and>
      get_mapping_entry kv2 cs = Some e2 \<and> me_mem_offset e2 = off \<and> me_mem_offset e2 \<noteq> NO_OFFSET \<and> me_length e2 = len"
  proof (cases change)
    case No_change
    then show ?thesis using place(2) fits(2) e1 by (auto simp: store_place_def elim!: bind_SomeE split: if_splits)
  next
    case New_entry
    then obtain j where j: "off < ke_storage_size env" "j < kv_hash_slots kv1" "me_mem_offset (kv_mapping_table kv1 ! j) = NO_OFFSET"
      using fits(1) t by auto
    obtain kv2 where kv2: "new_mapping_entry (ke_storage_size env) cs off kv1 = Some kv2"
      using new_mapping_total[OF ok1 kl(2,1) j, of "cmd_value_length cs"] by (auto simp: new_mapping_entry_def)
    have "me_mem_offset e = NO_OFFSET" using place(2) New_entry by (auto simp: store_place_def split: if_splits)
    then have "get_mapping_entry_by_key kv1 (kc_key cs) (cmd_key_length cs) = Some erased_entry"
      using get_mapping_cases[OF e1[unfolded get_mapping_entry_def] ok1 kl(1)] e1 by (auto simp: get_mapping_entry_def)
    then show ?thesis using lookup_new_entry[OF kv2[unfolded new_mapping_entry_def] ok1 cap] kv2 New_entry j(1) cap
      by (auto simp: get_mapping_entry_def len)
  next
    case New_length
    then have "me_mem_offset e \<noteq> NO_OFFSET" "off = me_mem_offset e" using place(2) by (auto simp: store_place_def elim!: bind_SomeE split: if_splits)
    then show ?thesis using lookup_new_length[OF ok1 e1 _ kl(1)] New_length by (auto simp: len)
  qed
  then obtain kv2 e2 where kv2: "(case change of No_change \<Rightarrow> Some kv1 | New_entry \<Rightarrow> new_mapping_entry (ke_storage_size env) cs off kv1
          | New_length \<Rightarrow> do { (k, _) \<leftarrow> update_mapping_entry cs kv1; Some k }) = Some kv2"
    "get_mapping_entry kv2 cs = Some e2" "me_mem_offset e2 = off" "off \<noteq> NO_OFFSET" "me_length e2 = len" by blast
  have "do_perform_kv_io env cs st kv m = Some (kv2, m1, 0, st)"
    using place m1(1) kv2(1) cmds(1) by (simp add: do_perform_kv_io_def len)
  moreover have "get_mapping_entry kv2 cr = Some e2" using kv2(2) cmds(3) same by (simp add: get_mapping_entry_def)
  then have "do_perform_kv_io env cr st' kv2 m1 = Some (kv2, m2, len, st')"
    using m2(1) kv2(3-5) cmds(2) same by (simp add: do_perform_kv_io_def kv_opcodes len cmd_value_length_def)
  ultimately show ?thesis using data by blast
qed

theorem kv_store_retrieve_witness:
  "\<exists>kv2 m1 m2. do_perform_kv_io small_env (key_command nvme_cmd_kv_store 3 5) 0 small_kv of_nat = Some (kv2, m1, 0, 0) \<and>
    do_perform_kv_io small_env (key_command nvme_cmd_kv_retrieve 3 9) 0 kv2 m1 = Some (kv2, m2, 64, 0) \<and> m2 36865 = of_nat 20481"
proof -
  let ?cs = "key_command nvme_cmd_kv_store 3 5" and ?cr = "key_command nvme_cmd_kv_retrieve 3 9"
  have g: "get_mapping_entry small_kv ?cs = Some erased_entry"
    by (simp add: get_mapping_entry_def get_mapping_entry_by_key_def get_hash_slot_def key_command_lengths key_command_key small_kv_def
        small_hash find_slot.simps free_slot_def)
  have p: "store_place small_env ?cs erased_entry small_kv = Some (small_kv\<lparr>kv_append := (append_only_allocator_init 65536)\<lparr>ap_latest := 64, ap_total_written := 64\<rparr>\<rparr>, 0, New_entry)"
    by (simp add: store_place_def erased_entry_def allocate_mem_offset_def allocate_mem_offset_by_length_def kv_allocate_def append_only_allocate_def
        key_command_lengths key_command_key small_kv_def append_only_allocator_init_def NO_OFFSET_def)
  have f: "\<exists>j<kv_hash_slots small_kv. me_mem_offset (kv_mapping_table small_kv ! j) = NO_OFFSET" by (rule exI[of _ 0]) (simp add: small_kv_def free_slot_def)
  have c: "kc_opcode ?cs = nvme_cmd_kv_store" "kc_opcode ?cr = nvme_cmd_kv_retrieve" "kc_key ?cr = kc_key ?cs" "kc_key_len ?cr = kc_key_len ?cs"
    "kc_value_len ?cr = kc_value_len ?cs" "length (kc_key ?cs) = 16" by (simp_all add: key_command_def)
  have e: "ke_storage_size small_env \<le> NO_OFFSET" "0 < ke_storage_size small_env" "ke_storage small_env + 0 = 1048576"
    by (simp_all add: small_env_def NO_OFFSET_def)
  obtain kv2 m1 m2 where r: "do_perform_kv_io small_env ?cs 0 small_kv of_nat = Some (kv2, m1, 0, 0)"
    "do_perform_kv_io small_env ?cr 0 kv2 m1 = Some (kv2, m2, 64, 0)"
    "\<forall>k<64. m2 (value_byte of_nat ?cr 64 k) = of_nat (value_byte of_nat ?cs 64 k)"
    using kv_store_retrieve[OF key_command_lengths(2)[symmetric] small_kv_ok e(1) c _ g p, where m = of_nat and st = 0 and st' = 0]
      f e(2,3) key_command_area[of 5] key_command_area[of 9] by (simp add: key_command_lengths) blast
  have b: "value_byte of_nat ?cr 64 1 = 36865" "value_byte of_nat ?cs 64 1 = 20481" by (simp_all add: prp_byte_def key_command_def Let_def)
  have "m2 36865 = of_nat 20481" using r(3)[rule_format, of 1] unfolding b by simp
  then show ?thesis using r(1,2) by blast
qed

text \<open>C27: A chain has room for one link only.  When a key \<open>k1\<close> is reached over the link of the slot \<open>h\<close> and a new key with the
  same slot \<open>h\<close> is stored, the link is overwritten: from then on retrieving \<open>k1\<close> answers that the key does not exist,
  although its entry is still in the table.\<close>

theorem kv_collision_forgets:
  assumes ok: "kv_ok kv"
    and read: "kc_opcode cr = nvme_cmd_kv_retrieve" "length (kc_key cr) = 16" "cmd_key_length cr \<le> 16"
      "get_hash_slot kv (kc_key cr) (cmd_key_length cr) = Some h"
    and link: "me_mem_offset (kv_mapping_table kv ! h) \<noteq> NO_OFFSET" "\<not> holds_key (kv_mapping_table kv ! h) (kc_key cr) (cmd_key_length cr)"
      "me_next_slot (kv_mapping_table kv ! h) = s" "s < kv_hash_slots kv" "holds_key (kv_mapping_table kv ! s) (kc_key cr) (cmd_key_length cr)"
    and store: "get_hash_slot kv (kc_key c2) (cmd_key_length c2) = Some h" "cmd_key_length cr \<le> cmd_key_length c2"
      "take (cmd_key_length cr) (kc_key c2) \<noteq> take (cmd_key_length cr) (kc_key cr)" "new_mapping_entry cap c2 off kv = Some kv'"
  shows "(\<exists>e. get_mapping_entry kv cr = Some e \<and> me_mem_offset e = me_mem_offset (kv_mapping_table kv ! s)) \<and>
    do_perform_kv_io env cr st kv' m = Some (kv', m, 0, KV_ERR_KEY_NOT_EXIST) \<and>
    kv_mapping_table kv' ! s = kv_mapping_table kv ! s"
proof -
  let ?t = "kv_mapping_table kv" and ?t' = "kv_mapping_table kv'" and ?kl = "cmd_key_length cr" and ?k = "kc_key cr"
  obtain rank where chain: "chain_ok ?t rank" and len: "length ?t = kv_hash_slots kv" using ok by (auto simp: kv_ok_def)
  from store(4) ok obtain s' where a: "h < length ?t" "s' < length ?t" "me_mem_offset (?t ! s') = NO_OFFSET" "s' \<noteq> h"
    "kv' = kv\<lparr>kv_mapping_table := (let t1 = ?t[s' := (?t ! s')\<lparr>me_key := take (cmd_key_length c2) (kc_key c2) @ drop (cmd_key_length c2) (me_key (?t ! s')),
        me_mem_offset := off, me_length := cmd_value_length c2\<rparr>] in t1[h := (t1 ! h)\<lparr>me_next_slot := s'\<rparr>])\<rparr>"
    unfolding new_mapping_entry_def by (rule new_mapping_cases) (use store(1) link(1) in \<open>auto simp: Let_def\<close>)
  have ss: "s \<noteq> s'" "s \<noteq> h" using a(3) link(2,5) by (auto simp: holds_key_def)
  have kl: "?kl \<le> length (me_key (?t ! i))" if "i < length ?t" for i using chain_okD(1)[OF chain that] read(3) by simp
  have sn: "s \<noteq> NO_SLOT" "s' \<noteq> NO_SLOT" using link(4) len a(2) chain by (auto simp: chain_ok_def)
  have "find_slot ?t ?k ?kl h = Some (Some s)"
    using find_slot_next[OF a(1) link(1,2) kl[OF a(1)]] sn(1) find_slot_here[of s ?t] link(3-5) len kl[of s] by simp
  then have before: "\<exists>e. get_mapping_entry kv cr = Some e \<and> me_mem_offset e = me_mem_offset (?t ! s)"
    using read(4) link(4) len by (simp add: get_mapping_entry_def get_mapping_entry_by_key_def)
  have l': "length ?t' = length ?t" and h': "?t' ! h = (?t ! h)\<lparr>me_next_slot := s'\<rparr>" and keep: "?t' ! s = ?t ! s"
    and s': "me_key (?t' ! s') = take (cmd_key_length c2) (kc_key c2) @ drop (cmd_key_length c2) (me_key (?t ! s'))"
      "me_next_slot (?t' ! s') = NO_SLOT" "me_mem_offset (?t' ! s') = off"
    using a ss chain_okD(2)[OF chain a(2,3)] by (auto simp: Let_def nth_list_update)
  have klen: "cmd_key_length c2 \<le> length (kc_key c2)" using get_hash_slot_len[OF store(1)] .
  have "take ?kl (me_key (?t' ! s')) = take ?kl (kc_key c2)" using klen store(2) unfolding s'(1) by (simp add: min_def)
  then have miss: "\<not> holds_key (?t' ! s') ?k ?kl" using store(3) by (auto simp: holds_key_def)
  have "?kl \<le> length (me_key (?t' ! s'))" unfolding s'(1) using klen store(2) kl[OF a(2)] by simp
  then have "find_slot ?t' ?k ?kl s' = Some None"
    using find_slot_end[of s' ?t' ?k ?kl] miss s'(2) a(2) l' by (cases "off = NO_OFFSET") (auto simp: find_slot.simps[of ?t' ?k ?kl s'] s'(3))
  then have "find_slot ?t' ?k ?kl h = Some None"
    using find_slot_next[of h ?t' ?k ?kl] a(1) l' h' link(1,2) kl[OF a(1)] sn(2) by (simp add: holds_key_def)
  moreover have "get_hash_slot kv' ?k ?kl = Some h" using read(4) a(5) by (simp add: get_hash_slot_def)
  ultimately have "get_mapping_entry kv' cr = Some erased_entry" by (simp add: get_mapping_entry_def get_mapping_entry_by_key_def)
  then have "do_perform_kv_io env cr st kv' m = Some (kv', m, 0, KV_ERR_KEY_NOT_EXIST)"
    using read(1) by (simp add: do_perform_kv_io_def erased_entry_def kv_opcodes)
  then show ?thesis using before keep by blast
qed

theorem kv_collision_forgets_witness:
  "\<exists>e kv'. get_mapping_entry two_keys (key_command nvme_cmd_kv_retrieve 7 9) = Some e \<and> me_mem_offset e = 64 \<and>
    new_mapping_entry 65536 (key_command nvme_cmd_kv_store 11 5) 128 two_keys = Some kv' \<and>
    do_perform_kv_io small_env (key_command nvme_cmd_kv_retrieve 7 9) 0 kv' of_nat = Some (kv', of_nat, 0, KV_ERR_KEY_NOT_EXIST)"
proof -
  let ?cr = "key_command nvme_cmd_kv_retrieve 7 9" and ?c2 = "key_command nvme_cmd_kv_store 11 5"
  have t: "kv_hash_slots two_keys = 4" "length (kv_mapping_table two_keys) = 4" by (simp_all add: two_keys_def small_kv_def)
  have h: "get_hash_slot two_keys (kc_key ?cr) 1 = Some 0" "get_hash_slot two_keys (kc_key ?c2) 1 = Some 0"
    by (simp_all add: get_hash_slot_def t(1) key_command_def small_hash)
  have f: "2 < kv_hash_slots two_keys" "me_mem_offset (kv_mapping_table two_keys ! 2) = NO_OFFSET"
    by (simp_all add: t(1)) (simp add: two_keys_def free_slot_def)
  obtain kv' where n: "new_mapping_entry 65536 ?c2 128 two_keys = Some kv'"
    using new_mapping_total[OF two_keys_ok _ _ _ f, of 1 "kc_key ?c2" 128 65536 64]
    by (auto simp: new_mapping_entry_def key_command_lengths key_command_key)
  have e: "me_mem_offset (kv_mapping_table two_keys ! 0) = 0" "me_next_slot (kv_mapping_table two_keys ! 0) = 1"
    "me_mem_offset (kv_mapping_table two_keys ! 1) = 64" "take 1 (me_key (kv_mapping_table two_keys ! 0)) = [3]"
    "take 1 (me_key (kv_mapping_table two_keys ! 1)) = [7]" "take 1 (kc_key ?cr) = [7]" "take 1 (kc_key ?c2) = [11]" "length (kc_key ?cr) = 16"
    by (simp_all add: two_keys_def key_command_def)
  have "(\<exists>e. get_mapping_entry two_keys ?cr = Some e \<and> me_mem_offset e = me_mem_offset (kv_mapping_table two_keys ! 1)) \<and>
      do_perform_kv_io small_env ?cr 0 kv' of_nat = Some (kv', of_nat, 0, KV_ERR_KEY_NOT_EXIST) \<and>
      kv_mapping_table kv' ! 1 = kv_mapping_table two_keys ! 1"
    by (rule kv_collision_forgets[OF two_keys_ok, where h = 0 and ?c2.0 = ?c2 and cap = 65536 and off = 128])
      (simp_all add: key_command_lengths e h n t(1) holds_key_def NO_OFFSET_def key_command_key(2) del: One_nat_def)
  then show ?thesis using n e(3) by auto
qed

text \<open>The bitmap allocator, when it has handed out the last small block, starts its next search behind the end of the
  bitmap, however many blocks are free, and places the next small value in the half of the storage that holds the large
  ones.  (The kernel's search returns a number beyond the size when it finds no area.)\<close>

theorem bitmap_leaves_small_half:
  assumes kernel: "\<And>bits n start. n \<le> start \<Longrightarrow> n < find_zero bits n start"
    and lst: "find_zero (bm_small p) (bm_small_nbits p) (bm_small_last_pos p) + 1 = bm_small_nbits p"
    and geo: "bm_dev_size p div 2 = bm_small_nbits p * SMALL_LENGTH" "bm_small_nbits p \<le> SMALL_BITS"
    and small: "len1 \<le> SMALL_LENGTH" "len2 \<le> SMALL_LENGTH"
  shows "\<exists>p1 off1. bitmap_allocate find_zero len1 p = Some (p1, off1) \<and> off1 + SMALL_LENGTH = bm_dev_size p div 2 \<and>
    (\<forall>p2 off2. bitmap_allocate find_zero len2 p1 = Some (p2, off2) \<longrightarrow> bm_dev_size p div 2 < off2)"
proof -
  let ?off = "find_zero (bm_small p) (bm_small_nbits p) (bm_small_last_pos p)"
  let ?p1 = "p\<lparr>bm_total_written := bm_total_written p + len1, bm_small := (bm_small p)(?off := True), bm_small_last_pos := bm_small_nbits p,
      bm_small_capacity := bm_small_capacity p + 1\<rparr>"
  have "bitmap_allocate find_zero len1 p = Some (?p1, ?off * SMALL_LENGTH)"
    using lst geo(2) small(1) by (simp add: bitmap_allocate_def Let_def)
  moreover have "?off * SMALL_LENGTH + SMALL_LENGTH = bm_dev_size p div 2"
  proof -
    have "?off * SMALL_LENGTH + SMALL_LENGTH = (?off + 1) * SMALL_LENGTH" by simp
    then show ?thesis by (simp only: lst geo(1))
  qed
  moreover have "bm_dev_size p div 2 < off2" if "bitmap_allocate find_zero len2 ?p1 = Some (p2, off2)" for p2 off2
    using that small(2) kernel[of "bm_small_nbits p" "bm_small_nbits p"] unfolding geo(1)
    by (auto simp: bitmap_allocate_def Let_def SMALL_LENGTH_def elim!: bind_SomeE)
  ultimately show ?thesis by blast
qed

theorem bitmap_leaves_small_half_witness:
  "\<exists>p1 off1. bitmap_allocate first_zero 100 small_pool = Some (p1, off1) \<and> off1 = 3072 \<and>
    (\<forall>p2 off2. bitmap_allocate first_zero 100 p1 = Some (p2, off2) \<longrightarrow> 4096 < off2)"
proof -
  have "n < first_zero bits n start" if "n \<le> start" for bits n start using that by (simp add: first_zero_def)
  moreover have "first_zero (bm_small small_pool) 4 3 = 3" by (simp add: first_zero_def small_pool_def)
  ultimately show ?thesis
    using bitmap_leaves_small_half[of first_zero small_pool 100 100] by (simp add: small_pool_def SMALL_LENGTH_def SMALL_BITS_def)
qed

end
