(* ===== verification/Dump_File.thy ===== *)
theory Dump_File
  imports Prp
begin

text \<open>
  Files as the dump of a device uses them (src/save\_load.c): bytes that calls of \<^verbatim>\<open>kernel_write\<close> append and calls of
  \<^verbatim>\<open>kernel_read\<close> take off the front.  The state of a reader is the rest of the file.  A locale states what a pair of a
  writer and a reader of a value promise, and gives the loops over many values.
\<close>

section \<open>Reading and writing\<close>

text \<open>The kernel moves at most this many bytes in a call (\<^verbatim>\<open>MAX_RW_COUNT\<close> of Linux).\<close>

definition MAX_RW_COUNT :: nat where "MAX_RW_COUNT = 0x7ffff000"

definition kernel_write :: "bytes \<Rightarrow> bytes" where
  "kernel_write buf = take MAX_RW_COUNT buf"

text \<open>What a read of \<open>n\<close> bytes delivers, which is less at the end of the file.\<close>

definition kernel_read :: "nat \<Rightarrow> bytes \<Rightarrow> bytes \<times> bytes" where
  "kernel_read n file = (take (min n MAX_RW_COUNT) file, drop (min n MAX_RW_COUNT) file)"

text \<open>A variable of \<open>n\<close> bytes is set by a read that delivers all of them; otherwise part of it keeps what happened to be
  there, and the model does not follow the program further.\<close>

definition read_full :: "nat \<Rightarrow> bytes \<Rightarrow> (bytes \<times> bytes) option" where
  "read_full n file = (let (bs, rest) = kernel_read n file in if length bs = n then Some (bs, rest) else None)"

lemma kernel_write_small [simp]: "length buf \<le> MAX_RW_COUNT \<Longrightarrow> kernel_write buf = buf"
  by (simp add: kernel_write_def)

lemma read_full_append [simp]: "length bs = n \<Longrightarrow> n \<le> MAX_RW_COUNT \<Longrightarrow> read_full n (bs @ rest) = Some (bs, rest)"
  by (simp add: read_full_def kernel_read_def)

section \<open>Numbers\<close>

text \<open>Signed numbers of 32 bits.\<close>

definition int_bytes :: "int \<Rightarrow> bytes" where
  "int_bytes v = le_bytes 4 (nat (v mod 2 ^ 32))"

definition bytes_int :: "bytes \<Rightarrow> int" where
  "bytes_int bs = (let n = int (le_number bs) in if n < 2 ^ 31 then n else n - 2 ^ 32)"

definition is_int :: "int \<Rightarrow> bool" where
  "is_int v \<longleftrightarrow> - (2 ^ 31) \<le> v \<and> v < 2 ^ 31"

lemma length_int_bytes [simp]: "length (int_bytes v) = 4"
  by (simp add: int_bytes_def)

lemma bytes_int_bytes:
  assumes "is_int v"
  shows "bytes_int (int_bytes v) = v"
proof -
  have "le_number (int_bytes v) = nat (v mod 2 ^ 32)"
    unfolding int_bytes_def le_number_le_bytes by (rule mod_less) (simp add: nat_less_iff)
  then have n: "int (le_number (int_bytes v)) = v mod 2 ^ 32" by simp
  show ?thesis
  proof (cases "0 \<le> v")
    case True
    then have "v mod 2 ^ 32 = v" using assms by (intro mod_pos_pos_trivial) (simp_all add: is_int_def)
    then show ?thesis using n assms by (simp add: bytes_int_def is_int_def)
  next
    case False
    have "v mod 2 ^ 32 = (v + 2 ^ 32) mod 2 ^ 32" by simp
    also have "\<dots> = v + 2 ^ 32" using False assms by (intro mod_pos_pos_trivial) (simp_all add: is_int_def)
    finally show ?thesis using n False assms by (simp add: bytes_int_def is_int_def)
  qed
qed

definition write_int :: "int \<Rightarrow> bytes" where
  "write_int v = kernel_write (int_bytes v)"

definition read_int :: "bytes \<Rightarrow> (int \<times> bytes) option" where
  "read_int file = do { (bs, rest) \<leftarrow> read_full 4 file; Some (bytes_int bs, rest) }"

text \<open>Unsigned numbers of \<open>n\<close> bytes.\<close>

definition write_nat :: "nat \<Rightarrow> nat \<Rightarrow> bytes" where
  "write_nat n v = kernel_write (le_bytes n v)"

definition read_nat :: "nat \<Rightarrow> bytes \<Rightarrow> (nat \<times> bytes) option" where
  "read_nat n file = do { (bs, rest) \<leftarrow> read_full n file; Some (le_number bs, rest) }"

lemma read_write_int: "is_int v \<Longrightarrow> read_int (write_int v @ rest) = Some (v, rest)"
  by (simp add: read_int_def write_int_def bytes_int_bytes MAX_RW_COUNT_def)

lemma read_write_nat: "v < 256 ^ n \<Longrightarrow> n \<le> MAX_RW_COUNT \<Longrightarrow> read_nat n (write_nat n v @ rest) = Some (v, rest)"
  by (simp add: read_nat_def write_nat_def le_number_le_bytes)

section \<open>Arrays in one call\<close>

text \<open>An array of elements of \<open>w\<close> bytes is written and read by a single call.\<close>

definition write_array :: "('a \<Rightarrow> bytes) \<Rightarrow> 'a list \<Rightarrow> bytes" where
  "write_array enc xs = kernel_write (concat (map enc xs))"

definition read_array :: "nat \<Rightarrow> (bytes \<Rightarrow> 'a) \<Rightarrow> nat \<Rightarrow> bytes \<Rightarrow> ('a list \<times> bytes) option" where
  "read_array w dec n file = do {
     (bs, rest) \<leftarrow> read_full (w * n) file;
     Some (map (\<lambda>i. dec (take w (drop (w * i) bs))) [0..<n], rest)
   }"

section \<open>Writers and their readers\<close>

locale codec =
  fixes enc :: "'a \<Rightarrow> bytes" and dec :: "bytes \<Rightarrow> ('a \<times> bytes) option" and valid :: "'a \<Rightarrow> bool"
  assumes dec_enc: "valid x \<Longrightarrow> dec (enc x @ rest) = Some (x, rest)"

fun read_list :: "nat \<Rightarrow> (bytes \<Rightarrow> ('a \<times> bytes) option) \<Rightarrow> bytes \<Rightarrow> ('a list \<times> bytes) option" where
  "read_list 0 dec file = Some ([], file)"
| "read_list (Suc n) dec file = do { (x, rest) \<leftarrow> dec file; (xs, rest') \<leftarrow> read_list n dec rest; Some (x # xs, rest') }"

context codec
begin

lemma read_list_enc: "\<forall>x\<in>set xs. valid x \<Longrightarrow> read_list (length xs) dec (concat (map enc xs) @ rest) = Some (xs, rest)"
  by (induction xs) (simp_all add: dec_enc)

end

text \<open>Elements of a fixed width.\<close>

locale fixed_codec =
  fixes enc :: "'a \<Rightarrow> bytes" and dec :: "bytes \<Rightarrow> 'a" and w :: nat and valid :: "'a \<Rightarrow> bool"
  assumes width: "length (enc x) = w" and inverse: "valid x \<Longrightarrow> dec (enc x) = x" and narrow: "w \<le> MAX_RW_COUNT"
begin

lemma length_encs: "length (concat (map enc xs)) = w * length xs"
  by (induction xs) (simp_all add: width)

lemma nth_enc: "i < length xs \<Longrightarrow> take w (drop (w * i) (concat (map enc xs))) = enc (xs ! i)"
proof (induction xs arbitrary: i)
  case (Cons x xs)
  then show ?case by (cases i) (simp_all add: width)
qed simp

lemma read_concat:
  assumes "\<forall>x\<in>set xs. valid x" "w * length xs \<le> MAX_RW_COUNT"
  shows "read_array w dec (length xs) (concat (map enc xs) @ rest) = Some (xs, rest)"
proof -
  have "map (\<lambda>i. dec (take w (drop (w * i) (concat (map enc xs))))) [0..<length xs] = xs"
    using assms(1) by (intro nth_equalityI) (simp_all add: nth_enc inverse)
  then show ?thesis using assms(2) by (simp add: read_array_def length_encs)
qed

lemma read_write_array:
  assumes "\<forall>x\<in>set xs. valid x" "w * length xs \<le> MAX_RW_COUNT"
  shows "read_array w dec (length xs) (write_array enc xs @ rest) = Some (xs, rest)"
  using read_concat[OF assms] assms(2) by (simp add: write_array_def length_encs)

end

interpretation u64_codec: fixed_codec "le_bytes 8" le_number 8 "\<lambda>v. v < 2 ^ 64"
  by unfold_locales (simp_all add: le_number_le_bytes MAX_RW_COUNT_def)

interpretation id_codec: fixed_codec int_bytes bytes_int 4 is_int
  by unfold_locales (simp_all add: bytes_int_bytes MAX_RW_COUNT_def)

interpretation int_codec: codec write_int read_int is_int
  by unfold_locales (rule read_write_int)

end
