(* ===== verification/Save_Load.thy ===== *)
theory Save_Load
  imports Dump_File Conv_Props
begin

text \<open>
  Saving a page-mapped device to a file and loading it again (src/save\_load.c): the flash arrays, the write pointers, the
  mapping tables, the line management with its queue, and the contents of all mapped pages.

  Pointers to lines are written as they are in memory and replaced on loading by a search for the identifier written next
  to them; where a line lies in memory is a parameter (\<open>line_addr\<close>).  The position of a line in the queue is read into a
  variable of four bytes with a read of eight; how many bytes the stack has to spare behind that variable is up to the
  compiler, and a parameter (\<open>spare\<close>): with fewer than four, the read overwrites something else, which is outside the model.
\<close>

section \<open>The flash arrays\<close>

fun status_code :: "page_status \<Rightarrow> int" where
  "status_code PG_FREE = 0"
| "status_code PG_INVALID = 1"
| "status_code PG_VALID = 2"

definition code_status :: "int \<Rightarrow> page_status" where
  "code_status n = (if n = 0 then PG_FREE else if n = 1 then PG_INVALID else PG_VALID)"

lemma code_status_code [simp]: "code_status (status_code s) = s" "is_int (status_code s)"
  by (cases s; simp add: code_status_def is_int_def)+

definition status_bytes :: "page_status \<Rightarrow> bytes" where
  "status_bytes s = int_bytes (status_code s)"

definition bytes_status :: "bytes \<Rightarrow> page_status" where
  "bytes_status bs = code_status (bytes_int bs)"

interpretation status_codec: fixed_codec status_bytes bytes_status 4 "\<lambda>_. True"
  by unfold_locales (simp_all add: status_bytes_def bytes_status_def bytes_int_bytes MAX_RW_COUNT_def)

text \<open>A value that is none of the constants stays out of the model.\<close>

definition read_status :: "bytes \<Rightarrow> (page_status \<times> bytes) option" where
  "read_status file = do { (v, rest) \<leftarrow> read_int file; nvmev_assert (v \<in> {0, 1, 2}); Some (code_status v, rest) }"

definition ssd_write_pg :: "nand_page \<Rightarrow> bytes option" where
  "ssd_write_pg pg = do {
     nvmev_assert (pg_nsecs pg \<le> length (pg_sec pg));
     Some (write_int (int (pg_nsecs pg)) @ write_int (status_code (pg_status pg)) @ write_array status_bytes (take (pg_nsecs pg) (pg_sec pg)))
   }"

definition ssd_read_pg :: "bytes \<Rightarrow> (nand_page \<times> bytes) option" where
  "ssd_read_pg file = do {
     (nsecs, file) \<leftarrow> read_int file;
     (status, file) \<leftarrow> read_status file;
     nvmev_assert (0 \<le> nsecs);
     (sec, file) \<leftarrow> read_array 4 bytes_status (nat nsecs) file;
     Some (\<lparr>pg_sec = sec, pg_nsecs = nat nsecs, pg_status = status\<rparr>, file)
   }"

fun write_all :: "('a \<Rightarrow> bytes option) \<Rightarrow> 'a list \<Rightarrow> bytes option" where
  "write_all f [] = Some []"
| "write_all f (x # xs) = do { bs \<leftarrow> f x; bss \<leftarrow> write_all f xs; Some (bs @ bss) }"

definition ssd_write_blk :: "nand_block \<Rightarrow> bytes option" where
  "ssd_write_blk blk = do {
     nvmev_assert (b_npgs blk \<le> length (b_pg blk));
     pgs \<leftarrow> write_all ssd_write_pg (take (b_npgs blk) (b_pg blk));
     Some (write_int (int (b_npgs blk)) @ write_int (b_ipc blk) @ write_int (b_vpc blk) @ write_int (b_erase_cnt blk) @ write_int (b_wp blk) @ pgs)
   }"

text \<open>The array of pages is that of the block in memory.\<close>

definition ssd_read_blk :: "nand_block \<Rightarrow> bytes \<Rightarrow> (nand_block \<times> bytes) option" where
  "ssd_read_blk blk file = do {
     (npgs, file) \<leftarrow> read_int file;
     (ipc, file) \<leftarrow> read_int file;
     (vpc, file) \<leftarrow> read_int file;
     (erase_cnt, file) \<leftarrow> read_int file;
     (wp, file) \<leftarrow> read_int file;
     nvmev_assert (nat npgs \<le> length (b_pg blk));
     (pgs, file) \<leftarrow> read_list (nat npgs) ssd_read_pg file;
     Some (\<lparr>b_pg = pgs @ drop (nat npgs) (b_pg blk), b_npgs = nat npgs, b_ipc = ipc, b_vpc = vpc, b_erase_cnt = erase_cnt, b_wp = wp\<rparr>, file)
   }"

definition ssd_write_pl :: "ssd \<Rightarrow> nat \<Rightarrow> nat \<Rightarrow> nat \<Rightarrow> bytes option" where
  "ssd_write_pl s ch lun pl = write_all (\<lambda>blk. ssd_write_blk (ssd_blk s (ch, lun, pl, blk))) [0..<blks_per_pl (ssd_sp s)]"

definition ssd_write_lun :: "ssd \<Rightarrow> nat \<Rightarrow> nat \<Rightarrow> bytes option" where
  "ssd_write_lun s ch lun = write_all (ssd_write_pl s ch lun) [0..<l_npls (ssd_lun s (ch, lun))]"

definition ssd_write_ch :: "ssd \<Rightarrow> nat \<Rightarrow> bytes option" where
  "ssd_write_ch s ch = write_all (ssd_write_lun s ch) [0..<c_nluns (ssd_ch s ch)]"

definition ssd_read_pl :: "nat \<Rightarrow> nat \<Rightarrow> nat \<Rightarrow> ssd \<times> bytes \<Rightarrow> (ssd \<times> bytes) option" where
  "ssd_read_pl ch lun pl sf = foldM (\<lambda>blk (s, file). do {
       (b, file) \<leftarrow> ssd_read_blk (ssd_blk s (ch, lun, pl, blk)) file;
       Some (s\<lparr>ssd_blk := (ssd_blk s)((ch, lun, pl, blk) := b)\<rparr>, file)
     }) [0..<blks_per_pl (ssd_sp (fst sf))] sf"

definition ssd_read_lun :: "nat \<Rightarrow> nat \<Rightarrow> ssd \<times> bytes \<Rightarrow> (ssd \<times> bytes) option" where
  "ssd_read_lun ch lun sf = foldM (ssd_read_pl ch lun) [0..<l_npls (ssd_lun (fst sf) (ch, lun))] sf"

definition ssd_read_ch :: "nat \<Rightarrow> ssd \<times> bytes \<Rightarrow> (ssd \<times> bytes) option" where
  "ssd_read_ch ch sf = foldM (ssd_read_lun ch) [0..<c_nluns (ssd_ch (fst sf) ch)] sf"

section \<open>Tables and write pointers\<close>

definition ppa_number :: "ppa \<Rightarrow> nat" where
  "ppa_number a = p_pg a + 2 ^ 16 * (p_blk a + 2 ^ 16 * (p_pl a + 2 ^ 8 * (p_lun a + 2 ^ 8 * (p_ch a + 2 ^ 8 * p_rsv a))))"

definition number_ppa :: "nat \<Rightarrow> ppa" where
  "number_ppa n = \<lparr>p_pg = n mod 2 ^ 16, p_blk = n div 2 ^ 16 mod 2 ^ 16, p_pl = n div 2 ^ 16 div 2 ^ 16 mod 2 ^ 8,
     p_lun = n div 2 ^ 16 div 2 ^ 16 div 2 ^ 8 mod 2 ^ 8, p_ch = n div 2 ^ 16 div 2 ^ 16 div 2 ^ 8 div 2 ^ 8 mod 2 ^ 8,
     p_rsv = n div 2 ^ 16 div 2 ^ 16 div 2 ^ 8 div 2 ^ 8 div 2 ^ 8 mod 2 ^ 8\<rparr>"

definition ppa_fits :: "ppa \<Rightarrow> bool" where
  "ppa_fits a \<longleftrightarrow> p_pg a < 2 ^ 16 \<and> p_blk a < 2 ^ 16 \<and> p_pl a < 2 ^ 8 \<and> p_lun a < 2 ^ 8 \<and> p_ch a < 2 ^ 8 \<and> p_rsv a < 2 ^ 8"

definition ppa_bytes :: "ppa \<Rightarrow> bytes" where
  "ppa_bytes a = le_bytes 8 (ppa_number a)"

definition bytes_ppa :: "bytes \<Rightarrow> ppa" where
  "bytes_ppa bs = number_ppa (le_number bs)"

lemma low_digit: "x < b \<Longrightarrow> (x + b * y) mod b = x" "x < b \<Longrightarrow> (x + b * y) div b = (y::nat)"
  by simp_all

lemma ppa_number_fits:
  assumes "ppa_fits a"
  shows "ppa_number a < 2 ^ 64" "number_ppa (ppa_number a) = a"
proof -
  have b: "p_pg a < 65536" "p_blk a < 65536" "p_pl a < 256" "p_lun a < 256" "p_ch a < 256" "p_rsv a < 256"
    using assms by (simp_all add: ppa_fits_def)
  then show "ppa_number a < 2 ^ 64" by (simp add: ppa_number_def)
  show "number_ppa (ppa_number a) = a"
    using assms unfolding ppa_fits_def number_ppa_def ppa_number_def by (simp only: low_digit mod_less) simp
qed

interpretation ppa_codec: fixed_codec ppa_bytes bytes_ppa 8 ppa_fits
  by unfold_locales (simp_all add: ppa_bytes_def bytes_ppa_def le_number_le_bytes ppa_number_fits(2) ppa_number_fits(1)[simplified] MAX_RW_COUNT_def)

definition write_wp :: "(nat \<Rightarrow> nat) \<Rightarrow> nat \<Rightarrow> write_pointer \<Rightarrow> bytes" where
  "write_wp line_addr pad wp = kernel_write (le_bytes 8 (line_addr (wp_curline wp)) @ le_bytes 4 (wp_ch wp) @ le_bytes 4 (wp_lun wp) @
     le_bytes 4 (wp_pg wp) @ le_bytes 4 (wp_blk wp) @ le_bytes 4 (wp_pl wp) @ le_bytes 4 pad)"

text \<open>The pointer to the current line is set later.\<close>

definition read_wp :: "bytes \<Rightarrow> (write_pointer \<times> bytes) option" where
  "read_wp file = do {
     (bs, file) \<leftarrow> read_full 32 file;
     let field = (\<lambda>k. le_number (take 4 (drop k bs)));
     Some (\<lparr>wp_curline = 0, wp_ch = field 8, wp_lun = field 12, wp_pg = field 16, wp_blk = field 20, wp_pl = field 24\<rparr>, file)
   }"

definition write_line :: "line \<Rightarrow> bytes" where
  "write_line l = write_int (int (ln_id l)) @ write_int (ln_ipc l) @ write_int (ln_vpc l) @ write_nat 8 (ln_pos l)"

text \<open>The last read delivers eight bytes into an \<open>int\<close> with \<open>spare\<close> unused bytes behind it.\<close>

definition read_line :: "nat \<Rightarrow> bytes \<Rightarrow> (line \<times> bytes) option" where
  "read_line spare file = do {
     (lid, file) \<leftarrow> read_int file;
     (ipc, file) \<leftarrow> read_int file;
     (vpc, file) \<leftarrow> read_int file;
     (bs, file) \<leftarrow> read_full 8 file;
     nvmev_assert (length bs \<le> 4 + spare);
     Some (\<lparr>ln_id = nat lid, ln_ipc = ipc, ln_vpc = vpc, ln_pos = nat (bytes_int (take 4 bs) mod 2 ^ 64)\<rparr>, file)
   }"

section \<open>Saving\<close>

definition write_line_id :: "line list \<Rightarrow> nat \<Rightarrow> bytes option" where
  "write_line_id lines i = do { l \<leftarrow> array_read lines i; Some (write_int (int (ln_id l))) }"

text \<open>Where the data of a logical page of partition \<open>q\<close> lies.\<close>

definition page_data :: "nat \<Rightarrow> nat \<Rightarrow> nat \<Rightarrow> nat \<Rightarrow> nat" where
  "page_data base np q lpn = base + (lpn * np + q) * 8 * 2 ^ 9"

definition save_data :: "nat \<Rightarrow> nat \<Rightarrow> nat \<Rightarrow> memory \<Rightarrow> nat list \<Rightarrow> nat \<Rightarrow> bytes option" where
  "save_data base np q m rmap i = do {
     lpn \<leftarrow> array_read rmap i;
     Some (if lpn \<noteq> INVALID_LPN then kernel_write (read_bytes m (page_data base np q lpn) PAGE_SIZE) else [])
   }"

definition save_lines :: "line_mgmt \<Rightarrow> bytes option" where
  "save_lines lm = do {
     nvmev_assert (lm_tt_lines lm \<le> length (lm_lines lm));
     victims \<leftarrow> write_all (\<lambda>i. do { w \<leftarrow> array_read (pq_d (lm_victim_pq lm)) i; write_line_id (lm_lines lm) w }) [1..<lm_victim_cnt lm + 1];
     free \<leftarrow> write_all (write_line_id (lm_lines lm)) (lm_free lm);
     full \<leftarrow> write_all (write_line_id (lm_lines lm)) (lm_full lm);
     Some (write_nat 4 (lm_tt_lines lm) @ write_nat 4 (lm_free_cnt lm) @ write_nat 4 (lm_victim_cnt lm) @ write_nat 4 (lm_full_cnt lm) @
       concat (map write_line (take (lm_tt_lines lm) (lm_lines lm))) @
       write_nat 8 (pq_size (lm_victim_pq lm)) @ write_nat 8 (pq_avail (lm_victim_pq lm)) @ write_nat 8 (pq_step (lm_victim_pq lm)) @
       victims @ free @ full)
   }"

definition save_part :: "(nat \<Rightarrow> nat) \<Rightarrow> nat \<Rightarrow> nat \<Rightarrow> nat \<Rightarrow> memory \<Rightarrow> nat \<Rightarrow> conv_ftl \<Rightarrow> bytes option" where
  "save_part line_addr pad base np m q f = do {
     let spp = cf_sp f;
     flash \<leftarrow> write_all (ssd_write_ch (cf_ssd f)) [0..<nchs spp];
     wp_id \<leftarrow> write_line_id (lm_lines (cf_lm f)) (wp_curline (cf_wp f));
     gc_wp_id \<leftarrow> write_line_id (lm_lines (cf_lm f)) (wp_curline (cf_gc_wp f));
     nvmev_assert (tt_pgs spp \<le> length (cf_maptbl f) \<and> tt_pgs spp \<le> length (cf_rmap f) \<and> nchs spp * luns_per_ch spp \<le> length (cf_page_counter f));
     lns \<leftarrow> save_lines (cf_lm f);
     pages \<leftarrow> write_all (save_data base np q m (cf_rmap f)) [0..<tt_pgs spp];
     Some (flash @ write_wp line_addr pad (cf_wp f) @ wp_id @ write_wp line_addr pad (cf_gc_wp f) @ gc_wp_id @
       write_array ppa_bytes (take (tt_pgs spp) (cf_maptbl f)) @ write_array (le_bytes 8) (take (tt_pgs spp) (cf_rmap f)) @
       write_array (le_bytes 8) (take (nchs spp * luns_per_ch spp) (cf_page_counter f)) @ lns @ pages)
   }"

definition save_device :: "(nat \<Rightarrow> nat \<Rightarrow> nat) \<Rightarrow> nat \<Rightarrow> nat \<Rightarrow> memory \<Rightarrow> conv_ns \<Rightarrow> bytes option" where
  "save_device line_addr pad base m ns = write_all (\<lambda>q. do {
     f \<leftarrow> array_read (cn_ftls ns) q;
     save_part (line_addr q) pad base (cn_nr_parts ns) m q f
   }) [0..<cn_nr_parts ns]"

section \<open>Loading\<close>

definition find_line :: "line list \<Rightarrow> nat \<Rightarrow> int \<Rightarrow> nat option" where
  "find_line lines n lid = find (\<lambda>w. int (ln_id (lines ! w)) = lid) [0..<n]"

definition find_lines :: "line list \<Rightarrow> nat \<Rightarrow> int list \<Rightarrow> nat list" where
  "find_lines lines n lids = List.map_filter (find_line lines n) lids"

definition load_victims :: "line list \<Rightarrow> nat \<Rightarrow> int list \<Rightarrow> line_pq \<Rightarrow> line_pq option" where
  "load_victims lines n lids q = foldM (\<lambda>i q. case find_line lines n (lids ! i) of None \<Rightarrow> Some q
     | Some w \<Rightarrow> pqueue_change_data q (i + 1) w) [0..<length lids] q"

text \<open>\<open>mem\<close> is what the allocator returned for the array of the queue.\<close>

definition load_lines :: "nat \<Rightarrow> nat \<Rightarrow> nat list option \<Rightarrow> bytes \<Rightarrow> (line_mgmt \<times> bytes) option" where
  "load_lines spare tt_lines_param mem file = do {
     (n, file) \<leftarrow> read_nat 4 file;
     (free_cnt, file) \<leftarrow> read_nat 4 file;
     (victim_cnt, file) \<leftarrow> read_nat 4 file;
     (full_cnt, file) \<leftarrow> read_nat 4 file;
     (lines, file) \<leftarrow> read_list n (read_line spare) file;
     pq \<leftarrow> pqueue_init tt_lines_param victim_ops mem;
     (size, file) \<leftarrow> read_nat 8 file;
     (avail, file) \<leftarrow> read_nat 8 file;
     (step, file) \<leftarrow> read_nat 8 file;
     (victims, file) \<leftarrow> read_array 4 bytes_int victim_cnt file;
     pq' \<leftarrow> load_victims lines n victims (pq\<lparr>pq_size := size, pq_avail := avail, pq_step := step\<rparr>);
     (free_line_id, file) \<leftarrow> read_array 4 bytes_int free_cnt file;
     (full_line_id, file) \<leftarrow> read_array 4 bytes_int full_cnt file;
     Some (\<lparr>lm_lines = lines, lm_free = find_lines lines n free_line_id, lm_victim_pq = pq', lm_full = find_lines lines n full_line_id,
       lm_tt_lines = n, lm_free_cnt = free_cnt, lm_victim_cnt = victim_cnt, lm_full_cnt = full_cnt\<rparr>, file)
   }"

text \<open>The contents of a page are read until they are complete; a read at the end of the file delivers nothing, and the loop
  goes on for ever.\<close>

partial_function (option) load_page :: "nat \<Rightarrow> nat \<Rightarrow> memory \<times> bytes \<Rightarrow> (memory \<times> bytes) option" where
  "load_page a cur mf =
    (if cur < PAGE_SIZE then
       (let (bs, rest) = kernel_read (PAGE_SIZE - cur) (snd mf) in load_page a (cur + length bs) (write_bytes (fst mf) (a + cur) bs, rest))
     else Some mf)"

definition load_data :: "nat \<Rightarrow> nat \<Rightarrow> nat \<Rightarrow> nat list \<Rightarrow> nat \<Rightarrow> memory \<times> bytes \<Rightarrow> (memory \<times> bytes) option" where
  "load_data base np q rmap i mf = do {
     lpn \<leftarrow> array_read rmap i;
     (if lpn \<noteq> INVALID_LPN then load_page (page_data base np q lpn) 0 mf else Some mf)
   }"

definition load_part :: "nat \<Rightarrow> nat list option \<Rightarrow> nat \<Rightarrow> nat \<Rightarrow> nat \<Rightarrow> conv_ftl \<Rightarrow> memory \<times> bytes \<Rightarrow> (conv_ftl \<times> memory \<times> bytes) option" where
  "load_part spare mem base np q f mf = do {
     let spp = cf_sp f;
     (s, file) \<leftarrow> foldM ssd_read_ch [0..<nchs spp] (cf_ssd f, snd mf);
     (wp, file) \<leftarrow> read_wp file;
     (wp_id, file) \<leftarrow> read_int file;
     (gc_wp, file) \<leftarrow> read_wp file;
     (gc_wp_id, file) \<leftarrow> read_int file;
     (maptbl, file) \<leftarrow> read_array 8 bytes_ppa (tt_pgs spp) file;
     (rmap, file) \<leftarrow> read_array 8 le_number (tt_pgs spp) file;
     nvmev_assert (nchs spp * luns_per_ch spp \<le> length (cf_page_counter f));
     (counters, file) \<leftarrow> read_array 8 le_number (nchs spp * luns_per_ch spp) file;
     (lm, file) \<leftarrow> load_lines spare (tt_lines spp) mem file;
     curline \<leftarrow> find_line (lm_lines lm) (lm_tt_lines lm) wp_id;
     gc_curline \<leftarrow> find_line (lm_lines lm) (lm_tt_lines lm) gc_wp_id;
     mf' \<leftarrow> foldM (load_data base np q rmap) [0..<tt_pgs spp] (fst mf, file);
     Some (f\<lparr>cf_ssd := s, cf_maptbl := maptbl, cf_rmap := rmap, cf_wp := wp\<lparr>wp_curline := curline\<rparr>,
       cf_gc_wp := gc_wp\<lparr>wp_curline := gc_curline\<rparr>, cf_lm := lm,
       cf_page_counter := counters @ drop (nchs spp * luns_per_ch spp) (cf_page_counter f)\<rparr>, mf')
   }"

text \<open>The storage is cleared first.\<close>

definition load_device :: "nat \<Rightarrow> (nat \<Rightarrow> nat list option) \<Rightarrow> nat \<Rightarrow> nat \<Rightarrow> bytes \<Rightarrow> memory \<Rightarrow> conv_ns \<Rightarrow> (memory \<times> conv_ns) option" where
  "load_device spare mem base storage_size file m ns = do {
     (ns', m', file') \<leftarrow> foldM (\<lambda>q (ns, mf). do {
         f \<leftarrow> array_read (cn_ftls ns) q;
         (f', mf') \<leftarrow> load_part spare (mem q) base (cn_nr_parts ns) q f mf;
         Some (ns\<lparr>cn_ftls := (cn_ftls ns)[q := f']\<rparr>, mf')
       }) [0..<cn_nr_parts ns] (ns, write_bytes m base (replicate storage_size 0), file);
     Some (m', ns')
   }"

section \<open>The dump of the translation layer\<close>

definition dump_line :: "line \<Rightarrow> bytes" where
  "dump_line l = write_int (int (ln_id l)) @ write_int (ln_ipc l) @ write_int (ln_vpc l)"

definition dump_wp :: "line list \<Rightarrow> write_pointer \<Rightarrow> bytes option" where
  "dump_wp lines wp = do {
     l \<leftarrow> array_read lines (wp_curline wp);
     Some (write_array int_bytes [int (ln_id l), int (wp_ch wp), int (wp_lun wp), int (wp_pg wp)])
   }"

definition dump_part :: "conv_ftl \<Rightarrow> bytes option" where
  "dump_part f = do {
     let spp = cf_sp f;
     let lm = cf_lm f;
     nvmev_assert (tt_pgs spp \<le> length (cf_maptbl f) \<and> tt_pgs spp \<le> length (cf_rmap f) \<and> lm_tt_lines lm \<le> length (lm_lines lm) \<and>
       nchs spp * luns_per_ch spp \<le> length (cf_page_counter f));
     wp \<leftarrow> dump_wp (lm_lines lm) (cf_wp f);
     gc_wp \<leftarrow> dump_wp (lm_lines lm) (cf_gc_wp f);
     Some (write_array ppa_bytes (take (tt_pgs spp) (cf_maptbl f)) @ write_array (le_bytes 8) (take (tt_pgs spp) (cf_rmap f)) @
       concat (map dump_line (take (lm_tt_lines lm) (lm_lines lm))) @
       write_nat 4 (lm_free_cnt lm) @ write_nat 4 (lm_victim_cnt lm) @ write_nat 4 (lm_full_cnt lm) @ wp @ gc_wp @
       write_array (le_bytes 8) (take (nchs spp * luns_per_ch spp) (cf_page_counter f)))
   }"

definition dump_ftl_state :: "nat \<Rightarrow> conv_ns \<Rightarrow> bytes option" where
  "dump_ftl_state pad ns = do {
     f \<leftarrow> array_read (cn_ftls ns) 0;
     let spp = cf_sp f;
     parts \<leftarrow> write_all (\<lambda>q. do { f \<leftarrow> array_read (cn_ftls ns) q; dump_part f }) [0..<cn_nr_parts ns];
     Some (kernel_write (le_bytes 4 (cn_nr_parts ns) @ le_bytes 4 pad @ le_bytes 8 (tt_pgs spp) @ le_bytes 4 (lm_tt_lines (cf_lm f)) @
       le_bytes 4 (nchs spp) @ le_bytes 4 (luns_per_ch spp) @ le_bytes 4 pad) @ parts)
   }"

end
