(* ===== verification/Save_Load_Proof.thy ===== *)
theory Save_Load_Proof
  imports Save_Load
begin

text \<open>
  Reading what was written, from the pages of the flash arrays up to a whole partition: each writer is shown to produce the
  bytes its reader takes, and the loops follow.
\<close>

section \<open>Flash pages and blocks\<close>

lemma write_all_Some: "(\<And>x. x \<in> set xs \<Longrightarrow> f x = Some (g x)) \<Longrightarrow> write_all f xs = Some (concat (map g xs))"
  by (induction xs) simp_all

definition pg_valid :: "nand_page \<Rightarrow> bool" where
  "pg_valid p \<longleftrightarrow> pg_nsecs p = length (pg_sec p) \<and> 4 * pg_nsecs p \<le> MAX_RW_COUNT"

definition pg_enc :: "nand_page \<Rightarrow> bytes" where
  "pg_enc p = write_int (int (pg_nsecs p)) @ write_int (status_code (pg_status p)) @ write_array status_bytes (pg_sec p)"

lemma read_write_status: "read_status (write_int (status_code s) @ rest) = Some (s, rest)"
  unfolding read_status_def by (cases s) (simp_all add: read_write_int is_int_def code_status_def)

interpretation pg_codec: codec pg_enc ssd_read_pg pg_valid
proof
  fix p :: nand_page and rest :: bytes
  assume v: "pg_valid p"
  have n: "pg_nsecs p = length (pg_sec p)" using v by (simp add: pg_valid_def)
  have i: "is_int (int (length (pg_sec p)))" using v by (simp add: pg_valid_def is_int_def MAX_RW_COUNT_def)
  have s: "read_array 4 bytes_status (length (pg_sec p)) (write_array status_bytes (pg_sec p) @ rest) = Some (pg_sec p, rest)"
    using v by (intro status_codec.read_write_array) (simp_all add: pg_valid_def)
  show "ssd_read_pg (pg_enc p @ rest) = Some (p, rest)"
    using s by (cases p) (use n i in \<open>simp add: ssd_read_pg_def pg_enc_def read_write_int read_write_status\<close>)
qed

lemma ssd_write_pg_enc: "pg_valid p \<Longrightarrow> ssd_write_pg p = Some (pg_enc p)"
  by (simp add: ssd_write_pg_def pg_enc_def pg_valid_def)

definition blk_valid :: "nand_block \<Rightarrow> bool" where
  "blk_valid b \<longleftrightarrow> b_npgs b = length (b_pg b) \<and> is_int (int (b_npgs b)) \<and> is_int (b_ipc b) \<and> is_int (b_vpc b) \<and>
     is_int (b_erase_cnt b) \<and> is_int (b_wp b) \<and> (\<forall>p\<in>set (b_pg b). pg_valid p)"

definition blk_enc :: "nand_block \<Rightarrow> bytes" where
  "blk_enc b = write_int (int (b_npgs b)) @ write_int (b_ipc b) @ write_int (b_vpc b) @ write_int (b_erase_cnt b) @ write_int (b_wp b) @
     concat (map pg_enc (b_pg b))"

lemma ssd_write_blk_enc:
  assumes "blk_valid b"
  shows "ssd_write_blk b = Some (blk_enc b)"
proof -
  have "write_all ssd_write_pg (b_pg b) = Some (concat (map pg_enc (b_pg b)))"
    using assms by (intro write_all_Some) (simp add: blk_valid_def ssd_write_pg_enc)
  then show ?thesis using assms by (simp add: ssd_write_blk_def blk_enc_def blk_valid_def)
qed

lemma ssd_read_blk_enc:
  assumes v: "blk_valid b" and len: "length (b_pg old) = b_npgs b"
  shows "ssd_read_blk old (blk_enc b @ rest) = Some (b, rest)"
proof -
  have "read_list (length (b_pg b)) ssd_read_pg (concat (map pg_enc (b_pg b)) @ rest) = Some (b_pg b, rest)"
    using v by (intro pg_codec.read_list_enc) (simp add: blk_valid_def)
  moreover have n: "b_npgs b = length (b_pg b)" "is_int (int (length (b_pg b)))" "is_int (b_ipc b)" "is_int (b_vpc b)"
    "is_int (b_erase_cnt b)" "is_int (b_wp b)" using v by (auto simp: blk_valid_def)
  ultimately show ?thesis using len by (cases b) (simp add: ssd_read_blk_def blk_enc_def read_write_int)
qed

section \<open>The loops over the flash arrays\<close>

definition put_blks :: "ssd \<Rightarrow> (blk_addr \<Rightarrow> nand_block) \<Rightarrow> blk_addr set \<Rightarrow> ssd" where
  "put_blks s B A = s\<lparr>ssd_blk := (\<lambda>a. if a \<in> A then B a else ssd_blk s a)\<rparr>"

lemma put_blks_sel [simp]:
  "ssd_sp (put_blks s B A) = ssd_sp s" "ssd_ch (put_blks s B A) = ssd_ch s" "ssd_lun (put_blks s B A) = ssd_lun s"
  "ssd_blk (put_blks s B A) a = (if a \<in> A then B a else ssd_blk s a)"
  by (simp_all add: put_blks_def)

lemma put_blks_simps [simp]:
  "put_blks s B {} = s" "put_blks (put_blks s B A1) B A2 = put_blks s B (A1 \<union> A2)"
  by (simp_all add: put_blks_def fun_eq_iff)

text \<open>The blocks of the geometry that the fields of the arrays give, and a device whose arrays have room for them.\<close>

definition chip_blks :: "ssd \<Rightarrow> blk_addr set" where
  "chip_blks s = {(ch, lun, pl, blk). ch < nchs (ssd_sp s) \<and> lun < c_nluns (ssd_ch s ch) \<and> pl < l_npls (ssd_lun s (ch, lun)) \<and>
     blk < blks_per_pl (ssd_sp s)}"

text \<open>An array of the same structure, whose blocks have room for the pages; the times of channels and dies may differ.\<close>

definition roomy :: "ssd \<Rightarrow> (blk_addr \<Rightarrow> nand_block) \<Rightarrow> ssd \<Rightarrow> bool" where
  "roomy t B s \<longleftrightarrow> ssd_sp s = ssd_sp t \<and> (\<forall>ch. c_nluns (ssd_ch s ch) = c_nluns (ssd_ch t ch)) \<and>
     (\<forall>k. l_npls (ssd_lun s k) = l_npls (ssd_lun t k)) \<and>
     (\<forall>a\<in>chip_blks t. length (b_pg (ssd_blk s a)) = b_npgs (B a))"

lemma roomy_put:
  assumes "roomy t B s" "\<forall>a\<in>chip_blks t. blk_valid (B a)"
  shows "roomy t B (put_blks s B A)"
  using assms by (auto simp: roomy_def blk_valid_def)

lemma foldM_put:
  assumes step: "\<And>x s rest. x \<in> set xs \<Longrightarrow> roomy t B s \<Longrightarrow> f x (s, e x @ rest) = Some (put_blks s B (A x), rest)"
    and valid: "\<forall>a\<in>chip_blks t. blk_valid (B a)" and room: "roomy t B s"
  shows "foldM f xs (s, concat (map e xs) @ rest) = Some (put_blks s B (\<Union>x\<in>set xs. A x), rest)"
  using step room
proof (induction xs arbitrary: s)
  case (Cons x xs)
  have "f x (s, e x @ concat (map e xs) @ rest) = Some (put_blks s B (A x), concat (map e xs) @ rest)" using Cons.prems by simp
  moreover have "foldM f xs (put_blks s B (A x), concat (map e xs) @ rest) = Some (put_blks (put_blks s B (A x)) B (\<Union>x\<in>set xs. A x), rest)"
    using Cons.prems roomy_put[OF Cons.prems(2) valid] by (intro Cons.IH) simp_all
  ultimately show ?case by simp
qed simp

definition pl_enc :: "ssd \<Rightarrow> nat \<Rightarrow> nat \<Rightarrow> nat \<Rightarrow> bytes" where
  "pl_enc t ch lun pl = concat (map (\<lambda>blk. blk_enc (ssd_blk t (ch, lun, pl, blk))) [0..<blks_per_pl (ssd_sp t)])"

definition lun_enc :: "ssd \<Rightarrow> nat \<Rightarrow> nat \<Rightarrow> bytes" where
  "lun_enc t ch lun = concat (map (pl_enc t ch lun) [0..<l_npls (ssd_lun t (ch, lun))])"

definition ch_enc :: "ssd \<Rightarrow> nat \<Rightarrow> bytes" where
  "ch_enc t ch = concat (map (lun_enc t ch) [0..<c_nluns (ssd_ch t ch)])"

lemma pl_in:
  assumes valid: "\<forall>a\<in>chip_blks t. blk_valid (ssd_blk t a)"
    and geo: "ch < nchs (ssd_sp t)" "lun < c_nluns (ssd_ch t ch)" "pl < l_npls (ssd_lun t (ch, lun))"
  shows "ssd_write_pl t ch lun pl = Some (pl_enc t ch lun pl)"
    "roomy t (ssd_blk t) s \<Longrightarrow> ssd_read_pl ch lun pl (s, pl_enc t ch lun pl @ rest) =
      Some (put_blks s (ssd_blk t) {(ch, lun, pl, blk) | blk. blk < blks_per_pl (ssd_sp t)}, rest)"
proof -
  have a: "(ch, lun, pl, blk) \<in> chip_blks t" if "blk < blks_per_pl (ssd_sp t)" for blk using geo that by (simp add: chip_blks_def)
  show "ssd_write_pl t ch lun pl = Some (pl_enc t ch lun pl)"
    unfolding ssd_write_pl_def pl_enc_def using a valid by (intro write_all_Some ssd_write_blk_enc) simp
  assume room: "roomy t (ssd_blk t) s"
  have "(\<Union>blk\<in>set [0..<blks_per_pl (ssd_sp t)]. {(ch, lun, pl, blk)}) = {(ch, lun, pl, blk) | blk. blk < blks_per_pl (ssd_sp t)}" by auto
  moreover have "foldM (\<lambda>blk (s, file). do {
       (b, file) \<leftarrow> ssd_read_blk (ssd_blk s (ch, lun, pl, blk)) file;
       Some (s\<lparr>ssd_blk := (ssd_blk s)((ch, lun, pl, blk) := b)\<rparr>, file)
     }) [0..<blks_per_pl (ssd_sp t)] (s, pl_enc t ch lun pl @ rest) =
      Some (put_blks s (ssd_blk t) (\<Union>blk\<in>set [0..<blks_per_pl (ssd_sp t)]. {(ch, lun, pl, blk)}), rest)"
    unfolding pl_enc_def
  proof (rule foldM_put[OF _ valid room])
    fix blk s rest assume "blk \<in> set [0..<blks_per_pl (ssd_sp t)]" "roomy t (ssd_blk t) s"
    then have "blk_valid (ssd_blk t (ch, lun, pl, blk))" "length (b_pg (ssd_blk s (ch, lun, pl, blk))) = b_npgs (ssd_blk t (ch, lun, pl, blk))"
      using a valid by (auto simp: roomy_def)
    then show "(case (s, blk_enc (ssd_blk t (ch, lun, pl, blk)) @ rest) of (s, file) \<Rightarrow> do {
        (b, file) \<leftarrow> ssd_read_blk (ssd_blk s (ch, lun, pl, blk)) file;
        Some (s\<lparr>ssd_blk := (ssd_blk s)((ch, lun, pl, blk) := b)\<rparr>, file) }) = Some (put_blks s (ssd_blk t) {(ch, lun, pl, blk)}, rest)"
      by (auto simp: ssd_read_blk_enc put_blks_def fun_eq_iff)
  qed
  ultimately show "ssd_read_pl ch lun pl (s, pl_enc t ch lun pl @ rest) =
      Some (put_blks s (ssd_blk t) {(ch, lun, pl, blk) | blk. blk < blks_per_pl (ssd_sp t)}, rest)"
    using room by (simp add: ssd_read_pl_def roomy_def)
qed

definition pl_blks :: "ssd \<Rightarrow> nat \<Rightarrow> nat \<Rightarrow> nat \<Rightarrow> blk_addr set" where
  "pl_blks t ch lun pl = {(ch, lun, pl, blk) | blk. blk < blks_per_pl (ssd_sp t)}"

definition lun_blks :: "ssd \<Rightarrow> nat \<Rightarrow> nat \<Rightarrow> blk_addr set" where
  "lun_blks t ch lun = (\<Union>pl\<in>set [0..<l_npls (ssd_lun t (ch, lun))]. pl_blks t ch lun pl)"

definition ch_blks :: "ssd \<Rightarrow> nat \<Rightarrow> blk_addr set" where
  "ch_blks t ch = (\<Union>lun\<in>set [0..<c_nluns (ssd_ch t ch)]. lun_blks t ch lun)"

lemma lun_in:
  assumes valid: "\<forall>a\<in>chip_blks t. blk_valid (ssd_blk t a)" and geo: "ch < nchs (ssd_sp t)" "lun < c_nluns (ssd_ch t ch)"
  shows "ssd_write_lun t ch lun = Some (lun_enc t ch lun)"
    "roomy t (ssd_blk t) s \<Longrightarrow> ssd_read_lun ch lun (s, lun_enc t ch lun @ rest) = Some (put_blks s (ssd_blk t) (lun_blks t ch lun), rest)"
proof -
  note pl = pl_in[OF valid geo, folded pl_blks_def]
  show "ssd_write_lun t ch lun = Some (lun_enc t ch lun)"
    unfolding ssd_write_lun_def lun_enc_def using pl(1) by (intro write_all_Some) simp
  assume room: "roomy t (ssd_blk t) s"
  have "l_npls (ssd_lun s (ch, lun)) = l_npls (ssd_lun t (ch, lun))" using room by (simp add: roomy_def)
  moreover have "foldM (ssd_read_pl ch lun) [0..<l_npls (ssd_lun t (ch, lun))] (s, lun_enc t ch lun @ rest) =
      Some (put_blks s (ssd_blk t) (lun_blks t ch lun), rest)"
    unfolding lun_enc_def lun_blks_def by (rule foldM_put[OF _ valid room]) (simp add: pl(2))
  ultimately show "ssd_read_lun ch lun (s, lun_enc t ch lun @ rest) = Some (put_blks s (ssd_blk t) (lun_blks t ch lun), rest)"
    by (simp add: ssd_read_lun_def)
qed

lemma ch_in:
  assumes valid: "\<forall>a\<in>chip_blks t. blk_valid (ssd_blk t a)" and geo: "ch < nchs (ssd_sp t)"
  shows "ssd_write_ch t ch = Some (ch_enc t ch)"
    "roomy t (ssd_blk t) s \<Longrightarrow> ssd_read_ch ch (s, ch_enc t ch @ rest) = Some (put_blks s (ssd_blk t) (ch_blks t ch), rest)"
proof -
  note lun = lun_in[OF valid geo]
  show "ssd_write_ch t ch = Some (ch_enc t ch)"
    unfolding ssd_write_ch_def ch_enc_def using lun(1) by (intro write_all_Some) simp
  assume room: "roomy t (ssd_blk t) s"
  have "c_nluns (ssd_ch s ch) = c_nluns (ssd_ch t ch)" using room by (simp add: roomy_def)
  moreover have "foldM (ssd_read_lun ch) [0..<c_nluns (ssd_ch t ch)] (s, ch_enc t ch @ rest) =
      Some (put_blks s (ssd_blk t) (ch_blks t ch), rest)"
    unfolding ch_enc_def ch_blks_def by (rule foldM_put[OF _ valid room]) (simp add: lun(2))
  ultimately show "ssd_read_ch ch (s, ch_enc t ch @ rest) = Some (put_blks s (ssd_blk t) (ch_blks t ch), rest)"
    by (simp add: ssd_read_ch_def)
qed

definition flash_enc :: "ssd \<Rightarrow> bytes" where
  "flash_enc t = concat (map (ch_enc t) [0..<nchs (ssd_sp t)])"

lemma flash_in:
  assumes valid: "\<forall>a\<in>chip_blks t. blk_valid (ssd_blk t a)"
  shows "write_all (ssd_write_ch t) [0..<nchs (ssd_sp t)] = Some (flash_enc t)"
    "roomy t (ssd_blk t) s \<Longrightarrow> foldM ssd_read_ch [0..<nchs (ssd_sp t)] (s, flash_enc t @ rest) = Some (put_blks s (ssd_blk t) (chip_blks t), rest)"
proof -
  note ch = ch_in[OF valid]
  show "write_all (ssd_write_ch t) [0..<nchs (ssd_sp t)] = Some (flash_enc t)"
    unfolding flash_enc_def using ch(1) by (intro write_all_Some) simp
  assume room: "roomy t (ssd_blk t) s"
  have "(\<Union>ch\<in>set [0..<nchs (ssd_sp t)]. ch_blks t ch) = chip_blks t"
    by (auto simp: ch_blks_def lun_blks_def pl_blks_def chip_blks_def)
  then show "foldM ssd_read_ch [0..<nchs (ssd_sp t)] (s, flash_enc t @ rest) = Some (put_blks s (ssd_blk t) (chip_blks t), rest)"
    unfolding flash_enc_def using foldM_put[OF _ valid room, of "[0..<nchs (ssd_sp t)]" ssd_read_ch "ch_enc t" "ch_blks t" rest]
    by (simp add: ch(2))
qed

section \<open>Write pointers and lines\<close>

definition wp_valid :: "write_pointer \<Rightarrow> bool" where
  "wp_valid w \<longleftrightarrow> wp_ch w < 2 ^ 32 \<and> wp_lun w < 2 ^ 32 \<and> wp_pg w < 2 ^ 32 \<and> wp_blk w < 2 ^ 32 \<and> wp_pl w < 2 ^ 32"

lemma read_write_wp:
  assumes "wp_valid w"
  shows "read_wp (write_wp addr pad w @ rest) = Some (w\<lparr>wp_curline := 0\<rparr>, rest)"
proof -
  let ?bs = "le_bytes 8 (addr (wp_curline w)) @ le_bytes 4 (wp_ch w) @ le_bytes 4 (wp_lun w) @
     le_bytes 4 (wp_pg w) @ le_bytes 4 (wp_blk w) @ le_bytes 4 (wp_pl w) @ le_bytes 4 pad"
  have "write_wp addr pad w = ?bs" by (simp add: write_wp_def MAX_RW_COUNT_def)
  moreover have "read_full 32 (?bs @ rest) = Some (?bs, rest)" by (intro read_full_append) (simp_all add: MAX_RW_COUNT_def)
  moreover have "take 4 (drop 8 ?bs) = le_bytes 4 (wp_ch w)" "take 4 (drop 12 ?bs) = le_bytes 4 (wp_lun w)"
    "take 4 (drop 16 ?bs) = le_bytes 4 (wp_pg w)" "take 4 (drop 20 ?bs) = le_bytes 4 (wp_blk w)" "take 4 (drop 24 ?bs) = le_bytes 4 (wp_pl w)"
    by simp_all
  moreover have "le_number (le_bytes 4 v) = v" if "v < 2 ^ 32" for v using that by (simp add: le_number_le_bytes)
  ultimately show ?thesis using assms by (cases w) (simp add: read_wp_def wp_valid_def del: append_assoc drop_append take_append)
qed

definition line_valid :: "line \<Rightarrow> bool" where
  "line_valid l \<longleftrightarrow> is_int (int (ln_id l)) \<and> is_int (ln_ipc l) \<and> is_int (ln_vpc l) \<and> ln_pos l < 2 ^ 31"

lemma low_half:
  assumes "v < 2 ^ 31"
  shows "bytes_int (take 4 (le_bytes 8 v)) = int v"
proof -
  have "take 4 (le_bytes 8 v) = le_bytes 4 v" by (simp add: le_bytes_def take_map)
  then show ?thesis using assms by (simp add: bytes_int_def le_number_le_bytes)
qed

interpretation line_codec: codec write_line "read_line (4 + k)" line_valid for k
proof
  fix l :: line and rest :: bytes
  assume "line_valid l"
  then have v: "is_int (int (ln_id l))" "is_int (ln_ipc l)" "is_int (ln_vpc l)" "ln_pos l < 2 ^ 31" by (simp_all add: line_valid_def)
  have "read_full 8 (write_nat 8 (ln_pos l) @ rest) = Some (le_bytes 8 (ln_pos l), rest)"
    by (simp add: write_nat_def MAX_RW_COUNT_def)
  moreover have "length (le_bytes 8 (ln_pos l)) \<le> 4 + (4 + k)" by simp
  moreover have "nat (bytes_int (take 4 (le_bytes 8 (ln_pos l))) mod 2 ^ 64) = ln_pos l"
    using v(4) unfolding low_half[OF v(4)] by simp
  ultimately show "read_line (4 + k) (write_line l @ rest) = Some (l, rest)"
    using v by (cases l) (simp add: read_line_def write_line_def read_write_int del: One_nat_def)
qed

text \<open>Lines that carry their index as identifier are found by it.\<close>

lemma find_line_id:
  assumes "\<forall>i<n. ln_id (lines ! i) = i" "w < n"
  shows "find_line lines n (int w) = Some w"
proof -
  have "find (\<lambda>i. int (ln_id (lines ! i)) = int w) [0..<n] = Some w"
    unfolding find_Some_iff using assms by (intro exI[of _ w]) auto
  then show ?thesis by (simp add: find_line_def)
qed

lemma find_lines_ids:
  assumes "\<forall>i<n. ln_id (lines ! i) = i" "\<forall>w\<in>set ws. w < n"
  shows "find_lines lines n (map int ws) = ws"
  using assms(2) find_line_id[OF assms(1)] unfolding find_lines_def by (induction ws) (simp_all add: map_filter_simps)

lemma load_victims_ok:
  assumes "\<forall>i<length ws. find_line lines n (lids ! i) = Some (ws ! i)" "length lids = length ws" "length ws < length (pq_d q)"
  shows "\<exists>d. load_victims lines n lids q = Some (q\<lparr>pq_d := d\<rparr>) \<and> length d = length (pq_d q) \<and> (\<forall>i<length ws. d ! (i + 1) = ws ! i)"
proof -
  have "\<exists>d. foldM (\<lambda>i q. case find_line lines n (lids ! i) of None \<Rightarrow> Some q | Some w \<Rightarrow> pqueue_change_data q (i + 1) w) [0..<k] q =
      Some (q\<lparr>pq_d := d\<rparr>) \<and> length d = length (pq_d q) \<and> (\<forall>i<k. d ! (i + 1) = ws ! i)" if "k \<le> length ws" for k
    using that
  proof (induction k)
    case 0
    then show ?case by (intro exI[of _ "pq_d q"]) simp
  next
    case (Suc k)
    then obtain d where d: "foldM (\<lambda>i q. case find_line lines n (lids ! i) of None \<Rightarrow> Some q | Some w \<Rightarrow> pqueue_change_data q (i + 1) w) [0..<k] q =
      Some (q\<lparr>pq_d := d\<rparr>)" "length d = length (pq_d q)" "\<forall>i<k. d ! (i + 1) = ws ! i" by auto
    have "pqueue_change_data (q\<lparr>pq_d := d\<rparr>) (k + 1) (ws ! k) = Some (q\<lparr>pq_d := d[k + 1 := ws ! k]\<rparr>)"
      using Suc.prems assms(3) d(2) by (simp add: pqueue_change_data_def)
    then have "foldM (\<lambda>i q. case find_line lines n (lids ! i) of None \<Rightarrow> Some q | Some w \<Rightarrow> pqueue_change_data q (i + 1) w) [0..<Suc k] q =
      Some (q\<lparr>pq_d := d[k + 1 := ws ! k]\<rparr>)"
      using d(1) assms(1) Suc.prems by (simp add: foldM_append)
    moreover have "\<forall>i<Suc k. d[k + 1 := ws ! k] ! (i + 1) = ws ! i"
      using d(2,3) Suc.prems assms(3) by (auto simp: nth_list_update less_Suc_eq)
    ultimately show ?case using d(2) by (intro exI[of _ "d[k + 1 := ws ! k]"]) simp
  qed
  from this[of "length ws"] show ?thesis using assms(2) by (simp add: load_victims_def)
qed

section \<open>The line management\<close>

definition lm_valid :: "nat \<Rightarrow> line_mgmt \<Rightarrow> bool" where
  "lm_valid n lm \<longleftrightarrow> lm_tt_lines lm = n \<and> length (lm_lines lm) = n \<and> 4 * n \<le> MAX_RW_COUNT \<and>
     (\<forall>i<n. ln_id (lm_lines lm ! i) = i) \<and> (\<forall>l\<in>set (lm_lines lm). line_valid l) \<and>
     lm_free_cnt lm = length (lm_free lm) \<and> lm_full_cnt lm = length (lm_full lm) \<and> length (lm_free lm) \<le> n \<and> length (lm_full lm) \<le> n \<and>
     lm_victim_cnt lm \<le> n \<and> (\<forall>w\<in>set (lm_free lm) \<union> set (lm_full lm). w < n) \<and> lm_victim_cnt lm < length (pq_d (lm_victim_pq lm)) \<and>
     (\<forall>i<lm_victim_cnt lm. pq_d (lm_victim_pq lm) ! (i + 1) < n) \<and>
     pq_size (lm_victim_pq lm) < 2 ^ 64 \<and> pq_avail (lm_victim_pq lm) < 2 ^ 64 \<and> pq_step (lm_victim_pq lm) < 2 ^ 64"

definition victim_lines :: "line_mgmt \<Rightarrow> nat list" where
  "victim_lines lm = map (\<lambda>i. pq_d (lm_victim_pq lm) ! (i + 1)) [0..<lm_victim_cnt lm]"

definition ids_enc :: "nat list \<Rightarrow> bytes" where
  "ids_enc ws = concat (map int_bytes (map int ws))"

lemma write_int_enc: "write_int v = int_bytes v"
  by (simp add: write_int_def MAX_RW_COUNT_def)

lemma write_line_ids:
  assumes "\<forall>i<n. ln_id (lines ! i) = i" "length lines = n" "\<forall>w\<in>set ws. w < n"
  shows "write_all (write_line_id lines) ws = Some (ids_enc ws)"
proof -
  have "write_all (write_line_id lines) ws = Some (concat (map (\<lambda>w. int_bytes (int w)) ws))"
    using assms by (intro write_all_Some) (simp add: write_line_id_def write_int_enc)
  then show ?thesis by (simp add: ids_enc_def comp_def)
qed

lemma read_ids:
  assumes "\<forall>w\<in>set ws. w < n" "4 * n \<le> MAX_RW_COUNT" "length ws \<le> n"
  shows "read_array 4 bytes_int (length ws) (ids_enc ws @ rest) = Some (map int ws, rest)"
proof -
  have "\<forall>v\<in>set (map int ws). is_int v" using assms(1,2) by (auto simp: is_int_def MAX_RW_COUNT_def)
  moreover have "4 * length (map int ws) \<le> MAX_RW_COUNT" using assms(2,3) by simp
  ultimately show ?thesis using id_codec.read_concat[of "map int ws" rest] by (simp add: ids_enc_def)
qed

definition lm_enc :: "line_mgmt \<Rightarrow> bytes" where
  "lm_enc lm = write_nat 4 (lm_tt_lines lm) @ write_nat 4 (lm_free_cnt lm) @ write_nat 4 (lm_victim_cnt lm) @ write_nat 4 (lm_full_cnt lm) @
     concat (map write_line (lm_lines lm)) @
     write_nat 8 (pq_size (lm_victim_pq lm)) @ write_nat 8 (pq_avail (lm_victim_pq lm)) @ write_nat 8 (pq_step (lm_victim_pq lm)) @
     ids_enc (victim_lines lm) @ ids_enc (lm_free lm) @ ids_enc (lm_full lm)"

lemma save_lines_enc:
  assumes v: "lm_valid n lm"
  shows "save_lines lm = Some (lm_enc lm)"
proof -
  have b: "\<forall>i<n. ln_id (lm_lines lm ! i) = i" "length (lm_lines lm) = n" "lm_tt_lines lm = n" using v by (simp_all add: lm_valid_def)
  let ?f = "\<lambda>i. do { w \<leftarrow> array_read (pq_d (lm_victim_pq lm)) i; write_line_id (lm_lines lm) w }"
  have "write_all ?f [1..<lm_victim_cnt lm + 1] = Some (concat (map (\<lambda>i. int_bytes (int (pq_d (lm_victim_pq lm) ! i))) [1..<lm_victim_cnt lm + 1]))"
  proof (rule write_all_Some)
    fix i assume "i \<in> set [1..<lm_victim_cnt lm + 1]"
    then have "1 \<le> i" "i < lm_victim_cnt lm + 1" by (simp_all only: set_upt atLeastLessThan_iff)
    then obtain k where k: "i = k + 1" "k < lm_victim_cnt lm" by (cases i) simp_all
    then have "i < length (pq_d (lm_victim_pq lm))" "pq_d (lm_victim_pq lm) ! i < n" using v by (auto simp: lm_valid_def)
    then show "?f i = Some (int_bytes (int (pq_d (lm_victim_pq lm) ! i)))" using b by (simp add: write_line_id_def write_int_enc)
  qed
  also have "concat (map (\<lambda>i. int_bytes (int (pq_d (lm_victim_pq lm) ! i))) [1..<lm_victim_cnt lm + 1]) = ids_enc (victim_lines lm)"
    by (simp add: ids_enc_def victim_lines_def comp_def map_Suc_upt[symmetric] del: map_Suc_upt upt_Suc)
  finally have "write_all ?f [1..<lm_victim_cnt lm + 1] = Some (ids_enc (victim_lines lm))" .
  moreover have "write_all (write_line_id (lm_lines lm)) (lm_free lm) = Some (ids_enc (lm_free lm))"
    "write_all (write_line_id (lm_lines lm)) (lm_full lm) = Some (ids_enc (lm_full lm))"
    using v by (auto intro!: write_line_ids[OF b(1,2)] simp: lm_valid_def)
  ultimately show ?thesis using b by (simp add: save_lines_def lm_enc_def del: upt_Suc)
qed

lemma load_lines_enc:
  assumes v: "lm_valid n lm" and room: "lm_victim_cnt lm < length d0" and spare: "4 \<le> spare"
  shows "\<exists>d. load_lines spare m (Some d0) (lm_enc lm @ rest) = Some (lm\<lparr>lm_victim_pq := \<lparr>pq_size = pq_size (lm_victim_pq lm),
      pq_avail = pq_avail (lm_victim_pq lm), pq_step = pq_step (lm_victim_pq lm), pq_ops = victim_ops, pq_d = d\<rparr>\<rparr>, rest) \<and>
    length d = length d0 \<and> (\<forall>i<lm_victim_cnt lm. d ! (i + 1) = pq_d (lm_victim_pq lm) ! (i + 1))"
proof -
  have b: "\<forall>i<n. ln_id (lm_lines lm ! i) = i" "length (lm_lines lm) = n" "lm_tt_lines lm = n" "4 * n \<le> MAX_RW_COUNT"
    "\<forall>l\<in>set (lm_lines lm). line_valid l" "lm_free_cnt lm = length (lm_free lm)" "lm_full_cnt lm = length (lm_full lm)"
    "length (lm_free lm) \<le> n" "length (lm_full lm) \<le> n" "lm_victim_cnt lm \<le> n" "\<forall>w\<in>set (lm_free lm). w < n" "\<forall>w\<in>set (lm_full lm). w < n"
    "\<forall>i<lm_victim_cnt lm. pq_d (lm_victim_pq lm) ! (i + 1) < n"
    "pq_size (lm_victim_pq lm) < 2 ^ 64" "pq_avail (lm_victim_pq lm) < 2 ^ 64" "pq_step (lm_victim_pq lm) < 2 ^ 64"
    using v by (auto simp: lm_valid_def)
  have n32: "n < 2 ^ 32" using b(4) by (simp add: MAX_RW_COUNT_def)
  have nat4: "read_nat 4 (write_nat 4 k @ r) = Some (k, r)" if "k \<le> n" for k r
    using that n32 by (intro read_write_nat) (simp_all add: MAX_RW_COUNT_def)
  have nat8: "read_nat 8 (write_nat 8 k @ r) = Some (k, r)" if "k < 2 ^ 64" for k r
    using that by (intro read_write_nat) (simp_all add: MAX_RW_COUNT_def)
  obtain k where k: "spare = 4 + k" using spare le_iff_add by blast
  have lines: "read_list n (read_line spare) (concat (map write_line (lm_lines lm)) @ r) = Some (lm_lines lm, r)" for r
    using line_codec.read_list_enc[OF b(5), of k r] b(2) unfolding k by simp
  let ?vs = "victim_lines lm"
  have vs: "length ?vs = lm_victim_cnt lm" "\<forall>w\<in>set ?vs. w < n" "\<forall>i<lm_victim_cnt lm. ?vs ! i = pq_d (lm_victim_pq lm) ! (i + 1)"
    using b(13) by (auto simp: victim_lines_def)
  have rv: "read_array 4 bytes_int (lm_victim_cnt lm) (ids_enc ?vs @ r) = Some (map int ?vs, r)" for r
    using read_ids[OF vs(2) b(4), of r] vs(1) b(10) by simp
  have rf: "read_array 4 bytes_int (length (lm_free lm)) (ids_enc (lm_free lm) @ r) = Some (map int (lm_free lm), r)"
    "read_array 4 bytes_int (length (lm_full lm)) (ids_enc (lm_full lm) @ r) = Some (map int (lm_full lm), r)" for r
    using read_ids[OF b(11,4,8)] read_ids[OF b(12,4,9)] by blast+
  let ?q = "\<lparr>pq_size = pq_size (lm_victim_pq lm), pq_avail = pq_avail (lm_victim_pq lm), pq_step = pq_step (lm_victim_pq lm),
    pq_ops = victim_ops, pq_d = d0\<rparr>"
  have "\<forall>i<length ?vs. find_line (lm_lines lm) n (map int ?vs ! i) = Some (?vs ! i)"
    using find_line_id[OF b(1)] vs(2) by simp
  then obtain d where d: "load_victims (lm_lines lm) n (map int ?vs) ?q = Some (?q\<lparr>pq_d := d\<rparr>)" "length d = length d0"
    "\<forall>i<length ?vs. d ! (i + 1) = ?vs ! i"
    using load_victims_ok[of ?vs "lm_lines lm" n "map int ?vs" ?q] room vs(1) by auto
  have "load_lines spare m (Some d0) (lm_enc lm @ rest) = Some (lm\<lparr>lm_victim_pq := ?q\<lparr>pq_d := d\<rparr>\<rparr>, rest)"
    using b(3,6-10) d(1)
    by (simp add: load_lines_def lm_enc_def nat4 nat8[OF b(14)] nat8[OF b(15)] nat8[OF b(16)] lines pqueue_init_def rv rf
      find_lines_ids[OF b(1,11)] find_lines_ids[OF b(1,12)])
  then show ?thesis using d(2,3) vs(1,3) by auto
qed

section \<open>The contents of the pages\<close>

lemma load_page_full:
  assumes "length bs = PAGE_SIZE"
  shows "load_page a 0 (m, bs @ rest) = Some (write_bytes m a bs, rest)"
proof -
  have "kernel_read PAGE_SIZE (bs @ rest) = (bs, rest)" using assms by (simp add: kernel_read_def MAX_RW_COUNT_def)
  then have "load_page a 0 (m, bs @ rest) = load_page a PAGE_SIZE (write_bytes m a bs, rest)"
    using assms by (subst load_page.simps) simp
  then show ?thesis by (subst (asm) (2) load_page.simps) simp
qed

text \<open>The file ends inside a page.\<close>

lemma load_page_stuck: "load_page a cur mf = Some r \<Longrightarrow> cur < PAGE_SIZE \<Longrightarrow> snd mf = [] \<Longrightarrow> False"
proof (induction rule: load_page.raw_induct[rotated 1, consumes 1])
  case (1 load_page a cur mf r)
  have "load_page a cur (write_bytes (fst mf) (a + cur) [], []) = Some r" using 1(2-4) by (simp add: kernel_read_def)
  then show ?case using 1(1) 1(3) by fastforce
qed

lemma load_page_short:
  assumes "length bs < PAGE_SIZE"
  shows "load_page a 0 (m, bs) = None"
proof -
  have "kernel_read PAGE_SIZE bs = (bs, [])" using assms by (simp add: kernel_read_def MAX_RW_COUNT_def)
  then have "load_page a 0 (m, bs) = load_page a (length bs) (write_bytes m a bs, [])"
    by (subst load_page.simps) simp
  moreover have "load_page a (length bs) (write_bytes m a bs, []) \<noteq> Some r" for r
    using load_page_stuck[of a "length bs" "(write_bytes m a bs, [])" r] assms by auto
  ultimately show ?thesis by (simp add: not_Some_eq[symmetric] del: not_Some_eq)
qed

text \<open>Copying the pages that \<open>P\<close> names, by their offset in the storage.\<close>

definition storage_copied :: "nat \<Rightarrow> memory \<Rightarrow> nat \<Rightarrow> (nat \<Rightarrow> bool) \<Rightarrow> memory \<Rightarrow> memory \<Rightarrow> bool" where
  "storage_copied b0 src b1 P m m' \<longleftrightarrow> (\<forall>x. m' x = (if b1 \<le> x \<and> P (x - b1) then src (x - b1 + b0) else m x))"

lemma storage_copied_none [simp]: "storage_copied b0 src b1 (\<lambda>_. False) m m"
  by (simp add: storage_copied_def)

lemma storage_copied_trans:
  assumes "storage_copied b0 src b1 P m m1" "storage_copied b0 src b1 Q m1 m2"
  shows "storage_copied b0 src b1 (\<lambda>x. P x \<or> Q x) m m2"
  using assms by (auto simp: storage_copied_def)

lemma storage_copied_page:
  "storage_copied b0 src b1 (\<lambda>x. off \<le> x \<and> x < off + n) m (write_bytes m (b1 + off) (read_bytes src (b0 + off) n))"
  unfolding storage_copied_def
proof
  fix x
  show "write_bytes m (b1 + off) (read_bytes src (b0 + off) n) x =
      (if b1 \<le> x \<and> (off \<le> x - b1 \<and> x - b1 < off + n) then src (x - b1 + b0) else m x)"
  proof (cases "b1 + off \<le> x \<and> x < b1 + off + n")
    case True
    then have "b0 + off + (x - (b1 + off)) = x - b1 + b0" by simp
    then show ?thesis using True by (auto simp: write_bytes_def read_bytes_def)
  next
    case False
    then show ?thesis by (auto simp: write_bytes_def read_bytes_def)
  qed
qed

definition page_off :: "nat \<Rightarrow> nat \<Rightarrow> nat \<Rightarrow> nat" where
  "page_off np q lpn = (lpn * np + q) * 4096"

lemma page_data_off: "page_data base np q lpn = base + page_off np q lpn"
  by (simp add: page_data_def page_off_def)

definition in_pages :: "nat \<Rightarrow> nat \<Rightarrow> nat list \<Rightarrow> nat list \<Rightarrow> nat \<Rightarrow> bool" where
  "in_pages np q rmap xs x \<longleftrightarrow> (\<exists>i\<in>set xs. rmap ! i \<noteq> INVALID_LPN \<and> page_off np q (rmap ! i) \<le> x \<and> x < page_off np q (rmap ! i) + PAGE_SIZE)"

definition page_enc :: "nat \<Rightarrow> nat \<Rightarrow> nat \<Rightarrow> memory \<Rightarrow> nat list \<Rightarrow> nat \<Rightarrow> bytes" where
  "page_enc base np q m rmap i = (if rmap ! i \<noteq> INVALID_LPN then read_bytes m (page_data base np q (rmap ! i)) PAGE_SIZE else [])"

lemma length_read_bytes [simp]: "length (read_bytes m a n) = n"
  by (simp add: read_bytes_def)

lemma save_data_enc:
  assumes "\<forall>i\<in>set xs. i < length rmap"
  shows "write_all (save_data base np q m rmap) xs = Some (concat (map (page_enc base np q m rmap) xs))"
  using assms by (intro write_all_Some) (simp add: save_data_def page_enc_def MAX_RW_COUNT_def)

lemma load_data_enc:
  "\<forall>i\<in>set xs. i < length rmap \<Longrightarrow> \<exists>m'. foldM (load_data b1 np q rmap) xs (m, concat (map (page_enc b0 np q src rmap) xs) @ rest) = Some (m', rest) \<and>
    storage_copied b0 src b1 (in_pages np q rmap xs) m m'"
proof (induction xs arbitrary: m)
  case Nil
  then show ?case by (simp add: in_pages_def storage_copied_def)
next
  case (Cons i xs)
  let ?rest = "concat (map (page_enc b0 np q src rmap) xs) @ rest"
  define P where "P x \<longleftrightarrow> rmap ! i \<noteq> INVALID_LPN \<and> page_off np q (rmap ! i) \<le> x \<and> x < page_off np q (rmap ! i) + PAGE_SIZE" for x
  obtain m1 where m1: "load_data b1 np q rmap i (m, page_enc b0 np q src rmap i @ ?rest) = Some (m1, ?rest)" "storage_copied b0 src b1 P m m1"
  proof (cases "rmap ! i = INVALID_LPN")
    case True
    then have "P = (\<lambda>_. False)" by (auto simp: P_def)
    then show ?thesis using True Cons.prems by (intro that[of m]) (simp_all add: load_data_def page_enc_def)
  next
    case False
    let ?bs = "read_bytes src (b0 + page_off np q (rmap ! i)) PAGE_SIZE"
    have "load_page (b1 + page_off np q (rmap ! i)) 0 (m, ?bs @ ?rest) = Some (write_bytes m (b1 + page_off np q (rmap ! i)) ?bs, ?rest)"
      by (rule load_page_full) simp
    moreover have "P = (\<lambda>x. page_off np q (rmap ! i) \<le> x \<and> x < page_off np q (rmap ! i) + PAGE_SIZE)" using False by (auto simp: P_def)
    ultimately show ?thesis
      using False Cons.prems storage_copied_page[of b0 src b1 "page_off np q (rmap ! i)" PAGE_SIZE m]
      by (intro that[of "write_bytes m (b1 + page_off np q (rmap ! i)) ?bs"]) (simp_all add: load_data_def page_enc_def page_data_off)
  qed
  obtain m2 where m2: "foldM (load_data b1 np q rmap) xs (m1, ?rest) = Some (m2, rest)" "storage_copied b0 src b1 (in_pages np q rmap xs) m1 m2"
    using Cons by auto
  have "in_pages np q rmap (i # xs) = (\<lambda>x. P x \<or> in_pages np q rmap xs x)" by (auto simp: in_pages_def P_def fun_eq_iff)
  then show ?case using m1(1) m2(1) storage_copied_trans[OF m1(2) m2(2)] by simp
qed

section \<open>A partition\<close>

definition part_valid :: "conv_ftl \<Rightarrow> bool" where
  "part_valid f \<longleftrightarrow> (\<forall>a\<in>chip_blks (cf_ssd f). blk_valid (ssd_blk (cf_ssd f) a)) \<and> wp_valid (cf_wp f) \<and> wp_valid (cf_gc_wp f) \<and>
     wp_curline (cf_wp f) < tt_lines (cf_sp f) \<and> wp_curline (cf_gc_wp f) < tt_lines (cf_sp f) \<and>
     length (cf_maptbl f) = tt_pgs (cf_sp f) \<and> (\<forall>a\<in>set (cf_maptbl f). ppa_fits a) \<and> length (cf_rmap f) = tt_pgs (cf_sp f) \<and>
     (\<forall>v\<in>set (cf_rmap f). v < 2 ^ 64) \<and> 8 * tt_pgs (cf_sp f) \<le> MAX_RW_COUNT \<and>
     length (cf_page_counter f) = nchs (cf_sp f) * luns_per_ch (cf_sp f) \<and> (\<forall>v\<in>set (cf_page_counter f). v < 2 ^ 64) \<and>
     8 * (nchs (cf_sp f) * luns_per_ch (cf_sp f)) \<le> MAX_RW_COUNT \<and> lm_valid (tt_lines (cf_sp f)) (cf_lm f)"

text \<open>A partition of the same geometry, and what loading makes of it.\<close>

definition fits_in :: "conv_ftl \<Rightarrow> conv_ftl \<Rightarrow> bool" where
  "fits_in f g \<longleftrightarrow> roomy (cf_ssd f) (ssd_blk (cf_ssd f)) (cf_ssd g) \<and> length (cf_page_counter g) = nchs (cf_sp f) * luns_per_ch (cf_sp f)"

definition restored :: "conv_ftl \<Rightarrow> conv_ftl \<Rightarrow> conv_ftl \<Rightarrow> bool" where
  "restored f g f' \<longleftrightarrow> cf_maptbl f' = cf_maptbl f \<and> cf_rmap f' = cf_rmap f \<and> cf_wp f' = cf_wp f \<and> cf_gc_wp f' = cf_gc_wp f \<and>
     cf_page_counter f' = cf_page_counter f \<and>
     (\<exists>d. cf_lm f' = (cf_lm f)\<lparr>lm_victim_pq := (lm_victim_pq (cf_lm f))\<lparr>pq_ops := victim_ops, pq_d := d\<rparr>\<rparr> \<and> length d = tt_lines (cf_sp f) + 1 \<and>
       (\<forall>i<lm_victim_cnt (cf_lm f). d ! (i + 1) = pq_d (lm_victim_pq (cf_lm f)) ! (i + 1))) \<and>
     cf_ssd f' = put_blks (cf_ssd g) (ssd_blk (cf_ssd f)) (chip_blks (cf_ssd f)) \<and> cf_cp f' = cf_cp g \<and> cf_wfc f' = cf_wfc g"

definition part_enc :: "(nat \<Rightarrow> nat) \<Rightarrow> nat \<Rightarrow> nat \<Rightarrow> nat \<Rightarrow> memory \<Rightarrow> nat \<Rightarrow> conv_ftl \<Rightarrow> bytes" where
  "part_enc line_addr pad base np m q f = flash_enc (cf_ssd f) @
     write_wp line_addr pad (cf_wp f) @ write_int (int (wp_curline (cf_wp f))) @
     write_wp line_addr pad (cf_gc_wp f) @ write_int (int (wp_curline (cf_gc_wp f))) @
     write_array ppa_bytes (cf_maptbl f) @ write_array (le_bytes 8) (cf_rmap f) @ write_array (le_bytes 8) (cf_page_counter f) @
     lm_enc (cf_lm f) @ concat (map (page_enc base np q m (cf_rmap f)) [0..<tt_pgs (cf_sp f)])"

lemma part_validD:
  assumes "part_valid f"
  shows "\<forall>a\<in>chip_blks (cf_ssd f). blk_valid (ssd_blk (cf_ssd f) a)" "wp_valid (cf_wp f)" "wp_valid (cf_gc_wp f)"
    "wp_curline (cf_wp f) < tt_lines (cf_sp f)" "wp_curline (cf_gc_wp f) < tt_lines (cf_sp f)"
    "length (cf_maptbl f) = tt_pgs (cf_sp f)" "\<forall>a\<in>set (cf_maptbl f). ppa_fits a" "length (cf_rmap f) = tt_pgs (cf_sp f)"
    "\<forall>v\<in>set (cf_rmap f). v < 2 ^ 64" "8 * tt_pgs (cf_sp f) \<le> MAX_RW_COUNT"
    "length (cf_page_counter f) = nchs (cf_sp f) * luns_per_ch (cf_sp f)" "\<forall>v\<in>set (cf_page_counter f). v < 2 ^ 64"
    "8 * (nchs (cf_sp f) * luns_per_ch (cf_sp f)) \<le> MAX_RW_COUNT" "lm_valid (tt_lines (cf_sp f)) (cf_lm f)"
  using assms unfolding part_valid_def by blast+

lemma save_part_enc:
  assumes v: "part_valid f"
  shows "save_part line_addr pad base np m q f = Some (part_enc line_addr pad base np m q f)"
proof -
  note p = part_validD[OF v]
  have ids: "\<forall>i<tt_lines (cf_sp f). ln_id (lm_lines (cf_lm f) ! i) = i" "length (lm_lines (cf_lm f)) = tt_lines (cf_sp f)"
    using p(14) by (simp_all add: lm_valid_def)
  have "write_line_id (lm_lines (cf_lm f)) w = Some (write_int (int w))" if "w < tt_lines (cf_sp f)" for w
    using ids that by (simp add: write_line_id_def)
  moreover have "write_all (save_data base np q m (cf_rmap f)) [0..<tt_pgs (cf_sp f)] =
      Some (concat (map (page_enc base np q m (cf_rmap f)) [0..<tt_pgs (cf_sp f)]))"
    using p(8) by (intro save_data_enc) simp
  ultimately show ?thesis
    using p(4-6,8,11) flash_in(1)[OF p(1)] save_lines_enc[OF p(14)] by (simp add: save_part_def part_enc_def Let_def)
qed

lemma load_part_enc:
  assumes v: "part_valid f" and fit: "fits_in f g" and room: "length d0 = tt_lines (cf_sp f) + 1" and spare: "4 \<le> spare"
  shows "\<exists>f' m'. load_part spare (Some d0) b1 np q g (m, part_enc line_addr pad b0 np src q f @ rest) = Some (f', m', rest) \<and>
    restored f g f' \<and> storage_copied b0 src b1 (in_pages np q (cf_rmap f) [0..<tt_pgs (cf_sp f)]) m m'"
proof -
  note p = part_validD[OF v]
  have sp: "cf_sp g = cf_sp f" and room_g: "roomy (cf_ssd f) (ssd_blk (cf_ssd f)) (cf_ssd g)"
    and pc: "length (cf_page_counter g) = nchs (cf_sp f) * luns_per_ch (cf_sp f)"
    using fit by (simp_all add: fits_in_def roomy_def)
  have lines: "\<forall>i<tt_lines (cf_sp f). ln_id (lm_lines (cf_lm f) ! i) = i" "lm_tt_lines (cf_lm f) = tt_lines (cf_sp f)"
    "4 * tt_lines (cf_sp f) \<le> MAX_RW_COUNT"
    using p(14) by (simp_all add: lm_valid_def)
  have wpid: "read_int (write_int (int (wp_curline (cf_wp f))) @ r) = Some (int (wp_curline (cf_wp f)), r)"
    "read_int (write_int (int (wp_curline (cf_gc_wp f))) @ r) = Some (int (wp_curline (cf_gc_wp f)), r)" for r
    using p(4,5) lines(3) by (auto intro!: read_write_int simp: is_int_def MAX_RW_COUNT_def)
  have maps: "read_array 8 bytes_ppa (tt_pgs (cf_sp f)) (write_array ppa_bytes (cf_maptbl f) @ r) = Some (cf_maptbl f, r)"
    "read_array 8 le_number (tt_pgs (cf_sp f)) (write_array (le_bytes 8) (cf_rmap f) @ r) = Some (cf_rmap f, r)"
    "read_array 8 le_number (nchs (cf_sp f) * luns_per_ch (cf_sp f)) (write_array (le_bytes 8) (cf_page_counter f) @ r) = Some (cf_page_counter f, r)" for r
    using ppa_codec.read_write_array[OF p(7), of r] u64_codec.read_write_array[OF p(9), of r] u64_codec.read_write_array[OF p(12), of r] p(6,8,10,11,13)
    by simp_all
  let ?pages = "concat (map (page_enc b0 np q src (cf_rmap f)) [0..<tt_pgs (cf_sp f)])"
  have fits: "lm_victim_cnt (cf_lm f) < length d0" using room p(14) by (simp add: lm_valid_def)
  obtain d where d: "load_lines spare (tt_lines (cf_sp f)) (Some d0) (lm_enc (cf_lm f) @ ?pages @ rest) =
      Some ((cf_lm f)\<lparr>lm_victim_pq := \<lparr>pq_size = pq_size (lm_victim_pq (cf_lm f)), pq_avail = pq_avail (lm_victim_pq (cf_lm f)),
        pq_step = pq_step (lm_victim_pq (cf_lm f)), pq_ops = victim_ops, pq_d = d\<rparr>\<rparr>, ?pages @ rest)"
    "\<forall>i<lm_victim_cnt (cf_lm f). d ! (i + 1) = pq_d (lm_victim_pq (cf_lm f)) ! (i + 1)" "length d = tt_lines (cf_sp f) + 1"
    using load_lines_enc[OF p(14) fits spare] unfolding room by blast
  obtain m' where m': "foldM (load_data b1 np q (cf_rmap f)) [0..<tt_pgs (cf_sp f)] (m, ?pages @ rest) = Some (m', rest)"
    "storage_copied b0 src b1 (in_pages np q (cf_rmap f) [0..<tt_pgs (cf_sp f)]) m m'"
    using load_data_enc[of "[0..<tt_pgs (cf_sp f)]" "cf_rmap f" b1 np q m b0 src rest] p(8) by auto
  let ?f = "g\<lparr>cf_ssd := put_blks (cf_ssd g) (ssd_blk (cf_ssd f)) (chip_blks (cf_ssd f)), cf_maptbl := cf_maptbl f, cf_rmap := cf_rmap f,
    cf_wp := cf_wp f, cf_gc_wp := cf_gc_wp f, cf_lm := (cf_lm f)\<lparr>lm_victim_pq := \<lparr>pq_size = pq_size (lm_victim_pq (cf_lm f)),
      pq_avail = pq_avail (lm_victim_pq (cf_lm f)), pq_step = pq_step (lm_victim_pq (cf_lm f)), pq_ops = victim_ops, pq_d = d\<rparr>\<rparr>,
    cf_page_counter := cf_page_counter f\<rparr>"
  have flash: "foldM ssd_read_ch [0..<nchs (cf_sp f)] (cf_ssd g, flash_enc (cf_ssd f) @ r) =
      Some (put_blks (cf_ssd g) (ssd_blk (cf_ssd f)) (chip_blks (cf_ssd f)), r)" for r
    by (rule flash_in(2)[OF p(1) room_g])
  have "load_part spare (Some d0) b1 np q g (m, part_enc line_addr pad b0 np src q f @ rest) = Some (?f, m', rest)"
    using sp pc lines find_line_id[OF lines(1) p(4)] find_line_id[OF lines(1) p(5)]
    by (simp add: load_part_def part_enc_def Let_def flash read_write_wp[OF p(2)] read_write_wp[OF p(3)] wpid maps d(1) m'(1))
  moreover have "\<lparr>pq_size = pq_size q, pq_avail = pq_avail q, pq_step = pq_step q, pq_ops = victim_ops, pq_d = d\<rparr> =
      q\<lparr>pq_ops := victim_ops, pq_d := d\<rparr>" for q :: line_pq by (cases q) simp
  then have "restored f g ?f" using d(2,3) unfolding restored_def by (intro conjI exI[of _ d]) simp_all
  ultimately show ?thesis using m'(2) by blast
qed

section \<open>The device\<close>

definition ns_valid :: "conv_ns \<Rightarrow> bool" where
  "ns_valid ns \<longleftrightarrow> length (cn_ftls ns) = cn_nr_parts ns \<and> (\<forall>f\<in>set (cn_ftls ns). part_valid f)"

text \<open>A device to load into: as many partitions, of the same geometry, and an allocator that delivers the arrays.\<close>

definition loads_into :: "conv_ns \<Rightarrow> (nat \<Rightarrow> nat list option) \<Rightarrow> conv_ns \<Rightarrow> bool" where
  "loads_into ns mem ns0 \<longleftrightarrow> cn_nr_parts ns0 = cn_nr_parts ns \<and> length (cn_ftls ns0) = cn_nr_parts ns \<and>
     (\<forall>q<cn_nr_parts ns. fits_in (cn_ftls ns ! q) (cn_ftls ns0 ! q) \<and>
       (\<exists>d0. mem q = Some d0 \<and> length d0 = tt_lines (cf_sp (cn_ftls ns ! q)) + 1))"

definition mapped_storage :: "conv_ns \<Rightarrow> nat \<Rightarrow> bool" where
  "mapped_storage ns x \<longleftrightarrow> (\<exists>q<cn_nr_parts ns. in_pages (cn_nr_parts ns) q (cf_rmap (cn_ftls ns ! q)) [0..<tt_pgs (cf_sp (cn_ftls ns ! q))] x)"

definition device_enc :: "(nat \<Rightarrow> nat \<Rightarrow> nat) \<Rightarrow> nat \<Rightarrow> nat \<Rightarrow> memory \<Rightarrow> conv_ns \<Rightarrow> nat list \<Rightarrow> bytes" where
  "device_enc line_addr pad base m ns qs = concat (map (\<lambda>q. part_enc (line_addr q) pad base (cn_nr_parts ns) m q (cn_ftls ns ! q)) qs)"

lemma save_device_enc:
  assumes "ns_valid ns"
  shows "save_device line_addr pad base m ns = Some (device_enc line_addr pad base m ns [0..<cn_nr_parts ns])"
  unfolding save_device_def device_enc_def
proof (rule write_all_Some)
  fix q assume "q \<in> set [0..<cn_nr_parts ns]"
  then have q: "q < length (cn_ftls ns)" using assms by (simp add: ns_valid_def)
  then have "part_valid (cn_ftls ns ! q)" using assms by (simp add: ns_valid_def)
  from save_part_enc[OF this] show "do { f \<leftarrow> array_read (cn_ftls ns) q; save_part (line_addr q) pad base (cn_nr_parts ns) m q f } =
      Some (part_enc (line_addr q) pad base (cn_nr_parts ns) m q (cn_ftls ns ! q))"
    using q by simp
qed

lemma load_parts_enc:
  assumes v: "ns_valid ns" and into: "loads_into ns mem ns0" and spare: "4 \<le> spare"
  shows "distinct qs \<Longrightarrow> \<forall>q\<in>set qs. q < cn_nr_parts ns \<Longrightarrow> length (cn_ftls nx) = cn_nr_parts ns \<Longrightarrow> cn_nr_parts nx = cn_nr_parts ns \<Longrightarrow>
    \<forall>q\<in>set qs. cn_ftls nx ! q = cn_ftls ns0 ! q \<Longrightarrow>
    \<exists>fs m'. foldM (\<lambda>q (ns, mf). do {
         f \<leftarrow> array_read (cn_ftls ns) q;
         (f', mf') \<leftarrow> load_part spare (mem q) b1 (cn_nr_parts ns) q f mf;
         Some (ns\<lparr>cn_ftls := (cn_ftls ns)[q := f']\<rparr>, mf')
       }) qs (nx, m, device_enc line_addr pad b0 src ns qs @ rest) = Some (nx\<lparr>cn_ftls := fs\<rparr>, m', rest) \<and>
      length fs = cn_nr_parts ns \<and> (\<forall>q\<in>set qs. restored (cn_ftls ns ! q) (cn_ftls ns0 ! q) (fs ! q)) \<and>
      (\<forall>q. q \<notin> set qs \<longrightarrow> fs ! q = cn_ftls nx ! q) \<and>
      storage_copied b0 src b1 (\<lambda>x. \<exists>q\<in>set qs. in_pages (cn_nr_parts ns) q (cf_rmap (cn_ftls ns ! q)) [0..<tt_pgs (cf_sp (cn_ftls ns ! q))] x) m m'"
proof (induction qs arbitrary: nx m)
  case Nil
  then show ?case by (intro exI[of _ "cn_ftls nx"]) (simp add: device_enc_def)
next
  case (Cons q qs)
  let ?rest = "device_enc line_addr pad b0 src ns qs @ rest" and ?f = "cn_ftls ns ! q" and ?g = "cn_ftls ns0 ! q"
  have q: "q < cn_nr_parts ns" "q < length (cn_ftls nx)" using Cons.prems by simp_all
  have "part_valid ?f" using v q(1) by (simp add: ns_valid_def)
  moreover obtain d0 where d0: "mem q = Some d0" "length d0 = tt_lines (cf_sp ?f) + 1" and fit: "fits_in ?f ?g"
    using into q(1) unfolding loads_into_def by blast
  ultimately obtain f' m1 where p: "load_part spare (Some d0) b1 (cn_nr_parts ns) q ?g (m, part_enc (line_addr q) pad b0 (cn_nr_parts ns) src q ?f @ ?rest) =
      Some (f', m1, ?rest)" "restored ?f ?g f'"
      "storage_copied b0 src b1 (in_pages (cn_nr_parts ns) q (cf_rmap ?f) [0..<tt_pgs (cf_sp ?f)]) m m1"
    using load_part_enc spare by blast
  let ?nx = "nx\<lparr>cn_ftls := (cn_ftls nx)[q := f']\<rparr>"
  have "distinct qs" "\<forall>q\<in>set qs. q < cn_nr_parts ns" "length (cn_ftls ?nx) = cn_nr_parts ns" "cn_nr_parts ?nx = cn_nr_parts ns"
    "\<forall>q\<in>set qs. cn_ftls ?nx ! q = cn_ftls ns0 ! q" using Cons.prems by (auto simp: nth_list_update)
  from Cons.IH[OF this, of m1] obtain fs m2 where l: "foldM (\<lambda>q (ns, mf). do {
         f \<leftarrow> array_read (cn_ftls ns) q;
         (f', mf') \<leftarrow> load_part spare (mem q) b1 (cn_nr_parts ns) q f mf;
         Some (ns\<lparr>cn_ftls := (cn_ftls ns)[q := f']\<rparr>, mf')
       }) qs (?nx, m1, ?rest) = Some (?nx\<lparr>cn_ftls := fs\<rparr>, m2, rest)" "length fs = cn_nr_parts ns"
      "\<forall>q\<in>set qs. restored (cn_ftls ns ! q) (cn_ftls ns0 ! q) (fs ! q)" "\<forall>q. q \<notin> set qs \<longrightarrow> fs ! q = cn_ftls ?nx ! q"
      "storage_copied b0 src b1 (\<lambda>x. \<exists>q\<in>set qs. in_pages (cn_nr_parts ns) q (cf_rmap (cn_ftls ns ! q)) [0..<tt_pgs (cf_sp (cn_ftls ns ! q))] x) m1 m2"
    by blast
  have "fs ! q = f'" using l(4) Cons.prems(1) q(2) by simp
  moreover have "\<forall>j. j \<notin> set (q # qs) \<longrightarrow> fs ! j = cn_ftls nx ! j" using l(4) by simp
  moreover have "array_read (cn_ftls nx) q = Some ?g" using q(2) Cons.prems(5) by simp
  moreover have "storage_copied b0 src b1 (\<lambda>x. \<exists>q\<in>set (q # qs). in_pages (cn_nr_parts ns) q (cf_rmap (cn_ftls ns ! q)) [0..<tt_pgs (cf_sp (cn_ftls ns ! q))] x) m m2"
    using storage_copied_trans[OF p(3) l(5)] by simp
  moreover have "device_enc line_addr pad b0 src ns (q # qs) @ rest = part_enc (line_addr q) pad b0 (cn_nr_parts ns) src q ?f @ ?rest"
    by (simp add: device_enc_def)
  ultimately show ?case using p(1,2) l(1-3) d0(1) Cons.prems(4) by (intro exI[of _ fs] exI[of _ m2]) simp
qed

lemma load_device_enc:
  assumes v: "ns_valid ns" and into: "loads_into ns mem ns0" and spare: "4 \<le> spare"
    and s: "save_device line_addr pad b0 src ns = Some file"
  shows "\<exists>fs m'. load_device spare mem b1 n file m ns0 = Some (m', ns0\<lparr>cn_ftls := fs\<rparr>) \<and> length fs = cn_nr_parts ns \<and>
    (\<forall>q<cn_nr_parts ns. restored (cn_ftls ns ! q) (cn_ftls ns0 ! q) (fs ! q)) \<and>
    storage_copied b0 src b1 (mapped_storage ns) (write_bytes m b1 (replicate n 0)) m'"
proof -
  have enc: "file = device_enc line_addr pad b0 src ns [0..<cn_nr_parts ns] @ []" using s save_device_enc[OF v] by simp
  have "cn_nr_parts ns0 = cn_nr_parts ns" "length (cn_ftls ns0) = cn_nr_parts ns" using into by (simp_all add: loads_into_def)
  moreover have "mapped_storage ns = (\<lambda>x. \<exists>q\<in>set [0..<cn_nr_parts ns].
      in_pages (cn_nr_parts ns) q (cf_rmap (cn_ftls ns ! q)) [0..<tt_pgs (cf_sp (cn_ftls ns ! q))] x)"
    by (auto simp: mapped_storage_def fun_eq_iff)
  ultimately obtain fs m' where r: "foldM (\<lambda>q (ns, mf). do {
         f \<leftarrow> array_read (cn_ftls ns) q;
         (f', mf') \<leftarrow> load_part spare (mem q) b1 (cn_nr_parts ns) q f mf;
         Some (ns\<lparr>cn_ftls := (cn_ftls ns)[q := f']\<rparr>, mf')
       }) [0..<cn_nr_parts ns0] (ns0, write_bytes m b1 (replicate n 0), file) = Some (ns0\<lparr>cn_ftls := fs\<rparr>, m', [])"
      "length fs = cn_nr_parts ns" "\<forall>q\<in>set [0..<cn_nr_parts ns]. restored (cn_ftls ns ! q) (cn_ftls ns0 ! q) (fs ! q)"
      "storage_copied b0 src b1 (mapped_storage ns) (write_bytes m b1 (replicate n 0)) m'"
    using load_parts_enc[OF v into spare, of "[0..<cn_nr_parts ns]" ns0 b1 "write_bytes m b1 (replicate n 0)" line_addr pad b0 src "[]"]
    unfolding enc by auto
  have "load_device spare mem b1 n file m ns0 = Some (m', ns0\<lparr>cn_ftls := fs\<rparr>)" unfolding load_device_def r(1) by simp
  then show ?thesis using r(2-4) by (intro exI[of _ fs] exI[of _ m']) simp
qed

end
