(* ===== verification/Save_Load_Props.thy ===== *)
theory Save_Load_Props
  imports Save_Load_Proof
begin

text \<open>
  The properties of saving and loading: what a running drive must satisfy to be stored completely, that loading restores its
  tables and its data, consistent with one another, but not its write credits, that the dump made to compare a loaded drive with the saved one
  does not tell them apart, and what a truncated file does.
\<close>

section \<open>Which drives can be stored\<close>

text \<open>Numbers fit the fields they are stored in.\<close>

definition fields_fit :: "conv_ftl \<Rightarrow> bool" where
  "fields_fit f \<longleftrightarrow> (\<forall>a\<in>chip_blks (cf_ssd f). is_int (b_erase_cnt (ssd_blk (cf_ssd f) a)) \<and> is_int (b_wp (ssd_blk (cf_ssd f) a)) \<and>
       (\<forall>p\<in>set (b_pg (ssd_blk (cf_ssd f) a)). pg_valid p)) \<and>
     (\<forall>ch<nchs (cf_sp f). c_nluns (ssd_ch (cf_ssd f) ch) = luns_per_ch (cf_sp f) \<and>
       (\<forall>lun<luns_per_ch (cf_sp f). l_npls (ssd_lun (cf_ssd f) (ch, lun)) = pls_per_lun (cf_sp f))) \<and>
     (\<forall>v\<in>set (cf_rmap f). v < 2 ^ 64) \<and> pq_step (lm_victim_pq (cf_lm f)) < 2 ^ 64"

text \<open>A table larger than what one call moves, \<^const>\<open>MAX_RW_COUNT\<close> bytes, is cut off when it is written.\<close>

definition storable :: "conv_ftl \<Rightarrow> bool" where
  "storable f \<longleftrightarrow> fields_fit f \<and> 8 * tt_pgs (cf_sp f) \<le> MAX_RW_COUNT"

lemma chip_blks_geo:
  assumes "storable f" "geo_ok (cf_sp f)"
  shows "chip_blks (cf_ssd f) = {(ch, lun, pl, blk). ch < nchs (cf_sp f) \<and> lun < luns_per_ch (cf_sp f) \<and> pl = 0 \<and> blk < blks_per_pl (cf_sp f)}"
  using assms by (auto simp: storable_def fields_fit_def chip_blks_def geo_ok_def)

lemma geo_bounds:
  assumes "geo_ok spp"
  shows "nchs spp \<le> 256" "luns_per_ch spp \<le> 256" "blks_per_pl spp \<le> 65536" "pgs_per_blk spp \<le> 65536" "pgs_per_line spp < 2 ^ 31"
    "tt_lines spp = blks_per_pl spp" "pls_per_lun spp = 1"
  using assms unfolding geo_ok_def by blast+

lemma small_is_int: "n \<le> 65536 \<Longrightarrow> is_int (int n)"
  by (simp add: is_int_def)

lemma storable_blocks:
  assumes s: "storable f" and inv: "conv_inv f" and a: "a \<in> chip_blks (cf_ssd f)"
  shows "blk_valid (ssd_blk (cf_ssd f) a)"
proof -
  have g: "geo_ok (cf_sp f)" and n: "nand_ok (cf_sp f) (blks_of f)" using inv core_parts(1,2) by (auto simp: conv_inv_def)
  note gb = geo_bounds[OF g]
  obtain ch lun l where k: "a = (ch, lun, 0, l)" "ch < nchs (cf_sp f)" "lun < luns_per_ch (cf_sp f)" "l < blks_per_pl (cf_sp f)"
    using a unfolding chip_blks_geo[OF s g] by blast
  have b: "block_shape (cf_sp f) (blks_of f a)" "b_vpc (blks_of f a) = int (count_in (blks_of f) PG_VALID (block_pages (cf_sp f) a))"
    "b_ipc (blks_of f a) = int (count_in (blks_of f) PG_INVALID (block_pages (cf_sp f) a))"
    using n k by (auto simp: nand_ok_def Let_def)
  have "count_in (blks_of f) s' (block_pages (cf_sp f) a) \<le> 65536" for s'
    using count_in_le[of "block_pages (cf_sp f) a" "blks_of f" s'] block_pages_card[OF g k(2-4)] gb(4) k(1) by simp
  then have "is_int (b_vpc (blks_of f a))" "is_int (b_ipc (blks_of f a))"
    unfolding b(2,3) by (auto intro: small_is_int)
  moreover have "is_int (b_erase_cnt (blks_of f a))" "is_int (b_wp (blks_of f a))" "\<forall>p\<in>set (b_pg (blks_of f a)). pg_valid p"
    using s a unfolding storable_def fields_fit_def by blast+
  moreover have "b_npgs (blks_of f a) = length (b_pg (blks_of f a))" "is_int (int (b_npgs (blks_of f a)))"
    using b(1) gb(4) by (simp_all add: block_shape_def is_int_def)
  ultimately show ?thesis by (simp add: blk_valid_def)
qed

lemma victim_cnt_size:
  assumes "vpq.pq_inv ls q"
  shows "card (pq_elems q) = pq_size q - 1" "1 \<le> pq_size q" "pq_size q \<le> pq_avail q" "length (pq_d q) = pq_avail q"
  using assms card_image[OF vpq.pq_inv_inj[OF assms]] by (simp_all add: pq_elems_def vpq.pq_inv_def)

lemma storable_lm:
  assumes s: "storable f" and inv: "conv_inv f"
  shows "lm_valid (tt_lines (cf_sp f)) (cf_lm f)"
proof -
  let ?n = "tt_lines (cf_sp f)" and ?lm = "cf_lm f" and ?q = "lm_victim_pq (cf_lm f)"
  have c: "core {} {} {} f" using inv by (simp add: conv_inv_def)
  have g: "geo_ok (cf_sp f)" and lns: "lines_ok (cf_sp f) (blks_of f) {} (lm_lines ?lm)" and qok: "queue_ok (cf_sp f) ?lm"
    and p: "part_ok (cf_sp f) (blks_of f) {} (wp_curline (cf_wp f)) (wp_curline (cf_gc_wp f)) ?lm"
    using core_parts(1,5,6,7)[OF c] by blast+
  note gb = geo_bounds[OF g]
  have pq: "vpq.pq_inv (lm_lines ?lm) ?q" "pq_avail ?q = ?n + 1" using qok by (simp_all add: queue_ok_def)
  note sz = victim_cnt_size[OF pq(1)]
  have sets: "distinct (lm_free ?lm)" "distinct (lm_full ?lm)" "set (lm_free ?lm) \<subseteq> {..<?n}" "set (lm_full ?lm) \<subseteq> {..<?n}" "pq_elems ?q \<subseteq> {..<?n}"
    using p unfolding part_ok_def part_sets_def by auto
  have cnt: "lm_tt_lines ?lm = ?n" "lm_free_cnt ?lm = length (lm_free ?lm)" "lm_full_cnt ?lm = length (lm_full ?lm)"
    "lm_victim_cnt ?lm = pq_size ?q - 1"
    using p sz(1) by (simp_all add: part_ok_def part_counts_def)
  have len: "length (lm_free ?lm) \<le> ?n" "length (lm_full ?lm) \<le> ?n"
    using card_mono[OF _ sets(3)] card_mono[OF _ sets(4)] distinct_card[OF sets(1)] distinct_card[OF sets(2)] by simp_all
  have line: "line_valid (lm_lines ?lm ! l)" if l: "l < ?n" for l
  proof -
    have "count_in (blks_of f) s' (line_pages (cf_sp f) l) \<le> pgs_per_line (cf_sp f)" for s'
      using count_in_le[of "line_pages (cf_sp f) l" "blks_of f" s'] line_pages_card[OF g, of l] l gb(6) by simp
    then have "count_in (blks_of f) s' (line_pages (cf_sp f) l) < 2 ^ 31" for s' using gb(5) order.strict_trans1 by blast
    then have "is_int (int (count_in (blks_of f) s' (line_pages (cf_sp f) l)))" for s' by (simp add: is_int_def)
    moreover have "ln_pos (lm_lines ?lm ! l) < 2 ^ 31"
    proof (cases "l \<in> pq_elems ?q")
      case True
      then obtain j where "j \<in> {1..<pq_size ?q}" "pq_d ?q ! j = l" by (auto simp: pq_elems_def)
      then have "getpos victim_ops (lm_lines ?lm) l = j" "j < pq_size ?q" using pq(1) by (auto simp: vpq.pq_inv_def)
      then have "ln_pos (lm_lines ?lm ! l) < pq_size ?q" by (simp add: victim_ops_def victim_line_get_pos_def)
      then show ?thesis using sz(3) pq(2) gb(3,6) by simp
    next
      case False
      then have "ln_pos (lm_lines ?lm ! l) = 0" using qok l unfolding queue_ok_def by blast
      then show ?thesis by simp
    qed
    ultimately show ?thesis using lns l gb(3,6) by (simp add: lines_ok_def line_valid_def is_int_def)
  qed
  have "pq_d ?q ! (i + 1) < ?n" if "i < lm_victim_cnt ?lm" for i
  proof -
    have "i + 1 \<in> {1..<pq_size ?q}" using that cnt(4) by simp
    then have "pq_d ?q ! (i + 1) \<in> pq_elems ?q" unfolding pq_elems_def by (rule imageI)
    then show ?thesis using sets(5) by blast
  qed
  moreover have "\<forall>l\<in>set (lm_lines ?lm). line_valid l" using line lns by (auto simp: lines_ok_def in_set_conv_nth)
  moreover have "pq_step ?q < 2 ^ 64" "4 * ?n \<le> MAX_RW_COUNT" using s gb(3,6) by (simp_all add: storable_def fields_fit_def MAX_RW_COUNT_def)
  ultimately show ?thesis
    using cnt len sets(3,4) sz(2-4) pq(2) lns gb(3,6) by (auto simp: lm_valid_def lines_ok_def)
qed

lemma addr_ok_fits: "geo_ok spp \<Longrightarrow> addr_ok spp a \<Longrightarrow> ppa_fits a"
  using geo_bounds[of spp] by (simp add: addr_ok_def ppa_fits_def)

lemma wp_place_valid:
  assumes "geo_ok spp" "wp_place_ok spp w"
  shows "wp_valid w \<and> wp_curline w < tt_lines spp"
  using assms geo_bounds[OF assms(1)] by (simp add: wp_place_ok_def wp_valid_def)

lemma storable_part:
  assumes s: "storable f" and inv: "conv_inv f"
  shows "part_valid f"
proof -
  have c: "core {} {} {} f" and u: "user_ok f" and gc: "gc_ok f" using inv by (simp_all add: conv_inv_def)
  have g: "geo_ok (cf_sp f)" and m: "map_ok (cf_sp f) (blks_of f) {} {} (cf_maptbl f) (cf_rmap f)"
    using core_parts(1,4)[OF c] by blast+
  note gb = geo_bounds[OF g]
  have tbl: "length (cf_maptbl f) = tt_pgs (cf_sp f)" "length (cf_rmap f) = tt_pgs (cf_sp f)" using m by (simp_all add: map_ok_def)
  have "ppa_fits (cf_maptbl f ! lpn)" if "lpn < tt_pgs (cf_sp f)" for lpn
  proof (cases "cf_maptbl f ! lpn = UNMAPPED_PPA")
    case False
    then have "addr_ok (cf_sp f) (cf_maptbl f ! lpn)" using m that by (simp add: map_ok_def)
    then show ?thesis by (rule addr_ok_fits[OF g])
  qed (simp add: UNMAPPED_PPA_def ppa_fits_def)
  then have "\<forall>a\<in>set (cf_maptbl f). ppa_fits a" using tbl(1) by (auto simp: in_set_conv_nth)
  moreover have k: "length (cf_page_counter f) = nchs (cf_sp f) * luns_per_ch (cf_sp f)" "\<forall>c\<in>set (cf_page_counter f). c \<le> pgs_per_blk (cf_sp f)"
    using u by (simp_all add: user_ok_def counters_ok_def)
  moreover have "\<forall>c\<in>set (cf_page_counter f). c < 2 ^ 64" using k(2) gb(4) by fastforce
  moreover have "nchs (cf_sp f) * luns_per_ch (cf_sp f) \<le> 256 * 256" using gb(1,2) by (rule mult_le_mono)
  then have "8 * (nchs (cf_sp f) * luns_per_ch (cf_sp f)) \<le> MAX_RW_COUNT" unfolding MAX_RW_COUNT_def by linarith
  moreover have "wp_place_ok (cf_sp f) (cf_wp f)" "wp_place_ok (cf_sp f) (cf_gc_wp f)" using u gc by (simp_all add: user_ok_def gc_ok_def)
  ultimately show ?thesis
    using tbl storable_blocks[OF s inv] storable_lm[OF s inv] wp_place_valid[OF g] s by (simp add: part_valid_def storable_def fields_fit_def)
qed

text \<open>The invariant depends on the status of the pages of the geometry and on the cells of the queue in use.\<close>

lemma nand_ok_agree:
  assumes n: "nand_ok spp B" and eq: "\<And>ch lun l. ch < nchs spp \<Longrightarrow> lun < luns_per_ch spp \<Longrightarrow> l < blks_per_pl spp \<Longrightarrow> B' (ch, lun, 0, l) = B (ch, lun, 0, l)"
  shows "nand_ok spp B'" "\<And>a. addr_ok spp a \<Longrightarrow> st B' a = st B a"
proof -
  show st: "st B' a = st B a" if "addr_ok spp a" for a using that eq by (simp add: st_def addr_ok_def)
  have "count_in B' s (block_pages spp k) = count_in B s (block_pages spp k)" for s k
    using st by (intro count_in_cong) (simp add: block_pages_def)
  then show "nand_ok spp B'" using n eq by (simp add: nand_ok_def Let_def)
qed

lemma lines_ok_agree:
  assumes "lines_ok spp B tr ls" "\<And>a. addr_ok spp a \<Longrightarrow> st B' a = st B a"
  shows "lines_ok spp B' tr ls"
proof -
  have "count_in B' s (line_pages spp k) = count_in B s (line_pages spp k)" for s k
    using assms(2) by (intro count_in_cong) (simp add: line_pages_def)
  then show ?thesis using assms(1) by (simp add: lines_ok_def)
qed

lemma part_status_agree:
  assumes "part_status spp B lm" "\<And>a. addr_ok spp a \<Longrightarrow> st B' a = st B a"
  shows "part_status spp B' lm"
  by (rule part_status_cong[OF assms(1)]) (simp add: assms(2) line_pages_def)

lemma map_ok_agree:
  assumes "map_ok spp B dead X m r" "\<And>a. addr_ok spp a \<Longrightarrow> st B' a = st B a"
  shows "map_ok spp B' dead X m r"
  using assms unfolding map_ok_def by metis

lemma pq_inv_agree:
  assumes "vpq.pq_inv ls q" "pq_ops q' = pq_ops q" "pq_size q' = pq_size q" "pq_avail q' = pq_avail q" "length (pq_d q') = length (pq_d q)"
    and d: "\<And>j. j \<in> {1..<pq_size q} \<Longrightarrow> pq_d q' ! j = pq_d q ! j"
  shows "vpq.pq_inv ls q'" "pq_elems q' = pq_elems q"
proof -
  have "vpq.above ls (pq_d q' ! parent j) (pq_d q' ! j)" if "2 \<le> j" "j < pq_size q" for j
  proof -
    have "parent j \<in> {1..<pq_size q}" "j \<in> {1..<pq_size q}" using that by auto
    then show ?thesis using assms(1) d that by (simp add: vpq.pq_inv_def vpq.ordered_def)
  qed
  then show "vpq.pq_inv ls q'" using assms by (auto simp: vpq.pq_inv_def vpq.ordered_def)
  show "pq_elems q' = pq_elems q" using assms(3) d by (auto simp: pq_elems_def)
qed

text \<open>What the partition looks like after loading, and that the invariant comes with it.\<close>

lemma restored_inv:
  assumes inv: "conv_inv f" and s: "storable f" and r: "restored f g f'" and fit: "fits_in f g" and ok: "ssd_ok (cf_ssd g)"
  shows "conv_inv f'" "mapped f' = mapped f"
proof -
  have c: "core {} {} {} f" and u: "user_ok f" and gc: "gc_ok f" using inv by (simp_all add: conv_inv_def)
  note cp = core_parts[OF c]
  have room: "ssd_sp (cf_ssd g) = cf_sp f" using fit by (simp add: fits_in_def roomy_def)
  obtain d where r1: "cf_maptbl f' = cf_maptbl f" "cf_rmap f' = cf_rmap f" "cf_wp f' = cf_wp f" "cf_gc_wp f' = cf_gc_wp f"
    "cf_page_counter f' = cf_page_counter f"
    "cf_lm f' = (cf_lm f)\<lparr>lm_victim_pq := (lm_victim_pq (cf_lm f))\<lparr>pq_ops := victim_ops, pq_d := d\<rparr>\<rparr>"
    "length d = tt_lines (cf_sp f) + 1" "\<forall>i<lm_victim_cnt (cf_lm f). d ! (i + 1) = pq_d (lm_victim_pq (cf_lm f)) ! (i + 1)"
    "cf_ssd f' = put_blks (cf_ssd g) (ssd_blk (cf_ssd f)) (chip_blks (cf_ssd f))"
    using r unfolding restored_def by blast
  have sp: "cf_sp f' = cf_sp f" using r1(9) room by simp
  have blk: "blks_of f' (ch, lun, 0, l) = blks_of f (ch, lun, 0, l)" if "ch < nchs (cf_sp f)" "lun < luns_per_ch (cf_sp f)" "l < blks_per_pl (cf_sp f)" for ch lun l
    using that r1(9) chip_blks_geo[OF s cp(1)] by simp
  note ag = nand_ok_agree[OF cp(2) blk]
  let ?q = "lm_victim_pq (cf_lm f)"
  have qi: "vpq.pq_inv (lm_lines (cf_lm f)) ?q" "pq_avail ?q = tt_lines (cf_sp f) + 1" using cp(7) by (simp_all add: queue_ok_def)
  have vc: "lm_victim_cnt (cf_lm f) = pq_size ?q - 1"
    using cp(6) victim_cnt_size(1)[OF qi(1)] by (simp add: part_ok_def part_counts_def)
  have cells: "d ! j = pq_d ?q ! j" if "j \<in> {1..<pq_size ?q}" for j
  proof -
    have "j - 1 < lm_victim_cnt (cf_lm f)" "j = j - 1 + 1" using that vc by auto
    then show ?thesis using r1(8) by metis
  qed
  have ops: "pq_ops ?q = victim_ops" "length (pq_d ?q) = tt_lines (cf_sp f) + 1" using qi by (simp_all add: vpq.pq_inv_def)
  have q': "vpq.pq_inv (lm_lines (cf_lm f)) (?q\<lparr>pq_ops := victim_ops, pq_d := d\<rparr>)" "pq_elems (?q\<lparr>pq_ops := victim_ops, pq_d := d\<rparr>) = pq_elems ?q"
    using pq_inv_agree[OF qi(1), of "?q\<lparr>pq_ops := victim_ops, pq_d := d\<rparr>"] ops r1(7) cells by simp_all
  have "ssd_ok (cf_ssd f')" using ok r1(9) by (simp add: ssd_ok_def put_blks_def)
  moreover have "part_ok (cf_sp f) (blks_of f') {} (wp_curline (cf_wp f)) (wp_curline (cf_gc_wp f)) (cf_lm f')"
  proof -
    have "part_status (cf_sp f) (blks_of f') (cf_lm f)" using part_status_agree[OF _ ag(2)] cp(6) by (simp add: part_ok_def)
    then have "part_status (cf_sp f) (blks_of f') (cf_lm f')" by (simp add: r1(6) q'(2) part_status_def)
    then show ?thesis using cp(6) by (simp add: r1(6) q'(2) part_ok_def part_sets_def part_counts_def)
  qed
  moreover have "queue_ok (cf_sp f) (cf_lm f')" using cp(7) q' by (simp add: r1(6) queue_ok_def)
  ultimately have cr: "core {} {} {} f'"
    using cp(1) ag(1) map_ok_agree[OF cp(4) ag(2)] lines_ok_agree[OF cp(5) ag(2)] r1(1-4,6) sp by (simp add: core_def)
  have fr: "same_free (cf_sp f) (blks_of f) (blks_of f')" using ag(2) by (simp add: same_free_def)
  have "user_ok f'" "gc_ok f'"
    using u gc counters_ok_cong[OF fr] gc_fill_cong[OF fr] r1(3-5) sp by (simp_all add: user_ok_def gc_ok_def)
  then show "conv_inv f'" using cr by (simp add: conv_inv_def)
  show "mapped f' = mapped f" using r1(1) sp by (simp add: mapped_def)
qed

section \<open>A stored drive comes back\<close>

lemma mapped_in_storage:
  assumes inv: "conv_inv f" and s: "storable f" and lpn: "lpn \<in> mapped f" "page_off np q lpn \<le> x" "x < page_off np q lpn + PAGE_SIZE"
  shows "in_pages np q (cf_rmap f) [0..<tt_pgs (cf_sp f)] x"
proof -
  let ?a = "cf_maptbl f ! lpn"
  have c: "core {} {} {} f" using inv by (simp add: conv_inv_def)
  have l: "lpn < tt_pgs (cf_sp f)" "?a \<noteq> UNMAPPED_PPA" using lpn(1) by (auto simp: mapped_def)
  then have a: "addr_ok (cf_sp f) ?a" "cf_rmap f ! pgidx (cf_sp f) ?a = lpn"
    using core_parts(4)[OF c] by (simp_all add: map_ok_def)
  have "lpn \<noteq> INVALID_LPN" using l(1) s by (simp add: storable_def fields_fit_def INVALID_LPN_def MAX_RW_COUNT_def)
  then show ?thesis
    using pgidx_less[OF core_parts(1)[OF c] a(1)] a(2) lpn(2,3) unfolding in_pages_def by (intro bexI[of _ "pgidx (cf_sp f) ?a"]) simp_all
qed

lemma storable_all: "\<forall>f\<in>set fs. fields_fit f \<Longrightarrow> \<forall>f\<in>set fs. 8 * tt_pgs (cf_sp f) \<le> MAX_RW_COUNT \<Longrightarrow> \<forall>f\<in>set fs. storable f"
  by (simp add: storable_def)

lemma drive_valid:
  assumes "drive_ok ns" "\<forall>f\<in>set (cn_ftls ns). storable f"
  shows "ns_valid ns" "\<And>q. q < cn_nr_parts ns \<Longrightarrow> conv_inv (cn_ftls ns ! q) \<and> storable (cn_ftls ns ! q)"
  using assms storable_part by (auto simp: drive_ok_def ns_inv_def ns_valid_def)

lemma mapped_page_stored:
  assumes ok: "drive_ok ns" "\<forall>f\<in>set (cn_ftls ns). storable f" and x: "x div PAGE_SIZE \<in> ns_mapped ns"
  shows "mapped_storage ns x"
proof -
  let ?np = "cn_nr_parts ns" and ?lpn = "x div PAGE_SIZE"
  have np: "0 < ?np" using ok(1) by (simp add: drive_ok_def)
  let ?q = "?lpn mod ?np" and ?l = "?lpn div ?np"
  have q: "?q < ?np" using np by simp
  have l: "?l \<in> mapped (cn_ftls ns ! ?q)" using x by (simp add: ns_mapped_def)
  have "page_off ?np ?q ?l = ?lpn * PAGE_SIZE" by (simp add: page_off_def)
  moreover have "?lpn * PAGE_SIZE \<le> x" "x < ?lpn * PAGE_SIZE + PAGE_SIZE" by (simp_all add: dividend_less_div_times)
  ultimately have "in_pages ?np ?q (cf_rmap (cn_ftls ns ! ?q)) [0..<tt_pgs (cf_sp (cn_ftls ns ! ?q))] x"
    using mapped_in_storage[OF _ _ l, of ?np ?q x] drive_valid(2)[OF ok q] by simp
  then show ?thesis using q unfolding mapped_storage_def by blast
qed

text \<open>C28: Loading the file that saving a drive has written, into a drive of the same geometry.  Conditions: the numbers fit
  their fields in the file; each table of a partition has at most \<^const>\<open>MAX_RW_COUNT\<close> bytes, a little less than 2 GiB, since
  one call moves no more; and the stack has four bytes to spare behind the variable that is read too widely.  Then both return,
  the tables, write pointers, lines, victim queue, die counters and flash blocks of every partition are those of the saved drive
  and consistent with one another (\<^const>\<open>conv_inv\<close>), the same pages are mapped, and every byte of every mapped page is back in
  the storage; all other bytes of the storage are zero or those of the saved drive.  The write credits are not in the file:
  they stay those of the drive that was loaded into, whatever the free lines are now.\<close>

theorem load_save_roundtrip:
  assumes "drive_ok ns" "\<forall>f\<in>set (cn_ftls ns). fields_fit f" "\<forall>f\<in>set (cn_ftls ns). 8 * tt_pgs (cf_sp f) \<le> MAX_RW_COUNT"
    "loads_into ns mem ns0" "\<forall>g\<in>set (cn_ftls ns0). ssd_ok (cf_ssd g)" "4 \<le> spare"
  shows "\<exists>file fs m'. save_device line_addr pad b0 src ns = Some file \<and> load_device spare mem b1 n file m ns0 = Some (m', ns0\<lparr>cn_ftls := fs\<rparr>) \<and>
    (\<forall>q<cn_nr_parts ns. restored (cn_ftls ns ! q) (cn_ftls ns0 ! q) (fs ! q) \<and> conv_inv (fs ! q) \<and>
      cf_wfc (fs ! q) = cf_wfc (cn_ftls ns0 ! q)) \<and>
    ns_mapped (ns0\<lparr>cn_ftls := fs\<rparr>) = ns_mapped ns \<and>
    (\<forall>x. x div PAGE_SIZE \<in> ns_mapped ns \<longrightarrow> m' (b1 + x) = src (b0 + x)) \<and> (\<forall>x<n. m' (b1 + x) \<in> {0, src (b0 + x)})"
proof -
  note st = storable_all[OF assms(2,3)]
  note v = drive_valid[OF assms(1) st]
  obtain fl where saved: "save_device line_addr pad b0 src ns = Some fl" using save_device_enc[OF v(1)] by blast
  from load_device_enc[OF v(1) assms(4,6) this] obtain fs m' where r: "load_device spare mem b1 n fl m ns0 = Some (m', ns0\<lparr>cn_ftls := fs\<rparr>)"
    "length fs = cn_nr_parts ns" "\<forall>q<cn_nr_parts ns. restored (cn_ftls ns ! q) (cn_ftls ns0 ! q) (fs ! q)"
    "storage_copied b0 src b1 (mapped_storage ns) (write_bytes m b1 (replicate n 0)) m'" by blast
  have np: "cn_nr_parts ns0 = cn_nr_parts ns" "0 < cn_nr_parts ns" "length (cn_ftls ns0) = cn_nr_parts ns"
    "\<forall>q<cn_nr_parts ns. fits_in (cn_ftls ns ! q) (cn_ftls ns0 ! q)"
    using assms(1,4) by (simp_all add: loads_into_def drive_ok_def)
  have inv: "conv_inv (fs ! q) \<and> mapped (fs ! q) = mapped (cn_ftls ns ! q)" if "q < cn_nr_parts ns" for q
    using restored_inv[of "cn_ftls ns ! q" "cn_ftls ns0 ! q" "fs ! q"] v(2)[OF that] r(3) np(3,4) assms(5) that by simp
  have wfc: "cf_wfc (fs ! q) = cf_wfc (cn_ftls ns0 ! q)" if "q < cn_nr_parts ns" for q using r(3) that by (simp add: restored_def)
  have "ns_mapped (ns0\<lparr>cn_ftls := fs\<rparr>) = ns_mapped ns" using inv np(1,2) by (simp add: ns_mapped_def)
  moreover have "m' (b1 + x) = (if mapped_storage ns x then src (b0 + x) else write_bytes m b1 (replicate n 0) (b1 + x))" for x
    using r(4) by (simp add: storage_copied_def add.commute)
  moreover have "write_bytes m b1 (replicate n 0) (b1 + x) = 0" if "x < n" for x using that by (simp add: write_bytes_def)
  ultimately show ?thesis
    using saved r(1,3) inv mapped_page_stored[OF assms(1) st] wfc by (intro exI[of _ fl] exI[of _ fs] exI[of _ m']) simp
qed

lemma prepare_write_pointer_frame:
  assumes "prepare_write_pointer f io = Some f'"
  shows "cf_ssd f' = cf_ssd f" "cf_rmap f' = cf_rmap f" "lm_victim_pq (cf_lm f') = lm_victim_pq (cf_lm f)"
  using assms by (cases io; auto simp: prepare_write_pointer_def get_next_free_line_def set_wp_def bind_eq_Some_conv Let_def split: list.splits)+

text \<open>A new partition can be stored and loaded into.\<close>

lemma fresh_part_storable:
  assumes new: "conv_new_part spp junk clock (Some mem, f) = Some f'" and b: "8 * tt_pgs spp \<le> MAX_RW_COUNT" "tt_lines spp < 2 ^ 32" "secs_per_pg spp = 8"
  shows "storable f'" "fits_in f' f'" "cf_page_counter f' = replicate (nchs spp * luns_per_ch spp) 0"
    "wp_ch (cf_wp f') = 0" "wp_lun (cf_wp f') = 0" "wp_pg (cf_wp f') = 0" "write_credits (cf_wfc f') = pgs_per_line spp mod 2 ^ 32"
    "b_npgs (ssd_blk (cf_ssd f') k) = length (b_pg (ssd_blk (cf_ssd f') k))"
proof -
  obtain s f1 where s: "ssd_init spp junk clock = Some s" "conv_init_ftl (Some mem) f conv_init_params s = Some f1"
    "f' = f1\<lparr>cf_page_counter := replicate (nchs spp * luns_per_ch spp) 0, cf_ssd := s\<lparr>ssd_checking := False\<rparr>\<rparr>"
    using new by (auto simp: conv_new_part_def bind_eq_Some_conv)
  have geo: "ssd_sp s = spp" "\<And>ch. c_nluns (ssd_ch s ch) = luns_per_ch spp" "\<And>k. l_npls (ssd_lun s k) = pls_per_lun spp"
    "\<And>k. ssd_blk s k = ssd_init_nand_blk spp"
    using s(1) by (auto simp: ssd_init_def ssd_init_ch_def bind_eq_Some_conv ssd_init_nand_lun_def)
  obtain f2 f3 f4 where f: "init_lines (Some mem) (init_rmap (init_maptbl (f\<lparr>cf_cp := conv_init_params, cf_ssd := s\<rparr>))) = Some f2"
    "prepare_write_pointer f2 USER_IO = Some f3" "prepare_write_pointer f3 GC_IO = Some f4" "f1 = init_write_flow_control f4"
    using s(2) by (auto simp: conv_init_ftl_def bind_eq_Some_conv)
  have f2: "cf_rmap f2 = replicate (tt_pgs spp) INVALID_LPN" "pq_step (lm_victim_pq (cf_lm f2)) = tt_lines spp + 1"
    using f(1) geo(1) by (auto simp: init_lines_def init_rmap_def init_maptbl_def bind_eq_Some_conv pqueue_init_def nvmev_assert_def Let_def split: if_splits)
  have f': "cf_rmap f' = replicate (tt_pgs spp) INVALID_LPN" "pq_step (lm_victim_pq (cf_lm f')) = tt_lines spp + 1" "cf_ssd f' = s\<lparr>ssd_checking := False\<rparr>"
    using s(3) f(4) f2 prepare_write_pointer_frame[OF f(2)] prepare_write_pointer_frame[OF f(3)] by (simp_all add: init_write_flow_control_def)
  have pg: "pg_valid (ssd_init_nand_page spp)" using b(3) by (simp add: pg_valid_def ssd_init_nand_page_def MAX_RW_COUNT_def)
  have "is_int 0" by (simp add: is_int_def)
  then show "storable f'"
    using b pg geo f' by (auto simp: storable_def fields_fit_def ssd_init_nand_blk_def INVALID_LPN_def)
  show "fits_in f' f'"
    using s(3) geo f' by (simp add: fits_in_def roomy_def ssd_init_nand_blk_def)
  show "cf_page_counter f' = replicate (nchs spp * luns_per_ch spp) 0" using s(3) by simp
  show "wp_ch (cf_wp f') = 0" "wp_lun (cf_wp f') = 0" "wp_pg (cf_wp f') = 0"
    using s(3) f(2-4) by (auto simp: init_write_flow_control_def prepare_write_pointer_def get_next_free_line_def set_wp_def bind_eq_Some_conv Let_def split: list.splits)
  have "cf_sp f4 = spp" using f(1) prepare_write_pointer_frame(1)[OF f(2)] prepare_write_pointer_frame(1)[OF f(3)] geo(1)
    by (auto simp: init_lines_def init_rmap_def init_maptbl_def bind_eq_Some_conv Let_def)
  then show "write_credits (cf_wfc f') = pgs_per_line spp mod 2 ^ 32" using s(3) f(4) by (simp add: init_write_flow_control_def)
  show "b_npgs (ssd_blk (cf_ssd f') k) = length (b_pg (ssd_blk (cf_ssd f') k))" using geo f' by (simp add: ssd_init_nand_blk_def)
qed

lemma gib_tt_pgs: "tt_pgs gib_spp = 262144"
  unfolding gib_spp_def by (simp add: ssd_init_params_def Let_def conv_cfg_def load_conv_configs_def blank_cfg_def DIV_ROUND_UP_def)

lemma gib_secs: "secs_per_pg gib_spp = 8"
  unfolding gib_spp_def by (simp add: ssd_init_params_def Let_def conv_cfg_def load_conv_configs_def blank_cfg_def DIV_ROUND_UP_def)

lemma namespace_parts:
  assumes "conv_init_namespace cfg cap junk clock raw stats wait = Some ns" "ssd_init_params cap (SSD_PARTITIONS cfg) cfg = Some spp"
  shows "those (map (conv_new_part spp junk clock) raw) = Some (cn_ftls ns)" "cn_nr_parts ns = SSD_PARTITIONS cfg"
  using assms by (auto simp: conv_init_namespace_def bind_eq_Some_conv)

lemma those_all: "those xs = Some ys \<Longrightarrow> \<forall>x\<in>set xs. \<exists>y. x = Some y"
  by (induction xs arbitrary: ys) (auto split: option.splits)

lemma gib_parts: "cn_ftls gib_ns = replicate 4 gib_ftl" "cn_nr_parts gib_ns = 4"
  "conv_new_part gib_spp 0 (\<lambda>n. of_nat n * 1000) (Some (replicate 8193 0), blank_ftl) = Some gib_ftl"
proof -
  have "SSD_PARTITIONS conv_cfg = 4" using conv_cfg_fields(1)[OF conv_cfg_loaded] .
  then have fs: "those (map (conv_new_part gib_spp 0 (\<lambda>n. of_nat n * 1000)) gib_raw) = Some (cn_ftls gib_ns)" "cn_nr_parts gib_ns = 4"
    using namespace_parts[OF gib_ns_ok(1) gib_spp_ok(1)] by simp_all
  then obtain f where f: "conv_new_part gib_spp 0 (\<lambda>n. of_nat n * 1000) (Some (replicate 8193 0), blank_ftl) = Some f"
    using those_all[OF fs(1)] by (simp add: gib_raw_def) blast
  show g: "conv_new_part gib_spp 0 (\<lambda>n. of_nat n * 1000) (Some (replicate 8193 0), blank_ftl) = Some gib_ftl"
    using f by (simp add: gib_ftl_def)
  have "those (replicate n (Some gib_ftl)) = Some (replicate n gib_ftl)" for n by (induction n) simp_all
  then show "cn_ftls gib_ns = replicate 4 gib_ftl" using fs(1) g unfolding gib_raw_def by simp
  show "cn_nr_parts gib_ns = 4" by fact
qed

lemma gib_storable: "\<forall>f\<in>set (cn_ftls gib_ns). storable f" "loads_into gib_ns (\<lambda>_. Some (replicate 8193 0)) gib_ns"
  "\<forall>g\<in>set (cn_ftls gib_ns). ssd_ok (cf_ssd g)"
proof -
  note fr = fresh_part_storable[OF gib_parts(3)]
  have b: "8 * tt_pgs gib_spp \<le> MAX_RW_COUNT" "tt_lines gib_spp < 2 ^ 32" using gib_tt_pgs gib_spp_ok(6) by (simp_all add: MAX_RW_COUNT_def)
  show "\<forall>f\<in>set (cn_ftls gib_ns). storable f" using fr(1)[OF b gib_secs] gib_parts(1) by simp
  show "loads_into gib_ns (\<lambda>_. Some (replicate 8193 0)) gib_ns"
    using fr(2)[OF b gib_secs] gib_parts(1,2) gib_ftl_ok(4) gib_spp_ok(6) by (simp add: loads_into_def)
  show "\<forall>g\<in>set (cn_ftls gib_ns). ssd_ok (cf_ssd g)" using conv_inv_ssd[OF gib_ftl_ok(1)] gib_parts(1) by simp
qed

text \<open>A drive with one written page: the first write to the first partition of the example.\<close>

lemma place_lpn_fields:
  assumes fit: "fields_fit f" and run: "place_lpn f USER_IO lpn = Some (f', a)" and lpn: "lpn < 2 ^ 64"
  shows "fields_fit f'" "ssd_ch (cf_ssd f') = ssd_ch (cf_ssd f)" "ssd_lun (cf_ssd f') = ssd_lun (cf_ssd f)" "cf_sp f' = cf_sp f"
    "cf_wp f' = cf_wp f" "cf_page_counter f' = cf_page_counter f" "cf_wfc f' = cf_wfc f" "a = mk_ppa (wp_ch (cf_wp f)) (wp_lun (cf_wp f)) (wp_pl (cf_wp f)) (wp_blk (cf_wp f)) (wp_pg (cf_wp f))"
    "\<And>k. length (b_pg (ssd_blk (cf_ssd f') k)) = length (b_pg (ssd_blk (cf_ssd f) k)) \<and> b_npgs (ssd_blk (cf_ssd f') k) = b_npgs (ssd_blk (cf_ssd f) k)"
proof -
  define b where "b = ssd_blk (cf_ssd f) (blk_of a)"
  obtain f1 f2 where r1: "a = mk_ppa (wp_ch (cf_wp f)) (wp_lun (cf_wp f)) (wp_pl (cf_wp f)) (wp_blk (cf_wp f)) (wp_pg (cf_wp f))"
    "set_maptbl_ent f lpn a = Some f1" "set_rmap_ent f1 lpn a = Some f2" "mark_page_valid f2 a = Some f'"
    using run by (auto simp: place_lpn_def get_new_page_def get_wp_def bind_eq_Some_conv Let_def nvmev_assert_def split: if_splits)
  obtain m where f1: "f1 = f\<lparr>cf_maptbl := m\<rparr>" using r1(2) by (auto simp: set_maptbl_ent_def bind_eq_Some_conv)
  obtain i where f2: "f2 = f\<lparr>cf_maptbl := m, cf_rmap := (cf_rmap f)[i := lpn]\<rparr>"
    using r1(3) by (auto simp: f1 set_rmap_ent_def bind_eq_Some_conv array_write_def split: if_splits)
  obtain lne where r: "p_pg a < length (b_pg b)" "f' = set_line (put_blk f2 a ((set_page_status b (p_pg a) PG_VALID)\<lparr>b_vpc := b_vpc b + 1\<rparr>)) (p_blk a) lne"
    using r1(4) by (auto simp: f2 b_def mark_page_valid_def get_pg_def get_blk_def bind_eq_Some_conv Let_def array_read_def nvmev_assert_def split: if_splits)
  have pg: "pg_valid ((b_pg b ! p_pg a)\<lparr>pg_status := PG_VALID\<rparr>)" if "\<forall>p\<in>set (b_pg b). pg_valid p"
    using that nth_mem[OF r(1)] by (fastforce simp: pg_valid_def)
  have chip: "chip_blks (cf_ssd f') = chip_blks (cf_ssd f)" by (simp add: r(2) f2 chip_blks_def set_line_def put_blk_def set_blk_def)
  have blk: "b_erase_cnt (ssd_blk (cf_ssd f') k) = b_erase_cnt (ssd_blk (cf_ssd f) k)" "b_wp (ssd_blk (cf_ssd f') k) = b_wp (ssd_blk (cf_ssd f) k)"
    "set (b_pg (ssd_blk (cf_ssd f') k)) \<subseteq> (if k = blk_of a then insert ((b_pg b ! p_pg a)\<lparr>pg_status := PG_VALID\<rparr>) (set (b_pg b))
      else set (b_pg (ssd_blk (cf_ssd f) k)))" for k
    using set_update_subset_insert[of "b_pg b" "p_pg a"] by (simp_all add: r(2) f2 b_def set_line_def put_blk_def set_blk_def set_page_status_def)
  have pgs: "\<forall>p\<in>set (b_pg (ssd_blk (cf_ssd f') k)). pg_valid p" if "\<forall>p\<in>set (b_pg (ssd_blk (cf_ssd f) k)). pg_valid p" for k
    using blk(3)[of k] that pg b_def by (cases "k = blk_of a") auto
  have rest: "ssd_sp (cf_ssd f') = ssd_sp (cf_ssd f)" "ssd_ch (cf_ssd f') = ssd_ch (cf_ssd f)" "ssd_lun (cf_ssd f') = ssd_lun (cf_ssd f)"
    "set (cf_rmap f') \<subseteq> insert lpn (set (cf_rmap f))" "pq_step (lm_victim_pq (cf_lm f')) = pq_step (lm_victim_pq (cf_lm f))"
    using set_update_subset_insert[of "cf_rmap f" i lpn] by (simp_all add: r(2) f2 set_line_def put_blk_def set_blk_def)
  have "\<forall>v\<in>set (cf_rmap f'). v < 2 ^ 64" using fit lpn rest(4) by (auto simp: fields_fit_def)
  moreover have "\<forall>k\<in>chip_blks (cf_ssd f). \<forall>p\<in>set (b_pg (ssd_blk (cf_ssd f') k)). pg_valid p"
    using fit pgs unfolding fields_fit_def by blast
  ultimately show "fields_fit f'" using fit blk(1,2) rest(1-3,5) unfolding fields_fit_def chip by simp
  show "ssd_ch (cf_ssd f') = ssd_ch (cf_ssd f)" "ssd_lun (cf_ssd f') = ssd_lun (cf_ssd f)" "cf_sp f' = cf_sp f"
    "cf_wp f' = cf_wp f" "cf_page_counter f' = cf_page_counter f" "cf_wfc f' = cf_wfc f" "a = mk_ppa (wp_ch (cf_wp f)) (wp_lun (cf_wp f)) (wp_pl (cf_wp f)) (wp_blk (cf_wp f)) (wp_pg (cf_wp f))"
    "\<And>k. length (b_pg (ssd_blk (cf_ssd f') k)) = length (b_pg (ssd_blk (cf_ssd f) k)) \<and> b_npgs (ssd_blk (cf_ssd f') k) = b_npgs (ssd_blk (cf_ssd f) k)"
    using b_def r1(1) by (auto simp: r(2) f2 set_line_def put_blk_def set_blk_def set_page_status_def)
qed
text \<open>A write to an unmapped page that is not the last of its wordline, with credits left, works on the tables only.\<close>

lemma write_page_fields:
  assumes fit: "fields_fit f" and run: "write_page f swr lpn = Some (f', swr', t)" and lpn: "lpn < 2 ^ 64"
    and free: "get_maptbl_ent f lpn = Some UNMAPPED_PPA" and cred: "1 < write_credits (cf_wfc f)" "write_credits (cf_wfc f) < 2 ^ 32"
    and die: "cf_page_counter f ! (wp_ch (cf_wp f) * luns_per_ch (cf_sp f) + wp_lun (cf_wp f)) = 0" "wp_pg (cf_wp f) = 0"
    and one: "1 < pgs_per_oneshotpg (cf_sp f)"
  shows "fields_fit f'" "cf_sp f' = cf_sp f"
    "\<And>g. fits_in f g \<Longrightarrow> \<forall>k\<in>chip_blks (cf_ssd f). b_npgs (ssd_blk (cf_ssd f) k) = length (b_pg (ssd_blk (cf_ssd f) k)) \<Longrightarrow> fits_in f' g"
proof -
  obtain f1 a f2 f3 where r: "place_lpn f USER_IO lpn = Some (f1, a)" "advance_write_pointer f1 USER_IO = Some f2"
    "program_wordline f2 swr a = Some (f3, swr', t)" "check_and_refill_write_credit (consume_write_credit f3) = Some f'"
    using run free by (auto simp: write_page_def remap_lpn_def invalidate_lpn_def mapped_ppa_def bind_eq_Some_conv)
  note p = place_lpn_fields[OF fit r(1) lpn]
  have "1 mod pgs_per_oneshotpg (cf_sp f) \<noteq> 0" using one by simp
  then obtain cs w where f2: "f2 = f1\<lparr>cf_page_counter := cs, cf_wp := w\<rparr>"
    using r(2) p(4-6) die one by (auto simp: advance_write_pointer_def advance_user_pointer_def user_out_def bind_eq_Some_conv Let_def array_read_def split: if_splits)
  have "p_pg a = 0" using p(8) die(2) by (simp add: mk_ppa_def)
  then have f3: "f3 = f2" using r(3) one p(4) by (auto simp: program_wordline_def last_pg_in_wordline_def f2 split: if_splits)
  have f': "f' = consume_write_credit f2"
    using r(4) cred p(7) by (auto simp: f3 f2 check_and_refill_write_credit_def consume_write_credit_def split: if_splits)
  show "fields_fit f'" using p(1) by (simp add: f' f2 consume_write_credit_def fields_fit_def)
  show "cf_sp f' = cf_sp f" using p(4) by (simp add: f' f2 consume_write_credit_def)
  fix g assume g: "fits_in f g" "\<forall>k\<in>chip_blks (cf_ssd f). b_npgs (ssd_blk (cf_ssd f) k) = length (b_pg (ssd_blk (cf_ssd f) k))"
  have "chip_blks (cf_ssd f') = chip_blks (cf_ssd f)" using p(2-4) by (simp add: f' f2 consume_write_credit_def chip_blks_def)
  then show "fits_in f' g" using g p(2-4,9) by (auto simp: f' f2 consume_write_credit_def fits_in_def roomy_def)
qed

definition first_write :: conv_ftl where
  "first_write = fst (the (write_page gib_ftl \<lparr>nc_type = USER_IO, nc_cmd = NAND_WRITE, nc_xfer_size = 4096, nc_stime = 0,
     nc_interleave_pci_dma = False, nc_ppa = UNMAPPED_PPA, nc_arrive_time = 0\<rparr> 5))"

definition written_ns :: conv_ns where
  "written_ns = gib_ns\<lparr>cn_ftls := (cn_ftls gib_ns)[0 := first_write]\<rparr>"

lemma gib_oneshot: "pgs_per_oneshotpg gib_spp = 8"
  unfolding gib_spp_def by (simp add: ssd_init_params_def Let_def conv_cfg_def load_conv_configs_def blank_cfg_def DIV_ROUND_UP_def)

lemma first_write_ok:
  "conv_inv first_write" "flow_ok (host_pages gib_ns) first_write" "mapped first_write = {5}" "cf_sp first_write = gib_spp"
  "fields_fit first_write" "fits_in first_write gib_ftl"
proof -
  let ?swr = "\<lparr>nc_type = USER_IO, nc_cmd = NAND_WRITE, nc_xfer_size = 4096, nc_stime = 0,
     nc_interleave_pci_dma = False, nc_ppa = UNMAPPED_PPA, nc_arrive_time = 0\<rparr>"
  note fl = gib_ftl_ok
  have d: "ns_inv (host_pages gib_ns) gib_ns" using gib_ns_ok(2) by (simp add: drive_ok_def)
  then have flow: "flow_ok (host_pages gib_ns) gib_ftl" using gib_parts(1) by (simp add: ns_inv_def)
  have "ns_spp gib_ns = gib_spp" using gib_parts(1) fl(4) by (simp add: ns_spp_def)
  then have hp: "5 < host_pages gib_ns" using gib_ns_ok(4) gib_secs by (simp add: host_pages_def gib_parts(2))
  obtain f' swr' t where w: "write_page gib_ftl ?swr 5 = Some (f', swr', t)" "conv_inv f'" "flow_ok (host_pages gib_ns) f'"
    "mapped f' = insert 5 (mapped gib_ftl)" "cf_sp f' = cf_sp gib_ftl"
    using write_page_ok[OF fl(1) flow hp, of ?swr] by auto
  have e: "first_write = f'" using w(1) by (simp add: first_write_def)
  have b: "8 * tt_pgs gib_spp \<le> MAX_RW_COUNT" "tt_lines gib_spp < 2 ^ 32" using gib_tt_pgs gib_spp_ok(6) by (simp_all add: MAX_RW_COUNT_def)
  note fr = fresh_part_storable[OF gib_parts(3) b gib_secs]
  have "length (cf_maptbl gib_ftl) = tt_pgs gib_spp"
    using fl(1,4) core_parts(4)[of "{}" "{}" "{}" gib_ftl] by (simp add: conv_inv_def map_ok_def)
  moreover have "cf_maptbl gib_ftl ! 5 = UNMAPPED_PPA" using fl(3,4) gib_tt_pgs by (auto simp: mapped_def)
  ultimately have free: "get_maptbl_ent gib_ftl 5 = Some UNMAPPED_PPA" using gib_tt_pgs by (simp add: get_maptbl_ent_def)
  have ppl: "pgs_per_line gib_spp = 32" using gib_spp_ok(7) gib_tt_pgs by simp
  have "0 < nchs gib_spp * luns_per_ch gib_spp" using gib_spp_ok(2) by (simp add: geo_ok_def)
  then have die: "cf_page_counter gib_ftl ! (wp_ch (cf_wp gib_ftl) * luns_per_ch (cf_sp gib_ftl) + wp_lun (cf_wp gib_ftl)) = 0"
    using fr(3-5) by simp
  have cred: "1 < write_credits (cf_wfc gib_ftl)" "write_credits (cf_wfc gib_ftl) < 2 ^ 32" using fr(7) ppl by simp_all
  have fit: "fields_fit gib_ftl" using fr(1) by (simp add: storable_def)
  have one: "1 < pgs_per_oneshotpg (cf_sp gib_ftl)" using gib_oneshot fl(4) by simp
  have lpn: "5 < (2::nat) ^ 64" by simp
  note wf = write_page_fields[OF fit w(1) lpn free cred die fr(6) one]
  show "conv_inv first_write" "flow_ok (host_pages gib_ns) first_write" "mapped first_write = {5}" "cf_sp first_write = gib_spp"
    "fields_fit first_write" "fits_in first_write gib_ftl"
    using e w(2-5) fl(3,4) wf(1) wf(3)[OF fr(2)] fr(8) by simp_all
qed

lemma written_ns_ok:
  "drive_ok written_ns" "ns_mapped written_ns = {20}" "\<forall>f\<in>set (cn_ftls written_ns). fields_fit f"
  "\<forall>f\<in>set (cn_ftls written_ns). 8 * tt_pgs (cf_sp f) \<le> MAX_RW_COUNT" "loads_into written_ns (\<lambda>_. Some (replicate 8193 0)) gib_ns"
proof -
  have fs: "cn_ftls written_ns = [first_write, gib_ftl, gib_ftl, gib_ftl]" "cn_nr_parts written_ns = 4"
    "cn_ftls gib_ns = [gib_ftl, gib_ftl, gib_ftl, gib_ftl]" using gib_parts(1,2) by (simp_all add: written_ns_def numeral_eq_Suc)
  have sp: "ns_spp written_ns = gib_spp" "ns_spp gib_ns = gib_spp" using fs first_write_ok(4) gib_ftl_ok(4) by (simp_all add: ns_spp_def)
  have hp: "host_pages written_ns = host_pages gib_ns" using sp by (simp add: host_pages_def written_ns_def)
  show "drive_ok written_ns" using gib_ns_ok(2) first_write_ok(1,2,4) fs sp hp
    by (simp add: drive_ok_def ns_inv_def gib_parts(2)) (simp add: written_ns_def)
  show "ns_mapped written_ns = {20}"
  proof -
    have m: "mapped (cn_ftls written_ns ! q) = (if q = 0 then {5} else {})" if "q < 4" for q
    proof -
      have "q = 0 \<or> q = 1 \<or> q = 2 \<or> q = 3" using that by linarith
      then show ?thesis using first_write_ok(3) gib_ftl_ok(3) fs(1) by (elim disjE) simp_all
    qed
    have "lpn div 4 \<in> mapped (cn_ftls written_ns ! (lpn mod 4)) \<longleftrightarrow> lpn = 20" for lpn
    proof -
      have "lpn div 4 \<in> mapped (cn_ftls written_ns ! (lpn mod 4)) \<longleftrightarrow> lpn mod 4 = 0 \<and> lpn div 4 = 5" by (simp add: m)
      also have "\<dots> \<longleftrightarrow> lpn = 20" by presburger
      finally show ?thesis .
    qed
    then show ?thesis by (simp add: ns_mapped_def fs(2))
  qed
  show "\<forall>f\<in>set (cn_ftls written_ns). fields_fit f" using fs first_write_ok(5) gib_storable(1) by (simp add: storable_def)
  show "\<forall>f\<in>set (cn_ftls written_ns). 8 * tt_pgs (cf_sp f) \<le> MAX_RW_COUNT"
    using fs first_write_ok(4) gib_ftl_ok(4) gib_tt_pgs by (simp add: MAX_RW_COUNT_def)
  have "fits_in (cn_ftls written_ns ! q) (cn_ftls gib_ns ! q) \<and> tt_lines (cf_sp (cn_ftls written_ns ! q)) = 8192" if "q < 4" for q
  proof (cases "q = 0")
    case True
    then show ?thesis using fs first_write_ok(4,6) gib_spp_ok(6) by simp
  next
    case False
    then have "cn_ftls written_ns ! q = cn_ftls gib_ns ! q" by (simp add: written_ns_def)
    moreover have "fits_in (cn_ftls gib_ns ! q) (cn_ftls gib_ns ! q)" using gib_storable(2) that unfolding loads_into_def gib_parts(2) by blast
    ultimately show ?thesis using that gib_parts(1) gib_ftl_ok(4) gib_spp_ok(6) by simp
  qed
  then show "loads_into written_ns (\<lambda>_. Some (replicate 8193 0)) gib_ns"
    using fs gib_parts(2) by (simp add: loads_into_def)
qed

text \<open>The one page that was written is 20; it comes back with its 7s.\<close>

lemma load_save_roundtrip_witness:
  "\<exists>file fs m'. save_device (\<lambda>_ l. 8 * l) 0 0 (\<lambda>_. 7) written_ns = Some file \<and>
    load_device 4 (\<lambda>_. Some (replicate 8193 0)) 4096 (2 ^ 30) file (\<lambda>_. 9) gib_ns = Some (m', gib_ns\<lparr>cn_ftls := fs\<rparr>) \<and>
    (\<forall>q<4. conv_inv (fs ! q)) \<and> ns_mapped (gib_ns\<lparr>cn_ftls := fs\<rparr>) = {20} \<and> m' (4096 + 20 * 4096) = 7 \<and> (\<forall>x<2 ^ 30. m' (4096 + x) \<in> {0, 7})"
proof -
  obtain fl fs m' where r: "save_device (\<lambda>_ l. 8 * l) 0 0 (\<lambda>_. 7) written_ns = Some fl"
    "load_device 4 (\<lambda>_. Some (replicate 8193 0)) 4096 (2 ^ 30) fl (\<lambda>_. 9) gib_ns = Some (m', gib_ns\<lparr>cn_ftls := fs\<rparr>)"
    "\<forall>q<cn_nr_parts written_ns. restored (cn_ftls written_ns ! q) (cn_ftls gib_ns ! q) (fs ! q) \<and> conv_inv (fs ! q) \<and>
      cf_wfc (fs ! q) = cf_wfc (cn_ftls gib_ns ! q)"
    "ns_mapped (gib_ns\<lparr>cn_ftls := fs\<rparr>) = ns_mapped written_ns"
    "\<forall>x. x div PAGE_SIZE \<in> ns_mapped written_ns \<longrightarrow> m' (4096 + x) = 7" "\<forall>x<2 ^ 30. m' (4096 + x) \<in> {0, 7}"
    using load_save_roundtrip[OF written_ns_ok(1,3-5) gib_storable(3) order_refl, of "\<lambda>_ l. 8 * l" 0 0 "\<lambda>_. 7" 4096 "2 ^ 30" "\<lambda>_. 9"]
    by (elim exE conjE)
  have "m' (4096 + 20 * 4096) = 7" using r(5)[rule_format, of "20 * 4096"] by (simp add: written_ns_ok(2))
  moreover have "cn_nr_parts written_ns = 4" by (simp add: written_ns_def gib_parts(2))
  ultimately show ?thesis using r(1-4,6) unfolding written_ns_ok(2) by (intro exI[of _ fl] exI[of _ fs] exI[of _ m'] conjI) simp_all
qed

text \<open>With less than four bytes to spare behind the variable, no file is loaded within the bounds of the stack.\<close>

lemma read_line_narrow: "spare < 4 \<Longrightarrow> read_line spare bs = None"
  by (cases "read_line spare bs") (auto simp: read_line_def bind_eq_Some_conv nvmev_assert_def read_full_def split: if_splits prod.splits)

lemma read_lines_narrow: "spare < 4 \<Longrightarrow> read_list c (read_line spare) bs = (if c = 0 then Some ([], bs) else None)"
  by (cases c) (simp_all add: read_line_narrow)

theorem load_overwrites_stack:
  assumes "spare < 4" "0 < cn_nr_parts ns"
  shows "load_device spare mem base n file m ns = None"
proof -
  have "lm_tt_lines lm = 0" if "load_lines spare k mem' bs = Some (lm, rest)" for k mem' bs lm rest
    using that by (auto simp: load_lines_def bind_eq_Some_conv read_lines_narrow[OF assms(1)] split: if_splits)
  then have "load_part spare mem' base np q f mf = None" for mem' np q f mf
    by (cases "load_part spare mem' base np q f mf") (auto simp: load_part_def Let_def bind_eq_Some_conv find_line_def)
  moreover have "[0..<cn_nr_parts ns] = 0 # [1..<cn_nr_parts ns]" using assms(2) by (simp add: upt_conv_Cons)
  ultimately show ?thesis by (simp add: load_device_def bind_eq_None_conv)
qed

theorem load_overwrites_stack_witness:
  "load_device 3 (\<lambda>_. Some (replicate 8193 0)) 4096 (2 ^ 30) [] (\<lambda>_. 9) gib_ns = None"
  by (rule load_overwrites_stack) (simp_all add: gib_parts(2))

lemma restored_dump:
  assumes "restored f g f'" "fits_in f g"
  shows "dump_part f' = dump_part f" "cf_sp f' = cf_sp f" "lm_tt_lines (cf_lm f') = lm_tt_lines (cf_lm f)"
proof -
  obtain d where r: "cf_maptbl f' = cf_maptbl f" "cf_rmap f' = cf_rmap f" "cf_wp f' = cf_wp f" "cf_gc_wp f' = cf_gc_wp f"
    "cf_page_counter f' = cf_page_counter f" "cf_ssd f' = put_blks (cf_ssd g) (ssd_blk (cf_ssd f)) (chip_blks (cf_ssd f))"
    "cf_lm f' = (cf_lm f)\<lparr>lm_victim_pq := (lm_victim_pq (cf_lm f))\<lparr>pq_ops := victim_ops, pq_d := d\<rparr>\<rparr>"
    using assms(1) unfolding restored_def by blast
  show sp: "cf_sp f' = cf_sp f" using r(6) assms(2) by (simp add: fits_in_def roomy_def)
  show "lm_tt_lines (cf_lm f') = lm_tt_lines (cf_lm f)" by (simp add: r(7))
  show "dump_part f' = dump_part f" by (simp add: dump_part_def Let_def sp r(1-5,7))
qed

lemma write_all_cong: "(\<And>x. x \<in> set xs \<Longrightarrow> f x = g x) \<Longrightarrow> write_all f xs = write_all g xs"
  by (induction xs) simp_all

lemma dump_part_ok:
  assumes "part_valid f"
  shows "\<exists>bs. dump_part f = Some bs"
  using assms by (simp add: dump_part_def part_valid_def lm_valid_def dump_wp_def Let_def)

text \<open>The dump that is made to compare a loaded drive with the saved one exists, and it is the same for both, whatever
  the padding of its header holds: loading never looks different from the drive that was saved.\<close>

theorem dump_after_load:
  assumes "drive_ok ns" "\<forall>f\<in>set (cn_ftls ns). storable f" "loads_into ns mem ns0" "4 \<le> spare"
  shows "\<exists>file m' ns' dump. save_device line_addr pad b0 src ns = Some file \<and> load_device spare mem b1 n file m ns0 = Some (m', ns') \<and>
    dump_ftl_state pad' ns' = Some dump \<and> dump_ftl_state pad' ns = Some dump"
proof -
  note v = drive_valid[OF assms(1,2)]
  have np: "cn_nr_parts ns0 = cn_nr_parts ns" "0 < cn_nr_parts ns" "length (cn_ftls ns) = cn_nr_parts ns"
    "\<forall>q<cn_nr_parts ns. fits_in (cn_ftls ns ! q) (cn_ftls ns0 ! q)"
    using assms(1,3) v(1) by (simp_all add: loads_into_def drive_ok_def ns_valid_def)
  obtain fl where saved: "save_device line_addr pad b0 src ns = Some fl" using save_device_enc[OF v(1)] by blast
  from load_device_enc[OF v(1) assms(3,4) this] obtain fs m' where r: "load_device spare mem b1 n fl m ns0 = Some (m', ns0\<lparr>cn_ftls := fs\<rparr>)"
    "length fs = cn_nr_parts ns" "\<forall>q<cn_nr_parts ns. restored (cn_ftls ns ! q) (cn_ftls ns0 ! q) (fs ! q)" by blast
  have same: "dump_part (fs ! q) = dump_part (cn_ftls ns ! q)" "cf_sp (fs ! q) = cf_sp (cn_ftls ns ! q)"
    "lm_tt_lines (cf_lm (fs ! q)) = lm_tt_lines (cf_lm (cn_ftls ns ! q))" if "q < cn_nr_parts ns" for q
    using restored_dump[of "cn_ftls ns ! q" "cn_ftls ns0 ! q" "fs ! q"] r(3) np(4) that by blast+
  have "write_all (\<lambda>q. do { f \<leftarrow> array_read fs q; dump_part f }) [0..<cn_nr_parts ns] =
      write_all (\<lambda>q. do { f \<leftarrow> array_read (cn_ftls ns) q; dump_part f }) [0..<cn_nr_parts ns]"
    using same(1) r(2) np(3) by (intro write_all_cong) simp
  then have eq: "dump_ftl_state pad' (ns0\<lparr>cn_ftls := fs\<rparr>) = dump_ftl_state pad' ns"
    using same(2,3)[of 0] r(2) np(1-3) by (simp add: dump_ftl_state_def)
  have "\<exists>bs. dump_part (cn_ftls ns ! q) = Some bs" if "q < cn_nr_parts ns" for q
    using v(1) that by (intro dump_part_ok) (simp add: ns_valid_def)
  then have "write_all (\<lambda>q. do { f \<leftarrow> array_read (cn_ftls ns) q; dump_part f }) [0..<cn_nr_parts ns] =
      Some (concat (map (\<lambda>q. the (dump_part (cn_ftls ns ! q))) [0..<cn_nr_parts ns]))"
    using np(3) by (intro write_all_Some) auto
  then obtain dump where "dump_ftl_state pad' ns = Some dump" using np(2,3) by (auto simp: dump_ftl_state_def Let_def)
  then show ?thesis using saved r(1) eq by auto
qed

theorem dump_after_load_witness:
  "\<exists>file m' ns' dump. save_device (\<lambda>_ l. 8 * l) 0 0 (\<lambda>_. 7) gib_ns = Some file \<and>
    load_device 4 (\<lambda>_. Some (replicate 8193 0)) 4096 (2 ^ 30) file (\<lambda>_. 9) gib_ns = Some (m', ns') \<and>
    dump_ftl_state 5 ns' = Some dump \<and> dump_ftl_state 5 gib_ns = Some dump"
  by (rule dump_after_load[OF gib_ns_ok(2) gib_storable(1,2)]) simp

text \<open>When the file ends before or inside the contents of a page, the loop that reads the page never ends: at the end of
  the file every read delivers no byte, and only complete pages end the loop.\<close>

theorem truncated_page_never_loads:
  assumes "i < length rmap" "rmap ! i \<noteq> INVALID_LPN" "length bs < PAGE_SIZE"
  shows "load_data base np q rmap i (m, bs) = None"
  using assms load_page_short by (simp add: load_data_def)

theorem truncated_page_never_loads_witness:
  "load_data 4096 4 2 [INVALID_LPN, 5] 1 (\<lambda>_. 0, replicate 4095 1) = None"
  by (rule truncated_page_never_loads) (simp_all add: INVALID_LPN_def)

end
