(* ===== verification/Phfrag_Clean.thy ===== *)
theory Phfrag_Clean
  imports Conv_Props
begin

text \<open>
  Rewriting a drive with a chosen degree of fragmentation (src/conv\_ftl.c): the pointer that stays on a die instead of
  moving to the next one, and the rewriting of a range of logical pages of one partition.

  Random numbers are a parameter \<open>rnd\<close>; the state counts how many have been drawn.
\<close>

section \<open>Chunks and where rewriting stopped\<close>

record lba_chunk =
  ck_start :: nat
  ck_end :: nat
  ck_devide_size :: nat
  ck_idx :: nat
  ck_ch :: int
  ck_lun :: int
  ck_size :: nat
  ck_counter :: int
  ck_conti :: int

text \<open>Where to go on, and either the die on which the range was left, or the place of the waiting range that goes first.\<close>

record rewrite_pointer =
  rp_ch :: int
  rp_lun :: int
  rp_startpoint :: nat
  rp_preempt :: bool
  rp_preempt_counter :: nat

section \<open>The write pointer\<close>

text \<open>The partition, the pages written since the last change of range, the pages written on the die the range stays on
  (negative when it does not), and the number of random numbers drawn.\<close>

record cleaner =
  cl_ftl :: conv_ftl
  cl_count :: nat
  cl_conti :: int
  cl_tick :: nat

definition turn_limit :: "ssdparams \<Rightarrow> nat" where
  "turn_limit spp = 16 * pgs_per_oneshotpg spp"

text \<open>At the end of a wordline: whether the range gives way, whether the pointer stays on its die, and the new cnt.\<close>

definition stay_longer :: "ssdparams \<Rightarrow> nat \<Rightarrow> nat \<Rightarrow> int \<Rightarrow> bool \<times> bool \<times> int" where
  "stay_longer spp c cnt conti0 = (
     let conti = (if conti0 + 1 \<ge> int (max_con spp) then -1 else conti0 + 1) in
     if cnt \<ge> turn_limit spp then (True, False, conti)
     else if c < pgs_per_blk spp then (False, True, conti)
     else (False, False, conti - 1))"

definition start_staying :: "ssdparams \<Rightarrow> nat \<Rightarrow> nat \<Rightarrow> bool \<times> bool \<times> int" where
  "start_staying spp c cnt =
    (if cnt \<ge> turn_limit spp then (True, False, 0)
     else if c < pgs_per_blk spp then (False, True, 0)
     else (False, False, 0))"

definition wordline_end :: "ssdparams \<Rightarrow> nat \<Rightarrow> (nat \<Rightarrow> nat) \<Rightarrow> bool \<Rightarrow> nat \<Rightarrow> cleaner \<Rightarrow> bool \<times> bool \<times> int \<times> nat" where
  "wordline_end spp degree rnd final c s =
    (if final then (False, False, cl_conti s, cl_tick s)
     else if cl_conti s \<ge> 0 then (let (stop, stay, conti) = stay_longer spp c (cl_count s) (cl_conti s) in (stop, stay, conti, cl_tick s))
     else if degree > rnd (cl_tick s) mod 100
     then (let (stop, stay, conti) = start_staying spp c (cl_count s) in (stop, stay, conti, cl_tick s + 1))
     else (False, False, cl_conti s, cl_tick s + 1))"

definition advance_write_pointer_cleanver ::
  "nat \<Rightarrow> (nat \<Rightarrow> nat) \<Rightarrow> bool \<Rightarrow> cleaner \<Rightarrow> (cleaner \<times> (nat \<times> nat) option) option" where
  "advance_write_pointer_cleanver degree rnd final s0 = do {
     let f = cl_ftl s0;
     let spp = cf_sp f;
     let w = cf_wp f;
     let idx = wp_ch w * luns_per_ch spp + wp_lun w;
     c \<leftarrow> array_read (cf_page_counter f) idx;
     check_addr c (pgs_per_blk spp);
     nvmev_assert (pgs_per_oneshotpg spp \<noteq> 0);
     let f1 = f\<lparr>cf_page_counter := (cf_page_counter f)[idx := c + 1]\<rparr>;
     let s = s0\<lparr>cl_count := cl_count s0 + 1\<rparr>;
     (if (c + 1) mod pgs_per_oneshotpg spp \<noteq> 0 then do { f2 \<leftarrow> user_out f1 w; Some (s\<lparr>cl_ftl := f2\<rparr>, None) }
      else do {
        let (stop, stay, conti, tick) = wordline_end spp degree rnd final (c + 1) s;
        f2 \<leftarrow> (if stay then user_out f1 w else user_next_die f1 w);
        Some (s\<lparr>cl_ftl := f2, cl_conti := conti, cl_tick := tick\<rparr>, if stop then Some (wp_ch w, wp_lun w) else None)
      })
   }"

section \<open>Rewriting a range\<close>

text \<open>The logical pages \<open>start\<close>, \<open>start + np\<close> and so on up to \<open>end\<close>.\<close>

definition chunk_lpns :: "nat \<Rightarrow> nat \<Rightarrow> nat \<Rightarrow> nat list" where
  "chunk_lpns np start lst = (if start \<le> lst then lpns_from start np lst else [])"

text \<open>The first waiting range that was left on the die under the write pointer.\<close>

definition waiting_here :: "lba_chunk list \<Rightarrow> write_pointer \<Rightarrow> nat option" where
  "waiting_here prem w = find (\<lambda>k. int (wp_ch w) = ck_ch (prem ! k) \<and> int (wp_lun w) = ck_lun (prem ! k)) [0..<length prem]"

definition give_way :: "nat \<Rightarrow> nat \<Rightarrow> rewrite_pointer option" where
  "give_way startpoint lst =
    (if startpoint > lst then None
     else Some \<lparr>rp_ch = -1, rp_lun = -1, rp_startpoint = startpoint, rp_preempt = False, rp_preempt_counter = 0\<rparr>)"

definition clean_page :: "nat \<Rightarrow> (nat \<Rightarrow> nat) \<Rightarrow> nat \<Rightarrow> cleaner \<Rightarrow> (cleaner \<times> (nat \<times> nat) option) option" where
  "clean_page degree rnd lpn s = do {
     (f1, a) \<leftarrow> remap_lpn (cl_ftl s) lpn;
     (s1, r) \<leftarrow> advance_write_pointer_cleanver degree rnd False (s\<lparr>cl_ftl := f1\<rparr>);
     f2 \<leftarrow> check_and_refill_write_credit (consume_write_credit (cl_ftl s1));
     Some (s1\<lparr>cl_ftl := f2\<rparr>, r)
   }"

fun clean_pages ::
  "nat \<Rightarrow> (nat \<Rightarrow> nat) \<Rightarrow> lba_chunk list \<Rightarrow> bool \<Rightarrow> bool \<Rightarrow> nat \<Rightarrow> nat \<Rightarrow> nat list \<Rightarrow> cleaner \<Rightarrow> (cleaner \<times> rewrite_pointer option) option" where
  "clean_pages degree rnd prem force no_return np lst [] s = Some (s, None)"
| "clean_pages degree rnd prem force no_return np lst (lpn # lpns) s =
    (case if \<not> force \<and> \<not> no_return then waiting_here prem (cf_wp (cl_ftl s)) else None of
       Some k \<Rightarrow> Some (s, Some \<lparr>rp_ch = -1, rp_lun = -1, rp_startpoint = lpn, rp_preempt = True, rp_preempt_counter = k\<rparr>)
     | None \<Rightarrow> do {
         (s1, r) \<leftarrow> clean_page degree rnd (lpn div np) s;
         (case r of
            Some (ch, lun) \<Rightarrow> Some (s1, map_option (\<lambda>p. p\<lparr>rp_ch := int ch, rp_lun := int lun\<rparr>) (give_way (lpn + np) lst))
          | None \<Rightarrow>
              if cl_count s1 \<ge> turn_limit (cf_sp (cl_ftl s1)) then Some (s1, give_way (lpn + np) lst)
              else clean_pages degree rnd prem force no_return np lst lpns s1)
       })"

definition phfrag_cleaner ::
  "nat \<Rightarrow> (nat \<Rightarrow> nat) \<Rightarrow> lba_chunk list \<Rightarrow> bool \<Rightarrow> bool \<Rightarrow> lba_chunk \<Rightarrow> conv_ns \<times> nat \<times> nat \<Rightarrow>
    (conv_ns \<times> lba_chunk \<times> rewrite_pointer option \<times> nat \<times> nat) option" where
  "phfrag_cleaner degree rnd prem force no_return c = (\<lambda>(ns, cnt, tick). do {
     let np = cn_nr_parts ns;
     f \<leftarrow> get_ftl ns (ck_idx c);
     (s, r) \<leftarrow> clean_pages degree rnd prem (force \<or> prem = []) no_return np (ck_end c) (chunk_lpns np (ck_start c) (ck_end c))
       \<lparr>cl_ftl = f, cl_count = cnt, cl_conti = ck_conti c, cl_tick = tick\<rparr>;
     Some (put_ftl ns (ck_idx c) (cl_ftl s), c\<lparr>ck_conti := cl_conti s\<rparr>, r, cl_count s, cl_tick s)
   })"

end
