(* ===== verification/Phfrag_Lists.thy ===== *)
theory Phfrag_Lists
  imports Phfrag_Clean
begin

text \<open>
  The mapped logical pages of a drive as a list of ranges (src/main.c), either all of them in order or split over the
  partitions and a number of lists, and the count of fragmented neighbours (src/check\_phfrag.c).
\<close>

section \<open>Ranges of mapped pages\<close>

definition generate_lpn :: "nat \<Rightarrow> nat \<Rightarrow> nat \<Rightarrow> nat \<Rightarrow> int \<Rightarrow> int \<Rightarrow> lba_chunk" where
  "generate_lpn start lst sz idx ch lun = \<lparr>ck_start = start, ck_end = lst, ck_devide_size = 0, ck_idx = idx, ck_ch = ch, ck_lun = lun,
     ck_size = sz, ck_counter = -1, ck_conti = -1\<rparr>"

text \<open>The entry of a logical page of the drive in the table of its partition.\<close>

definition table_entry :: "conv_ns \<Rightarrow> nat \<Rightarrow> ppa option" where
  "table_entry ns g = do {
     f \<leftarrow> array_read (cn_ftls ns) (g mod cn_nr_parts ns);
     array_read (cf_maptbl f) (g div cn_nr_parts ns)
   }"

definition create_list_from_table :: "ssdparams \<Rightarrow> conv_ns \<Rightarrow> lba_chunk list option" where
  "create_list_from_table spp ns = do {
     let total = tt_pgs spp * cn_nr_parts ns;
     (chunks, start, cnt) \<leftarrow> foldM (\<lambda>g (chunks, start, cnt). do {
         a \<leftarrow> table_entry ns g;
         Some (if a \<noteq> UNMAPPED_PPA then (chunks, if cnt = 0 then g else start, cnt + 1)
               else if cnt \<noteq> 0 then (chunks @ [generate_lpn start (g - 1) cnt 0 (-1) (-1)], start, 0)
               else (chunks, start, cnt))
       }) [0..<total] ([], 0, 0);
     Some (if cnt \<noteq> 0 then chunks @ [generate_lpn start (total - 1) cnt 0 (-1) (-1)] else chunks)
   }"

section \<open>Ranges by partition\<close>

text \<open>The first page of partition \<open>i\<close> from \<open>first\<close> on, and the last one up to \<open>lst\<close>; the subtraction wraps at 64 bits.\<close>

definition dump_s :: "nat \<Rightarrow> nat \<Rightarrow> nat \<Rightarrow> nat" where
  "dump_s np i first = first + (i + np - first mod np) mod np"

definition dump_e :: "nat \<Rightarrow> nat \<Rightarrow> nat \<Rightarrow> nat" where
  "dump_e np i lst = (lst + 2 ^ 64 - (lst mod np + np - i) mod np) mod 2 ^ 64"

definition add_run :: "nat \<Rightarrow> nat \<Rightarrow> nat \<Rightarrow> nat \<Rightarrow> nat \<Rightarrow> nat \<Rightarrow> lba_chunk list list \<Rightarrow> lba_chunk list list option" where
  "add_run np num_list cur first lst cnt head = foldM (\<lambda>i head. do {
       l \<leftarrow> array_read head (i * num_list + cur);
       array_write head (i * num_list + cur) (l @ [generate_lpn (dump_s np i first) (dump_e np i lst) cnt i (-1) (-1)])
     }) [0..<np] head"

text \<open>After every \<open>split\<close> logical pages the ranges go to the next list.\<close>

definition next_list :: "nat \<Rightarrow> nat \<Rightarrow> nat \<times> nat \<Rightarrow> nat \<times> nat" where
  "next_list num_list split = (\<lambda>(seen, cur).
     if seen + 1 \<ge> split then (0, if cur + 1 = num_list then cur else cur + 1) else (seen + 1, cur))"

definition create_list_from_table_split :: "ssdparams \<Rightarrow> conv_ns \<Rightarrow> nat \<Rightarrow> lba_chunk list list option" where
  "create_list_from_table_split spp ns num_list = do {
     let np = cn_nr_parts ns;
     nvmev_assert (num_list \<noteq> 0);
     let total = tt_pgs spp * np;
     (head, start, cnt, seen, cur) \<leftarrow> foldM (\<lambda>g (head, start, cnt, pos). do {
         let (seen, cur) = next_list num_list (total div num_list) pos;
         a \<leftarrow> table_entry ns g;
         (if a \<noteq> UNMAPPED_PPA then Some (head, if cnt = 0 then g else start, cnt + 1, seen, cur)
          else if cnt \<noteq> 0 then do { head' \<leftarrow> add_run np num_list cur start (g - 1) cnt head; Some (head', start, 0, seen, cur) }
          else Some (head, start, cnt, seen, cur))
       }) [0..<total] (replicate (np * num_list) [], 0, 0, 0, 0);
     (if cnt \<noteq> 0 then add_run np num_list cur start (total - 1) cnt head else Some head)
   }"

section \<open>Counting fragmented neighbours\<close>

definition is_same_oneshot_page :: "ssdparams \<Rightarrow> ppa \<Rightarrow> ppa \<Rightarrow> bool" where
  "is_same_oneshot_page spp a b \<longleftrightarrow> same_blk_in_ssd a b \<and> p_pg a div pgs_per_oneshotpg spp = p_pg b div pgs_per_oneshotpg spp"

definition is_next_correct :: "ssdparams \<Rightarrow> ppa \<Rightarrow> ppa \<Rightarrow> bool" where
  "is_next_correct spp pre nxt \<longleftrightarrow> is_same_oneshot_page spp pre nxt \<or>
     (let ch = p_ch pre + 1; die = p_lun pre;
          (ch', die') = (if ch \<ge> nchs spp then (0, if die + 1 \<ge> luns_per_ch spp then 0 else die + 1) else (ch, die))
      in p_ch nxt = ch' \<and> p_lun nxt = die')"

text \<open>All pages of a range that lie in the partition of its first page.\<close>

definition check_part :: "ssdparams \<Rightarrow> conv_ns \<Rightarrow> nat \<Rightarrow> nat \<Rightarrow> nat \<Rightarrow> nat option" where
  "check_part spp ns lst start cnt = do {
     prev \<leftarrow> table_entry ns start;
     (prev, cnt) \<leftarrow> foldM (\<lambda>lpn (prev, cnt). do {
         curp \<leftarrow> table_entry ns lpn;
         Some (curp, if is_next_correct spp prev curp then cnt else cnt + 1)
       }) (lpns_from start (cn_nr_parts ns) lst) (prev, cnt);
     Some cnt
   }"

text \<open>The result is the flag that is returned and what is added to the count of the device.\<close>

definition phfrag_check :: "conv_ns \<Rightarrow> nat \<Rightarrow> nat \<Rightarrow> (bool \<times> nat) option" where
  "phfrag_check ns lba n = do {
     f \<leftarrow> array_read (cn_ftls ns) 0;
     let spp = cf_sp f;
     let np = cn_nr_parts ns;
     nvmev_assert (secs_per_pg spp \<noteq> 0 \<and> pgs_per_oneshotpg spp \<noteq> 0);
     let start = lba div secs_per_pg spp;
     let lst = (lba + n + 2 ^ 64 - 1) mod 2 ^ 64 div secs_per_pg spp;
     (if lst div np \<ge> tt_pgs spp then Some (False, 0)
      else do {
        cnt \<leftarrow> foldM (check_part spp ns lst) [start..<min (start + np) (lst + 1)] 0;
        Some (True, cnt)
      })
   }"

section \<open>The check of a whole drive\<close>

definition small_chunk_size :: nat where
  "small_chunk_size = 40"

function check_chunk :: "conv_ns \<Rightarrow> nat \<Rightarrow> nat \<Rightarrow> nat \<Rightarrow> nat option" where
  "check_chunk ns start lst cnt =
    (if start \<le> lst then do {
       let len = min (lst - start + 1) small_chunk_size;
       (flag, n) \<leftarrow> phfrag_check ns start len;
       check_chunk ns (start + len) lst (cnt + n)
     }
     else Some cnt)"
  by pat_completeness auto
termination by (relation "measure (\<lambda>(ns, start, lst, cnt). Suc lst - start)") (auto simp: small_chunk_size_def min_def)

definition check_physical_fragmentation :: "conv_ns \<Rightarrow> nat option" where
  "check_physical_fragmentation ns = do {
     f \<leftarrow> array_read (cn_ftls ns) 0;
     chunks \<leftarrow> create_list_from_table (cf_sp f) ns;
     foldM (\<lambda>c. check_chunk ns (ck_start c) (ck_end c)) chunks 0
   }"

end
