(* ===== verification/Phfrag_Inv.thy ===== *)
theory Phfrag_Inv
  imports Phfrag_Clean
begin

text \<open>
  Rewriting keeps the invariant of a partition: one page, a range of pages, and a call of \<^verbatim>\<open>phfrag\_cleaner\<close> on a
  partition of a drive.
\<close>

section \<open>One page\<close>

lemma wordline_end_stay:
  assumes "wordline_end spp degree rnd final c s = (stop, stay, conti, tick)"
  shows "stay \<Longrightarrow> c < pgs_per_blk spp \<and> \<not> stop" "stop \<Longrightarrow> turn_limit spp \<le> cl_count s"
  using assms by (auto simp: wordline_end_def stay_longer_def start_staying_def Let_def split: if_splits)

lemma cleanver_ok:
  assumes c: "core {} {} {} f" and gc: "gc_ok f" and mid: "user_mid f" and s: "cl_ftl s = f"
    and room: "pgs_per_line (cf_sp f) < card (free_set f)"
  shows "\<exists>f' s' r. advance_write_pointer_cleanver degree rnd final s = Some (s', r) \<and> cl_ftl s' = f' \<and> cl_count s' = cl_count s + 1 \<and>
    core {} {} {} f' \<and> user_ok f' \<and> gc_ok f' \<and> moved f f' \<and> (r \<noteq> None \<longrightarrow> turn_limit (cf_sp f) \<le> cl_count s')"
proof -
  let ?spp = "cf_sp f" and ?w = "cf_wp f"
  let ?c' = "(cf_page_counter f)[wp_die f := Suc (wp_pg ?w)]" and ?f1 = "f\<lparr>cf_page_counter := (cf_page_counter f)[wp_die f := Suc (wp_pg (cf_wp f))]\<rparr>"
  have w: "wp_place_ok ?spp ?w" and pg: "wp_pg ?w = cf_page_counter f ! wp_die f"
    and k: "counters_ok ?spp (blks_of f) (wp_curline ?w) ?c'"
    using mid by (auto simp: user_mid_def)
  have g: "geo_ok ?spp" using c by (simp add: core_def)
  have one: "0 < pgs_per_oneshotpg ?spp" "pgs_per_blk ?spp mod pgs_per_oneshotpg ?spp = 0"
    using geo_pages(1,2)[OF g] by auto
  have die: "wp_die f < length (cf_page_counter f)"
    using k w die_idx_less[of "wp_ch ?w" ?spp "wp_lun ?w"] by (simp add: counters_ok_def wp_place_ok_def)
  have c1: "core {} {} {} ?f1" and gc1: "gc_ok ?f1" using c gc by (simp_all add: core_def gc_ok_def)
  let ?s = "s\<lparr>cl_count := cl_count s + 1\<rparr>"
  obtain stop stay conti tick where e: "wordline_end ?spp degree rnd final (Suc (wp_pg ?w)) ?s = (stop, stay, conti, tick)"
    by (metis prod_cases4)
  note st = wordline_end_stay[OF e]
  have run: "advance_write_pointer_cleanver degree rnd final s =
      (if Suc (wp_pg ?w) mod pgs_per_oneshotpg ?spp \<noteq> 0 then do { f2 \<leftarrow> user_out ?f1 ?w; Some (?s\<lparr>cl_ftl := f2\<rparr>, None) }
       else do { f2 \<leftarrow> (if stay then user_out ?f1 ?w else user_next_die ?f1 ?w);
         Some (?s\<lparr>cl_ftl := f2, cl_conti := conti, cl_tick := tick\<rparr>, if stop then Some (wp_ch ?w, wp_lun ?w) else None) })"
    using die pg w one(1) s e by (simp add: advance_write_pointer_cleanver_def check_addr_def wp_place_ok_def Let_def)
  show ?thesis
  proof (cases "Suc (wp_pg ?w) mod pgs_per_oneshotpg ?spp \<noteq> 0 \<or> stay")
    case True
    have "Suc (wp_pg ?w) < pgs_per_blk ?spp"
    proof (cases stay)
      case False
      then have "Suc (wp_pg ?w) \<noteq> pgs_per_blk ?spp" using True one(2) by auto
      then show ?thesis using w by (simp add: wp_place_ok_def)
    qed (use st(1) in simp)
    then have lt: "?c' ! wp_die f < pgs_per_blk ?spp" using die by simp
    have "\<exists>w'. user_out ?f1 ?w = Some (?f1\<lparr>cf_wp := w'\<rparr>) \<and> core {} {} {} (?f1\<lparr>cf_wp := w'\<rparr>) \<and>
      user_ok (?f1\<lparr>cf_wp := w'\<rparr>) \<and> gc_ok (?f1\<lparr>cf_wp := w'\<rparr>)"
      by (rule user_out_ok[OF c1 gc1]) (use k w lt in \<open>simp_all add: wp_place_ok_def\<close>)
    then obtain w' where w': "user_out ?f1 ?w = Some (?f1\<lparr>cf_wp := w'\<rparr>)" "core {} {} {} (?f1\<lparr>cf_wp := w'\<rparr>)"
      "user_ok (?f1\<lparr>cf_wp := w'\<rparr>)" "gc_ok (?f1\<lparr>cf_wp := w'\<rparr>)" by blast
    have "moved f (?f1\<lparr>cf_wp := w'\<rparr>)" by (simp add: moved_def step_frame_def)
    then show ?thesis using run True w' st by (cases "Suc (wp_pg ?w) mod pgs_per_oneshotpg ?spp \<noteq> 0") simp_all
  next
    case False
    have "free_set ?f1 = free_set f" by (simp add: free_set_def)
    then have "\<exists>f'. user_next_die ?f1 (cf_wp ?f1) = Some f' \<and> core {} {} {} f' \<and> user_ok f' \<and> gc_ok f' \<and> moved ?f1 f'"
      using user_next_die_ok[OF c1 gc1] k w room by simp
    then obtain f' where f': "user_next_die ?f1 ?w = Some f'" "core {} {} {} f'" "user_ok f'" "gc_ok f'" "moved ?f1 f'" by auto
    have "moved f f'" using f'(5) by (simp add: moved_def step_frame_def)
    then show ?thesis using run False f' st(2) by simp
  qed
qed

lemma clean_page_ok:
  assumes inv: "conv_inv f" and fl: "flow_ok N f" and lpn: "lpn < N" and s: "cl_ftl s = f"
  shows "\<exists>s' r. clean_page degree rnd lpn s = Some (s', r) \<and> conv_inv (cl_ftl s') \<and> flow_ok N (cl_ftl s') \<and>
    mapped (cl_ftl s') = insert lpn (mapped f) \<and> cf_sp (cl_ftl s') = cf_sp f \<and> cl_count s' = cl_count s + 1 \<and>
    (r \<noteq> None \<longrightarrow> turn_limit (cf_sp f) \<le> cl_count s')"
proof -
  obtain f1 a where f1: "remap_lpn f lpn = Some (f1, a)" "remapped f lpn f1" "pgs_per_line (cf_sp f1) < card (free_set f1)"
    using remap_room[OF inv fl lpn] by blast
  then have c1: "core {} {} {} f1" "gc_ok f1" "user_mid f1" "cf_sp f1 = cf_sp f" by (simp_all add: remapped_def step_frame_def)
  obtain f2 s1 r where f2: "advance_write_pointer_cleanver degree rnd False (s\<lparr>cl_ftl := f1\<rparr>) = Some (s1, r)" "cl_ftl s1 = f2"
    "cl_count s1 = cl_count s + 1" "core {} {} {} f2" "user_ok f2" "gc_ok f2" "moved f1 f2" "r \<noteq> None \<longrightarrow> turn_limit (cf_sp f1) \<le> cl_count s1"
    using cleanver_ok[OF c1(1-3) _ f1(3), of "s\<lparr>cl_ftl := f1\<rparr>" degree rnd False] by auto
  have "conv_inv (f2\<lparr>cf_ssd := cf_ssd f2\<rparr>)" using f2(4-6) by (simp add: conv_inv_def)
  then obtain f' where f': "check_and_refill_write_credit (consume_write_credit f2) = Some f'" "conv_inv f'" "flow_ok N f'"
    "mapped f' = insert lpn (mapped f)" "cf_sp f' = cf_sp f"
    using finish_page_ok[OF inv fl lpn f1(2) f2(7) same_nand_refl] by auto
  have "clean_page degree rnd lpn s = Some (s1\<lparr>cl_ftl := f'\<rparr>, r)" using f1(1) f2(1,2) f'(1) s by (simp add: clean_page_def)
  then show ?thesis using f' f2(3,8) c1(4) by simp
qed

section \<open>A range\<close>

lemma chunk_lpns_simps:
  assumes "0 < np"
  shows "chunk_lpns np a lst = (if a \<le> lst then a # chunk_lpns np (a + np) lst else [])"
proof (cases "a \<le> lst")
  case True
  show ?thesis
  proof (cases "a + np \<le> lst")
    case True
    then have "lst - a = lst - (a + np) + np" by simp
    then have "(lst - a) div np = Suc ((lst - (a + np)) div np)" using assms by (simp only: div_add_self2)
    moreover have "map (\<lambda>k. a + k * np) [0..<Suc (Suc n)] = a # map (\<lambda>k. a + np + k * np) [0..<Suc n]" for n
      unfolding map_upt_Suc[of _ "Suc n"] by (simp add: algebra_simps del: upt_Suc)
    ultimately show ?thesis using True assms by (simp add: chunk_lpns_def lpns_from_def del: upt_Suc)
  next
    case False
    then have "(lst - a) div np = 0" using assms by simp
    then show ?thesis using False \<open>a \<le> lst\<close> by (simp add: chunk_lpns_def lpns_from_def)
  qed
qed (simp add: chunk_lpns_def)

lemma chunk_lpns_empty: "chunk_lpns np a lst = [] \<longleftrightarrow> lst < a"
  by (auto simp: chunk_lpns_def lpns_from_def simp del: upt_Suc)

text \<open>What is left of a range: nothing, or the pages from the given start.\<close>

fun left_over :: "nat \<Rightarrow> nat \<Rightarrow> rewrite_pointer option \<Rightarrow> nat list" where
  "left_over np lst None = []"
| "left_over np lst (Some p) = chunk_lpns np (rp_startpoint p) lst"

text \<open>The pages written and those left over make up the range; a range gives way before its first page only to a waiting
  one, and with a limit above the pages already counted it writes at least one page otherwise.\<close>

lemma clean_pages_ok:
  assumes np: "0 < np"
  shows "conv_inv (cl_ftl s) \<Longrightarrow> flow_ok N (cl_ftl s) \<Longrightarrow> \<forall>l\<in>set (chunk_lpns np a lst). l div np < N \<Longrightarrow>
    \<exists>s' r ws. clean_pages degree rnd prem force no_return np lst (chunk_lpns np a lst) s = Some (s', r) \<and>
      conv_inv (cl_ftl s') \<and> flow_ok N (cl_ftl s') \<and> cf_sp (cl_ftl s') = cf_sp (cl_ftl s) \<and>
      chunk_lpns np a lst = ws @ left_over np lst r \<and> mapped (cl_ftl s') = (\<lambda>l. l div np) ` set ws \<union> mapped (cl_ftl s) \<and>
      (\<forall>p. r = Some p \<longrightarrow> rp_startpoint p \<le> lst \<and> (rp_preempt p \<longrightarrow> \<not> force \<and> \<not> no_return \<and> rp_preempt_counter p < length prem) \<and>
        (\<not> rp_preempt p \<longrightarrow> ws \<noteq> [])) \<and> (r = None \<longrightarrow> ws = chunk_lpns np a lst)"
proof (induction "length (chunk_lpns np a lst)" arbitrary: a s)
  case 0
  then have "chunk_lpns np a lst = []" by simp
  then show ?case using 0(2,3) by (intro exI[of _ s] exI[of _ None] exI[of _ "[]"]) simp
next
  case (Suc n)
  have lt: "a \<le> lst" using Suc(2) chunk_lpns_empty[of np a lst] by (cases "lst < a") auto
  note split = chunk_lpns_simps[OF np, of a lst]
  have lst: "chunk_lpns np a lst = a # chunk_lpns np (a + np) lst" using split lt by simp
  show ?case
  proof (cases "if \<not> force \<and> \<not> no_return then waiting_here prem (cf_wp (cl_ftl s)) else None")
    case (Some k)
    then have k: "\<not> force" "\<not> no_return" "k < length prem" by (auto simp: waiting_here_def find_Some_iff split: if_splits)
    let ?p = "\<lparr>rp_ch = -1, rp_lun = -1, rp_startpoint = a, rp_preempt = True, rp_preempt_counter = k\<rparr>"
    have "clean_pages degree rnd prem force no_return np lst (chunk_lpns np a lst) s = Some (s, Some ?p)"
      unfolding lst using Some by simp
    then show ?thesis using k lt Suc(3,4) by (intro exI[of _ s] exI[of _ "Some ?p"] exI[of _ "[]"]) simp
  next
    case None
    have "a div np < N" using Suc(5) lst by simp
    then obtain s1 r where p: "clean_page degree rnd (a div np) s = Some (s1, r)" "conv_inv (cl_ftl s1)" "flow_ok N (cl_ftl s1)"
      "mapped (cl_ftl s1) = insert (a div np) (mapped (cl_ftl s))" "cf_sp (cl_ftl s1) = cf_sp (cl_ftl s)"
      using clean_page_ok[OF Suc(3,4) _ refl, of "a div np" degree rnd] by blast
    let ?l = "chunk_lpns np (a + np) lst"
    have run: "clean_pages degree rnd prem force no_return np lst (chunk_lpns np a lst) s =
        (case r of Some (ch, lun) \<Rightarrow> Some (s1, map_option (\<lambda>p. p\<lparr>rp_ch := int ch, rp_lun := int lun\<rparr>) (give_way (a + np) lst))
         | None \<Rightarrow> if cl_count s1 \<ge> turn_limit (cf_sp (cl_ftl s1)) then Some (s1, give_way (a + np) lst)
              else clean_pages degree rnd prem force no_return np lst ?l s1)"
      unfolding lst using None p(1) by simp
    show ?thesis
    proof (cases "r = None \<and> cl_count s1 < turn_limit (cf_sp (cl_ftl s1))")
      case False
      have e: "chunk_lpns np a lst = [a] @ left_over np lst (give_way (a + np) lst)"
        using lst chunk_lpns_empty[of np "a + np" lst] by (simp add: give_way_def)
      obtain q where q: "clean_pages degree rnd prem force no_return np lst (chunk_lpns np a lst) s = Some (s1, q)"
        "left_over np lst q = left_over np lst (give_way (a + np) lst)" "\<forall>p. q = Some p \<longrightarrow> rp_startpoint p \<le> lst \<and> \<not> rp_preempt p"
        "q = None \<longrightarrow> ?l = []"
        using run False chunk_lpns_empty[of np "a + np" lst] by (cases r; cases "a + np \<le> lst") (auto simp: give_way_def split: prod.splits)
      then show ?thesis using p(2-5) e lst by (intro exI[of _ s1] exI[of _ q] exI[of _ "[a]"]) auto
    next
      case True
      have "n = length ?l" using Suc(2) lst by simp
      moreover have "\<forall>l\<in>set ?l. l div np < N" using Suc(5) lst by simp
      ultimately obtain s' q ws where q: "clean_pages degree rnd prem force no_return np lst ?l s1 = Some (s', q)"
        "conv_inv (cl_ftl s')" "flow_ok N (cl_ftl s')" "cf_sp (cl_ftl s') = cf_sp (cl_ftl s1)" "?l = ws @ left_over np lst q"
        "mapped (cl_ftl s') = (\<lambda>l. l div np) ` set ws \<union> mapped (cl_ftl s1)"
        "\<forall>p. q = Some p \<longrightarrow> rp_startpoint p \<le> lst \<and> (rp_preempt p \<longrightarrow> \<not> force \<and> \<not> no_return \<and> rp_preempt_counter p < length prem)"
        "q = None \<longrightarrow> ws = ?l"
        using Suc(1)[of "a + np" s1] p(2,3) by blast
      then show ?thesis using run True p(4,5) lst by (intro exI[of _ s'] exI[of _ q] exI[of _ "a # ws"]) auto
    qed
  qed
qed

section \<open>A range of a drive\<close>

definition chunk_pages :: "nat \<Rightarrow> lba_chunk \<Rightarrow> nat list" where
  "chunk_pages np c = chunk_lpns np (ck_start c) (ck_end c)"

definition chunk_ok :: "nat \<Rightarrow> nat \<Rightarrow> lba_chunk \<Rightarrow> bool" where
  "chunk_ok N np c \<longleftrightarrow> ck_idx c < np \<and> (\<forall>l\<in>set (chunk_pages np c). l div np < N \<and> l mod np = ck_idx c)"

text \<open>Writing the pages \<open>ws\<close> of a drive and nothing else.\<close>

definition rewritten :: "nat \<Rightarrow> nat set \<Rightarrow> conv_ns \<Rightarrow> conv_ns \<Rightarrow> bool" where
  "rewritten N ws ns ns' \<longleftrightarrow> ns_inv N ns' \<and> ns_mapped ns' = ws \<union> ns_mapped ns \<and> cn_nr_parts ns' = cn_nr_parts ns \<and>
     cn_size ns' = cn_size ns \<and> ns_spp ns' = ns_spp ns"

lemma rewritten_refl: "ns_inv N ns \<Longrightarrow> rewritten N {} ns ns"
  by (simp add: rewritten_def)

lemma rewritten_trans: "rewritten N ws ns ns' \<Longrightarrow> rewritten N ws' ns' ns'' \<Longrightarrow> rewritten N (ws \<union> ws') ns ns''"
  by (auto simp: rewritten_def)

lemma phfrag_cleaner_ok:
  assumes ns: "ns_inv N ns" and c: "chunk_ok N (cn_nr_parts ns) c"
  shows "\<exists>ns' conti r cnt' tick' ws. phfrag_cleaner degree rnd prem force no_return c (ns, cnt, tick) =
      Some (ns', c\<lparr>ck_conti := conti\<rparr>, r, cnt', tick') \<and> rewritten N (set ws) ns ns' \<and>
      chunk_pages (cn_nr_parts ns) c = ws @ left_over (cn_nr_parts ns) (ck_end c) r \<and>
      (\<forall>p. r = Some p \<longrightarrow> rp_startpoint p \<le> ck_end c \<and> (rp_preempt p \<longrightarrow> \<not> force \<and> \<not> no_return \<and> rp_preempt_counter p < length prem) \<and>
        (\<not> rp_preempt p \<longrightarrow> ws \<noteq> []))"
proof -
  let ?np = "cn_nr_parts ns" and ?i = "ck_idx c"
  have np: "0 < ?np" "?i < ?np" "length (cn_ftls ns) = ?np" using ns c by (simp_all add: ns_inv_def chunk_ok_def)
  obtain f where f: "get_ftl ns ?i = Some f" "conv_inv f" "flow_ok N f" "mapped f = mapped (cn_ftls ns ! ?i)" "cf_sp f = ns_spp ns"
    using get_ftl_ok[OF ns np(2)] by blast
  let ?s = "\<lparr>cl_ftl = f, cl_count = cnt, cl_conti = ck_conti c, cl_tick = tick\<rparr>"
  have pre: "conv_inv (cl_ftl ?s)" "flow_ok N (cl_ftl ?s)" "\<forall>l\<in>set (chunk_lpns ?np (ck_start c) (ck_end c)). l div ?np < N"
    using f c by (simp_all add: chunk_ok_def chunk_pages_def)
  from clean_pages_ok[OF np(1) pre, of degree rnd prem "force \<or> prem = []" no_return] obtain s' r ws where
    s': "clean_pages degree rnd prem (force \<or> prem = []) no_return ?np (ck_end c) (chunk_lpns ?np (ck_start c) (ck_end c)) ?s = Some (s', r)"
    "conv_inv (cl_ftl s')" "flow_ok N (cl_ftl s')" "cf_sp (cl_ftl s') = cf_sp (cl_ftl ?s)"
    "chunk_lpns ?np (ck_start c) (ck_end c) = ws @ left_over ?np (ck_end c) r"
    "mapped (cl_ftl s') = (\<lambda>l. l div ?np) ` set ws \<union> mapped (cl_ftl ?s)"
    "\<forall>p. r = Some p \<longrightarrow> rp_startpoint p \<le> ck_end c \<and> (rp_preempt p \<longrightarrow> \<not> (force \<or> prem = []) \<and> \<not> no_return \<and> rp_preempt_counter p < length prem) \<and>
        (\<not> rp_preempt p \<longrightarrow> ws \<noteq> [])" by blast
  have sp: "cf_sp (cl_ftl s') = ns_spp ns" and mp: "mapped (cl_ftl s') = (\<lambda>l. l div ?np) ` set ws \<union> mapped (cn_ftls ns ! ?i)"
    and pages: "chunk_pages ?np c = ws @ left_over ?np (ck_end c) r"
    using s'(4-6) f(4,5) by (simp_all add: chunk_pages_def)
  note put = put_ftl_ok[OF ns np(2) s'(2,3) sp]
  have "lpn \<in> ns_mapped (put_ftl ns ?i (cl_ftl s')) \<longleftrightarrow> lpn \<in> set ws \<or> lpn \<in> ns_mapped ns" for lpn
  proof -
    have w: "l mod ?np = ?i" if "l \<in> set ws" for l using that c pages by (simp add: chunk_ok_def)
    have "lpn div ?np \<in> (\<lambda>l. l div ?np) ` set ws \<longleftrightarrow> lpn \<in> set ws" if "lpn mod ?np = ?i"
      using w that div_mod_eqI[of lpn ?np] by (auto simp: image_iff)
    then show ?thesis using put(4)[of "lpn mod ?np"] np w mp by (auto simp: ns_mapped_def)
  qed
  then have "rewritten N (set ws) ns (put_ftl ns ?i (cl_ftl s'))" using put(1,2) by (auto simp: rewritten_def)
  moreover have "phfrag_cleaner degree rnd prem force no_return c (ns, cnt, tick) =
      Some (put_ftl ns ?i (cl_ftl s'), c\<lparr>ck_conti := cl_conti s'\<rparr>, r, cl_count s', cl_tick s')"
    using f(1) s'(1) by (simp add: phfrag_cleaner_def)
  ultimately show ?thesis using pages s'(7) by blast
qed

end
