(* ===== verification/Phfrag_Sched.thy ===== *)
theory Phfrag_Sched
  imports Phfrag_Lists Phfrag_Inv
begin

text \<open>
  The rewriting of a whole drive (\<^verbatim>\<open>clean\_ftl\<close> of src/main.c): the drive is set up afresh and the ranges of pages that were
  mapped are written again, in turns of a limited number of pages, over several lists and all partitions, where a range
  that stays on a die gives way and waits until the write pointer comes back to it.
\<close>

section \<open>The state of the loop\<close>

text \<open>\<open>sc\_active\<close> and \<open>sc\_waiting\<close> are the lists \<^verbatim>\<open>active\_lba\_chunks\_list\<close> and \<^verbatim>\<open>lists\<close>, one of each for every partition and
  number of list; \<open>sc\_limit\<close> is the length of a turn.\<close>

record sched =
  sc_ns :: conv_ns
  sc_active :: "lba_chunk list list"
  sc_waiting :: "lba_chunk list list"
  sc_restart :: bool
  sc_count :: nat
  sc_chunk :: nat
  sc_index :: nat
  sc_tick :: nat

definition sc_place :: "nat \<Rightarrow> sched \<Rightarrow> nat" where
  "sc_place num_lists s = sc_index s * num_lists + sc_chunk s"

definition any_active_nonempty :: "lba_chunk list list \<Rightarrow> bool" where
  "any_active_nonempty arr \<longleftrightarrow> (\<exists>l\<in>set arr. l \<noteq> [])"

section \<open>The next list\<close>

definition have_chunk :: "nat \<Rightarrow> sched \<Rightarrow> bool" where
  "have_chunk num_lists s \<longleftrightarrow> (\<exists>i\<in>set [0..<num_lists]. sc_active s ! (sc_index s * num_lists + i) \<noteq> [])"

definition next_turn :: "nat \<Rightarrow> nat \<Rightarrow> sched \<Rightarrow> sched" where
  "next_turn nr_parts num_lists s =
    (if have_chunk num_lists s
     then s\<lparr>sc_count := 0, sc_chunk := (if sc_chunk s + 1 \<ge> num_lists then 0 else sc_chunk s + 1)\<rparr>
     else s\<lparr>sc_count := 0, sc_chunk := 0, sc_index := (if sc_index s + 1 \<ge> nr_parts then 0 else sc_index s + 1)\<rparr>)"

definition choose_list :: "nat \<Rightarrow> nat \<Rightarrow> nat \<Rightarrow> sched \<Rightarrow> sched option" where
  "choose_list limit nr_parts num_lists s = do {
     act \<leftarrow> array_read (sc_active s) (sc_place num_lists s);
     Some (if (\<not> sc_restart s \<and> sc_count s \<ge> limit) \<or> act = [] then next_turn nr_parts num_lists s else s)
   }"

section \<open>A pass over the ranges of a list\<close>

text \<open>A call of the cleaner on a range of the state.\<close>

definition run_chunk ::
  "nat \<Rightarrow> (nat \<Rightarrow> nat) \<Rightarrow> lba_chunk list \<Rightarrow> bool \<Rightarrow> bool \<Rightarrow> lba_chunk \<Rightarrow> sched \<Rightarrow> (lba_chunk \<times> rewrite_pointer option \<times> sched) option" where
  "run_chunk degree rnd prem force no_return c s = do {
     (ns, c', r, cnt, tick) \<leftarrow> phfrag_cleaner degree rnd prem force no_return c (sc_ns s, sc_count s, sc_tick s);
     Some (c', r, s\<lparr>sc_ns := ns, sc_count := cnt, sc_tick := tick\<rparr>)
   }"

definition at_pointer :: "lba_chunk \<Rightarrow> rewrite_pointer \<Rightarrow> lba_chunk" where
  "at_pointer c r = c\<lparr>ck_start := rp_startpoint r, ck_ch := rp_ch r, ck_lun := rp_lun r\<rparr>"

text \<open>The range that was found waiting on the die under the write pointer runs at once.  The result holds the range when
  it goes back to the end of the active list.\<close>

definition run_waiting :: "nat \<Rightarrow> (nat \<Rightarrow> nat) \<Rightarrow> nat \<Rightarrow> nat \<Rightarrow> sched \<Rightarrow> (lba_chunk list \<times> sched) option" where
  "run_waiting degree rnd num_lists k s = do {
     prem \<leftarrow> array_read (sc_waiting s) (sc_place num_lists s);
     p \<leftarrow> array_read prem k;
     nvmev_assert (ck_idx p = sc_index s);
     (p', r, s') \<leftarrow> run_chunk degree rnd prem True True p s;
     (case r of
        None \<Rightarrow> Some ([], s'\<lparr>sc_waiting := (sc_waiting s')[sc_place num_lists s := take k prem @ drop (k + 1) prem]\<rparr>)
      | Some rp \<Rightarrow>
          if rp_ch rp = -1 \<or> rp_lun rp = -1
          then Some ([(at_pointer p' rp)\<lparr>ck_conti := -1\<rparr>],
                 s'\<lparr>sc_waiting := (sc_waiting s')[sc_place num_lists s := take k prem @ drop (k + 1) prem]\<rparr>)
          else Some ([], s'\<lparr>sc_waiting := (sc_waiting s')[sc_place num_lists s := prem[k := at_pointer p' rp]]\<rparr>))
   }"

text \<open>The loop over the active list; the result is what the list holds afterwards.\<close>

fun sweep :: "nat \<Rightarrow> nat \<Rightarrow> (nat \<Rightarrow> nat) \<Rightarrow> nat \<Rightarrow> lba_chunk list \<Rightarrow> sched \<Rightarrow> (lba_chunk list \<times> sched) option" where
  "sweep limit degree rnd num_lists [] s = Some ([], s)"
| "sweep limit degree rnd num_lists (c # cs) s = do {
     nvmev_assert (ck_idx c = sc_index s);
     (if sc_count s \<ge> limit then Some (c # cs, s)
      else do {
        prem \<leftarrow> array_read (sc_waiting s) (sc_place num_lists s);
        (c', r, s1) \<leftarrow> run_chunk degree rnd prem False False c s;
        (case r of
           None \<Rightarrow> sweep limit degree rnd num_lists cs s1
         | Some rp \<Rightarrow>
             if rp_preempt rp then do {
               (back_again, s2) \<leftarrow> run_waiting degree rnd num_lists (rp_preempt_counter rp) s1;
               Some (at_pointer c' rp # cs @ back_again, s2\<lparr>sc_restart := True\<rparr>)
             }
             else if rp_ch rp = -1 \<or> rp_lun rp = -1 then do {
               (cs', s2) \<leftarrow> sweep limit degree rnd num_lists cs s1;
               Some (c'\<lparr>ck_conti := -1, ck_start := rp_startpoint rp\<rparr> # cs', s2)
             }
             else do {
               let w = ck_idx c' * num_lists + sc_chunk s1;
               l \<leftarrow> array_read (sc_waiting s1) w;
               sweep limit degree rnd num_lists cs (s1\<lparr>sc_waiting := (sc_waiting s1)[w := l @ [at_pointer c' rp]]\<rparr>)
             })
      })
   }"

text \<open>When no range is left in the active list, the first waiting one becomes active.\<close>

definition wake_up :: "nat \<Rightarrow> sched \<Rightarrow> sched option" where
  "wake_up j s = do {
     act \<leftarrow> array_read (sc_active s) j;
     wait \<leftarrow> array_read (sc_waiting s) j;
     Some (case wait of [] \<Rightarrow> s
       | c # cs \<Rightarrow> if \<not> sc_restart s \<and> act = []
           then s\<lparr>sc_active := (sc_active s)[j := [c\<lparr>ck_conti := -1\<rparr>]], sc_waiting := (sc_waiting s)[j := cs]\<rparr> else s)
   }"

definition clean_turn :: "nat \<Rightarrow> nat \<Rightarrow> (nat \<Rightarrow> nat) \<Rightarrow> nat \<Rightarrow> nat \<Rightarrow> sched \<Rightarrow> sched option" where
  "clean_turn limit degree rnd nr_parts num_lists s = do {
     s1 \<leftarrow> choose_list limit nr_parts num_lists s;
     let j = sc_place num_lists s1;
     act \<leftarrow> array_read (sc_active s1) j;
     (act', s2) \<leftarrow> sweep limit degree rnd num_lists act (s1\<lparr>sc_restart := False\<rparr>);
     wake_up j (s2\<lparr>sc_active := (sc_active s2)[j := act']\<rparr>)
   }"

section \<open>The loop and the whole operation\<close>

partial_function (option) clean_loop :: "nat \<Rightarrow> nat \<Rightarrow> (nat \<Rightarrow> nat) \<Rightarrow> nat \<Rightarrow> nat \<Rightarrow> sched \<Rightarrow> sched option" where
  "clean_loop limit degree rnd nr_parts num_lists s = do {
     s' \<leftarrow> clean_turn limit degree rnd nr_parts num_lists s;
     (if sc_restart s' \<or> any_active_nonempty (sc_active s') then clean_loop limit degree rnd nr_parts num_lists s' else Some s')
   }"

text \<open>\<open>fresh\<close> is the drive that initialisation delivers.  The length of a turn is read from the parameters of the old drive,
  whose memory has been freed by then; it is taken to be still there.  For a table of no bytes, which no lists ask for,
  \<^verbatim>\<open>vmalloc\<close> gives NULL, and the operation returns before it has begun.\<close>

definition clean_ftl :: "nat \<Rightarrow> (nat \<Rightarrow> nat) \<Rightarrow> nat \<Rightarrow> conv_ns \<Rightarrow> conv_ns \<Rightarrow> conv_ns option" where
  "clean_ftl degree rnd num_lists fresh ns = do {
     f \<leftarrow> array_read (cn_ftls ns) 0;
     let spp = cf_sp f;
     let np = cn_nr_parts ns;
     (if np * num_lists = 0 then Some ns
      else do {
        lists \<leftarrow> create_list_from_table_split spp ns num_lists;
        s \<leftarrow> clean_loop (turn_limit spp) degree rnd np num_lists
          \<lparr>sc_ns = fresh, sc_active = map (sort_key ck_size) lists, sc_waiting = replicate (np * num_lists) [], sc_restart = True,
           sc_count = 0, sc_chunk = 0, sc_index = 0, sc_tick = 0\<rparr>;
        Some (sc_ns s)
      })
   }"

end
