(* ===== verification/Phfrag_Sched_Proof.thy ===== *)
theory Phfrag_Sched_Proof
  imports Phfrag_Sched
begin

text \<open>
  Rewriting a drive ends and writes every page of its ranges: the work of a pass, the invariant of the loop, and a
  measure that falls in every turn.
\<close>

section \<open>The pages and the work of a list of ranges\<close>

definition list_pages :: "nat \<Rightarrow> lba_chunk list \<Rightarrow> nat set" where
  "list_pages np l = (\<Union>c\<in>set l. set (chunk_pages np c))"

definition list_work :: "nat \<Rightarrow> lba_chunk list \<Rightarrow> nat" where
  "list_work np l = (\<Sum>c\<leftarrow>l. Suc (length (chunk_pages np c)))"

lemma list_pages_simps [simp]:
  "list_pages np [] = {}" "list_pages np (c # l) = set (chunk_pages np c) \<union> list_pages np l" "list_pages np (l @ m) = list_pages np l \<union> list_pages np m"
  by (auto simp: list_pages_def)

lemma list_work_simps [simp]:
  "list_work np [] = 0" "list_work np (c # l) = Suc (length (chunk_pages np c)) + list_work np l" "list_work np (l @ m) = list_work np l + list_work np m"
  by (simp_all add: list_work_def)

lemma split_at:
  assumes "k < length l"
  shows "list_pages np l = set (chunk_pages np (l ! k)) \<union> list_pages np (take k l @ drop (k + 1) l)"
    "list_work np l = Suc (length (chunk_pages np (l ! k))) + list_work np (take k l @ drop (k + 1) l)"
    "list_pages np (l[k := c]) = set (chunk_pages np c) \<union> list_pages np (take k l @ drop (k + 1) l)"
    "list_work np (l[k := c]) = Suc (length (chunk_pages np c)) + list_work np (take k l @ drop (k + 1) l)"
    "set (take k l @ drop (k + 1) l) \<subseteq> set l" "set (l[k := c]) \<subseteq> insert c (set l)"
proof -
  have l: "l = take k l @ l ! k # drop (k + 1) l" using id_take_nth_drop[OF assms] by simp
  have u: "l[k := c] = take k l @ c # drop (k + 1) l" using upd_conv_take_nth_drop[OF assms] by simp
  show "list_pages np l = set (chunk_pages np (l ! k)) \<union> list_pages np (take k l @ drop (k + 1) l)" by (subst l) auto
  show "list_work np l = Suc (length (chunk_pages np (l ! k))) + list_work np (take k l @ drop (k + 1) l)" by (subst l) simp
  show "list_pages np (l[k := c]) = set (chunk_pages np c) \<union> list_pages np (take k l @ drop (k + 1) l)" unfolding u by auto
  show "list_work np (l[k := c]) = Suc (length (chunk_pages np c)) + list_work np (take k l @ drop (k + 1) l)" unfolding u by simp
  show "set (take k l @ drop (k + 1) l) \<subseteq> set l" by (auto dest: in_set_takeD in_set_dropD)
  show "set (l[k := c]) \<subseteq> insert c (set l)" by (rule set_update_subset_insert)
qed

text \<open>A range of a list: it fits the drive and belongs to partition \<open>i\<close>.\<close>

definition in_part :: "nat \<Rightarrow> nat \<Rightarrow> nat \<Rightarrow> lba_chunk \<Rightarrow> bool" where
  "in_part N np i c \<longleftrightarrow> chunk_ok N np c \<and> ck_idx c = i"

definition open_range :: "nat \<Rightarrow> nat \<Rightarrow> nat \<Rightarrow> lba_chunk \<Rightarrow> bool" where
  "open_range N np i c \<longleftrightarrow> in_part N np i c \<and> ck_start c \<le> ck_end c"

lemma at_pointer_pages:
  assumes "chunk_pages np c = ws @ left_over np (ck_end c) (Some rp)" "in_part N np i c" "rp_startpoint rp \<le> ck_end c"
  shows "chunk_pages np (at_pointer (c\<lparr>ck_conti := x\<rparr>) rp) = left_over np (ck_end c) (Some rp)"
    "open_range N np i (at_pointer (c\<lparr>ck_conti := x\<rparr>) rp)"
    "chunk_pages np ((at_pointer (c\<lparr>ck_conti := x\<rparr>) rp)\<lparr>ck_conti := y\<rparr>) = left_over np (ck_end c) (Some rp)"
    "open_range N np i ((at_pointer (c\<lparr>ck_conti := x\<rparr>) rp)\<lparr>ck_conti := y\<rparr>)"
    "chunk_pages np (c\<lparr>ck_conti := x, ck_start := rp_startpoint rp\<rparr>) = left_over np (ck_end c) (Some rp)"
    "open_range N np i (c\<lparr>ck_conti := x, ck_start := rp_startpoint rp\<rparr>)"
  using assms by (auto simp: chunk_pages_def at_pointer_def open_range_def in_part_def chunk_ok_def)

section \<open>Running a range\<close>

text \<open>Only the drive, the count and the random numbers have moved.\<close>

definition ran :: "nat \<Rightarrow> nat set \<Rightarrow> sched \<Rightarrow> sched \<Rightarrow> bool" where
  "ran N ws s s' \<longleftrightarrow> rewritten N ws (sc_ns s) (sc_ns s') \<and>
     (\<exists>ns cnt tick. s' = s\<lparr>sc_ns := ns, sc_count := cnt, sc_tick := tick\<rparr>)"

lemma run_chunk_ok:
  assumes "ns_inv N (sc_ns s)" "cn_nr_parts (sc_ns s) = np" "chunk_ok N np c"
  shows "\<exists>x r s' ws. run_chunk degree rnd prem force no_return c s = Some (c\<lparr>ck_conti := x\<rparr>, r, s') \<and> ran N (set ws) s s' \<and>
    chunk_pages np c = ws @ left_over np (ck_end c) r \<and>
    (\<forall>p. r = Some p \<longrightarrow> rp_startpoint p \<le> ck_end c \<and> (rp_preempt p \<longrightarrow> \<not> force \<and> \<not> no_return \<and> rp_preempt_counter p < length prem) \<and>
      (\<not> rp_preempt p \<longrightarrow> ws \<noteq> []))"
proof -
  obtain ns x r cnt tick ws where r: "phfrag_cleaner degree rnd prem force no_return c (sc_ns s, sc_count s, sc_tick s) =
      Some (ns, c\<lparr>ck_conti := x\<rparr>, r, cnt, tick)" "rewritten N (set ws) (sc_ns s) ns" "chunk_pages np c = ws @ left_over np (ck_end c) r"
    "\<forall>p. r = Some p \<longrightarrow> rp_startpoint p \<le> ck_end c \<and> (rp_preempt p \<longrightarrow> \<not> force \<and> \<not> no_return \<and> rp_preempt_counter p < length prem) \<and>
      (\<not> rp_preempt p \<longrightarrow> ws \<noteq> [])"
    using phfrag_cleaner_ok[OF assms(1), of c degree rnd prem force no_return "sc_count s" "sc_tick s"] assms(2,3) by blast
  let ?s = "s\<lparr>sc_ns := ns, sc_count := cnt, sc_tick := tick\<rparr>"
  have "run_chunk degree rnd prem force no_return c s = Some (c\<lparr>ck_conti := x\<rparr>, r, ?s)" using r(1) by (simp add: run_chunk_def)
  moreover have "ran N (set ws) s ?s" using r(2) by (auto simp: ran_def)
  ultimately show ?thesis using r(3,4) by blast
qed

section \<open>A pass\<close>

text \<open>\<open>j\<close> is the place of the list; what waits there waits for its partition.\<close>

definition pass_ok :: "nat \<Rightarrow> nat \<Rightarrow> nat \<Rightarrow> nat \<Rightarrow> sched \<Rightarrow> bool" where
  "pass_ok N np nl j s \<longleftrightarrow> ns_inv N (sc_ns s) \<and> cn_nr_parts (sc_ns s) = np \<and> j = sc_place nl s \<and> j < length (sc_waiting s) \<and>
     (\<forall>c\<in>set (sc_waiting s ! j). open_range N np (sc_index s) c)"

text \<open>What a pass may change, with the pages it has written.\<close>

definition passed :: "nat \<Rightarrow> nat \<Rightarrow> nat set \<Rightarrow> sched \<Rightarrow> sched \<Rightarrow> bool" where
  "passed N j ws s s' \<longleftrightarrow> rewritten N ws (sc_ns s) (sc_ns s') \<and> sc_active s' = sc_active s \<and> sc_index s' = sc_index s \<and> sc_chunk s' = sc_chunk s \<and>
     (\<exists>l. sc_waiting s' = (sc_waiting s)[j := l])"

lemma ran_pass:
  assumes "pass_ok N np nl j s" "ran N ws s s'"
  shows "pass_ok N np nl j s'" "passed N j ws s s'" "sc_waiting s' = sc_waiting s" "sc_restart s' = sc_restart s"
proof -
  obtain ns cnt tick where s': "s' = s\<lparr>sc_ns := ns, sc_count := cnt, sc_tick := tick\<rparr>" using assms(2) by (auto simp: ran_def)
  show "pass_ok N np nl j s'" using assms unfolding s' by (simp add: pass_ok_def ran_def rewritten_def sc_place_def)
  show "passed N j ws s s'"
    using assms unfolding s' passed_def by (auto simp: ran_def intro: exI[of _ "sc_waiting s ! j"])
  show "sc_waiting s' = sc_waiting s" "sc_restart s' = sc_restart s" by (simp_all add: s')
qed

lemma passed_trans:
  assumes "passed N j ws s s'" "passed N j ws' s' s''"
  shows "passed N j (ws \<union> ws') s s''"
  using assms rewritten_trans[of N ws "sc_ns s" "sc_ns s'" ws' "sc_ns s''"] unfolding passed_def by auto

lemma set_waiting_pass:
  assumes "pass_ok N np nl j s" "\<forall>c\<in>set l. open_range N np (sc_index s) c"
  shows "pass_ok N np nl j (s\<lparr>sc_waiting := (sc_waiting s)[j := l]\<rparr>)" "passed N j {} s (s\<lparr>sc_waiting := (sc_waiting s)[j := l]\<rparr>)"
    "sc_waiting (s\<lparr>sc_waiting := (sc_waiting s)[j := l]\<rparr>) ! j = l"
  using assms by (auto simp: pass_ok_def passed_def sc_place_def rewritten_refl)

lemma run_waiting_ok:
  assumes ok: "pass_ok N np nl j s" and k: "k < length (sc_waiting s ! j)"
  shows "\<exists>back_again s' ws. run_waiting degree rnd nl k s = Some (back_again, s') \<and> pass_ok N np nl j s' \<and> passed N j ws s s' \<and>
    (\<forall>c\<in>set back_again. in_part N np (sc_index s) c) \<and>
    list_pages np (sc_waiting s ! j) = ws \<union> list_pages np back_again \<union> list_pages np (sc_waiting s' ! j) \<and>
    list_work np back_again + list_work np (sc_waiting s' ! j) < list_work np (sc_waiting s ! j)"
proof -
  let ?prem = "sc_waiting s ! j"
  let ?p = "?prem ! k" and ?rest = "take k ?prem @ drop (k + 1) ?prem"
  have j: "j = sc_place nl s" "j < length (sc_waiting s)" using ok by (simp_all add: pass_ok_def)
  have p: "open_range N np (sc_index s) ?p" using ok k by (simp add: pass_ok_def)
  then have pp: "in_part N np (sc_index s) ?p" "chunk_ok N np ?p" "ck_idx ?p = sc_index s" by (simp_all add: open_range_def in_part_def)
  have ns: "ns_inv N (sc_ns s)" "cn_nr_parts (sc_ns s) = np" using ok by (simp_all add: pass_ok_def)
  obtain x r s1 ws where r: "run_chunk degree rnd ?prem True True ?p s = Some (?p\<lparr>ck_conti := x\<rparr>, r, s1)" "ran N (set ws) s s1"
    "chunk_pages np ?p = ws @ left_over np (ck_end ?p) r"
    "\<forall>q. r = Some q \<longrightarrow> rp_startpoint q \<le> ck_end ?p \<and> ws \<noteq> []"
    using run_chunk_ok[OF ns pp(2), of degree rnd ?prem True True] by blast
  note s1 = ran_pass[OF ok r(2)]
  have ix: "sc_index s1 = sc_index s" "sc_place nl s1 = j" using s1(1,2) by (auto simp: passed_def pass_ok_def)
  note sp = split_at(1,2)[OF k, of np]
  have rest: "\<forall>c\<in>set ?rest. open_range N np (sc_index s1) c" using ok split_at(5)[OF k] ix by (auto simp: pass_ok_def)
  let ?s2 = "s1\<lparr>sc_waiting := (sc_waiting s1)[j := ?rest]\<rparr>"
  note s2 = set_waiting_pass[OF s1(1) rest]
  have run: "run_waiting degree rnd nl k s = (case r of None \<Rightarrow> Some ([], ?s2)
      | Some rp \<Rightarrow> if rp_ch rp = -1 \<or> rp_lun rp = -1 then Some ([(at_pointer (?p\<lparr>ck_conti := x\<rparr>) rp)\<lparr>ck_conti := -1\<rparr>], ?s2)
          else Some ([], s1\<lparr>sc_waiting := (sc_waiting s1)[j := ?prem[k := at_pointer (?p\<lparr>ck_conti := x\<rparr>) rp]]\<rparr>))"
    using j k pp(3) r(1) by (cases r) (simp_all add: run_waiting_def)
  show ?thesis
  proof (cases r)
    case None
    then show ?thesis
      using run s2 passed_trans[OF s1(2) s2(2)] sp(1,2) r(3)
      by (intro exI[of _ "[]"] exI[of _ ?s2] exI[of _ "set ws"]) simp
  next
    case (Some rp)
    then have e: "rp_startpoint rp \<le> ck_end ?p" "ws \<noteq> []" using r(4) by auto
    note ap = at_pointer_pages[OF r(3)[unfolded Some] pp(1) e(1)]
    show ?thesis
    proof (cases "rp_ch rp = -1 \<or> rp_lun rp = -1")
      case True
      let ?c = "(at_pointer (?p\<lparr>ck_conti := x\<rparr>) rp)\<lparr>ck_conti := -1\<rparr>"
      have "run_waiting degree rnd nl k s = Some ([?c], ?s2)" using run Some True by simp
      then show ?thesis
        using s2 passed_trans[OF s1(2) s2(2)] sp(1,2) r(3) Some ap(3,4) e(2)
        by (intro exI[of _ "[?c]"] exI[of _ ?s2] exI[of _ "set ws"]) (auto simp: open_range_def)
    next
      case False
      let ?l = "?prem[k := at_pointer (?p\<lparr>ck_conti := x\<rparr>) rp]"
      let ?s3 = "s1\<lparr>sc_waiting := (sc_waiting s1)[j := ?l]\<rparr>"
      have "\<forall>c\<in>set ?l. open_range N np (sc_index s1) c"
        using ok ap(2) split_at(6)[OF k] ix by (auto simp: pass_ok_def)
      note s3 = set_waiting_pass[OF s1(1) this]
      have "run_waiting degree rnd nl k s = Some ([], ?s3)" using run Some False by simp
      then show ?thesis
        using s3 passed_trans[OF s1(2) s3(2)] sp r(3) Some ap(1) e(2)
        by (intro exI[of _ "[]"] exI[of _ ?s3] exI[of _ "set ws"]) (auto simp: split_at(3,4)[OF k])
    qed
  qed
qed

lemma sweep_ok:
  assumes "pass_ok N np nl j s" "\<forall>c\<in>set cs. in_part N np (sc_index s) c" "\<not> sc_restart s"
  shows "\<exists>cs' s' ws. sweep limit degree rnd nl cs s = Some (cs', s') \<and> pass_ok N np nl j s' \<and> passed N j ws s s' \<and>
    (\<forall>c\<in>set cs'. in_part N np (sc_index s) c) \<and>
    list_pages np cs \<union> list_pages np (sc_waiting s ! j) = ws \<union> list_pages np cs' \<union> list_pages np (sc_waiting s' ! j) \<and>
    list_work np cs' + list_work np (sc_waiting s' ! j) \<le> list_work np cs + list_work np (sc_waiting s ! j) \<and>
    (if cs = [] \<or> limit \<le> sc_count s then cs' = cs \<and> s' = s
     else list_work np cs' + list_work np (sc_waiting s' ! j) < list_work np cs + list_work np (sc_waiting s ! j)) \<and>
    (sc_restart s' \<longrightarrow> cs' \<noteq> [])"
  using assms
proof (induction cs arbitrary: s)
  case Nil
  then show ?case by (intro exI[of _ "[]"] exI[of _ s] exI[of _ "{}"]) (auto simp: passed_def pass_ok_def rewritten_refl intro: exI[of _ "sc_waiting s ! j"])
next
  case (Cons c cs)
  note ok = Cons.prems(1)
  have c: "in_part N np (sc_index s) c" "chunk_ok N np c" "ck_idx c = sc_index s" using Cons.prems(2) by (simp_all add: in_part_def)
  have j: "j = sc_place nl s" "j < length (sc_waiting s)" using ok by (simp_all add: pass_ok_def)
  have ns: "ns_inv N (sc_ns s)" "cn_nr_parts (sc_ns s) = np" using ok by (simp_all add: pass_ok_def)
  show ?case
  proof (cases "limit \<le> sc_count s")
    case True
    then show ?thesis using Cons.prems c(3)
      by (intro exI[of _ "c # cs"] exI[of _ s] exI[of _ "{}"]) (auto simp: passed_def pass_ok_def rewritten_refl intro: exI[of _ "sc_waiting s ! j"])
  next
    case False
    let ?prem = "sc_waiting s ! j"
    obtain x r s1 ws where r: "run_chunk degree rnd ?prem False False c s = Some (c\<lparr>ck_conti := x\<rparr>, r, s1)" "ran N (set ws) s s1"
      "chunk_pages np c = ws @ left_over np (ck_end c) r"
      "\<forall>q. r = Some q \<longrightarrow> rp_startpoint q \<le> ck_end c \<and> (rp_preempt q \<longrightarrow> rp_preempt_counter q < length ?prem) \<and> (\<not> rp_preempt q \<longrightarrow> ws \<noteq> [])"
      using run_chunk_ok[OF ns c(2), of degree rnd ?prem False False] by blast
    note s1 = ran_pass[OF ok r(2)]
    have ix: "sc_index s1 = sc_index s" "sc_place nl s1 = j" "sc_waiting s1 = sc_waiting s" "\<not> sc_restart s1"
      using s1 Cons.prems(3) by (auto simp: passed_def pass_ok_def)
    show ?thesis
    proof (cases r)
      case None
      have "\<forall>c\<in>set cs. in_part N np (sc_index s1) c" using Cons.prems(2) ix(1) by simp
      from Cons.IH[OF s1(1) this ix(4)] obtain cs' s' ws' where q: "sweep limit degree rnd nl cs s1 = Some (cs', s')" "pass_ok N np nl j s'"
        "passed N j ws' s1 s'" "\<forall>c\<in>set cs'. in_part N np (sc_index s1) c"
        "list_pages np cs \<union> list_pages np (sc_waiting s1 ! j) = ws' \<union> list_pages np cs' \<union> list_pages np (sc_waiting s' ! j)"
        "list_work np cs' + list_work np (sc_waiting s' ! j) \<le> list_work np cs + list_work np (sc_waiting s1 ! j)"
        "sc_restart s' \<longrightarrow> cs' \<noteq> []" by blast
      have "sweep limit degree rnd nl (c # cs) s = Some (cs', s')" using False r(1) None q(1) c(3) j by simp
      then show ?thesis using q(2,4-7) passed_trans[OF s1(2) q(3)] ix False r(3) None
        by (intro exI[of _ cs'] exI[of _ s'] exI[of _ "set ws \<union> ws'"]) auto
    next
      case (Some rp)
      then have e: "rp_startpoint rp \<le> ck_end c" "rp_preempt rp \<longrightarrow> rp_preempt_counter rp < length ?prem" "\<not> rp_preempt rp \<longrightarrow> ws \<noteq> []"
        using r(4) by auto
      note ap = at_pointer_pages[OF r(3)[unfolded Some] c(1) e(1)]
      have len: "length (chunk_pages np c) = length ws + length (left_over np (ck_end c) r)" "set (chunk_pages np c) = set ws \<union> set (left_over np (ck_end c) r)"
        using r(3) by (simp, simp)
      show ?thesis
      proof (cases "rp_preempt rp")
        case True
        have k: "rp_preempt_counter rp < length (sc_waiting s1 ! j)" using e(2) True ix(3) by simp
        obtain again s2 ws2 where w: "run_waiting degree rnd nl (rp_preempt_counter rp) s1 = Some (again, s2)" "pass_ok N np nl j s2" "passed N j ws2 s1 s2"
          "\<forall>c\<in>set again. in_part N np (sc_index s1) c"
          "list_pages np (sc_waiting s1 ! j) = ws2 \<union> list_pages np again \<union> list_pages np (sc_waiting s2 ! j)"
          "list_work np again + list_work np (sc_waiting s2 ! j) < list_work np (sc_waiting s1 ! j)"
          using run_waiting_ok[OF s1(1) k] by blast
        let ?cs = "at_pointer (c\<lparr>ck_conti := x\<rparr>) rp # cs @ again" and ?s = "s2\<lparr>sc_restart := True\<rparr>"
        have "sweep limit degree rnd nl (c # cs) s = Some (?cs, ?s)" using False r(1) Some w(1) c(3) j True by simp
        moreover have "pass_ok N np nl j ?s" using w(2) by (simp add: pass_ok_def sc_place_def)
        moreover have "passed N j (set ws \<union> ws2) s ?s" using passed_trans[OF s1(2) w(3)] by (simp add: passed_def)
        moreover have "\<forall>c\<in>set ?cs. in_part N np (sc_index s) c" using Cons.prems(2) w(4) ap(2) ix(1) by (auto simp: open_range_def)
        moreover have "list_pages np (c # cs) \<union> list_pages np (sc_waiting s ! j) = (set ws \<union> ws2) \<union> list_pages np ?cs \<union> list_pages np (sc_waiting ?s ! j)"
          using w(5) ap(1) len(2) ix(3) Some by auto
        moreover have "list_work np ?cs + list_work np (sc_waiting ?s ! j) < list_work np (c # cs) + list_work np (sc_waiting s ! j)"
          using w(6) ap(1) len(1) ix(3) Some by simp
        ultimately show ?thesis using False by (intro exI[of _ ?cs] exI[of _ ?s] exI[of _ "set ws \<union> ws2"]) simp
      next
        case np: False
        then have wsn: "ws \<noteq> []" using e(3) by simp
        show ?thesis
        proof (cases "rp_ch rp = -1 \<or> rp_lun rp = -1")
          case True
          have "\<forall>c\<in>set cs. in_part N np (sc_index s1) c" using Cons.prems(2) ix(1) by simp
          from Cons.IH[OF s1(1) this ix(4)] obtain cs' s' ws' where q: "sweep limit degree rnd nl cs s1 = Some (cs', s')" "pass_ok N np nl j s'"
            "passed N j ws' s1 s'" "\<forall>c\<in>set cs'. in_part N np (sc_index s1) c"
            "list_pages np cs \<union> list_pages np (sc_waiting s1 ! j) = ws' \<union> list_pages np cs' \<union> list_pages np (sc_waiting s' ! j)"
            "list_work np cs' + list_work np (sc_waiting s' ! j) \<le> list_work np cs + list_work np (sc_waiting s1 ! j)" by blast
          let ?cs = "c\<lparr>ck_conti := -1, ck_start := rp_startpoint rp\<rparr> # cs'"
          note ap' = at_pointer_pages(5,6)[OF r(3)[unfolded Some] c(1) e(1), where x="-1"]
          have "sweep limit degree rnd nl (c # cs) s = Some (?cs, s')" using False r(1) Some q(1) c(3) j np True by simp
          moreover have "\<forall>c\<in>set ?cs. in_part N np (sc_index s) c" using q(4) ap'(2) ix(1) by (auto simp: open_range_def)
          moreover have "list_pages np (c # cs) \<union> list_pages np (sc_waiting s ! j) = (set ws \<union> ws') \<union> list_pages np ?cs \<union> list_pages np (sc_waiting s' ! j)"
            using q(5) ap'(1) len(2) ix(3) Some by auto
          moreover have "list_work np ?cs + list_work np (sc_waiting s' ! j) < list_work np (c # cs) + list_work np (sc_waiting s ! j)"
            using q(6) ap'(1) len(1) ix(3) Some wsn by (cases ws) simp_all
          ultimately show ?thesis using False q(2) passed_trans[OF s1(2) q(3)]
            by (intro exI[of _ ?cs] exI[of _ s'] exI[of _ "set ws \<union> ws'"]) simp
        next
          case moved: False
          let ?l = "sc_waiting s1 ! j @ [at_pointer (c\<lparr>ck_conti := x\<rparr>) rp]"
          let ?s2 = "s1\<lparr>sc_waiting := (sc_waiting s1)[j := ?l]\<rparr>"
          have "\<forall>c\<in>set ?l. open_range N np (sc_index s1) c" using s1(1) ap(2) ix(1) by (auto simp: pass_ok_def)
          note s2 = set_waiting_pass[OF s1(1) this]
          have "\<forall>c\<in>set cs. in_part N np (sc_index ?s2) c" "\<not> sc_restart ?s2" using Cons.prems(2) ix by simp_all
          from Cons.IH[OF s2(1) this] obtain cs' s' ws' where q: "sweep limit degree rnd nl cs ?s2 = Some (cs', s')" "pass_ok N np nl j s'"
            "passed N j ws' ?s2 s'" "\<forall>c\<in>set cs'. in_part N np (sc_index ?s2) c"
            "list_pages np cs \<union> list_pages np ?l = ws' \<union> list_pages np cs' \<union> list_pages np (sc_waiting s' ! j)"
            "list_work np cs' + list_work np (sc_waiting s' ! j) \<le> list_work np cs + list_work np ?l"
            "sc_restart s' \<longrightarrow> cs' \<noteq> []" unfolding s2(3) by blast
          have w: "ck_idx c * nl + sc_chunk s1 = j" using ix(1,2) c(3) by (simp add: sc_place_def)
          have "sweep limit degree rnd nl (c # cs) s = Some (cs', s')"
            using False r(1) Some q(1) c(3) j np moved w ix(3) by (simp add: Let_def)
          moreover have "passed N j (set ws \<union> ({} \<union> ws')) s s'" by (rule passed_trans[OF s1(2) passed_trans[OF s2(2) q(3)]])
          moreover have "list_pages np (c # cs) \<union> list_pages np (sc_waiting s ! j) = (set ws \<union> ({} \<union> ws')) \<union> list_pages np cs' \<union> list_pages np (sc_waiting s' ! j)"
            using q(5) ap(1) len(2) ix(3) Some by auto
          moreover have "list_work np cs' + list_work np (sc_waiting s' ! j) < list_work np (c # cs) + list_work np (sc_waiting s ! j)"
            using q(6) ap(1) len(1) ix(3) Some wsn by (cases ws) simp_all
          ultimately show ?thesis using False q(2,4,7) ix(1)
            by (intro exI[of _ cs'] exI[of _ s'] exI[of _ "set ws \<union> ({} \<union> ws')"]) simp
        qed
      qed
    qed
  qed
qed

end
