(* ===== verification/Phfrag_Loop.thy ===== *)
theory Phfrag_Loop
  imports Phfrag_Sched_Proof
begin

text \<open>
  The loop of \<^verbatim>\<open>clean\_ftl\<close> ends: its invariant, a measure that falls in every turn, and what the drive holds at the end.
\<close>

section \<open>The invariant\<close>

definition pages_listed :: "nat \<Rightarrow> lba_chunk list list \<Rightarrow> nat set" where
  "pages_listed np ls = (\<Union>l\<in>set ls. list_pages np l)"

definition work_listed :: "nat \<Rightarrow> lba_chunk list list \<Rightarrow> nat" where
  "work_listed np ls = (\<Sum>l\<leftarrow>ls. list_work np l)"

text \<open>\<open>M\<close> are the pages to be mapped at the end and \<open>ns0\<close> is the drive at the start.\<close>

definition places_ok :: "nat \<Rightarrow> nat \<Rightarrow> nat \<Rightarrow> lba_chunk list list \<Rightarrow> lba_chunk list list \<Rightarrow> bool" where
  "places_ok N np nl act wait \<longleftrightarrow> length act = np * nl \<and> length wait = np * nl \<and>
     (\<forall>j<np * nl. (\<forall>c\<in>set (act ! j). in_part N np (j div nl) c) \<and> (\<forall>c\<in>set (wait ! j). open_range N np (j div nl) c) \<and>
       (act ! j = [] \<longrightarrow> wait ! j = []))"

definition sched_ok :: "nat \<Rightarrow> nat \<Rightarrow> conv_ns \<Rightarrow> nat set \<Rightarrow> sched \<Rightarrow> bool" where
  "sched_ok N nl ns0 M s \<longleftrightarrow> (\<exists>ws. rewritten N ws ns0 (sc_ns s)) \<and> places_ok N (cn_nr_parts ns0) nl (sc_active s) (sc_waiting s) \<and>
     sc_index s < cn_nr_parts ns0 \<and> sc_chunk s < nl \<and>
     M = ns_mapped (sc_ns s) \<union> pages_listed (cn_nr_parts ns0) (sc_active s) \<union> pages_listed (cn_nr_parts ns0) (sc_waiting s)"

definition sched_work :: "nat \<Rightarrow> sched \<Rightarrow> nat" where
  "sched_work np s = work_listed np (sc_active s) + work_listed np (sc_waiting s)"

lemma pages_listed_at:
  assumes "j < length ls"
  shows "\<exists>R. \<forall>x. pages_listed np (ls[j := x]) = list_pages np x \<union> R"
proof -
  have "pages_listed np (ls[j := x]) = list_pages np x \<union> pages_listed np (take j ls @ drop (Suc j) ls)" for x
    using assms by (auto simp: pages_listed_def upd_conv_take_nth_drop)
  then show ?thesis by blast
qed

lemma work_listed_at:
  assumes "j < length ls"
  shows "\<exists>R. \<forall>x. work_listed np (ls[j := x]) = list_work np x + R"
proof -
  have "work_listed np (ls[j := x]) = list_work np x + work_listed np (take j ls @ drop (Suc j) ls)" for x
    using assms by (simp add: work_listed_def upd_conv_take_nth_drop)
  then show ?thesis by blast
qed

lemma place_less: "i < np \<Longrightarrow> c < nl \<Longrightarrow> i * nl + c < np * (nl :: nat)"
  by (metis add.commute add_less_mono1 less_le_trans mult_Suc mult_le_mono1 Suc_leI)

text \<open>A change at one place, with the pages \<open>ws\<close> written.\<close>

lemma change_place:
  assumes ok: "sched_ok N nl ns0 M s" and np: "np = cn_nr_parts ns0" and j: "j < np * nl"
    and rw: "rewritten N ws (sc_ns s) (sc_ns s')" and act: "sc_active s' = (sc_active s)[j := a]" and wait: "sc_waiting s' = (sc_waiting s)[j := w]"
    and a: "\<forall>c\<in>set a. in_part N np (j div nl) c" and w: "\<forall>c\<in>set w. open_range N np (j div nl) c" and bal: "a = [] \<longrightarrow> w = []"
    and pages: "list_pages np (sc_active s ! j) \<union> list_pages np (sc_waiting s ! j) = ws \<union> list_pages np a \<union> list_pages np w"
    and pos: "sc_index s' < np" "sc_chunk s' < nl"
  shows "sched_ok N nl ns0 M s'"
    "sched_work np s' + (list_work np (sc_active s ! j) + list_work np (sc_waiting s ! j)) = sched_work np s + (list_work np a + list_work np w)"
proof -
  have l: "j < length (sc_active s)" "j < length (sc_waiting s)" using ok j np by (simp_all add: sched_ok_def places_ok_def)
  obtain Ra Rw where Ra: "\<forall>x. pages_listed np ((sc_active s)[j := x]) = list_pages np x \<union> Ra"
    and Rw: "\<forall>x. pages_listed np ((sc_waiting s)[j := x]) = list_pages np x \<union> Rw"
    using pages_listed_at[OF l(1), of np] pages_listed_at[OF l(2), of np] by (elim exE)
  obtain Wa Ww where Wa: "\<forall>x. work_listed np ((sc_active s)[j := x]) = list_work np x + Wa"
    and Ww: "\<forall>x. work_listed np ((sc_waiting s)[j := x]) = list_work np x + Ww"
    using work_listed_at[OF l(1), of np] work_listed_at[OF l(2), of np] by (elim exE)
  note R = spec[OF Ra] spec[OF Rw] and W = spec[OF Wa] spec[OF Ww]
  have lo: "places_ok N np nl (sc_active s) (sc_waiting s)" using ok np by (simp add: sched_ok_def)
  have "(\<forall>c\<in>set (sc_active s' ! k). in_part N np (k div nl) c) \<and> (\<forall>c\<in>set (sc_waiting s' ! k). open_range N np (k div nl) c) \<and>
      (sc_active s' ! k = [] \<longrightarrow> sc_waiting s' ! k = [])" if "k < np * nl" for k
  proof (cases "k = j")
    case True
    then show ?thesis using a w bal l unfolding act wait by simp
  next
    case False
    then show ?thesis using lo that unfolding act wait places_ok_def by simp
  qed
  then have "places_ok N np nl (sc_active s') (sc_waiting s')" using lo unfolding places_ok_def act wait by simp
  moreover have "\<exists>ws. rewritten N ws ns0 (sc_ns s')" using ok rw rewritten_trans unfolding sched_ok_def by blast
  moreover have "M = ns_mapped (sc_ns s') \<union> pages_listed np (sc_active s') \<union> pages_listed np (sc_waiting s')"
  proof -
    have "M = ns_mapped (sc_ns s) \<union> (list_pages np (sc_active s ! j) \<union> Ra) \<union> (list_pages np (sc_waiting s ! j) \<union> Rw)"
      using ok np R(1)[of "sc_active s ! j"] R(2)[of "sc_waiting s ! j"] by (simp add: sched_ok_def)
    moreover have "ns_mapped (sc_ns s') = ws \<union> ns_mapped (sc_ns s)" using rw by (simp add: rewritten_def)
    ultimately show ?thesis using pages unfolding act wait R by blast
  qed
  ultimately show "sched_ok N nl ns0 M s'" using pos np by (simp add: sched_ok_def)
  show "sched_work np s' + (list_work np (sc_active s ! j) + list_work np (sc_waiting s ! j)) = sched_work np s + (list_work np a + list_work np w)"
  proof -
    have "work_listed np (sc_active s) = list_work np (sc_active s ! j) + Wa" "work_listed np (sc_waiting s) = list_work np (sc_waiting s ! j) + Ww"
      using W(1)[of "sc_active s ! j"] W(2)[of "sc_waiting s ! j"] by simp_all
    then show ?thesis unfolding sched_work_def act wait W by simp
  qed
qed

section \<open>Choosing a list\<close>

definition cyclic_dist :: "nat \<Rightarrow> (nat \<Rightarrow> bool) \<Rightarrow> nat \<Rightarrow> nat" where
  "cyclic_dist n P i = (LEAST d. P ((i + d) mod n))"

lemma cyclic_dist_next:
  assumes "i < n" "\<not> P i" "P k" "k < n"
  shows "cyclic_dist n P ((i + 1) mod n) < cyclic_dist n P i"
proof -
  have "(i + (n - i + k)) mod n = k" using assms(1,4) by simp
  then have e: "P ((i + cyclic_dist n P i) mod n)"
    unfolding cyclic_dist_def using assms(3) by (metis (mono_tags, lifting) LeastI)
  then obtain d where d: "cyclic_dist n P i = Suc d" using assms(1,2) by (cases "cyclic_dist n P i") auto
  have "P (((i + 1) mod n + d) mod n)" using e unfolding d by (simp add: mod_add_left_eq)
  then have "cyclic_dist n P ((i + 1) mod n) \<le> d" unfolding cyclic_dist_def by (rule Least_le)
  then show ?thesis using d by simp
qed

definition chunk_dist :: "nat \<Rightarrow> sched \<Rightarrow> nat" where
  "chunk_dist nl s = cyclic_dist nl (\<lambda>c. sc_active s ! (sc_index s * nl + c) \<noteq> []) (sc_chunk s)"

definition index_dist :: "nat \<Rightarrow> nat \<Rightarrow> sched \<Rightarrow> nat" where
  "index_dist np nl s = cyclic_dist np (\<lambda>i. \<exists>c<nl. sc_active s ! (i * nl + c) \<noteq> []) (sc_index s)"

text \<open>A turn that only changes the list takes a step towards one that is not empty, when there is one.\<close>

lemma next_turn_frame:
  assumes "sc_index s < np" "sc_chunk s < nl"
  shows "sc_active (next_turn np nl s) = sc_active s" "sc_waiting (next_turn np nl s) = sc_waiting s" "sc_ns (next_turn np nl s) = sc_ns s"
    "sc_count (next_turn np nl s) = 0" "sc_index (next_turn np nl s) < np" "sc_chunk (next_turn np nl s) < nl"
  using assms by (auto simp: next_turn_def)

lemma next_turn_dist:
  assumes i: "sc_index s < np" "sc_chunk s < nl" and len: "length (sc_active s) = np * nl"
    and here: "sc_active s ! sc_place nl s = []" and any: "any_active_nonempty (sc_active s)"
  shows "index_dist np nl (next_turn np nl s) < index_dist np nl s \<or>
    index_dist np nl (next_turn np nl s) = index_dist np nl s \<and> chunk_dist nl (next_turn np nl s) < chunk_dist nl s"
proof (cases "have_chunk nl s")
  case True
  then obtain c where c: "c < nl" "sc_active s ! (sc_index s * nl + c) \<noteq> []" by (auto simp: have_chunk_def)
  have "next_turn np nl s = s\<lparr>sc_count := 0, sc_chunk := (sc_chunk s + 1) mod nl\<rparr>"
    using True i(2) by (auto simp: next_turn_def mod_Suc)
  then show ?thesis
    using cyclic_dist_next[OF i(2), of "\<lambda>c. sc_active s ! (sc_index s * nl + c) \<noteq> []", OF _ c(2,1)] here
    by (simp add: index_dist_def chunk_dist_def sc_place_def)
next
  case False
  obtain j where j: "j < np * nl" "sc_active s ! j \<noteq> []" using any len by (auto simp: any_active_nonempty_def in_set_conv_nth)
  have nl: "0 < nl" using i(2) by simp
  have p: "\<exists>c<nl. sc_active s ! (j div nl * nl + c) \<noteq> []" using j nl by (intro exI[of _ "j mod nl"]) simp
  have k: "j div nl < np" using j(1) nl by (simp add: less_mult_imp_div_less)
  have n: "\<not> (\<exists>c<nl. sc_active s ! (sc_index s * nl + c) \<noteq> [])" using False by (simp add: have_chunk_def)
  have "next_turn np nl s = s\<lparr>sc_count := 0, sc_chunk := 0, sc_index := (sc_index s + 1) mod np\<rparr>"
    using False i(1) by (auto simp: next_turn_def mod_Suc)
  then show ?thesis
    using cyclic_dist_next[OF i(1), of "\<lambda>i. \<exists>c<nl. sc_active s ! (i * nl + c) \<noteq> []", OF n p k] by (simp add: index_dist_def)
qed


section \<open>A turn\<close>

lemma sched_place:
  assumes "sched_ok N nl ns0 M s" "np = cn_nr_parts ns0"
  shows "sc_place nl s < np * nl" "sc_place nl s div nl = sc_index s" "length (sc_active s) = np * nl" "length (sc_waiting s) = np * nl"
    "sc_index s < np" "sc_chunk s < nl"
  using assms by (auto simp: sched_ok_def places_ok_def sc_place_def place_less)

lemma conti_same [simp]: "chunk_pages np (c\<lparr>ck_conti := x\<rparr>) = chunk_pages np c"
  by (simp add: chunk_pages_def)

text \<open>Waking a range moves it from the waiting list to the active one.\<close>

lemma wake_up_ok:
  assumes j: "j < length (sc_active s)" "j < length (sc_waiting s)" and w: "\<forall>c\<in>set (sc_waiting s ! j). open_range N np i c"
    and a: "\<forall>c\<in>set (sc_active s ! j). in_part N np i c" and r: "sc_restart s \<longrightarrow> sc_active s ! j \<noteq> []"
  shows "\<exists>a w. wake_up j s = Some (s\<lparr>sc_active := (sc_active s)[j := a], sc_waiting := (sc_waiting s)[j := w]\<rparr>) \<and>
    (\<forall>c\<in>set w. open_range N np i c) \<and> (\<forall>c\<in>set a. in_part N np i c) \<and> (a = [] \<longrightarrow> w = []) \<and>
    list_pages np a \<union> list_pages np w = list_pages np (sc_active s ! j) \<union> list_pages np (sc_waiting s ! j) \<and>
    list_work np a + list_work np w = list_work np (sc_active s ! j) + list_work np (sc_waiting s ! j)"
proof (cases "\<exists>c cs. sc_waiting s ! j = c # cs \<and> \<not> sc_restart s \<and> sc_active s ! j = []")
  case True
  then obtain c cs where c: "sc_waiting s ! j = c # cs" "\<not> sc_restart s" "sc_active s ! j = []" by blast
  have "in_part N np i (c\<lparr>ck_conti := -1\<rparr>)" "\<forall>c\<in>set cs. open_range N np i c"
    using w c(1) by (simp_all add: open_range_def in_part_def chunk_ok_def)
  then show ?thesis using c j by (intro exI[of _ "[c\<lparr>ck_conti := -1\<rparr>]"] exI[of _ cs]) (simp add: wake_up_def)
next
  case False
  then have "wake_up j s = Some s" using j by (auto simp: wake_up_def split: list.splits)
  moreover have "sc_active s ! j = [] \<longrightarrow> sc_waiting s ! j = []" using False r by (cases "sc_waiting s ! j") auto
  ultimately show ?thesis using a w by (intro exI[of _ "sc_active s ! j"] exI[of _ "sc_waiting s ! j"]) simp
qed

definition run_list :: "nat \<Rightarrow> nat \<Rightarrow> (nat \<Rightarrow> nat) \<Rightarrow> nat \<Rightarrow> sched \<Rightarrow> sched option" where
  "run_list limit degree rnd num_lists s1 = do {
     act \<leftarrow> array_read (sc_active s1) (sc_place num_lists s1);
     (act', s2) \<leftarrow> sweep limit degree rnd num_lists act (s1\<lparr>sc_restart := False\<rparr>);
     wake_up (sc_place num_lists s1) (s2\<lparr>sc_active := (sc_active s2)[sc_place num_lists s1 := act']\<rparr>)
   }"

lemma clean_turn_split: "clean_turn limit degree rnd np nl s = do { s1 \<leftarrow> choose_list limit np nl s; run_list limit degree rnd nl s1 }"
  by (simp add: clean_turn_def run_list_def Let_def)

lemma run_list_ok:
  assumes ok: "sched_ok N nl ns0 M s" and np: "np = cn_nr_parts ns0"
  shows "\<exists>s'. run_list limit degree rnd nl s = Some s' \<and> sched_ok N nl ns0 M s' \<and>
    (if sc_active s ! sc_place nl s = [] \<or> limit \<le> sc_count s then s' = s\<lparr>sc_restart := False\<rparr> else sched_work np s' < sched_work np s)"
proof -
  let ?j = "sc_place nl s" and ?s = "s\<lparr>sc_restart := False\<rparr>"
  note pl = sched_place[OF ok np]
  have ns: "ns_inv N (sc_ns s)" "cn_nr_parts (sc_ns s) = np" using ok np by (auto simp: sched_ok_def rewritten_def)
  have at: "\<forall>c\<in>set (sc_active s ! ?j). in_part N np (sc_index s) c" "\<forall>c\<in>set (sc_waiting s ! ?j). open_range N np (sc_index s) c"
    "sc_active s ! ?j = [] \<longrightarrow> sc_waiting s ! ?j = []"
    using ok pl(1,2) np unfolding sched_ok_def places_ok_def by metis+
  have "pass_ok N np nl ?j ?s" using ns pl at by (simp add: pass_ok_def sc_place_def)
  moreover have "\<forall>c\<in>set (sc_active s ! ?j). in_part N np (sc_index ?s) c" "\<not> sc_restart ?s" using at by simp_all
  ultimately obtain cs s2 ws where q: "sweep limit degree rnd nl (sc_active s ! ?j) ?s = Some (cs, s2)" "pass_ok N np nl ?j s2" "passed N ?j ws ?s s2"
    "\<forall>c\<in>set cs. in_part N np (sc_index ?s) c"
    "list_pages np (sc_active s ! ?j) \<union> list_pages np (sc_waiting ?s ! ?j) = ws \<union> list_pages np cs \<union> list_pages np (sc_waiting s2 ! ?j)"
    "if sc_active s ! ?j = [] \<or> limit \<le> sc_count ?s then cs = sc_active s ! ?j \<and> s2 = ?s
     else list_work np cs + list_work np (sc_waiting s2 ! ?j) < list_work np (sc_active s ! ?j) + list_work np (sc_waiting ?s ! ?j)"
    "sc_restart s2 \<longrightarrow> cs \<noteq> []"
    using sweep_ok[of N np nl ?j ?s "sc_active s ! ?j" limit degree rnd] by blast
  obtain l where s2: "sc_active s2 = sc_active s" "sc_index s2 = sc_index s" "sc_chunk s2 = sc_chunk s" "rewritten N ws (sc_ns s) (sc_ns s2)"
    "sc_waiting s2 = (sc_waiting s)[?j := l]" using q(3) by (auto simp: passed_def)
  let ?s3 = "s2\<lparr>sc_active := (sc_active s2)[?j := cs]\<rparr>"
  have l: "?j < length (sc_active s)" "?j < length (sc_waiting s)" using pl by simp_all
  have w2: "\<forall>c\<in>set (sc_waiting s2 ! ?j). open_range N np (sc_index s) c" using q(2) s2(2) by (simp add: pass_ok_def)
  have pre: "?j < length (sc_active ?s3)" "?j < length (sc_waiting ?s3)" "\<forall>c\<in>set (sc_waiting ?s3 ! ?j). open_range N np (sc_index s) c"
    "\<forall>c\<in>set (sc_active ?s3 ! ?j). in_part N np (sc_index s) c" "sc_restart ?s3 \<longrightarrow> sc_active ?s3 ! ?j \<noteq> []"
    using l s2 w2 q(4,7) by simp_all
  from wake_up_ok[OF pre] obtain a w where u: "wake_up ?j ?s3 = Some (?s3\<lparr>sc_active := (sc_active ?s3)[?j := a], sc_waiting := (sc_waiting ?s3)[?j := w]\<rparr>)"
    "\<forall>c\<in>set w. open_range N np (sc_index s) c" "\<forall>c\<in>set a. in_part N np (sc_index s) c" "a = [] \<longrightarrow> w = []"
    "list_pages np a \<union> list_pages np w = list_pages np (sc_active ?s3 ! ?j) \<union> list_pages np (sc_waiting ?s3 ! ?j)"
    "list_work np a + list_work np w = list_work np (sc_active ?s3 ! ?j) + list_work np (sc_waiting ?s3 ! ?j)" by blast
  let ?s' = "?s3\<lparr>sc_active := (sc_active ?s3)[?j := a], sc_waiting := (sc_waiting ?s3)[?j := w]\<rparr>"
  have run: "run_list limit degree rnd nl s = Some ?s'" using l q(1) u(1) by (simp add: run_list_def)
  have fr: "rewritten N ws (sc_ns s) (sc_ns ?s')" "sc_active ?s' = (sc_active s)[?j := a]" "sc_waiting ?s' = (sc_waiting s)[?j := w]"
    "sc_index ?s' < np" "sc_chunk ?s' < nl" using s2 pl(5,6) by simp_all
  have aw: "\<forall>c\<in>set a. in_part N np (?j div nl) c" "\<forall>c\<in>set w. open_range N np (?j div nl) c" using u(2,3) pl(2) by simp_all
  have pg: "list_pages np (sc_active s ! ?j) \<union> list_pages np (sc_waiting s ! ?j) = ws \<union> list_pages np a \<union> list_pages np w"
    using q(5) u(5) l s2(1) by auto
  note ch = change_place[OF ok np pl(1) fr(1-3) aw u(4) pg fr(4,5)]
  show ?thesis
  proof (cases "sc_active s ! ?j = [] \<or> limit \<le> sc_count s")
    case True
    then have e: "cs = sc_active s ! ?j" "s2 = ?s" using q(6) by simp_all
    have "wake_up ?j ?s = Some ?s" using at(3) l by (auto simp: wake_up_def split: list.splits)
    then have "run_list limit degree rnd nl s = Some ?s" using l q(1) e by (simp add: run_list_def)
    then show ?thesis using True run ch(1) by simp
  next
    case False
    then have "list_work np cs + list_work np (sc_waiting s2 ! ?j) < list_work np (sc_active s ! ?j) + list_work np (sc_waiting s ! ?j)" using q(6) by simp
    then have "sched_work np ?s' < sched_work np s" using ch(2) u(6) l s2(1) by simp
    then show ?thesis using False run ch(1) by simp
  qed
qed

section \<open>The loop\<close>

definition turn_pending :: "nat \<Rightarrow> sched \<Rightarrow> nat" where
  "turn_pending limit s = (if limit \<le> sc_count s then if sc_restart s then 2 else 1 else 0)"

definition turn_order :: "nat \<Rightarrow> nat \<Rightarrow> nat \<Rightarrow> (sched \<times> sched) set" where
  "turn_order limit np nl = measures [sched_work np, turn_pending limit, index_dist np nl, chunk_dist nl]"

lemma clean_turn_ok:
  assumes ok: "sched_ok N nl ns0 M s" and np: "np = cn_nr_parts ns0" and lim: "0 < limit"
  shows "\<exists>s'. clean_turn limit degree rnd np nl s = Some s' \<and> sched_ok N nl ns0 M s' \<and>
    (sc_restart s' \<or> any_active_nonempty (sc_active s') \<longrightarrow> (s', s) \<in> turn_order limit np nl)"
proof -
  note pl = sched_place[OF ok np]
  let ?change = "(\<not> sc_restart s \<and> limit \<le> sc_count s) \<or> sc_active s ! sc_place nl s = []"
  let ?s1 = "if ?change then next_turn np nl s else s"
  have ch: "choose_list limit np nl s = Some ?s1" using pl(1,3) by (simp add: choose_list_def)
  note nt = next_turn_frame[OF pl(5,6)]
  have ok1: "sched_ok N nl ns0 M ?s1" using ok nt np by (simp add: sched_ok_def)
  have w1: "sched_work np ?s1 = sched_work np s" using nt by (simp add: sched_work_def)
  obtain s' where s': "run_list limit degree rnd nl ?s1 = Some s'" "sched_ok N nl ns0 M s'"
    "if sc_active ?s1 ! sc_place nl ?s1 = [] \<or> limit \<le> sc_count ?s1 then s' = ?s1\<lparr>sc_restart := False\<rparr> else sched_work np s' < sched_work np ?s1"
    using run_list_ok[OF ok1 np, of limit degree rnd] by blast
  have "(s', s) \<in> turn_order limit np nl" if goes: "sc_restart s' \<or> any_active_nonempty (sc_active s')"
  proof (cases "sc_active ?s1 ! sc_place nl ?s1 = [] \<or> limit \<le> sc_count ?s1")
    case False
    then show ?thesis using s'(3) w1 by (simp add: turn_order_def)
  next
    case True
    then have e: "s' = ?s1\<lparr>sc_restart := False\<rparr>" using s'(3) by simp
    have w: "sched_work np s' = sched_work np s" using w1 unfolding e by (simp add: sched_work_def)
    show ?thesis
    proof (cases ?change)
      case same: False
      then have "limit \<le> sc_count s" "sc_restart s" "s' = s\<lparr>sc_restart := False\<rparr>" using True e by auto
      then show ?thesis using w by (simp add: turn_order_def turn_pending_def)
    next
      case change: True
      then have e: "s' = (next_turn np nl s)\<lparr>sc_restart := False\<rparr>" using e by simp
      have p: "turn_pending limit s' = 0" "index_dist np nl s' = index_dist np nl (next_turn np nl s)" "chunk_dist nl s' = chunk_dist nl (next_turn np nl s)"
        using nt(4) lim unfolding e by (simp_all add: turn_pending_def index_dist_def chunk_dist_def)
      show ?thesis
      proof (cases "limit \<le> sc_count s")
        case True
        then show ?thesis using w p(1) by (simp add: turn_order_def turn_pending_def)
      next
        case few: False
        then have here: "sc_active s ! sc_place nl s = []" using change by simp
        have "any_active_nonempty (sc_active s)" using goes nt(1) unfolding e by simp
        from next_turn_dist[OF pl(5,6,3) here this] show ?thesis using w p few by (auto simp: turn_order_def turn_pending_def)
      qed
    qed
  qed
  then show ?thesis using ch s'(1,2) by (auto simp: clean_turn_split)
qed

lemma clean_loop_ok:
  assumes "sched_ok N nl ns0 M s" "np = cn_nr_parts ns0" "0 < limit"
  shows "\<exists>s'. clean_loop limit degree rnd np nl s = Some s' \<and> sched_ok N nl ns0 M s' \<and> \<not> any_active_nonempty (sc_active s')"
proof -
  have "wf (turn_order limit np nl)" by (simp add: turn_order_def)
  then show ?thesis using assms(1)
  proof (induction s rule: wf_induct_rule)
  case (less s)
  obtain s' where t: "clean_turn limit degree rnd np nl s = Some s'" "sched_ok N nl ns0 M s'"
    "sc_restart s' \<or> any_active_nonempty (sc_active s') \<longrightarrow> (s', s) \<in> turn_order limit np nl"
    using clean_turn_ok[OF less(2) assms(2,3)] by blast
  show ?case
  proof (cases "sc_restart s' \<or> any_active_nonempty (sc_active s')")
    case True
    then show ?thesis using less(1)[of s'] t by (subst clean_loop.simps) simp
  next
    case False
    then show ?thesis using t by (subst clean_loop.simps) simp
  qed
  qed
qed

text \<open>With no active range there is no waiting one, so all pages are mapped.\<close>

lemma all_written:
  assumes "sched_ok N nl ns0 M s" "\<not> any_active_nonempty (sc_active s)"
  shows "ns_mapped (sc_ns s) = M" "\<exists>ws. rewritten N ws ns0 (sc_ns s)"
proof -
  have len: "length (sc_waiting s) = length (sc_active s)" using assms(1) by (simp add: sched_ok_def places_ok_def)
  have a: "sc_active s ! j = []" if "j < length (sc_active s)" for j using assms(2) that by (auto simp: any_active_nonempty_def)
  then have "sc_waiting s ! j = []" if "j < length (sc_waiting s)" for j
    using assms(1) that len by (simp add: sched_ok_def places_ok_def)
  then have "pages_listed np (sc_active s) = {}" "pages_listed np (sc_waiting s) = {}" for np
    using a by (auto simp: pages_listed_def in_set_conv_nth)
  then show "ns_mapped (sc_ns s) = M" using assms(1) by (simp add: sched_ok_def)
  show "\<exists>ws. rewritten N ws ns0 (sc_ns s)" using assms(1) by (simp add: sched_ok_def)
qed

end
