(* ===== verification/Phfrag_Split.thy ===== *)
theory Phfrag_Split
  imports Phfrag_Loop
begin

text \<open>
  The ranges that \<^verbatim>\<open>create\_list\_from\_table\<close> and \<^verbatim>\<open>create\_list\_from\_table\_split\<close> build hold exactly the mapped pages, and
  with them \<^verbatim>\<open>clean\_ftl\<close> moves every page of the old drive to the new one.
\<close>

section \<open>The pages of a range\<close>

lemma mod_diff_nat: "b \<le> a \<Longrightarrow> 0 < n \<Longrightarrow> (a - b) mod n = (a mod n + n - b mod n) mod (n :: nat)"
proof -
  assume a: "b \<le> a" "0 < n"
  have b: "b mod n \<le> n" using a(2) by (simp add: less_imp_le)
  have "(a mod n + (n - b mod n)) mod n = (a + (n - b mod n)) mod n" by (rule mod_add_left_eq)
  also have "a + (n - b mod n) = (a - b) + (b + (n - b mod n))" using a(1) by simp
  also have "b + (n - b mod n) = n + n * (b div n)" using b mult_div_mod_eq[of n b] by linarith
  also have "(a - b) + (n + n * (b div n)) = (a - b) + n * Suc (b div n)" by simp
  also have "((a - b) + n * Suc (b div n)) mod n = (a - b) mod n" by (rule mod_mult_self2)
  finally show ?thesis using b by simp
qed

lemma chunk_lpns_image: "set (chunk_lpns np s e) = (if s \<le> e then (\<lambda>k. s + k * np) ` {..(e - s) div np} else {})"
  by (simp add: chunk_lpns_def lpns_from_def atLeast0LessThan lessThan_Suc_atMost del: upt_Suc)

lemma chunk_lpns_set:
  assumes "0 < np"
  shows "l \<in> set (chunk_lpns np s e) \<longleftrightarrow> s \<le> l \<and> l \<le> e \<and> l mod np = s mod np"
proof
  assume "l \<in> set (chunk_lpns np s e)"
  then obtain k where k: "s \<le> e" "l = s + k * np" "k \<le> (e - s) div np" unfolding chunk_lpns_image by (auto split: if_splits)
  have "k * np \<le> e - s" using k(3) assms by (simp add: less_eq_div_iff_mult_less_eq)
  then show "s \<le> l \<and> l \<le> e \<and> l mod np = s mod np" using k by simp
next
  assume l: "s \<le> l \<and> l \<le> e \<and> l mod np = s mod np"
  then have d: "(l - s) mod np = 0" using assms by (simp add: mod_diff_nat)
  have "l = s + (l - s) div np * np" using l d by (simp add: minus_mod_eq_div_mult [symmetric])
  moreover have "(l - s) div np \<le> (e - s) div np" using l by (intro div_le_mono diff_le_mono) simp
  ultimately show "l \<in> set (chunk_lpns np s e)" using l unfolding chunk_lpns_image by auto
qed

lemma dump_s_ok:
  assumes "i < np"
  shows "dump_s np i first mod np = i" "first \<le> dump_s np i first" "first \<le> l \<Longrightarrow> l mod np = i \<Longrightarrow> dump_s np i first \<le> l"
proof -
  have np: "0 < np" and m: "first mod np < np" using assms by simp_all
  have "(first + (i + np - first mod np)) mod np = (first mod np + (i + np - first mod np)) mod np" by (simp add: mod_add_left_eq)
  also have "first mod np + (i + np - first mod np) = i + np" using m by simp
  finally show "dump_s np i first mod np = i" using assms by (simp add: dump_s_def mod_add_right_eq)
  show "first \<le> dump_s np i first" by (simp add: dump_s_def)
  assume l: "first \<le> l" "l mod np = i"
  have "(l - first) mod np = (i + np - first mod np) mod np" using mod_diff_nat[OF l(1) np] l(2) by simp
  then have "(i + np - first mod np) mod np \<le> l - first" by (metis mod_less_eq_dividend)
  then show "dump_s np i first \<le> l" using l(1) by (simp add: dump_s_def)
qed

lemma dump_e_ok:
  assumes "i < np" "np \<le> Suc lst" "lst < 2 ^ 64"
  shows "dump_e np i lst \<le> lst" "l \<le> lst \<Longrightarrow> l mod np = i \<Longrightarrow> l \<le> dump_e np i lst"
proof -
  let ?d = "(lst mod np + np - i) mod np"
  have np: "0 < np" using assms by simp
  have d: "?d \<le> lst" using assms(2) mod_less_divisor[OF np, of "lst mod np + np - i"] by linarith
  have e: "dump_e np i lst = lst - ?d"
  proof -
    have "lst + 2 ^ 64 - ?d = (lst - ?d) + 2 ^ 64" using d by simp
    then have "dump_e np i lst = (lst - ?d) mod 2 ^ 64" unfolding dump_e_def by (simp only: mod_add_self2)
    then show ?thesis using assms(3) by (simp add: mod_less)
  qed
  show "dump_e np i lst \<le> lst" using e by simp
  assume l: "l \<le> lst" "l mod np = i"
  have "(lst - l) mod np = ?d" using mod_diff_nat[OF l(1) np] l(2) by simp
  then have "?d \<le> lst - l" by (metis mod_less_eq_dividend)
  then show "l \<le> dump_e np i lst" using e l(1) by simp
qed

lemma run_pages:
  assumes "i < np" "np \<le> Suc lst" "lst < 2 ^ 64"
  shows "set (chunk_pages np (generate_lpn (dump_s np i first) (dump_e np i lst) cnt i x y)) = {l \<in> {first..lst}. l mod np = i}"
proof -
  note s = dump_s_ok[OF assms(1), of first] and e = dump_e_ok[OF assms]
  have np: "0 < np" using assms(1) by simp
  have m: "l \<in> set (chunk_pages np (generate_lpn (dump_s np i first) (dump_e np i lst) cnt i x y)) \<longleftrightarrow>
      dump_s np i first \<le> l \<and> l \<le> dump_e np i lst \<and> l mod np = i" for l
    using s(1) by (simp add: chunk_pages_def generate_lpn_def chunk_lpns_set[OF np])
  show ?thesis using s(2,3) e m by (auto intro: order_trans)
qed

section \<open>Adding a run\<close>

text \<open>Every range is in the list of its partition.\<close>

definition split_ok :: "nat \<Rightarrow> nat \<Rightarrow> nat \<Rightarrow> lba_chunk list list \<Rightarrow> bool" where
  "split_ok N np nl head \<longleftrightarrow> length head = np * nl \<and> (\<forall>j<np * nl. \<forall>c\<in>set (head ! j). in_part N np (j div nl) c)"

lemma add_run_ok:
  assumes ok: "split_ok N np nl head" and cur: "cur < nl" and b: "np \<le> Suc lst" "lst < 2 ^ 64" "lst < N * np"
  shows "\<exists>head'. add_run np nl cur first lst cnt head = Some head' \<and> split_ok N np nl head' \<and>
    pages_listed np head' = pages_listed np head \<union> {first..lst}"
proof -
  let ?step = "\<lambda>i head. do { l \<leftarrow> array_read head (i * nl + cur);
       array_write head (i * nl + cur) (l @ [generate_lpn (dump_s np i first) (dump_e np i lst) cnt i (-1) (-1)]) }"
  have "\<exists>h. foldM ?step [0..<np] head = Some h \<and> (split_ok N np nl h \<and>
      pages_listed np h = pages_listed np head \<union> {l \<in> {first..lst}. l mod np < length [0..<np]})"
  proof (rule foldM_invariant)
    show "split_ok N np nl head \<and> pages_listed np head = pages_listed np head \<union> {l \<in> {first..lst}. l mod np < 0}" using ok by simp
    fix i h assume i: "i < length [0..<np]"
      and h: "split_ok N np nl h \<and> pages_listed np h = pages_listed np head \<union> {l \<in> {first..lst}. l mod np < i}"
    let ?j = "i * nl + cur" and ?c = "generate_lpn (dump_s np i first) (dump_e np i lst) cnt i (-1) (-1)"
    have inp: "i < np" "[0..<np] ! i = i" and j: "?j < np * nl" "?j div nl = i" using i cur by (simp_all add: place_less)
    have len: "?j < length h" using h j by (simp add: split_ok_def)
    note rp = run_pages[OF inp(1) b(1,2), of first cnt "-1" "-1"]
    have "l div np < N" if "l \<le> lst" for l using that b(3) inp(1) by (simp add: less_mult_imp_div_less)
    then have c: "in_part N np i ?c" using rp inp(1) by (auto simp: in_part_def chunk_ok_def generate_lpn_def)
    let ?h = "h[?j := h ! ?j @ [?c]]"
    have "\<forall>c\<in>set (?h ! k). in_part N np (k div nl) c" if "k < np * nl" for k
      using h c j(2) len that unfolding split_ok_def by (cases "k = ?j") auto
    then have "split_ok N np nl ?h" using h by (simp add: split_ok_def)
    moreover have "pages_listed np ?h = pages_listed np head \<union> {l \<in> {first..lst}. l mod np < Suc i}"
    proof -
      obtain R where R: "\<forall>x. pages_listed np (h[?j := x]) = list_pages np x \<union> R" using pages_listed_at[OF len, of np] by (elim exE)
      have "pages_listed np h = list_pages np (h ! ?j) \<union> R" using R[rule_format, of "h ! ?j"] by simp
      then have "pages_listed np ?h = pages_listed np h \<union> {l \<in> {first..lst}. l mod np = i}"
        using R[rule_format, of "h ! ?j @ [?c]"] rp by auto
      then show ?thesis using h by (auto simp: less_Suc_eq)
    qed
    ultimately show "\<exists>h'. ?step ([0..<np] ! i) h = Some h' \<and>
        (split_ok N np nl h' \<and> pages_listed np h' = pages_listed np head \<union> {l \<in> {first..lst}. l mod np < Suc i})"
      using len inp(2) by simp
  qed
  then obtain h where h: "add_run np nl cur first lst cnt head = Some h" "split_ok N np nl h"
    "pages_listed np h = pages_listed np head \<union> {l \<in> {first..lst}. l mod np < np}" unfolding add_run_def by auto
  have "0 < np \<or> {first..lst} = {}" using b(3) by (cases np) auto
  then have "{l \<in> {first..lst}. l mod np < np} = {first..lst}" by (auto simp: mod_less_divisor)
  then show ?thesis using h by simp
qed

section \<open>Walking the table\<close>

lemma table_entry_ok:
  assumes ns: "ns_inv N ns" and g: "g < tt_pgs (ns_spp ns) * cn_nr_parts ns"
  shows "\<exists>a. table_entry ns g = Some a \<and> (a \<noteq> UNMAPPED_PPA \<longleftrightarrow> g \<in> ns_mapped ns)"
proof -
  let ?np = "cn_nr_parts ns" and ?f = "cn_ftls ns ! (g mod cn_nr_parts ns)"
  have i: "g mod ?np < length (cn_ftls ns)" using ns by (simp add: ns_inv_def)
  then have f: "conv_inv ?f" "cf_sp ?f = ns_spp ns" using ns nth_mem by (auto simp: ns_inv_def)
  have l: "length (cf_maptbl ?f) = tt_pgs (ns_spp ns)" using f by (simp add: conv_inv_def core_def map_ok_def)
  have k: "g div ?np < tt_pgs (ns_spp ns)" using g by (simp add: less_mult_imp_div_less)
  show ?thesis using i l k f(2) by (simp add: table_entry_def ns_mapped_def mapped_def)
qed

text \<open>The pages below the old size.\<close>

lemma mapped_bound:
  assumes "ns_inv N ns" "g \<in> ns_mapped ns"
  shows "g < N * cn_nr_parts ns" "g < tt_pgs (ns_spp ns) * cn_nr_parts ns"
proof -
  let ?f = "cn_ftls ns ! (g mod cn_nr_parts ns)"
  have np: "0 < cn_nr_parts ns" "?f \<in> set (cn_ftls ns)" using assms(1) by (auto simp: ns_inv_def)
  then have "flow_ok N ?f" "cf_sp ?f = ns_spp ns" using assms(1) by (auto simp: ns_inv_def)
  moreover have "g div cn_nr_parts ns \<in> mapped ?f" using assms(2) by (simp add: ns_mapped_def)
  ultimately have "g div cn_nr_parts ns < N" "g div cn_nr_parts ns < tt_pgs (ns_spp ns)" by (auto simp: flow_ok_def mapped_def)
  then show "g < N * cn_nr_parts ns" "g < tt_pgs (ns_spp ns) * cn_nr_parts ns" using np(1) by (simp_all add: div_less_iff_less_mult)
qed

text \<open>Where the first run ends, no partition is left out.\<close>

definition first_run_long :: "conv_ns \<Rightarrow> bool" where
  "first_run_long ns \<longleftrightarrow> (\<forall>l<cn_nr_parts ns - 1. l \<in> ns_mapped ns \<longrightarrow> l + 1 \<in> ns_mapped ns)"

text \<open>After the pages below \<open>g\<close>: those of the open run, \<open>start\<close> to \<open>g\<close>, are mapped and all other mapped ones are in the lists.\<close>

definition walk_ok :: "nat \<Rightarrow> conv_ns \<Rightarrow> nat \<Rightarrow> nat \<Rightarrow> lba_chunk list list \<times> nat \<times> nat \<times> nat \<times> nat \<Rightarrow> bool" where
  "walk_ok N ns nl g = (\<lambda>(head, start, cnt, seen, cur). split_ok N (cn_nr_parts ns) nl head \<and> cur < nl \<and>
     {l \<in> ns_mapped ns. l < g} = pages_listed (cn_nr_parts ns) head \<union> (if cnt = 0 then {} else {start..<g}) \<and> (cnt \<noteq> 0 \<longrightarrow> start < g))"

lemma next_list_cur: "cur < nl \<Longrightarrow> snd (next_list nl split (seen, cur)) < nl"
  by (auto simp: next_list_def)

lemma less_Suc_set: "{l \<in> A. l < Suc g} = (if g \<in> A then insert g {l \<in> A. l < g} else {l \<in> A. l < g})"
  by (auto simp: less_Suc_eq)

lemma split_ok_all:
  assumes ns: "ns_inv N ns" and nl: "0 < nl" and lim: "tt_pgs (ns_spp ns) * cn_nr_parts ns \<le> 2 ^ 64" and run: "first_run_long ns"
  shows "\<exists>head. create_list_from_table_split (ns_spp ns) ns nl = Some head \<and> split_ok N (cn_nr_parts ns) nl head \<and>
    pages_listed (cn_nr_parts ns) head = ns_mapped ns"
proof -
  let ?np = "cn_nr_parts ns" and ?total = "tt_pgs (ns_spp ns) * cn_nr_parts ns"
  let ?step = "\<lambda>g (head, start, cnt, pos). do {
         let (seen, cur) = next_list nl (?total div nl) pos;
         a \<leftarrow> table_entry ns g;
         (if a \<noteq> UNMAPPED_PPA then Some (head, if cnt = 0 then g else start, cnt + 1, seen, cur)
          else if cnt \<noteq> 0 then do { head' \<leftarrow> add_run ?np nl cur start (g - 1) cnt head; Some (head', start, 0, seen, cur) }
          else Some (head, start, cnt, seen, cur)) }"
  have np: "0 < ?np" using ns by (simp add: ns_inv_def)
  have "\<exists>s. foldM ?step [0..<?total] (replicate (?np * nl) [], 0, 0, 0, 0) = Some s \<and> walk_ok N ns nl (length [0..<?total]) s"
  proof (rule foldM_invariant)
    show "walk_ok N ns nl 0 (replicate (?np * nl) [], 0, 0, 0, 0)"
      using nl by (auto simp: walk_ok_def split_ok_def pages_listed_def)
    fix g s assume g: "g < length [0..<?total]" and w: "walk_ok N ns nl g s"
    obtain head start cnt seen cur where s: "s = (head, start, cnt, seen, cur)" by (cases s)
    obtain seen' cur' where p: "next_list nl (?total div nl) (seen, cur) = (seen', cur')" by fastforce
    have w: "split_ok N ?np nl head" "cur < nl" "cnt \<noteq> 0 \<longrightarrow> start < g"
      "{l \<in> ns_mapped ns. l < g} = pages_listed ?np head \<union> (if cnt = 0 then {} else {start..<g})" using w by (simp_all add: walk_ok_def s)
    have cur': "cur' < nl" using next_list_cur[OF w(2), of "?total div nl" seen] p by simp
    obtain a where a: "table_entry ns g = Some a" "a \<noteq> UNMAPPED_PPA \<longleftrightarrow> g \<in> ns_mapped ns" using table_entry_ok[OF ns] g by auto
    have "\<exists>s'. ?step g s = Some s' \<and> walk_ok N ns nl (Suc g) s'"
    proof (cases "g \<in> ns_mapped ns")
      case True
      then have "?step g s = Some (head, if cnt = 0 then g else start, cnt + 1, seen', cur')" using a p s by simp
      moreover have "walk_ok N ns nl (Suc g) (head, if cnt = 0 then g else start, cnt + 1, seen', cur')"
        using w cur' True by (cases "cnt = 0") (simp_all add: walk_ok_def less_Suc_set atLeastLessThanSuc)
      ultimately show ?thesis by blast
    next
      case out: False
      show ?thesis
      proof (cases "cnt = 0")
        case True
        then have "?step g s = Some (head, start, cnt, seen', cur')" using a p s out by simp
        then show ?thesis using w cur' True out by (simp add: walk_ok_def less_Suc_set)
      next
        case False
        then have "start \<le> g - 1" "g - 1 < g" using w(3) by auto
        then have "g - 1 \<in> {start..<g}" by simp
        then have "g - 1 \<in> {l \<in> ns_mapped ns. l < g}" unfolding w(4) using False by simp
        then have last: "g - 1 \<in> ns_mapped ns" by simp
        have "\<not> g - 1 < ?np - 1" using run last out \<open>g - 1 < g\<close> by (auto simp: first_run_long_def)
        then have b: "?np \<le> Suc (g - 1)" "g - 1 < 2 ^ 64" "g - 1 < N * ?np" using g lim mapped_bound(1)[OF ns last] by simp_all
        obtain head' where h: "add_run ?np nl cur' start (g - 1) cnt head = Some head'" "split_ok N ?np nl head'"
          "pages_listed ?np head' = pages_listed ?np head \<union> {start..g - 1}" using add_run_ok[OF w(1) cur' b] by blast
        have "?step g s = Some (head', start, 0, seen', cur')" using a p s out False h(1) by simp
        moreover have "{start..g - 1} = {start..<g}" using \<open>g - 1 < g\<close> by auto
        ultimately show ?thesis using w h(2,3) cur' False out by (simp add: walk_ok_def less_Suc_set)
      qed
    qed
    moreover have "[0..<?total] ! g = g" using g by simp
    ultimately show "\<exists>s'. ?step ([0..<?total] ! g) s = Some s' \<and> walk_ok N ns nl (Suc g) s'" by (simp only:)
  qed
  then obtain head start cnt seen cur where s: "foldM ?step [0..<?total] (replicate (?np * nl) [], 0, 0, 0, 0) = Some (head, start, cnt, seen, cur)"
    "walk_ok N ns nl ?total (head, start, cnt, seen, cur)" by auto
  then have w: "split_ok N ?np nl head" "cur < nl" "cnt \<noteq> 0 \<longrightarrow> start < ?total"
    "{l \<in> ns_mapped ns. l < ?total} = pages_listed ?np head \<union> (if cnt = 0 then {} else {start..<?total})" by (simp_all add: walk_ok_def)
  have all: "{l \<in> ns_mapped ns. l < ?total} = ns_mapped ns" using mapped_bound(2)[OF ns] by blast
  have c: "create_list_from_table_split (ns_spp ns) ns nl = (if cnt \<noteq> 0 then add_run ?np nl cur start (?total - 1) cnt head else Some head)"
    using s(1) nl by (simp add: create_list_from_table_split_def Let_def)
  show ?thesis
  proof (cases "cnt = 0")
    case True
    then show ?thesis using c w all by simp
  next
    case False
    then have "start < ?total" using w(3) by simp
    then have pos: "0 < ?total" "start \<le> ?total - 1" by linarith+
    then have "?total - 1 \<in> {start..<?total}" by simp
    then have "?total - 1 \<in> {l \<in> ns_mapped ns. l < ?total}" unfolding w(4) using False by simp
    then have last: "?total - 1 \<in> ns_mapped ns" by simp
    have "?np \<le> ?total" using pos(1) by (cases "tt_pgs (ns_spp ns)") auto
    then have b: "?np \<le> Suc (?total - 1)" "?total - 1 < 2 ^ 64" "?total - 1 < N * ?np"
      using pos lim mapped_bound(1)[OF ns last] by simp_all
    obtain head' where h: "add_run ?np nl cur start (?total - 1) cnt head = Some head'" "split_ok N ?np nl head'"
      "pages_listed ?np head' = pages_listed ?np head \<union> {start..?total - 1}" using add_run_ok[OF w(1,2) b] by blast
    have "x \<le> ?total - 1 \<longleftrightarrow> x < ?total" for x using pos(1) by linarith
    then have "{start..?total - 1} = {start..<?total}" by (simp add: atLeastAtMost_def atLeastLessThan_def atMost_def lessThan_def)
    then show ?thesis using c h False w(4) all by simp
  qed
qed

section \<open>The whole operation\<close>

lemma sorted_lists:
  assumes "split_ok N np nl head"
  shows "places_ok N np nl (map (sort_key ck_size) head) (replicate (np * nl) [])"
    "pages_listed np (map (sort_key ck_size) head) = pages_listed np head"
  using assms by (auto simp: places_ok_def split_ok_def pages_listed_def list_pages_def)

lemma clean_ftl_ok:
  assumes ns: "ns_inv N ns" and lim: "tt_pgs (ns_spp ns) * cn_nr_parts ns \<le> 2 ^ 64" and run: "first_run_long ns" and nl: "0 < nl"
    and fresh: "ns_inv N fresh" "cn_nr_parts fresh = cn_nr_parts ns" "ns_mapped fresh = {}"
  shows "\<exists>ns'. clean_ftl degree rnd nl fresh ns = Some ns' \<and> ns_mapped ns' = ns_mapped ns \<and> (\<exists>ws. rewritten N ws fresh ns')"
proof -
  let ?np = "cn_nr_parts ns"
  obtain head where h: "create_list_from_table_split (ns_spp ns) ns nl = Some head" "split_ok N ?np nl head" "pages_listed ?np head = ns_mapped ns"
    using split_ok_all[OF ns nl lim run] by blast
  let ?s = "\<lparr>sc_ns = fresh, sc_active = map (sort_key ck_size) head, sc_waiting = replicate (?np * nl) [], sc_restart = True,
        sc_count = 0, sc_chunk = 0, sc_index = 0, sc_tick = 0\<rparr>"
  have np: "0 < ?np" "length (cn_ftls ns) = ?np" "conv_inv (cn_ftls ns ! 0)" using ns by (auto simp: ns_inv_def)
  then have "geo_ok (ns_spp ns)" by (simp add: conv_inv_def core_def ns_spp_def)
  then have lim: "0 < turn_limit (ns_spp ns)" using geo_pages(1) by (auto simp: turn_limit_def)
  have "pages_listed ?np (replicate (?np * nl) []) = {}" by (auto simp: pages_listed_def)
  moreover have "\<exists>ws. rewritten N ws fresh fresh" using rewritten_refl[OF fresh(1)] by blast
  ultimately have "sched_ok N nl fresh (ns_mapped ns) ?s"
    using sorted_lists[OF h(2)] h(3) np(1) nl fresh(2,3) by (simp add: sched_ok_def)
  note loop = clean_loop_ok[OF this fresh(2)[symmetric] lim, of degree rnd]
  obtain s' where s': "clean_loop (turn_limit (ns_spp ns)) degree rnd ?np nl ?s = Some s'" "sched_ok N nl fresh (ns_mapped ns) s'"
    "\<not> any_active_nonempty (sc_active s')" using loop by (elim exE conjE)
  have "clean_ftl degree rnd nl fresh ns = Some (sc_ns s')"
    using np nl h(1) s'(1) by (simp add: clean_ftl_def ns_spp_def)
  then show ?thesis using all_written[OF s'(2,3)] by blast
qed

end
