(* ===== verification/Phfrag_Count.thy ===== *)
theory Phfrag_Count
  imports Phfrag_Split
begin

text \<open>
  What the checks of fragmentation compute: \<^verbatim>\<open>phfrag\_check\<close> counts the pages that do not follow the page before
  them in their partition, and \<^verbatim>\<open>create\_list\_from\_table\<close> lists the maximal runs of mapped pages.
\<close>

section \<open>The count of a range\<close>

text \<open>The entry of a page, and the reference: the pages of \<open>a\<close> to \<open>b\<close> that are not the expected successor of the page
  \<open>np\<close> before them.\<close>

definition entry_of :: "conv_ns \<Rightarrow> nat \<Rightarrow> ppa" where
  "entry_of ns g = cf_maptbl (cn_ftls ns ! (g mod cn_nr_parts ns)) ! (g div cn_nr_parts ns)"

definition out_of_order :: "conv_ns \<Rightarrow> nat \<Rightarrow> bool" where
  "out_of_order ns g \<longleftrightarrow> \<not> is_next_correct (ns_spp ns) (entry_of ns (g - cn_nr_parts ns)) (entry_of ns g)"

definition breaks :: "conv_ns \<Rightarrow> nat \<Rightarrow> nat \<Rightarrow> nat" where
  "breaks ns a b = length (filter (out_of_order ns) [a + cn_nr_parts ns..<b + 1])"

lemma breaks_card: "breaks ns a b = card {g. out_of_order ns g \<and> a + cn_nr_parts ns \<le> g \<and> g \<le> b}"
proof -
  have "breaks ns a b = card ({g. out_of_order ns g} \<inter> {a + cn_nr_parts ns..<b + 1})"
    unfolding breaks_def distinct_length_filter[OF distinct_upt] set_upt ..
  also have "{g. out_of_order ns g} \<inter> {a + cn_nr_parts ns..<b + 1} = {g. out_of_order ns g \<and> a + cn_nr_parts ns \<le> g \<and> g \<le> b}" by auto
  finally show ?thesis .
qed

lemma next_correct_refl: "is_next_correct spp a a"
  by (simp add: is_next_correct_def is_same_oneshot_page_def same_blk_in_ssd_def)

lemma table_entry_eq:
  assumes "ns_inv N ns" "g < tt_pgs (ns_spp ns) * cn_nr_parts ns"
  shows "table_entry ns g = Some (entry_of ns g)"
  using table_entry_ok[OF assms] by (auto simp: table_entry_def entry_of_def array_read_def split: if_splits)

lemma check_part_ok:
  assumes ns: "ns_inv N ns" and b: "lst < tt_pgs (ns_spp ns) * cn_nr_parts ns" and s: "start \<le> lst"
  shows "check_part (ns_spp ns) ns lst start cnt =
    Some (cnt + card {g. out_of_order ns g \<and> start + cn_nr_parts ns \<le> g \<and> g \<le> lst \<and> (g - start) mod cn_nr_parts ns = 0})"
proof -
  let ?np = "cn_nr_parts ns"
  let ?l = "lpns_from start ?np lst"
  let ?bad = "\<lambda>k. {g. out_of_order ns g \<and> start + ?np \<le> g \<and> g < start + k * ?np \<and> (g - start) mod ?np = 0}"
  let ?P = "\<lambda>k (prev, c). prev = entry_of ns (start + (k - 1) * ?np) \<and> c = cnt + card (?bad k)"
  have np: "0 < ?np" using ns by (simp add: ns_inv_def)
  have nth: "?l ! k = start + k * ?np" if "k < length ?l" for k using that by (simp add: lpns_from_def del: upt_Suc)
  have le: "start + k * ?np \<le> lst" if "k < length ?l" for k
    using lpns_from_le[OF s] nth_mem[OF that] nth[OF that] by metis
  have fin: "finite (?bad k)" for k by (rule finite_subset[of _ "{..<start + k * ?np}"]) auto
  have "\<exists>r. foldM (\<lambda>lpn (prev, cnt). do {
         curp \<leftarrow> table_entry ns lpn;
         Some (curp, if is_next_correct (ns_spp ns) prev curp then cnt else cnt + 1) }) ?l (entry_of ns start, cnt) = Some r \<and> ?P (length ?l) r"
  proof (rule foldM_invariant)
    have "?bad 0 = {}" using np by auto
    then show "?P 0 (entry_of ns start, cnt)" by (simp add: card_eq_0_iff)
    fix k r assume k: "k < length ?l" and r: "?P k r"
    obtain prev c where rc: "r = (prev, c)" by (cases r)
    have e: "table_entry ns (?l ! k) = Some (entry_of ns (start + k * ?np))"
      using table_entry_eq[OF ns] le[OF k] b nth[OF k] by simp
    have "c + (if is_next_correct (ns_spp ns) prev (entry_of ns (start + k * ?np)) then 0 else 1) = cnt + card (?bad (Suc k))"
    proof (cases k)
      case 0
      have "card (?bad k) = 0" "card (?bad (Suc k)) = 0" unfolding 0 by (simp_all add: card_eq_0_iff)
      moreover have "prev = entry_of ns (start + k * ?np)" "c = cnt + card (?bad k)" using r rc 0 by simp_all
      ultimately show ?thesis by (simp only: next_correct_refl if_True)
    next
      case (Suc m)
      have new: "g = start + k * ?np" if "start + k * ?np \<le> g" "g < start + Suc k * ?np" "(g - start) mod ?np = 0" for g
      proof -
        have "k * ?np \<le> g - start" "g - start < Suc k * ?np" using that(1,2) by linarith+
        then have "(g - start) div ?np = k" by (intro div_nat_eqI) (simp_all add: mult.commute)
        then have "g - start = k * ?np" using that(3) by (metis add.right_neutral div_mult_mod_eq)
        then show ?thesis using that(1) by simp
      qed
      define K K' where K: "K = start + k * ?np" "K' = start + Suc k * ?np"
      have "start + ?np \<le> K" "K < K'" "(K - start) mod ?np = 0" using Suc np by (simp_all add: K)
      moreover have "g < K" if "g \<noteq> K" "g < K'" "?np dvd g - start" for g
        using new[of g] that unfolding K by (simp add: not_less [symmetric]) blast
      ultimately have "{g. out_of_order ns g \<and> start + ?np \<le> g \<and> g < K' \<and> (g - start) mod ?np = 0} =
          (if out_of_order ns K then insert K {g. out_of_order ns g \<and> start + ?np \<le> g \<and> g < K \<and> (g - start) mod ?np = 0}
           else {g. out_of_order ns g \<and> start + ?np \<le> g \<and> g < K \<and> (g - start) mod ?np = 0})"
        by auto metis
      then have "?bad (Suc k) = (if out_of_order ns (start + k * ?np) then insert (start + k * ?np) (?bad k) else ?bad k)"
        unfolding K .
      moreover have "start + k * ?np \<notin> ?bad k" by simp
      moreover have "prev = entry_of ns (start + k * ?np - ?np)" using r rc Suc by simp
      ultimately show ?thesis using r rc fin by (simp add: out_of_order_def)
    qed
    then show "\<exists>r'. (case r of (prev, cnt) \<Rightarrow> do {
         curp \<leftarrow> table_entry ns (?l ! k);
         Some (curp, if is_next_correct (ns_spp ns) prev curp then cnt else cnt + 1) }) = Some r' \<and> ?P (Suc k) r'"
      using e rc by (cases "is_next_correct (ns_spp ns) prev (entry_of ns (start + k * ?np))") simp_all
  qed
  moreover have "?bad (length ?l) = {g. out_of_order ns g \<and> start + ?np \<le> g \<and> g \<le> lst \<and> (g - start) mod ?np = 0}"
  proof -
    have len: "length ?l = Suc ((lst - start) div ?np)" by (simp add: lpns_from_def)
    have lt: "lst < start + length ?l * ?np" using dividend_less_div_times[OF np, of "lst - start"] s by (simp add: len)
    have "g \<le> lst" if "g < start + length ?l * ?np" "(g - start) mod ?np = 0" "start \<le> g" for g
    proof -
      have "g - start < length ?l * ?np" using that(1,3) by linarith
      then have "(g - start) div ?np < length ?l" by (simp add: less_mult_imp_div_less)
      from le[OF this] show ?thesis using that(2,3) by (simp add: minus_mod_eq_div_mult [symmetric])
    qed
    then show ?thesis using lt by (auto dest: order.strict_trans1)
  qed
  moreover have "table_entry ns start = Some (entry_of ns start)" using table_entry_eq[OF ns] s b by simp
  ultimately show ?thesis by (auto simp: check_part_def)
qed

lemma mod_shift: "i < n \<Longrightarrow> x < n \<Longrightarrow> (x + i) mod n = i \<longleftrightarrow> x = (0 :: nat)"
  by (cases "x + i < n") (auto simp: not_less mod_if)

lemma phfrag_check_ok:
  assumes ns: "ns_inv N ns" and n: "0 < lba + n" "lba + n \<le> 2 ^ 64"
  shows "phfrag_check ns lba n = (let a = lba div secs_per_pg (ns_spp ns); b = (lba + n - 1) div secs_per_pg (ns_spp ns) in
    if tt_pgs (ns_spp ns) \<le> b div cn_nr_parts ns then Some (False, 0) else Some (True, breaks ns a b))"
proof -
  let ?np = "cn_nr_parts ns" and ?spp = "ns_spp ns"
  let ?a = "lba div secs_per_pg ?spp" and ?b = "(lba + n - 1) div secs_per_pg ?spp"
  have np: "0 < ?np" "length (cn_ftls ns) = ?np" "secs_per_pg ?spp \<noteq> 0" "conv_inv (cn_ftls ns ! 0)" using ns by (auto simp: ns_inv_def)
  then have "geo_ok ?spp" by (simp add: conv_inv_def core_def ns_spp_def)
  then have one: "pgs_per_oneshotpg ?spp \<noteq> 0" using geo_pages(1) by auto
  have w: "(lba + n + 2 ^ 64 - 1) mod 2 ^ 64 = lba + n - 1"
  proof -
    have "lba + n + 2 ^ 64 - 1 = (lba + n - 1) + 2 ^ 64" using n(1) by simp
    moreover have "lba + n - 1 < 2 ^ 64" using n by linarith
    ultimately show ?thesis by (metis mod_add_self2 mod_less)
  qed
  have run: "phfrag_check ns lba n = (if tt_pgs ?spp \<le> ?b div ?np then Some (False, 0)
      else do { cnt \<leftarrow> foldM (check_part ?spp ns ?b) [?a..<min (?a + ?np) (?b + 1)] 0; Some (True, cnt) })"
    using np one unfolding phfrag_check_def w by (simp add: Let_def ns_spp_def)
  show ?thesis
  proof (cases "tt_pgs ?spp \<le> ?b div ?np")
    case False
    then have b: "?b < tt_pgs ?spp * ?np" using np(1) by (simp only: not_le div_less_iff_less_mult)
    let ?l = "[?a..<min (?a + ?np) (?b + 1)]"
    let ?bad = "\<lambda>i. {g. out_of_order ns g \<and> ?a + ?np \<le> g \<and> g \<le> ?b \<and> (g - ?a) mod ?np < i}"
    have fin: "finite (?bad i)" for i by (rule finite_subset[of _ "{..?b}"]) auto
    have "\<exists>r. foldM (check_part ?spp ns ?b) ?l 0 = Some r \<and> r = card (?bad (length ?l))"
    proof (rule foldM_invariant)
      show "0 = card (?bad 0)" by simp
      fix i r assume i: "i < length ?l" and r: "r = card (?bad i)"
      let ?new = "{g. out_of_order ns g \<and> ?a + i + ?np \<le> g \<and> g \<le> ?b \<and> (g - (?a + i)) mod ?np = 0}"
      have "?a + i < min (?a + ?np) (?b + 1)" using i by (simp only: length_upt less_diff_conv2 add.commute)
      then have inp: "i < ?np" "?l ! i = ?a + i" "?a + i \<le> ?b" by (simp, rule nth_upt, simp_all)
      have same: "(g - (?a + i)) mod ?np = 0 \<longleftrightarrow> (g - ?a) mod ?np = i" if "?a + i \<le> g" for g
      proof -
        have "(g - ?a) mod ?np = (g - (?a + i) + i) mod ?np" using that by simp
        also have "\<dots> = ((g - (?a + i)) mod ?np + i) mod ?np" by (simp add: mod_add_left_eq)
        finally have e: "(g - ?a) mod ?np = ((g - (?a + i)) mod ?np + i) mod ?np" .
        have "((g - (?a + i)) mod ?np + i) mod ?np = i \<longleftrightarrow> (g - (?a + i)) mod ?np = 0"
          by (rule mod_shift[OF inp(1) mod_less_divisor[OF np(1)]])
        then show ?thesis using e by simp
      qed
      have first: "?a + i + ?np \<le> g" if "?a + ?np \<le> g" "(g - ?a) mod ?np = i" for g
      proof -
        have "?np \<le> g - ?a" using that(1) by simp
        then have "1 \<le> (g - ?a) div ?np" using np(1) by (simp add: div_greater_zero_iff Suc_leI)
        then have "?np \<le> (g - ?a) div ?np * ?np" by (metis mult_1 mult_le_mono1)
        then have "?np + i \<le> g - ?a" using that(2) div_mult_mod_eq[of "g - ?a" ?np] by linarith
        then show ?thesis using that(1) by linarith
      qed
      have new: "g \<in> ?new \<longleftrightarrow> out_of_order ns g \<and> ?a + ?np \<le> g \<and> g \<le> ?b \<and> (g - ?a) mod ?np = i" for g
        using same[of g] first[of g] by auto
      have "g \<in> ?bad (Suc i) \<longleftrightarrow> g \<in> ?bad i \<or> g \<in> ?new" for g unfolding new by (simp only: mem_Collect_eq less_Suc_eq) blast
      then have all: "?bad (Suc i) = ?bad i \<union> ?new" by (intro set_eqI) (simp only: Un_iff)
      have "False" if "g \<in> ?bad i" "g \<in> ?new" for g using that unfolding new by simp
      then have dis: "?bad i \<inter> ?new = {}" by (rule Int_emptyI)
      have "finite ?new" by (rule finite_subset[of _ "{..?b}"]) auto
      then have "card (?bad (Suc i)) = card (?bad i) + card ?new" unfolding all by (rule card_Un_disjoint[OF fin[of i] _ dis])
      then show "\<exists>r'. check_part ?spp ns ?b (?l ! i) r = Some r' \<and> r' = card (?bad (Suc i))"
        unfolding inp(2) check_part_ok[OF ns b inp(3), of r] by (simp only: r) blast
    qed
    moreover have "?bad (length ?l) = {g. out_of_order ns g \<and> ?a + ?np \<le> g \<and> g \<le> ?b}"
    proof -
      have "(g - ?a) mod ?np < length ?l" if "?a + ?np \<le> g" "g \<le> ?b" for g
        using that mod_less_divisor[OF np(1), of "g - ?a"] by simp
      then show ?thesis by blast
    qed
    ultimately show ?thesis using run False by (auto simp: Let_def breaks_card)
  qed (simp add: run Let_def)
qed

section \<open>The runs of a drive\<close>

text \<open>Runs in ascending order that do not touch and stay below \<open>g\<close>, with their length as size.\<close>

fun runs_from :: "nat \<Rightarrow> lba_chunk list \<Rightarrow> bool" where
  "runs_from g [] = True"
| "runs_from g (c # cs) \<longleftrightarrow> g \<le> ck_start c \<and> ck_start c \<le> ck_end c \<and> ck_size c = ck_end c - ck_start c + 1 \<and>
     runs_from (ck_end c + 2) cs"

definition run_pages_of :: "lba_chunk list \<Rightarrow> nat set" where
  "run_pages_of cs = (\<Union>c\<in>set cs. {ck_start c..ck_end c})"

lemma runs_from_append:
  "runs_from g (cs @ [c]) \<longleftrightarrow> runs_from g cs \<and> ck_start c \<le> ck_end c \<and> ck_size c = ck_end c - ck_start c + 1 \<and>
     (if cs = [] then g else ck_end (last cs) + 2) \<le> ck_start c"
  by (induction g cs rule: runs_from.induct) auto

text \<open>After the pages below \<open>g\<close>.\<close>

definition runs_ok :: "conv_ns \<Rightarrow> nat \<Rightarrow> lba_chunk list \<times> nat \<times> nat \<Rightarrow> bool" where
  "runs_ok ns g = (\<lambda>(cs, start, cnt). runs_from 0 cs \<and> (cs \<noteq> [] \<longrightarrow> ck_end (last cs) + 2 \<le> (if cnt = 0 then g else start)) \<and>
     {l \<in> ns_mapped ns. l < g} = run_pages_of cs \<union> (if cnt = 0 then {} else {start..<g}) \<and> (cnt \<noteq> 0 \<longrightarrow> start + cnt = g))"

lemma close_run:
  assumes "runs_ok ns g (cs, start, cnt)" "cnt \<noteq> 0"
  shows "runs_from 0 (cs @ [generate_lpn start (g - 1) cnt 0 (-1) (-1)])" "run_pages_of (cs @ [generate_lpn start (g - 1) cnt 0 (-1) (-1)]) = {l \<in> ns_mapped ns. l < g}"
proof -
  have w: "runs_from 0 cs" "cs \<noteq> [] \<longrightarrow> ck_end (last cs) + 2 \<le> start" "start + cnt = g"
    "{l \<in> ns_mapped ns. l < g} = run_pages_of cs \<union> {start..<g}" using assms by (simp_all add: runs_ok_def)
  have "{start..g - 1} = {start..<g}" using w(3) assms(2) by auto
  then show "run_pages_of (cs @ [generate_lpn start (g - 1) cnt 0 (-1) (-1)]) = {l \<in> ns_mapped ns. l < g}"
    unfolding w(4) by (simp add: run_pages_of_def generate_lpn_def Un_commute)
  have "start \<le> g - 1" "cnt = g - 1 - start + 1" using w(3) assms(2) by linarith+
  then show "runs_from 0 (cs @ [generate_lpn start (g - 1) cnt 0 (-1) (-1)])"
    using w(1,2) by (simp add: runs_from_append generate_lpn_def)
qed

lemma create_list_ok:
  assumes ns: "ns_inv N ns"
  shows "\<exists>cs. create_list_from_table (ns_spp ns) ns = Some cs \<and> runs_from 0 cs \<and> run_pages_of cs = ns_mapped ns"
proof -
  let ?total = "tt_pgs (ns_spp ns) * cn_nr_parts ns"
  let ?step = "\<lambda>g (chunks, start, cnt). do {
         a \<leftarrow> table_entry ns g;
         Some (if a \<noteq> UNMAPPED_PPA then (chunks, if cnt = 0 then g else start, cnt + 1)
               else if cnt \<noteq> 0 then (chunks @ [generate_lpn start (g - 1) cnt 0 (-1) (-1)], start, 0)
               else (chunks, start, cnt)) }"
  have "\<exists>s. foldM ?step [0..<?total] ([], 0, 0) = Some s \<and> runs_ok ns (length [0..<?total]) s"
  proof (rule foldM_invariant)
    show "runs_ok ns 0 ([], 0, 0)" by (simp add: runs_ok_def run_pages_of_def)
    fix g s assume g: "g < length [0..<?total]" and w: "runs_ok ns g s"
    obtain cs start cnt where s: "s = (cs, start, cnt)" by (cases s)
    have w': "runs_from 0 cs" "cs \<noteq> [] \<longrightarrow> ck_end (last cs) + 2 \<le> (if cnt = 0 then g else start)" "cnt \<noteq> 0 \<longrightarrow> start + cnt = g"
      "{l \<in> ns_mapped ns. l < g} = run_pages_of cs \<union> (if cnt = 0 then {} else {start..<g})" using w by (simp_all add: runs_ok_def s)
    obtain a where a: "table_entry ns g = Some a" "a \<noteq> UNMAPPED_PPA \<longleftrightarrow> g \<in> ns_mapped ns" using table_entry_ok[OF ns] g by auto
    have "\<exists>s'. ?step g s = Some s' \<and> runs_ok ns (Suc g) s'"
    proof (cases "g \<in> ns_mapped ns")
      case True
      then have "?step g s = Some (cs, if cnt = 0 then g else start, cnt + 1)" using a s by simp
      moreover have "runs_ok ns (Suc g) (cs, if cnt = 0 then g else start, cnt + 1)"
        using w' True by (cases "cnt = 0") (simp_all add: runs_ok_def less_Suc_set atLeastLessThanSuc)
      ultimately show ?thesis by blast
    next
      case out: False
      show ?thesis
      proof (cases "cnt = 0")
        case True
        then have "?step g s = Some (cs, start, cnt)" using a s out by simp
        moreover have "runs_ok ns (Suc g) (cs, start, cnt)"
          using w' True out by (cases "cs = []") (simp_all add: runs_ok_def less_Suc_set)
        ultimately show ?thesis by blast
      next
        case False
        note cl = close_run[OF w[unfolded s] False]
        have "?step g s = Some (cs @ [generate_lpn start (g - 1) cnt 0 (-1) (-1)], start, 0)" using a s out False by simp
        moreover have "Suc (g - 1) = g" using w'(3) False by simp
        ultimately show ?thesis using cl out by (simp add: runs_ok_def less_Suc_set generate_lpn_def)
      qed
    qed
    moreover have "[0..<?total] ! g = g" using g by simp
    ultimately show "\<exists>s'. ?step ([0..<?total] ! g) s = Some s' \<and> runs_ok ns (Suc g) s'" by (simp only:)
  qed
  then obtain cs start cnt where s: "foldM ?step [0..<?total] ([], 0, 0) = Some (cs, start, cnt)" "runs_ok ns ?total (cs, start, cnt)" by auto
  have all: "{l \<in> ns_mapped ns. l < ?total} = ns_mapped ns" using mapped_bound(2)[OF ns] by blast
  show ?thesis
  proof (cases "cnt = 0")
    case True
    then show ?thesis using s all by (simp add: create_list_from_table_def runs_ok_def)
  next
    case False
    then show ?thesis using close_run[OF s(2) False] s(1) all by (simp add: create_list_from_table_def Let_def)
  qed
qed

lemma runs_from_bound: "runs_from g cs \<Longrightarrow> c \<in> set cs \<Longrightarrow> ck_start c \<le> ck_end c \<and> ck_end c \<in> run_pages_of cs"
  by (induction g cs rule: runs_from.induct) (auto simp: run_pages_of_def)

end
