(* ===== verification/Phfrag_Limits.thy ===== *)
theory Phfrag_Limits
  imports Phfrag_Count
begin

text \<open>
  Where the measurement and the rewriting leave the intended path: a whole-drive check reads only the entries of the first
  eighth of the logical pages, and a first run that ends before every partition has a page in it makes a range without end.
\<close>

section \<open>The check of a whole drive\<close>

lemma foldM_cong: "(\<And>x s. x \<in> set xs \<Longrightarrow> f x s = g x s) \<Longrightarrow> foldM f xs s = foldM g xs s"
proof (induction xs arbitrary: s)
  case (Cons x xs)
  then show ?case by (cases "g x s") simp_all
qed simp

text \<open>Two drives of one size with the same mapped pages and the same entries below \<open>K\<close>.\<close>

definition same_entries :: "nat \<Rightarrow> conv_ns \<Rightarrow> conv_ns \<Rightarrow> bool" where
  "same_entries K ns ns' \<longleftrightarrow> cn_nr_parts ns' = cn_nr_parts ns \<and> ns_spp ns' = ns_spp ns \<and> ns_mapped ns' = ns_mapped ns \<and>
     (\<forall>g<K. entry_of ns' g = entry_of ns g)"

definition drive_pages :: "conv_ns \<Rightarrow> nat" where
  "drive_pages ns = tt_pgs (ns_spp ns) * cn_nr_parts ns"

lemma breaks_same:
  assumes "same_entries K ns ns'" "b < K"
  shows "breaks ns' a b = breaks ns a b"
proof -
  have "out_of_order ns' g = out_of_order ns g" if "g < K" for g using assms(1) that by (simp add: out_of_order_def same_entries_def)
  then have "filter (out_of_order ns') [a + cn_nr_parts ns..<b + 1] = filter (out_of_order ns) [a + cn_nr_parts ns..<b + 1]"
    using assms(2) by (intro filter_cong) auto
  then show ?thesis using assms(1) by (simp add: breaks_def same_entries_def del: upt_Suc)
qed

lemma phfrag_check_same:
  assumes ns: "ns_inv N ns" "ns_inv N' ns'" and same: "same_entries K ns ns'" and b: "0 < n" "lba + n \<le> 2 ^ 64"
    and K: "(lba + n - 1) div secs_per_pg (ns_spp ns) < K"
  shows "phfrag_check ns' lba n = phfrag_check ns lba n"
proof -
  have e: "cn_nr_parts ns' = cn_nr_parts ns" "ns_spp ns' = ns_spp ns" using same by (simp_all add: same_entries_def)
  have p: "0 < lba + n" using b(1) by simp
  show ?thesis
    unfolding phfrag_check_ok[OF ns(1) p b(2)] phfrag_check_ok[OF ns(2) p b(2)] e Let_def breaks_same[OF same K] ..
qed

lemma check_chunk_same:
  assumes ns: "ns_inv N ns" "ns_inv N' ns'" and same: "same_entries ((drive_pages ns + 7) div 8) ns ns'" and lim: "drive_pages ns \<le> 2 ^ 64"
    and secs: "secs_per_pg (ns_spp ns) = 8" and lst: "lst < drive_pages ns"
  shows "check_chunk ns' start lst cnt = check_chunk ns start lst cnt"
proof (induction "Suc lst - start" arbitrary: start cnt rule: less_induct)
  case less
  let ?len = "min (lst - start + 1) small_chunk_size"
  show ?case
  proof (cases "start \<le> lst")
    case True
    then have len: "0 < ?len" "start + ?len - 1 \<le> lst" by (auto simp: small_chunk_size_def min_def)
    have "start + ?len \<le> 2 ^ 64" using len lst lim by linarith
    moreover have "(start + ?len - 1) div 8 < (drive_pages ns + 7) div 8" using len(2) lst by linarith
    ultimately have p: "phfrag_check ns' start ?len = phfrag_check ns start ?len"
      using phfrag_check_same[OF ns same len(1)] secs by simp
    have "check_chunk ns' (start + ?len) lst c = check_chunk ns (start + ?len) lst c" for c
      using len(1) True by (intro less) linarith
    then show ?thesis unfolding check_chunk.simps[of ns' start] check_chunk.simps[of ns start] Let_def p by simp
  qed (simp add: check_chunk.simps[of ns' start] check_chunk.simps[of ns start])
qed

lemma create_list_same:
  assumes ns: "ns_inv N ns" "ns_inv N' ns'" and same: "same_entries K ns ns'"
  shows "create_list_from_table (ns_spp ns) ns' = create_list_from_table (ns_spp ns) ns"
proof -
  have e: "cn_nr_parts ns' = cn_nr_parts ns" "ns_spp ns' = ns_spp ns" "ns_mapped ns' = ns_mapped ns" using same by (simp_all add: same_entries_def)
  have t: "\<exists>a a'. table_entry ns g = Some a \<and> table_entry ns' g = Some a' \<and> (a' = UNMAPPED_PPA \<longleftrightarrow> a = UNMAPPED_PPA)"
    if "g \<in> set [0..<tt_pgs (ns_spp ns) * cn_nr_parts ns]" for g
    using table_entry_ok[OF ns(1), of g] table_entry_ok[OF ns(2), of g] that unfolding e by auto
  let ?step = "\<lambda>m g (chunks, start, cnt). do {
         a \<leftarrow> table_entry m g;
         Some (if a \<noteq> UNMAPPED_PPA then (chunks, if cnt = 0 then g else start, cnt + 1)
               else if cnt \<noteq> 0 then (chunks @ [generate_lpn start (g - 1) cnt 0 (-1) (-1)], start, 0)
               else (chunks, start, cnt)) }"
  have "foldM (?step ns') [0..<tt_pgs (ns_spp ns) * cn_nr_parts ns] s = foldM (?step ns) [0..<tt_pgs (ns_spp ns) * cn_nr_parts ns] s" for s
  proof (rule foldM_cong)
    fix g s assume "g \<in> set [0..<tt_pgs (ns_spp ns) * cn_nr_parts ns]"
    from t[OF this] obtain a a' where a: "table_entry ns g = Some a" "table_entry ns' g = Some a'" "a' = UNMAPPED_PPA \<longleftrightarrow> a = UNMAPPED_PPA" by blast
    show "?step ns' g s = ?step ns g s" using a by (cases s) simp
  qed
  then show ?thesis by (simp add: create_list_from_table_def e)
qed

lemma check_fragmentation_same:
  assumes ns: "ns_inv N ns" "ns_inv N' ns'" and same: "same_entries ((drive_pages ns + 7) div 8) ns ns'" and lim: "drive_pages ns \<le> 2 ^ 64"
    and secs: "secs_per_pg (ns_spp ns) = 8"
  shows "check_physical_fragmentation ns' = check_physical_fragmentation ns"
proof -
  obtain cs where cs: "create_list_from_table (ns_spp ns) ns = Some cs" "runs_from 0 cs" "run_pages_of cs = ns_mapped ns"
    using create_list_ok[OF ns(1)] by blast
  note cs' = cs(1)[folded create_list_same[OF ns same]]
  have "ck_end c < drive_pages ns" if "c \<in> set cs" for c
    using runs_from_bound[OF cs(2) that] mapped_bound(2)[OF ns(1)] cs(3) by (simp add: drive_pages_def)
  then have f: "foldM (\<lambda>c. check_chunk ns' (ck_start c) (ck_end c)) cs 0 = foldM (\<lambda>c. check_chunk ns (ck_start c) (ck_end c)) cs 0"
    by (intro foldM_cong check_chunk_same[OF ns same lim secs]) simp
  have p: "0 < length (cn_ftls ns)" "0 < length (cn_ftls ns')" using ns by (simp_all add: ns_inv_def)
  have "cf_sp (cn_ftls ns' ! 0) = ns_spp ns" using same by (simp add: same_entries_def ns_spp_def)
  then show ?thesis using p cs(1) cs' f by (simp add: check_physical_fragmentation_def ns_spp_def)
qed

section \<open>A first run that is too short\<close>

lemma first_page_run:
  "add_run 4 1 0 0 0 1 (replicate 4 []) = Some [[generate_lpn 0 0 1 0 (-1) (-1)], [generate_lpn 1 (2 ^ 64 - 3) 1 1 (-1) (-1)],
     [generate_lpn 2 (2 ^ 64 - 2) 1 2 (-1) (-1)], [generate_lpn 3 (2 ^ 64 - 1) 1 3 (-1) (-1)]]"
proof -
  have u: "[0..<4] = [0, 1, 2, 3 :: nat]" and rep: "replicate 4 [] = [[], [], [], [] :: lba_chunk list]"
    by (simp_all add: upt_rec numeral_eq_Suc)
  have d: "dump_s 4 0 0 = 0" "dump_s 4 1 0 = 1" "dump_s 4 2 0 = 2" "dump_s 4 3 0 = 3"
    "dump_e 4 0 0 = 0" "dump_e 4 1 0 = 2 ^ 64 - 3" "dump_e 4 2 0 = 2 ^ 64 - 2" "dump_e 4 3 0 = 2 ^ 64 - 1"
    by (simp_all add: dump_s_def dump_e_def)
  have i: "(0 :: nat) * 1 + 0 = 0" "(1 :: nat) * 1 + 0 = Suc 0" "(2 :: nat) * 1 + 0 = Suc (Suc 0)" "(3 :: nat) * 1 + 0 = Suc (Suc (Suc 0))" by simp_all
  show ?thesis unfolding add_run_def u rep foldM.simps d i by simp
qed

lemma first_page_only:
  assumes ns: "ns_inv N ns" and np: "cn_nr_parts ns = 4" and m: "ns_mapped ns = {0}"
  shows "create_list_from_table_split (ns_spp ns) ns 1 = Some [[generate_lpn 0 0 1 0 (-1) (-1)], [generate_lpn 1 (2 ^ 64 - 3) 1 1 (-1) (-1)],
     [generate_lpn 2 (2 ^ 64 - 2) 1 2 (-1) (-1)], [generate_lpn 3 (2 ^ 64 - 1) 1 3 (-1) (-1)]]"
proof -
  let ?total = "tt_pgs (ns_spp ns) * 4"
  let ?step = "\<lambda>g (head, start, cnt, pos). do {
         let (seen, cur) = next_list 1 (?total div 1) pos;
         a \<leftarrow> table_entry ns g;
         (if a \<noteq> UNMAPPED_PPA then Some (head, if cnt = 0 then g else start, cnt + 1, seen, cur)
          else if cnt \<noteq> 0 then do { head' \<leftarrow> add_run 4 1 cur start (g - 1) cnt head; Some (head', start, 0, seen, cur) }
          else Some (head, start, cnt, seen, cur)) }"
  have cur: "\<exists>seen'. next_list 1 n (seen, 0) = (seen', 0)" for n seen by (simp add: next_list_def)
  have t: "\<exists>a. table_entry ns g = Some a \<and> (a \<noteq> UNMAPPED_PPA \<longleftrightarrow> g = 0)" if "g < ?total" for g
    using table_entry_ok[OF ns, of g] that np m by auto
  have pos: "0 < tt_pgs (ns_spp ns)" using mapped_bound(2)[OF ns, of 0] m by (cases "tt_pgs (ns_spp ns)") auto
  have rest: "\<exists>seen'. foldM ?step gs (head, start, 0, seen, 0) = Some (head, start, 0, seen', 0)"
    if "\<forall>g\<in>set gs. 0 < g \<and> g < ?total" for gs head start seen
    using that
  proof (induction gs arbitrary: seen)
    case (Cons g gs)
    obtain seen' where s: "next_list 1 (?total div 1) (seen, 0) = (seen', 0)" using cur by blast
    obtain a where a: "table_entry ns g = Some a" "a = UNMAPPED_PPA" using t[of g] Cons.prems by auto
    then have "?step g (head, start, 0, seen, 0) = Some (head, start, 0, seen', 0)" using s by simp
    then show ?case using Cons.IH[of seen'] Cons.prems by simp
  qed simp
  let ?h = "[[generate_lpn 0 0 1 0 (-1) (-1)], [generate_lpn 1 (2 ^ 64 - 3) 1 1 (-1) (-1)],
     [generate_lpn 2 (2 ^ 64 - 2) 1 2 (-1) (-1)], [generate_lpn 3 (2 ^ 64 - 1) 1 3 (-1) (-1)]]"
  obtain s1 where s1: "next_list 1 (?total div 1) (0, 0) = (s1, 0)" using cur by blast
  obtain s2 where s2: "next_list 1 (?total div 1) (s1, 0) = (s2, 0)" using cur by blast
  obtain a0 where a0: "table_entry ns 0 = Some a0" "a0 \<noteq> UNMAPPED_PPA" using t[of 0] pos by auto
  obtain a1 where a1: "table_entry ns 1 = Some a1" "a1 = UNMAPPED_PPA" using t[of 1] pos by auto
  have "?step 0 (replicate 4 [], 0, 0, 0, 0) = Some (replicate 4 [], 0, 1, s1, 0)" using s1 a0 by simp
  moreover have "?step 1 (replicate 4 [], 0, 1, s1, 0) = Some (?h, 0, 0, s2, 0)" using s2 a1 first_page_run by simp
  moreover have "[0..<?total] = 0 # 1 # [2..<?total]" using pos by (simp add: upt_conv_Cons numeral_2_eq_2)
  moreover obtain s3 where "foldM ?step [2..<?total] (?h, 0, 0, s2, 0) = Some (?h, 0, 0, s3, 0)" using rest[of "[2..<?total]" ?h 0 s2] by auto
  ultimately have "foldM ?step [0..<?total] (replicate 4 [], 0, 0, 0, 0) = Some (?h, 0, 0, s3, 0)" by (simp only: foldM.simps bind.bind_lunit)
  then show ?thesis by (simp add: create_list_from_table_split_def Let_def np del: One_nat_def)
qed

end
