(* ===== verification/Phfrag_Props.thy ===== *)
theory Phfrag_Props
  imports Phfrag_Limits Save_Load_Props
begin

text \<open>
  The properties of rewriting a drive with a chosen fragmentation and of measuring fragmentation.
\<close>

section \<open>A written sample drive\<close>

lemma gib_buffer: "buf_remaining (ns_wbuf gib_ns) = 1048576"
proof -
  have b: "32 \<le> pgs_per_line gib_spp" "1000 + 4 * pgs_per_line gib_spp < tt_pgs gib_spp" "2 \<le> tt_lines gib_spp" using gib_spp_ok(6-8) by simp_all
  have "\<exists>f'. conv_new_part gib_spp 0 (\<lambda>n. of_nat n * 1000) (Some (replicate 8193 0), blank_ftl) = Some f' \<and>
      conv_inv f' \<and> flow_ok 1000 f' \<and> cf_sp f' = gib_spp \<and> mapped f' = {} \<and>
      ssd_write_buffer (cf_ssd f') = buffer_init (write_buffer_size gib_spp)"
    by (rule conv_new_part_ok[OF gib_spp_ok(2-5) b(3) _ b(2)]) (simp add: gib_spp_ok(6))
  then have "ssd_write_buffer (cf_ssd gib_ftl) = buffer_init (write_buffer_size gib_spp)" using gib_parts(3) by auto
  moreover have "write_buffer_size gib_spp = 1048576"
    unfolding gib_spp_def by (simp add: ssd_init_params_def Let_def conv_cfg_def load_conv_configs_def blank_cfg_def DIV_ROUND_UP_def)
  ultimately show ?thesis by (simp add: ns_wbuf_def gib_parts(1) buffer_init_def)
qed

lemma gib_spp_of: "ns_spp gib_ns = gib_spp"
  using gib_ftl_ok(4) by (simp add: ns_spp_def gib_parts(1))

text \<open>A drive of the size of the sample drive, and what writing the \<open>n + 1\<close> pages from \<open>a\<close> on does to it.\<close>

definition like_gib :: "conv_ns \<Rightarrow> bool" where
  "like_gib ns \<longleftrightarrow> ns_inv (host_pages gib_ns) ns \<and> cn_nr_parts ns = 4 \<and> cn_size ns = cn_size gib_ns \<and> ns_spp ns = gib_spp"

lemma like_gib_ok: "like_gib gib_ns" "like_gib ns \<Longrightarrow> drive_ok ns"
  using gib_ns_ok(2) gib_spp_of by (auto simp: like_gib_def drive_ok_def host_pages_def)

lemma write_like_gib:
  assumes ns: "like_gib ns" and n: "n < 200" "a + n < 240000"
  shows "\<exists>ns' r ops. conv_write ns (rw_request nvme_cmd_write (word_of_nat (8 * a)) (8 * n + 7)) = Some (ns', r, ops) \<and> like_gib ns' \<and>
    (if buf_remaining (ns_wbuf ns) < 4096 * (n + 1) then ns_mapped ns' = ns_mapped ns else ns_mapped ns' = {a..a + n} \<union> ns_mapped ns)"
proof -
  let ?rq = "rw_request nvme_cmd_write (word_of_nat (8 * a)) (8 * n + 7)"
  have d: "ns_inv (host_pages gib_ns) ns" "cn_nr_parts ns = 4" "cn_size ns < 2 ^ 64" "secs_per_pg (ns_spp ns) = 8"
    "host_pages gib_ns \<le> tt_pgs (ns_spp ns)" "host_pages ns = host_pages gib_ns" "cn_size ns = cn_size gib_ns"
    using ns like_gib_ok(1) like_gib_ok(2)[OF ns] by (auto simp: like_gib_def drive_ok_def host_pages_def)
  have len: "c_length (rq_cmd ?rq) = 8 * n + 7" "c_slba (rq_cmd ?rq) = word_of_nat (8 * a)" by (simp_all add: rw_request_def)
  have u: "unat (word_of_nat m :: u64) = m" if "m < 2000000" for m using that by (simp add: unat_of_nat)
  have l: "legal ns (rq_cmd ?rq)" using len n u[of "8 * a"] by (simp add: legal_def nr_lba_def d(7) gib_ns_ok(4))
  note r = legal_range[OF l d(3,4,2)]
  have "end_lpn 8 (rq_cmd ?rq) = a + n"
  proof -
    have "c_slba (rq_cmd ?rq) + word_of_nat (nr_lba (rq_cmd ?rq)) - 1 = (word_of_nat (8 * a + (8 * n + 7)) :: u64)"
      using len by (simp add: nr_lba_def)
    then have "end_lpn 8 (rq_cmd ?rq) = (8 * a + (8 * n + 7)) div 8"
      using u[of "8 * a + (8 * n + 7)"] n by (simp only: end_lpn_def)
    then show ?thesis by simp
  qed
  then have m: "cmd_lpns ns (rq_cmd ?rq) = {a..a + n}" "cmd_bytes (rq_cmd ?rq) = 4096 * (n + 1)"
    using len d(4) u[of "8 * a"] n by (simp_all add: start_lpn_def nr_lba_def LBA_TO_BYTE_def)
  show ?thesis
    using conv_write_ok[OF d(1) r(1)[unfolded d(6)] d(5) _ r(3)] r(2) d(2,4) ns unfolding m by (fastforce simp: like_gib_def)
qed

lemma gib_written:
  assumes "n < 200" "a + n < 240000"
  shows "\<exists>ns. like_gib ns \<and> ns_mapped ns = {a..a + n}"
proof -
  have "\<not> buf_remaining (ns_wbuf gib_ns) < 4096 * (n + 1)" using assms gib_buffer by simp
  then show ?thesis using write_like_gib[OF like_gib_ok(1) assms] gib_ns_ok(3) by auto
qed

section \<open>Rewriting a drive\<close>



text \<open>With degree 0 the write pointer of the cleaner is the one of host writes: after every page it moves, or fails, as
  \<^verbatim>\<open>advance\_write\_pointer\<close> does, and it never reports a die on which the range stays.\<close>

theorem cleaner_degree_zero:
  assumes "cl_conti s < 0"
  shows "map_option (\<lambda>(s', r). (cl_ftl s', cl_conti s', r)) (advance_write_pointer_cleanver 0 rnd final s) =
    map_option (\<lambda>f. (f, cl_conti s, None)) (advance_write_pointer (cl_ftl s) USER_IO)"
proof -
  let ?f = "cl_ftl s"
  let ?i = "wp_ch (cf_wp ?f) * luns_per_ch (cf_sp ?f) + wp_lun (cf_wp ?f)"
  have w: "\<exists>tick. wordline_end (cf_sp ?f) 0 rnd final c (s\<lparr>cl_count := n\<rparr>) = (False, False, cl_conti s, tick)" for c n
    using assms by (cases final) (simp_all add: wordline_end_def)
  show ?thesis
  proof (cases "?i < length (cf_page_counter ?f) \<and> cf_page_counter ?f ! ?i < pgs_per_blk (cf_sp ?f) \<and> pgs_per_oneshotpg (cf_sp ?f) \<noteq> 0")
    case True
    let ?f1 = "?f\<lparr>cf_page_counter := (cf_page_counter ?f)[?i := cf_page_counter ?f ! ?i + 1]\<rparr>"
    obtain tick where t: "wordline_end (cf_sp ?f) 0 rnd final (cf_page_counter ?f ! ?i + 1) (s\<lparr>cl_count := cl_count s + 1\<rparr>) = (False, False, cl_conti s, tick)"
      using w by blast
    show ?thesis using True t
      by (cases "user_out ?f1 (cf_wp ?f)"; cases "user_next_die ?f1 (cf_wp ?f)")
        (auto simp: advance_write_pointer_cleanver_def advance_write_pointer_def advance_user_pointer_def check_addr_def Let_def)
  next
    case False
    then show ?thesis
      by (auto simp: advance_write_pointer_cleanver_def advance_write_pointer_def advance_user_pointer_def check_addr_def array_read_def Let_def)
  qed
qed

theorem cleaner_degree_zero_witness:
  "map_option (\<lambda>(s', r). (cl_ftl s', cl_conti s', r)) (advance_write_pointer_cleanver 0 (\<lambda>k. k) False \<lparr>cl_ftl = gib_ftl, cl_count = 3, cl_conti = -1, cl_tick = 0\<rparr>) =
    map_option (\<lambda>f. (f, -1, None)) (advance_write_pointer gib_ftl USER_IO)"
  using cleaner_degree_zero[of "\<lparr>cl_ftl = gib_ftl, cl_count = 3, cl_conti = -1, cl_tick = 0\<rparr>" "\<lambda>k. k" False] by simp

section \<open>Measuring fragmentation\<close>

text \<open>C31: The ranges that \<^verbatim>\<open>create\_list\_from\_table\<close> finds are the maximal runs of mapped logical pages: they are in
  ascending order, there is an unmapped page between any two of them, each has the length it states, and together they are
  exactly the mapped pages.\<close>

theorem runs_are_maximal:
  assumes "ns_inv N ns"
  shows "\<exists>cs. create_list_from_table (ns_spp ns) ns = Some cs \<and> runs_from 0 cs \<and> run_pages_of cs = ns_mapped ns"
  using create_list_ok[OF assms] .

theorem runs_are_maximal_witness:
  "\<exists>ns cs. create_list_from_table gib_spp ns = Some cs \<and> runs_from 0 cs \<and> run_pages_of cs = {0..7}"
proof -
  obtain ns where ns: "ns_inv (host_pages gib_ns) ns" "ns_spp ns = gib_spp" "ns_mapped ns = {0..7}"
    using gib_written[of 7 0] by (auto simp: like_gib_def)
  then show ?thesis using runs_are_maximal[OF ns(1)] by auto
qed

text \<open>C32: \<^verbatim>\<open>phfrag\_check\<close>, which walks the partitions one after the other and carries the page before along, adds the number
  of pages of the range that are neither in the one-shot page of the page before them in their partition nor on the die that
  follows it; a range beyond the table adds nothing.\<close>

theorem phfrag_check_counts:
  assumes "ns_inv N ns" "0 < lba + n" "lba + n \<le> 2 ^ 64"
  shows "phfrag_check ns lba n = (let a = lba div secs_per_pg (ns_spp ns); b = (lba + n - 1) div secs_per_pg (ns_spp ns) in
    if tt_pgs (ns_spp ns) \<le> b div cn_nr_parts ns then Some (False, 0) else Some (True, breaks ns a b))"
  by (rule phfrag_check_ok[OF assms])

theorem phfrag_check_counts_witness:
  "\<exists>ns. ns_mapped ns = {0..7} \<and> phfrag_check ns 0 64 = Some (True, breaks ns 0 7)"
proof -
  obtain ns where "like_gib ns" and m: "ns_mapped ns = {0..7}" using gib_written[of 7 0] by auto
  then have ns: "ns_inv (host_pages gib_ns) ns" "drive_ok ns" "ns_spp ns = gib_spp" "ns_mapped ns = {0..7}"
    using like_gib_ok(2) by (simp_all add: like_gib_def)
  have "cn_nr_parts ns = 4" "secs_per_pg (ns_spp ns) = 8" using ns(2) by (simp_all add: drive_ok_def)
  then have "phfrag_check ns 0 64 = Some (True, breaks ns 0 7)"
    using phfrag_check_counts[OF ns(1), of 0 64] ns(3) by (simp add: gib_tt_pgs)
  then show ?thesis using ns(4) by blast
qed

text \<open>The check of a whole drive hands logical pages to a function that expects sectors, so that of a drive with eight
  sectors to a page it reads the entries of the first eighth of the logical pages only: two drives that agree there and have
  the same mapped pages get the same count, wherever their other pages are.\<close>

theorem whole_check_reads_an_eighth:
  assumes "ns_inv N ns" "ns_inv N' ns'" "drive_pages ns \<le> 2 ^ 64" "secs_per_pg (ns_spp ns) = 8"
    and "cn_nr_parts ns' = cn_nr_parts ns" "ns_spp ns' = ns_spp ns" "ns_mapped ns' = ns_mapped ns"
    and "\<forall>g. g < (drive_pages ns + 7) div 8 \<longrightarrow> entry_of ns' g = entry_of ns g"
  shows "check_physical_fragmentation ns' = check_physical_fragmentation ns"
  using check_fragmentation_same[OF assms(1,2) _ assms(3,4)] assms(5-8) by (simp add: same_entries_def)

theorem whole_check_reads_an_eighth_witness:
  "\<exists>ns ns' r ops. conv_write ns (rw_request nvme_cmd_write (word_of_nat 1600000) 7) = Some (ns', r, ops) \<and> ns_mapped ns = {200000} \<and>
    check_physical_fragmentation ns' = check_physical_fragmentation ns"
proof -
  obtain ns where ns: "like_gib ns" "ns_mapped ns = {200000}" using gib_written[of 0 200000] by auto
  obtain ns' r ops where w: "conv_write ns (rw_request nvme_cmd_write (word_of_nat 1600000) 7) = Some (ns', r, ops)" "like_gib ns'" "ns_mapped ns' = {200000}"
    using write_like_gib[OF ns(1), of 0 200000] ns(2) by (auto split: if_splits)
  have g: "ns_inv (host_pages gib_ns) ns" "ns_inv (host_pages gib_ns) ns'" "cn_nr_parts ns = 4" "cn_nr_parts ns' = 4" "ns_spp ns = gib_spp" "ns_spp ns' = gib_spp"
    using ns(1) w(2) by (simp_all add: like_gib_def)
  have e: "entry_of m x = UNMAPPED_PPA" if "ns_inv (host_pages gib_ns) m" "cn_nr_parts m = 4" "ns_spp m = gib_spp" "ns_mapped m = {200000}" "x < 200000" for m x
    using table_entry_ok[OF that(1), of x] table_entry_eq[OF that(1), of x] that(2-5) by (simp add: gib_tt_pgs)
  have "check_physical_fragmentation ns' = check_physical_fragmentation ns"
  proof (rule whole_check_reads_an_eighth[OF g(1,2)])
    show "\<forall>x. x < (drive_pages ns + 7) div 8 \<longrightarrow> entry_of ns' x = entry_of ns x"
      using e[OF g(1,3,5) ns(2)] e[OF g(2,4,6) w(3)] g(3,5) by (simp add: drive_pages_def gib_tt_pgs)
  qed (use g ns(2) w(3) in \<open>simp_all add: drive_pages_def gib_tt_pgs gib_secs\<close>)
  then show ?thesis using w(1) ns(2) by blast
qed

text \<open>When only the first logical page is mapped, the ranges of the three partitions that have no page in the run end near
  2 to the power of 64: the subtraction of the offset goes below 0.\<close>

theorem first_run_underflows:
  assumes "ns_inv N ns" "cn_nr_parts ns = 4" "ns_mapped ns = {0}"
  shows "map_option (map (map (\<lambda>c. (ck_start c, ck_end c)))) (create_list_from_table_split (ns_spp ns) ns 1) =
    Some [[(0, 0)], [(1, 2 ^ 64 - 3)], [(2, 2 ^ 64 - 2)], [(3, 2 ^ 64 - 1)]]"
  unfolding first_page_only[OF assms] by (simp add: generate_lpn_def)

theorem first_run_underflows_witness:
  "\<exists>ns. ns_mapped ns = {0} \<and> map_option (map (map (\<lambda>c. (ck_start c, ck_end c)))) (create_list_from_table_split gib_spp ns 1) =
    Some [[(0, 0)], [(1, 2 ^ 64 - 3)], [(2, 2 ^ 64 - 2)], [(3, 2 ^ 64 - 1)]]"
proof -
  obtain ns where ns: "ns_inv (host_pages gib_ns) ns" "cn_nr_parts ns = 4" "ns_spp ns = gib_spp" "ns_mapped ns = {0}"
    using gib_written[of 0 0] by (auto simp: like_gib_def)
  then show ?thesis using first_run_underflows[OF ns(1,2,4)] by auto
qed

end
