(* ===== verification/Zns_Dump.thy ===== *)
theory Zns_Dump
  imports Save_Load Zns_Inv
begin

text \<open>
  Saving a drive with zones to a file and loading it again (src/zns\_save\_load.c): a header, the zone descriptors, the
  resource counts, what is left of the write buffers, and the bytes of every zone up to its write pointer.

  The bits of a descriptor that the program never sets are zero.  The cache of the report, which a load fills and nothing
  reads, is left out.
\<close>

section \<open>Descriptors and counts as bytes\<close>

definition code_zone_state :: "nat \<Rightarrow> zone_state" where
  "code_zone_state n = (if n = 1 then ZONE_STATE_EMPTY else if n = 2 then ZONE_STATE_OPENED_IMPL
     else if n = 3 then ZONE_STATE_OPENED_EXPL else if n = 4 then ZONE_STATE_CLOSED else if n = 13 then ZONE_STATE_READ_ONLY
     else if n = 14 then ZONE_STATE_FULL else ZONE_STATE_OFFLINE)"

definition bytes_zd :: "bytes \<Rightarrow> zone_descriptor" where
  "bytes_zd bs = \<lparr>zd_state = code_zone_state (unat (bs ! 1) div 16), zd_type = unat (bs ! 0) mod 16,
     zd_zrwav = odd (unat (bs ! 2) div 8), zd_capacity = le_number (take 8 (drop 8 bs)),
     zd_zslba = le_number (take 8 (drop 16 bs)), zd_wp = le_number (take 8 (drop 24 bs))\<rparr>"

definition zd_fits :: "zone_descriptor \<Rightarrow> bool" where
  "zd_fits d \<longleftrightarrow> zd_type d < 16 \<and> zd_capacity d < 2 ^ 64 \<and> zd_zslba d < 2 ^ 64 \<and> zd_wp d < 2 ^ 64"

text \<open>A state that is none of the constants stays out of the model.\<close>

definition known_state :: "bytes \<Rightarrow> bool" where
  "known_state bs \<longleftrightarrow> unat (bs ! 1) div 16 \<in> {1, 2, 3, 4, 13, 14, 15}"

definition res_bytes :: "zone_resource_info \<Rightarrow> bytes" where
  "res_bytes r = le_bytes 4 (acquired_cnt r) @ le_bytes 4 (total_cnt r)"

definition bytes_res :: "bytes \<Rightarrow> zone_resource_info" where
  "bytes_res bs = \<lparr>acquired_cnt = le_number (take 4 bs), total_cnt = le_number (drop 4 bs)\<rparr>"

definition res_fits :: "zone_resource_info \<Rightarrow> bool" where
  "res_fits r \<longleftrightarrow> acquired_cnt r < 2 ^ 32 \<and> total_cnt r < 2 ^ 32"

section \<open>Saving\<close>

definition ZNS_DUMP_MAGIC :: nat where "ZNS_DUMP_MAGIC = 0x5A4E5346"
definition ZNS_ZONE_SENTINEL :: nat where "ZNS_ZONE_SENTINEL = 0xFFFFFFFF"

definition zns_header :: "zns_ftl \<Rightarrow> bytes" where
  "zns_header zf = kernel_write (le_bytes 4 ZNS_DUMP_MAGIC @ le_bytes 4 (zp_nr_zones (zf_zp zf)) @ le_bytes 4 (zp_zone_size (zf_zp zf)) @
     le_bytes 4 (nchs (zf_sp zf)) @ le_bytes 4 (luns_per_ch (zf_sp zf)) @
     [if zp_zrwa_buffer_size (zf_zp zf) > 0 then 1 else 0, if zp_zone_wb_size (zf_zp zf) > 0 then 1 else 0, 0, 0])"

definition save_remaining :: "buffer list \<Rightarrow> nat \<Rightarrow> bytes option" where
  "save_remaining bufs n = write_all (\<lambda>i. do { b \<leftarrow> array_read bufs i; Some (write_nat 8 (buf_remaining b)) }) [0..<n]"

text \<open>A number of 64 bits as a signed one of 32 bits: the loops over the bytes of a zone compare with it.  A zone has fewer
  than \<open>2 ^ 32\<close> bytes, so that the position does not overflow.\<close>

definition as_int :: "nat \<Rightarrow> int" where
  "as_int n = (let r = n mod 2 ^ 32 in if r < 2 ^ 31 then int r else int r - 2 ^ 32)"

lemma as_int_le: "as_int n \<le> int n"
proof -
  have "n mod 2 ^ 32 \<le> n" by simp
  then show ?thesis unfolding as_int_def Let_def by (auto simp: of_nat_le_iff intro: order_trans[of _ "int (n mod 2 ^ 32)"])
qed

function save_zone_data :: "memory \<Rightarrow> nat \<Rightarrow> nat \<Rightarrow> nat \<Rightarrow> bytes" where
  "save_zone_data m a len cur =
    (if int cur < as_int len
     then let bs = kernel_write (read_bytes m (a + cur) (len - cur)) in bs @ save_zone_data m a len (cur + length bs)
     else [])"
  by pat_completeness auto
termination
proof (relation "measure (\<lambda>(m, a, len, cur). len - cur)", simp)
  fix m a len cur bs assume "int cur < as_int len" and bs: "bs = kernel_write (read_bytes m (a + cur) (len - cur))"
  then have "cur < len" using as_int_le[of len] by linarith
  then have "0 < length bs" unfolding bs by (simp add: kernel_write_def read_bytes_def MAX_RW_COUNT_def)
  then show "((m, a, len, cur + length bs), (m, a, len, cur)) \<in> measure (\<lambda>(m, a, len, cur). len - cur)" using \<open>cur < len\<close> by (cases bs) simp_all
qed

declare save_zone_data.simps [simp del]

definition written_bytes :: "zns_ftl \<Rightarrow> zone_descriptor \<Rightarrow> nat" where
  "written_bytes zf d = ((zd_wp d + (2 ^ 64 - zd_zslba d)) mod 2 ^ 64) * secsz (zf_sp zf) mod 2 ^ 64"

definition save_zone :: "zns_ftl \<Rightarrow> nat \<Rightarrow> bytes option" where
  "save_zone zf i = do {
     d \<leftarrow> array_read (zf_descs zf) i;
     let len = written_bytes zf d;
     Some (if zd_state d = ZONE_STATE_EMPTY \<or> zd_state d = ZONE_STATE_OFFLINE \<or> len = 0 then []
           else write_nat 4 i @ write_nat 8 len @ save_zone_data (zf_storage zf) (i * zp_zone_size (zf_zp zf)) len 0)
   }"

definition save_zns_device :: "zns_ftl \<Rightarrow> bytes option" where
  "save_zns_device zf = do {
     let n = zp_nr_zones (zf_zp zf);
     nvmev_assert (n \<le> length (zf_descs zf));
     zrwa \<leftarrow> (if zp_zrwa_buffer_size (zf_zp zf) > 0 then save_remaining (zf_zwra_bufs zf) n else Some []);
     wb \<leftarrow> (if zp_zone_wb_size (zf_zp zf) > 0 then save_remaining (zf_wbufs zf) n else Some []);
     zones \<leftarrow> write_all (save_zone zf) [0..<n];
     Some (zns_header zf @ write_array zd_bytes (take n (zf_descs zf)) @
       write_array res_bytes (map (zf_res zf) [ACTIVE_ZONE, OPEN_ZONE, ZRWA_ZONE]) @ zrwa @ wb @ zones @ write_nat 4 ZNS_ZONE_SENTINEL)
   }"

section \<open>Loading\<close>

definition load_remaining :: "nat \<Rightarrow> buffer list \<Rightarrow> bytes \<Rightarrow> (buffer list \<times> bytes) option" where
  "load_remaining n bufs file = foldM (\<lambda>i (bufs, file). do {
       (v, file) \<leftarrow> read_nat 8 file;
       b \<leftarrow> array_read bufs i;
       Some (bufs[i := b\<lparr>buf_remaining := v\<rparr>], file)
     }) [0..<n] (bufs, file)"

text \<open>At the end of the file a read delivers nothing and the loop goes on for ever.\<close>

partial_function (option) load_zone_data :: "nat \<Rightarrow> nat \<Rightarrow> nat \<Rightarrow> memory \<times> bytes \<Rightarrow> (memory \<times> bytes) option" where
  "load_zone_data a len cur mf =
    (if int cur < as_int len
     then (let (bs, rest) = kernel_read (len - cur) (snd mf)
           in load_zone_data a len (cur + length bs) (write_bytes (fst mf) (a + cur) bs, rest))
     else Some mf)"

text \<open>The zone number and the length are set to 0 before they are read, so that a read at the end of the file sets their
  lower bytes.  The result is the drive and the value returned.\<close>

partial_function (option) load_zones :: "zns_ftl \<Rightarrow> bytes \<Rightarrow> (zns_ftl \<times> int) option" where
  "load_zones zf file =
    (let (zb, file1) = kernel_read 4 file; zid = le_number zb
     in if zb = [] \<or> zid = ZNS_ZONE_SENTINEL then Some (zf, 0)
        else if zid \<ge> zp_nr_zones (zf_zp zf) then Some (zf, -22)
        else let (lb, file2) = kernel_read 8 file1
             in do {
               (m, file3) \<leftarrow> load_zone_data (zid * zp_zone_size (zf_zp zf)) (le_number lb) 0 (zf_storage zf, file2);
               load_zones (zf\<lparr>zf_storage := m\<rparr>) file3
             })"

definition set_res :: "zone_resource_info list \<Rightarrow> zone_resource_type \<Rightarrow> zone_resource_info" where
  "set_res rs t = (case t of ACTIVE_ZONE \<Rightarrow> rs ! 0 | OPEN_ZONE \<Rightarrow> rs ! 1 | ZRWA_ZONE \<Rightarrow> rs ! 2)"

definition load_zns_device :: "nat \<Rightarrow> bytes \<Rightarrow> zns_ftl \<Rightarrow> (zns_ftl \<times> int) option" where
  "load_zns_device storage_size file zf = do {
     let zp = zf_zp zf;
     let n = zp_nr_zones zp;
     (hdr, file) \<leftarrow> read_full 24 file;
     let field = (\<lambda>k. le_number (take 4 (drop k hdr)));
     (if field 0 \<noteq> ZNS_DUMP_MAGIC then Some (zf, -22)
      else if field 4 \<noteq> n \<or> field 8 \<noteq> zp_zone_size zp then Some (zf, -22)
      else do {
        nvmev_assert (\<forall>i\<in>set [0..<n]. known_state (take 64 (drop (64 * i) file)));
        (descs, file) \<leftarrow> read_array 64 bytes_zd n file;
        (res, file) \<leftarrow> read_array 8 bytes_res 3 file;
        (zrwa, file) \<leftarrow> (if hdr ! 20 \<noteq> 0 then load_remaining n (zf_zwra_bufs zf) file else Some (zf_zwra_bufs zf, file));
        (wb, file) \<leftarrow> (if hdr ! 21 \<noteq> 0 then load_remaining n (zf_wbufs zf) file else Some (zf_wbufs zf, file));
        load_zones (zf\<lparr>zf_storage := zero_range (zf_storage zf) 0 storage_size, zf_descs := descs @ drop n (zf_descs zf),
          zf_res := set_res res, zf_zwra_bufs := zrwa, zf_wbufs := wb\<rparr>) file
      })
   }"

end
