(* ===== verification/Zns_Dump_Proof.thy ===== *)
theory Zns_Dump_Proof
  imports Zns_Dump Save_Load_Proof
begin

text \<open>
  What is loaded from the file of a saved drive with zones: descriptors, counts and buffers as they were, and in the storage
  the bytes of every zone up to its write pointer and zeros.
\<close>

section \<open>Descriptors and counts\<close>

lemma state_code [simp]: "code_zone_state (zone_state_code s) = s" "zone_state_code s < 16" "zone_state_code s \<in> {1, 2, 3, 4, 13, 14, 15}"
  by (cases s; simp add: code_zone_state_def)+

lemma length_zd_bytes [simp]: "length (zd_bytes d) = 64"
  by (simp add: zd_bytes_def)

lemma zd_byte_1: "unat (zd_bytes d ! 1) div 16 = zone_state_code (zd_state d)"
proof -
  have "unat (word_of_nat (16 * zone_state_code (zd_state d)) :: 8 word) = 16 * zone_state_code (zd_state d)"
    using state_code(2)[of "zd_state d"] unfolding unat_of_nat by simp
  then show ?thesis by (simp add: zd_bytes_def)
qed

lemma bytes_zd_bytes:
  assumes "zd_fits d"
  shows "bytes_zd (zd_bytes d) = d"
proof -
  have t: "unat (word_of_nat (zd_type d) :: 8 word) mod 16 = zd_type d" using assms unfolding unat_of_nat by (simp add: zd_fits_def)
  have n: "le_number (le_bytes 8 v) = v" if "v < 2 ^ 64" for v using that by (simp add: le_number_le_bytes)
  have f: "zd_capacity d < 2 ^ 64" "zd_zslba d < 2 ^ 64" "zd_wp d < 2 ^ 64" using assms by (simp_all add: zd_fits_def)
  have "code_zone_state (unat (zd_bytes d ! 1) div 16) = zd_state d" unfolding zd_byte_1 by simp
  moreover have "unat (zd_bytes d ! 0) mod 16 = zd_type d" using t by (simp add: zd_bytes_def)
  moreover have "odd (unat (zd_bytes d ! 2) div 8) = zd_zrwav d" by (cases "zd_zrwav d") (simp_all add: zd_bytes_def)
  moreover have "take 8 (drop 8 (zd_bytes d)) = le_bytes 8 (zd_capacity d)" "take 8 (drop 16 (zd_bytes d)) = le_bytes 8 (zd_zslba d)"
    "take 8 (drop 24 (zd_bytes d)) = le_bytes 8 (zd_wp d)" by (simp_all add: zd_bytes_def)
  ultimately show ?thesis using n[OF f(1)] n[OF f(2)] n[OF f(3)] by (simp add: bytes_zd_def)
qed

interpretation zd_codec: fixed_codec zd_bytes bytes_zd 64 zd_fits
  by unfold_locales (simp_all add: bytes_zd_bytes MAX_RW_COUNT_def)

interpretation res_codec: fixed_codec res_bytes bytes_res 8 res_fits
  by unfold_locales (simp_all add: res_bytes_def bytes_res_def res_fits_def le_number_le_bytes MAX_RW_COUNT_def)

lemma set_res_map [simp]: "set_res (map r [ACTIVE_ZONE, OPEN_ZONE, ZRWA_ZONE]) = r"
  by (rule ext) (simp add: set_res_def split: zone_resource_type.split)

section \<open>Buffers\<close>

definition remaining_enc :: "buffer list \<Rightarrow> bytes" where
  "remaining_enc bufs = concat (map (\<lambda>b. write_nat 8 (buf_remaining b)) bufs)"

definition with_remaining :: "buffer list \<Rightarrow> buffer list \<Rightarrow> buffer list" where
  "with_remaining old new = map (\<lambda>(o', n). o'\<lparr>buf_remaining := buf_remaining n\<rparr>) (zip old new)"

lemma save_remaining_enc:
  assumes "length bufs = n"
  shows "save_remaining bufs n = Some (remaining_enc bufs)"
proof -
  have "save_remaining bufs n = Some (concat (map (\<lambda>i. write_nat 8 (buf_remaining (bufs ! i))) [0..<n]))"
    unfolding save_remaining_def using assms by (intro write_all_Some) simp
  also have "map (\<lambda>i. write_nat 8 (buf_remaining (bufs ! i))) [0..<n] = map (\<lambda>b. write_nat 8 (buf_remaining b)) bufs"
    using assms by (intro nth_equalityI) simp_all
  finally show ?thesis by (simp add: remaining_enc_def)
qed

lemma load_remaining_enc:
  assumes "length old = length new" "\<forall>b\<in>set new. buf_remaining b < 2 ^ 64"
  shows "load_remaining (length new) old (remaining_enc new @ rest) = Some (with_remaining old new, rest)"
proof -
  let ?step = "\<lambda>i (bufs, fl). do { (v, fl) \<leftarrow> read_nat 8 fl; b \<leftarrow> array_read bufs i; Some (bufs[i := b\<lparr>buf_remaining := v\<rparr>], fl) }"
  let ?P = "\<lambda>i (bufs, fl). bufs = with_remaining (take i old) (take i new) @ drop i old \<and> fl = remaining_enc (drop i new) @ rest"
  have "\<exists>s. foldM ?step [0..<length new] (old, remaining_enc new @ rest) = Some s \<and> ?P (length [0..<length new]) s"
  proof (rule foldM_invariant)
    show "?P 0 (old, remaining_enc new @ rest)" by (simp add: with_remaining_def)
    fix i s assume i: "i < length [0..<length new]" and s: "?P i s"
    obtain bufs fl where bf: "s = (bufs, fl)" by (cases s)
    let ?b = "(old ! i)\<lparr>buf_remaining := buf_remaining (new ! i)\<rparr>"
    have i: "i < length new" "i < length old" using i assms(1) by simp_all
    have d: "drop i new = new ! i # drop (Suc i) new" "drop i old = old ! i # drop (Suc i) old" using i by (simp_all add: Cons_nth_drop_Suc)
    have small: "buf_remaining (new ! i) < 256 ^ 8" using assms(2) nth_mem[OF i(1)] by simp
    have "fl = write_nat 8 (buf_remaining (new ! i)) @ remaining_enc (drop (Suc i) new) @ rest"
      using s bf d(1) by (simp add: remaining_enc_def)
    then have r: "read_nat 8 fl = Some (buf_remaining (new ! i), remaining_enc (drop (Suc i) new) @ rest)"
      using read_write_nat[OF small, of "remaining_enc (drop (Suc i) new) @ rest"] by (simp add: MAX_RW_COUNT_def)
    have len: "length (with_remaining (take i old) (take i new)) = i" using i by (simp add: with_remaining_def)
    have b: "bufs = with_remaining (take i old) (take i new) @ old ! i # drop (Suc i) old" using s bf d(2) by simp
    have "array_read bufs i = Some (old ! i)" unfolding b array_read_def using len by (simp add: nth_append)
    moreover have "bufs[i := ?b] = with_remaining (take (Suc i) old) (take (Suc i) new) @ drop (Suc i) old"
      unfolding b using len i by (simp add: list_update_append take_Suc_conv_app_nth with_remaining_def)
    ultimately have "?step i s = Some (with_remaining (take (Suc i) old) (take (Suc i) new) @ drop (Suc i) old, remaining_enc (drop (Suc i) new) @ rest)"
      using r bf by simp
    then show "\<exists>s'. ?step ([0..<length new] ! i) s = Some s' \<and> ?P (Suc i) s'" using i by simp
  qed
  then show ?thesis using assms(1) by (auto simp: load_remaining_def remaining_enc_def)
qed

section \<open>The bytes of a zone\<close>

lemma as_int_small [simp]: "n < 2 ^ 31 \<Longrightarrow> as_int n = int n"
  by (simp add: as_int_def)

lemma as_int_big: "2 ^ 31 \<le> n \<Longrightarrow> n < 2 ^ 32 \<Longrightarrow> as_int n < 0"
  by (simp add: as_int_def)

text \<open>A zone of fewer than \<open>2 ^ 31\<close> bytes is moved in at most two calls.\<close>

lemma read_bytes_add: "read_bytes m a (n + k) = read_bytes m a n @ read_bytes m (a + n) k"
  by (rule nth_equalityI) (auto simp: read_bytes_def nth_append)

lemma read_bytes_split: "k \<le> n \<Longrightarrow> read_bytes m a n = read_bytes m a k @ read_bytes m (a + k) (n - k)"
  using read_bytes_add[of m a k "n - k"] by simp

lemma length_read_bytes' [simp]: "length (read_bytes m a n) = n"
  by (simp add: read_bytes_def)

lemma save_zone_data_ok:
  assumes "len < 2 ^ 31" "cur \<le> len"
  shows "save_zone_data m a len cur = read_bytes m (a + cur) (len - cur)"
  using assms(2)
proof (induction "len - cur" arbitrary: cur rule: less_induct)
  case less
  show ?case
  proof (cases "cur = len")
    case True
    then show ?thesis using assms(1) by (subst save_zone_data.simps) (simp add: read_bytes_def)
  next
    case False
    let ?n = "min (len - cur) MAX_RW_COUNT"
    have w: "kernel_write (read_bytes m (a + cur) (len - cur)) = read_bytes m (a + cur) ?n"
      by (rule nth_equalityI) (simp_all add: kernel_write_def read_bytes_def min.commute)
    have n: "0 < ?n" "cur + ?n \<le> len" using False less(2) by (auto simp: MAX_RW_COUNT_def)
    have "save_zone_data m a len cur = read_bytes m (a + cur) ?n @ save_zone_data m a len (cur + ?n)"
      using False less(2) assms(1) by (subst save_zone_data.simps) (simp add: w Let_def)
    also have "save_zone_data m a len (cur + ?n) = read_bytes m (a + (cur + ?n)) (len - (cur + ?n))"
      using n False less(2) by (intro less(1)) linarith+
    also have "read_bytes m (a + cur) ?n @ read_bytes m (a + (cur + ?n)) (len - (cur + ?n)) = read_bytes m (a + cur) (len - cur)"
      using read_bytes_split[of ?n "len - cur" m "a + cur"] by (simp add: add.assoc)
    finally show ?thesis .
  qed
qed

text \<open>Copying bytes of a memory to where they were.\<close>

definition filled_from :: "memory \<Rightarrow> (nat \<Rightarrow> bool) \<Rightarrow> memory \<Rightarrow> memory" where
  "filled_from src P m = (\<lambda>x. if P x then src x else m x)"

lemma filled_twice [simp]: "filled_from src Q (filled_from src P m) = filled_from src (\<lambda>x. P x \<or> Q x) m"
  by (auto simp: filled_from_def)

lemma filled_none [simp]: "filled_from src (\<lambda>x. False) m = m"
  by (simp add: filled_from_def)

lemma write_read_bytes: "write_bytes m a (read_bytes src a n) = filled_from src (\<lambda>x. a \<le> x \<and> x < a + n) m"
  by (rule ext) (auto simp: write_bytes_def read_bytes_def filled_from_def)

lemma load_zone_data_ok:
  assumes "len < 2 ^ 31" "cur \<le> len"
  shows "load_zone_data a len cur (m, read_bytes src (a + cur) (len - cur) @ rest) =
    Some (filled_from src (\<lambda>x. a + cur \<le> x \<and> x < a + len) m, rest)"
  using assms(2)
proof (induction "len - cur" arbitrary: cur m rule: less_induct)
  case less
  show ?case
  proof (cases "cur = len")
    case True
    then have "(\<lambda>x. a + cur \<le> x \<and> x < a + len) = (\<lambda>x. False)" by auto
    then show ?thesis using assms(1) True by (subst load_zone_data.simps) (simp add: read_bytes_def)
  next
    case False
    let ?n = "min (len - cur) MAX_RW_COUNT"
    have n: "0 < ?n" "cur + ?n \<le> len" using False less(2) by (auto simp: MAX_RW_COUNT_def)
    have sp: "read_bytes src (a + cur) (len - cur) = read_bytes src (a + cur) ?n @ read_bytes src (a + (cur + ?n)) (len - (cur + ?n))"
      using read_bytes_split[of ?n "len - cur" src "a + cur"] by (simp add: add.assoc)
    have k: "kernel_read (len - cur) (read_bytes src (a + cur) (len - cur) @ rest) =
        (read_bytes src (a + cur) ?n, read_bytes src (a + (cur + ?n)) (len - (cur + ?n)) @ rest)"
      unfolding sp kernel_read_def by simp
    let ?m = "filled_from src (\<lambda>x. a + cur \<le> x \<and> x < a + cur + ?n) m"
    have "load_zone_data a len cur (m, read_bytes src (a + cur) (len - cur) @ rest) =
        load_zone_data a len (cur + ?n) (?m, read_bytes src (a + (cur + ?n)) (len - (cur + ?n)) @ rest)"
      using False less(2) assms(1) by (subst load_zone_data.simps) (simp add: k write_read_bytes del: min_def)
    also have "\<dots> = Some (filled_from src (\<lambda>x. a + (cur + ?n) \<le> x \<and> x < a + len) ?m, rest)"
      using n False less(2) by (intro less(1)) linarith+
    also have "filled_from src (\<lambda>x. a + (cur + ?n) \<le> x \<and> x < a + len) ?m = filled_from src (\<lambda>x. a + cur \<le> x \<and> x < a + len) m"
      unfolding filled_twice using n(2) by (intro arg_cong2[of _ _ m m "filled_from src"] ext) auto
    finally show ?thesis .
  qed
qed

section \<open>The whole file\<close>

definition zone_stored :: "zns_ftl \<Rightarrow> nat \<Rightarrow> bool" where
  "zone_stored zf i \<longleftrightarrow> zd_state (zf_descs zf ! i) \<noteq> ZONE_STATE_EMPTY \<and> zd_state (zf_descs zf ! i) \<noteq> ZONE_STATE_OFFLINE \<and>
     written_bytes zf (zf_descs zf ! i) \<noteq> 0"

text \<open>The bytes of zone \<open>i\<close> that are in the file.\<close>

definition in_zone_file :: "zns_ftl \<Rightarrow> nat \<Rightarrow> nat \<Rightarrow> bool" where
  "in_zone_file zf i x \<longleftrightarrow> zone_stored zf i \<and> i * zp_zone_size (zf_zp zf) \<le> x \<and>
     x < i * zp_zone_size (zf_zp zf) + written_bytes zf (zf_descs zf ! i)"

definition zone_enc :: "zns_ftl \<Rightarrow> nat \<Rightarrow> bytes" where
  "zone_enc zf i = (let len = written_bytes zf (zf_descs zf ! i) in
     if zone_stored zf i then write_nat 4 i @ write_nat 8 len @ read_bytes (zf_storage zf) (i * zp_zone_size (zf_zp zf)) len else [])"

definition dumpable :: "zns_ftl \<Rightarrow> bool" where
  "dumpable zf \<longleftrightarrow> length (zf_descs zf) = nr_zones zf \<and> 64 * nr_zones zf \<le> MAX_RW_COUNT \<and> zp_zone_size (zf_zp zf) < 2 ^ 32 \<and>
     (\<forall>d\<in>set (zf_descs zf). zd_fits d \<and> written_bytes zf d < 2 ^ 31) \<and> (\<forall>t. res_fits (zf_res zf t)) \<and>
     (zp_zrwa_buffer_size (zf_zp zf) > 0 \<longrightarrow> length (zf_zwra_bufs zf) = nr_zones zf \<and> (\<forall>b\<in>set (zf_zwra_bufs zf). buf_remaining b < 2 ^ 64)) \<and>
     (zp_zone_wb_size (zf_zp zf) > 0 \<longrightarrow> length (zf_wbufs zf) = nr_zones zf \<and> (\<forall>b\<in>set (zf_wbufs zf). buf_remaining b < 2 ^ 64))"

lemma save_zone_enc:
  assumes "dumpable zf" "i < nr_zones zf"
  shows "save_zone zf i = Some (zone_enc zf i)"
proof -
  have i: "i < length (zf_descs zf)" using assms by (simp add: dumpable_def)
  then have "written_bytes zf (zf_descs zf ! i) < 2 ^ 31" using assms(1) nth_mem[OF i] by (simp add: dumpable_def)
  then show ?thesis using i save_zone_data_ok[of "written_bytes zf (zf_descs zf ! i)" 0]
    by (auto simp: save_zone_def zone_enc_def zone_stored_def Let_def)
qed

lemma load_zones_enc:
  assumes d: "dumpable zf" and same: "zf_zp zt = zf_zp zf" and xs: "\<forall>i\<in>set xs. i < nr_zones zf"
  shows "load_zones zt (concat (map (zone_enc zf) xs) @ write_nat 4 ZNS_ZONE_SENTINEL @ rest) =
    Some (zt\<lparr>zf_storage := filled_from (zf_storage zf) (\<lambda>x. \<exists>i\<in>set xs. in_zone_file zf i x) (zf_storage zt)\<rparr>, 0)"
  using same xs
proof (induction xs arbitrary: zt)
  case Nil
  have "kernel_read 4 (write_nat 4 ZNS_ZONE_SENTINEL @ rest) = (le_bytes 4 ZNS_ZONE_SENTINEL, rest)"
    by (simp add: kernel_read_def write_nat_def MAX_RW_COUNT_def)
  then show ?case by (subst load_zones.simps) (simp add: le_number_le_bytes ZNS_ZONE_SENTINEL_def)
next
  case (Cons i xs)
  let ?len = "written_bytes zf (zf_descs zf ! i)" and ?a = "i * zp_zone_size (zf_zp zf)"
  let ?rest = "concat (map (zone_enc zf) xs) @ write_nat 4 ZNS_ZONE_SENTINEL @ rest"
  have i: "i < nr_zones zf" "i < length (zf_descs zf)" using Cons.prems(2) d by (simp_all add: dumpable_def)
  have len: "?len < 2 ^ 31" "i < ZNS_ZONE_SENTINEL" "i < 2 ^ 32"
    using d i nth_mem[OF i(2)] by (auto simp: dumpable_def MAX_RW_COUNT_def ZNS_ZONE_SENTINEL_def)
  show ?case
  proof (cases "zone_stored zf i")
    case False
    then have "zone_enc zf i = []" "in_zone_file zf i x = False" for x by (simp_all add: zone_enc_def in_zone_file_def)
    then show ?thesis using Cons.IH[OF Cons.prems(1)] Cons.prems(2) by simp
  next
    case True
    let ?m = "filled_from (zf_storage zf) (\<lambda>x. ?a \<le> x \<and> x < ?a + ?len) (zf_storage zt)"
    have e: "zone_enc zf i @ ?rest = write_nat 4 i @ write_nat 8 ?len @ read_bytes (zf_storage zf) ?a ?len @ ?rest"
      using True by (simp add: zone_enc_def Let_def)
    have k4: "kernel_read 4 (write_nat 4 i @ r) = (le_bytes 4 i, r)" and k8: "kernel_read 8 (write_nat 8 ?len @ r) = (le_bytes 8 ?len, r)" for r
      by (simp_all add: kernel_read_def write_nat_def MAX_RW_COUNT_def)
    have n: "le_number (le_bytes 4 i) = i" "le_number (le_bytes 8 ?len) = ?len"
      using len by (simp_all add: le_number_le_bytes)
    have ne: "le_bytes 4 i \<noteq> []" using length_le_bytes[of 4 i] by (metis list.size(3) zero_neq_numeral)
    have l: "load_zone_data ?a ?len 0 (zf_storage zt, read_bytes (zf_storage zf) ?a ?len @ ?rest) = Some (?m, ?rest)"
      using load_zone_data_ok[OF len(1), of 0 ?a "zf_storage zt" "zf_storage zf" ?rest] by simp
    have "load_zones zt (zone_enc zf i @ ?rest) = load_zones (zt\<lparr>zf_storage := ?m\<rparr>) ?rest"
      unfolding e by (subst load_zones.simps) (use n ne len(2) i(1) Cons.prems(1) l in \<open>simp add: k4 k8\<close>)
    moreover have "in_zone_file zf i x \<longleftrightarrow> ?a \<le> x \<and> x < ?a + ?len" for x using True by (simp add: in_zone_file_def)
    ultimately show ?thesis using Cons.IH[of "zt\<lparr>zf_storage := ?m\<rparr>"] Cons.prems by simp
  qed
qed

end
