(* ===== verification/Zns_Dump_Props.thy ===== *)
theory Zns_Dump_Props
  imports Zns_Dump_Proof Zns_Props
begin

text \<open>
  The properties of saving and loading a drive with zones.
\<close>

section \<open>The file of a drive\<close>

definition buffers_enc :: "nat \<Rightarrow> buffer list \<Rightarrow> bytes" where
  "buffers_enc sz bufs = (if sz > 0 then remaining_enc bufs else [])"

definition zns_enc :: "zns_ftl \<Rightarrow> bytes" where
  "zns_enc zf = zns_header zf @ write_array zd_bytes (zf_descs zf) @ write_array res_bytes (map (zf_res zf) [ACTIVE_ZONE, OPEN_ZONE, ZRWA_ZONE]) @
     buffers_enc (zp_zrwa_buffer_size (zf_zp zf)) (zf_zwra_bufs zf) @ buffers_enc (zp_zone_wb_size (zf_zp zf)) (zf_wbufs zf) @
     concat (map (zone_enc zf) [0..<nr_zones zf]) @ write_nat 4 ZNS_ZONE_SENTINEL"

lemma save_zns_enc:
  assumes "dumpable zf"
  shows "save_zns_device zf = Some (zns_enc zf)"
proof -
  have l: "length (zf_descs zf) = nr_zones zf" using assms by (simp add: dumpable_def)
  have b: "(if zp_zrwa_buffer_size (zf_zp zf) > 0 then save_remaining (zf_zwra_bufs zf) (nr_zones zf) else Some []) =
      Some (buffers_enc (zp_zrwa_buffer_size (zf_zp zf)) (zf_zwra_bufs zf))"
    "(if zp_zone_wb_size (zf_zp zf) > 0 then save_remaining (zf_wbufs zf) (nr_zones zf) else Some []) =
      Some (buffers_enc (zp_zone_wb_size (zf_zp zf)) (zf_wbufs zf))"
    using assms save_remaining_enc[of "zf_zwra_bufs zf" "nr_zones zf"] save_remaining_enc[of "zf_wbufs zf" "nr_zones zf"]
    by (simp_all add: buffers_enc_def dumpable_def)
  have z: "write_all (save_zone zf) [0..<nr_zones zf] = Some (concat (map (zone_enc zf) [0..<nr_zones zf]))"
    by (rule write_all_Some) (simp add: save_zone_enc[OF assms])
  show ?thesis by (simp only: save_zns_device_def Let_def b z) (simp add: l zns_enc_def)
qed

text \<open>The drive after the load of such a file.\<close>

definition loaded_zns :: "nat \<Rightarrow> zns_ftl \<Rightarrow> zns_ftl \<Rightarrow> zns_ftl" where
  "loaded_zns sz zf zt = zt\<lparr>
     zf_storage := filled_from (zf_storage zf) (\<lambda>x. \<exists>i\<in>set [0..<nr_zones zf]. in_zone_file zf i x) (zero_range (zf_storage zt) 0 sz),
     zf_descs := zf_descs zf, zf_res := zf_res zf,
     zf_zwra_bufs := (if zp_zrwa_buffer_size (zf_zp zf) > 0 then with_remaining (zf_zwra_bufs zt) (zf_zwra_bufs zf) else zf_zwra_bufs zt),
     zf_wbufs := (if zp_zone_wb_size (zf_zp zf) > 0 then with_remaining (zf_wbufs zt) (zf_wbufs zf) else zf_wbufs zt)\<rparr>"

text \<open>A drive of the same parameters.\<close>

definition same_zns :: "zns_ftl \<Rightarrow> zns_ftl \<Rightarrow> bool" where
  "same_zns zf zt \<longleftrightarrow> zf_zp zt = zf_zp zf \<and> length (zf_descs zt) = nr_zones zf \<and>
     (zp_zrwa_buffer_size (zf_zp zf) > 0 \<longrightarrow> length (zf_zwra_bufs zt) = nr_zones zf) \<and>
     (zp_zone_wb_size (zf_zp zf) > 0 \<longrightarrow> length (zf_wbufs zt) = nr_zones zf)"

lemma load_buffers:
  assumes "0 < sz \<longrightarrow> length new = n \<and> length old = n \<and> (\<forall>b\<in>set new. buf_remaining b < 2 ^ 64)"
  shows "(if (if sz > 0 then 1 else 0 :: 8 word) \<noteq> 0 then load_remaining n old (buffers_enc sz new @ rest) else Some (old, buffers_enc sz new @ rest)) =
    Some (if sz > 0 then with_remaining old new else old, rest)"
  using assms load_remaining_enc[of old new rest] by (cases "0 < sz") (auto simp: buffers_enc_def)

lemma load_zns_enc:
  assumes d: "dumpable zf" and same: "same_zns zf zt"
  shows "load_zns_device sz (zns_enc zf) zt = Some (loaded_zns sz zf zt, 0)"
proof -
  let ?n = "nr_zones zf" and ?res = "map (zf_res zf) [ACTIVE_ZONE, OPEN_ZONE, ZRWA_ZONE]" and ?zp = "zf_zp zf"
  let ?b = "concat (map (zone_enc zf) [0..<?n]) @ write_nat 4 ZNS_ZONE_SENTINEL"
  let ?wb = "buffers_enc (zp_zone_wb_size ?zp) (zf_wbufs zf) @ ?b"
  let ?zrwa = "buffers_enc (zp_zrwa_buffer_size ?zp) (zf_zwra_bufs zf) @ ?wb"
  let ?r = "write_array res_bytes ?res @ ?zrwa" and ?h = "zns_header zf"
  let ?d = "write_array zd_bytes (zf_descs zf) @ ?r"
  have zp: "zf_zp zt = ?zp" and l: "length (zf_descs zf) = ?n" "64 * length (zf_descs zf) \<le> MAX_RW_COUNT" "\<forall>x\<in>set (zf_descs zf). zd_fits x"
    using d same by (simp_all add: dumpable_def same_zns_def)
  have h: "length ?h = 24" by (simp add: zns_header_def MAX_RW_COUNT_def)
  have small: "?n < 2 ^ 32" "zp_zone_size ?zp < 2 ^ 32" using d by (auto simp: dumpable_def MAX_RW_COUNT_def)
  have f: "le_number (take 4 (drop 0 ?h)) = ZNS_DUMP_MAGIC" "le_number (take 4 (drop 4 ?h)) = ?n" "le_number (take 4 (drop 8 ?h)) = zp_zone_size ?zp"
    "?h ! 20 = (if zp_zrwa_buffer_size ?zp > 0 then 1 else 0)" "?h ! 21 = (if zp_zone_wb_size ?zp > 0 then 1 else 0)"
    using small by (simp_all add: zns_header_def MAX_RW_COUNT_def le_number_le_bytes ZNS_DUMP_MAGIC_def nth_append)
  have rd: "read_full 24 (?h @ ?d) = Some (?h, ?d)" by (rule read_full_append[OF h]) (simp add: MAX_RW_COUNT_def)
  have ks: "\<forall>i\<in>set [0..<?n]. known_state (take 64 (drop (64 * i) ?d))"
  proof
    fix i assume i: "i \<in> set [0..<?n]"
    let ?c = "concat (map zd_bytes (zf_descs zf))"
    have c: "write_array zd_bytes (zf_descs zf) = ?c" "length ?c = 64 * ?n"
      using l by (simp_all add: write_array_def zd_codec.length_encs)
    have "64 * i + 64 \<le> length ?c" using i c(2) by simp
    then have "take 64 (drop (64 * i) ?d) = take 64 (drop (64 * i) ?c)" unfolding c(1) by simp
    also have "\<dots> = zd_bytes (zf_descs zf ! i)" using zd_codec.nth_enc[of i "zf_descs zf"] i l(1) by simp
    finally show "known_state (take 64 (drop (64 * i) ?d))" using state_code(3) by (simp only: known_state_def zd_byte_1)
  qed
  have ds: "read_array 64 bytes_zd ?n ?d = Some (zf_descs zf, ?r)"
    using zd_codec.read_write_array[OF l(3,2), of ?r] l(1) by simp
  have "\<forall>x\<in>set ?res. res_fits x" using d by (simp add: dumpable_def)
  then have rs: "read_array 8 bytes_res 3 ?r = Some (?res, ?zrwa)"
    using res_codec.read_write_array[of ?res ?zrwa] by (simp add: MAX_RW_COUNT_def numeral_3_eq_3)
  have b1: "0 < zp_zrwa_buffer_size ?zp \<longrightarrow> length (zf_zwra_bufs zf) = ?n \<and> length (zf_zwra_bufs zt) = ?n \<and> (\<forall>b\<in>set (zf_zwra_bufs zf). buf_remaining b < 2 ^ 64)"
    and b2: "0 < zp_zone_wb_size ?zp \<longrightarrow> length (zf_wbufs zf) = ?n \<and> length (zf_wbufs zt) = ?n \<and> (\<forall>b\<in>set (zf_wbufs zf). buf_remaining b < 2 ^ 64)"
    using d same by (simp_all add: dumpable_def same_zns_def)
  note bufs = load_buffers[OF b1, of ?wb] load_buffers[OF b2, of ?b]
  let ?zt = "zt\<lparr>zf_storage := zero_range (zf_storage zt) 0 sz, zf_descs := zf_descs zf, zf_res := zf_res zf,
     zf_zwra_bufs := (if zp_zrwa_buffer_size ?zp > 0 then with_remaining (zf_zwra_bufs zt) (zf_zwra_bufs zf) else zf_zwra_bufs zt),
     zf_wbufs := (if zp_zone_wb_size ?zp > 0 then with_remaining (zf_wbufs zt) (zf_wbufs zf) else zf_wbufs zt)\<rparr>"
  have dr: "zf_descs zf @ drop ?n (zf_descs zt) = zf_descs zf" using same by (simp add: same_zns_def)
  have "load_zns_device sz (?h @ ?d) zt = load_zones ?zt ?b"
    unfolding load_zns_device_def Let_def rd zp bind.bind_lunit prod.case f ds rs bufs set_res_map dr nvmev_assert_bind[OF ks]
    by simp
  also have "\<dots> = Some (loaded_zns sz zf zt, 0)"
    using load_zones_enc[OF d, of ?zt "[0..<?n]" "[]"] zp by (simp add: loaded_zns_def)
  finally show ?thesis by (simp add: zns_enc_def)
qed

section \<open>Concrete inputs\<close>

lemma four_zones_descs: "zf_descs four_zones = map (init_zone (zf_zp four_zones)) [0..<4]" "zf_storage four_zones = (\<lambda>_. 7)"
  "zf_res four_zones = (\<lambda>_. \<lparr>acquired_cnt = 0, total_cnt = 4\<rparr>)" "zp_zone_size (zf_zp four_zones) = 2097152"
  "secsz (zf_sp four_zones) = 512" "zp_zrwa_buffer_size (zf_zp four_zones) = 0"
proof -
  have "\<exists>zp s. zns_init_ftl zp s (\<lambda>_. 7) = four_zones"
    using four_zones_ok(1) by (auto simp: zns_init_namespace_def bind_eq_Some_conv)
  then obtain zp s where e: "four_zones = zns_init_ftl zp s (\<lambda>_. 7)" by metis
  have "zf_zp four_zones = zp" unfolding e by (simp add: zns_init_ftl_def init_resource_def init_descriptor_def Let_def)
  then have "zp_nr_zones zp = 4" using four_zones_ok(4) by simp
  then show "zf_descs four_zones = map (init_zone (zf_zp four_zones)) [0..<4]" "zf_storage four_zones = (\<lambda>_. 7)"
    "zf_res four_zones = (\<lambda>_. \<lparr>acquired_cnt = 0, total_cnt = 4\<rparr>)"
    unfolding e by (simp_all add: zns_init_ftl_def init_resource_def init_descriptor_def Let_def)
  have g: "zgeo_ok (zf_zp four_zones) (zf_sp four_zones)" using four_zones_ok(2) by (simp add: zns_inv_def)
  then show "zp_zone_size (zf_zp four_zones) = 2097152" "secsz (zf_sp four_zones) = 512" "zp_zrwa_buffer_size (zf_zp four_zones) = 0"
    using four_zones_ok(5) by (auto simp: zgeo_ok_def zspp_ok_def)
qed

lemma four_zones_length: "length (zf_descs four_zones) = 4"
  by (simp add: four_zones_descs(1))

lemma four_zones_nth: "i < 4 \<Longrightarrow> zf_descs four_zones ! i = \<lparr>zd_state = ZONE_STATE_EMPTY, zd_type = 2, zd_zrwav = False,
    zd_capacity = 4096, zd_zslba = i * 4096, zd_wp = i * 4096\<rparr>"
  by (simp add: four_zones_descs(1,4) init_zone_def)

text \<open>A drive like \<open>four_zones\<close> in which another descriptor stands for the first zone can be saved.\<close>

lemma one_zone_dumpable:
  assumes zf: "zf = four_zones\<lparr>zf_descs := (zf_descs four_zones)[0 := d], zf_wbufs := bufs\<rparr>"
    and d: "zd_fits d" "written_bytes zf d \<le> 2097152" and b: "length bufs = 4" "\<forall>b\<in>set bufs. buf_remaining b < 2 ^ 64"
  shows "dumpable zf" "\<forall>j<nr_zones zf. written_bytes zf (zf_descs zf ! j) \<le> zp_zone_size (zf_zp zf)"
proof -
  note l = four_zones_length
  have one: "zd_fits (zf_descs zf ! j) \<and> written_bytes zf (zf_descs zf ! j) \<le> 2097152" if "j < 4" for j
    using d that four_zones_nth[OF that] l by (cases "j = 0") (simp_all add: zf zd_fits_def written_bytes_def)
  then show "\<forall>j<nr_zones zf. written_bytes zf (zf_descs zf ! j) \<le> zp_zone_size (zf_zp zf)"
    by (simp add: zf four_zones_ok(4) four_zones_descs(4))
  have "zd_fits e \<and> written_bytes zf e < 2 ^ 31" if "e \<in> set (zf_descs zf)" for e
  proof -
    obtain j where j: "j < 4" "e = zf_descs zf ! j" using \<open>e \<in> set (zf_descs zf)\<close> l by (auto simp: in_set_conv_nth zf)
    show ?thesis using one[OF j(1)] j(2) by auto
  qed
  then show "dumpable zf"
    using l b by (simp add: dumpable_def zf four_zones_ok(4) four_zones_descs(3,4,6) res_fits_def MAX_RW_COUNT_def)
qed

definition full_desc :: zone_descriptor where
  "full_desc = (zf_descs four_zones ! 0)\<lparr>zd_state := ZONE_STATE_FULL, zd_wp := 4096\<rparr>"

lemma full_zone_dumpable: "dumpable full_zone"
proof (rule one_zone_dumpable)
  show "full_zone = four_zones\<lparr>zf_descs := (zf_descs four_zones)[0 := full_desc],
      zf_wbufs := (zf_wbufs four_zones)[0 := \<lparr>buf_size = 491520, buf_remaining = 0\<rparr>]\<rparr>" by (simp add: full_zone_def full_desc_def)
  show "zd_fits full_desc" by (simp add: full_desc_def four_zones_nth zd_fits_def)
  show "written_bytes full_zone full_desc \<le> 2097152"
    by (simp add: written_bytes_def full_desc_def four_zones_nth full_zone_def four_zones_descs(5))
  show "length ((zf_wbufs four_zones)[0 := \<lparr>buf_size = 491520, buf_remaining = 0\<rparr>]) = 4" by (simp add: four_zones_ok(10))
  show "\<forall>b\<in>set ((zf_wbufs four_zones)[0 := \<lparr>buf_size = 491520, buf_remaining = 0\<rparr>]). buf_remaining b < 2 ^ 64"
    unfolding four_zones_ok(10) using set_update_subset_insert[of "replicate 4 (buffer_init 491520)" 0 "\<lparr>buf_size = 491520, buf_remaining = 0\<rparr>"]
    by (auto simp: buffer_init_def)
qed

definition area_desc :: zone_descriptor where
  "area_desc = (zf_descs four_zones ! 0)\<lparr>zd_state := ZONE_STATE_OPENED_EXPL, zd_zrwav := True, zd_wp := 8\<rparr>"

definition area_zone :: zns_ftl where
  "area_zone = four_zones\<lparr>zf_descs := (zf_descs four_zones)[0 := area_desc], zf_wbufs := zf_wbufs four_zones\<rparr>"

lemma area_written: "written_bytes area_zone area_desc = 4096" "zf_descs area_zone ! 0 = area_desc" "nr_zones area_zone = 4"
  by (simp_all add: written_bytes_def area_desc_def four_zones_nth area_zone_def four_zones_length four_zones_descs(5) four_zones_ok(4))

lemma area_zone_dumpable: "dumpable area_zone" "\<forall>j<nr_zones area_zone. written_bytes area_zone (zf_descs area_zone ! j) \<le> zp_zone_size (zf_zp area_zone)"
  using one_zone_dumpable[OF area_zone_def] area_written(1) by (simp_all add: area_desc_def four_zones_nth zd_fits_def four_zones_ok(10) buffer_init_def)

section \<open>What a load restores\<close>

lemma in_zone_range:
  assumes "in_zone_file zf j (i * zp_zone_size (zf_zp zf) + x)" "x < zp_zone_size (zf_zp zf)" "written_bytes zf (zf_descs zf ! j) \<le> zp_zone_size (zf_zp zf)"
  shows "j = i \<and> x < written_bytes zf (zf_descs zf ! i)"
proof -
  let ?z = "zp_zone_size (zf_zp zf)"
  have r: "j * ?z \<le> i * ?z + x" "i * ?z + x < j * ?z + written_bytes zf (zf_descs zf ! j)" using assms(1) by (simp_all add: in_zone_file_def)
  then have "(i * ?z + x) div ?z = j" using assms(3) by (intro div_nat_eqI) (simp_all add: mult.commute)
  moreover have "(i * ?z + x) div ?z = i" using assms(2) by simp
  ultimately show ?thesis using r by simp
qed

lemma zone_written:
  assumes inv: "zns_inv zf" and i: "i < nr_zones zf" and z: "zp_zone_size (zf_zp zf) < 2 ^ 32"
  shows "written_bytes zf (zf_descs zf ! i) = 512 * (zd_wp (zf_descs zf ! i) - zd_zslba (zf_descs zf ! i))"
    "written_bytes zf (zf_descs zf ! i) \<le> zp_zone_size (zf_zp zf)"
    "zone_stored zf i \<longleftrightarrow> written_bytes zf (zf_descs zf ! i) \<noteq> 0"
proof -
  let ?d = "zf_descs zf ! i" and ?n = "zone_lbas zf"
  have ok: "zone_ok ?n i ?d" and g: "secsz (zf_sp zf) = 512" "nr_zones zf * ?n < 2 ^ 32"
    using inv i by (auto simp: zns_inv_def zgeo_ok_def zspp_ok_def)
  have "i * ?n + ?n \<le> nr_zones zf * ?n" using i by (metis Suc_leI add.commute mult_Suc mult_le_mono1)
  then have zs: "zd_zslba ?d = i * ?n" "i * ?n + ?n < 2 ^ 32" using ok g(2) by (simp_all add: zone_ok_def)
  have wp: "i * ?n \<le> zd_wp ?d" "zd_wp ?d \<le> i * ?n + ?n" using ok by (auto simp: zone_ok_def split: zone_state.splits)
  let ?w = "zd_wp ?d - zd_zslba ?d"
  have "zd_wp ?d + (2 ^ 64 - zd_zslba ?d) = ?w + 2 ^ 64" using zs wp by simp
  moreover have "?w < 2 ^ 64" using zs wp by simp
  ultimately have m: "(zd_wp ?d + (2 ^ 64 - zd_zslba ?d)) mod 2 ^ 64 = ?w" by (metis mod_add_self2 mod_less)
  have le: "512 * ?w \<le> zp_zone_size (zf_zp zf)" using zs wp by linarith
  then have "?w * 512 mod 2 ^ 64 = 512 * ?w" using z by (simp add: mult.commute)
  then show w: "written_bytes zf ?d = 512 * ?w" unfolding written_bytes_def m g(1) .
  then show "written_bytes zf ?d \<le> zp_zone_size (zf_zp zf)" using le by simp
  show "zone_stored zf i \<longleftrightarrow> written_bytes zf ?d \<noteq> 0"
    using ok w zs(1) by (auto simp: zone_stored_def zone_ok_def split: zone_state.splits)
qed

text \<open>C29: A drive with zones that is saved and loaded into a drive of the same parameters, whatever that drive did before, comes
  back with its zone descriptors, its resource counts, what was left of its write buffers and the bytes of every zone up to the
  write pointer, and satisfies the invariant of a drive with zones.\<close>

theorem zns_load_save_roundtrip:
  assumes "zns_inv zf" "dumpable zf" "zns_inv zt" "zf_zp zt = zf_zp zf" "zf_sp zt = zf_sp zf"
  shows "\<exists>bs zf'. save_zns_device zf = Some bs \<and> load_zns_device sz bs zt = Some (zf', 0) \<and> zns_inv zf' \<and>
    zf_descs zf' = zf_descs zf \<and> zf_res zf' = zf_res zf \<and>
    (zp_zone_wb_size (zf_zp zf) > 0 \<longrightarrow> map buf_remaining (zf_wbufs zf') = map buf_remaining (zf_wbufs zf)) \<and>
    (\<forall>i<nr_zones zf. \<forall>x<512 * (zd_wp (zf_descs zf ! i) - zd_zslba (zf_descs zf ! i)).
       zf_storage zf' (i * zp_zone_size (zf_zp zf) + x) = zf_storage zf (i * zp_zone_size (zf_zp zf) + x))"
proof -
  let ?zf' = "loaded_zns sz zf zt"
  have z0: "zp_zrwa_buffer_size (zf_zp zf) = 0" and small: "zp_zone_size (zf_zp zf) < 2 ^ 32"
    using assms(1,2) by (simp_all add: zns_inv_def zgeo_ok_def dumpable_def)
  have l: "zp_zone_wb_size (zf_zp zf) > 0 \<longrightarrow> length (zf_wbufs zt) = nr_zones zf \<and> length (zf_wbufs zf) = nr_zones zf" "length (zf_descs zt) = nr_zones zf"
    using assms(1,3,4) by (simp_all add: zns_inv_def)
  have same: "same_zns zf zt" using l z0 assms(4) by (simp add: same_zns_def)
  have inv: "zns_inv ?zf'"
    using assms(1,3-5) l by (simp add: zns_inv_def loaded_zns_def res_ok_def with_remaining_def)
  have wb: "map buf_remaining (zf_wbufs ?zf') = map buf_remaining (zf_wbufs zf)" if "zp_zone_wb_size (zf_zp zf) > 0"
    using l that by (intro nth_equalityI) (simp_all add: loaded_zns_def with_remaining_def)
  have st: "zf_storage ?zf' (i * zp_zone_size (zf_zp zf) + x) = zf_storage zf (i * zp_zone_size (zf_zp zf) + x)"
    if "i < nr_zones zf" "x < 512 * (zd_wp (zf_descs zf ! i) - zd_zslba (zf_descs zf ! i))" for i x
  proof -
    note w = zone_written[OF assms(1) that(1) small]
    have "x < written_bytes zf (zf_descs zf ! i)" using that(2) w(1) by simp
    moreover from this have "zone_stored zf i" unfolding w(3) by simp
    ultimately have "in_zone_file zf i (i * zp_zone_size (zf_zp zf) + x)" by (simp add: in_zone_file_def)
    then have "\<exists>j\<in>set [0..<nr_zones zf]. in_zone_file zf j (i * zp_zone_size (zf_zp zf) + x)" using that(1) by auto
    then show ?thesis by (simp add: loaded_zns_def filled_from_def)
  qed
  show ?thesis
    using save_zns_enc[OF assms(2)] load_zns_enc[OF assms(2) same, of sz] inv wb st
    by (intro exI[of _ "zns_enc zf"] exI[of _ ?zf']) (simp add: loaded_zns_def)
qed

theorem zns_load_save_roundtrip_witness:
  "\<exists>bs zf'. save_zns_device full_zone = Some bs \<and> load_zns_device 8388608 bs four_zones = Some (zf', 0) \<and> zns_inv zf' \<and>
    zf_descs zf' = zf_descs full_zone \<and> (\<forall>x<2097152. zf_storage zf' x = 7)"
proof -
  have s: "zns_inv four_zones" "zf_zp four_zones = zf_zp full_zone" "zf_sp four_zones = zf_sp full_zone"
    by (simp_all add: four_zones_ok(2) full_zone_def)
  obtain bs zf' where r: "save_zns_device full_zone = Some bs" "load_zns_device 8388608 bs four_zones = Some (zf', 0)" "zns_inv zf'"
    "zf_descs zf' = zf_descs full_zone"
    "\<forall>i<nr_zones full_zone. \<forall>x<512 * (zd_wp (zf_descs full_zone ! i) - zd_zslba (zf_descs full_zone ! i)).
       zf_storage zf' (i * zp_zone_size (zf_zp full_zone) + x) = zf_storage full_zone (i * zp_zone_size (zf_zp full_zone) + x)"
    using zns_load_save_roundtrip[OF full_zone_ok(1) full_zone_dumpable s, of 8388608] by blast
  have "zf_storage zf' x = 7" if "x < 2097152" for x
    using r(5)[rule_format, of 0 x] that full_zone_ok(2,4,5) by (simp add: full_zone_def four_zones_descs(2))
  then show ?thesis using r(1-4) by blast
qed

text \<open>Bytes of a zone at or behind its write pointer are not in the file, and a load clears them.  A random write area lies
  there: what the host has written to it and not yet committed is lost.\<close>

theorem zns_dump_loses_window:
  assumes "dumpable zf" "same_zns zf zt" "i < nr_zones zf"
    and "\<forall>j<nr_zones zf. written_bytes zf (zf_descs zf ! j) \<le> zp_zone_size (zf_zp zf)"
    and "written_bytes zf (zf_descs zf ! i) \<le> x" "x < zp_zone_size (zf_zp zf)" "i * zp_zone_size (zf_zp zf) + x < sz"
  shows "\<exists>bs zf'. save_zns_device zf = Some bs \<and> load_zns_device sz bs zt = Some (zf', 0) \<and>
    zd_zrwav (zf_descs zf' ! i) = zd_zrwav (zf_descs zf ! i) \<and> zf_storage zf' (i * zp_zone_size (zf_zp zf) + x) = 0"
proof -
  have "\<not> in_zone_file zf j (i * zp_zone_size (zf_zp zf) + x)" if "j \<in> set [0..<nr_zones zf]" for j
    using in_zone_range[of zf j i x] assms(4-6) that by auto
  then have "zf_storage (loaded_zns sz zf zt) (i * zp_zone_size (zf_zp zf) + x) = 0"
    using assms(7) by (simp add: loaded_zns_def filled_from_def zero_range_def)
  then show ?thesis
    using save_zns_enc[OF assms(1)] load_zns_enc[OF assms(1,2), of sz]
    by (intro exI[of _ "zns_enc zf"] exI[of _ "loaded_zns sz zf zt"]) (simp add: loaded_zns_def)
qed

theorem zns_dump_loses_window_witness:
  "zd_zrwav (zf_descs area_zone ! 0) \<and> zf_storage area_zone 5000 = 7 \<and>
   (\<exists>bs zf'. save_zns_device area_zone = Some bs \<and> load_zns_device 8388608 bs four_zones = Some (zf', 0) \<and> zf_storage zf' 5000 = 0)"
proof -
  have "same_zns area_zone four_zones"
    by (simp add: same_zns_def area_zone_def four_zones_descs(1,6) four_zones_ok(4,10))
  from zns_dump_loses_window[OF area_zone_dumpable(1) this _ area_zone_dumpable(2), of 0 5000 8388608]
  have "\<exists>bs zf'. save_zns_device area_zone = Some bs \<and> load_zns_device 8388608 bs four_zones = Some (zf', 0) \<and> zf_storage zf' 5000 = 0"
    using area_written by (auto simp: area_zone_def four_zones_descs(4))
  moreover have "zd_zrwav (zf_descs area_zone ! 0)" by (simp add: area_written(2)) (simp add: area_desc_def)
  moreover have "zf_storage area_zone 5000 = 7" by (simp add: area_zone_def four_zones_descs(2))
  ultimately show ?thesis by blast
qed

end
