(* ===== verification/Pci_Config.thy ===== *)
theory Pci_Config
  imports Prp
begin

unbundle bit_operations_syntax

text \<open>
  The PCI face of the drive (src/pci.c, src/pci.h): the page of memory that stands for its configuration space, the
  functions that fill in the header and the capabilities, the accesses of the host, the signalling of interrupts, and the
  registers of the controller as they are set up.  The configuration space is little endian; a field of a structure is an
  offset, the size of the integer that holds it, its first bit and its width.
\<close>

section \<open>The structures\<close>

text \<open>A structure as its declaration lists it: groups of fields, one for every nested structure and one for every single member,
  each field with the size in bits of its type and its width.  A union is listed by its structure.\<close>

type_synonym cstruct = "(string \<times> nat \<times> nat) list list"

definition align_field :: "nat \<Rightarrow> nat \<Rightarrow> nat" where
  "align_field u off = (off + u - 1) div u * u"

text \<open>Where the compiler puts the fields: a field does not cross a boundary of its type, a nested structure starts and ends at a
  boundary of its largest type.\<close>

definition field_at :: "nat \<Rightarrow> nat \<Rightarrow> nat \<Rightarrow> nat" where
  "field_at off u w = (if off mod u + w > u then align_field u off else off)"

fun place_fields :: "nat \<Rightarrow> (string \<times> nat \<times> nat) list \<Rightarrow> (string \<times> nat) list" where
  "place_fields off [] = []"
| "place_fields off ((name, u, w) # fs) = (name, field_at off u w) # place_fields (field_at off u w + w) fs"

fun fields_end :: "nat \<Rightarrow> (string \<times> nat \<times> nat) list \<Rightarrow> nat" where
  "fields_end off [] = off"
| "fields_end off ((name, u, w) # fs) = fields_end (field_at off u w + w) fs"

fun group_unit :: "(string \<times> nat \<times> nat) list \<Rightarrow> nat" where
  "group_unit [] = 1"
| "group_unit ((name, u, w) # fs) = max u (group_unit fs)"

fun place_groups :: "nat \<Rightarrow> cstruct \<Rightarrow> (string \<times> nat) list" where
  "place_groups off [] = []"
| "place_groups off (g # gs) = place_fields (align_field (group_unit g) off) g @
     place_groups (align_field (group_unit g) (fields_end (align_field (group_unit g) off) g)) gs"

definition pci_header :: cstruct where
  "pci_header = [[(''id.vid'', 16, 16), (''id.did'', 16, 16)], [(''cmd.iose'', 8, 1), (''cmd.mse'', 8, 1), (''cmd.bme'', 8, 1),
     (''cmd.sce'', 8, 1), (''cmd.mwie'', 8, 1), (''cmd.vga'', 8, 1), (''cmd.pee'', 8, 1), (''cmd.fixed'', 8, 1),
     (''cmd.see'', 8, 1), (''cmd.fbe'', 8, 1), (''cmd.id'', 8, 1), (''cmd.rsvd'', 8, 5)], [(''sts.rsvd1'', 8, 3),
     (''sts.is'', 8, 1), (''sts.cl'', 8, 1), (''sts.c66'', 8, 1), (''sts.rsvd2'', 8, 1), (''sts.fbc'', 8, 1),
     (''sts.dpd'', 8, 1), (''sts.devt'', 8, 2), (''sts.sta'', 8, 1), (''sts.rta'', 8, 1), (''sts.rma'', 8, 1),
     (''sts.sse'', 8, 1), (''sts.dpe'', 8, 1)], [(''rid'', 8, 8)], [(''cc.pi'', 8, 8), (''cc.scc'', 8, 8), (''cc.bcc'', 8, 8)],
     [(''cls'', 8, 8)], [(''mlt'', 8, 8)], [(''htype.hl'', 8, 7), (''htype.mfd'', 8, 1)], [(''bist.cc'', 8, 4),
     (''bist.rsvd'', 8, 2), (''bist.sb'', 8, 1), (''bist.bc'', 8, 1)], [(''mlbar.rte'', 32, 1), (''mlbar.tp'', 32, 2),
     (''mlbar.pf'', 32, 1), (''mlbar.rsvd'', 32, 10), (''mlbar.ba'', 32, 18)], [(''mulbar'', 32, 32)], [(''idbar'', 32, 32)],
     [(''bar3'', 32, 32)], [(''bar4'', 32, 32)], [(''bar5'', 32, 32)], [(''ccptr'', 32, 32)], [(''ss.ssvid'', 16, 16),
     (''ss.ssid'', 16, 16)], [(''erom'', 32, 32)], [(''cap'', 8, 8)], [(''rsvd'', 8, 56)], [(''intr.iline'', 8, 8),
     (''intr.ipin'', 8, 8)], [(''mgnt'', 8, 8)], [(''mlat'', 8, 8)]]"

definition pci_pm_cap :: cstruct where
  "pci_pm_cap = [[(''pid.cid'', 8, 8), (''pid.next'', 8, 8)], [(''pc.vs'', 16, 3), (''pc.pmec'', 16, 1), (''pc.resv'', 16, 1),
     (''pc.dsi'', 16, 1), (''pc.auxc'', 16, 3), (''pc.d1s'', 16, 1), (''pc.d2s'', 16, 1), (''pc.psup'', 16, 5)],
     [(''pmcs.ps'', 16, 2), (''pmcs.rsvd01'', 16, 1), (''pmcs.nsfrst'', 16, 1), (''pmcs.rsvd02'', 16, 4), (''pmcs.pmee'', 16, 1),
     (''pmcs.dse'', 16, 4), (''pmcs.dsc'', 16, 2), (''pmcs.pmes'', 16, 1)], [(''ext'', 8, 16)]]"

definition pci_msix_cap :: cstruct where
  "pci_msix_cap = [[(''mxid.cid'', 8, 8), (''mxid.next'', 8, 8)], [(''mxc.ts'', 16, 11), (''mxc.rsvd'', 16, 3),
     (''mxc.fm'', 16, 1), (''mxc.mxe'', 16, 1)], [(''mtab.tbir'', 32, 3), (''mtab.to'', 32, 29)], [(''mpba.pbir'', 32, 3),
     (''mpba.pbao'', 32, 29)]]"

definition pcie_cap :: cstruct where
  "pcie_cap = [[(''pxid.cid'', 8, 8), (''pxid.next'', 8, 8)], [(''pxcap.ver'', 8, 4), (''pxcap.dpt'', 8, 4),
     (''pxcap.si'', 8, 1), (''pxcap.imn'', 8, 5), (''pxcap.rsvd'', 8, 2)], [(''pxdcap.mps'', 32, 3), (''pxdcap.pfs'', 32, 2),
     (''pxdcap.etfs'', 32, 1), (''pxdcap.l0sl'', 32, 3), (''pxdcap.l1l'', 32, 3), (''pxdcap.rsvd'', 32, 3),
     (''pxdcap.rer'', 32, 1), (''pxdcap.rsvd2'', 32, 2), (''pxdcap.csplv'', 32, 8), (''pxdcap.cspls'', 32, 2),
     (''pxdcap.flrc'', 32, 1), (''pxdcap.rsvd3'', 32, 3)], [(''pxdc.cere'', 16, 1), (''pxdc.nfere'', 16, 1),
     (''pxdc.fere'', 16, 2), (''pxdc.urre'', 16, 1), (''pxdc.ero'', 16, 1), (''pxdc.mps'', 16, 3), (''pxdc.ete'', 16, 1),
     (''pxdc.pfe'', 16, 1), (''pxdc.appme'', 16, 1), (''pxdc.ens'', 16, 1), (''pxdc.mrrs'', 16, 3), (''pxdc.iflr'', 16, 1)],
     [(''pxds.ced'', 16, 1), (''pxds.nfed'', 16, 1), (''pxds.fed'', 16, 1), (''pxds.urd'', 16, 1), (''pxds.apd'', 16, 1),
     (''pxds.tp'', 16, 1), (''pxds.rsvd'', 16, 10)], [(''pxlcap.sls'', 32, 4), (''pxlcap.mlw'', 32, 6),
     (''pxlcap.aspms'', 32, 2), (''pxlcap.l0sel'', 32, 3), (''pxlcap.l1el'', 32, 3), (''pxlcap.cpm'', 32, 1),
     (''pxlcap.sderc'', 32, 1), (''pxlcap.dllla'', 32, 20), (''pxlcap.lbnc'', 32, 1), (''pxlcap.aoc'', 32, 1),
     (''pxlcap.rsvd'', 32, 1), (''pxlcap.pn'', 32, 8)], [(''pxlc.aspmc'', 16, 2), (''pxlc.rsvd'', 16, 1), (''pxlc.rcb'', 16, 1),
     (''pxlc.rsvd2'', 16, 2), (''pxlc.ccc'', 16, 1), (''pxlc.es'', 16, 1), (''pxlc.ecpm'', 16, 1), (''pxlc.hawd'', 16, 1),
     (''pxlc.rsvd3'', 16, 6)], [(''pxls.clc'', 16, 4), (''pxls.nlw'', 16, 6), (''pxls.rsvd'', 16, 2), (''pxls.scc'', 16, 1),
     (''pxls.rsvd2'', 16, 3)], [(''pxdcap2.ctrs'', 32, 4), (''pxdcap2.ctds'', 32, 1), (''pxdcap2.arifs'', 32, 1),
     (''pxdcap2.aors'', 32, 1), (''pxdcap2.aocs32'', 32, 1), (''pxdcap2.aocs'', 32, 1), (''pxdcap2.ccs128'', 32, 1),
     (''pxdcap2.nprpr'', 32, 1), (''pxdcap2.ltrs'', 32, 1), (''pxdcap2.tphcs'', 32, 2), (''pxdcap2.rsvd'', 32, 4),
     (''pxdcap2.obffs'', 32, 2), (''pxdcap2.effs'', 32, 1), (''pxdcap2.eetps'', 32, 1), (''pxdcap2.meetp'', 32, 2),
     (''pxdcap2.rsvd2'', 32, 8)], [(''pxdc2.ctv'', 32, 4), (''pxdc2.ctd'', 32, 1), (''pxdc2.rsvd'', 32, 5),
     (''pxdc2.ltrme'', 32, 1), (''pxdc2.rsvd2'', 32, 2), (''pxdc2.obffe'', 32, 2), (''pxdc2.rsvd3'', 32, 17)]]"

definition pci_ext_cap :: cstruct where
  "pci_ext_cap = [[(''cid'', 16, 16)], [(''cver'', 16, 4)], [(''next'', 16, 12)]]"

definition nvme_ctrl_regs :: cstruct where
  "nvme_ctrl_regs = [[(''cap.mqes'', 16, 16), (''cap.cqr'', 16, 1), (''cap.ams'', 16, 2), (''cap.rsvd'', 16, 5),
     (''cap.to'', 16, 8), (''cap.dstrd'', 16, 4), (''cap.nssrs'', 16, 1), (''cap.css'', 16, 8), (''cap.rsvd2'', 16, 3),
     (''cap.mpsmin'', 16, 4), (''cap.mpsmax'', 16, 4), (''cap.rsvd3'', 16, 8)], [(''vs.rsvd'', 8, 8), (''vs.mnr'', 8, 8),
     (''vs.mjr'', 16, 16)], [(''intms'', 32, 32)], [(''intmc'', 32, 32)], [(''cc.en'', 16, 1), (''cc.rsvd'', 16, 3),
     (''cc.css'', 16, 3), (''cc.mps'', 16, 4), (''cc.ams'', 16, 3), (''cc.shn'', 16, 2), (''cc.iosqes'', 16, 4),
     (''cc.iocqes'', 16, 4), (''cc.rsvd2'', 16, 8)], [(''rsvd1'', 32, 32)], [(''csts.rdy'', 32, 1), (''csts.cfs'', 32, 1),
     (''csts.shst'', 32, 2), (''csts.nssro'', 32, 1), (''csts.pp'', 32, 1), (''csts.rsvd'', 32, 26)], [(''nssr'', 32, 32)],
     [(''aqa.asqs'', 32, 12), (''aqa.rsvd1'', 32, 4), (''aqa.acqs'', 32, 12), (''aqa.rsvd2'', 32, 4)], [(''asq.rsvd'', 64, 12),
     (''asq.asqb'', 64, 52)], [(''acq.rsvd'', 64, 12), (''acq.acqb'', 64, 52)], [(''cmbloc.bir'', 32, 3),
     (''cmbloc.rsvd'', 32, 9), (''cmbloc.ofst'', 32, 20)], [(''cmbsz.sqs'', 32, 1), (''cmbsz.cqs'', 32, 1),
     (''cmbsz.lists'', 32, 1), (''cmbsz.rds'', 32, 1), (''cmbsz.wds'', 32, 1), (''cmbsz.rsvd'', 32, 3), (''cmbsz.szu'', 32, 4),
     (''cmbsz.sz'', 32, 20)]]"

text \<open>The places of all fields, in bits from the start of the structure.  The settings use them as a byte and a bit within
  the integer that holds the field.\<close>

lemma pci_header_places:
  "place_groups 0 pci_header =
    [(''id.vid'', 0), (''id.did'', 16), (''cmd.iose'', 32), (''cmd.mse'', 33), (''cmd.bme'', 34), (''cmd.sce'', 35),
      (''cmd.mwie'', 36), (''cmd.vga'', 37), (''cmd.pee'', 38), (''cmd.fixed'', 39), (''cmd.see'', 40), (''cmd.fbe'', 41),
      (''cmd.id'', 42), (''cmd.rsvd'', 43), (''sts.rsvd1'', 48), (''sts.is'', 51), (''sts.cl'', 52), (''sts.c66'', 53),
      (''sts.rsvd2'', 54), (''sts.fbc'', 55), (''sts.dpd'', 56), (''sts.devt'', 57), (''sts.sta'', 59), (''sts.rta'', 60),
      (''sts.rma'', 61), (''sts.sse'', 62), (''sts.dpe'', 63), (''rid'', 64), (''cc.pi'', 72), (''cc.scc'', 80),
      (''cc.bcc'', 88), (''cls'', 96), (''mlt'', 104), (''htype.hl'', 112), (''htype.mfd'', 119), (''bist.cc'', 120),
      (''bist.rsvd'', 124), (''bist.sb'', 126), (''bist.bc'', 127), (''mlbar.rte'', 128), (''mlbar.tp'', 129),
      (''mlbar.pf'', 131), (''mlbar.rsvd'', 132), (''mlbar.ba'', 142), (''mulbar'', 160), (''idbar'', 192), (''bar3'', 224),
      (''bar4'', 256), (''bar5'', 288), (''ccptr'', 320), (''ss.ssvid'', 352), (''ss.ssid'', 368), (''erom'', 384),
      (''cap'', 416), (''rsvd'', 424), (''intr.iline'', 480), (''intr.ipin'', 488), (''mgnt'', 496), (''mlat'', 504)]"
  by (simp add: pci_header_def align_field_def field_at_def)

lemma pci_pm_cap_places:
  "place_groups 0 pci_pm_cap =
    [(''pid.cid'', 0), (''pid.next'', 8), (''pc.vs'', 16), (''pc.pmec'', 19), (''pc.resv'', 20), (''pc.dsi'', 21),
      (''pc.auxc'', 22), (''pc.d1s'', 25), (''pc.d2s'', 26), (''pc.psup'', 27), (''pmcs.ps'', 32), (''pmcs.rsvd01'', 34),
      (''pmcs.nsfrst'', 35), (''pmcs.rsvd02'', 36), (''pmcs.pmee'', 40), (''pmcs.dse'', 41), (''pmcs.dsc'', 45),
      (''pmcs.pmes'', 47), (''ext'', 48)]"
  by (simp add: pci_pm_cap_def align_field_def field_at_def)

lemma pci_msix_cap_places:
  "place_groups 0 pci_msix_cap =
    [(''mxid.cid'', 0), (''mxid.next'', 8), (''mxc.ts'', 16), (''mxc.rsvd'', 27), (''mxc.fm'', 30), (''mxc.mxe'', 31),
      (''mtab.tbir'', 32), (''mtab.to'', 35), (''mpba.pbir'', 64), (''mpba.pbao'', 67)]"
  by (simp add: pci_msix_cap_def align_field_def field_at_def)

lemma pci_ext_cap_places:
  "place_groups 0 pci_ext_cap =
    [(''cid'', 0), (''cver'', 16), (''next'', 32)]"
  by (simp add: pci_ext_cap_def align_field_def field_at_def)

lemma nvme_ctrl_regs_places:
  "place_groups 0 nvme_ctrl_regs =
    [(''cap.mqes'', 0), (''cap.cqr'', 16), (''cap.ams'', 17), (''cap.rsvd'', 19), (''cap.to'', 24), (''cap.dstrd'', 32),
      (''cap.nssrs'', 36), (''cap.css'', 37), (''cap.rsvd2'', 45), (''cap.mpsmin'', 48), (''cap.mpsmax'', 52),
      (''cap.rsvd3'', 56), (''vs.rsvd'', 64), (''vs.mnr'', 72), (''vs.mjr'', 80), (''intms'', 96), (''intmc'', 128),
      (''cc.en'', 160), (''cc.rsvd'', 161), (''cc.css'', 164), (''cc.mps'', 167), (''cc.ams'', 171), (''cc.shn'', 174),
      (''cc.iosqes'', 176), (''cc.iocqes'', 180), (''cc.rsvd2'', 184), (''rsvd1'', 192), (''csts.rdy'', 224),
      (''csts.cfs'', 225), (''csts.shst'', 226), (''csts.nssro'', 228), (''csts.pp'', 229), (''csts.rsvd'', 230),
      (''nssr'', 256), (''aqa.asqs'', 288), (''aqa.rsvd1'', 300), (''aqa.acqs'', 304), (''aqa.rsvd2'', 316), (''asq.rsvd'', 320),
      (''asq.asqb'', 332), (''acq.rsvd'', 384), (''acq.acqb'', 396), (''cmbloc.bir'', 448), (''cmbloc.rsvd'', 451),
      (''cmbloc.ofst'', 460), (''cmbsz.sqs'', 480), (''cmbsz.cqs'', 481), (''cmbsz.lists'', 482), (''cmbsz.rds'', 483),
      (''cmbsz.wds'', 484), (''cmbsz.rsvd'', 485), (''cmbsz.szu'', 488), (''cmbsz.sz'', 492)]"
  by (simp add: nvme_ctrl_regs_def align_field_def field_at_def)

text \<open>In the capability of PCI Express the device control has 17 bits and the link capabilities have 51, so that everything from
  the device status on lies behind its place in the specification; the settings touch nothing behind the device
  capabilities.\<close>

lemma pcie_cap_places:
  "place_groups 0 pcie_cap =
    [(''pxid.cid'', 0), (''pxid.next'', 8), (''pxcap.ver'', 16), (''pxcap.dpt'', 20), (''pxcap.si'', 24), (''pxcap.imn'', 25),
      (''pxcap.rsvd'', 30), (''pxdcap.mps'', 32), (''pxdcap.pfs'', 35), (''pxdcap.etfs'', 37), (''pxdcap.l0sl'', 38),
      (''pxdcap.l1l'', 41), (''pxdcap.rsvd'', 44), (''pxdcap.rer'', 47), (''pxdcap.rsvd2'', 48), (''pxdcap.csplv'', 50),
      (''pxdcap.cspls'', 58), (''pxdcap.flrc'', 60), (''pxdcap.rsvd3'', 61), (''pxdc.cere'', 64), (''pxdc.nfere'', 65),
      (''pxdc.fere'', 66), (''pxdc.urre'', 68), (''pxdc.ero'', 69), (''pxdc.mps'', 70), (''pxdc.ete'', 73), (''pxdc.pfe'', 74),
      (''pxdc.appme'', 75), (''pxdc.ens'', 76), (''pxdc.mrrs'', 77), (''pxdc.iflr'', 80), (''pxds.ced'', 96),
      (''pxds.nfed'', 97), (''pxds.fed'', 98), (''pxds.urd'', 99), (''pxds.apd'', 100), (''pxds.tp'', 101), (''pxds.rsvd'', 102),
      (''pxlcap.sls'', 128), (''pxlcap.mlw'', 132), (''pxlcap.aspms'', 138), (''pxlcap.l0sel'', 140), (''pxlcap.l1el'', 143),
      (''pxlcap.cpm'', 146), (''pxlcap.sderc'', 147), (''pxlcap.dllla'', 160), (''pxlcap.lbnc'', 180), (''pxlcap.aoc'', 181),
      (''pxlcap.rsvd'', 182), (''pxlcap.pn'', 183), (''pxlc.aspmc'', 192), (''pxlc.rsvd'', 194), (''pxlc.rcb'', 195),
      (''pxlc.rsvd2'', 196), (''pxlc.ccc'', 198), (''pxlc.es'', 199), (''pxlc.ecpm'', 200), (''pxlc.hawd'', 201),
      (''pxlc.rsvd3'', 202), (''pxls.clc'', 208), (''pxls.nlw'', 212), (''pxls.rsvd'', 218), (''pxls.scc'', 220),
      (''pxls.rsvd2'', 221), (''pxdcap2.ctrs'', 224), (''pxdcap2.ctds'', 228), (''pxdcap2.arifs'', 229), (''pxdcap2.aors'', 230),
      (''pxdcap2.aocs32'', 231), (''pxdcap2.aocs'', 232), (''pxdcap2.ccs128'', 233), (''pxdcap2.nprpr'', 234),
      (''pxdcap2.ltrs'', 235), (''pxdcap2.tphcs'', 236), (''pxdcap2.rsvd'', 238), (''pxdcap2.obffs'', 242),
      (''pxdcap2.effs'', 244), (''pxdcap2.eetps'', 245), (''pxdcap2.meetp'', 246), (''pxdcap2.rsvd2'', 248),
      (''pxdc2.ctv'', 256), (''pxdc2.ctd'', 260), (''pxdc2.rsvd'', 261), (''pxdc2.ltrme'', 266), (''pxdc2.rsvd2'', 267),
      (''pxdc2.obffe'', 269), (''pxdc2.rsvd3'', 271)]"
  by (simp add: pcie_cap_def align_field_def field_at_def)

section \<open>Fields\<close>

definition get_word :: "nat \<Rightarrow> nat \<Rightarrow> memory \<Rightarrow> nat" where
  "get_word n off m = le_number (read_bytes m off n)"

definition put_word :: "nat \<Rightarrow> nat \<Rightarrow> nat \<Rightarrow> memory \<Rightarrow> memory" where
  "put_word n off v m = write_bytes m off (le_bytes n v)"

definition put_bits :: "nat \<Rightarrow> nat \<Rightarrow> nat \<Rightarrow> nat \<Rightarrow> nat" where
  "put_bits lo w v x = x div 2 ^ (lo + w) * 2 ^ (lo + w) + v mod 2 ^ w * 2 ^ lo + x mod 2 ^ lo"

definition put_field :: "nat \<Rightarrow> nat \<Rightarrow> nat \<Rightarrow> nat \<Rightarrow> nat \<Rightarrow> memory \<Rightarrow> memory" where
  "put_field n off lo w v m = put_word n off (put_bits lo w v (get_word n off m)) m"

definition OFFS_PCI_HDR :: nat where "OFFS_PCI_HDR = 0"
definition OFFS_PCI_PM_CAP :: nat where "OFFS_PCI_PM_CAP = 0x40"
definition OFFS_PCI_MSIX_CAP :: nat where "OFFS_PCI_MSIX_CAP = 0x50"
definition OFFS_PCIE_CAP :: nat where "OFFS_PCIE_CAP = 0x60"
definition PCI_CFG_SPACE_SIZE :: nat where "PCI_CFG_SPACE_SIZE = 256"
definition OFFS_PCI_EXT_CAP :: nat where "OFFS_PCI_EXT_CAP = PCI_CFG_SPACE_SIZE"

definition NVMEV_DEVICE_ID :: nat where "NVMEV_DEVICE_ID = 0x0110"
definition NVMEV_VENDOR_ID :: nat where "NVMEV_VENDOR_ID = 0x0c51"
definition NVMEV_SUBSYSTEM_ID :: nat where "NVMEV_SUBSYSTEM_ID = 0x370d"
definition NVMEV_INTX_IRQ :: nat where "NVMEV_INTX_IRQ = 15"
definition MAX_IO_QUEUES :: nat where "MAX_IO_QUEUES = 72"

text \<open>Numbers of the PCI specification, as the kernel's header names them.\<close>

definition PCI_COMMAND :: nat where "PCI_COMMAND = 0x04"
definition PCI_STATUS :: nat where "PCI_STATUS = 0x06"
definition PCI_BIST :: nat where "PCI_BIST = 0x0f"
definition PCI_BASE_ADDRESS_0 :: nat where "PCI_BASE_ADDRESS_0 = 0x10"
definition PCI_INTERRUPT_LINE :: nat where "PCI_INTERRUPT_LINE = 0x3c"
definition PCI_MSIX_FLAGS :: nat where "PCI_MSIX_FLAGS = 2"
definition PCI_COMMAND_INTX_DISABLE :: "32 word" where "PCI_COMMAND_INTX_DISABLE = 0x400"
definition PCI_BIST_START :: "32 word" where "PCI_BIST_START = 0x40"
definition PCI_MSIX_FLAGS_MASKALL :: "32 word" where "PCI_MSIX_FLAGS_MASKALL = 0x4000"
definition PCI_MSIX_FLAGS_ENABLE :: "32 word" where "PCI_MSIX_FLAGS_ENABLE = 0x8000"
definition PCI_CAP_ID_PM :: nat where "PCI_CAP_ID_PM = 1"
definition PCI_CAP_ID_MSIX :: nat where "PCI_CAP_ID_MSIX = 0x11"
definition PCI_CAP_ID_EXP :: nat where "PCI_CAP_ID_EXP = 0x10"

section \<open>The settings\<close>

text \<open>The functions get a pointer into the page; \<open>o\<close> is its offset.\<close>

definition PCI_HEADER_SETTINGS :: "nat \<Rightarrow> nat \<Rightarrow> memory \<Rightarrow> memory" where
  "PCI_HEADER_SETTINGS h base_pa m0 = (
     let m1 = put_word 2 (h + 2) NVMEV_DEVICE_ID m0;
         m2 = put_word 2 h NVMEV_VENDOR_ID m1;
         m3 = put_field 1 (h + 4) 1 1 1 m2;
         m4 = put_field 1 (h + 6) 4 1 1 m3;
         m5 = put_field 1 (h + 14) 7 1 0 m4;
         m6 = put_field 1 (h + 14) 0 7 0 m5;
         m7 = put_word 1 (h + 8) 1 m6;
         m8 = put_word 1 (h + 11) 1 m7;
         m9 = put_word 1 (h + 10) 8 m8;
         m10 = put_word 1 (h + 9) 2 m9;
         m11 = put_field 4 (h + 16) 1 2 (4 div 2) m10;
         m12 = put_field 4 (h + 16) 14 18 (base_pa mod 2 ^ 32 div 2 ^ 14) m11;
         m13 = put_word 4 (h + 20) (base_pa div 2 ^ 32) m12;
         m14 = put_word 2 (h + 46) NVMEV_SUBSYSTEM_ID m13;
         m15 = put_word 2 (h + 44) NVMEV_VENDOR_ID m14;
         m16 = put_word 4 (h + 48) 0 m15;
         m17 = put_word 1 (h + 52) OFFS_PCI_PM_CAP m16;
         m18 = put_word 1 (h + 61) 0 m17
     in put_word 1 (h + 60) NVMEV_INTX_IRQ m18)"

definition PCI_PMCAP_SETTINGS :: "nat \<Rightarrow> memory \<Rightarrow> memory" where
  "PCI_PMCAP_SETTINGS c m0 = (
     let m1 = put_word 1 c PCI_CAP_ID_PM m0;
         m2 = put_word 1 (c + 1) OFFS_PCI_MSIX_CAP m1;
         m3 = put_field 2 (c + 2) 0 3 3 m2;
         m4 = put_field 2 (c + 4) 3 1 1 m3
     in put_field 2 (c + 4) 0 2 (0x0800 div 2 ^ 16) m4)"

definition PCI_MSIXCAP_SETTINGS :: "nat \<Rightarrow> memory \<Rightarrow> memory" where
  "PCI_MSIXCAP_SETTINGS c m0 = (
     let m1 = put_word 1 c PCI_CAP_ID_MSIX m0;
         m2 = put_word 1 (c + 1) OFFS_PCIE_CAP m1;
         m3 = put_field 2 (c + 2) 15 1 1 m2;
         m4 = put_field 2 (c + 2) 0 11 127 m3;
         m5 = put_field 4 (c + 4) 0 3 0 m4;
         m6 = put_field 4 (c + 4) 3 29 0x400 m5;
         m7 = put_field 4 (c + 8) 3 29 0x1000 m6
     in put_field 4 (c + 8) 0 3 0 m7)"

definition PCI_PCIECAP_SETTINGS :: "nat \<Rightarrow> memory \<Rightarrow> memory" where
  "PCI_PCIECAP_SETTINGS c m0 = (
     let m1 = put_word 1 c PCI_CAP_ID_EXP m0;
         m2 = put_word 1 (c + 1) 0 m1;
         m3 = put_field 1 (c + 2) 0 4 2 m2;
         m4 = put_field 1 (c + 3) 1 5 0 m3;
         m5 = put_field 1 (c + 2) 4 4 0 m4;
         m6 = put_field 4 (c + 4) 0 3 1 m5;
         m7 = put_field 4 (c + 4) 3 2 0 m6;
         m8 = put_field 4 (c + 4) 5 1 1 m7;
         m9 = put_field 4 (c + 4) 6 3 6 m8;
         m10 = put_field 4 (c + 4) 9 3 2 m9;
         m11 = put_field 4 (c + 4) 15 1 1 m10;
         m12 = put_field 4 (c + 4) 18 8 0 m11;
         m13 = put_field 4 (c + 4) 26 2 0 m12
     in put_field 4 (c + 4) 28 1 1 m13)"

definition ext_cap :: "nat \<Rightarrow> nat \<Rightarrow> nat \<Rightarrow> memory \<Rightarrow> memory" where
  "ext_cap c cid nxt m = put_field 2 (c + 2) 4 12 nxt (put_field 2 (c + 2) 0 4 1 (put_word 2 c cid m))"

definition PCI_EXTCAP_SETTINGS :: "nat \<Rightarrow> memory \<Rightarrow> memory" where
  "PCI_EXTCAP_SETTINGS b m = (
     ext_cap (b + 0x1a0) 0x19 0
    (ext_cap (b + 0x170) 3 (PCI_CFG_SPACE_SIZE + 0x1a0)
    (ext_cap (b + 0x90) 0x0e (PCI_CFG_SPACE_SIZE + 0x170)
    (ext_cap (b + 0x80) 4 (PCI_CFG_SPACE_SIZE + 0x90)
    (ext_cap (b + 0x50) 2 (PCI_CFG_SPACE_SIZE + 0x80)
    (ext_cap b 1 (PCI_CFG_SPACE_SIZE + 0x50) m))))))"

definition pci_settings :: "nat \<Rightarrow> memory \<Rightarrow> memory" where
  "pci_settings memmap_start m =
     PCI_EXTCAP_SETTINGS OFFS_PCI_EXT_CAP (PCI_PCIECAP_SETTINGS OFFS_PCIE_CAP (PCI_MSIXCAP_SETTINGS OFFS_PCI_MSIX_CAP
       (PCI_PMCAP_SETTINGS OFFS_PCI_PM_CAP (PCI_HEADER_SETTINGS OFFS_PCI_HDR memmap_start m))))"

section \<open>Accesses of the host\<close>

text \<open>The part of \<^verbatim>\<open>struct nvmev\_dev\<close> that belongs to PCI.  \<open>pv_msix\<close> is the flag \<^verbatim>\<open>msix\_enabled\<close> of the kernel's device
  structure, None while there is none.\<close>

record pci_vdev =
  pv_virt_bus :: "nat option"
  pv_virtDev :: memory
  pv_msix :: "bool option"
  pv_intx_disabled :: bool
  pv_irq :: nat

fun find_from :: "nat \<Rightarrow> nat option \<Rightarrow> pci_vdev list \<Rightarrow> nat \<Rightarrow> nat option" where
  "find_from i first_NULL [] bus = first_NULL"
| "find_from i first_NULL (d # ds) bus = (
     let first_NULL = (if first_NULL = None \<and> pv_virt_bus d = None then Some i else first_NULL)
     in if pv_virt_bus d = Some bus then Some i else find_from (i + 1) first_NULL ds bus)"

definition find_nvmev :: "pci_vdev list \<Rightarrow> nat \<Rightarrow> nat option" where
  "find_nvmev devs bus = find_from 0 None devs bus"

text \<open>The copy of up to four bytes from or to the page; \<^verbatim>\<open>u32\<close> values are little endian.\<close>

definition config_get :: "memory \<Rightarrow> nat \<Rightarrow> nat \<Rightarrow> 32 word \<Rightarrow> 32 word option" where
  "config_get m pos n val = do {
     nvmev_assert (n \<le> 4 \<and> pos + n \<le> PAGE_SIZE);
     Some (of_nat (le_number (read_bytes m pos n @ drop n (le_bytes 4 (unat val)))))
   }"

definition config_put :: "memory \<Rightarrow> nat \<Rightarrow> nat \<Rightarrow> 32 word \<Rightarrow> memory option" where
  "config_put m pos n val = do {
     nvmev_assert (n \<le> 4 \<and> pos + n \<le> PAGE_SIZE);
     Some (write_bytes m pos (take n (le_bytes 4 (unat val))))
   }"

definition nvmev_pci_read :: "pci_vdev list \<Rightarrow> nat \<Rightarrow> nat \<Rightarrow> nat \<Rightarrow> nat \<Rightarrow> 32 word \<Rightarrow> (nat \<times> 32 word) option" where
  "nvmev_pci_read devs bus devfn pos n val =
    (if devfn \<noteq> 0 then Some (1, val)
     else do {
       i \<leftarrow> find_nvmev devs bus;
       d \<leftarrow> array_read devs i;
       v \<leftarrow> config_get (pv_virtDev d) pos n val;
       Some (0, v)
     })"

definition write_mask :: "nat \<Rightarrow> 32 word" where
  "write_mask pos =
    (if pos < OFFS_PCI_PM_CAP then
       (if pos = PCI_COMMAND then PCI_COMMAND_INTX_DISABLE
        else if pos = PCI_STATUS then 0xF200
        else if pos = PCI_BIST then PCI_BIST_START
        else if pos = PCI_BASE_ADDRESS_0 then 0xFFFFC000
        else if pos = PCI_INTERRUPT_LINE then 0xFF
        else 0)
     else if pos < OFFS_PCI_MSIX_CAP then - 1
     else if pos < OFFS_PCIE_CAP then
       (if pos - OFFS_PCI_MSIX_CAP = PCI_MSIX_FLAGS then PCI_MSIX_FLAGS_MASKALL OR PCI_MSIX_FLAGS_ENABLE else 0)
     else - 1)"

text \<open>What a write does beside storing the value.\<close>

definition write_effect :: "nat \<Rightarrow> 32 word \<Rightarrow> 32 word \<Rightarrow> pci_vdev \<Rightarrow> pci_vdev" where
  "write_effect pos val new d =
    (if pos = PCI_COMMAND \<and> (val XOR new) AND PCI_COMMAND_INTX_DISABLE \<noteq> 0 then
       (if new AND PCI_COMMAND_INTX_DISABLE \<noteq> 0 then d\<lparr>pv_intx_disabled := True\<rparr>
        else d\<lparr>pv_intx_disabled := False, pv_virtDev := put_field 1 (OFFS_PCI_HDR + 6) 3 1 0 (pv_virtDev d)\<rparr>)
     else if pos = OFFS_PCI_MSIX_CAP + PCI_MSIX_FLAGS \<and> pv_msix d \<noteq> None \<and> (val XOR new) AND PCI_MSIX_FLAGS_ENABLE \<noteq> 0 then
       d\<lparr>pv_msix := Some (new AND PCI_MSIX_FLAGS_ENABLE \<noteq> 0)\<rparr>
     else d)"

definition pci_write :: "nat \<Rightarrow> nat \<Rightarrow> 32 word \<Rightarrow> pci_vdev \<Rightarrow> pci_vdev option" where
  "pci_write pos n new d = do {
     val \<leftarrow> config_get (pv_virtDev d) pos n 0;
     let d1 = write_effect pos val new d;
     let mask = write_mask pos;
     m \<leftarrow> config_put (pv_virtDev d1) pos n ((val AND NOT mask) OR (new AND mask));
     Some (d1\<lparr>pv_virtDev := m\<rparr>)
   }"

text \<open>Unlike a read, a write does not look at the function number.\<close>

definition nvmev_pci_write :: "pci_vdev list \<Rightarrow> nat \<Rightarrow> nat \<Rightarrow> nat \<Rightarrow> nat \<Rightarrow> 32 word \<Rightarrow> (pci_vdev list \<times> nat) option" where
  "nvmev_pci_write devs bus devfn pos n new = do {
     i \<leftarrow> find_nvmev devs bus;
     d \<leftarrow> array_read devs i;
     d' \<leftarrow> pci_write pos n new d;
     Some (devs[i := d'], 0)
   }"

section \<open>Interrupts\<close>

text \<open>\<open>entries\<close> are the message signalled interrupts the kernel holds for the device, with their numbers.\<close>

definition process_msi_irq :: "(nat \<times> nat) list \<Rightarrow> nat \<Rightarrow> nat list" where
  "process_msi_irq entries msi_index = (case map_of entries msi_index of None \<Rightarrow> [] | Some irq \<Rightarrow> [irq])"

definition nvmev_signal_irq :: "(nat \<times> nat) list \<Rightarrow> nat \<Rightarrow> pci_vdev \<Rightarrow> (pci_vdev \<times> nat list) option" where
  "nvmev_signal_irq entries msi_index d = do {
     msix \<leftarrow> pv_msix d;
     Some (if msix then (d, process_msi_irq entries msi_index)
           else (d\<lparr>pv_virtDev := put_field 1 (OFFS_PCI_HDR + 6) 3 1 1 (pv_virtDev d)\<rparr>, [pv_irq d]))
   }"

section \<open>The registers of the controller\<close>

text \<open>The two pages of the registers and doorbells at \<open>start\<close>, the table of message signalled interrupts behind them.
  \<open>zns\<close> says whether the module was built with zones.\<close>

definition init_nvme_ctrl_regs :: "bool \<Rightarrow> nat \<Rightarrow> memory \<Rightarrow> memory" where
  "init_nvme_ctrl_regs zns start m0 = (
     let m1 = write_bytes m0 start (replicate (2 * PAGE_SIZE) 0);
         m2 = put_field 2 (start + 2) 8 8 1 m1;
         m3 = put_field 2 (start + 6) 0 4 0 m2;
         m4 = put_word 2 start (1024 - 1) m3;
         m5 = (if zns then put_field 2 (start + 4) 5 8 64 m4 else m4);
         m6 = put_word 2 (start + 10) 1 m5
     in put_word 1 (start + 9) 0 m6)"

record ctrl_pages =
  cp_mem :: memory
  cp_old_dbs :: memory
  cp_old_bar :: memory

text \<open>The copies the dispatcher compares with start as pages of zeros, of which the first 4 and 64 bytes are filled.\<close>

definition setup_ctrl_regs :: "bool \<Rightarrow> nat \<Rightarrow> memory \<Rightarrow> ctrl_pages" where
  "setup_ctrl_regs zns start m0 = (
     let m = init_nvme_ctrl_regs zns start m0
     in \<lparr>cp_mem = write_bytes m (start + 2 * PAGE_SIZE) (replicate (MAX_IO_QUEUES * 16) 0),
         cp_old_dbs = write_bytes (\<lambda>_. 0) 0 (read_bytes m (start + PAGE_SIZE) 4),
         cp_old_bar = write_bytes (\<lambda>_. 0) 0 (read_bytes m start 64)\<rparr>)"

text \<open>A fresh device: a page of zeros, and no bus, device or interrupt yet.\<close>

definition VDEV_INIT :: pci_vdev where
  "VDEV_INIT = \<lparr>pv_virt_bus = None, pv_virtDev = (\<lambda>_. 0), pv_msix = None, pv_intx_disabled = False, pv_irq = 0\<rparr>"

text \<open>While the kernel scans the new bus it reads and writes the configuration space; \<open>scan\<close> stands for these writes.  What
  it finds becomes the device, with the base address it has read.\<close>

definition pci_scan :: "(nat \<times> nat \<times> 32 word) list \<Rightarrow> pci_vdev \<Rightarrow> pci_vdev option" where
  "pci_scan scan d = foldM (\<lambda>(pos, n, new). pci_write pos n new) scan d"

definition create_pci_bus :: "nat \<Rightarrow> (nat \<times> nat \<times> 32 word) list \<Rightarrow> pci_vdev \<Rightarrow> pci_vdev option" where
  "create_pci_bus bus scan d = do {
     d1 \<leftarrow> pci_scan scan d;
     Some (d1\<lparr>pv_msix := Some False, pv_irq := get_word 1 (OFFS_PCI_HDR + 60) (pv_virtDev d1), pv_virt_bus := Some bus\<rparr>)
   }"

definition NVMEV_PCI_INIT :: "nat \<Rightarrow> nat \<Rightarrow> (nat \<times> nat \<times> 32 word) list \<Rightarrow> pci_vdev \<Rightarrow> pci_vdev option" where
  "NVMEV_PCI_INIT memmap_start bus scan d =
     create_pci_bus bus scan (d\<lparr>pv_virtDev := pci_settings memmap_start (pv_virtDev d), pv_intx_disabled := False\<rparr>)"

end
