(* ===== verification/Pci_Props.thy ===== *)
theory Pci_Props
  imports Pci_Config
begin

unbundle bit_operations_syntax

text \<open>What a host finds in the configuration space, and what its writes can and cannot change.\<close>

section \<open>Words in memory\<close>

lemma read_write_bytes_same: "length bs = n \<Longrightarrow> read_bytes (write_bytes m a bs) a n = bs"
  by (auto simp: read_bytes_def write_bytes_def intro: nth_equalityI)

lemma read_write_bytes_apart: "a + n \<le> b \<or> b + length bs \<le> a \<Longrightarrow> read_bytes (write_bytes m b bs) a n = read_bytes m a n"
  by (auto simp: read_bytes_def write_bytes_def)

lemma le_number_less: "le_number bs < 256 ^ length bs"
proof (induction bs)
  case (Cons b bs)
  have "unat b < 256" using unsigned_less[of b] by simp
  then show ?case using Cons by (simp add: le_number_def)
qed (simp add: le_number_def)

lemma get_word_less: "get_word n off m < 256 ^ n"
  using le_number_less[of "read_bytes m off n"] by (simp add: get_word_def read_bytes_def)

lemma get_put_same [simp]: "get_word n off (put_word n off v m) = v mod 256 ^ n"
  by (simp add: get_word_def put_word_def read_write_bytes_same le_number_le_bytes)

lemma get_put_apart [simp]: "a + n \<le> b \<or> b + k \<le> a \<Longrightarrow> get_word n a (put_word k b v m) = get_word n a m"
  by (simp add: get_word_def put_word_def read_write_bytes_apart)

lemma put_bits_less:
  assumes "x < 2 ^ k" "lo + w \<le> k"
  shows "put_bits lo w v x < 2 ^ k"
proof -
  have k: "(2::nat) ^ k = 2 ^ (k - (lo + w)) * 2 ^ (lo + w)" using assms(2) by (simp flip: power_add)
  have "x div 2 ^ (lo + w) < 2 ^ (k - (lo + w))"
    using assms(1) k by (metis div_less_iff_less_mult zero_less_numeral zero_less_power)
  then have a: "x div 2 ^ (lo + w) * 2 ^ (lo + w) + 2 ^ (lo + w) \<le> 2 ^ k"
    unfolding k by (metis Suc_leI add.commute mult_Suc mult_le_mono1)
  have "v mod 2 ^ w * 2 ^ lo + 2 ^ lo \<le> 2 ^ w * 2 ^ lo"
    by (metis Suc_leI add.commute mod_less_divisor mult_Suc mult_le_mono1 zero_less_numeral zero_less_power)
  moreover have "x mod 2 ^ lo < 2 ^ lo" by simp
  ultimately have "v mod 2 ^ w * 2 ^ lo + x mod 2 ^ lo < 2 ^ w * 2 ^ lo" by linarith
  then have "v mod 2 ^ w * 2 ^ lo + x mod 2 ^ lo < 2 ^ (lo + w)" by (simp only: power_add mult.commute)
  then show ?thesis using a by (simp add: put_bits_def)
qed

lemma get_field_same [simp]:
  "lo + w \<le> 8 * n \<Longrightarrow> get_word n off (put_field n off lo w v m) = put_bits lo w v (get_word n off m)"
  using put_bits_less[of "get_word n off m" "8 * n" lo w v] get_word_less[of n off m]
  by (simp add: put_field_def power_mult)

lemma get_field_apart [simp]: "a + n \<le> b \<or> b + k \<le> a \<Longrightarrow> get_word n a (put_field k b lo w v m) = get_word n a m"
  by (simp add: put_field_def)

lemma get_word_zero [simp]: "get_word n a (\<lambda>_. 0) = 0"
  by (induction n) (simp_all add: get_word_def read_bytes_def le_number_def)

lemma get_word_bytes:
  "get_word 2 a m = get_word 1 a m + 256 * get_word 1 (a + 1) m"
  "get_word 4 a m = get_word 2 a m + 65536 * get_word 2 (a + 2) m"
  by (simp_all add: get_word_def read_bytes_def le_number_def upt_rec add.assoc)

lemma config_get_0:
  assumes "n \<le> 4" "pos + n \<le> PAGE_SIZE"
  shows "config_get m pos n 0 = Some (of_nat (get_word n pos m))"
proof -
  have "le_number (bs @ replicate k 0) = le_number bs" for bs :: bytes and k
    by (induction bs) (induction k, simp_all add: le_number_def)+
  moreover have "le_bytes 4 0 = replicate 4 0" by (simp add: le_bytes_def map_replicate_trivial numeral_eq_Suc)
  ultimately show ?thesis using assms by (simp add: config_get_def get_word_def)
qed

section \<open>The host's view\<close>

text \<open>A host walks the list of capabilities from the pointer in the header, as the specification says: a byte with the kind
  and a byte with the place of the next one.  The list of extended capabilities has words of two bytes.\<close>

definition host_read :: "pci_vdev list \<Rightarrow> nat \<Rightarrow> nat \<Rightarrow> nat \<Rightarrow> nat option" where
  "host_read devs bus pos n = do { (r, v) \<leftarrow> nvmev_pci_read devs bus 0 pos n 0; Some (unat v) }"

fun walk_caps :: "nat \<Rightarrow> pci_vdev list \<Rightarrow> nat \<Rightarrow> nat \<Rightarrow> (nat \<times> nat) list option" where
  "walk_caps 0 devs bus p = None"
| "walk_caps (Suc fuel) devs bus p =
    (if p = 0 then Some []
     else do {
       cid \<leftarrow> host_read devs bus p 1;
       nxt \<leftarrow> host_read devs bus (p + 1) 1;
       caps \<leftarrow> walk_caps fuel devs bus nxt;
       Some ((p, cid) # caps)
     })"

definition capabilities :: "pci_vdev list \<Rightarrow> nat \<Rightarrow> (nat \<times> nat) list option" where
  "capabilities devs bus = do { p \<leftarrow> host_read devs bus 52 1; walk_caps 48 devs bus p }"

fun walk_ext_caps :: "nat \<Rightarrow> pci_vdev list \<Rightarrow> nat \<Rightarrow> nat \<Rightarrow> (nat \<times> nat) list option" where
  "walk_ext_caps 0 devs bus p = None"
| "walk_ext_caps (Suc fuel) devs bus p =
    (if p < PCI_CFG_SPACE_SIZE then Some []
     else do {
       cid \<leftarrow> host_read devs bus p 2;
       w \<leftarrow> host_read devs bus (p + 2) 2;
       caps \<leftarrow> walk_ext_caps fuel devs bus (w div 16);
       Some ((p, cid) # caps)
     })"

definition on_bus :: "pci_vdev list \<Rightarrow> nat \<Rightarrow> pci_vdev \<Rightarrow> bool" where
  "on_bus devs bus d \<longleftrightarrow> (\<exists>i. find_nvmev devs bus = Some i \<and> i < length devs \<and> devs ! i = d)"

lemma host_read_eq:
  assumes "on_bus devs bus d" "n \<in> {1, 2, 4}" "pos + n \<le> PAGE_SIZE"
  shows "host_read devs bus pos n = Some (get_word n pos (pv_virtDev d))"
proof -
  have "get_word n pos (pv_virtDev d) < 2 ^ 32"
    using get_word_less[of n pos "pv_virtDev d"] assms(2) by auto
  then have "unat (of_nat (get_word n pos (pv_virtDev d)) :: 32 word) = get_word n pos (pv_virtDev d)"
    by (simp add: unat_of_nat)
  then show ?thesis using assms by (auto simp: host_read_def nvmev_pci_read_def on_bus_def config_get_0)
qed

lemmas setting_defs = PCI_HEADER_SETTINGS_def PCI_PMCAP_SETTINGS_def PCI_MSIXCAP_SETTINGS_def PCI_PCIECAP_SETTINGS_def
  PCI_EXTCAP_SETTINGS_def ext_cap_def Let_def OFFS_PCI_HDR_def OFFS_PCI_PM_CAP_def OFFS_PCI_MSIX_CAP_def OFFS_PCIE_CAP_def
  OFFS_PCI_EXT_CAP_def PCI_CFG_SPACE_SIZE_def NVMEV_DEVICE_ID_def NVMEV_VENDOR_ID_def NVMEV_SUBSYSTEM_ID_def NVMEV_INTX_IRQ_def
  PCI_CAP_ID_PM_def PCI_CAP_ID_MSIX_def PCI_CAP_ID_EXP_def

text \<open>The words of the configuration space after the settings.\<close>

lemma settings_header:
  "get_word 2 0 (pci_settings base (\<lambda>_. 0)) = 0x0c51" "get_word 2 2 (pci_settings base (\<lambda>_. 0)) = 0x0110"
  "get_word 1 9 (pci_settings base (\<lambda>_. 0)) = 2" "get_word 1 10 (pci_settings base (\<lambda>_. 0)) = 8"
  "get_word 1 11 (pci_settings base (\<lambda>_. 0)) = 1" "get_word 1 14 (pci_settings base (\<lambda>_. 0)) = 0"
  "get_word 1 52 (pci_settings base (\<lambda>_. 0)) = 64" "get_word 1 60 (pci_settings base (\<lambda>_. 0)) = 15"
  "get_word 4 20 (pci_settings base (\<lambda>_. 0)) = base div 2 ^ 32 mod 2 ^ 32"
  "get_word 4 16 (pci_settings base (\<lambda>_. 0)) = base mod 2 ^ 32 div 2 ^ 14 * 2 ^ 14 + 4"
  by (simp_all add: pci_settings_def setting_defs del: add_2_eq_Suc add_2_eq_Suc') (simp_all add: put_bits_def)

lemma settings_caps:
  "get_word 1 64 (pci_settings base (\<lambda>_. 0)) = 1" "get_word 1 65 (pci_settings base (\<lambda>_. 0)) = 80"
  "get_word 1 80 (pci_settings base (\<lambda>_. 0)) = 17" "get_word 1 81 (pci_settings base (\<lambda>_. 0)) = 96"
  "get_word 1 96 (pci_settings base (\<lambda>_. 0)) = 16" "get_word 1 97 (pci_settings base (\<lambda>_. 0)) = 0"
  "get_word 2 82 (pci_settings base (\<lambda>_. 0)) = 0x807f"
  "get_word 4 84 (pci_settings base (\<lambda>_. 0)) = 0x2000" "get_word 4 88 (pci_settings base (\<lambda>_. 0)) = 0x8000"
  by (simp_all add: pci_settings_def setting_defs del: add_2_eq_Suc add_2_eq_Suc') (simp_all add: put_bits_def)

lemma settings_ext:
  "get_word 2 256 (pci_settings base (\<lambda>_. 0)) = 1" "get_word 2 258 (pci_settings base (\<lambda>_. 0)) = 0x1501"
  "get_word 2 336 (pci_settings base (\<lambda>_. 0)) = 2" "get_word 2 338 (pci_settings base (\<lambda>_. 0)) = 0x1801"
  "get_word 2 384 (pci_settings base (\<lambda>_. 0)) = 4" "get_word 2 386 (pci_settings base (\<lambda>_. 0)) = 0x1901"
  "get_word 2 400 (pci_settings base (\<lambda>_. 0)) = 14" "get_word 2 402 (pci_settings base (\<lambda>_. 0)) = 0x2701"
  "get_word 2 624 (pci_settings base (\<lambda>_. 0)) = 3" "get_word 2 626 (pci_settings base (\<lambda>_. 0)) = 0x2a01"
  "get_word 2 672 (pci_settings base (\<lambda>_. 0)) = 25" "get_word 2 674 (pci_settings base (\<lambda>_. 0)) = 1"
  by (simp_all add: pci_settings_def setting_defs del: add_2_eq_Suc add_2_eq_Suc') (simp_all add: put_bits_def)


section \<open>Bits\<close>

lemma bit_div_pow: "bit (x div 2 ^ k) j \<longleftrightarrow> bit (x :: nat) (k + j)"
  by (simp add: bit_drop_bit_eq flip: drop_bit_eq_div)

lemma bit_mod_pow: "j < k \<Longrightarrow> bit (x mod 2 ^ k) j \<longleftrightarrow> bit (x :: nat) j"
  by (simp add: bit_take_bit_iff flip: take_bit_eq_mod)

lemma bit_of_nat_word: "bit (of_nat n :: 'a::len word) j \<longleftrightarrow> j < LENGTH('a) \<and> bit n j"
  by transfer (simp add: bit_take_bit_iff bit_of_nat_iff)

lemma bit_le_byte:
  assumes "j < 8"
  shows "bit (of_nat (unat (v :: 32 word) div 256 ^ i) :: 8 word) j \<longleftrightarrow> bit v (8 * i + j)"
proof -
  have "(256 :: nat) ^ i = 2 ^ (8 * i)" by (simp add: power_mult)
  then show ?thesis using assms by (auto simp: bit_of_nat_word bit_div_pow bit_unsigned_iff dest: bit_imp_le_length)
qed

lemma bit_le_number:
  "i < length bs \<Longrightarrow> j < 8 \<Longrightarrow> bit (le_number bs) (8 * i + j) \<longleftrightarrow> bit (bs ! i) j"
proof (induction bs arbitrary: i)
  case (Cons b bs)
  let ?x = "unat b + 2 ^ 8 * le_number bs"
  have x: "le_number (b # bs) = ?x" by (simp add: le_number_def)
  have b: "unat b < 2 ^ 8" using unsigned_less[of b] by simp
  show ?case
  proof (cases i)
    case 0
    have "bit ?x j = bit (?x mod 2 ^ 8) j" using Cons.prems(2) by (simp only: bit_mod_pow)
    also have "?x mod 2 ^ 8 = unat b" using b by simp
    finally show ?thesis using 0 Cons.prems(2) by (simp add: x bit_unsigned_iff)
  next
    case (Suc k)
    have "?x div 2 ^ 8 = le_number bs" using b by simp
    moreover have "bit ?x (8 * i + j) = bit (?x div 2 ^ 8) (8 * k + j)" by (simp only: bit_div_pow Suc) (simp add: add.assoc)
    ultimately show ?thesis using Suc Cons by (simp add: x)
  qed
qed simp

lemma bit_put_bits:
  assumes "j < lo \<or> lo + w \<le> j"
  shows "bit (put_bits lo w v x) j \<longleftrightarrow> bit x j"
proof -
  let ?r = "v mod 2 ^ w * 2 ^ lo + x mod 2 ^ lo"
  have p: "put_bits lo w v x = x div 2 ^ (lo + w) * 2 ^ (lo + w) + ?r" by (simp add: put_bits_def)
  from assms show ?thesis
  proof
    assume j: "j < lo"
    have "put_bits lo w v x = (x div 2 ^ (lo + w) * 2 ^ w + v mod 2 ^ w) * 2 ^ lo + x mod 2 ^ lo"
      by (simp add: put_bits_def power_add algebra_simps)
    then have "put_bits lo w v x mod 2 ^ lo = x mod 2 ^ lo" by simp
    then show ?thesis using bit_mod_pow[OF j] by metis
  next
    assume j: "lo + w \<le> j"
    have "?r < 2 ^ (lo + w)" using put_bits_less[of 0 "lo + w" lo w v] put_bits_less[of "x mod 2 ^ lo" "lo + w" lo w v]
      by (simp add: put_bits_def less_le_trans[OF mod_less_divisor])
    then have "put_bits lo w v x div 2 ^ (lo + w) = x div 2 ^ (lo + w)" by (simp add: p)
    then show ?thesis using bit_div_pow[of _ "lo + w" "j - (lo + w)"] j by (metis le_add_diff_inverse)
  qed
qed

section \<open>What the host can change\<close>

text \<open>Byte and bit of what a host can write in the header and in the capability of message signalled interrupts: the
  disabling of the interrupt pin, five bits of the status and the interrupt status, the start of the self test, the base
  address above 16 KiB, the interrupt line, the enabling and masking of the messages.\<close>

definition host_writable :: "(nat \<times> nat) list" where
  "host_writable = [(5, 2), (6, 3), (7, 1), (7, 4), (7, 5), (7, 6), (7, 7), (15, 6), (17, 6), (17, 7)] @
     [(a, j). a \<leftarrow> [18, 19, 60], j \<leftarrow> [0..<8]] @ [(83, 6), (83, 7)]"

definition aligned_access :: "nat \<Rightarrow> nat \<Rightarrow> bool" where
  "aligned_access pos n \<longleftrightarrow> n \<in> {1, 2, 4} \<and> n dvd pos \<and> pos + n \<le> PAGE_SIZE"

definition guarded :: "nat \<Rightarrow> bool" where
  "guarded a \<longleftrightarrow> a < OFFS_PCI_PM_CAP \<or> OFFS_PCI_MSIX_CAP \<le> a \<and> a < OFFS_PCIE_CAP"

lemma mask_bits:
  "\<forall>i\<in>set [0..<4]. \<forall>j\<in>set [0..<8]. bit PCI_COMMAND_INTX_DISABLE (8 * i + j) \<longrightarrow> (4 + i, j) \<in> set host_writable"
  "\<forall>i\<in>set [0..<4]. \<forall>j\<in>set [0..<8]. bit (0xF200 :: 32 word) (8 * i + j) \<longrightarrow> (6 + i, j) \<in> set host_writable"
  "\<forall>i\<in>set [0..<4]. \<forall>j\<in>set [0..<8]. bit PCI_BIST_START (8 * i + j) \<longrightarrow> (15 + i, j) \<in> set host_writable"
  "\<forall>i\<in>set [0..<4]. \<forall>j\<in>set [0..<8]. bit (0xFFFFC000 :: 32 word) (8 * i + j) \<longrightarrow> (16 + i, j) \<in> set host_writable"
  "\<forall>i\<in>set [0..<4]. \<forall>j\<in>set [0..<8]. bit (0xFF :: 32 word) (8 * i + j) \<longrightarrow> (60 + i, j) \<in> set host_writable"
  "\<forall>i\<in>set [0..<4]. \<forall>j\<in>set [0..<8]. bit (PCI_MSIX_FLAGS_MASKALL OR PCI_MSIX_FLAGS_ENABLE) (8 * i + j) \<longrightarrow> (82 + i, j) \<in> set host_writable"
  by code_simp+


lemma write_mask_guarded:
  assumes "aligned_access pos n" "i < n" "j < 8" "guarded (pos + i)" "(pos + i, j) \<notin> set host_writable"
  shows "\<not> bit (write_mask pos) (8 * i + j)"
proof -
  have i: "i \<in> set [0..<4]" and j: "j \<in> set [0..<8]" using assms(1-3) by (auto simp: aligned_access_def)
  have apart: "guarded pos"
    using assms(1,2,4) by (auto simp: aligned_access_def guarded_def OFFS_PCI_PM_CAP_def OFFS_PCI_MSIX_CAP_def OFFS_PCIE_CAP_def elim!: dvdE)
  have "pos - 80 = 2 \<longleftrightarrow> pos = 82" by arith
  then show ?thesis
    using apart assms(5) mask_bits[rule_format, OF i j]
    by (auto simp: write_mask_def guarded_def PCI_COMMAND_def PCI_STATUS_def PCI_BIST_def PCI_BASE_ADDRESS_0_def PCI_INTERRUPT_LINE_def
        PCI_MSIX_FLAGS_def OFFS_PCI_MSIX_CAP_def OFFS_PCI_PM_CAP_def OFFS_PCIE_CAP_def split: if_splits simp del: set_upt)
qed

lemma put_field_at:
  "put_field 1 off lo w v m a = (if a = off then of_nat (put_bits lo w v (unat (m off))) else m a)"
  by (simp add: put_field_def put_word_def get_word_def read_bytes_def write_bytes_def le_number_def le_bytes_def)

lemma bit_status_byte: "j \<noteq> 3 \<Longrightarrow> bit (put_bits 3 1 v x) j \<longleftrightarrow> bit x j"
  by (rule bit_put_bits) auto

text \<open>The effect beside the store changes the interrupt status at most.\<close>

lemma write_effect_frame:
  "pv_virt_bus (write_effect pos val new d) = pv_virt_bus d"
  "(a, j) \<noteq> (6, 3) \<Longrightarrow> j < 8 \<Longrightarrow> bit (pv_virtDev (write_effect pos val new d) a) j = bit (pv_virtDev d a) j"
  by (auto simp: write_effect_def put_field_at OFFS_PCI_HDR_def bit_of_nat_word bit_status_byte bit_unsigned_iff simp del: One_nat_def)

text \<open>One write.\<close>

lemma pci_write_frame:
  assumes al: "aligned_access pos n"
  obtains d' where "pci_write pos n new d = Some d'" "pv_virt_bus d' = pv_virt_bus d"
    "\<And>a j. j < 8 \<Longrightarrow> guarded a \<Longrightarrow> (a, j) \<notin> set host_writable \<Longrightarrow> bit (pv_virtDev d' a) j = bit (pv_virtDev d a) j"
    "\<And>a. a < pos \<or> pos + n \<le> a \<Longrightarrow> a \<noteq> 6 \<Longrightarrow> pv_virtDev d' a = pv_virtDev d a"
proof -
  let ?m = "pv_virtDev d"
  let ?val = "of_nat (get_word n pos ?m) :: 32 word"
  let ?d1 = "write_effect pos ?val new d"
  let ?v = "(?val AND NOT (write_mask pos)) OR (new AND write_mask pos)"
  let ?d' = "?d1\<lparr>pv_virtDev := write_bytes (pv_virtDev ?d1) pos (take n (le_bytes 4 (unat ?v)))\<rparr>"
  have n: "n \<le> 4" "pos + n \<le> PAGE_SIZE" "0 < n" using al by (auto simp: aligned_access_def)
  have w: "pci_write pos n new d = Some ?d'"
    using n by (simp add: pci_write_def config_get_0 config_put_def Let_def)
  have at: "pv_virtDev ?d' a = (if pos \<le> a \<and> a < pos + n then of_nat (unat ?v div 256 ^ (a - pos)) else pv_virtDev ?d1 a)" for a
    using n by (auto simp: write_bytes_def le_bytes_def)
  have "(6, 3) \<in> set host_writable" by (simp add: host_writable_def)
  have keep: "bit (pv_virtDev ?d' a) j = bit (?m a) j" if "j < 8" "guarded a" "(a, j) \<notin> set host_writable" for a j
  proof (cases "pos \<le> a \<and> a < pos + n")
    case True
    then obtain i where i: "a = pos + i" "i < n" by (metis add_less_cancel_left le_iff_add)
    have len: "i < length (read_bytes ?m pos n)" using i by (simp add: read_bytes_def)
    have k: "8 * i + j < 32" using i(2) that(1) n(1) by linarith
    have "bit (pv_virtDev ?d' a) j = bit ?v (8 * i + j)"
      using True that(1) i(1) by (simp only: at if_P bit_le_byte diff_add_inverse)
    also have "\<dots> = bit ?val (8 * i + j)"
      using write_mask_guarded[OF al i(2) that(1)] that i(1) k by (simp add: bit_or_iff bit_and_iff bit_not_iff)
    also have "\<dots> = bit (get_word n pos ?m) (8 * i + j)" using k by (simp add: bit_of_nat_word)
    also have "\<dots> = bit (?m a) j"
      using bit_le_number[OF len that(1)] i by (simp add: get_word_def read_bytes_def)
    finally show ?thesis .
  next
    case False
    have "(a, j) \<noteq> (6, 3)" using that(3) \<open>(6, 3) \<in> set host_writable\<close> by auto
    then show ?thesis using that(1) by (simp only: at if_not_P[OF False]) (rule write_effect_frame(2))
  qed
  have "pv_virtDev ?d' a = ?m a" if "a < pos \<or> pos + n \<le> a" "a \<noteq> 6" for a
    using that by (auto simp only: at if_False) (auto simp: write_effect_def put_field_at OFFS_PCI_HDR_def simp del: One_nat_def)
  then show thesis using that[OF w] keep write_effect_frame(1) by simp
qed


section \<open>Sequences of writes\<close>

text \<open>A write of the host: function number, position, size and value.\<close>

type_synonym config_write = "nat \<times> nat \<times> nat \<times> 32 word"

definition host_writes :: "pci_vdev list \<Rightarrow> nat \<Rightarrow> config_write list \<Rightarrow> pci_vdev list option" where
  "host_writes devs bus ws = foldM (\<lambda>(devfn, pos, n, new) devs. do {
     (devs', r) \<leftarrow> nvmev_pci_write devs bus devfn pos n new; Some devs' }) ws devs"

definition all_aligned :: "config_write list \<Rightarrow> bool" where
  "all_aligned ws \<longleftrightarrow> (\<forall>(devfn, pos, n, new)\<in>set ws. aligned_access pos n)"

definition within_guarded :: "config_write list \<Rightarrow> bool" where
  "within_guarded ws \<longleftrightarrow> (\<forall>(devfn, pos, n, new)\<in>set ws. aligned_access pos n \<and> guarded pos \<and> guarded (pos + n - 1))"

lemma find_from_buses:
  "map pv_virt_bus ds = map pv_virt_bus es \<Longrightarrow> find_from i f ds bus = find_from i f es bus"
proof (induction ds arbitrary: es i f)
  case (Cons d ds)
  then obtain e es' where "es = e # es'" "pv_virt_bus d = pv_virt_bus e" "map pv_virt_bus ds = map pv_virt_bus es'"
    by (cases es) auto
  then show ?case using Cons.IH by (simp add: Let_def)
qed simp

lemma find_from_bound: "find_from i f ds bus = Some k \<Longrightarrow> (\<And>j. f = Some j \<Longrightarrow> j < i) \<Longrightarrow> k < i + length ds"
  by (induction ds arbitrary: i f) (fastforce simp: Let_def split: if_splits)+

lemma find_nvmev_bound: "find_nvmev devs bus = Some i \<Longrightarrow> i < length devs"
  using find_from_bound[of 0 None devs bus i] by (simp add: find_nvmev_def)

text \<open>What a sequence leaves alone: the other drives, the bits that are guarded, and the bytes outside the places written.\<close>

definition config_frame :: "config_write list \<Rightarrow> nat \<Rightarrow> pci_vdev list \<Rightarrow> pci_vdev list \<Rightarrow> bool" where
  "config_frame ws i devs devs' \<longleftrightarrow> map pv_virt_bus devs' = map pv_virt_bus devs \<and> (\<forall>k<length devs. k \<noteq> i \<longrightarrow> devs' ! k = devs ! k) \<and>
     (\<forall>a j. j < 8 \<and> guarded a \<and> (a, j) \<notin> set host_writable \<longrightarrow> bit (pv_virtDev (devs' ! i) a) j = bit (pv_virtDev (devs ! i) a) j) \<and>
     (\<forall>a. a \<noteq> 6 \<and> (\<forall>(devfn, pos, n, new)\<in>set ws. a < pos \<or> pos + n \<le> a) \<longrightarrow> pv_virtDev (devs' ! i) a = pv_virtDev (devs ! i) a)"

lemma host_writes_frame:
  "find_nvmev devs bus = Some i \<Longrightarrow> all_aligned ws \<Longrightarrow> \<exists>devs'. host_writes devs bus ws = Some devs' \<and> config_frame ws i devs devs'"
proof (induction ws arbitrary: devs)
  case Nil
  then show ?case by (simp add: host_writes_def config_frame_def)
next
  case (Cons w ws)
  obtain devfn pos n new where w: "w = (devfn, pos, n, new)" by (cases w)
  have al: "aligned_access pos n" "all_aligned ws" using Cons.prems(2) by (auto simp: all_aligned_def w)
  have i: "i < length devs" by (rule find_nvmev_bound) (rule Cons.prems(1))
  obtain d' where d: "pci_write pos n new (devs ! i) = Some d'" "pv_virt_bus d' = pv_virt_bus (devs ! i)"
    "\<And>a j. j < 8 \<Longrightarrow> guarded a \<Longrightarrow> (a, j) \<notin> set host_writable \<Longrightarrow> bit (pv_virtDev d' a) j = bit (pv_virtDev (devs ! i) a) j"
    "\<And>a. a < pos \<or> pos + n \<le> a \<Longrightarrow> a \<noteq> 6 \<Longrightarrow> pv_virtDev d' a = pv_virtDev (devs ! i) a"
    by (rule pci_write_frame[OF al(1), of new "devs ! i"]) blast
  let ?ds = "devs[i := d']"
  have buses: "map pv_virt_bus ?ds = map pv_virt_bus devs"
    using i d(2) by (simp add: map_update list_update_same_conv)
  have "find_nvmev ?ds bus = Some i"
    using find_from_buses[OF buses] Cons.prems(1) by (simp add: find_nvmev_def)
  then obtain devs' where r: "host_writes ?ds bus ws = Some devs'" "config_frame ws i ?ds devs'"
    using Cons.IH al(2) by blast
  have "host_writes devs bus (w # ws) = Some devs'"
    using r(1) i Cons.prems(1) d(1) by (simp add: host_writes_def w nvmev_pci_write_def)
  moreover have "config_frame (w # ws) i devs devs'"
    using r(2) d(3,4) i buses by (simp add: config_frame_def w)
  ultimately show ?case by blast
qed

text \<open>Bytes no write within the guarded places can change.\<close>

definition fixed_byte :: "nat \<Rightarrow> bool" where
  "fixed_byte a \<longleftrightarrow> a \<notin> {5, 6, 7, 15, 17, 18, 19, 60, 83}"

lemma fixed_byte_kept:
  assumes "config_frame ws i devs devs'" "within_guarded ws" "fixed_byte a"
  shows "pv_virtDev (devs' ! i) a = pv_virtDev (devs ! i) a"
proof (cases "guarded a")
  case True
  have "(a, j) \<notin> set host_writable" for j using assms(3) by (auto simp: fixed_byte_def host_writable_def)
  then show ?thesis using assms(1) True by (auto simp: config_frame_def intro!: bit_word_eqI)
next
  case False
  have "a < pos \<or> pos + n \<le> a" if "(devfn, pos, n, new) \<in> set ws" for devfn pos n new
  proof -
    have "aligned_access pos n" "guarded pos" "guarded (pos + n - 1)" using assms(2) that by (auto simp: within_guarded_def)
    then show ?thesis using False
      by (auto simp: aligned_access_def guarded_def OFFS_PCI_PM_CAP_def OFFS_PCI_MSIX_CAP_def OFFS_PCIE_CAP_def elim!: dvdE)
  qed
  then have "\<forall>(devfn, pos, n, new)\<in>set ws. a < pos \<or> pos + n \<le> a" by auto
  moreover have "a \<noteq> 6" using assms(3) by (simp add: fixed_byte_def)
  ultimately show ?thesis using assms(1) unfolding config_frame_def by blast
qed

lemma fixed_word_kept:
  assumes "config_frame ws i devs devs'" "within_guarded ws" "\<forall>a\<in>set [pos..<pos + n]. fixed_byte a"
  shows "get_word n pos (pv_virtDev (devs' ! i)) = get_word n pos (pv_virtDev (devs ! i))"
proof -
  have "read_bytes (pv_virtDev (devs' ! i)) pos n = read_bytes (pv_virtDev (devs ! i)) pos n"
    using fixed_byte_kept[OF assms(1,2)] assms(3) by (simp add: read_bytes_def)
  then show ?thesis by (simp add: get_word_def)
qed


section \<open>Properties\<close>

definition page_of :: "pci_vdev list \<Rightarrow> nat \<Rightarrow> memory" where
  "page_of devs bus = pv_virtDev (devs ! the (find_nvmev devs bus))"

lemma on_busI: "find_nvmev devs bus = Some i \<Longrightarrow> on_bus devs bus (devs ! i)"
  by (simp add: on_bus_def find_nvmev_bound)

lemma host_read_page:
  assumes "find_nvmev devs bus \<noteq> None" "n \<in> {1, 2, 4}" "pos + n \<le> PAGE_SIZE"
  shows "host_read devs bus pos n = Some (get_word n pos (page_of devs bus))"
  using assms host_read_eq[OF on_busI] by (auto simp: page_of_def)

text \<open>C34: In the header and in the capability for message signalled interrupts, no sequence of aligned accesses of a host
  changes a bit that is not listed as writable.  All accesses succeed, whatever the function number they name, and other
  drives are not touched.\<close>

theorem config_space_guarded:
  assumes "find_nvmev devs bus = Some i" "all_aligned ws"
  shows "\<exists>devs'. host_writes devs bus ws = Some devs' \<and> find_nvmev devs' bus = Some i \<and>
    (\<forall>k<length devs. k \<noteq> i \<longrightarrow> devs' ! k = devs ! k) \<and>
    (\<forall>a j. j < 8 \<and> guarded a \<and> (a, j) \<notin> set host_writable \<longrightarrow> bit (page_of devs' bus a) j = bit (page_of devs bus a) j)"
proof -
  obtain devs' where r: "host_writes devs bus ws = Some devs'" "config_frame ws i devs devs'"
    using host_writes_frame[OF assms] by blast
  then have "find_nvmev devs' bus = Some i"
    using find_from_buses[of devs' devs] assms(1) by (simp add: find_nvmev_def config_frame_def)
  then show ?thesis using r assms(1) unfolding config_frame_def page_of_def by auto
qed

definition new_drive :: pci_vdev where
  "new_drive = VDEV_INIT\<lparr>pv_virtDev := pci_settings (2 ^ 32 + 2 ^ 20) (\<lambda>_. 0)\<rparr>"

definition some_writes :: "config_write list" where
  "some_writes = [(0, 4, 2, 6), (0, 16, 4, 0xFFFFFFFF), (3, 60, 1, 11), (0, 82, 2, 0x8000)]"

lemma new_drive_found: "find_nvmev [new_drive] 3 = Some 0"
  by (simp add: find_nvmev_def new_drive_def VDEV_INIT_def)

lemma some_writes_ok: "all_aligned some_writes" "within_guarded some_writes"
  by (simp_all add: all_aligned_def within_guarded_def some_writes_def aligned_access_def guarded_def
      OFFS_PCI_PM_CAP_def OFFS_PCI_MSIX_CAP_def OFFS_PCIE_CAP_def)

theorem config_space_guarded_witness:
  "\<exists>devs'. host_writes [new_drive] 3 some_writes = Some devs' \<and> find_nvmev devs' 3 = Some 0 \<and>
    (\<forall>k<length [new_drive]. k \<noteq> 0 \<longrightarrow> devs' ! k = [new_drive] ! k) \<and>
    (\<forall>a j. j < 8 \<and> guarded a \<and> (a, j) \<notin> set host_writable \<longrightarrow> bit (page_of devs' 3 a) j = bit (page_of [new_drive] 3 a) j)"
  by (rule config_space_guarded[OF new_drive_found some_writes_ok(1)])

lemma walk_step:
  assumes "find_nvmev devs bus \<noteq> None" "0 < p" "p + 2 \<le> PAGE_SIZE"
  shows "walk_caps (Suc k) devs bus p = do {
    caps \<leftarrow> walk_caps k devs bus (get_word 1 (p + 1) (page_of devs bus)); Some ((p, get_word 1 p (page_of devs bus)) # caps) }"
  using assms by (simp add: host_read_page del: One_nat_def)

lemma ext_step:
  assumes "find_nvmev devs bus \<noteq> None" "PCI_CFG_SPACE_SIZE \<le> p" "p + 4 \<le> PAGE_SIZE"
  shows "walk_ext_caps (Suc k) devs bus p = do {
    caps \<leftarrow> walk_ext_caps k devs bus (get_word 2 (p + 2) (page_of devs bus) div 16); Some ((p, get_word 2 p (page_of devs bus)) # caps) }"
  using assms by (simp add: host_read_page)

lemma capability_walk:
  assumes "find_nvmev devs bus \<noteq> None"
    "\<And>pos. pos \<in> {52, 64, 65, 80, 81, 96, 97} \<Longrightarrow> get_word 1 pos (page_of devs bus) = get_word 1 pos (pci_settings base (\<lambda>_. 0))"
  shows "capabilities devs bus = Some [(0x40, PCI_CAP_ID_PM), (0x50, PCI_CAP_ID_MSIX), (0x60, PCI_CAP_ID_EXP)]"
proof -
  have "walk_caps (Suc (Suc (Suc (Suc k)))) devs bus 64 = Some [(64, 1), (80, 17), (96, 16)]" for k
    by (simp add: walk_step[OF assms(1)] assms(2) settings_caps del: One_nat_def walk_caps.simps(2)) simp
  from this[of 44] have "walk_caps 48 devs bus 64 = Some [(64, 1), (80, 17), (96, 16)]" by simp
  moreover have "host_read devs bus 52 1 = Some 64"
    by (simp add: host_read_page[OF assms(1)] assms(2) settings_header del: One_nat_def)
  ultimately show ?thesis
    by (simp add: capabilities_def PCI_CAP_ID_PM_def PCI_CAP_ID_MSIX_def PCI_CAP_ID_EXP_def)
qed

lemma ext_capability_walk:
  assumes "find_nvmev devs bus \<noteq> None"
    "\<And>pos. pos \<in> {256, 258, 336, 338, 384, 386, 400, 402, 624, 626, 672, 674} \<Longrightarrow>
      get_word 2 pos (page_of devs bus) = get_word 2 pos (pci_settings base (\<lambda>_. 0))"
  shows "walk_ext_caps 60 devs bus PCI_CFG_SPACE_SIZE = Some [(0x100, 1), (0x150, 2), (0x180, 4), (0x190, 0xe), (0x270, 3), (0x2a0, 0x19)]"
proof -
  have "walk_ext_caps (Suc (Suc (Suc (Suc (Suc (Suc (Suc k))))))) devs bus 256 =
      Some [(256, 1), (336, 2), (384, 4), (400, 14), (624, 3), (672, 25)]" for k
    by (simp add: ext_step[OF assms(1)] assms(2) settings_ext PCI_CFG_SPACE_SIZE_def del: walk_ext_caps.simps(2))
       (simp add: PCI_CFG_SPACE_SIZE_def)
  from this[of 53] show ?thesis by (simp add: PCI_CFG_SPACE_SIZE_def)
qed

text \<open>Writes to guarded places keep the drive on its bus and the words made of fixed bytes.\<close>

lemma guarded_writes_kept:
  assumes "find_nvmev devs bus = Some i" "host_writes devs bus ws = Some devs'" "within_guarded ws"
  shows "find_nvmev devs' bus \<noteq> None"
    "list_all fixed_byte [pos..<pos + n] \<Longrightarrow> get_word n pos (page_of devs' bus) = get_word n pos (page_of devs bus)"
proof -
  have al: "all_aligned ws" using assms(3) by (fastforce simp: within_guarded_def all_aligned_def)
  have fr: "config_frame ws i devs devs'" using host_writes_frame[OF assms(1) al] assms(2) by auto
  have f: "find_nvmev devs' bus = Some i"
    using find_from_buses[of devs' devs] assms(1) fr by (simp add: find_nvmev_def config_frame_def)
  then show "find_nvmev devs' bus \<noteq> None" by simp
  assume "list_all fixed_byte [pos..<pos + n]"
  then show "get_word n pos (page_of devs' bus) = get_word n pos (page_of devs bus)"
    using fixed_word_kept[OF fr assms(3)] f assms(1) by (simp add: page_of_def list_all_iff)
qed

text \<open>C35: After the set-up, and after any writes of the host to the header and to the capability for message signalled
  interrupts, a host finds vendor, device and class of an NVMe drive, the three capabilities, and the six extended ones.\<close>

theorem host_finds_drive:
  assumes "find_nvmev devs bus = Some i" "pv_virtDev (devs ! i) = pci_settings base (\<lambda>_. 0)"
    "host_writes devs bus ws = Some devs'" "within_guarded ws"
  shows "host_read devs' bus 0 2 = Some NVMEV_VENDOR_ID \<and> host_read devs' bus 2 2 = Some NVMEV_DEVICE_ID \<and>
    [host_read devs' bus 11 1, host_read devs' bus 10 1, host_read devs' bus 9 1] = [Some 1, Some 8, Some 2] \<and>
    capabilities devs' bus = Some [(0x40, PCI_CAP_ID_PM), (0x50, PCI_CAP_ID_MSIX), (0x60, PCI_CAP_ID_EXP)] \<and>
    walk_ext_caps 60 devs' bus PCI_CFG_SPACE_SIZE = Some [(0x100, 1), (0x150, 2), (0x180, 4), (0x190, 0xe), (0x270, 3), (0x2a0, 0x19)]"
proof -
  note g = guarded_writes_kept(1)[OF assms(1,3,4)]
  have kept: "get_word n pos (page_of devs' bus) = get_word n pos (pci_settings base (\<lambda>_. 0))"
    if "list_all fixed_byte [pos..<pos + n]" for n pos
    using guarded_writes_kept(2)[OF assms(1,3,4) that] assms(1,2) by (simp add: page_of_def)
  have "host_read devs' bus 0 2 = Some NVMEV_VENDOR_ID" "host_read devs' bus 2 2 = Some NVMEV_DEVICE_ID"
    by (simp_all add: host_read_page[OF g] kept settings_header fixed_byte_def NVMEV_VENDOR_ID_def NVMEV_DEVICE_ID_def)
  moreover have "[host_read devs' bus 11 1, host_read devs' bus 10 1, host_read devs' bus 9 1] = [Some 1, Some 8, Some 2]"
    by (simp add: host_read_page[OF g] kept settings_header fixed_byte_def del: One_nat_def)
  moreover have "capabilities devs' bus = Some [(0x40, PCI_CAP_ID_PM), (0x50, PCI_CAP_ID_MSIX), (0x60, PCI_CAP_ID_EXP)]"
    by (rule capability_walk[OF g]) (auto intro!: kept simp: fixed_byte_def)
  moreover have "walk_ext_caps 60 devs' bus PCI_CFG_SPACE_SIZE = Some [(0x100, 1), (0x150, 2), (0x180, 4), (0x190, 0xe), (0x270, 3), (0x2a0, 0x19)]"
    by (rule ext_capability_walk[OF g]) (auto intro!: kept simp: fixed_byte_def)
  ultimately show ?thesis by blast
qed

theorem host_finds_drive_witness:
  "\<exists>devs'. host_writes [new_drive] 3 some_writes = Some devs' \<and>
    capabilities devs' 3 = Some [(0x40, PCI_CAP_ID_PM), (0x50, PCI_CAP_ID_MSIX), (0x60, PCI_CAP_ID_EXP)]"
proof -
  obtain devs' where d: "host_writes [new_drive] 3 some_writes = Some devs'"
    using host_writes_frame[OF new_drive_found some_writes_ok(1)] by blast
  have "pv_virtDev ([new_drive] ! 0) = pci_settings (2 ^ 32 + 2 ^ 20) (\<lambda>_. 0)" by (simp add: new_drive_def)
  from host_finds_drive[OF new_drive_found this d some_writes_ok(2)] show ?thesis using d by blast
qed

section \<open>A new drive\<close>

definition as_host :: "(nat \<times> nat \<times> 32 word) list \<Rightarrow> config_write list" where
  "as_host scan = map (\<lambda>(pos, n, new). (0, pos, n, new)) scan"

lemma pci_write_bus: "pci_write pos n new d = Some d' \<Longrightarrow> pv_virt_bus d' = pv_virt_bus d"
  by (auto simp: pci_write_def bind_eq_Some_conv Let_def write_effect_frame(1))

lemma find_single: "find_nvmev [d] bus = Some 0 \<longleftrightarrow> pv_virt_bus d = None \<or> pv_virt_bus d = Some bus"
  by (auto simp: find_nvmev_def)

lemma pci_scan_host:
  "find_nvmev [d] bus = Some 0 \<Longrightarrow> host_writes [d] bus (as_host scan) = map_option (\<lambda>d'. [d']) (pci_scan scan d)"
proof (induction scan arbitrary: d)
  case Nil
  then show ?case by (simp add: host_writes_def as_host_def pci_scan_def)
next
  case (Cons w scan)
  obtain pos n new where w: "w = (pos, n, new)" by (cases w)
  show ?case
  proof (cases "pci_write pos n new d")
    case None
    then show ?thesis using Cons.prems by (simp add: host_writes_def as_host_def pci_scan_def w nvmev_pci_write_def)
  next
    case (Some d')
    have "find_nvmev [d'] bus = Some 0" using Cons.prems pci_write_bus[OF Some] by (simp add: find_single)
    from Cons.IH[OF this] show ?thesis
      using Cons.prems Some by (simp add: host_writes_def as_host_def pci_scan_def w nvmev_pci_write_def)
  qed
qed

text \<open>Whatever the scan writes to guarded places, a new drive ends on its bus and shows its capabilities.\<close>

lemma pci_init_ok:
  assumes "within_guarded (as_host scan)"
  shows "\<exists>d. NVMEV_PCI_INIT base bus scan VDEV_INIT = Some d \<and> pv_virt_bus d = Some bus \<and> pv_msix d = Some False \<and>
    capabilities [d] bus = Some [(0x40, PCI_CAP_ID_PM), (0x50, PCI_CAP_ID_MSIX), (0x60, PCI_CAP_ID_EXP)]"
proof -
  let ?fresh = "VDEV_INIT\<lparr>pv_virtDev := pci_settings base (\<lambda>_. 0), pv_intx_disabled := False\<rparr>"
  have f0: "find_nvmev [?fresh] bus = Some 0" by (simp add: find_single VDEV_INIT_def)
  have al: "all_aligned (as_host scan)" using assms by (fastforce simp: within_guarded_def all_aligned_def)
  obtain devs' where h: "host_writes [?fresh] bus (as_host scan) = Some devs'" using host_writes_frame[OF f0 al] by blast
  then obtain d1 where d1: "pci_scan scan ?fresh = Some d1" "devs' = [d1]" unfolding pci_scan_host[OF f0] by blast
  define d where "d = d1\<lparr>pv_msix := Some False, pv_irq := get_word 1 (OFFS_PCI_HDR + 60) (pv_virtDev d1), pv_virt_bus := Some bus\<rparr>"
  have page: "page_of [d] bus = pv_virtDev d1" by (simp add: d_def page_of_def find_nvmev_def)
  have "find_nvmev [d1] bus = Some 0"
    using guarded_writes_kept(1)[OF f0 h assms] d1(2) by (auto simp: find_nvmev_def split: if_splits)
  then have "page_of devs' bus = pv_virtDev d1" "page_of [?fresh] bus = pci_settings base (\<lambda>_. 0)" by (simp_all add: page_of_def d1(2) f0)
  then have kept: "get_word n pos (page_of [d] bus) = get_word n pos (pci_settings base (\<lambda>_. 0))" if "list_all fixed_byte [pos..<pos + n]" for n pos
    using guarded_writes_kept(2)[OF f0 h assms that] by (simp add: page del: One_nat_def)
  have g: "find_nvmev [d] bus \<noteq> None" by (simp add: d_def find_nvmev_def)
  have "NVMEV_PCI_INIT base bus scan VDEV_INIT = Some d"
    using d1(1) by (simp add: d_def NVMEV_PCI_INIT_def create_pci_bus_def VDEV_INIT_def)
  moreover have "capabilities [d] bus = Some [(0x40, PCI_CAP_ID_PM), (0x50, PCI_CAP_ID_MSIX), (0x60, PCI_CAP_ID_EXP)]"
    by (rule capability_walk[OF g]) (auto intro!: kept simp: fixed_byte_def simp del: One_nat_def)
  ultimately show ?thesis by (intro exI[of _ d]) (simp add: d_def)
qed

text \<open>The dispatcher's copies of the registers and doorbells agree with what the set-up has written, so that its first look
  finds nothing to do.\<close>

lemma setup_regs_seen:
  assumes "cp = setup_ctrl_regs zns start m"
  shows "read_bytes (cp_old_bar cp) 0 64 = read_bytes (cp_mem cp) start 64"
    "read_bytes (cp_mem cp) (start + PAGE_SIZE) PAGE_SIZE = replicate PAGE_SIZE 0" "read_bytes (cp_old_dbs cp) 0 4 = replicate 4 0"
proof -
  have regs: "init_nvme_ctrl_regs zns start m a = 0" if "start + 16 \<le> a" "a < start + 2 * PAGE_SIZE" for a
    using that by (simp add: init_nvme_ctrl_regs_def Let_def put_field_def put_word_def write_bytes_def)
  show "read_bytes (cp_old_bar cp) 0 64 = read_bytes (cp_mem cp) start 64"
    by (simp add: assms setup_ctrl_regs_def Let_def) (simp add: read_bytes_def write_bytes_def)
  show "read_bytes (cp_mem cp) (start + PAGE_SIZE) PAGE_SIZE = replicate PAGE_SIZE 0"
    by (simp add: assms setup_ctrl_regs_def Let_def) (auto simp: read_bytes_def write_bytes_def regs intro!: nth_equalityI)
  show "read_bytes (cp_old_dbs cp) 0 4 = replicate 4 0"
    by (simp add: assms setup_ctrl_regs_def Let_def) (auto simp: read_bytes_def write_bytes_def regs intro!: nth_equalityI)
qed

section \<open>Single writes\<close>

lemma host_write_value:
  assumes "find_nvmev devs bus = Some i" "aligned_access pos n" "pos \<noteq> PCI_COMMAND" "pos \<noteq> OFFS_PCI_MSIX_CAP + PCI_MSIX_FLAGS"
  obtains devs' where "host_writes devs bus [(f, pos, n, new)] = Some devs'" "find_nvmev devs' bus = Some i"
    "page_of devs' bus = put_word n pos (unat ((of_nat (get_word n pos (page_of devs bus)) AND NOT (write_mask pos)) OR (new AND write_mask pos)))
       (page_of devs bus)"
proof -
  let ?m = "page_of devs bus"
  let ?v = "(of_nat (get_word n pos ?m) AND NOT (write_mask pos)) OR (new AND write_mask pos)"
  let ?d = "(devs ! i)\<lparr>pv_virtDev := put_word n pos (unat ?v) ?m\<rparr>"
  have i: "i < length devs" by (rule find_nvmev_bound) (rule assms(1))
  have n: "n \<le> 4" "pos + n \<le> PAGE_SIZE" using assms(2) by (auto simp: aligned_access_def)
  have m: "?m = pv_virtDev (devs ! i)" using assms(1) by (simp add: page_of_def)
  have t: "take n (le_bytes 4 w) = le_bytes n w" for w
    using n(1) by (simp add: le_bytes_def take_map min_def)
  have "pci_write pos n new (devs ! i) = Some ?d"
    using n assms(3,4) by (simp add: pci_write_def config_get_0 config_put_def Let_def write_effect_def t put_word_def m)
  then have "host_writes devs bus [(f, pos, n, new)] = Some (devs[i := ?d])"
    using i assms(1) by (simp add: host_writes_def nvmev_pci_write_def)
  moreover have "map pv_virt_bus (devs[i := ?d]) = map pv_virt_bus devs"
    using i by (simp add: map_update list_update_same_conv)
  then have f: "find_nvmev (devs[i := ?d]) bus = Some i"
    using find_from_buses[of "devs[i := ?d]" devs] assms(1) by (simp add: find_nvmev_def)
  moreover have "page_of (devs[i := ?d]) bus = put_word n pos (unat ?v) ?m"
    using f i by (simp add: page_of_def)
  ultimately show thesis by (rule that)
qed

lemma unat_low14: "unat (take_bit 14 x) = unat x mod 2 ^ 14" for x :: "32 word"
  unfolding unsigned_take_bit_eq by (rule take_bit_eq_mod)

lemma unat_high14: "unat (drop_bit 14 x) = unat x div 2 ^ 14" for x :: "32 word"
  by (simp add: drop_bit_eq_div unat_div)

lemma unat_masked_base:
  fixes v new :: "32 word"
  shows "unat ((v AND NOT 0xFFFFC000) OR (new AND 0xFFFFC000)) = unat v mod 2 ^ 14 + unat new div 2 ^ 14 * 2 ^ 14"
proof -
  let ?w = "(v AND NOT 0xFFFFC000) OR (new AND 0xFFFFC000)"
  have m: "(0xFFFFC000 :: 32 word) = NOT (mask 14)" by (simp add: mask_eq_exp_minus_1)
  have "take_bit 14 ?w = take_bit 14 v" unfolding m by (rule bit_word_eqI) (auto simp: bit_simps)
  moreover have "drop_bit 14 ?w = drop_bit 14 new" unfolding m by (rule bit_word_eqI) (auto simp: bit_simps dest: bit_imp_le_length)
  ultimately have "unat (take_bit 14 ?w) = unat (take_bit 14 v)" "unat (drop_bit 14 ?w) = unat (drop_bit 14 new)" by simp_all
  then have "unat ?w mod 2 ^ 14 = unat v mod 2 ^ 14" "unat ?w div 2 ^ 14 = unat new div 2 ^ 14"
    unfolding unat_low14 unat_high14 by blast+
  then show ?thesis using div_mult_mod_eq[of "unat ?w" "2 ^ 14"] by (simp only: add.commute)
qed


text \<open>C36: A host that sizes the base address register finds a window of 16 KiB.  The registers, the doorbells and the table
  of messages the driver maps lie within it, the array of pending bits lies outside.  Writing the address back restores it.\<close>

theorem bar_window:
  assumes "find_nvmev devs bus = Some i" "pv_virtDev (devs ! i) = pci_settings base (\<lambda>_. 0)" "base < 2 ^ 64" "2 ^ 14 dvd base"
  shows "\<exists>d1 d2. host_writes devs bus [(0, PCI_BASE_ADDRESS_0, 4, 0xFFFFFFFF)] = Some d1 \<and>
    host_read d1 bus 16 4 = Some (2 ^ 32 - 2 ^ 14 + 4) \<and>
    host_writes d1 bus [(0, PCI_BASE_ADDRESS_0, 4, of_nat (base mod 2 ^ 32))] = Some d2 \<and>
    host_read d2 bus 16 4 = Some (base mod 2 ^ 32 + 4) \<and> host_read d2 bus 20 4 = Some (base div 2 ^ 32) \<and>
    host_read d2 bus 84 4 = Some (2 * PAGE_SIZE) \<and> 2 * PAGE_SIZE + MAX_IO_QUEUES * 16 \<le> 2 ^ 14 \<and>
    host_read d2 bus 88 4 = Some (2 ^ 15)"
proof -
  let ?b = "pci_settings base (\<lambda>_. 0)"
  have al: "aligned_access PCI_BASE_ADDRESS_0 4" "PCI_BASE_ADDRESS_0 \<noteq> PCI_COMMAND" "PCI_BASE_ADDRESS_0 \<noteq> OFFS_PCI_MSIX_CAP + PCI_MSIX_FLAGS"
    by (simp_all add: aligned_access_def PCI_BASE_ADDRESS_0_def PCI_COMMAND_def OFFS_PCI_MSIX_CAP_def PCI_MSIX_FLAGS_def)
  have mask: "write_mask PCI_BASE_ADDRESS_0 = 0xFFFFC000"
    by (simp add: write_mask_def PCI_BASE_ADDRESS_0_def PCI_COMMAND_def PCI_STATUS_def PCI_BIST_def OFFS_PCI_PM_CAP_def)
  have page: "page_of devs bus = ?b" using assms(1,2) by (simp add: page_of_def)
  have old: "get_word 4 16 ?b = base mod 2 ^ 32 div 2 ^ 14 * 2 ^ 14 + 4" by (rule settings_header)
  obtain d1 where d1: "host_writes devs bus [(0, PCI_BASE_ADDRESS_0, 4, 0xFFFFFFFF)] = Some d1" "find_nvmev d1 bus = Some i"
    "page_of d1 bus = put_word 4 PCI_BASE_ADDRESS_0 (unat ((of_nat (get_word 4 PCI_BASE_ADDRESS_0 ?b) AND NOT 0xFFFFC000) OR
       ((0xFFFFFFFF :: 32 word) AND 0xFFFFC000))) ?b"
    using host_write_value[OF assms(1) al, where new = "0xFFFFFFFF" and f = 0] by (auto simp: mask page)
  have u: "unat (of_nat (get_word 4 16 m) :: 32 word) = get_word 4 16 m" for m
    using get_word_less[of 4 16 m] by (simp add: unat_of_nat)
  have "get_word 4 16 ?b mod 2 ^ 14 = 4" unfolding old by simp
  then have v1: "get_word 4 16 (page_of d1 bus) = 2 ^ 32 - 2 ^ 14 + 4"
    unfolding d1(3) unat_masked_base by (simp only: PCI_BASE_ADDRESS_0_def get_put_same u) simp
  obtain d2 where d2: "host_writes d1 bus [(0, PCI_BASE_ADDRESS_0, 4, of_nat (base mod 2 ^ 32))] = Some d2" "find_nvmev d2 bus = Some i"
    "page_of d2 bus = put_word 4 PCI_BASE_ADDRESS_0 (unat ((of_nat (get_word 4 PCI_BASE_ADDRESS_0 (page_of d1 bus)) AND NOT 0xFFFFC000) OR
       ((of_nat (base mod 2 ^ 32) :: 32 word) AND 0xFFFFC000))) (page_of d1 bus)"
    using host_write_value[OF d1(2) al, where new = "of_nat (base mod 2 ^ 32)" and f = 0] by (auto simp: mask)
  have "2 ^ 14 dvd base mod 2 ^ 32" using assms(4) by (simp add: dvd_mod)
  then have b: "base mod 2 ^ 32 div 2 ^ 14 * 2 ^ 14 = base mod 2 ^ 32" by simp
  have v2: "get_word 4 16 (page_of d2 bus) = base mod 2 ^ 32 + 4"
  proof -
    have "get_word 4 16 (page_of d2 bus) = (4 + base mod 2 ^ 32 div 2 ^ 14 * 2 ^ 14) mod 256 ^ 4"
      unfolding d2(3) unat_masked_base by (simp add: PCI_BASE_ADDRESS_0_def v1 unat_of_nat)
    also have "\<dots> = 4 + base mod 2 ^ 32"
    proof -
      obtain k where k: "base mod 2 ^ 32 = 2 ^ 14 * k" using \<open>2 ^ 14 dvd base mod 2 ^ 32\<close> by (auto elim: dvdE)
      have "base mod 2 ^ 32 < 2 ^ 32" by simp
      then have "k < 2 ^ 18" unfolding k by simp
      then show ?thesis unfolding b k by simp
    qed
    finally show ?thesis by simp
  qed
  have rest: "get_word n pos (page_of d2 bus) = get_word n pos ?b" if "16 + 4 \<le> pos" for n pos
    using that by (simp add: d2(3) d1(3) PCI_BASE_ADDRESS_0_def)
  have "host_read d1 bus 16 4 = Some (2 ^ 32 - 2 ^ 14 + 4)" using d1(2) v1 by (simp add: host_read_page)
  moreover have "host_read d2 bus 16 4 = Some (base mod 2 ^ 32 + 4)" using d2(2) v2 by (simp add: host_read_page)
  moreover have "base div 2 ^ 32 mod 2 ^ 32 = base div 2 ^ 32" using assms(3) by simp
  then have "host_read d2 bus 20 4 = Some (base div 2 ^ 32)" using d2(2) by (simp add: host_read_page rest settings_header)
  moreover have "host_read d2 bus 84 4 = Some (2 * PAGE_SIZE)" "host_read d2 bus 88 4 = Some (2 ^ 15)"
    using d2(2) by (simp_all add: host_read_page rest settings_caps)
  ultimately show ?thesis using d1(1) d2(1) by (auto simp: MAX_IO_QUEUES_def)
qed

theorem bar_window_witness:
  "\<exists>d1. host_writes [new_drive] 3 [(0, PCI_BASE_ADDRESS_0, 4, 0xFFFFFFFF)] = Some d1 \<and> host_read d1 3 16 4 = Some (2 ^ 32 - 2 ^ 14 + 4)"
proof -
  have "pv_virtDev ([new_drive] ! 0) = pci_settings (2 ^ 32 + 2 ^ 20) (\<lambda>_. 0)" by (simp add: new_drive_def)
  from bar_window[OF new_drive_found this] show ?thesis by auto
qed

text \<open>A write of one byte to the power management capability, which is not guarded, takes the capability for message
  signalled interrupts and the PCI Express capability out of the list, whatever function number the write names.\<close>

theorem pm_write_hides_capabilities:
  assumes "find_nvmev devs bus = Some i" "pv_virtDev (devs ! i) = pci_settings base (\<lambda>_. 0)"
  shows "\<exists>devs'. host_writes devs bus [(f, OFFS_PCI_PM_CAP + 1, 1, 0)] = Some devs' \<and>
    capabilities devs' bus = Some [(OFFS_PCI_PM_CAP, PCI_CAP_ID_PM)]"
proof -
  let ?b = "pci_settings base (\<lambda>_. 0)"
  have al: "aligned_access 65 1" "65 \<noteq> PCI_COMMAND" "65 \<noteq> OFFS_PCI_MSIX_CAP + PCI_MSIX_FLAGS"
    by (simp_all add: aligned_access_def PCI_COMMAND_def OFFS_PCI_MSIX_CAP_def PCI_MSIX_FLAGS_def)
  have mask: "write_mask 65 = - 1"
    by (simp add: write_mask_def OFFS_PCI_PM_CAP_def OFFS_PCI_MSIX_CAP_def)
  have page: "page_of devs bus = ?b" using assms by (simp add: page_of_def)
  obtain devs' where d: "host_writes devs bus [(f, 65, 1, 0)] = Some devs'" "find_nvmev devs' bus = Some i"
    "page_of devs' bus = put_word 1 65 0 ?b"
    using host_write_value[OF assms(1) al, where new = 0 and f = f] by (auto simp: mask page simp del: One_nat_def)
  have g: "find_nvmev devs' bus \<noteq> None" using d(2) by simp
  have "walk_caps (Suc (Suc k)) devs' bus 64 = Some [(64, 1)]" for k
    by (simp add: walk_step[OF g] d(3) settings_caps del: One_nat_def walk_caps.simps(2)) simp
  from this[of 46] have "walk_caps 48 devs' bus 64 = Some [(64, 1)]" by simp
  moreover have "host_read devs' bus 52 1 = Some 64"
    by (simp add: host_read_page[OF g] d(3) settings_header del: One_nat_def)
  ultimately show ?thesis using d(1) by (simp add: capabilities_def PCI_CAP_ID_PM_def OFFS_PCI_PM_CAP_def)
qed

theorem pm_write_hides_capabilities_witness:
  "\<exists>devs'. host_writes [new_drive] 3 [(5, OFFS_PCI_PM_CAP + 1, 1, 0)] = Some devs' \<and>
    capabilities devs' 3 = Some [(OFFS_PCI_PM_CAP, PCI_CAP_ID_PM)]"
proof -
  have "pv_virtDev ([new_drive] ! 0) = pci_settings (2 ^ 32 + 2 ^ 20) (\<lambda>_. 0)" by (simp add: new_drive_def)
  from pm_write_hides_capabilities[OF new_drive_found this] show ?thesis .
qed

end
