(* ===== verification/Device_Setup.thy ===== *)
theory Device_Setup
  imports Conv_Device Zns_Device Simple_Ftl Kv_Ftl Io_Worker Pci_Config Phfrag_Sched Save_Load Zns_Dump
begin

text \<open>
  The set-up of drives (src/main.c): the parameters of a command line, their checks, the configuration made of them, the
  creation and deletion of drives with their threads, the list that holds them, and the commands the host writes to the configuration file
  of the module.  The kernel functions that read numbers, split an argument at its equal sign and know the memory map are
  parameters, as are the memory an allocator returns, the clock, the random numbers and the buses the kernel makes.
\<close>

section \<open>Strings\<close>

abbreviation NUL :: char where "NUL \<equiv> CHR 0x00"

text \<open>The string that starts at a position of an array; reading on behind the array is an error.\<close>

definition c_str :: "char list \<Rightarrow> nat \<Rightarrow> string option" where
  "c_str mem p = (if NUL \<in> set (drop p mem) then Some (takeWhile (\<lambda>c. c \<noteq> NUL) (drop p mem)) else None)"

definition strncpy :: "char list \<Rightarrow> string \<Rightarrow> nat \<Rightarrow> char list" where
  "strncpy dst src n = (let s = take n (takeWhile (\<lambda>c. c \<noteq> NUL) src) in s @ replicate (n - length s) NUL @ drop n dst)"

text \<open>The pieces repeated calls of \<^verbatim>\<open>strsep\<close> with one delimiter return.\<close>

fun strsep_all :: "char \<Rightarrow> string \<Rightarrow> string list" where
  "strsep_all d [] = [[]]"
| "strsep_all d (c # s) = (if c = d then [] # strsep_all d s
     else (case strsep_all d s of [] \<Rightarrow> [[c]] | t # ts \<Rightarrow> (c # t) # ts))"

section \<open>Parameters\<close>

datatype e820_type = E820_TYPE_RAM | E820_TYPE_RESERVED | E820_TYPE_RESERVED_KERN

record klib =
  next_arg :: "string \<Rightarrow> string \<times> string option"
  memparse :: "string \<Rightarrow> nat"
  kstrtol :: "string \<Rightarrow> int option"
  kstrtoint :: "string \<Rightarrow> int option"
  simple_strtol :: "string \<Rightarrow> int"
  e820_mapped_any :: "nat \<Rightarrow> nat \<Rightarrow> e820_type \<Rightarrow> bool"

record params =
  pm_memmap_start :: nat
  pm_memmap_size :: nat
  pm_read_time :: nat
  pm_read_delay :: nat
  pm_read_trailing :: nat
  pm_write_time :: nat
  pm_write_delay :: nat
  pm_write_trailing :: nat
  pm_nr_io_units :: nat
  pm_io_unit_shift :: nat
  pm_cpus :: "string option"
  pm_name :: "string option"
  pm_path :: "string option"
  pm_ftl :: ssd_type
  pm_degree_frag :: int
  pm_num_chunk :: int
  pm_max_con :: int

definition PARAM_INIT :: params where
  "PARAM_INIT = \<lparr>pm_memmap_start = 0, pm_memmap_size = 0, pm_read_time = 1, pm_read_delay = 1, pm_read_trailing = 0,
     pm_write_time = 1, pm_write_delay = 1, pm_write_trailing = 0, pm_nr_io_units = 8, pm_io_unit_shift = 12,
     pm_cpus = None, pm_name = None, pm_path = None, pm_ftl = SSD_TYPE_NVM, pm_degree_frag = 0, pm_num_chunk = 0, pm_max_con = 0\<rparr>"

text \<open>One argument.  Names and paths may lack a value, the others may not.\<close>

definition set_param :: "klib \<Rightarrow> string \<times> string option \<Rightarrow> params \<Rightarrow> params option" where
  "set_param k = (\<lambda>(param, val) p.
     if param = ''memmap_start'' then do { v \<leftarrow> val; Some (p\<lparr>pm_memmap_start := memparse k v\<rparr>) }
     else if param = ''memmap_size'' then do { v \<leftarrow> val; Some (p\<lparr>pm_memmap_size := memparse k v\<rparr>) }
     else if param = ''cpus'' then Some (p\<lparr>pm_cpus := val\<rparr>)
     else if param = ''name'' then Some (p\<lparr>pm_name := val\<rparr>)
     else if param = ''path'' then Some (p\<lparr>pm_path := val\<rparr>)
     else if param = ''ftl'' then do {
       v \<leftarrow> val;
       Some (if v = ''simple'' then p\<lparr>pm_ftl := SSD_TYPE_NVM\<rparr>
             else if v = ''conv'' then p\<lparr>pm_ftl := SSD_TYPE_CONV\<rparr>
             else if v = ''kv'' then p\<lparr>pm_ftl := SSD_TYPE_KV\<rparr>
             else if v = ''zns'' then p\<lparr>pm_ftl := SSD_TYPE_ZNS\<rparr> else p)
     }
     else if param = ''degree'' then do {
       v \<leftarrow> val; Some (case kstrtol k v of None \<Rightarrow> p | Some n \<Rightarrow> p\<lparr>pm_degree_frag := n\<rparr>) }
     else if param = ''num_chunk'' then do {
       v \<leftarrow> val; Some (case kstrtol k v of None \<Rightarrow> p | Some n \<Rightarrow> p\<lparr>pm_num_chunk := n\<rparr>) }
     else if param = ''max_con'' then do {
       v \<leftarrow> val; Some (p\<lparr>pm_max_con := (case kstrtoint k v of None \<Rightarrow> 0 | Some n \<Rightarrow> n)\<rparr>) }
     else Some p)"

definition parse_command :: "klib \<Rightarrow> string \<Rightarrow> params \<Rightarrow> params option" where
  "parse_command k cmd_line p = foldM (\<lambda>arg. set_param k (next_arg k arg)) (strsep_all CHR '' '' cmd_line) p"

text \<open>The command is what comes before the first space or the end of the string.\<close>

definition parse_to_cmd :: "char list \<Rightarrow> string option" where
  "parse_to_cmd input = (if \<exists>c\<in>set input. c = NUL \<or> c = CHR '' '' then Some (takeWhile (\<lambda>c. c \<noteq> NUL \<and> c \<noteq> CHR '' '') input) else None)"

text \<open>What \<^verbatim>\<open>\_\_config\_store\<close> makes of the text written to it: the command and its parameters.  \<open>stack\<close> is what the local array of
  128 characters held before.\<close>

definition read_command :: "klib \<Rightarrow> char list \<Rightarrow> string \<Rightarrow> (string \<times> params) option" where
  "read_command k stack buf = do {
     let input = strncpy stack buf (min (length buf) 128);
     cmd \<leftarrow> parse_to_cmd input;
     rest \<leftarrow> c_str input (length cmd + 1);
     p \<leftarrow> parse_command k rest PARAM_INIT;
     Some (cmd, p)
   }"

section \<open>The configuration of a drive\<close>

record nvmev_config =
  nc_memmap_start :: nat
  nc_memmap_size :: nat
  nc_storage_start :: nat
  nc_storage_size :: nat
  nc_cpu_nr_dispatcher :: nat
  nc_cpu_nr_io_workers :: "nat list"
  nc_nr_io_units :: nat
  nc_io_unit_shift :: nat
  nc_read_delay :: nat
  nc_read_time :: nat
  nc_read_trailing :: nat
  nc_write_delay :: nat
  nc_write_time :: nat
  nc_write_trailing :: nat
  nc_count :: nat

definition EPERM :: int where "EPERM = 1"
definition EINVAL :: int where "EINVAL = 22"
definition EIO :: int where "EIO = 5"

definition validate_configs_arch :: "klib \<Rightarrow> params \<Rightarrow> int" where
  "validate_configs_arch k p = (
     let resv_start = pm_memmap_start p; resv_end = (resv_start + pm_memmap_size p + 2 ^ 64 - 1) mod 2 ^ 64 in
     if e820_mapped_any k resv_start resv_end E820_TYPE_RAM \<or> e820_mapped_any k resv_start resv_end E820_TYPE_RESERVED_KERN then - EPERM
     else if \<not> e820_mapped_any k resv_start resv_end E820_TYPE_RESERVED then - EPERM
     else 0)"

definition validate_configs :: "klib \<Rightarrow> params \<Rightarrow> int" where
  "validate_configs k p =
    (if pm_memmap_start p = 0 then - EINVAL
     else if pm_memmap_size p = 0 then - EINVAL
     else if pm_memmap_size p \<le> MB 1 then - EINVAL
     else if validate_configs_arch k p \<noteq> 0 then - EPERM
     else if pm_nr_io_units p = 0 \<or> pm_io_unit_shift p = 0 then - EINVAL
     else if pm_read_time p = 0 then - EINVAL
     else if pm_write_time p = 0 then - EINVAL
     else 0)"

text \<open>Numbers of processors are unsigned; there is room for 32 workers.\<close>

fun read_cpus :: "klib \<Rightarrow> string list \<Rightarrow> bool \<Rightarrow> nvmev_config \<Rightarrow> nvmev_config option" where
  "read_cpus k [] first cfg = Some cfg"
| "read_cpus k (cpu # cpus) first cfg = (
     let cpu_nr = nat (simple_strtol k cpu mod 2 ^ 32) in
     if first then read_cpus k cpus False (cfg\<lparr>nc_cpu_nr_dispatcher := cpu_nr\<rparr>)
     else do {
       nvmev_assert (length (nc_cpu_nr_io_workers cfg) < 32);
       read_cpus k cpus False (cfg\<lparr>nc_cpu_nr_io_workers := nc_cpu_nr_io_workers cfg @ [cpu_nr]\<rparr>)
     })"

definition KV_PROTOTYPE :: nat where "KV_PROTOTYPE = 3"

text \<open>The result is None when the parameters are refused.  \<open>base_ssd\<close> is the drive the module was built for.\<close>

definition load_configs :: "klib \<Rightarrow> nat \<Rightarrow> params \<Rightarrow> nvmev_config option option" where
  "load_configs k base_ssd p0 =
    (if validate_configs k p0 < 0 then Some None
     else do {
       let p = (if base_ssd = KV_PROTOTYPE then p0\<lparr>pm_memmap_size := (pm_memmap_size p0 + 2 ^ 64 - GB 1) mod 2 ^ 64\<rparr> else p0);
       cfg \<leftarrow> read_cpus k (case pm_cpus p of None \<Rightarrow> [] | Some s \<Rightarrow> strsep_all CHR '','' s) True
         \<lparr>nc_memmap_start = pm_memmap_start p, nc_memmap_size = pm_memmap_size p,
          nc_storage_start = (pm_memmap_start p + MB 1) mod 2 ^ 64, nc_storage_size = (pm_memmap_size p + 2 ^ 64 - MB 1) mod 2 ^ 64,
          nc_cpu_nr_dispatcher = 2 ^ 32 - 1, nc_cpu_nr_io_workers = [],
          nc_nr_io_units = pm_nr_io_units p, nc_io_unit_shift = pm_io_unit_shift p,
          nc_read_delay = pm_read_delay p, nc_read_time = pm_read_time p, nc_read_trailing = pm_read_trailing p,
          nc_write_delay = pm_write_delay p, nc_write_time = pm_write_time p, nc_write_trailing = pm_write_trailing p, nc_count = 0\<rparr>;
       Some (Some cfg)
     })"

section \<open>Drives\<close>

text \<open>The state of a namespace is that of its command processor.  \<open>Freed\<close> stands for tables that were freed and not filled
  again.\<close>

datatype drive = Simple_drive simple_ns | Conv_drive conv_ns | Zns_drive zns_ftl | Kv_drive kv_ftl | Freed

text \<open>A thread: not there, running on any processor, or bound to one.\<close>

datatype thread = Stopped | Floating | Bound_to nat

record ns_slot =
  sl_drive :: drive
  sl_size :: nat
  sl_addr :: nat

record nv_device =
  nd_config :: nvmev_config
  nd_dev_id :: nat
  nd_dev_name :: "char list"
  nd_ftl :: ssd_type
  nd_ns :: "ns_slot list"
  nd_mdts :: nat
  nd_io_unit_stat :: "u64 list"
  nd_pci :: pci_vdev
  nd_degree_frag :: int
  nd_max_con :: int
  nd_num_list :: int
  nd_workers :: "io_worker list"
  nd_worker_threads :: "thread list"
  nd_dispatcher :: thread

record nv_module =
  md_devs :: "nv_device list"
  md_nr_dev :: nat
  md_files :: "string \<Rightarrow> bytes option"
  md_mem :: memory

text \<open>What the kernel hands out while a drive is made or a command runs: contents of fresh memory, clocks, random numbers,
  a bus with the writes of the scan that finds the drive, whether an allocation succeeds, and how many bytes the
  compiler leaves unused behind a local variable.\<close>

record setup_env =
  ev_cfg :: ftl_configs
  ev_junk :: u64
  ev_clock :: "nat \<Rightarrow> u64"
  ev_raw :: "(nat list option \<times> conv_ftl) list"
  ev_stats :: write_pattern_stats
  ev_wait :: u64
  ev_zns_old :: znsparams
  ev_zns_chk :: bool
  ev_kv_iter :: "kv_iter_context option"
  ev_kv_pool :: bitmap_pool
  ev_bus :: "nat option"
  ev_scan :: "(nat \<times> nat \<times> 32 word) list"
  ev_lists :: "nat \<Rightarrow> bool"
  ev_rnd :: "nat \<Rightarrow> nat"
  ev_line_addr :: "nat \<Rightarrow> nat \<Rightarrow> nat"
  ev_pad :: nat
  ev_queue_mem :: "nat \<Rightarrow> nat list option"
  ev_spare :: nat

definition NR_NAMESPACES :: nat where "NR_NAMESPACES = 1"
definition NS_CAPACITY :: "nat \<Rightarrow> nat" where "NS_CAPACITY i = 0"

text \<open>One namespace, by the kind of drive, with the configuration its loader leaves behind.\<close>

definition init_namespace :: "setup_env \<Rightarrow> memory \<Rightarrow> nv_device \<Rightarrow> nat \<Rightarrow> nat \<Rightarrow> nat \<Rightarrow> ftl_configs \<Rightarrow> (drive \<times> ftl_configs) option" where
  "init_namespace ev m d i n addr cfg0 = (case nd_ftl d of
     SSD_TYPE_NVM \<Rightarrow> (let cfg = load_simple_configs cfg0 in Some (Simple_drive (simple_init_namespace i n), cfg))
   | SSD_TYPE_CONV \<Rightarrow> do {
       cfg \<leftarrow> load_conv_configs cfg0;
       ns \<leftarrow> conv_init_namespace cfg n (ev_junk ev) (ev_clock ev) (ev_raw ev) ((ev_stats ev)\<lparr>ws_start := 0\<rparr>) (ev_wait ev);
       Some (Conv_drive ns, cfg) }
   | SSD_TYPE_ZNS \<Rightarrow> do {
       cfg \<leftarrow> load_zns_configs cfg0;
       (zf, sz) \<leftarrow> zns_init_namespace cfg n (ev_zns_old ev) (ev_junk ev) (ev_zns_chk ev) (ev_clock ev) (\<lambda>a. m (addr + a));
       Some (Zns_drive zf, cfg) }
   | SSD_TYPE_KV \<Rightarrow> do {
       let cfg = load_kv_configs cfg0;
       kc \<leftarrow> (case extra_cfgs cfg of Extra_kv c \<Rightarrow> Some c | _ \<Rightarrow> None);
       kv \<leftarrow> kv_init_namespace kc (nc_storage_size (nd_config d)) (ev_kv_iter ev) (ev_kv_pool ev);
       Some (Kv_drive kv, cfg) })"

definition NVMEV_NAMESPACE_INIT :: "setup_env \<Rightarrow> memory \<Rightarrow> nv_device \<Rightarrow> nv_device option" where
  "NVMEV_NAMESPACE_INIT ev m d = do {
     let cfg = (ev_cfg ev)\<lparr>cfg_max_con := nat (nd_max_con d)\<rparr>;
     (slots, remaining, addr, cfg) \<leftarrow> foldM (\<lambda>i (slots, remaining, addr, cfg). do {
         let n = (if NS_CAPACITY i = 0 then remaining else min (NS_CAPACITY i) remaining);
         (drv, cfg) \<leftarrow> init_namespace ev m d i n addr cfg;
         Some (slots @ [\<lparr>sl_drive = drv, sl_size = n, sl_addr = addr\<rparr>], remaining - n, addr + n, cfg)
       }) [0..<NR_NAMESPACES] ([], nc_storage_size (nd_config d), nc_storage_start (nd_config d), cfg);
     Some (d\<lparr>nd_ns := slots, nd_mdts := MDTS cfg\<rparr>)
   }"

text \<open>The memory behind the storage in which a key-value store puts its table.\<close>

definition kv_table_range :: "nvmev_config \<Rightarrow> nat \<times> nat" where
  "kv_table_range cfg = (nc_storage_start cfg + nc_storage_size cfg, nc_storage_start cfg + nc_storage_size cfg + GB 1)"

section \<open>Threads\<close>

text \<open>The workers and their threads, one for each processor of the list but the first, and the dispatcher's thread on the first.
  Thread creation and binding are kernel calls and taken to succeed.\<close>

definition start_workers :: "nv_device \<Rightarrow> nv_device" where
  "start_workers d = d\<lparr>nd_workers := new_workers (length (nc_cpu_nr_io_workers (nd_config d))),
     nd_worker_threads := map Bound_to (nc_cpu_nr_io_workers (nd_config d))\<rparr>"

definition NVMEV_DISPATCHER_INIT :: "nv_device \<Rightarrow> nv_device" where
  "NVMEV_DISPATCHER_INIT d = d\<lparr>nd_dispatcher := (if nc_cpu_nr_dispatcher (nd_config d) \<noteq> 2 ^ 32 - 1
     then Bound_to (nc_cpu_nr_dispatcher (nd_config d)) else Floating)\<rparr>"

definition NVMEV_DISPATCHER_FINAL :: "nv_device \<Rightarrow> nv_device" where
  "NVMEV_DISPATCHER_FINAL d = d\<lparr>nd_dispatcher := Stopped\<rparr>"

definition NVMEV_IO_WORKER_FINAL :: "nv_device \<Rightarrow> nv_device" where
  "NVMEV_IO_WORKER_FINAL d = d\<lparr>nd_workers := [], nd_worker_threads := []\<rparr>"

lemma threads_frame [simp]:
  "nd_ns (start_workers d) = nd_ns d" "nd_dev_name (start_workers d) = nd_dev_name d" "nd_config (start_workers d) = nd_config d"
  "nd_pci (start_workers d) = nd_pci d" "nd_ns (NVMEV_DISPATCHER_INIT d) = nd_ns d" "nd_dev_name (NVMEV_DISPATCHER_INIT d) = nd_dev_name d"
  "nd_config (NVMEV_DISPATCHER_INIT d) = nd_config d" "nd_pci (NVMEV_DISPATCHER_INIT d) = nd_pci d"
  "nd_ns (NVMEV_DISPATCHER_FINAL d) = nd_ns d" "nd_dev_name (NVMEV_DISPATCHER_FINAL d) = nd_dev_name d"
  "nd_ns (NVMEV_IO_WORKER_FINAL d) = nd_ns d" "nd_dev_name (NVMEV_IO_WORKER_FINAL d) = nd_dev_name d"
  by (simp_all add: start_workers_def NVMEV_DISPATCHER_INIT_def NVMEV_DISPATCHER_FINAL_def NVMEV_IO_WORKER_FINAL_def)

lemma threads_started [simp]:
  "nd_workers (NVMEV_DISPATCHER_INIT (start_workers d)) = new_workers (length (nc_cpu_nr_io_workers (nd_config d)))"
  "nd_worker_threads (NVMEV_DISPATCHER_INIT (start_workers d)) = map Bound_to (nc_cpu_nr_io_workers (nd_config d))"
  "nd_dispatcher (NVMEV_DISPATCHER_INIT d) \<noteq> Stopped"
  by (simp_all add: start_workers_def NVMEV_DISPATCHER_INIT_def)

section \<open>Creation and deletion\<close>

text \<open>Decimal numbers as \<^verbatim>\<open>snprintf\<close> writes them; the numbers of drives stay far below the ones it takes as negative.\<close>

fun decimal :: "nat \<Rightarrow> string" where
  "decimal n = (if n < 10 then [char_of (48 + n)] else decimal (n div 10) @ [char_of (48 + n mod 10)])"

declare decimal.simps [simp del]

definition NAME_SIZE :: nat where "NAME_SIZE = 30"

text \<open>A given name may fill its array without a terminating zero; a generated one is cut and always ends.\<close>

definition default_name :: "nat \<Rightarrow> char list" where
  "default_name i = (let s = take (NAME_SIZE - 1) (''nvmev_'' @ decimal i) in s @ replicate (NAME_SIZE - length s) NUL)"

definition given_name :: "string \<Rightarrow> char list" where
  "given_name name = strncpy (replicate NAME_SIZE NUL) name NAME_SIZE"

text \<open>When the kernel makes no bus the drive is taken off the list again.  When the parameters are refused it never was on
  it.\<close>

definition create_device :: "klib \<Rightarrow> nat \<Rightarrow> setup_env \<Rightarrow> params \<Rightarrow> nv_module \<Rightarrow> (nv_module \<times> int) option" where
  "create_device k base_ssd ev p md = do {
     cfg \<leftarrow> load_configs k base_ssd p;
     (case cfg of
        None \<Rightarrow> None  \<comment> \<open>the error path unlinks a list element whose pointers are NULL\<close>
      | Some cfg \<Rightarrow> do {
          let dev_id = md_nr_dev md;
          let nr_dev = (md_nr_dev md + 1) mod 2 ^ 32;
          let name = (case pm_name p of None \<Rightarrow> default_name dev_id | Some s \<Rightarrow> given_name s);
          let d0 = \<lparr>nd_config = cfg, nd_dev_id = dev_id, nd_dev_name = name, nd_ftl = pm_ftl p, nd_ns = [], nd_mdts = 0,
            nd_io_unit_stat = replicate (nc_nr_io_units cfg) 0, nd_pci = VDEV_INIT, nd_degree_frag = 0, nd_max_con = 0, nd_num_list = 0,
            nd_workers = [], nd_worker_threads = [], nd_dispatcher = Stopped\<rparr>;
          d1 \<leftarrow> NVMEV_NAMESPACE_INIT ev (md_mem md) d0;
          (case ev_bus ev of
             None \<Rightarrow> Some (md\<lparr>md_nr_dev := dec32 nr_dev\<rparr>, - EIO)
           | Some bus \<Rightarrow> do {
               pci \<leftarrow> NVMEV_PCI_INIT (nc_memmap_start cfg) bus (ev_scan ev) (nd_pci d1);
               Some (md\<lparr>md_nr_dev := nr_dev, md_devs := NVMEV_DISPATCHER_INIT (start_workers (d1\<lparr>nd_pci := pci\<rparr>)) # md_devs md\<rparr>, 0)
             })
        })
   }"

text \<open>The search for a drive compares names as strings, from the head of the list; a comparison reads on until it finds a
  difference or the end of both.\<close>

fun strcmp_eq :: "string \<Rightarrow> char list \<Rightarrow> bool option" where
  "strcmp_eq [] (c # cs) = Some (c = NUL)"
| "strcmp_eq (x # xs) (c # cs) = (if x = c then strcmp_eq xs cs else Some False)"
| "strcmp_eq xs [] = None"

fun get_nvmev :: "string \<Rightarrow> nv_device list \<Rightarrow> nat option option" where
  "get_nvmev name [] = Some None"
| "get_nvmev name (d # ds) = do {
     eq \<leftarrow> strcmp_eq name (nd_dev_name d);
     (if eq then Some (Some 0) else do { r \<leftarrow> get_nvmev name ds; Some (map_option Suc r) })
   }"

definition find_device :: "string \<Rightarrow> nv_module \<Rightarrow> (nat \<times> nv_device) option" where
  "find_device name md = do { r \<leftarrow> get_nvmev name (md_devs md); i \<leftarrow> r; d \<leftarrow> array_read (md_devs md) i; Some (i, d) }"

definition delete_device :: "nat \<Rightarrow> nv_module \<Rightarrow> nv_module" where
  "delete_device i md = md\<lparr>md_nr_dev := dec32 (md_nr_dev md), md_devs := take i (md_devs md) @ drop (i + 1) (md_devs md)\<rparr>"

definition put_device :: "nat \<Rightarrow> nv_device \<Rightarrow> nv_module \<Rightarrow> nv_module" where
  "put_device i d md = md\<lparr>md_devs := (md_devs md)[i := d]\<rparr>"

end
