(* ===== verification/Device_Commands.thy ===== *)
theory Device_Commands
  imports Device_Setup Io_Worker
begin

text \<open>
  The commands written to the configuration file of the module (\<^verbatim>\<open>\_\_config\_store\<close> in src/main.c) and the statistics and
  settings of a drive in its own directory (\<^verbatim>\<open>\_\_sysfs\_show\<close> and \<^verbatim>\<open>\_\_sysfs\_store\<close>).
\<close>

section \<open>Commands on one drive\<close>

text \<open>The command processor of the first namespace, taken for the kind the command works on; on a drive of another kind its
  memory would be read as something it is not.\<close>

definition conv_of :: "nv_device \<Rightarrow> conv_ns option" where
  "conv_of d = (case nd_ns d of sl # _ \<Rightarrow> (case sl_drive sl of Conv_drive ns \<Rightarrow> Some ns | _ \<Rightarrow> None) | [] \<Rightarrow> None)"

definition zns_of :: "nv_device \<Rightarrow> zns_ftl option" where
  "zns_of d = (case nd_ns d of sl # _ \<Rightarrow> (case sl_drive sl of Zns_drive zf \<Rightarrow> Some zf | _ \<Rightarrow> None) | [] \<Rightarrow> None)"

definition set_drive :: "nv_device \<Rightarrow> drive \<Rightarrow> nv_device" where
  "set_drive d drv = d\<lparr>nd_ns := (hd (nd_ns d))\<lparr>sl_drive := drv\<rparr> # tl (nd_ns d)\<rparr>"

text \<open>A command without a path takes the one of the calling process, but frees the buffer that holds it before it is used.\<close>

definition command_path :: "params \<Rightarrow> string option" where
  "command_path p = pm_path p"

definition save_command :: "setup_env \<Rightarrow> string \<Rightarrow> nv_device \<Rightarrow> nv_module \<Rightarrow> nv_module option" where
  "save_command ev path d md = do {
     ns \<leftarrow> conv_of d;
     file \<leftarrow> save_device (ev_line_addr ev) (ev_pad ev) (nc_storage_start (nd_config d)) (md_mem md) ns;
     Some (md\<lparr>md_files := (md_files md)(path @ ''/dumpfile'' \<mapsto> file)\<rparr>)
   }"

text \<open>The storage is cleared and the tables are freed before the file is opened.\<close>

definition load_command :: "setup_env \<Rightarrow> string \<Rightarrow> nat \<Rightarrow> nv_device \<Rightarrow> nv_module \<Rightarrow> nv_module option" where
  "load_command ev path i d md = do {
     ns \<leftarrow> conv_of d;
     let base = nc_storage_start (nd_config d);
     let n = nc_storage_size (nd_config d);
     (case md_files md (path @ ''/dumpfile'') of
        None \<Rightarrow> Some (put_device i (set_drive d Freed) (md\<lparr>md_mem := write_bytes (md_mem md) base (replicate n 0)\<rparr>))
      | Some file \<Rightarrow> do {
          (m, ns') \<leftarrow> load_device (ev_spare ev) (ev_queue_mem ev) base n file (md_mem md) ns;
          Some (put_device i (set_drive d (Conv_drive ns')) (md\<lparr>md_mem := m\<rparr>))
        })
   }"

text \<open>Rewriting a drive stops its threads, and starts them again at the end; when the lists cannot be allocated, as a
  table of no bytes never can, it returns in between.  A number of lists for which the size of their table wraps makes the
  code leave the table.\<close>

definition set_max_con :: "int \<Rightarrow> conv_ns \<Rightarrow> conv_ns" where
  "set_max_con n ns = ns\<lparr>cn_ftls := map (\<lambda>f. f\<lparr>cf_ssd := (cf_ssd f)\<lparr>ssd_sp := (ssd_sp (cf_ssd f))\<lparr>max_con := nat n\<rparr>\<rparr>\<rparr>) (cn_ftls ns)\<rparr>"

definition clean_command :: "setup_env \<Rightarrow> params \<Rightarrow> nat \<Rightarrow> nv_device \<Rightarrow> nv_module \<Rightarrow> nv_module option" where
  "clean_command ev p i d0 md = do {
     let d = NVMEV_IO_WORKER_FINAL (NVMEV_DISPATCHER_FINAL
       (d0\<lparr>nd_degree_frag := pm_degree_frag p, nd_max_con := pm_max_con p, nd_num_list := pm_num_chunk p\<rparr>));
     old \<leftarrow> conv_of d;
     let ns = set_max_con (nd_max_con d) old;
     let bytes = nat ((int (cn_nr_parts ns) * nd_num_list d * 16) mod 2 ^ 64);
     (if bytes = 0 \<or> \<not> ev_lists ev bytes then Some (put_device i (set_drive d (Conv_drive ns)) md)
      else do {
        nvmev_assert (int bytes = int (cn_nr_parts ns) * nd_num_list d * 16);
        d1 \<leftarrow> NVMEV_NAMESPACE_INIT ev (md_mem md) d;
        fresh \<leftarrow> conv_of d1;
        ns' \<leftarrow> clean_ftl (nat (nd_degree_frag d mod 2 ^ 64)) (ev_rnd ev) (nat (nd_num_list d)) fresh ns;
        Some (put_device i (NVMEV_DISPATCHER_INIT (start_workers (set_drive d1 (Conv_drive ns')))) md)
      })
   }"

text \<open>Both checks of fragmentation count in the same way; the one for channels and dies does not reset the count.\<close>

definition phfrag_command :: "bool \<Rightarrow> nat \<Rightarrow> nv_device \<Rightarrow> nv_module \<Rightarrow> nv_module option" where
  "phfrag_command reset i d md = do {
     ns \<leftarrow> conv_of d;
     cnt \<leftarrow> check_physical_fragmentation ns;
     let old = (if reset then 0 else nc_count (nd_config d));
     Some (put_device i (d\<lparr>nd_config := (nd_config d)\<lparr>nc_count := (old + cnt) mod 2 ^ 64\<rparr>\<rparr>) md)
   }"

definition compftl_command :: "setup_env \<Rightarrow> string \<Rightarrow> nv_device \<Rightarrow> nv_module \<Rightarrow> nv_module option" where
  "compftl_command ev path d md = do {
     ns \<leftarrow> conv_of d;
     file \<leftarrow> dump_ftl_state (ev_pad ev) ns;
     Some (md\<lparr>md_files := (md_files md)(path @ ''/ftl.bin'' \<mapsto> file)\<rparr>)
   }"

definition zns_save_command :: "string \<Rightarrow> nv_device \<Rightarrow> nv_module \<Rightarrow> nv_module option" where
  "zns_save_command path d md = do {
     zf \<leftarrow> zns_of d;
     file \<leftarrow> save_zns_device zf;
     Some (md\<lparr>md_files := (md_files md)(path @ ''/zns_dumpfile'' \<mapsto> file)\<rparr>)
   }"

definition zns_load_command :: "string \<Rightarrow> nat \<Rightarrow> nv_device \<Rightarrow> nv_module \<Rightarrow> nv_module option" where
  "zns_load_command path i d md = do {
     zf \<leftarrow> zns_of d;
     (case md_files md (path @ ''/zns_dumpfile'') of
        None \<Rightarrow> Some md
      | Some file \<Rightarrow> do {
          (zf', r) \<leftarrow> load_zns_device (nc_storage_size (nd_config d)) file zf;
          Some (put_device i (set_drive d (Zns_drive zf')) md)
        })
   }"

section \<open>The configuration file\<close>

text \<open>All commands but the creation are for the drive of the given name; without a name they do nothing, and for a name that
  no drive has they follow a null pointer.\<close>

definition run_command :: "klib \<Rightarrow> nat \<Rightarrow> setup_env \<Rightarrow> string \<Rightarrow> params \<Rightarrow> nv_module \<Rightarrow> nv_module option" where
  "run_command k base_ssd ev cmd p md =
    (if cmd = ''create'' then map_option fst (create_device k base_ssd ev p md)
     else case pm_name p of
       None \<Rightarrow> Some md
     | Some name \<Rightarrow>
         if cmd = ''delete'' then do { (i, d) \<leftarrow> find_device name md; Some (delete_device i md) }
         else if cmd = ''save'' then do { path \<leftarrow> command_path p; (i, d) \<leftarrow> find_device name md; save_command ev path d md }
         else if cmd = ''load'' then do { path \<leftarrow> command_path p; (i, d) \<leftarrow> find_device name md; load_command ev path i d md }
         else if cmd = ''clean'' then do { (i, d) \<leftarrow> find_device name md; clean_command ev p i d md }
         else if cmd = ''phfrag'' then do { (i, d) \<leftarrow> find_device name md; phfrag_command True i d md }
         else if cmd = ''chdie'' then do { (i, d) \<leftarrow> find_device name md; phfrag_command False i d md }
         else if cmd = ''compftl'' then do { path \<leftarrow> command_path p; (i, d) \<leftarrow> find_device name md; compftl_command ev path d md }
         else if cmd = ''zns_save'' then do { path \<leftarrow> command_path p; (i, d) \<leftarrow> find_device name md; zns_save_command path d md }
         else if cmd = ''zns_load'' then do { path \<leftarrow> command_path p; (i, d) \<leftarrow> find_device name md; zns_load_command path i d md }
         else Some md)"

definition config_store :: "klib \<Rightarrow> nat \<Rightarrow> setup_env \<Rightarrow> char list \<Rightarrow> string \<Rightarrow> nv_module \<Rightarrow> nv_module option" where
  "config_store k base_ssd ev stack buf md = do {
     (cmd, p) \<leftarrow> read_command k stack buf;
     run_command k base_ssd ev cmd p md
   }"

definition NVMeV_init :: "(string \<Rightarrow> bytes option) \<Rightarrow> memory \<Rightarrow> nv_module" where
  "NVMeV_init files m = \<lparr>md_devs = [], md_nr_dev = 0, md_files = files, md_mem = m\<rparr>"

text \<open>Unloading deletes every drive of the list, each found at its head.\<close>

definition delete_all :: "nv_module \<Rightarrow> nv_module" where
  "delete_all md = foldl (\<lambda>md d. delete_device 0 md) md (md_devs md)"

section \<open>Statistics and settings of a drive\<close>

text \<open>The queues as far as the statistics look at them: the number of submission queues, the queues, and both copies of the
  doorbells.\<close>

record queue_view =
  qv_nr_sq :: nat
  qv_sqes :: "submission_queue option list"
  qv_dbs :: "nat list"
  qv_old_dbs :: "nat list"

definition get_nr_entries :: "nat \<Rightarrow> nat \<Rightarrow> queue_view \<Rightarrow> int option" where
  "get_nr_entries dbs_idx queue_size qv = do {
     new_db \<leftarrow> array_read (qv_dbs qv) dbs_idx;
     old_db \<leftarrow> array_read (qv_old_dbs qv) dbs_idx;
     let diff = sint (of_nat new_db - of_nat old_db :: 32 word);
     Some (if diff < 0 then diff + int queue_size else diff)
   }"

text \<open>The file \<^verbatim>\<open>stat\<close>: a line of numbers for every queue, the sums, and the maxima start again from 0.  The model
  gives the numbers of the lines; the code prints each of them to the start of the same buffer.\<close>

fun show_stat :: "nat \<Rightarrow> nat \<Rightarrow> queue_view \<Rightarrow> (queue_view \<times> (nat \<times> int \<times> sq_stat) list) option" where
  "show_stat i 0 qv = Some (qv, [])"
| "show_stat i (Suc n) qv = do {
     s \<leftarrow> array_read (qv_sqes qv) i;
     (case s of None \<Rightarrow> show_stat (i + 1) n qv
      | Some sq \<Rightarrow> do {
          entries \<leftarrow> get_nr_entries (i * 2) (sq_queue_size sq) qv;
          let sq' = sq\<lparr>sq_stat := (sq_stat sq)\<lparr>ss_max_nr_in_flight := 0\<rparr>\<rparr>;
          (qv', lines) \<leftarrow> show_stat (i + 1) n (qv\<lparr>qv_sqes := (qv_sqes qv)[i := Some sq']\<rparr>);
          Some (qv', (i, entries, sq_stat sq) # lines)
        })
   }"

definition total_stat :: "(nat \<times> int \<times> sq_stat) list \<Rightarrow> 32 word \<times> 32 word \<times> 32 word \<times> 64 word" where
  "total_stat lines = (sum_list (map (\<lambda>(i, e, s). ss_nr_in_flight s) lines), sum_list (map (\<lambda>(i, e, s). ss_nr_dispatch s) lines),
     sum_list (map (\<lambda>(i, e, s). ss_nr_dispatched s) lines), sum_list (map (\<lambda>(i, e, s). ss_total_io s) lines))"

text \<open>Writing to \<^verbatim>\<open>stat\<close> clears all counts.\<close>

fun clear_stat :: "nat \<Rightarrow> nat \<Rightarrow> queue_view \<Rightarrow> queue_view option" where
  "clear_stat i 0 qv = Some qv"
| "clear_stat i (Suc n) qv = do {
     s \<leftarrow> array_read (qv_sqes qv) i;
     clear_stat (i + 1) n (case s of None \<Rightarrow> qv
       | Some sq \<Rightarrow> qv\<lparr>qv_sqes := (qv_sqes qv)[i := Some (sq\<lparr>sq_stat := \<lparr>ss_nr_dispatched = 0, ss_nr_dispatch = 0,
           ss_nr_in_flight = 0, ss_max_nr_in_flight = 0, ss_total_io = 0\<rparr>\<rparr>)]\<rparr>)
   }"

text \<open>Writing the other files.  \<open>nums\<close> are the numbers \<^verbatim>\<open>sscanf\<close> found in the text, at most as many as it was asked for;
  what it did not find keeps its value.\<close>

definition nth_or :: "nat list \<Rightarrow> nat \<Rightarrow> nat \<Rightarrow> nat" where
  "nth_or nums i old = (if i < length nums then nums ! i else old)"

definition store_read_times :: "nat list \<Rightarrow> nvmev_config \<Rightarrow> nvmev_config" where
  "store_read_times nums c = c\<lparr>nc_read_delay := nth_or nums 0 (nc_read_delay c), nc_read_time := nth_or nums 1 (nc_read_time c),
     nc_read_trailing := nth_or nums 2 (nc_read_trailing c)\<rparr>"

definition store_write_times :: "nat list \<Rightarrow> nvmev_config \<Rightarrow> nvmev_config" where
  "store_write_times nums c = c\<lparr>nc_write_delay := nth_or nums 0 (nc_write_delay c), nc_write_time := nth_or nums 1 (nc_write_time c),
     nc_write_trailing := nth_or nums 2 (nc_write_trailing c)\<rparr>"

definition store_io_units :: "nat list \<Rightarrow> nv_device \<Rightarrow> nv_device" where
  "store_io_units nums d =
    (if nums = [] then d
     else let c = (nd_config d)\<lparr>nc_nr_io_units := nth_or nums 0 (nc_nr_io_units (nd_config d)),
                nc_io_unit_shift := nth_or nums 1 (nc_io_unit_shift (nd_config d))\<rparr>
          in d\<lparr>nd_config := c, nd_io_unit_stat := replicate (nc_nr_io_units c) 0\<rparr>)"

definition store_phfrag :: "nat \<Rightarrow> nat \<Rightarrow> nv_device \<Rightarrow> nv_device option" where
  "store_phfrag lba n d =
    (if lba = 0 \<and> n = 0 then Some (d\<lparr>nd_config := (nd_config d)\<lparr>nc_count := 0\<rparr>\<rparr>)
     else do {
       ns \<leftarrow> conv_of d;
       (_, cnt) \<leftarrow> phfrag_check ns lba n;
       Some (d\<lparr>nd_config := (nd_config d)\<lparr>nc_count := (nc_count (nd_config d) + cnt) mod 2 ^ 64\<rparr>\<rparr>)
     })"

end
