(* ===== verification/Device_Props.thy ===== *)
theory Device_Props
  imports Device_Commands Pci_Props Zns_Props Controller_Props
begin

text \<open>
  Properties of the set-up: what the text of a command means, that a created drive can be found and serves the host, in
  service too, and needs two processors for it, which
  sizes a drive with zones may have, where the table of a key-value store lies, and how drives are counted, named and lost.
\<close>

section \<open>The text of a command\<close>

fun join_args :: "string list \<Rightarrow> string" where
  "join_args [] = []"
| "join_args [a] = a"
| "join_args (a # b # as) = a @ CHR '' '' # join_args (b # as)"

definition no_blank :: "string \<Rightarrow> bool" where
  "no_blank s \<longleftrightarrow> CHR '' '' \<notin> set s \<and> NUL \<notin> set s"

definition arg_text :: "string \<times> string \<Rightarrow> string" where
  "arg_text = (\<lambda>(param, val). param @ ''='' @ val)"

definition command_text :: "string \<Rightarrow> (string \<times> string) list \<Rightarrow> string" where
  "command_text cmd args = cmd @ CHR '' '' # join_args (map arg_text args)"

lemma strsep_none: "d \<notin> set s \<Longrightarrow> strsep_all d s = [s]"
  by (induction s) auto

lemma strsep_append: "d \<notin> set s \<Longrightarrow> strsep_all d (s @ d # t) = s # strsep_all d t"
  by (induction s) auto

lemma strsep_join: "args \<noteq> [] \<Longrightarrow> (\<forall>a\<in>set args. CHR '' '' \<notin> set a) \<Longrightarrow> strsep_all CHR '' '' (join_args args) = args"
  by (induction args rule: join_args.induct) (simp_all add: strsep_none strsep_append)

lemma join_NUL: "(\<forall>a\<in>set args. NUL \<notin> set a) \<Longrightarrow> NUL \<notin> set (join_args args)"
  by (induction args rule: join_args.induct) auto

lemma takeWhile_no: "x \<notin> set s \<Longrightarrow> takeWhile (\<lambda>c. c \<noteq> x) s = s"
  by (induction s) auto

text \<open>The parameters are parsed from the text behind the command, and from what follows it in the local array.\<close>

lemma read_command_text:
  assumes "no_blank cmd" "NUL \<notin> set s" "length (cmd @ CHR '' '' # s) \<le> 128"
  shows "read_command k stack (cmd @ CHR '' '' # s) =
    (let after = drop (length (cmd @ CHR '' '' # s)) stack in
     if NUL \<in> set after then do { p \<leftarrow> parse_command k (s @ takeWhile (\<lambda>c. c \<noteq> NUL) after) PARAM_INIT; Some (cmd, p) } else None)"
proof -
  let ?t = "cmd @ CHR '' '' # s"
  have n: "NUL \<notin> set ?t" using assms(1,2) by (simp add: no_blank_def)
  have "strncpy stack ?t (min (length ?t) 128) = ?t @ drop (length ?t) stack"
    using assms(3) n by (simp add: strncpy_def takeWhile_no Let_def min_def del: append_Cons append_assoc)
  moreover have "parse_to_cmd (?t @ drop (length ?t) stack) = Some cmd"
    using assms(1) by (simp add: parse_to_cmd_def no_blank_def takeWhile_append) (auto simp: takeWhile_eq_all_conv)
  moreover have "takeWhile (\<lambda>c. c \<noteq> NUL) (s @ g) = s @ takeWhile (\<lambda>c. c \<noteq> NUL) g" for g
    using assms(2) by (induction s) auto
  then have "c_str (?t @ drop (length ?t) stack) (length cmd + 1) =
      (if NUL \<in> set (drop (length ?t) stack) then Some (s @ takeWhile (\<lambda>c. c \<noteq> NUL) (drop (length ?t) stack)) else None)"
    using assms(2) by (simp add: c_str_def)
  ultimately show ?thesis unfolding read_command_def by (simp add: Let_def)
qed

text \<open>C37: The text made of a command and a list of parameters is read as this command with these parameters, set one after the
  other on the defaults, when the array it is copied to ends the text with a zero.\<close>

theorem command_roundtrip:
  assumes "no_blank cmd" "args \<noteq> []" "\<forall>(param, val)\<in>set args. no_blank param \<and> no_blank val"
    "\<forall>(param, val)\<in>set args. next_arg k (param @ ''='' @ val) = (param, Some val)"
    "length (command_text cmd args) < length stack" "length stack = 128" "stack ! length (command_text cmd args) = NUL"
  shows "read_command k stack (command_text cmd args) =
    do { p \<leftarrow> foldM (\<lambda>(param, val). set_param k (param, Some val)) args PARAM_INIT; Some (cmd, p) }"
proof -
  let ?s = "join_args (map arg_text args)" and ?n = "length (command_text cmd args)"
  have s: "NUL \<notin> set ?s" using assms(3) by (intro join_NUL) (auto simp: arg_text_def no_blank_def)
  obtain rest where "drop ?n stack = NUL # rest" using assms(5,7) by (metis Cons_nth_drop_Suc)
  then have r: "read_command k stack (command_text cmd args) = do { p \<leftarrow> parse_command k ?s PARAM_INIT; Some (cmd, p) }"
    using read_command_text[OF assms(1) s, of k stack] assms(5,6) by (simp add: command_text_def Let_def)
  have "strsep_all CHR '' '' ?s = map arg_text args"
    using assms(2,3) by (intro strsep_join) (auto simp: arg_text_def no_blank_def)
  then have "parse_command k ?s PARAM_INIT = foldM (\<lambda>arg. set_param k (next_arg k arg)) (map arg_text args) PARAM_INIT"
    by (simp add: parse_command_def)
  also have "foldM (\<lambda>arg. set_param k (next_arg k arg)) (map arg_text args) p0 = foldM (\<lambda>(param, val). set_param k (param, Some val)) args p0" for p0
    using assms(4) by (induction args arbitrary: p0) (auto simp: arg_text_def intro!: Option.bind_cong)
  finally show ?thesis unfolding r by simp
qed

text \<open>A library that splits at the first equal sign and reads numbers in decimal.\<close>

definition digits_value :: "string \<Rightarrow> nat" where
  "digits_value s = foldl (\<lambda>n c. 10 * n + (of_char c - 48)) 0 s"

definition sample_lib :: klib where
  "sample_lib = \<lparr>next_arg = (\<lambda>s. (takeWhile (\<lambda>c. c \<noteq> CHR ''='') s, case dropWhile (\<lambda>c. c \<noteq> CHR ''='') s of [] \<Rightarrow> None | _ # v \<Rightarrow> Some v)),
     memparse = digits_value, kstrtol = (\<lambda>s. Some (int (digits_value s))), kstrtoint = (\<lambda>s. Some (int (digits_value s))),
     simple_strtol = (\<lambda>s. int (digits_value s)), e820_mapped_any = (\<lambda>a b t. t = E820_TYPE_RESERVED)\<rparr>"

theorem command_roundtrip_witness:
  "\<exists>p. read_command sample_lib (replicate 128 NUL) (command_text ''create'' [(''ftl'', ''conv''), (''name'', ''a'')]) = Some (''create'', p) \<and>
    pm_ftl p = SSD_TYPE_CONV \<and> pm_name p = Some ''a''"
proof -
  let ?args = "[(''ftl'', ''conv''), (''name'', ''a'')]"
  have "read_command sample_lib (replicate 128 NUL) (command_text ''create'' ?args) =
      do { p \<leftarrow> foldM (\<lambda>(param, val). set_param sample_lib (param, Some val)) ?args PARAM_INIT; Some (''create'', p) }"
    by (rule command_roundtrip) (simp_all add: no_blank_def command_text_def arg_text_def sample_lib_def)
  then show ?thesis by (simp add: set_param_def)
qed

text \<open>The text is copied without its terminating zero: the parameters go on with what the array held before.  One text gives
  a drive two names, and a text that fills the array is read past its end.\<close>

theorem command_runs_into_stack:
  assumes "no_blank name" "no_blank junk" "length (''delete name='' @ name @ junk) < 128"
    "\<forall>v. no_blank v \<longrightarrow> next_arg k (''name='' @ v) = (''name'', Some v)"
  shows "\<exists>stack p. length stack = 128 \<and> read_command k stack (''delete name='' @ name) = Some (''delete'', p) \<and> pm_name p = Some (name @ junk)"
proof -
  let ?t = "''delete'' @ CHR '' '' # (''name='' @ name)"
  define stack where "stack = replicate (length ?t) NUL @ junk @ replicate (128 - length ?t - length junk) NUL"
  have len: "length stack = 128" using assms(3) by (simp add: stack_def)
  obtain m where m: "128 - length ?t - length junk = Suc m" using assms(3) by (cases "128 - length ?t - length junk") auto
  have after: "drop (length ?t) stack = junk @ NUL # replicate m NUL" unfolding stack_def m by simp
  have nn: "no_blank (name @ junk)" using assms(1,2) by (simp add: no_blank_def)
  have tw: "takeWhile (\<lambda>c. c \<noteq> NUL) (junk @ NUL # replicate m NUL) = junk" using assms(2) by (induction junk) (auto simp: no_blank_def)
  have "read_command k stack ?t = do { p \<leftarrow> parse_command k ((''name='' @ name) @ junk) PARAM_INIT; Some (''delete'', p) }"
    using assms(1,3) by (subst read_command_text) (simp_all add: no_blank_def Let_def after[simplified] tw)
  moreover have "parse_command k ((''name='' @ name) @ junk) PARAM_INIT = Some (PARAM_INIT\<lparr>pm_name := Some (name @ junk)\<rparr>)"
  proof -
    have "CHR '' '' \<notin> set (''name='' @ name @ junk)" using nn by (simp add: no_blank_def)
    then have "strsep_all CHR '' '' (''name='' @ name @ junk) = [''name='' @ name @ junk]" by (rule strsep_none)
    then show ?thesis using assms(4)[rule_format, OF nn] by (simp add: parse_command_def set_param_def)
  qed
  ultimately show ?thesis using len by (intro exI[of _ stack]) simp
qed

theorem command_runs_into_stack_witness:
  "\<exists>stack p. length stack = 128 \<and> read_command sample_lib stack (''delete name='' @ ''a'') = Some (''delete'', p) \<and> pm_name p = Some (''a'' @ ''bc'')"
  by (rule command_runs_into_stack) (simp_all add: no_blank_def sample_lib_def)


section \<open>Creation\<close>

definition cpu_list :: "params \<Rightarrow> string list" where
  "cpu_list p = (case pm_cpus p of None \<Rightarrow> [] | Some s \<Rightarrow> strsep_all CHR '','' s)"

text \<open>Parameters the module accepts, with room for all workers and a reservation that does not wrap.\<close>

definition accepted :: "klib \<Rightarrow> params \<Rightarrow> bool" where
  "accepted k p \<longleftrightarrow> validate_configs k p = 0 \<and> length (cpu_list p) \<le> 33 \<and> pm_memmap_start p + pm_memmap_size p < 2 ^ 64"

lemma accepted_size: "accepted k p \<Longrightarrow> 2 ^ 20 < pm_memmap_size p \<and> pm_memmap_start p \<noteq> 0"
  by (auto simp: accepted_def validate_configs_def EINVAL_def EPERM_def split: if_splits)

lemma read_cpus_ok:
  "length cpus + length (nc_cpu_nr_io_workers cfg) \<le> 32 + of_bool first \<Longrightarrow> (first \<Longrightarrow> nc_cpu_nr_io_workers cfg = []) \<Longrightarrow>
    \<exists>disp ws. read_cpus k cpus first cfg = Some (cfg\<lparr>nc_cpu_nr_dispatcher := disp, nc_cpu_nr_io_workers := ws\<rparr>) \<and>
      length ws = length (nc_cpu_nr_io_workers cfg) + (length cpus - of_bool first)"
proof (induction cpus arbitrary: first cfg)
  case Nil
  then show ?case by (intro exI[of _ "nc_cpu_nr_dispatcher cfg"] exI[of _ "nc_cpu_nr_io_workers cfg"]) simp
next
  case (Cons c cpus)
  let ?n = "nat (simple_strtol k c mod 2 ^ 32)"
  show ?case
  proof (cases first)
    case True
    then show ?thesis using Cons.prems Cons.IH[of "cfg\<lparr>nc_cpu_nr_dispatcher := ?n\<rparr>" False] by (auto simp: Let_def)
  next
    case False
    then show ?thesis
      using Cons.prems Cons.IH[of "cfg\<lparr>nc_cpu_nr_io_workers := nc_cpu_nr_io_workers cfg @ [?n]\<rparr>" False] by (auto simp: Let_def)
  qed
qed

text \<open>The bytes a build for the key-value prototype takes off the reservation.\<close>

definition kv_reserved :: "nat \<Rightarrow> nat" where
  "kv_reserved base_ssd = (if base_ssd = KV_PROTOTYPE then 2 ^ 30 else 0)"

lemma wrapped_diff:
  assumes "b \<le> a" "a < 2 ^ 64"
  shows "(a + 2 ^ 64 - b) mod 2 ^ 64 = a - (b :: nat)"
proof -
  have "a + 2 ^ 64 - b = (a - b) + 2 ^ 64" using assms by simp
  moreover have "a - b < 2 ^ 64" using assms(2) by linarith
  ultimately show ?thesis by (metis mod_add_self2 mod_less)
qed

lemma load_configs_ok:
  assumes "accepted k p" "kv_reserved base_ssd + 2 ^ 20 < pm_memmap_size p"
  shows "\<exists>cfg. load_configs k base_ssd p = Some (Some cfg) \<and> nc_memmap_start cfg = pm_memmap_start p \<and>
    nc_storage_start cfg = pm_memmap_start p + 2 ^ 20 \<and> nc_storage_size cfg = pm_memmap_size p - kv_reserved base_ssd - 2 ^ 20 \<and>
    length (nc_cpu_nr_io_workers cfg) = length (cpu_list p) - 1"
proof -
  let ?sz = "pm_memmap_size p - kv_reserved base_ssd"
  define q where "q = (if base_ssd = KV_PROTOTYPE then p\<lparr>pm_memmap_size := (pm_memmap_size p + 2 ^ 64 - GB 1) mod 2 ^ 64\<rparr> else p)"
  have lim: "pm_memmap_size p < 2 ^ 64" "pm_memmap_start p + pm_memmap_size p < 2 ^ 64" using assms(1) unfolding accepted_def by linarith+
  have q: "pm_memmap_size q = ?sz" "pm_memmap_start q = pm_memmap_start p" "pm_cpus q = pm_cpus p"
    using wrapped_diff[OF _ lim(1), of "GB 1"] assms(2) by (auto simp: q_def kv_reserved_def)
  let ?c = "\<lparr>nc_memmap_start = pm_memmap_start q, nc_memmap_size = pm_memmap_size q,
      nc_storage_start = (pm_memmap_start q + MB 1) mod 2 ^ 64, nc_storage_size = (pm_memmap_size q + 2 ^ 64 - MB 1) mod 2 ^ 64,
      nc_cpu_nr_dispatcher = 2 ^ 32 - 1, nc_cpu_nr_io_workers = [],
      nc_nr_io_units = pm_nr_io_units q, nc_io_unit_shift = pm_io_unit_shift q,
      nc_read_delay = pm_read_delay q, nc_read_time = pm_read_time q, nc_read_trailing = pm_read_trailing q,
      nc_write_delay = pm_write_delay q, nc_write_time = pm_write_time q, nc_write_trailing = pm_write_trailing q, nc_count = 0\<rparr>"
  obtain disp ws where r: "read_cpus k (cpu_list p) True ?c = Some (?c\<lparr>nc_cpu_nr_dispatcher := disp, nc_cpu_nr_io_workers := ws\<rparr>)"
    "length ws = length (cpu_list p) - 1"
    using read_cpus_ok[of "cpu_list p" ?c True k] assms(1) by (auto simp: accepted_def)
  have "load_configs k base_ssd p = Some (Some (?c\<lparr>nc_cpu_nr_dispatcher := disp, nc_cpu_nr_io_workers := ws\<rparr>))"
    using r(1) assms(1) q(3) by (simp add: load_configs_def accepted_def cpu_list_def q_def[symmetric] Let_def)
  moreover have "(pm_memmap_start q + MB 1) mod 2 ^ 64 = pm_memmap_start p + 2 ^ 20" using lim(2) assms(2) q(2) by simp
  moreover have "(pm_memmap_size q + 2 ^ 64 - MB 1) mod 2 ^ 64 = ?sz - 2 ^ 20"
    unfolding q(1) using wrapped_diff[of "MB 1" ?sz] lim(1) assms(2) by simp
  ultimately show ?thesis using q(2) r(2) by simp
qed

lemma namespace_init_one:
  "NVMEV_NAMESPACE_INIT ev m d = do {
     (drv, cfg) \<leftarrow> init_namespace ev m d 0 (nc_storage_size (nd_config d)) (nc_storage_start (nd_config d)) ((ev_cfg ev)\<lparr>cfg_max_con := nat (nd_max_con d)\<rparr>);
     Some (d\<lparr>nd_ns := [\<lparr>sl_drive = drv, sl_size = nc_storage_size (nd_config d), sl_addr = nc_storage_start (nd_config d)\<rparr>], nd_mdts := MDTS cfg\<rparr>) }"
  by (simp add: NVMEV_NAMESPACE_INIT_def NR_NAMESPACES_def NS_CAPACITY_def Let_def case_prod_unfold)

text \<open>The drive before its namespace is made.\<close>

definition blank_device :: "nvmev_config \<Rightarrow> params \<Rightarrow> nv_module \<Rightarrow> nv_device" where
  "blank_device cfg p md = \<lparr>nd_config = cfg, nd_dev_id = md_nr_dev md,
     nd_dev_name = (case pm_name p of None \<Rightarrow> default_name (md_nr_dev md) | Some s \<Rightarrow> given_name s), nd_ftl = pm_ftl p, nd_ns = [], nd_mdts = 0,
     nd_io_unit_stat = replicate (nc_nr_io_units cfg) 0, nd_pci = VDEV_INIT, nd_degree_frag = 0, nd_max_con = 0, nd_num_list = 0,
     nd_workers = [], nd_worker_threads = [], nd_dispatcher = Stopped\<rparr>"

lemma create_device_eq:
  assumes "load_configs k base_ssd p = Some (Some cfg)" "ev_bus ev = Some bus"
    "NVMEV_PCI_INIT (nc_memmap_start cfg) bus (ev_scan ev) VDEV_INIT = Some pci"
  shows "create_device k base_ssd ev p md = map_option (\<lambda>d.
    (md\<lparr>md_nr_dev := (md_nr_dev md + 1) mod 2 ^ 32, md_devs := NVMEV_DISPATCHER_INIT (start_workers (d\<lparr>nd_pci := pci\<rparr>)) # md_devs md\<rparr>, 0))
    (NVMEV_NAMESPACE_INIT ev (md_mem md) (blank_device cfg p md))"
proof -
  have "nd_pci d = VDEV_INIT" if "NVMEV_NAMESPACE_INIT ev (md_mem md) (blank_device cfg p md) = Some d" for d
    using that by (auto simp: namespace_init_one blank_device_def bind_eq_Some_conv)
  then show ?thesis
    unfolding create_device_def assms(1) Let_def blank_device_def[symmetric]
    by (cases "NVMEV_NAMESPACE_INIT ev (md_mem md) (blank_device cfg p md)")
      (auto simp: blank_device_def[symmetric] assms(2,3))
qed

lemma create_conv_ok:
  assumes "accepted k p" "base_ssd \<noteq> KV_PROTOTYPE" "pm_ftl p = SSD_TYPE_CONV" "2 ^ 20 + 4 \<le> pm_memmap_size p" "pm_memmap_size p \<le> 2 ^ 45"
    "allocated (ev_raw ev)" "ev_bus ev = Some bus" "within_guarded (as_host (ev_scan ev))"
  shows "\<exists>d ns. create_device k base_ssd ev p md = Some (md\<lparr>md_nr_dev := (md_nr_dev md + 1) mod 2 ^ 32, md_devs := d # md_devs md\<rparr>, 0) \<and>
    conv_of d = Some ns \<and> nc_storage_start (nd_config d) = pm_memmap_start p + 2 ^ 20 \<and> nc_storage_size (nd_config d) = pm_memmap_size p - 2 ^ 20 \<and>
    cn_size ns = nc_storage_size (nd_config d) * 100 div 107 \<and> map sl_addr (nd_ns d) = [nc_storage_start (nd_config d)] \<and>
    capabilities [nd_pci d] bus = Some [(0x40, PCI_CAP_ID_PM), (0x50, PCI_CAP_ID_MSIX), (0x60, PCI_CAP_ID_EXP)] \<and> drive_ok ns \<and>
    length (nc_cpu_nr_io_workers (nd_config d)) = length (cpu_list p) - 1 \<and> nd_workers d = new_workers (length (cpu_list p) - 1) \<and>
    nd_worker_threads d = map Bound_to (nc_cpu_nr_io_workers (nd_config d)) \<and> nd_dispatcher d \<noteq> Stopped"
proof -
  obtain cfg where c: "load_configs k base_ssd p = Some (Some cfg)" "nc_memmap_start cfg = pm_memmap_start p"
    "nc_storage_start cfg = pm_memmap_start p + 2 ^ 20" "nc_storage_size cfg = pm_memmap_size p - 2 ^ 20"
    "length (nc_cpu_nr_io_workers cfg) = length (cpu_list p) - 1"
    using load_configs_ok[OF assms(1), of base_ssd] assms(2,4) by (auto simp: kv_reserved_def)
  obtain pci where pci: "NVMEV_PCI_INIT (nc_memmap_start cfg) bus (ev_scan ev) VDEV_INIT = Some pci"
    "capabilities [pci] bus = Some [(0x40, PCI_CAP_ID_PM), (0x50, PCI_CAP_ID_MSIX), (0x60, PCI_CAP_ID_EXP)]"
    using pci_init_ok[OF assms(8)] by blast
  let ?b = "blank_device cfg p md"
  let ?raw = "(ev_cfg ev)\<lparr>cfg_max_con := nat (nd_max_con ?b)\<rparr>"
  obtain fc where fc: "load_conv_configs ?raw = Some fc" by (simp add: load_conv_configs_def Let_def)
  have cap: "4 \<le> nc_storage_size cfg" "nc_storage_size cfg \<le> 2 ^ 45" using assms(4,5) c(4) by simp_all
  obtain ns where ns: "conv_init_namespace fc (nc_storage_size cfg) (ev_junk ev) (ev_clock ev) (ev_raw ev) ((ev_stats ev)\<lparr>ws_start := 0\<rparr>) (ev_wait ev) = Some ns"
    "ns_inv (host_pages ns) ns" "cn_nr_parts ns = 4" "cn_size ns = nc_storage_size cfg * 100 div 107" "secs_per_pg (ns_spp ns) = 8"
    "host_pages ns \<le> tt_pgs (ns_spp ns)"
    using conv_init_namespace_ok[OF fc cap assms(6)] by blast
  have "cn_size ns \<le> nc_storage_size cfg" unfolding ns(4) by (rule div_le_mono2[of 100 107 "nc_storage_size cfg * 100", THEN order_trans]) simp_all
  then have ok: "drive_ok ns" using ns cap(2) by (simp add: drive_ok_def)
  let ?d = "?b\<lparr>nd_ns := [\<lparr>sl_drive = Conv_drive ns, sl_size = nc_storage_size cfg, sl_addr = nc_storage_start cfg\<rparr>], nd_mdts := MDTS fc\<rparr>"
  let ?s = "NVMEV_DISPATCHER_INIT (start_workers (?d\<lparr>nd_pci := pci\<rparr>))"
  have "NVMEV_NAMESPACE_INIT ev (md_mem md) ?b = Some ?d"
    using assms(3) fc ns(1) by (simp add: namespace_init_one init_namespace_def blank_device_def)
  then have "create_device k base_ssd ev p md = Some (md\<lparr>md_nr_dev := (md_nr_dev md + 1) mod 2 ^ 32, md_devs := ?s # md_devs md\<rparr>, 0)"
    by (simp add: create_device_eq[OF c(1) assms(7) pci(1)])
  moreover have "conv_of ?s = Some ns" by (simp add: conv_of_def)
  ultimately show ?thesis using pci(2) ok ns(4) c(3-5)
    by (intro exI[of _ ?s] exI[of _ ns]) (simp add: blank_device_def)
qed

section \<open>A created drive at work\<close>

text \<open>The controller of a drive begins with the workers, the namespace and the address of the drive; its queues and doorbells are
  whatever the host makes of them.\<close>

definition begins :: "nv_device \<Rightarrow> conv_ns \<Rightarrow> conv_ns ctrl \<Rightarrow> bool" where
  "begins d ns ct \<longleftrightarrow> dv_workers (ct_io ct) = nd_workers d \<and> dv_nr_io_workers (ct_io ct) = length (nc_cpu_nr_io_workers (nd_config d)) \<and>
     dv_ns (ct_io ct) = ns \<and> dv_ns_mapped (ct_io ct) = map sl_addr (nd_ns d)"

text \<open>What the host, the administration commands and the completions the workers post may change: anything but these.\<close>

definition same_drive :: "'n ctrl \<Rightarrow> 'n ctrl \<Rightarrow> bool" where
  "same_drive ct ct' \<longleftrightarrow> dv_workers (ct_io ct') = dv_workers (ct_io ct) \<and> dv_nr_io_workers (ct_io ct') = dv_nr_io_workers (ct_io ct) \<and>
     dv_ns (ct_io ct') = dv_ns (ct_io ct) \<and> dv_ns_mapped (ct_io ct') = dv_ns_mapped (ct_io ct)"

text \<open>When the completion queues have an entry behind them, should their doorbells wrap.\<close>

definition cqs_roomy :: "'n ctrl \<Rightarrow> bool" where
  "cqs_roomy ct \<longleftrightarrow> (\<forall>j cq. 1 \<le> j \<longrightarrow> j \<le> dv_nr_cq (ct_io ct) \<longrightarrow> get_cq (ct_io ct) j = Some cq \<longrightarrow>
     room_behind cq (ct_dbs ct ! (j * 2 + 1)) (ct_old_dbs ct ! (j * 2 + 1)))"

text \<open>The states of a drive in service: the host changes its queues, a worker visits one of its items, write buffer is
  released, and the dispatcher looks at the doorbells.\<close>

inductive in_service :: "nv_device \<Rightarrow> conv_ns \<Rightarrow> conv_ns ctrl \<Rightarrow> bool" for d ns where
  serve_start: "begins d ns ct \<Longrightarrow> in_service d ns ct"
| serve_host: "in_service d ns ct \<Longrightarrow> same_drive ct ct' \<Longrightarrow> in_service d ns ct'"
| serve_visit: "in_service d ns ct \<Longrightarrow> i < length (dv_workers (ct_io ct)) \<Longrightarrow> cur < NR_MAX_PARALLEL_IO \<Longrightarrow>
    visit_work now cur (dv_workers (ct_io ct) ! i) = Some (wk, c, finished, nxt) \<Longrightarrow>
    in_service d ns (ct\<lparr>ct_io := put_worker (ct_io ct) i wk\<rparr>)"
| serve_release: "in_service d ns ct \<Longrightarrow> on_event (Buffer_released n) (dv_ns (ct_io ct)) = Some ns' \<Longrightarrow>
    in_service d ns (ct\<lparr>ct_io := (ct_io ct)\<lparr>dv_ns := ns'\<rparr>\<rparr>)"
| serve_round: "in_service d ns ct \<Longrightarrow> round_ready legal ct \<Longrightarrow> ct_dbs ct ! 0 = ct_old_dbs ct ! 0 \<Longrightarrow> cqs_roomy ct \<Longrightarrow>
    nvmev_proc_dbs hp conv_handler wall local_clock ct = Some ct' \<Longrightarrow> in_service d ns ct'"

lemma new_workers_ok:
  assumes "0 < n" "dv_workers dev = new_workers n" "dv_nr_io_workers dev = n"
  shows "workers_ok dev"
  using assms init_worker_ok by (auto simp: workers_ok_def new_workers_def)

lemma in_service_ok:
  assumes run: "in_service d ns ct" and d: "nd_workers d = new_workers n" "length (nc_cpu_nr_io_workers (nd_config d)) = n" "0 < n"
    "drive_ok ns" "nd_ns d \<noteq> []"
  shows "state_ok drive_ok (ct_io ct)"
  using run
proof induction
  case (serve_start ct)
  then show ?case using d new_workers_ok[OF d(3), of "ct_io ct"] by (auto simp: begins_def state_ok_def)
next
  case (serve_host ct ct')
  then show ?case by (simp add: same_drive_def state_ok_def workers_ok_def)
next
  case (serve_visit ct i cur now wk c finished nxt)
  have w: "workers_ok (ct_io ct)" using serve_visit(5) by (simp add: state_ok_def)
  obtain used free where "wq_ok (dv_workers (ct_io ct) ! i) used free" using workers_ok_nth[OF w serve_visit(2)] .
  then have "wq_ok wk used free" using visit_work_ok[of _ used free cur now] serve_visit(3,4) by fastforce
  from put_worker_ok[OF w this, of i] show ?case using serve_visit(5) by (simp add: state_ok_def only_workers_def)
next
  case (serve_release ct m ns')
  then show ?case using on_event_ok[of "dv_ns (ct_io ct)" "Buffer_released m"] by (auto simp: state_ok_def workers_ok_def)
next
  case (serve_round ct hp wall local_clock ct')
  then show ?case using conv_drive.proc_dbs_ok[OF serve_round(6,2,3), of hp wall local_clock] by (auto simp: cqs_roomy_def)
qed

text \<open>C33: Creating a page-mapped drive with accepted parameters, up to 32 TiB, and at least two processors puts at the head of
  the list a drive with a worker for each processor but the first and a thread for each of them and for the dispatcher.  Its
  storage follows the first MiB and ends where the reserved memory ends, and the host finds its capabilities.  Its namespace
  serves every legal sequence of commands, and in every state of the drive in service, whatever the host made of the queues in
  between, the dispatcher serves a round of legal commands to its end.  A round is as in C22: the administration doorbell is
  where it was, and a completion queue whose doorbell wraps has an entry behind it.\<close>

theorem created_drive_serves:
  assumes "accepted k p" "base_ssd \<noteq> KV_PROTOTYPE" "pm_ftl p = SSD_TYPE_CONV" "2 ^ 20 + 4 \<le> pm_memmap_size p" "pm_memmap_size p \<le> 2 ^ 45"
    "allocated (ev_raw ev)" "ev_bus ev = Some bus" "within_guarded (as_host (ev_scan ev))" "2 \<le> length (cpu_list p)"
  shows "\<exists>d ns. create_device k base_ssd ev p md = Some (md\<lparr>md_nr_dev := (md_nr_dev md + 1) mod 2 ^ 32, md_devs := d # md_devs md\<rparr>, 0) \<and>
    conv_of d = Some ns \<and> nc_storage_start (nd_config d) = pm_memmap_start p + 2 ^ 20 \<and>
    nc_storage_start (nd_config d) + nc_storage_size (nd_config d) = pm_memmap_start p + pm_memmap_size p \<and>
    cn_size ns = nc_storage_size (nd_config d) * 100 div 107 \<and>
    capabilities [nd_pci d] bus = Some [(0x40, PCI_CAP_ID_PM), (0x50, PCI_CAP_ID_MSIX), (0x60, PCI_CAP_ID_EXP)] \<and>
    length (nc_cpu_nr_io_workers (nd_config d)) = length (cpu_list p) - 1 \<and> length (nd_workers d) = length (cpu_list p) - 1 \<and>
    nd_worker_threads d = map Bound_to (nc_cpu_nr_io_workers (nd_config d)) \<and> nd_dispatcher d \<noteq> Stopped \<and>
    (\<forall>evs. (\<forall>e\<in>set evs. event_legal ns e) \<longrightarrow> (\<exists>ns'. foldM on_event evs ns = Some ns' \<and> drive_ok ns')) \<and>
    (\<forall>ct hp wall local_clock. in_service d ns ct \<longrightarrow> round_ready legal ct \<longrightarrow> ct_dbs ct ! 0 = ct_old_dbs ct ! 0 \<longrightarrow> cqs_roomy ct \<longrightarrow>
      (\<exists>ct'. nvmev_proc_dbs hp conv_handler wall local_clock ct = Some ct' \<and> round_done (\<lambda>c. c_opcode c = nvme_cmd_write) ct ct'))"
proof -
  obtain d ns where c: "create_device k base_ssd ev p md = Some (md\<lparr>md_nr_dev := (md_nr_dev md + 1) mod 2 ^ 32, md_devs := d # md_devs md\<rparr>, 0)"
    "conv_of d = Some ns" "nc_storage_start (nd_config d) = pm_memmap_start p + 2 ^ 20" "nc_storage_size (nd_config d) = pm_memmap_size p - 2 ^ 20"
    "cn_size ns = nc_storage_size (nd_config d) * 100 div 107"
    "map sl_addr (nd_ns d) = [nc_storage_start (nd_config d)]"
    "capabilities [nd_pci d] bus = Some [(0x40, PCI_CAP_ID_PM), (0x50, PCI_CAP_ID_MSIX), (0x60, PCI_CAP_ID_EXP)]" "drive_ok ns"
    "length (nc_cpu_nr_io_workers (nd_config d)) = length (cpu_list p) - 1" "nd_workers d = new_workers (length (cpu_list p) - 1)"
    "nd_worker_threads d = map Bound_to (nc_cpu_nr_io_workers (nd_config d))" "nd_dispatcher d \<noteq> Stopped"
    using create_conv_ok[OF assms(1-8), of md] by (elim exE conjE) (rule that; assumption)
  have w: "0 < length (cpu_list p) - 1" "nd_ns d \<noteq> []" using assms(9) c(6) by auto
  have "\<exists>ct'. nvmev_proc_dbs hp conv_handler wall local_clock ct = Some ct' \<and> round_done (\<lambda>c. c_opcode c = nvme_cmd_write) ct ct'"
    if "in_service d ns ct" "round_ready legal ct" "ct_dbs ct ! 0 = ct_old_dbs ct ! 0" "cqs_roomy ct" for ct hp wall local_clock
    using conv_drive.proc_dbs_ok[OF in_service_ok[OF that(1) c(10,9) w(1) c(8) w(2)] that(2,3) that(4)[unfolded cqs_roomy_def], of hp wall local_clock]
    by blast
  moreover have "nc_storage_start (nd_config d) + nc_storage_size (nd_config d) = pm_memmap_start p + pm_memmap_size p" using c(3,4) assms(4) by simp
  moreover have "\<exists>ns'. foldM on_event evs ns = Some ns' \<and> drive_ok ns'" if "\<forall>e\<in>set evs. event_legal ns e" for evs
    using run_events_ok[OF c(8) that] by blast
  ultimately show ?thesis using c by (intro exI[of _ d] exI[of _ ns] conjI) (simp_all add: new_workers_def)
qed

definition sample_params :: params where
  "sample_params = PARAM_INIT\<lparr>pm_memmap_start := 2 ^ 32, pm_memmap_size := 2 ^ 30 + 2 ^ 20, pm_cpus := Some ''1,2,3'', pm_ftl := SSD_TYPE_CONV\<rparr>"

definition sample_env :: setup_env where
  "sample_env = \<lparr>ev_cfg = blank_cfg, ev_junk = 0, ev_clock = (\<lambda>n. of_nat n * 1000), ev_raw = gib_raw, ev_stats = blank_stats, ev_wait = 0,
     ev_zns_old = zero_zp, ev_zns_chk = False, ev_kv_iter = None,
     ev_kv_pool = \<lparr>bm_small_nbits = 0, bm_large_nbits = 0, bm_small = (\<lambda>_. False), bm_large = (\<lambda>_. False), bm_small_capacity = 0,
       bm_large_capacity = 0, bm_small_last_pos = 0, bm_large_last_pos = 0, bm_dev_size = 0, bm_total_written = 0\<rparr>,
     ev_bus = Some 16, ev_scan = [(16, 4, 0xFFFFFFFF), (16, 4, 0x00100000)], ev_lists = (\<lambda>n. 0 < n), ev_rnd = (\<lambda>n. n), ev_line_addr = (\<lambda>q n. n),
     ev_pad = 0, ev_queue_mem = (\<lambda>q. Some []), ev_spare = 4\<rparr>"

lemma sample_ok: "accepted sample_lib sample_params" "allocated (ev_raw sample_env)" "ev_bus sample_env = Some 16"
  "within_guarded (as_host (ev_scan sample_env))"
  using gib_allocated
  by (simp_all add: accepted_def validate_configs_def validate_configs_arch_def sample_params_def sample_lib_def PARAM_INIT_def cpu_list_def
      sample_env_def within_guarded_def as_host_def aligned_access_def guarded_def OFFS_PCI_PM_CAP_def)

definition empty_module :: nv_module where
  "empty_module = NVMeV_init (\<lambda>_. None) (\<lambda>_. 0)"

theorem created_drive_serves_witness:
  "\<exists>d ns ct ct'. create_device sample_lib 5 sample_env sample_params empty_module =
      Some (empty_module\<lparr>md_nr_dev := (md_nr_dev empty_module + 1) mod 2 ^ 32, md_devs := d # md_devs empty_module\<rparr>, 0) \<and>
    conv_of d = Some ns \<and> length (nd_workers d) = 2 \<and> in_service d ns ct \<and>
    nvmev_proc_dbs example_host conv_handler (\<lambda>_ _. 5000) (\<lambda>_ _. 6000) ct = Some ct' \<and> ct_old_dbs ct' ! 3 = 2"
proof -
  have s: "(5 :: nat) \<noteq> KV_PROTOTYPE" "pm_ftl sample_params = SSD_TYPE_CONV" "2 ^ 20 + 4 \<le> pm_memmap_size sample_params"
    "pm_memmap_size sample_params \<le> 2 ^ 45" by (simp_all add: KV_PROTOTYPE_def sample_params_def)
  have cpus: "length (cpu_list sample_params) = 3" by (simp add: cpu_list_def sample_params_def)
  then have two: "2 \<le> length (cpu_list sample_params)" by simp
  obtain d ns where r: "create_device sample_lib 5 sample_env sample_params empty_module =
      Some (empty_module\<lparr>md_nr_dev := (md_nr_dev empty_module + 1) mod 2 ^ 32, md_devs := d # md_devs empty_module\<rparr>, 0)"
    "conv_of d = Some ns" "nc_storage_start (nd_config d) = pm_memmap_start sample_params + 2 ^ 20"
    "nc_storage_start (nd_config d) + nc_storage_size (nd_config d) = pm_memmap_start sample_params + pm_memmap_size sample_params"
    "cn_size ns = nc_storage_size (nd_config d) * 100 div 107" "length (nc_cpu_nr_io_workers (nd_config d)) = length (cpu_list sample_params) - 1"
    "length (nd_workers d) = length (cpu_list sample_params) - 1"
    "\<forall>ct hp wall local_clock. in_service d ns ct \<longrightarrow> round_ready legal ct \<longrightarrow> ct_dbs ct ! 0 = ct_old_dbs ct ! 0 \<longrightarrow> cqs_roomy ct \<longrightarrow>
      (\<exists>ct'. nvmev_proc_dbs hp conv_handler wall local_clock ct = Some ct' \<and> round_done (\<lambda>c. c_opcode c = nvme_cmd_write) ct ct')"
    using created_drive_serves[OF sample_ok(1) s sample_ok(2-4) two, of empty_module] by (elim exE conjE)
  let ?c = "rq_cmd (rw_request nvme_cmd_write 16 15)"
  let ?ct = "round_on ?c (nd_workers d) ns (map sl_addr (nd_ns d))"
  have "nc_storage_size (nd_config d) = 2 ^ 30" using r(3,4) by (simp add: sample_params_def)
  then have l: "legal ns ?c" "c_nsid ?c = 1" using r(5) by (simp_all add: legal_def rw_request_def nr_lba_def)
  note ready = round_on_ready[OF l, of "nd_workers d" "map sl_addr (nd_ns d)"]
  have "begins d ns ?ct" using r(6,7) by (simp add: begins_def round_on_def Let_def)
  then have serv: "in_service d ns ?ct" by (rule serve_start)
  have "cqs_roomy ?ct" using ready(3) unfolding cqs_roomy_def .
  then obtain ct' where ct': "nvmev_proc_dbs example_host conv_handler (\<lambda>_ _. 5000) (\<lambda>_ _. 6000) ?ct = Some ct'"
    "round_done (\<lambda>c. c_opcode c = nvme_cmd_write) ?ct ct'"
    using r(8) serv ready(1,2) by blast
  obtain cq where "get_cq (ct_io ?ct) 1 = Some cq" using ready(5) by (simp add: one_worker_def)
  then have "ct_old_dbs ct' ! (1 * 2 + 1) = ct_dbs ?ct ! (1 * 2 + 1)" using ct'(2) ready(4) unfolding round_done_def by force
  then have "ct_old_dbs ct' ! 3 = 2" using ready(6) by simp
  then show ?thesis using r(1,2,7) cpus serv ct'(1) by (intro exI[of _ d] exI[of _ ns] exI[of _ ?ct] exI[of _ ct']) simp
qed

text \<open>With one processor or none there is no worker, and the first command that is not refused divides by zero.\<close>

theorem one_processor_divides_by_zero:
  assumes "accepted k p" "base_ssd \<noteq> KV_PROTOTYPE" "pm_ftl p = SSD_TYPE_CONV" "2 ^ 20 + 4 \<le> pm_memmap_size p" "pm_memmap_size p \<le> 2 ^ 45"
    "allocated (ev_raw ev)" "ev_bus ev = Some bus" "within_guarded (as_host (ev_scan ev))" "length (cpu_list p) \<le> 1"
  shows "\<exists>d ns. create_device k base_ssd ev p md = Some (md\<lparr>md_nr_dev := (md_nr_dev md + 1) mod 2 ^ 32, md_devs := d # md_devs md\<rparr>, 0) \<and>
    conv_of d = Some ns \<and> nd_workers d = [] \<and>
    (\<forall>ct sqid sq e. begins d ns ct \<longrightarrow> entries_ok legal (ct_io ct) sqid e 1 \<longrightarrow> get_sq (ct_io ct) sqid = Some sq \<longrightarrow>
      c_opcode (sq_sq sq ! e) \<noteq> nvme_cmd_write \<longrightarrow> nvmev_proc_io conv_handler sqid e wall local_clock (ct_io ct) = None)"
proof -
  obtain d ns where c: "create_device k base_ssd ev p md = Some (md\<lparr>md_nr_dev := (md_nr_dev md + 1) mod 2 ^ 32, md_devs := d # md_devs md\<rparr>, 0)"
    "conv_of d = Some ns" "map sl_addr (nd_ns d) = [nc_storage_start (nd_config d)]" "drive_ok ns"
    "length (nc_cpu_nr_io_workers (nd_config d)) = length (cpu_list p) - 1" "nd_workers d = new_workers (length (cpu_list p) - 1)"
    using create_conv_ok[OF assms(1-8), of md] by (elim exE conjE) (rule that; assumption)
  have n: "length (cpu_list p) - 1 = 0" using assms(9) by simp
  have "nvmev_proc_io conv_handler sqid e wall local_clock (ct_io ct) = None"
    if "begins d ns ct" "entries_ok legal (ct_io ct) sqid e 1" "get_sq (ct_io ct) sqid = Some sq" "c_opcode (sq_sq sq ! e) \<noteq> nvme_cmd_write" for ct sqid sq e
    using that c(3-5) n by (intro conv_drive.proc_io_no_workers[of "ct_io ct" sqid e 0 sq]) (auto simp: begins_def)
  then show ?thesis using c(1,2,6) n by (intro exI[of _ d] exI[of _ ns]) (simp add: new_workers_def)
qed

theorem one_processor_divides_by_zero_witness:
  "\<exists>d ns. create_device sample_lib 5 sample_env (sample_params\<lparr>pm_cpus := Some ''1''\<rparr>) empty_module =
      Some (empty_module\<lparr>md_nr_dev := (md_nr_dev empty_module + 1) mod 2 ^ 32, md_devs := d # md_devs empty_module\<rparr>, 0) \<and>
    conv_of d = Some ns \<and> nd_workers d = []"
proof -
  let ?p = "sample_params\<lparr>pm_cpus := Some ''1''\<rparr>"
  have "accepted sample_lib ?p"
    by (simp add: accepted_def validate_configs_def validate_configs_arch_def sample_params_def sample_lib_def PARAM_INIT_def cpu_list_def)
  moreover have "(5 :: nat) \<noteq> KV_PROTOTYPE" "pm_ftl ?p = SSD_TYPE_CONV" "2 ^ 20 + 4 \<le> pm_memmap_size ?p"
    "pm_memmap_size ?p \<le> 2 ^ 45" "length (cpu_list ?p) \<le> 1" by (simp_all add: KV_PROTOTYPE_def sample_params_def cpu_list_def)
  ultimately show ?thesis using one_processor_divides_by_zero[of sample_lib ?p 5 sample_env 16 empty_module 0 0] sample_ok(2-4) by blast
qed

lemma odd_mib: "n mod 2097152 = 0 \<longleftrightarrow> (n + 1048576) mod 2097152 = (1048576 :: nat)"
proof -
  define x where "x = n mod 2097152"
  have x: "x < 2097152" by (simp add: x_def)
  have "(n + 1048576) mod 2097152 = (x + 1048576) mod 2097152" by (simp add: x_def mod_simps)
  moreover have "(x + 1048576) mod 2097152 = (if x < 1048576 then x + 1048576 else x - 1048576)"
    using x by (simp add: mod_if)
  ultimately show ?thesis using x by (auto simp: x_def[symmetric])
qed

text \<open>C38: A drive with zones below 2 TiB can be created exactly when the reserved memory is an odd number of MiB: one MiB goes to
  the registers and the rest must be whole zones.  Any other size fails an assertion of the module.\<close>

theorem zns_drive_sizes:
  assumes "accepted k p" "base_ssd \<noteq> KV_PROTOTYPE" "pm_ftl p = SSD_TYPE_ZNS" "pm_memmap_size p < 2 ^ 41"
    "ev_bus ev = Some bus" "within_guarded (as_host (ev_scan ev))"
  shows "create_device k base_ssd ev p md \<noteq> None \<longleftrightarrow> pm_memmap_size p mod 2 ^ 21 = 2 ^ 20"
proof -
  note s = accepted_size[OF assms(1)]
  obtain cfg where c: "load_configs k base_ssd p = Some (Some cfg)" "nc_storage_size cfg = pm_memmap_size p - 2 ^ 20"
    using load_configs_ok[OF assms(1), of base_ssd] assms(2) s by (auto simp: kv_reserved_def)
  obtain pci where pci: "NVMEV_PCI_INIT (nc_memmap_start cfg) bus (ev_scan ev) VDEV_INIT = Some pci"
    using pci_init_ok[OF assms(6)] by blast
  let ?b = "blank_device cfg p md" and ?n = "pm_memmap_size p - 2 ^ 20"
  obtain fc where fc: "load_zns_configs ((ev_cfg ev)\<lparr>cfg_max_con := nat (nd_max_con ?b)\<rparr>) = Some fc"
    by (simp add: load_zns_configs_def Let_def)
  let ?init = "zns_init_namespace fc ?n (ev_zns_old ev) (ev_junk ev) (ev_zns_chk ev) (ev_clock ev) (\<lambda>a. md_mem md (nc_storage_start cfg + a))"
  have "create_device k base_ssd ev p md \<noteq> None \<longleftrightarrow> ?init \<noteq> None"
    using fc c(2) assms(3)
    by (simp add: create_device_eq[OF c(1) assms(5) pci] namespace_init_one init_namespace_def blank_device_def case_prod_unfold
        split: bind_split)
  moreover have "?init \<noteq> None \<longleftrightarrow> ?n mod 2097152 = 0"
  proof
    assume "?init \<noteq> None"
    then show "?n mod 2097152 = 0"
      by (auto simp: zns_init_namespace_def zns_cfg_fields(12)[OF fc] zns_init_params_def bind_eq_Some_conv Let_def)
  next
    assume "?n mod 2097152 = 0"
    then show "?init \<noteq> None" using zns_init_namespace_ok[OF fc, of ?n] assms(4) by force
  qed
  moreover have "?n mod 2097152 = 0 \<longleftrightarrow> pm_memmap_size p mod 2 ^ 21 = 2 ^ 20"
  proof -
    have r: "pm_memmap_size p = (pm_memmap_size p - 1048576) + 1048576" using s by simp
    show ?thesis unfolding odd_mib[of ?n] using r by simp
  qed
  ultimately show ?thesis by metis
qed


theorem zns_drive_sizes_witness:
  "create_device sample_lib 5 sample_env (sample_params\<lparr>pm_ftl := SSD_TYPE_ZNS\<rparr>) empty_module \<noteq> None \<and>
    create_device sample_lib 5 sample_env (sample_params\<lparr>pm_ftl := SSD_TYPE_ZNS, pm_memmap_size := 2 ^ 30\<rparr>) empty_module = None"
proof -
  let ?p = "sample_params\<lparr>pm_ftl := SSD_TYPE_ZNS\<rparr>" and ?q = "sample_params\<lparr>pm_ftl := SSD_TYPE_ZNS, pm_memmap_size := 2 ^ 30\<rparr>"
  have acc: "accepted sample_lib ?p" "accepted sample_lib ?q" "(5 :: nat) \<noteq> KV_PROTOTYPE"
    by (simp_all add: accepted_def validate_configs_def validate_configs_arch_def sample_params_def sample_lib_def PARAM_INIT_def cpu_list_def
        KV_PROTOTYPE_def)
  have "create_device sample_lib 5 sample_env ?p empty_module \<noteq> None \<longleftrightarrow> pm_memmap_size ?p mod 2 ^ 21 = 2 ^ 20"
    by (rule zns_drive_sizes[OF acc(1,3) _ _ sample_ok(3,4)]) (simp_all add: sample_params_def)
  moreover have "create_device sample_lib 5 sample_env ?q empty_module \<noteq> None \<longleftrightarrow> pm_memmap_size ?q mod 2 ^ 21 = 2 ^ 20"
    by (rule zns_drive_sizes[OF acc(2,3) _ _ sample_ok(3,4)]) (simp_all add: sample_params_def)
  moreover have "pm_memmap_size ?p mod 2 ^ 21 = 2 ^ 20" "pm_memmap_size ?q mod 2 ^ 21 \<noteq> 2 ^ 20" by (simp_all add: sample_params_def)
  ultimately show ?thesis by blast
qed

text \<open>The table of a key-value store fills the last GiB of the reserved memory in a build for the key-value prototype.  In
  every other build, the default one included, it lies wholly behind the reserved memory.\<close>

theorem kv_table_place:
  assumes "accepted k p" "kv_reserved base_ssd + 2 ^ 20 < pm_memmap_size p"
  shows "\<exists>cfg. load_configs k base_ssd p = Some (Some cfg) \<and>
    kv_table_range cfg = (let last = pm_memmap_start p + pm_memmap_size p in
      if base_ssd = KV_PROTOTYPE then (last - 2 ^ 30, last) else (last, last + 2 ^ 30))"
proof -
  obtain cfg where "load_configs k base_ssd p = Some (Some cfg)" "nc_storage_start cfg = pm_memmap_start p + 2 ^ 20"
    "nc_storage_size cfg = pm_memmap_size p - kv_reserved base_ssd - 2 ^ 20" using load_configs_ok[OF assms] by blast
  then show ?thesis using assms(2) by (auto simp: kv_table_range_def kv_reserved_def Let_def)
qed

theorem kv_table_place_witness:
  "\<exists>cfg. load_configs sample_lib 5 sample_params = Some (Some cfg) \<and>
    kv_table_range cfg = (2 ^ 32 + 2 ^ 30 + 2 ^ 20, 2 ^ 32 + 2 ^ 31 + 2 ^ 20)"
  using kv_table_place[OF sample_ok(1), of 5] by (simp add: kv_reserved_def KV_PROTOTYPE_def sample_params_def Let_def)

section \<open>The list of drives\<close>

lemma init_namespace_slots: "NVMEV_NAMESPACE_INIT ev m d = Some d' \<Longrightarrow> length (nd_ns d') = 1 \<and> nd_dev_name d' = nd_dev_name d \<and> nd_dev_id d' = nd_dev_id d"
  by (auto simp: namespace_init_one bind_eq_Some_conv)

text \<open>A creation that returns either added a drive with a new number or left the list alone.\<close>

lemma create_device_result:
  assumes "create_device k base_ssd ev p md = Some (md', r)"
  obtains (added) d where "r = 0" "md' = md\<lparr>md_nr_dev := (md_nr_dev md + 1) mod 2 ^ 32, md_devs := d # md_devs md\<rparr>"
      "nd_dev_name d = (case pm_name p of None \<Rightarrow> default_name (md_nr_dev md) | Some s \<Rightarrow> given_name s)" "length (nd_ns d) = 1"
  | (no_bus) "r = - EIO" "md' = md\<lparr>md_nr_dev := dec32 ((md_nr_dev md + 1) mod 2 ^ 32)\<rparr>"
  using assms
  by (auto simp: create_device_def bind_eq_Some_conv Let_def split: option.splits dest!: init_namespace_slots)

definition module_ok :: "nv_module \<Rightarrow> bool" where
  "module_ok md \<longleftrightarrow> md_nr_dev md = length (md_devs md) mod 2 ^ 32 \<and> (\<forall>d\<in>set (md_devs md). length (nd_dev_name d) = NAME_SIZE \<and> length (nd_ns d) = 1)"

lemma dec32_mod: "dec32 ((n + 1) mod 2 ^ 32) = n mod 2 ^ 32"
proof -
  have "((n + 1) mod 2 ^ 32 + (2 ^ 32 - 1)) mod 2 ^ 32 = (n + 1 + (2 ^ 32 - 1)) mod (2 ^ 32 :: nat)" by (rule mod_add_left_eq)
  also have "n + 1 + (2 ^ 32 - 1) = n + (2 ^ 32 :: nat)" by simp
  finally show ?thesis by (simp add: dec32_def)
qed

lemma name_lengths: "length (default_name i) = NAME_SIZE" "length (given_name s) = NAME_SIZE"
  by (simp_all add: default_name_def given_name_def strncpy_def Let_def NAME_SIZE_def)

lemma create_module_ok: "module_ok md \<Longrightarrow> create_device k base_ssd ev p md = Some (md', r) \<Longrightarrow> module_ok md'"
  by (erule create_device_result)
    (auto simp: module_ok_def name_lengths dec32_mod[simplified] mod_Suc_eq split: option.splits)

lemma find_device_in:
  assumes "find_device name md = Some (i, d)"
  shows "i < length (md_devs md)" "d = md_devs md ! i"
  using assms by (auto simp: find_device_def bind_eq_Some_conv dest!: array_read_SomeD)

lemma delete_module_ok:
  assumes "module_ok md" "i < length (md_devs md)"
  shows "module_ok (delete_device i md)"
proof -
  obtain n where n: "length (md_devs md) = n + 1" using assms(2) by (cases "length (md_devs md)") auto
  have "dec32 (md_nr_dev md) = n mod 2 ^ 32" using assms(1) dec32_mod[of n] by (simp add: module_ok_def n)
  then show ?thesis using assms n by (auto simp: module_ok_def delete_device_def dest: in_set_takeD in_set_dropD)
qed

lemma put_module_ok:
  "module_ok md \<Longrightarrow> length (nd_dev_name d) = NAME_SIZE \<Longrightarrow> length (nd_ns d) = 1 \<Longrightarrow> module_ok (put_device i d md)"
  by (auto simp: module_ok_def put_device_def dest!: set_update_subset_insert[THEN subsetD])


text \<open>What a command on one drive leaves of its name and of its only namespace.\<close>

lemma set_drive_shape:
  "nd_dev_name (set_drive d drv) = nd_dev_name d" "nd_ns d \<noteq> [] \<Longrightarrow> length (nd_ns (set_drive d drv)) = length (nd_ns d)"
  by (simp_all add: set_drive_def)

lemma device_shape:
  assumes "module_ok md" "find_device name md = Some (i, d)"
  shows "length (nd_dev_name d) = NAME_SIZE" "length (nd_ns d) = 1"
  using assms(1) find_device_in[OF assms(2)] nth_mem[of i "md_devs md"] unfolding module_ok_def by auto

lemma files_mem_ok [simp]: "module_ok (md\<lparr>md_files := fs\<rparr>) = module_ok md" "module_ok (md\<lparr>md_mem := m\<rparr>) = module_ok md"
  by (simp_all add: module_ok_def)

lemma clean_module_ok:
  assumes "module_ok md" "find_device name md = Some (i, d)" "clean_command ev p i d md = Some md'"
  shows "module_ok md'"
  using assms(3) device_shape[OF assms(1,2)]
  by (auto simp: clean_command_def bind_eq_Some_conv Let_def set_drive_def split: if_splits dest!: init_namespace_slots
      intro!: put_module_ok[OF assms(1)])

lemma load_module_ok:
  assumes "module_ok md" "find_device name md = Some (i, d)" "load_command ev dir i d md = Some md'"
  shows "module_ok md'"
  using assms(3) device_shape[OF assms(1,2)] assms(1)
  by (auto simp: load_command_def bind_eq_Some_conv Let_def set_drive_def split: option.splits intro!: put_module_ok)

lemma zns_load_module_ok:
  assumes "module_ok md" "find_device name md = Some (i, d)" "zns_load_command dir i d md = Some md'"
  shows "module_ok md'"
  using assms(3) device_shape[OF assms(1,2)] assms(1)
  by (auto simp: zns_load_command_def bind_eq_Some_conv Let_def set_drive_def split: option.splits intro!: put_module_ok)

lemma other_module_ok:
  assumes "module_ok md" "find_device name md = Some (i, d)"
  shows "save_command ev dir d md = Some md' \<Longrightarrow> module_ok md'" "compftl_command ev dir d md = Some md' \<Longrightarrow> module_ok md'"
    "zns_save_command dir d md = Some md' \<Longrightarrow> module_ok md'" "phfrag_command reset i d md = Some md' \<Longrightarrow> module_ok md'"
  using device_shape[OF assms] assms(1)
  by (auto simp: save_command_def compftl_command_def zns_save_command_def phfrag_command_def bind_eq_Some_conv Let_def intro!: put_module_ok)

lemma run_command_ok:
  assumes ok: "module_ok md" and run: "run_command k base_ssd ev cmd p md = Some md'"
  shows "module_ok md'"
proof (cases "cmd = ''create''")
  case True
  then show ?thesis using run create_module_ok[OF ok] by (auto simp: run_command_def)
next
  case False
  show ?thesis
  proof (cases "pm_name p")
    case None
    then show ?thesis using run False ok by (simp add: run_command_def)
  next
    case (Some name)
    show ?thesis
      using run False Some ok
      by (auto simp: run_command_def bind_eq_Some_conv split: if_splits
          intro: delete_module_ok[OF ok] clean_module_ok[OF ok] load_module_ok[OF ok] zns_load_module_ok[OF ok] other_module_ok[OF ok]
          dest: find_device_in(1))
  qed
qed

text \<open>The states the module can reach by what is written to its configuration file.\<close>

inductive module_reach :: "klib \<Rightarrow> nat \<Rightarrow> nv_module \<Rightarrow> bool" for k base_ssd where
  module_start: "module_reach k base_ssd (NVMeV_init files m)"
| module_step: "module_reach k base_ssd md \<Longrightarrow> config_store k base_ssd ev stack buf md = Some md' \<Longrightarrow> module_reach k base_ssd md'"

text \<open>C39: After any commands the counter of drives is the number of drives in the list, every drive has a name of 30 characters
  and exactly one namespace.\<close>

theorem drives_counted:
  assumes "module_reach k base_ssd md"
  shows "md_nr_dev md = length (md_devs md) mod 2 ^ 32 \<and> (\<forall>d\<in>set (md_devs md). length (nd_dev_name d) = NAME_SIZE \<and> length (nd_ns d) = 1)"
proof -
  from assms have "module_ok md"
  proof induction
    case (module_start files m)
    then show ?case by (simp add: module_ok_def NVMeV_init_def)
  next
    case (module_step md ev stack buf md')
    then show ?case by (auto simp: config_store_def bind_eq_Some_conv intro: run_command_ok)
  qed
  then show ?thesis unfolding module_ok_def .
qed

theorem drives_counted_witness:
  "\<exists>md. module_reach sample_lib 5 md \<and> md_nr_dev md = length (md_devs md) mod 2 ^ 32"
proof -
  have r: "module_reach sample_lib 5 empty_module" unfolding empty_module_def by (rule module_start)
  from drives_counted[OF this] show ?thesis using r by blast
qed

section \<open>Names\<close>

text \<open>C40: The number of a new drive is the number of drives there are.  After another than the last drive was deleted, the next
  one gets the name of the last one, and from then on no command reaches that one.\<close>

theorem default_names_collide:
  assumes "md_devs md = newest # others" "nd_dev_name newest = default_name (length others)" "md_nr_dev md = length (md_devs md)"
    "length (md_devs md) < 2 ^ 32" "0 < i" "i < length (md_devs md)" "pm_name p = None"
    "create_device k base_ssd ev p (delete_device i md) = Some (md', 0)"
  shows "\<exists>d. take 2 (md_devs md') = [d, newest] \<and> nd_dev_name d = nd_dev_name newest \<and>
    (\<forall>name j e. find_device name md' = Some (j, e) \<longrightarrow> j \<noteq> 1)"
proof -
  have n: "md_nr_dev (delete_device i md) = length others" using assms(1,3,4) by (simp add: delete_device_def)
  have devs: "md_devs (delete_device i md) = newest # take (i - 1) others @ drop i others"
    using assms(1,5) by (cases i) (simp_all add: delete_device_def)
  obtain d where d: "md_devs md' = d # newest # take (i - 1) others @ drop i others" "nd_dev_name d = default_name (length others)"
    using assms(8) by (rule create_device_result) (use assms(7) n devs in \<open>auto simp: EIO_def\<close>)
  have "r \<noteq> Some 1" if "get_nvmev name (md_devs md') = Some r" for name r
    using that d assms(2) by (auto simp: bind_eq_Some_conv split: if_splits)
  then show ?thesis using d assms(2) by (fastforce simp: find_device_def bind_eq_Some_conv)
qed

definition sample_device :: "nat \<Rightarrow> nv_device" where
  "sample_device n = blank_device (the (the (load_configs sample_lib 5 sample_params))) sample_params (empty_module\<lparr>md_nr_dev := n\<rparr>)"

definition two_drives :: nv_module where
  "two_drives = empty_module\<lparr>md_devs := [sample_device 1, sample_device 0], md_nr_dev := 2\<rparr>"

theorem default_names_collide_witness:
  "\<exists>d md'. create_device sample_lib 5 sample_env sample_params (delete_device 1 two_drives) = Some (md', 0) \<and>
    take 2 (md_devs md') = [d, sample_device 1] \<and> nd_dev_name d = nd_dev_name (sample_device 1)"
proof -
  have s: "(5 :: nat) \<noteq> KV_PROTOTYPE" "pm_ftl sample_params = SSD_TYPE_CONV" "2 ^ 20 + 4 \<le> pm_memmap_size sample_params"
    "pm_memmap_size sample_params \<le> 2 ^ 45" by (simp_all add: KV_PROTOTYPE_def sample_params_def)
  obtain md' where c: "create_device sample_lib 5 sample_env sample_params (delete_device 1 two_drives) = Some (md', 0)"
    using create_conv_ok[OF sample_ok(1) s sample_ok(2-4), of "delete_device 1 two_drives"] by blast
  have n: "pm_name sample_params = None" by (simp add: sample_params_def PARAM_INIT_def)
  have "\<exists>d. take 2 (md_devs md') = [d, sample_device 1] \<and> nd_dev_name d = nd_dev_name (sample_device 1) \<and>
      (\<forall>name j e. find_device name md' = Some (j, e) \<longrightarrow> j \<noteq> 1)"
    by (rule default_names_collide[OF _ _ _ _ _ _ n c, where others = "[sample_device 0]"])
      (simp_all add: two_drives_def sample_device_def blank_device_def n)
  then show ?thesis using c by blast
qed

text \<open>A name that fills its array is not found again: the comparison reads past the array.\<close>

lemma long_name_lost:
  assumes "length name = NAME_SIZE" "NUL \<notin> set name" "nd_dev_name d = given_name name"
  shows "get_nvmev name (d # ds) = None"
proof -
  have "given_name name = name" using assms(1,2) by (simp add: given_name_def strncpy_def takeWhile_no Let_def)
  moreover have "strcmp_eq s s = None" for s by (induction s) auto
  ultimately show ?thesis using assms(3) by simp
qed

text \<open>Refused parameters end in the error path that unlinks a drive never linked, as those of a command without any do.\<close>

lemma bare_create_crashes:
  "run_command k base_ssd ev ''create'' PARAM_INIT md = None"
  by (simp add: run_command_def create_device_def load_configs_def validate_configs_def PARAM_INIT_def EINVAL_def)

text \<open>Rewriting a drive without a number of lists, for which no memory can be had, stops its threads for good and
  rewrites nothing.\<close>

lemma clean_without_lists:
  assumes "find_device name md = Some (i, d)" "pm_name p = Some name" "pm_num_chunk p = 0" "conv_of d = Some ns"
  shows "\<exists>d'. run_command k base_ssd ev ''clean'' p md = Some (put_device i d' md) \<and> nd_dispatcher d' = Stopped \<and> nd_workers d' = [] \<and>
    conv_of d' = Some (set_max_con (pm_max_con p) ns)"
proof -
  let ?d = "NVMEV_IO_WORKER_FINAL (NVMEV_DISPATCHER_FINAL
    (d\<lparr>nd_degree_frag := pm_degree_frag p, nd_max_con := pm_max_con p, nd_num_list := pm_num_chunk p\<rparr>))"
  have f: "nd_num_list ?d = 0" "nd_max_con ?d = pm_max_con p" "nd_ns ?d = nd_ns d"
    using assms(3) by (simp_all add: NVMEV_IO_WORKER_FINAL_def NVMEV_DISPATCHER_FINAL_def)
  then have "conv_of ?d = Some ns" using assms(4) by (simp add: conv_of_def)
  then have "clean_command ev p i d md = Some (put_device i (set_drive ?d (Conv_drive (set_max_con (pm_max_con p) ns))) md)"
    using f by (simp add: clean_command_def Let_def)
  then show ?thesis using assms(1,2)
    by (intro exI[of _ "set_drive ?d (Conv_drive (set_max_con (pm_max_con p) ns))"])
      (simp add: run_command_def conv_of_def set_drive_def NVMEV_IO_WORKER_FINAL_def NVMEV_DISPATCHER_FINAL_def)
qed

end
