(* ===== verification/Spec2Isabelle.thy ===== *)
theory Spec2Isabelle
  imports Conv_Props Zns_Props Core_Props Simple_Ftl Controller_Props Kv_Props Save_Load_Props Phfrag_Props Zns_Dump_Props Pci_Props Device_Props
begin

text \<open>
  A verification library for the NVMe drive emulator.

  The program is a kernel module that presents memory as an NVMe drive and delays each command by the time a modelled
  solid-state drive would need.  A host finds the drive through a PCI configuration space and sets the controller up
  through registers.  A dispatcher takes commands from the submission queues and hands each to the command processor of
  its namespace, which runs a flash translation layer and computes a completion time; I/O workers copy the data and post
  completions when this time has come.  Drives are created, deleted, saved, loaded and rewritten by commands written to a
  configuration file.

  Conventions.  Prelude holds the error monad: \<^typ>\<open>'a option\<close>, where None is a failed assertion, a
  null pointer, an access outside an array, or a loop without end.  A theorem that an operation gives
  \<open>Some\<close> therefore states both that it does not crash and that it returns.  Loops that need not end are
  \<^theory_text>\<open>partial_function (option)\<close>; where the code relies on their end it is proved.  C
  structures are records, pointers to elements of an array are indices, the intrusive lists of the kernel are lists of
  indices, and integers have their width or the wrap-around written out where it can matter.  Random numbers, the
  clock, memory contents that are not initialised, the functions of the kernel that read numbers and split texts, and
  the memory map of the machine are parameters.

  Shared parts.
  Pqueue models \<^verbatim>\<open>pqueue/pqueue.c\<close>; the locale \<open>pqueue_client\<close> states what a heap
  needs of its five call-backs and is interpreted on the queue of victim lines in Conv\_Ftl. Channel\_Model models
  \<^verbatim>\<open>channel_model.c\<close> at its machine widths, Ssd\_Config the configurations of
  \<^verbatim>\<open>ssd_config.c\<close>, Ssd the file \<^verbatim>\<open>ssd.c\<close>: geometry, flash arrays,
  write buffer and the time of a NAND command. Core\_Props proves that the queue sorts and that the geometry computed
  for 4 bytes to 32 TiB is well formed. Nvmev holds commands, requests and results, Samples the concrete inputs that
  witnesses share.

  The page-mapped drive (\<^verbatim>\<open>conv_ftl.c\<close>).
  Conv\_Ftl models a partition: mapping tables, lines, the two write pointers, flow control, garbage collection, and
  the version of the pointers that leaves dies out.  Conv\_Inv states the invariant: the two tables are inverse to
  each other, counts of valid and invalid pages are right, every line is in exactly one place, the victim queue is a
  heap.  Conv\_Ops, Conv\_Step, Conv\_Gc and Conv\_Write prove that each operation keeps it and what it does to the
  mapping.  Conv\_Ns models the namespace with its partitions, Conv\_Ns\_Proof its operations, Conv\_Device the drive
  as it is configured; Conv\_Props holds the properties, refinement of a map from logical pages to written pages among
  them, and after any commands the bijection of the pages that were stored with the valid flash pages.

  The drive with zones (\<^verbatim>\<open>zns_ftl.c\<close>, \<^verbatim>\<open>zns_mgmt_send.c\<close>,
  \<^verbatim>\<open>zns_mgmt_recv.c\<close>, \<^verbatim>\<open>zns_read_write.c\<close>). Zns\_Ftl holds the state
  and the address arithmetic, Zns\_Mgmt the management of zones, Zns\_Rw writes, appends, writes to random write areas
  and reads.  Zns\_Inv states the invariant (resource counts, write pointers), Zns\_Ops and Zns\_Write relate each
  command to a step of an abstract zone machine, Zns\_Device treats the configured drive, Zns\_Props the properties.
  The invariant is for drives without random write areas, as \<^verbatim>\<open>load_zns_configs\<close> makes them,
  of less than 2 TiB, where the products of zone numbers and zone sizes do not wrap.  A report is built in the drive's
  buffer and copied to the host in the length the host names; a length behind the buffer is None.

  Other command processors.
  Simple\_Ftl models \<^verbatim>\<open>simple_ftl.c\<close>.  Kv\_Table and Kv\_Ftl model
  \<^verbatim>\<open>kv_ftl.c\<close>, \<^verbatim>\<open>append_only.c\<close> and
  \<^verbatim>\<open>bitmap.c\<close>; Kv\_Inv shows that the links of the hash table never form a cycle, so that
  lookups end, and Kv\_Props that what is stored is retrieved and how keys can be lost.

  Data transfer, queues and workers (\<^verbatim>\<open>io.c\<close>).
  Prp defines the walk over the pages of a command once, with the locale \<open>prp_copy\<close> of what an action on
  a piece has to do, interpreted there for zone reports, in Io\_Copy for reads, writes and appends, in Kv\_Props for
  values.  Io\_Copy also proves that the variant for a copy engine has the same effect.  Io\_Worker models work items,
  filing, reclaiming, the worker and its completions.  Io\_Queue relates the threaded lists to lists of item numbers,
  and Io\_Proto interleaves dispatcher and worker in arbitrary order: accepted requests are finished exactly once, and
  items that are not due are in the order of their times.  Io\_Dispatch states what the dispatcher relies on as the
  locale \<open>command_processor\<close> and interprets it on the page-mapped and the zoned drive.

  The controller.
  Admin models \<^verbatim>\<open>admin.c\<close> with its structures byte by byte.  Controller models
  \<^verbatim>\<open>nvmev_proc_bars\<close> of \<^verbatim>\<open>pci.c\<close> and the dispatcher of
  \<^verbatim>\<open>main.c\<close>; Controller\_Props proves that a round over the I/O doorbells serves every queue
  and counts the commands in flight, under the conditions of \<open>round_ready\<close> and \<open>room_behind\<close>
  (legal commands, completions that were there, an entry mapped behind a completion queue whose doorbell wraps), that
  register changes settle, and that every administration command but an abort is answered. Pci\_Config models the rest
  of \<^verbatim>\<open>pci.c\<close> and the structures of \<^verbatim>\<open>pci.h\<close>; Pci\_Props proves which
  bits a host can change and that it finds the drive.  The walks over the capabilities in Pci\_Props are those of a
  host and belong to the specification; their fuel of 48 and 60 is what a configuration space of 256 and 4096 bytes
  has room for.

  Saving and loading.
  Dump\_File treats files, with the locales \<open>codec\<close> and \<open>fixed_codec\<close> of a writer and its
  reader; their interpretations carry the loops over tables.  Save\_Load, Save\_Load\_Proof and Save\_Load\_Props
  treat \<^verbatim>\<open>save_load.c\<close>, Zns\_Dump, Zns\_Dump\_Proof and Zns\_Dump\_Props
  \<^verbatim>\<open>zns_save_load.c\<close>: loading what was saved restores the tables and the data, for a
  page-mapped drive all but its write credits, which are not in the file.  The bounds of these theorems are those of a
  single call of the kernel, which moves just below 2 GiB, and of an \<^verbatim>\<open>int\<close> as the length of a
  zone.  \<^verbatim>\<open>load_device\<close> reads eight bytes into a variable of four; the parameter
  \<open>spare\<close> is the number of unused bytes of the stack behind it, and with less than four the load is None.

  Physical fragmentation (\<^verbatim>\<open>clean_ftl\<close> in \<^verbatim>\<open>main.c\<close>,
  \<^verbatim>\<open>phfrag_cleaner\<close> in \<^verbatim>\<open>conv_ftl.c\<close>,
  \<^verbatim>\<open>check_phfrag.c\<close>). Phfrag\_Clean models the rewriting of a range, Phfrag\_Lists the ranges
  of mapped pages and the check, Phfrag\_Sched the rewriting of a drive.  Phfrag\_Inv, Phfrag\_Sched\_Proof and
  Phfrag\_Loop show that rewriting keeps the invariant, writes every page and ends, when the first run of mapped pages
  reaches every partition; the measure is the pages that are left, with the random numbers arbitrary.  Phfrag\_Split
  treats the ranges, Phfrag\_Count the check, Phfrag\_Limits where both leave the intended path, Phfrag\_Props the
  properties.

  Drives (\<^verbatim>\<open>main.c\<close>).
  Device\_Setup models the parameters of a command, their checks, the configuration, the namespaces, the threads of
  dispatcher and workers, creation and deletion and the list of drives; Device\_Commands the commands of the
  configuration file and the files of a drive.  Device\_Props proves that a drive created with two processors or more
  serves the host, its namespace and, in every state it reaches in service (\<open>in_service\<close>), its
  dispatcher; that with fewer the first command divides by zero; what commands and sizes are understood, and how
  drives are counted.

  Not modelled.
  \<^verbatim>\<open>ch_die_check\<close> in \<^verbatim>\<open>check_phfrag.c\<close> with its copy of the timing
  model: every call is commented out. \<^verbatim>\<open>dma.c\<close>: requests to the copy engines of the kernel;
  what the drive relies on, the copy, is an action of Io\_Copy. \<^verbatim>\<open>pqueue/pqueue_linked.c\<close> is
  neither built nor called, \<^verbatim>\<open>nvmev.mod.c\<close> is generated by the kernel build. The creation of
  kernel threads, which is taken to succeed, and the registration of files and buses are calls of the kernel; which
  threads there are and the loop bodies of the threads are modelled.  Freed memory is left out except where a freed
  object is used again.  Of texts only the numbers printed are modelled, and messages to the log are not.\<close>

end
